(* ===== verification/Prelude.thy ===== *)
theory Prelude
  imports Main "HOL-Library.AList"
begin

text \<open>
  Shared vocabulary of the development: the errors the TypeScript code throws, sums as
  results, JavaScript's insertion-ordered \<open>Map\<close> as an association list, folds that
  stop at the first error, runs of consecutive sequence numbers, and decimal printing
  of the numbers that the code puts into keys and messages.
\<close>

section \<open>Collections of facts\<close>

named_theorems frames \<open>which parts of a state an operation leaves alone\<close>

section \<open>Errors\<close>

text \<open>
  The error classes of \<open>core/journal-store.ts\<close> and \<open>core/call/circuit-breaker.ts\<close>,
  plain \<open>new Error(message)\<close>, and errors of libraries that carry a \<open>cause\<close>, given by its text. A throwing function returns \<open>Inl\<close> of the error.
\<close>

datatype js_error =
    JsError string
  | SnapshotDecodeError string string js_error
  | DuplicateSequenceNrError string string nat
  | CircuitOpenError string
  | CausedError string string

definition is_snapshot_decode_error :: "js_error \<Rightarrow> bool" where
  "is_snapshot_decode_error e = (case e of SnapshotDecodeError _ _ _ \<Rightarrow> True | _ \<Rightarrow> False)"

section \<open>Decimal printing\<close>

text \<open>JavaScript's \<open>String(n)\<close> for the integers the code prints.\<close>

definition digit_char :: "nat \<Rightarrow> char" where
  "digit_char d = char_of (48 + d)"

fun nat_str :: "nat \<Rightarrow> string" where
  "nat_str n = (if n < 10 then [digit_char n] else nat_str (n div 10) @ [digit_char (n mod 10)])"

declare nat_str.simps [simp del]

definition int_str :: "int \<Rightarrow> string" where
  "int_str i = (if i < 0 then CHR ''-'' # nat_str (nat (- i)) else nat_str (nat i))"

definition digit_val :: "char \<Rightarrow> nat" where
  "digit_val c = of_char c - 48"

text \<open>JavaScript's \<open>Number(s)\<close> on the strings that \<open>int_str\<close> produces.\<close>

definition str_nat :: "string \<Rightarrow> nat" where
  "str_nat s = foldl (\<lambda>n c. 10 * n + digit_val c) 0 s"

definition str_int :: "string \<Rightarrow> int" where
  "str_int s = (case s of [] \<Rightarrow> 0
     | c # cs \<Rightarrow> if c = CHR ''-'' then - int (str_nat cs) else int (str_nat s))"

lemma digit_val_char [simp]: "d < 10 \<Longrightarrow> digit_val (digit_char d) = d"
  by (simp add: digit_val_def digit_char_def)

lemma digit_char_not_minus: "d < 10 \<Longrightarrow> digit_char d \<noteq> CHR ''-''"
proof
  assume "d < 10" and eq: "digit_char d = CHR ''-''"
  from eq have "(of_char (digit_char d) :: nat) = of_char (CHR ''-'')" by simp
  with \<open>d < 10\<close> show False by (simp add: digit_char_def)
qed

lemma nat_str_nonempty [simp]: "nat_str n \<noteq> []"
  by (subst nat_str.simps) simp

lemma hd_nat_str: "\<exists>d < 10. hd (nat_str n) = digit_char d"
proof (induction n rule: nat_str.induct)
  case (1 n)
  then show ?case
    by (cases "n < 10") (auto simp: nat_str.simps [of n])
qed

lemma str_nat_nat_str [simp]: "str_nat (nat_str n) = n"
proof (induction n rule: nat_str.induct)
  case (1 n)
  then show ?case
    by (cases "n < 10") (simp_all add: nat_str.simps [of n] str_nat_def)
qed

lemma str_int_int_str [simp]: "str_int (int_str i) = i"
proof (cases "i < 0")
  case True
  then show ?thesis by (simp add: int_str_def str_int_def)
next
  case False
  obtain d where "d < 10" "hd (nat_str (nat i)) = digit_char d" using hd_nat_str by blast
  then obtain c cs where s: "nat_str (nat i) = c # cs" "c \<noteq> CHR ''-''"
    by (metis digit_char_not_minus list.collapse nat_str_nonempty)
  from False s have "str_int (int_str i) = int (str_nat (nat_str (nat i)))"
    by (simp add: int_str_def str_int_def)
  with False show ?thesis by simp
qed

lemma int_str_inject [simp]: "int_str i = int_str j \<longleftrightarrow> i = j"
  by (metis str_int_int_str)

section \<open>Text\<close>

text \<open>Lower case of an ASCII character, and \<open>includes\<close>.\<close>

definition ascii_lower :: "char \<Rightarrow> char" where
  "ascii_lower c =
     (let n = of_char c :: nat in if 65 \<le> n \<and> n \<le> 90 then char_of (n + 32) else c)"

fun starts_with :: "string \<Rightarrow> string \<Rightarrow> bool" where
  "starts_with s [] = True"
| "starts_with [] (c # cs) = False"
| "starts_with (x # xs) (c # cs) = (x = c \<and> starts_with xs cs)"

fun str_includes :: "string \<Rightarrow> string \<Rightarrow> bool" where
  "str_includes [] w = (w = [])"
| "str_includes (x # xs) w = (starts_with (x # xs) w \<or> str_includes xs w)"

text \<open>\<open>xs.join(sep)\<close>.\<close>

fun join_str :: "string \<Rightarrow> string list \<Rightarrow> string" where
  "join_str sep [] = []"
| "join_str sep [x] = x"
| "join_str sep (x # y # ys) = x @ sep @ join_str sep (y # ys)"

section \<open>Error messages\<close>

text \<open>\<open>err.name\<close>, \<open>err.message\<close> and \<open>String(err)\<close>, which is \<open>name: message\<close>.\<close>

definition error_name :: "js_error \<Rightarrow> string" where
  "error_name e = (case e of SnapshotDecodeError _ _ _ \<Rightarrow> ''SnapshotDecodeError''
     | DuplicateSequenceNrError _ _ _ \<Rightarrow> ''DuplicateSequenceNrError'' | _ \<Rightarrow> ''Error'')"

fun error_message :: "js_error \<Rightarrow> string" where
  "error_message (JsError m) = m"
| "error_message (SnapshotDecodeError c e cause) =
     ''Failed to decode snapshot for '' @ c @ ''/'' @ e @ '': '' @ error_name cause @ '': '' @ error_message cause"
| "error_message (DuplicateSequenceNrError c e n) =
     ''Duplicate sequence number '' @ nat_str n @ '' for '' @ c @ ''/'' @ e"
| "error_message (CircuitOpenError n) = ''circuit_open: '' @ n"
| "error_message (CausedError m c) = m"

text \<open>\<open>e.cause ?? ""\<close>; the classes of the repository have none.\<close>

definition error_cause :: "js_error \<Rightarrow> string" where
  "error_cause e = (case e of CausedError _ c \<Rightarrow> c | _ \<Rightarrow> [])"

definition error_string :: "js_error \<Rightarrow> string" where
  "error_string e = error_name e @ '': '' @ error_message e"

section \<open>Insertion-ordered maps\<close>

text \<open>
  A JavaScript \<open>Map\<close> iterates in insertion order and \<open>set\<close> on a present key keeps its
  place: \<open>map_of\<close> reads, \<open>AList.update\<close> writes, \<open>AList.delete\<close> removes.
\<close>

type_synonym ('k, 'v) jsmap = "('k \<times> 'v) list"

abbreviation js_get :: "('k, 'v) jsmap \<Rightarrow> 'k \<Rightarrow> 'v option" where
  "js_get \<equiv> map_of"

abbreviation js_set :: "'k \<Rightarrow> 'v \<Rightarrow> ('k, 'v) jsmap \<Rightarrow> ('k, 'v) jsmap" where
  "js_set \<equiv> AList.update"

abbreviation js_delete :: "'k \<Rightarrow> ('k, 'v) jsmap \<Rightarrow> ('k, 'v) jsmap" where
  "js_delete \<equiv> AList.delete"

abbreviation js_values :: "('k, 'v) jsmap \<Rightarrow> 'v list" where
  "js_values \<equiv> map snd"

definition js_of_list :: "('k \<times> 'v) list \<Rightarrow> ('k, 'v) jsmap" where
  "js_of_list xs = fold (\<lambda>(k, v) m. js_set k v m) xs []"

definition js_wf :: "('k, 'v) jsmap \<Rightarrow> bool" where
  "js_wf m = distinct (map fst m)"

lemma js_get_set [simp]: "js_get (js_set k v m) k' = (if k' = k then Some v else js_get m k')"
  by (simp add: update_conv')

lemma js_get_delete [simp]: "js_get (js_delete k m) k' = (if k' = k then None else js_get m k')"
  by (simp add: delete_conv')

lemma js_wf_Nil [simp, intro]: "js_wf []"
  by (simp add: js_wf_def)

lemma js_wf_set [simp, intro]: "js_wf m \<Longrightarrow> js_wf (js_set k v m)"
  by (simp add: js_wf_def distinct_update)

lemma js_wf_delete [simp, intro]: "js_wf m \<Longrightarrow> js_wf (js_delete k m)"
  by (simp add: js_wf_def distinct_delete)

lemma js_of_list_append [simp]: "js_of_list (xs @ [(k, v)]) = js_set k v (js_of_list xs)"
  by (simp add: js_of_list_def)

lemma js_of_list_Nil [simp]: "js_of_list [] = []"
  by (simp add: js_of_list_def)

lemma js_wf_of_list [simp]: "js_wf (js_of_list xs)"
  by (induction xs rule: rev_induct) auto

lemma fst_js_of_list [simp]: "fst ` set (js_of_list xs) = fst ` set xs"
proof (induction xs rule: rev_induct)
  case (snoc x xs)
  then show ?case by (cases x) (simp add: dom_update insert_commute)
qed simp

lemma js_get_of_list: "js_get (js_of_list xs) k = map_of (rev xs) k"
  by (induction xs rule: rev_induct) auto

lemma length_js_of_list: "length (js_of_list xs) = card (fst ` set xs)"
  by (metis distinct_card fst_js_of_list js_wf_def js_wf_of_list length_map set_map)

lemma js_of_list_distinct: "distinct (map fst xs) \<Longrightarrow> js_of_list xs = xs"
proof (induction xs rule: rev_induct)
  case (snoc x xs)
  then obtain k v where x: "x = (k, v)" "k \<notin> fst ` set xs" by (cases x) auto
  have "js_set k v m = m @ [(k, v)]" if "k \<notin> fst ` set m" for m :: "('a, 'b) jsmap"
    using that by (induction m) auto
  with x snoc show ?case by simp
qed simp

section \<open>JavaScript sets\<close>

text \<open>A set in insertion order: the list of its elements, each once.\<close>

definition js_add :: "'a \<Rightarrow> 'a list \<Rightarrow> 'a list" where
  "js_add x xs = (if x \<in> set xs then xs else xs @ [x])"

definition js_set_of :: "'a list \<Rightarrow> 'a list" where
  "js_set_of xs = foldl (\<lambda>s x. js_add x s) [] xs"

lemma set_js_add [simp]: "set (js_add x xs) = insert x (set xs)"
  by (auto simp: js_add_def)

lemma distinct_js_add [simp]: "distinct (js_add x xs) = distinct xs"
  by (simp add: js_add_def)

lemma foldl_js_add: "set (foldl (\<lambda>s x. js_add x s) ys xs) = set ys \<union> set xs
    \<and> (distinct ys \<longrightarrow> distinct (foldl (\<lambda>s x. js_add x s) ys xs))"
  by (induction xs arbitrary: ys) auto

lemma set_js_set_of [simp]: "set (js_set_of xs) = set xs"
  using foldl_js_add [of "[]" xs] by (simp add: js_set_of_def)

lemma distinct_js_set_of [simp]: "distinct (js_set_of xs)"
  using foldl_js_add [of "[]" xs] by (simp add: js_set_of_def)

text \<open>A sum over the values of a map, and what writing one entry does to it.\<close>

definition js_total :: "('v \<Rightarrow> 'a::comm_monoid_add) \<Rightarrow> ('k, 'v) jsmap \<Rightarrow> 'a" where
  "js_total f m = sum_list (map (\<lambda>x. f (snd x)) m)"

lemma js_total_zero: "\<forall>x \<in> set m. f (snd x) = 0 \<Longrightarrow> js_total f m = 0"
  by (induction m) (auto simp: js_total_def)

lemma js_total_set:
  assumes "js_get m k = Some v"
  shows "js_total f (js_set k v' m) + f v = js_total f m + f v'"
  using assms
proof (induction m)
  case (Cons x m)
  show ?case
  proof (cases "fst x = k")
    case True
    with Cons.prems show ?thesis by (cases x) (simp add: js_total_def ac_simps)
  next
    case False
    with Cons.prems have "js_get m k = Some v" by (cases x) auto
    from Cons.IH [OF this] False show ?thesis by (cases x) (simp add: js_total_def ac_simps)
  qed
qed simp

lemma js_total_set_same:
  assumes "js_get m k = Some v" "f v' = f v"
  shows "js_total f (js_set k v' m) = (js_total f m :: 'a::cancel_comm_monoid_add)"
  using js_total_set [OF assms(1), of f v'] assms(2) by simp

section \<open>Folds that stop at the first error\<close>

fun foldE :: "('s \<Rightarrow> 'e \<Rightarrow> 'x + 's) \<Rightarrow> 's \<Rightarrow> 'e list \<Rightarrow> 'x + 's" where
  "foldE f s [] = Inr s"
| "foldE f s (e # es) = (case f s e of Inl x \<Rightarrow> Inl x | Inr s' \<Rightarrow> foldE f s' es)"

lemma foldE_append:
  "foldE f s (xs @ ys) = (case foldE f s xs of Inl x \<Rightarrow> Inl x | Inr s' \<Rightarrow> foldE f s' ys)"
  by (induction xs arbitrary: s) (auto split: sum.splits)

lemma foldE_total: "foldE (\<lambda>s e. Inr (f s e)) s es = Inr (foldl f s es)"
  by (induction es arbitrary: s) auto

section \<open>Consecutive numbers\<close>

text \<open>\<open>numbered n xs\<close>: the numbers are \<open>n + 1, n + 2, \<dots>\<close>.\<close>

fun numbered :: "nat \<Rightarrow> nat list \<Rightarrow> bool" where
  "numbered n [] = True"
| "numbered n (x # xs) = (x = Suc n \<and> numbered (Suc n) xs)"

lemma numbered_append:
  "numbered n (xs @ ys) \<longleftrightarrow> numbered n xs \<and> numbered (n + length xs) ys"
  by (induction xs arbitrary: n) auto

lemma numbered_upt [simp]: "numbered n [Suc n ..< Suc n + k]"
  by (induction k) (auto simp: numbered_append)

lemma numbered_map_upt [simp]: "numbered n (map (\<lambda>i. Suc (n + i)) [0 ..< k])"
  by (induction k) (auto simp: numbered_append)

lemma numbered_set: "numbered n xs \<Longrightarrow> set xs = {n + 1 .. n + length xs}"
  by (induction xs arbitrary: n) auto

lemma numbered_distinct: "numbered n xs \<Longrightarrow> distinct xs"
proof (induction xs arbitrary: n)
  case (Cons x xs)
  then show ?case using numbered_set [of "Suc n" xs] by auto
qed simp

lemma map_upt_shift: "map (\<lambda>i. Suc (n + i)) [0 ..< k] = [Suc n ..< Suc n + k]"
  by (induction k) auto

lemma map_zip_index: "map (\<lambda>(i, e). f i) (zip [0 ..< length es] es) = map f [0 ..< length es]"
proof -
  have "map (\<lambda>(i, e). f i) zs = map f (map fst zs)" for zs :: "(nat \<times> 'b) list"
    by (induction zs) auto
  then show ?thesis by (simp only: map_fst_zip length_upt minus_nat.diff_0)
qed

lemma numbered_filter_gt:
  assumes "numbered 0 xs" "k \<le> length xs"
  shows "filter (\<lambda>s. k < s) xs = drop k xs"
proof -
  have "xs = take k xs @ drop k xs" by simp
  from assms have t: "numbered 0 (take k xs)" and d: "numbered k (drop k xs)"
    using numbered_append [of 0 "take k xs" "drop k xs"] by (auto simp: min_absorb2)
  have "filter (\<lambda>s. k < s) (take k xs) = []"
    using numbered_set [OF t] assms(2) by (auto simp: filter_empty_conv min_absorb2)
  moreover have "filter (\<lambda>s. k < s) (drop k xs) = drop k xs"
    using numbered_set [OF d] by (auto simp: filter_id_conv)
  ultimately show ?thesis
    using filter_append [of "\<lambda>s. k < s" "take k xs" "drop k xs"] by simp
qed

section \<open>Fibonacci numbers\<close>

text \<open>\<open>fib_nat n\<close> is \<open>F_n\<close> with \<open>F_1 = F_2 = 1\<close>: what the backoff loops compute.\<close>

fun fib_nat :: "nat \<Rightarrow> nat" where
  "fib_nat 0 = 0"
| "fib_nat (Suc 0) = 1"
| "fib_nat (Suc (Suc n)) = fib_nat (Suc n) + fib_nat n"

lemma fib_nat_pos: "0 < n \<Longrightarrow> 0 < fib_nat n"
  by (induction n rule: fib_nat.induct) auto

lemma fib_nat_mono_Suc: "0 < n \<Longrightarrow> fib_nat n \<le> fib_nat (Suc n)"
  by (cases n) auto

lemma fib_nat_mono: "0 < m \<Longrightarrow> m \<le> n \<Longrightarrow> fib_nat m \<le> fib_nat n"
proof (induction n)
  case (Suc n)
  then show ?case by (cases "m = Suc n") (auto intro: order_trans [OF _ fib_nat_mono_Suc])
qed simp

text \<open>The loop keeps the last two numbers.\<close>

fun fib_loop :: "nat \<Rightarrow> nat \<Rightarrow> nat \<Rightarrow> nat" where
  "fib_loop a b 0 = b"
| "fib_loop a b (Suc k) = fib_loop b (a + b) k"

lemma fib_loop_eq: "fib_loop (fib_nat (Suc n)) (fib_nat (Suc (Suc n))) k = fib_nat (Suc (Suc (n + k)))"
proof (induction k arbitrary: n)
  case (Suc k)
  show ?case using Suc [of "Suc n"] by (simp add: add.commute)
qed simp

lemma fib_loop_from_ones: "2 \<le> n \<Longrightarrow> fib_loop 1 1 (n - 2) = fib_nat n"
proof -
  assume "2 \<le> n"
  then have "Suc (Suc (n - 2)) = n" by simp
  with fib_loop_eq [of 0 "n - 2"] show ?thesis by (simp only: add_0) simp
qed

end
