(* ===== verification/Ulid.thy ===== *)
theory Ulid
  imports Prelude "HOL-Library.Char_ord" "HOL-Library.List_Lexorder"
begin

text \<open>
  \<open>core/ulid.ts\<close>: monotonic identifiers of ten digits of time and sixteen of randomness, in Crockford's
  base 32. The module's variables are the record \<open>ulid_state\<close>; the bytes of
  \<open>randomFillSync\<close> and the clock are arguments.
\<close>

section \<open>The alphabet\<close>

definition ENCODING :: string where
  "ENCODING = ''0123456789ABCDEFGHJKMNPQRSTVWXYZ''"

definition TIME_LEN :: nat where "TIME_LEN = 10"
definition RANDOM_LEN :: nat where "RANDOM_LEN = 16"

definition toUpperCase :: "char \<Rightarrow> char" where
  "toUpperCase c = (let n = of_char c :: nat in if 97 \<le> n \<and> n \<le> 122 then char_of (n - 32) else c)"

text \<open>The table, with Crockford's aliases.\<close>

definition DECODE :: "(char, nat) jsmap" where
  "DECODE = js_set (CHR ''L'') 1 (js_set (CHR ''I'') 1 (js_set (CHR ''O'') 0 (zip ENCODING [0 ..< 32])))"

section \<open>Encoding\<close>

text \<open>Both loops: the last digit first, each put in front; \<open>v & 31\<close> is \<open>v mod 32\<close> and \<open>v >>= 5\<close> is \<open>v div 32\<close>.\<close>

fun encode_digits :: "nat \<Rightarrow> nat \<Rightarrow> string \<Rightarrow> string" where
  "encode_digits 0 v out = out"
| "encode_digits (Suc k) v out = encode_digits k (v div 32) (ENCODING ! (v mod 32) # out)"

definition encodeTime :: "nat \<Rightarrow> string" where "encodeTime t = encode_digits TIME_LEN t []"
definition encodeRandom :: "nat \<Rightarrow> string" where "encodeRandom v = encode_digits RANDOM_LEN v []"

section \<open>Generating\<close>

definition freshRandom :: "nat list \<Rightarrow> nat" where
  "freshRandom bytes = foldl (\<lambda>v b. v * 256 + b) 0 bytes"

text \<open>\<open>lastTime\<close> is -1 before the first call. \<open>RANDOM_MASK\<close> keeps 80 bits.\<close>

record ulid_state =
  lastTime :: int
  lastRandom :: nat

definition ulid_init :: ulid_state where
  "ulid_init = \<lparr>lastTime = -1, lastRandom = 0\<rparr>"

definition ulid :: "int \<Rightarrow> nat list \<Rightarrow> ulid_state \<Rightarrow> string \<times> ulid_state" where
  "ulid time bytes st =
     (let st' = (if time \<le> lastTime st then st\<lparr>lastRandom := (lastRandom st + 1) mod 2 ^ 80\<rparr>
                 else \<lparr>lastTime = time, lastRandom = freshRandom bytes\<rparr>)
      in (encodeTime (nat (lastTime st')) @ encodeRandom (lastRandom st'), st'))"

section \<open>Reading the time back\<close>

fun decode_time :: "string \<Rightarrow> string \<Rightarrow> nat \<Rightarrow> js_error + nat" where
  "decode_time i [] t = Inr t"
| "decode_time i (c # cs) t =
     (case js_get DECODE (toUpperCase c) of
        None \<Rightarrow> Inl (JsError (''Invalid ULID character '' @ [CHR 0x22, c, CHR 0x22] @ '' in: '' @ i))
      | Some v \<Rightarrow> decode_time i cs (t * 32 + v))"

definition ulidTime :: "string \<Rightarrow> js_error + nat" where
  "ulidTime i =
     (if length i < TIME_LEN then Inl (JsError (''Invalid ULID: '' @ i))
      else decode_time i (take TIME_LEN i) 0)"

section \<open>Digits\<close>

text \<open>A number below \<open>32 ^ k\<close> is written with \<open>k\<close> digits, most significant first.\<close>

fun digits32 :: "nat \<Rightarrow> nat \<Rightarrow> nat list" where
  "digits32 0 v = []"
| "digits32 (Suc k) v = digits32 k (v div 32) @ [v mod 32]"

lemma encode_digits_eq: "encode_digits k v out = map (\<lambda>d. ENCODING ! d) (digits32 k v) @ out"
  by (induction k arbitrary: v out) simp_all

lemma digits32_length [simp]: "length (digits32 k v) = k"
  by (induction k arbitrary: v) simp_all

lemma digits32_less: "d \<in> set (digits32 k v) \<Longrightarrow> d < 32"
  by (induction k arbitrary: v) auto

lemma digits32_value: "foldl (\<lambda>t d. t * 32 + d) 0 (digits32 k v) = v mod 32 ^ k"
  by (induction k arbitrary: v) (simp_all add: mod_mult2_eq mult.commute)

lemma length_ENCODING [simp]: "length ENCODING = 32"
  by (simp add: ENCODING_def)

lemma ENCODING_increasing: "sorted_wrt (<) ENCODING"
  by (simp add: ENCODING_def less_char_def)

lemma ENCODING_less: "i < j \<Longrightarrow> j < 32 \<Longrightarrow> ENCODING ! i < ENCODING ! j"
  using sorted_wrt_nth_less [OF ENCODING_increasing, of i j] by simp

lemma decode_char: "d < 32 \<Longrightarrow> js_get DECODE (toUpperCase (ENCODING ! d)) = Some d"
proof -
  have "list_all (\<lambda>d. js_get DECODE (toUpperCase (ENCODING ! d)) = Some d) [0 ..< 32]"
    by code_simp
  then show "d < 32 \<Longrightarrow> ?thesis" by (simp add: list_all_iff)
qed

lemma decode_digits:
  "\<forall>d \<in> set ds. d < 32 \<Longrightarrow> decode_time i (map (\<lambda>d. ENCODING ! d) ds) t = Inr (foldl (\<lambda>t d. t * 32 + d) t ds)"
  by (induction ds arbitrary: t) (simp_all add: decode_char)

text \<open>Numbers of the same length compare as their digits do.\<close>

lemma digits32_mono:
  assumes "v < w" "w < 32 ^ k"
  shows "digits32 k v < digits32 k w"
  using assms
proof (induction k arbitrary: v w)
  case (Suc k)
  have w: "w div 32 < 32 ^ k" using Suc.prems(2) by (simp add: less_mult_imp_div_less mult.commute)
  show ?case
  proof (cases "v div 32 < w div 32")
    case True
    from Suc.IH [OF this w] have "(digits32 k (v div 32), digits32 k (w div 32)) \<in> lexord {(x, y). x < y}"
      by (simp add: list_less_def)
    then have "(digits32 k (v div 32) @ [v mod 32], digits32 k (w div 32) @ [w mod 32]) \<in> lexord {(x, y). x < y}"
      by (rule lexord_sufI) simp
    then show ?thesis by (simp add: list_less_def)
  next
    case False
    then have "v div 32 = w div 32" using div_le_mono [of v w 32] Suc.prems(1) by simp
    moreover from this have "v mod 32 < w mod 32" using Suc.prems(1) by (metis div_mult_mod_eq nat_add_left_cancel_less)
    ultimately show ?thesis by (simp add: list_less_def lexord_append_left_rightI)
  qed
qed simp

lemma map_ENCODING_mono:
  "xs < ys \<Longrightarrow> \<forall>d \<in> set ys. d < 32 \<Longrightarrow> map (\<lambda>d. ENCODING ! d) xs < map (\<lambda>d. ENCODING ! d) ys"
proof (induction xs arbitrary: ys)
  case Nil
  then show ?case by (cases ys) auto
next
  case (Cons x xs)
  then show ?case by (cases ys) (auto simp: ENCODING_less)
qed

lemma encode_mono:
  assumes "v < w" "w < 32 ^ k"
  shows "encode_digits k v [] < encode_digits k w []"
  using map_ENCODING_mono [OF digits32_mono [OF assms]] digits32_less by (simp add: encode_digits_eq)

lemma append_less_prefix: "xs < ys \<Longrightarrow> length ys \<le> length xs \<Longrightarrow> xs @ us < (ys @ vs :: 'a::order list)"
  unfolding list_less_def by (rule lexord_sufI)

lemma append_less_suffix: "us < vs \<Longrightarrow> xs @ us < (xs @ vs :: 'a::order list)"
  unfolding list_less_def by (rule lexord_append_leftI)

section \<open>What the identifiers are\<close>

definition ulid_ok :: "ulid_state \<Rightarrow> bool" where
  "ulid_ok st \<longleftrightarrow> -1 \<le> lastTime st \<and> lastTime st < 2 ^ 50 \<and> lastRandom st < 2 ^ 80"

text \<open>The identifier that a state has handed out.\<close>

definition ulid_of :: "ulid_state \<Rightarrow> string" where
  "ulid_of st = encodeTime (nat (lastTime st)) @ encodeRandom (lastRandom st)"

lemma freshRandom_less: "length bytes = k \<Longrightarrow> \<forall>b \<in> set bytes. b < 256 \<Longrightarrow> freshRandom bytes < 256 ^ k"
proof (induction bytes arbitrary: k rule: rev_induct)
  case (snoc b bytes)
  then have "freshRandom bytes < 256 ^ length bytes" by simp
  with snoc.prems show ?case by (auto simp: freshRandom_def)
qed (simp add: freshRandom_def)

text \<open>
  C40. Identifiers have 26 characters, their time can be read back, and they increase: for a clock
  below 2 to the 50 and ten random bytes, each identifier is lexicographically greater
  than the one before (if there is one), whether the clock moved forward, stood still or went back, unless
  the random part is full; the state stays in range.
\<close>

theorem ulid_monotonic_roundtrip:
  assumes "ulid_ok st" "0 \<le> time" "time < 2 ^ 50" "length bytes = 10" "\<forall>b \<in> set bytes. b < 256"
    and "ulid time bytes st = (i, st')"
  shows "length i = 26 \<and> i = ulid_of st' \<and> ulid_ok st' \<and> 0 \<le> lastTime st' \<and> max time (lastTime st) = lastTime st'
    \<and> ulidTime i = Inr (nat (lastTime st'))
    \<and> (0 \<le> lastTime st \<and> (lastTime st < time \<or> lastRandom st + 1 < 2 ^ 80) \<longrightarrow> ulid_of st < i)"
proof -
  have st': "st' = (if time \<le> lastTime st then st\<lparr>lastRandom := (lastRandom st + 1) mod 2 ^ 80\<rparr>
                 else \<lparr>lastTime = time, lastRandom = freshRandom bytes\<rparr>)" and i: "i = ulid_of st'"
    using assms(6) by (auto simp: ulid_def ulid_of_def Let_def)
  have fresh: "freshRandom bytes < 2 ^ 80" using freshRandom_less [OF assms(4,5)] by simp
  have ok: "ulid_ok st'" "0 \<le> lastTime st'" "max time (lastTime st) = lastTime st'"
    using assms(1-3) fresh by (auto simp: st' ulid_ok_def)
  have len: "length i = 26"
    by (simp add: i ulid_of_def encodeTime_def encodeRandom_def encode_digits_eq TIME_LEN_def RANDOM_LEN_def)
  have small: "nat (lastTime st') < 32 ^ TIME_LEN" using ok(1,2) by (simp add: ulid_ok_def TIME_LEN_def nat_less_iff)
  have "take TIME_LEN i = map (\<lambda>d. ENCODING ! d) (digits32 TIME_LEN (nat (lastTime st')))"
    by (simp add: i ulid_of_def encodeTime_def encode_digits_eq)
  then have time: "ulidTime i = Inr (nat (lastTime st'))"
    using len small digits32_less
    by (simp add: ulidTime_def TIME_LEN_def [symmetric] decode_digits digits32_value) (simp add: TIME_LEN_def)
  have "ulid_of st < i" if "0 \<le> lastTime st" "lastTime st < time \<or> lastRandom st + 1 < 2 ^ 80"
  proof (cases "time \<le> lastTime st")
    case True
    then have "lastRandom st < lastRandom st'" "lastRandom st' < 32 ^ RANDOM_LEN" "lastTime st' = lastTime st"
      using that by (simp_all add: st' RANDOM_LEN_def)
    then show ?thesis unfolding i ulid_of_def encodeRandom_def by (simp add: append_less_suffix encode_mono)
  next
    case False
    then have "nat (lastTime st) < nat (lastTime st')" using that(1) assms(2) by (auto simp: st')
    from encode_mono [OF this small] show ?thesis
      unfolding i ulid_of_def encodeTime_def by (rule append_less_prefix) (simp add: encode_digits_eq)
  qed
  with len i ok time show ?thesis by blast
qed

theorem ulid_monotonic_roundtrip_witness:
  "let r1 = ulid 1700000000000 [7, 7, 7, 7, 7, 7, 7, 7, 7, 7] ulid_init; r2 = ulid 1600000000000 [0, 0, 0, 0, 0, 0, 0, 0, 0, 0] (snd r1)
   in fst r1 < fst r2 \<and> ulidTime (fst r1) = Inr 1700000000000 \<and> length (fst r2) = 26"
proof -
  obtain i st where r1: "ulid 1700000000000 [7, 7, 7, 7, 7, 7, 7, 7, 7, 7] ulid_init = (i, st)" by fastforce
  obtain i' st' where r2: "ulid 1600000000000 [0, 0, 0, 0, 0, 0, 0, 0, 0, 0] st = (i', st')" by fastforce
  have "st = snd (ulid 1700000000000 [7, 7, 7, 7, 7, 7, 7, 7, 7, 7] ulid_init)" using r1 by simp
  then have st: "lastTime st = 1700000000000" "lastRandom st + 1 < 2 ^ 80"
    by (simp_all add: ulid_def ulid_init_def freshRandom_def)
  have init: "ulid_ok ulid_init" by (simp add: ulid_ok_def ulid_init_def)
  have r: "length i = 26 \<and> i = ulid_of st \<and> ulid_ok st \<and> 0 \<le> lastTime st \<and> max 1700000000000 (lastTime ulid_init) = lastTime st
    \<and> ulidTime i = Inr (nat (lastTime st))
    \<and> (0 \<le> lastTime ulid_init \<and> (lastTime ulid_init < 1700000000000 \<or> lastRandom ulid_init + 1 < 2 ^ 80) \<longrightarrow> ulid_of ulid_init < i)"
    by (rule ulid_monotonic_roundtrip [OF init _ _ _ _ r1]) simp_all
  then have ok: "ulid_ok st" and i: "i = ulid_of st" and time: "ulidTime i = Inr (nat (lastTime st))" by blast+
  note u = ulid_monotonic_roundtrip [OF ok _ _ _ _ r2]
  have "length i' = 26" by (rule u [THEN conjunct1]) simp_all
  moreover have "i < i'"
    unfolding i by (rule u [THEN conjunct2, THEN conjunct2, THEN conjunct2, THEN conjunct2, THEN conjunct2, THEN conjunct2, THEN mp])
      (use st in simp_all)
  ultimately show ?thesis using time st(1) r1 r2 by simp
qed

text \<open>When the random part is full the next identifier of the same millisecond is smaller.\<close>

lemma ulid_wraps:
  "fst (ulid 5 [] \<lparr>lastTime = 5, lastRandom = 2 ^ 80 - 1\<rparr>) < ulid_of \<lparr>lastTime = 5, lastRandom = 2 ^ 80 - 1\<rparr>"
proof -
  have "encodeRandom 0 < encodeRandom (2 ^ 80 - 1)"
    unfolding encodeRandom_def by (rule encode_mono) (simp_all add: RANDOM_LEN_def)
  then show ?thesis by (simp add: ulid_def ulid_of_def append_less_suffix)
qed

end
