(* ===== verification/Capability.thy ===== *)
theory Capability
  imports Prelude Complex_Main "HOL-Library.Sublist" "HOL-Library.Char_ord" "HOL-Library.List_Lexorder"
begin

text \<open>
  The capability memory of \<open>ai/capability\<close>: observations are compared with what is known (\<open>in-memory-store.ts\<close>),
  a rule-based decider (\<open>decider.ts\<close>) says whether to add, strengthen or revise, and the service
  (\<open>service.ts\<close>) applies the decision with the operations of \<open>optics.ts\<close>. Scores are rationals, characters are
  ASCII (any other character separates words); the clock and the random part of an identifier are arguments.
\<close>

section \<open>Data\<close>

datatype epistemic_status = Raw | Observation | Fact | Opinion

datatype capability_layer = Experience | Pattern | Principle | Heuristic | Procedure

datatype maturity = Observed | Recurring | Reliable | Foundational

text \<open>The maturities in the order of the source.\<close>

fun maturity_rank :: "maturity \<Rightarrow> nat" where
  "maturity_rank Observed = 0"
| "maturity_rank Recurring = 1"
| "maturity_rank Reliable = 2"
| "maturity_rank Foundational = 3"

lemma maturity_rank_inject: "maturity_rank a = maturity_rank b \<Longrightarrow> a = b"
  by (cases a; cases b) simp_all

instantiation maturity :: linorder
begin

definition less_eq_maturity :: "maturity \<Rightarrow> maturity \<Rightarrow> bool" where
  "a \<le> b \<longleftrightarrow> maturity_rank a \<le> maturity_rank b"

definition less_maturity :: "maturity \<Rightarrow> maturity \<Rightarrow> bool" where
  "a < b \<longleftrightarrow> maturity_rank a < maturity_rank b"

instance
  by standard (auto simp: less_eq_maturity_def less_maturity_def intro: maturity_rank_inject)

end

datatype capability_source = AgentObservation string string | HumanAuthored string

record evidence_ref =
  ev_roundId :: string
  ev_summary :: string
  ev_timestamp :: string

record entity_tag =
  et_key :: string
  et_value :: string

record 'm capability =
  cap_id :: string
  scopeKey :: string
  cap_name :: string
  layer :: capability_layer
  maturity :: maturity
  epistemicStatus :: epistemic_status
  confidence :: "rat option"
  content :: string
  evidence :: "evidence_ref list"
  validFrom :: string
  invalidAt :: "string option"
  source :: capability_source
  entities :: "entity_tag list"
  cap_metadata :: 'm
  createdAt :: string
  updatedAt :: string

definition human_authored :: "'m capability \<Rightarrow> bool" where
  "human_authored c = (case source c of HumanAuthored a \<Rightarrow> True | _ \<Rightarrow> False)"

section \<open>Names and identifiers\<close>

definition is_space :: "char \<Rightarrow> bool" where
  "is_space c \<longleftrightarrow> of_char c \<in> {9, 10, 11, 12, 13, 32 :: nat}"

definition trim :: "string \<Rightarrow> string" where
  "trim s = rev (dropWhile is_space (rev (dropWhile is_space s)))"

definition sentence_end :: "char \<Rightarrow> bool" where
  "sentence_end c \<longleftrightarrow> c \<in> {CHR ''.'', CHR ''!'', CHR ''?'', CHR 0x0A}"

text \<open>The match of \<open>/^[\s\S]+?[.!?\n]/\<close>: one character, then up to the first end of a sentence.\<close>

definition first_sentence :: "string \<Rightarrow> string option" where
  "first_sentence s =
     (case s of [] \<Rightarrow> None
      | c # cs \<Rightarrow>
          (let before = takeWhile (\<lambda>x. \<not> sentence_end x) cs
           in case drop (length before) cs of [] \<Rightarrow> None | e # rest \<Rightarrow> Some (c # before @ [e])))"

text \<open>The horizontal ellipsis, in its UTF-8 bytes.\<close>

definition ellipsis :: string where "ellipsis = [CHR 0xE2, CHR 0x80, CHR 0xA6]"

definition NAME_MAX :: nat where "NAME_MAX = 80"

definition deriveName :: "string \<Rightarrow> string" where
  "deriveName s =
     (let trimmed = trim s;
          m = (case first_sentence trimmed of Some x \<Rightarrow> x | None \<Rightarrow> trimmed);
          first = rev (dropWhile (\<lambda>c. is_space c \<or> c \<in> {CHR ''.'', CHR ''!'', CHR ''?''}) (rev m))
      in if length first \<le> NAME_MAX then first else take (NAME_MAX - 1) first @ ellipsis)"

text \<open>The four hexadecimal digits of the time, of the random number and of the counter.\<close>

definition shortId :: "string \<Rightarrow> string \<Rightarrow> string \<Rightarrow> string" where
  "shortId ts rnd counter = take 8 (ts @ rnd @ counter)"

definition generateCapabilityId :: "string \<Rightarrow> string \<Rightarrow> string \<Rightarrow> string" where
  "generateCapabilityId ts rnd counter = ''cap-'' @ shortId ts rnd counter"

record 'm new_capability_input =
  ni_scopeKey :: string
  ni_layer :: capability_layer
  ni_content :: string
  ni_source :: capability_source
  ni_entities :: "entity_tag list"
  ni_metadata :: 'm
  ni_epistemicStatus :: "epistemic_status option"
  ni_name :: "string option"
  ni_now :: string
  ni_confidence :: "rat option"

definition newCapability :: "string \<Rightarrow> 'm new_capability_input \<Rightarrow> 'm capability" where
  "newCapability i x =
     \<lparr>cap_id = i, scopeKey = ni_scopeKey x,
      cap_name = (case ni_name x of Some n \<Rightarrow> n | None \<Rightarrow> deriveName (ni_content x)),
      layer = ni_layer x, maturity = Observed,
      epistemicStatus = (case ni_epistemicStatus x of Some s \<Rightarrow> s | None \<Rightarrow> Raw),
      confidence = ni_confidence x, content = ni_content x, evidence = [], validFrom = ni_now x, invalidAt = None,
      source = ni_source x, entities = ni_entities x, cap_metadata = ni_metadata x,
      createdAt = ni_now x, updatedAt = ni_now x\<rparr>"

section \<open>Optics\<close>

definition autoPromote :: "'m capability \<Rightarrow> 'm capability" where
  "autoPromote c =
     (if maturity c = Observed \<and> 2 \<le> length (evidence c) then c\<lparr>maturity := Recurring\<rparr>
      else if maturity c = Recurring \<and> 4 \<le> length (evidence c) then c\<lparr>maturity := Reliable\<rparr>
      else c)"

definition strengthen :: "evidence_ref \<Rightarrow> string \<Rightarrow> 'm capability \<Rightarrow> 'm capability" where
  "strengthen ref now c = autoPromote (c\<lparr>evidence := evidence c @ [ref], updatedAt := now\<rparr>)"

text \<open>\<open>Inl\<close> of the identifier is \<open>CapabilityImmutableError\<close>.\<close>

definition revise :: "string \<Rightarrow> string \<Rightarrow> 'm capability \<Rightarrow> string + 'm capability" where
  "revise newContent now c =
     (if human_authored c then Inl (cap_id c) else Inr (c\<lparr>content := newContent, updatedAt := now\<rparr>))"

definition promote :: "maturity \<Rightarrow> string \<Rightarrow> 'm capability \<Rightarrow> 'm capability" where
  "promote to now c = c\<lparr>maturity := to, updatedAt := now\<rparr>"

definition retire :: "string \<Rightarrow> 'm capability \<Rightarrow> 'm capability" where
  "retire now c = c\<lparr>invalidAt := Some now, updatedAt := now\<rparr>"

section \<open>Similarity\<close>

definition STOP_WORDS :: "string list" where
  "STOP_WORDS = [''the'', ''and'', ''for'', ''are'', ''was'', ''were'', ''but'', ''not'', ''you'', ''your'', ''with'', ''this'',
     ''that'', ''from'', ''into'', ''have'', ''has'', ''had'', ''all'', ''any'', ''can'', ''will'', ''out'', ''over'', ''under'']"

definition word_char :: "char \<Rightarrow> bool" where
  "word_char c \<longleftrightarrow> (let n = of_char c :: nat in (97 \<le> n \<and> n \<le> 122) \<or> (48 \<le> n \<and> n \<le> 57))"

fun words_from :: "string \<Rightarrow> string \<Rightarrow> string list" where
  "words_from w [] = [w]"
| "words_from w (c # cs) = (if word_char c then words_from (w @ [c]) cs else w # words_from [] cs)"

text \<open>Runs of separators yield empty words here, which the length test drops as it drops the short ones.\<close>

definition tokenize :: "string \<Rightarrow> string list" where
  "tokenize s = js_set_of (filter (\<lambda>w. 3 \<le> length w \<and> w \<notin> set STOP_WORDS) (words_from [] (map ascii_lower s)))"

definition jaccard :: "string list \<Rightarrow> string list \<Rightarrow> rat" where
  "jaccard a b =
     (if a = [] \<and> b = [] then 0
      else
        (let inter = length (filter (\<lambda>x. x \<in> set b) a);
             union = length a + length b - inter
         in if union = 0 then 0 else of_nat inter / of_nat union))"

definition rankBySimilarity :: "'m capability list \<Rightarrow> string \<Rightarrow> ('m capability \<times> rat) list" where
  "rankBySimilarity items query =
     (let qTok = tokenize query
      in sort_key (\<lambda>r. - snd r) (map (\<lambda>c. (c, jaccard qTok (tokenize (content c)))) items))"

section \<open>The store\<close>

type_synonym 'm capability_store = "(string, 'm capability) jsmap"

definition cs_save :: "'m capability \<Rightarrow> 'm capability_store \<Rightarrow> 'm capability_store" where
  "cs_save c s = js_set (cap_id c) c s"

definition cs_get :: "string \<Rightarrow> 'm capability_store \<Rightarrow> 'm capability option" where
  "cs_get i s = js_get s i"

definition findSimilar :: "string \<Rightarrow> string \<Rightarrow> nat \<Rightarrow> 'm capability_store \<Rightarrow> 'm capability list" where
  "findSimilar query scope limit s =
     (let candidates = filter (\<lambda>c. scopeKey c = scope \<and> invalidAt c = None) (js_values s)
      in map fst (take limit (filter (\<lambda>r. 0 < snd r) (rankBySimilarity candidates query))))"

definition findByScope :: "string \<Rightarrow> capability_layer option \<Rightarrow> maturity option \<Rightarrow> bool \<Rightarrow> 'm capability_store \<Rightarrow> 'm capability list" where
  "findByScope scope l m includeRetired s =
     filter (\<lambda>c. scopeKey c = scope \<and> (l = None \<or> l = Some (layer c)) \<and> (m = None \<or> m = Some (maturity c))
       \<and> (includeRetired \<or> invalidAt c = None)) (js_values s)"

text \<open>Timestamps are ISO strings and compare as text.\<close>

definition findValid :: "string \<Rightarrow> string \<Rightarrow> 'm capability_store \<Rightarrow> 'm capability list" where
  "findValid scope asOf s =
     filter (\<lambda>c. scopeKey c = scope \<and> validFrom c \<le> asOf \<and> (case invalidAt c of None \<Rightarrow> True | Some u \<Rightarrow> asOf < u)) (js_values s)"

definition cs_update :: "string \<Rightarrow> ('m capability \<Rightarrow> 'e + 'm capability) \<Rightarrow> 'm capability_store \<Rightarrow> (js_error + 'e) + 'm capability_store" where
  "cs_update i transform s =
     (case js_get s i of
        None \<Rightarrow> Inl (Inl (JsError (''Capability not found: '' @ i)))
      | Some c \<Rightarrow> (case transform c of Inl e \<Rightarrow> Inl (Inr e) | Inr c' \<Rightarrow> Inr (js_set i c' s)))"

definition cs_all :: "string \<Rightarrow> 'm capability_store \<Rightarrow> 'm capability list" where
  "cs_all scope s = filter (\<lambda>c. scopeKey c = scope) (js_values s)"

section \<open>The decider\<close>

text \<open>The reason of a revision is a text that prints the score between the two thresholds.\<close>

datatype capability_decision =
    Add string capability_layer string "entity_tag list"
  | Strengthen string evidence_ref
  | Revise string string "rat \<times> rat \<times> rat"
  | Noop string

record 'm decider_input =
  di_observation :: string
  di_similar :: "'m capability list"
  di_source :: capability_source
  di_now :: string

record rule_based_decider =
  strengthenThreshold :: rat
  reviseThreshold :: rat
  defaultLayer :: capability_layer

definition RuleBasedDecider :: rule_based_decider where
  "RuleBasedDecider = \<lparr>strengthenThreshold = 1 / 2, reviseThreshold = 3 / 10, defaultLayer = Experience\<rparr>"

definition makeEvidence :: "'m decider_input \<Rightarrow> evidence_ref" where
  "makeEvidence x =
     \<lparr>ev_roundId = (case di_source x of AgentObservation a r \<Rightarrow> r | HumanAuthored a \<Rightarrow> ''human:'' @ a),
      ev_summary = (if length (di_observation x) \<le> 100 then di_observation x else take 97 (di_observation x) @ ''...''),
      ev_timestamp = di_now x\<rparr>"

definition addDecision :: "rule_based_decider \<Rightarrow> 'm decider_input \<Rightarrow> capability_decision" where
  "addDecision d x = Add (deriveName (di_observation x)) (defaultLayer d) (di_observation x) []"

definition decide_capability :: "rule_based_decider \<Rightarrow> 'm decider_input \<Rightarrow> capability_decision" where
  "decide_capability d x =
     (case rankBySimilarity (di_similar x) (di_observation x) of
        [] \<Rightarrow> addDecision d x
      | (c, score) # rest \<Rightarrow>
          (if score = 0 then addDecision d x
           else if strengthenThreshold d \<le> score then Strengthen (cap_id c) (makeEvidence x)
           else if reviseThreshold d < score then
             (if human_authored c then Noop ''similar capability is human-authored; cannot revise''
              else Revise (cap_id c) (di_observation x) (score, reviseThreshold d, strengthenThreshold d))
           else addDecision d x))"

section \<open>The service\<close>

record observation =
  ob_scope :: string
  ob_content :: string
  ob_source :: capability_source

text \<open>\<open>i\<close> is the identifier that \<open>newCapability\<close> generates; \<open>Inl\<close> is an exception of \<open>processObservation\<close>.\<close>

definition apply_decision ::
  "capability_decision \<Rightarrow> string \<Rightarrow> string \<Rightarrow> observation \<Rightarrow> unit capability_store \<Rightarrow>
   js_error + capability_decision \<times> unit capability_store" where
  "apply_decision decision now i x s =
     (case decision of
        Add n l body ents \<Rightarrow>
          Inr (decision, cs_save (newCapability i \<lparr>ni_scopeKey = ob_scope x, ni_layer = l, ni_content = body, ni_source = ob_source x,
             ni_entities = ents, ni_metadata = (), ni_epistemicStatus = None, ni_name = Some n, ni_now = now, ni_confidence = None\<rparr>) s)
      | Strengthen target ref \<Rightarrow>
          (case cs_update target (\<lambda>c. Inr (strengthen ref now c)) s of
             Inl (Inl e) \<Rightarrow> Inl e
           | Inl (Inr (u :: string)) \<Rightarrow> Inr (Noop u, s)
           | Inr s' \<Rightarrow> Inr (decision, s'))
      | Revise target newContent reason \<Rightarrow>
          (case cs_update target (revise newContent now) s of
             Inl (Inl e) \<Rightarrow> Inl e
           | Inl (Inr u) \<Rightarrow> Inr (Noop ''target was human-authored; revise blocked'', s)
           | Inr s' \<Rightarrow> Inr (decision, s'))
      | Noop reason \<Rightarrow> Inr (decision, s))"

definition processObservation ::
  "rule_based_decider \<Rightarrow> nat \<Rightarrow> string \<Rightarrow> string \<Rightarrow> observation \<Rightarrow> unit capability_store \<Rightarrow>
   js_error + capability_decision \<times> unit capability_store" where
  "processObservation d similarLimit now i x s =
     (let similar = findSimilar (ob_content x) (ob_scope x) similarLimit s;
          decision = decide_capability d \<lparr>di_observation = ob_content x, di_similar = similar, di_source = ob_source x, di_now = now\<rparr>
      in apply_decision decision now i x s)"

section \<open>What a capability goes through\<close>

text \<open>What processing observations may do to a capability: nothing is forgotten, and human text is not touched.\<close>

definition evolved :: "'m capability \<Rightarrow> 'm capability \<Rightarrow> bool" where
  "evolved c c' \<longleftrightarrow> cap_id c' = cap_id c \<and> scopeKey c' = scopeKey c \<and> cap_name c' = cap_name c \<and> layer c' = layer c
     \<and> source c' = source c \<and> createdAt c' = createdAt c \<and> validFrom c' = validFrom c \<and> invalidAt c' = invalidAt c
     \<and> prefix (evidence c) (evidence c') \<and> maturity c \<le> maturity c' \<and> (maturity c' = Foundational \<longrightarrow> maturity c = Foundational)
     \<and> (human_authored c \<longrightarrow> content c' = content c)"

text \<open>The maturity that the number of pieces of evidence earns.\<close>

definition earned :: "nat \<Rightarrow> maturity" where
  "earned n = (if n < 2 then Observed else if n < 4 then Recurring else Reliable)"

definition graded :: "'m capability \<Rightarrow> bool" where
  "graded c \<longleftrightarrow> maturity c = earned (length (evidence c))"

lemma evolved_refl [simp]: "evolved c c"
  by (simp add: evolved_def)

lemma evolved_trans: "evolved a b \<Longrightarrow> evolved b c \<Longrightarrow> evolved a c"
  unfolding evolved_def human_authored_def by (auto dest: prefix_order.trans)

lemma autoPromote_frame [simp]:
  "cap_id (autoPromote c) = cap_id c" "scopeKey (autoPromote c) = scopeKey c" "cap_name (autoPromote c) = cap_name c"
  "layer (autoPromote c) = layer c" "source (autoPromote c) = source c" "createdAt (autoPromote c) = createdAt c"
  "validFrom (autoPromote c) = validFrom c" "invalidAt (autoPromote c) = invalidAt c" "evidence (autoPromote c) = evidence c"
  "content (autoPromote c) = content c"
  by (simp_all add: autoPromote_def)

lemma autoPromote_maturity:
  "maturity c \<le> maturity (autoPromote c)" "maturity (autoPromote c) = Foundational \<Longrightarrow> maturity c = Foundational"
  by (auto simp: autoPromote_def less_eq_maturity_def split: if_splits)

lemma strengthen_evolves: "evolved c (strengthen ref now c)"
  using autoPromote_maturity [of "c\<lparr>evidence := evidence c @ [ref], updatedAt := now\<rparr>"]
  by (simp add: evolved_def strengthen_def)

lemma strengthen_graded: "graded c \<Longrightarrow> graded (strengthen ref now c)"
  by (auto simp: graded_def strengthen_def autoPromote_def earned_def Suc_le_eq split: if_splits)

lemma revise_evolves: "revise body now c = Inr c' \<Longrightarrow> evolved c c' \<and> (graded c \<longrightarrow> graded c')"
  by (auto simp: revise_def evolved_def graded_def human_authored_def split: if_splits)

section \<open>Decisions name what is stored\<close>

lemma findSimilar_stored:
  assumes "c \<in> set (findSimilar q scope limit s)"
  shows "c \<in> set (js_values s) \<and> scopeKey c = scope \<and> invalidAt c = None"
proof -
  from assms obtain r where "(c, r) \<in> set (rankBySimilarity (filter (\<lambda>c. scopeKey c = scope \<and> invalidAt c = None) (js_values s)) q)"
    by (auto simp: findSimilar_def Let_def dest!: in_set_takeD)
  then show ?thesis by (auto simp: rankBySimilarity_def Let_def)
qed

definition decision_target :: "capability_decision \<Rightarrow> string option" where
  "decision_target d = (case d of Strengthen i ref \<Rightarrow> Some i | Revise i body reason \<Rightarrow> Some i | _ \<Rightarrow> None)"

lemma decision_target_similar:
  assumes "decision_target (decide_capability d x) = Some i"
  shows "\<exists>c \<in> set (di_similar x). cap_id c = i \<and> (case decide_capability d x of Revise j body reason \<Rightarrow> \<not> human_authored c | _ \<Rightarrow> True)"
proof (cases "rankBySimilarity (di_similar x) (di_observation x)")
  case Nil
  with assms show ?thesis by (simp add: decide_capability_def decision_target_def addDecision_def)
next
  case (Cons r rs)
  obtain c score where r: "r = (c, score)" by (cases r)
  have "(c, score) \<in> set (rankBySimilarity (di_similar x) (di_observation x))" using Cons r by simp
  then have "c \<in> set (di_similar x)" by (auto simp: rankBySimilarity_def Let_def)
  then show ?thesis using assms Cons r
    by (auto simp: decide_capability_def decision_target_def addDecision_def split: if_splits)
qed

section \<open>Runs of the service\<close>

definition store_ok :: "unit capability_store \<Rightarrow> bool" where
  "store_ok s \<longleftrightarrow> js_wf s \<and> (\<forall>i c. js_get s i = Some c \<longrightarrow> cap_id c = i)"

text \<open>One observation keeps and evolves everything stored and adds at most the new identifier.\<close>

definition grows :: "string set \<Rightarrow> unit capability_store \<Rightarrow> unit capability_store \<Rightarrow> bool" where
  "grows new s s' \<longleftrightarrow> (\<forall>i c. js_get s i = Some c \<longrightarrow> (\<exists>c'. js_get s' i = Some c' \<and> evolved c c'))
     \<and> dom (js_get s') \<subseteq> dom (js_get s) \<union> new
     \<and> ((\<forall>c \<in> ran (js_get s). graded c) \<longrightarrow> (\<forall>c \<in> ran (js_get s'). graded c))"

lemma grows_refl: "grows new s s"
  by (auto simp: grows_def)

lemma grows_trans: "grows a s t \<Longrightarrow> grows b t u \<Longrightarrow> grows (a \<union> b) s u"
proof -
  assume st: "grows a s t" and tu: "grows b t u"
  have "\<exists>c''. js_get u i = Some c'' \<and> evolved c c''" if "js_get s i = Some c" for i c
  proof -
    from st that obtain c' where "js_get t i = Some c'" "evolved c c'" unfolding grows_def by blast
    moreover from tu this(1) obtain c'' where "js_get u i = Some c''" "evolved c' c''" unfolding grows_def by blast
    ultimately show ?thesis using evolved_trans by blast
  qed
  moreover have "dom (js_get u) \<subseteq> dom (js_get s) \<union> (a \<union> b)" using st tu unfolding grows_def by blast
  ultimately show ?thesis using st tu unfolding grows_def by blast
qed

lemma ran_js_set: "ran (js_get (js_set i c s)) \<subseteq> insert c (ran (js_get s))"
  by (auto simp: ran_def)

lemma grows_update:
  assumes "store_ok s" "js_get s i = Some c" "evolved c c'" "graded c \<longrightarrow> graded c'"
  shows "grows new s (js_set i c' s) \<and> store_ok (js_set i c' s)"
proof -
  have "c \<in> ran (js_get s)" using assms(2) by (auto simp: ran_def)
  then have "\<forall>c \<in> ran (js_get (js_set i c' s)). graded c" if "\<forall>c \<in> ran (js_get s). graded c"
    using that assms(4) ran_js_set [of i c' s] by blast
  moreover have "cap_id c' = i" using assms(1-3) by (simp add: store_ok_def evolved_def)
  moreover have "dom (js_get (js_set i c' s)) \<subseteq> dom (js_get s) \<union> new" using assms(2) by (auto split: if_splits)
  moreover have "\<exists>d'. js_get (js_set i c' s) j = Some d' \<and> evolved d d'" if "js_get s j = Some d" for j d
    using that assms(2,3) by (cases "j = i") simp_all
  ultimately show ?thesis using assms(1) unfolding grows_def store_ok_def by simp
qed

lemma processObservation_grows:
  assumes ok: "store_ok s" and fresh: "js_get s i = None"
  shows "\<exists>decision s'. processObservation d limit now i x s = Inr (decision, s') \<and> grows {i} s s' \<and> store_ok s'"
proof -
  let ?similar = "findSimilar (ob_content x) (ob_scope x) limit s"
  let ?in = "\<lparr>di_observation = ob_content x, di_similar = ?similar, di_source = ob_source x, di_now = now\<rparr>"
  let ?d = "decide_capability d ?in"
  have eq: "processObservation d limit now i x s = apply_decision ?d now i x s" by (simp add: processObservation_def Let_def)
  have target: "\<exists>c. js_get s j = Some c \<and> (case ?d of Revise k body reason \<Rightarrow> \<not> human_authored c | _ \<Rightarrow> True)"
    if "decision_target ?d = Some j" for j
  proof -
    from decision_target_similar [OF that] obtain c where c: "c \<in> set ?similar" "cap_id c = j"
      "case ?d of Revise k body reason \<Rightarrow> \<not> human_authored c | _ \<Rightarrow> True" by auto
    from findSimilar_stored [OF c(1)] obtain k where "(k, c) \<in> set s" by auto
    with ok have "js_get s k = Some c" by (simp add: store_ok_def js_wf_def)
    with ok c show ?thesis by (auto simp: store_ok_def)
  qed
  show ?thesis
  proof (cases ?d)
    case (Add n l body ents)
    let ?c = "newCapability i \<lparr>ni_scopeKey = ob_scope x, ni_layer = l, ni_content = body, ni_source = ob_source x,
             ni_entities = ents, ni_metadata = (), ni_epistemicStatus = None, ni_name = Some n, ni_now = now, ni_confidence = None\<rparr>"
    have c: "cap_id ?c = i" "graded ?c" by (simp_all add: newCapability_def graded_def earned_def)
    have "grows {i} s (js_set i ?c s)"
      using fresh c(2) ran_js_set [of i ?c s] by (auto simp: grows_def)
    moreover have "store_ok (js_set i ?c s)" using ok c(1) by (auto simp: store_ok_def)
    ultimately show ?thesis unfolding eq Add apply_decision_def by (simp add: cs_save_def c(1))
  next
    case (Strengthen j ref)
    with target obtain c where c: "js_get s j = Some c" by (auto simp: decision_target_def)
    show ?thesis unfolding eq Strengthen apply_decision_def
      using c grows_update [OF ok c strengthen_evolves [of c ref now], of "{i}"] strengthen_graded [of c ref now] by (simp add: cs_update_def)
  next
    case (Revise j body reason)
    with target obtain c where c: "js_get s j = Some c" "\<not> human_authored c" by (auto simp: decision_target_def)
    then obtain c' where c': "revise body now c = Inr c'" by (simp add: revise_def)
    from revise_evolves [OF c'] have "evolved c c'" "graded c \<longrightarrow> graded c'" by simp_all
    from grows_update [OF ok c(1) this, of "{i}"] show ?thesis unfolding eq Revise apply_decision_def using c c' by (simp add: cs_update_def)
  next
    case (Noop reason)
    then show ?thesis unfolding eq apply_decision_def using ok by (simp add: grows_refl)
  qed
qed

fun observe_all :: "rule_based_decider \<Rightarrow> nat \<Rightarrow> (string \<times> string \<times> observation) list \<Rightarrow> unit capability_store \<Rightarrow> js_error + unit capability_store" where
  "observe_all d limit [] s = Inr s"
| "observe_all d limit ((t, i, x) # xs) s =
     (case processObservation d limit t i x s of Inl e \<Rightarrow> Inl e | Inr (decision, s') \<Rightarrow> observe_all d limit xs s')"

text \<open>
  Observations only enrich the memory: for every sequence of observations with fresh identifiers and any
  thresholds, the service never fails, every stored capability keeps its identity, its validity and its evidence, its
  maturity never falls and becomes foundational by no observation, the text of a human is never changed, nothing but
  the new identifiers is added, and where the maturities were those that the evidence earns (none
  below two pieces, recurring from two, reliable from four) they still are.
\<close>

lemma observations_only_enrich:
  assumes "store_ok s" "distinct (map (\<lambda>(t, i, x). i) xs)" "\<forall>(t, i, x) \<in> set xs. js_get s i = None"
  shows "\<exists>s'. observe_all d limit xs s = Inr s' \<and> grows ((\<lambda>(t, i, x). i) ` set xs) s s'"
  using assms
proof (induction xs arbitrary: s)
  case Nil
  show ?case by (simp add: grows_refl)
next
  case (Cons y xs)
  obtain t i x where y: "y = (t, i, x)" by (cases y)
  from Cons.prems y have "js_get s i = None" by simp
  from processObservation_grows [OF Cons.prems(1) this] obtain decision s1
    where s1: "processObservation d limit t i x s = Inr (decision, s1)" "grows {i} s s1" "store_ok s1" by blast
  have "\<forall>(t, j, x) \<in> set xs. js_get s1 j = None"
  proof clarify
    fix t' j x' assume j: "(t', j, x') \<in> set xs"
    then have "j \<noteq> i" using Cons.prems(2) y by force
    moreover have "js_get s j = None" using Cons.prems(3) j by auto
    ultimately show "js_get s1 j = None" using s1(2) unfolding grows_def by blast
  qed
  moreover have "distinct (map (\<lambda>(t, i, x). i) xs)" using Cons.prems(2) by simp
  ultimately obtain s' where s': "observe_all d limit xs s1 = Inr s'" "grows ((\<lambda>(t, i, x). i) ` set xs) s1 s'"
    using Cons.IH [OF s1(3)] by blast
  have "grows ({i} \<union> (\<lambda>(t, i, x). i) ` set xs) s s'" by (rule grows_trans [OF s1(2) s'(2)])
  then show ?case using s1(1) s'(1) by (simp add: y)
qed

definition demo_note :: "string \<Rightarrow> observation" where
  "demo_note s = \<lparr>ob_scope = ''s'', ob_content = s, ob_source = AgentObservation ''a'' ''r1''\<rparr>"

definition demo_notes :: "(string \<times> string \<times> observation) list" where
  "demo_notes = [(''t1'', ''cap-1'', demo_note ''deploys fail on friday''), (''t2'', ''cap-2'', demo_note ''deploys fail on friday''),
     (''t3'', ''cap-3'', demo_note ''deploys fail on friday'')]"

lemma observations_only_enrich_example:
  "\<exists>s' c. observe_all RuleBasedDecider 5 demo_notes [] = Inr s' \<and> js_get s' ''cap-1'' = Some c \<and> maturity c = Recurring
     \<and> length (evidence c) = 2 \<and> dom (js_get s') \<subseteq> {''cap-1'', ''cap-2'', ''cap-3''}"
proof -
  have ok: "store_ok []" "distinct (map (\<lambda>(t, i, x). i) demo_notes)" "\<forall>(t, i, x) \<in> set demo_notes. js_get ([] :: unit capability_store) i = None"
    by (simp_all add: store_ok_def demo_notes_def)
  from observations_only_enrich [OF ok, of RuleBasedDecider 5] obtain s' where
    s': "observe_all RuleBasedDecider 5 demo_notes [] = Inr s'" "grows ((\<lambda>(t, i, x). i) ` set demo_notes) [] s'" by blast
  have "(case observe_all RuleBasedDecider 5 demo_notes [] of Inl e \<Rightarrow> False
     | Inr s \<Rightarrow> (case js_get s ''cap-1'' of None \<Rightarrow> False | Some c \<Rightarrow> maturity c = Recurring \<and> length (evidence c) = 2))" by code_simp
  with s'(1) obtain c where "js_get s' ''cap-1'' = Some c" "maturity c = Recurring" "length (evidence c) = 2"
    by (auto split: option.splits)
  moreover have "dom (js_get s') \<subseteq> {''cap-1'', ''cap-2'', ''cap-3''}" using s'(2) by (simp add: grows_def demo_notes_def)
  ultimately show ?thesis using s'(1) by blast
qed

text \<open>The counter that should keep identifiers of one millisecond apart is cut off.\<close>

lemma counter_cut_off: "length ts = 4 \<Longrightarrow> length rnd = 4 \<Longrightarrow> shortId ts rnd a = shortId ts rnd b"
  by (simp add: shortId_def)

end
