(* ===== verification/Node_Flow_Def.thy ===== *)
theory Node_Flow_Def
  imports Prelude Complex_Main
begin

text \<open>
  Flow definitions of \<open>ai/node-flow\<close>: JavaScript values, the node kinds of \<open>nodes.ts\<close>, the definition and the
  compiler of \<open>def.ts\<close>. A definition is a graph of nodes; the compiler rejects edges to unknown nodes and
  cycles, which it finds by a depth-first search over three colours.
  Numbers are reals: the code's doubles without rounding and without \<open>NaN\<close>.
\<close>

section \<open>Values and nodes\<close>

text \<open>
  Data, and what a path can reach besides: the members that plain objects and arrays inherit, which are
  functions of the language (owner and name) and the two prototypes themselves.
\<close>

datatype js_builtin = Function string string | ObjectPrototype | ArrayPrototype

datatype js_val =
    JUndefined | JNull | JBool bool | JNum real | JStr string | JArr "js_val list" | JObj "(string \<times> js_val) list"
  | JBuiltin js_builtin

type_synonym js_object = "(string, js_val) jsmap"
type_synonym mapping = "(string, string) jsmap"

datatype error_policy = FailFlow | Skip | Retry real real | Compensate string

datatype http_method = GET | POST | PUT | DELETE | PATCH

record model_config =
  mc_model :: string
  mc_temperature :: "real option"
  mc_maxTokens :: "real option"
  mc_reasoningEffort :: "string option"

record http_request_config =
  hr_method :: http_method
  hr_urlTemplate :: string
  hr_headers :: "mapping option"
  hr_bodyTemplate :: "string option"

datatype merge_strategy = Concatenate | LlmSynthesize | SelectBest

text \<open>The node kinds; the fields are in the order of the source.\<close>

datatype node_def =
    HttpCall http_method (urlTemplate: string) "mapping option" "string option" (responseMapping: mapping) (errorPolicy: error_policy)
  | ReceiveMessage "string list" "real option"
  | SendMessage (adapterId: string) (templateId: "string option") (contentTemplate: string)
  | KnowledgeLookup (queryTemplate: string) (k_sources: "string list") (topK: real) (resultAttribute: string) (errorPolicy: error_policy)
  | LlmCall (systemPromptTemplate: "string option") (userPromptTemplate: string) (responseSchema: js_val) (tools: "string list")
      (maxToolIterations: real) model_config (responseMapping: mapping) "real option" "bool option" "string option" "js_object option"
  | AttributeOp (reads: "string list") (writes: mapping)
  | McpToolExec (toolName: string) (inputMapping: mapping) (outputMapping: mapping) (errorPolicy: error_policy)
  | HumanApproval string "string list" "real option" "string option"
  | Branch (predicateAttribute: string) (branches: "(js_val, string) jsmap")
  | SubFlowStart (flowDefinitionId: string) (inputMapping: mapping) "string option" "real option"
  | SubFlowJoin "string list" "real option"
  | UserChoice string "string list" "real option" (resultAttribute: string)
  | Plan (plannerPromptTemplate: string) (goalTemplate: string) (availableNodeTypes: "string list") (maxSteps: real)
      model_config (responseMapping: mapping) (errorPolicy: error_policy)
  | Verify (promptTemplate: string) string real model_config (responseMapping: mapping) (errorPolicy: error_policy)
  | Merge (strategy: merge_strategy) (mergePrompt: "string option") "model_config option" (responseMapping: mapping) (errorPolicy: error_policy)
  | Delay (delayMs: real)
  | PollUntil http_request_config string http_request_config string string real real "real option" (errorPolicy: error_policy)
  | LlmExtract (promptTemplate: string) js_val model_config (responseMapping: mapping) (errorPolicy: error_policy)
  | WaitUntil "string option" (waitMs: "real option")

datatype trigger_config =
    Manual | Schedule string | Webhook string | Message string | EventTrigger string

record node_flow_def =
  df_id :: string
  df_description :: string
  df_nodes :: "(string, node_def) jsmap"
  df_edges :: "(string \<times> string) list"
  df_tags :: "string list"
  df_initialContext :: js_object
  df_maxConcurrentNodes :: "real option"
  df_trigger :: trigger_config

section \<open>The compiler\<close>

record compiled_flow =
  cf_def :: node_flow_def
  rootNodes :: "string list"
  terminalNodes :: "string list"
  dependencies :: "(string, string list) jsmap"
  dependents :: "(string, string list) jsmap"

text \<open>\<open>CompileError\<close> with its reason and, for a cycle, its details. \<open>NotIterable\<close> is the \<open>TypeError\<close> of the
  non-null assertion on a missing key, which \<open>compile\<close> never reaches.\<close>

datatype compile_error = CompileError string "string list option" | NotIterable

text \<open>The loop over the edges: an edge \<open>(a, b)\<close> adds \<open>a\<close> to the dependencies of \<open>b\<close> and \<open>b\<close> to the dependents of \<open>a\<close>.\<close>

type_synonym graph = "(string, string list) jsmap \<times> (string, string list) jsmap"

definition empty_sets :: "string list \<Rightarrow> (string, string list) jsmap" where
  "empty_sets ids = map (\<lambda>i. (i, [])) ids"

definition add_to_set :: "string \<Rightarrow> string \<Rightarrow> (string, string list) jsmap \<Rightarrow> (string, string list) jsmap" where
  "add_to_set k x m = (case js_get m k of None \<Rightarrow> m | Some xs \<Rightarrow> js_set k (js_add x xs) m)"

definition add_edge :: "string list \<Rightarrow> graph \<Rightarrow> string \<times> string \<Rightarrow> compile_error + graph" where
  "add_edge ids g e =
     (if fst e \<notin> set ids then Inl (CompileError (''edge from unknown node: '' @ fst e) None)
      else if snd e \<notin> set ids then Inl (CompileError (''edge to unknown node: '' @ snd e) None)
      else Inr (add_to_set (snd e) (fst e) (fst g), add_to_set (fst e) (snd e) (snd g)))"

datatype color = White | Gray | Black

type_synonym colors = "(string, color) jsmap"

definition arrow :: string where "arrow = '' -> ''"

definition cycle_error :: "string list \<Rightarrow> compile_error" where
  "cycle_error c = CompileError (''cycle detected: '' @ join_str arrow c) (Some c)"

text \<open>
  The nested function \<open>visit\<close> and its loop over the dependents. The first argument bounds the depth of the
  recursion; \<open>None\<close> is a search cut off by it, which \<open>visit_returns\<close> excludes for a depth above the number
  of white nodes.
\<close>

fun visit_list :: "(colors \<Rightarrow> string \<Rightarrow> (compile_error + colors) option) \<Rightarrow> colors \<Rightarrow> string list \<Rightarrow> (compile_error + colors) option" where
  "visit_list f color [] = Some (Inr color)"
| "visit_list f color (x # xs) =
     (case f color x of None \<Rightarrow> None | Some (Inl e) \<Rightarrow> Some (Inl e) | Some (Inr color') \<Rightarrow> visit_list f color' xs)"

fun visit :: "nat \<Rightarrow> (string, string list) jsmap \<Rightarrow> string list \<Rightarrow> colors \<Rightarrow> string \<Rightarrow> (compile_error + colors) option" where
  "visit 0 nexts stack color i = None"
| "visit (Suc d) nexts stack color i =
     (if js_get color i = Some Gray then Some (Inl (cycle_error (stack @ [i])))
      else if js_get color i = Some Black then Some (Inr color)
      else case js_get nexts i of
             None \<Rightarrow> Some (Inl NotIterable)
           | Some succs \<Rightarrow>
               (case visit_list (visit d nexts (stack @ [i])) (js_set i Gray color) succs of
                  Some (Inr color') \<Rightarrow> Some (Inr (js_set i Black color'))
                | r \<Rightarrow> r))"

text \<open>The loop over the nodes visits the white ones.\<close>

definition visit_root :: "nat \<Rightarrow> (string, string list) jsmap \<Rightarrow> colors \<Rightarrow> string \<Rightarrow> (compile_error + colors) option" where
  "visit_root d nexts color i = (if js_get color i = Some White then visit d nexts [] color i else Some (Inr color))"

definition without_entry :: "(string, string list) jsmap \<Rightarrow> string list \<Rightarrow> string list" where
  "without_entry m ids = filter (\<lambda>i. case js_get m i of None \<Rightarrow> True | Some xs \<Rightarrow> xs = []) ids"

definition compile_flow :: "node_flow_def \<Rightarrow> (compile_error + compiled_flow) option" where
  "compile_flow def =
     (let ids = map fst (df_nodes def)
      in case foldE (add_edge ids) (empty_sets ids, empty_sets ids) (df_edges def) of
           Inl e \<Rightarrow> Some (Inl e)
         | Inr (deps, dpts) \<Rightarrow>
             (case visit_list (visit_root (Suc (length ids)) dpts) (map (\<lambda>i. (i, White)) ids) ids of
                None \<Rightarrow> None
              | Some (Inl e) \<Rightarrow> Some (Inl e)
              | Some (Inr color) \<Rightarrow>
                  (let roots = without_entry deps ids
                   in if ids \<noteq> [] \<and> roots = [] then Some (Inl (CompileError ''no root nodes (every node has dependencies)'' None))
                      else Some (Inr \<lparr>cf_def = def, rootNodes = roots, terminalNodes = without_entry dpts ids,
                                      dependencies = deps, dependents = dpts\<rparr>))))"

section \<open>The graph that the loop over the edges builds\<close>

definition preds_in :: "(string \<times> string) list \<Rightarrow> string \<Rightarrow> string list" where
  "preds_in es i = js_set_of (map fst (filter (\<lambda>e. snd e = i) es))"

definition succs_in :: "(string \<times> string) list \<Rightarrow> string \<Rightarrow> string list" where
  "succs_in es i = js_set_of (map snd (filter (\<lambda>e. fst e = i) es))"

lemma js_set_of_snoc: "js_set_of (xs @ [x]) = js_add x (js_set_of xs)"
  by (simp add: js_set_of_def)

lemma set_preds_in [simp]: "set (preds_in es i) = {a. (a, i) \<in> set es}"
  by (force simp: preds_in_def)

lemma set_succs_in [simp]: "set (succs_in es i) = {b. (i, b) \<in> set es}"
  by (force simp: succs_in_def)

lemma js_get_empty_sets: "js_get (empty_sets ids) i = (if i \<in> set ids then Some [] else None)"
  by (induction ids) (auto simp: empty_sets_def)

lemma js_get_add_to_set:
  "js_get (add_to_set k x m) i = (if i = k then map_option (js_add x) (js_get m k) else js_get m i)"
  by (simp add: add_to_set_def split: option.splits)

lemma keys_add_to_set [simp]: "map fst (add_to_set k x m) = map fst m"
proof (cases "js_get m k")
  case (Some xs)
  then have "k \<in> fst ` set m" by (force dest: map_of_SomeD)
  then show ?thesis using Some by (simp add: add_to_set_def update_keys)
qed (simp add: add_to_set_def)

definition graph_of :: "string list \<Rightarrow> (string \<times> string) list \<Rightarrow> graph \<Rightarrow> bool" where
  "graph_of ids es g \<longleftrightarrow> map fst (fst g) = ids \<and> map fst (snd g) = ids \<and> (\<forall>i. js_get (fst g) i = (if i \<in> set ids then Some (preds_in es i) else None)
     \<and> js_get (snd g) i = (if i \<in> set ids then Some (succs_in es i) else None))"

lemma graph_of_add_edge:
  assumes "graph_of ids es g" "add_edge ids g e = Inr g'"
  shows "graph_of ids (es @ [e]) g' \<and> fst e \<in> set ids \<and> snd e \<in> set ids"
proof -
  from assms(2) have ids: "fst e \<in> set ids" "snd e \<in> set ids"
    and g': "g' = (add_to_set (snd e) (fst e) (fst g), add_to_set (fst e) (snd e) (snd g))"
    by (auto simp: add_edge_def split: if_splits)
  with assms(1) show ?thesis
    by (simp add: graph_of_def js_get_add_to_set preds_in_def succs_in_def js_set_of_snoc)
qed

text \<open>The first edge with an unknown end, and the message for it.\<close>

definition bad_edge :: "string list \<Rightarrow> string \<times> string \<Rightarrow> bool" where
  "bad_edge ids e \<longleftrightarrow> fst e \<notin> set ids \<or> snd e \<notin> set ids"

definition edge_error :: "string list \<Rightarrow> string \<times> string \<Rightarrow> compile_error" where
  "edge_error ids e =
     (if fst e \<notin> set ids then CompileError (''edge from unknown node: '' @ fst e) None
      else CompileError (''edge to unknown node: '' @ snd e) None)"

lemma build_graph:
  assumes "graph_of ids es0 g"
  shows "case foldE (add_edge ids) g es of
      Inl x \<Rightarrow> (\<exists>us e vs. es = us @ e # vs \<and> bad_edge ids e \<and> (\<forall>u \<in> set us. \<not> bad_edge ids u) \<and> x = edge_error ids e)
    | Inr g' \<Rightarrow> graph_of ids (es0 @ es) g' \<and> (\<forall>e \<in> set es. \<not> bad_edge ids e)"
  using assms
proof (induction es arbitrary: es0 g)
  case (Cons e es)
  show ?case
  proof (cases "add_edge ids g e")
    case (Inl x)
    then have "bad_edge ids e" "x = edge_error ids e"
      by (auto simp: add_edge_def bad_edge_def edge_error_def split: if_splits)
    then have "e # es = [] @ e # es \<and> bad_edge ids e \<and> (\<forall>u \<in> set []. \<not> bad_edge ids u) \<and> x = edge_error ids e" by simp
    then show ?thesis unfolding foldE.simps Inl sum.case by blast
  next
    case (Inr g1)
    from graph_of_add_edge [OF Cons.prems Inr]
    have g1: "graph_of ids (es0 @ [e]) g1" and e: "\<not> bad_edge ids e" by (auto simp: bad_edge_def)
    show ?thesis
    proof (cases "foldE (add_edge ids) g1 es")
      case (Inl x)
      with Cons.IH [OF g1] obtain us e' vs where
        "es = us @ e' # vs" "bad_edge ids e'" "\<forall>u \<in> set us. \<not> bad_edge ids u" "x = edge_error ids e'" by auto
      with e have "e # es = (e # us) @ e' # vs \<and> bad_edge ids e' \<and> (\<forall>u \<in> set (e # us). \<not> bad_edge ids u) \<and> x = edge_error ids e'"
        by simp
      then show ?thesis unfolding foldE.simps \<open>add_edge ids g e = Inr g1\<close> sum.case Inl by blast
    next
      case (Inr g2)
      with \<open>add_edge ids g e = Inr g1\<close> Cons.IH [OF g1] e show ?thesis by simp
    qed
  qed
qed simp

section \<open>The depth-first search\<close>

text \<open>
  \<open>leads nexts\<close> relates a node to its successors (the successor first). While a search is under way the gray
  nodes are the stack, and the nodes reachable from a black node contain no cycle: it is in the
  well-founded part of the relation.
\<close>

definition leads :: "(string, string list) jsmap \<Rightarrow> (string \<times> string) set" where
  "leads nexts = {(y, x). \<exists>succs. js_get nexts x = Some succs \<and> y \<in> set succs}"

definition coloured :: "color \<Rightarrow> colors \<Rightarrow> string set" where
  "coloured c color = {i. js_get color i = Some c}"

definition search_inv :: "(string, string list) jsmap \<Rightarrow> string list \<Rightarrow> string set \<Rightarrow> colors \<Rightarrow> bool" where
  "search_inv nexts stack W color \<longleftrightarrow> dom (js_get color) = dom (js_get nexts) \<and> coloured Gray color = set stack
     \<and> coloured Black color \<subseteq> Wellfounded.acc (leads nexts) \<and> coloured White color \<subseteq> W"

definition closed_graph :: "(string, string list) jsmap \<Rightarrow> bool" where
  "closed_graph nexts \<longleftrightarrow> (\<forall>x succs. js_get nexts x = Some succs \<longrightarrow> set succs \<subseteq> dom (js_get nexts))"

text \<open>A walk along the edges that ends in a node it has met before.\<close>

definition walk :: "(string, string list) jsmap \<Rightarrow> string list \<Rightarrow> bool" where
  "walk nexts xs \<longleftrightarrow> successively (\<lambda>x y. (y, x) \<in> leads nexts) xs"

definition found_cycle :: "(string, string list) jsmap \<Rightarrow> compile_error \<Rightarrow> bool" where
  "found_cycle nexts e \<longleftrightarrow> (\<exists>xs y. y \<in> set xs \<and> walk nexts (xs @ [y]) \<and> e = cycle_error (xs @ [y]))"

lemma visit_list_spec:
  assumes "I color"
    and "\<And>x color. x \<in> set xs \<Longrightarrow> I color \<Longrightarrow> \<exists>r. f color x = Some r \<and>
      (case r of Inl e \<Rightarrow> E e | Inr color' \<Rightarrow> I color' \<and> coloured Black color \<subseteq> coloured Black color' \<and> x \<in> coloured Black color')"
  shows "\<exists>r. visit_list f color xs = Some r \<and>
      (case r of Inl e \<Rightarrow> E e | Inr color' \<Rightarrow> I color' \<and> coloured Black color \<subseteq> coloured Black color' \<and> set xs \<subseteq> coloured Black color')"
  using assms
proof (induction xs arbitrary: color)
  case (Cons x xs)
  from Cons.prems obtain r where r: "f color x = Some r"
    "case r of Inl e \<Rightarrow> E e | Inr color' \<Rightarrow> I color' \<and> coloured Black color \<subseteq> coloured Black color' \<and> x \<in> coloured Black color'"
    by (meson list.set_intros(1))
  show ?case
  proof (cases r)
    case (Inr color1)
    from Cons.IH [of color1] Cons.prems(2) r(2) Inr obtain r' where r': "visit_list f color1 xs = Some r'"
      "case r' of Inl e \<Rightarrow> E e | Inr color' \<Rightarrow> I color' \<and> coloured Black color1 \<subseteq> coloured Black color' \<and> set xs \<subseteq> coloured Black color'"
      by auto
    then show ?thesis using r Inr by (cases r') auto
  qed (use r in auto)
qed simp

lemma coloured_set: "coloured c (js_set i c' color) = (if c = c' then insert i (coloured c color) else coloured c color - {i})"
  by (auto simp: coloured_def)

lemma dom_js_get_set: "dom (js_get (js_set k v m)) = insert k (dom (js_get m))"
  by (auto split: if_splits)

lemma visit_returns:
  assumes "search_inv nexts stack W color" "finite W" "card W < d" "closed_graph nexts"
    "i \<in> dom (js_get nexts)" "walk nexts (stack @ [i])"
  shows "\<exists>r. visit d nexts stack color i = Some r \<and>
    (case r of Inl e \<Rightarrow> found_cycle nexts e
     | Inr color' \<Rightarrow> search_inv nexts stack W color' \<and> coloured Black color \<subseteq> coloured Black color' \<and> i \<in> coloured Black color')"
  using assms
proof (induction d arbitrary: stack W color i)
  case (Suc d)
  note inv = Suc.prems(1) [unfolded search_inv_def]
  from inv Suc.prems(5) obtain c where c: "js_get color i = Some c" by blast
  show ?case
  proof (cases c)
    case Gray
    with c inv have "i \<in> set stack" by (auto simp: coloured_def)
    with Suc.prems(6) have "found_cycle nexts (cycle_error (stack @ [i]))" by (auto simp: found_cycle_def)
    with Gray c show ?thesis by simp
  next
    case Black
    with c have "i \<in> coloured Black color" by (simp add: coloured_def)
    with Black c Suc.prems(1) show ?thesis by simp
  next
    case White
    from Suc.prems(5) obtain succs where succs: "js_get nexts i = Some succs" by blast
    have "set stack = coloured Gray color" using inv by simp
    with c White inv have iW: "i \<in> W" "i \<notin> set stack" "i \<notin> coloured Black color" by (auto simp: coloured_def)
    let ?I = "search_inv nexts (stack @ [i]) (W - {i})"
    have "?I (js_set i Gray color)"
      using inv Suc.prems(5) by (simp add: search_inv_def coloured_set dom_js_get_set insert_absorb) blast
    moreover have "\<exists>r. visit d nexts (stack @ [i]) color' x = Some r \<and> (case r of Inl e \<Rightarrow> found_cycle nexts e
        | Inr color'' \<Rightarrow> ?I color'' \<and> coloured Black color' \<subseteq> coloured Black color'' \<and> x \<in> coloured Black color'')"
      if "x \<in> set succs" "?I color'" for x color'
    proof (rule Suc.IH [OF that(2)])
      show "card (W - {i}) < d" using Suc.prems(2,3) iW(1) card_Suc_Diff1 [of W i] by simp
      show "x \<in> dom (js_get nexts)" using Suc.prems(4) succs that(1) by (auto simp: closed_graph_def)
      have "(x, i) \<in> leads nexts" using succs that(1) by (simp add: leads_def)
      with Suc.prems(6) show "walk nexts ((stack @ [i]) @ [x])" by (simp add: walk_def successively_append_iff)
    qed (use Suc.prems in auto)
    ultimately obtain r where r: "visit_list (visit d nexts (stack @ [i])) (js_set i Gray color) succs = Some r"
      "case r of Inl e \<Rightarrow> found_cycle nexts e | Inr color' \<Rightarrow> ?I color' \<and>
         coloured Black (js_set i Gray color) \<subseteq> coloured Black color' \<and> set succs \<subseteq> coloured Black color'"
      using visit_list_spec [of ?I "js_set i Gray color" succs "visit d nexts (stack @ [i])" "found_cycle nexts"] by blast
    show ?thesis
    proof (cases r)
      case (Inl e)
      with r c White succs show ?thesis by simp
    next
      case (Inr color')
      with r have I: "?I color'" and mono: "coloured Black color \<subseteq> coloured Black color'" and all: "set succs \<subseteq> coloured Black color'"
        using iW by (auto simp: coloured_set)
      have "i \<in> Wellfounded.acc (leads nexts)"
      proof (rule acc.accI)
        fix y assume "(y, i) \<in> leads nexts"
        then have "y \<in> coloured Black color'" using succs all by (auto simp: leads_def)
        then show "y \<in> Wellfounded.acc (leads nexts)" using I by (auto simp: search_inv_def)
      qed
      then have "search_inv nexts stack W (js_set i Black color')"
        using I iW Suc.prems(5) by (simp add: search_inv_def coloured_set dom_js_get_set insert_absorb) blast
      moreover have "coloured Black color \<subseteq> coloured Black (js_set i Black color')" "i \<in> coloured Black (js_set i Black color')"
        using mono by (auto simp: coloured_set)
      ultimately show ?thesis using r(1) Inr c White succs by simp
    qed
  qed
qed simp

section \<open>What the compiler accepts\<close>

lemma visit_root_returns:
  assumes "search_inv nexts [] W color" "finite W" "card W < d" "closed_graph nexts" "i \<in> dom (js_get nexts)"
  shows "\<exists>r. visit_root d nexts color i = Some r \<and>
    (case r of Inl e \<Rightarrow> found_cycle nexts e
     | Inr color' \<Rightarrow> search_inv nexts [] W color' \<and> coloured Black color \<subseteq> coloured Black color' \<and> i \<in> coloured Black color')"
proof (cases "js_get color i = Some White")
  case True
  then show ?thesis using visit_returns [OF assms] by (simp add: visit_root_def walk_def)
next
  case False
  moreover from assms(1,5) obtain c where "js_get color i = Some c" unfolding search_inv_def by blast
  moreover have "i \<notin> coloured Gray color" using assms(1) by (simp add: search_inv_def)
  ultimately have "i \<in> coloured Black color" by (cases c) (auto simp: coloured_def)
  with False assms(1) show ?thesis by (simp add: visit_root_def)
qed

lemma map_of_const: "map_of (map (\<lambda>i. (i, c)) ids) = (\<lambda>i. if i \<in> set ids then Some c else None)"
  by (induction ids) auto

text \<open>The search decides whether the relation is well-founded.\<close>

lemma search_decides:
  assumes dom: "dom (js_get nexts) = set ids" and closed: "closed_graph nexts"
  shows "\<exists>r. visit_list (visit_root (Suc (length ids)) nexts) (map (\<lambda>i. (i, White)) ids) ids = Some r \<and>
    (case r of Inl e \<Rightarrow> found_cycle nexts e | Inr color \<Rightarrow> wf (leads nexts))"
proof -
  let ?I = "search_inv nexts [] (set ids)"
  have "?I (map (\<lambda>i. (i, White)) ids)"
    using dom by (auto simp: search_inv_def coloured_def map_of_const split: if_splits)
  moreover have "\<exists>r. visit_root (Suc (length ids)) nexts color x = Some r \<and> (case r of Inl e \<Rightarrow> found_cycle nexts e
      | Inr color' \<Rightarrow> ?I color' \<and> coloured Black color \<subseteq> coloured Black color' \<and> x \<in> coloured Black color')"
    if "x \<in> set ids" "?I color" for x color
    by (rule visit_root_returns [OF that(2) _ _ closed]) (use dom that(1) in \<open>simp_all add: card_length le_imp_less_Suc\<close>)
  ultimately obtain r where r: "visit_list (visit_root (Suc (length ids)) nexts) (map (\<lambda>i. (i, White)) ids) ids = Some r"
    "case r of Inl e \<Rightarrow> found_cycle nexts e | Inr color \<Rightarrow> ?I color \<and>
       coloured Black (map (\<lambda>i. (i, White)) ids) \<subseteq> coloured Black color \<and> set ids \<subseteq> coloured Black color"
    using visit_list_spec [of ?I "map (\<lambda>i. (i, White)) ids" ids "visit_root (Suc (length ids)) nexts" "found_cycle nexts"] by blast
  show ?thesis
  proof (cases r)
    case (Inr color)
    have acc: "x \<in> Wellfounded.acc (leads nexts)" for x
    proof (cases "x \<in> set ids")
      case True
      with r Inr show ?thesis by (auto simp: search_inv_def)
    next
      case False
      then have "js_get nexts x = None" using dom by blast
      then show ?thesis using acc.accI [of x "leads nexts"] by (simp add: leads_def)
    qed
    then have "wf (leads nexts)" by (blast intro: acc_wfI)
    then show ?thesis using r(1) Inr by simp
  qed (use r in auto)
qed

text \<open>What a rejection says: the first edge with an unknown end, or a walk along edges that meets a node twice.\<close>

definition edge_walk :: "(string \<times> string) list \<Rightarrow> string list \<Rightarrow> bool" where
  "edge_walk es xs \<longleftrightarrow> successively (\<lambda>x y. (x, y) \<in> set es) xs"

definition rejection :: "string list \<Rightarrow> (string \<times> string) list \<Rightarrow> compile_error \<Rightarrow> bool" where
  "rejection ids es e \<longleftrightarrow>
     (\<exists>us b vs. es = us @ b # vs \<and> bad_edge ids b \<and> (\<forall>u \<in> set us. \<not> bad_edge ids u) \<and> e = edge_error ids b)
   \<or> (\<exists>xs y. y \<in> set xs \<and> edge_walk es (xs @ [y]) \<and> e = cycle_error (xs @ [y]))"

definition compiled_ok :: "node_flow_def \<Rightarrow> compiled_flow \<Rightarrow> bool" where
  "compiled_ok def c \<longleftrightarrow> cf_def c = def
     \<and> graph_of (map fst (df_nodes def)) (df_edges def) (dependencies c, dependents c)
     \<and> rootNodes c = filter (\<lambda>i. \<forall>a. (a, i) \<notin> set (df_edges def)) (map fst (df_nodes def))
     \<and> terminalNodes c = filter (\<lambda>i. \<forall>b. (i, b) \<notin> set (df_edges def)) (map fst (df_nodes def))
     \<and> (df_nodes def \<noteq> [] \<longrightarrow> rootNodes c \<noteq> [])"

lemma graph_leads:
  assumes "graph_of ids es (deps, dpts)" "\<forall>e \<in> set es. \<not> bad_edge ids e"
  shows "leads dpts = (set es)\<inverse>" "dom (js_get dpts) = set ids" "closed_graph dpts"
proof -
  from assms(1) have g: "js_get dpts i = (if i \<in> set ids then Some (succs_in es i) else None)" for i
    by (simp add: graph_of_def)
  from assms(2) have ends: "(a, b) \<in> set es \<Longrightarrow> a \<in> set ids \<and> b \<in> set ids" for a b by (auto simp: bad_edge_def)
  show "leads dpts = (set es)\<inverse>" using ends by (auto simp: leads_def g split: if_splits)
  show dom: "dom (js_get dpts) = set ids" by (auto simp: g split: if_splits)
  show "closed_graph dpts" unfolding closed_graph_def dom using ends by (auto simp: g split: if_splits)
qed

lemma without_entry_filter:
  assumes "\<And>i. i \<in> set ids \<Longrightarrow> js_get m i = Some (f i)"
  shows "without_entry m ids = filter (\<lambda>i. f i = []) ids"
  unfolding without_entry_def by (rule filter_cong) (simp_all add: assms)

lemma empty_ends:
  "preds_in es i = [] \<longleftrightarrow> (\<forall>a. (a, i) \<notin> set es)" "succs_in es i = [] \<longleftrightarrow> (\<forall>b. (i, b) \<notin> set es)"
  by (simp_all only: set_empty [symmetric] set_preds_in set_succs_in) auto

lemma acyclic_has_root:
  assumes "acyclic (set es)" "ids \<noteq> []" "\<forall>e \<in> set es. \<not> bad_edge ids e"
  shows "filter (\<lambda>i. \<forall>a. (a, i) \<notin> set es) ids \<noteq> []"
proof -
  have "wf (set es)" using assms(1) by (simp add: finite_acyclic_wf)
  then obtain z where "z \<in> set ids" "\<And>a. (a, z) \<in> set es \<Longrightarrow> a \<notin> set ids"
    using assms(2) by (metis list.set_intros(1) list.exhaust wfE_min)
  then show ?thesis using assms(3) by (force simp: filter_empty_conv bad_edge_def)
qed

lemma edge_walk_trancl: "edge_walk es (x # xs @ [y]) \<Longrightarrow> (x, y) \<in> (set es)\<^sup>+"
proof (induction xs arbitrary: x)
  case (Cons z xs)
  then have "(x, z) \<in> set es" "(z, y) \<in> (set es)\<^sup>+" by (simp_all add: edge_walk_def)
  then show ?case by (rule trancl_into_trancl2)
qed (simp add: edge_walk_def)

text \<open>A rejected definition has a bad edge or a cycle.\<close>

lemma rejection_sound:
  assumes "rejection ids es e"
  shows "\<not> ((\<forall>b \<in> set es. \<not> bad_edge ids b) \<and> acyclic (set es))"
proof -
  from assms consider us b vs where "es = us @ b # vs" "bad_edge ids b"
    | xs y where "y \<in> set xs" "edge_walk es (xs @ [y])" unfolding rejection_def by blast
  then show ?thesis
  proof cases
    case 1
    then have "b \<in> set es" by simp
    with 1(2) show ?thesis by blast
  next
    case 2
    then obtain us vs where "xs = us @ y # vs" by (auto simp: in_set_conv_decomp)
    with 2(2) have "edge_walk es (y # vs @ [y])" by (simp add: edge_walk_def successively_append_iff)
    then have "(y, y) \<in> (set es)\<^sup>+" by (rule edge_walk_trancl)
    then show ?thesis unfolding acyclic_def by blast
  qed
qed

lemma compile_result:
  assumes "distinct (map fst (df_nodes def))"
  shows "\<exists>r. compile_flow def = Some r \<and> (case r of
      Inl e \<Rightarrow> rejection (map fst (df_nodes def)) (df_edges def) e
    | Inr c \<Rightarrow> compiled_ok def c \<and> (\<forall>e \<in> set (df_edges def). \<not> bad_edge (map fst (df_nodes def)) e) \<and> acyclic (set (df_edges def)))"
proof -
  let ?ids = "map fst (df_nodes def)" and ?es = "df_edges def"
  have "graph_of ?ids [] (empty_sets ?ids, empty_sets ?ids)"
    by (simp add: graph_of_def js_get_empty_sets preds_in_def succs_in_def js_set_of_def) (simp add: empty_sets_def)
  note built = build_graph [OF this, of ?es]
  show ?thesis
  proof (cases "foldE (add_edge ?ids) (empty_sets ?ids, empty_sets ?ids) ?es")
    case (Inl e)
    with built have "rejection ?ids ?es e" by (auto simp: rejection_def)
    moreover have "compile_flow def = Some (Inl e)" using Inl by (simp add: compile_flow_def)
    ultimately show ?thesis by auto
  next
    case (Inr g)
    obtain deps dpts where g: "g = (deps, dpts)" by (cases g)
    from built Inr g have gr: "graph_of ?ids ?es (deps, dpts)" and good: "\<forall>e \<in> set ?es. \<not> bad_edge ?ids e" by simp_all
    note leads = graph_leads [OF gr good]
    from search_decides [OF leads(2,3)] obtain r where
      r: "visit_list (visit_root (Suc (length ?ids)) dpts) (map (\<lambda>i. (i, White)) ?ids) ?ids = Some r"
      "case r of Inl e \<Rightarrow> found_cycle dpts e | Inr color \<Rightarrow> wf (leads dpts)" by blast
    show ?thesis
    proof (cases r)
      case (Inl e)
      with r(2) have "found_cycle dpts e" by simp
      then obtain xs y where c: "y \<in> set xs" "walk dpts (xs @ [y])" "e = cycle_error (xs @ [y])"
        by (auto simp: found_cycle_def)
      then have "rejection ?ids ?es e"
        by (auto simp: rejection_def walk_def edge_walk_def leads(1))
      moreover have "compile_flow def = Some (Inl e)" using \<open>foldE _ _ _ = Inr g\<close> g r(1) Inl by (simp add: compile_flow_def)
      ultimately show ?thesis by auto
    next
      case (Inr color)
      with r(2) have "wf (leads dpts)" by simp
      then have ac: "acyclic (set ?es)" using wf_acyclic [of "leads dpts"] by (simp add: leads(1) acyclic_converse)
      have roots: "without_entry deps ?ids = filter (\<lambda>i. \<forall>a. (a, i) \<notin> set ?es) ?ids"
        using without_entry_filter [of ?ids deps "preds_in ?es"] gr by (simp add: graph_of_def empty_ends)
      have terminals: "without_entry dpts ?ids = filter (\<lambda>i. \<forall>b. (i, b) \<notin> set ?es) ?ids"
        using without_entry_filter [of ?ids dpts "succs_in ?es"] gr by (simp add: graph_of_def empty_ends)
      let ?c = "\<lparr>cf_def = def, rootNodes = without_entry deps ?ids, terminalNodes = without_entry dpts ?ids,
        dependencies = deps, dependents = dpts\<rparr>"
      have nonempty: "?ids \<noteq> [] \<longrightarrow> without_entry deps ?ids \<noteq> []"
        unfolding roots using acyclic_has_root [OF ac _ good] by blast
      have "compile_flow def = Some (Inr ?c)"
        using \<open>foldE _ _ _ = Inr g\<close> g r(1) Inr nonempty by (simp add: compile_flow_def Let_def) blast
      moreover have "compiled_ok def ?c"
        using gr nonempty by (simp add: compiled_ok_def roots terminals)
      ultimately show ?thesis using good ac by auto
    qed
  qed
qed

text \<open>
  C35. The compiler always returns. It accepts a definition exactly when every edge joins two of its
  nodes and the edges have no cycle; then the dependencies and dependents of each node are the ends
  of its edges, the roots and the terminals are the nodes without incoming and outgoing edges, and a
  flow with nodes has a root. It rejects with the first edge that has an unknown end, or with a walk
  along edges that ends in a node it passed before.
\<close>

theorem compile_accepts_exactly_dags:
  assumes "distinct (map fst (df_nodes def))"
  shows "\<exists>r. compile_flow def = Some r
    \<and> ((\<exists>c. r = Inr c) \<longleftrightarrow> (\<forall>e \<in> set (df_edges def). \<not> bad_edge (map fst (df_nodes def)) e) \<and> acyclic (set (df_edges def)))
    \<and> (case r of Inl e \<Rightarrow> rejection (map fst (df_nodes def)) (df_edges def) e | Inr c \<Rightarrow> compiled_ok def c)"
proof -
  from compile_result [OF assms] obtain r where r: "compile_flow def = Some r" and cases: "case r of
      Inl e \<Rightarrow> rejection (map fst (df_nodes def)) (df_edges def) e
    | Inr c \<Rightarrow> compiled_ok def c \<and> (\<forall>e \<in> set (df_edges def). \<not> bad_edge (map fst (df_nodes def)) e) \<and> acyclic (set (df_edges def))"
    by blast
  show ?thesis
  proof (cases r)
    case (Inl e)
    with cases have "rejection (map fst (df_nodes def)) (df_edges def) e" by simp
    with r Inl rejection_sound [OF this] show ?thesis by simp
  next
    case (Inr c)
    with r cases show ?thesis by simp
  qed
qed

definition demo_node :: node_def where
  "demo_node = AttributeOp [] []"

definition demo_flow :: "(string \<times> string) list \<Rightarrow> node_flow_def" where
  "demo_flow es = \<lparr>df_id = ''f'', df_description = [], df_nodes = [(''a'', demo_node), (''b'', demo_node), (''c'', demo_node)],
     df_edges = es, df_tags = [], df_initialContext = [], df_maxConcurrentNodes = None, df_trigger = Manual\<rparr>"

definition accepts :: "(compile_error + compiled_flow) option \<Rightarrow> bool" where
  "accepts r = (case r of Some (Inr c) \<Rightarrow> True | _ \<Rightarrow> False)"

theorem compile_accepts_exactly_dags_witness:
  "acyclic {(''a'', ''b''), (''b'', ''c''), (''a'', ''c'')}
   \<and> (\<exists>e. compile_flow (demo_flow [(''a'', ''b''), (''b'', ''c''), (''c'', ''b'')]) = Some (Inl e)
        \<and> rejection [''a'', ''b'', ''c''] [(''a'', ''b''), (''b'', ''c''), (''c'', ''b'')] e)"
proof -
  have d: "distinct (map fst (df_nodes (demo_flow es)))" "map fst (df_nodes (demo_flow es)) = [''a'', ''b'', ''c'']"
    "df_edges (demo_flow es) = es" for es by (simp_all add: demo_flow_def)
  have "accepts (compile_flow (demo_flow [(''a'', ''b''), (''b'', ''c''), (''a'', ''c'')]))"
    "\<not> accepts (compile_flow (demo_flow [(''a'', ''b''), (''b'', ''c''), (''c'', ''b'')]))" by code_simp+
  then show ?thesis
    using compile_accepts_exactly_dags [OF d(1), of "[(''a'', ''b''), (''b'', ''c''), (''a'', ''c'')]"]
      compile_accepts_exactly_dags [OF d(1), of "[(''a'', ''b''), (''b'', ''c''), (''c'', ''b'')]"]
    unfolding d(2,3) accepts_def by (auto split: option.splits sum.splits)
qed

end
