(* ===== verification/Effects.thy ===== *)
theory Effects
  imports Prelude
begin

text \<open>
  The effect language of \<open>core/effect.ts\<close>: what a decision function returns and the
  entity runner interprets. An effect is a chain of steps that ends in a terminal node
  (\<open>Reply\<close>, \<open>ReplyDeferred\<close>, \<open>Stop\<close>, \<open>Stash\<close>) or in \<open>Done\<close>. The type parameters are the
  events, the replies, the side effects (closures in the code) and the deferred replies.
  \<open>chain_view\<close> is the specification: a chain is a list of steps and an optional terminal,
  and appending is list concatenation that a terminal cuts off.
\<close>

section \<open>The effect type and its constructors\<close>

datatype ('ev, 'r, 'fx, 'df) effect =
    Persist "'ev list" "('ev, 'r, 'fx, 'df) effect"
  | Run 'fx "('ev, 'r, 'fx, 'df) effect"
  | Reply 'r
  | ReplyDeferred 'df
  | Snapshot "('ev, 'r, 'fx, 'df) effect"
  | Stop
  | Stash
  | Unstash "('ev, 'r, 'fx, 'df) effect"
  | Done

definition persist :: "'ev list \<Rightarrow> ('ev, 'r, 'fx, 'df) effect" where
  "persist events = Persist events Done"

definition reply :: "'r \<Rightarrow> ('ev, 'r, 'fx, 'df) effect" where
  "reply v = Reply v"

definition run :: "'fx \<Rightarrow> ('ev, 'r, 'fx, 'df) effect" where
  "run sideEffect = Run sideEffect Done"

definition snapshot :: "('ev, 'r, 'fx, 'df) effect" where
  "snapshot = Snapshot Done"

definition stop :: "('ev, 'r, 'fx, 'df) effect" where
  "stop = Stop"

definition stash :: "('ev, 'r, 'fx, 'df) effect" where
  "stash = Stash"

definition unstash :: "('ev, 'r, 'fx, 'df) effect" where
  "unstash = Unstash Done"

definition replyDeferred :: "'df \<Rightarrow> ('ev, 'r, 'fx, 'df) effect" where
  "replyDeferred d = ReplyDeferred d"

definition done_eff :: "('ev, 'r, 'fx, 'df) effect" where
  "done_eff = Done"

lemmas effect_ctor_defs = persist_def reply_def run_def snapshot_def stop_def stash_def
  unstash_def replyDeferred_def done_eff_def

section \<open>Chaining\<close>

fun appendToChain ::
  "('ev, 'r, 'fx, 'df) effect \<Rightarrow> ('ev, 'r, 'fx, 'df) effect \<Rightarrow> ('ev, 'r, 'fx, 'df) effect" where
  "appendToChain (Persist es k) n = Persist es (appendToChain k n)"
| "appendToChain (Run fx k) n = Run fx (appendToChain k n)"
| "appendToChain (Snapshot k) n = Snapshot (appendToChain k n)"
| "appendToChain (Unstash k) n = Unstash (appendToChain k n)"
| "appendToChain Done n = n"
| "appendToChain e n = e"

definition andRun :: "('ev, 'r, 'fx, 'df) effect \<Rightarrow> 'fx \<Rightarrow> ('ev, 'r, 'fx, 'df) effect" where
  "andRun e sideEffect = appendToChain e (Run sideEffect Done)"

definition andReply :: "('ev, 'r, 'fx, 'df) effect \<Rightarrow> 'r \<Rightarrow> ('ev, 'r, 'fx, 'df) effect" where
  "andReply e v = appendToChain e (Reply v)"

definition andSnapshot :: "('ev, 'r, 'fx, 'df) effect \<Rightarrow> ('ev, 'r, 'fx, 'df) effect" where
  "andSnapshot e = appendToChain e (Snapshot Done)"

definition andStop :: "('ev, 'r, 'fx, 'df) effect \<Rightarrow> ('ev, 'r, 'fx, 'df) effect" where
  "andStop e = appendToChain e Stop"

definition andReplyDeferred :: "('ev, 'r, 'fx, 'df) effect \<Rightarrow> 'df \<Rightarrow> ('ev, 'r, 'fx, 'df) effect" where
  "andReplyDeferred e d = appendToChain e (ReplyDeferred d)"

definition andUnstash :: "('ev, 'r, 'fx, 'df) effect \<Rightarrow> ('ev, 'r, 'fx, 'df) effect" where
  "andUnstash e = appendToChain e (Unstash Done)"

lemmas effect_and_defs = andRun_def andReply_def andSnapshot_def andStop_def
  andReplyDeferred_def andUnstash_def

section \<open>Queries\<close>

fun hasReply :: "('ev, 'r, 'fx, 'df) effect \<Rightarrow> bool" where
  "hasReply (Reply _) = True"
| "hasReply (ReplyDeferred _) = True"
| "hasReply (Persist _ k) = hasReply k"
| "hasReply (Run _ k) = hasReply k"
| "hasReply (Snapshot k) = hasReply k"
| "hasReply (Unstash k) = hasReply k"
| "hasReply _ = False"

fun extractEvents :: "('ev, 'r, 'fx, 'df) effect \<Rightarrow> 'ev list" where
  "extractEvents (Persist es k) = es @ extractEvents k"
| "extractEvents (Run _ k) = extractEvents k"
| "extractEvents (Snapshot k) = extractEvents k"
| "extractEvents (Unstash k) = extractEvents k"
| "extractEvents _ = []"

section \<open>Specification: a chain is a list of steps and a terminal\<close>

datatype ('ev, 'fx) chain_step = SPersist "'ev list" | SRun 'fx | SSnapshot | SUnstash

datatype ('r, 'df) chain_end = EReply 'r | EReplyDeferred 'df | EStop | EStash

fun chain_view ::
  "('ev, 'r, 'fx, 'df) effect \<Rightarrow> ('ev, 'fx) chain_step list \<times> ('r, 'df) chain_end option" where
  "chain_view (Persist es k) = (SPersist es # fst (chain_view k), snd (chain_view k))"
| "chain_view (Run fx k) = (SRun fx # fst (chain_view k), snd (chain_view k))"
| "chain_view (Snapshot k) = (SSnapshot # fst (chain_view k), snd (chain_view k))"
| "chain_view (Unstash k) = (SUnstash # fst (chain_view k), snd (chain_view k))"
| "chain_view (Reply r) = ([], Some (EReply r))"
| "chain_view (ReplyDeferred d) = ([], Some (EReplyDeferred d))"
| "chain_view Stop = ([], Some EStop)"
| "chain_view Stash = ([], Some EStash)"
| "chain_view Done = ([], None)"

definition view_append ::
  "'s list \<times> 't option \<Rightarrow> 's list \<times> 't option \<Rightarrow> 's list \<times> 't option" where
  "view_append a b = (case snd a of Some t \<Rightarrow> a | None \<Rightarrow> (fst a @ fst b, snd b))"

fun step_events :: "('ev, 'fx) chain_step \<Rightarrow> 'ev list" where
  "step_events (SPersist es) = es"
| "step_events _ = []"

lemma chain_view_inject: "chain_view a = chain_view b \<Longrightarrow> a = b"
proof (induction a arbitrary: b)
  case (Persist es k)
  then show ?case by (cases b) (auto simp: prod_eq_iff)
next
  case (Run fx k)
  then show ?case by (cases b) (auto simp: prod_eq_iff)
next
  case (Snapshot k)
  then show ?case by (cases b) (auto simp: prod_eq_iff)
next
  case (Unstash k)
  then show ?case by (cases b) (auto simp: prod_eq_iff)
next
  case (Reply r)
  then show ?case by (cases b) (auto simp: prod_eq_iff)
next
  case (ReplyDeferred d)
  then show ?case by (cases b) (auto simp: prod_eq_iff)
next
  case Stop
  then show ?case by (cases b) (auto simp: prod_eq_iff)
next
  case Stash
  then show ?case by (cases b) (auto simp: prod_eq_iff)
next
  case Done
  then show ?case by (cases b) (auto simp: prod_eq_iff)
qed

lemma chain_view_append: "chain_view (appendToChain a b) = view_append (chain_view a) (chain_view b)"
  by (induction a) (auto simp: view_append_def split: option.splits)

lemma extractEvents_view: "extractEvents e = concat (map step_events (fst (chain_view e)))"
  by (induction e) auto

lemma hasReply_view:
  "hasReply e \<longleftrightarrow> (\<exists>r. snd (chain_view e) = Some (EReply r)) \<or> (\<exists>d. snd (chain_view e) = Some (EReplyDeferred d))"
  by (induction e) auto

section \<open>Sequencing as an interface\<close>

text \<open>What the clients that build chains step by step rely on.\<close>

locale sequencing =
  fixes seq :: "'c \<Rightarrow> 'c \<Rightarrow> 'c" and unit :: 'c
  assumes seq_assoc: "seq (seq a b) c = seq a (seq b c)"
    and seq_unit_left: "seq unit a = a"
    and seq_unit_right: "seq a unit = a"
begin

lemma foldl_seq: "foldl seq a bs = seq a (foldl seq unit bs)"
proof (induction bs arbitrary: a rule: rev_induct)
  case Nil
  show ?case by (simp add: seq_unit_right)
next
  case (snoc b bs)
  have "foldl seq a (bs @ [b]) = seq (foldl seq a bs) b" by simp
  also have "\<dots> = seq (seq a (foldl seq unit bs)) b" using snoc [of a] by simp
  also have "\<dots> = seq a (foldl seq unit (bs @ [b]))" by (simp add: seq_assoc)
  finally show ?case .
qed

lemma foldl_seq_append: "foldl seq unit (as @ bs) = seq (foldl seq unit as) (foldl seq unit bs)"
  by (simp add: foldl_seq [of "foldl seq unit as"])

end

lemma appendToChain_assoc: "appendToChain (appendToChain a b) c = appendToChain a (appendToChain b c)"
  by (induction a) auto

lemma appendToChain_Done_right [simp]: "appendToChain a Done = a"
  by (induction a) auto

interpretation effect_seq: sequencing appendToChain Done
  by unfold_locales (simp_all add: appendToChain_assoc)

section \<open>Properties\<close>

definition open_chain :: "('ev, 'r, 'fx, 'df) effect \<Rightarrow> bool" where
  "open_chain e = (snd (chain_view e) = None)"

lemma open_chain_simps [simp]:
  "open_chain (Persist es k) = open_chain k" "open_chain (Run fx k) = open_chain k"
  "open_chain (Snapshot k) = open_chain k" "open_chain (Unstash k) = open_chain k"
  "open_chain Done" "\<not> open_chain (Reply r)" "\<not> open_chain (ReplyDeferred d)"
  "\<not> open_chain Stop" "\<not> open_chain Stash"
  by (simp_all add: open_chain_def)

lemma append_closed: "\<not> open_chain a \<Longrightarrow> appendToChain a b = a"
  by (induction a) auto

lemma extractEvents_append:
  "extractEvents (appendToChain a b) = extractEvents a @ (if open_chain a then extractEvents b else [])"
  by (induction a) auto

lemma open_chain_append: "open_chain (appendToChain a b) \<longleftrightarrow> open_chain a \<and> open_chain b"
  by (induction a) auto

lemma hasReply_append: "hasReply (appendToChain a b) \<longleftrightarrow> hasReply a \<or> (open_chain a \<and> hasReply b)"
  by (induction a) auto

text \<open>
  C36. Building an effect by a series of combinators is concatenation of the step lists,
  cut off at the first terminal node: \<open>appendToChain\<close> is associative, \<open>Done\<close> is its unit,
  and the view of a chain of any number of appended parts is the concatenation of the
  parts' views, so nothing is reordered, dropped or duplicated before the terminal and
  nothing runs after it.
\<close>

theorem appendToChain_refines_concat:
  "chain_view (foldl appendToChain e parts) = foldl view_append (chain_view e) (map chain_view parts)
   \<and> foldl appendToChain e parts = appendToChain e (foldl appendToChain Done parts)"
proof
  show "chain_view (foldl appendToChain e parts) = foldl view_append (chain_view e) (map chain_view parts)"
    by (induction parts arbitrary: e) (simp_all add: chain_view_append)
  show "foldl appendToChain e parts = appendToChain e (foldl appendToChain Done parts)"
    by (rule effect_seq.foldl_seq)
qed

text \<open>
  A terminal node absorbs what is chained after it: once a chain replies, stops or
  stashes, \<open>andReply\<close>, \<open>andRun\<close>, \<open>andSnapshot\<close>, \<open>andStop\<close>, \<open>andReplyDeferred\<close> and
  \<open>andUnstash\<close> return it unchanged, so no effect ever answers its asker twice; on an open
  chain \<open>andReply\<close> adds exactly the one reply and keeps the events.
\<close>

lemma and_combinators_absorbed:
  "(\<not> open_chain e \<longrightarrow>
      andReply e v = e \<and> andRun e fx = e \<and> andSnapshot e = e \<and> andStop e = e
      \<and> andReplyDeferred e d = e \<and> andUnstash e = e)
   \<and> (open_chain e \<longrightarrow> hasReply (andReply e v) \<and> \<not> open_chain (andReply e v)
      \<and> extractEvents (andReply e v) = extractEvents e)"
  by (simp add: effect_and_defs append_closed hasReply_append open_chain_append extractEvents_append)

lemma and_combinators_absorbed_witness:
  "andReply (Persist [1::nat] (Reply True)) False = (Persist [1] (Reply True) :: (nat, bool, unit, unit) effect)
   \<and> extractEvents (andReply (Persist [1::nat] Done :: (nat, bool, unit, unit) effect) True) = [1]"
  using and_combinators_absorbed [of "Persist [1::nat] (Reply True) :: (nat, bool, unit, unit) effect" False]
    and_combinators_absorbed [of "Persist [1::nat] Done :: (nat, bool, unit, unit) effect" True]
  by simp

end
