(* ===== verification/Node_Flow.thy ===== *)
theory Node_Flow
  imports Node_Flow_Def Effects "HOL-Library.Multiset"
begin

text \<open>
  The aggregate of \<open>ai/node-flow/aggregate.ts\<close>: a flow of nodes is started, its nodes run as side effects that tell
  their outcome back to the aggregate, and each outcome starts the nodes it makes ready. The closure's
  \<open>registry\<close> and the cache \<open>_compiled\<close> that \<open>decide\<close> writes into the state it is given are threaded
  through; the executor of a node is a parameter.
\<close>

section \<open>State, commands, events\<close>

datatype node_status = NodePending | NodeRunning | NodeCompleted | NodeFailed

datatype node_flow_status = NotStarted | FlowRunning | FlowCompleted | FlowFailed | WaitingForInput

record node_flow_state =
  flowDefId :: "string option"
  flowStatus :: node_flow_status
  nodeStatuses :: "(string, node_status) jsmap"
  nodeOutputs :: js_object
  flowContext :: js_object
  activeNodeCount :: nat
  waitingNodes :: "string list"
  compiledCache :: "compiled_flow option"

datatype node_flow_command =
    StartFlow node_flow_def js_object
  | NodeCompletedCmd string js_val
  | NodeFailedCmd string string
  | ChildFlowCompleted string js_val
  | UserMessage string js_val
  | UserChoiceResponse string real
  | GetState

datatype node_flow_event =
    FlowStarted string js_object
  | NodeStarted string
  | NodeSucceeded string js_val
  | NodeFailedEv string string
  | FlowCompletedEv js_object
  | FlowFailedEv string
  | WaitingForInputEv string
  | ChildFlowStarted string string "real option"
  | ChildFlowDone string js_val
  | MessageReceived string js_val
  | MessageSent string

datatype node_flow_reply = Acknowledged string | StateSnapshot node_flow_state | FlowError string

definition initial_flow :: node_flow_state where
  "initial_flow = \<lparr>flowDefId = None, flowStatus = NotStarted, nodeStatuses = [], nodeOutputs = [], flowContext = [],
     activeNodeCount = 0, waitingNodes = [], compiledCache = None\<rparr>"

section \<open>Applying events\<close>

definition spread :: "js_object \<Rightarrow> js_object \<Rightarrow> js_object" where
  "spread a b = foldl (\<lambda>m (k, v). js_set k v m) a b"

fun applyEvent :: "node_flow_state \<Rightarrow> node_flow_event \<Rightarrow> node_flow_state" where
  "applyEvent st (FlowStarted i c) =
     st\<lparr>flowDefId := Some i, flowStatus := FlowRunning, nodeOutputs := [], flowContext := c, activeNodeCount := 0, waitingNodes := []\<rparr>"
| "applyEvent st (NodeStarted n) =
     st\<lparr>nodeStatuses := js_set n NodeRunning (nodeStatuses st), activeNodeCount := activeNodeCount st + 1\<rparr>"
| "applyEvent st (NodeSucceeded n out) =
     st\<lparr>nodeStatuses := js_set n NodeCompleted (nodeStatuses st), nodeOutputs := js_set n out (nodeOutputs st),
        flowContext := (case out of JObj props \<Rightarrow> spread (flowContext st) props | _ \<Rightarrow> flowContext st),
        activeNodeCount := activeNodeCount st - 1\<rparr>"
| "applyEvent st (NodeFailedEv n err) =
     st\<lparr>nodeStatuses := js_set n NodeFailed (nodeStatuses st), activeNodeCount := activeNodeCount st - 1\<rparr>"
| "applyEvent st (FlowCompletedEv c) = st\<lparr>flowStatus := FlowCompleted, flowContext := c\<rparr>"
| "applyEvent st (FlowFailedEv r) = st\<lparr>flowStatus := FlowFailed\<rparr>"
| "applyEvent st (WaitingForInputEv n) = st\<lparr>flowStatus := WaitingForInput, waitingNodes := js_add n (waitingNodes st)\<rparr>"
| "applyEvent st (MessageReceived n msg) = st\<lparr>waitingNodes := filter (\<lambda>x. x \<noteq> n) (waitingNodes st)\<rparr>"
| "applyEvent st (MessageSent n) = st"
| "applyEvent st (ChildFlowStarted c p i) = st"
| "applyEvent st (ChildFlowDone c out) = st"

definition applyEvents :: "node_flow_state \<Rightarrow> node_flow_event list \<Rightarrow> node_flow_state" where
  "applyEvents st es = foldl applyEvent st es"

section \<open>Deciding\<close>

text \<open>\<open>compile\<close> as the aggregate sees it: \<open>compile_accepts_exactly_dags\<close> excludes the cut-off search.\<close>

definition compile_now :: "node_flow_def \<Rightarrow> compile_error + compiled_flow" where
  "compile_now def = (case compile_flow def of Some r \<Rightarrow> r | None \<Rightarrow> Inl NotIterable)"

type_synonym flow_registry = "(string, node_flow_def) jsmap"

text \<open>\<open>getCompiled\<close>: the cache, or the registered definition compiled and put into the cache.\<close>

definition getCompiled :: "flow_registry \<Rightarrow> node_flow_state \<Rightarrow> compile_error + (compiled_flow option \<times> node_flow_state)" where
  "getCompiled registry st =
     (case compiledCache st of
        Some c \<Rightarrow> Inr (Some c, st)
      | None \<Rightarrow>
          (case Option.bind (flowDefId st) (js_get registry) of
             None \<Rightarrow> Inr (None, st)
           | Some def \<Rightarrow> (case compile_now def of
                 Inl e \<Rightarrow> Inl e
               | Inr c \<Rightarrow> Inr (Some c, st\<lparr>compiledCache := Some c\<rparr>))))"

definition node_status_of :: "node_flow_state \<Rightarrow> string \<Rightarrow> node_status" where
  "node_status_of st n = (case js_get (nodeStatuses st) n of Some s \<Rightarrow> s | None \<Rightarrow> NodePending)"

definition nodesReadyToRun :: "node_flow_state \<Rightarrow> compiled_flow \<Rightarrow> string list" where
  "nodesReadyToRun st c =
     map fst (filter (\<lambda>(i, deps). node_status_of st i = NodePending
       \<and> list_all (\<lambda>d. js_get (nodeStatuses st) d = Some NodeCompleted) deps) (dependencies c))"

text \<open>The side effect of a fired node: its identifier, its definition and the state the executor's context is built from.\<close>

datatype node_fx = FireNode string node_def node_flow_state

definition fireNode :: "node_flow_state \<Rightarrow> compiled_flow \<Rightarrow> string \<Rightarrow> node_flow_event list \<times> node_fx list" where
  "fireNode st c n =
     (case js_get (df_nodes (cf_def c)) n of
        None \<Rightarrow> ([NodeFailedEv n ''node not found''], [])
      | Some def \<Rightarrow> ([NodeStarted n], [FireNode n def st]))"

definition fire_all :: "node_flow_state \<Rightarrow> compiled_flow \<Rightarrow> string list \<Rightarrow> node_flow_event list \<times> node_fx list" where
  "fire_all st c ns = (concat (map (\<lambda>n. fst (fireNode st c n)) ns), concat (map (\<lambda>n. snd (fireNode st c n)) ns))"

type_synonym flow_effect = "(node_flow_event, node_flow_reply, node_fx, unit) effect"

definition persist_and_run :: "node_flow_event list \<Rightarrow> node_fx list \<Rightarrow> flow_effect" where
  "persist_and_run events fxs = foldl andRun (persist events) fxs"

definition policy_skips :: "node_def \<Rightarrow> bool" where
  "policy_skips def = (case def of
      HttpCall _ _ _ _ _ p \<Rightarrow> p = Skip | KnowledgeLookup _ _ _ _ p \<Rightarrow> p = Skip | McpToolExec _ _ _ p \<Rightarrow> p = Skip
    | Plan _ _ _ _ _ _ p \<Rightarrow> p = Skip | Verify _ _ _ _ _ p \<Rightarrow> p = Skip | Merge _ _ _ _ p \<Rightarrow> p = Skip
    | PollUntil _ _ _ _ _ _ _ _ p \<Rightarrow> p = Skip | LlmExtract _ _ _ _ p \<Rightarrow> p = Skip | _ \<Rightarrow> False)"

text \<open>The outcome of \<open>decide\<close>: an exception, or the effect with the registry and the state object it leaves behind.\<close>

type_synonym flow_decision = "compile_error + (flow_effect \<times> flow_registry \<times> node_flow_state)"

definition decide_start :: "flow_registry \<Rightarrow> node_flow_state \<Rightarrow> node_flow_def \<Rightarrow> js_object \<Rightarrow> flow_decision" where
  "decide_start registry st def overrides =
     (if flowStatus st \<noteq> NotStarted \<and> flowStatus st \<noteq> FlowCompleted \<and> flowStatus st \<noteq> FlowFailed
      then Inr (reply (FlowError ''flow already running''), registry, st)
      else case compile_now def of
        Inl e \<Rightarrow> Inl e
      | Inr c \<Rightarrow>
          (let ctx0 = spread (df_initialContext def) overrides;
               projected = st\<lparr>flowDefId := Some (df_id def), flowStatus := FlowRunning,
                  nodeStatuses := map (\<lambda>n. (n, NodePending)) (map fst (df_nodes (cf_def c))), nodeOutputs := [],
                  flowContext := ctx0, activeNodeCount := 0, waitingNodes := [], compiledCache := Some c\<rparr>;
               (events, fxs) = fire_all projected c (rootNodes c)
           in Inr (andReply (persist_and_run (FlowStarted (df_id def) ctx0 # events) fxs) (Acknowledged (df_id def)),
                   js_set (df_id def) def registry, st)))"

definition terminals_done :: "node_flow_state \<Rightarrow> compiled_flow \<Rightarrow> bool" where
  "terminals_done st c \<longleftrightarrow> list_all (\<lambda>t. js_get (nodeStatuses st) t = Some NodeCompleted) (terminalNodes c) \<and> terminalNodes c \<noteq> []"

definition completion_events :: "node_flow_state \<Rightarrow> compiled_flow \<Rightarrow> string \<Rightarrow> js_val \<Rightarrow> node_flow_event list \<times> node_fx list" where
  "completion_events st c n result =
     (let projected = applyEvents st [NodeSucceeded n result];
          (started, fxs) = fire_all projected c (nodesReadyToRun projected c);
          events = NodeSucceeded n result # started;
          projected2 = applyEvents st events
      in (events @ (if terminals_done projected2 c then [FlowCompletedEv (flowContext projected2)] else []), fxs))"

definition node_flow_decide :: "flow_registry \<Rightarrow> node_flow_state \<Rightarrow> node_flow_command \<Rightarrow> flow_decision" where
  "node_flow_decide registry st command =
     (case command of
        StartFlow def overrides \<Rightarrow> decide_start registry st def overrides
      | NodeCompletedCmd n result \<Rightarrow>
          (case getCompiled registry st of
             Inl e \<Rightarrow> Inl e
           | Inr (None, st') \<Rightarrow> Inr (reply (FlowError ''no flow running''), registry, st')
           | Inr (Some c, st') \<Rightarrow>
               (let (events, fxs) = completion_events st' c n result in Inr (persist_and_run events fxs, registry, st')))
      | NodeFailedCmd n err \<Rightarrow>
          (case getCompiled registry st of
             Inl e \<Rightarrow> Inl e
           | Inr (None, st') \<Rightarrow> Inr (reply (FlowError ''no flow running''), registry, st')
           | Inr (Some c, st') \<Rightarrow>
               (if (case js_get (df_nodes (cf_def c)) n of Some def \<Rightarrow> policy_skips def | None \<Rightarrow> False)
                then Inr (persist [NodeSucceeded n JNull], registry, st')
                else Inr (persist [NodeFailedEv n err, FlowFailedEv (''node '' @ n @ '' failed: '' @ err)], registry, st')))
      | UserMessage n message \<Rightarrow> Inr (persist [MessageReceived n message, NodeSucceeded n message], registry, st)
      | UserChoiceResponse n choice \<Rightarrow> Inr (persist [NodeSucceeded n (JObj [(''choice'', JNum choice)])], registry, st)
      | ChildFlowCompleted i result \<Rightarrow> Inr (persist [ChildFlowDone i result], registry, st)
      | GetState \<Rightarrow> Inr (reply (StateSnapshot st), registry, st))"

section \<open>Running the side effects\<close>

text \<open>What an executor returns (\<open>signals.ts\<close>): completed, blocking, or another signal, passed on as a value.\<close>

datatype exec_signal = Completed js_val | Blocking | OtherSignal string js_object

type_synonym executor = "node_def \<Rightarrow> node_flow_state \<Rightarrow> string + exec_signal"

text \<open>The closure of \<open>fireNode\<close>: the command it tells the aggregate, if any. \<open>Inl\<close> is an exception of the executor.\<close>

definition fired_outcome :: "executor \<Rightarrow> node_fx \<Rightarrow> node_flow_command list" where
  "fired_outcome exec fx =
     (case fx of FireNode n def st \<Rightarrow>
        (case exec def st of
           Inr (Completed out) \<Rightarrow> [NodeCompletedCmd n out]
         | Inr Blocking \<Rightarrow> []
         | Inr (OtherSignal tag props) \<Rightarrow> [NodeCompletedCmd n (JObj ((''__signal'', JStr tag) # props))]
         | Inl err \<Rightarrow> [NodeFailedCmd n err]))"

section \<open>A flow instance\<close>

text \<open>
  The instance as the runtime keeps it: the state, the aggregate's registry, the journal and the commands
  that the fired nodes have told. A turn processes one of the told commands, whichever arrives first, or a
  command from outside: it persists and applies the events and runs the side effects. A decision that throws
  crashes the entity: its mailbox is lost and the next incarnation replays the journal.
\<close>

record flow_instance =
  fi_state :: node_flow_state
  fi_registry :: flow_registry
  fi_journal :: "node_flow_event list"
  fi_told :: "node_flow_command list"

definition new_instance :: "flow_registry \<Rightarrow> flow_instance" where
  "new_instance registry = \<lparr>fi_state = initial_flow, fi_registry = registry, fi_journal = [], fi_told = []\<rparr>"

fun effect_runs :: "('ev, 'r, 'fx, 'df) effect \<Rightarrow> 'fx list" where
  "effect_runs (Persist es k) = effect_runs k"
| "effect_runs (Run fx k) = fx # effect_runs k"
| "effect_runs (Snapshot k) = effect_runs k"
| "effect_runs (Unstash k) = effect_runs k"
| "effect_runs _ = []"

definition process :: "executor \<Rightarrow> flow_instance \<Rightarrow> node_flow_command \<Rightarrow> flow_instance" where
  "process exec w command =
     (case node_flow_decide (fi_registry w) (fi_state w) command of
        Inl e \<Rightarrow> w\<lparr>fi_state := applyEvents initial_flow (fi_journal w), fi_told := []\<rparr>
      | Inr (eff, registry, st) \<Rightarrow>
          w\<lparr>fi_state := applyEvents st (extractEvents eff), fi_registry := registry,
            fi_journal := fi_journal w @ extractEvents eff,
            fi_told := fi_told w @ concat (map (fired_outcome exec) (effect_runs eff))\<rparr>)"

datatype flow_turn = Outside node_flow_command | Deliver nat

definition turn :: "executor \<Rightarrow> flow_instance \<Rightarrow> flow_turn \<Rightarrow> flow_instance" where
  "turn exec w t =
     (case t of
        Outside command \<Rightarrow> process exec w command
      | Deliver k \<Rightarrow> (if k < length (fi_told w)
          then process exec (w\<lparr>fi_told := take k (fi_told w) @ drop (Suc k) (fi_told w)\<rparr>) (fi_told w ! k) else w))"

definition flow_run :: "executor \<Rightarrow> flow_instance \<Rightarrow> flow_turn list \<Rightarrow> flow_instance" where
  "flow_run exec w ts = foldl (turn exec) w ts"

section \<open>What an effect of the aggregate does\<close>

lemma append_runs: "appendToChain (foldr Run fxs Done) k = foldr Run fxs k"
  by (induction fxs) simp_all

lemma persist_and_run_eq: "persist_and_run es fxs = Persist es (foldr Run fxs Done)"
proof (induction fxs rule: rev_induct)
  case (snoc fx fxs)
  then show ?case by (simp add: persist_and_run_def andRun_def append_runs)
qed (simp add: persist_and_run_def persist_def)

lemma runs_foldr [simp]: "effect_runs (foldr Run fxs k) = fxs @ effect_runs k" "extractEvents (foldr Run fxs k) = extractEvents k"
  by (induction fxs) simp_all

lemma persist_and_run_view [simp]:
  "extractEvents (persist_and_run es fxs) = es" "effect_runs (persist_and_run es fxs) = fxs"
  "extractEvents (andReply (persist_and_run es fxs) r) = es" "effect_runs (andReply (persist_and_run es fxs) r) = fxs"
  by (simp_all add: persist_and_run_eq andReply_def append_runs)

lemma persist_view [simp]: "extractEvents (persist es) = es" "effect_runs (persist es) = []"
  by (simp_all add: persist_def)

lemma reply_view [simp]: "extractEvents (reply r) = []" "effect_runs (reply r) = []"
  by (simp_all add: reply_def)

lemma applyEvents_simps [simp]:
  "applyEvents st [] = st" "applyEvents st (e # es) = applyEvents (applyEvent st e) es"
  "applyEvents st (es @ fs) = applyEvents (applyEvents st es) fs"
  by (simp_all add: applyEvents_def)

lemma apply_keeps [simp]:
  "compiledCache (applyEvent st e) = compiledCache st"
  "\<forall>i c. e \<noteq> FlowStarted i c \<Longrightarrow> flowDefId (applyEvent st e) = flowDefId st"
  by (cases e; simp)+

lemma apply_all_cache [simp]: "compiledCache (applyEvents st es) = compiledCache st"
  by (induction es arbitrary: st) simp_all

lemma apply_all_flow: "\<forall>i c. FlowStarted i c \<notin> set es \<Longrightarrow> flowDefId (applyEvents st es) = flowDefId st"
proof (induction es arbitrary: st)
  case (Cons e es)
  then have "flowDefId (applyEvent st e) = flowDefId st" by (intro apply_keeps(2)) auto
  with Cons show ?case by simp
qed simp

section \<open>Nodes started and nodes done\<close>

definition started :: "node_flow_event list \<Rightarrow> string list" where
  "started es = concat (map (\<lambda>e. case e of NodeStarted n \<Rightarrow> [n] | _ \<Rightarrow> []) es)"

definition succeeded :: "node_flow_event list \<Rightarrow> string list" where
  "succeeded es = concat (map (\<lambda>e. case e of NodeSucceeded n out \<Rightarrow> [n] | _ \<Rightarrow> []) es)"

definition completions :: "node_flow_event list \<Rightarrow> node_flow_event list" where
  "completions es = filter (\<lambda>e. case e of FlowCompletedEv c \<Rightarrow> True | _ \<Rightarrow> False) es"

lemma event_views [simp]:
  "started [] = []" "started (e # es) = (case e of NodeStarted n \<Rightarrow> [n] | _ \<Rightarrow> []) @ started es"
  "started (es @ fs) = started es @ started fs" "started (map NodeStarted ns) = ns"
  "succeeded [] = []" "succeeded (e # es) = (case e of NodeSucceeded n out \<Rightarrow> [n] | _ \<Rightarrow> []) @ succeeded es"
  "succeeded (es @ fs) = succeeded es @ succeeded fs" "succeeded (map NodeStarted ns) = []"
  "completions [] = []" "completions (es @ fs) = completions es @ completions fs" "completions (map NodeStarted ns) = []"
  "completions (e # es) = (case e of FlowCompletedEv c \<Rightarrow> [e] | _ \<Rightarrow> []) @ completions es"
  by (induction ns) (simp_all add: started_def succeeded_def completions_def split: node_flow_event.splits)

text \<open>
  \<open>journal_ok\<close>: no node is started twice, none before each of its dependencies has succeeded, and the flow is
  not declared complete before each of its terminal nodes has succeeded.
\<close>

fun event_ok :: "compiled_flow \<Rightarrow> node_flow_event list \<Rightarrow> node_flow_event \<Rightarrow> bool" where
  "event_ok c us (NodeStarted n) \<longleftrightarrow> n \<notin> set (started us) \<and> set (preds_in (df_edges (cf_def c)) n) \<subseteq> set (succeeded us)"
| "event_ok c us (FlowCompletedEv ctx) \<longleftrightarrow> set (terminalNodes c) \<subseteq> set (succeeded us)"
| "event_ok c us e \<longleftrightarrow> True"

fun journal_ok :: "compiled_flow \<Rightarrow> node_flow_event list \<Rightarrow> node_flow_event list \<Rightarrow> bool" where
  "journal_ok c us [] = True"
| "journal_ok c us (e # es) = (event_ok c us e \<and> journal_ok c (us @ [e]) es)"

lemma journal_ok_append: "journal_ok c us (es @ fs) \<longleftrightarrow> journal_ok c us es \<and> journal_ok c (us @ es) fs"
  by (induction es arbitrary: us) auto

lemma journal_ok_started:
  "distinct ns \<Longrightarrow> set ns \<inter> set (started us) = {} \<Longrightarrow> \<forall>n \<in> set ns. set (preds_in (df_edges (cf_def c)) n) \<subseteq> set (succeeded us)
    \<Longrightarrow> journal_ok c us (map NodeStarted ns)"
  by (induction ns arbitrary: us) auto

text \<open>The state knows of every start and only of real successes.\<close>

definition tracks :: "node_flow_state \<Rightarrow> node_flow_event list \<Rightarrow> bool" where
  "tracks st us \<longleftrightarrow> (\<forall>n \<in> set (started us). node_status_of st n \<noteq> NodePending)
     \<and> (\<forall>n. js_get (nodeStatuses st) n = Some NodeCompleted \<longrightarrow> n \<in> set (succeeded us))"

lemma tracks_apply: "tracks st us \<Longrightarrow> tracks (applyEvent st e) (us @ [e])"
  by (cases e) (auto simp: tracks_def node_status_of_def split: if_splits)

lemma tracks_apply_all: "tracks st us \<Longrightarrow> tracks (applyEvents st es) (us @ es)"
proof (induction es arbitrary: st us)
  case (Cons e es)
  from Cons.IH [OF tracks_apply [OF Cons.prems], of e] show ?case by simp
qed simp

section \<open>Firing\<close>

lemma fire_all_known:
  assumes "set ns \<subseteq> fst ` set (df_nodes (cf_def c))"
  shows "fire_all st c ns = (map NodeStarted ns, map (\<lambda>n. FireNode n (the (js_get (df_nodes (cf_def c)) n)) st) ns)"
  using assms
proof (induction ns)
  case (Cons n ns)
  then obtain def where "js_get (df_nodes (cf_def c)) n = Some def" by (metis insert_subset list.simps(15) map_of_eq_None_iff option.exhaust)
  with Cons show ?case by (simp add: fire_all_def fireNode_def)
qed (simp add: fire_all_def)

lemma ready_nodes:
  assumes "compiled_ok def c" "distinct (map fst (df_nodes def))"
  shows "distinct (nodesReadyToRun st c)"
    and "set (nodesReadyToRun st c) = {i \<in> fst ` set (df_nodes def). node_status_of st i = NodePending
      \<and> (\<forall>d. (d, i) \<in> set (df_edges def) \<longrightarrow> js_get (nodeStatuses st) d = Some NodeCompleted)}"
proof -
  from assms(1) have keys: "map fst (dependencies c) = map fst (df_nodes def)"
    and deps: "js_get (dependencies c) i = (if i \<in> fst ` set (df_nodes def) then Some (preds_in (df_edges def) i) else None)" for i
    by (simp_all add: compiled_ok_def graph_of_def)
  have d: "distinct (map fst (dependencies c))" using keys assms(2) by simp
  then show "distinct (nodesReadyToRun st c)" by (simp add: nodesReadyToRun_def distinct_map_filter)
  have entry: "(i, ds) \<in> set (dependencies c) \<longleftrightarrow> i \<in> fst ` set (df_nodes def) \<and> ds = preds_in (df_edges def) i" for i ds
    using map_of_eq_Some_iff [OF d, of i ds] deps [of i] by (auto split: if_splits)
  show "set (nodesReadyToRun st c) = {i \<in> fst ` set (df_nodes def). node_status_of st i = NodePending
      \<and> (\<forall>d. (d, i) \<in> set (df_edges def) \<longrightarrow> js_get (nodeStatuses st) d = Some NodeCompleted)}"
  proof (rule set_eqI)
    fix i
    have "i \<in> set (nodesReadyToRun st c) \<longleftrightarrow> (\<exists>ds. (i, ds) \<in> set (dependencies c) \<and> node_status_of st i = NodePending
       \<and> list_all (\<lambda>d. js_get (nodeStatuses st) d = Some NodeCompleted) ds)" by (auto simp: nodesReadyToRun_def image_iff)
    then show "i \<in> set (nodesReadyToRun st c) \<longleftrightarrow> i \<in> {i \<in> fst ` set (df_nodes def). node_status_of st i = NodePending
      \<and> (\<forall>d. (d, i) \<in> set (df_edges def) \<longrightarrow> js_get (nodeStatuses st) d = Some NodeCompleted)}"
      unfolding entry by (simp add: list_all_iff)
  qed
qed

section \<open>No node starts twice or early\<close>

definition run_inv :: "node_flow_def \<Rightarrow> compiled_flow \<Rightarrow> flow_instance \<Rightarrow> bool" where
  "run_inv def c w \<longleftrightarrow> compiledCache (fi_state w) \<in> {None, Some c} \<and> flowDefId (fi_state w) = Some (df_id def)
     \<and> js_get (fi_registry w) (df_id def) = Some def \<and> tracks (fi_state w) (fi_journal w) \<and> journal_ok c [] (fi_journal w)"

lemma getCompiled_cached:
  assumes "compile_now def = Inr c" "compiledCache st \<in> {None, Some c}" "flowDefId st = Some (df_id def)" "js_get registry (df_id def) = Some def"
  shows "getCompiled registry st = Inr (Some c, st\<lparr>compiledCache := Some c\<rparr>)"
proof (cases "compiledCache st")
  case (Some x)
  with assms(2) have "compiledCache st = Some c" by simp
  then have "st\<lparr>compiledCache := Some c\<rparr> = st" by simp
  with \<open>compiledCache st = Some c\<close> show ?thesis by (simp add: getCompiled_def)
qed (use assms in \<open>simp add: getCompiled_def\<close>)

lemma tracks_cache [simp]: "tracks (st\<lparr>compiledCache := x\<rparr>) us = tracks st us"
  by (simp add: tracks_def node_status_of_def)

text \<open>What a completed node adds to the journal.\<close>

lemma completion_events_eq:
  fixes st :: node_flow_state and n :: string and res :: js_val
  assumes "compiled_ok def c" "distinct (map fst (df_nodes def))"
  defines "p \<equiv> applyEvent st (NodeSucceeded n res)"
  defines "ns \<equiv> nodesReadyToRun p c"
  defines "es \<equiv> NodeSucceeded n res # map NodeStarted ns"
  shows "completion_events st c n res =
    (es @ (if terminals_done (applyEvents st es) c then [FlowCompletedEv (flowContext (applyEvents st es))] else []),
     map (\<lambda>i. FireNode i (the (js_get (df_nodes def) i)) p) ns)"
proof -
  have cf: "cf_def c = def" using assms(1) by (simp add: compiled_ok_def)
  have "set ns \<subseteq> fst ` set (df_nodes (cf_def c))" unfolding ns_def ready_nodes(2) [OF assms(1,2)] cf by blast
  note fired = fire_all_known [OF this, of p, unfolded cf]
  have p: "applyEvents st [NodeSucceeded n res] = p" unfolding p_def applyEvents_simps(1,2) ..
  show ?thesis
    unfolding completion_events_def p Let_def ns_def [symmetric] fired case_prod_conv es_def [symmetric] ..
qed

lemma completion_events_ok:
  assumes ok: "compiled_ok def c" "distinct (map fst (df_nodes def))" and tr: "tracks st us"
  shows "journal_ok c us (fst (completion_events st c n res))"
proof -
  let ?p = "applyEvent st (NodeSucceeded n res)"
  let ?ns = "nodesReadyToRun ?p c" and ?us = "us @ [NodeSucceeded n res]"
  let ?es = "NodeSucceeded n res # map NodeStarted ?ns"
  have tr1: "tracks ?p ?us" by (rule tracks_apply [OF tr])
  have cf: "cf_def c = def" using ok(1) by (simp add: compiled_ok_def)
  note ready = ready_nodes [OF ok, of ?p]
  have "journal_ok c ?us (map NodeStarted ?ns)"
  proof (rule journal_ok_started [OF ready(1)])
    show "set ?ns \<inter> set (started ?us) = {}" using tr1 unfolding ready(2) tracks_def by blast
    show "\<forall>i \<in> set ?ns. set (preds_in (df_edges (cf_def c)) i) \<subseteq> set (succeeded ?us)"
      using tr1 unfolding ready(2) cf tracks_def set_preds_in by blast
  qed
  then have es: "journal_ok c us ?es" by simp
  have tr2: "tracks (applyEvents st ?es) (us @ ?es)" by (rule tracks_apply_all [OF tr])
  have "event_ok c (us @ ?es) (FlowCompletedEv x)" if "terminals_done (applyEvents st ?es) c" for x
    using that tr2 unfolding terminals_done_def tracks_def list_all_iff event_ok.simps by blast
  with es show ?thesis unfolding completion_events_eq [OF ok] fst_conv journal_ok_append by simp
qed

lemma completion_events_no_start:
  assumes "compiled_ok def c" "distinct (map fst (df_nodes def))"
  shows "FlowStarted i x \<notin> set (fst (completion_events st c n res))"
  unfolding completion_events_eq [OF assms] by auto

text \<open>One command: everything it persists keeps the journal right.\<close>

lemma run_inv_extend:
  assumes "run_inv def c w" "journal_ok c (fi_journal w) es" "\<forall>i x. FlowStarted i x \<notin> set es"
    "st = fi_state w \<or> st = (fi_state w)\<lparr>compiledCache := Some c\<rparr>"
  shows "run_inv def c (w\<lparr>fi_state := applyEvents st es, fi_journal := fi_journal w @ es, fi_told := ts\<rparr>)"
  using assms tracks_apply_all [of st "fi_journal w" es] apply_all_flow [of es st]
  by (auto simp: run_inv_def journal_ok_append)

lemma process_eq:
  "node_flow_decide (fi_registry w) (fi_state w) cmd = Inr (eff, fi_registry w, st)
   \<Longrightarrow> process exec w cmd = w\<lparr>fi_state := applyEvents st (extractEvents eff), fi_journal := fi_journal w @ extractEvents eff,
        fi_told := fi_told w @ concat (map (fired_outcome exec) (effect_runs eff))\<rparr>"
  by (simp add: process_def)

lemma process_inv:
  assumes ok: "compiled_ok def c" "distinct (map fst (df_nodes def))" "compile_now def = Inr c"
    and inv: "run_inv def c w" and cmd: "\<forall>d x. cmd \<noteq> StartFlow d x"
  shows "run_inv def c (process exec w cmd)"
proof -
  let ?r = "fi_registry w" and ?st = "fi_state w"
  let ?st' = "?st\<lparr>compiledCache := Some c\<rparr>"
  have got: "getCompiled ?r ?st = Inr (Some c, ?st')"
    using inv by (intro getCompiled_cached [OF ok(3)]) (simp_all add: run_inv_def)
  have tr: "tracks ?st (fi_journal w)" using inv by (simp add: run_inv_def)
  have "\<exists>eff st. node_flow_decide ?r ?st cmd = Inr (eff, ?r, st) \<and> (st = ?st \<or> st = ?st')
      \<and> journal_ok c (fi_journal w) (extractEvents eff) \<and> (\<forall>i x. FlowStarted i x \<notin> set (extractEvents eff))"
  proof (cases cmd)
    case (StartFlow d x)
    with cmd show ?thesis by blast
  next
    case (NodeCompletedCmd n res)
    have "tracks ?st' (fi_journal w)" using tr by simp
    from completion_events_ok [OF ok(1,2) this] completion_events_no_start [OF ok(1,2)] show ?thesis
      by (simp add: node_flow_decide_def NodeCompletedCmd got case_prod_beta)
  next
    case (NodeFailedCmd n err)
    then show ?thesis by (simp add: node_flow_decide_def got)
  qed (simp_all add: node_flow_decide_def)
  then obtain eff st where d: "node_flow_decide ?r ?st cmd = Inr (eff, ?r, st)" "st = ?st \<or> st = ?st'"
    "journal_ok c (fi_journal w) (extractEvents eff)" "\<forall>i x. FlowStarted i x \<notin> set (extractEvents eff)" by blast
  show ?thesis unfolding process_eq [OF d(1)] by (rule run_inv_extend [OF inv d(3,4,2)])
qed

lemma flow_turn_inv:
  assumes "compiled_ok def c" "distinct (map fst (df_nodes def))" "compile_now def = Inr c"
    and inv: "run_inv def c w"
    and t: "case t of Outside cmd \<Rightarrow> (\<forall>d x. cmd \<noteq> StartFlow d x) | Deliver k \<Rightarrow> True"
    and told: "\<forall>cmd \<in> set (fi_told w). \<forall>d x. cmd \<noteq> StartFlow d x"
  shows "run_inv def c (turn exec w t)"
proof (cases t)
  case (Outside cmd)
  with t process_inv [OF assms(1-4)] show ?thesis by (simp add: turn_def)
next
  case (Deliver k)
  show ?thesis
  proof (cases "k < length (fi_told w)")
    case True
    then have "\<forall>d x. fi_told w ! k \<noteq> StartFlow d x" using told by simp
    moreover have "run_inv def c (w\<lparr>fi_told := take k (fi_told w) @ drop (Suc k) (fi_told w)\<rparr>)"
      using inv by (simp add: run_inv_def)
    ultimately show ?thesis using process_inv [OF assms(1-3)] True Deliver by (simp add: turn_def)
  qed (use inv Deliver in \<open>simp add: turn_def\<close>)
qed

text \<open>Fired nodes never ask for a start.\<close>

definition told_ok :: "flow_instance \<Rightarrow> bool" where
  "told_ok w \<longleftrightarrow> (\<forall>cmd \<in> set (fi_told w). \<forall>d x. cmd \<noteq> StartFlow d x)"

lemma fired_outcome_ok [simp]: "StartFlow d x \<notin> set (fired_outcome exec fx)"
proof (cases fx)
  case (FireNode n def st)
  show ?thesis
  proof (cases "exec def st")
    case (Inr s)
    with FireNode show ?thesis by (cases s) (simp_all add: fired_outcome_def)
  qed (simp add: fired_outcome_def FireNode)
qed

lemma process_told_ok: "told_ok w \<Longrightarrow> told_ok (process exec w cmd)"
  by (fastforce simp: told_ok_def process_def split: sum.splits prod.splits)

lemma turn_told_ok: "told_ok w \<Longrightarrow> told_ok (turn exec w t)"
proof (cases t)
  case (Deliver k)
  assume ok: "told_ok w"
  then have "told_ok (w\<lparr>fi_told := take k (fi_told w) @ drop (Suc k) (fi_told w)\<rparr>)"
    by (auto simp: told_ok_def dest: in_set_takeD in_set_dropD)
  with ok Deliver show ?thesis by (simp add: turn_def process_told_ok)
qed (simp add: turn_def process_told_ok)

definition projected_start :: "node_flow_def \<Rightarrow> compiled_flow \<Rightarrow> js_object \<Rightarrow> node_flow_state" where
  "projected_start def c ctx0 = initial_flow\<lparr>flowDefId := Some (df_id def), flowStatus := FlowRunning,
      nodeStatuses := map (\<lambda>n. (n, NodePending)) (map fst (df_nodes def)), nodeOutputs := [],
      flowContext := ctx0, activeNodeCount := 0, waitingNodes := [], compiledCache := Some c\<rparr>"

lemma process_start:
  fixes overrides :: js_object
  assumes ok: "compiled_ok def c" "compile_now def = Inr c"
  defines "ctx0 \<equiv> spread (df_initialContext def) overrides"
  defines "es \<equiv> FlowStarted (df_id def) ctx0 # map NodeStarted (rootNodes c)"
  shows "process exec (new_instance registry) (StartFlow def overrides) =
    \<lparr>fi_state = applyEvents initial_flow es, fi_registry = js_set (df_id def) def registry, fi_journal = es,
     fi_told = concat (map (fired_outcome exec)
       (map (\<lambda>i. FireNode i (the (js_get (df_nodes def) i)) (projected_start def c ctx0)) (rootNodes c)))\<rparr>"
proof -
  have cf: "cf_def c = def" using ok(1) by (simp add: compiled_ok_def)
  have "set (rootNodes c) \<subseteq> fst ` set (df_nodes (cf_def c))" using ok(1) by (auto simp: compiled_ok_def)
  note fired = fire_all_known [OF this, of "projected_start def c ctx0", unfolded cf]
  have "node_flow_decide registry initial_flow (StartFlow def overrides) =
    Inr (andReply (persist_and_run es (map (\<lambda>i. FireNode i (the (js_get (df_nodes def) i)) (projected_start def c ctx0)) (rootNodes c)))
        (Acknowledged (df_id def)), js_set (df_id def) def registry, initial_flow)"
    using fired ok(2) cf
    by (simp add: node_flow_decide_def decide_start_def initial_flow_def projected_start_def ctx0_def es_def Let_def)
  then show ?thesis by (simp add: process_def new_instance_def)
qed

lemma start_statuses:
  "js_get (nodeStatuses (applyEvents st (map NodeStarted ns))) n = (if n \<in> set ns then Some NodeRunning else js_get (nodeStatuses st) n)"
  by (induction ns arbitrary: st) auto

lemma start_inv:
  assumes ok: "compiled_ok def c" "distinct (map fst (df_nodes def))" "compile_now def = Inr c"
  shows "run_inv def c (process exec (new_instance registry) (StartFlow def overrides))"
    and "told_ok (process exec (new_instance registry) (StartFlow def overrides))"
proof -
  let ?ctx0 = "spread (df_initialContext def) overrides"
  let ?start = "[FlowStarted (df_id def) ?ctx0]"
  have roots: "distinct (rootNodes c)" "\<forall>i \<in> set (rootNodes c). preds_in (df_edges (cf_def c)) i = []"
    using ok(1,2) by (simp_all add: compiled_ok_def empty_ends)
  have "journal_ok c ?start (map NodeStarted (rootNodes c))"
    by (rule journal_ok_started [OF roots(1)]) (simp_all add: roots(2))
  moreover have "tracks (applyEvents initial_flow (?start @ map NodeStarted (rootNodes c))) ([] @ ?start @ map NodeStarted (rootNodes c))"
    by (rule tracks_apply_all) (simp add: tracks_def initial_flow_def)
  moreover have "flowDefId (applyEvents st (map NodeStarted ns)) = flowDefId st" for st ns by (rule apply_all_flow) auto
  ultimately show "run_inv def c (process exec (new_instance registry) (StartFlow def overrides))"
    unfolding process_start [OF ok(1,3)] run_inv_def by (simp add: initial_flow_def)
  show "told_ok (process exec (new_instance registry) (StartFlow def overrides))"
    by (rule process_told_ok) (simp add: told_ok_def new_instance_def)
qed

lemma run_keeps_inv:
  assumes ok: "compiled_ok def c" "distinct (map fst (df_nodes def))" "compile_now def = Inr c"
    and "run_inv def c w" "told_ok w" "\<forall>t \<in> set ts. \<forall>d x. t \<noteq> Outside (StartFlow d x)"
  shows "run_inv def c (flow_run exec w ts)"
  using assms(4-)
proof (induction ts arbitrary: w)
  case (Cons t ts)
  have "run_inv def c (turn exec w t)"
    using Cons.prems by (intro flow_turn_inv [OF ok]) (auto simp: told_ok_def split: flow_turn.splits)
  with Cons show ?case by (simp add: flow_run_def turn_told_ok)
qed (simp add: flow_run_def)

lemma compile_now_ok:
  assumes "distinct (map fst (df_nodes def))" "compile_now def = Inr c"
  shows "compiled_ok def c" "acyclic (set (df_edges def))" "\<forall>e \<in> set (df_edges def). \<not> bad_edge (map fst (df_nodes def)) e"
  using compile_result [OF assms(1)] assms(2) by (auto simp: compile_now_def)

text \<open>
  C31. From the start of a flow, whatever its nodes return and whatever commands arrive in whatever order
  (completions, failures, messages and choices, from fired nodes or from outside), no node is started
  twice, a node is started only after each of its dependencies has succeeded, and the flow
  is declared complete only after each of its terminal nodes has succeeded.
\<close>

theorem node_flow_starts_in_order:
  assumes "distinct (map fst (df_nodes def))" "compile_now def = Inr c"
    and "\<forall>t \<in> set ts. \<forall>d x. t \<noteq> Outside (StartFlow d x)"
  shows "journal_ok c [] (fi_journal (flow_run exec (new_instance registry) (Outside (StartFlow def overrides) # ts)))"
proof -
  note ok = compile_now_ok(1) [OF assms(1,2)] assms(1,2)
  have "run_inv def c (flow_run exec (process exec (new_instance registry) (StartFlow def overrides)) ts)"
    by (rule run_keeps_inv [OF ok start_inv [OF ok] assms(3)])
  then show ?thesis by (simp add: flow_run_def turn_def run_inv_def)
qed

definition all_complete :: executor where
  "all_complete def st = Inr (Completed (JObj []))"

theorem node_flow_starts_in_order_witness:
  "\<exists>c. journal_ok c [] (fi_journal (flow_run all_complete (new_instance [])
        [Outside (StartFlow (demo_flow [(''a'', ''b''), (''b'', ''c'')]) []), Outside (UserMessage ''c'' JNull), Deliver 0]))
     \<and> cf_def c = demo_flow [(''a'', ''b''), (''b'', ''c'')]"
proof -
  let ?def = "demo_flow [(''a'', ''b''), (''b'', ''c'')]"
  have d: "distinct (map fst (df_nodes ?def))" by (simp add: demo_flow_def)
  have "accepts (compile_flow ?def)" by code_simp
  then obtain c where c: "compile_now ?def = Inr c" by (auto simp: accepts_def compile_now_def split: option.splits sum.splits)
  from compile_now_ok(1) [OF d c] have "cf_def c = ?def" by (simp add: compiled_ok_def)
  then show ?thesis using node_flow_starts_in_order [OF d c, of "[Outside (UserMessage ''c'' JNull), Deliver 0]" all_complete "[]" "[]"]
    by auto
qed

section \<open>Every flow of completing nodes ends\<close>

text \<open>The nodes that can run once the nodes of \<open>C\<close> have completed.\<close>

definition flow_ids :: "node_flow_def \<Rightarrow> string set" where
  "flow_ids def = fst ` set (df_nodes def)"

definition ready_set :: "node_flow_def \<Rightarrow> string set \<Rightarrow> string set" where
  "ready_set def C = {n \<in> flow_ids def - C. \<forall>d. (d, n) \<in> set (df_edges def) \<longrightarrow> d \<in> C}"

definition down_closed :: "node_flow_def \<Rightarrow> string set \<Rightarrow> bool" where
  "down_closed def C \<longleftrightarrow> (\<forall>a b. (a, b) \<in> set (df_edges def) \<longrightarrow> b \<in> C \<longrightarrow> a \<in> C)"

lemma ready_exists:
  assumes "acyclic (set (df_edges def))" "\<forall>e \<in> set (df_edges def). \<not> bad_edge (map fst (df_nodes def)) e"
    and "flow_ids def - C \<noteq> {}"
  shows "ready_set def C \<noteq> {}"
proof -
  have "wf (set (df_edges def))" using assms(1) by (simp add: finite_acyclic_wf)
  then obtain z where "z \<in> flow_ids def - C" "\<And>a. (a, z) \<in> set (df_edges def) \<Longrightarrow> a \<notin> flow_ids def - C"
    using assms(3) by (metis ex_in_conv wfE_min)
  moreover have "a \<in> flow_ids def" if "(a, z) \<in> set (df_edges def)" for a
    using assms(2) that by (force simp: bad_edge_def flow_ids_def)
  ultimately have "z \<in> ready_set def C" by (auto simp: ready_set_def)
  then show ?thesis by blast
qed

lemma terminals_cover:
  assumes "acyclic (set (df_edges def))" "compiled_ok def c" "down_closed def C" "set (terminalNodes c) \<subseteq> C"
    and "\<forall>e \<in> set (df_edges def). \<not> bad_edge (map fst (df_nodes def)) e"
  shows "flow_ids def \<subseteq> C"
proof
  fix x assume x: "x \<in> flow_ids def"
  have "wf ((set (df_edges def))\<inverse>)" using assms(1) by (simp add: finite_acyclic_wf_converse)
  then show "x \<in> C" using x
  proof (induction x rule: wf_induct_rule)
    case (less x)
    show ?case
    proof (cases "\<exists>b. (x, b) \<in> set (df_edges def)")
      case True
      then obtain b where b: "(x, b) \<in> set (df_edges def)" by blast
      with assms(5) have "b \<in> flow_ids def" by (force simp: bad_edge_def flow_ids_def)
      with less b have "b \<in> C" by simp
      with b assms(3) show ?thesis by (auto simp: down_closed_def)
    next
      case False
      with less.prems assms(2) have "x \<in> set (terminalNodes c)" by (auto simp: compiled_ok_def flow_ids_def)
      with assms(4) show ?thesis by blast
    qed
  qed
qed

lemma ready_insert:
  assumes "n \<in> ready_set def C"
  shows "ready_set def (insert n C) = (ready_set def C - {n})
    \<union> {i \<in> flow_ids def. i \<notin> C \<union> ready_set def C \<and> (\<forall>d. (d, i) \<in> set (df_edges def) \<longrightarrow> d \<in> insert n C)}"
  using assms by (auto simp: ready_set_def)

text \<open>The state of a run in which exactly the nodes of \<open>C\<close> have completed.\<close>

definition told_by :: "(string \<times> js_val) list \<Rightarrow> node_flow_command list" where
  "told_by rs = map (\<lambda>r. NodeCompletedCmd (fst r) (snd r)) rs"

definition status_at :: "node_flow_def \<Rightarrow> string set \<Rightarrow> string \<Rightarrow> node_status" where
  "status_at def C n = (if n \<in> C then NodeCompleted else if n \<in> ready_set def C then NodeRunning else NodePending)"

definition at_nodes :: "node_flow_def \<Rightarrow> string set \<Rightarrow> flow_instance \<Rightarrow> bool" where
  "at_nodes def C w \<longleftrightarrow> C \<subseteq> flow_ids def \<and> down_closed def C
     \<and> (\<forall>n. node_status_of (fi_state w) n = status_at def C n)
     \<and> (\<exists>rs. fi_told w = told_by rs \<and> distinct (map fst rs) \<and> fst ` set rs = ready_set def C)
     \<and> distinct (started (fi_journal w)) \<and> set (started (fi_journal w)) = C \<union> ready_set def C
     \<and> distinct (succeeded (fi_journal w)) \<and> set (succeeded (fi_journal w)) = C"

definition at_end :: "flow_instance \<Rightarrow> bool" where
  "at_end w \<longleftrightarrow> flowStatus (fi_state w) = FlowCompleted
     \<and> (\<exists>js ctx0. fi_journal w = js @ [FlowCompletedEv ctx0] \<and> completions js = [])"

definition progress :: "node_flow_def \<Rightarrow> compiled_flow \<Rightarrow> string set \<Rightarrow> flow_instance \<Rightarrow> bool" where
  "progress def c C w \<longleftrightarrow> run_inv def c w \<and> at_nodes def C w
     \<and> (if C = flow_ids def then at_end w else completions (fi_journal w) = [])"

text \<open>An executor that neither throws nor blocks on the nodes of a flow.\<close>

definition completes :: "node_flow_def \<Rightarrow> executor \<Rightarrow> bool" where
  "completes def exec \<longleftrightarrow> (\<forall>n d st. js_get (df_nodes def) n = Some d \<longrightarrow> exec d st \<noteq> Inr Blocking \<and> \<not> isl (exec d st))"

lemma completes_told:
  assumes "completes def exec" "set ns \<subseteq> fst ` set (df_nodes def)"
  obtains rs where "concat (map (fired_outcome exec) (map (\<lambda>i. FireNode i (the (js_get (df_nodes def) i)) p) ns)) = told_by rs" "map fst rs = ns"
proof -
  let ?f = "\<lambda>i. the (js_get (df_nodes def) i)"
  have one: "\<exists>out. fired_outcome exec (FireNode i (?f i) p) = [NodeCompletedCmd i out]" if i: "i \<in> fst ` set (df_nodes def)" for i
  proof -
    from i obtain d where d: "js_get (df_nodes def) i = Some d" by (metis map_of_eq_None_iff option.exhaust)
    with assms(1) have "exec d p \<noteq> Inr Blocking" "\<not> isl (exec d p)" by (auto simp: completes_def)
    then obtain s where "exec d p = Inr s" "s \<noteq> Blocking" by (cases "exec d p") auto
    with d show ?thesis by (cases s) (auto simp: fired_outcome_def)
  qed
  have "\<exists>rs. concat (map (fired_outcome exec) (map (\<lambda>i. FireNode i (?f i) p) ns)) = told_by rs \<and> map fst rs = ns"
    using assms(2)
  proof (induction ns)
    case (Cons n ns)
    then have n: "n \<in> fst ` set (df_nodes def)" and ns: "set ns \<subseteq> fst ` set (df_nodes def)" by simp_all
    from one [OF n] obtain out where out: "fired_outcome exec (FireNode n (?f n) p) = [NodeCompletedCmd n out]" by blast
    from Cons.IH [OF ns] obtain rs where "concat (map (fired_outcome exec) (map (\<lambda>i. FireNode i (?f i) p) ns)) = told_by rs" "map fst rs = ns" by blast
    with out have "concat (map (fired_outcome exec) (map (\<lambda>i. FireNode i (?f i) p) (n # ns))) = told_by ((n, out) # rs)
      \<and> map fst ((n, out) # rs) = n # ns" by (simp add: told_by_def)
    then show ?case by (rule exI)
  qed (simp add: told_by_def)
  with that show thesis by blast
qed

lemma status_completed: "js_get (nodeStatuses st) n = Some NodeCompleted \<longleftrightarrow> node_status_of st n = NodeCompleted"
  by (simp add: node_status_of_def split: option.splits)

lemma status_succeeded: "node_status_of (applyEvent st (NodeSucceeded n res)) i = (if i = n then NodeCompleted else node_status_of st i)"
  by (simp add: node_status_of_def)

lemma status_started:
  "node_status_of (applyEvents st (map NodeStarted ns)) i = (if i \<in> set ns then NodeRunning else node_status_of st i)"
  by (simp add: node_status_of_def start_statuses)

lemma status_cache [simp]: "node_status_of (st\<lparr>compiledCache := x\<rparr>) i = node_status_of st i"
  by (simp add: node_status_of_def)

text \<open>One completion among the ready nodes.\<close>

lemma completion_step:
  fixes res :: js_val
  assumes ok: "compiled_ok def c" "distinct (map fst (df_nodes def))"
    and st: "\<forall>i. node_status_of st i = status_at def C i" and n: "n \<in> ready_set def C"
  defines "ns \<equiv> nodesReadyToRun (applyEvent st (NodeSucceeded n res)) c"
  shows "distinct ns" and "set ns \<inter> (C \<union> ready_set def C) = {}"
    and "ready_set def (insert n C) = ready_set def C - {n} \<union> set ns"
    and "\<forall>i. node_status_of (applyEvents st (NodeSucceeded n res # map NodeStarted ns)) i = status_at def (insert n C) i"
proof -
  let ?p = "applyEvent st (NodeSucceeded n res)"
  have nC: "n \<notin> C" using n by (simp add: ready_set_def)
  have p: "node_status_of ?p i = (if i = n then NodeCompleted else status_at def C i)" for i
    unfolding status_succeeded st [rule_format] ..
  note ready = ready_nodes [OF ok, of ?p, folded ns_def]
  show "distinct ns" by (rule ready(1))
  have ns: "set ns = {i \<in> flow_ids def. i \<notin> C \<union> ready_set def C \<and> (\<forall>d. (d, i) \<in> set (df_edges def) \<longrightarrow> d \<in> insert n C)}"
    unfolding ready(2) status_completed p flow_ids_def [symmetric] using n nC by (auto simp: status_at_def)
  then show disj: "set ns \<inter> (C \<union> ready_set def C) = {}" by blast
  show r: "ready_set def (insert n C) = ready_set def C - {n} \<union> set ns" unfolding ready_insert [OF n] ns ..
  show "\<forall>i. node_status_of (applyEvents st (NodeSucceeded n res # map NodeStarted ns)) i = status_at def (insert n C) i"
  proof
    fix i
    have "node_status_of (applyEvents st (NodeSucceeded n res # map NodeStarted ns)) i = (if i \<in> set ns then NodeRunning else node_status_of ?p i)"
      unfolding applyEvents_simps(2) status_started ..
    also have "\<dots> = status_at def (insert n C) i"
      unfolding p status_at_def r using disj n nC by auto
    finally show "node_status_of (applyEvents st (NodeSucceeded n res # map NodeStarted ns)) i = status_at def (insert n C) i" .
  qed
qed

lemma terminals_done_iff:
  assumes "acyclic (set (df_edges def))" "compiled_ok def c" "down_closed def C" "C \<subseteq> flow_ids def" "df_nodes def \<noteq> []"
    and "\<forall>e \<in> set (df_edges def). \<not> bad_edge (map fst (df_nodes def)) e"
    and st: "\<forall>i. node_status_of st i = status_at def C i"
  shows "terminals_done st c \<longleftrightarrow> C = flow_ids def"
proof -
  have sub: "set (terminalNodes c) \<subseteq> flow_ids def" using assms(2) by (auto simp: compiled_ok_def flow_ids_def)
  have "terminalNodes c \<noteq> []"
  proof
    assume "terminalNodes c = []"
    with terminals_cover [OF assms(1,2) _ _ assms(6), of "{}"] have "flow_ids def \<subseteq> {}" by (simp add: down_closed_def)
    with assms(5) show False by (cases "df_nodes def") (auto simp: flow_ids_def)
  qed
  then have "terminals_done st c \<longleftrightarrow> set (terminalNodes c) \<subseteq> C"
    unfolding terminals_done_def list_all_iff status_completed st [rule_format] by (auto simp: status_at_def split: if_splits)
  also have "\<dots> \<longleftrightarrow> C = flow_ids def"
    using terminals_cover [OF assms(1-3) _ assms(6)] assms(4) sub by blast
  finally show ?thesis .
qed

lemma status_maybe_completed:
  "node_status_of (applyEvents st (es @ (if b then [FlowCompletedEv x] else []))) i = node_status_of (applyEvents st es) i"
  by (simp add: node_status_of_def)

lemma insert_down_closed: "down_closed def C \<Longrightarrow> n \<in> ready_set def C \<Longrightarrow> down_closed def (insert n C)"
  by (auto simp: down_closed_def ready_set_def)

lemma start_events_frame [simp]:
  "flowStatus (applyEvents st (map NodeStarted ns)) = flowStatus st"
  by (induction ns arbitrary: st) auto

lemma told_by_append: "told_by (rs @ ss) = told_by rs @ told_by ss"
  by (simp add: told_by_def)

lemma process_completed:
  assumes ok: "compiled_ok def c" "distinct (map fst (df_nodes def))" "compile_now def = Inr c"
    and inv: "run_inv def c w" and exec: "completes def exec"
  obtains rs where "process exec w (NodeCompletedCmd n res) =
      w\<lparr>fi_state := applyEvents ((fi_state w)\<lparr>compiledCache := Some c\<rparr>) (fst (completion_events ((fi_state w)\<lparr>compiledCache := Some c\<rparr>) c n res)),
        fi_journal := fi_journal w @ fst (completion_events ((fi_state w)\<lparr>compiledCache := Some c\<rparr>) c n res),
        fi_told := fi_told w @ told_by rs\<rparr>"
    and "map fst rs = nodesReadyToRun (applyEvent ((fi_state w)\<lparr>compiledCache := Some c\<rparr>) (NodeSucceeded n res)) c"
proof -
  let ?st = "(fi_state w)\<lparr>compiledCache := Some c\<rparr>"
  have "getCompiled (fi_registry w) (fi_state w) = Inr (Some c, ?st)"
    using inv by (intro getCompiled_cached [OF ok(3)]) (simp_all add: run_inv_def)
  then have d: "node_flow_decide (fi_registry w) (fi_state w) (NodeCompletedCmd n res) =
      Inr (persist_and_run (fst (completion_events ?st c n res)) (snd (completion_events ?st c n res)), fi_registry w, ?st)"
    by (simp add: node_flow_decide_def case_prod_beta)
  have sub: "set (nodesReadyToRun (applyEvent ?st (NodeSucceeded n res)) c) \<subseteq> fst ` set (df_nodes def)"
    unfolding ready_nodes(2) [OF ok(1,2)] by (rule Collect_restrict)
  obtain rs where rs: "concat (map (fired_outcome exec) (snd (completion_events ?st c n res))) = told_by rs"
    "map fst rs = nodesReadyToRun (applyEvent ?st (NodeSucceeded n res)) c"
    unfolding completion_events_eq [OF ok(1,2)] snd_conv by (rule completes_told [OF exec sub])
  from process_eq [OF d, of exec] rs show thesis by (intro that [of rs]) simp_all
qed

lemma progress_step:
  assumes ok: "compiled_ok def c" "distinct (map fst (df_nodes def))" "compile_now def = Inr c" and nonempty: "df_nodes def \<noteq> []"
    and exec: "completes def exec" and pr: "progress def c C w" and k: "k < length (fi_told w)"
  shows "\<exists>n \<in> ready_set def C. progress def c (insert n C) (turn exec w (Deliver k))"
proof -
  note dag = compile_now_ok(2,3) [OF ok(2,3)]
  from pr have inv: "run_inv def c w" and at: "at_nodes def C w" by (simp_all add: progress_def)
  from at obtain rs where rs: "fi_told w = told_by rs" "distinct (map fst rs)" "fst ` set rs = ready_set def C"
    by (auto simp: at_nodes_def)
  from k rs(1) have kr: "k < length rs" by (simp add: told_by_def)
  obtain n res where nk: "rs ! k = (n, res)" by (cases "rs ! k")
  have split: "rs = take k rs @ (n, res) # drop (Suc k) rs" using id_take_nth_drop [OF kr] nk by simp
  let ?rest = "take k rs @ drop (Suc k) rs"
  have n: "n \<in> ready_set def C" using nk kr rs(3) by (metis fst_conv image_eqI nth_mem)
  have keys: "map fst rs = map fst (take k rs) @ n # map fst (drop (Suc k) rs)" using split by (metis fst_conv list.simps(9) map_append)
  have rest: "distinct (map fst ?rest)" "fst ` set ?rest = ready_set def C - {n}"
    using rs(2) unfolding rs(3) [symmetric] set_map [symmetric] keys by (auto simp: image_Un)
  let ?w = "w\<lparr>fi_told := told_by ?rest\<rparr>"
  have turn: "turn exec w (Deliver k) = process exec ?w (NodeCompletedCmd n res)"
    using k kr rs(1) nk by (simp add: turn_def told_by_def take_map drop_map)
  have inv': "run_inv def c ?w" using inv by (simp add: run_inv_def)
  let ?st = "(fi_state w)\<lparr>compiledCache := Some c\<rparr>"
  let ?ns = "nodesReadyToRun (applyEvent ?st (NodeSucceeded n res)) c"
  let ?es = "NodeSucceeded n res # map NodeStarted ?ns"
  obtain fired where pw: "process exec ?w (NodeCompletedCmd n res) =
      ?w\<lparr>fi_state := applyEvents ?st (fst (completion_events ?st c n res)),
        fi_journal := fi_journal w @ fst (completion_events ?st c n res), fi_told := told_by ?rest @ told_by fired\<rparr>"
    and fired: "map fst fired = ?ns"
    using process_completed [OF ok inv' exec, of n res] by simp blast
  have stat: "\<forall>i. node_status_of ?st i = status_at def C i" using at by (simp add: at_nodes_def)
  note cs = completion_step [OF ok(1,2) stat n, of res]
  have sub: "insert n C \<subseteq> flow_ids def" using at n by (auto simp: at_nodes_def ready_set_def)
  have closed: "down_closed def (insert n C)" using at n by (auto simp: at_nodes_def intro: insert_down_closed)
  have done_iff: "terminals_done (applyEvents ?st ?es) c \<longleftrightarrow> insert n C = flow_ids def"
    by (rule terminals_done_iff [OF dag(1) ok(1) closed sub nonempty dag(2) cs(4)])
  let ?fin = "if insert n C = flow_ids def then [FlowCompletedEv (flowContext (applyEvents ?st ?es))] else []"
  have ev: "fst (completion_events ?st c n res) = ?es @ ?fin"
    unfolding completion_events_eq [OF ok(1,2)] fst_conv done_iff ..
  have nC: "n \<notin> C" using n by (simp add: ready_set_def)
  have J: "completions (fi_journal w) = []" using pr nC sub by (auto simp: progress_def split: if_splits)
  have "at_nodes def (insert n C) (turn exec w (Deliver k))"
  proof -
    have "distinct (map fst (?rest @ fired))" "fst ` set (?rest @ fired) = ready_set def (insert n C)"
      using rest cs(1,2) unfolding cs(3) map_append fired set_append image_Un set_map [symmetric]
      by (auto simp: fired)
    then have "\<exists>rs. told_by ?rest @ told_by fired = told_by rs \<and> distinct (map fst rs) \<and> fst ` set rs = ready_set def (insert n C)"
      unfolding told_by_append [symmetric] by blast
    moreover have "node_status_of (applyEvents ?st (?es @ ?fin)) i = status_at def (insert n C) i" for i
      unfolding status_maybe_completed by (rule cs(4) [rule_format])
    moreover have "distinct (started (fi_journal w @ ?es @ ?fin))" "set (started (fi_journal w @ ?es @ ?fin)) = insert n C \<union> ready_set def (insert n C)"
      using at cs(1-3) n by (auto simp: at_nodes_def)
    moreover have "distinct (succeeded (fi_journal w @ ?es @ ?fin))" "set (succeeded (fi_journal w @ ?es @ ?fin)) = insert n C"
      using at nC by (auto simp: at_nodes_def)
    ultimately show ?thesis unfolding turn pw ev at_nodes_def using sub closed by simp
  qed
  moreover have "run_inv def c (turn exec w (Deliver k))" unfolding turn by (rule process_inv [OF ok inv']) simp
  moreover have "if insert n C = flow_ids def then at_end (turn exec w (Deliver k)) else completions (fi_journal (turn exec w (Deliver k))) = []"
  proof (cases "insert n C = flow_ids def")
    case True
    then have "fi_journal w @ ?es @ ?fin = (fi_journal w @ ?es) @ [FlowCompletedEv (flowContext (applyEvents ?st ?es))]" by simp
    moreover have "completions (fi_journal w @ ?es) = []" using J by simp
    ultimately show ?thesis unfolding turn pw ev at_end_def using True by simp
  qed (use J in \<open>simp add: turn pw ev\<close>)
  ultimately have "progress def c (insert n C) (turn exec w (Deliver k))" by (simp add: progress_def)
  with n show ?thesis by blast
qed

text \<open>Deliveries until nothing is outstanding: \<open>ks\<close> says which of the outstanding outcomes arrives next.\<close>

fun drive :: "executor \<Rightarrow> flow_instance \<Rightarrow> nat list \<Rightarrow> flow_instance" where
  "drive exec w [] = w"
| "drive exec w (k # ks) = drive exec (turn exec w (Deliver (k mod length (fi_told w)))) ks"

lemma drive_is_run: "\<exists>ts. drive exec w ks = flow_run exec w (map Deliver ts)"
proof (induction ks arbitrary: w)
  case Nil
  show ?case by (rule exI [of _ "[]"]) (simp add: flow_run_def)
next
  case (Cons k ks)
  from Cons [of "turn exec w (Deliver (k mod length (fi_told w)))"] obtain ts where
    "drive exec (turn exec w (Deliver (k mod length (fi_told w)))) ks = flow_run exec (turn exec w (Deliver (k mod length (fi_told w)))) (map Deliver ts)" by blast
  then have "drive exec w (k # ks) = flow_run exec w (map Deliver ((k mod length (fi_told w)) # ts))" by (simp add: flow_run_def)
  then show ?case by blast
qed

lemma finite_flow_ids [simp]: "finite (flow_ids def)"
  by (simp add: flow_ids_def)

lemma drive_completes:
  assumes ok: "compiled_ok def c" "distinct (map fst (df_nodes def))" "compile_now def = Inr c" "df_nodes def \<noteq> []" "completes def exec"
    and "progress def c C w" "card (flow_ids def - C) \<le> length ks"
  shows "progress def c (flow_ids def) (drive exec w ks)"
  using assms(6,7)
proof (induction ks arbitrary: C w)
  case Nil
  then have "flow_ids def \<subseteq> C" by simp
  with Nil(1) have "C = flow_ids def" by (auto simp: progress_def at_nodes_def)
  with Nil(1) show ?case by simp
next
  case (Cons k ks)
  show ?case
  proof (cases "flow_ids def - C = {}")
    case True
    then have "ready_set def C = {}" by (auto simp: ready_set_def)
    with Cons.prems(1) have "fi_told w = []" by (auto simp: progress_def at_nodes_def told_by_def)
    then have "turn exec w (Deliver (k mod length (fi_told w))) = w" by (simp add: turn_def)
    with Cons.IH [OF Cons.prems(1)] True show ?thesis by simp
  next
    case False
    from ready_exists [OF compile_now_ok(2,3) [OF ok(2,3)] False] Cons.prems(1) have "fi_told w \<noteq> []"
      by (auto simp: progress_def at_nodes_def told_by_def)
    then have "k mod length (fi_told w) < length (fi_told w)" by simp
    from progress_step [OF ok Cons.prems(1) this] obtain n where n: "n \<in> ready_set def C"
      and pr: "progress def c (insert n C) (turn exec w (Deliver (k mod length (fi_told w))))" by blast
    have "flow_ids def - insert n C \<subset> flow_ids def - C" using n by (auto simp: ready_set_def)
    then have "card (flow_ids def - insert n C) < card (flow_ids def - C)" by (intro psubset_card_mono) simp_all
    with Cons.IH [OF pr] Cons.prems(2) show ?thesis by simp
  qed
qed

lemma start_progress:
  assumes ok: "compiled_ok def c" "distinct (map fst (df_nodes def))" "compile_now def = Inr c" "df_nodes def \<noteq> []" and exec: "completes def exec"
  shows "progress def c {} (process exec (new_instance registry) (StartFlow def overrides))"
proof -
  let ?ctx0 = "spread (df_initialContext def) overrides"
  let ?es = "FlowStarted (df_id def) ?ctx0 # map NodeStarted (rootNodes c)"
  have roots: "set (rootNodes c) = ready_set def {}" "distinct (rootNodes c)"
    using ok(1,2) by (auto simp: compiled_ok_def ready_set_def flow_ids_def)
  have sub: "set (rootNodes c) \<subseteq> fst ` set (df_nodes def)" using ok(1) by (auto simp: compiled_ok_def)
  obtain rs where rs: "concat (map (fired_outcome exec)
       (map (\<lambda>i. FireNode i (the (js_get (df_nodes def) i)) (projected_start def c ?ctx0)) (rootNodes c))) = told_by rs"
    "map fst rs = rootNodes c" by (rule completes_told [OF exec sub])
  have "flow_ids def \<noteq> {}" using ok(4) by (cases "df_nodes def") (auto simp: flow_ids_def)
  moreover have "node_status_of (applyEvents initial_flow ?es) i = status_at def {} i" for i
    unfolding applyEvents_simps(2) status_started roots(1) by (simp add: status_at_def node_status_of_def initial_flow_def)
  moreover have "\<exists>rs'. told_by rs = told_by rs' \<and> distinct (map fst rs') \<and> fst ` set rs' = ready_set def {}"
    using rs(2) roots by (metis set_map)
  moreover have "process exec (new_instance registry) (StartFlow def overrides) = \<lparr>fi_state = applyEvents initial_flow ?es,
      fi_registry = js_set (df_id def) def registry, fi_journal = ?es, fi_told = told_by rs\<rparr>"
    unfolding process_start [OF ok(1,3)] rs(1) ..
  ultimately show ?thesis
    using start_inv(1) [OF ok(1-3), of exec registry overrides] unfolding progress_def at_nodes_def
    by (simp add: down_closed_def roots del: applyEvents_simps(2))
qed

text \<open>
  A flow whose nodes all return runs to its end: for every compiled definition with nodes, every executor that
  neither throws nor blocks on its nodes, and every order in which the outcomes of the started nodes arrive, as many
  deliveries as there are nodes leave nothing outstanding, every node has been started once and
  completed once, and the last event of the journal, and only that, declares the flow complete.
\<close>

lemma flow_runs_to_end:
  assumes "distinct (map fst (df_nodes def))" "compile_now def = Inr c" "df_nodes def \<noteq> []" "completes def exec"
    and "length (df_nodes def) \<le> length ks"
    and "w = drive exec (process exec (new_instance registry) (StartFlow def overrides)) ks"
  shows "fi_told w = [] \<and> flowStatus (fi_state w) = FlowCompleted
    \<and> mset (started (fi_journal w)) = mset (map fst (df_nodes def))
    \<and> mset (succeeded (fi_journal w)) = mset (map fst (df_nodes def))
    \<and> (\<exists>js ctx0. fi_journal w = js @ [FlowCompletedEv ctx0] \<and> completions js = [])"
proof -
  note ok = compile_now_ok(1) [OF assms(1,2)] assms(1-4)
  have "card (flow_ids def - {}) \<le> length ks"
    using assms(5) card_length [of "map fst (df_nodes def)"] by (simp add: flow_ids_def)
  from drive_completes [OF ok start_progress [OF ok] this] have "progress def c (flow_ids def) w" by (simp add: assms(6))
  then have at: "at_nodes def (flow_ids def) w" and e: "at_end w" by (simp_all add: progress_def)
  have ready: "ready_set def (flow_ids def) = {}" by (simp add: ready_set_def)
  from at ready have told: "fi_told w = []" by (auto simp: at_nodes_def told_by_def)
  have "mset xs = mset (map fst (df_nodes def))" if "distinct xs" "set xs = flow_ids def" for xs
    using that assms(1) by (intro set_eq_iff_mset_eq_distinct [THEN iffD1]) (simp_all add: flow_ids_def)
  with at ready told e show ?thesis by (simp add: at_nodes_def at_end_def)
qed

lemma flow_runs_to_end_example:
  "flowStatus (fi_state (drive all_complete (process all_complete (new_instance []) (StartFlow (demo_flow [(''a'', ''b''), (''a'', ''c'')]) [])) [0, 1, 0]))
    = FlowCompleted"
proof -
  let ?def = "demo_flow [(''a'', ''b''), (''a'', ''c'')]"
  have d: "distinct (map fst (df_nodes ?def))" "df_nodes ?def \<noteq> []" "length (df_nodes ?def) \<le> length [0, 1, 0::nat]"
    by (simp_all add: demo_flow_def)
  have "accepts (compile_flow ?def)" by code_simp
  then obtain c where c: "compile_now ?def = Inr c" by (auto simp: accepts_def compile_now_def split: option.splits sum.splits)
  have "completes ?def all_complete" by (simp add: completes_def all_complete_def)
  from flow_runs_to_end [OF d(1) c d(2) this d(3) refl, of "[]" "[]"] show ?thesis by simp
qed

section \<open>What the aggregate does not do\<close>

definition rename_flow :: "string \<Rightarrow> node_flow_def \<Rightarrow> node_flow_def" where
  "rename_flow i def = def\<lparr>df_id := i\<rparr>"

text \<open>A finished flow that is started again runs only its roots: the stored statuses of the first run are kept.\<close>

lemma restart_skips_nodes:
  "let def = demo_flow [(''a'', ''b''), (''b'', ''c'')];
       w1 = drive all_complete (process all_complete (new_instance []) (StartFlow def [])) [0, 0, 0];
       w2 = drive all_complete (process all_complete w1 (StartFlow def [])) [0]
   in flowStatus (fi_state w1) = FlowCompleted \<and> flowStatus (fi_state w2) = FlowCompleted \<and> fi_told w2 = []
      \<and> started (fi_journal w1) = [''a'', ''b'', ''c''] \<and> started (fi_journal w2) = [''a'', ''b'', ''c'', ''a'']"
  by code_simp

text \<open>Another definition started on the same entity is run with the graph of the one before.\<close>

lemma second_flow_uses_first_graph:
  "let w1 = drive all_complete (process all_complete (new_instance []) (StartFlow (demo_flow []) [])) [0, 0, 0];
       w2 = process all_complete w1 (StartFlow (rename_flow ''g'' (demo_flow [(''a'', ''b'')])) [])
   in flowDefId (fi_state w2) = Some ''g''
      \<and> (case getCompiled (fi_registry w2) (fi_state w2) of Inr (Some c, st) \<Rightarrow> df_id (cf_def c) | _ \<Rightarrow> []) = ''f''"
  by code_simp

definition all_block :: executor where
  "all_block def st = Inr Blocking"

text \<open>The message that completes a waiting node does not start the nodes that wait for it.\<close>

lemma message_starts_no_dependents:
  "let w = process all_block (process all_block (new_instance []) (StartFlow (demo_flow [(''a'', ''b''), (''b'', ''c'')]) [])) (UserMessage ''a'' JNull)
   in node_status_of (fi_state w) ''a'' = NodeCompleted \<and> started (fi_journal w) = [''a''] \<and> fi_told w = [] \<and> flowStatus (fi_state w) = FlowRunning"
  by code_simp

text \<open>The definitions are not in the journal: a process that restarts knows no flow.\<close>

lemma recovered_flow_is_unknown:
  "node_flow_decide [] (applyEvents initial_flow es) (NodeCompletedCmd n res)
   = Inr (reply (FlowError ''no flow running''), [], applyEvents initial_flow es)"
  by (simp add: node_flow_decide_def getCompiled_def initial_flow_def split: option.splits)

end
