(* ===== verification/Window.thy ===== *)
theory Window
  imports Prelude Complex_Main "HOL-Library.Multiset"
begin

text \<open>
  \<open>core/window.ts\<close>: windowed state of a view. An event window keeps every entry; a tile window keeps one
  aggregate per hop. Times are integers (epoch milliseconds), values are reals: the code's doubles
  without rounding.
\<close>

section \<open>Event windows\<close>

record 'a window_entry =
  at_ms :: int
  entry_value :: 'a

definition retainEntries :: "'a window_entry list \<Rightarrow> int \<Rightarrow> int \<Rightarrow> 'a window_entry list" where
  "retainEntries candidates now windowMs = sort_key (\<lambda>e. - at_ms e) (filter (\<lambda>e. now - windowMs \<le> at_ms e) candidates)"

definition event_empty :: "'a window_entry list" where "event_empty = []"

definition event_add :: "'a window_entry list \<Rightarrow> int \<Rightarrow> 'a \<Rightarrow> int \<Rightarrow> 'a window_entry list" where
  "event_add w time v windowMs = retainEntries (\<lparr>at_ms = time, entry_value = v\<rparr> # w) time windowMs"

definition event_within :: "'a window_entry list \<Rightarrow> int \<Rightarrow> int \<Rightarrow> 'a window_entry list" where
  "event_within w now windowMs = retainEntries w now windowMs"

definition event_values :: "'a window_entry list \<Rightarrow> int \<Rightarrow> int \<Rightarrow> 'a list" where
  "event_values w now windowMs = map entry_value (retainEntries w now windowMs)"

definition event_size :: "'a window_entry list \<Rightarrow> int \<Rightarrow> int \<Rightarrow> nat" where
  "event_size w now windowMs = length (retainEntries w now windowMs)"

definition event_oldest :: "'a window_entry list \<Rightarrow> int \<Rightarrow> int \<Rightarrow> int option" where
  "event_oldest w now windowMs =
     (let live = retainEntries w now windowMs in if live = [] then None else Some (at_ms (last live)))"

section \<open>Tiles\<close>

record tile =
  count :: nat
  tile_sum :: real
  tile_min :: real
  tile_max :: real
  sumOfSquares :: real

text \<open>\<open>Number.MAX_VALUE\<close>.\<close>

definition MAX_VALUE :: real where "MAX_VALUE = (2 - 1 / 2 ^ 52) * 2 ^ 1023"

definition tile_empty :: tile where
  "tile_empty = \<lparr>count = 0, tile_sum = 0, tile_min = MAX_VALUE, tile_max = - MAX_VALUE, sumOfSquares = 0\<rparr>"

definition tile_add :: "tile \<Rightarrow> real \<Rightarrow> tile" where
  "tile_add t v = \<lparr>count = count t + 1, tile_sum = tile_sum t + v, tile_min = min (tile_min t) v, tile_max = max (tile_max t) v,
     sumOfSquares = sumOfSquares t + v * v\<rparr>"

definition tile_of :: "real \<Rightarrow> tile" where "tile_of v = tile_add tile_empty v"

definition tile_merge :: "tile \<Rightarrow> tile \<Rightarrow> tile" where
  "tile_merge a b = \<lparr>count = count a + count b, tile_sum = tile_sum a + tile_sum b, tile_min = min (tile_min a) (tile_min b),
     tile_max = max (tile_max a) (tile_max b), sumOfSquares = sumOfSquares a + sumOfSquares b\<rparr>"

record windowed_aggregate =
  agg_count :: nat
  agg_sum :: real
  agg_min :: "real option"
  agg_max :: "real option"
  variance :: real
  mean :: "real option"
  standardDeviation :: "real option"

section \<open>Tile windows\<close>

text \<open>The tiles are keyed by the decimal form of their start.\<close>

type_synonym tile_window = "(string, tile) jsmap"

definition retainTiles :: "(string, 'v) jsmap \<Rightarrow> int \<Rightarrow> int \<Rightarrow> int \<Rightarrow> (string, 'v) jsmap" where
  "retainTiles tiles now hopMs windowMs = filter (\<lambda>(start, t). now - windowMs < str_int start + hopMs) tiles"

definition tiles_empty :: tile_window where "tiles_empty = []"

definition tileStart :: "int \<Rightarrow> int \<Rightarrow> js_error + int" where
  "tileStart time hopMs = (if hopMs \<le> 0 then Inl (JsError ''tile hop must be positive'') else Inr (time div hopMs * hopMs))"

definition tiles_add :: "tile_window \<Rightarrow> int \<Rightarrow> real \<Rightarrow> int \<Rightarrow> int \<Rightarrow> js_error + tile_window" where
  "tiles_add w time v hopMs windowMs =
     (case tileStart time hopMs of
        Inl e \<Rightarrow> Inl e
      | Inr s \<Rightarrow>
          (let start = int_str s;
               t = (case js_get w start of None \<Rightarrow> tile_of v | Some existing \<Rightarrow> tile_add existing v)
           in Inr (retainTiles (js_set start t w) time hopMs windowMs)))"

definition aggregate_of :: "tile \<Rightarrow> windowed_aggregate" where
  "aggregate_of merged =
     (if count merged = 0 then
        \<lparr>agg_count = 0, agg_sum = 0, agg_min = None, agg_max = None, variance = 0, mean = None, standardDeviation = None\<rparr>
      else
        (let m = tile_sum merged / real (count merged);
             var = max 0 (sumOfSquares merged / real (count merged) - m * m)
         in \<lparr>agg_count = count merged, agg_sum = tile_sum merged, agg_min = Some (tile_min merged), agg_max = Some (tile_max merged),
             variance = var, mean = Some m, standardDeviation = Some (sqrt var)\<rparr>))"

definition tiles_aggregate :: "tile_window \<Rightarrow> int \<Rightarrow> int \<Rightarrow> int \<Rightarrow> windowed_aggregate" where
  "tiles_aggregate w now hopMs windowMs =
     aggregate_of (foldl tile_merge tile_empty (map snd (retainTiles w now hopMs windowMs)))"

definition tiles_isEmpty :: "tile_window \<Rightarrow> bool" where "tiles_isEmpty w \<longleftrightarrow> w = []"

section \<open>What an event window holds\<close>

lemma sort_key_idem [simp]: "sort_key f (sort_key f xs) = sort_key f xs"
  by (rule sort_key_id_if_sorted) simp

lemma sort_key_again: "sort_key f (x # sort_key f xs) = sort_key f (x # xs)"
  using sort_key_idem [of f xs] by (simp add: sort_key_def)

lemma event_within_add:
  assumes "time - windowMs \<le> now - windowMs0"
  shows "event_within (event_add w time v windowMs) now windowMs0 =
    sort_key (\<lambda>e. - at_ms e) (filter (\<lambda>e. now - windowMs0 \<le> at_ms e) (\<lparr>at_ms = time, entry_value = v\<rparr> # w))"
proof -
  have "filter (\<lambda>e. now - windowMs0 \<le> at_ms e) (filter (\<lambda>e. time - windowMs \<le> at_ms e) xs) = filter (\<lambda>e. now - windowMs0 \<le> at_ms e) xs"
    for xs :: "'a window_entry list"
    using assms unfolding filter_filter by (intro filter_cong) auto
  then show ?thesis unfolding event_within_def event_add_def retainEntries_def filter_sort sort_key_idem by (simp only:)
qed

definition event_adds :: "('a \<times> int \<times> int) list \<Rightarrow> 'a window_entry list" where
  "event_adds ops = foldl (\<lambda>w (v, time, windowMs). event_add w time v windowMs) event_empty ops"

lemma event_window_exact:
  assumes "\<forall>(v, time, windowMs) \<in> set ops. time - windowMs \<le> now - windowMs0"
  shows "event_within (event_adds ops) now windowMs0 =
    sort_key (\<lambda>e. - at_ms e) (rev (filter (\<lambda>e. now - windowMs0 \<le> at_ms e) (map (\<lambda>(v, time, windowMs). \<lparr>at_ms = time, entry_value = v\<rparr>) ops)))"
  using assms
proof (induction ops rule: rev_induct)
  case (snoc op ops)
  obtain v time win where op: "op = (v, time, win)" by (cases op) auto
  let ?e = "\<lparr>at_ms = time, entry_value = v\<rparr>" and ?k = "\<lambda>e. - at_ms e" and ?P = "\<lambda>e. now - windowMs0 \<le> at_ms e"
  have step: "event_adds (ops @ [op]) = event_add (event_adds ops) time v win" by (simp add: event_adds_def op)
  have win: "time - win \<le> now - windowMs0" using snoc.prems op by simp
  have "sort_key ?k (filter ?P (?e # w)) = sort_key ?k (filter ?P [?e] @ event_within w now windowMs0)" for w
    by (simp add: event_within_def retainEntries_def sort_key_again)
  then have "event_within (event_adds (ops @ [op])) now windowMs0 = sort_key ?k (filter ?P [?e] @ event_within (event_adds ops) now windowMs0)"
    unfolding step event_within_add [OF win] .
  with snoc show ?case by (simp add: op sort_key_again)
qed (simp add: event_adds_def event_empty_def event_within_def retainEntries_def)

section \<open>What a tile window holds\<close>

text \<open>The tile of a list of values, and merging as concatenation.\<close>

definition tile_of_list :: "real list \<Rightarrow> tile" where
  "tile_of_list vs = foldl tile_add tile_empty vs"

definition bounded :: "real list \<Rightarrow> bool" where
  "bounded vs \<longleftrightarrow> (\<forall>v \<in> set vs. \<bar>v\<bar> \<le> MAX_VALUE)"

lemma tile_of_list_eq:
  "tile_of_list vs = \<lparr>count = length vs, tile_sum = sum_list vs, tile_min = Min (insert MAX_VALUE (set vs)),
     tile_max = Max (insert (- MAX_VALUE) (set vs)), sumOfSquares = sum_list (map (\<lambda>v. v * v) vs)\<rparr>"
proof (induction vs rule: rev_induct)
  case (snoc v vs)
  have "Min (insert MAX_VALUE (set (vs @ [v]))) = min (Min (insert MAX_VALUE (set vs))) v"
    "Max (insert (- MAX_VALUE) (set (vs @ [v]))) = max (Max (insert (- MAX_VALUE) (set vs))) v"
    by (simp_all add: insert_commute [of _ v] min.commute max.commute)
  with snoc show ?case by (simp add: tile_of_list_def tile_add_def)
qed (simp add: tile_of_list_def tile_empty_def)

lemma tile_of_list_snoc: "tile_of_list (vs @ [v]) = tile_add (tile_of_list vs) v"
  by (simp add: tile_of_list_def)

lemma tile_merge_append: "tile_merge (tile_of_list xs) (tile_of_list ys) = tile_of_list (xs @ ys)"
proof -
  have "Min (insert MAX_VALUE (set (xs @ ys))) = min (Min (insert MAX_VALUE (set xs))) (Min (insert MAX_VALUE (set ys)))"
    "Max (insert (- MAX_VALUE) (set (xs @ ys))) = max (Max (insert (- MAX_VALUE) (set xs))) (Max (insert (- MAX_VALUE) (set ys)))"
    by (simp_all add: Min_Un [symmetric] Max_Un [symmetric])
  then show ?thesis by (simp add: tile_merge_def tile_of_list_eq)
qed

lemma tile_of_list_mset: "mset xs = mset ys \<Longrightarrow> tile_of_list xs = tile_of_list ys"
proof -
  assume eq: "mset xs = mset ys"
  then have "set xs = set ys" by (rule mset_eq_setD)
  moreover from eq have "length xs = length ys" by (rule mset_eq_length)
  moreover from eq have "sum_list xs = sum_list ys" by (metis sum_mset_sum_list)
  moreover from eq have "mset (map (\<lambda>v. v * v) xs) = mset (map (\<lambda>v. v * v) ys)" by simp
  then have "sum_list (map (\<lambda>v. v * v) xs) = sum_list (map (\<lambda>v. v * v) ys)" by (metis sum_mset_sum_list)
  ultimately show ?thesis by (simp add: tile_of_list_eq)
qed

lemma merge_tiles: "foldl tile_merge (tile_of_list us) (map tile_of_list vss) = tile_of_list (us @ concat vss)"
  by (induction vss arbitrary: us) (simp_all add: tile_merge_append)

text \<open>
  The same window with the values of each tile in place of their tile: what \<open>add\<close> does to the tiles it does to
  the lists of their values.
\<close>

definition values_add :: "(string, real list) jsmap \<Rightarrow> int \<Rightarrow> real \<Rightarrow> int \<Rightarrow> int \<Rightarrow> (string, real list) jsmap" where
  "values_add g time v hopMs windowMs =
     (let start = int_str (time div hopMs * hopMs)
      in retainTiles (js_set start ((case js_get g start of None \<Rightarrow> [] | Some vs \<Rightarrow> vs) @ [v]) g) time hopMs windowMs)"

definition tiles_of :: "(string, real list) jsmap \<Rightarrow> tile_window" where
  "tiles_of g = map (\<lambda>(k, vs). (k, tile_of_list vs)) g"

lemma js_get_tiles_of: "js_get (tiles_of g) k = map_option tile_of_list (js_get g k)"
  by (induction g) (auto simp: tiles_of_def)

lemma js_set_tiles_of: "js_set k (tile_of_list vs) (tiles_of g) = tiles_of (js_set k vs g)"
  by (induction g) (auto simp: tiles_of_def)

lemma retain_tiles_of: "retainTiles (tiles_of g) now hopMs windowMs = tiles_of (retainTiles g now hopMs windowMs)"
  by (induction g) (auto simp: tiles_of_def retainTiles_def)

lemma tiles_add_values:
  assumes "0 < hopMs"
  shows "tiles_add (tiles_of g) time v hopMs windowMs = Inr (tiles_of (values_add g time v hopMs windowMs))"
proof -
  have "(case js_get (tiles_of g) k of None \<Rightarrow> tile_of v | Some existing \<Rightarrow> tile_add existing v)
      = tile_of_list ((case js_get g k of None \<Rightarrow> [] | Some vs \<Rightarrow> vs) @ [v])" for k
    by (simp add: js_get_tiles_of tile_of_list_snoc split: option.splits) (simp add: tile_of_def tile_of_list_def)
  then show ?thesis
    using assms by (simp add: tiles_add_def tileStart_def values_add_def Let_def js_set_tiles_of retain_tiles_of)
qed

text \<open>A tile counts at \<open>now\<close> when a part of it is inside the window.\<close>

definition live :: "int \<Rightarrow> int \<Rightarrow> int \<Rightarrow> string \<Rightarrow> bool" where
  "live now hopMs windowMs k \<longleftrightarrow> now - windowMs < str_int k + hopMs"

lemma filter_js_set:
  "filter (\<lambda>(k, v). P k) (js_set k x m) = (if P k then js_set k x (filter (\<lambda>(k, v). P k) m) else filter (\<lambda>(k, v). P k) m)"
  by (induction m) auto

lemma js_get_filter: "P k \<Longrightarrow> js_get (filter (\<lambda>(k, v). P k) m) k = js_get m k"
  by (induction m) auto

lemma js_total_new: "js_get m k = None \<Longrightarrow> js_total f (js_set k v m) = js_total f m + f v"
  by (induction m) (auto simp: js_total_def add.assoc split: if_splits)

lemma values_add_total:
  assumes "time - windowMs \<le> now - windowMs0"
  shows "js_total mset (filter (\<lambda>(k, v). live now hopMs windowMs0 k) (values_add g time v hopMs windowMs)) =
    js_total mset (filter (\<lambda>(k, v). live now hopMs windowMs0 k) g)
      + (if live now hopMs windowMs0 (int_str (time div hopMs * hopMs)) then {#v#} else {#})"
proof -
  let ?L = "filter (\<lambda>(k, v). live now hopMs windowMs0 k) :: (string, real list) jsmap \<Rightarrow> (string, real list) jsmap"
  let ?k = "int_str (time div hopMs * hopMs)"
  let ?vs = "case js_get g ?k of None \<Rightarrow> [] | Some vs \<Rightarrow> vs"
  have "?L (retainTiles m time hopMs windowMs) = ?L m" for m
    using assms unfolding retainTiles_def filter_filter by (intro filter_cong) (auto simp: live_def)
  then have L: "?L (values_add g time v hopMs windowMs) = ?L (js_set ?k (?vs @ [v]) g)"
    by (simp add: values_add_def Let_def)
  show ?thesis
  proof (cases "live now hopMs windowMs0 ?k")
    case True
    then have get: "js_get (?L g) ?k = js_get g ?k" by (rule js_get_filter)
    have "js_total mset (js_set ?k (?vs @ [v]) (?L g)) = js_total mset (?L g) + {#v#}"
    proof (cases "js_get g ?k")
      case None
      with get show ?thesis by (simp add: js_total_new)
    next
      case (Some vs)
      with get have "js_total mset (js_set ?k (?vs @ [v]) (?L g)) + mset vs = js_total mset (?L g) + mset (vs @ [v])"
        using js_total_set [of "?L g" ?k vs mset "vs @ [v]"] by simp
      then show ?thesis by simp
    qed
    with True show ?thesis unfolding L filter_js_set by simp
  qed (simp add: L filter_js_set)
qed

text \<open>The statistics of a list of values, written down directly.\<close>

definition statistics :: "real list \<Rightarrow> windowed_aggregate" where
  "statistics vs =
     (if vs = [] then \<lparr>agg_count = 0, agg_sum = 0, agg_min = None, agg_max = None, variance = 0, mean = None, standardDeviation = None\<rparr>
      else
        (let m = sum_list vs / real (length vs); var = sum_list (map (\<lambda>v. (v - m) ^ 2) vs) / real (length vs)
         in \<lparr>agg_count = length vs, agg_sum = sum_list vs, agg_min = Some (Min (set vs)), agg_max = Some (Max (set vs)),
             variance = var, mean = Some m, standardDeviation = Some (sqrt var)\<rparr>))"

lemma sum_squared_deviations:
  fixes m :: real
  shows "sum_list (map (\<lambda>v. (v - m) ^ 2) vs) = sum_list (map (\<lambda>v. v * v) vs) - 2 * m * sum_list vs + real (length vs) * m * m"
  by (induction vs) (simp_all add: power2_eq_square algebra_simps)

lemma aggregate_of_list:
  assumes "bounded vs"
  shows "aggregate_of (tile_of_list vs) = statistics vs"
proof (cases "vs = []")
  case True
  then show ?thesis by (simp add: aggregate_of_def tile_of_list_eq statistics_def)
next
  case False
  let ?n = "real (length vs)" and ?m = "sum_list vs / real (length vs)"
  have n: "0 < ?n" using False by simp
  have eq: "sum_list (map (\<lambda>v. v * v) vs) / ?n - ?m * ?m = sum_list (map (\<lambda>v. (v - ?m) ^ 2) vs) / ?n"
    unfolding sum_squared_deviations using n by (simp add: field_simps)
  have "0 \<le> sum_list (map (\<lambda>v. (v - ?m) ^ 2) vs)" by (rule sum_list_nonneg) auto
  then have "0 \<le> sum_list (map (\<lambda>v. (v - ?m) ^ 2) vs) / ?n" by simp
  then have var: "max 0 (sum_list (map (\<lambda>v. v * v) vs) / ?n - ?m * ?m) = sum_list (map (\<lambda>v. (v - ?m) ^ 2) vs) / ?n"
    unfolding eq by (rule max_absorb2)
  have "Min (set vs) \<in> set vs" "Max (set vs) \<in> set vs" using False by simp_all
  with assms have "Min (set vs) \<le> MAX_VALUE" "- MAX_VALUE \<le> Max (set vs)" by (auto simp: bounded_def abs_le_iff)
  then have "Min (insert MAX_VALUE (set vs)) = Min (set vs)" "Max (insert (- MAX_VALUE) (set vs)) = Max (set vs)"
    using False by (simp_all add: min_absorb2 max_absorb2)
  with False var show ?thesis by (simp add: aggregate_of_def tile_of_list_eq statistics_def Let_def)
qed

definition tiles_adds :: "int \<Rightarrow> (real \<times> int \<times> int) list \<Rightarrow> js_error + tile_window" where
  "tiles_adds hopMs ops = foldE (\<lambda>w (v, time, windowMs). tiles_add w time v hopMs windowMs) tiles_empty ops"

lemma tiles_adds_values:
  assumes "0 < hopMs" "\<forall>(v, time, windowMs) \<in> set ops. time - windowMs \<le> now - windowMs0"
  shows "\<exists>g. tiles_adds hopMs ops = Inr (tiles_of g)
    \<and> js_total mset (filter (\<lambda>(k, v). live now hopMs windowMs0 k) g)
      = mset (map fst (filter (\<lambda>(v, time, windowMs). now - windowMs0 < time div hopMs * hopMs + hopMs) ops))"
  using assms(2)
proof (induction ops rule: rev_induct)
  case Nil
  show ?case by (rule exI [of _ "[]"]) (simp add: tiles_adds_def tiles_of_def tiles_empty_def js_total_def)
next
  case (snoc op ops)
  obtain v time win where op: "op = (v, time, win)" by (cases op) auto
  from snoc obtain g where g: "tiles_adds hopMs ops = Inr (tiles_of g)"
    "js_total mset (filter (\<lambda>(k, v). live now hopMs windowMs0 k) g)
      = mset (map fst (filter (\<lambda>(v, time, windowMs). now - windowMs0 < time div hopMs * hopMs + hopMs) ops))" by auto
  have win: "time - win \<le> now - windowMs0" using snoc.prems op by simp
  have "tiles_adds hopMs (ops @ [op]) = Inr (tiles_of (values_add g time v hopMs win))"
    using g(1) tiles_add_values [OF assms(1)] by (simp add: tiles_adds_def foldE_append op)
  moreover have "js_total mset (filter (\<lambda>(k, v). live now hopMs windowMs0 k) (values_add g time v hopMs win))
      = mset (map fst (filter (\<lambda>(v, time, windowMs). now - windowMs0 < time div hopMs * hopMs + hopMs) (ops @ [op])))"
    unfolding values_add_total [OF win] g(2) by (simp add: op live_def)
  ultimately show ?case by blast
qed

text \<open>
  A tile window answers like the list of all its values: however values were added, in whatever order of
  their times, the aggregate at \<open>now\<close> has the count, sum, minimum, maximum, mean, population variance and
  standard deviation of exactly the values whose hop reaches into the window, provided no value
  was added under a window that had already left that one behind.
\<close>

lemma tile_window_equals_reference:
  assumes "0 < hopMs" "\<forall>(v, time, windowMs) \<in> set ops. time - windowMs \<le> now - windowMs0 \<and> \<bar>v\<bar> \<le> MAX_VALUE"
  shows "\<exists>w. tiles_adds hopMs ops = Inr w \<and> tiles_aggregate w now hopMs windowMs0 =
    statistics (map fst (filter (\<lambda>(v, time, windowMs). now - windowMs0 < time div hopMs * hopMs + hopMs) ops))"
proof -
  let ?live = "map fst (filter (\<lambda>(v, time, windowMs). now - windowMs0 < time div hopMs * hopMs + hopMs) ops)"
  from assms(2) have "\<forall>(v, time, windowMs) \<in> set ops. time - windowMs \<le> now - windowMs0" by auto
  from tiles_adds_values [OF assms(1) this] obtain g where g: "tiles_adds hopMs ops = Inr (tiles_of g)"
    "js_total mset (filter (\<lambda>(k, v). live now hopMs windowMs0 k) g) = mset ?live" by blast
  let ?g = "retainTiles g now hopMs windowMs0"
  have "mset (concat (map snd ?g)) = mset ?live"
    using g(2) by (simp add: mset_concat js_total_def retainTiles_def live_def o_def)
  then have "tile_of_list (concat (map snd ?g)) = tile_of_list ?live" by (rule tile_of_list_mset)
  moreover have "map snd (tiles_of ?g) = map tile_of_list (map snd ?g)" by (simp add: tiles_of_def o_def case_prod_beta)
  moreover have "tile_empty = tile_of_list []" by (simp add: tile_of_list_def)
  ultimately have "foldl tile_merge tile_empty (map snd (tiles_of ?g)) = tile_of_list ?live"
    using merge_tiles [of "[]" "map snd ?g"] by (simp only: append_Nil)
  moreover have "bounded ?live" using assms(2) by (auto simp: bounded_def)
  ultimately have "tiles_aggregate (tiles_of g) now hopMs windowMs0 = statistics ?live"
    by (simp add: tiles_aggregate_def retain_tiles_of aggregate_of_list)
  with g(1) show ?thesis by blast
qed

lemma tile_window_equals_reference_example:
  "\<exists>w. tiles_adds 10 [(3, 12, 30), (5, 41, 30), (8, 38, 30)] = Inr w \<and> agg_count (tiles_aggregate w 50 10 20) = 2
     \<and> mean (tiles_aggregate w 50 10 20) = Some (13 / 2)"
proof -
  have b: "8 \<le> MAX_VALUE" by (simp add: MAX_VALUE_def)
  have "\<exists>w. tiles_adds 10 [(3, 12, 30), (5, 41, 30), (8, 38, 30)] = Inr w \<and> tiles_aggregate w 50 10 20 =
      statistics (map fst (filter (\<lambda>(v, time, windowMs). (50::int) - 20 < time div 10 * 10 + 10) [(3, 12, 30), (5, 41, 30), (8, 38, 30::int)]))"
    by (rule tile_window_equals_reference) (use b in auto)
  then show ?thesis by (auto simp: statistics_def Let_def)
qed

end
