(* ===== verification/Codec.thy ===== *)
theory Codec
  imports Prelude
begin

text \<open>
  \<open>core/codec.ts\<close>: codecs with string manifests, the tag and object codecs, and the
  upcast chains that migrate old event versions on read. The type \<open>'d\<close> is the
  JSON-serializable data (\<open>unknown\<close> in the code); decoding may throw.
\<close>

section \<open>Codecs\<close>

record ('a, 'd) codec =
  manifest :: "'a \<Rightarrow> string"
  encode :: "'a \<Rightarrow> 'd"
  decode :: "string \<Rightarrow> 'd \<Rightarrow> js_error + 'a"
  manifests :: "string list option"

text \<open>
  The tag and object codecs do not convert: \<open>encode\<close> returns the value itself and
  \<open>decode\<close> casts the data, so data and values have one type.
\<close>

definition tagCodec :: "('a \<Rightarrow> string) \<Rightarrow> string list \<Rightarrow> ('a, 'a) codec" where
  "tagCodec tag tags =
     \<lparr>manifest = tag, encode = (\<lambda>v. v), decode = (\<lambda>_ d. Inr d),
      manifests = (if length tags > 0 then Some tags else None)\<rparr>"

definition objectCodec :: "string \<Rightarrow> ('a, 'a) codec" where
  "objectCodec manifestStr =
     \<lparr>manifest = (\<lambda>_. manifestStr), encode = (\<lambda>v. v), decode = (\<lambda>_ d. Inr d),
      manifests = Some [manifestStr]\<rparr>"

section \<open>Upcasts\<close>

record 'd upcast =
  sourceManifest :: string
  targetManifest :: string
  transform :: "'d \<Rightarrow> js_error + 'd"

text \<open>One turn of the loop in \<open>decode\<close>.\<close>

definition upcast_step :: "string \<times> 'd \<Rightarrow> 'd upcast \<Rightarrow> js_error + string \<times> 'd" where
  "upcast_step cur u =
     (if fst cur = sourceManifest u
      then (case transform u (snd cur) of Inl e \<Rightarrow> Inl e | Inr d \<Rightarrow> Inr (targetManifest u, d))
      else Inr cur)"

definition codecWithUpcasts :: "('a, 'd) codec \<Rightarrow> 'd upcast list \<Rightarrow> ('a, 'd) codec" where
  "codecWithUpcasts base upcasts =
     \<lparr>manifest = manifest base, encode = encode base,
      decode = (\<lambda>m d. case foldE upcast_step (m, d) upcasts of
                        Inl e \<Rightarrow> Inl e | Inr (m', d') \<Rightarrow> decode base m' d'),
      manifests = manifests base\<rparr>"

section \<open>The codec contract\<close>

text \<open>What a journal's client relies on: what was encoded decodes to the same value.\<close>

locale codec_contract =
  fixes c :: "('a, 'd) codec"
  assumes roundtrip: "decode c (manifest c a) (encode c a) = Inr a"
begin

lemma encode_inject: "manifest c a = manifest c b \<Longrightarrow> encode c a = encode c b \<Longrightarrow> a = b"
  by (metis roundtrip sum.inject(2))

lemma decode_all: "map (\<lambda>a. decode c (manifest c a) (encode c a)) as = map Inr as"
  by (simp add: roundtrip)

end

interpretation tag_codec: codec_contract "tagCodec tag tags"
  by unfold_locales (simp add: tagCodec_def)

interpretation object_codec: codec_contract "objectCodec m"
  by unfold_locales (simp add: objectCodec_def)

section \<open>Migration\<close>

text \<open>\<open>version_chain m us\<close>: the upcasts lead from version \<open>m\<close> one version further each.\<close>

fun version_chain :: "string \<Rightarrow> 'd upcast list \<Rightarrow> bool" where
  "version_chain m [] = True"
| "version_chain m (u # us) = (sourceManifest u = m \<and> version_chain (targetManifest u) us)"

fun last_version :: "string \<Rightarrow> 'd upcast list \<Rightarrow> string" where
  "last_version m [] = m"
| "last_version m (u # us) = last_version (targetManifest u) us"

lemma foldE_upcast_skip:
  "(\<And>u. u \<in> set us \<Longrightarrow> sourceManifest u \<noteq> m) \<Longrightarrow> foldE upcast_step (m, d) us = Inr (m, d)"
  by (induction us) (auto simp: upcast_step_def)

lemma foldE_upcast_chain:
  "version_chain m us \<Longrightarrow>
   foldE upcast_step (m, d) us =
     (case foldE (\<lambda>d u. transform u d) d us of Inl e \<Rightarrow> Inl e | Inr d' \<Rightarrow> Inr (last_version m us, d'))"
  by (induction us arbitrary: m d) (auto simp: upcast_step_def split: sum.splits)

text \<open>
  Decoding an event stored at an old version applies exactly the migrations from that
  version on, in order, and then the base codec at the newest version: the upcasts listed
  before it (for versions older still) are skipped, and a transform that throws makes the
  decode throw that error.
\<close>

lemma upcast_chain_decodes:
  assumes "version_chain m newer" and "\<forall>u \<in> set older. sourceManifest u \<noteq> m"
  shows "decode (codecWithUpcasts base (older @ newer)) m d =
     (case foldE (\<lambda>d u. transform u d) d newer of
        Inl e \<Rightarrow> Inl e
      | Inr d' \<Rightarrow> decode base (last_version m newer) d')"
proof -
  have "foldE upcast_step (m, d) (older @ newer) = foldE upcast_step (m, d) newer"
    using assms(2) by (simp add: foldE_append foldE_upcast_skip)
  with assms(1) show ?thesis
    by (simp add: codecWithUpcasts_def foldE_upcast_chain split: sum.splits)
qed

definition example_upcasts :: "int upcast list" where
  "example_upcasts =
     [\<lparr>sourceManifest = ''V1'', targetManifest = ''V2'', transform = (\<lambda>d. Inr (d + 1))\<rparr>,
      \<lparr>sourceManifest = ''V2'', targetManifest = ''V3'', transform = (\<lambda>d. Inr (d * 10))\<rparr>]"

lemma upcast_chain_decodes_example:
  "decode (codecWithUpcasts (objectCodec ''V3'') example_upcasts) ''V1'' 4 = Inr (50::int)
   \<and> decode (codecWithUpcasts (objectCodec ''V3'') example_upcasts) ''V2'' 4 = Inr (40::int)"
  using upcast_chain_decodes [of "''V1''" example_upcasts "[]" "objectCodec ''V3''" 4]
    upcast_chain_decodes [of "''V2''" "tl example_upcasts" "[hd example_upcasts]" "objectCodec ''V3''" 4]
  by (simp add: example_upcasts_def objectCodec_def)

lemma codecWithUpcasts_contract:
  assumes "codec_contract base"
    and "\<forall>a. \<forall>u \<in> set us. sourceManifest u \<noteq> manifest base a"
  shows "codec_contract (codecWithUpcasts base us)"
proof
  fix a
  from assms(2) have "foldE upcast_step (manifest base a, encode base a) us = Inr (manifest base a, encode base a)"
    by (intro foldE_upcast_skip) auto
  with assms(1) show "decode (codecWithUpcasts base us) (manifest (codecWithUpcasts base us) a)
      (encode (codecWithUpcasts base us) a) = Inr a"
    by (simp add: codecWithUpcasts_def codec_contract.roundtrip)
qed

end
