(* ===== verification/Journal.thy ===== *)
theory Journal
  imports Codec
begin

text \<open>
  The storage interface of \<open>core/journal-store.ts\<close> and the event envelopes of
  \<open>core/envelope.ts\<close>. A backend is a record of its operations over a state type \<open>'j\<close>;
  what every backend promises is the locale \<open>journal_contract\<close>, stated over an abstract
  log per persistence key. The entity runner uses only the record; its correctness rests
  only on the contract, so it holds for every backend that is shown to satisfy it.
\<close>

section \<open>Envelopes\<close>

record envelope =
  eventId :: string
  causationId :: "string option"
  correlationId :: "string option"
  origin :: "string option"
  env_v :: nat

text \<open>A stamp is a partial envelope that \<open>decide\<close> attaches to an event.\<close>

record stamp =
  st_eventId :: "string option"
  st_causationId :: "string option"
  st_correlationId :: "string option"
  st_origin :: "string option"

definition envelope_at :: "envelope list option \<Rightarrow> nat \<Rightarrow> envelope option" where
  "envelope_at envelopes idx =
     (case envelopes of None \<Rightarrow> None
      | Some es \<Rightarrow> if idx < length es then Some (es ! idx) else None)"

section \<open>The operations of a journal\<close>

record ('j, 'e, 's, 'd) journal =
  persistEvents :: "'j \<Rightarrow> string \<Rightarrow> string \<Rightarrow> 'e list \<Rightarrow> nat \<Rightarrow> ('e, 'd) codec \<Rightarrow>
    envelope list option \<Rightarrow> js_error + nat \<times> 'j"
  loadEvents :: "'j \<Rightarrow> string \<Rightarrow> string \<Rightarrow> nat \<Rightarrow> ('e, 'd) codec \<Rightarrow> js_error + (nat \<times> 'e) list"
  persistSnapshot :: "'j \<Rightarrow> string \<Rightarrow> string \<Rightarrow> 's \<Rightarrow> nat \<Rightarrow> ('s, 'd) codec \<Rightarrow> js_error + 'j"
  loadSnapshot :: "'j \<Rightarrow> string \<Rightarrow> string \<Rightarrow> ('s, 'd) codec \<Rightarrow> js_error + (nat \<times> 's) option"

definition persistenceKey :: "string \<Rightarrow> string \<Rightarrow> string" where
  "persistenceKey categoryId entityId = categoryId @ '':'' @ entityId"

text \<open>Categories contain no colon: then the key determines category and entity.\<close>

definition colon_free :: "string \<Rightarrow> bool" where
  "colon_free c = (CHR '':'' \<notin> set c)"

lemma takeWhile_key: "colon_free c \<Longrightarrow> takeWhile (\<lambda>x. x \<noteq> CHR '':'') (persistenceKey c e) = c"
  unfolding persistenceKey_def colon_free_def by (subst takeWhile_append2) auto

lemma persistenceKey_inject:
  "colon_free c \<Longrightarrow> colon_free c' \<Longrightarrow>
   persistenceKey c e = persistenceKey c' e' \<longleftrightarrow> c = c' \<and> e = e'"
  by (metis append.assoc append_Cons append_same_eq persistenceKey_def same_append_eq self_append_conv2
      takeWhile_key)

lemma persistenceKey_inject_entity [simp]: "persistenceKey c e = persistenceKey c e' \<longleftrightarrow> e = e'"
  by (simp add: persistenceKey_def)

section \<open>The abstract log\<close>

text \<open>A log entry: sequence number, manifest, data.\<close>

type_synonym 'd log_entry = "nat \<times> string \<times> 'd"

definition log_entries :: "('e, 'd) codec \<Rightarrow> nat \<Rightarrow> 'e list \<Rightarrow> 'd log_entry list" where
  "log_entries codec start es =
     map (\<lambda>(i, e). (start + i + 1, manifest codec e, encode codec e)) (zip [0 ..< length es] es)"

text \<open>Decode a log: the first entry that does not decode throws.\<close>

fun decode_log :: "('e, 'd) codec \<Rightarrow> 'd log_entry list \<Rightarrow> js_error + (nat \<times> 'e) list" where
  "decode_log codec [] = Inr []"
| "decode_log codec ((n, m, d) # xs) =
     (case decode codec m d of
        Inl e \<Rightarrow> Inl e
      | Inr a \<Rightarrow> (case decode_log codec xs of Inl e \<Rightarrow> Inl e | Inr as \<Rightarrow> Inr ((n, a) # as)))"

lemma log_entries_Nil [simp]: "log_entries codec n [] = []"
  by (simp add: log_entries_def)

lemma log_entries_Cons [simp]:
  "log_entries codec n (e # es) = (Suc n, manifest codec e, encode codec e) # log_entries codec (Suc n) es"
proof -
  have "zip [0 ..< length (e # es)] (e # es) = (0, e) # map (\<lambda>(i, x). (Suc i, x)) (zip [0 ..< length es] es)"
    by (simp add: upt_conv_Cons map_Suc_upt [symmetric] zip_map1 del: upt_Suc)
  then show ?thesis by (auto simp: log_entries_def)
qed

lemma length_log_entries [simp]: "length (log_entries codec n es) = length es"
  by (induction es arbitrary: n) auto

lemma fst_log_entries: "map fst (log_entries codec n es) = [Suc n ..< Suc n + length es]"
  by (induction es arbitrary: n) (simp_all add: upt_conv_Cons del: upt_Suc)

lemma numbered_log_entries [simp]: "numbered n (map fst (log_entries codec n es))"
  by (induction es arbitrary: n) auto

lemma decode_log_append:
  "decode_log codec (xs @ ys) =
     (case decode_log codec xs of Inl e \<Rightarrow> Inl e
      | Inr as \<Rightarrow> (case decode_log codec ys of Inl e \<Rightarrow> Inl e | Inr bs \<Rightarrow> Inr (as @ bs)))"
  by (induction codec xs rule: decode_log.induct) (auto split: sum.splits)

lemma decode_log_entries:
  "codec_contract codec \<Longrightarrow>
   decode_log codec (log_entries codec n es) = Inr (zip [Suc n ..< Suc n + length es] es)"
  by (induction es arbitrary: n) (simp_all add: codec_contract.roundtrip upt_conv_Cons del: upt_Suc)

lemma decode_log_fst: "decode_log codec xs = Inr as \<Longrightarrow> map fst as = map fst xs"
  by (induction codec xs arbitrary: as rule: decode_log.induct) (auto split: sum.splits)

lemma decode_log_filter:
  "decode_log codec xs = Inr as \<Longrightarrow>
   decode_log codec (filter (\<lambda>x. P (fst x)) xs) = Inr (filter (\<lambda>x. P (fst x)) as)"
  by (induction codec xs arbitrary: as rule: decode_log.induct) (auto split: sum.splits)

lemma numbered_filter_log:
  assumes "numbered 0 (map fst lg)" "k \<le> length lg"
  shows "filter (\<lambda>x. k < fst x) lg = drop k lg"
proof -
  have "map fst (filter (\<lambda>x. k < fst x) lg) = map fst (drop k lg)"
    using numbered_filter_gt [OF assms(1), of k] assms(2) by (simp add: filter_map comp_def drop_map)
  have "numbered 0 (map fst (take k lg))" "numbered k (map fst (drop k lg))"
    using assms numbered_append [of 0 "map fst (take k lg)" "map fst (drop k lg)"]
    by (auto simp: map_append [symmetric] min_absorb2)
  then have "fst ` set (take k lg) = {1 .. k}" "fst ` set (drop k lg) = {k + 1 .. length lg}"
    using numbered_set [of 0 "map fst (take k lg)"] numbered_set [of k "map fst (drop k lg)"] assms(2)
    by (simp_all add: min_absorb2)
  then have "\<forall>x \<in> set (take k lg). fst x \<le> k" "\<forall>x \<in> set (drop k lg). k < fst x"
    by (metis atLeastAtMost_iff imageI, metis atLeastAtMost_iff imageI Suc_eq_plus1 Suc_le_eq)
  then have "filter (\<lambda>x. k < fst x) (take k lg) = []" "filter (\<lambda>x. k < fst x) (drop k lg) = drop k lg"
    by (auto simp: filter_empty_conv filter_id_conv)
  then show ?thesis by (metis append_Nil append_take_drop_id filter_append)
qed

lemma numbered_last: "numbered 0 xs \<Longrightarrow> xs \<noteq> [] \<Longrightarrow> last xs = length xs"
  by (induction xs rule: rev_induct) (auto simp: numbered_append)

text \<open>What a live tail of a category delivers.\<close>

record 'e category_event =
  ce_globalSeq :: nat
  ce_category :: string
  ce_entityId :: string
  ce_sequenceNr :: nat
  ce_event :: 'e
  ce_envelope :: "envelope option"

section \<open>What a journal promises\<close>

text \<open>
  \<open>inv\<close> is the backend's own invariant, \<open>jlog\<close> the log it holds under a persistence key and
  \<open>jsnap\<close> the snapshot. \<open>persistEvents\<close> is only ever described on a start number that is
  not below the numbers already stored for the key (which is what every caller uses), and
  the backend may still throw for reasons of its own; when it returns, it has appended
  exactly the encoded events, numbered from the start, and touched nothing else.
\<close>

locale journal_contract =
  fixes J :: "('j, 'e, 's, 'd) journal"
    and inv :: "'j \<Rightarrow> bool"
    and jlog :: "'j \<Rightarrow> string \<Rightarrow> 'd log_entry list"
    and jsnap :: "'j \<Rightarrow> string \<Rightarrow> (nat \<times> string \<times> 'd) option"
  assumes persist_Inr:
      "inv j \<Longrightarrow> (\<forall>n \<in> fst ` set (jlog j (persistenceKey c e)). n \<le> start) \<Longrightarrow>
       persistEvents J j c e es start codec envs = Inr (n, j') \<Longrightarrow>
       n = start + length es \<and> inv j' \<and>
       jlog j' = (jlog j)(persistenceKey c e := jlog j (persistenceKey c e) @ log_entries codec start es) \<and>
       jsnap j' = jsnap j"
    and persist_collision:
      "inv j \<Longrightarrow> start < m \<Longrightarrow> m \<le> start + length es \<Longrightarrow> m \<in> fst ` set (jlog j (persistenceKey c e)) \<Longrightarrow>
       \<exists>err. persistEvents J j c e es start codec envs = Inl err"
    and load_events:
      "inv j \<Longrightarrow> loadEvents J j c e from_seq codec =
       decode_log codec (filter (\<lambda>x. from_seq < fst x) (jlog j (persistenceKey c e)))"
    and snapshot_Inr:
      "inv j \<Longrightarrow> persistSnapshot J j c e s n scodec = Inr j' \<Longrightarrow>
       inv j' \<and> jlog j' = jlog j \<and>
       jsnap j' = (jsnap j)(persistenceKey c e := Some (n, manifest scodec s, encode scodec s))"
    and load_snapshot:
      "inv j \<Longrightarrow> loadSnapshot J j c e scodec =
       (case jsnap j (persistenceKey c e) of
          None \<Rightarrow> Inr None
        | Some (n, m, d) \<Rightarrow>
            (case decode scodec m d of
               Inl err \<Rightarrow> Inl (SnapshotDecodeError c e err)
             | Inr s \<Rightarrow> Inr (Some (n, s))))"
begin

text \<open>Loading everything after a batch was appended gives the old events, then the batch.\<close>

lemma load_after_persist:
  assumes "inv j" and "\<forall>n \<in> fst ` set (jlog j (persistenceKey c e)). n \<le> start"
    and "persistEvents J j c e es start codec envs = Inr (n, j')"
    and "codec_contract codec" and "loadEvents J j c e 0 codec = Inr old"
  shows "loadEvents J j' c e 0 codec = Inr (old @ zip [Suc start ..< Suc start + length es] es)"
proof -
  note p = persist_Inr [OF assms(1-3)]
  have all: "filter (\<lambda>x. 0 < fst x) (log_entries codec start es) = log_entries codec start es"
    by (rule filter_True) (metis (no_types, lifting) atLeastLessThan_iff fst_log_entries
        gr0I image_eqI not_less_eq_eq set_map set_upt le0)
  from p assms(1,4,5) all show ?thesis
    by (simp add: load_events decode_log_append decode_log_entries del: upt_Suc)
qed

end

end
