(* ===== verification/Entity_Runner.thy ===== *)
theory Entity_Runner
  imports Effects Journal Complex_Main "HOL-Library.Multiset"
begin

text \<open>
  \<open>inmem/entity-runner.ts\<close>: the actor that runs one entity. An aggregate is a record of its
  functions; the runner's state holds the entity state, the mailbox, the timers, the
  journal and what the runner has sent out. \<open>decide\<close>, side effects and the clock see the
  world outside, so they take the number of the call: each call may answer differently.
  What they do through their \<open>ctx\<close> is a list of \<open>ctx_call\<close>s.

  \<open>executeEffect\<close> and \<open>processCommand\<close> call each other; here both are one machine over a list
  of pending work (\<open>exec_step\<close>, \<open>exec_work\<close>), which runs the calls in the order in which the
  code awaits them and is total.
\<close>

section \<open>Aggregates and the control context\<close>

datatype reply_error = Timeout | CategoryNotFound string | General string

datatype 'cmd ctx_call =
    TellSelf 'cmd
  | ScheduleOnce string 'cmd rat
  | SchedulePeriodic string 'cmd rat rat
  | CancelTimer string

record ('cmd, 'r, 'ev, 's, 'fx, 'df) aggregate =
  category :: string
  initial :: "string \<Rightarrow> 's"
  decide :: "nat \<Rightarrow> 's \<Rightarrow> 'cmd \<Rightarrow> 'cmd ctx_call list \<times> (js_error + ('ev, 'r, 'fx, 'df) effect)"
  apply_event :: "'s \<Rightarrow> 'ev \<Rightarrow> js_error + 's"
  onRecoveryComplete :: "(nat \<Rightarrow> 's \<Rightarrow> 'cmd ctx_call list \<times> js_error option) option"
  snapshotEvery :: "int option"

record ('cmd, 'r, 'ev, 's, 'fx, 'df, 'd, 'j) runner_opts =
  o_aggregate :: "('cmd, 'r, 'ev, 's, 'fx, 'df) aggregate"
  o_entityId :: string
  o_journal :: "('j, 'ev, 's, 'd) journal"
  o_eventCodec :: "('ev, 'd) codec"
  o_stateCodec :: "('s, 'd) codec"
  o_ignoreSnapshots :: bool
  o_stampOf :: "'ev \<Rightarrow> stamp option"
  o_ulid :: "nat \<Rightarrow> string"
  o_now :: "nat \<Rightarrow> int"
  o_sideEffect :: "nat \<Rightarrow> 'fx \<Rightarrow> 'cmd ctx_call list \<times> js_error option"

abbreviation agg_category where "agg_category cfg \<equiv> category (o_aggregate cfg)"
abbreviation entity_key where "entity_key cfg \<equiv> persistenceKey (category (o_aggregate cfg)) (o_entityId cfg)"

section \<open>The runner's state\<close>

text \<open>The reply callback of an ask: which ask, and its sequence number before processing.\<close>

type_synonym reply_to = "(nat \<times> nat) option"

datatype 'cmd msg = Tell 'cmd | Ask 'cmd nat | TimerFired string 'cmd | StopMsg

datatype 'cmd timer = Once 'cmd | Periodic 'cmd

record ('s, 'cmd) entity_state =
  state :: 's
  sequenceNr :: nat
  stashed :: "('cmd \<times> reply_to) list"
  eventsSinceSnapshot :: nat

record 'r answer =
  an_reply :: "'r option"
  an_sequenceNr :: nat
  an_preSequenceNr :: nat

record 'd persisted_record =
  pr_sequenceNr :: nat
  pr_manifest :: string
  pr_encoded :: 'd
  pr_envelope :: envelope

record 'd persisted_batch =
  pb_category :: string
  pb_entityId :: string
  pb_at :: int
  pb_records :: "'d persisted_record list"

record ('cmd, 'r, 's, 'df, 'd, 'j) runner =
  rn_est :: "('s, 'cmd) entity_state"
  rn_mailbox :: "'cmd msg list"
  rn_timers :: "(string, 'cmd timer) jsmap"
  rn_terminated :: bool
  rn_journal :: 'j
  rn_replies :: "(nat \<times> (reply_error + 'r answer)) list"
  rn_waits :: "('df \<times> reply_to \<times> nat) list"
  rn_batches :: "'d persisted_batch list"
  rn_ulids :: nat
  rn_calls :: nat

section \<open>The control context\<close>

definition offer :: "'cmd msg \<Rightarrow> ('cmd, 'r, 's, 'df, 'd, 'j) runner \<Rightarrow> ('cmd, 'r, 's, 'df, 'd, 'j) runner" where
  "offer m w = w\<lparr>rn_mailbox := rn_mailbox w @ [m]\<rparr>"

definition cancelTimerInternal :: "string \<Rightarrow> ('cmd, 'r, 's, 'df, 'd, 'j) runner \<Rightarrow> ('cmd, 'r, 's, 'df, 'd, 'j) runner" where
  "cancelTimerInternal timerId w = w\<lparr>rn_timers := js_delete timerId (rn_timers w)\<rparr>"

fun ctx_step :: "('cmd, 'r, 's, 'df, 'd, 'j) runner \<Rightarrow> 'cmd ctx_call \<Rightarrow> ('cmd, 'r, 's, 'df, 'd, 'j) runner" where
  "ctx_step w (TellSelf c) = offer (Tell c) w"
| "ctx_step w (ScheduleOnce timerId c delay) =
     (let w' = cancelTimerInternal timerId w
      in w'\<lparr>rn_timers := js_set timerId (Once c) (rn_timers w')\<rparr>)"
| "ctx_step w (SchedulePeriodic timerId c delay interval) =
     (let w' = cancelTimerInternal timerId w
      in w'\<lparr>rn_timers := js_set timerId (Periodic c) (rn_timers w')\<rparr>)"
| "ctx_step w (CancelTimer timerId) = cancelTimerInternal timerId w"

text \<open>A timer's callback.\<close>

definition timer_fires :: "string \<Rightarrow> ('cmd, 'r, 's, 'df, 'd, 'j) runner \<Rightarrow> ('cmd, 'r, 's, 'df, 'd, 'j) runner" where
  "timer_fires timerId w =
     (case js_get (rn_timers w) timerId of
        None \<Rightarrow> w
      | Some (Once c) \<Rightarrow> offer (TimerFired timerId c) (w\<lparr>rn_timers := js_delete timerId (rn_timers w)\<rparr>)
      | Some (Periodic c) \<Rightarrow> offer (TimerFired timerId c) w)"

text \<open>Calling \<open>replyTo\<close> with a value or an error.\<close>

definition respond :: "reply_to \<Rightarrow> reply_error + 'r option \<times> nat \<Rightarrow>
    ('cmd, 'r, 's, 'df, 'd, 'j) runner \<Rightarrow> ('cmd, 'r, 's, 'df, 'd, 'j) runner" where
  "respond replyTo result w =
     (case replyTo of None \<Rightarrow> w
      | Some (ask, pre) \<Rightarrow>
          w\<lparr>rn_replies := rn_replies w @ [(ask, case result of
               Inl e \<Rightarrow> Inl e
             | Inr (r, n) \<Rightarrow> Inr \<lparr>an_reply = r, an_sequenceNr = n, an_preSequenceNr = pre\<rparr>)]\<rparr>)"

section \<open>Executing effects\<close>

text \<open>The envelope of each event: the stamp's fields, a fresh id where the stamp has none.\<close>

fun make_envelopes :: "('ev \<Rightarrow> stamp option) \<Rightarrow> (nat \<Rightarrow> string) \<Rightarrow> nat \<Rightarrow> 'ev list \<Rightarrow> envelope list \<times> nat" where
  "make_envelopes stampOf fresh n [] = ([], n)"
| "make_envelopes stampOf fresh n (e # es) =
     (let st = stampOf e;
          given = Option.bind st st_eventId;
          n' = (case given of None \<Rightarrow> Suc n | Some _ \<Rightarrow> n);
          env = \<lparr>eventId = (case given of None \<Rightarrow> fresh n | Some i \<Rightarrow> i),
                 causationId = Option.bind st st_causationId,
                 correlationId = Option.bind st st_correlationId,
                 origin = Option.bind st st_origin, env_v = 1\<rparr>;
          r = make_envelopes stampOf fresh n' es
      in (env # fst r, snd r))"

definition snapshot_interval :: "('cmd, 'r, 'ev, 's, 'fx, 'df, 'd, 'j) runner_opts \<Rightarrow> int" where
  "snapshot_interval cfg = (case snapshotEvery (o_aggregate cfg) of None \<Rightarrow> 100 | Some n \<Rightarrow> n)"

definition take_snapshot ::
  "('cmd, 'r, 'ev, 's, 'fx, 'df, 'd, 'j) runner_opts \<Rightarrow> ('cmd, 'r, 's, 'df, 'd, 'j) runner \<Rightarrow>
   js_error + ('cmd, 'r, 's, 'df, 'd, 'j) runner" where
  "take_snapshot cfg w =
     (case persistSnapshot (o_journal cfg) (rn_journal w) (agg_category cfg) (o_entityId cfg)
        (state (rn_est w)) (sequenceNr (rn_est w)) (o_stateCodec cfg) of
        Inl e \<Rightarrow> Inl e
      | Inr j \<Rightarrow> Inr (w\<lparr>rn_journal := j, rn_est := (rn_est w)\<lparr>eventsSinceSnapshot := 0\<rparr>\<rparr>))"

definition persisted_records ::
  "('ev, 'd) codec \<Rightarrow> nat \<Rightarrow> 'ev list \<Rightarrow> envelope list \<Rightarrow> 'd persisted_record list" where
  "persisted_records codec start events envelopes =
     map (\<lambda>(i, e, env). \<lparr>pr_sequenceNr = start + i + 1, pr_manifest = manifest codec e,
            pr_encoded = encode codec e, pr_envelope = env\<rparr>)
       (zip [0 ..< length events] (zip events envelopes))"

text \<open>After the state was updated: the automatic snapshot, then the post-persist hook.\<close>

definition after_persist ::
  "('cmd, 'r, 'ev, 's, 'fx, 'df, 'd, 'j) runner_opts \<Rightarrow> nat \<Rightarrow> 'ev list \<Rightarrow> envelope list \<Rightarrow>
   ('cmd, 'r, 's, 'df, 'd, 'j) runner \<Rightarrow> ('cmd, 'r, 's, 'df, 'd, 'j) runner \<times> js_error option" where
  "after_persist cfg startSeq events envelopes w =
     (case (if 0 < snapshot_interval cfg \<and> snapshot_interval cfg \<le> int (eventsSinceSnapshot (rn_est w))
            then take_snapshot cfg w else Inr w) of
        Inl e \<Rightarrow> (w, Some e)
      | Inr w' \<Rightarrow>
          (w'\<lparr>rn_batches := rn_batches w' @
             [\<lparr>pb_category = agg_category cfg, pb_entityId = o_entityId cfg,
               pb_at = o_now cfg (rn_calls w),
               pb_records = persisted_records (o_eventCodec cfg) startSeq events envelopes\<rparr>]\<rparr>,
           None))"

definition exec_persist ::
  "('cmd, 'r, 'ev, 's, 'fx, 'df, 'd, 'j) runner_opts \<Rightarrow> 'ev list \<Rightarrow> ('cmd, 'r, 's, 'df, 'd, 'j) runner \<Rightarrow>
   ('cmd, 'r, 's, 'df, 'd, 'j) runner \<times> js_error option" where
  "exec_persist cfg events w =
     (let envs = make_envelopes (o_stampOf cfg) (o_ulid cfg) (rn_ulids w) events;
          startSeq = sequenceNr (rn_est w)
      in case persistEvents (o_journal cfg) (rn_journal w) (agg_category cfg) (o_entityId cfg)
                events startSeq (o_eventCodec cfg) (Some (fst envs)) of
           Inl e \<Rightarrow> (w\<lparr>rn_ulids := snd envs\<rparr>, Some e)
         | Inr (newSeqNr, j) \<Rightarrow>
             (case foldE (apply_event (o_aggregate cfg)) (state (rn_est w)) events of
                Inl e \<Rightarrow> (w\<lparr>rn_ulids := snd envs, rn_journal := j\<rparr>, Some e)
              | Inr s \<Rightarrow>
                  after_persist cfg startSeq events (fst envs)
                    (w\<lparr>rn_ulids := snd envs, rn_journal := j,
                       rn_est := \<lparr>state = s, sequenceNr = newSeqNr, stashed = stashed (rn_est w),
                         eventsSinceSnapshot = eventsSinceSnapshot (rn_est w) + length events\<rparr>\<rparr>)))"

text \<open>
  Pending work: an effect to execute or a command to process, each with its callback.
  A step does one node of an effect or one decision, and pushes what the code awaits next.
\<close>

datatype ('cmd, 'r, 'ev, 'fx, 'df) work =
    Eff "('ev, 'r, 'fx, 'df) effect" reply_to
  | Cmd 'cmd reply_to

fun exec_step ::
  "('cmd, 'r, 'ev, 's, 'fx, 'df, 'd, 'j) runner_opts \<Rightarrow> ('cmd, 'r, 'ev, 'fx, 'df) work \<Rightarrow>
   ('cmd, 'r, 's, 'df, 'd, 'j) runner \<Rightarrow>
   ('cmd, 'r, 's, 'df, 'd, 'j) runner \<times> (js_error + ('cmd, 'r, 'ev, 'fx, 'df) work list)" where
  "exec_step cfg (Eff (Persist events k) replyTo) w =
     (case exec_persist cfg events w of
        (w', Some e) \<Rightarrow> (w', Inl e)
      | (w', None) \<Rightarrow> (w', Inr [Eff k replyTo]))"
| "exec_step cfg (Eff (Run fx k) replyTo) w =
     (let r = o_sideEffect cfg (rn_calls w) fx;
          w' = foldl ctx_step (w\<lparr>rn_calls := Suc (rn_calls w)\<rparr>) (fst r)
      in case snd r of Some e \<Rightarrow> (w', Inl e) | None \<Rightarrow> (w', Inr [Eff k replyTo]))"
| "exec_step cfg (Eff (Reply v) replyTo) w =
     (respond replyTo (Inr (Some v, sequenceNr (rn_est w))) w, Inr [])"
| "exec_step cfg (Eff (ReplyDeferred d) replyTo) w =
     (w\<lparr>rn_waits := rn_waits w @ [(d, replyTo, sequenceNr (rn_est w))]\<rparr>, Inr [])"
| "exec_step cfg (Eff (Snapshot k) replyTo) w =
     (case take_snapshot cfg w of Inl e \<Rightarrow> (w, Inl e) | Inr w' \<Rightarrow> (w', Inr [Eff k replyTo]))"
| "exec_step cfg (Eff Stop replyTo) w = (offer StopMsg w, Inr [])"
| "exec_step cfg (Eff Stash replyTo) w = (w, Inr [])"
| "exec_step cfg (Eff (Unstash k) replyTo) w =
     (w\<lparr>rn_est := (rn_est w)\<lparr>stashed := []\<rparr>\<rparr>,
      Inr (map (\<lambda>(c, r). Cmd c r) (stashed (rn_est w)) @ [Eff k replyTo]))"
| "exec_step cfg (Eff Done replyTo) w =
     (respond replyTo (Inr (None, sequenceNr (rn_est w))) w, Inr [])"
| "exec_step cfg (Cmd c replyTo) w =
     (let r = decide (o_aggregate cfg) (rn_calls w) (state (rn_est w)) c;
          w' = foldl ctx_step (w\<lparr>rn_calls := Suc (rn_calls w)\<rparr>) (fst r)
      in case snd r of
           Inl e \<Rightarrow> (w', Inl e)
         | Inr Stash \<Rightarrow>
             (w'\<lparr>rn_est := (rn_est w')\<lparr>stashed := stashed (rn_est w') @ [(c, replyTo)]\<rparr>\<rparr>, Inr [])
         | Inr effect \<Rightarrow> (w', Inr [Eff effect replyTo]))"

lemma ctx_step_frame:
  "rn_est (ctx_step w c) = rn_est w \<and> rn_journal (ctx_step w c) = rn_journal w
   \<and> rn_replies (ctx_step w c) = rn_replies w \<and> rn_waits (ctx_step w c) = rn_waits w
   \<and> rn_terminated (ctx_step w c) = rn_terminated w"
  by (cases c) (simp_all add: offer_def cancelTimerInternal_def Let_def)

lemma foldl_ctx_step_frames:
  "rn_est (foldl ctx_step w cs) = rn_est w \<and> rn_journal (foldl ctx_step w cs) = rn_journal w
   \<and> rn_replies (foldl ctx_step w cs) = rn_replies w \<and> rn_waits (foldl ctx_step w cs) = rn_waits w
   \<and> rn_terminated (foldl ctx_step w cs) = rn_terminated w"
  by (induction cs arbitrary: w) (simp_all add: ctx_step_frame)

lemma foldl_ctx_step_frame [simp]:
  "rn_est (foldl ctx_step w cs) = rn_est w" "rn_journal (foldl ctx_step w cs) = rn_journal w"
  "rn_replies (foldl ctx_step w cs) = rn_replies w" "rn_waits (foldl ctx_step w cs) = rn_waits w"
  "rn_terminated (foldl ctx_step w cs) = rn_terminated w"
  using foldl_ctx_step_frames [of w cs] by simp_all

lemma respond_frame [simp]:
  "rn_est (respond r x w) = rn_est w" "rn_journal (respond r x w) = rn_journal w"
  "rn_waits (respond r x w) = rn_waits w" "rn_terminated (respond r x w) = rn_terminated w"
  "rn_mailbox (respond r x w) = rn_mailbox w"
  by (auto simp: respond_def split: option.splits)

lemma offer_frame [simp]:
  "rn_est (offer m w) = rn_est w" "rn_journal (offer m w) = rn_journal w"
  "rn_replies (offer m w) = rn_replies w" "rn_waits (offer m w) = rn_waits w"
  "rn_terminated (offer m w) = rn_terminated w" "rn_mailbox (offer m w) = rn_mailbox w @ [m]"
  by (simp_all add: offer_def)

lemma take_snapshot_frame:
  "take_snapshot cfg w = Inr w' \<Longrightarrow>
     stashed (rn_est w') = stashed (rn_est w) \<and> rn_replies w' = rn_replies w \<and> rn_waits w' = rn_waits w
     \<and> state (rn_est w') = state (rn_est w) \<and> sequenceNr (rn_est w') = sequenceNr (rn_est w)
     \<and> rn_mailbox w' = rn_mailbox w \<and> rn_terminated w' = rn_terminated w"
  by (auto simp: take_snapshot_def split: sum.splits)

lemma exec_persist_frame:
  "exec_persist cfg events w = (w', r) \<Longrightarrow>
     stashed (rn_est w') = stashed (rn_est w) \<and> rn_replies w' = rn_replies w \<and> rn_waits w' = rn_waits w
     \<and> rn_mailbox w' = rn_mailbox w \<and> rn_terminated w' = rn_terminated w"
  by (auto simp: exec_persist_def after_persist_def Let_def dest!: take_snapshot_frame split: sum.splits if_splits prod.splits)

section \<open>The machine is total\<close>

text \<open>
  What shrinks: first the commands that are pending or stashed (each decision that does not
  stash uses one up), then the nodes of the pending effects, then the pending commands.
  So replaying the stash terminates although the replayed commands may stash and unstash again.
\<close>

fun work_nodes :: "('cmd, 'r, 'ev, 'fx, 'df) work \<Rightarrow> nat" where
  "work_nodes (Eff e _) = Suc (size e)"
| "work_nodes (Cmd _ _) = 0"

fun is_cmd :: "('cmd, 'r, 'ev, 'fx, 'df) work \<Rightarrow> bool" where
  "is_cmd (Cmd _ _) = True"
| "is_cmd (Eff _ _) = False"

definition open_commands :: "('cmd, 'r, 'ev, 'fx, 'df) work list \<Rightarrow> ('cmd, 'r, 's, 'df, 'd, 'j) runner \<Rightarrow> nat" where
  "open_commands ws w = length (filter is_cmd ws) + length (stashed (rn_est w))"

abbreviation work_order where
  "work_order \<equiv> measures [\<lambda>(cfg, ws, w). open_commands ws w,
     \<lambda>(cfg, ws, w). sum_list (map work_nodes ws), \<lambda>(cfg, ws, w). length (filter is_cmd ws)]"

lemma filter_is_cmd_map [simp]: "filter is_cmd (map (\<lambda>(c, r). Cmd c r) xs) = map (\<lambda>(c, r). Cmd c r) xs"
  by (auto simp: filter_id_conv)

lemma work_nodes_cmds [simp]: "sum_list (map work_nodes (map (\<lambda>(c, r). Cmd c r) xs)) = 0"
  by (induction xs) auto

lemma exec_step_decreases:
  assumes "exec_step cfg x w = (w', Inr new)"
  shows "((cfg, new @ ws, w'), (cfg, x # ws, w)) \<in> work_order"
proof (cases x)
  case (Cmd c r)
  with assms show ?thesis
    by (auto simp: Let_def open_commands_def split: sum.splits effect.splits)
next
  case (Eff e r)
  show ?thesis
  proof (cases e)
    case (Persist es k)
    with assms Eff show ?thesis
      by (auto simp: open_commands_def dest: exec_persist_frame split: prod.splits option.splits)
  next
    case (Snapshot k)
    with assms Eff show ?thesis
      by (auto simp: open_commands_def dest: take_snapshot_frame split: sum.splits)
  next
    case (Unstash k)
    with assms Eff show ?thesis
      by (auto simp: open_commands_def)
  qed (use assms Eff in \<open>auto simp: open_commands_def Let_def split: option.splits\<close>)
qed

function exec_work ::
  "('cmd, 'r, 'ev, 's, 'fx, 'df, 'd, 'j) runner_opts \<Rightarrow> ('cmd, 'r, 'ev, 'fx, 'df) work list \<Rightarrow>
   ('cmd, 'r, 's, 'df, 'd, 'j) runner \<Rightarrow> ('cmd, 'r, 's, 'df, 'd, 'j) runner \<times> js_error option" where
  "exec_work cfg [] w = (w, None)"
| "exec_work cfg (x # ws) w =
     (case exec_step cfg x w of
        (w', Inl e) \<Rightarrow> (w', Some e)
      | (w', Inr new) \<Rightarrow> exec_work cfg (new @ ws) w')"
  by pat_completeness auto
termination
  by (relation work_order) (simp, metis exec_step_decreases)

text \<open>\<open>executeEffect\<close> and \<open>processCommand\<close> as entry points of the machine.\<close>

definition executeEffect where
  "executeEffect cfg effect replyTo w = exec_work cfg [Eff effect replyTo] w"

definition processCommand where
  "processCommand cfg c replyTo w = exec_work cfg [Cmd c replyTo] w"

lemma exec_work_append:
  "exec_work cfg (xs @ ys) w =
     (case exec_work cfg xs w of (w', Some e) \<Rightarrow> (w', Some e) | (w', None) \<Rightarrow> exec_work cfg ys w')"
proof (induction cfg xs w rule: exec_work.induct)
  case (2 cfg x ws w)
  then show ?case by (auto split: prod.splits sum.splits)
qed simp

text \<open>What every step keeps, the whole run keeps, whether it ends normally or by a throw.\<close>

lemma exec_work_invariant:
  assumes "exec_work cfg ws w = (w', r)" "P w"
    and step: "\<And>x w w' r. P w \<Longrightarrow> exec_step cfg x w = (w', r) \<Longrightarrow> P w'"
  shows "P w'"
  using assms
proof (induction cfg ws w rule: exec_work.induct)
  case (2 cfg x ws w)
  obtain w1 r1 where s: "exec_step cfg x w = (w1, r1)" by (cases "exec_step cfg x w")
  with "2.prems"(2,3) have "P w1" by blast
  with 2 s show ?case by (cases r1) auto
qed simp

section \<open>Recovery\<close>

text \<open>The journal's events are applied one by one; the number of the last one is kept.\<close>

fun replay_from ::
  "('s \<Rightarrow> 'ev \<Rightarrow> js_error + 's) \<Rightarrow> 's \<times> nat \<Rightarrow> (nat \<times> 'ev) list \<Rightarrow> js_error + 's \<times> nat" where
  "replay_from app cur [] = Inr cur"
| "replay_from app cur ((n, e) # es) =
     (case app (fst cur) e of Inl x \<Rightarrow> Inl x | Inr s \<Rightarrow> replay_from app (s, n) es)"

lemma replay_from_foldE:
  "replay_from app (s, n) es =
     (case foldE app s (map snd es) of
        Inl x \<Rightarrow> Inl x | Inr s' \<Rightarrow> Inr (s', if es = [] then n else fst (last es)))"
proof (induction es arbitrary: s n)
  case (Cons x es)
  obtain m e where "x = (m, e)" by (cases x)
  then show ?case using Cons by (auto split: sum.splits)
qed simp

text \<open>The state after a log: what every recovery is measured by.\<close>

definition replay_log :: "('ev, 'd) codec \<Rightarrow> ('s \<Rightarrow> 'ev \<Rightarrow> js_error + 's) \<Rightarrow> 's \<Rightarrow> 'd log_entry list \<Rightarrow> js_error + 's" where
  "replay_log codec app start lg =
     (case decode_log codec lg of Inl e \<Rightarrow> Inl e | Inr es \<Rightarrow> foldE app start (map snd es))"

lemma replay_log_append:
  assumes "replay_log codec app start xs = Inr s" "decode_log codec ys = Inr es"
  shows "replay_log codec app start (xs @ ys) = foldE app s (map snd es)"
  using assms by (auto simp: replay_log_def decode_log_append foldE_append split: sum.splits)

lemma replay_log_Nil [simp]: "replay_log codec app start [] = Inr start"
  by (simp add: replay_log_def)

text \<open>From the state after any prefix, the rest of the log leads to the state after the whole.\<close>

lemma replay_log_suffix:
  assumes num: "numbered 0 (map fst lg)" and le: "n \<le> length lg"
    and pre: "replay_log codec app start (take n lg) = Inr s"
    and dec: "decode_log codec (filter (\<lambda>x. n < fst x) lg) = Inr es"
  shows "replay_from app (s, n) es =
     (case replay_log codec app start lg of Inl e \<Rightarrow> Inl e | Inr s' \<Rightarrow> Inr (s', length lg))"
proof -
  from numbered_filter_log [OF num le] dec have dec: "decode_log codec (drop n lg) = Inr es" by simp
  have rep: "replay_log codec app start lg = foldE app s (map snd es)"
    using replay_log_append [OF pre dec] by simp
  have last: "(if es = [] then n else fst (last es)) = length lg"
  proof (cases "n < length lg")
    case True
    with dec have "es \<noteq> []" using decode_log_fst [OF dec] by auto
    have "fst (last es) = last (map fst es)" using \<open>es \<noteq> []\<close> by (simp add: last_map)
    also have "\<dots> = last (map fst lg)"
      using decode_log_fst [OF dec] True by (simp add: drop_map [symmetric] del: drop_map)
    also have "\<dots> = length lg" using numbered_last [OF num] True by fastforce
    finally show ?thesis using \<open>es \<noteq> []\<close> by simp
  next
    case False
    with le dec show ?thesis by simp
  qed
  show ?thesis by (simp only: replay_from_foldE rep last)
qed

definition load_start ::
  "('cmd, 'r, 'ev, 's, 'fx, 'df, 'd, 'j) runner_opts \<Rightarrow> 'j \<Rightarrow> js_error + (nat \<times> 's) option" where
  "load_start cfg j =
     (if o_ignoreSnapshots cfg then Inr None
      else case loadSnapshot (o_journal cfg) j (agg_category cfg) (o_entityId cfg) (o_stateCodec cfg) of
             Inr snap \<Rightarrow> Inr snap
           | Inl e \<Rightarrow> if is_snapshot_decode_error e then Inr None else Inl e)"

definition recover ::
  "('cmd, 'r, 'ev, 's, 'fx, 'df, 'd, 'j) runner_opts \<Rightarrow> 'j \<Rightarrow> js_error + ('s, 'cmd) entity_state" where
  "recover cfg j =
     (case load_start cfg j of
        Inl e \<Rightarrow> Inl e
      | Inr snap \<Rightarrow>
          (let start = (case snap of None \<Rightarrow> (initial (o_aggregate cfg) (o_entityId cfg), 0)
                                   | Some (n, s) \<Rightarrow> (s, n))
           in case loadEvents (o_journal cfg) j (agg_category cfg) (o_entityId cfg) (snd start) (o_eventCodec cfg) of
                Inl e \<Rightarrow> Inl e
              | Inr events \<Rightarrow>
                  (case replay_from (apply_event (o_aggregate cfg)) start events of
                     Inl e \<Rightarrow> Inl e
                   | Inr (s, n) \<Rightarrow> Inr \<lparr>state = s, sequenceNr = n, stashed = [], eventsSinceSnapshot = 0\<rparr>)))"

section \<open>The message loop\<close>

text \<open>Everything still queued is answered; the stash is not.\<close>

definition drain_replies :: "string \<Rightarrow> 'cmd msg list \<Rightarrow> (nat \<times> (reply_error + 'r answer)) list" where
  "drain_replies reason ms =
     concat (map (\<lambda>m. case m of Ask _ i \<Rightarrow> [(i, Inl (General reason))] | _ \<Rightarrow> []) ms)"

definition terminate ::
  "js_error option \<Rightarrow> ('cmd, 'r, 's, 'df, 'd, 'j) runner \<Rightarrow> ('cmd, 'r, 's, 'df, 'd, 'j) runner" where
  "terminate err w =
     (let reason = (case err of None \<Rightarrow> ''entity stopped'' | Some e \<Rightarrow> ''entity crashed: '' @ error_message e)
      in w\<lparr>rn_terminated := True, rn_timers := [], rn_mailbox := [],
           rn_replies := rn_replies w @ drain_replies reason (rn_mailbox w)\<rparr>)"

text \<open>The \<open>catch\<close> of an ask: the asker learns the cause before the entity crashes.\<close>

definition crash ::
  "nat option \<Rightarrow> js_error \<Rightarrow> ('cmd, 'r, 's, 'df, 'd, 'j) runner \<Rightarrow> ('cmd, 'r, 's, 'df, 'd, 'j) runner" where
  "crash asker e w =
     terminate (Some e)
       (case asker of None \<Rightarrow> w
        | Some i \<Rightarrow> w\<lparr>rn_replies := rn_replies w @ [(i, Inl (General (error_message e)))]\<rparr>)"

definition new_runner ::
  "('cmd, 'r, 'ev, 's, 'fx, 'df, 'd, 'j) runner_opts \<Rightarrow> 'j \<Rightarrow> nat \<Rightarrow> nat \<Rightarrow> ('cmd, 'r, 's, 'df, 'd, 'j) runner" where
  "new_runner cfg j ulids calls =
     \<lparr>rn_est = \<lparr>state = initial (o_aggregate cfg) (o_entityId cfg), sequenceNr = 0, stashed = [],
                eventsSinceSnapshot = 0\<rparr>,
      rn_mailbox = [], rn_timers = [], rn_terminated = False, rn_journal = j, rn_replies = [],
      rn_waits = [], rn_batches = [], rn_ulids = ulids, rn_calls = calls\<rparr>"

definition start_runner ::
  "('cmd, 'r, 'ev, 's, 'fx, 'df, 'd, 'j) runner_opts \<Rightarrow> ('cmd, 'r, 's, 'df, 'd, 'j) runner \<Rightarrow>
   ('cmd, 'r, 's, 'df, 'd, 'j) runner" where
  "start_runner cfg w =
     (case recover cfg (rn_journal w) of
        Inl e \<Rightarrow> terminate (Some e) w
      | Inr est \<Rightarrow>
          (let w1 = w\<lparr>rn_est := est\<rparr>
           in case onRecoveryComplete (o_aggregate cfg) of
                None \<Rightarrow> w1
              | Some f \<Rightarrow>
                  (let r = f (rn_calls w1) (state est);
                       w2 = foldl ctx_step (w1\<lparr>rn_calls := Suc (rn_calls w1)\<rparr>) (fst r)
                   in case snd r of None \<Rightarrow> w2 | Some e \<Rightarrow> terminate (Some e) w2)))"

text \<open>
  A turn of the loop splits into taking a message and the steps of handling it, so that the
  world can act between any two of them.
\<close>

record ('cmd, 'r, 'ev, 's, 'fx, 'df, 'd, 'j) config =
  cf_work :: "('cmd, 'r, 'ev, 'fx, 'df) work list"
  cf_asker :: "nat option"
  cf_runner :: "('cmd, 'r, 's, 'df, 'd, 'j) runner"

definition take_message ::
  "'cmd msg \<Rightarrow> ('cmd, 'r, 's, 'df, 'd, 'j) runner \<Rightarrow> ('cmd, 'r, 'ev, 's, 'fx, 'df, 'd, 'j) config" where
  "take_message m w =
     (case m of
        Tell c \<Rightarrow> \<lparr>cf_work = [Cmd c None], cf_asker = None, cf_runner = w\<rparr>
      | Ask c i \<Rightarrow> \<lparr>cf_work = [Cmd c (Some (i, sequenceNr (rn_est w)))], cf_asker = Some i, cf_runner = w\<rparr>
      | TimerFired t c \<Rightarrow> \<lparr>cf_work = [Cmd c None], cf_asker = None, cf_runner = w\<rparr>
      | StopMsg \<Rightarrow> \<lparr>cf_work = [], cf_asker = None, cf_runner = terminate None w\<rparr>)"

definition work_turn ::
  "('cmd, 'r, 'ev, 's, 'fx, 'df, 'd, 'j) runner_opts \<Rightarrow> ('cmd, 'r, 'ev, 's, 'fx, 'df, 'd, 'j) config \<Rightarrow>
   ('cmd, 'r, 'ev, 's, 'fx, 'df, 'd, 'j) config" where
  "work_turn cfg c =
     (case cf_work c of
        [] \<Rightarrow> c
      | x # ws \<Rightarrow>
          (case exec_step cfg x (cf_runner c) of
             (w, Inl e) \<Rightarrow> \<lparr>cf_work = [], cf_asker = None, cf_runner = crash (cf_asker c) e w\<rparr>
           | (w, Inr new) \<Rightarrow> c\<lparr>cf_work := new @ ws, cf_runner := w\<rparr>))"

text \<open>Deferred replies: completion answers every wait on it, a wait may time out.\<close>

definition complete_deferred :: "'df \<Rightarrow> 'r \<Rightarrow> ('cmd, 'r, 's, 'df, 'd, 'j) runner \<Rightarrow> ('cmd, 'r, 's, 'df, 'd, 'j) runner" where
  "complete_deferred d v w =
     foldl (\<lambda>w' x. respond (fst (snd x)) (Inr (Some v, snd (snd x))) w')
       (w\<lparr>rn_waits := filter (\<lambda>x. fst x \<noteq> d) (rn_waits w)\<rparr>)
       (filter (\<lambda>x. fst x = d) (rn_waits w))"

definition deferred_timeout :: "nat \<Rightarrow> ('cmd, 'r, 's, 'df, 'd, 'j) runner \<Rightarrow> ('cmd, 'r, 's, 'df, 'd, 'j) runner" where
  "deferred_timeout i w =
     (if i < length (rn_waits w)
      then respond (fst (snd (rn_waits w ! i))) (Inl Timeout)
             (w\<lparr>rn_waits := take i (rn_waits w) @ drop (Suc i) (rn_waits w)\<rparr>)
      else w)"

section \<open>Runs\<close>

text \<open>
  All runs of an entity over a journal: messages and timers arrive and deferred replies
  settle at any moment, also while a handler is suspended; \<open>env\<close> is what other entities may
  do to the shared journal; \<open>killed\<close> is the death of the process at any moment and a new
  incarnation over what the journal then holds (the module also replaces a runner that
  has terminated).
\<close>

inductive runner_run ::
  "('cmd, 'r, 'ev, 's, 'fx, 'df, 'd, 'j) runner_opts \<Rightarrow> ('j \<Rightarrow> bool) \<Rightarrow> ('j \<Rightarrow> 'j \<Rightarrow> bool) \<Rightarrow>
   ('cmd, 'r, 'ev, 's, 'fx, 'df, 'd, 'j) config \<Rightarrow> bool"
  for cfg :: "('cmd, 'r, 'ev, 's, 'fx, 'df, 'd, 'j) runner_opts" and init env where
  started: "init j \<Longrightarrow> runner_run cfg init env
     \<lparr>cf_work = [], cf_asker = None, cf_runner = start_runner cfg (new_runner cfg j u n)\<rparr>"
| killed: "runner_run cfg init env c \<Longrightarrow> runner_run cfg init env
     \<lparr>cf_work = [], cf_asker = None,
      cf_runner = start_runner cfg (new_runner cfg (rn_journal (cf_runner c)) u n)\<rparr>"
| offered: "runner_run cfg init env c \<Longrightarrow> \<not> rn_terminated (cf_runner c) \<Longrightarrow>
     runner_run cfg init env (c\<lparr>cf_runner := offer m (cf_runner c)\<rparr>)"
| ticked: "runner_run cfg init env c \<Longrightarrow> \<not> rn_terminated (cf_runner c) \<Longrightarrow>
     runner_run cfg init env (c\<lparr>cf_runner := timer_fires t (cf_runner c)\<rparr>)"
| completed: "runner_run cfg init env c \<Longrightarrow>
     runner_run cfg init env (c\<lparr>cf_runner := complete_deferred d v (cf_runner c)\<rparr>)"
| expired: "runner_run cfg init env c \<Longrightarrow>
     runner_run cfg init env (c\<lparr>cf_runner := deferred_timeout i (cf_runner c)\<rparr>)"
| shared: "runner_run cfg init env c \<Longrightarrow> env (rn_journal (cf_runner c)) j \<Longrightarrow>
     runner_run cfg init env (c\<lparr>cf_runner := (cf_runner c)\<lparr>rn_journal := j\<rparr>\<rparr>)"
| taken: "runner_run cfg init env c \<Longrightarrow> cf_work c = [] \<Longrightarrow> \<not> rn_terminated (cf_runner c) \<Longrightarrow>
     rn_mailbox (cf_runner c) = m # ms \<Longrightarrow>
     runner_run cfg init env (take_message m ((cf_runner c)\<lparr>rn_mailbox := ms\<rparr>))"
| worked: "runner_run cfg init env c \<Longrightarrow> cf_work c \<noteq> [] \<Longrightarrow> \<not> rn_terminated (cf_runner c) \<Longrightarrow>
     runner_run cfg init env (work_turn cfg c)"

end
