(* ===== verification/Runtime.thy ===== *)
theory Runtime
  imports Entity_Runner
begin

text \<open>
  The in-memory runtime (\<open>inmem/runtime.ts\<close>): a module per category keeps one runner per entity, creates
  it on the first command, replaces it when it has terminated, and settles every ask once. A runner is seen
  here through its mailbox (\<open>createMailbox\<close> of \<open>inmem/entity-runner.ts\<close>); what it does with the messages
  is the theory \<open>Entity_Runner\<close>.
\<close>

section \<open>The mailbox\<close>

text \<open>Waiters are the pending promises of \<open>take\<close>; an offer returns the waiter it resolves.\<close>

record 'm mailbox =
  mb_queue :: "'m list"
  mb_waiters :: "nat list"

definition createMailbox :: "'m mailbox" where
  "createMailbox = \<lparr>mb_queue = [], mb_waiters = []\<rparr>"

definition mb_offer :: "'m \<Rightarrow> 'm mailbox \<Rightarrow> (nat \<times> 'm) list \<times> 'm mailbox" where
  "mb_offer item b = (case mb_waiters b of
      w # ws \<Rightarrow> ([(w, item)], b\<lparr>mb_waiters := ws\<rparr>)
    | [] \<Rightarrow> ([], b\<lparr>mb_queue := mb_queue b @ [item]\<rparr>))"

definition mb_take :: "nat \<Rightarrow> 'm mailbox \<Rightarrow> (nat \<times> 'm) list \<times> 'm mailbox" where
  "mb_take w b = (case mb_queue b of
      item # q \<Rightarrow> ([(w, item)], b\<lparr>mb_queue := q\<rparr>)
    | [] \<Rightarrow> ([], b\<lparr>mb_waiters := mb_waiters b @ [w]\<rparr>))"

definition mb_drain :: "'m mailbox \<Rightarrow> 'm list \<times> 'm mailbox" where
  "mb_drain b = (mb_queue b, b\<lparr>mb_queue := []\<rparr>)"

datatype 'm mailbox_op = Offer 'm | Take

text \<open>Takes are numbered by their position; the result is what each take has received so far.\<close>

fun mailbox_ops :: "nat \<Rightarrow> 'm mailbox \<Rightarrow> 'm mailbox_op list \<Rightarrow> (nat \<times> 'm) list \<times> 'm mailbox" where
  "mailbox_ops n b [] = ([], b)"
| "mailbox_ops n b (Offer m # ops) =
     (let (r, b1) = mb_offer m b; (rs, b2) = mailbox_ops n b1 ops in (r @ rs, b2))"
| "mailbox_ops n b (Take # ops) =
     (let (r, b1) = mb_take n b; (rs, b2) = mailbox_ops (Suc n) b1 ops in (r @ rs, b2))"

text \<open>First in, first out: the takes, in their order, receive the offers, in theirs; only one of the two queues is used.\<close>

fun offers_of :: "'m mailbox_op list \<Rightarrow> 'm list" where
  "offers_of [] = []"
| "offers_of (Offer m # ops) = m # offers_of ops"
| "offers_of (Take # ops) = offers_of ops"

fun takes_of :: "nat \<Rightarrow> 'm mailbox_op list \<Rightarrow> nat list" where
  "takes_of n [] = []"
| "takes_of n (Offer m # ops) = takes_of n ops"
| "takes_of n (Take # ops) = n # takes_of (Suc n) ops"

lemma mailbox_fifo:
  assumes "mb_queue b = [] \<or> mb_waiters b = []" "mailbox_ops n b ops = (rs, b')"
  shows "mb_queue b @ offers_of ops = map snd rs @ mb_queue b' \<and> mb_waiters b @ takes_of n ops = map fst rs @ mb_waiters b'
    \<and> (mb_queue b' = [] \<or> mb_waiters b' = [])"
  using assms
proof (induction ops arbitrary: n b rs)
  case (Cons op ops)
  show ?case
  proof (cases op)
    case (Offer m)
    obtain r b1 where o: "mb_offer m b = (r, b1)" by fastforce
    obtain rs2 where r: "mailbox_ops n b1 ops = (rs2, b')" "rs = r @ rs2"
      using Cons.prems(2) o by (auto simp: Offer split: prod.splits)
    have "mb_queue b1 = [] \<or> mb_waiters b1 = []"
      using o Cons.prems(1) by (auto simp: mb_offer_def split: list.splits)
    from Cons.IH [OF this r(1)] show ?thesis
      using o Cons.prems(1) r(2) by (auto simp: Offer mb_offer_def split: list.splits)
  next
    case Take
    obtain r b1 where o: "mb_take n b = (r, b1)" by fastforce
    obtain rs2 where r: "mailbox_ops (Suc n) b1 ops = (rs2, b')" "rs = r @ rs2"
      using Cons.prems(2) o by (auto simp: Take split: prod.splits)
    have "mb_queue b1 = [] \<or> mb_waiters b1 = []"
      using o Cons.prems(1) by (auto simp: mb_take_def split: list.splits)
    from Cons.IH [OF this r(1)] show ?thesis
      using o Cons.prems(1) r(2) by (auto simp: Take mb_take_def split: list.splits)
  qed
qed simp

section \<open>A module\<close>

text \<open>
  \<open>in_offered\<close> and \<open>in_taken\<close> record what has gone through the mailbox. \<open>mo_heap\<close> holds every runner the module has
  created, \<open>mo_entities\<close> the one it routes to, \<open>mo_asks\<close> the promises of asks and \<open>mo_timers\<close> their armed
  timeouts; \<open>mo_stopping\<close> is the list \<open>running\<close> of a shutdown under way.
\<close>

record 'cmd incarnation =
  in_entity :: string
  in_mailbox :: "'cmd msg list"
  in_terminated :: bool
  in_offered :: "'cmd msg list"
  in_taken :: "'cmd msg list"

record ('cmd, 'r) rt_module =
  mo_entities :: "(string, nat) jsmap"
  mo_heap :: "'cmd incarnation list"
  mo_asks :: "(reply_error + 'r answer) option list"
  mo_timers :: "nat list"
  mo_stopping :: "nat list option"

definition createModule :: "('cmd, 'r) rt_module" where
  "createModule = \<lparr>mo_entities = [], mo_heap = [], mo_asks = [], mo_timers = [], mo_stopping = None\<rparr>"

definition isTerminated :: "('cmd, 'r) rt_module \<Rightarrow> nat \<Rightarrow> bool" where
  "isTerminated md k = in_terminated (mo_heap md ! k)"

definition getOrCreate :: "string \<Rightarrow> ('cmd, 'r) rt_module \<Rightarrow> nat \<times> ('cmd, 'r) rt_module" where
  "getOrCreate i md =
     (let create = (length (mo_heap md),
            md\<lparr>mo_entities := js_set i (length (mo_heap md)) (mo_entities md),
               mo_heap := mo_heap md @ [\<lparr>in_entity = i, in_mailbox = [], in_terminated = False, in_offered = [], in_taken = []\<rparr>]\<rparr>)
      in case js_get (mo_entities md) i of
           None \<Rightarrow> create
         | Some k \<Rightarrow> if isTerminated md k then create else (k, md))"

definition md_offer :: "nat \<Rightarrow> 'cmd msg \<Rightarrow> ('cmd, 'r) rt_module \<Rightarrow> ('cmd, 'r) rt_module" where
  "md_offer k m md = md\<lparr>mo_heap := (mo_heap md)[k := (mo_heap md ! k)
     \<lparr>in_mailbox := in_mailbox (mo_heap md ! k) @ [m], in_offered := in_offered (mo_heap md ! k) @ [m]\<rparr>]\<rparr>"

definition module_tell :: "string \<Rightarrow> 'cmd \<Rightarrow> ('cmd, 'r) rt_module \<Rightarrow> ('cmd, 'r) rt_module" where
  "module_tell i c md = (case getOrCreate i md of (k, md') \<Rightarrow> md_offer k (Tell c) md')"

definition module_ask :: "string \<Rightarrow> 'cmd \<Rightarrow> ('cmd, 'r) rt_module \<Rightarrow> nat \<times> ('cmd, 'r) rt_module" where
  "module_ask i c md =
     (case getOrCreate i md of (k, md') \<Rightarrow>
        (let a = length (mo_asks md')
         in (a, md_offer k (Ask c a) (md'\<lparr>mo_asks := mo_asks md' @ [None], mo_timers := mo_timers md' @ [a]\<rparr>))))"

text \<open>A promise keeps the first outcome. \<open>resolve\<close> of an ask clears its timer; the timer resolves with \<open>Timeout\<close>.\<close>

definition promise_set :: "nat \<Rightarrow> reply_error + 'r answer \<Rightarrow> ('cmd, 'r) rt_module \<Rightarrow> ('cmd, 'r) rt_module" where
  "promise_set a r md =
     md\<lparr>mo_asks := (mo_asks md)[a := (case mo_asks md ! a of None \<Rightarrow> Some r | Some r' \<Rightarrow> Some r')],
        mo_timers := filter (\<lambda>b. b \<noteq> a) (mo_timers md)\<rparr>"

definition ask_timeout :: "nat \<Rightarrow> ('cmd, 'r) rt_module \<Rightarrow> ('cmd, 'r) rt_module" where
  "ask_timeout a md = (if a \<in> set (mo_timers md) then promise_set a (Inl Timeout) md else md)"

text \<open>The runner's side: it takes the next message, and when it terminates its mailbox is drained and \<open>onTerminate\<close> runs.\<close>

definition runner_takes :: "nat \<Rightarrow> ('cmd, 'r) rt_module \<Rightarrow> ('cmd, 'r) rt_module" where
  "runner_takes k md =
     (case in_mailbox (mo_heap md ! k) of
        [] \<Rightarrow> md
      | m # ms \<Rightarrow> md\<lparr>mo_heap := (mo_heap md)[k := (mo_heap md ! k)\<lparr>in_mailbox := ms, in_taken := in_taken (mo_heap md ! k) @ [m]\<rparr>]\<rparr>)"

definition onTerminate :: "nat \<Rightarrow> ('cmd, 'r) rt_module \<Rightarrow> ('cmd, 'r) rt_module" where
  "onTerminate k md =
     (let i = in_entity (mo_heap md ! k)
      in if js_get (mo_entities md) i = Some k then md\<lparr>mo_entities := js_delete i (mo_entities md)\<rparr> else md)"

definition runner_terminates :: "string \<Rightarrow> nat \<Rightarrow> ('cmd, 'r) rt_module \<Rightarrow> ('cmd, 'r) rt_module" where
  "runner_terminates reason k md =
     (let inc = mo_heap md ! k;
          md1 = md\<lparr>mo_heap := (mo_heap md)[k := inc\<lparr>in_mailbox := [], in_terminated := True\<rparr>]\<rparr>;
          md2 = foldl (\<lambda>m (a, r). promise_set a r m) md1 (drain_replies reason (in_mailbox inc))
      in onTerminate k md2)"

definition shutdown_begin :: "('cmd, 'r) rt_module \<Rightarrow> ('cmd, 'r) rt_module" where
  "shutdown_begin md =
     (foldl (\<lambda>m k. md_offer k StopMsg m) md (js_values (mo_entities md)))\<lparr>mo_stopping := Some (js_values (mo_entities md))\<rparr>"

definition shutdown_end :: "('cmd, 'r) rt_module \<Rightarrow> ('cmd, 'r) rt_module" where
  "shutdown_end md = md\<lparr>mo_entities := [], mo_stopping := None\<rparr>"

section \<open>The runtime\<close>

type_synonym ('cmd, 'r) runtime = "(string, ('cmd, 'r) rt_module) jsmap"

definition createInMemoryRuntime :: "string list \<Rightarrow> ('cmd, 'r) runtime" where
  "createInMemoryRuntime categories = foldl (\<lambda>m c. js_set c createModule m) [] categories"

definition runtime_tell :: "string \<Rightarrow> string \<Rightarrow> 'cmd \<Rightarrow> ('cmd, 'r) runtime \<Rightarrow> js_error + ('cmd, 'r) runtime" where
  "runtime_tell cat i c rt =
     (case js_get rt cat of
        None \<Rightarrow> Inl (JsError (''Category not found: '' @ cat))
      | Some md \<Rightarrow> Inr (js_set cat (module_tell i c md) rt))"

definition runtime_ask :: "string \<Rightarrow> string \<Rightarrow> 'cmd \<Rightarrow> ('cmd, 'r) runtime \<Rightarrow> reply_error + (nat \<times> ('cmd, 'r) runtime)" where
  "runtime_ask cat i c rt =
     (case js_get rt cat of
        None \<Rightarrow> Inl (CategoryNotFound cat)
      | Some md \<Rightarrow> (case module_ask i c md of (a, md') \<Rightarrow> Inr (a, js_set cat md' rt)))"

definition runtime_categories :: "('cmd, 'r) runtime \<Rightarrow> string list" where
  "runtime_categories rt = map fst rt"

section \<open>Runs of a module\<close>

text \<open>
  All interleavings of commands, of the steps of the runners and of timers. With \<open>quiet\<close> no command arrives
  between the begin and the end of a shutdown, which waits for the runners it has told to stop.
\<close>

inductive module_run :: "bool \<Rightarrow> ('cmd, 'r) rt_module \<Rightarrow> bool" for quiet where
  created: "module_run quiet createModule"
| told: "module_run quiet md \<Longrightarrow> (quiet \<longrightarrow> mo_stopping md = None) \<Longrightarrow> module_run quiet (module_tell i c md)"
| asked: "module_run quiet md \<Longrightarrow> (quiet \<longrightarrow> mo_stopping md = None) \<Longrightarrow> module_run quiet (snd (module_ask i c md))"
| offered: "module_run quiet md \<Longrightarrow> k < length (mo_heap md) \<Longrightarrow> \<not> isTerminated md k \<Longrightarrow> module_run quiet (md_offer k m md)"
| took: "module_run quiet md \<Longrightarrow> k < length (mo_heap md) \<Longrightarrow> \<not> isTerminated md k \<Longrightarrow> module_run quiet (runner_takes k md)"
| answered: "module_run quiet md \<Longrightarrow> a < length (mo_asks md) \<Longrightarrow> module_run quiet (promise_set a r md)"
| timed_out: "module_run quiet md \<Longrightarrow> module_run quiet (ask_timeout a md)"
| terminated: "module_run quiet md \<Longrightarrow> k < length (mo_heap md) \<Longrightarrow> \<not> isTerminated md k \<Longrightarrow>
     module_run quiet (runner_terminates reason k md)"
| stop_begun: "module_run quiet md \<Longrightarrow> mo_stopping md = None \<Longrightarrow> module_run quiet (shutdown_begin md)"
| stop_ended: "module_run quiet md \<Longrightarrow> mo_stopping md = Some running \<Longrightarrow> \<forall>k \<in> set running. isTerminated md k \<Longrightarrow>
     module_run quiet (shutdown_end md)"

section \<open>What the operations leave alone\<close>

text \<open>Routing depends on the table, on the entity and the end of each runner, and on a shutdown under way.\<close>

definition ends :: "('cmd, 'r) rt_module \<Rightarrow> (string \<times> bool) list" where
  "ends md = map (\<lambda>inc. (in_entity inc, in_terminated inc)) (mo_heap md)"

lemma map_update_same: "f x = f (xs ! k) \<Longrightarrow> map f (xs[k := x]) = map f xs"
  by (cases "k < length xs") (simp_all add: map_update list_update_same_conv list_update_beyond)

lemma ends_offer [simp]: "ends (md_offer k m md) = ends md" "mo_entities (md_offer k m md) = mo_entities md"
    "mo_stopping (md_offer k m md) = mo_stopping md" "mo_asks (md_offer k m md) = mo_asks md" "mo_timers (md_offer k m md) = mo_timers md"
  by (simp_all add: md_offer_def ends_def map_update_same)

lemma ends_takes [simp]: "ends (runner_takes k md) = ends md" "mo_entities (runner_takes k md) = mo_entities md"
    "mo_stopping (runner_takes k md) = mo_stopping md" "mo_asks (runner_takes k md) = mo_asks md" "mo_timers (runner_takes k md) = mo_timers md"
  by (simp_all add: runner_takes_def ends_def map_update_same split: list.splits)

lemma promise_frame [simp]: "mo_heap (promise_set a r md) = mo_heap md" "mo_entities (promise_set a r md) = mo_entities md"
    "mo_stopping (promise_set a r md) = mo_stopping md" "ends (promise_set a r md) = ends md"
  by (simp_all add: promise_set_def ends_def)

lemma promises_frame [simp]:
    "mo_heap (foldl (\<lambda>m (a, r). promise_set a r m) md rs) = mo_heap md"
    "mo_entities (foldl (\<lambda>m (a, r). promise_set a r m) md rs) = mo_entities md"
    "mo_stopping (foldl (\<lambda>m (a, r). promise_set a r m) md rs) = mo_stopping md"
  by (induction rs arbitrary: md) (auto split: prod.splits)

lemma timeout_frame [simp]: "mo_heap (ask_timeout a md) = mo_heap md" "mo_entities (ask_timeout a md) = mo_entities md"
    "mo_stopping (ask_timeout a md) = mo_stopping md" "ends (ask_timeout a md) = ends md"
  by (simp_all add: ask_timeout_def)

lemma offers_frame [simp]:
    "ends (foldl (\<lambda>m k. md_offer k x m) md ks) = ends md" "mo_entities (foldl (\<lambda>m k. md_offer k x m) md ks) = mo_entities md"
    "mo_asks (foldl (\<lambda>m k. md_offer k x m) md ks) = mo_asks md" "mo_timers (foldl (\<lambda>m k. md_offer k x m) md ks) = mo_timers md"
  by (induction ks arbitrary: md) simp_all

section \<open>One runner per entity\<close>

definition route_inv :: "bool \<Rightarrow> (string, nat) jsmap \<Rightarrow> (string \<times> bool) list \<Rightarrow> nat list option \<Rightarrow> bool" where
  "route_inv quiet E H S \<longleftrightarrow> js_wf E \<and> (\<forall>i k. js_get E i = Some k \<longrightarrow> k < length H \<and> H ! k = (i, False))
     \<and> (quiet \<longrightarrow> (\<forall>k i. k < length H \<longrightarrow> H ! k = (i, False) \<longrightarrow> js_get E i = Some k))
     \<and> (quiet \<longrightarrow> (\<forall>running. S = Some running \<longrightarrow> (\<forall>i k. js_get E i = Some k \<longrightarrow> k \<in> set running)))"

lemma route_invD:
  assumes "route_inv quiet E H S"
  shows "js_wf E" and "js_get E i = Some k \<Longrightarrow> k < length H" and "js_get E i = Some k \<Longrightarrow> H ! k = (i, False)"
    and "quiet \<Longrightarrow> k < length H \<Longrightarrow> H ! k = (i, False) \<Longrightarrow> js_get E i = Some k"
    and "quiet \<Longrightarrow> S = Some running \<Longrightarrow> js_get E i = Some k \<Longrightarrow> k \<in> set running"
  using assms unfolding route_inv_def by blast+

lemma route_invI:
  assumes "js_wf E" "\<And>i k. js_get E i = Some k \<Longrightarrow> k < length H" "\<And>i k. js_get E i = Some k \<Longrightarrow> H ! k = (i, False)"
    and "\<And>i k. quiet \<Longrightarrow> k < length H \<Longrightarrow> H ! k = (i, False) \<Longrightarrow> js_get E i = Some k"
    and "\<And>i k running. quiet \<Longrightarrow> S = Some running \<Longrightarrow> js_get E i = Some k \<Longrightarrow> k \<in> set running"
  shows "route_inv quiet E H S"
  using assms unfolding route_inv_def by blast

abbreviation routed :: "bool \<Rightarrow> ('cmd, 'r) rt_module \<Rightarrow> bool" where
  "routed quiet md \<equiv> route_inv quiet (mo_entities md) (ends md) (mo_stopping md)"

lemma getOrCreate_routed:
  assumes inv: "routed quiet md" and q: "quiet \<longrightarrow> mo_stopping md = None" and g: "getOrCreate i md = (k, md')"
  shows "routed quiet md'" and "js_get (mo_entities md') i = Some k" and "k < length (mo_heap md')" and "\<not> isTerminated md' k"
    and "mo_asks md' = mo_asks md" and "mo_timers md' = mo_timers md" and "mo_stopping md' = mo_stopping md"
    and "set (mo_heap md') \<subseteq> insert \<lparr>in_entity = i, in_mailbox = [], in_terminated = False, in_offered = [], in_taken = []\<rparr> (set (mo_heap md))"
proof -
  have len: "length (ends md) = length (mo_heap md)" by (simp add: ends_def)
  have live: "\<not> isTerminated md j" "j < length (mo_heap md)" if "js_get (mo_entities md) i = Some j" for j
  proof -
    have "j < length (ends md)" "ends md ! j = (i, False)" using inv that by (simp_all add: route_inv_def)
    then show "\<not> isTerminated md j" "j < length (mo_heap md)" by (simp_all add: ends_def isTerminated_def)
  qed
  show "routed quiet md'"
  proof (cases "js_get (mo_entities md) i")
    case None
    with g have md': "mo_entities md' = js_set i (length (ends md)) (mo_entities md)" "ends md' = ends md @ [(i, False)]"
      "mo_stopping md' = mo_stopping md" by (auto simp: getOrCreate_def ends_def Let_def)
    note D = route_invD [OF inv]
    show ?thesis unfolding md'
    proof (rule route_invI)
      show "js_wf (js_set i (length (ends md)) (mo_entities md))" using D(1) by (rule js_wf_set)
    next
      fix j l assume j: "js_get (js_set i (length (ends md)) (mo_entities md)) j = Some l"
      show "l < length (ends md @ [(i, False)])"
        using j D(2) [of j l] by (auto split: if_splits)
      show "(ends md @ [(i, False)]) ! l = (j, False)"
        using j D(2,3) [of j l] by (auto simp: nth_append split: if_splits)
    next
      fix j l assume "quiet" "l < length (ends md @ [(i, False)])" "(ends md @ [(i, False)]) ! l = (j, False)"
      then show "js_get (js_set i (length (ends md)) (mo_entities md)) j = Some l"
        using D(4) [of l j] None by (cases "l < length (ends md)") (auto simp: nth_append)
    qed (use q in simp)
  next
    case (Some j)
    with live [OF Some] g inv show ?thesis by (simp add: getOrCreate_def Let_def)
  qed
  show "js_get (mo_entities md') i = Some k" "k < length (mo_heap md')" "\<not> isTerminated md' k"
    using g live by (auto simp: getOrCreate_def Let_def isTerminated_def split: option.splits if_splits)
  show "mo_asks md' = mo_asks md" "mo_timers md' = mo_timers md" "mo_stopping md' = mo_stopping md"
    "set (mo_heap md') \<subseteq> insert \<lparr>in_entity = i, in_mailbox = [], in_terminated = False, in_offered = [], in_taken = []\<rparr> (set (mo_heap md))"
    using g by (auto simp: getOrCreate_def Let_def split: option.splits if_splits)
qed

lemma terminates_routed:
  assumes inv: "routed quiet md" and k: "k < length (mo_heap md)" "\<not> isTerminated md k"
  shows "routed quiet (runner_terminates reason k md)"
proof -
  let ?i = "in_entity (mo_heap md ! k)" and ?md = "runner_terminates reason k md"
  have H: "ends ?md = (ends md)[k := (?i, True)]" "mo_stopping ?md = mo_stopping md"
    using k by (simp_all add: runner_terminates_def onTerminate_def Let_def ends_def map_update)
  have E: "mo_entities ?md = (if js_get (mo_entities md) ?i = Some k then js_delete ?i (mo_entities md) else mo_entities md)"
    using k by (simp add: runner_terminates_def onTerminate_def Let_def)
  have here: "ends md ! k = (?i, False)" using k by (simp add: ends_def isTerminated_def)
  have len: "length (ends md) = length (mo_heap md)" by (simp add: ends_def)
  have own: "j = ?i" if "js_get (mo_entities md) j = Some k" for j
    using route_invD(3) [OF inv that] unfolding here by (simp only: prod.inject)
  have sub: "js_get (mo_entities ?md) j = Some l \<longleftrightarrow> js_get (mo_entities md) j = Some l \<and> l \<noteq> k" for j l
  proof (cases "js_get (mo_entities md) ?i = Some k")
    case True
    then have E': "mo_entities ?md = js_delete ?i (mo_entities md)" unfolding E by simp
    show ?thesis
    proof (cases "j = ?i")
      case True
      with \<open>js_get (mo_entities md) ?i = Some k\<close> show ?thesis unfolding E' by (simp only: js_get_delete) auto
    next
      case False
      with own have "js_get (mo_entities md) j \<noteq> Some k" by blast
      with False show ?thesis unfolding E' by (simp only: js_get_delete) auto
    qed
  next
    case False
    with own have "js_get (mo_entities md) j \<noteq> Some k" by blast
    with False show ?thesis unfolding E by auto
  qed
  note D = route_invD [OF inv]
  show ?thesis unfolding H
  proof (rule route_invI)
    show "js_wf (mo_entities ?md)" using D(1) by (simp add: E)
  next
    fix j l assume "js_get (mo_entities ?md) j = Some l"
    then have j: "js_get (mo_entities md) j = Some l" "l \<noteq> k" by (simp_all add: sub)
    show "l < length ((ends md)[k := (?i, True)])" using D(2) [OF j(1)] by simp
    show "(ends md)[k := (?i, True)] ! l = (j, False)" using D(3) [OF j(1)] j(2) by simp
  next
    fix j l assume l: "quiet" "l < length ((ends md)[k := (?i, True)])" "(ends md)[k := (?i, True)] ! l = (j, False)"
    then have "l \<noteq> k" by auto
    with l D(4) [of l j] show "js_get (mo_entities ?md) j = Some l" by (simp add: sub)
  next
    fix j l running assume "quiet" "mo_stopping md = Some running" "js_get (mo_entities ?md) j = Some l"
    then show "l \<in> set running" using D(5) unfolding sub by blast
  qed
qed

section \<open>Mailboxes and asks\<close>

definition inc_fifo :: "'cmd incarnation \<Rightarrow> bool" where
  "inc_fifo inc \<longleftrightarrow> (\<exists>rest. in_offered inc = in_taken inc @ rest \<and> (\<not> in_terminated inc \<longrightarrow> rest = in_mailbox inc))"

definition fifo_inv :: "('cmd, 'r) rt_module \<Rightarrow> bool" where
  "fifo_inv md \<longleftrightarrow> (\<forall>inc \<in> set (mo_heap md). inc_fifo inc)"

lemma fifo_update:
  assumes "fifo_inv md" "k < length (mo_heap md) \<Longrightarrow> inc_fifo (mo_heap md ! k) \<Longrightarrow> inc_fifo x"
  shows "\<forall>inc \<in> set ((mo_heap md)[k := x]). inc_fifo inc"
proof (cases "k < length (mo_heap md)")
  case True
  then have "inc_fifo x" using assms by (simp add: fifo_inv_def)
  with assms(1) show ?thesis using set_update_subset_insert [of "mo_heap md" k x] by (auto simp: fifo_inv_def)
qed (use assms(1) in \<open>simp add: fifo_inv_def list_update_beyond\<close>)

lemma fifo_offer: "fifo_inv md \<Longrightarrow> fifo_inv (md_offer k m md)"
proof -
  assume "fifo_inv md"
  then have "\<forall>inc \<in> set ((mo_heap md)[k := (mo_heap md ! k)
     \<lparr>in_mailbox := in_mailbox (mo_heap md ! k) @ [m], in_offered := in_offered (mo_heap md ! k) @ [m]\<rparr>]). inc_fifo inc"
    by (rule fifo_update) (auto simp: inc_fifo_def)
  then show ?thesis by (simp add: fifo_inv_def md_offer_def)
qed

lemma fifo_offers: "fifo_inv md \<Longrightarrow> fifo_inv (foldl (\<lambda>m k. md_offer k x m) md ks)"
  by (induction ks arbitrary: md) (simp_all add: fifo_offer)

lemma fifo_takes: "fifo_inv md \<Longrightarrow> \<not> isTerminated md k \<Longrightarrow> fifo_inv (runner_takes k md)"
proof (cases "in_mailbox (mo_heap md ! k)")
  case (Cons m ms)
  assume "fifo_inv md" "\<not> isTerminated md k"
  then have "\<forall>inc \<in> set ((mo_heap md)[k := (mo_heap md ! k)\<lparr>in_mailbox := ms, in_taken := in_taken (mo_heap md ! k) @ [m]\<rparr>]). inc_fifo inc"
    using Cons by (intro fifo_update) (auto simp: inc_fifo_def isTerminated_def)
  with Cons show ?thesis by (simp add: fifo_inv_def runner_takes_def)
qed (simp add: runner_takes_def)

lemma fifo_terminates:
  assumes "fifo_inv md"
  shows "fifo_inv (runner_terminates reason k md)"
proof -
  have "\<forall>inc \<in> set ((mo_heap md)[k := (mo_heap md ! k)\<lparr>in_mailbox := [], in_terminated := True\<rparr>]). inc_fifo inc"
    by (rule fifo_update [OF assms]) (auto simp: inc_fifo_def)
  then show ?thesis by (simp add: fifo_inv_def runner_terminates_def onTerminate_def Let_def)
qed

text \<open>An ask that has no outcome yet still has its timeout armed.\<close>

definition asks_inv :: "('cmd, 'r) rt_module \<Rightarrow> bool" where
  "asks_inv md \<longleftrightarrow> (\<forall>a < length (mo_asks md). mo_asks md ! a = None \<longrightarrow> a \<in> set (mo_timers md))"

lemma nth_update_any: "xs[a := x] ! b = (if a = b \<and> a < length xs then x else xs ! b)"
  by (cases "a < length xs") (simp_all add: nth_list_update list_update_beyond)

lemma asks_promise: "asks_inv md \<Longrightarrow> asks_inv (promise_set a r md)"
  by (auto simp: asks_inv_def promise_set_def nth_update_any split: option.splits if_splits)

lemma asks_promises: "asks_inv md \<Longrightarrow> asks_inv (foldl (\<lambda>m (a, r). promise_set a r m) md rs)"
  by (induction rs arbitrary: md) (auto simp: asks_promise)

lemma asks_cong: "mo_asks md' = mo_asks md \<Longrightarrow> mo_timers md' = mo_timers md \<Longrightarrow> asks_inv md' = asks_inv md"
  by (simp add: asks_inv_def)

lemma asks_terminates:
  assumes "asks_inv md"
  shows "asks_inv (runner_terminates reason k md)"
proof -
  let ?md1 = "md\<lparr>mo_heap := (mo_heap md)[k := (mo_heap md ! k)\<lparr>in_mailbox := [], in_terminated := True\<rparr>]\<rparr>"
  have "asks_inv ?md1" using assms by (simp add: asks_inv_def)
  from asks_promises [OF this, of "drain_replies reason (in_mailbox (mo_heap md ! k))"] show ?thesis
    by (simp add: runner_terminates_def onTerminate_def Let_def asks_inv_def)
qed

definition module_inv :: "bool \<Rightarrow> ('cmd, 'r) rt_module \<Rightarrow> bool" where
  "module_inv quiet md \<longleftrightarrow> routed quiet md \<and> fifo_inv md \<and> asks_inv md"

lemma command_inv:
  assumes inv: "module_inv quiet md" and q: "quiet \<longrightarrow> mo_stopping md = None" and g: "getOrCreate i md = (k, md')"
  shows "module_inv quiet md'"
proof -
  note G = getOrCreate_routed [OF _ q g]
  have "inc_fifo \<lparr>in_entity = i, in_mailbox = [], in_terminated = False, in_offered = [], in_taken = []\<rparr>" by (simp add: inc_fifo_def)
  with inv G(1,8) have "routed quiet md'" "fifo_inv md'" by (auto simp: module_inv_def fifo_inv_def)
  moreover have "asks_inv md'" using inv asks_cong [OF G(5,6)] by (simp add: module_inv_def)
  ultimately show ?thesis by (simp add: module_inv_def)
qed

lemma module_run_inv: "module_run quiet md \<Longrightarrow> module_inv quiet md"
proof (induction rule: module_run.induct)
  case created
  show ?case by (simp add: module_inv_def createModule_def route_inv_def ends_def fifo_inv_def asks_inv_def)
next
  case (told md i c)
  obtain k md' where g: "getOrCreate i md = (k, md')" by fastforce
  from command_inv [OF told.IH told.hyps(2) g] show ?case
    by (simp add: module_inv_def module_tell_def g fifo_offer asks_inv_def)
next
  case (asked md i c)
  obtain k md' where g: "getOrCreate i md = (k, md')" by fastforce
  let ?md = "md'\<lparr>mo_asks := mo_asks md' @ [None], mo_timers := mo_timers md' @ [length (mo_asks md')]\<rparr>"
  from command_inv [OF asked.IH asked.hyps(2) g] have "module_inv quiet ?md"
    by (auto simp: module_inv_def ends_def fifo_inv_def asks_inv_def nth_append)
  then show ?case by (simp add: module_inv_def module_ask_def g Let_def fifo_offer asks_inv_def)
next
  case (offered md k m)
  then show ?case by (simp add: module_inv_def fifo_offer asks_inv_def)
next
  case (took md k)
  then show ?case by (simp add: module_inv_def fifo_takes asks_inv_def)
next
  case (answered md a r)
  then show ?case by (simp add: module_inv_def asks_promise) (simp add: fifo_inv_def)
next
  case (timed_out md a)
  then show ?case by (simp add: module_inv_def ask_timeout_def asks_promise) (simp add: fifo_inv_def)
next
  case (terminated md k reason)
  then show ?case using terminates_routed [of quiet md k reason]
    by (simp add: module_inv_def fifo_terminates asks_terminates)
next
  case (stop_begun md)
  have r: "routed quiet md" using stop_begun.IH by (simp add: module_inv_def)
  note D = route_invD [OF r]
  have frame: "mo_entities (shutdown_begin md) = mo_entities md" "ends (shutdown_begin md) = ends md"
    "mo_stopping (shutdown_begin md) = Some (js_values (mo_entities md))"
    by (simp_all add: shutdown_begin_def ends_def offers_frame(1) [unfolded ends_def])
  have "k \<in> set (js_values (mo_entities md))" if "js_get (mo_entities md) i = Some k" for i k
    using map_of_SomeD [OF that] by force
  then have "routed quiet (shutdown_begin md)"
    unfolding frame using D(1-4) by (intro route_invI) blast+
  moreover have "fifo_inv (shutdown_begin md)" "asks_inv (shutdown_begin md)"
    using stop_begun.IH fifo_offers [of md StopMsg] by (simp_all add: module_inv_def shutdown_begin_def fifo_inv_def asks_inv_def)
  ultimately show ?case by (simp add: module_inv_def)
next
  case (stop_ended md running)
  have r: "routed quiet md" using stop_ended.IH by (simp add: module_inv_def)
  note D = route_invD [OF r]
  have "\<not> (k < length (ends md) \<and> ends md ! k = (i, False))" if "quiet" for i k
  proof
    assume k: "k < length (ends md) \<and> ends md ! k = (i, False)"
    with that D(4) have "js_get (mo_entities md) i = Some k" by blast
    with that D(5) stop_ended.hyps(2) have "k \<in> set running" by blast
    with stop_ended.hyps(3) have "isTerminated md k" by blast
    moreover have "k < length (mo_heap md)" using k by (simp add: ends_def)
    ultimately show False using k by (simp add: isTerminated_def ends_def)
  qed
  then have "route_inv quiet [] (ends md) None" by (intro route_invI) auto
  then show ?case using stop_ended.IH by (simp add: module_inv_def shutdown_end_def ends_def fifo_inv_def asks_inv_def)
qed

lemma live_unique:
  assumes "routed True md" "k < length (mo_heap md)" "l < length (mo_heap md)" "\<not> isTerminated md k" "\<not> isTerminated md l"
    and "in_entity (mo_heap md ! k) = in_entity (mo_heap md ! l)"
  shows "k = l"
proof -
  have reg: "js_get (mo_entities md) (in_entity (mo_heap md ! j)) = Some j" if "j < length (mo_heap md)" "\<not> isTerminated md j" for j
    by (rule route_invD(4) [OF assms(1)]) (use that in \<open>simp_all add: ends_def isTerminated_def\<close>)
  from reg [OF assms(2,4)] reg [OF assms(3,5)] show ?thesis unfolding assms(6) by (simp only: option.inject)
qed

text \<open>
  C7. An entity has one writer: in every run of a module in which no command arrives while a shutdown is waiting for its
  runners, whatever is told, asked, stopped, crashed and timed out in whatever order, no two live runners serve the same entity
  (with such a command two may: \<open>shutdown_race_two_runners\<close>), every runner takes the messages of its mailbox in the order they were offered, every
  unanswered ask still has its timeout armed, and a command told next, unless a shutdown is waiting, goes to the end of the mailbox of the one
  live runner of its entity.
\<close>

theorem one_live_runner_per_entity:
  assumes "module_run True md"
  shows "(\<forall>k < length (mo_heap md). \<forall>l < length (mo_heap md). \<not> isTerminated md k \<longrightarrow> \<not> isTerminated md l
      \<longrightarrow> in_entity (mo_heap md ! k) = in_entity (mo_heap md ! l) \<longrightarrow> k = l)
    \<and> (\<forall>inc \<in> set (mo_heap md). \<exists>rest. in_offered inc = in_taken inc @ rest \<and> (\<not> in_terminated inc \<longrightarrow> rest = in_mailbox inc))
    \<and> (\<forall>a < length (mo_asks md). mo_asks md ! a = None \<longrightarrow> a \<in> set (mo_timers md))
    \<and> (mo_stopping md = None \<longrightarrow> (\<exists>k < length (mo_heap (module_tell i c md)). let inc = mo_heap (module_tell i c md) ! k in
        js_get (mo_entities (module_tell i c md)) i = Some k \<and> in_entity inc = i \<and> \<not> in_terminated inc
        \<and> (\<exists>before. in_mailbox inc = before @ [Tell c])))"
proof -
  from module_run_inv [OF assms] have inv: "routed True md" "fifo_inv md" "asks_inv md" by (simp_all add: module_inv_def)
  have "\<exists>k < length (mo_heap (module_tell i c md)). let inc = mo_heap (module_tell i c md) ! k in
        js_get (mo_entities (module_tell i c md)) i = Some k \<and> in_entity inc = i \<and> \<not> in_terminated inc
        \<and> (\<exists>before. in_mailbox inc = before @ [Tell c])" if stopping: "mo_stopping md = None"
  proof -
    obtain k md' where g: "getOrCreate i md = (k, md')" by fastforce
    have q: "True \<longrightarrow> mo_stopping md = None" using stopping by simp
    note G = getOrCreate_routed [OF inv(1) q g]
    have "ends md' ! k = (i, False)" by (rule route_invD(3) [OF G(1,2)])
    then have "in_entity (mo_heap md' ! k) = i" using G(3) by (simp add: ends_def)
    with G(2-4) show ?thesis
      by (intro exI [of _ k]) (simp add: module_tell_def g md_offer_def isTerminated_def Let_def)
  qed
  then show ?thesis
    using live_unique [OF inv(1)] inv(2,3) unfolding fifo_inv_def inc_fifo_def asks_inv_def by blast
qed

definition demo_module :: "(nat, nat) rt_module" where
  "demo_module = module_tell ''e'' 2 (runner_terminates ''entity crashed'' 0 (snd (module_ask ''e'' 1 createModule)))"

theorem one_live_runner_per_entity_witness:
  "length (mo_heap demo_module) = 2 \<and> mo_asks demo_module = [Some (Inl (General ''entity crashed''))]
   \<and> \<not> (\<not> isTerminated demo_module 0 \<and> \<not> isTerminated demo_module 1)"
proof -
  let ?md = "snd (module_ask ''e'' 1 createModule) :: (nat, nat) rt_module"
  have v: "length (mo_heap ?md) = 1" "\<not> isTerminated ?md 0" "length (mo_heap demo_module) = 2" "mo_stopping (runner_terminates ''entity crashed'' 0 ?md) = None"
    "mo_asks demo_module = [Some (Inl (General ''entity crashed''))]" "in_entity (mo_heap demo_module ! 0) = in_entity (mo_heap demo_module ! 1)" by code_simp+
  have "module_run True ?md" by (rule module_run.asked [OF module_run.created]) code_simp
  then have "module_run True (runner_terminates ''entity crashed'' 0 ?md)"
    by (rule module_run.terminated) (use v(1,2) in simp_all)
  then have "module_run True demo_module" unfolding demo_module_def by (rule module_run.told) (use v(4) in blast)
  from one_live_runner_per_entity [OF this] v(3,6) have "\<not> (\<not> isTerminated demo_module 0 \<and> \<not> isTerminated demo_module 1)"
    by (metis One_nat_def lessI less_2_cases_iff zero_neq_one)
  with v(3,5) show ?thesis by blast
qed

text \<open>
  A command that arrives while a shutdown waits creates a runner that the end of the shutdown forgets but does
  not stop; the next command creates a second one.
\<close>

definition stopping_module :: "(nat, nat) rt_module" where
  "stopping_module = shutdown_begin (module_tell ''x'' 0 createModule)"

definition shutdown_race :: "(nat, nat) rt_module" where
  "shutdown_race = module_tell ''e'' 2 (shutdown_end (runner_terminates ''entity stopped'' 0 (module_tell ''e'' 1 stopping_module)))"

lemma shutdown_race_two_runners:
  "module_run False shutdown_race \<and> \<not> isTerminated shutdown_race 1 \<and> \<not> isTerminated shutdown_race 2
   \<and> in_entity (mo_heap shutdown_race ! 1) = in_entity (mo_heap shutdown_race ! 2)"
proof -
  let ?md1 = "module_tell ''e'' 1 stopping_module"
  let ?md2 = "runner_terminates ''entity stopped'' 0 ?md1"
  have v: "mo_stopping (module_tell ''x'' 0 createModule :: (nat, nat) rt_module) = None" "0 < length (mo_heap ?md1)" "\<not> isTerminated ?md1 0"
    "mo_stopping ?md2 = Some [0]" "isTerminated ?md2 0" by code_simp+
  have "module_run False (module_tell ''x'' 0 createModule :: (nat, nat) rt_module)"
    by (rule module_run.told [OF module_run.created]) simp
  then have "module_run False stopping_module" unfolding stopping_module_def by (rule module_run.stop_begun) (rule v(1))
  then have "module_run False ?md1" by (rule module_run.told) simp
  then have "module_run False ?md2" by (rule module_run.terminated) (rule v(2,3))+
  then have "module_run False (shutdown_end ?md2)" by (rule module_run.stop_ended [OF _ v(4)]) (use v(5) in simp)
  then have "module_run False shutdown_race" unfolding shutdown_race_def by (rule module_run.told) simp
  moreover have "\<not> isTerminated shutdown_race 1 \<and> \<not> isTerminated shutdown_race 2
   \<and> in_entity (mo_heap shutdown_race ! 1) = in_entity (mo_heap shutdown_race ! 2)" by code_simp
  ultimately show ?thesis by blast
qed

section \<open>Routing\<close>

text \<open>A command reaches exactly the module of its category, and an unknown category is refused.\<close>

lemma runtime_tell_routes:
  "(case runtime_tell cat i c rt of
      Inl e \<Rightarrow> js_get rt cat = None \<and> e = JsError (''Category not found: '' @ cat)
    | Inr rt' \<Rightarrow> (\<exists>md. js_get rt cat = Some md \<and> js_get rt' cat = Some (module_tell i c md)) \<and> (\<forall>cat'. cat' \<noteq> cat \<longrightarrow> js_get rt' cat' = js_get rt cat'))"
  by (simp add: runtime_tell_def split: option.splits)

lemma runtime_ask_routes:
  "(case runtime_ask cat i c rt of
      Inl e \<Rightarrow> js_get rt cat = None \<and> e = CategoryNotFound cat
    | Inr (a, rt') \<Rightarrow> (\<exists>md. js_get rt cat = Some md \<and> js_get rt' cat = Some (snd (module_ask i c md)) \<and> a = fst (module_ask i c md))
        \<and> (\<forall>cat'. cat' \<noteq> cat \<longrightarrow> js_get rt' cat' = js_get rt cat'))"
  by (simp add: runtime_ask_def split: option.splits prod.splits)

end
