(* ===== verification/InMem_Journal.thy ===== *)
theory InMem_Journal
  imports Journal "HOL-Library.Multiset"
begin

text \<open>
  \<open>inmem/journal.ts\<close>: the in-memory journal. Its maps are association lists in insertion
  order, its live subscribers a map from a subscriber's identity to the category it
  follows and its queue. It is an implementation of \<open>journal_contract\<close>; its global
  sequence numbers identify events.
\<close>

section \<open>State\<close>

record 'd stored_event =
  se_globalSeq :: nat
  se_sequenceNr :: nat
  se_manifest :: string
  se_data :: 'd
  se_envelope :: "envelope option"

record 'd live_record =
  lr_globalSeq :: nat
  lr_category :: string
  lr_entityId :: string
  lr_stored :: "'d stored_event"

record 'd stored_snapshot =
  ss_sequenceNr :: nat
  ss_manifest :: string
  ss_data :: 'd

record 'd inmem =
  im_events :: "(string, 'd stored_event list) jsmap"
  im_snapshots :: "(string, 'd stored_snapshot) jsmap"
  im_globalSeq :: nat
  im_listeners :: "(nat, string \<times> 'd live_record list) jsmap"

definition createInMemoryJournal :: "'d inmem" where
  "createInMemoryJournal = \<lparr>im_events = [], im_snapshots = [], im_globalSeq = 0, im_listeners = []\<rparr>"

definition events_at :: "'d inmem \<Rightarrow> string \<Rightarrow> 'd stored_event list" where
  "events_at j key = (case js_get (im_events j) key of None \<Rightarrow> [] | Some es \<Rightarrow> es)"

section \<open>Writing events\<close>

definition to_stored ::
  "nat \<Rightarrow> nat \<Rightarrow> ('e, 'd) codec \<Rightarrow> envelope list option \<Rightarrow> 'e list \<Rightarrow> 'd stored_event list" where
  "to_stored g start codec envelopes es =
     map (\<lambda>(idx, event). \<lparr>se_globalSeq = g + idx + 1, se_sequenceNr = start + idx + 1,
           se_manifest = manifest codec event, se_data = encode codec event,
           se_envelope = envelope_at envelopes idx\<rparr>)
       (zip [0 ..< length es] es)"

text \<open>A subscriber's closure keeps a record only when it is of its category.\<close>

definition notify :: "'d live_record \<Rightarrow> (nat, string \<times> 'd live_record list) jsmap \<Rightarrow>
    (nat, string \<times> 'd live_record list) jsmap" where
  "notify r ls = map (\<lambda>(i, cat, q). (i, cat, if lr_category r = cat then q @ [r] else q)) ls"

definition im_persistEvents ::
  "'d inmem \<Rightarrow> string \<Rightarrow> string \<Rightarrow> 'e list \<Rightarrow> nat \<Rightarrow> ('e, 'd) codec \<Rightarrow> envelope list option \<Rightarrow>
   js_error + nat \<times> 'd inmem" where
  "im_persistEvents j categoryId entityId newEvents start codec envelopes =
     (if newEvents = [] then Inr (start, j)
      else
        let key = persistenceKey categoryId entityId;
            existing = events_at j key;
            stored = to_stored (im_globalSeq j) start codec envelopes newEvents;
            taken = set (map se_sequenceNr existing)
        in (case List.find (\<lambda>s. se_sequenceNr s \<in> taken) stored of
              Some duplicate \<Rightarrow> Inl (DuplicateSequenceNrError categoryId entityId (se_sequenceNr duplicate))
            | None \<Rightarrow>
                Inr (start + length newEvents,
                     j\<lparr>im_globalSeq := im_globalSeq j + length stored,
                       im_events := js_set key (existing @ stored) (im_events j),
                       im_listeners :=
                         fold (\<lambda>s. notify \<lparr>lr_globalSeq = se_globalSeq s, lr_category = categoryId,
                                            lr_entityId = entityId, lr_stored = s\<rparr>)
                           stored (im_listeners j)\<rparr>)))"

section \<open>Reading\<close>

definition im_loadEvents ::
  "'d inmem \<Rightarrow> string \<Rightarrow> string \<Rightarrow> nat \<Rightarrow> ('e, 'd) codec \<Rightarrow> js_error + (nat \<times> 'e) list" where
  "im_loadEvents j categoryId entityId fromSequenceNr codec =
     decode_log codec
       (map (\<lambda>e. (se_sequenceNr e, se_manifest e, se_data e))
         (filter (\<lambda>e. fromSequenceNr < se_sequenceNr e) (events_at j (persistenceKey categoryId entityId))))"

definition im_persistSnapshot ::
  "'d inmem \<Rightarrow> string \<Rightarrow> string \<Rightarrow> 's \<Rightarrow> nat \<Rightarrow> ('s, 'd) codec \<Rightarrow> js_error + 'd inmem" where
  "im_persistSnapshot j categoryId entityId s sequenceNr codec =
     Inr (j\<lparr>im_snapshots := js_set (persistenceKey categoryId entityId)
        \<lparr>ss_sequenceNr = sequenceNr, ss_manifest = manifest codec s, ss_data = encode codec s\<rparr>
        (im_snapshots j)\<rparr>)"

definition im_loadSnapshot ::
  "'d inmem \<Rightarrow> string \<Rightarrow> string \<Rightarrow> ('s, 'd) codec \<Rightarrow> js_error + (nat \<times> 's) option" where
  "im_loadSnapshot j categoryId entityId codec =
     (case js_get (im_snapshots j) (persistenceKey categoryId entityId) of
        None \<Rightarrow> Inr None
      | Some snap \<Rightarrow>
          (case decode codec (ss_manifest snap) (ss_data snap) of
             Inl e \<Rightarrow> Inl (SnapshotDecodeError categoryId entityId e)
           | Inr s \<Rightarrow> Inr (Some (ss_sequenceNr snap, s))))"

text \<open>
  \<open>key.startsWith(prefix)\<close> and \<open>key.slice(prefix.length)\<close> on every key in insertion order:
  the stored events of a category with their entity.
\<close>

definition category_backlog :: "'d inmem \<Rightarrow> string \<Rightarrow> (string \<times> 'd stored_event) list" where
  "category_backlog j categoryId =
     (let prefix = categoryId @ '':'' in
      concat (map (\<lambda>(key, stored).
          if take (length prefix) key = prefix
          then map (\<lambda>e. (drop (length prefix) key, e)) stored else [])
        (im_events j)))"

fun decode_entity_log :: "('e, 'd) codec \<Rightarrow> (string \<times> 'd stored_event) list \<Rightarrow>
    js_error + (string \<times> nat \<times> 'e) list" where
  "decode_entity_log codec [] = Inr []"
| "decode_entity_log codec ((entityId, e) # xs) =
     (case decode codec (se_manifest e) (se_data e) of
        Inl err \<Rightarrow> Inl err
      | Inr a \<Rightarrow> (case decode_entity_log codec xs of
                   Inl err \<Rightarrow> Inl err
                 | Inr as \<Rightarrow> Inr ((entityId, se_sequenceNr e, a) # as)))"

definition im_allEvents :: "'d inmem \<Rightarrow> string \<Rightarrow> ('e, 'd) codec \<Rightarrow> js_error + (string \<times> nat \<times> 'e) list" where
  "im_allEvents j categoryId codec = decode_entity_log codec (category_backlog j categoryId)"

definition inmem_journal :: "('d inmem, 'e, 's, 'd) journal" where
  "inmem_journal = \<lparr>persistEvents = im_persistEvents, loadEvents = im_loadEvents,
     persistSnapshot = im_persistSnapshot, loadSnapshot = im_loadSnapshot\<rparr>"

section \<open>The abstract log it holds\<close>

definition im_log :: "'d inmem \<Rightarrow> string \<Rightarrow> 'd log_entry list" where
  "im_log j key = map (\<lambda>e. (se_sequenceNr e, se_manifest e, se_data e)) (events_at j key)"

definition im_snap :: "'d inmem \<Rightarrow> string \<Rightarrow> (nat \<times> string \<times> 'd) option" where
  "im_snap j key =
     map_option (\<lambda>s. (ss_sequenceNr s, ss_manifest s, ss_data s)) (js_get (im_snapshots j) key)"

text \<open>The invariant: keys are distinct, and global numbers identify the stored events.\<close>

definition all_stored :: "'d inmem \<Rightarrow> 'd stored_event list" where
  "all_stored j = concat (js_values (im_events j))"

definition im_inv :: "'d inmem \<Rightarrow> bool" where
  "im_inv j \<longleftrightarrow> js_wf (im_events j) \<and> distinct (map se_globalSeq (all_stored j))
     \<and> (\<forall>e \<in> set (all_stored j). 0 < se_globalSeq e \<and> se_globalSeq e \<le> im_globalSeq j)"

lemma to_stored_Nil [simp]: "to_stored g n codec envs [] = []"
  by (simp add: to_stored_def)

lemma length_to_stored [simp]: "length (to_stored g n codec envs es) = length es"
  by (simp add: to_stored_def)

lemma to_stored_log:
  "map (\<lambda>e. (se_sequenceNr e, se_manifest e, se_data e)) (to_stored g n codec envs es) = log_entries codec n es"
  by (simp add: to_stored_def log_entries_def case_prod_unfold comp_def)

lemma to_stored_globalSeq: "map se_globalSeq (to_stored g n codec envs es) = [Suc g ..< Suc g + length es]"
proof -
  have "map se_globalSeq (to_stored g n codec envs es) = map (\<lambda>(i, e). Suc (g + i)) (zip [0 ..< length es] es)"
    by (simp add: to_stored_def comp_def case_prod_unfold)
  then show ?thesis by (simp only: map_zip_index map_upt_shift)
qed

lemma to_stored_sequenceNr: "map se_sequenceNr (to_stored g n codec envs es) = [Suc n ..< Suc n + length es]"
proof -
  have "map se_sequenceNr (to_stored g n codec envs es) = map (\<lambda>(i, e). Suc (n + i)) (zip [0 ..< length es] es)"
    by (simp add: to_stored_def comp_def case_prod_unfold)
  then show ?thesis by (simp only: map_zip_index map_upt_shift)
qed

lemma set_to_stored_sequenceNr:
  "se_sequenceNr ` set (to_stored g n codec envs es) = {Suc n ..< Suc n + length es}"
  using arg_cong [OF to_stored_sequenceNr, of set g n codec envs es] by (simp del: upt_Suc)

lemma im_log_taken: "fst ` set (im_log j key) = set (map se_sequenceNr (events_at j key))"
  by (force simp: im_log_def)

lemma events_at_set [simp]:
  "events_at (j\<lparr>im_globalSeq := g, im_events := js_set key es (im_events j), im_listeners := ls\<rparr>) =
   (events_at j)(key := es)"
  by (auto simp: events_at_def fun_eq_iff)

lemma im_persist_Inl:
  assumes "im_persistEvents j c e es start codec envs = Inl err"
  shows "\<exists>m. err = DuplicateSequenceNrError c e m \<and> m \<in> fst ` set (im_log j (persistenceKey c e))
     \<and> start < m \<and> m \<le> start + length es"
proof -
  let ?st = "to_stored (im_globalSeq j) start codec envs es"
  from assms obtain d where d: "List.find (\<lambda>s. se_sequenceNr s \<in> set (map se_sequenceNr
        (events_at j (persistenceKey c e)))) ?st = Some d"
    and err: "err = DuplicateSequenceNrError c e (se_sequenceNr d)"
    by (auto simp: im_persistEvents_def Let_def split: if_splits option.splits)
  from d have "d \<in> set ?st" "se_sequenceNr d \<in> fst ` set (im_log j (persistenceKey c e))"
    unfolding im_log_taken by (auto simp: find_Some_iff)
  then have "se_sequenceNr d \<in> {Suc start ..< Suc start + length es}"
    using set_to_stored_sequenceNr by blast
  with err \<open>se_sequenceNr d \<in> fst ` _\<close> show ?thesis by auto
qed

lemma im_persist_no_collision:
  assumes "\<And>m. m \<in> fst ` set (im_log j (persistenceKey c e)) \<Longrightarrow> m \<le> start \<or> start + length es < m"
  shows "\<exists>j'. im_persistEvents j c e es start codec envs = Inr (start + length es, j')"
proof (cases "im_persistEvents j c e es start codec envs")
  case (Inl err)
  with im_persist_Inl [OF this] assms show ?thesis by (meson not_le)
next
  case (Inr r)
  then show ?thesis by (auto simp: im_persistEvents_def Let_def split: if_splits option.splits)
qed

lemma im_persist_collision:
  assumes "start < m" "m \<le> start + length es" "m \<in> fst ` set (im_log j (persistenceKey c e))"
  shows "\<exists>err. im_persistEvents j c e es start codec envs = Inl err"
proof -
  let ?st = "to_stored (im_globalSeq j) start codec envs es"
  from assms(1,2) have "es \<noteq> []" by auto
  have "m \<in> se_sequenceNr ` set ?st" using assms(1,2) by (auto simp: set_to_stored_sequenceNr)
  with assms(3) have "\<exists>s \<in> set ?st. se_sequenceNr s \<in> set (map se_sequenceNr (events_at j (persistenceKey c e)))"
    unfolding im_log_taken by blast
  then obtain d where "List.find (\<lambda>s. se_sequenceNr s \<in> set (map se_sequenceNr (events_at j (persistenceKey c e)))) ?st = Some d"
    by (metis find_None_iff not_None_eq)
  with \<open>es \<noteq> []\<close> show ?thesis by (simp add: im_persistEvents_def Let_def)
qed

text \<open>What a successful write did, in one fact.\<close>

lemma im_persist_Inr:
  assumes "im_persistEvents j c e es start codec envs = Inr (n, j')"
  defines "key \<equiv> persistenceKey c e"
  shows "n = start + length es"
    and "events_at j' = (events_at j)(key := events_at j key @ to_stored (im_globalSeq j) start codec envs es)"
    and "im_globalSeq j' = im_globalSeq j + length es"
    and "im_snapshots j' = im_snapshots j"
    and "im_events j' = (if es = [] then im_events j
           else js_set key (events_at j key @ to_stored (im_globalSeq j) start codec envs es) (im_events j))"
  using assms by (auto simp: im_persistEvents_def Let_def key_def split: if_splits option.splits)

lemma mset_concat_js_set:
  "js_wf m \<Longrightarrow> mset (concat (js_values (js_set k v m))) +
     mset (case js_get m k of None \<Rightarrow> [] | Some old \<Rightarrow> old) = mset (concat (js_values m)) + mset v"
proof (induction m)
  case (Cons x m)
  have "js_get m (fst x) = None" using Cons.prems by (cases x) (auto simp: js_wf_def map_of_eq_None_iff)
  moreover have "js_wf m" using Cons.prems by (simp add: js_wf_def)
  moreover obtain k' v' where "x = (k', v')" by (cases x)
  ultimately show ?case using Cons.IH by (auto simp: union_assoc)
qed simp

lemma im_inv_persist:
  assumes "im_inv j" "im_persistEvents j c e es start codec envs = Inr (n, j')"
  shows "im_inv j'"
proof (cases "es = []")
  case True
  with assms show ?thesis by (simp add: im_persistEvents_def)
next
  case False
  let ?key = "persistenceKey c e" and ?st = "to_stored (im_globalSeq j) start codec envs es"
  note w = im_persist_Inr [OF assms(2)]
  have wf: "js_wf (im_events j)" using assms(1) by (simp add: im_inv_def)
  have "mset (all_stored j') + mset (events_at j ?key) = mset (all_stored j) + mset (events_at j ?key @ ?st)"
    using mset_concat_js_set [OF wf, of ?key "events_at j ?key @ ?st"] False w(5)
    by (simp add: all_stored_def events_at_def)
  then have ms: "mset (all_stored j') = mset (all_stored j @ ?st)" by simp
  have sets: "set (all_stored j') = set (all_stored j) \<union> set ?st"
    using arg_cong [OF ms, of set_mset] by simp
  have "mset (map se_globalSeq (all_stored j')) = mset (map se_globalSeq (all_stored j @ ?st))"
    using ms by simp
  then have dist: "distinct (map se_globalSeq (all_stored j')) = distinct (map se_globalSeq (all_stored j @ ?st))"
    by (rule mset_eq_imp_distinct_iff)
  have st: "se_globalSeq ` set ?st = {Suc (im_globalSeq j) ..< Suc (im_globalSeq j) + length es}"
    using arg_cong [OF to_stored_globalSeq, of set "im_globalSeq j" start codec envs es] by (simp del: upt_Suc)
  have bound: "Suc (im_globalSeq j) \<le> se_globalSeq x \<and> se_globalSeq x \<le> im_globalSeq j + length es"
    if "x \<in> set ?st" for x
    using that st by (metis atLeastLessThan_iff imageI less_Suc_eq_le add_Suc)
  have "distinct (map se_globalSeq ?st)"
    unfolding to_stored_globalSeq by (rule distinct_upt)
  moreover have "se_globalSeq ` set (all_stored j) \<inter> se_globalSeq ` set ?st = {}"
    using assms(1) bound by (fastforce simp: im_inv_def)
  ultimately have "distinct (map se_globalSeq (all_stored j'))"
    using assms(1) by (simp add: dist im_inv_def)
  moreover have "0 < se_globalSeq x \<and> se_globalSeq x \<le> im_globalSeq j'" if "x \<in> set (all_stored j')" for x
    using that assms(1) bound w(3) by (fastforce simp: im_inv_def sets)
  moreover have "js_wf (im_events j')" using wf w(5) by simp
  ultimately show ?thesis by (simp add: im_inv_def)
qed

lemma im_log_create [simp]: "im_log createInMemoryJournal key = []"
  by (simp add: im_log_def events_at_def createInMemoryJournal_def)

lemma im_snap_create [simp]: "im_snap createInMemoryJournal key = None"
  by (simp add: im_snap_def createInMemoryJournal_def)

lemma im_inv_create: "im_inv createInMemoryJournal"
  by (simp add: im_inv_def createInMemoryJournal_def all_stored_def)

interpretation inmem: journal_contract inmem_journal im_inv im_log im_snap
proof
  fix j :: "'d inmem" and c e :: string and es :: "'e list" and start n :: nat
    and codec :: "('e, 'd) codec" and envs j'
  assume inv: "im_inv j" and r: "persistEvents inmem_journal j c e es start codec envs = Inr (n, j')"
  then have r': "im_persistEvents j c e es start codec envs = Inr (n, j')" by (simp add: inmem_journal_def)
  show "n = start + length es \<and> im_inv j' \<and>
       im_log j' = (im_log j)(persistenceKey c e := im_log j (persistenceKey c e) @ log_entries codec start es) \<and>
       im_snap j' = im_snap j"
    using im_persist_Inr [OF r'] im_inv_persist [OF inv r']
    by (auto simp: im_log_def im_snap_def fun_eq_iff to_stored_log)
next
  fix j :: "'d inmem" and c e :: string and es :: "'e list" and start m :: nat
    and codec :: "('e, 'd) codec" and envs
  assume "start < m" "m \<le> start + length es" "m \<in> fst ` set (im_log j (persistenceKey c e))"
  then show "\<exists>err. persistEvents inmem_journal j c e es start codec envs = Inl err"
    using im_persist_collision by (simp add: inmem_journal_def)
next
  fix j :: "'d inmem" and c e :: string and k :: nat and codec :: "('e, 'd) codec"
  show "loadEvents inmem_journal j c e k codec =
       decode_log codec (filter (\<lambda>x. k < fst x) (im_log j (persistenceKey c e)))"
    by (simp add: inmem_journal_def im_loadEvents_def im_log_def filter_map comp_def)
next
  fix j :: "'d inmem" and c e :: string and s :: 's and n :: nat and sc :: "('s, 'd) codec" and j'
  assume "im_inv j" "persistSnapshot inmem_journal j c e s n sc = Inr j'"
  then show "im_inv j' \<and> im_log j' = im_log j \<and>
       im_snap j' = (im_snap j)(persistenceKey c e := Some (n, manifest sc s, encode sc s))"
    by (auto simp: inmem_journal_def im_persistSnapshot_def im_inv_def all_stored_def im_log_def
        im_snap_def events_at_def fun_eq_iff)
next
  fix j :: "'d inmem" and c e :: string and sc :: "('s, 'd) codec"
  show "loadSnapshot inmem_journal j c e sc =
       (case im_snap j (persistenceKey c e) of
          None \<Rightarrow> Inr None
        | Some (n, m, d) \<Rightarrow>
            (case decode sc m d of
               Inl err \<Rightarrow> Inl (SnapshotDecodeError c e err)
             | Inr s \<Rightarrow> Inr (Some (n, s))))"
    by (auto simp: inmem_journal_def im_loadSnapshot_def im_snap_def split: option.splits sum.splits)
qed


section \<open>Properties\<close>

lemma find_first_collision:
  assumes "List.find (\<lambda>s. se_sequenceNr s \<in> T) (to_stored g n codec envs es) = Some d"
  shows "\<forall>m. n < m \<longrightarrow> m < se_sequenceNr d \<longrightarrow> m \<notin> T"
proof (intro allI impI)
  fix m assume m: "n < m" "m < se_sequenceNr d"
  let ?st = "to_stored g n codec envs es"
  from assms obtain i where i: "i < length ?st" "d = ?st ! i" "\<forall>k<i. se_sequenceNr (?st ! k) \<notin> T"
    by (auto simp: find_Some_iff)
  have nth: "se_sequenceNr (?st ! k) = Suc n + k" if "k < length ?st" for k
    using that arg_cong [OF to_stored_sequenceNr, of "\<lambda>xs. xs ! k" g n codec envs es]
    by (simp add: nth_map del: upt_Suc)
  from m i nth have "m - Suc n < i" "Suc n + (m - Suc n) = m" by auto
  with i nth show "m \<notin> T" by (metis less_trans)
qed

text \<open>
  C10. \<open>persistEvents\<close> of the in-memory journal is all or nothing. It throws exactly when some
  event of the batch would reuse a stored number, and then names the lowest such number;
  otherwise it returns the last number written, the entity's log is the old log followed by
  the encoded batch numbered from the start, and every other log and every snapshot is as
  before.
\<close>

theorem im_persist_all_or_nothing:
  "case im_persistEvents j c e es start codec envs of
     Inl err \<Rightarrow> (\<exists>m. err = DuplicateSequenceNrError c e m \<and> start < m \<and> m \<le> start + length es
        \<and> m \<in> fst ` set (im_log j (persistenceKey c e))
        \<and> (\<forall>k. start < k \<longrightarrow> k < m \<longrightarrow> k \<notin> fst ` set (im_log j (persistenceKey c e))))
   | Inr (n, j') \<Rightarrow> n = start + length es
        \<and> {start <.. start + length es} \<inter> fst ` set (im_log j (persistenceKey c e)) = {}
        \<and> im_log j' = (im_log j)(persistenceKey c e := im_log j (persistenceKey c e) @ log_entries codec start es)
        \<and> im_snap j' = im_snap j"
proof (cases "im_persistEvents j c e es start codec envs")
  case (Inl err)
  then obtain d where d: "List.find (\<lambda>s. se_sequenceNr s \<in> set (map se_sequenceNr
        (events_at j (persistenceKey c e)))) (to_stored (im_globalSeq j) start codec envs es) = Some d"
    and err: "err = DuplicateSequenceNrError c e (se_sequenceNr d)"
    by (auto simp: im_persistEvents_def Let_def split: if_splits option.splits)
  from find_first_collision [OF d] im_persist_Inl [OF Inl] err Inl show ?thesis
    by (auto simp: im_log_taken)
next
  case (Inr r)
  obtain n j' where r: "r = (n, j')" by (cases r)
  note p = im_persist_Inr [OF Inr [unfolded r]]
  have "{start <.. start + length es} \<inter> fst ` set (im_log j (persistenceKey c e)) = {}"
  proof (rule equals0I)
    fix m
    assume "m \<in> {start <.. start + length es} \<inter> fst ` set (im_log j (persistenceKey c e))"
    then have "start < m" "m \<le> start + length es" "m \<in> fst ` set (im_log j (persistenceKey c e))"
      by simp_all
    from im_persist_collision [OF this, of codec envs] Inr show False by simp
  qed
  then show ?thesis
    using p by (auto simp: Inr r im_log_def im_snap_def to_stored_log fun_eq_iff)
qed

theorem im_persist_all_or_nothing_witness:
  "case im_persistEvents (createInMemoryJournal :: int inmem) ''c'' ''e'' [5, 6] 3 (objectCodec ''M'') None of
     Inl err \<Rightarrow> False
   | Inr (n, j) \<Rightarrow> n = 5 \<and> im_log j ''c:e'' = [(4, ''M'', 5), (5, ''M'', 6)]"
  using im_persist_all_or_nothing [where j = "createInMemoryJournal :: int inmem" and c = "''c''"
      and e = "''e''" and es = "[5, 6]" and start = 3 and codec = "objectCodec ''M''" and envs = None]
  by (auto simp: persistenceKey_def objectCodec_def split: sum.splits)

text \<open>Everything that changes an in-memory journal.\<close>

inductive im_step :: "'d inmem \<Rightarrow> 'd inmem \<Rightarrow> bool" where
  wrote: "im_persistEvents j c e es start (codec :: ('d, 'd) codec) envs = Inr (n, j') \<Longrightarrow> im_step j j'"
| snapshotted: "im_persistSnapshot j c e s n (codec :: ('d, 'd) codec) = Inr j' \<Longrightarrow> im_step j j'"
| listened: "im_step j (j\<lparr>im_listeners := ls\<rparr>)"

inductive im_reachable :: "'d inmem \<Rightarrow> bool" where
  created: "im_reachable createInMemoryJournal"
| stepped: "im_reachable j \<Longrightarrow> im_step j j' \<Longrightarrow> im_reachable j'"

lemma im_step_inv: "im_step j j' \<Longrightarrow> im_inv j \<Longrightarrow> im_inv j'"
proof (induction rule: im_step.induct)
  case (wrote j c e es start codec envs n j')
  then show ?case by (blast intro: im_inv_persist)
qed (auto simp: im_persistSnapshot_def im_inv_def all_stored_def)

lemma im_reachable_inv: "im_reachable j \<Longrightarrow> im_inv j"
  by (induction rule: im_reachable.induct) (auto intro: im_inv_create im_step_inv)


text \<open>
  The global sequence number is a cursor: in every journal that writes, snapshots and
  subscriptions can produce, two stored events never share a global number, all numbers
  lie between 1 and the counter, and a further write numbers its events just above the
  counter, in the order of the batch.
\<close>

lemma im_global_cursor:
  assumes "im_reachable j"
  shows "distinct (map se_globalSeq (all_stored j))
    \<and> (\<forall>x \<in> set (all_stored j). 1 \<le> se_globalSeq x \<and> se_globalSeq x \<le> im_globalSeq j)
    \<and> (\<forall>c e es start codec envs n j'. im_persistEvents j c e es start codec envs = Inr (n, j') \<longrightarrow>
         map se_globalSeq (events_at j' (persistenceKey c e)) =
           map se_globalSeq (events_at j (persistenceKey c e))
             @ [Suc (im_globalSeq j) ..< Suc (im_globalSeq j) + length es]
         \<and> im_globalSeq j' = im_globalSeq j + length es)"
proof (intro conjI allI impI)
  from im_reachable_inv [OF assms] show "distinct (map se_globalSeq (all_stored j))"
    and "\<forall>x \<in> set (all_stored j). 1 \<le> se_globalSeq x \<and> se_globalSeq x \<le> im_globalSeq j"
    by (auto simp: im_inv_def Suc_le_eq)
  fix c e es start codec envs n j'
  assume "im_persistEvents j c e es start codec envs = Inr (n, j')"
  note p = im_persist_Inr [OF this]
  show "map se_globalSeq (events_at j' (persistenceKey c e)) =
           map se_globalSeq (events_at j (persistenceKey c e))
             @ [Suc (im_globalSeq j) ..< Suc (im_globalSeq j) + length es]"
    and "im_globalSeq j' = im_globalSeq j + length es"
    using p(2,3) by (simp_all add: to_stored_globalSeq del: upt_Suc)
qed

lemma im_global_cursor_example:
  "\<exists>j :: int inmem. im_reachable j \<and> distinct (map se_globalSeq (all_stored j)) \<and> map se_data (all_stored j) = [5, 6]"
proof -
  have start: "im_reachable (createInMemoryJournal :: int inmem)" by (rule im_reachable.created)
  obtain n j where w: "im_persistEvents (createInMemoryJournal :: int inmem) ''c'' ''e'' [5, 6] 0 (objectCodec ''M'') None = Inr (n, j)"
    and d: "map se_data (all_stored j) = [5, 6]"
    by (simp add: im_persistEvents_def createInMemoryJournal_def to_stored_def events_at_def all_stored_def
        objectCodec_def envelope_at_def persistenceKey_def Let_def)
  have "im_reachable j" by (rule im_reachable.stepped [OF start im_step.wrote [OF w]])
  note r = this conjunct1 [OF im_global_cursor [OF this]]
  show ?thesis by (intro exI [of _ j] conjI r d)
qed

end
