(* ===== verification/InMem_Tail.thy ===== *)
theory InMem_Tail
  imports InMem_Journal
begin

text \<open>
  \<open>tailAllEvents\<close> of \<open>inmem/journal.ts\<close>: a live tail of a category. The generator is an
  explicit state; \<open>tail_open\<close> is its prologue (subscribe, then take the backlog), \<open>tail_pull\<close>
  runs it from one suspension point to the next: a \<open>yield\<close>, the wait for a wake-up, or its
  return. The first call of \<open>next()\<close> is \<open>tail_open\<close> followed by a pull. The main result is
  that under the runner's write discipline a tail loses and repeats nothing, however
  writes and pulls interleave.
\<close>

section \<open>The generator\<close>

record 'd tail =
  tl_id :: nat
  tl_category :: string
  tl_after :: nat
  tl_backlog :: "(string \<times> 'd stored_event) list"
  tl_emitted :: "(string, nat) jsmap"
  tl_resumed :: bool
  tl_closed :: bool

datatype 'e pull = Yielded "'e category_event" | Waiting | Finished | Threw js_error

definition emitted_of :: "(string, nat) jsmap \<Rightarrow> string \<Rightarrow> nat" where
  "emitted_of em ent = (case js_get em ent of None \<Rightarrow> 0 | Some n \<Rightarrow> n)"

definition tail_open :: "nat \<Rightarrow> string \<Rightarrow> nat \<Rightarrow> 'd inmem \<Rightarrow> 'd tail \<times> 'd inmem" where
  "tail_open i categoryId after j =
     (\<lparr>tl_id = i, tl_category = categoryId, tl_after = after,
       tl_backlog = category_backlog j categoryId, tl_emitted = [], tl_resumed = False, tl_closed = False\<rparr>,
      j\<lparr>im_listeners := js_set i (categoryId, []) (im_listeners j)\<rparr>)"

definition toRecord :: "string \<Rightarrow> ('e, 'd) codec \<Rightarrow> string \<Rightarrow> 'd stored_event \<Rightarrow> js_error + 'e category_event" where
  "toRecord categoryId codec entityId s =
     (case decode codec (se_manifest s) (se_data s) of
        Inl e \<Rightarrow> Inl e
      | Inr a \<Rightarrow> Inr \<lparr>ce_globalSeq = se_globalSeq s, ce_category = categoryId, ce_entityId = entityId,
                      ce_sequenceNr = se_sequenceNr s, ce_event = a, ce_envelope = se_envelope s\<rparr>)"

text \<open>The backlog loop up to its next \<open>yield\<close>: the entry found, the marks, the rest.\<close>

fun backlog_next :: "nat \<Rightarrow> (string, nat) jsmap \<Rightarrow> (string \<times> 'd stored_event) list \<Rightarrow>
    (string \<times> 'd stored_event) option \<times> (string, nat) jsmap \<times> (string \<times> 'd stored_event) list" where
  "backlog_next after em [] = (None, em, [])"
| "backlog_next after em ((entityId, s) # rest) =
     (let em' = js_set entityId (max (emitted_of em entityId) (se_sequenceNr s)) em
      in if se_globalSeq s \<le> after then backlog_next after em' rest
         else (Some (entityId, s), em', rest))"

text \<open>The inner loop of the live phase up to its next \<open>yield\<close>.\<close>

fun live_next :: "nat \<Rightarrow> (string, nat) jsmap \<Rightarrow> 'd live_record list \<Rightarrow>
    (string \<times> 'd stored_event) option \<times> (string, nat) jsmap \<times> 'd live_record list" where
  "live_next after em [] = (None, em, [])"
| "live_next after em (r # queue) =
     (if se_sequenceNr (lr_stored r) \<le> emitted_of em (lr_entityId r) then live_next after em queue
      else let em' = js_set (lr_entityId r) (se_sequenceNr (lr_stored r)) em
           in if lr_globalSeq r \<le> after then live_next after em' queue
              else (Some (lr_entityId r, lr_stored r), em', queue))"

definition tail_queue :: "'d inmem \<Rightarrow> nat \<Rightarrow> 'd live_record list" where
  "tail_queue j i = (case js_get (im_listeners j) i of None \<Rightarrow> [] | Some (_, q) \<Rightarrow> q)"

text \<open>The \<open>finally\<close> block.\<close>

definition tail_close :: "'d tail \<Rightarrow> 'd inmem \<Rightarrow> 'd tail \<times> 'd inmem" where
  "tail_close t j = (t\<lparr>tl_closed := True\<rparr>, j\<lparr>im_listeners := js_delete (tl_id t) (im_listeners j)\<rparr>)"

definition tail_emit :: "('e, 'd) codec \<Rightarrow> string \<times> 'd stored_event \<Rightarrow> 'd tail \<Rightarrow> 'd inmem \<Rightarrow>
    'e pull \<times> 'd tail \<times> 'd inmem" where
  "tail_emit codec x t j =
     (case toRecord (tl_category t) codec (fst x) (snd x) of
        Inl e \<Rightarrow> (Threw e, tail_close t j)
      | Inr rec \<Rightarrow> (Yielded rec, t\<lparr>tl_resumed := True\<rparr>, j))"

definition tail_pull :: "('e, 'd) codec \<Rightarrow> bool \<Rightarrow> 'd tail \<Rightarrow> 'd inmem \<Rightarrow> 'e pull \<times> 'd tail \<times> 'd inmem" where
  "tail_pull codec aborted t j =
     (if tl_closed t then (Finished, t, j)
      else if tl_resumed t \<and> aborted then (Finished, tail_close t j)
      else case backlog_next (tl_after t) (tl_emitted t) (tl_backlog t) of
             (Some x, em, rest) \<Rightarrow> tail_emit codec x (t\<lparr>tl_backlog := rest, tl_emitted := em\<rparr>) j
           | (None, em, rest) \<Rightarrow>
               (let t1 = t\<lparr>tl_backlog := rest, tl_emitted := em\<rparr>
                in if aborted then (Finished, tail_close t1 j)
                   else case live_next (tl_after t) em (tail_queue j (tl_id t)) of
                          (found, em', q) \<Rightarrow>
                            (let t2 = t1\<lparr>tl_emitted := em'\<rparr>;
                                 j2 = j\<lparr>im_listeners := js_set (tl_id t) (tl_category t, q) (im_listeners j)\<rparr>
                             in case found of
                                  Some x \<Rightarrow> tail_emit codec x t2 j2
                                | None \<Rightarrow> (Waiting, t2\<lparr>tl_resumed := False\<rparr>, j2))))"

section \<open>Interleavings of writes and pulls\<close>

text \<open>
  One tail of one category, and everything that happens to the journal meanwhile. A write
  starts at or above every number already stored for its entity: what every entity runner
  does. The list collects what the consumer was given.
\<close>

inductive tail_run :: "('e, 'd) codec \<Rightarrow> string \<Rightarrow> nat \<Rightarrow> 'd inmem \<Rightarrow> 'd tail \<Rightarrow> 'e category_event list \<Rightarrow> bool"
  for codec :: "('e, 'd) codec" and cat :: string and after :: nat where
  opened: "colon_free cat \<Longrightarrow> im_inv j \<Longrightarrow> tail_open i cat after j = (t, j') \<Longrightarrow> tail_run codec cat after j' t []"
| wrote: "tail_run codec cat after j t D \<Longrightarrow> colon_free c \<Longrightarrow>
     (\<forall>n \<in> fst ` set (im_log j (persistenceKey c e)). n \<le> start) \<Longrightarrow>
     im_persistEvents j c e (es :: 'e list) start wcodec envs = Inr (n, j') \<Longrightarrow> tail_run codec cat after j' t D"
| yielded: "tail_run codec cat after j t D \<Longrightarrow>
     tail_pull codec aborted t j = (Yielded rec, t', j') \<Longrightarrow> tail_run codec cat after j' t' (D @ [rec])"
| idled: "tail_run codec cat after j t D \<Longrightarrow>
     tail_pull codec aborted t j = (Waiting, t', j') \<Longrightarrow> tail_run codec cat after j' t' D"

section \<open>The accounting invariant\<close>

definition ev_key :: "string \<times> 'd stored_event \<Rightarrow> string \<times> nat \<times> nat" where
  "ev_key x = (fst x, se_sequenceNr (snd x), se_globalSeq (snd x))"

definition rec_key :: "'e category_event \<Rightarrow> string \<times> nat \<times> nat" where
  "rec_key r = (ce_entityId r, ce_sequenceNr r, ce_globalSeq r)"

abbreviation later :: "nat \<Rightarrow> (string \<times> 'd stored_event) list \<Rightarrow> (string \<times> nat \<times> nat) multiset" where
  "later after xs \<equiv> mset (map ev_key (filter (\<lambda>x. after < se_globalSeq (snd x)) xs))"

abbreviation queued :: "'d live_record list \<Rightarrow> (string \<times> 'd stored_event) list" where
  "queued q \<equiv> map (\<lambda>r. (lr_entityId r, lr_stored r)) q"

text \<open>
  \<open>pending em bl q\<close>: for every entity the marks, the backlog and the queue are in this order,
  and the queue ascends, so the overlap filter of the live phase drops nothing.
\<close>

definition above :: "(string, nat) jsmap \<Rightarrow> (string \<times> 'd stored_event) list \<Rightarrow> string \<times> 'd stored_event \<Rightarrow> bool" where
  "above em bl x \<longleftrightarrow> emitted_of em (fst x) < se_sequenceNr (snd x)
     \<and> (\<forall>b \<in> set bl. fst b = fst x \<longrightarrow> se_sequenceNr (snd b) < se_sequenceNr (snd x))"

definition ascending :: "(string \<times> 'd stored_event) list \<Rightarrow> bool" where
  "ascending = sorted_wrt (\<lambda>a b. fst a = fst b \<longrightarrow> se_sequenceNr (snd a) < se_sequenceNr (snd b))"

definition tail_inv :: "string \<Rightarrow> nat \<Rightarrow> 'd inmem \<Rightarrow> 'd tail \<Rightarrow> 'e category_event list \<Rightarrow> bool" where
  "tail_inv cat after j t D \<longleftrightarrow>
     colon_free cat \<and> im_inv j \<and> tl_category t = cat \<and> tl_after t = after
     \<and> (\<exists>q. js_get (im_listeners j) (tl_id t) = Some (cat, q)
         \<and> mset (map rec_key D) + later after (tl_backlog t) + later after (queued q)
             = later after (category_backlog j cat)
         \<and> (\<forall>r \<in> set q. lr_globalSeq r = se_globalSeq (lr_stored r))
         \<and> (\<forall>x \<in> set (queued q). above (tl_emitted t) (tl_backlog t) x)
         \<and> ascending (queued q)
         \<and> set (tl_backlog t) \<union> set (queued q) \<subseteq> set (category_backlog j cat)
         \<and> (\<forall>ent. emitted_of (tl_emitted t) ent = 0 \<or>
               (\<exists>s. (ent, s) \<in> set (category_backlog j cat) \<and> se_sequenceNr s = emitted_of (tl_emitted t) ent)))"


section \<open>The backlog of a category under writes\<close>

definition category_part :: "string \<Rightarrow> string \<times> 'd stored_event list \<Rightarrow> (string \<times> 'd stored_event) list" where
  "category_part cat = (\<lambda>(key, stored). if take (length (cat @ '':'')) key = cat @ '':''
     then map (\<lambda>e. (drop (length (cat @ '':'')) key, e)) stored else [])"

lemma category_backlog_parts: "category_backlog j cat = concat (map (category_part cat) (im_events j))"
  by (simp add: category_backlog_def category_part_def Let_def)

lemma category_part_key:
  assumes "colon_free c" "colon_free cat"
  shows "category_part cat (persistenceKey c e, stored) = (if c = cat then map (\<lambda>s. (e, s)) stored else [])"
proof (cases "c = cat")
  case True
  then show ?thesis by (simp add: category_part_def persistenceKey_def)
next
  case False
  have "take (length (cat @ '':'')) (persistenceKey c e) \<noteq> cat @ '':''"
  proof
    assume "take (length (cat @ '':'')) (persistenceKey c e) = cat @ '':''"
    then obtain r where "persistenceKey c e = (cat @ '':'') @ r" by (metis append_take_drop_id)
    then have "persistenceKey c e = persistenceKey cat r" by (simp add: persistenceKey_def)
    with assms False show False by (simp add: persistenceKey_inject)
  qed
  with False show ?thesis by (simp add: category_part_def)
qed

lemma mset_parts_js_set:
  "js_wf m \<Longrightarrow> mset (concat (map f (js_set k v m))) + mset (case js_get m k of None \<Rightarrow> [] | Some old \<Rightarrow> f (k, old))
     = mset (concat (map f m)) + mset (f (k, v))"
proof (induction m)
  case (Cons x m)
  have "js_get m (fst x) = None" using Cons.prems by (cases x) (auto simp: js_wf_def map_of_eq_None_iff)
  moreover have "js_wf m" using Cons.prems by (simp add: js_wf_def)
  moreover obtain k' v' where "x = (k', v')" by (cases x)
  ultimately show ?case using Cons.IH by (auto simp: union_assoc)
qed simp

lemma backlog_persist:
  assumes inv: "im_inv j" and cf: "colon_free c" "colon_free cat"
    and r: "im_persistEvents j c e es start codec envs = Inr (n, j')"
  shows "mset (category_backlog j' cat) = mset (category_backlog j cat)
     + mset (if c = cat then map (\<lambda>s. (e, s)) (to_stored (im_globalSeq j) start codec envs es) else [])"
proof (cases "es = []")
  case True
  with im_persist_Inr(5) [OF r] show ?thesis by (simp add: category_backlog_parts)
next
  case False
  let ?key = "persistenceKey c e" and ?st = "to_stored (im_globalSeq j) start codec envs es"
  have wf: "js_wf (im_events j)" using inv by (simp add: im_inv_def)
  have ev: "im_events j' = js_set ?key (events_at j ?key @ ?st) (im_events j)"
    using im_persist_Inr(5) [OF r] False by simp
  show ?thesis
    using mset_parts_js_set [OF wf, of "category_part cat" ?key "events_at j ?key @ ?st"]
    by (simp add: category_backlog_parts ev category_part_key [OF cf] events_at_def
        split: option.splits if_splits)
qed

lemma backlog_stored:
  assumes "im_inv j" "(ent, s) \<in> set (category_backlog j cat)"
  shows "s \<in> set (events_at j (persistenceKey cat ent))"
proof -
  from assms(2) obtain key stored where k: "(key, stored) \<in> set (im_events j)" "s \<in> set stored"
    "take (length (cat @ '':'')) key = cat @ '':''" "ent = drop (length (cat @ '':'')) key"
    by (auto simp: category_backlog_parts category_part_def split: if_splits)
  then have "key = persistenceKey cat ent"
    unfolding persistenceKey_def by (metis append.assoc append_take_drop_id)
  moreover have "js_get (im_events j) key = Some stored"
    using assms(1) k(1) by (simp add: im_inv_def js_wf_def)
  ultimately show ?thesis using k(2) by (simp add: events_at_def)
qed

section \<open>The two loops\<close>

lemma emitted_of_set [simp]:
  "emitted_of (js_set ent n em) ent' = (if ent' = ent then n else emitted_of em ent')"
  by (simp add: emitted_of_def)

abbreviation after_filter :: "nat \<Rightarrow> (string \<times> 'd stored_event) list \<Rightarrow> (string \<times> 'd stored_event) list" where
  "after_filter after \<equiv> filter (\<lambda>x. after < se_globalSeq (snd x))"

lemma backlog_next_filter:
  "backlog_next after em bl = (found, em', rest) \<Longrightarrow>
   after_filter after bl = (case found of None \<Rightarrow> [] | Some x \<Rightarrow> x # after_filter after rest)
   \<and> (found = None \<longrightarrow> rest = [])"
  by (induction after em bl rule: backlog_next.induct) (auto simp: Let_def split: if_splits)

lemma backlog_next_subset: "backlog_next after em bl = (found, em', rest) \<Longrightarrow> set rest \<subseteq> set bl"
  by (induction after em bl rule: backlog_next.induct) (auto simp: Let_def split: if_splits)

lemma above_step:
  "above em ((ent, s) # bl) x \<Longrightarrow> above (js_set ent (max (emitted_of em ent) (se_sequenceNr s)) em) bl x"
  by (auto simp: above_def)

lemma backlog_next_above:
  "backlog_next after em bl = (found, em', rest) \<Longrightarrow> above em bl x \<Longrightarrow> above em' rest x"
  by (induction after em bl rule: backlog_next.induct)
    (auto simp: Let_def dest: above_step split: if_splits)

text \<open>Every mark is an old mark or the number of an entry that was passed.\<close>

definition marks_from :: "(string, nat) jsmap \<Rightarrow> (string, nat) jsmap \<Rightarrow> (string \<times> 'd stored_event) list \<Rightarrow> bool" where
  "marks_from em em' xs \<longleftrightarrow> (\<forall>ent. emitted_of em' ent = emitted_of em ent \<or>
      (\<exists>s. (ent, s) \<in> set xs \<and> se_sequenceNr s = emitted_of em' ent))"

lemma marks_from_refl [simp]: "marks_from em em xs"
  by (simp add: marks_from_def)

lemma marks_from_mono: "marks_from em em' xs \<Longrightarrow> set xs \<subseteq> set ys \<Longrightarrow> marks_from em em' ys"
  unfolding marks_from_def by blast

lemma marks_from_trans: "marks_from em em' xs \<Longrightarrow> marks_from em' em'' xs \<Longrightarrow> marks_from em em'' xs"
  unfolding marks_from_def by metis

lemma marks_from_set:
  "(ent, s) \<in> set xs \<Longrightarrow> n = se_sequenceNr s \<or> n = emitted_of em ent \<Longrightarrow> marks_from em (js_set ent n em) xs"
  by (auto simp: marks_from_def)

lemma backlog_next_marks: "backlog_next after em bl = (found, em', rest) \<Longrightarrow> marks_from em em' bl"
proof (induction after em bl rule: backlog_next.induct)
  case (2 after em ent s bl)
  let ?em = "js_set ent (max (emitted_of em ent) (se_sequenceNr s)) em"
  have m: "marks_from em ?em ((ent, s) # bl)" by (rule marks_from_set) (auto simp: max_def)
  show ?case
  proof (cases "se_globalSeq s \<le> after")
    case True
    with 2 have "marks_from ?em em' bl" by (simp add: Let_def)
    with m show ?thesis by (meson marks_from_mono marks_from_trans set_subset_Cons)
  next
    case False
    with "2.prems" m show ?thesis by (simp add: Let_def)
  qed
qed simp

definition live_ok :: "(string, nat) jsmap \<Rightarrow> 'd live_record list \<Rightarrow> bool" where
  "live_ok em q \<longleftrightarrow> (\<forall>r \<in> set q. lr_globalSeq r = se_globalSeq (lr_stored r))
     \<and> (\<forall>x \<in> set (queued q). above em [] x) \<and> ascending (queued q)"

lemma live_ok_Cons:
  "live_ok em (r # q) \<Longrightarrow> emitted_of em (lr_entityId r) < se_sequenceNr (lr_stored r)
     \<and> lr_globalSeq r = se_globalSeq (lr_stored r)
     \<and> live_ok (js_set (lr_entityId r) (se_sequenceNr (lr_stored r)) em) q"
  by (auto simp: live_ok_def above_def ascending_def)

lemma live_next_filter:
  "live_next after em q = (found, em', q') \<Longrightarrow> live_ok em q \<Longrightarrow>
   after_filter after (queued q) = (case found of None \<Rightarrow> [] | Some x \<Rightarrow> x # after_filter after (queued q'))
   \<and> (found = None \<longrightarrow> q' = []) \<and> live_ok em' q' \<and> set q' \<subseteq> set q"
proof (induction after em q rule: live_next.induct)
  case (2 after em r q)
  note h = live_ok_Cons [OF "2.prems"(2)]
  show ?case
  proof (cases "lr_globalSeq r \<le> after")
    case True
    with 2 h show ?thesis by (auto simp: Let_def)
  next
    case False
    with "2.prems"(1) h show ?thesis by (auto simp: Let_def)
  qed
qed simp

lemma live_next_marks:
  "live_next after em q = (found, em', q') \<Longrightarrow> live_ok em q \<Longrightarrow> marks_from em em' (queued q)"
proof (induction after em q rule: live_next.induct)
  case (2 after em r q)
  let ?em = "js_set (lr_entityId r) (se_sequenceNr (lr_stored r)) em"
  note h = live_ok_Cons [OF "2.prems"(2)]
  have m: "marks_from em ?em (queued (r # q))" by (rule marks_from_set) auto
  show ?case
  proof (cases "lr_globalSeq r \<le> after")
    case True
    with 2 h have "marks_from ?em em' (queued q)" by (auto simp: Let_def)
    then have "marks_from ?em em' (queued (r # q))" by (rule marks_from_mono) auto
    with m show ?thesis by (rule marks_from_trans)
  next
    case False
    with "2.prems"(1) h m show ?thesis by (auto simp: Let_def)
  qed
qed simp


section \<open>The steps keep the accounting\<close>

lemma tail_inv_open:
  assumes "colon_free cat" "im_inv j" "tail_open i cat after j = (t, j')"
  shows "tail_inv cat after j' t []"
  using assms
  by (auto simp: tail_open_def tail_inv_def im_inv_def all_stored_def category_backlog_def
      ascending_def emitted_of_def)

lemma later_mset: "mset xs = mset ys + mset zs \<Longrightarrow> later after xs = later after ys + later after zs"
  by simp

lemma notify_get:
  "js_get (notify r ls) i = map_option (\<lambda>(cat, q). (cat, if lr_category r = cat then q @ [r] else q)) (js_get ls i)"
  by (induction ls) (auto simp: notify_def)

definition live_of :: "string \<Rightarrow> string \<Rightarrow> 'd stored_event \<Rightarrow> 'd live_record" where
  "live_of c e s = \<lparr>lr_globalSeq = se_globalSeq s, lr_category = c, lr_entityId = e, lr_stored = s\<rparr>"

lemma fold_notify_get:
  "js_get (fold (\<lambda>s. notify (live_of c e s)) st ls) i =
     map_option (\<lambda>(cat, q). (cat, if c = cat then q @ map (live_of c e) st else q)) (js_get ls i)"
proof (induction st arbitrary: ls)
  case Nil
  then show ?case by (cases "js_get ls i") auto
next
  case (Cons s st)
  then show ?case by (cases "js_get ls i") (auto simp: notify_get live_of_def)
qed

lemma persist_listeners:
  assumes "im_persistEvents j c e es start codec envs = Inr (n, j')"
  shows "js_get (im_listeners j') i =
     map_option (\<lambda>(cat, q). (cat, if c = cat
        then q @ map (live_of c e) (to_stored (im_globalSeq j) start codec envs es) else q))
       (js_get (im_listeners j) i)"
  using assms fold_notify_get [of c e "to_stored (im_globalSeq j) start codec envs es" "im_listeners j" i]
  by (cases "js_get (im_listeners j) i")
    (auto simp: im_persistEvents_def Let_def live_of_def split: if_splits option.splits)

lemma ascending_append:
  "ascending (xs @ ys) \<longleftrightarrow> ascending xs \<and> ascending ys
     \<and> (\<forall>x \<in> set xs. \<forall>y \<in> set ys. fst x = fst y \<longrightarrow> se_sequenceNr (snd x) < se_sequenceNr (snd y))"
  by (simp add: ascending_def sorted_wrt_append)

lemma ascending_Nil [simp]: "ascending []"
  by (simp add: ascending_def)

lemma ascending_to_stored: "ascending (map (\<lambda>s. (e, s)) (to_stored g n codec envs es))"
proof -
  have "sorted_wrt (<) (map se_sequenceNr (to_stored g n codec envs es))"
    by (simp only: to_stored_sequenceNr sorted_wrt_upt)
  then show ?thesis by (simp add: ascending_def sorted_wrt_map)
qed

lemma queued_live_of [simp]: "queued (map (live_of c e) st) = map (\<lambda>s. (e, s)) st"
  by (simp add: live_of_def)

lemma tail_inv_persist:
  assumes inv: "tail_inv cat after j t D" and cf: "colon_free c"
    and disc: "\<forall>n \<in> fst ` set (im_log j (persistenceKey c e)). n \<le> start"
    and r: "im_persistEvents j c e es start codec envs = Inr (n, j')"
  shows "tail_inv cat after j' t D"
proof -
  let ?st = "to_stored (im_globalSeq j) start codec envs es"
  from inv obtain q where q: "js_get (im_listeners j) (tl_id t) = Some (cat, q)"
    and ms: "mset (map rec_key D) + later after (tl_backlog t) + later after (queued q)
             = later after (category_backlog j cat)"
    and gs: "\<forall>r \<in> set q. lr_globalSeq r = se_globalSeq (lr_stored r)"
    and ab: "\<forall>x \<in> set (queued q). above (tl_emitted t) (tl_backlog t) x"
    and asc: "ascending (queued q)"
    and sub: "set (tl_backlog t) \<union> set (queued q) \<subseteq> set (category_backlog j cat)"
    and em: "\<forall>ent. emitted_of (tl_emitted t) ent = 0 \<or>
        (\<exists>s. (ent, s) \<in> set (category_backlog j cat) \<and> se_sequenceNr s = emitted_of (tl_emitted t) ent)"
    and c: "colon_free cat" "im_inv j" "tl_category t = cat" "tl_after t = after"
    unfolding tail_inv_def by blast
  let ?new = "if c = cat then map (\<lambda>s. (e, s)) ?st else []"
  let ?q = "if c = cat then q @ map (live_of c e) ?st else q"
  have q': "js_get (im_listeners j') (tl_id t) = Some (cat, ?q)"
    by (simp add: persist_listeners [OF r] q)
  have bl: "mset (category_backlog j' cat) = mset (category_backlog j cat) + mset ?new"
    by (rule backlog_persist [OF c(2) cf c(1) r])
  then have sets: "set (category_backlog j' cat) = set (category_backlog j cat) \<union> set ?new"
    by (metis set_mset_mset set_mset_union)
  have qq: "queued ?q = queued q @ ?new"
    by (simp add: live_of_def)
  have old: "se_sequenceNr s \<le> start" if "(e, s) \<in> set (category_backlog j cat)" "c = cat" for s
  proof -
    from backlog_stored [OF c(2) that(1)] that(2)
    have "se_sequenceNr s \<in> fst ` set (im_log j (persistenceKey c e))"
      unfolding im_log_taken by simp
    with disc show ?thesis by blast
  qed
  have new: "start < se_sequenceNr s" if "s \<in> set ?st" for s
  proof -
    from that have "se_sequenceNr s \<in> {Suc start ..< Suc start + length es}"
      using set_to_stored_sequenceNr by blast
    then show ?thesis by simp
  qed
  have "mset (map rec_key D) + later after (tl_backlog t) + later after (queued ?q)
             = later after (category_backlog j' cat)"
    unfolding qq later_mset [OF bl] ms [symmetric] by (simp add: add.assoc)
  moreover have "\<forall>r \<in> set ?q. lr_globalSeq r = se_globalSeq (lr_stored r)"
    using gs by (auto simp: live_of_def)
  moreover have "above (tl_emitted t) (tl_backlog t) x" if x: "x \<in> set (queued ?q)" for x
  proof (cases "x \<in> set (queued q)")
    case False
    with x obtain s where s: "x = (e, s)" "s \<in> set ?st" "c = cat" unfolding qq by (auto split: if_splits)
    have "emitted_of (tl_emitted t) e \<le> start" using em old s(3) by (metis le0)
    moreover have "\<forall>b \<in> set (tl_backlog t). fst b = e \<longrightarrow> se_sequenceNr (snd b) \<le> start"
      using sub old s(3) by (metis UnCI prod.collapse subsetD)
    ultimately show ?thesis using new [OF s(2)] s(1) by (fastforce simp: above_def)
  qed (use ab in blast)
  moreover have "ascending (queued ?q)"
  proof -
    have "se_sequenceNr (snd x) < se_sequenceNr (snd y)"
      if "x \<in> set (queued q)" "y \<in> set ?new" "fst x = fst y" for x y
    proof -
      from that(2,3) have "c = cat" "fst x = e" "start < se_sequenceNr (snd y)"
        using new by (auto split: if_splits)
      have "x \<in> set (category_backlog j cat)" using that(1) sub by blast
      then have "(fst x, snd x) \<in> set (category_backlog j cat)" by simp
      then have "(e, snd x) \<in> set (category_backlog j cat)" by (simp only: \<open>fst x = e\<close>)
      with old \<open>c = cat\<close> have "se_sequenceNr (snd x) \<le> start" by blast
      with \<open>start < _\<close> show ?thesis by simp
    qed
    then show ?thesis unfolding qq using asc by (auto simp: ascending_append ascending_to_stored)
  qed
  moreover have "set (tl_backlog t) \<union> set (queued ?q) \<subseteq> set (category_backlog j' cat)"
    unfolding qq using sub sets by auto
  moreover have "\<forall>ent. emitted_of (tl_emitted t) ent = 0 \<or>
        (\<exists>s. (ent, s) \<in> set (category_backlog j' cat) \<and> se_sequenceNr s = emitted_of (tl_emitted t) ent)"
    using em sets by blast
  ultimately show ?thesis
    using q' c im_inv_persist [OF c(2) r] unfolding tail_inv_def by blast
qed

lemma toRecord_key: "toRecord cat codec e s = Inr rec \<Longrightarrow> rec_key rec = ev_key (e, s)"
  by (auto simp: toRecord_def rec_key_def ev_key_def split: sum.splits)


text \<open>The invariant in terms of the tail's parts, to reassemble it after a pull.\<close>

lemma tail_invE:
  assumes "tail_inv cat after j t D"
  obtains q where "js_get (im_listeners j) (tl_id t) = Some (cat, q)"
    "mset (map rec_key D) + later after (tl_backlog t) + later after (queued q)
       = later after (category_backlog j cat)"
    "live_ok (tl_emitted t) q"
    "\<forall>x \<in> set (queued q). above (tl_emitted t) (tl_backlog t) x"
    "set (tl_backlog t) \<subseteq> set (category_backlog j cat)" "set (queued q) \<subseteq> set (category_backlog j cat)"
    "\<forall>ent. emitted_of (tl_emitted t) ent = 0 \<or>
        (\<exists>s. (ent, s) \<in> set (category_backlog j cat) \<and> se_sequenceNr s = emitted_of (tl_emitted t) ent)"
    "colon_free cat" "im_inv j" "tl_category t = cat" "tl_after t = after"
  using assms unfolding tail_inv_def live_ok_def above_def by fastforce

lemma tail_invI:
  assumes "js_get (im_listeners j) (tl_id t) = Some (cat, q)"
    "mset (map rec_key D) + later after (tl_backlog t) + later after (queued q)
       = later after (category_backlog j cat)"
    "live_ok em0 q"
    "\<forall>x \<in> set (queued q). above (tl_emitted t) (tl_backlog t) x"
    "set (tl_backlog t) \<subseteq> set (category_backlog j cat)" "set (queued q) \<subseteq> set (category_backlog j cat)"
    "marks_from em (tl_emitted t) (category_backlog j cat)"
    "\<forall>ent. emitted_of em ent = 0 \<or>
        (\<exists>s. (ent, s) \<in> set (category_backlog j cat) \<and> se_sequenceNr s = emitted_of em ent)"
    "colon_free cat" "im_inv j" "tl_category t = cat" "tl_after t = after"
  shows "tail_inv cat after j t D"
proof -
  have "emitted_of (tl_emitted t) ent = 0 \<or>
      (\<exists>s. (ent, s) \<in> set (category_backlog j cat) \<and> se_sequenceNr s = emitted_of (tl_emitted t) ent)" for ent
    using assms(7,8) unfolding marks_from_def by metis
  with assms show ?thesis unfolding tail_inv_def live_ok_def by blast
qed

lemma tail_emit_Yielded:
  "tail_emit codec x t j = (Yielded rec, t', j') \<Longrightarrow>
   t' = t\<lparr>tl_resumed := True\<rparr> \<and> j' = j \<and> rec_key rec = ev_key x"
  using toRecord_key [of "tl_category t" codec "fst x" "snd x"]
  by (auto simp: tail_emit_def split: sum.splits)

lemma tail_emit_not_Waiting: "tail_emit codec x t j \<noteq> (Waiting, t', j')"
  by (auto simp: tail_emit_def split: sum.splits)

lemma category_backlog_listeners [simp]:
  "category_backlog (j\<lparr>im_listeners := ls\<rparr>) cat = category_backlog j cat"
  by (simp add: category_backlog_def)

lemma im_inv_listeners [simp]: "im_inv (j\<lparr>im_listeners := ls\<rparr>) = im_inv j"
  by (simp add: im_inv_def all_stored_def)

lemma tail_inv_pull_backlog:
  assumes inv: "tail_inv cat after j t D"
    and nxt: "backlog_next (tl_after t) (tl_emitted t) (tl_backlog t) = (Some x, em, rest)"
    and k: "rec_key rec = ev_key x"
  shows "tail_inv cat after j (t\<lparr>tl_backlog := rest, tl_emitted := em, tl_resumed := True\<rparr>) (D @ [rec])"
proof -
  from inv obtain q where i:
    "js_get (im_listeners j) (tl_id t) = Some (cat, q)"
    "mset (map rec_key D) + later after (tl_backlog t) + later after (queued q)
       = later after (category_backlog j cat)"
    "live_ok (tl_emitted t) q"
    "\<forall>x \<in> set (queued q). above (tl_emitted t) (tl_backlog t) x"
    "set (tl_backlog t) \<subseteq> set (category_backlog j cat)" "set (queued q) \<subseteq> set (category_backlog j cat)"
    "\<forall>ent. emitted_of (tl_emitted t) ent = 0 \<or>
        (\<exists>s. (ent, s) \<in> set (category_backlog j cat) \<and> se_sequenceNr s = emitted_of (tl_emitted t) ent)"
    "colon_free cat" "im_inv j" "tl_category t = cat" "tl_after t = after" by (rule tail_invE)
  have f: "after_filter after (tl_backlog t) = x # after_filter after rest"
    using backlog_next_filter [OF nxt] i(11) by simp
  show ?thesis
  proof (rule tail_invI [where q = q and em = "tl_emitted t"])
    show "mset (map rec_key (D @ [rec])) + later after (tl_backlog (t\<lparr>tl_backlog := rest, tl_emitted := em, tl_resumed := True\<rparr>))
        + later after (queued q) = later after (category_backlog j cat)"
      using i(2) k f by simp
    show "\<forall>x \<in> set (queued q). above (tl_emitted (t\<lparr>tl_backlog := rest, tl_emitted := em, tl_resumed := True\<rparr>))
        (tl_backlog (t\<lparr>tl_backlog := rest, tl_emitted := em, tl_resumed := True\<rparr>)) x"
      using i(4) backlog_next_above [OF nxt] by simp
    show "set (tl_backlog (t\<lparr>tl_backlog := rest, tl_emitted := em, tl_resumed := True\<rparr>)) \<subseteq> set (category_backlog j cat)"
      using i(5) backlog_next_subset [OF nxt] by simp
    show "marks_from (tl_emitted t) (tl_emitted (t\<lparr>tl_backlog := rest, tl_emitted := em, tl_resumed := True\<rparr>)) (category_backlog j cat)"
      using marks_from_mono [OF backlog_next_marks [OF nxt] i(5)] by simp
  qed (use i in simp_all)
qed

text \<open>The live phase: the backlog is empty, a pull takes the next queued record or drains the queue.\<close>

lemma tail_inv_pull_live:
  assumes inv: "tail_inv cat after j t D"
    and nxt: "backlog_next (tl_after t) (tl_emitted t) (tl_backlog t) = (None, em, rest)"
    and live: "live_next (tl_after t) em (tail_queue j (tl_id t)) = (found, em', q')"
    and k: "map rec_key E = (case found of None \<Rightarrow> [] | Some x \<Rightarrow> [ev_key x])"
  shows "tail_inv cat after (j\<lparr>im_listeners := js_set (tl_id t) (tl_category t, q') (im_listeners j)\<rparr>)
      (t\<lparr>tl_backlog := rest, tl_emitted := em', tl_resumed := b\<rparr>) (D @ E)
    \<and> (found = None \<longrightarrow> mset (map rec_key D) = later after (category_backlog j cat))"
proof -
  from inv obtain q where i:
    "js_get (im_listeners j) (tl_id t) = Some (cat, q)"
    "mset (map rec_key D) + later after (tl_backlog t) + later after (queued q)
       = later after (category_backlog j cat)"
    "live_ok (tl_emitted t) q"
    "\<forall>x \<in> set (queued q). above (tl_emitted t) (tl_backlog t) x"
    "set (tl_backlog t) \<subseteq> set (category_backlog j cat)" "set (queued q) \<subseteq> set (category_backlog j cat)"
    "\<forall>ent. emitted_of (tl_emitted t) ent = 0 \<or>
        (\<exists>s. (ent, s) \<in> set (category_backlog j cat) \<and> se_sequenceNr s = emitted_of (tl_emitted t) ent)"
    "colon_free cat" "im_inv j" "tl_category t = cat" "tl_after t = after" by (rule tail_invE)
  from backlog_next_filter [OF nxt] i(11) have bl: "after_filter after (tl_backlog t) = []" "rest = []"
    by simp_all
  have q: "tail_queue j (tl_id t) = q" by (simp add: tail_queue_def i(1))
  have ok: "live_ok em q"
    using i(3,4) backlog_next_above [OF nxt] bl(2) by (simp add: live_ok_def)
  from live_next_filter [OF live] live_next_marks [OF live] ok q i(11)
  have f: "after_filter after (queued q) = (case found of None \<Rightarrow> [] | Some x \<Rightarrow> x # after_filter after (queued q'))"
    and none: "found = None \<Longrightarrow> q' = []" and ok': "live_ok em' q'" and sub: "set q' \<subseteq> set q"
    and marks: "marks_from em em' (queued q)" by auto
  have "marks_from (tl_emitted t) em' (category_backlog j cat)"
    using marks_from_mono [OF backlog_next_marks [OF nxt] i(5)] marks_from_mono [OF marks i(6)]
    by (rule marks_from_trans)
  moreover have "set (queued q') \<subseteq> set (category_backlog j cat)" using sub i(6) by auto
  moreover have "mset (map rec_key (D @ E)) + later after (queued q') = later after (category_backlog j cat)"
    using i(2) bl(1) f k none by (cases found) simp_all
  ultimately have "tail_inv cat after (j\<lparr>im_listeners := js_set (tl_id t) (tl_category t, q') (im_listeners j)\<rparr>)
      (t\<lparr>tl_backlog := rest, tl_emitted := em', tl_resumed := b\<rparr>) (D @ E)"
    using i ok' bl(2) by (intro tail_invI [where q = q' and em = "tl_emitted t" and em0 = em']) (auto simp: live_ok_def)
  moreover have "found = None \<longrightarrow> mset (map rec_key D) = later after (category_backlog j cat)"
    using i(2) bl(1) f by auto
  ultimately show ?thesis by blast
qed

lemma tail_inv_pull:
  assumes inv: "tail_inv cat after j t D" and pull: "tail_pull codec aborted t j = (res, t', j')"
  shows "res = Yielded rec \<Longrightarrow> tail_inv cat after j' t' (D @ [rec])"
    and "res = Waiting \<Longrightarrow> tail_inv cat after j' t' D
      \<and> mset (map rec_key D) = later after (category_backlog j' cat)"
proof -
  obtain found em rest where nxt: "backlog_next (tl_after t) (tl_emitted t) (tl_backlog t) = (found, em, rest)"
    by (metis prod_cases3)
  obtain found' em' q' where live: "live_next (tl_after t) em (tail_queue j (tl_id t)) = (found', em', q')"
    by (metis prod_cases3)
  note unfold = pull [unfolded tail_pull_def nxt live Let_def prod.case]
  show "tail_inv cat after j' t' (D @ [rec])" if "res = Yielded rec"
  proof (cases found)
    case None
    with unfold that obtain x where "found' = Some x"
      and "tail_emit codec x (t\<lparr>tl_backlog := rest, tl_emitted := em'\<rparr>)
          (j\<lparr>im_listeners := js_set (tl_id t) (tl_category t, q') (im_listeners j)\<rparr>) = (Yielded rec, t', j')"
      by (auto split: if_splits option.splits)
    with tail_inv_pull_live [OF inv nxt [unfolded None] live, of "[rec]" True] tail_emit_Yielded
    show ?thesis by fastforce
  next
    case (Some x)
    with unfold that have "tail_emit codec x (t\<lparr>tl_backlog := rest, tl_emitted := em\<rparr>) j = (Yielded rec, t', j')"
      by (auto split: if_splits)
    with tail_inv_pull_backlog [OF inv nxt [unfolded Some]] tail_emit_Yielded show ?thesis by fastforce
  qed
  show "tail_inv cat after j' t' D \<and> mset (map rec_key D) = later after (category_backlog j' cat)"
    if "res = Waiting"
  proof -
    from unfold that have "found = None" "found' = None"
      "t' = t\<lparr>tl_backlog := rest, tl_emitted := em', tl_resumed := False\<rparr>"
      "j' = j\<lparr>im_listeners := js_set (tl_id t) (tl_category t, q') (im_listeners j)\<rparr>"
      by (auto simp: tail_emit_not_Waiting split: if_splits option.splits)
    with tail_inv_pull_live [OF inv nxt [unfolded \<open>found = None\<close>] live, of "[]" False] show ?thesis by simp
  qed
qed

lemma tail_run_inv: "tail_run codec cat after j t D \<Longrightarrow> tail_inv cat after j t D"
proof (induction rule: tail_run.induct)
  case (opened j i t j')
  then show ?case by (rule tail_inv_open)
next
  case (wrote j t D c e start es wcodec envs n j')
  show ?case by (rule tail_inv_persist [OF wrote.IH wrote.hyps(2-4)])
next
  case (yielded j t D aborted rec t' j')
  then show ?case using tail_inv_pull(1) by blast
next
  case (idled j t D aborted t' j')
  then show ?case using tail_inv_pull(2) by blast
qed


lemma mset_submultiset_distinct:
  assumes "mset xs \<subseteq># mset ys" "distinct ys"
  shows "distinct xs"
proof -
  from assms(1) obtain M where "mset ys = mset xs + M" by (auto simp: mset_subset_eq_exists_conv)
  moreover obtain zs where "mset zs = M" using ex_mset by blast
  ultimately have "mset ys = mset (xs @ zs)" by simp
  with assms(2) have "distinct (xs @ zs)" using mset_eq_imp_distinct_iff by blast
  then show ?thesis by simp
qed

lemma category_part_stored: "map snd (category_part cat (key, stored)) = (if category_part cat (key, stored) = [] then [] else stored)"
  by (auto simp: category_part_def comp_def)

lemma category_backlog_sub: "mset (map snd (category_backlog j cat)) \<subseteq># mset (all_stored j)"
  unfolding category_backlog_parts all_stored_def
proof (induction "im_events j" arbitrary: j)
  case (Cons x xs)
  have IH: "mset (map snd (concat (map (category_part cat) xs))) \<subseteq># mset (concat (map snd xs))"
    using Cons(1) [of "j\<lparr>im_events := xs\<rparr>"] by simp
  obtain key stored where x: "x = (key, stored)" by (cases x)
  have "mset (map snd (category_part cat x)) \<subseteq># mset stored"
    unfolding x category_part_stored by simp
  with IH show ?case unfolding Cons(2) [symmetric] x
    by (simp add: subset_mset.add_mono)
qed simp

lemma category_globalSeq_distinct:
  assumes "im_inv j"
  shows "distinct (map (\<lambda>x. se_globalSeq (snd x)) (category_backlog j cat))"
proof -
  have "mset (map se_globalSeq (map snd (category_backlog j cat))) \<subseteq># mset (map se_globalSeq (all_stored j))"
    by (subst (1 2) mset_map) (rule image_mset_subseteq_mono [OF category_backlog_sub])
  from mset_submultiset_distinct [OF this] assms show ?thesis by (simp add: im_inv_def comp_def)
qed

section \<open>Properties\<close>

text \<open>
  C8. A live tail neither loses nor repeats an event. For every interleaving of writes that
  obey the runner's discipline (each starts at or above the numbers stored for its entity)
  with pulls of the consumer: the delivered records, the rest of the backlog and the queued
  live records together are exactly the events the journal holds for the category after the
  resume cursor, each once (as entity, sequence number and global number); global numbers
  are pairwise different, so no record is delivered twice; and whenever the tail goes idle
  everything has been delivered.
\<close>

theorem tail_exactly_once:
  assumes "tail_run codec cat after j t D"
  shows "distinct (map ce_globalSeq D)
    \<and> set (map rec_key D) \<subseteq> ev_key ` set (category_backlog j cat)
    \<and> (\<forall>aborted t' j'. tail_pull codec aborted t j = (Waiting, t', j') \<longrightarrow>
          mset (map rec_key D) = mset (map ev_key (filter (\<lambda>x. after < se_globalSeq (snd x)) (category_backlog j' cat))))"
proof (intro conjI allI impI)
  note inv = tail_run_inv [OF assms]
  from inv obtain q where "js_get (im_listeners j) (tl_id t) = Some (cat, q)"
    and ms: "mset (map rec_key D) + later after (tl_backlog t) + later after (queued q)
       = later after (category_backlog j cat)" and im: "im_inv j" by (rule tail_invE) blast
  have sub: "mset (map rec_key D) \<subseteq># later after (category_backlog j cat)"
    unfolding ms [symmetric] by (simp add: add.assoc)
  from image_mset_subseteq_mono [OF sub, of "\<lambda>k. snd (snd k)"]
  have "mset (map ce_globalSeq D) \<subseteq># mset (map (\<lambda>x. se_globalSeq (snd x)) (after_filter after (category_backlog j cat)))"
    by (simp add: rec_key_def ev_key_def image_mset.compositionality comp_def)
  moreover have "distinct (map (\<lambda>x. se_globalSeq (snd x)) (after_filter after (category_backlog j cat)))"
    using category_globalSeq_distinct [OF im, of cat] by (auto simp: distinct_map intro: inj_on_subset)
  ultimately show "distinct (map ce_globalSeq D)"
    by (rule mset_submultiset_distinct)
  have "set (map rec_key D) \<subseteq> set (map ev_key (after_filter after (category_backlog j cat)))"
    using set_mset_mono [OF sub] by simp
  then show "set (map rec_key D) \<subseteq> ev_key ` set (category_backlog j cat)" by auto
  fix aborted t' j'
  assume "tail_pull codec aborted t j = (Waiting, t', j')"
  then show "mset (map rec_key D) = later after (category_backlog j' cat)"
    using tail_inv_pull(2) [OF inv _ refl] by blast
qed

definition demo_tail :: "int tail" where
  "demo_tail = fst (tail_open 0 ''c'' 0 createInMemoryJournal)"

definition demo_journal :: "int inmem" where
  "demo_journal =
     (case im_persistEvents (snd (tail_open 0 ''c'' 0 createInMemoryJournal)) ''c'' ''e'' [7] 0
        (objectCodec ''M'') None of Inr r \<Rightarrow> snd r | Inl _ \<Rightarrow> createInMemoryJournal)"

definition demo_record :: "int category_event" where
  "demo_record = \<lparr>ce_globalSeq = 1, ce_category = ''c'', ce_entityId = ''e'', ce_sequenceNr = 1,
     ce_event = 7, ce_envelope = None\<rparr>"

lemmas demo_defs = demo_tail_def demo_journal_def demo_record_def tail_open_def
  createInMemoryJournal_def im_persistEvents_def to_stored_def persistenceKey_def events_at_def
  notify_def objectCodec_def envelope_at_def category_backlog_def

lemma demo_run: "tail_run (objectCodec ''M'') ''c'' 0 demo_journal demo_tail []"
proof (rule tail_run.wrote)
  show "tail_run (objectCodec ''M'') ''c'' 0 (snd (tail_open 0 ''c'' 0 createInMemoryJournal)) demo_tail []"
    by (rule tail_run.opened [of _ createInMemoryJournal 0])
      (simp_all add: colon_free_def im_inv_create demo_tail_def)
  show "im_persistEvents (snd (tail_open 0 ''c'' 0 createInMemoryJournal)) ''c'' ''e'' [7] 0
      (objectCodec ''M'') None = Inr (1, demo_journal)"
    by (simp add: demo_defs)
  show "\<forall>n \<in> fst ` set (im_log (snd (tail_open 0 ''c'' 0 createInMemoryJournal)) (persistenceKey ''c'' ''e'')). n \<le> 0"
    by (simp add: im_log_def demo_defs)
qed (simp add: colon_free_def)

theorem tail_exactly_once_witness:
  "\<exists>t j. tail_run (objectCodec ''M'') ''c'' 0 j t [demo_record]
     \<and> set (map rec_key [demo_record]) \<subseteq> ev_key ` set (category_backlog j ''c'')
     \<and> distinct (map ce_globalSeq [demo_record])"
proof -
  obtain t j where "tail_pull (objectCodec ''M'') False demo_tail demo_journal = (Yielded demo_record, t, j)"
    by (simp add: demo_defs tail_pull_def tail_queue_def tail_emit_def toRecord_def emitted_of_def Let_def)
  from tail_run.yielded [OF demo_run this]
  have run: "tail_run (objectCodec ''M'') ''c'' 0 j t [demo_record]" by simp
  from tail_exactly_once [OF run] run show ?thesis by blast
qed

end
