(* ===== verification/Sqlite_Journal.thy ===== *)
theory Sqlite_Journal
  imports Journal "HOL-Library.Char_ord" "HOL-Library.List_Lexorder" "HOL-Library.Product_Lexorder"
begin

text \<open>
  \<open>sqlite/journal.ts\<close>: the journal over two tables. The SQL text is part of the code: each
  prepared statement is a function on the tables, with SQLite's rules for what it uses
  (a unique constraint aborts a statement, a transaction that throws is rolled back, a new
  row gets the highest rowid plus one, \<open>LIKE\<close> has wildcards and ignores the case of
  letters, a negative \<open>LIMIT\<close> is no limit). A payload column is the JSON value its text stands
  for. \<open>db_now\<close> is what \<open>unixepoch()\<close> returns.
\<close>

section \<open>Tables\<close>

record 'd journal_row =
  global_seq :: nat
  persistence_id :: string
  sequence_nr :: nat
  row_manifest :: string
  row_payload :: 'd
  row_timestamp :: int
  event_id :: "string option"
  causation_id :: "string option"
  correlation_id :: "string option"
  row_origin :: "string option"
  row_env_v :: "nat option"

record 'd snapshot_row =
  sn_sequence_nr :: nat
  sn_manifest :: string
  sn_payload :: 'd
  sn_timestamp :: int

record 'd sqlite_db =
  db_journal :: "'d journal_row list"
  db_snapshots :: "(string, 'd snapshot_row) jsmap"
  db_now :: int

text \<open>\<open>CREATE TABLE\<close> on a fresh database.\<close>

definition empty_db :: "int \<Rightarrow> 'd sqlite_db" where
  "empty_db now = \<lparr>db_journal = [], db_snapshots = [], db_now = now\<rparr>"

definition DEFAULT_PAGE_SIZE :: nat where
  "DEFAULT_PAGE_SIZE = 256"

section \<open>The pattern operator\<close>

fun sql_like :: "string \<Rightarrow> string \<Rightarrow> bool" where
  "sql_like [] s = (s = [])"
| "sql_like (p # ps) [] = (p = CHR ''%'' \<and> sql_like ps [])"
| "sql_like (p # ps) (c # cs) =
     (if p = CHR ''%'' then sql_like ps (c # cs) \<or> sql_like (p # ps) cs
      else (p = CHR ''_'' \<or> ascii_lower p = ascii_lower c) \<and> sql_like ps cs)"

lemma sql_like_percent [simp]: "sql_like [CHR ''%''] s"
  by (induction s) simp_all

text \<open>A pattern \<open>cat:%\<close> matches every key of its category.\<close>

lemma sql_like_prefix: "sql_like (xs @ [CHR ''%'']) (xs @ ys)"
proof (induction xs)
  case (Cons x xs)
  have "sql_like (CHR ''%'' # xs @ [CHR ''%'']) (CHR ''%'' # xs @ ys)"
    if "sql_like (xs @ [CHR ''%'']) (xs @ ys)"
  proof -
    have "sql_like (CHR ''%'' # xs @ [CHR ''%'']) (xs @ ys)"
      using that by (cases "xs @ ys") auto
    then show ?thesis by simp
  qed
  with Cons show ?case by (cases "x = CHR ''%''") auto
qed simp

section \<open>Statements\<close>

definition constraint_error :: js_error where
  "constraint_error = JsError ''UNIQUE constraint failed: journal.event_id''"

datatype sql_error = PrimaryKeyViolation | OtherSqlError js_error

definition max_global_seq :: "'d journal_row list \<Rightarrow> nat" where
  "max_global_seq rows = fold max (map global_seq rows) 0"

text \<open>What an insert statement is given.\<close>

record 'd new_row =
  nr_pid :: string
  nr_seqNr :: nat
  nr_manifest :: string
  nr_payload :: 'd
  nr_envelope :: "envelope option"

definition insert_event :: "'d sqlite_db \<Rightarrow> 'd new_row \<Rightarrow> sql_error + 'd sqlite_db" where
  "insert_event db r =
     (if list_ex (\<lambda>x. persistence_id x = nr_pid r \<and> sequence_nr x = nr_seqNr r) (db_journal db)
      then Inl PrimaryKeyViolation
      else if (case nr_envelope r of None \<Rightarrow> False
               | Some env \<Rightarrow> list_ex (\<lambda>x. event_id x = Some (eventId env)) (db_journal db))
      then Inl (OtherSqlError constraint_error)
      else Inr (db\<lparr>db_journal := db_journal db @
        [\<lparr>global_seq = Suc (max_global_seq (db_journal db)), persistence_id = nr_pid r,
          sequence_nr = nr_seqNr r, row_manifest = nr_manifest r, row_payload = nr_payload r,
          row_timestamp = db_now db,
          event_id = map_option eventId (nr_envelope r),
          causation_id = Option.bind (nr_envelope r) causationId,
          correlation_id = Option.bind (nr_envelope r) correlationId,
          row_origin = Option.bind (nr_envelope r) origin,
          row_env_v = map_option env_v (nr_envelope r)\<rparr>]\<rparr>))"

text \<open>The transaction: all inserts or none.\<close>

definition insertManyEvents :: "'d sqlite_db \<Rightarrow> 'd new_row list \<Rightarrow> sql_error + 'd sqlite_db" where
  "insertManyEvents db rows = foldE insert_event db rows"

definition upsertSnapshot :: "'d sqlite_db \<Rightarrow> string \<Rightarrow> nat \<Rightarrow> string \<Rightarrow> 'd \<Rightarrow> 'd sqlite_db" where
  "upsertSnapshot db pid n m d =
     db\<lparr>db_snapshots := js_set pid \<lparr>sn_sequence_nr = n, sn_manifest = m, sn_payload = d, sn_timestamp = db_now db\<rparr>
          (db_snapshots db)\<rparr>"

text \<open>A page: the rows after a cursor in the order of a key, at most so many.\<close>

definition rows_after :: "('r \<Rightarrow> 'k::linorder) \<Rightarrow> ('r \<Rightarrow> bool) \<Rightarrow> 'k \<Rightarrow> 'r list \<Rightarrow> 'r list" where
  "rows_after key cond cur rows = sort_key key (filter (\<lambda>r. cond r \<and> cur < key r) rows)"

definition pageEvents :: "'d sqlite_db \<Rightarrow> string \<Rightarrow> nat \<Rightarrow> nat \<Rightarrow> 'd journal_row list" where
  "pageEvents db pid cur lim = take lim (rows_after sequence_nr (\<lambda>r. persistence_id r = pid) cur (db_journal db))"

definition pageAllEvents :: "'d sqlite_db \<Rightarrow> string \<Rightarrow> string \<times> nat \<Rightarrow> nat \<Rightarrow> 'd journal_row list" where
  "pageAllEvents db pat cur lim =
     take lim (rows_after (\<lambda>r. (persistence_id r, sequence_nr r)) (\<lambda>r. sql_like pat (persistence_id r)) cur (db_journal db))"

section \<open>Scanning by pages\<close>

lemma last_page_row:
  assumes "\<not> length (take DEFAULT_PAGE_SIZE xs) < DEFAULT_PAGE_SIZE"
  shows "last (take DEFAULT_PAGE_SIZE xs) \<in> set xs" "take DEFAULT_PAGE_SIZE xs \<noteq> []"
proof -
  show ne: "take DEFAULT_PAGE_SIZE xs \<noteq> []" using assms by (auto simp: DEFAULT_PAGE_SIZE_def)
  then show "last (take DEFAULT_PAGE_SIZE xs) \<in> set xs" using last_in_set [OF ne] in_set_takeD by fast
qed

lemma set_rows_after [simp]: "set (rows_after key cond cur rows) = {r \<in> set rows. cond r \<and> cur < key r}"
  by (simp add: rows_after_def)

text \<open>
  The loops of \<open>loadEvents\<close> and \<open>allEvents\<close>: fetch a page after the cursor, decode its rows,
  go on from its last row until a page is short. \<open>page cur\<close> is the statement.
\<close>

function scan_pages ::
  "('r \<Rightarrow> 'k::linorder) \<Rightarrow> ('r list \<Rightarrow> js_error + 'o list) \<Rightarrow> ('r \<Rightarrow> bool) \<Rightarrow> 'r list \<Rightarrow> 'k \<Rightarrow> js_error + 'o list" where
  "scan_pages key dec cond rows cur =
     (case dec (take DEFAULT_PAGE_SIZE (rows_after key cond cur rows)) of
        Inl e \<Rightarrow> Inl e
      | Inr out \<Rightarrow>
          (if length (take DEFAULT_PAGE_SIZE (rows_after key cond cur rows)) < DEFAULT_PAGE_SIZE then Inr out
           else case scan_pages key dec cond rows (key (last (take DEFAULT_PAGE_SIZE (rows_after key cond cur rows)))) of
                  Inl e \<Rightarrow> Inl e
                | Inr rest \<Rightarrow> Inr (out @ rest)))"
  by pat_completeness auto
termination
proof (relation "measure (\<lambda>(key, dec, cond, rows, cur). length (filter (\<lambda>r. cond r \<and> cur < key r) rows))", goal_cases)
  case 1
  show ?case by simp
next
  case (2 key dec cond rows cur out)
  define l where "l = last (take DEFAULT_PAGE_SIZE (rows_after key cond cur rows))"
  have l: "l \<in> set rows" "cond l" "cur < key l"
    using last_page_row(1) [of "rows_after key cond cur rows"] 2(2) by (auto simp: l_def)
  have shorter: "length (filter (\<lambda>r. cond r \<and> key l < key r) rows) < length (filter (\<lambda>r. cond r \<and> cur < key r) rows)"
  proof -
    have "(cond r \<and> key l < key r) = ((cond r \<and> cur < key r) \<and> key l < key r)" for r
      using l(3) less_trans by blast
    then have "filter (\<lambda>r. cond r \<and> key l < key r) rows = filter (\<lambda>r. key l < key r) (filter (\<lambda>r. cond r \<and> cur < key r) rows)"
      by (simp only: filter_filter)
    moreover have "length (filter (\<lambda>r. key l < key r) (filter (\<lambda>r. cond r \<and> cur < key r) rows))
        < length (filter (\<lambda>r. cond r \<and> cur < key r) rows)"
      by (rule length_filter_less [of l]) (use l in auto)
    ultimately show ?thesis by (simp only:)
  qed
  show ?case using shorter unfolding l_def by simp
qed

declare scan_pages.simps [simp del]

text \<open>Decoding that goes from left to right does not see the page boundaries.\<close>

definition row_decoder :: "('r list \<Rightarrow> js_error + 'o list) \<Rightarrow> bool" where
  "row_decoder dec \<longleftrightarrow> (\<forall>xs ys. dec (xs @ ys) =
     (case dec xs of Inl e \<Rightarrow> Inl e | Inr a \<Rightarrow> (case dec ys of Inl e \<Rightarrow> Inl e | Inr b \<Rightarrow> Inr (a @ b))))"

lemma sorted_last: "sorted (map key xs) \<Longrightarrow> r \<in> set xs \<Longrightarrow> key r \<le> key (last xs)"
  by (cases xs rule: rev_cases) (auto simp: sorted_append)

lemma sorted_split:
  assumes "sorted (map key xs)" "distinct (map key xs)" "n \<le> length xs" "0 < n"
  shows "filter (\<lambda>r. key (last (take n xs)) < (key r :: 'k::linorder)) xs = drop n xs"
proof -
  have ne: "take n xs \<noteq> []" using assms(3,4) by auto
  have app: "sorted (map key (take n xs) @ map key (drop n xs))" "distinct (map key (take n xs) @ map key (drop n xs))"
    using assms(1,2) by (simp_all only: map_append [symmetric] append_take_drop_id)
  have "key r \<le> key (last (take n xs))" if "r \<in> set (take n xs)" for r
    using sorted_last [of key, OF _ that] app(1) by (simp add: sorted_append)
  then have "filter (\<lambda>r. key (last (take n xs)) < key r) (take n xs) = []"
    by (auto simp: filter_empty_conv not_less)
  moreover have "key (last (take n xs)) < key r" if "r \<in> set (drop n xs)" for r
  proof -
    have "last (take n xs) \<in> set (take n xs)" using ne by simp
    then have "key (last (take n xs)) \<le> key r" "key (last (take n xs)) \<noteq> key r"
      using app that by (auto simp: sorted_append)
    then show ?thesis by simp
  qed
  then have "filter (\<lambda>r. key (last (take n xs)) < key r) (drop n xs) = drop n xs" by simp
  ultimately show ?thesis by (metis append_Nil append_take_drop_id filter_append)
qed

lemma rows_after_later:
  assumes "cur \<le> cur'"
  shows "rows_after key cond cur' rows = filter (\<lambda>r. cur' < key r) (rows_after key cond cur rows)"
proof -
  have "(cond r \<and> cur' < key r) = ((cond r \<and> cur < key r) \<and> cur' < key r)" for r
    using assms le_less_trans by blast
  then have "filter (\<lambda>r. cond r \<and> cur' < key r) rows = filter (\<lambda>r. cur' < key r) (filter (\<lambda>r. cond r \<and> cur < key r) rows)"
    by (simp only: filter_filter)
  then show ?thesis by (simp add: rows_after_def filter_sort)
qed

lemma scan_pages_all:
  assumes "row_decoder dec" "distinct (map key (filter cond rows))"
  shows "scan_pages key dec cond rows cur = dec (rows_after key cond cur rows)"
  using assms
proof (induction key dec cond rows cur rule: scan_pages.induct)
  case (1 key dec cond rows cur)
  let ?xs = "rows_after key cond cur rows"
  let ?page = "take DEFAULT_PAGE_SIZE ?xs"
  have dec: "dec ?xs = (case dec ?page of Inl e \<Rightarrow> Inl e
      | Inr a \<Rightarrow> (case dec (drop DEFAULT_PAGE_SIZE ?xs) of Inl e \<Rightarrow> Inl e | Inr b \<Rightarrow> Inr (a @ b)))"
    using "1.prems"(1) unfolding row_decoder_def by (metis append_take_drop_id)
  show ?case
  proof (cases "length ?page < DEFAULT_PAGE_SIZE")
    case True
    then have "?page = ?xs" by simp
    with True show ?thesis by (subst scan_pages.simps) (auto split: sum.splits)
  next
    case False
    have srt: "sorted (map key ?xs)" by (simp add: rows_after_def)
    have "distinct (map key (filter (\<lambda>r. cur < key r) (filter cond rows)))" using "1.prems"(2) by (rule distinct_map_filter)
    then have dst: "distinct (map key ?xs)" by (simp add: rows_after_def distinct_map conj_commute)
    let ?cur = "key (last ?page)"
    have "cur \<le> ?cur" using last_page_row(1) [OF False] by auto
    then have "rows_after key cond ?cur rows = filter (\<lambda>r. ?cur < key r) ?xs" by (rule rows_after_later)
    also have "\<dots> = drop DEFAULT_PAGE_SIZE ?xs"
      using False by (intro sorted_split [OF srt dst]) (auto simp: DEFAULT_PAGE_SIZE_def)
    finally have rest: "rows_after key cond ?cur rows = drop DEFAULT_PAGE_SIZE ?xs" .
    show ?thesis
    proof (cases "dec ?page")
      case (Inl e)
      then show ?thesis by (subst scan_pages.simps) (simp add: dec)
    next
      case (Inr a)
      from "1.IH" [OF Inr False "1.prems"] Inr False rest show ?thesis
        by (subst scan_pages.simps) (simp add: dec)
    qed
  qed
qed

section \<open>The operations of the journal\<close>

definition exists_event :: "'d sqlite_db \<Rightarrow> string \<Rightarrow> nat \<Rightarrow> bool" where
  "exists_event db pid n = list_ex (\<lambda>x. persistence_id x = pid \<and> sequence_nr x = n) (db_journal db)"

definition to_rows ::
  "string \<Rightarrow> nat \<Rightarrow> ('e, 'd) codec \<Rightarrow> envelope list option \<Rightarrow> 'e list \<Rightarrow> 'd new_row list" where
  "to_rows pid start codec envelopes es =
     map (\<lambda>(idx, event). \<lparr>nr_pid = pid, nr_seqNr = start + idx + 1, nr_manifest = manifest codec event,
           nr_payload = encode codec event, nr_envelope = envelope_at envelopes idx\<rparr>)
       (zip [0 ..< length es] es)"

definition sq_persistEvents ::
  "'d sqlite_db \<Rightarrow> string \<Rightarrow> string \<Rightarrow> 'e list \<Rightarrow> nat \<Rightarrow> ('e, 'd) codec \<Rightarrow> envelope list option \<Rightarrow>
   js_error + nat \<times> 'd sqlite_db" where
  "sq_persistEvents db categoryId entityId es start codec envelopes =
     (if es = [] then Inr (start, db)
      else
        let pid = persistenceKey categoryId entityId;
            rows = to_rows pid start codec envelopes es
        in (case insertManyEvents db rows of
              Inr db' \<Rightarrow> Inr (start + length es, db')
            | Inl (OtherSqlError e) \<Rightarrow> Inl e
            | Inl PrimaryKeyViolation \<Rightarrow>
                (case List.find (\<lambda>r. exists_event db pid (nr_seqNr r)) rows of
                   Some duplicate \<Rightarrow> Inl (DuplicateSequenceNrError categoryId entityId (nr_seqNr duplicate))
                 | None \<Rightarrow> Inl (JsError ''UNIQUE constraint failed: journal.persistence_id, journal.sequence_nr''))))"

definition row_entry :: "'d journal_row \<Rightarrow> 'd log_entry" where
  "row_entry r = (sequence_nr r, row_manifest r, row_payload r)"

definition sq_loadEvents ::
  "'d sqlite_db \<Rightarrow> string \<Rightarrow> string \<Rightarrow> nat \<Rightarrow> ('e, 'd) codec \<Rightarrow> js_error + (nat \<times> 'e) list" where
  "sq_loadEvents db categoryId entityId fromSequenceNr codec =
     scan_pages sequence_nr (\<lambda>rows. decode_log codec (map row_entry rows))
       (\<lambda>r. persistence_id r = persistenceKey categoryId entityId) (db_journal db) fromSequenceNr"

definition sq_persistSnapshot ::
  "'d sqlite_db \<Rightarrow> string \<Rightarrow> string \<Rightarrow> 's \<Rightarrow> nat \<Rightarrow> ('s, 'd) codec \<Rightarrow> js_error + 'd sqlite_db" where
  "sq_persistSnapshot db categoryId entityId s sequenceNr codec =
     Inr (upsertSnapshot db (persistenceKey categoryId entityId) sequenceNr (manifest codec s) (encode codec s))"

definition sq_loadSnapshot ::
  "'d sqlite_db \<Rightarrow> string \<Rightarrow> string \<Rightarrow> ('s, 'd) codec \<Rightarrow> js_error + (nat \<times> 's) option" where
  "sq_loadSnapshot db categoryId entityId codec =
     (case js_get (db_snapshots db) (persistenceKey categoryId entityId) of
        None \<Rightarrow> Inr None
      | Some row \<Rightarrow>
          (case decode codec (sn_manifest row) (sn_payload row) of
             Inl e \<Rightarrow> Inl (SnapshotDecodeError categoryId entityId e)
           | Inr s \<Rightarrow> Inr (Some (sn_sequence_nr row, s))))"

text \<open>\<open>allEvents\<close>: the composite key, starting before every key.\<close>

fun decode_category_rows ::
  "nat \<Rightarrow> ('e, 'd) codec \<Rightarrow> 'd journal_row list \<Rightarrow> js_error + (string \<times> nat \<times> 'e) list" where
  "decode_category_rows plen codec [] = Inr []"
| "decode_category_rows plen codec (r # rs) =
     (case decode codec (row_manifest r) (row_payload r) of
        Inl e \<Rightarrow> Inl e
      | Inr a \<Rightarrow> (case decode_category_rows plen codec rs of
                   Inl e \<Rightarrow> Inl e
                 | Inr as \<Rightarrow> Inr ((drop plen (persistence_id r), sequence_nr r, a) # as)))"

definition sq_allEvents :: "'d sqlite_db \<Rightarrow> string \<Rightarrow> ('e, 'd) codec \<Rightarrow> js_error + (string \<times> nat \<times> 'e) list" where
  "sq_allEvents db categoryId codec =
     scan_pages (\<lambda>r. (persistence_id r, sequence_nr r)) (decode_category_rows (length (categoryId @ '':'')) codec)
       (\<lambda>r. sql_like (categoryId @ '':%'') (persistence_id r)) (db_journal db) ([], 0)"

definition sqlite_journal :: "('d sqlite_db, 'e, 's, 'd) journal" where
  "sqlite_journal = \<lparr>persistEvents = sq_persistEvents, loadEvents = sq_loadEvents,
     persistSnapshot = sq_persistSnapshot, loadSnapshot = sq_loadSnapshot\<rparr>"

section \<open>The log it holds\<close>

definition sq_log :: "'d sqlite_db \<Rightarrow> string \<Rightarrow> 'd log_entry list" where
  "sq_log db key = map row_entry (sort_key sequence_nr (filter (\<lambda>r. persistence_id r = key) (db_journal db)))"

definition sq_snap :: "'d sqlite_db \<Rightarrow> string \<Rightarrow> (nat \<times> string \<times> 'd) option" where
  "sq_snap db key = map_option (\<lambda>r. (sn_sequence_nr r, sn_manifest r, sn_payload r)) (js_get (db_snapshots db) key)"

text \<open>The constraints of the schema: primary key, unique event ids, increasing rowids.\<close>

abbreviation row_key :: "'d journal_row \<Rightarrow> string \<times> nat" where
  "row_key r \<equiv> (persistence_id r, sequence_nr r)"

definition sq_inv :: "'d sqlite_db \<Rightarrow> bool" where
  "sq_inv db \<longleftrightarrow> distinct (map row_key (db_journal db))
     \<and> sorted_wrt (<) (map global_seq (db_journal db))
     \<and> (\<forall>x \<in> set (db_journal db). \<forall>y \<in> set (db_journal db). event_id x \<noteq> None \<longrightarrow> event_id x = event_id y \<longrightarrow> x = y)"

lemma sq_inv_empty [simp]: "sq_inv (empty_db now)"
  by (simp add: sq_inv_def empty_db_def)

lemma max_global_seq_ge: "r \<in> set rows \<Longrightarrow> global_seq r \<le> max_global_seq rows"
proof -
  have "y \<le> fold max xs y \<and> (\<forall>x \<in> set xs. x \<le> fold max xs y)" for xs :: "nat list" and y
  proof (induction xs arbitrary: y)
    case (Cons x xs)
    show ?case using Cons [of "max x y"] by auto
  qed simp
  then show "r \<in> set rows \<Longrightarrow> ?thesis" by (auto simp: max_global_seq_def)
qed

lemma insert_event_Inr:
  assumes "insert_event db r = Inr db'" "sq_inv db"
  shows "sq_inv db' \<and> (\<exists>x. db_journal db' = db_journal db @ [x] \<and> row_key x = (nr_pid r, nr_seqNr r)
      \<and> row_entry x = (nr_seqNr r, nr_manifest r, nr_payload r)) \<and> db_snapshots db' = db_snapshots db"
proof -
  from assms(1) obtain x where db': "db' = db\<lparr>db_journal := db_journal db @ [x]\<rparr>"
    and x: "global_seq x = Suc (max_global_seq (db_journal db))" "row_key x = (nr_pid r, nr_seqNr r)"
      "event_id x = map_option eventId (nr_envelope r)" "row_entry x = (nr_seqNr r, nr_manifest r, nr_payload r)"
    and pk: "\<forall>y \<in> set (db_journal db). row_key y \<noteq> row_key x"
    and ev: "\<forall>y \<in> set (db_journal db). event_id x \<noteq> None \<longrightarrow> event_id y \<noteq> event_id x"
    by (cases "nr_envelope r") (fastforce simp: insert_event_def row_entry_def list_ex_iff split: if_splits)+
  have "\<forall>y \<in> set (db_journal db). global_seq y < global_seq x"
    using max_global_seq_ge by (auto simp: x(1) less_Suc_eq_le)
  moreover have "distinct (map row_key (db_journal db @ [x]))" using assms(2) pk by (auto simp: sq_inv_def)
  ultimately show ?thesis
    using assms(2) ev x unfolding db' sq_inv_def by (auto simp: sorted_wrt_append)
qed

lemma insertMany_Inr:
  assumes "insertManyEvents db rows = Inr db'" "sq_inv db"
  shows "sq_inv db' \<and> db_snapshots db' = db_snapshots db
    \<and> (\<exists>new. db_journal db' = db_journal db @ new
         \<and> map row_key new = map (\<lambda>r. (nr_pid r, nr_seqNr r)) rows
         \<and> map row_entry new = map (\<lambda>r. (nr_seqNr r, nr_manifest r, nr_payload r)) rows)"
  using assms unfolding insertManyEvents_def
proof (induction rows arbitrary: db)
  case (Cons r rows)
  from Cons.prems(1) obtain db1 where s: "insert_event db r = Inr db1" "foldE insert_event db1 rows = Inr db'"
    by (auto split: sum.splits)
  from insert_event_Inr [OF s(1) Cons.prems(2)] obtain x where x: "sq_inv db1" "db_journal db1 = db_journal db @ [x]"
    "row_key x = (nr_pid r, nr_seqNr r)" "row_entry x = (nr_seqNr r, nr_manifest r, nr_payload r)"
    "db_snapshots db1 = db_snapshots db" by blast
  from Cons.IH [OF s(2) x(1)] obtain new where new: "sq_inv db'" "db_snapshots db' = db_snapshots db1"
    "db_journal db' = db_journal db1 @ new" "map row_key new = map (\<lambda>r. (nr_pid r, nr_seqNr r)) rows"
    "map row_entry new = map (\<lambda>r. (nr_seqNr r, nr_manifest r, nr_payload r)) rows" by blast
  then show ?case using x by (intro conjI exI [of _ "x # new"]) auto
qed auto

lemma exists_event_insert: "insert_event db r = Inr db' \<Longrightarrow> exists_event db pid n \<Longrightarrow> exists_event db' pid n"
  by (auto simp: insert_event_def exists_event_def split: if_splits)

lemma insertMany_collision:
  assumes "r \<in> set rows" "exists_event db (nr_pid r) (nr_seqNr r)"
  shows "\<exists>e. insertManyEvents db rows = Inl e"
  using assms unfolding insertManyEvents_def
proof (induction rows arbitrary: db)
  case (Cons q rows)
  show ?case
  proof (cases "insert_event db q")
    case (Inr db1)
    have "\<not> exists_event db (nr_pid q) (nr_seqNr q)"
      using Inr by (simp add: insert_event_def exists_event_def split: if_split_asm)
    with Cons.prems have "r \<in> set rows" by auto
    from Cons.IH [OF this exists_event_insert [OF Inr Cons.prems(2)]] Inr show ?thesis by simp
  qed simp
qed simp

lemma to_rows_keys:
  "map (\<lambda>r. (nr_pid r, nr_seqNr r)) (to_rows pid start codec envs es) = map (Pair pid) [Suc start ..< Suc start + length es]"
  "map (\<lambda>r. (nr_seqNr r, nr_manifest r, nr_payload r)) (to_rows pid start codec envs es) = log_entries codec start es"
proof -
  show "map (\<lambda>r. (nr_seqNr r, nr_manifest r, nr_payload r)) (to_rows pid start codec envs es) = log_entries codec start es"
    by (simp add: to_rows_def log_entries_def case_prod_unfold comp_def)
  have "map (\<lambda>r. (nr_pid r, nr_seqNr r)) (to_rows pid start codec envs es) =
      map (\<lambda>(i, e). (pid, Suc (start + i))) (zip [0 ..< length es] es)"
    by (simp add: to_rows_def case_prod_unfold comp_def)
  also have "\<dots> = map (Pair pid) (map (\<lambda>i. Suc (start + i)) [0 ..< length es])"
    by (simp add: map_zip_index [of "\<lambda>i. (pid, Suc (start + i))"])
  finally show "map (\<lambda>r. (nr_pid r, nr_seqNr r)) (to_rows pid start codec envs es) = map (Pair pid) [Suc start ..< Suc start + length es]"
    by (simp only: map_upt_shift)
qed

lemma insort_append: "\<forall>y \<in> set ys. f x \<le> f y \<Longrightarrow> insort_key f x (xs @ ys) = insort_key f x xs @ ys"
proof (induction xs)
  case Nil
  then show ?case by (cases ys) auto
qed auto

lemma sort_key_append:
  assumes "sorted (map f ys)" "\<forall>x \<in> set xs. \<forall>y \<in> set ys. f x \<le> f y"
  shows "sort_key f (xs @ ys) = sort_key f xs @ ys"
  using assms(2)
proof (induction xs)
  case Nil
  show ?case using assms(1) by (simp add: sort_key_id_if_sorted)
next
  case (Cons x xs)
  then show ?case by (simp add: insort_append)
qed

lemma sq_log_append:
  assumes "\<forall>n \<in> fst ` set (sq_log db key). n \<le> start" "db_journal db' = db_journal db @ new"
    and "map row_key new = map (Pair key) [Suc start ..< Suc start + length es]"
    and "map row_entry new = log_entries codec start es"
  shows "sq_log db' = (sq_log db)(key := sq_log db key @ log_entries codec start es)"
proof
  fix k
  have pids: "persistence_id x = key" if "x \<in> set new" for x
  proof -
    have "row_key x \<in> set (map row_key new)" using that by force
    then show ?thesis unfolding assms(3) by auto
  qed
  have "map snd (map row_key new) = [Suc start ..< Suc start + length es]" unfolding assms(3) by (simp add: comp_def)
  then have seqs: "map sequence_nr new = [Suc start ..< Suc start + length es]" by (simp add: comp_def)
  show "sq_log db' k = ((sq_log db)(key := sq_log db key @ log_entries codec start es)) k"
  proof (cases "k = key")
    case True
    let ?old = "filter (\<lambda>r. persistence_id r = key) (db_journal db)"
    have old: "\<forall>x \<in> set ?old. sequence_nr x \<le> start"
      using assms(1) by (force simp: sq_log_def row_entry_def)
    have "start < sequence_nr y" if "y \<in> set new" for y
    proof -
      from that have "sequence_nr y \<in> set (map sequence_nr new)" by simp
      then show ?thesis unfolding seqs by (simp del: upt_Suc)
    qed
    then have "\<forall>x \<in> set ?old. \<forall>y \<in> set new. sequence_nr x \<le> sequence_nr y" using old by (meson le_less_trans less_imp_le)
    then have "sort_key sequence_nr (?old @ new) = sort_key sequence_nr ?old @ new"
      by (intro sort_key_append) (simp_all add: seqs del: upt_Suc)
    moreover have "filter (\<lambda>r. persistence_id r = key) new = new" using pids by simp
    ultimately show ?thesis using True assms(2,4) by (simp add: sq_log_def)
  next
    case False
    then have "filter (\<lambda>r. persistence_id r = k) new = []" using pids by (auto simp: filter_empty_conv)
    with False assms(2) show ?thesis by (simp add: sq_log_def)
  qed
qed

lemma row_decoder_log: "row_decoder (\<lambda>rows. decode_log codec (map row_entry rows))"
  by (simp add: row_decoder_def decode_log_append)

lemma sq_loadEvents_eq:
  assumes "sq_inv db"
  shows "sq_loadEvents db c e n codec = decode_log codec (filter (\<lambda>x. n < fst x) (sq_log db (persistenceKey c e)))"
proof -
  let ?P = "\<lambda>r. persistence_id r = persistenceKey c e"
  have "distinct (map row_key (filter ?P (db_journal db)))"
    using assms by (auto simp: sq_inv_def intro: distinct_map_filter)
  then have "distinct (map sequence_nr (filter ?P (db_journal db)))"
    by (auto simp: distinct_map inj_on_def)
  then have "sq_loadEvents db c e n codec = decode_log codec (map row_entry (rows_after sequence_nr ?P n (db_journal db)))"
    unfolding sq_loadEvents_def by (rule scan_pages_all [OF row_decoder_log])
  also have "rows_after sequence_nr ?P n (db_journal db) = filter (\<lambda>r. n < sequence_nr r) (sort_key sequence_nr (filter ?P (db_journal db)))"
    by (simp add: rows_after_def filter_sort)
  finally show ?thesis by (simp add: sq_log_def filter_map comp_def row_entry_def [abs_def])
qed

lemma sq_inv_snapshot [simp]: "sq_inv (upsertSnapshot db pid n m d) = sq_inv db"
  by (simp add: sq_inv_def upsertSnapshot_def)

lemma sq_persist_contract:
  assumes "sq_inv db" "\<forall>n \<in> fst ` set (sq_log db (persistenceKey c e)). n \<le> start"
    and "sq_persistEvents db c e es start codec envs = Inr (n, db')"
  shows "n = start + length es \<and> sq_inv db'
    \<and> sq_log db' = (sq_log db)(persistenceKey c e := sq_log db (persistenceKey c e) @ log_entries codec start es)
    \<and> sq_snap db' = sq_snap db"
proof (cases "es = []")
  case True
  with assms show ?thesis by (auto simp: sq_persistEvents_def)
next
  case False
  with assms(3) have i: "insertManyEvents db (to_rows (persistenceKey c e) start codec envs es) = Inr db'" "n = start + length es"
    by (auto simp: sq_persistEvents_def Let_def split: sum.splits sql_error.splits option.splits)
  from insertMany_Inr [OF i(1) assms(1)] obtain new where "sq_inv db'" "db_snapshots db' = db_snapshots db"
    "db_journal db' = db_journal db @ new" "map row_key new = map (Pair (persistenceKey c e)) [Suc start ..< Suc start + length es]"
    "map row_entry new = log_entries codec start es" unfolding to_rows_keys by blast
  with i(2) sq_log_append [OF assms(2)] show ?thesis by (auto simp: sq_snap_def [abs_def])
qed

lemma sq_exists_log: "exists_event db key n \<longleftrightarrow> n \<in> fst ` set (sq_log db key)"
  by (force simp: exists_event_def sq_log_def row_entry_def list_ex_iff)

lemma sq_persist_collides:
  assumes "start < m" "m \<le> start + length es" "m \<in> fst ` set (sq_log db (persistenceKey c e))"
  shows "\<exists>err. sq_persistEvents db c e es start codec envs = Inl err"
proof -
  let ?rows = "to_rows (persistenceKey c e) start codec envs es"
  have "(persistenceKey c e, m) \<in> set (map (\<lambda>r. (nr_pid r, nr_seqNr r)) ?rows)"
    unfolding to_rows_keys using assms(1,2) by auto
  then obtain r where "r \<in> set ?rows" "nr_pid r = persistenceKey c e" "nr_seqNr r = m" by auto
  then obtain x where "insertManyEvents db ?rows = Inl x"
    using insertMany_collision [of r ?rows db] assms(3) sq_exists_log by metis
  moreover have "es \<noteq> []" using assms by auto
  ultimately show ?thesis
    by (cases x) (auto simp: sq_persistEvents_def Let_def split: option.splits)
qed

interpretation sqlite: journal_contract sqlite_journal sq_inv sq_log sq_snap
proof
  fix j :: "'a sqlite_db" and c e :: string and start es codec envs n j'
  show "sq_inv j \<Longrightarrow> \<forall>n \<in> fst ` set (sq_log j (persistenceKey c e)). n \<le> start \<Longrightarrow>
      persistEvents sqlite_journal j c e es start codec envs = Inr (n, j') \<Longrightarrow>
      n = start + length es \<and> sq_inv j' \<and>
      sq_log j' = (sq_log j)(persistenceKey c e := sq_log j (persistenceKey c e) @ log_entries codec start es) \<and>
      sq_snap j' = sq_snap j"
    unfolding sqlite_journal_def journal.simps by (rule sq_persist_contract)
qed (auto simp: sqlite_journal_def sq_persist_collides sq_loadEvents_eq sq_persistSnapshot_def
    sq_loadSnapshot_def sq_snap_def sq_log_def upsertSnapshot_def sq_inv_def fun_eq_iff split: option.splits)

end
