(* ===== verification/Sqlite_Queries.thy ===== *)
theory Sqlite_Queries
  imports Sqlite_Journal
begin

text \<open>
  The read side of \<open>sqlite/journal.ts\<close> (\<open>mapRow\<close>, \<open>queryEvents\<close>, \<open>causationChain\<close>, \<open>allEvents\<close>,
  raw inspection), \<open>sqlite/read-journal.ts\<close>, the live tails, and the maintenance deletes of
  \<open>sqlite/clean-journal.ts\<close>.
\<close>

section \<open>Rows as the reader returns them\<close>

record 'd query_row =
  q_globalSeq :: nat
  q_category :: string
  q_entityId :: string
  q_sequenceNr :: nat
  q_manifest :: string
  q_payload :: 'd
  q_ts :: int
  q_envelope :: "envelope option"

text \<open>\<open>indexOf(":")\<close> and the two slices around it.\<close>

definition split_pid :: "string \<Rightarrow> string \<times> string" where
  "split_pid pid =
     (if CHR '':'' \<notin> set pid then (pid, [])
      else let sep = length (takeWhile (\<lambda>c. c \<noteq> CHR '':'') pid) in (take sep pid, drop (sep + 1) pid))"

definition mapRow :: "'d journal_row \<Rightarrow> 'd query_row" where
  "mapRow r =
     (let ce = split_pid (persistence_id r)
      in \<lparr>q_globalSeq = global_seq r, q_category = fst ce, q_entityId = snd ce, q_sequenceNr = sequence_nr r,
          q_manifest = row_manifest r, q_payload = row_payload r, q_ts = row_timestamp r,
          q_envelope = (case event_id r of None \<Rightarrow> None
            | Some i \<Rightarrow> Some \<lparr>eventId = i, causationId = causation_id r, correlationId = correlation_id r,
                           origin = row_origin r, env_v = (case row_env_v r of None \<Rightarrow> 1 | Some v \<Rightarrow> v)\<rparr>)\<rparr>)"

lemma split_pid_key: "colon_free c \<Longrightarrow> split_pid (persistenceKey c e) = (c, e)"
  using takeWhile_key [of c e] by (simp add: split_pid_def persistenceKey_def Let_def)

section \<open>Queries\<close>

record journal_query =
  jq_category :: "string option"
  jq_entityId :: "string option"
  jq_cursor :: "nat option"
  jq_sinceMs :: "int option"
  jq_causationId :: "string option"
  jq_correlationId :: "string option"
  jq_limit :: "int option"
  jq_desc :: "bool option"

definition query_desc :: "journal_query \<Rightarrow> bool" where
  "query_desc q = (case jq_desc q of None \<Rightarrow> True | Some b \<Rightarrow> b)"

definition query_limit :: "journal_query \<Rightarrow> nat" where
  "query_limit q = nat (max 1 (min (case jq_limit q of None \<Rightarrow> 100 | Some n \<Rightarrow> n) 1000))"

text \<open>The conditions of the \<open>WHERE\<close> clause, except the cursor's.\<close>

definition query_where :: "journal_query \<Rightarrow> 'd journal_row \<Rightarrow> bool" where
  "query_where q r \<longleftrightarrow>
     (case (jq_entityId q, jq_category q) of
        (Some e, Some c) \<Rightarrow> persistence_id r = c @ '':'' @ e
      | (None, Some c) \<Rightarrow> sql_like (c @ '':%'') (persistence_id r)
      | _ \<Rightarrow> True)
     \<and> (case jq_sinceMs q of None \<Rightarrow> True | Some ms \<Rightarrow> ms div 1000 \<le> row_timestamp r)
     \<and> (case jq_causationId q of None \<Rightarrow> True | Some i \<Rightarrow> causation_id r = Some i)
     \<and> (case jq_correlationId q of None \<Rightarrow> True | Some i \<Rightarrow> correlation_id r = Some i)"

definition query_cursor :: "journal_query \<Rightarrow> 'd journal_row \<Rightarrow> bool" where
  "query_cursor q r \<longleftrightarrow>
     (case jq_cursor q of None \<Rightarrow> True
      | Some cur \<Rightarrow> if query_desc q then global_seq r < cur else cur < global_seq r)"

text \<open>All the rows a query selects, in its order, and its page.\<close>

definition query_all :: "'d sqlite_db \<Rightarrow> journal_query \<Rightarrow> 'd journal_row list" where
  "query_all db q =
     (let rows = sort_key global_seq (filter (\<lambda>r. query_where q r \<and> query_cursor q r) (db_journal db))
      in if query_desc q then rev rows else rows)"

definition queryEvents :: "'d sqlite_db \<Rightarrow> journal_query \<Rightarrow> js_error + 'd query_row list" where
  "queryEvents db q =
     (if jq_entityId q \<noteq> None \<and> jq_category q = None
      then Inl (JsError ''JournalQuery: entityId filter requires category'')
      else Inr (map mapRow (take (query_limit q) (query_all db q))))"

lemma db_journal_sorted: "sq_inv db \<Longrightarrow> sort_key global_seq (filter P (db_journal db)) = filter P (db_journal db)"
  by (rule sort_key_id_if_sorted)
    (auto simp: sq_inv_def sorted_wrt_map sorted_map intro!: sorted_wrt_filter elim: sorted_wrt_mono_rel [rotated])

lemma sorted_filter_after:
  assumes "sorted_wrt (<) (map f xs)" "n < length xs"
  shows "filter (\<lambda>r. f (xs ! n) < (f r :: nat)) xs = drop (Suc n) xs"
proof -
  have d: "xs = take (Suc n) xs @ drop (Suc n) xs" by simp
  have "filter (\<lambda>r. f (xs ! n) < f r) (take (Suc n) xs) = []"
  proof (simp only: filter_empty_conv, intro ballI)
    fix r assume "r \<in> set (take (Suc n) xs)"
    then obtain i where "i \<le> n" "r = xs ! i" by (auto simp: in_set_conv_nth less_Suc_eq_le)
    with sorted_wrt_nth_less [OF assms(1), of i n] assms(2) show "\<not> f (xs ! n) < f r" by (cases "i = n") auto
  qed
  moreover have "filter (\<lambda>r. f (xs ! n) < f r) (drop (Suc n) xs) = drop (Suc n) xs"
    using assms by (auto simp: filter_id_conv in_set_conv_nth sorted_wrt_iff_nth_less)
  ultimately show ?thesis by (metis append_Nil append_take_drop_id filter_append)
qed

lemma sorted_filter_before:
  assumes "sorted_wrt (<) (map f xs)" "n < length xs"
  shows "rev (filter (\<lambda>r. (f r :: nat) < f (rev xs ! n)) xs) = drop (Suc n) (rev xs)"
proof -
  let ?k = "length xs - Suc n"
  have k: "rev xs ! n = xs ! ?k" using assms(2) by (simp add: rev_nth)
  have kl: "?k < length xs" using assms(2) by simp
  have "filter (\<lambda>r. f r < f (xs ! ?k)) (take ?k xs) = take ?k xs"
    using assms(1) kl by (auto simp: filter_id_conv in_set_conv_nth sorted_wrt_iff_nth_less)
  moreover have "filter (\<lambda>r. f r < f (xs ! ?k)) (drop ?k xs) = []"
  proof (simp only: filter_empty_conv, intro ballI)
    fix r assume "r \<in> set (drop ?k xs)"
    then obtain i where "i < length (drop ?k xs)" "r = drop ?k xs ! i" by (metis in_set_conv_nth)
    then have "?k + i < length xs" "r = xs ! (?k + i)" using kl by (auto simp: nth_drop)
    with sorted_wrt_nth_less [OF assms(1), of ?k "?k + i"] show "\<not> f r < f (xs ! ?k)" by (cases i) auto
  qed
  ultimately have "filter (\<lambda>r. f r < f (xs ! ?k)) xs = take ?k xs"
    by (metis append_Nil2 append_take_drop_id filter_append)
  moreover have "length xs - ?k = Suc n" using assms(2) by simp
  ultimately show ?thesis unfolding k by (simp only: rev_take)
qed

text \<open>
  Paging through a query is complete and without repeats: a page holds at most the limit, which
  is at least 1 and at most 1000 whatever is asked for; the query from the last row of a
  page as its cursor selects exactly the rest, in the same order, for both orders.
\<close>

lemma query_pages_resume:
  assumes "sq_inv db" "queryEvents db q = Inr page" "page \<noteq> []"
  shows "1 \<le> query_limit q \<and> query_limit q \<le> 1000 \<and> length page \<le> query_limit q
    \<and> page = map mapRow (take (query_limit q) (query_all db q))
    \<and> query_all db (q\<lparr>jq_cursor := Some (q_globalSeq (last page))\<rparr>) = drop (length page) (query_all db q)"
proof -
  let ?q = "q\<lparr>jq_cursor := Some (q_globalSeq (last page))\<rparr>"
  let ?rows = "filter (\<lambda>r. query_where q r \<and> query_cursor q r) (db_journal db)"
  have srt: "sorted_wrt (<) (map global_seq ?rows)"
    using assms(1) by (auto simp: sq_inv_def sorted_wrt_map intro: sorted_wrt_filter)
  have all: "query_all db q = (if query_desc q then rev ?rows else ?rows)"
    by (simp add: query_all_def db_journal_sorted [OF assms(1)])
  have page: "page = map mapRow (take (query_limit q) (query_all db q))"
    using assms(2) by (auto simp: queryEvents_def split: if_splits)
  define n where "n = length page - 1"
  have n: "n < length (query_all db q)" "length page = Suc n"
    using assms(3) unfolding n_def page by (cases "query_all db q", auto)+
  have len: "length (query_all db q) = length ?rows" by (simp add: all)
  have lst: "q_globalSeq (last page) = global_seq (query_all db q ! n)"
  proof -
    have "page ! n = mapRow (query_all db q ! n)"
      using page n(2) by (metis length_map length_take lessI min_less_iff_conj nth_map nth_take)
    moreover have "last page = page ! n" by (simp add: last_conv_nth n_def assms(3))
    ultimately show ?thesis by (simp add: mapRow_def Let_def)
  qed
  have w: "query_where ?q = query_where q" "query_desc ?q = query_desc q"
    by (simp_all add: query_where_def query_desc_def fun_eq_iff)
  have q: "query_all db ?q =
      (if query_desc q then rev (filter (\<lambda>r. query_where q r \<and> global_seq r < q_globalSeq (last page)) (db_journal db))
       else filter (\<lambda>r. query_where q r \<and> q_globalSeq (last page) < global_seq r) (db_journal db))"
    by (simp add: query_all_def db_journal_sorted [OF assms(1)] w query_cursor_def)
  have "query_all db ?q = drop (Suc n) (query_all db q)"
  proof (cases "query_desc q")
    case True
    have "(query_where q r \<and> global_seq r < q_globalSeq (last page)) =
        (global_seq r < global_seq (rev ?rows ! n) \<and> query_where q r \<and> query_cursor q r)" if "r \<in> set (db_journal db)" for r
    proof -
      have "query_cursor q (rev ?rows ! n)" using n(1) nth_mem [of n "rev ?rows"] by (simp add: all True)
      then show ?thesis using True lst by (auto simp: query_cursor_def all split: option.splits)
    qed
    then have "filter (\<lambda>r. query_where q r \<and> global_seq r < q_globalSeq (last page)) (db_journal db)
        = filter (\<lambda>r. global_seq r < global_seq (rev ?rows ! n)) ?rows"
      by (simp add: conj_commute cong: filter_cong)
    then show ?thesis
      using sorted_filter_before [OF srt, of n] n(1) len True by (simp only: q all if_True if_False)
  next
    case False
    have "(query_where q r \<and> q_globalSeq (last page) < global_seq r) =
        (global_seq (?rows ! n) < global_seq r \<and> query_where q r \<and> query_cursor q r)" if "r \<in> set (db_journal db)" for r
    proof -
      have "query_cursor q (?rows ! n)" using n(1) nth_mem [of n ?rows] by (simp add: all False)
      then show ?thesis using False lst by (auto simp: query_cursor_def all split: option.splits)
    qed
    then have "filter (\<lambda>r. query_where q r \<and> q_globalSeq (last page) < global_seq r) (db_journal db)
        = filter (\<lambda>r. global_seq (?rows ! n) < global_seq r) ?rows"
      by (simp add: conj_commute cong: filter_cong)
    then show ?thesis
      using sorted_filter_after [OF srt, of n] n(1) len False by (simp only: q all if_True if_False)
  qed
  moreover have "length page \<le> query_limit q" by (simp add: page)
  moreover have "1 \<le> query_limit q" "query_limit q \<le> 1000" by (auto simp: query_limit_def)
  ultimately show ?thesis using page n(2) by simp
qed

text \<open>Two events of one entity, queried one at a time, newest first.\<close>

definition demo_row :: "nat \<Rightarrow> unit journal_row" where
  "demo_row n = \<lparr>global_seq = n, persistence_id = ''c:e'', sequence_nr = n, row_manifest = ''E'', row_payload = (),
     row_timestamp = 0, event_id = None, causation_id = None, correlation_id = None, row_origin = None,
     row_env_v = None\<rparr>"

definition demo_db :: "unit sqlite_db" where
  "demo_db = \<lparr>db_journal = [demo_row 1, demo_row 2], db_snapshots = [], db_now = 0\<rparr>"

definition demo_query :: journal_query where
  "demo_query = \<lparr>jq_category = Some ''c'', jq_entityId = None, jq_cursor = None, jq_sinceMs = None,
     jq_causationId = None, jq_correlationId = None, jq_limit = Some (-5), jq_desc = None\<rparr>"

lemma demo_db_inv: "sq_inv demo_db"
  by (simp add: sq_inv_def demo_db_def demo_row_def)

lemma query_pages_resume_example:
  "queryEvents demo_db demo_query = Inr [mapRow (demo_row 2)]
   \<and> query_all demo_db (demo_query\<lparr>jq_cursor := Some 2\<rparr>) = [demo_row 1]"
proof -
  have all: "query_all demo_db demo_query = [demo_row 2, demo_row 1]"
    by (simp add: query_all_def db_journal_sorted [OF demo_db_inv])
      (simp add: demo_db_def demo_row_def demo_query_def query_where_def query_cursor_def query_desc_def ascii_lower_def)
  have page: "queryEvents demo_db demo_query = Inr [mapRow (demo_row 2)]"
    by (simp add: queryEvents_def all) (simp add: demo_query_def query_limit_def)
  moreover have "q_globalSeq (mapRow (demo_row 2)) = 2" by (simp add: mapRow_def demo_row_def Let_def)
  ultimately show ?thesis using query_pages_resume [OF demo_db_inv page] by (simp add: all)
qed

section \<open>Causation chains\<close>

definition eventByEventId :: "'d sqlite_db \<Rightarrow> string \<Rightarrow> 'd query_row option" where
  "eventByEventId db i = map_option mapRow (List.find (\<lambda>r. event_id r = Some i) (db_journal db))"

definition cause_of :: "'d sqlite_db \<Rightarrow> 'd query_row \<Rightarrow> 'd query_row option" where
  "cause_of db row = Option.bind (Option.bind (q_envelope row) causationId) (eventByEventId db)"

text \<open>The loop, with what is left of \<open>maxDepth\<close>.\<close>

fun chain_from :: "'d sqlite_db \<Rightarrow> nat \<Rightarrow> 'd query_row option \<Rightarrow> 'd query_row list" where
  "chain_from db 0 current = []"
| "chain_from db (Suc n) None = []"
| "chain_from db (Suc n) (Some row) = row # chain_from db n (cause_of db row)"

definition causationChain :: "'d sqlite_db \<Rightarrow> string \<Rightarrow> int option \<Rightarrow> 'd query_row list" where
  "causationChain db i maxDepth =
     chain_from db (nat (case maxDepth of None \<Rightarrow> 25 | Some n \<Rightarrow> n)) (eventByEventId db i)"

lemma chain_from_spec:
  "length (chain_from db n cur) \<le> n
   \<and> (chain_from db n cur \<noteq> [] \<longrightarrow> cur = Some (hd (chain_from db n cur)))
   \<and> (\<forall>i. Suc i < length (chain_from db n cur) \<longrightarrow>
        cause_of db (chain_from db n cur ! i) = Some (chain_from db n cur ! Suc i))
   \<and> (length (chain_from db n cur) < n \<longrightarrow>
        (if cur = None then chain_from db n cur = []
         else chain_from db n cur \<noteq> [] \<and> cause_of db (last (chain_from db n cur)) = None))"
proof (induction db n cur rule: chain_from.induct)
  case (3 db n row)
  let ?rest = "chain_from db n (cause_of db row)"
  have "cause_of db ((row # ?rest) ! i) = Some ((row # ?rest) ! Suc i)" if "Suc i < length (row # ?rest)" for i
  proof (cases i)
    case 0
    with that 3 show ?thesis by (cases ?rest) auto
  next
    case (Suc k)
    with that 3 show ?thesis by simp
  qed
  moreover have "cause_of db (last (row # ?rest)) = None" if "length (row # ?rest) < Suc n"
    using that 3 by (cases "cause_of db row") auto
  ultimately show ?case using 3 by auto
qed auto

text \<open>
  A causation chain starts with the event asked for, each next element is the event that the
  previous one names as its cause, it has at most \<open>maxDepth\<close> elements (also when events
  cause each other in a circle), and it is shorter only when the last event names no
  cause or a cause that is not in the journal.
\<close>

lemma causation_chain_walk:
  fixes db i maxDepth
  defines "chain \<equiv> causationChain db i (Some maxDepth)"
  shows "length chain \<le> nat maxDepth
   \<and> (chain \<noteq> [] \<longrightarrow> eventByEventId db i = Some (hd chain))
   \<and> (\<forall>k. Suc k < length chain \<longrightarrow> cause_of db (chain ! k) = Some (chain ! Suc k))
   \<and> (length chain < nat maxDepth \<longrightarrow> eventByEventId db i = None \<or> (chain \<noteq> [] \<and> cause_of db (last chain) = None))"
  using chain_from_spec [of db "nat maxDepth" "eventByEventId db i"]
  by (auto simp: chain_def causationChain_def split: if_splits)

lemma causation_chain_walk_example:
  "length (causationChain (demo_db\<lparr>db_journal := [(demo_row 1)\<lparr>event_id := Some ''a'', causation_id := Some ''a''\<rparr>]\<rparr>) ''a'' (Some 3)) = 3"
proof -
  let ?db = "demo_db\<lparr>db_journal := [(demo_row 1)\<lparr>event_id := Some ''a'', causation_id := Some ''a''\<rparr>]\<rparr>"
  let ?chain = "causationChain ?db ''a'' (Some 3)"
  obtain row where row: "eventByEventId ?db ''a'' = Some row" "cause_of ?db row = Some row"
    by (simp add: eventByEventId_def cause_of_def mapRow_def demo_row_def Let_def)
  note w = causation_chain_walk [of ?db "''a''" 3]
  have all: "?chain ! k = row" if "k < length ?chain" for k
    using that
  proof (induction k)
    case 0
    then have "?chain \<noteq> []" by auto
    then have "eventByEventId ?db ''a'' = Some (hd ?chain)" using w by blast
    with row(1) \<open>?chain \<noteq> []\<close> show ?case by (simp add: hd_conv_nth)
  next
    case (Suc k)
    then have "cause_of ?db (?chain ! k) = Some (?chain ! Suc k)" using w by blast
    with Suc row(2) show ?case by simp
  qed
  have "\<not> length ?chain < 3"
  proof
    assume "length ?chain < 3"
    then have "?chain \<noteq> []" "cause_of ?db (last ?chain) = None" using w row(1) by auto
    moreover have "last ?chain = row" using all \<open>?chain \<noteq> []\<close> by (simp add: last_conv_nth)
    ultimately show False using row(2) by simp
  qed
  with w show ?thesis by simp
qed

section \<open>All events of a category\<close>

lemma row_decoder_category: "row_decoder (decode_category_rows plen codec)"
proof -
  have "decode_category_rows plen codec (xs @ ys) =
     (case decode_category_rows plen codec xs of Inl e \<Rightarrow> Inl e
      | Inr a \<Rightarrow> (case decode_category_rows plen codec ys of Inl e \<Rightarrow> Inl e | Inr b \<Rightarrow> Inr (a @ b)))" for xs ys
    by (induction xs) (auto split: sum.splits)
  then show ?thesis by (simp add: row_decoder_def)
qed

lemma sql_like_category_nonempty: "sql_like (xs @ '':%'') s \<Longrightarrow> s \<noteq> []"
  by (cases s) (induction xs, auto)

text \<open>
  Reading a category page by page gives what one sorted read gives: \<open>allEvents\<close> returns
  every event whose key matches the category's pattern exactly once, by key and then
  by sequence number, and throws at the first event in that order that does not decode.
\<close>

lemma all_events_paged:
  assumes "sq_inv db"
  shows "sq_allEvents db categoryId codec =
    decode_category_rows (length (categoryId @ '':'')) codec
      (sort_key row_key (filter (\<lambda>r. sql_like (categoryId @ '':%'') (persistence_id r)) (db_journal db)))"
proof -
  let ?P = "\<lambda>r. sql_like (categoryId @ '':%'') (persistence_id r)"
  have "distinct (map row_key (filter ?P (db_journal db)))"
    using assms by (auto simp: sq_inv_def intro: distinct_map_filter)
  then have "sq_allEvents db categoryId codec =
      decode_category_rows (length (categoryId @ '':'')) codec (rows_after row_key ?P ([], 0) (db_journal db))"
    unfolding sq_allEvents_def by (rule scan_pages_all [OF row_decoder_category])
  moreover have "(?P r \<and> ([], 0) < row_key r) = ?P r" for r :: "'a journal_row"
  proof -
    have "persistence_id r \<noteq> []" if "?P r" using that by (rule sql_like_category_nonempty)
    then show ?thesis by (cases "persistence_id r") (auto simp: less_prod_def)
  qed
  ultimately show ?thesis by (simp only: rows_after_def)
qed

lemma all_events_paged_example:
  "sq_allEvents demo_db ''c'' (objectCodec ''E'') = Inr [(''e'', 1, ()), (''e'', 2, ())]"
proof -
  have "filter (\<lambda>r. sql_like (''c'' @ '':%'') (persistence_id r)) (db_journal demo_db) = [demo_row 1, demo_row 2]"
    by (simp add: demo_db_def demo_row_def ascii_lower_def)
  then show ?thesis
    using all_events_paged [OF demo_db_inv, of "''c''" "objectCodec ''E''"]
    by (simp add: demo_row_def objectCodec_def)
qed

text \<open>
  The pattern is not the category: \<open>_\<close> matches any character and letters match in either case,
  so the events of other categories are read as this one's.
\<close>

lemma category_pattern_leaks:
  "sql_like (''user_log'' @ '':%'') (persistenceKey ''user-log'' ''1'')"
  "sql_like (''User'' @ '':%'') (persistenceKey ''user'' ''1'')"
  by code_simp+

section \<open>Raw inspection and the read journal\<close>

definition lastGlobalSeq :: "'d sqlite_db \<Rightarrow> nat" where
  "lastGlobalSeq db = max_global_seq (db_journal db)"

text \<open>\<open>SELECT DISTINCT persistence_id ... ORDER BY persistence_id\<close>.\<close>

definition distinct_ids :: "('d journal_row \<Rightarrow> bool) \<Rightarrow> 'd sqlite_db \<Rightarrow> string list" where
  "distinct_ids cond db = sort (remdups (map persistence_id (filter cond (db_journal db))))"

definition entityIds :: "'d sqlite_db \<Rightarrow> string \<Rightarrow> string list" where
  "entityIds db category =
     map (drop (length (category @ '':''))) (distinct_ids (\<lambda>r. sql_like (category @ '':%'') (persistence_id r)) db)"

text \<open>A negative \<open>LIMIT\<close> is none; \<open>rawEvents\<close> clamps only from above.\<close>

definition sql_limit :: "int \<Rightarrow> 'a list \<Rightarrow> 'a list" where
  "sql_limit n xs = (if n < 0 then xs else take (nat n) xs)"

definition rawEvents ::
  "'d sqlite_db \<Rightarrow> string \<Rightarrow> string \<Rightarrow> nat option \<Rightarrow> int option \<Rightarrow> (nat \<times> string \<times> 'd) list" where
  "rawEvents db category entityId fromSequenceNr lim =
     map row_entry (sql_limit (min (case lim of None \<Rightarrow> 1000 | Some n \<Rightarrow> n) 10000)
       (rows_after sequence_nr (\<lambda>r. persistence_id r = persistenceKey category entityId)
          (case fromSequenceNr of None \<Rightarrow> 0 | Some n \<Rightarrow> n) (db_journal db)))"

definition snapshotRaw :: "'d sqlite_db \<Rightarrow> string \<Rightarrow> string \<Rightarrow> (nat \<times> string \<times> 'd) option" where
  "snapshotRaw db category entityId =
     map_option (\<lambda>r. (sn_sequence_nr r, sn_manifest r, sn_payload r)) (js_get (db_snapshots db) (persistenceKey category entityId))"

text \<open>\<open>GROUP BY\<close> without an order: the model lists the groups by key.\<close>

definition lastWrittenAt :: "'d sqlite_db \<Rightarrow> string \<Rightarrow> (string \<times> int) list" where
  "lastWrittenAt db category =
     map (\<lambda>pid. (drop (length (category @ '':'')) pid,
            Max (set (map row_timestamp (filter (\<lambda>r. persistence_id r = pid) (db_journal db)))) * 1000))
       (distinct_ids (\<lambda>r. sql_like (category @ '':%'') (persistence_id r)) db)"

text \<open>The limit of -1 lifts the cap that \<open>queryEvents\<close> guards against.\<close>

lemma raw_events_unlimited:
  "rawEvents db c e None (Some (-1)) =
     map row_entry (rows_after sequence_nr (\<lambda>r. persistence_id r = persistenceKey c e) 0 (db_journal db))"
  by (simp add: rawEvents_def sql_limit_def)

definition fetchIds :: "'d sqlite_db \<Rightarrow> int option \<Rightarrow> string list" where
  "fetchIds db sinceMs =
     (case sinceMs of
        None \<Rightarrow> distinct_ids (\<lambda>_. True) db
      | Some ms \<Rightarrow> distinct_ids (\<lambda>r. ms div 1000 < row_timestamp r) db)"

definition streamIds :: "'d sqlite_db \<Rightarrow> string list" where
  "streamIds db = distinct_ids (\<lambda>_. True) db"

definition lastOrdinal :: "'d sqlite_db \<Rightarrow> string \<Rightarrow> nat" where
  "lastOrdinal db pid = fold max (map sequence_nr (filter (\<lambda>r. persistence_id r = pid) (db_journal db))) 0"

definition read_events ::
  "'d sqlite_db \<Rightarrow> ('e, 'd) codec \<Rightarrow> string \<Rightarrow> nat \<Rightarrow> nat option \<Rightarrow> js_error + (nat \<times> 'e) list" where
  "read_events db codec pid from_nr to_nr =
     decode_log codec (map row_entry (sort_key sequence_nr (filter (\<lambda>r. persistence_id r = pid \<and> from_nr \<le> sequence_nr r
       \<and> (case to_nr of None \<Rightarrow> True | Some n \<Rightarrow> sequence_nr r < n)) (db_journal db))))"

definition pollIds :: "'d sqlite_db \<Rightarrow> int \<Rightarrow> string list" where
  "pollIds db sinceTimestamp = distinct_ids (\<lambda>r. sinceTimestamp < row_timestamp r) db"

section \<open>Maintenance deletes\<close>

definition delete_events :: "('d journal_row \<Rightarrow> bool) \<Rightarrow> 'd sqlite_db \<Rightarrow> nat \<times> 'd sqlite_db" where
  "delete_events cond db =
     (length (filter cond (db_journal db)), db\<lparr>db_journal := filter (\<lambda>r. \<not> cond r) (db_journal db)\<rparr>)"

definition delete_snapshots :: "(string \<Rightarrow> 'd snapshot_row \<Rightarrow> bool) \<Rightarrow> 'd sqlite_db \<Rightarrow> nat \<times> 'd sqlite_db" where
  "delete_snapshots cond db =
     (length (filter (\<lambda>(k, r). cond k r) (db_snapshots db)),
      db\<lparr>db_snapshots := filter (\<lambda>(k, r). \<not> cond k r) (db_snapshots db)\<rparr>)"

definition deleteJournalEvents where
  "deleteJournalEvents c e = delete_events (\<lambda>r. persistence_id r = persistenceKey c e)"

definition deleteJournalEventsTo where
  "deleteJournalEventsTo c e toSequenceNr =
     delete_events (\<lambda>r. persistence_id r = persistenceKey c e \<and> sequence_nr r \<le> toSequenceNr)"

definition deleteJournalEventsBefore where
  "deleteJournalEventsBefore c beforeMs =
     delete_events (\<lambda>r. sql_like (c @ '':%'') (persistence_id r) \<and> row_timestamp r < beforeMs div 1000)"

definition deleteSnapshots where
  "deleteSnapshots c e = delete_snapshots (\<lambda>k r. k = persistenceKey c e)"

definition deleteSnapshotsTo where
  "deleteSnapshotsTo c e toSequenceNr =
     delete_snapshots (\<lambda>k r. k = persistenceKey c e \<and> sn_sequence_nr r \<le> toSequenceNr)"

definition deleteSnapshotsBefore where
  "deleteSnapshotsBefore c beforeMs =
     delete_snapshots (\<lambda>k r. sql_like (c @ '':%'') k \<and> sn_timestamp r < beforeMs div 1000)"

definition deleteAll :: "string \<Rightarrow> string \<Rightarrow> 'd sqlite_db \<Rightarrow> (nat \<times> nat) \<times> 'd sqlite_db" where
  "deleteAll c e db =
     (let r1 = deleteJournalEvents c e db; r2 = deleteSnapshots c e (snd r1) in ((fst r1, fst r2), snd r2))"

lemma delete_events_inv: "sq_inv db \<Longrightarrow> sq_inv (snd (delete_events cond db))"
  by (auto simp: sq_inv_def delete_events_def sorted_wrt_map intro: distinct_map_filter sorted_wrt_filter)

text \<open>
  The post-snapshot trim is safe: after deleting an entity's events up to a number that its
  snapshot covers, every load from the snapshot's number or later returns what it returned
  before, the snapshot is untouched, no other entity loses an event, and the count
  reported is the number of events deleted.
\<close>

lemma trim_keeps_recent_events:
  assumes "sq_inv db" "deleteJournalEventsTo c e toSeq db = (count, db')" "toSeq \<le> n"
  shows "sq_loadEvents db' c e n codec = sq_loadEvents db c e n codec
    \<and> sq_loadSnapshot db' c' e' scodec = sq_loadSnapshot db c' e' scodec
    \<and> (\<forall>k. k \<noteq> persistenceKey c e \<longrightarrow> sq_log db' k = sq_log db k)
    \<and> length (db_journal db) = length (db_journal db') + count"
proof -
  let ?D = "\<lambda>r. persistence_id r = persistenceKey c e \<and> sequence_nr r \<le> toSeq"
  have db': "db' = db\<lparr>db_journal := filter (\<lambda>r. \<not> ?D r) (db_journal db)\<rparr>" "count = length (filter ?D (db_journal db))"
    using assms(2) by (auto simp: deleteJournalEventsTo_def delete_events_def)
  have inv: "sq_inv db'" using delete_events_inv [OF assms(1), of ?D] by (simp add: db'(1) delete_events_def)
  have eq: "(persistence_id r = k \<and> n < sequence_nr r \<and> \<not> ?D r) = (persistence_id r = k \<and> n < sequence_nr r)" for r k
    using assms(3) by auto
  have "filter (\<lambda>x. n < fst x) (sq_log db' (persistenceKey c e)) = filter (\<lambda>x. n < fst x) (sq_log db (persistenceKey c e))"
    unfolding sq_log_def db'(1)
    by (simp add: filter_map comp_def row_entry_def filter_sort) (metis (no_types, lifting) assms(3) leD le_less_trans less_imp_le filter_cong)
  then have "sq_loadEvents db' c e n codec = sq_loadEvents db c e n codec"
    by (simp add: sq_loadEvents_eq [OF inv] sq_loadEvents_eq [OF assms(1)])
  moreover have "sq_log db' k = sq_log db k" if "k \<noteq> persistenceKey c e" for k
    using that unfolding sq_log_def db'(1) by (simp, metis (mono_tags, lifting) filter_cong)
  moreover have "length (db_journal db) = length (db_journal db') + count"
    using sum_length_filter_compl [of ?D "db_journal db"] by (simp add: db')
  ultimately show ?thesis by (simp add: sq_loadSnapshot_def db'(1))
qed

lemma trim_keeps_recent_events_example:
  "sq_loadEvents (snd (deleteJournalEventsTo ''c'' ''e'' 1 demo_db)) ''c'' ''e'' 1 (objectCodec ''E'')
    = sq_loadEvents demo_db ''c'' ''e'' 1 (objectCodec ''E'') \<and> fst (deleteJournalEventsTo ''c'' ''e'' 1 demo_db) = 1"
proof -
  obtain count db' where d: "deleteJournalEventsTo ''c'' ''e'' 1 demo_db = (count, db')" by fastforce
  have "length (db_journal db') = 1"
    using d by (auto simp: deleteJournalEventsTo_def delete_events_def demo_db_def demo_row_def persistenceKey_def)
  moreover have "length (db_journal demo_db) = 2" by (simp add: demo_db_def)
  moreover note t = trim_keeps_recent_events [OF demo_db_inv d order_refl, of "objectCodec ''E''" "''c''" "''e''" "objectCodec ''E''"]
  ultimately have "count = 1" by linarith
  with t d show ?thesis by simp
qed

text \<open>
  A freed rowid is used again: after the newest event was deleted the next write gets its global
  number, and a tail that has seen the deleted one does not see it.
\<close>

lemma rowid_reused:
  "let db = snd (deleteJournalEvents ''c'' ''e'' demo_db)
   in \<exists>db'. sq_persistEvents db ''c'' ''f'' [()] 0 (objectCodec ''E'') None = Inr (1, db')
      \<and> map global_seq (db_journal db') = [1] \<and> lastGlobalSeq demo_db = 2"
  by (simp add: deleteJournalEvents_def delete_events_def demo_db_def demo_row_def sq_persistEvents_def to_rows_def
      insertManyEvents_def insert_event_def persistenceKey_def max_global_seq_def lastGlobalSeq_def envelope_at_def)

end
