(* ===== verification/Sqlite_Tail.thy ===== *)
theory Sqlite_Tail
  imports Sqlite_Queries
begin

text \<open>
  The live tails of \<open>sqlite/journal.ts\<close>: \<open>tailEvents\<close>, \<open>tailAllEvents\<close> and \<open>liveRawEvents\<close> are one
  polling loop over a statement; they differ in the key the cursor runs on, the rows they
  match and what they make of a row. The generator is an explicit state, and a turn runs it
  to its next \<open>yield\<close>, its return, its throw, or an empty fetch (after which it sleeps when it
  is caught up). The contract is stated once, in the locale \<open>polled\<close>, and holds for
  both kinds of cursor.
\<close>

section \<open>The generator\<close>

record ('d, 'o) tail_query =
  tq_key :: "'d journal_row \<Rightarrow> nat"
  tq_cond :: "'d journal_row \<Rightarrow> bool"
  tq_emit :: "'d journal_row \<Rightarrow> js_error + 'o"
  tq_pageSize :: int

record 'd polling =
  pl_cursor :: nat
  pl_page :: "'d journal_row list"
  pl_caughtUp :: bool
  pl_finished :: bool

datatype 'o turn = Emitted 'o | Failed js_error | Returned | Idle

definition poll_start :: "nat \<Rightarrow> 'd polling" where
  "poll_start cursor = \<lparr>pl_cursor = cursor, pl_page = [], pl_caughtUp = False, pl_finished = False\<rparr>"

text \<open>
  The rows of a fetch run on to its first \<open>yield\<close> without a pause. \<open>aborted\<close> is what the signal says
  when the generator is resumed.
\<close>

definition poll_emit :: "('d, 'o) tail_query \<Rightarrow> 'd journal_row list \<Rightarrow> 'd polling \<Rightarrow> 'o turn \<times> 'd polling" where
  "poll_emit q rows t =
     (case rows of
        [] \<Rightarrow> (Idle, t\<lparr>pl_page := []\<rparr>)
      | r # rs \<Rightarrow>
          (case tq_emit q r of
             Inl e \<Rightarrow> (Failed e, t\<lparr>pl_cursor := tq_key q r, pl_page := rs, pl_finished := True\<rparr>)
           | Inr x \<Rightarrow> (Emitted x, t\<lparr>pl_cursor := tq_key q r, pl_page := rs\<rparr>)))"

definition poll_fetch :: "('d, 'o) tail_query \<Rightarrow> 'd sqlite_db \<Rightarrow> 'd polling \<Rightarrow> 'd journal_row list" where
  "poll_fetch q db t =
     sql_limit (tq_pageSize q) (rows_after (tq_key q) (tq_cond q) (pl_cursor t) (db_journal db))"

definition poll_turn :: "('d, 'o) tail_query \<Rightarrow> 'd sqlite_db \<Rightarrow> bool \<Rightarrow> 'd polling \<Rightarrow> 'o turn \<times> 'd polling" where
  "poll_turn q db aborted t =
     (if pl_finished t then (Returned, t)
      else if aborted then (Returned, t\<lparr>pl_finished := True\<rparr>)
      else if pl_page t \<noteq> [] then poll_emit q (pl_page t) t
      else let rows = poll_fetch q db t
           in poll_emit q rows (t\<lparr>pl_caughtUp := int (length rows) < tq_pageSize q\<rparr>))"

definition page_size :: "int option \<Rightarrow> int" where
  "page_size p = (case p of None \<Rightarrow> int DEFAULT_PAGE_SIZE | Some n \<Rightarrow> n)"

section \<open>The three tails\<close>

definition sq_tailEvents :: "string \<Rightarrow> string \<Rightarrow> ('e, 'd) codec \<Rightarrow> int option \<Rightarrow> ('d, nat \<times> 'e) tail_query" where
  "sq_tailEvents c e codec pageSize =
     \<lparr>tq_key = sequence_nr, tq_cond = (\<lambda>r. persistence_id r = persistenceKey c e),
      tq_emit = (\<lambda>r. case decode codec (row_manifest r) (row_payload r) of
                       Inl err \<Rightarrow> Inl err | Inr ev \<Rightarrow> Inr (sequence_nr r, ev)),
      tq_pageSize = page_size pageSize\<rparr>"

definition sq_tailAllEvents :: "string \<Rightarrow> ('e, 'd) codec \<Rightarrow> int option \<Rightarrow> ('d, 'e category_event) tail_query" where
  "sq_tailAllEvents c codec pageSize =
     \<lparr>tq_key = global_seq, tq_cond = (\<lambda>r. sql_like (c @ '':%'') (persistence_id r)),
      tq_emit = (\<lambda>r. let mapped = mapRow r in
         case decode codec (q_manifest mapped) (q_payload mapped) of
           Inl err \<Rightarrow> Inl err
         | Inr ev \<Rightarrow> Inr \<lparr>ce_globalSeq = q_globalSeq mapped, ce_category = c, ce_entityId = q_entityId mapped,
                        ce_sequenceNr = q_sequenceNr mapped, ce_event = ev, ce_envelope = q_envelope mapped\<rparr>),
      tq_pageSize = page_size pageSize\<rparr>"

record 'd raw_event =
  re_globalSeq :: nat
  re_category :: string
  re_entityId :: string
  re_sequenceNr :: nat
  re_manifest :: string
  re_payload :: 'd

definition sq_liveRawEvents :: "int option \<Rightarrow> ('d, 'd raw_event) tail_query" where
  "sq_liveRawEvents pageSize =
     \<lparr>tq_key = global_seq, tq_cond = (\<lambda>_. True),
      tq_emit = (\<lambda>r. Inr \<lparr>re_globalSeq = global_seq r, re_category = fst (split_pid (persistence_id r)),
         re_entityId = snd (split_pid (persistence_id r)), re_sequenceNr = sequence_nr r,
         re_manifest = row_manifest r, re_payload = row_payload r\<rparr>),
      tq_pageSize = page_size pageSize\<rparr>"

text \<open>Where they start: at the option, or at 0, or for the raw tail at the end of the journal.\<close>

definition tail_cursor :: "nat option \<Rightarrow> nat" where
  "tail_cursor after = (case after of None \<Rightarrow> 0 | Some n \<Rightarrow> n)"

definition live_cursor :: "'d sqlite_db \<Rightarrow> nat option \<Rightarrow> nat" where
  "live_cursor db after = (case after of None \<Rightarrow> lastGlobalSeq db | Some n \<Rightarrow> n)"

text \<open>A source with one codec per category.\<close>

definition tailCategoryEvents ::
  "(string, ('e, 'd) codec) jsmap \<Rightarrow> int option \<Rightarrow> string \<Rightarrow> js_error + ('d, 'e category_event) tail_query" where
  "tailCategoryEvents codecs pageSize category =
     (case js_get codecs category of
        None \<Rightarrow> Inl (JsError (''No event codec registered for category '' @ category))
      | Some codec \<Rightarrow> Inr (sq_tailAllEvents category codec pageSize))"

section \<open>Interleavings with writers\<close>

text \<open>What writers do: at any time, all or nothing, any rows.\<close>

definition sq_write :: "'d sqlite_db \<Rightarrow> 'd sqlite_db \<Rightarrow> bool" where
  "sq_write db db' \<longleftrightarrow> (\<exists>now rows. insertManyEvents (db\<lparr>db_now := now\<rparr>) rows = Inr db')"

text \<open>The same, where the rows of one entity are numbered upwards from its newest: what its runner does.\<close>

definition sq_write_after :: "string \<Rightarrow> 'd sqlite_db \<Rightarrow> 'd sqlite_db \<Rightarrow> bool" where
  "sq_write_after key db db' \<longleftrightarrow>
     (\<exists>now rows. insertManyEvents (db\<lparr>db_now := now\<rparr>) rows = Inr db'
        \<and> sorted_wrt (<) (map nr_seqNr (filter (\<lambda>r. nr_pid r = key) rows))
        \<and> (\<forall>r \<in> set rows. nr_pid r = key \<longrightarrow>
             (\<forall>x \<in> set (db_journal db). persistence_id x = key \<longrightarrow> sequence_nr x < nr_seqNr r)))"

inductive poll_run ::
  "('d, 'o) tail_query \<Rightarrow> nat \<Rightarrow> ('d sqlite_db \<Rightarrow> 'd sqlite_db \<Rightarrow> bool) \<Rightarrow> 'd sqlite_db \<Rightarrow> 'd polling \<Rightarrow> 'o list \<Rightarrow> bool"
  for q :: "('d, 'o) tail_query" and cur :: nat and grow :: "'d sqlite_db \<Rightarrow> 'd sqlite_db \<Rightarrow> bool" where
  opened: "sq_inv db \<Longrightarrow> poll_run q cur grow db (poll_start cur) []"
| wrote: "poll_run q cur grow db t out \<Longrightarrow> grow db db' \<Longrightarrow> poll_run q cur grow db' t out"
| emitted: "poll_run q cur grow db t out \<Longrightarrow> poll_turn q db aborted t = (Emitted x, t') \<Longrightarrow>
     poll_run q cur grow db t' (out @ [x])"
| turned: "poll_run q cur grow db t out \<Longrightarrow> poll_turn q db aborted t = (o', t') \<Longrightarrow> (\<And>x. o' \<noteq> Emitted x) \<Longrightarrow>
     poll_run q cur grow db t' out"

text \<open>Some turns without a write or an abort, and what they emit.\<close>

fun poll_turns :: "('d, 'o) tail_query \<Rightarrow> 'd sqlite_db \<Rightarrow> nat \<Rightarrow> 'd polling \<Rightarrow> 'o list" where
  "poll_turns q db 0 t = []"
| "poll_turns q db (Suc n) t =
     (case poll_turn q db False t of
        (Emitted x, t') \<Rightarrow> x # poll_turns q db n t'
      | (_, t') \<Rightarrow> poll_turns q db n t')"

text \<open>The rows a tail is to deliver.\<close>

definition tail_rows :: "('d, 'o) tail_query \<Rightarrow> nat \<Rightarrow> 'd sqlite_db \<Rightarrow> 'd journal_row list" where
  "tail_rows q cur db = rows_after (tq_key q) (tq_cond q) cur (db_journal db)"

definition poll_inv :: "('d, 'o) tail_query \<Rightarrow> nat \<Rightarrow> 'd sqlite_db \<Rightarrow> 'd polling \<Rightarrow> 'o list \<Rightarrow> bool" where
  "poll_inv q cur db t out \<longleftrightarrow>
     (\<exists>sent rest. tail_rows q cur db = sent @ rest \<and> map Inr out = map (tq_emit q) sent
        \<and> (\<not> pl_finished t \<longrightarrow> pl_cursor t = (if sent = [] then cur else tq_key q (last sent))
             \<and> (\<exists>unread. rest = pl_page t @ unread)))"

lemma poll_invI:
  assumes "tail_rows q cur db = sent @ rest" "map Inr out = map (tq_emit q) sent"
    and "\<not> pl_finished t \<Longrightarrow> pl_cursor t = (if sent = [] then cur else tq_key q (last sent))"
    and "\<not> pl_finished t \<Longrightarrow> \<exists>unread. rest = pl_page t @ unread"
  shows "poll_inv q cur db t out"
  using assms unfolding poll_inv_def by blast

lemma sql_limit_prefix: "\<exists>unread. xs = sql_limit n xs @ unread"
  by (auto simp: sql_limit_def intro: exI [of _ "[]"] exI [of _ "drop (nat n) xs"])

text \<open>
  The interface: keys are unique among the matching rows, and a write adds its rows
  behind all of them.
\<close>

locale polled =
  fixes q :: "('d, 'o) tail_query" and grow :: "'d sqlite_db \<Rightarrow> 'd sqlite_db \<Rightarrow> bool"
  assumes keys: "sq_inv db \<Longrightarrow> distinct (map (tq_key q) (filter (tq_cond q) (db_journal db)))"
    and writes: "sq_inv db \<Longrightarrow> grow db db' \<Longrightarrow>
      sq_inv db' \<and> (\<exists>new. tail_rows q cur db' = tail_rows q cur db @ new)"
begin

lemma rows_strict: "sq_inv db \<Longrightarrow> sorted (map (tq_key q) (tail_rows q cur db)) \<and> distinct (map (tq_key q) (tail_rows q cur db))"
proof -
  assume "sq_inv db"
  from keys [OF this] have "distinct (map (tq_key q) (filter (\<lambda>r. cur < tq_key q r) (filter (tq_cond q) (db_journal db))))"
    by (rule distinct_map_filter)
  then show ?thesis by (simp add: tail_rows_def rows_after_def distinct_map conj_commute)
qed

text \<open>A fetch reads on exactly after the last row sent.\<close>

lemma fetch_rest:
  assumes "sq_inv db" "tail_rows q cur db = sent @ rest"
    and "c = (if sent = [] then cur else tq_key q (last sent))"
  shows "tail_rows q c db = rest"
proof (cases "sent = []")
  case False
  let ?S = "tail_rows q cur db"
  have "last sent \<in> set ?S" using assms(2) False by simp
  then have "cur \<le> c" using assms(3) False by (simp add: tail_rows_def)
  then have "tail_rows q c db = filter (\<lambda>r. c < tq_key q r) ?S" unfolding tail_rows_def by (rule rows_after_later)
  moreover have "filter (\<lambda>r. tq_key q (last (take (length sent) ?S)) < tq_key q r) ?S = drop (length sent) ?S"
    using rows_strict [OF assms(1), of cur] assms(2) False by (intro sorted_split) auto
  moreover have "c = tq_key q (last (take (length sent) ?S))" using assms(2,3) False by simp
  ultimately have "tail_rows q c db = drop (length sent) ?S" by (simp only:)
  then show ?thesis using assms(2) by simp
qed (use assms in simp)

lemma emit_inv:
  assumes "tail_rows q cur db = sent @ rows @ unread" "map Inr out = map (tq_emit q) sent"
    and "pl_cursor t = (if sent = [] then cur else tq_key q (last sent))" "poll_emit q rows t = (o', t')"
  shows "poll_inv q cur db t' (case o' of Emitted x \<Rightarrow> out @ [x] | _ \<Rightarrow> out)"
proof (cases rows)
  case Nil
  show ?thesis
    by (rule poll_invI [of q cur db sent unread]) (use Nil assms in \<open>auto simp: poll_emit_def\<close>)
next
  case (Cons r rs)
  show ?thesis
  proof (cases "tq_emit q r")
    case (Inl e)
    show ?thesis
      by (rule poll_invI [of q cur db sent "rows @ unread"]) (use Inl Cons assms in \<open>auto simp: poll_emit_def\<close>)
  next
    case (Inr x)
    show ?thesis
      by (rule poll_invI [of q cur db "sent @ [r]" "rs @ unread"]) (use Inr Cons assms in \<open>auto simp: poll_emit_def\<close>)
  qed
qed

lemma turn_inv:
  assumes "sq_inv db" "poll_inv q cur db t out" "poll_turn q db aborted t = (o', t')"
  shows "poll_inv q cur db t' (case o' of Emitted x \<Rightarrow> out @ [x] | _ \<Rightarrow> out)"
proof -
  from assms(2) obtain sent rest where i: "tail_rows q cur db = sent @ rest" "map Inr out = map (tq_emit q) sent"
    "\<not> pl_finished t \<Longrightarrow> pl_cursor t = (if sent = [] then cur else tq_key q (last sent))"
    "\<not> pl_finished t \<Longrightarrow> \<exists>unread. rest = pl_page t @ unread" by (auto simp: poll_inv_def)
  show ?thesis
  proof (cases "pl_finished t \<or> aborted")
    case True
    show ?thesis
      by (rule poll_invI [OF i(1)]) (use True assms(3) i(2) in \<open>auto simp: poll_turn_def split: if_splits\<close>)
  next
    case f: False
    show ?thesis
    proof (cases "pl_page t = []")
      case False
      obtain unread where "rest = pl_page t @ unread" using i(4) f by auto
      with i f assms(3) False show ?thesis by (intro emit_inv [of cur db sent "pl_page t" unread]) (auto simp: poll_turn_def)
    next
      case True
      have "tail_rows q (pl_cursor t) db = rest" using f i(3) by (intro fetch_rest [OF assms(1) i(1)]) simp
      then have "poll_fetch q db t = sql_limit (tq_pageSize q) rest" by (simp add: poll_fetch_def tail_rows_def)
      with sql_limit_prefix [of rest "tq_pageSize q"] obtain unread where "rest = poll_fetch q db t @ unread" by auto
      with i f assms(3) True show ?thesis
        by (intro emit_inv [of cur db sent "poll_fetch q db t" unread]) (auto simp: poll_turn_def Let_def)
    qed
  qed
qed

lemma poll_run_inv: "poll_run q cur grow db t out \<Longrightarrow> sq_inv db \<and> poll_inv q cur db t out"
proof (induction rule: poll_run.induct)
  case (opened db)
  then show ?case by (auto simp: poll_inv_def poll_start_def)
next
  case (wrote db t out db')
  from writes [of db db' cur] wrote obtain new where n: "sq_inv db'" "tail_rows q cur db' = tail_rows q cur db @ new" by blast
  from wrote.IH obtain sent rest where i: "tail_rows q cur db = sent @ rest" "map Inr out = map (tq_emit q) sent"
    "\<not> pl_finished t \<longrightarrow> pl_cursor t = (if sent = [] then cur else tq_key q (last sent)) \<and> (\<exists>unread. rest = pl_page t @ unread)"
    by (auto simp: poll_inv_def)
  then have "poll_inv q cur db' t out"
    unfolding poll_inv_def n(2) by (intro exI [of _ sent] exI [of _ "rest @ new"]) auto
  with n(1) show ?case by simp
next
  case (emitted db t out aborted x t')
  then show ?case using turn_inv by fastforce
next
  case (turned db t out aborted o' t')
  then show ?case using turn_inv [of db cur t out aborted o' t'] by (cases o') auto
qed

text \<open>A turn with something left to send sends it.\<close>

lemma turn_sends:
  assumes "sq_inv db" "poll_inv q cur db t out" "\<not> pl_finished t" "tq_pageSize q \<noteq> 0"
    and "length out < length (tail_rows q cur db)" "\<forall>r \<in> set (tail_rows q cur db). \<exists>x. tq_emit q r = Inr x"
  shows "\<exists>x t'. poll_turn q db False t = (Emitted x, t') \<and> \<not> pl_finished t' \<and> poll_inv q cur db t' (out @ [x])"
proof -
  from assms(2,3) obtain sent rest unread where i: "tail_rows q cur db = sent @ rest" "map Inr out = map (tq_emit q) sent"
    "pl_cursor t = (if sent = [] then cur else tq_key q (last sent))" "rest = pl_page t @ unread" by (auto simp: poll_inv_def)
  have "length sent = length out" using i(2) by (metis length_map)
  with assms(5) i(1) have ne: "rest \<noteq> []" by auto
  have "tail_rows q (pl_cursor t) db = rest" by (rule fetch_rest [OF assms(1) i(1,3)])
  then have "poll_fetch q db t = sql_limit (tq_pageSize q) rest" by (simp add: poll_fetch_def tail_rows_def)
  with ne assms(4) obtain r rs where f: "poll_fetch q db t = r # rs" "r \<in> set rest"
    by (cases rest) (auto simp: sql_limit_def take_Cons' split: if_splits)
  have "\<exists>x t'. poll_turn q db False t = (Emitted x, t') \<and> \<not> pl_finished t'"
  proof (cases "pl_page t")
    case Nil
    obtain x where "tq_emit q r = Inr x" using assms(6) f(2) i(1) by auto
    with Nil f assms(3) show ?thesis by (simp add: poll_turn_def poll_emit_def Let_def)
  next
    case (Cons p ps)
    obtain x where "tq_emit q p = Inr x" using assms(6) Cons i(1,4) by auto
    with Cons assms(3) show ?thesis by (simp add: poll_turn_def poll_emit_def)
  qed
  with turn_inv [OF assms(1,2)] show ?thesis by fastforce
qed

lemma turns_drain:
  assumes "sq_inv db" "poll_inv q cur db t out" "\<not> pl_finished t" "tq_pageSize q \<noteq> 0"
    and "\<forall>r \<in> set (tail_rows q cur db). \<exists>x. tq_emit q r = Inr x" "n = length (tail_rows q cur db) - length out"
  shows "map Inr (out @ poll_turns q db n t) = map (tq_emit q) (tail_rows q cur db)"
  using assms(2,3,6)
proof (induction n arbitrary: t out)
  case 0
  from 0(1) obtain sent rest where i: "tail_rows q cur db = sent @ rest" "map Inr out = map (tq_emit q) sent" by (auto simp: poll_inv_def)
  then have "length sent = length out" by (metis length_map)
  with i 0(3) show ?case by simp
next
  case (Suc n)
  then have "length out < length (tail_rows q cur db)" by simp
  from turn_sends [OF assms(1) Suc.prems(1,2) assms(4) this assms(5)] obtain x t' where
    s: "poll_turn q db False t = (Emitted x, t')" "\<not> pl_finished t'" "poll_inv q cur db t' (out @ [x])" by blast
  have "n = length (tail_rows q cur db) - length (out @ [x])" using Suc.prems(3) by simp
  from Suc.IH [OF s(3,2) this] show ?case by (simp add: s(1))
qed

text \<open>The contract of a tail.\<close>

lemma tail_contract:
  assumes "poll_run q cur grow db t out"
  shows "(\<exists>unsent. tail_rows q cur db = take (length out) (tail_rows q cur db) @ unsent
        \<and> map Inr out = map (tq_emit q) (take (length out) (tail_rows q cur db)))
    \<and> (\<not> pl_finished t \<longrightarrow> tq_pageSize q \<noteq> 0 \<longrightarrow> (\<forall>r \<in> set (tail_rows q cur db). \<exists>x. tq_emit q r = Inr x) \<longrightarrow>
         map Inr (out @ poll_turns q db (length (tail_rows q cur db) - length out) t) = map (tq_emit q) (tail_rows q cur db))"
proof -
  from poll_run_inv [OF assms] have inv: "sq_inv db" "poll_inv q cur db t out" by auto
  then obtain sent rest where i: "tail_rows q cur db = sent @ rest" "map Inr out = map (tq_emit q) sent" by (auto simp: poll_inv_def)
  then have "length sent = length out" by (metis length_map)
  with i turns_drain [OF inv] show ?thesis by auto
qed

end

section \<open>The two kinds of cursor\<close>

lemma rows_after_append:
  assumes "sorted (map key (filter cond new))" "\<forall>x \<in> set rows. \<forall>y \<in> set new. cond x \<longrightarrow> cond y \<longrightarrow> key x \<le> (key y :: nat)"
  shows "rows_after key cond cur (rows @ new) = rows_after key cond cur rows @ filter (\<lambda>r. cond r \<and> cur < key r) new"
proof -
  have "filter (\<lambda>r. cond r \<and> cur < key r) new = filter (\<lambda>r. cur < key r) (filter cond new)" by (simp add: conj_commute)
  then have "sorted (map key (filter (\<lambda>r. cond r \<and> cur < key r) new))" using assms(1) by (simp only: sorted_filter)
  with assms(2) show ?thesis unfolding rows_after_def filter_append by (intro sort_key_append) auto
qed

lemma sq_write_rows:
  assumes "sq_inv db" "insertManyEvents (db\<lparr>db_now := now\<rparr>) rows = Inr db'"
  shows "sq_inv db' \<and> (\<exists>new. db_journal db' = db_journal db @ new
    \<and> map row_key new = map (\<lambda>r. (nr_pid r, nr_seqNr r)) rows)"
  using insertMany_Inr [OF assms(2)] assms(1) by (auto simp: sq_inv_def)

lemma rowid_polled:
  assumes "tq_key q = global_seq"
  shows "polled q sq_write"
proof
  fix db :: "'a sqlite_db" assume inv: "sq_inv db"
  then have "distinct (map global_seq (db_journal db))" by (auto simp: sq_inv_def strict_sorted_iff)
  then show "distinct (map (tq_key q) (filter (tq_cond q) (db_journal db)))" unfolding assms by (rule distinct_map_filter)
  fix db' cur assume "sq_write db db'"
  with inv sq_write_rows obtain new where n: "sq_inv db'" "db_journal db' = db_journal db @ new" by (metis sq_write_def)
  then have "sorted_wrt (<) (map global_seq (db_journal db @ new))" by (simp add: sq_inv_def)
  then have "sorted_wrt (<) (map global_seq (filter (tq_cond q) new))"
    "\<forall>x \<in> set (db_journal db). \<forall>y \<in> set new. global_seq x < global_seq y"
    by (auto simp: sorted_wrt_append sorted_wrt_map intro: sorted_wrt_filter)
  then have "tail_rows q cur db' = tail_rows q cur db @ filter (\<lambda>r. tq_cond q r \<and> cur < global_seq r) new"
    unfolding tail_rows_def n(2) assms by (intro rows_after_append) (auto simp: strict_sorted_iff less_imp_le)
  with n(1) show "sq_inv db' \<and> (\<exists>new. tail_rows q cur db' = tail_rows q cur db @ new)" by blast
qed

lemma sequence_polled:
  assumes "tq_key q = sequence_nr" "tq_cond q = (\<lambda>r. persistence_id r = key)"
  shows "polled q (sq_write_after key)"
proof
  fix db :: "'a sqlite_db" assume inv: "sq_inv db"
  then have "distinct (map row_key (filter (tq_cond q) (db_journal db)))" by (auto simp: sq_inv_def intro: distinct_map_filter)
  then show "distinct (map (tq_key q) (filter (tq_cond q) (db_journal db)))" by (auto simp: assms distinct_map inj_on_def)
  fix db' cur assume "sq_write_after key db db'"
  then obtain now rows where w: "insertManyEvents (db\<lparr>db_now := now\<rparr>) rows = Inr db'"
    "sorted_wrt (<) (map nr_seqNr (filter (\<lambda>r. nr_pid r = key) rows))"
    "\<forall>r \<in> set rows. nr_pid r = key \<longrightarrow> (\<forall>x \<in> set (db_journal db). persistence_id x = key \<longrightarrow> sequence_nr x < nr_seqNr r)"
    unfolding sq_write_after_def by blast
  from sq_write_rows [OF inv w(1)] obtain new where n: "sq_inv db'" "db_journal db' = db_journal db @ new"
    "map row_key new = map (\<lambda>r. (nr_pid r, nr_seqNr r)) rows" by blast
  have "map sequence_nr (filter (\<lambda>r. persistence_id r = key) new) = map snd (filter (\<lambda>k. fst k = key) (map row_key new))"
    by (simp add: filter_map comp_def)
  also have "\<dots> = map nr_seqNr (filter (\<lambda>r. nr_pid r = key) rows)" unfolding n(3) by (simp add: filter_map comp_def)
  finally have seqs: "map sequence_nr (filter (\<lambda>r. persistence_id r = key) new) = map nr_seqNr (filter (\<lambda>r. nr_pid r = key) rows)" .
  have below: "sequence_nr x \<le> sequence_nr y"
    if "x \<in> set (db_journal db)" "y \<in> set new" "persistence_id x = key" "persistence_id y = key" for x y
  proof -
    have "row_key y \<in> set (map (\<lambda>r. (nr_pid r, nr_seqNr r)) rows)" unfolding n(3) [symmetric] using that(2) by simp
    with that w(3) show ?thesis by (auto simp: less_imp_le)
  qed
  have "sorted (map sequence_nr (filter (\<lambda>r. persistence_id r = key) new))"
    using w(2) unfolding seqs by (simp add: strict_sorted_iff)
  then have "tail_rows q cur db' = tail_rows q cur db @ filter (\<lambda>r. persistence_id r = key \<and> cur < sequence_nr r) new"
    unfolding tail_rows_def n(2) assms using below by (intro rows_after_append) auto
  with n(1) show "sq_inv db' \<and> (\<exists>new. tail_rows q cur db' = tail_rows q cur db @ new)" by blast
qed

interpretation category_tail: polled "sq_tailAllEvents c codec pageSize" sq_write
  by (rule rowid_polled) (simp add: sq_tailAllEvents_def)

interpretation raw_tail: polled "sq_liveRawEvents pageSize" sq_write
  by (rule rowid_polled) (simp add: sq_liveRawEvents_def)

interpretation entity_tail: polled "sq_tailEvents c e codec pageSize" "sq_write_after (persistenceKey c e)"
  by (rule sequence_polled) (simp_all add: sq_tailEvents_def)

text \<open>What a runner writes is such a write.\<close>

lemma persist_writes_after:
  assumes "sq_persistEvents db c e es start codec envs = Inr (n, db')"
    and "\<forall>m \<in> fst ` set (sq_log db (persistenceKey c e)). m \<le> start" "es \<noteq> []"
  shows "sq_write_after (persistenceKey c e) db db'"
proof -
  let ?rows = "to_rows (persistenceKey c e) start codec envs es"
  have i: "insertManyEvents db ?rows = Inr db'"
    using assms(1,3) by (auto simp: sq_persistEvents_def Let_def split: sum.splits sql_error.splits option.splits)
  have keys: "map (\<lambda>r. (nr_pid r, nr_seqNr r)) ?rows = map (Pair (persistenceKey c e)) [Suc start ..< Suc start + length es]"
    by (rule to_rows_keys(1))
  then have "map snd (map (\<lambda>r. (nr_pid r, nr_seqNr r)) ?rows) = [Suc start ..< Suc start + length es]"
    by (simp only: map_map comp_def snd_conv map_ident)
  then have seqs: "map nr_seqNr ?rows = [Suc start ..< Suc start + length es]" by (simp add: comp_def)
  have s: "sorted_wrt (<) (map nr_seqNr (filter (\<lambda>r. nr_pid r = persistenceKey c e) ?rows))"
    using arg_cong [OF seqs, of "sorted_wrt (<)"] by (auto simp: sorted_wrt_map simp del: upt_Suc intro: sorted_wrt_filter)
  have "sequence_nr x < nr_seqNr r"
    if "r \<in> set ?rows" "x \<in> set (db_journal db)" "persistence_id x = persistenceKey c e" for r x
  proof -
    have "nr_seqNr r \<in> set (map nr_seqNr ?rows)" using that(1) by simp
    then have "start < nr_seqNr r" unfolding seqs by auto
    moreover have "sequence_nr x \<le> start" using assms(2) that(2,3) by (auto simp: sq_log_def row_entry_def)
    ultimately show ?thesis by simp
  qed
  with i s show ?thesis unfolding sq_write_after_def by (intro exI [of _ "db_now db"] exI [of _ ?rows]) auto
qed

section \<open>Exactly once\<close>

text \<open>
  C11. A live tail of a category over SQLite, with any writers and pulls in any order: what it has
  delivered is a prefix, in rowid order, of the category's rows behind the resume cursor, each
  row decoded once; while it has neither failed nor been aborted, as many further pulls as
  rows are left deliver exactly these rows (when they decode and the page size is not 0).
\<close>

theorem sqlite_tail_exactly_once:
  fixes c codec pageSize after db
  defines "q \<equiv> sq_tailAllEvents c codec pageSize"
    and "rows \<equiv> filter (\<lambda>r. sql_like (c @ '':%'') (persistence_id r) \<and> after < global_seq r) (db_journal db)"
  assumes "poll_run q after sq_write db t out"
  shows "map Inr out = map (tq_emit q) (take (length out) rows) \<and> length out \<le> length rows
    \<and> (\<not> pl_finished t \<longrightarrow> page_size pageSize \<noteq> 0 \<longrightarrow> (\<forall>r \<in> set rows. \<exists>x. tq_emit q r = Inr x) \<longrightarrow>
         map Inr (out @ poll_turns q db (length rows - length out) t) = map (tq_emit q) rows)"
proof -
  from category_tail.poll_run_inv assms(3) have inv: "sq_inv db" unfolding q_def by blast
  then have "sort_key global_seq rows = rows" unfolding rows_def by (rule db_journal_sorted)
  then have rows: "tail_rows q after db = rows" by (simp add: tail_rows_def rows_after_def q_def sq_tailAllEvents_def rows_def)
  have ps: "tq_pageSize q = page_size pageSize" by (simp add: q_def sq_tailAllEvents_def)
  note k = category_tail.tail_contract [of c codec pageSize, folded q_def, OF assms(3), unfolded rows ps]
  then have "map Inr out = map (tq_emit q) (take (length out) rows)" by blast
  moreover from this have "length out = length (take (length out) rows)" by (metis length_map)
  then have "length out \<le> length rows" by simp
  ultimately show ?thesis using k by blast
qed

lemma decode_log_rows:
  "decode_log codec (map row_entry rs) = Inr evs \<longleftrightarrow>
   map (tq_emit (sq_tailEvents c e codec pageSize)) rs = map Inr evs"
proof (induction rs arbitrary: evs)
  case (Cons r rs)
  have split: "(case d of Inl e \<Rightarrow> Inl e | Inr as \<Rightarrow> Inr (x # as)) = Inr evs \<longleftrightarrow> (\<exists>as. d = Inr as \<and> evs = x # as)"
    for d :: "js_error + (nat \<times> 'a) list" and x by (auto split: sum.split)
  show ?case
  proof (cases "decode codec (row_manifest r) (row_payload r)")
    case (Inl err)
    then show ?thesis by (auto simp: row_entry_def sq_tailEvents_def)
  next
    case (Inr b)
    then have "decode_log codec (map row_entry (r # rs)) = Inr evs \<longleftrightarrow>
        (\<exists>as. decode_log codec (map row_entry rs) = Inr as \<and> evs = (sequence_nr r, b) # as)"
      by (simp add: row_entry_def split)
    also have "\<dots> \<longleftrightarrow> (\<exists>as. map (tq_emit (sq_tailEvents c e codec pageSize)) rs = map Inr as \<and> evs = (sequence_nr r, b) # as)"
      by (simp only: Cons.IH)
    also have "\<dots> \<longleftrightarrow> map (tq_emit (sq_tailEvents c e codec pageSize)) (r # rs) = map Inr evs"
      using Inr by (cases evs) (auto simp: sq_tailEvents_def)
    finally show ?thesis .
  qed
qed auto

text \<open>
  Tailing an entity and loading it agree: while the entity's runner writes, a tail from a sequence
  number has delivered a prefix of what a load from that number returns now, and unless it
  failed or was aborted it delivers the rest in as many further pulls.
\<close>

lemma entity_tail_equals_load:
  assumes "poll_run (sq_tailEvents c e codec pageSize) after (sq_write_after (persistenceKey c e)) db t out"
    and "sq_loadEvents db c e after codec = Inr evs"
  shows "out = take (length out) evs
    \<and> (\<not> pl_finished t \<longrightarrow> page_size pageSize \<noteq> 0 \<longrightarrow>
         out @ poll_turns (sq_tailEvents c e codec pageSize) db (length evs - length out) t = evs)"
proof -
  let ?q = "sq_tailEvents c e codec pageSize"
  let ?rows = "tail_rows ?q after db"
  from entity_tail.poll_run_inv [OF assms(1)] have inv: "sq_inv db" by blast
  have "filter (\<lambda>x. after < fst x) (sq_log db (persistenceKey c e)) = map row_entry ?rows"
    by (simp add: sq_log_def tail_rows_def rows_after_def sq_tailEvents_def filter_sort filter_map comp_def row_entry_def conj_commute)
  with assms(2) have "decode_log codec (map row_entry ?rows) = Inr evs" by (simp add: sq_loadEvents_eq [OF inv])
  then have evs: "map (tq_emit ?q) ?rows = map Inr evs" by (simp only: decode_log_rows [of _ _ _ c e pageSize])
  have ps: "tq_pageSize ?q = page_size pageSize" by (simp add: sq_tailEvents_def)
  note k = entity_tail.tail_contract [OF assms(1), unfolded ps]
  from k have "map Inr out = take (length out) (map (tq_emit ?q) ?rows)" by (simp add: take_map)
  then have "map Inr out = map (Inr :: _ \<Rightarrow> js_error + _) (take (length out) evs)" unfolding evs by (simp add: take_map)
  then have pre: "out = take (length out) evs" by (simp add: inj_map_eq_map)
  have len: "length ?rows = length evs" using evs by (metis length_map)
  have "\<forall>r \<in> set ?rows. \<exists>x. tq_emit ?q r = Inr x"
  proof
    fix r assume "r \<in> set ?rows"
    then have "tq_emit ?q r \<in> set (map (tq_emit ?q) ?rows)" by simp
    then show "\<exists>x. tq_emit ?q r = Inr x" unfolding evs by auto
  qed
  with k have "map Inr (out @ poll_turns ?q db (length evs - length out) t) = map (Inr :: _ \<Rightarrow> js_error + _) evs"
    if "\<not> pl_finished t" "page_size pageSize \<noteq> 0" using that unfolding len evs by blast
  with pre show ?thesis by (simp add: inj_map_eq_map del: map_append)
qed

text \<open>Two events, a tail with pages of one row that has delivered the first.\<close>

definition demo_polling :: "unit polling" where
  "demo_polling = \<lparr>pl_cursor = 1, pl_page = [], pl_caughtUp = False, pl_finished = False\<rparr>"

lemma demo_tail_run:
  "poll_run (sq_tailEvents ''c'' ''e'' (objectCodec ''E'') (Some 1)) 0 (sq_write_after (persistenceKey ''c'' ''e'')) demo_db demo_polling [(1, ())]"
  "poll_run (sq_tailAllEvents ''c'' (objectCodec ''E'') (Some 1)) 0 sq_write demo_db demo_polling
     [\<lparr>ce_globalSeq = 1, ce_category = ''c'', ce_entityId = ''e'', ce_sequenceNr = 1, ce_event = (), ce_envelope = None\<rparr>]"
proof -
  have "poll_turn (sq_tailEvents ''c'' ''e'' (objectCodec ''E'') (Some 1)) demo_db False (poll_start 0) = (Emitted (1, ()), demo_polling)"
    by (simp add: poll_turn_def poll_start_def poll_fetch_def sq_tailEvents_def poll_emit_def demo_polling_def
        sql_limit_def rows_after_def demo_db_def demo_row_def persistenceKey_def objectCodec_def page_size_def Let_def)
  from poll_run.emitted [OF poll_run.opened [OF demo_db_inv] this]
  show "poll_run (sq_tailEvents ''c'' ''e'' (objectCodec ''E'') (Some 1)) 0 (sq_write_after (persistenceKey ''c'' ''e'')) demo_db demo_polling [(1, ())]"
    by simp
  have "poll_turn (sq_tailAllEvents ''c'' (objectCodec ''E'') (Some 1)) demo_db False (poll_start 0) =
     (Emitted \<lparr>ce_globalSeq = 1, ce_category = ''c'', ce_entityId = ''e'', ce_sequenceNr = 1, ce_event = (), ce_envelope = None\<rparr>, demo_polling)"
    by (simp add: poll_turn_def poll_start_def poll_fetch_def sq_tailAllEvents_def poll_emit_def demo_polling_def
        sql_limit_def rows_after_def demo_db_def demo_row_def objectCodec_def page_size_def mapRow_def split_pid_def
        ascii_lower_def Let_def)
  from poll_run.emitted [OF poll_run.opened [OF demo_db_inv] this]
  show "poll_run (sq_tailAllEvents ''c'' (objectCodec ''E'') (Some 1)) 0 sq_write demo_db demo_polling
     [\<lparr>ce_globalSeq = 1, ce_category = ''c'', ce_entityId = ''e'', ce_sequenceNr = 1, ce_event = (), ce_envelope = None\<rparr>]"
    by simp
qed

lemma entity_tail_equals_load_example:
  "poll_turns (sq_tailEvents ''c'' ''e'' (objectCodec ''E'') (Some 1)) demo_db 1 demo_polling = [(2, ())]"
proof -
  have "sq_loadEvents demo_db ''c'' ''e'' 0 (objectCodec ''E'') = Inr [(1, ()), (2, ())]"
    by (simp only: sq_loadEvents_eq [OF demo_db_inv]) (simp add: sq_log_def demo_db_def demo_row_def row_entry_def persistenceKey_def objectCodec_def)
  from entity_tail_equals_load [OF demo_tail_run(1) this] show ?thesis
    by (simp add: demo_polling_def page_size_def)
qed

theorem sqlite_tail_exactly_once_witness:
  "map Inr (poll_turns (sq_tailAllEvents ''c'' (objectCodec ''E'') (Some 1)) demo_db 1 demo_polling) =
     [tq_emit (sq_tailAllEvents ''c'' (objectCodec ''E'') (Some 1)) (demo_row 2)]"
proof -
  have rows: "filter (\<lambda>r. sql_like (''c'' @ '':%'') (persistence_id r) \<and> 0 < global_seq r) (db_journal demo_db) = [demo_row 1, demo_row 2]"
    by (simp add: demo_db_def demo_row_def ascii_lower_def)
  have "\<forall>r \<in> set [demo_row 1, demo_row 2]. \<exists>x. tq_emit (sq_tailAllEvents ''c'' (objectCodec ''E'') (Some 1)) r = Inr x"
    by (simp add: sq_tailAllEvents_def objectCodec_def mapRow_def demo_row_def Let_def)
  then show ?thesis using sqlite_tail_exactly_once [OF demo_tail_run(2), unfolded rows]
    by (simp add: demo_polling_def page_size_def)
qed

text \<open>
  A page size of 0 is a loop that neither yields nor sleeps: every fetch is empty, and the tail
  is never caught up. With a negative one, which SQLite takes as no limit, every row is read but
  the tail never sleeps either.
\<close>

lemma empty_page_spins:
  assumes "tq_pageSize q \<le> 0" "\<not> pl_finished t" "pl_page t = []"
    and "tq_pageSize q = 0 \<or> rows_after (tq_key q) (tq_cond q) (pl_cursor t) (db_journal db) = []"
  shows "poll_turn q db False t = (Idle, t\<lparr>pl_caughtUp := False\<rparr>)"
  using assms by (auto simp: poll_turn_def poll_fetch_def poll_emit_def sql_limit_def Let_def)

end
