(* ===== verification/Runner_Recovery.thy ===== *)
theory Runner_Recovery
  imports Entity_Runner InMem_Journal Sqlite_Journal
begin

text \<open>
  Recovery is replay: what a fresh incarnation of an entity computes from its journal is the
  fold of all its events from the initial state, whatever snapshots are there, and that is
  exactly the state the live runner has. Proved once for every journal that satisfies
  \<open>journal_contract\<close>, then read off for the in-memory and the SQLite journal.
\<close>

section \<open>Replaying a log\<close>

definition replay :: "('cmd, 'r, 'ev, 's, 'fx, 'df, 'd, 'j) runner_opts \<Rightarrow> 'd log_entry list \<Rightarrow> js_error + 's" where
  "replay cfg lg = replay_log (o_eventCodec cfg) (apply_event (o_aggregate cfg)) (initial (o_aggregate cfg) (o_entityId cfg)) lg"

lemma replay_append:
  assumes "replay cfg xs = Inr s" "decode_log (o_eventCodec cfg) ys = Inr es"
  shows "replay cfg (xs @ ys) = foldE (apply_event (o_aggregate cfg)) s (map snd es)"
  using assms unfolding replay_def by (rule replay_log_append)

lemma replay_Nil [simp]: "replay cfg [] = Inr (initial (o_aggregate cfg) (o_entityId cfg))"
  by (simp add: replay_def)

section \<open>What a journal holds for an entity, and what a live runner knows\<close>

context journal_contract
begin

text \<open>
  The entity's events are numbered 1, 2, and so on and all decode; a snapshot that decodes is
  the state after some prefix of them.
\<close>

definition stored :: "('cmd, 'r, 'e, 's, 'fx, 'df, 'd, 'j) runner_opts \<Rightarrow> 'j \<Rightarrow> bool" where
  "stored cfg j \<longleftrightarrow> inv j \<and> numbered 0 (map fst (jlog j (entity_key cfg)))
     \<and> (\<exists>es. decode_log (o_eventCodec cfg) (jlog j (entity_key cfg)) = Inr es)
     \<and> (\<forall>n m d s. jsnap j (entity_key cfg) = Some (n, m, d) \<longrightarrow> decode (o_stateCodec cfg) m d = Inr s \<longrightarrow>
          n \<le> length (jlog j (entity_key cfg)) \<and> replay cfg (take n (jlog j (entity_key cfg))) = Inr s)"

definition live :: "('cmd, 'r, 'e, 's, 'fx, 'df, 'd, 'j) runner_opts \<Rightarrow> ('cmd, 'r, 's, 'df, 'd, 'j) runner \<Rightarrow> bool" where
  "live cfg w \<longleftrightarrow> sequenceNr (rn_est w) = length (jlog (rn_journal w) (entity_key cfg))
     \<and> replay cfg (jlog (rn_journal w) (entity_key cfg)) = Inr (state (rn_est w))"

definition lawful :: "('cmd, 'r, 'e, 's, 'fx, 'df, 'd, 'j) runner_opts \<Rightarrow> bool" where
  "lawful cfg \<longleftrightarrow> o_journal cfg = J \<and> codec_contract (o_eventCodec cfg) \<and> codec_contract (o_stateCodec cfg)"

text \<open>Any starting point that is the state after a prefix gives the same recovery.\<close>

lemma replay_suffix:
  assumes "stored cfg j" "n \<le> length (jlog j (entity_key cfg))"
    and "replay cfg (take n (jlog j (entity_key cfg))) = Inr s"
    and "decode_log (o_eventCodec cfg) (filter (\<lambda>x. n < fst x) (jlog j (entity_key cfg))) = Inr es"
  shows "replay_from (apply_event (o_aggregate cfg)) (s, n) es =
     (case replay cfg (jlog j (entity_key cfg)) of
        Inl e \<Rightarrow> Inl e | Inr s' \<Rightarrow> Inr (s', length (jlog j (entity_key cfg))))"
proof -
  have "numbered 0 (map fst (jlog j (entity_key cfg)))" using assms(1) by (simp add: stored_def)
  from replay_log_suffix [OF this assms(2) assms(3) [unfolded replay_def] assms(4)] show ?thesis by (simp add: replay_def)
qed

lemma decode_log_filtered:
  assumes "stored cfg j"
  obtains es where "decode_log (o_eventCodec cfg) (filter (\<lambda>x. n < fst x) (jlog j (entity_key cfg))) = Inr es"
  using assms decode_log_filter [of "o_eventCodec cfg" "jlog j (entity_key cfg)" _ "\<lambda>k. n < k"]
  unfolding stored_def by blast

lemma load_start_cases:
  assumes "stored cfg j" "o_journal cfg = J"
  shows "\<exists>snap. load_start cfg j = Inr snap \<and> (case snap of None \<Rightarrow> True
     | Some (n, s) \<Rightarrow> n \<le> length (jlog j (entity_key cfg)) \<and> replay cfg (take n (jlog j (entity_key cfg))) = Inr s)"
proof (cases "o_ignoreSnapshots cfg")
  case False
  have "inv j" using assms(1) by (simp add: stored_def)
  note l = load_snapshot [OF this, of "agg_category cfg" "o_entityId cfg" "o_stateCodec cfg"]
  show ?thesis
    using assms False l
    by (fastforce simp: load_start_def stored_def is_snapshot_decode_error_def split: option.splits sum.splits)
qed (simp add: load_start_def)

text \<open>Recovery computes the full replay, however it starts.\<close>

lemma recover_is_replay:
  assumes "stored cfg j" "o_journal cfg = J"
  shows "recover cfg j =
     (case replay cfg (jlog j (entity_key cfg)) of
        Inl e \<Rightarrow> Inl e
      | Inr s \<Rightarrow> Inr \<lparr>state = s, sequenceNr = length (jlog j (entity_key cfg)), stashed = [], eventsSinceSnapshot = 0\<rparr>)"
proof -
  have inv: "inv j" using assms(1) by (simp add: stored_def)
  from load_start_cases [OF assms] obtain snap where snap: "load_start cfg j = Inr snap"
    and ok: "case snap of None \<Rightarrow> True
     | Some (n, s) \<Rightarrow> n \<le> length (jlog j (entity_key cfg)) \<and> replay cfg (take n (jlog j (entity_key cfg))) = Inr s"
    by blast
  define start where "start = (case snap of None \<Rightarrow> (initial (o_aggregate cfg) (o_entityId cfg), 0) | Some (n, s) \<Rightarrow> (s, n))"
  have st: "snd start \<le> length (jlog j (entity_key cfg))"
    "replay cfg (take (snd start) (jlog j (entity_key cfg))) = Inr (fst start)"
    using ok by (auto simp: start_def split: option.splits)
  obtain es where es: "decode_log (o_eventCodec cfg) (filter (\<lambda>x. snd start < fst x) (jlog j (entity_key cfg))) = Inr es"
    using decode_log_filtered [OF assms(1)] .
  from replay_suffix [OF assms(1) st es]
  have "replay_from (apply_event (o_aggregate cfg)) start es =
     (case replay cfg (jlog j (entity_key cfg)) of
        Inl e \<Rightarrow> Inl e | Inr s' \<Rightarrow> Inr (s', length (jlog j (entity_key cfg))))" by simp
  then show ?thesis
    using es inv assms(2) by (simp add: recover_def snap start_def [symmetric] load_events split: sum.splits)
qed

text \<open>A batch appended at the end keeps the journal's side.\<close>

lemma stored_persist:
  assumes "lawful cfg" "stored cfg j"
    and "persistEvents J j (agg_category cfg) (o_entityId cfg) es (length (jlog j (entity_key cfg)))
           (o_eventCodec cfg) envs = Inr (n, j')"
  shows "stored cfg j' \<and> n = length (jlog j' (entity_key cfg))
     \<and> jlog j' (entity_key cfg) = jlog j (entity_key cfg)
         @ log_entries (o_eventCodec cfg) (length (jlog j (entity_key cfg))) es"
proof -
  let ?lg = "jlog j (entity_key cfg)"
  let ?new = "log_entries (o_eventCodec cfg) (length ?lg) es"
  have st: "inv j" "numbered 0 (map fst ?lg)" using assms(2) by (auto simp: stored_def)
  have "\<forall>n \<in> fst ` set ?lg. n \<le> length ?lg" using numbered_set [OF st(2)] by auto
  note p = persist_Inr [OF st(1) this assms(3)]
  have lg: "jlog j' (entity_key cfg) = ?lg @ ?new" and sn: "jsnap j' = jsnap j" and n: "n = length ?lg + length es"
    using p by simp_all
  have "codec_contract (o_eventCodec cfg)" using assms(1) by (simp add: lawful_def)
  note dec = decode_log_entries [OF this, of "length ?lg" es]
  obtain old where old: "decode_log (o_eventCodec cfg) ?lg = Inr old" using assms(2) by (auto simp: stored_def)
  have "n' \<le> length ?lg \<and> replay cfg (take n' ?lg) = Inr s"
    if "jsnap j (entity_key cfg) = Some (n', m, d)" "decode (o_stateCodec cfg) m d = Inr s" for n' m d s
    using assms(2) that by (auto simp: stored_def)
  then have "stored cfg j'"
    unfolding stored_def lg sn using p st(2) old dec
    by (auto simp: numbered_append decode_log_append le_SucI trans_le_add1 simp del: upt_Suc)
  with lg n show ?thesis by simp
qed

lemma take_snapshot_keeps:
  assumes "lawful cfg" "stored cfg (rn_journal w)" "live cfg w" "take_snapshot cfg w = Inr w'"
  shows "stored cfg (rn_journal w') \<and> live cfg w'"
proof -
  from assms(4) obtain j where j: "persistSnapshot (o_journal cfg) (rn_journal w) (agg_category cfg) (o_entityId cfg)
        (state (rn_est w)) (sequenceNr (rn_est w)) (o_stateCodec cfg) = Inr j"
    and w': "w' = w\<lparr>rn_journal := j, rn_est := (rn_est w)\<lparr>eventsSinceSnapshot := 0\<rparr>\<rparr>"
    by (auto simp: take_snapshot_def split: sum.splits)
  have J: "o_journal cfg = J" and sc: "codec_contract (o_stateCodec cfg)" using assms(1) by (auto simp: lawful_def)
  have "inv (rn_journal w)" using assms(2) by (simp add: stored_def)
  note sn = snapshot_Inr [OF this j [unfolded J]]
  show ?thesis
    using assms(2,3) sn codec_contract.roundtrip [OF sc] by (auto simp: stored_def live_def w')
qed

lemma after_persist_keeps:
  assumes "lawful cfg" "stored cfg (rn_journal w)" "live cfg w"
    and "after_persist cfg start events envs w = (w', r)"
  shows "stored cfg (rn_journal w') \<and> (r = None \<longrightarrow> live cfg w')"
  using assms take_snapshot_keeps [OF assms(1-3)]
  by (auto simp: after_persist_def live_def split: sum.splits if_splits)

lemma exec_persist_keeps:
  assumes "lawful cfg" "stored cfg (rn_journal w)" "live cfg w" "exec_persist cfg events w = (w', r)"
  shows "stored cfg (rn_journal w') \<and> (r = None \<longrightarrow> live cfg w')"
proof -
  let ?envs = "make_envelopes (o_stampOf cfg) (o_ulid cfg) (rn_ulids w) events"
  let ?persist = "persistEvents J (rn_journal w) (agg_category cfg) (o_entityId cfg) events
      (sequenceNr (rn_est w)) (o_eventCodec cfg) (Some (fst ?envs))"
  have J: "o_journal cfg = J" and ec: "codec_contract (o_eventCodec cfg)" using assms(1) by (auto simp: lawful_def)
  have seq: "sequenceNr (rn_est w) = length (jlog (rn_journal w) (entity_key cfg))"
    and rep: "replay cfg (jlog (rn_journal w) (entity_key cfg)) = Inr (state (rn_est w))"
    using assms(3) by (simp_all add: live_def)
  show ?thesis
  proof (cases ?persist)
    case (Inl e)
    with assms(2,4) show ?thesis by (auto simp: exec_persist_def J)
  next
    case (Inr nj)
    obtain n j where nj: "nj = (n, j)" by (cases nj)
    note p = stored_persist [OF assms(1,2) Inr [unfolded nj seq]]
    show ?thesis
    proof (cases "foldE (apply_event (o_aggregate cfg)) (state (rn_est w)) events")
      case (Inl e)
      with assms(4) \<open>?persist = Inr nj\<close> nj p show ?thesis by (auto simp: exec_persist_def J)
    next
      case fold: (Inr s)
      let ?w = "w\<lparr>rn_ulids := snd ?envs, rn_journal := j,
         rn_est := \<lparr>state = s, sequenceNr = n, stashed = stashed (rn_est w),
           eventsSinceSnapshot = eventsSinceSnapshot (rn_est w) + length events\<rparr>\<rparr>"
      have eq: "exec_persist cfg events w = after_persist cfg (sequenceNr (rn_est w)) events (fst ?envs) ?w"
        using \<open>?persist = Inr nj\<close> by (simp add: exec_persist_def J nj fold Let_def)
      have "replay cfg (jlog j (entity_key cfg)) = Inr s"
        using p replay_append [OF rep decode_log_entries [OF ec]] fold by (simp del: upt_Suc)
      then have "stored cfg (rn_journal ?w)" "live cfg ?w" using p by (simp_all add: live_def)
      from after_persist_keeps [OF assms(1) this] assms(4) show ?thesis by (simp add: eq)
    qed
  qed
qed

lemma exec_step_keeps:
  assumes "lawful cfg" "stored cfg (rn_journal w)" "live cfg w" "exec_step cfg x w = (w', r)"
  shows "stored cfg (rn_journal w') \<and> (\<forall>new. r = Inr new \<longrightarrow> live cfg w')"
proof (cases x)
  case (Cmd c replyTo)
  with assms show ?thesis
    by (auto simp: Let_def live_def split: sum.splits effect.splits)
next
  case (Eff e replyTo)
  show ?thesis
  proof (cases e)
    case (Persist es k)
    with Eff assms exec_persist_keeps [OF assms(1-3)] show ?thesis
      by (fastforce split: prod.splits option.splits)
  next
    case (Snapshot k)
    with Eff assms take_snapshot_keeps [OF assms(1-3)] show ?thesis
      by (fastforce split: sum.splits)
  qed (use Eff assms in \<open>auto simp: live_def Let_def split: option.splits\<close>)
qed

section \<open>Runs\<close>

lemma drained_frame [simp]:
  "rn_journal (terminate e w) = rn_journal w" "rn_est (terminate e w) = rn_est w"
  "rn_terminated (terminate e w)"
  "rn_journal (crash a x w) = rn_journal w" "rn_terminated (crash a x w)"
  by (auto simp: terminate_def crash_def Let_def split: option.splits)

lemma live_est: "rn_est w' = rn_est w \<Longrightarrow> rn_journal w' = rn_journal w \<Longrightarrow> live cfg w' = live cfg w"
  by (simp add: live_def)

lemma timer_fires_frame [simp]:
  "rn_est (timer_fires t w) = rn_est w" "rn_journal (timer_fires t w) = rn_journal w"
  by (auto simp: timer_fires_def split: option.splits timer.splits)

lemma foldl_respond_frame:
  "rn_est (foldl (\<lambda>w' x. respond (f x) (g x) w') w xs) = rn_est w
   \<and> rn_journal (foldl (\<lambda>w' x. respond (f x) (g x) w') w xs) = rn_journal w
   \<and> rn_terminated (foldl (\<lambda>w' x. respond (f x) (g x) w') w xs) = rn_terminated w"
  by (induction xs arbitrary: w) simp_all

lemma complete_deferred_frame [simp]:
  "rn_est (complete_deferred d v w) = rn_est w" "rn_journal (complete_deferred d v w) = rn_journal w"
  "rn_terminated (complete_deferred d v w) = rn_terminated w"
  unfolding complete_deferred_def by (simp_all add: foldl_respond_frame)

lemma deferred_timeout_frame [simp]:
  "rn_est (deferred_timeout i w) = rn_est w" "rn_journal (deferred_timeout i w) = rn_journal w"
  "rn_terminated (deferred_timeout i w) = rn_terminated w"
  by (simp_all add: deferred_timeout_def)

text \<open>A new incarnation over a stored journal is live, unless it crashed while starting.\<close>

lemma start_runner_keeps:
  assumes "lawful cfg" "stored cfg (rn_journal w)"
  shows "rn_journal (start_runner cfg w) = rn_journal w
     \<and> (\<not> rn_terminated (start_runner cfg w) \<longrightarrow> live cfg (start_runner cfg w))"
proof -
  have J: "o_journal cfg = J" using assms(1) by (simp add: lawful_def)
  note r = recover_is_replay [OF assms(2) J]
  show ?thesis
  proof (cases "replay cfg (jlog (rn_journal w) (entity_key cfg))")
    case (Inl e)
    then show ?thesis by (simp add: start_runner_def r)
  next
    case (Inr s)
    then show ?thesis
      by (cases "onRecoveryComplete (o_aggregate cfg)")
        (simp_all add: start_runner_def r live_def Let_def split: option.splits)
  qed
qed

definition run_ok :: "('cmd, 'r, 'e, 's, 'fx, 'df, 'd, 'j) runner_opts \<Rightarrow>
    ('cmd, 'r, 'e, 's, 'fx, 'df, 'd, 'j) config \<Rightarrow> bool" where
  "run_ok cfg c \<longleftrightarrow> stored cfg (rn_journal (cf_runner c))
     \<and> (\<not> rn_terminated (cf_runner c) \<longrightarrow> live cfg (cf_runner c))"

lemma work_turn_keeps:
  assumes "lawful cfg" "run_ok cfg c" "\<not> rn_terminated (cf_runner c)"
  shows "run_ok cfg (work_turn cfg c)"
proof (cases "cf_work c")
  case Nil
  with assms(2) show ?thesis by (simp add: work_turn_def)
next
  case (Cons x ws)
  obtain w r where s: "exec_step cfg x (cf_runner c) = (w, r)" by (cases "exec_step cfg x (cf_runner c)")
  from assms(2,3) have "stored cfg (rn_journal (cf_runner c))" "live cfg (cf_runner c)" by (simp_all add: run_ok_def)
  from exec_step_keeps [OF assms(1) this s] show ?thesis
    by (auto simp: work_turn_def Cons s run_ok_def split: sum.splits)
qed

lemma runner_run_ok:
  assumes "runner_run cfg init env c" "lawful cfg"
    and "\<And>j. init j \<Longrightarrow> stored cfg j"
    and "\<And>j j'. env j j' \<Longrightarrow> inv j \<Longrightarrow> inv j' \<and> jlog j' (entity_key cfg) = jlog j (entity_key cfg)
            \<and> jsnap j' (entity_key cfg) = jsnap j (entity_key cfg)"
  shows "run_ok cfg c"
  using assms(1)
proof (induction rule: runner_run.induct)
  case (started j u n)
  then show ?case
    using start_runner_keeps [OF assms(2), of "new_runner cfg j u n"] assms(3)
    by (simp add: run_ok_def new_runner_def)
next
  case (killed c u n)
  then show ?case
    using start_runner_keeps [OF assms(2), of "new_runner cfg (rn_journal (cf_runner c)) u n"]
    by (simp add: run_ok_def new_runner_def)
next
  case (offered c m)
  then show ?case by (simp add: run_ok_def live_def)
next
  case (ticked c t)
  then show ?case by (simp add: run_ok_def live_def)
next
  case (completed c d v)
  then show ?case by (simp add: run_ok_def live_def)
next
  case (expired c i)
  then show ?case by (simp add: run_ok_def live_def)
next
  case (shared c j)
  then have "inv (rn_journal (cf_runner c))" by (simp add: run_ok_def stored_def)
  from assms(4) [OF shared.hyps(2) this] shared.IH show ?case by (simp add: run_ok_def stored_def live_def)
next
  case (taken c m ms)
  then show ?case by (cases m) (simp_all add: run_ok_def take_message_def live_def)
next
  case (worked c)
  then show ?case by (intro work_turn_keeps [OF assms(2)])
qed

text \<open>
  The statement for clients: at any moment of any run, whatever a new incarnation would
  recover from the journal (reading snapshots or not) is the live state; of a terminated
  runner, the replay of all that it wrote.
\<close>

lemma recovery_of_runs:
  assumes "runner_run cfg init env c" "lawful cfg"
    and "\<And>j. init j \<Longrightarrow> stored cfg j"
    and "\<And>j j'. env j j' \<Longrightarrow> inv j \<Longrightarrow> inv j' \<and> jlog j' (entity_key cfg) = jlog j (entity_key cfg)
            \<and> jsnap j' (entity_key cfg) = jsnap j (entity_key cfg)"
  shows "(\<not> rn_terminated (cf_runner c) \<longrightarrow>
       recover (cfg\<lparr>o_ignoreSnapshots := b\<rparr>) (rn_journal (cf_runner c)) =
         Inr ((rn_est (cf_runner c))\<lparr>stashed := [], eventsSinceSnapshot := 0\<rparr>))
    \<and> recover (cfg\<lparr>o_ignoreSnapshots := b\<rparr>) (rn_journal (cf_runner c)) =
        (case replay cfg (jlog (rn_journal (cf_runner c)) (entity_key cfg)) of
           Inl e \<Rightarrow> Inl e
         | Inr s \<Rightarrow> Inr \<lparr>state = s, sequenceNr = length (jlog (rn_journal (cf_runner c)) (entity_key cfg)),
                        stashed = [], eventsSinceSnapshot = 0\<rparr>)
    \<and> numbered 0 (map fst (jlog (rn_journal (cf_runner c)) (entity_key cfg)))"
proof -
  let ?cfg = "cfg\<lparr>o_ignoreSnapshots := b\<rparr>"
  have ok: "run_ok cfg c" by (rule runner_run_ok [OF assms])
  have rep: "replay ?cfg lg = replay cfg lg" for lg by (simp add: replay_def split: sum.splits)
  have st: "stored ?cfg (rn_journal (cf_runner c))" using ok by (simp add: run_ok_def stored_def rep)
  have J: "o_journal ?cfg = J" using assms(2) by (simp add: lawful_def)
  have key: "entity_key ?cfg = entity_key cfg" by simp
  note r = recover_is_replay [OF st J, unfolded rep key]
  have num: "numbered 0 (map fst (jlog (rn_journal (cf_runner c)) (entity_key cfg)))"
    using ok by (simp add: run_ok_def stored_def)
  have "recover ?cfg (rn_journal (cf_runner c)) = Inr ((rn_est (cf_runner c))\<lparr>stashed := [], eventsSinceSnapshot := 0\<rparr>)"
    if "\<not> rn_terminated (cf_runner c)"
    using ok that unfolding r by (simp add: run_ok_def live_def)
  with r num show ?thesis by blast
qed

end

section \<open>Over the in-memory journal\<close>

text \<open>What other entities do to the shared journal: they write under other keys.\<close>

definition im_other :: "string \<Rightarrow> 'd inmem \<Rightarrow> 'd inmem \<Rightarrow> bool" where
  "im_other key j j' \<longleftrightarrow> im_inv j' \<and> im_log j' key = im_log j key \<and> im_snap j' key = im_snap j key"

lemma im_other_write:
  assumes "im_inv j" "im_persistEvents j c e es start codec envs = Inr (n, j')" "persistenceKey c e \<noteq> key"
  shows "im_other key j j'"
  using im_persist_Inr [OF assms(2)] im_inv_persist [OF assms(1,2)] assms(3)
  by (auto simp: im_other_def im_log_def im_snap_def)

text \<open>
  C1. Crash consistency of an entity. Take any run of an entity over a journal that was empty
  for it: commands, timers and deferred replies arrive at any moment, also between the awaits
  of a handler, decisions and side effects throw, the process is killed at any moment, other
  entities write to the same journal. As long as the runner lives, what a fresh incarnation
  recovers from the journal, with or without the snapshots, is exactly the live state and
  sequence number; after a crash it is the replay of every event that was persisted; and
  the entity's events are always numbered 1, 2, 3 and so on without a gap.
\<close>

theorem recovery_equals_live_state:
  assumes run: "runner_run cfg (\<lambda>j. j = createInMemoryJournal) (im_other (entity_key cfg)) c"
    and "o_journal cfg = inmem_journal"
    and "codec_contract (o_eventCodec cfg)" and "codec_contract (o_stateCodec cfg)"
  shows "(\<not> rn_terminated (cf_runner c) \<longrightarrow>
       recover (cfg\<lparr>o_ignoreSnapshots := b\<rparr>) (rn_journal (cf_runner c)) =
         Inr ((rn_est (cf_runner c))\<lparr>stashed := [], eventsSinceSnapshot := 0\<rparr>))
    \<and> recover (cfg\<lparr>o_ignoreSnapshots := b\<rparr>) (rn_journal (cf_runner c)) =
        (case replay cfg (im_log (rn_journal (cf_runner c)) (entity_key cfg)) of
           Inl e \<Rightarrow> Inl e
         | Inr s \<Rightarrow> Inr \<lparr>state = s, sequenceNr = length (im_log (rn_journal (cf_runner c)) (entity_key cfg)),
                        stashed = [], eventsSinceSnapshot = 0\<rparr>)
    \<and> numbered 0 (map fst (im_log (rn_journal (cf_runner c)) (entity_key cfg)))"
proof (rule inmem.recovery_of_runs [OF run])
  show "inmem.lawful cfg" using assms(2-4) by (simp add: inmem.lawful_def)
  show "inmem.stored cfg j" if "j = createInMemoryJournal" for j
    using that im_inv_create by (simp add: inmem.stored_def)
  show "im_inv j' \<and> im_log j' (entity_key cfg) = im_log j (entity_key cfg) \<and> im_snap j' (entity_key cfg) = im_snap j (entity_key cfg)"
    if "im_other (entity_key cfg) j j'" for j j'
    using that by (simp add: im_other_def)
qed

text \<open>
  A counter entity over a journal: every command is persisted as an event and added up, with a
  snapshot after each.
\<close>

definition demo_opts :: "('j, int, int, int) journal \<Rightarrow> (int, unit, int, int, unit, unit, int, 'j) runner_opts" where
  "demo_opts J = \<lparr>o_aggregate = \<lparr>category = ''c'', initial = (\<lambda>_. 0),
        decide = (\<lambda>_ _ c. ([], Inr (Persist [c] Done))), apply_event = (\<lambda>s e. Inr (s + e)),
        onRecoveryComplete = None, snapshotEvery = Some 1\<rparr>,
      o_entityId = ''e'', o_journal = J, o_eventCodec = objectCodec ''E'',
      o_stateCodec = objectCodec ''S'', o_ignoreSnapshots = False, o_stampOf = (\<lambda>_. None),
      o_ulid = (\<lambda>_. ''id''), o_now = (\<lambda>_. 0), o_sideEffect = (\<lambda>_ _. ([], None))\<rparr>"

lemmas demo_defs = demo_opts_def objectCodec_def

definition demo_new :: "'j \<Rightarrow> (int, unit, int, unit, int, 'j) runner" where
  "demo_new j = \<lparr>rn_est = \<lparr>state = 0, sequenceNr = 0, stashed = [], eventsSinceSnapshot = 0\<rparr>,
     rn_mailbox = [], rn_timers = [], rn_terminated = False, rn_journal = j,
     rn_replies = [], rn_waits = [], rn_batches = [], rn_ulids = 0, rn_calls = 0\<rparr>"

text \<open>A run that starts on an empty journal and processes one command.\<close>

lemma counter_run:
  fixes J :: "('j, int, int, int) journal"
  assumes init: "init j"
    and empty: "recover (demo_opts J) j = Inr \<lparr>state = 0, sequenceNr = 0, stashed = [], eventsSinceSnapshot = 0\<rparr>"
    and persist: "exec_persist (demo_opts J) [5] ((demo_new j)\<lparr>rn_calls := 1\<rparr>) = (w, None)"
    and w: "\<not> rn_terminated w"
  shows "\<exists>c. runner_run (demo_opts J) init env c \<and> cf_runner c = w"
proof -
  let ?run = "runner_run (demo_opts J) init env"
  define c0 :: "(int, unit, int, int, unit, unit, int, 'j) config" where "c0 = \<lparr>cf_work = [], cf_asker = None, cf_runner = start_runner (demo_opts J) (new_runner (demo_opts J) j 0 0)\<rparr>"
  have start: "start_runner (demo_opts J) (new_runner (demo_opts J) j 0 0) = demo_new j"
    unfolding start_runner_def by (simp add: new_runner_def empty demo_new_def) (simp add: demo_defs)
  then have c0: "c0 = \<lparr>cf_work = [], cf_asker = None, cf_runner = demo_new j\<rparr>" by (simp add: c0_def)
  have r0: "?run c0" unfolding c0_def using init by (rule runner_run.started)
  define c1 :: "(int, unit, int, int, unit, unit, int, 'j) config" where "c1 = c0\<lparr>cf_runner := offer (Tell 5) (cf_runner c0)\<rparr>"
  have r1: "?run c1" unfolding c1_def by (rule runner_run.offered [OF r0]) (simp add: c0_def start demo_new_def)
  define c2 :: "(int, unit, int, int, unit, unit, int, 'j) config" where "c2 = take_message (Tell 5) ((cf_runner c1)\<lparr>rn_mailbox := []\<rparr>)"
  have r2: "?run c2" unfolding c2_def
    by (rule runner_run.taken [OF r1]) (simp_all add: c1_def c0_def start demo_new_def offer_def)
  have r3: "?run (work_turn (demo_opts J) c2)"
    by (rule runner_run.worked [OF r2]) (simp_all add: c2_def c1_def c0_def start demo_new_def offer_def take_message_def)
  have e: "cf_work (work_turn (demo_opts J) c2) = [Eff (Persist [5] Done) None]"
    "cf_runner (work_turn (demo_opts J) c2) = (demo_new j)\<lparr>rn_calls := 1\<rparr>"
    by (simp_all add: work_turn_def c2_def c1_def c0 demo_new_def offer_def take_message_def demo_defs)
  have r4: "?run (work_turn (demo_opts J) (work_turn (demo_opts J) c2))"
    by (rule runner_run.worked [OF r3]) (simp_all add: e demo_new_def)
  have "cf_runner (work_turn (demo_opts J) (work_turn (demo_opts J) c2)) = w"
    unfolding work_turn_def [of "demo_opts J" "work_turn (demo_opts J) c2"] e
    by (simp add: persist One_nat_def [symmetric] del: One_nat_def)
  with r4 show ?thesis by blast
qed

theorem recovery_equals_live_state_witness:
  "\<exists>c. runner_run (demo_opts inmem_journal) (\<lambda>j. j = createInMemoryJournal) (im_other (entity_key (demo_opts inmem_journal))) c
     \<and> recover (demo_opts inmem_journal) (rn_journal (cf_runner c)) =
     Inr \<lparr>state = 5, sequenceNr = 1, stashed = [], eventsSinceSnapshot = 0\<rparr>"
proof -
  let ?cfg = "demo_opts inmem_journal" and ?j = "createInMemoryJournal :: int inmem"
  have e: "recover ?cfg ?j = Inr \<lparr>state = 0, sequenceNr = 0, stashed = [], eventsSinceSnapshot = 0\<rparr>"
    by (simp add: recover_def load_start_def demo_defs inmem_journal_def im_loadSnapshot_def im_loadEvents_def
        createInMemoryJournal_def events_at_def)
  obtain w where w: "exec_persist ?cfg [5] ((demo_new ?j)\<lparr>rn_calls := 1\<rparr>) = (w, None)" "\<not> rn_terminated w"
    "state (rn_est w) = 5" "sequenceNr (rn_est w) = 1"
    by (simp add: demo_new_def exec_persist_def after_persist_def take_snapshot_def snapshot_interval_def
      demo_defs inmem_journal_def im_persistEvents_def im_persistSnapshot_def createInMemoryJournal_def to_stored_def
      events_at_def Let_def)
  obtain c where c: "runner_run ?cfg (\<lambda>j. j = ?j) (im_other (entity_key ?cfg)) c" "cf_runner c = w"
    using counter_run [where init = "\<lambda>j. j = ?j", OF refl e w(1,2)] by blast
  have "recover (?cfg\<lparr>o_ignoreSnapshots := False\<rparr>) (rn_journal w) = Inr ((rn_est w)\<lparr>stashed := [], eventsSinceSnapshot := 0\<rparr>)"
    using recovery_equals_live_state [OF c(1), of False] c(2) w(2)
    by (simp add: demo_opts_def object_codec.codec_contract_axioms)
  moreover have "?cfg\<lparr>o_ignoreSnapshots := False\<rparr> = ?cfg" by (simp add: demo_opts_def)
  ultimately show ?thesis using c w by (intro exI [of _ c]) simp
qed

section \<open>Over SQLite\<close>

text \<open>
  What the rest of the system does to the tables: other entities write, the clock moves, and
  rows of this entity are not touched.
\<close>

definition sq_other :: "string \<Rightarrow> 'd sqlite_db \<Rightarrow> 'd sqlite_db \<Rightarrow> bool" where
  "sq_other key db db' \<longleftrightarrow> sq_inv db' \<and> sq_log db' key = sq_log db key \<and> sq_snap db' key = sq_snap db key"

lemma sq_other_write:
  assumes "sq_inv db" "\<forall>n \<in> fst ` set (sq_log db (persistenceKey c e)). n \<le> start"
    and "sq_persistEvents db c e es start codec envs = Inr (n, db')" "persistenceKey c e \<noteq> key"
  shows "sq_other key db db'"
  using sq_persist_contract [OF assms(1-3)] assms(4) by (simp add: sq_other_def)

text \<open>
  C9. The same crash consistency when the journal is the SQLite one: as long as the runner lives, what
  a restart reads back from the tables, page by page and with or without the snapshot, is the
  live state; after a crash it is the replay of all that was committed; numbers have no gap.
\<close>

theorem sqlite_recovery_equals_live_state:
  assumes run: "runner_run cfg (\<lambda>j. j = empty_db now) (sq_other (entity_key cfg)) c"
    and "o_journal cfg = sqlite_journal"
    and "codec_contract (o_eventCodec cfg)" and "codec_contract (o_stateCodec cfg)"
  shows "(\<not> rn_terminated (cf_runner c) \<longrightarrow>
       recover (cfg\<lparr>o_ignoreSnapshots := b\<rparr>) (rn_journal (cf_runner c)) =
         Inr ((rn_est (cf_runner c))\<lparr>stashed := [], eventsSinceSnapshot := 0\<rparr>))
    \<and> recover (cfg\<lparr>o_ignoreSnapshots := b\<rparr>) (rn_journal (cf_runner c)) =
        (case replay cfg (sq_log (rn_journal (cf_runner c)) (entity_key cfg)) of
           Inl e \<Rightarrow> Inl e
         | Inr s \<Rightarrow> Inr \<lparr>state = s, sequenceNr = length (sq_log (rn_journal (cf_runner c)) (entity_key cfg)),
                        stashed = [], eventsSinceSnapshot = 0\<rparr>)
    \<and> numbered 0 (map fst (sq_log (rn_journal (cf_runner c)) (entity_key cfg)))"
proof (rule sqlite.recovery_of_runs [OF run])
  show "sqlite.lawful cfg" using assms(2-4) by (simp add: sqlite.lawful_def)
  show "sqlite.stored cfg j" if "j = empty_db now" for j
    using that by (simp add: sqlite.stored_def sq_log_def sq_snap_def empty_db_def)
      (simp flip: empty_db_def)
  show "sq_inv j' \<and> sq_log j' (entity_key cfg) = sq_log j (entity_key cfg) \<and> sq_snap j' (entity_key cfg) = sq_snap j (entity_key cfg)"
    if "sq_other (entity_key cfg) j j'" for j j'
    using that by (simp add: sq_other_def)
qed

theorem sqlite_recovery_equals_live_state_witness:
  "\<exists>c. runner_run (demo_opts sqlite_journal) (\<lambda>j. j = empty_db 0) (sq_other (entity_key (demo_opts sqlite_journal))) c
     \<and> recover (demo_opts sqlite_journal) (rn_journal (cf_runner c)) =
     Inr \<lparr>state = 5, sequenceNr = 1, stashed = [], eventsSinceSnapshot = 0\<rparr>"
proof -
  let ?cfg = "demo_opts sqlite_journal" and ?j = "empty_db 0 :: int sqlite_db"
  have e: "recover ?cfg ?j = Inr \<lparr>state = 0, sequenceNr = 0, stashed = [], eventsSinceSnapshot = 0\<rparr>"
  proof -
    have "sq_loadEvents ?j c i 0 codec = Inr []" for c i and codec :: "(int, int) codec"
      by (simp add: sq_loadEvents_eq sq_log_def) (simp add: empty_db_def)
    moreover have "sq_loadSnapshot ?j c i codec = Inr None" for c i and codec :: "(int, int) codec"
      by (simp add: sq_loadSnapshot_def empty_db_def)
    ultimately show ?thesis by (simp add: recover_def load_start_def demo_defs sqlite_journal_def)
  qed
  obtain w where w: "exec_persist ?cfg [5] ((demo_new ?j)\<lparr>rn_calls := 1\<rparr>) = (w, None)" "\<not> rn_terminated w"
    "state (rn_est w) = 5" "sequenceNr (rn_est w) = 1"
    by (simp add: demo_new_def exec_persist_def after_persist_def take_snapshot_def snapshot_interval_def
      demo_defs sqlite_journal_def sq_persistEvents_def sq_persistSnapshot_def empty_db_def to_rows_def
      insertManyEvents_def insert_event_def upsertSnapshot_def envelope_at_def max_global_seq_def Let_def)
  obtain c where c: "runner_run ?cfg (\<lambda>j. j = ?j) (sq_other (entity_key ?cfg)) c" "cf_runner c = w"
    using counter_run [where init = "\<lambda>j. j = ?j", OF refl e w(1,2)] by blast
  have "recover (?cfg\<lparr>o_ignoreSnapshots := False\<rparr>) (rn_journal w) = Inr ((rn_est w)\<lparr>stashed := [], eventsSinceSnapshot := 0\<rparr>)"
    using sqlite_recovery_equals_live_state [OF c(1), of False] c(2) w(2)
    by (simp add: demo_opts_def object_codec.codec_contract_axioms)
  moreover have "?cfg\<lparr>o_ignoreSnapshots := False\<rparr> = ?cfg" by (simp add: demo_opts_def)
  ultimately show ?thesis using c w by (intro exI [of _ c]) simp
qed

end
