(* ===== verification/Projection_Store.thy ===== *)
theory Projection_Store
  imports Journal
begin

text \<open>
  The stores of \<open>projection/index.ts\<close>: view documents and per-entity offsets, in memory (maps
  with composed string keys) and in SQLite (two tables), the notifier both use, and the
  contract \<open>projection_contract\<close> that the folds of \<open>Projection\<close> rely on.
\<close>

section \<open>View listeners\<close>

text \<open>
  The notifier keeps sets of listeners in two maps. A set is an object that the unsubscribe
  function holds on to, so the sets live in a heap: \<open>ls_sets\<close>, addressed by creation order. A
  listener is a number.
\<close>

record listeners =
  ls_sets :: "nat list list"
  ls_byKey :: "(string, nat) jsmap"
  ls_byProjection :: "(string, nat) jsmap"

definition createViewNotifier :: listeners where
  "createViewNotifier = \<lparr>ls_sets = [], ls_byKey = [], ls_byProjection = []\<rparr>"

text \<open>\<open>addTo\<close> returns the address of the set for the unsubscribe function.\<close>

definition addTo :: "string \<Rightarrow> nat \<Rightarrow> nat list list \<times> (string, nat) jsmap \<Rightarrow> nat \<times> nat list list \<times> (string, nat) jsmap" where
  "addTo key l h =
     (case js_get (snd h) key of
        None \<Rightarrow> (length (fst h), fst h @ [[l]], js_set key (length (fst h)) (snd h))
      | Some i \<Rightarrow> (i, (fst h)[i := js_add l (fst h ! i)], snd h))"

definition removeFrom :: "nat \<Rightarrow> string \<Rightarrow> nat \<Rightarrow> nat list list \<times> (string, nat) jsmap \<Rightarrow> nat list list \<times> (string, nat) jsmap" where
  "removeFrom i key l h =
     (let s = remove1 l (fst h ! i)
      in ((fst h)[i := s], if s = [] then js_delete key (snd h) else snd h))"

definition listeners_of :: "nat list list \<times> (string, nat) jsmap \<Rightarrow> string \<Rightarrow> nat list" where
  "listeners_of h key = (case js_get (snd h) key of None \<Rightarrow> [] | Some i \<Rightarrow> fst h ! i)"

definition onKey :: "string \<Rightarrow> string \<Rightarrow> nat \<Rightarrow> listeners \<Rightarrow> nat \<times> listeners" where
  "onKey p v l ls =
     (let r = addTo (p @ '':'' @ v) l (ls_sets ls, ls_byKey ls)
      in (fst r, ls\<lparr>ls_sets := fst (snd r), ls_byKey := snd (snd r)\<rparr>))"

definition offKey :: "nat \<Rightarrow> string \<Rightarrow> string \<Rightarrow> nat \<Rightarrow> listeners \<Rightarrow> listeners" where
  "offKey i p v l ls =
     (let r = removeFrom i (p @ '':'' @ v) l (ls_sets ls, ls_byKey ls)
      in ls\<lparr>ls_sets := fst r, ls_byKey := snd r\<rparr>)"

definition onProjection :: "string \<Rightarrow> nat \<Rightarrow> listeners \<Rightarrow> nat \<times> listeners" where
  "onProjection p l ls =
     (let r = addTo p l (ls_sets ls, ls_byProjection ls)
      in (fst r, ls\<lparr>ls_sets := fst (snd r), ls_byProjection := snd (snd r)\<rparr>))"

definition offProjection :: "nat \<Rightarrow> string \<Rightarrow> nat \<Rightarrow> listeners \<Rightarrow> listeners" where
  "offProjection i p l ls =
     (let r = removeFrom i p l (ls_sets ls, ls_byProjection ls)
      in ls\<lparr>ls_sets := fst r, ls_byProjection := snd r\<rparr>)"

text \<open>Who is called for an envelope, in order.\<close>

definition notified :: "listeners \<Rightarrow> string \<Rightarrow> string \<Rightarrow> nat list" where
  "notified ls p v = listeners_of (ls_sets ls, ls_byKey ls) (p @ '':'' @ v)
     @ listeners_of (ls_sets ls, ls_byProjection ls) p"

text \<open>
  The set that a late or repeated unsubscribe finds empty may no longer be the registered
  one: calling it twice takes the listeners that registered in between off the map.
\<close>

lemma unsubscribe_twice_drops_others:
  "let (i, a) = onKey p v 1 createViewNotifier; b = offKey i p v 1 a; (j, c) = onKey p v 2 b
   in notified c p v = [2] \<and> notified (offKey i p v 1 c) p v = []"
  by (simp add: onKey_def offKey_def addTo_def removeFrom_def notified_def listeners_of_def
      createViewNotifier_def Let_def)

section \<open>Stores\<close>

record 'v view_envelope =
  ve_viewId :: string
  ve_view :: 'v
  ve_sequenceNr :: nat

text \<open>The operations the folds and the runners use.\<close>

record ('s, 'v) projection_store =
  ps_get :: "'s \<Rightarrow> string \<Rightarrow> string \<Rightarrow> 'v view_envelope option"
  ps_put :: "string \<Rightarrow> string \<Rightarrow> 'v view_envelope \<Rightarrow> 's \<Rightarrow> 's"
  ps_putWithOffset :: "string \<Rightarrow> string \<Rightarrow> 'v view_envelope \<Rightarrow> string \<Rightarrow> string \<Rightarrow> 's \<Rightarrow> 's"
  ps_getOffset :: "'s \<Rightarrow> string \<Rightarrow> string \<Rightarrow> string \<Rightarrow> nat"
  ps_setOffset :: "string \<Rightarrow> string \<Rightarrow> string \<Rightarrow> nat \<Rightarrow> 's \<Rightarrow> 's"
  ps_clear :: "string \<Rightarrow> 's \<Rightarrow> 's"

subsection \<open>In memory\<close>

text \<open>\<open>ms_calls\<close> is what the listeners were called with.\<close>

record 'v mem_store =
  ms_views :: "(string, 'v view_envelope) jsmap"
  ms_offsets :: "(string, nat) jsmap"
  ms_listeners :: listeners
  ms_calls :: "(nat \<times> 'v view_envelope) list"

definition createInMemoryProjectionStore :: "'v mem_store" where
  "createInMemoryProjectionStore =
     \<lparr>ms_views = [], ms_offsets = [], ms_listeners = createViewNotifier, ms_calls = []\<rparr>"

definition viewKey :: "string \<Rightarrow> string \<Rightarrow> string" where
  "viewKey projectionId viewId = projectionId @ '':'' @ viewId"

definition offsetKey :: "string \<Rightarrow> string \<Rightarrow> string \<Rightarrow> string" where
  "offsetKey projectionId cat entityId = projectionId @ '':'' @ cat @ '':'' @ entityId"

definition ms_notify :: "string \<Rightarrow> 'v view_envelope \<Rightarrow> 'v mem_store \<Rightarrow> 'v mem_store" where
  "ms_notify p env s = s\<lparr>ms_calls := ms_calls s @ map (\<lambda>l. (l, env)) (notified (ms_listeners s) p (ve_viewId env))\<rparr>"

definition ms_get :: "'v mem_store \<Rightarrow> string \<Rightarrow> string \<Rightarrow> 'v view_envelope option" where
  "ms_get s p v = js_get (ms_views s) (viewKey p v)"

definition ms_put :: "string \<Rightarrow> string \<Rightarrow> 'v view_envelope \<Rightarrow> 'v mem_store \<Rightarrow> 'v mem_store" where
  "ms_put p v env s =
     (if (case js_get (ms_views s) (viewKey p v) of None \<Rightarrow> False | Some x \<Rightarrow> ve_sequenceNr env \<le> ve_sequenceNr x)
      then s
      else ms_notify p env (s\<lparr>ms_views := js_set (viewKey p v) env (ms_views s)\<rparr>))"

definition ms_getOffset :: "'v mem_store \<Rightarrow> string \<Rightarrow> string \<Rightarrow> string \<Rightarrow> nat" where
  "ms_getOffset s p c e = (case js_get (ms_offsets s) (offsetKey p c e) of None \<Rightarrow> 0 | Some n \<Rightarrow> n)"

definition ms_setOffset :: "string \<Rightarrow> string \<Rightarrow> string \<Rightarrow> nat \<Rightarrow> 'v mem_store \<Rightarrow> 'v mem_store" where
  "ms_setOffset p c e n s = s\<lparr>ms_offsets := js_set (offsetKey p c e) n (ms_offsets s)\<rparr>"

definition ms_putWithOffset ::
  "string \<Rightarrow> string \<Rightarrow> 'v view_envelope \<Rightarrow> string \<Rightarrow> string \<Rightarrow> 'v mem_store \<Rightarrow> 'v mem_store" where
  "ms_putWithOffset p v env c e s =
     (if ve_sequenceNr env \<le> (case js_get (ms_offsets s) (offsetKey p c e) of None \<Rightarrow> 0 | Some n \<Rightarrow> n) then s
      else
        let effective = env\<lparr>ve_sequenceNr := max (ve_sequenceNr env)
              (case js_get (ms_views s) (viewKey p v) of None \<Rightarrow> 0 | Some x \<Rightarrow> ve_sequenceNr x)\<rparr>
        in ms_notify p effective
             (s\<lparr>ms_views := js_set (viewKey p v) effective (ms_views s),
                ms_offsets := js_set (offsetKey p c e) (ve_sequenceNr env) (ms_offsets s)\<rparr>))"

definition startsWith :: "string \<Rightarrow> string \<Rightarrow> bool" where
  "startsWith s pre = (take (length pre) s = pre)"

definition ms_list :: "'v mem_store \<Rightarrow> string \<Rightarrow> 'v view_envelope list" where
  "ms_list s p = map snd (filter (\<lambda>x. startsWith (fst x) (p @ '':'')) (ms_views s))"

definition ms_clear :: "string \<Rightarrow> 'v mem_store \<Rightarrow> 'v mem_store" where
  "ms_clear p s =
     s\<lparr>ms_views := filter (\<lambda>x. \<not> startsWith (fst x) (p @ '':'')) (ms_views s),
       ms_offsets := filter (\<lambda>x. \<not> startsWith (fst x) (p @ '':'')) (ms_offsets s)\<rparr>"

text \<open>A new listener is called with the current view first.\<close>

definition ms_subscribe :: "string \<Rightarrow> string \<Rightarrow> nat \<Rightarrow> 'v mem_store \<Rightarrow> nat \<times> 'v mem_store" where
  "ms_subscribe p v l s =
     (let r = onKey p v l (ms_listeners s)
      in (fst r, s\<lparr>ms_listeners := snd r,
            ms_calls := ms_calls s @ (case js_get (ms_views s) (viewKey p v) of None \<Rightarrow> [] | Some x \<Rightarrow> [(l, x)])\<rparr>))"

definition ms_subscribeAll :: "string \<Rightarrow> nat \<Rightarrow> 'v mem_store \<Rightarrow> nat \<times> 'v mem_store" where
  "ms_subscribeAll p l s = (let r = onProjection p l (ms_listeners s) in (fst r, s\<lparr>ms_listeners := snd r\<rparr>))"

definition mem_projection_store :: "('v mem_store, 'v) projection_store" where
  "mem_projection_store = \<lparr>ps_get = ms_get, ps_put = ms_put, ps_putWithOffset = ms_putWithOffset,
     ps_getOffset = ms_getOffset, ps_setOffset = ms_setOffset, ps_clear = ms_clear\<rparr>"

subsection \<open>SQLite\<close>

text \<open>
  Two tables with their primary keys; \<open>view_data\<close> is the JSON value its text stands for. Each
  statement is a function; the fold's transaction runs three of them or none.
\<close>

record 'v sql_store =
  projection_views :: "(string \<times> string, 'v \<times> nat) jsmap"
  projection_offsets :: "(string \<times> string \<times> string, nat) jsmap"
  ss_listeners :: listeners
  ss_calls :: "(nat \<times> 'v view_envelope) list"

definition createSqliteProjectionStore :: "'v sql_store" where
  "createSqliteProjectionStore =
     \<lparr>projection_views = [], projection_offsets = [], ss_listeners = createViewNotifier, ss_calls = []\<rparr>"

definition ss_notify :: "string \<Rightarrow> 'v view_envelope \<Rightarrow> 'v sql_store \<Rightarrow> 'v sql_store" where
  "ss_notify p env s = s\<lparr>ss_calls := ss_calls s @ map (\<lambda>l. (l, env)) (notified (ss_listeners s) p (ve_viewId env))\<rparr>"

text \<open>\<open>upsertView\<close> returns whether a row changed.\<close>

definition upsertView :: "string \<Rightarrow> string \<Rightarrow> 'v \<Rightarrow> nat \<Rightarrow> 'v sql_store \<Rightarrow> bool \<times> 'v sql_store" where
  "upsertView p v d n s =
     (case js_get (projection_views s) (p, v) of
        None \<Rightarrow> (True, s\<lparr>projection_views := js_set (p, v) (d, n) (projection_views s)\<rparr>)
      | Some (d', n') \<Rightarrow>
          if n' < n then (True, s\<lparr>projection_views := js_set (p, v) (d, n) (projection_views s)\<rparr>) else (False, s))"

definition upsertViewForFold :: "string \<Rightarrow> string \<Rightarrow> 'v \<Rightarrow> nat \<Rightarrow> 'v sql_store \<Rightarrow> 'v sql_store" where
  "upsertViewForFold p v d n s =
     s\<lparr>projection_views := js_set (p, v)
         (d, case js_get (projection_views s) (p, v) of None \<Rightarrow> n | Some (d', n') \<Rightarrow> max n n') (projection_views s)\<rparr>"

definition upsertOff :: "string \<Rightarrow> string \<Rightarrow> string \<Rightarrow> nat \<Rightarrow> 'v sql_store \<Rightarrow> 'v sql_store" where
  "upsertOff p c e n s = s\<lparr>projection_offsets := js_set (p, c, e) n (projection_offsets s)\<rparr>"

definition getOff :: "'v sql_store \<Rightarrow> string \<Rightarrow> string \<Rightarrow> string \<Rightarrow> nat option" where
  "getOff s p c e = js_get (projection_offsets s) (p, c, e)"

definition foldTxn :: "string \<Rightarrow> string \<Rightarrow> 'v \<Rightarrow> nat \<Rightarrow> string \<Rightarrow> string \<Rightarrow> 'v sql_store \<Rightarrow> bool \<times> 'v sql_store" where
  "foldTxn p v d n c e s =
     (if n \<le> (case getOff s p c e of None \<Rightarrow> 0 | Some m \<Rightarrow> m) then (False, s)
      else (True, upsertOff p c e n (upsertViewForFold p v d n s)))"

definition ss_get :: "'v sql_store \<Rightarrow> string \<Rightarrow> string \<Rightarrow> 'v view_envelope option" where
  "ss_get s p v = map_option (\<lambda>(d, n). \<lparr>ve_viewId = v, ve_view = d, ve_sequenceNr = n\<rparr>) (js_get (projection_views s) (p, v))"

definition ss_put :: "string \<Rightarrow> string \<Rightarrow> 'v view_envelope \<Rightarrow> 'v sql_store \<Rightarrow> 'v sql_store" where
  "ss_put p v env s =
     (case upsertView p v (ve_view env) (ve_sequenceNr env) s of
        (changed, s') \<Rightarrow> if changed then ss_notify p env s' else s')"

definition ss_putWithOffset ::
  "string \<Rightarrow> string \<Rightarrow> 'v view_envelope \<Rightarrow> string \<Rightarrow> string \<Rightarrow> 'v sql_store \<Rightarrow> 'v sql_store" where
  "ss_putWithOffset p v env c e s =
     (case foldTxn p v (ve_view env) (ve_sequenceNr env) c e s of
        (applied, s') \<Rightarrow>
          if applied then (case ss_get s' p v of None \<Rightarrow> s' | Some effective \<Rightarrow> ss_notify p effective s') else s')"

definition ss_list :: "'v sql_store \<Rightarrow> string \<Rightarrow> 'v view_envelope list" where
  "ss_list s p = map (\<lambda>((_, v), (d, n)). \<lparr>ve_viewId = v, ve_view = d, ve_sequenceNr = n\<rparr>)
     (filter (\<lambda>x. fst (fst x) = p) (projection_views s))"

definition ss_getOffset :: "'v sql_store \<Rightarrow> string \<Rightarrow> string \<Rightarrow> string \<Rightarrow> nat" where
  "ss_getOffset s p c e = (case getOff s p c e of None \<Rightarrow> 0 | Some n \<Rightarrow> n)"

definition ss_setOffset :: "string \<Rightarrow> string \<Rightarrow> string \<Rightarrow> nat \<Rightarrow> 'v sql_store \<Rightarrow> 'v sql_store" where
  "ss_setOffset p c e n s = upsertOff p c e n s"

definition ss_clear :: "string \<Rightarrow> 'v sql_store \<Rightarrow> 'v sql_store" where
  "ss_clear p s =
     s\<lparr>projection_views := filter (\<lambda>x. fst (fst x) \<noteq> p) (projection_views s),
       projection_offsets := filter (\<lambda>x. fst (fst x) \<noteq> p) (projection_offsets s)\<rparr>"

definition ss_subscribe :: "string \<Rightarrow> string \<Rightarrow> nat \<Rightarrow> 'v sql_store \<Rightarrow> nat \<times> 'v sql_store" where
  "ss_subscribe p v l s =
     (let r = onKey p v l (ss_listeners s)
      in (fst r, s\<lparr>ss_listeners := snd r,
            ss_calls := ss_calls s @ (case ss_get s p v of None \<Rightarrow> [] | Some x \<Rightarrow> [(l, x)])\<rparr>))"

definition ss_subscribeAll :: "string \<Rightarrow> nat \<Rightarrow> 'v sql_store \<Rightarrow> nat \<times> 'v sql_store" where
  "ss_subscribeAll p l s = (let r = onProjection p l (ss_listeners s) in (fst r, s\<lparr>ss_listeners := snd r\<rparr>))"

definition sqlite_projection_store :: "('v sql_store, 'v) projection_store" where
  "sqlite_projection_store = \<lparr>ps_get = ss_get, ps_put = ss_put, ps_putWithOffset = ss_putWithOffset,
     ps_getOffset = ss_getOffset, ps_setOffset = ss_setOffset, ps_clear = ss_clear\<rparr>"

section \<open>The contract\<close>

text \<open>
  What a store promises about \<open>get\<close> and \<open>getOffset\<close> after each write, for the projection ids
  and categories it supports. An envelope is stored under its own view id.
\<close>

locale projection_contract =
  fixes S :: "('s, 'v) projection_store" and ok :: "string \<Rightarrow> bool"
  assumes get_fold: "ok p \<Longrightarrow> ok p' \<Longrightarrow> ok c \<Longrightarrow> ve_viewId env = v \<Longrightarrow>
      ps_get S (ps_putWithOffset S p v env c e s) p' v' =
        (if ps_getOffset S s p c e < ve_sequenceNr env \<and> p' = p \<and> v' = v
         then Some (env\<lparr>ve_sequenceNr := max (ve_sequenceNr env)
                (case ps_get S s p v of None \<Rightarrow> 0 | Some x \<Rightarrow> ve_sequenceNr x)\<rparr>)
         else ps_get S s p' v')"
    and offset_fold: "ok p \<Longrightarrow> ok p' \<Longrightarrow> ok c \<Longrightarrow> ok c' \<Longrightarrow>
      ps_getOffset S (ps_putWithOffset S p v env c e s) p' c' e' =
        (if ps_getOffset S s p c e < ve_sequenceNr env \<and> p' = p \<and> c' = c \<and> e' = e
         then ve_sequenceNr env else ps_getOffset S s p' c' e')"
    and get_put: "ok p \<Longrightarrow> ok p' \<Longrightarrow> ve_viewId env = v \<Longrightarrow>
      ps_get S (ps_put S p v env s) p' v' =
        (if p' = p \<and> v' = v \<and> (case ps_get S s p v of None \<Rightarrow> True | Some x \<Rightarrow> ve_sequenceNr x < ve_sequenceNr env)
         then Some env else ps_get S s p' v')"
    and offset_put: "ps_getOffset S (ps_put S p v env s) p' c' e' = ps_getOffset S s p' c' e'"
    and get_set: "ps_get S (ps_setOffset S p c e n s) p' v' = ps_get S s p' v'"
    and offset_set: "ok p \<Longrightarrow> ok p' \<Longrightarrow> ok c \<Longrightarrow> ok c' \<Longrightarrow>
      ps_getOffset S (ps_setOffset S p c e n s) p' c' e' =
        (if p' = p \<and> c' = c \<and> e' = e then n else ps_getOffset S s p' c' e')"
    and get_clear: "ok p \<Longrightarrow> ok p' \<Longrightarrow>
      ps_get S (ps_clear S p s) p' v' = (if p' = p then None else ps_get S s p' v')"
    and offset_clear: "ok p \<Longrightarrow> ok p' \<Longrightarrow> ok c \<Longrightarrow>
      ps_getOffset S (ps_clear S p s) p' c e = (if p' = p then 0 else ps_getOffset S s p' c e)"

text \<open>In memory the composed keys are unambiguous when ids and categories have no colon.\<close>

lemma viewKey_inject: "colon_free p \<Longrightarrow> colon_free p' \<Longrightarrow> viewKey p v = viewKey p' v' \<longleftrightarrow> p = p' \<and> v = v'"
  using persistenceKey_inject [of p p' v v'] by (simp add: viewKey_def persistenceKey_def)

lemma offsetKey_inject:
  assumes "colon_free p" "colon_free p'" "colon_free c" "colon_free c'"
  shows "offsetKey p c e = offsetKey p' c' e' \<longleftrightarrow> p = p' \<and> c = c' \<and> e = e'"
  using persistenceKey_inject [OF assms(1,2), of "persistenceKey c e" "persistenceKey c' e'"]
    persistenceKey_inject [OF assms(3,4), of e e']
  by (simp add: offsetKey_def persistenceKey_def)

lemma startsWith_key:
  assumes "colon_free p" "colon_free p'"
  shows "startsWith (p' @ CHR '':'' # v) (p @ '':'') \<longleftrightarrow> p' = p"
proof
  assume "startsWith (p' @ CHR '':'' # v) (p @ '':'')"
  then have "p' @ CHR '':'' # v = (p @ '':'') @ drop (length (p @ '':'')) (p' @ CHR '':'' # v)"
    unfolding startsWith_def by (metis append_take_drop_id)
  then have "persistenceKey p' v = persistenceKey p (drop (length (p @ '':'')) (p' @ CHR '':'' # v))"
    by (simp add: persistenceKey_def)
  with persistenceKey_inject [OF assms(2,1)] show "p' = p" by metis
qed (simp add: startsWith_def)

lemma map_of_filter_key: "map_of (filter (\<lambda>x. P (fst x)) m) k = (if P k then map_of m k else None)"
  by (induction m) auto

lemmas mem_store_defs = mem_projection_store_def ms_get_def ms_put_def ms_putWithOffset_def ms_getOffset_def
  ms_setOffset_def ms_clear_def ms_notify_def

interpretation mem_views: projection_contract mem_projection_store colon_free
proof (unfold_locales, goal_cases)
  case (7 p p' s v')
  then show ?case
    by (simp add: mem_store_defs map_of_filter_key [of "\<lambda>k. \<not> startsWith k (p @ '':'')"] viewKey_def startsWith_key)
next
  case (8 p p' c s e)
  then show ?case
    by (simp add: mem_store_defs map_of_filter_key [of "\<lambda>k. \<not> startsWith k (p @ '':'')"] offsetKey_def startsWith_key)
qed (auto simp: mem_store_defs viewKey_inject offsetKey_inject Let_def not_le split: option.splits)

lemmas sql_store_defs = sqlite_projection_store_def ss_get_def ss_put_def ss_putWithOffset_def ss_getOffset_def
  ss_setOffset_def ss_clear_def ss_notify_def foldTxn_def upsertView_def upsertViewForFold_def upsertOff_def getOff_def

interpretation sqlite_views: projection_contract sqlite_projection_store "\<lambda>_. True"
proof (unfold_locales, goal_cases)
  case (7 p p' s v')
  show ?case by (simp add: sql_store_defs map_of_filter_key [of "\<lambda>k. fst k \<noteq> p"])
next
  case (8 p p' c s e)
  show ?case by (simp add: sql_store_defs map_of_filter_key [of "\<lambda>k. fst k \<noteq> p"])
qed (auto simp: sql_store_defs not_le not_less max_def split: option.splits)

text \<open>With a colon in a projection id they are not: clearing one projection clears another.\<close>

lemma clear_takes_other_projection:
  "let env = \<lparr>ve_viewId = ''v'', ve_view = (), ve_sequenceNr = 1\<rparr>;
       s = ms_putWithOffset ''orders:v2'' ''v'' env ''c'' ''e'' createInMemoryProjectionStore
   in ms_get s ''orders:v2'' ''v'' = Some env \<and> ms_get (ms_clear ''orders'' s) ''orders:v2'' ''v'' = None
      \<and> ms_list s ''orders'' = [env]"
  by (simp add: mem_store_defs ms_list_def createInMemoryProjectionStore_def viewKey_def offsetKey_def
      startsWith_def notified_def listeners_of_def createViewNotifier_def Let_def)

end
