(* ===== verification/Projection.thy ===== *)
theory Projection
  imports Projection_Store
begin

text \<open>
  The folds of \<open>projection/index.ts\<close> and \<open>projection/tailing.ts\<close>: the offset-guarded fold, the batch
  runners, rebuilds, and the tails. An event record is the triple that \<open>allEvents\<close> and the tails
  deliver: entity, sequence number, event. A function of the user that may throw returns a
  sum; a run that throws keeps what the folds before it wrote.
\<close>

section \<open>Definitions of projections\<close>

record ('e, 'v) projection =
  pj_id :: string
  pj_category :: string
  pj_evolve :: "'v \<Rightarrow> 'e \<Rightarrow> string \<Rightarrow> js_error + 'v"
  pj_initial :: 'v

record 'e projection_source =
  src_category :: string
  src_getViewId :: "'e \<Rightarrow> string \<Rightarrow> js_error + string"

record ('e, 'v) multi_projection =
  mp_id :: string
  mp_sources :: "'e projection_source list"
  mp_evolve :: "'v \<Rightarrow> 'e \<Rightarrow> string \<Rightarrow> js_error + 'v"
  mp_initial :: 'v

type_synonym 'e event_record = "string \<times> nat \<times> 'e"

section \<open>The fold\<close>

record ('e, 'v) fold_opts =
  fo_projectionId :: string
  fo_category :: string
  fo_entityId :: string
  fo_sequenceNr :: nat
  fo_viewId :: string
  fo_initialState :: 'v
  fo_evolve :: "'v \<Rightarrow> 'e \<Rightarrow> string \<Rightarrow> js_error + 'v"
  fo_event :: 'e

definition offsetGuardedFold ::
  "('s, 'v) projection_store \<Rightarrow> ('e, 'v) fold_opts \<Rightarrow> 's \<Rightarrow> js_error + bool \<times> 's" where
  "offsetGuardedFold S opts s =
     (if fo_sequenceNr opts \<le> ps_getOffset S s (fo_projectionId opts) (fo_category opts) (fo_entityId opts)
      then Inr (False, s)
      else
        let currentView = (case ps_get S s (fo_projectionId opts) (fo_viewId opts) of
              None \<Rightarrow> fo_initialState opts | Some existing \<Rightarrow> ve_view existing)
        in (case fo_evolve opts currentView (fo_event opts) (fo_entityId opts) of
              Inl err \<Rightarrow> Inl err
            | Inr newView \<Rightarrow>
                Inr (True, ps_putWithOffset S (fo_projectionId opts) (fo_viewId opts)
                  \<lparr>ve_viewId = fo_viewId opts, ve_view = newView, ve_sequenceNr = fo_sequenceNr opts\<rparr>
                  (fo_category opts) (fo_entityId opts) s)))"

definition single_opts :: "('e, 'v) projection \<Rightarrow> 'e event_record \<Rightarrow> js_error + ('e, 'v) fold_opts" where
  "single_opts proj rec =
     (case rec of (entityId, sequenceNr, event) \<Rightarrow>
        Inr \<lparr>fo_projectionId = pj_id proj, fo_category = pj_category proj, fo_entityId = entityId,
          fo_sequenceNr = sequenceNr, fo_viewId = entityId, fo_initialState = pj_initial proj,
          fo_evolve = pj_evolve proj, fo_event = event\<rparr>)"

definition source_opts ::
  "('e, 'v) multi_projection \<Rightarrow> 'e projection_source \<Rightarrow> 'e event_record \<Rightarrow> js_error + ('e, 'v) fold_opts" where
  "source_opts proj src rec =
     (case rec of (entityId, sequenceNr, event) \<Rightarrow>
        (case src_getViewId src event entityId of
           Inl err \<Rightarrow> Inl err
         | Inr viewId \<Rightarrow>
             Inr \<lparr>fo_projectionId = mp_id proj, fo_category = src_category src, fo_entityId = entityId,
               fo_sequenceNr = sequenceNr, fo_viewId = viewId, fo_initialState = mp_initial proj,
               fo_evolve = mp_evolve proj, fo_event = event\<rparr>))"

definition fold_record ::
  "('s, 'v) projection_store \<Rightarrow> ('e event_record \<Rightarrow> js_error + ('e, 'v) fold_opts) \<Rightarrow> 'e event_record \<Rightarrow> 's \<Rightarrow>
   js_error + 's" where
  "fold_record S mk rec s =
     (case mk rec of
        Inl err \<Rightarrow> Inl err
      | Inr opts \<Rightarrow> (case offsetGuardedFold S opts s of Inl err \<Rightarrow> Inl err | Inr (_, s') \<Rightarrow> Inr s'))"

text \<open>The loop over the records: it stops at the first throw.\<close>

fun fold_records ::
  "('s, 'v) projection_store \<Rightarrow> ('e event_record \<Rightarrow> js_error + ('e, 'v) fold_opts) \<Rightarrow> 'e event_record list \<Rightarrow> 's \<Rightarrow>
   's \<times> js_error option" where
  "fold_records S mk [] s = (s, None)"
| "fold_records S mk (rec # recs) s =
     (case fold_record S mk rec s of Inl err \<Rightarrow> (s, Some err) | Inr s' \<Rightarrow> fold_records S mk recs s')"

section \<open>The batch runners\<close>

text \<open>\<open>allEvents\<close> is the journal's, for the run's codec: the records of a category, or its throw.\<close>

definition runProjection ::
  "('s, 'v) projection_store \<Rightarrow> ('e, 'v) projection \<Rightarrow> (string \<Rightarrow> js_error + 'e event_record list) \<Rightarrow> 's \<Rightarrow>
   's \<times> js_error option" where
  "runProjection S proj allEvents s =
     (case allEvents (pj_category proj) of
        Inl err \<Rightarrow> (s, Some err)
      | Inr recs \<Rightarrow> fold_records S (single_opts proj) recs s)"

fun run_sources ::
  "('s, 'v) projection_store \<Rightarrow> ('e, 'v) multi_projection \<Rightarrow> (string \<Rightarrow> js_error + 'e event_record list) \<Rightarrow>
   'e projection_source list \<Rightarrow> 's \<Rightarrow> 's \<times> js_error option" where
  "run_sources S proj allEvents [] s = (s, None)"
| "run_sources S proj allEvents (src # srcs) s =
     (case allEvents (src_category src) of
        Inl err \<Rightarrow> (s, Some err)
      | Inr recs \<Rightarrow>
          (case fold_records S (source_opts proj src) recs s of
             (s', Some err) \<Rightarrow> (s', Some err)
           | (s', None) \<Rightarrow> run_sources S proj allEvents srcs s'))"

definition runMultiStreamProjection where
  "runMultiStreamProjection S proj allEvents s = run_sources S proj allEvents (mp_sources proj) s"

definition rebuildProjection where
  "rebuildProjection S proj allEvents s = runProjection S proj allEvents (ps_clear S (pj_id proj) s)"

definition rebuildMultiStreamProjection where
  "rebuildMultiStreamProjection S proj allEvents s =
     runMultiStreamProjection S proj allEvents (ps_clear S (mp_id proj) s)"

section \<open>The tails\<close>

text \<open>One record off a tail: a throw is reported and the tail goes on.\<close>

definition tail_record ::
  "('s, 'v) projection_store \<Rightarrow> ('e event_record \<Rightarrow> js_error + ('e, 'v) fold_opts) \<Rightarrow> 'e event_record \<Rightarrow>
   's \<times> js_error list \<Rightarrow> 's \<times> js_error list" where
  "tail_record S mk rec w =
     (case fold_record S mk rec (fst w) of
        Inl err \<Rightarrow> (fst w, snd w @ [err])
      | Inr s' \<Rightarrow> (s', snd w))"

text \<open>
  All sources follow their tails at the same time: a schedule lists which source delivered
  which record. A single-stream projection has one source, with the entity as the view.
\<close>

definition runTailingProjection ::
  "('s, 'v) projection_store \<Rightarrow> ('e event_record \<Rightarrow> js_error + ('e, 'v) fold_opts) list \<Rightarrow>
   (nat \<times> 'e event_record) list \<Rightarrow> 's \<times> js_error list \<Rightarrow> 's \<times> js_error list" where
  "runTailingProjection S sources schedule w =
     foldl (\<lambda>w (i, rec). if i < length sources then tail_record S (sources ! i) rec w else w) w schedule"

definition tailing_sources :: "('e, 'v) projection + ('e, 'v) multi_projection \<Rightarrow>
    ('e event_record \<Rightarrow> js_error + ('e, 'v) fold_opts) list" where
  "tailing_sources p = (case p of Inl proj \<Rightarrow> [single_opts proj] | Inr proj \<Rightarrow> map (source_opts proj) (mp_sources proj))"

section \<open>What a view must be\<close>

definition entity_log :: "'e event_record list \<Rightarrow> string \<Rightarrow> (nat \<times> 'e) list" where
  "entity_log recs e = map snd (filter (\<lambda>x. fst x = e) recs)"

definition log_ordered :: "'e event_record list \<Rightarrow> bool" where
  "log_ordered recs \<longleftrightarrow> (\<forall>e. sorted_wrt (<) (0 # map fst (entity_log recs e)))"

text \<open>The fold of an entity's events with numbers in a set, in their order and each once.\<close>

definition view_of :: "('e, 'v) projection \<Rightarrow> 'e event_record list \<Rightarrow> nat set \<Rightarrow> string \<Rightarrow> js_error + 'v" where
  "view_of proj recs N e =
     foldE (\<lambda>v x. pj_evolve proj v (snd x) e) (pj_initial proj) (filter (\<lambda>x. fst x \<in> N) (entity_log recs e))"

lemma view_of_UNIV [simp]:
  "view_of proj recs UNIV e = foldE (\<lambda>v x. pj_evolve proj v (snd x) e) (pj_initial proj) (entity_log recs e)"
  by (simp add: view_of_def)

text \<open>
  Every view is the fold of events up to its entity's offset, the last of them at the offset, and
  unless a record of the entity was folded \<open>past\<close> an unfolded one, of all of them.
\<close>

definition view_ok :: "('e, 'v) projection \<Rightarrow> 'e event_record list \<Rightarrow> string set \<Rightarrow> string \<Rightarrow> nat \<Rightarrow> 'v view_envelope option \<Rightarrow> bool" where
  "view_ok proj recs past e off view = (case view of
        None \<Rightarrow> off = 0
      | Some env \<Rightarrow> off = ve_sequenceNr env \<and> ve_viewId env = e \<and> off \<in> fst ` set (entity_log recs e)
          \<and> (\<exists>N. N \<subseteq> {..off} \<and> off \<in> N \<and> view_of proj recs N e = Inr (ve_view env) \<and> (e \<notin> past \<longrightarrow> N = {..off})))"

definition projection_ok :: "('s, 'v) projection_store \<Rightarrow> ('e, 'v) projection \<Rightarrow> 'e event_record list \<Rightarrow> string set \<Rightarrow> 's \<Rightarrow> bool" where
  "projection_ok S proj recs past s \<longleftrightarrow>
     (\<forall>e. view_ok proj recs past e (ps_getOffset S s (pj_id proj) (pj_category proj) e) (ps_get S s (pj_id proj) e))"

text \<open>A record that is the next one of its entity, or an old one.\<close>

definition in_order :: "('s, 'v) projection_store \<Rightarrow> ('e, 'v) projection \<Rightarrow> 'e event_record list \<Rightarrow> 's \<Rightarrow> 'e event_record \<Rightarrow> bool" where
  "in_order S proj recs s rec \<longleftrightarrow> rec \<in> set recs
     \<and> (\<forall>x \<in> set (entity_log recs (fst rec)). fst x < fst (snd rec) \<longrightarrow>
          fst x \<le> ps_getOffset S s (pj_id proj) (pj_category proj) (fst rec))"

lemma set_entity_log: "x \<in> set (entity_log recs e) \<longleftrightarrow> (e, x) \<in> set recs"
  by (force simp: entity_log_def)

lemma entity_log_append [simp]: "entity_log (xs @ ys) e = entity_log xs e @ entity_log ys e"
  by (simp add: entity_log_def)

lemma log_orderedD:
  assumes "log_ordered recs"
  shows "sorted_wrt (<) (map fst (entity_log recs e))" "\<And>x. x \<in> set (entity_log recs e) \<Longrightarrow> 0 < fst x"
  using assms by (auto simp: log_ordered_def)

lemma strict_sorted_last: "sorted_wrt (<) (map fst xs) \<Longrightarrow> x \<in> set xs \<Longrightarrow> fst x \<le> (fst (last xs) :: nat)"
  by (cases xs rule: rev_cases) (auto simp: sorted_wrt_append less_imp_le)

text \<open>One more event after those with numbers in \<open>N\<close>.\<close>

lemma filter_insert:
  fixes n :: nat
  assumes "sorted_wrt (<) (map fst xs)" "(n, ev) \<in> set xs" "N \<subseteq> {..<n}"
  shows "filter (\<lambda>x. fst x \<in> insert n N) xs = filter (\<lambda>x. fst x \<in> N) xs @ [(n, ev)]"
proof -
  obtain as bs where xs: "xs = as @ (n, ev) # bs" using split_list [OF assms(2)] by blast
  have lo: "fst y < n" if "y \<in> set as" for y using assms(1) that by (auto simp: xs sorted_wrt_append)
  have hi: "n < fst y" if "y \<in> set bs" for y using assms(1) that by (auto simp: xs sorted_wrt_append)
  have "filter (\<lambda>x. fst x \<in> insert n N) as = filter (\<lambda>x. fst x \<in> N) as"
    by (intro filter_cong refl) (use lo in fastforce)
  moreover have "filter (\<lambda>x. fst x \<in> insert n N) bs = []" "filter (\<lambda>x. fst x \<in> N) bs = []" "n \<notin> N"
    using hi assms(3) by (fastforce simp: filter_empty_conv)+
  ultimately show ?thesis by (simp add: xs)
qed

lemma view_ok_mono: "view_ok proj recs past e off v \<Longrightarrow> past \<subseteq> past' \<Longrightarrow> view_ok proj recs past' e off v"
  unfolding view_ok_def by (cases v) (simp, simp, blast)

text \<open>The numbers a view is the fold of.\<close>

lemma view_okE:
  assumes "view_ok proj recs past e off v" "log_ordered recs"
  obtains N where "N \<subseteq> {..off}" "e \<notin> past \<longrightarrow> N = {..off}"
    "view_of proj recs N e = Inr (case v of None \<Rightarrow> pj_initial proj | Some x \<Rightarrow> ve_view x)"
proof (cases v)
  case None
  have "filter (\<lambda>x. fst x \<in> {..0}) (entity_log recs e) = []"
    using log_orderedD(2) [OF assms(2), of _ e] by (auto simp: filter_empty_conv)
  then show ?thesis using assms(1) None that [of "{..0}"] by (simp add: view_ok_def view_of_def)
next
  case (Some env)
  then show ?thesis using assms(1) that by (auto simp: view_ok_def)
qed

text \<open>Folding an event that is not yet in the view.\<close>

lemma view_ok_next:
  assumes "view_ok proj recs past e off v" "log_ordered recs" "(n, ev) \<in> set (entity_log recs e)" "off < n"
    and "pj_evolve proj (case v of None \<Rightarrow> pj_initial proj | Some x \<Rightarrow> ve_view x) ev e = Inr nv"
    and "e \<notin> past' \<Longrightarrow> e \<notin> past \<and> (\<forall>x \<in> set (entity_log recs e). fst x < n \<longrightarrow> fst x \<le> off)"
  shows "view_ok proj recs past' e n (Some \<lparr>ve_viewId = e, ve_view = nv, ve_sequenceNr = n\<rparr>)"
proof -
  obtain N where N: "N \<subseteq> {..off}" "e \<notin> past \<longrightarrow> N = {..off}"
    "view_of proj recs N e = Inr (case v of None \<Rightarrow> pj_initial proj | Some x \<Rightarrow> ve_view x)"
    by (rule view_okE [OF assms(1,2)])
  have "N \<subseteq> {..<n}" using N(1) assms(4) by auto
  then have "filter (\<lambda>x. fst x \<in> insert n N) (entity_log recs e) = filter (\<lambda>x. fst x \<in> N) (entity_log recs e) @ [(n, ev)]"
    by (intro filter_insert log_orderedD(1) [OF assms(2)] assms(3))
  then have ins: "view_of proj recs (insert n N) e = Inr nv"
    using N(3) assms(5) by (simp only: view_of_def foldE_append sum.case foldE.simps snd_conv)
  have all: "view_of proj recs {..n} e = Inr nv" if "e \<notin> past'"
  proof -
    have "N = {..off}" "\<forall>x \<in> set (entity_log recs e). fst x < n \<longrightarrow> fst x \<le> off" using N(2) assms(6) [OF that] by auto
    then have "filter (\<lambda>x. fst x \<in> {..n}) (entity_log recs e) = filter (\<lambda>x. fst x \<in> insert n N) (entity_log recs e)"
      using assms(4) by (intro filter_cong) (auto simp: order.order_iff_strict)
    then show ?thesis using ins by (simp only: view_of_def)
  qed
  have "n \<in> fst ` set (entity_log recs e)" using assms(3) by force
  moreover have "\<exists>N. N \<subseteq> {..n} \<and> n \<in> N \<and> view_of proj recs N e = Inr nv \<and> (e \<notin> past' \<longrightarrow> N = {..n})"
  proof (cases "e \<in> past'")
    case True
    then show ?thesis using ins \<open>N \<subseteq> {..<n}\<close> by (intro exI [of _ "insert n N"]) auto
  qed (use all in auto)
  ultimately show ?thesis by (simp add: view_ok_def)
qed

text \<open>
  Everything that happens to a projection: it starts empty, the journal grows, a runner or a
  tail folds a record, in order or not (also the same again; a fold that throws writes nothing),
  the projection is cleared for a rebuild, and other projections use the same store. \<open>past\<close> holds
  the entities of which a record was folded past one that was not: a tail does this after a fold
  that threw, until the next rebuild.
\<close>

inductive projection_run ::
  "('s, 'v) projection_store \<Rightarrow> ('e, 'v) projection \<Rightarrow> 'e event_record list \<Rightarrow> string set \<Rightarrow> 's \<Rightarrow> bool"
  for S :: "('s, 'v) projection_store" and proj :: "('e, 'v) projection" where
  fresh: "log_ordered recs \<Longrightarrow> \<forall>v. ps_get S s (pj_id proj) v = None \<Longrightarrow>
     \<forall>e. ps_getOffset S s (pj_id proj) (pj_category proj) e = 0 \<Longrightarrow> projection_run S proj recs {} s"
| grown: "projection_run S proj recs past s \<Longrightarrow> log_ordered recs' \<Longrightarrow>
     \<forall>e. \<exists>new. entity_log recs' e = entity_log recs e @ new \<Longrightarrow> projection_run S proj recs' past s"
| folded: "projection_run S proj recs past s \<Longrightarrow> rec \<in> set recs \<Longrightarrow>
     fold_record S (single_opts proj) rec s = Inr s' \<Longrightarrow>
     projection_run S proj recs (if in_order S proj recs s rec then past else insert (fst rec) past) s'"
| cleared: "projection_run S proj recs past s \<Longrightarrow> projection_run S proj recs {} (ps_clear S (pj_id proj) s)"
| others: "projection_run S proj recs past s \<Longrightarrow> \<forall>v. ps_get S s' (pj_id proj) v = ps_get S s (pj_id proj) v \<Longrightarrow>
     \<forall>e. ps_getOffset S s' (pj_id proj) (pj_category proj) e = ps_getOffset S s (pj_id proj) (pj_category proj) e \<Longrightarrow>
     projection_run S proj recs past s'"

lemma in_order_member: "in_order S proj recs s rec \<Longrightarrow> rec \<in> set recs"
  by (simp add: in_order_def)

lemma projection_run_in_order:
  assumes "projection_run S proj recs past s" "in_order S proj recs s rec" "fold_record S (single_opts proj) rec s = Inr s'"
  shows "projection_run S proj recs past s'"
  using projection_run.folded [OF assms(1) in_order_member [OF assms(2)] assms(3)] assms(2) by simp

text \<open>A tail is such a run, whatever order it delivers the records in.\<close>

lemma tails_are_runs:
  assumes "projection_run S proj recs past (fst w)" "\<forall>x \<in> set schedule. snd x \<in> set recs"
  shows "\<exists>past'. projection_run S proj recs past' (fst (runTailingProjection S (tailing_sources (Inl proj)) schedule w))"
  using assms
proof (induction schedule arbitrary: past w)
  case Nil
  then show ?case by (auto simp: runTailingProjection_def)
next
  case (Cons x schedule)
  obtain i rec where x: "x = (i, rec)" by (cases x)
  let ?w = "if i < 1 then tail_record S (single_opts proj) rec w else w"
  have "\<exists>past'. projection_run S proj recs past' (fst ?w)"
    using projection_run.folded [OF Cons.prems(1), of rec] Cons.prems x
    by (auto simp: tail_record_def split: sum.splits)
  then obtain past' where "projection_run S proj recs past' (fst ?w)" by blast
  from Cons.IH [OF this] Cons.prems(2) show ?case
    by (simp add: runTailingProjection_def tailing_sources_def x split del: if_split cong: if_cong)
qed

lemma sorted_filter_parts:
  fixes n :: nat
  assumes "sorted_wrt (<) (map fst xs)"
  shows "xs = filter (\<lambda>x. fst x \<le> n) xs @ filter (\<lambda>x. n < fst x) xs"
  using assms
proof (induction xs)
  case (Cons x xs)
  have "filter (\<lambda>x. fst x \<le> n) xs = []" if "n < fst x"
  proof (rule filter_False)
    show "\<forall>y \<in> set xs. \<not> fst y \<le> n" using Cons.prems that by fastforce
  qed
  moreover have "filter (\<lambda>x. n < fst x) xs = xs" if "n < fst x"
  proof (rule filter_True)
    show "\<forall>y \<in> set xs. n < fst y" using Cons.prems that by fastforce
  qed
  ultimately show ?case using Cons by (cases "n < fst x") (auto simp: not_less)
qed simp

text \<open>Folding a list of records from the left goes in the order of every entity.\<close>

lemma log_done_prefix:
  assumes "log_ordered recs" "recs = done_recs @ rec # todo" "\<forall>x \<in> set done_recs. fst (snd x) \<le> off (fst x)"
    and "x \<in> set (entity_log recs (fst rec))" "fst x < fst (snd rec)"
  shows "fst x \<le> off (fst rec)"
proof -
  have "sorted_wrt (<) (map fst (entity_log done_recs (fst rec) @ snd rec # entity_log todo (fst rec)))"
    using log_orderedD(1) [OF assms(1), of "fst rec"] assms(2) by (simp add: entity_log_def)
  then have "\<forall>y \<in> set (entity_log todo (fst rec)). fst (snd rec) < fst y" by (auto simp: sorted_wrt_append)
  moreover have "x \<in> set (entity_log done_recs (fst rec) @ snd rec # entity_log todo (fst rec))"
    using assms(2,4) by (simp add: entity_log_def)
  ultimately have "x \<in> set (entity_log done_recs (fst rec))" using assms(5) by auto
  then have "(fst rec, x) \<in> set done_recs" by (simp add: set_entity_log)
  with assms(3) show ?thesis by fastforce
qed

text \<open>
  What a completed run is to leave: the fold of events up to the last of the entity, the last one
  among them, and outside \<open>past\<close> of all of them.
\<close>

definition view_complete :: "('e, 'v) projection \<Rightarrow> 'e event_record list \<Rightarrow> string set \<Rightarrow> string \<Rightarrow> 'v view_envelope option \<Rightarrow> bool" where
  "view_complete proj recs past e view = (case view of
      None \<Rightarrow> entity_log recs e = []
    | Some env \<Rightarrow> entity_log recs e \<noteq> [] \<and> ve_viewId env = e \<and> ve_sequenceNr env = fst (last (entity_log recs e))
        \<and> (\<exists>N. ve_sequenceNr env \<in> N \<and> view_of proj recs N e = Inr (ve_view env))
        \<and> (e \<notin> past \<longrightarrow> foldE (\<lambda>v x. pj_evolve proj v (snd x) e) (pj_initial proj) (entity_log recs e) = Inr (ve_view env)))"

lemma view_complete_unique:
  assumes "view_complete proj recs p e v" "view_complete proj recs q e w" "e \<notin> p" "e \<notin> q"
  shows "v = w"
  using assms by (cases v; cases w) (auto simp: view_complete_def)

context projection_contract
begin

abbreviation offset :: "('e, 'v) projection \<Rightarrow> 's \<Rightarrow> string \<Rightarrow> nat" where
  "offset proj s e \<equiv> ps_getOffset S s (pj_id proj) (pj_category proj) e"

lemma fold_record_ok:
  assumes "projection_ok S proj recs past s" "log_ordered recs" "rec \<in> set recs"
    and "ok (pj_id proj)" "ok (pj_category proj)" "fold_record S (single_opts proj) rec s = Inr s'"
  shows "projection_ok S proj recs (if in_order S proj recs s rec then past else insert (fst rec) past) s'
    \<and> (\<forall>e. offset proj s' e = (if e = fst rec then max (offset proj s e) (fst (snd rec)) else offset proj s e))"
proof -
  obtain e0 n ev where rec: "rec = (e0, n, ev)" by (cases rec)
  let ?past = "if in_order S proj recs s rec then past else insert (fst rec) past"
  have vok: "view_ok proj recs past e (offset proj s e) (ps_get S s (pj_id proj) e)" for e
    using assms(1) by (simp add: projection_ok_def)
  have keep: "view_ok proj recs ?past e (offset proj s e) (ps_get S s (pj_id proj) e)" for e
    by (rule view_ok_mono [OF vok]) auto
  show ?thesis
  proof (cases "n \<le> offset proj s e0")
    case True
    then have "s' = s" using assms(6) by (simp add: fold_record_def single_opts_def rec offsetGuardedFold_def)
    with True keep rec show ?thesis by (simp add: max_absorb1 projection_ok_def)
  next
    case False
    let ?cur = "case ps_get S s (pj_id proj) e0 of None \<Rightarrow> pj_initial proj | Some x \<Rightarrow> ve_view x"
    from False assms(6) obtain nv where nv: "pj_evolve proj ?cur ev e0 = Inr nv"
      and s': "s' = ps_putWithOffset S (pj_id proj) e0 \<lparr>ve_viewId = e0, ve_view = nv, ve_sequenceNr = n\<rparr> (pj_category proj) e0 s"
      by (auto simp: fold_record_def single_opts_def rec offsetGuardedFold_def Let_def split: sum.splits cong: option.case_cong)
    have next_ok: "view_ok proj recs ?past e0 n (Some \<lparr>ve_viewId = e0, ve_view = nv, ve_sequenceNr = n\<rparr>)"
    proof (rule view_ok_next [OF vok assms(2) _ _ nv])
      show "(n, ev) \<in> set (entity_log recs e0)" using assms(3) by (simp add: rec set_entity_log)
      show "offset proj s e0 < n" using False by simp
      show "e0 \<notin> past \<and> (\<forall>x \<in> set (entity_log recs e0). fst x < n \<longrightarrow> fst x \<le> offset proj s e0)" if "e0 \<notin> ?past"
        using that by (auto simp: in_order_def rec split: if_splits)
    qed
    have "max n (case ps_get S s (pj_id proj) e0 of None \<Rightarrow> 0 | Some x \<Rightarrow> ve_sequenceNr x) = n"
      using vok [of e0] False by (cases "ps_get S s (pj_id proj) e0") (auto simp: view_ok_def)
    then have "view_ok proj recs ?past e (offset proj s' e) (ps_get S s' (pj_id proj) e)" for e
      using next_ok keep [of e] False
      by (cases "e = e0") (simp_all add: s' get_fold [OF assms(4,4,5)] offset_fold [OF assms(4,4,5,5)] not_le split del: if_split)
    moreover have "offset proj s' e = (if e = fst rec then max (offset proj s e) (fst (snd rec)) else offset proj s e)" for e
      using False by (simp add: s' rec offset_fold [OF assms(4,4,5,5)] max_absorb2)
    ultimately show ?thesis by (simp add: projection_ok_def)
  qed
qed

lemma projection_ok_grow:
  assumes "projection_ok S proj recs past s" "log_ordered recs'" "\<And>e. \<exists>new. entity_log recs' e = entity_log recs e @ new"
  shows "projection_ok S proj recs' past s"
  unfolding projection_ok_def
proof
  fix e
  obtain new where new: "entity_log recs' e = entity_log recs e @ new" using assms(3) by blast
  have same: "view_of proj recs' N e = view_of proj recs N e" if "n \<in> fst ` set (entity_log recs e)" "N \<subseteq> {..n}" for n N
  proof -
    have "filter (\<lambda>x. fst x \<in> N) new = []"
      using that log_orderedD(1) [OF assms(2), of e] unfolding new by (fastforce simp: filter_empty_conv sorted_wrt_append)
    then show ?thesis by (simp add: view_of_def new)
  qed
  have "view_ok proj recs past e (offset proj s e) (ps_get S s (pj_id proj) e)" using assms(1) by (simp add: projection_ok_def)
  then show "view_ok proj recs' past e (offset proj s e) (ps_get S s (pj_id proj) e)"
  proof (cases "ps_get S s (pj_id proj) e")
    case (Some env)
    define P where "P recs N \<longleftrightarrow> N \<subseteq> {..offset proj s e} \<and> offset proj s e \<in> N \<and> view_of proj recs N e = Inr (ve_view env) \<and> (e \<notin> past \<longrightarrow> N = {..offset proj s e})" for recs N
    have v: "offset proj s e = ve_sequenceNr env \<and> ve_viewId env = e \<and> offset proj s e \<in> fst ` set (entity_log recs e) \<and> (\<exists>N. P recs N)"
      using \<open>view_ok proj recs past e _ _\<close> unfolding Some view_ok_def option.case P_def .
    then have at_log: "offset proj s e \<in> fst ` set (entity_log recs e)" "\<exists>N. P recs N"
      and env: "offset proj s e = ve_sequenceNr env" "ve_viewId env = e" by blast+
    from at_log(2) obtain N where N: "P recs N" by blast
    have "P recs' N" using N same [OF at_log(1), of N] by (simp add: P_def)
    then have "\<exists>N. P recs' N" by (rule exI)
    moreover have "offset proj s e \<in> fst ` set (entity_log recs' e)" using at_log(1) by (auto simp: new)
    ultimately show ?thesis using env unfolding Some view_ok_def option.case P_def by (intro conjI)
  qed (simp add: view_ok_def)
qed

lemma projection_run_ok:
  assumes "projection_run S proj recs past s" "ok (pj_id proj)" "ok (pj_category proj)"
  shows "log_ordered recs \<and> projection_ok S proj recs past s"
  using assms(1)
proof (induction rule: projection_run.induct)
  case (fresh recs s)
  then show ?case by (simp add: projection_ok_def view_ok_def)
next
  case (grown recs past s recs')
  then show ?case using projection_ok_grow [of proj recs past s recs'] by blast
next
  case (folded recs past s rec s')
  then show ?case using fold_record_ok [of proj recs past s rec s'] assms(2,3) by blast
next
  case (cleared recs past s)
  then show ?case
    by (simp add: projection_ok_def view_ok_def get_clear [OF assms(2,2)] offset_clear [OF assms(2,2,3)])
next
  case (others recs past s s')
  then show ?case by (simp add: projection_ok_def)
qed

lemma in_order_next:
  assumes "recs = done_recs @ rec # todo" "log_ordered recs" "\<forall>x \<in> set done_recs. fst (snd x) \<le> offset proj s (fst x)"
  shows "in_order S proj recs s rec"
  using log_done_prefix [OF assms(2,1), of "offset proj s"] assms(1,3) by (auto simp: in_order_def)

text \<open>One more record of a batch run.\<close>

lemma batch_step:
  assumes "projection_run S proj recs past s" "ok (pj_id proj)" "ok (pj_category proj)"
    and "recs = done_recs @ rec # todo" "\<forall>x \<in> set done_recs. fst (snd x) \<le> offset proj s (fst x)"
    and "fold_record S (single_opts proj) rec s = Inr s1"
  shows "projection_run S proj recs past s1" "\<forall>x \<in> set (done_recs @ [rec]). fst (snd x) \<le> offset proj s1 (fst x)"
proof -
  note ok = projection_run_ok [OF assms(1-3)]
  have ord: "in_order S proj recs s rec" by (rule in_order_next [OF assms(4)]) (use ok assms(5) in auto)
  show "projection_run S proj recs past s1" by (rule projection_run_in_order [OF assms(1) ord assms(6)])
  have "offset proj s1 e = (if e = fst rec then max (offset proj s e) (fst (snd rec)) else offset proj s e)" for e
    using fold_record_ok [of proj recs past s rec s1] ok in_order_member [OF ord] assms(2,3,6) by blast
  then show "\<forall>x \<in> set (done_recs @ [rec]). fst (snd x) \<le> offset proj s1 (fst x)"
    using assms(5) by (auto simp: le_max_iff_disj)
qed

text \<open>A batch run folds its records in order, and when it returns, all of them.\<close>

lemma fold_records_run:
  assumes "projection_run S proj recs past s" "ok (pj_id proj)" "ok (pj_category proj)"
    and "recs = done_recs @ todo" "\<forall>x \<in> set done_recs. fst (snd x) \<le> offset proj s (fst x)"
    and "fold_records S (single_opts proj) todo s = (s', err)"
  shows "projection_run S proj recs past s'
    \<and> (err = None \<longrightarrow> (\<forall>x \<in> set recs. fst (snd x) \<le> offset proj s' (fst x)))"
  using assms(1,4-6)
proof (induction todo arbitrary: s done_recs)
  case Nil
  then show ?case by simp
next
  case (Cons rec todo)
  show ?case
  proof (cases "fold_record S (single_opts proj) rec s")
    case (Inl e)
    with Cons.prems show ?thesis by auto
  next
    case (Inr s1)
    have "recs = (done_recs @ [rec]) @ todo" using Cons.prems(2) by simp
    then show ?thesis
      using Cons.IH [OF batch_step(1) [OF Cons.prems(1) assms(2,3) Cons.prems(2,3) Inr] _
          batch_step(2) [OF Cons.prems(1) assms(2,3) Cons.prems(2,3) Inr]] Cons.prems(4) Inr by simp
  qed
qed

text \<open>After a complete run every view holds its entity's events up to the last.\<close>

lemma complete_views:
  assumes "projection_ok S proj recs past s" "log_ordered recs" "\<forall>x \<in> set recs. fst (snd x) \<le> offset proj s (fst x)"
  shows "view_complete proj recs past e (ps_get S s (pj_id proj) e)"
proof (cases "ps_get S s (pj_id proj) e")
  case None
  then have "offset proj s e = 0" using spec [OF assms(1) [unfolded projection_ok_def], of e] by (simp add: view_ok_def)
  then have "x \<notin> set (entity_log recs e)" for x
    using bspec [OF assms(3), of "(e, x)"] log_orderedD(2) [OF assms(2), of x e] by (auto simp: set_entity_log)
  then have "entity_log recs e = []" by (cases "entity_log recs e") auto
  then show ?thesis using None by (simp add: view_complete_def)
next
  case (Some env)
  have v: "view_ok proj recs past e (offset proj s e) (Some env)"
    using spec [OF assms(1) [unfolded projection_ok_def], of e] Some by simp
  then have v': "ve_viewId env = e \<and> offset proj s e \<in> fst ` set (entity_log recs e)
      \<and> (\<exists>N. N \<subseteq> {..offset proj s e} \<and> offset proj s e \<in> N \<and> view_of proj recs N e = Inr (ve_view env) \<and> (e \<notin> past \<longrightarrow> N = {..offset proj s e}))"
    unfolding view_ok_def option.case by blast
  have off: "offset proj s e = ve_sequenceNr env" using v by (simp add: view_ok_def)
  obtain N where o: "ve_viewId env = e" "ve_sequenceNr env \<in> fst ` set (entity_log recs e)" "ve_sequenceNr env \<in> N"
    "view_of proj recs N e = Inr (ve_view env)" "e \<notin> past \<longrightarrow> N = {..ve_sequenceNr env}"
    using v' unfolding off by blast
  have all: "\<forall>x \<in> set (entity_log recs e). fst x \<le> ve_sequenceNr env" using assms(3) off by (fastforce simp: set_entity_log)
  then have "filter (\<lambda>x. fst x \<le> ve_sequenceNr env) (entity_log recs e) = entity_log recs e" by simp
  then have whole: "view_of proj recs {..ve_sequenceNr env} e = view_of proj recs UNIV e" by (simp add: view_of_def)
  have ne: "entity_log recs e \<noteq> []" using o(2) by auto
  have "ve_sequenceNr env = fst (last (entity_log recs e))"
  proof (rule antisym)
    have "\<forall>x \<in> set (entity_log recs e). fst x \<le> fst (last (entity_log recs e))"
      using strict_sorted_last [OF log_orderedD(1) [OF assms(2)]] by blast
    with o(2) show "ve_sequenceNr env \<le> fst (last (entity_log recs e))" by auto
    show "fst (last (entity_log recs e)) \<le> ve_sequenceNr env" using all ne by simp
  qed
  then show ?thesis using Some o(1,3-5) whole ne by (auto simp: view_complete_def)
qed

text \<open>The fold goes through when the whole fold of the entity does.\<close>

lemma fold_record_total:
  assumes "projection_ok S proj recs past s" "log_ordered recs" "in_order S proj recs s rec" "fst rec \<notin> past"
    and "view_of proj recs UNIV (fst rec) = Inr v"
  shows "\<exists>s'. fold_record S (single_opts proj) rec s = Inr s'"
proof -
  obtain e n ev where rec: "rec = (e, n, ev)" by (cases rec)
  show ?thesis
  proof (cases "n \<le> offset proj s e")
    case False
    let ?f = "\<lambda>v x. pj_evolve proj v (snd x) e"
    let ?cur = "case ps_get S s (pj_id proj) e of None \<Rightarrow> pj_initial proj | Some x \<Rightarrow> ve_view x"
    let ?log = "entity_log recs e"
    have mem: "(n, ev) \<in> set ?log" and low: "\<forall>x \<in> set ?log. fst x < n \<longrightarrow> fst x \<le> offset proj s e"
      using assms(3) rec by (auto simp: in_order_def set_entity_log)
    have "filter (\<lambda>x. fst x \<le> n) ?log = filter (\<lambda>x. fst x \<in> insert n {..offset proj s e}) ?log"
      using low False by (intro filter_cong) (auto simp: order.order_iff_strict)
    then have nxt: "filter (\<lambda>x. fst x \<le> n) ?log = filter (\<lambda>x. fst x \<in> {..offset proj s e}) ?log @ [(n, ev)]"
      by (rule trans [OF _ filter_insert [OF log_orderedD(1) [OF assms(2)] mem]]) (use False in auto)
    have "?log = filter (\<lambda>x. fst x \<le> n) ?log @ filter (\<lambda>x. n < fst x) ?log"
      by (rule sorted_filter_parts [OF log_orderedD(1) [OF assms(2)]])
    then have "foldE ?f (pj_initial proj) (filter (\<lambda>x. fst x \<in> {..offset proj s e}) ?log @ [(n, ev)] @ filter (\<lambda>x. n < fst x) ?log) = Inr v"
      using assms(5) nxt rec by (simp add: view_of_def)
    then have "\<exists>w nv. view_of proj recs {..offset proj s e} e = Inr w \<and> pj_evolve proj w ev e = Inr nv"
      by (auto simp: foldE_append view_of_def split: sum.splits)
    moreover have "view_of proj recs {..offset proj s e} e = Inr ?cur"
      using view_okE [OF spec [OF assms(1) [unfolded projection_ok_def]] assms(2), of e] assms(4) rec by (metis fst_conv)
    ultimately show ?thesis
      using False by (auto simp: fold_record_def single_opts_def rec offsetGuardedFold_def Let_def cong: option.case_cong)
  qed (simp add: fold_record_def single_opts_def rec offsetGuardedFold_def)
qed

lemma fold_records_total:
  assumes "projection_run S proj recs {} s" "ok (pj_id proj)" "ok (pj_category proj)"
    and "recs = done_recs @ todo" "\<forall>x \<in> set done_recs. fst (snd x) \<le> offset proj s (fst x)"
    and "\<And>e. \<exists>v. view_of proj recs UNIV e = Inr v"
  shows "\<exists>s'. fold_records S (single_opts proj) todo s = (s', None)"
  using assms(1,4,5)
proof (induction todo arbitrary: s done_recs)
  case (Cons rec todo)
  note ok = projection_run_ok [OF Cons.prems(1) assms(2,3)]
  have ord: "in_order S proj recs s rec" by (rule in_order_next [OF Cons.prems(2)]) (use ok Cons.prems(3) in auto)
  obtain v where "view_of proj recs UNIV (fst rec) = Inr v" using assms(6) by blast
  then obtain s1 where s1: "fold_record S (single_opts proj) rec s = Inr s1"
    using fold_record_total [of proj recs "{}" s rec v] ok ord by auto
  have "recs = (done_recs @ [rec]) @ todo" using Cons.prems(2) by simp
  then show ?case
    using Cons.IH [OF batch_step(1) [OF Cons.prems(1) assms(2,3) Cons.prems(2,3) s1] _
        batch_step(2) [OF Cons.prems(1) assms(2,3) Cons.prems(2,3) s1]] s1 by simp
qed simp

text \<open>What a completed run leaves, and that a rebuild leaves the same.\<close>

lemma run_matches_rebuild:
  assumes "projection_run S proj recs past s" "ok (pj_id proj)" "ok (pj_category proj)"
    and "allEvents (pj_category proj) = Inr recs" "runProjection S proj allEvents s = (s', None)"
  shows "(\<forall>e. view_complete proj recs past e (ps_get S s' (pj_id proj) e))
    \<and> (past = {} \<longrightarrow> (\<exists>r. rebuildProjection S proj allEvents s = (r, None)))
    \<and> (\<forall>r. rebuildProjection S proj allEvents s = (r, None) \<longrightarrow>
         (\<forall>e. e \<notin> past \<longrightarrow> ps_get S r (pj_id proj) e = ps_get S s' (pj_id proj) e))"
proof -
  have fr: "fold_records S (single_opts proj) recs s = (s', None)"
    using assms(4,5) by (simp add: runProjection_def)
  have after: "view_complete proj recs p e (ps_get S t (pj_id proj) e)"
    if "projection_run S proj recs p t0" "fold_records S (single_opts proj) recs t0 = (t, None)" for p t0 t e
  proof -
    have "projection_run S proj recs p t" "\<forall>x \<in> set recs. fst (snd x) \<le> offset proj t (fst x)"
      using fold_records_run [OF that(1) assms(2,3) _ _ that(2), of "[]"] by auto
    then show ?thesis using complete_views projection_run_ok [OF _ assms(2,3)] by blast
  qed
  have views: "view_complete proj recs past e (ps_get S s' (pj_id proj) e)" for e by (rule after [OF assms(1) fr])
  have cleared: "projection_run S proj recs {} (ps_clear S (pj_id proj) s)" by (rule projection_run.cleared [OF assms(1)])
  have rebuild: "rebuildProjection S proj allEvents s = fold_records S (single_opts proj) recs (ps_clear S (pj_id proj) s)"
    using assms(4) by (simp add: rebuildProjection_def runProjection_def)
  have "\<exists>v. view_of proj recs UNIV e = Inr v" if "past = {}" for e
    using views [of e] that by (auto simp: view_complete_def view_of_def split: option.splits)
  then have "past = {} \<longrightarrow> (\<exists>r. rebuildProjection S proj allEvents s = (r, None))"
    using fold_records_total [OF cleared assms(2,3), of "[]" recs] rebuild by simp
  moreover have "ps_get S r (pj_id proj) e = ps_get S s' (pj_id proj) e"
    if "rebuildProjection S proj allEvents s = (r, None)" "e \<notin> past" for r e
    by (rule view_complete_unique [OF after [OF cleared] views]) (use that rebuild in auto)
  ultimately show ?thesis using views by blast
qed

end


text \<open>
  The same for the in-memory store, when projection ids and categories contain no colon.
\<close>

lemma memory_projection_equals_rebuild:
  assumes "projection_run mem_projection_store proj recs past s" "colon_free (pj_id proj)" "colon_free (pj_category proj)"
    and "allEvents (pj_category proj) = Inr recs" "runProjection mem_projection_store proj allEvents s = (s', None)"
  shows "(\<forall>e. view_complete proj recs past e (ms_get s' (pj_id proj) e))
    \<and> (past = {} \<longrightarrow> (\<exists>r. rebuildProjection mem_projection_store proj allEvents s = (r, None)))
    \<and> (\<forall>r. rebuildProjection mem_projection_store proj allEvents s = (r, None) \<longrightarrow>
         (\<forall>e. e \<notin> past \<longrightarrow> ms_get r (pj_id proj) e = ms_get s' (pj_id proj) e))"
  using mem_views.run_matches_rebuild [OF assms] by (simp add: mem_projection_store_def)

text \<open>A sum per entity, of which one event was folded before the run.\<close>

definition demo_projection :: "(int, int) projection" where
  "demo_projection = \<lparr>pj_id = ''sum'', pj_category = ''c'', pj_evolve = (\<lambda>v e _. if e < 0 then Inl (JsError ''negative'') else Inr (v + e)), pj_initial = 0\<rparr>"

definition demo_records :: "int event_record list" where
  "demo_records = [(''a'', 1, 5), (''a'', 2, 7), (''b'', 1, 1)]"

lemma demo_records_ordered: "log_ordered demo_records"
  unfolding log_ordered_def
proof
  fix e
  show "sorted_wrt (<) (0 # map fst (entity_log demo_records e))"
    by (cases "e = ''a''"; cases "e = ''b''") (simp_all add: entity_log_def demo_records_def)
qed

lemmas demo_fold_defs = fold_record_def single_opts_def offsetGuardedFold_def demo_projection_def

lemma demo_in_order: "in_order S demo_projection demo_records s (''a'', 1, 5)"
  by (auto simp: in_order_def demo_records_def entity_log_def)


lemma memory_projection_equals_rebuild_example:
  "\<exists>s s'. projection_run mem_projection_store demo_projection demo_records {} s
     \<and> runProjection mem_projection_store demo_projection (\<lambda>_. Inr demo_records) s = (s', None)
     \<and> map_option ve_view (ms_get s' ''sum'' ''a'') = Some 12
     \<and> (\<exists>r. rebuildProjection mem_projection_store demo_projection (\<lambda>_. Inr demo_records) s = (r, None)
          \<and> (\<forall>e. ms_get r ''sum'' e = ms_get s' ''sum'' e))"
proof -
  let ?S = "mem_projection_store :: (int mem_store, int) projection_store" and ?run = "runProjection mem_projection_store demo_projection (\<lambda>_. Inr demo_records)"
  have cf: "colon_free (pj_id demo_projection)" "colon_free (pj_category demo_projection)"
    by (simp_all add: demo_projection_def colon_free_def)
  have r0: "projection_run ?S demo_projection demo_records {} createInMemoryProjectionStore"
    by (rule projection_run.fresh [OF demo_records_ordered])
      (simp_all add: mem_store_defs createInMemoryProjectionStore_def)
  obtain s where s: "fold_record ?S (single_opts demo_projection) (''a'', 1, 5) createInMemoryProjectionStore = Inr s"
    "\<exists>s'. ?run s = (s', None) \<and> map_option ve_view (ms_get s' ''sum'' ''a'') = Some 12"
    by (simp add: demo_fold_defs runProjection_def demo_records_def mem_store_defs createInMemoryProjectionStore_def
        viewKey_def offsetKey_def Let_def)
  then obtain s' where s': "?run s = (s', None)" "map_option ve_view (ms_get s' ''sum'' ''a'') = Some 12" by blast
  have r1: "projection_run ?S demo_projection demo_records {} s" by (rule projection_run_in_order [OF r0 demo_in_order s(1)])
  show ?thesis
    using memory_projection_equals_rebuild [OF r1 cf refl s'(1)] r1 s' by (simp add: demo_projection_def) blast
qed

section \<open>What the tails and several sources get wrong\<close>

text \<open>
  A record whose fold throws is reported, but the next record of the same entity moves the offset
  past it: the view never holds the event, no later run folds it, and a rebuild stops at it.
\<close>

lemma tail_drops_failed_event:
  "let w = runTailingProjection mem_projection_store (tailing_sources (Inl demo_projection))
             [(0, ''a'', 1, -1), (0, ''a'', 2, 7)] (createInMemoryProjectionStore, []);
       all = \<lambda>_. Inr [(''a'', 1, -1), (''a'', 2, 7)]
   in snd w = [JsError ''negative''] \<and> map_option ve_view (ms_get (fst w) ''sum'' ''a'') = Some 7
      \<and> runProjection mem_projection_store demo_projection all (fst w) = (fst w, None)
      \<and> snd (rebuildProjection mem_projection_store demo_projection all (fst w)) = Some (JsError ''negative'')"
  by (simp add: runTailingProjection_def tailing_sources_def tail_record_def runProjection_def rebuildProjection_def
      demo_fold_defs mem_store_defs createInMemoryProjectionStore_def viewKey_def offsetKey_def startsWith_def
      notified_def listeners_of_def createViewNotifier_def Let_def)

text \<open>
  Offsets are kept per category, not per source: of two sources with the same category the
  second one folds nothing.
\<close>

lemma second_source_of_category_skipped:
  "let proj = \<lparr>mp_id = ''m'', mp_sources = [\<lparr>src_category = ''c'', src_getViewId = (\<lambda>_ _. Inr ''x'')\<rparr>,
                 \<lparr>src_category = ''c'', src_getViewId = (\<lambda>_ _. Inr ''y'')\<rparr>],
               mp_evolve = (\<lambda>v e _. Inr (v + e)), mp_initial = 0\<rparr>;
       s = fst (runMultiStreamProjection mem_projection_store proj (\<lambda>_. Inr [(''a'', 1, 5 :: int)]) createInMemoryProjectionStore)
   in map_option ve_view (ms_get s ''m'' ''x'') = Some 5 \<and> ms_get s ''m'' ''y'' = None"
  by (simp add: runMultiStreamProjection_def source_opts_def fold_record_def offsetGuardedFold_def
      mem_store_defs createInMemoryProjectionStore_def viewKey_def offsetKey_def
      notified_def listeners_of_def createViewNotifier_def Let_def)

end
