(* ===== verification/Projection_Runner.thy ===== *)
theory Projection_Runner
  imports Projection
begin

text \<open>
  \<open>projection/runner.ts\<close>: the loop that runs every projection of a journal, on a timer and when it
  is nudged. A cycle is synchronous, but callbacks it makes (listeners of the store, \<open>onError\<close>,
  \<open>onCycle\<close>) may call the runner back; a nudge outside a cycle is queued as a microtask.
\<close>

section \<open>One pass over the entries\<close>

text \<open>An entry is a single-stream or a multi-stream projection, run with its codec's \<open>allEvents\<close>.\<close>

type_synonym ('e, 'v) projection_entry =
  "(('e, 'v) projection + ('e, 'v) multi_projection) \<times> (string \<Rightarrow> js_error + 'e event_record list)"

definition run_entry :: "('s, 'v) projection_store \<Rightarrow> ('e, 'v) projection_entry \<Rightarrow> 's \<Rightarrow> 's \<times> js_error option" where
  "run_entry S entry s =
     (case fst entry of
        Inl proj \<Rightarrow> runProjection S proj (snd entry) s
      | Inr proj \<Rightarrow> runMultiStreamProjection S proj (snd entry) s)"

definition cycle_pass ::
  "('s, 'v) projection_store \<Rightarrow> ('e, 'v) projection_entry list \<Rightarrow> 's \<Rightarrow> 's \<times> js_error list" where
  "cycle_pass S entries s =
     foldl (\<lambda>(s, errs) entry.
        case run_entry S entry s of (s', None) \<Rightarrow> (s', errs) | (s', Some err) \<Rightarrow> (s', errs @ [err])) (s, []) entries"

definition entry_id :: "('e, 'v) projection_entry \<Rightarrow> string" where
  "entry_id entry = (case fst entry of Inl proj \<Rightarrow> pj_id proj | Inr proj \<Rightarrow> mp_id proj)"

definition runner_rebuild ::
  "('s, 'v) projection_store \<Rightarrow> ('e, 'v) projection_entry list \<Rightarrow> string \<Rightarrow> 's \<Rightarrow> js_error + 's \<times> js_error option" where
  "runner_rebuild S entries projectionId s =
     (case List.find (\<lambda>entry. entry_id entry = projectionId) entries of
        None \<Rightarrow> Inl (JsError (''Unknown projection: '' @ projectionId))
      | Some entry \<Rightarrow> Inr
          (case fst entry of
             Inl proj \<Rightarrow> rebuildProjection S proj (snd entry) s
           | Inr proj \<Rightarrow> rebuildMultiStreamProjection S proj (snd entry) s))"

section \<open>The schedule\<close>

record loop_state =
  lp_interval :: bool
  lp_stopped :: bool
  lp_running :: bool
  lp_nudgeRequested :: bool
  lp_scheduled :: bool
  lp_cycles :: nat

definition new_loop :: loop_state where
  "new_loop = \<lparr>lp_interval = False, lp_stopped = False, lp_running = False, lp_nudgeRequested = False,
     lp_scheduled = False, lp_cycles = 0\<rparr>"

text \<open>\<open>scheduled\<close> is set exactly while the microtask is queued.\<close>

definition scheduleImmediate :: "loop_state \<Rightarrow> loop_state" where
  "scheduleImmediate st = (if lp_scheduled st then st else st\<lparr>lp_scheduled := True\<rparr>)"

datatype loop_op = StartLoop | StopLoop | Nudge

fun loop_call :: "loop_op \<Rightarrow> loop_state \<Rightarrow> loop_state" where
  "loop_call StartLoop st = st\<lparr>lp_interval := True, lp_stopped := False\<rparr>"
| "loop_call StopLoop st = st\<lparr>lp_interval := False, lp_stopped := True, lp_nudgeRequested := False\<rparr>"
| "loop_call Nudge st =
     (if lp_stopped st then st
      else if lp_running st then st\<lparr>lp_nudgeRequested := True\<rparr>
      else scheduleImmediate st)"

text \<open>A cycle: the calls made while it runs, then those of \<open>onCycle\<close>.\<close>

definition loop_cycle :: "loop_op list \<Rightarrow> loop_op list \<Rightarrow> loop_state \<Rightarrow> loop_state" where
  "loop_cycle during after st =
     (let s1 = foldl (\<lambda>s c. loop_call c s) (st\<lparr>lp_running := True\<rparr>) during;
          s2 = s1\<lparr>lp_running := False, lp_cycles := Suc (lp_cycles s1)\<rparr>;
          s3 = foldl (\<lambda>s c. loop_call c s) s2 after
      in if lp_nudgeRequested s3 then scheduleImmediate (s3\<lparr>lp_nudgeRequested := False\<rparr>) else s3)"

definition microtask :: "loop_op list \<Rightarrow> loop_op list \<Rightarrow> loop_state \<Rightarrow> loop_state" where
  "microtask during after st =
     (let s = st\<lparr>lp_scheduled := False\<rparr>
      in if lp_stopped s then s
         else if lp_running s then s\<lparr>lp_nudgeRequested := True\<rparr>
         else loop_cycle during after s)"

definition timer_tick :: "loop_op list \<Rightarrow> loop_op list \<Rightarrow> loop_state \<Rightarrow> loop_state" where
  "timer_tick during after st = (if lp_running st then st else loop_cycle during after st)"

inductive loop_run :: "loop_state \<Rightarrow> bool" where
  created: "loop_run new_loop"
| called: "loop_run st \<Longrightarrow> loop_run (loop_call c st)"
| microtasked: "loop_run st \<Longrightarrow> lp_scheduled st \<Longrightarrow> loop_run (microtask during after st)"
| ticked: "loop_run st \<Longrightarrow> lp_interval st \<Longrightarrow> loop_run (timer_tick during after st)"
| ran_once: "loop_run st \<Longrightarrow> loop_run (loop_cycle during after st)"

lemma calls_frame:
  "lp_cycles (foldl (\<lambda>s c. loop_call c s) st cs) = lp_cycles st"
  "lp_running (foldl (\<lambda>s c. loop_call c s) st cs) = lp_running st"
  "lp_scheduled st \<Longrightarrow> lp_scheduled (foldl (\<lambda>s c. loop_call c s) st cs)"
proof -
  have "lp_cycles (loop_call c s) = lp_cycles s \<and> lp_running (loop_call c s) = lp_running s
      \<and> (lp_scheduled s \<longrightarrow> lp_scheduled (loop_call c s))" for c s
    by (cases c) (auto simp: scheduleImmediate_def)
  then show "lp_cycles (foldl (\<lambda>s c. loop_call c s) st cs) = lp_cycles st"
    "lp_running (foldl (\<lambda>s c. loop_call c s) st cs) = lp_running st"
    "lp_scheduled st \<Longrightarrow> lp_scheduled (foldl (\<lambda>s c. loop_call c s) st cs)"
    by (induction cs arbitrary: st) auto
qed

lemma loop_cycle_frame:
  "lp_cycles (loop_cycle during after st) = Suc (lp_cycles st)"
  "\<not> lp_running (loop_cycle during after st)"
  "lp_scheduled st \<Longrightarrow> lp_scheduled (loop_cycle during after st)"
  by (auto simp: loop_cycle_def scheduleImmediate_def calls_frame Let_def)

text \<open>A nudge during a cycle that is not followed by a stop is remembered.\<close>

lemma nudge_remembered:
  assumes "lp_nudgeRequested st \<and> \<not> lp_stopped st" "StopLoop \<notin> set cs"
  shows "lp_nudgeRequested (foldl (\<lambda>s c. loop_call c s) st cs) \<and> \<not> lp_stopped (foldl (\<lambda>s c. loop_call c s) st cs)"
  using assms
proof (induction cs arbitrary: st)
  case (Cons c cs)
  then have "lp_nudgeRequested (loop_call c st) \<and> \<not> lp_stopped (loop_call c st)"
    by (cases c) (auto simp: scheduleImmediate_def)
  with Cons show ?case by simp
qed simp

lemma calls_not_stopped:
  "\<not> lp_stopped st \<Longrightarrow> StopLoop \<notin> set cs \<Longrightarrow> \<not> lp_stopped (foldl (\<lambda>s c. loop_call c s) st cs)"
proof (induction cs arbitrary: st)
  case (Cons c cs)
  then have "\<not> lp_stopped (loop_call c st)" by (cases c) (auto simp: scheduleImmediate_def)
  with Cons show ?case by simp
qed simp

lemma cycle_nudge:
  assumes "\<not> lp_stopped st" "during = before @ Nudge # later" "StopLoop \<notin> set during" "StopLoop \<notin> set after"
  shows "lp_scheduled (loop_cycle during after st)"
proof -
  define s1 where "s1 = foldl (\<lambda>s c. loop_call c s) (st\<lparr>lp_running := True\<rparr>) before"
  have "\<not> lp_stopped s1" unfolding s1_def using assms by (intro calls_not_stopped) auto
  moreover have "lp_running s1" by (simp add: s1_def calls_frame)
  ultimately have "lp_nudgeRequested (loop_call Nudge s1) \<and> \<not> lp_stopped (loop_call Nudge s1)" by simp
  then have "lp_nudgeRequested (foldl (\<lambda>s c. loop_call c s) (loop_call Nudge s1) later)
      \<and> \<not> lp_stopped (foldl (\<lambda>s c. loop_call c s) (loop_call Nudge s1) later)"
    using assms(2,3) by (intro nudge_remembered) auto
  then show ?thesis
    using assms(2,4) nudge_remembered [of "foldl (\<lambda>s c. loop_call c s) (loop_call Nudge s1) later
      \<lparr>lp_running := False, lp_cycles := Suc (lp_cycles (foldl (\<lambda>s c. loop_call c s) (loop_call Nudge s1) later))\<rparr>" after]
    by (simp add: loop_cycle_def s1_def scheduleImmediate_def Let_def del: loop_call.simps)
qed

lemma loop_run_idle: "loop_run st \<Longrightarrow> \<not> lp_running st"
proof (induction rule: loop_run.induct)
  case (called st c)
  then show ?case by (cases c) (auto simp: scheduleImmediate_def)
qed (auto simp: new_loop_def microtask_def timer_tick_def loop_cycle_frame Let_def)

text \<open>
  No nudge is lost: a nudge of a runner that is not stopped queues a cycle, also when it arrives
  while a cycle runs (unless that cycle's callbacks stop the runner); a queued cycle stays
  queued through every other step, and when its turn comes on a runner that is not stopped
  a whole cycle runs.
\<close>

lemma nudge_runs_a_cycle:
  assumes "loop_run st" "\<not> lp_stopped st"
  shows "lp_scheduled (loop_call Nudge st)
    \<and> lp_cycles (microtask during after (loop_call Nudge st)) = Suc (lp_cycles st)
    \<and> (Nudge \<in> set during \<and> StopLoop \<notin> set during \<union> set after \<longrightarrow> lp_scheduled (loop_cycle during after st))
    \<and> (lp_scheduled st \<longrightarrow> lp_scheduled (loop_call c st) \<and> lp_scheduled (timer_tick during after st)
         \<and> lp_scheduled (loop_cycle during after st))"
proof -
  have n: "lp_scheduled (loop_call Nudge st)" "\<not> lp_running (loop_call Nudge st)" "\<not> lp_stopped (loop_call Nudge st)"
    "lp_cycles (loop_call Nudge st) = lp_cycles st"
    using loop_run_idle [OF assms(1)] assms(2) by (auto simp: scheduleImmediate_def)
  moreover from n have "lp_cycles (microtask during after (loop_call Nudge st)) = Suc (lp_cycles st)"
    by (simp add: microtask_def loop_cycle_frame Let_def del: loop_call.simps)
  moreover have "lp_scheduled (loop_cycle during after st)"
    if d: "Nudge \<in> set during" "StopLoop \<notin> set during \<union> set after"
  proof -
    obtain before later where "during = before @ Nudge # later" using split_list [OF d(1)] by blast
    then show ?thesis using d assms(2) by (intro cycle_nudge) auto
  qed
  moreover have "lp_scheduled (loop_call c st)" if "lp_scheduled st"
    using calls_frame(3) [OF that, of "[c]"] by simp
  ultimately show ?thesis by (auto simp: timer_tick_def loop_cycle_frame)
qed

lemma nudge_runs_a_cycle_example:
  "lp_cycles (microtask [] [] (loop_call Nudge (loop_call StartLoop new_loop))) = 1"
  using nudge_runs_a_cycle [OF loop_run.called [OF loop_run.created], of StartLoop "[]" "[]" Nudge]
  by (simp add: new_loop_def del: loop_call.simps(3))

end
