(* ===== verification/Saga.thy ===== *)
theory Saga
  imports Projection
begin

text \<open>
  \<open>saga/index.ts\<close>, \<open>saga/tailing.ts\<close> and \<open>saga/sqlite-offset-store.ts\<close>: event-driven choreography with
  offsets, and orchestration with a step counter per correlation id. Event records are as in
  \<open>Projection\<close>. A handler is asynchronous and may throw; it is a function of the number of handler
  calls so far (so that it may answer differently each time), and what it does to the runtime is
  the list of commands it sends. \<open>tag\<close> reads the event's tag.
\<close>

section \<open>Offset stores\<close>

record 's saga_offset_store =
  so_getOffset :: "'s \<Rightarrow> string \<Rightarrow> string \<Rightarrow> string \<Rightarrow> nat"
  so_setOffset :: "string \<Rightarrow> string \<Rightarrow> string \<Rightarrow> nat \<Rightarrow> 's \<Rightarrow> 's"
  so_getStep :: "'s \<Rightarrow> string \<Rightarrow> string \<Rightarrow> nat"
  so_setStep :: "string \<Rightarrow> string \<Rightarrow> nat \<Rightarrow> 's \<Rightarrow> 's"

record mem_saga =
  sg_offsets :: "(string, nat) jsmap"
  sg_steps :: "(string, nat) jsmap"

definition or_zero :: "nat option \<Rightarrow> nat" where
  "or_zero x = (case x of None \<Rightarrow> 0 | Some n \<Rightarrow> n)"

definition createInMemorySagaStore :: mem_saga where
  "createInMemorySagaStore = \<lparr>sg_offsets = [], sg_steps = []\<rparr>"

definition mem_saga_store :: "mem_saga saga_offset_store" where
  "mem_saga_store =
     \<lparr>so_getOffset = (\<lambda>s sagaName cat e. or_zero (js_get (sg_offsets s) (sagaName @ '':'' @ cat @ '':'' @ e))),
      so_setOffset = (\<lambda>sagaName cat e n s. s\<lparr>sg_offsets := js_set (sagaName @ '':'' @ cat @ '':'' @ e) n (sg_offsets s)\<rparr>),
      so_getStep = (\<lambda>s sagaName correlationId. or_zero (js_get (sg_steps s) (sagaName @ '':'' @ correlationId))),
      so_setStep = (\<lambda>sagaName correlationId step s. s\<lparr>sg_steps := js_set (sagaName @ '':'' @ correlationId) step (sg_steps s)\<rparr>)\<rparr>"

record sql_saga =
  saga_offsets :: "(string \<times> string \<times> string, nat) jsmap"
  saga_steps :: "(string \<times> string, nat) jsmap"

definition createSqliteSagaStore :: sql_saga where
  "createSqliteSagaStore = \<lparr>saga_offsets = [], saga_steps = []\<rparr>"

definition sqlite_saga_store :: "sql_saga saga_offset_store" where
  "sqlite_saga_store =
     \<lparr>so_getOffset = (\<lambda>s sagaName cat e. or_zero (js_get (saga_offsets s) (sagaName, cat, e))),
      so_setOffset = (\<lambda>sagaName cat e n s. s\<lparr>saga_offsets := js_set (sagaName, cat, e) n (saga_offsets s)\<rparr>),
      so_getStep = (\<lambda>s sagaName correlationId. or_zero (js_get (saga_steps s) (sagaName, correlationId))),
      so_setStep = (\<lambda>sagaName correlationId step s. s\<lparr>saga_steps := js_set (sagaName, correlationId) step (saga_steps s)\<rparr>)\<rparr>"

text \<open>
  The contract, for supported saga names and categories. The in-memory store composes string
  keys and supports names without a colon.
\<close>

locale saga_store =
  fixes S :: "'s saga_offset_store" and ok :: "string \<Rightarrow> bool"
  assumes offset_set: "ok g \<Longrightarrow> ok g' \<Longrightarrow> ok c \<Longrightarrow> ok c' \<Longrightarrow>
      so_getOffset S (so_setOffset S g c e n s) g' c' e' =
        (if g' = g \<and> c' = c \<and> e' = e then n else so_getOffset S s g' c' e')"
    and step_set: "ok g \<Longrightarrow> ok g' \<Longrightarrow>
      so_getStep S (so_setStep S g e n s) g' e' = (if g' = g \<and> e' = e then n else so_getStep S s g' e')"
    and step_offset: "so_getStep S (so_setOffset S g c e n s) g' e' = so_getStep S s g' e'"
    and offset_step: "so_getOffset S (so_setStep S g e n s) g' c' e' = so_getOffset S s g' c' e'"

interpretation mem_sagas: saga_store mem_saga_store colon_free
  using offsetKey_inject viewKey_inject
  by unfold_locales (simp_all add: mem_saga_store_def or_zero_def offsetKey_def viewKey_def)

interpretation sqlite_sagas: saga_store sqlite_saga_store "\<lambda>_. True"
  by unfold_locales (simp_all add: sqlite_saga_store_def or_zero_def)

section \<open>Choreography\<close>

record ('e, 'c) saga_definition =
  sd_name :: string
  sd_on :: string
  sd_from :: string
  sd_execute :: "nat \<Rightarrow> 'e \<Rightarrow> string \<Rightarrow> 'c list \<times> js_error option"

text \<open>
  The store, the commands sent, the completed handler calls (step, entity, sequence number;
  the step of a stateless saga is 0) and the number of calls.
\<close>

record ('s, 'c) saga_world =
  sw_store :: 's
  sw_sent :: "'c list"
  sw_completed :: "(nat \<times> string \<times> nat) list"
  sw_calls :: nat

definition call_handler ::
  "(nat \<Rightarrow> 'e \<Rightarrow> string \<Rightarrow> 'c list \<times> js_error option) \<Rightarrow> 'e \<Rightarrow> string \<Rightarrow> ('s, 'c) saga_world \<Rightarrow>
   js_error option \<times> ('s, 'c) saga_world" where
  "call_handler h ev e w =
     (case h (sw_calls w) ev e of (cmds, err) \<Rightarrow>
        (err, w\<lparr>sw_sent := sw_sent w @ cmds, sw_calls := Suc (sw_calls w)\<rparr>))"

definition advance_saga :: "'s saga_offset_store \<Rightarrow> string \<Rightarrow> string \<Rightarrow> string \<Rightarrow> nat \<Rightarrow> ('s, 'c) saga_world \<Rightarrow> ('s, 'c) saga_world" where
  "advance_saga S g key e n w = w\<lparr>sw_store := so_setOffset S g key e n (sw_store w)\<rparr>"

text \<open>One record of \<open>runSaga\<close>: a throwing handler ends the run before the offset is set.\<close>

definition saga_record ::
  "'s saga_offset_store \<Rightarrow> ('e \<Rightarrow> string option) \<Rightarrow> ('e, 'c) saga_definition \<Rightarrow> 'e event_record \<Rightarrow> ('s, 'c) saga_world \<Rightarrow>
   js_error option \<times> ('s, 'c) saga_world" where
  "saga_record S tag sg rec w =
     (case rec of (e, n, ev) \<Rightarrow>
        if n \<le> so_getOffset S (sw_store w) (sd_name sg) (sd_from sg) e then (None, w)
        else if tag ev = Some (sd_on sg) then
          (case call_handler (sd_execute sg) ev e w of
             (Some err, w1) \<Rightarrow> (Some err, w1)
           | (None, w1) \<Rightarrow>
               (None, advance_saga S (sd_name sg) (sd_from sg) e n (w1\<lparr>sw_completed := sw_completed w1 @ [(0, e, n)]\<rparr>)))
        else (None, advance_saga S (sd_name sg) (sd_from sg) e n w))"

fun saga_records ::
  "'s saga_offset_store \<Rightarrow> ('e \<Rightarrow> string option) \<Rightarrow> ('e, 'c) saga_definition \<Rightarrow> 'e event_record list \<Rightarrow> ('s, 'c) saga_world \<Rightarrow>
   js_error option \<times> ('s, 'c) saga_world" where
  "saga_records S tag sg [] w = (None, w)"
| "saga_records S tag sg (rec # recs) w =
     (case saga_record S tag sg rec w of
        (Some err, w') \<Rightarrow> (Some err, w')
      | (None, w') \<Rightarrow> saga_records S tag sg recs w')"

definition runSaga where
  "runSaga S tag sg allEvents w =
     (case allEvents (sd_from sg) of
        Inl err \<Rightarrow> (Some err, w)
      | Inr recs \<Rightarrow> saga_records S tag sg recs w)"

text \<open>One record of \<open>runTailingSaga\<close>: a failure is reported and the tail goes on.\<close>

definition tail_saga_record ::
  "'s saga_offset_store \<Rightarrow> ('e \<Rightarrow> string option) \<Rightarrow> ('e, 'c) saga_definition \<Rightarrow> 'e event_record \<Rightarrow>
   ('s, 'c) saga_world \<times> js_error list \<Rightarrow> ('s, 'c) saga_world \<times> js_error list" where
  "tail_saga_record S tag sg rec x =
     (case rec of (e, n, ev) \<Rightarrow>
        if n \<le> so_getOffset S (sw_store (fst x)) (sd_name sg) (sd_from sg) e then x
        else if tag ev \<noteq> Some (sd_on sg) then (advance_saga S (sd_name sg) (sd_from sg) e n (fst x), snd x)
        else
          (case call_handler (sd_execute sg) ev e (fst x) of
             (Some err, w1) \<Rightarrow> (w1, snd x @ [err])
           | (None, w1) \<Rightarrow>
               (advance_saga S (sd_name sg) (sd_from sg) e n (w1\<lparr>sw_completed := sw_completed w1 @ [(0, e, n)]\<rparr>), snd x)))"

section \<open>At least once\<close>

text \<open>
  A process that runs a saga over and over: it handles records in the order of their entity, the
  journal grows, and it may be killed between a handler's return and the write of the offset.
  \<open>kills\<close> lists the calls that were lost that way.
\<close>

definition saga_in_order :: "'e event_record list \<Rightarrow> (string \<Rightarrow> nat) \<Rightarrow> 'e event_record \<Rightarrow> bool" where
  "saga_in_order recs off rec \<longleftrightarrow> rec \<in> set recs
     \<and> (\<forall>x \<in> set (entity_log recs (fst rec)). fst x < fst (snd rec) \<longrightarrow> fst x \<le> off (fst rec))"

inductive saga_run ::
  "'s saga_offset_store \<Rightarrow> ('e \<Rightarrow> string option) \<Rightarrow> ('e, 'c) saga_definition \<Rightarrow> 'e event_record list \<Rightarrow>
   ('s, 'c) saga_world \<Rightarrow> (nat \<times> string \<times> nat) list \<Rightarrow> bool"
  for S :: "'s saga_offset_store" and tag :: "'e \<Rightarrow> string option" and sg :: "('e, 'c) saga_definition" where
  fresh: "log_ordered recs \<Longrightarrow> \<forall>e. so_getOffset S (sw_store w) (sd_name sg) (sd_from sg) e = 0 \<Longrightarrow>
     sw_completed w = [] \<Longrightarrow> saga_run S tag sg recs w []"
| grown: "saga_run S tag sg recs w kills \<Longrightarrow> log_ordered recs' \<Longrightarrow>
     \<forall>e. \<exists>new. entity_log recs' e = entity_log recs e @ new \<and>
       (\<forall>x \<in> set new. so_getOffset S (sw_store w) (sd_name sg) (sd_from sg) e < fst x) \<Longrightarrow>
     saga_run S tag sg recs' w kills"
| handled: "saga_run S tag sg recs w kills \<Longrightarrow>
     saga_in_order recs (so_getOffset S (sw_store w) (sd_name sg) (sd_from sg)) rec \<Longrightarrow>
     saga_record S tag sg rec w = (r, w') \<Longrightarrow> saga_run S tag sg recs w' kills"
| killed: "saga_run S tag sg recs w kills \<Longrightarrow>
     saga_in_order recs (so_getOffset S (sw_store w) (sd_name sg) (sd_from sg)) (e, n, ev) \<Longrightarrow>
     so_getOffset S (sw_store w) (sd_name sg) (sd_from sg) e < n \<Longrightarrow> tag ev = Some (sd_on sg) \<Longrightarrow>
     call_handler (sd_execute sg) ev e w = (None, w') \<Longrightarrow>
     saga_run S tag sg recs (w'\<lparr>sw_completed := sw_completed w' @ [(0, e, n)]\<rparr>) (kills @ [(0, e, n)])"

lemma log_unique: "log_ordered recs \<Longrightarrow> (e, n, ev) \<in> set recs \<Longrightarrow> (e, n, ev') \<in> set recs \<Longrightarrow> ev = ev'"
proof -
  assume a: "log_ordered recs" "(e, n, ev) \<in> set recs" "(e, n, ev') \<in> set recs"
  then have "distinct (map fst (entity_log recs e))" using log_orderedD(1) strict_sorted_iff by blast
  moreover have "(n, ev) \<in> set (entity_log recs e)" "(n, ev') \<in> set (entity_log recs e)" using a by (auto simp: set_entity_log)
  ultimately show "ev = ev'" by (metis eq_key_imp_eq_value)
qed

lemma call_handler_frame [simp]:
  "call_handler h ev e w = (r, w') \<Longrightarrow> sw_store w' = sw_store w"
  "call_handler h ev e w = (r, w') \<Longrightarrow> sw_completed w' = sw_completed w"
  by (auto simp: call_handler_def split: prod.splits)

lemma advance_frame [simp]:
  "sw_completed (advance_saga S g key e n w) = sw_completed w"
  "sw_store (advance_saga S g key e n w) = so_setOffset S g key e n (sw_store w)"
  by (simp_all add: advance_saga_def)

context saga_store
begin

abbreviation soff :: "('e, 'c) saga_definition \<Rightarrow> ('s, 'c) saga_world \<Rightarrow> string \<Rightarrow> nat" where
  "soff sg w \<equiv> so_getOffset S (sw_store w) (sd_name sg) (sd_from sg)"

text \<open>Every completed call is accounted for: once per matching event below the offset, and once per kill.\<close>

definition saga_accounts ::
  "('e \<Rightarrow> string option) \<Rightarrow> ('e, 'c) saga_definition \<Rightarrow> 'e event_record list \<Rightarrow> ('s, 'c) saga_world \<Rightarrow>
   (nat \<times> string \<times> nat) list \<Rightarrow> bool" where
  "saga_accounts tag sg recs w kills \<longleftrightarrow> log_ordered recs \<and>
     (\<forall>e n. count_list (sw_completed w) (0, e, n) = count_list kills (0, e, n)
        + (if \<exists>ev. (e, n, ev) \<in> set recs \<and> tag ev = Some (sd_on sg) \<and> n \<le> soff sg w e then 1 else 0))"

lemma advance_matching:
  assumes "log_ordered recs" "saga_in_order recs (soff sg w) (e, n, ev)" "soff sg w e < n"
  shows "(\<exists>v. (e', m, v) \<in> set recs \<and> P v \<and> m \<le> (if e' = e then n else soff sg w e')) \<longleftrightarrow>
    (\<exists>v. (e', m, v) \<in> set recs \<and> P v \<and> m \<le> soff sg w e') \<or> (e' = e \<and> m = n \<and> P ev)"
proof -
  have low: "m \<le> soff sg w e" if "(e, m, v) \<in> set recs" "m < n" for v
    using assms(2) that by (force simp: saga_in_order_def set_entity_log)
  have mem: "(e, n, ev) \<in> set recs" using assms(2) by (simp add: saga_in_order_def)
  have uniq: "v = ev" if "(e, n, v) \<in> set recs" for v by (rule log_unique [OF assms(1) that mem])
  show ?thesis
  proof (cases "e' = e")
    case True
    show ?thesis
    proof (cases "m = n")
      case True
      have "(\<exists>v. (e, n, v) \<in> set recs \<and> P v) \<longleftrightarrow> P ev" using mem uniq by blast
      with \<open>e' = e\<close> True assms(3) show ?thesis by simp
    next
      case False
      have "m \<le> n \<longleftrightarrow> m \<le> soff sg w e" if "(e, m, v) \<in> set recs" for v
        using low [OF that] False assms(3) by linarith
      with \<open>e' = e\<close> False show ?thesis by auto
    qed
  qed simp
qed

lemma saga_record_effect:
  assumes "ok (sd_name sg)" "ok (sd_from sg)" "saga_record S tag sg (e, n, ev) w = (r, w')"
  shows "soff sg w' e' = (if r = None \<and> e' = e then max (soff sg w e) n else soff sg w e')
    \<and> sw_completed w' = sw_completed w @ (if r = None \<and> soff sg w e < n \<and> tag ev = Some (sd_on sg) then [(0, e, n)] else [])
    \<and> (r \<noteq> None \<longrightarrow> sw_store w' = sw_store w)"
  using assms(3)
  by (auto simp: saga_record_def offset_set [OF assms(1,1,2,2)] max_def not_le split: if_splits prod.splits option.splits)

lemma saga_run_accounts:
  assumes "saga_run S tag sg recs w kills" "ok (sd_name sg)" "ok (sd_from sg)"
  shows "saga_accounts tag sg recs w kills"
  using assms(1)
proof (induction rule: saga_run.induct)
  case (fresh recs w)
  have none: "\<not> (\<exists>ev. (e, n, ev) \<in> set recs \<and> tag ev = Some (sd_on sg) \<and> n \<le> soff sg w e)" for e n
  proof
    assume "\<exists>ev. (e, n, ev) \<in> set recs \<and> tag ev = Some (sd_on sg) \<and> n \<le> soff sg w e"
    then obtain ev where "(n, ev) \<in> set (entity_log recs e)" "n = 0" using fresh(2) by (auto simp: set_entity_log)
    with log_orderedD(2) [OF fresh(1) this(1)] show False by simp
  qed
  show ?case unfolding saga_accounts_def using fresh(1,3) by (simp only: none if_False count_list.simps) simp
next
  case (grown recs w kills recs')
  have "(e, n, v) \<in> set recs' \<and> n \<le> soff sg w e \<longleftrightarrow> (e, n, v) \<in> set recs \<and> n \<le> soff sg w e" for e n v
  proof -
    obtain new where "entity_log recs' e = entity_log recs e @ new" "\<forall>x \<in> set new. soff sg w e < fst x"
      using grown.hyps(3) by blast
    then show ?thesis unfolding set_entity_log [symmetric] by auto
  qed
  then have "(\<exists>v. (e, n, v) \<in> set recs' \<and> tag v = Some (sd_on sg) \<and> n \<le> soff sg w e) \<longleftrightarrow>
      (\<exists>v. (e, n, v) \<in> set recs \<and> tag v = Some (sd_on sg) \<and> n \<le> soff sg w e)" for e n by blast
  then show ?case using grown.IH grown.hyps(2) by (simp only: saga_accounts_def) simp
next
  case (handled recs w kills rec r w')
  obtain e n ev where rec: "rec = (e, n, ev)" by (cases rec)
  note eff = saga_record_effect [OF assms(2,3) handled.hyps(3) [unfolded rec]]
  have ord: "log_ordered recs" using handled.IH by (simp add: saga_accounts_def)
  show ?case
  proof (cases "r = None \<and> soff sg w e < n")
    case True
    note adv = advance_matching [OF ord handled.hyps(2) [unfolded rec], where P = "\<lambda>v. tag v = Some (sd_on sg)"]
    have off: "soff sg w' e' = (if e' = e then n else soff sg w e')" for e' using eff True by auto
    have completed: "sw_completed w' = sw_completed w @ (if tag ev = Some (sd_on sg) then [(0, e, n)] else [])"
      using eff True by simp
    show ?thesis
      unfolding saga_accounts_def
    proof (intro conjI allI)
      fix e' m
      let ?M = "\<lambda>w. \<exists>v. (e', m, v) \<in> set recs \<and> tag v = Some (sd_on sg) \<and> m \<le> soff sg w e'"
      have IH: "count_list (sw_completed w) (0, e', m) = count_list kills (0, e', m) + (if ?M w then 1 else 0)"
        using handled.IH by (simp only: saga_accounts_def)
      have M: "?M w' \<longleftrightarrow> ?M w \<or> (e' = e \<and> m = n \<and> tag ev = Some (sd_on sg))" unfolding off by (rule adv) (use True in blast)
      have "\<not> ?M w" if "e' = e" "m = n" using True that by auto
      with IH show "count_list (sw_completed w') (0, e', m) = count_list kills (0, e', m) + (if ?M w' then 1 else 0)"
        unfolding M completed by (cases "e' = e \<and> m = n \<and> tag ev = Some (sd_on sg)") (auto simp: count_list_append)
    qed (rule ord)
  next
    case False
    then have "soff sg w' e' = soff sg w e'" for e' using eff by (auto simp: not_less)
    with handled.IH False eff show ?thesis unfolding saga_accounts_def by auto
  qed
next
  case (killed recs w kills e n ev w')
  then show ?case unfolding saga_accounts_def by (simp add: count_list_append)
qed

text \<open>A run of \<open>runSaga\<close> is such a sequence of steps; when it returns normally every offset is reached.\<close>

lemma saga_records_run:
  assumes "saga_run S tag sg recs w kills" "ok (sd_name sg)" "ok (sd_from sg)"
    and "recs = done_recs @ todo" "\<forall>x \<in> set done_recs. fst (snd x) \<le> soff sg w (fst x)"
    and "saga_records S tag sg todo w = (r, w')"
  shows "saga_run S tag sg recs w' kills \<and> (r = None \<longrightarrow> (\<forall>x \<in> set recs. fst (snd x) \<le> soff sg w' (fst x)))"
  using assms(1,4-6)
proof (induction todo arbitrary: w done_recs)
  case (Cons rec todo)
  obtain e n ev where rec: "rec = (e, n, ev)" by (cases rec)
  obtain r1 w1 where s: "saga_record S tag sg rec w = (r1, w1)" by (cases "saga_record S tag sg rec w")
  have ord: "log_ordered recs" using saga_run_accounts [OF Cons.prems(1) assms(2,3)] by (simp add: saga_accounts_def)
  have "saga_in_order recs (soff sg w) rec"
    using log_done_prefix [OF ord Cons.prems(2), of "soff sg w"] Cons.prems(2,3) by (auto simp: saga_in_order_def)
  then have run: "saga_run S tag sg recs w1 kills" by (rule saga_run.handled [OF Cons.prems(1) _ s])
  show ?case
  proof (cases r1)
    case (Some err)
    with s Cons.prems(4) run show ?thesis by auto
  next
    case None
    have off: "soff sg w1 e' = (if e' = e then max (soff sg w e) n else soff sg w e')" for e'
      using saga_record_effect [OF assms(2,3) s [unfolded rec], of e'] None by simp
    have "recs = (done_recs @ [rec]) @ todo" using Cons.prems(2) by simp
    moreover have "\<forall>x \<in> set (done_recs @ [rec]). fst (snd x) \<le> soff sg w1 (fst x)"
      using Cons.prems(3) by (auto simp: off rec le_max_iff_disj)
    ultimately show ?thesis using Cons.IH [OF run] Cons.prems(4) s None by simp
  qed
qed simp

end

text \<open>
  A choreography saga over SQLite handles every matching event: take any sequence of runs, with
  handlers that fail, a growing journal, and kills between a handler's return and its
  offset. Whenever a run returns normally, each matching event of the journal was handled
  successfully exactly once more than it was hit by such a kill, so at least once, and
  exactly once when there was no kill; other events are never handled.
\<close>

lemma saga_handles_every_event:
  assumes "saga_run sqlite_saga_store tag sg recs w kills"
    and "allEvents (sd_from sg) = Inr recs" "runSaga sqlite_saga_store tag sg allEvents w = (None, w')"
  shows "count_list (sw_completed w') (0, e, n) = count_list kills (0, e, n)
    + (if \<exists>ev. (e, n, ev) \<in> set recs \<and> tag ev = Some (sd_on sg) then 1 else 0)"
proof -
  have "saga_records sqlite_saga_store tag sg recs w = (None, w')" using assms(2,3) by (simp add: runSaga_def)
  from sqlite_sagas.saga_records_run [OF assms(1) _ _ _ _ this, of "[]"]
  have run: "saga_run sqlite_saga_store tag sg recs w' kills"
    and all: "\<forall>x \<in> set recs. fst (snd x) \<le> sqlite_sagas.soff sg w' (fst x)" by auto
  have "(\<exists>ev. (e, n, ev) \<in> set recs \<and> tag ev = Some (sd_on sg) \<and> n \<le> sqlite_sagas.soff sg w' e) \<longleftrightarrow>
      (\<exists>ev. (e, n, ev) \<in> set recs \<and> tag ev = Some (sd_on sg))" using all by fastforce
  with sqlite_sagas.saga_run_accounts [OF run] show ?thesis by (simp only: sqlite_sagas.saga_accounts_def)
qed

definition demo_saga :: "(nat, string) saga_definition" where
  "demo_saga = \<lparr>sd_name = ''s'', sd_on = ''Paid'', sd_from = ''order'',
     sd_execute = (\<lambda>k ev e. if k = 0 then ([], Some (JsError ''down'')) else ([''ship '' @ e], None))\<rparr>"

definition demo_tag :: "nat \<Rightarrow> string option" where
  "demo_tag ev = Some (if ev = 0 then ''Paid'' else ''Other'')"

definition demo_world :: "(sql_saga, string) saga_world" where
  "demo_world = \<lparr>sw_store = createSqliteSagaStore, sw_sent = [], sw_completed = [], sw_calls = 0\<rparr>"

lemmas demo_saga_defs = demo_saga_def demo_tag_def demo_world_def createSqliteSagaStore_def sqlite_saga_store_def
  saga_record_def call_handler_def advance_saga_def or_zero_def

text \<open>The first run fails in the handler, the second one handles the event.\<close>

lemma saga_handles_every_event_example:
  "\<exists>w w'. fst (runSaga sqlite_saga_store demo_tag demo_saga (\<lambda>_. Inr [(''a'', 1, 0)]) demo_world) \<noteq> None
     \<and> runSaga sqlite_saga_store demo_tag demo_saga (\<lambda>_. Inr [(''a'', 1, 0)]) w = (None, w')
     \<and> sw_sent w' = [''ship a''] \<and> count_list (sw_completed w') (0, ''a'', 1) = 1"
proof -
  let ?recs = "[(''a'', 1, 0 :: nat)]"
  have ord: "log_ordered ?recs" by (auto simp: log_ordered_def entity_log_def)
  have r0: "saga_run sqlite_saga_store demo_tag demo_saga ?recs demo_world []"
    by (rule saga_run.fresh [OF ord]) (simp_all add: demo_saga_defs)
  have io: "saga_in_order ?recs off (''a'', 1, 0)" for off by (auto simp: saga_in_order_def entity_log_def)
  obtain err w where w: "saga_record sqlite_saga_store demo_tag demo_saga (''a'', 1, 0) demo_world = (Some err, w)"
    "\<exists>w'. runSaga sqlite_saga_store demo_tag demo_saga (\<lambda>_. Inr ?recs) w = (None, w') \<and> sw_sent w' = [''ship a'']"
    by (simp add: demo_saga_defs runSaga_def)
  then obtain w' where w': "runSaga sqlite_saga_store demo_tag demo_saga (\<lambda>_. Inr ?recs) w = (None, w')" "sw_sent w' = [''ship a'']" by blast
  have r1: "saga_run sqlite_saga_store demo_tag demo_saga ?recs w []" by (rule saga_run.handled [OF r0 io w(1)])
  have "count_list (sw_completed w') (0, ''a'', 1) = 1"
    using saga_handles_every_event [OF r1 refl w'(1), of "''a''" 1] by (simp add: demo_tag_def demo_saga_def)
  moreover have "fst (runSaga sqlite_saga_store demo_tag demo_saga (\<lambda>_. Inr ?recs) demo_world) \<noteq> None"
    using w(1) by (simp add: runSaga_def)
  ultimately show ?thesis using w' by blast
qed

text \<open>
  The tailing runner's comment promises that a failed event is retried after a restart. It is
  not once a later event of the same entity succeeds: that moves the offset past it.
\<close>

lemma tail_saga_loses_failed_event:
  "let x = tail_saga_record sqlite_saga_store demo_tag demo_saga (''a'', 2, 0)
             (tail_saga_record sqlite_saga_store demo_tag demo_saga (''a'', 1, 0) (demo_world, []))
   in snd x = [JsError ''down''] \<and> sw_completed (fst x) = [(0, ''a'', 2)]
      \<and> tail_saga_record sqlite_saga_store demo_tag demo_saga (''a'', 1, 0) x = x"
  by (simp add: tail_saga_record_def demo_saga_defs)

end
