(* ===== verification/Saga_Steps.thy ===== *)
theory Saga_Steps
  imports Saga
begin

text \<open>
  Stateful sagas of \<open>saga/index.ts\<close> and \<open>saga/tailing.ts\<close>: ordered steps with a counter per
  correlation id (the entity) and a compensation. In the tailing runner the steps run
  concurrently. A tail suspends while it waits for its turn, and both runners suspend while a handler
  or a compensation is awaited: anything else may happen in between.
\<close>

section \<open>Definitions\<close>

record ('e, 'c) saga_step =
  sp_on :: string
  sp_from :: string
  sp_execute :: "nat \<Rightarrow> 'e \<Rightarrow> string \<Rightarrow> 'c list \<times> js_error option"

record ('e, 'c) stateful_saga =
  sf_name :: string
  sf_steps :: "('e, 'c) saga_step list"
  sf_compensate :: "(nat \<Rightarrow> nat \<Rightarrow> 'e \<Rightarrow> string \<Rightarrow> 'c list \<times> js_error option) option"

definition step_key :: "('e, 'c) saga_step \<Rightarrow> nat \<Rightarrow> string" where
  "step_key step i = sp_from step @ '':step'' @ nat_str i"

definition complete_step ::
  "'s saga_offset_store \<Rightarrow> ('e, 'c) stateful_saga \<Rightarrow> nat \<Rightarrow> string \<Rightarrow> nat \<Rightarrow> ('s, 'c) saga_world \<Rightarrow> ('s, 'c) saga_world" where
  "complete_step S sg i e n w =
     w\<lparr>sw_store := so_setStep S (sf_name sg) e (Suc i) (sw_store w), sw_completed := sw_completed w @ [(i, e, n)]\<rparr>"

section \<open>The batch runner\<close>

text \<open>
  One record for one step, with nothing else going on. A failing step is compensated and its event
  is consumed; a failing compensation ends the run.
\<close>

definition stateful_record ::
  "'s saga_offset_store \<Rightarrow> ('e \<Rightarrow> string option) \<Rightarrow> ('e, 'c) stateful_saga \<Rightarrow> nat \<Rightarrow> ('e, 'c) saga_step \<Rightarrow>
   'e event_record \<Rightarrow> ('s, 'c) saga_world \<Rightarrow> js_error option \<times> ('s, 'c) saga_world" where
  "stateful_record S tag sg i step rec w =
     (case rec of (e, n, ev) \<Rightarrow>
        if n \<le> so_getOffset S (sw_store w) (sf_name sg) (step_key step i) e then (None, w)
        else
          (case (if tag ev = Some (sp_on step) \<and> so_getStep S (sw_store w) (sf_name sg) e = i then
                   (case call_handler (sp_execute step) ev e w of
                      (None, w1) \<Rightarrow> (None, complete_step S sg i e n w1)
                    | (Some err, w1) \<Rightarrow>
                        (case sf_compensate sg of
                           None \<Rightarrow> (None, w1)
                         | Some c \<Rightarrow> call_handler (\<lambda>k. c k i) ev e w1))
                 else (None, w)) of
             (Some err, w2) \<Rightarrow> (Some err, w2)
           | (None, w2) \<Rightarrow> (None, advance_saga S (sf_name sg) (step_key step i) e n w2)))"

fun stateful_records ::
  "'s saga_offset_store \<Rightarrow> ('e \<Rightarrow> string option) \<Rightarrow> ('e, 'c) stateful_saga \<Rightarrow> nat \<Rightarrow> ('e, 'c) saga_step \<Rightarrow>
   'e event_record list \<Rightarrow> ('s, 'c) saga_world \<Rightarrow> js_error option \<times> ('s, 'c) saga_world" where
  "stateful_records S tag sg i step [] w = (None, w)"
| "stateful_records S tag sg i step (rec # recs) w =
     (case stateful_record S tag sg i step rec w of
        (Some err, w') \<Rightarrow> (Some err, w')
      | (None, w') \<Rightarrow> stateful_records S tag sg i step recs w')"

fun stateful_steps ::
  "'s saga_offset_store \<Rightarrow> ('e \<Rightarrow> string option) \<Rightarrow> ('e, 'c) stateful_saga \<Rightarrow>
   (string \<Rightarrow> js_error + 'e event_record list) \<Rightarrow> nat \<Rightarrow> ('e, 'c) saga_step list \<Rightarrow> ('s, 'c) saga_world \<Rightarrow>
   js_error option \<times> ('s, 'c) saga_world" where
  "stateful_steps S tag sg allEvents i [] w = (None, w)"
| "stateful_steps S tag sg allEvents i (step # steps) w =
     (case allEvents (sp_from step) of
        Inl err \<Rightarrow> (Some err, w)
      | Inr recs \<Rightarrow>
          (case stateful_records S tag sg i step recs w of
             (Some err, w') \<Rightarrow> (Some err, w')
           | (None, w') \<Rightarrow> stateful_steps S tag sg allEvents (Suc i) steps w'))"

definition runStatefulSaga where
  "runStatefulSaga S tag sg allEvents w = stateful_steps S tag sg allEvents 0 (sf_steps sg) w"

section \<open>The runners beside each other\<close>

text \<open>
  What runs: the tail of a step, and any number of batch runs. \<open>tw_active\<close> holds the step and the
  record each of them is at while it is suspended: waiting for the turn of the step, or awaiting
  \<open>execute\<close> or \<open>compensate\<close>. \<open>tw_rejected\<close> holds the errors that batch runs ended with.
\<close>

datatype saga_runner = Tail nat | Batch nat

datatype await = Turn | Execute | Compensate

record ('s, 'e, 'c) tail_world =
  tw_world :: "('s, 'c) saga_world"
  tw_active :: "saga_runner \<Rightarrow> (await \<times> nat \<times> 'e event_record) option"
  tw_errors :: "js_error list"
  tw_rejected :: "js_error list"

definition not_ready_error :: "string \<Rightarrow> nat \<Rightarrow> string \<Rightarrow> nat \<Rightarrow> nat \<Rightarrow> js_error" where
  "not_ready_error sagaName i e current maxTurnWaitMs =
     JsError (''Saga '' @ [CHR 0x27] @ sagaName @ [CHR 0x27] @ '' step '' @ nat_str i @ '' for entity '' @ e
       @ '' not ready (step counter at '' @ nat_str current @ '') after '' @ nat_str maxTurnWaitMs
       @ ''ms; skipping without advancing offset'')"

text \<open>A record reaches the tail of a step; a record of the step's event goes on to wait for its turn.\<close>

definition tail_read ::
  "'s saga_offset_store \<Rightarrow> ('e \<Rightarrow> string option) \<Rightarrow> ('e, 'c) stateful_saga \<Rightarrow> nat \<Rightarrow> 'e event_record \<Rightarrow>
   ('s, 'e, 'c) tail_world \<Rightarrow> ('s, 'e, 'c) tail_world" where
  "tail_read S tag sg i rec x =
     (case rec of (e, n, ev) \<Rightarrow>
        let w = tw_world x; step = sf_steps sg ! i
        in if n \<le> so_getOffset S (sw_store w) (sf_name sg) (step_key step i) e then x
           else if tag ev \<noteq> Some (sp_on step) then x\<lparr>tw_world := advance_saga S (sf_name sg) (step_key step i) e n w\<rparr>
           else x\<lparr>tw_active := (tw_active x)(Tail i := Some (Turn, i, rec))\<rparr>)"

text \<open>
  The wait ends: the counter is read for the last time, because it has reached the step or because
  the bounded wait has elapsed.
\<close>

definition tail_turn ::
  "'s saga_offset_store \<Rightarrow> ('e, 'c) stateful_saga \<Rightarrow> nat \<Rightarrow> nat \<Rightarrow> 'e event_record \<Rightarrow>
   ('s, 'e, 'c) tail_world \<Rightarrow> ('s, 'e, 'c) tail_world" where
  "tail_turn S sg maxTurnWaitMs i rec x =
     (case rec of (e, n, ev) \<Rightarrow>
        let w = tw_world x; step = sf_steps sg ! i; current = so_getStep S (sw_store w) (sf_name sg) e
        in if current = i then x\<lparr>tw_active := (tw_active x)(Tail i := Some (Execute, i, rec))\<rparr>
           else if i < current then
             x\<lparr>tw_world := advance_saga S (sf_name sg) (step_key step i) e n w, tw_active := (tw_active x)(Tail i := None)\<rparr>
           else x\<lparr>tw_active := (tw_active x)(Tail i := None),
                  tw_errors := tw_errors x @ [not_ready_error (sf_name sg) i e current maxTurnWaitMs]\<rparr>)"

text \<open>The awaited handler of a tail settles, and then its compensation.\<close>

definition tail_executed ::
  "'s saga_offset_store \<Rightarrow> ('e, 'c) stateful_saga \<Rightarrow> nat \<Rightarrow> 'e event_record \<Rightarrow>
   ('s, 'e, 'c) tail_world \<Rightarrow> ('s, 'e, 'c) tail_world" where
  "tail_executed S sg i rec x =
     (case rec of (e, n, ev) \<Rightarrow>
        let step = sf_steps sg ! i; advance = advance_saga S (sf_name sg) (step_key step i) e n
        in case call_handler (sp_execute step) ev e (tw_world x) of
             (None, w1) \<Rightarrow> x\<lparr>tw_world := advance (complete_step S sg i e n w1), tw_active := (tw_active x)(Tail i := None)\<rparr>
           | (Some err, w1) \<Rightarrow>
               (case sf_compensate sg of
                  None \<Rightarrow> x\<lparr>tw_world := advance w1, tw_active := (tw_active x)(Tail i := None), tw_errors := tw_errors x @ [err]\<rparr>
                | Some c \<Rightarrow> x\<lparr>tw_world := w1, tw_active := (tw_active x)(Tail i := Some (Compensate, i, rec)),
                              tw_errors := tw_errors x @ [err]\<rparr>))"

definition tail_compensated ::
  "'s saga_offset_store \<Rightarrow> ('e, 'c) stateful_saga \<Rightarrow> (nat \<Rightarrow> nat \<Rightarrow> 'e \<Rightarrow> string \<Rightarrow> 'c list \<times> js_error option) \<Rightarrow>
   nat \<Rightarrow> 'e event_record \<Rightarrow> ('s, 'e, 'c) tail_world \<Rightarrow> ('s, 'e, 'c) tail_world" where
  "tail_compensated S sg c i rec x =
     (case rec of (e, n, ev) \<Rightarrow>
        (case call_handler (\<lambda>k. c k i) ev e (tw_world x) of
           (r, w1) \<Rightarrow> x\<lparr>tw_world := advance_saga S (sf_name sg) (step_key (sf_steps sg ! i) i) e n w1,
                        tw_active := (tw_active x)(Tail i := None),
                        tw_errors := tw_errors x @ (case r of None \<Rightarrow> [] | Some cerr \<Rightarrow> [cerr])\<rparr>))"

text \<open>
  The same for batch run \<open>k\<close>, which does not wait: an event whose step has not its turn is consumed.
  Nothing is checked before the handler is called but the counter.
\<close>

definition batch_read ::
  "'s saga_offset_store \<Rightarrow> ('e \<Rightarrow> string option) \<Rightarrow> ('e, 'c) stateful_saga \<Rightarrow> nat \<Rightarrow> nat \<Rightarrow> 'e event_record \<Rightarrow>
   ('s, 'e, 'c) tail_world \<Rightarrow> ('s, 'e, 'c) tail_world" where
  "batch_read S tag sg k i rec x =
     (case rec of (e, n, ev) \<Rightarrow>
        let w = tw_world x; step = sf_steps sg ! i
        in if n \<le> so_getOffset S (sw_store w) (sf_name sg) (step_key step i) e then x
           else if tag ev = Some (sp_on step) \<and> so_getStep S (sw_store w) (sf_name sg) e = i
           then x\<lparr>tw_active := (tw_active x)(Batch k := Some (Execute, i, rec))\<rparr>
           else x\<lparr>tw_world := advance_saga S (sf_name sg) (step_key step i) e n w\<rparr>)"

definition batch_executed ::
  "'s saga_offset_store \<Rightarrow> ('e, 'c) stateful_saga \<Rightarrow> nat \<Rightarrow> nat \<Rightarrow> 'e event_record \<Rightarrow>
   ('s, 'e, 'c) tail_world \<Rightarrow> ('s, 'e, 'c) tail_world" where
  "batch_executed S sg k i rec x =
     (case rec of (e, n, ev) \<Rightarrow>
        let step = sf_steps sg ! i; advance = advance_saga S (sf_name sg) (step_key step i) e n
        in case call_handler (sp_execute step) ev e (tw_world x) of
             (None, w1) \<Rightarrow> x\<lparr>tw_world := advance (complete_step S sg i e n w1), tw_active := (tw_active x)(Batch k := None)\<rparr>
           | (Some err, w1) \<Rightarrow>
               (case sf_compensate sg of
                  None \<Rightarrow> x\<lparr>tw_world := advance w1, tw_active := (tw_active x)(Batch k := None)\<rparr>
                | Some c \<Rightarrow> x\<lparr>tw_world := w1, tw_active := (tw_active x)(Batch k := Some (Compensate, i, rec))\<rparr>))"

definition batch_compensated ::
  "'s saga_offset_store \<Rightarrow> ('e, 'c) stateful_saga \<Rightarrow> (nat \<Rightarrow> nat \<Rightarrow> 'e \<Rightarrow> string \<Rightarrow> 'c list \<times> js_error option) \<Rightarrow>
   nat \<Rightarrow> nat \<Rightarrow> 'e event_record \<Rightarrow> ('s, 'e, 'c) tail_world \<Rightarrow> ('s, 'e, 'c) tail_world" where
  "batch_compensated S sg c k i rec x =
     (case rec of (e, n, ev) \<Rightarrow>
        (case call_handler (\<lambda>k. c k i) ev e (tw_world x) of
           (None, w1) \<Rightarrow> x\<lparr>tw_world := advance_saga S (sf_name sg) (step_key (sf_steps sg ! i) i) e n w1,
                           tw_active := (tw_active x)(Batch k := None)\<rparr>
         | (Some cerr, w1) \<Rightarrow> x\<lparr>tw_world := w1, tw_active := (tw_active x)(Batch k := None), tw_rejected := tw_rejected x @ [cerr]\<rparr>))"

text \<open>
  Two runners are at the same entity when both have called its handlers. Tails among themselves
  are not excluded here: keeping them apart is the work of the turns.
\<close>

definition apart :: "(saga_runner \<Rightarrow> (await \<times> nat \<times> 'e event_record) option) \<Rightarrow> saga_runner \<Rightarrow> string \<Rightarrow> bool" where
  "apart act r e \<longleftrightarrow> (\<forall>r' ph j rec. act r' = Some (ph, j, rec) \<and> ph \<noteq> Turn \<and> fst rec = e \<longrightarrow>
     (\<exists>i. r = Tail i) \<and> (\<exists>i. r' = Tail i))"

text \<open>
  The life of a saga: tails and batch runs in any interleaving, and kills of any of the runners,
  which forget what they were awaiting, also between the writes of the counter and of the offset.
  The flag says that no batch run has called a handler for an entity while another runner was
  at that entity, nor a tail while a batch run was.
\<close>

inductive stateful_run ::
  "'s saga_offset_store \<Rightarrow> ('e \<Rightarrow> string option) \<Rightarrow> ('e, 'c) stateful_saga \<Rightarrow> bool \<Rightarrow> ('s, 'e, 'c) tail_world \<Rightarrow> bool"
  for S :: "'s saga_offset_store" and tag :: "'e \<Rightarrow> string option" and sg :: "('e, 'c) stateful_saga" where
  opened: "\<forall>e. so_getStep S (sw_store (tw_world x)) (sf_name sg) e = 0 \<Longrightarrow> sw_completed (tw_world x) = [] \<Longrightarrow>
     tw_active x = (\<lambda>_. None) \<Longrightarrow> stateful_run S tag sg True x"
| tail_reads: "stateful_run S tag sg a x \<Longrightarrow> i < length (sf_steps sg) \<Longrightarrow> tw_active x (Tail i) = None \<Longrightarrow>
     stateful_run S tag sg a (tail_read S tag sg i rec x)"
| turn: "stateful_run S tag sg a x \<Longrightarrow> tw_active x (Tail i) = Some (Turn, j, rec) \<Longrightarrow>
     stateful_run S tag sg
       (a \<and> (tw_active (tail_turn S sg wait i rec x) (Tail i) = None \<or> apart (tw_active x) (Tail i) (fst rec)))
       (tail_turn S sg wait i rec x)"
| tail_settles: "stateful_run S tag sg a x \<Longrightarrow> tw_active x (Tail i) = Some (Execute, j, rec) \<Longrightarrow>
     stateful_run S tag sg a (tail_executed S sg i rec x)"
| tail_compensates: "stateful_run S tag sg a x \<Longrightarrow> tw_active x (Tail i) = Some (Compensate, j, rec) \<Longrightarrow>
     sf_compensate sg = Some c \<Longrightarrow> stateful_run S tag sg a (tail_compensated S sg c i rec x)"
| batch_reads: "stateful_run S tag sg a x \<Longrightarrow> i < length (sf_steps sg) \<Longrightarrow> tw_active x (Batch k) = None \<Longrightarrow>
     stateful_run S tag sg
       (a \<and> (tw_active (batch_read S tag sg k i rec x) (Batch k) = None \<or> apart (tw_active x) (Batch k) (fst rec)))
       (batch_read S tag sg k i rec x)"
| batch_settles: "stateful_run S tag sg a x \<Longrightarrow> tw_active x (Batch k) = Some (Execute, i, rec) \<Longrightarrow>
     stateful_run S tag sg a (batch_executed S sg k i rec x)"
| batch_compensates: "stateful_run S tag sg a x \<Longrightarrow> tw_active x (Batch k) = Some (Compensate, i, rec) \<Longrightarrow>
     sf_compensate sg = Some c \<Longrightarrow> stateful_run S tag sg a (batch_compensated S sg c k i rec x)"
| killed: "stateful_run S tag sg a x \<Longrightarrow>
     stateful_run S tag sg a (x\<lparr>tw_active := (\<lambda>r. if K r then None else tw_active x r)\<rparr>)"
| torn: "stateful_run S tag sg a x \<Longrightarrow> tw_active x r = Some (Execute, i, (e, n, ev)) \<Longrightarrow> K r \<Longrightarrow>
     call_handler (sp_execute (sf_steps sg ! i)) ev e (tw_world x) = (None, w1) \<Longrightarrow>
     stateful_run S tag sg a (x\<lparr>tw_world := complete_step S sg i e n w1,
       tw_active := (\<lambda>r. if K r then None else tw_active x r)\<rparr>)"

text \<open>
  A batch run that nothing interrupts does to the world what the sequential reading of a record says.
\<close>

lemma stateful_record_uninterrupted:
  assumes "tw_active x (Batch k) = None" "stateful_record S tag sg i (sf_steps sg ! i) rec (tw_world x) = (r, w')"
  shows "\<exists>y. tw_world y = w' \<and> tw_active y = tw_active x \<and> tw_rejected y = tw_rejected x @ (case r of None \<Rightarrow> [] | Some err \<Rightarrow> [err])
    \<and> (let x1 = batch_read S tag sg k i rec x; x2 = batch_executed S sg k i rec x1
       in y = x1 \<or> tw_active x1 (Batch k) = Some (Execute, i, rec) \<and>
          (y = x2 \<or> tw_active x2 (Batch k) = Some (Compensate, i, rec)
             \<and> (\<exists>c. sf_compensate sg = Some c \<and> y = batch_compensated S sg c k i rec x2)))"
proof -
  obtain e n ev where rec: "rec = (e, n, ev)" by (cases rec)
  obtain r1 w1 where c: "call_handler (sp_execute (sf_steps sg ! i)) ev e (tw_world x) = (r1, w1)" by fastforce
  show ?thesis
  proof (cases "so_getOffset S (sw_store (tw_world x)) (sf_name sg) (step_key (sf_steps sg ! i) i) e < n \<and>
      tag ev = Some (sp_on (sf_steps sg ! i)) \<and> so_getStep S (sw_store (tw_world x)) (sf_name sg) e = i")
    case False
    then show ?thesis
      using assms by (intro exI [of _ "batch_read S tag sg k i rec x"])
        (auto simp: stateful_record_def batch_read_def rec Let_def split: if_splits)
  next
    case True
    show ?thesis
    proof (cases "r1 = None \<or> sf_compensate sg = None")
      case over: True
      show ?thesis
        using assms True over c by (intro exI [of _ "batch_executed S sg k i rec (batch_read S tag sg k i rec x)"])
          (auto simp: stateful_record_def batch_read_def batch_executed_def rec Let_def split: if_splits option.splits)
    next
      case False
      then obtain err d where d: "r1 = Some err" "sf_compensate sg = Some d" by auto
      show ?thesis
        using assms True d c
        by (intro exI [of _ "batch_compensated S sg d k i rec (batch_executed S sg k i rec (batch_read S tag sg k i rec x))"])
          (auto simp: stateful_record_def batch_read_def batch_executed_def batch_compensated_def rec Let_def
            split: if_splits option.splits prod.splits)
    qed
  qed
qed

section \<open>Steps in order\<close>

text \<open>The steps an entity completed, in order; each after all the steps below it.\<close>

definition steps_of :: "('s, 'c) saga_world \<Rightarrow> string \<Rightarrow> nat list" where
  "steps_of w e = map fst (filter (\<lambda>c. fst (snd c) = e) (sw_completed w))"

definition in_turn :: "nat list \<Rightarrow> bool" where
  "in_turn cs \<longleftrightarrow> (\<forall>k < length cs. {..< cs ! k} \<subseteq> set (take k cs))"

lemma in_turn_snoc [simp]: "in_turn (cs @ [i]) \<longleftrightarrow> in_turn cs \<and> {..< i} \<subseteq> set cs"
  by (auto simp: in_turn_def less_Suc_eq nth_append)

lemma in_turn_upt [simp]: "in_turn [0 ..< n]"
  by (induction n) (simp_all add: lessThan_atLeast0, simp add: in_turn_def)

definition at_entity :: "(saga_runner \<Rightarrow> (await \<times> nat \<times> 'e event_record) option) \<Rightarrow> saga_runner \<Rightarrow> nat \<Rightarrow> string \<Rightarrow> bool" where
  "at_entity act r i e \<longleftrightarrow> (\<exists>ph n ev. act r = Some (ph, i, (e, n, ev)) \<and> ph \<noteq> Turn)"

text \<open>
  The invariant, over the number of steps, the counters, the completed steps and what is awaited.
  The first three parts hold in every run, the other two while the runners keep apart.
\<close>

definition steps_ok :: "nat \<Rightarrow> (string \<Rightarrow> nat) \<Rightarrow> (string \<Rightarrow> nat list) \<Rightarrow> bool \<Rightarrow> bool" where
  "steps_ok L st cs a \<longleftrightarrow> (\<forall>e. st e \<le> L \<and> {..< st e} \<subseteq> set (cs e) \<and> in_turn (cs e) \<and> (a \<longrightarrow> cs e = [0 ..< st e]))"

definition active_ok ::
  "nat \<Rightarrow> (string \<Rightarrow> nat) \<Rightarrow> (string \<Rightarrow> nat list) \<Rightarrow> (saga_runner \<Rightarrow> (await \<times> nat \<times> 'e event_record) option) \<Rightarrow> bool \<Rightarrow> bool" where
  "active_ok L st cs act a \<longleftrightarrow>
     (\<forall>r ph i rec. act r = Some (ph, i, rec) \<longrightarrow> i < L \<and> (\<forall>k. r = Tail k \<longrightarrow> i = k)) \<and>
     (\<forall>r i e. at_entity act r i e \<longrightarrow> {..< i} \<subseteq> set (cs e) \<and> (a \<longrightarrow> st e = i)) \<and>
     (a \<longrightarrow> (\<forall>r r' i j e. at_entity act r i e \<longrightarrow> at_entity act r' j e \<longrightarrow> r = r'))"

lemma at_entity_upd [simp]:
  "at_entity (act(r := h)) r' i e \<longleftrightarrow>
     (if r' = r then (\<exists>ph n ev. h = Some (ph, i, (e, n, ev)) \<and> ph \<noteq> Turn) else at_entity act r' i e)"
  by (simp add: at_entity_def)

lemma at_entity_cut: "at_entity (\<lambda>r. if K r then None else act r) r' i e \<longleftrightarrow> \<not> K r' \<and> at_entity act r' i e"
  by (simp add: at_entity_def)

lemma at_entityI [intro]: "act r = Some (ph, i, rec) \<Longrightarrow> ph \<noteq> Turn \<Longrightarrow> at_entity act r i (fst rec)"
  by (cases rec) (auto simp: at_entity_def)

lemma active_okD:
  assumes "active_ok L st cs act a"
  shows "act r = Some (ph, i, rec) \<Longrightarrow> i < L" "act (Tail k) = Some (ph, i, rec) \<Longrightarrow> i = k"
    and "at_entity act r i e \<Longrightarrow> {..< i} \<subseteq> set (cs e)" "at_entity act r i e \<Longrightarrow> a \<Longrightarrow> st e = i"
    and "at_entity act r i e \<Longrightarrow> at_entity act r' j e \<Longrightarrow> a \<Longrightarrow> r = r'"
proof -
  note parts = assms [unfolded active_ok_def]
  show "act r = Some (ph, i, rec) \<Longrightarrow> i < L" "act (Tail k) = Some (ph, i, rec) \<Longrightarrow> i = k"
    using parts [THEN conjunct1] by (cases rec, fastforce)+
  show "at_entity act r i e \<Longrightarrow> {..< i} \<subseteq> set (cs e)" "at_entity act r i e \<Longrightarrow> a \<Longrightarrow> st e = i"
    using parts [THEN conjunct2, THEN conjunct1] by blast+
  show "at_entity act r i e \<Longrightarrow> at_entity act r' j e \<Longrightarrow> a \<Longrightarrow> r = r'"
    using parts [THEN conjunct2, THEN conjunct2] by blast
qed

lemma active_okI:
  assumes "\<And>r ph i rec. act r = Some (ph, i, rec) \<Longrightarrow> i < L" "\<And>k ph i rec. act (Tail k) = Some (ph, i, rec) \<Longrightarrow> i = k"
    and "\<And>r i e. at_entity act r i e \<Longrightarrow> {..< i} \<subseteq> set (cs e)" "\<And>r i e. at_entity act r i e \<Longrightarrow> a \<Longrightarrow> st e = i"
    and "\<And>r r' i j e. at_entity act r i e \<Longrightarrow> at_entity act r' j e \<Longrightarrow> a \<Longrightarrow> r = r'"
  shows "active_ok L st cs act a"
  unfolding active_ok_def using assms(1,2) by (intro conjI allI impI assms(3,4,5)) auto

text \<open>Nothing new is awaited: whatever \<open>act'\<close> has at an entity, \<open>act\<close> had.\<close>

lemma active_ok_less:
  assumes "active_ok L st cs act a" "\<And>r ph i rec. act' r = Some (ph, i, rec) \<Longrightarrow> i < L \<and> (\<forall>k. r = Tail k \<longrightarrow> i = k)"
    and "\<And>r i e. at_entity act' r i e \<Longrightarrow> at_entity act r i e"
  shows "active_ok L st cs act' a"
proof (rule active_okI)
  fix r r' i j e assume at: "at_entity act' r i e"
  show "{..< i} \<subseteq> set (cs e)" by (rule active_okD(3) [OF assms(1) assms(3) [OF at]])
  show "st e = i" if a by (rule active_okD(4) [OF assms(1) assms(3) [OF at] that])
  show "r = r'" if "at_entity act' r' j e" a
    by (rule active_okD(5) [OF assms(1) assms(3) [OF at] assms(3) [OF that(1)] that(2)])
qed (use assms(2) in blast)+

lemma active_ok_stop:
  assumes "active_ok L st cs act a" "\<And>r. act' r = act r \<or> act' r = None"
  shows "active_ok L st cs act' a"
proof (rule active_ok_less [OF assms(1)])
  have old: "act r = Some h" if "act' r = Some h" for r h using assms(2) [of r] that by auto
  show "i < L \<and> (\<forall>k. r = Tail k \<longrightarrow> i = k)" if "act' r = Some (ph, i, rec)" for r ph i rec
    using active_okD(1,2) [OF assms(1)] old [OF that] by blast
  show "at_entity act r i e" if "at_entity act' r i e" for r i e using old that unfolding at_entity_def by blast
qed

lemma active_ok_phase:
  assumes "active_ok L st cs act a" "act r = Some (ph, i, rec)" "ph \<noteq> Turn"
  shows "active_ok L st cs (act(r := Some (ph', i, rec))) a"
proof (rule active_ok_less [OF assms(1)])
  show "at_entity act q j e" if "at_entity (act(r := Some (ph', i, rec))) q j e" for q j e
    using at_entityI [of act r, OF assms(2,3)] that by (auto split: if_splits)
  show "i' < L \<and> (\<forall>k. q = Tail k \<longrightarrow> i' = k)" if "(act(r := Some (ph', i, rec))) q = Some (ph'', i', rec')" for q ph'' i' rec'
    using that active_okD(1) [OF assms(1)] active_okD(2) [OF assms(1), of _ ph i rec] active_okD(2) [OF assms(1)] assms(2)
    by (cases "q = r") (simp_all, blast+)
qed

lemma active_ok_wait:
  assumes "active_ok L st cs act a" "i < L"
  shows "active_ok L st cs (act(Tail i := Some (Turn, i, rec))) a"
  using active_okD(1,2) [OF assms(1)] assms(2) by (intro active_ok_less [OF assms(1)]) (auto split: if_splits)

lemma active_ok_start:
  assumes "active_ok L st cs act a" "steps_ok L st cs a" "i < L" "\<And>k. r = Tail k \<Longrightarrow> i = k" "st (fst rec) = i"
    and apart: "a' \<Longrightarrow> a \<and> apart act r (fst rec)"
    and free: "\<And>j e. \<not> at_entity act r j e"
  shows "active_ok L st cs (act(r := Some (Execute, i, rec))) a'"
proof -
  have only: "q = r" if r: "a'" "at_entity act q j (fst rec)" for q j
  proof -
    obtain m k where q: "r = Tail m" "q = Tail k"
      using apart [OF r(1)] r(2) unfolding apart_def at_entity_def by fastforce
    have "st (fst rec) = j" using active_okD(4) [OF assms(1) r(2)] apart [OF r(1)] by blast
    moreover have "j = k" using r(2) q(2) active_okD(2) [OF assms(1)] unfolding at_entity_def by blast
    ultimately show ?thesis using assms(4) [OF q(1)] assms(5) q by simp
  qed
  have below: "{..< i} \<subseteq> set (cs (fst rec))" using assms(2,5) unfolding steps_ok_def by blast
  show ?thesis
  proof (rule active_okI)
    fix q i' e assume at: "at_entity (act(r := Some (Execute, i, rec))) q i' e"
    show "{..< i'} \<subseteq> set (cs e)"
      using at below active_okD(3) [OF assms(1)] by (auto split: if_splits)
    show "st e = i'" if a'
      using at assms(5) active_okD(4) [OF assms(1)] apart [OF that] by (auto split: if_splits)
  next
    fix r1 r2 i1 i2 e
    assume a' and r: "at_entity (act(r := Some (Execute, i, rec))) r1 i1 e" "at_entity (act(r := Some (Execute, i, rec))) r2 i2 e"
    then have a using apart by blast
    show "r1 = r2"
      using r active_okD(5) [OF assms(1) _ _ \<open>a\<close>] only [OF \<open>a'\<close>] free by (auto split: if_splits)
  qed (use assms(3,4) active_okD(1,2) [OF assms(1)] in \<open>auto split: if_splits\<close>)
qed

lemma steps_complete:
  assumes "steps_ok L st cs a" "active_ok L st cs act a" "act r = Some (Execute, i, (e, n, ev))"
  shows "steps_ok L (st(e := Suc i)) (cs(e := cs e @ [i])) a"
    and "act' r = None \<Longrightarrow> (\<And>q. act' q = act q \<or> act' q = None) \<Longrightarrow>
      active_ok L (st(e := Suc i)) (cs(e := cs e @ [i])) act' a"
proof -
  have at: "at_entity act r i e" using assms(3) by (simp add: at_entity_def)
  note D = active_okD [OF assms(2)]
  have "st e = i" if a by (rule D(4) [OF at that])
  moreover have "i < L" by (rule D(1) [OF assms(3)])
  ultimately show "steps_ok L (st(e := Suc i)) (cs(e := cs e @ [i])) a"
    using assms(1) D(3) [OF at] unfolding steps_ok_def
    by (auto simp: lessThan_Suc)
  assume less: "act' r = None" "\<And>q. act' q = act q \<or> act' q = None"
  have old: "at_entity act q j d \<and> q \<noteq> r" if "at_entity act' q j d" for q j d
    using less(1) less(2) [of q] that unfolding at_entity_def by auto
  note D' = active_okD [OF active_ok_stop [OF assms(2) less(2)]]
  show "active_ok L (st(e := Suc i)) (cs(e := cs e @ [i])) act' a"
  proof (rule active_okI)
    fix q j d assume q: "at_entity act' q j d"
    show "{..< j} \<subseteq> set ((cs(e := cs e @ [i])) d)" using D'(3) [OF q] by auto
    show "(st(e := Suc i)) d = j" if a
      using D'(4) [OF q that] D(5) [OF at _ that] old [OF q] by (cases "d = e") auto
  qed (use D'(1,2,5) in blast)+
qed

definition counter :: "'s saga_offset_store \<Rightarrow> ('e, 'c) stateful_saga \<Rightarrow> ('s, 'c) saga_world \<Rightarrow> string \<Rightarrow> nat" where
  "counter S sg w e = so_getStep S (sw_store w) (sf_name sg) e"

definition stateful_ok ::
  "'s saga_offset_store \<Rightarrow> ('e, 'c) stateful_saga \<Rightarrow> bool \<Rightarrow> ('s, 'e, 'c) tail_world \<Rightarrow> bool" where
  "stateful_ok S sg a x \<longleftrightarrow>
     steps_ok (length (sf_steps sg)) (counter S sg (tw_world x)) (steps_of (tw_world x)) a \<and>
     active_ok (length (sf_steps sg)) (counter S sg (tw_world x)) (steps_of (tw_world x)) (tw_active x) a"

lemma steps_of_frame [simp]:
  "steps_of (advance_saga S g key e n w) = steps_of w"
  "call_handler h ev e w = (r, w') \<Longrightarrow> steps_of w' = steps_of w"
  "steps_of (complete_step S sg i e n w) = (steps_of w)(e := steps_of w e @ [i])"
  by (auto simp: steps_of_def fun_eq_iff complete_step_def)

lemma steps_ok_weaken: "steps_ok L st cs a \<Longrightarrow> (a' \<Longrightarrow> a) \<Longrightarrow> steps_ok L st cs a'"
  unfolding steps_ok_def by blast

lemma active_ok_weaken: "active_ok L st cs act a \<Longrightarrow> (a' \<Longrightarrow> a) \<Longrightarrow> active_ok L st cs act a'"
  unfolding active_ok_def by blast

lemma stateful_ok_stop:
  assumes "stateful_ok S sg a x" "counter S sg (tw_world y) = counter S sg (tw_world x)"
    and "steps_of (tw_world y) = steps_of (tw_world x)" "a' \<Longrightarrow> a"
    and "\<And>r. tw_active y r = tw_active x r \<or> tw_active y r = None"
  shows "stateful_ok S sg a' y"
proof -
  note ok = assms(1) [unfolded stateful_ok_def]
  show ?thesis
    unfolding stateful_ok_def assms(2,3)
    using steps_ok_weaken [OF ok [THEN conjunct1] assms(4)]
      active_ok_weaken [OF active_ok_stop [OF ok [THEN conjunct2] assms(5)] assms(4)] by blast
qed

lemma stateful_ok_phase:
  assumes "stateful_ok S sg a x" "counter S sg (tw_world y) = counter S sg (tw_world x)"
    and "steps_of (tw_world y) = steps_of (tw_world x)"
    and "tw_active x r = Some (ph, i, rec)" "ph \<noteq> Turn" "tw_active y = (tw_active x)(r := Some (ph', i, rec))"
  shows "stateful_ok S sg a y"
  using assms active_ok_phase [of _ _ _ "tw_active x" a r ph i rec ph'] unfolding stateful_ok_def by simp

lemma stateful_ok_start:
  assumes "stateful_ok S sg a x" "tw_world y = tw_world x" "tw_active y = (tw_active x)(r := Some (Execute, i, rec))"
    and "i < length (sf_steps sg)" "\<And>k. r = Tail k \<Longrightarrow> i = k" "counter S sg (tw_world x) (fst rec) = i"
    and "a' \<Longrightarrow> a \<and> apart (tw_active x) r (fst rec)" "\<And>j e. \<not> at_entity (tw_active x) r j e"
  shows "stateful_ok S sg a' y"
proof -
  note ok = assms(1) [unfolded stateful_ok_def]
  have "steps_ok (length (sf_steps sg)) (counter S sg (tw_world x)) (steps_of (tw_world x)) a'"
    by (rule steps_ok_weaken [OF ok [THEN conjunct1]]) (use assms(7) in blast)
  with active_ok_start [OF ok [THEN conjunct2] ok [THEN conjunct1] assms(4,5,6,7,8)] assms(2,3) show ?thesis
    unfolding stateful_ok_def by simp
qed

context saga_store
begin

lemma counter_frame [simp]:
  "counter S sg (advance_saga S g key e n w) = counter S sg w"
  "call_handler h ev e w = (r, w') \<Longrightarrow> counter S sg w' = counter S sg w"
  "ok (sf_name sg) \<Longrightarrow> counter S sg (complete_step S sg i e n w) = (counter S sg w)(e := Suc i)"
  by (auto simp: counter_def fun_eq_iff step_offset complete_step_def step_set)

lemma stateful_ok_complete:
  assumes "ok (sf_name sg)" "stateful_ok S sg a x" "tw_active x r = Some (Execute, i, (e, n, ev))"
    and "call_handler h ev' e' (tw_world x) = (r', w1)"
    and "counter S sg (tw_world y) = counter S sg (complete_step S sg i e n w1)"
    and "steps_of (tw_world y) = steps_of (complete_step S sg i e n w1)"
    and "tw_active y r = None" "\<And>q. tw_active y q = tw_active x q \<or> tw_active y q = None"
  shows "stateful_ok S sg a y"
  using steps_complete [OF assms(2) [unfolded stateful_ok_def, THEN conjunct1]
      assms(2) [unfolded stateful_ok_def, THEN conjunct2] assms(3)] assms(1,4-8)
  unfolding stateful_ok_def by simp

lemma executed_ok:
  assumes "ok (sf_name sg)" "stateful_ok S sg a x" "tw_active x r = Some (Execute, i, rec)"
  shows "r = Tail i \<Longrightarrow> stateful_ok S sg a (tail_executed S sg i rec x)"
    and "r = Batch k \<Longrightarrow> stateful_ok S sg a (batch_executed S sg k i rec x)"
proof -
  obtain e n ev where rec: "rec = (e, n, ev)" by (cases rec)
  obtain r1 w1 where c: "call_handler (sp_execute (sf_steps sg ! i)) ev e (tw_world x) = (r1, w1)" by fastforce
  note act = assms(3) [unfolded rec] and defs = tail_executed_def batch_executed_def rec Let_def c
    and frame = counter_frame(2) [OF c] steps_of_frame(2) [OF c]
  show "stateful_ok S sg a (tail_executed S sg i rec x)" if "r = Tail i"
  proof (cases r1)
    case None
    then show ?thesis by (intro stateful_ok_complete [OF assms(1,2) act c]) (simp_all add: defs that assms(1))
  next
    case (Some err)
    show ?thesis
    proof (cases "sf_compensate sg")
      case None
      then show ?thesis using Some frame by (intro stateful_ok_stop [OF assms(2)]) (simp_all add: defs)
    next
      case comp: (Some d)
      show ?thesis using Some comp frame by (intro stateful_ok_phase [OF assms(2) _ _ act, of _ Compensate]) (simp_all add: defs that)
    qed
  qed
  show "stateful_ok S sg a (batch_executed S sg k i rec x)" if "r = Batch k"
  proof (cases r1)
    case None
    then show ?thesis by (intro stateful_ok_complete [OF assms(1,2) act c]) (simp_all add: defs that assms(1))
  next
    case (Some err)
    show ?thesis
    proof (cases "sf_compensate sg")
      case None
      then show ?thesis using Some frame by (intro stateful_ok_stop [OF assms(2)]) (simp_all add: defs)
    next
      case comp: (Some d)
      show ?thesis using Some comp frame by (intro stateful_ok_phase [OF assms(2) _ _ act, of _ Compensate]) (simp_all add: defs that)
    qed
  qed
qed

lemma stateful_run_ok:
  assumes "stateful_run S tag sg a x" "ok (sf_name sg)"
  shows "stateful_ok S sg a x"
  using assms(1)
proof (induction rule: stateful_run.induct)
  case (opened x)
  then show ?case
    by (simp add: stateful_ok_def steps_ok_def active_ok_def counter_def steps_of_def at_entity_def in_turn_def)
next
  case (tail_reads a x i rec)
  obtain e n ev where rec: "rec = (e, n, ev)" by (cases rec)
  show ?case
    using tail_reads.IH active_ok_wait [OF _ tail_reads.hyps(2)]
    by (auto simp: tail_read_def stateful_ok_def rec Let_def)
next
  case (turn a x i j rec wait)
  obtain e n ev where rec: "rec = (e, n, ev)" by (cases rec)
  note ok = turn.IH [unfolded stateful_ok_def, THEN conjunct2]
  have i: "i < length (sf_steps sg)" using active_okD(1,2) [OF ok] turn.hyps(2) by blast
  show ?case
  proof (cases "counter S sg (tw_world x) e = i")
    case True
    have "\<not> at_entity (tw_active x) (Tail i) k d" for k d using turn.hyps(2) by (simp add: at_entity_def)
    with True i show ?thesis
      by (intro stateful_ok_start [OF turn.IH, of _ "Tail i" i rec]) (auto simp: tail_turn_def rec Let_def counter_def)
  next
    case False
    then show ?thesis by (intro stateful_ok_stop [OF turn.IH]) (auto simp: tail_turn_def rec Let_def counter_def step_offset)
  qed
next
  case (tail_settles a x i j rec)
  moreover from this have "j = i" using active_okD(2) [OF tail_settles.IH [unfolded stateful_ok_def, THEN conjunct2]] by blast
  ultimately show ?case using executed_ok(1) [OF assms(2) tail_settles.IH] by blast
next
  case (tail_compensates a x i j rec c)
  then show ?case
    by (intro stateful_ok_stop [OF tail_compensates.IH]) (auto simp: tail_compensated_def split: prod.splits)
next
  case (batch_reads a x i k rec)
  obtain e n ev where rec: "rec = (e, n, ev)" by (cases rec)
  show ?case
  proof (cases "tw_active (batch_read S tag sg k i rec x) (Batch k) = None")
    case True
    then show ?thesis
      by (intro stateful_ok_stop [OF batch_reads.IH]) (auto simp: batch_read_def rec Let_def split: if_splits)
  next
    case False
    have "\<not> at_entity (tw_active x) (Batch k) j d" for j d using batch_reads.hyps(3) by (simp add: at_entity_def)
    with False batch_reads.hyps show ?thesis
      by (intro stateful_ok_start [OF batch_reads.IH, of _ "Batch k" i rec])
        (auto simp: batch_read_def rec Let_def counter_def split: if_splits)
  qed
next
  case (batch_settles a x k i rec)
  then show ?case using executed_ok(2) [OF assms(2) batch_settles.IH] by blast
next
  case (batch_compensates a x k i rec c)
  then show ?case
    by (intro stateful_ok_stop [OF batch_compensates.IH]) (auto simp: batch_compensated_def split: prod.splits option.splits)
next
  case (killed a x K)
  then show ?case by (intro stateful_ok_stop [OF killed.IH]) auto
next
  case (torn a x r i e n ev K w1)
  then show ?case by (intro stateful_ok_complete [OF assms(2) torn.IH torn.hyps(2,4)]) auto
qed

end

text \<open>
  C19. Orchestration, for one tail per step and any number of batch runs of the same saga, in
  every interleaving of what they do between their awaits, with failing handlers and compensations
  and with kills of any of them. Always: every step below the stored counter of an entity has been
  completed, a step is completed, and its handler called, only after all the steps below it, and
  the counter never passes the last step. And as long as no batch run calls a handler for an entity
  while another runner is at that entity, nor a tail while a batch run is (the flag \<open>a\<close>): the steps
  an entity has completed are exactly 0, 1, 2 and so on up to its stored counter, each once and in
  order; while a handler of a step runs, the counter stands at that step, and no two handlers run
  for one entity at the same time. The tails keep to that by themselves; for a batch run beside
  other runners nothing in the code does, as \<open>overlap_completes_step_twice\<close> shows.
\<close>

theorem saga_steps_once_in_order:
  assumes "stateful_run sqlite_saga_store tag sg a x"
  shows "{..< counter sqlite_saga_store sg (tw_world x) e} \<subseteq> set (steps_of (tw_world x) e)
    \<and> in_turn (steps_of (tw_world x) e)
    \<and> counter sqlite_saga_store sg (tw_world x) e \<le> length (sf_steps sg)
    \<and> (at_entity (tw_active x) r i e \<longrightarrow> {..< i} \<subseteq> set (steps_of (tw_world x) e))
    \<and> (a \<longrightarrow> steps_of (tw_world x) e = [0 ..< counter sqlite_saga_store sg (tw_world x) e])
    \<and> (a \<and> at_entity (tw_active x) r i e \<longrightarrow> counter sqlite_saga_store sg (tw_world x) e = i)
    \<and> (a \<and> at_entity (tw_active x) r i e \<and> at_entity (tw_active x) r' j e \<longrightarrow> r = r')"
proof -
  note ok = sqlite_sagas.stateful_run_ok [OF assms TrueI, unfolded stateful_ok_def]
  show ?thesis
    using ok [THEN conjunct1, unfolded steps_ok_def, rule_format, of e]
      active_okD(3,4,5) [OF ok [THEN conjunct2], of _ _ e] by auto
qed

definition demo_order :: "(nat, string) stateful_saga" where
  "demo_order = \<lparr>sf_name = ''s'', sf_steps =
     [\<lparr>sp_on = ''Paid'', sp_from = ''order'', sp_execute = (\<lambda>_ _ e. ([''reserve '' @ e], None))\<rparr>,
      \<lparr>sp_on = ''Reserved'', sp_from = ''stock'', sp_execute = (\<lambda>_ _ e. ([''ship '' @ e], None))\<rparr>],
     sf_compensate = None\<rparr>"

definition order_tag :: "nat \<Rightarrow> string option" where
  "order_tag ev = Some (if ev = 0 then ''Paid'' else ''Reserved'')"

definition demo_tails :: "(sql_saga, nat, string) tail_world" where
  "demo_tails = \<lparr>tw_world = demo_world, tw_active = (\<lambda>_. None), tw_errors = [], tw_rejected = []\<rparr>"

lemmas demo_order_defs = demo_order_def order_tag_def demo_tails_def demo_world_def createSqliteSagaStore_def
  sqlite_saga_store_def advance_saga_def or_zero_def step_key_def

definition first_step :: "nat event_record" where
  "first_step = (''a'', 1, 0)"

lemmas demo_runners = tail_read_def tail_turn_def tail_executed_def batch_read_def batch_executed_def complete_step_def
  call_handler_def first_step_def Let_def demo_order_defs

theorem saga_steps_once_in_order_witness:
  "\<exists>x. stateful_run sqlite_saga_store order_tag demo_order True x \<and> steps_of (tw_world x) ''a'' = [0]"
proof -
  let ?S = sqlite_saga_store and ?run = "stateful_run sqlite_saga_store order_tag demo_order"
  let ?x1 = "tail_read ?S order_tag demo_order 0 first_step demo_tails"
  let ?x2 = "tail_turn ?S demo_order 10000 0 first_step ?x1"
  let ?x3 = "tail_executed ?S demo_order 0 first_step ?x2"
  have "?run True demo_tails" by (rule stateful_run.opened) (simp_all add: demo_runners)
  then have "?run True ?x1" by (rule stateful_run.tail_reads) (simp_all add: demo_runners)
  then have "?run (True \<and> (tw_active ?x2 (Tail 0) = None \<or> apart (tw_active ?x1) (Tail 0) (fst first_step))) ?x2"
    by (rule stateful_run.turn [of _ _ _ _ _ _ 0]) (simp add: demo_runners)
  moreover have "(True \<and> (tw_active ?x2 (Tail 0) = None \<or> apart (tw_active ?x1) (Tail 0) (fst first_step))) = True"
    by (simp add: apart_def demo_runners)
  ultimately have "?run True ?x2" by (simp only:)
  then have r: "?run True ?x3" by (rule stateful_run.tail_settles [of _ _ _ _ _ _ 0]) (simp add: demo_runners)
  have "counter ?S demo_order (tw_world ?x3) ''a'' = 1" by (simp add: counter_def demo_runners)
  with saga_steps_once_in_order [OF r, of "''a''"] r show ?thesis by auto
qed

text \<open>
  A batch run beside the tails: nothing keeps it from calling the handler of a step that a tail is
  awaiting. The step is run and completed twice, and a late completion sets the counter back,
  so that steps that are done have their turn again.
\<close>

lemma overlap_completes_step_twice:
  "let S = sqlite_saga_store; tag = order_tag; sg = demo_order;
       x2 = tail_turn S sg 10000 0 first_step (tail_read S tag sg 0 first_step demo_tails);
       x3 = batch_executed S sg 0 0 first_step (batch_read S tag sg 0 0 first_step x2);
       x4 = batch_executed S sg 0 1 (''a'', 1, 1) (batch_read S tag sg 0 1 (''a'', 1, 1) x3);
       x5 = tail_executed S sg 0 first_step x4
   in tw_active x2 (Tail 0) = Some (Execute, 0, first_step) \<and> counter S sg (tw_world x4) ''a'' = 2
      \<and> steps_of (tw_world x5) ''a'' = [0, 1, 0] \<and> sw_sent (tw_world x5) = [''reserve a'', ''ship a'', ''reserve a'']
      \<and> counter S sg (tw_world x5) ''a'' = 1"
  by code_simp

text \<open>
  The batch runner does not wait: an event of a later step that is read before its predecessor
  was handled is consumed, and the saga of that entity stands still for good.
\<close>

lemma batch_consumes_early_event:
  "let S = sqlite_saga_store; tag = order_tag; sg = demo_order;
       early = (\<lambda>c. Inr (if c = ''stock'' then [(''a'', 1, 1)] else []));
       later = (\<lambda>c. Inr (if c = ''stock'' then [(''a'', 1, 1)] else [(''a'', 1, 0)]));
       w = snd (runStatefulSaga S tag sg early demo_world); w' = snd (runStatefulSaga S tag sg later w)
   in steps_of w' ''a'' = [0] \<and> runStatefulSaga S tag sg later w' = (None, w')"
  by code_simp

end
