(* ===== verification/Call.thy ===== *)
theory Call
  imports Prelude Complex_Main
begin

text \<open>
  \<open>core/call/types.ts\<close>, \<open>retry.ts\<close>, \<open>phase.ts\<close> and \<open>events.ts\<close>: the errors of an outside
  call, the retry policy and the phases a durable call goes through. Delays and times are
  rationals (the code's numbers, without the rounding of doubles); the cause of a custom
  error is left out; attempts are counted from 1 by the code and are natural numbers.
\<close>

section \<open>Errors\<close>

datatype call_error =
    HttpStatus int string
  | TimeoutErr int
  | ConnectionRefused string
  | CircuitOpen string
  | Custom string

type_synonym 'resp call_result = "call_error + 'resp"

fun isTransient :: "call_error \<Rightarrow> bool" where
  "isTransient (HttpStatus code _) = (500 \<le> code \<or> code = 429)"
| "isTransient (TimeoutErr _) = True"
| "isTransient (ConnectionRefused _) = True"
| "isTransient (CircuitOpen _) = False"
| "isTransient (Custom _) = False"

fun errorToString :: "call_error \<Rightarrow> string" where
  "errorToString (HttpStatus code body) = ''http_status '' @ int_str code @ '': '' @ body"
| "errorToString (TimeoutErr ms) = ''timeout after '' @ int_str ms @ ''ms''"
| "errorToString (ConnectionRefused target) = ''connection_refused: '' @ target"
| "errorToString (CircuitOpen name) = ''circuit_open: '' @ name"
| "errorToString (Custom message) = message"

fun errorTypeLabel :: "call_error \<Rightarrow> string" where
  "errorTypeLabel (HttpStatus code _) = ''http_'' @ int_str code"
| "errorTypeLabel (TimeoutErr _) = ''timeout''"
| "errorTypeLabel (ConnectionRefused _) = ''connection_refused''"
| "errorTypeLabel (CircuitOpen _) = ''circuit_open''"
| "errorTypeLabel (Custom _) = ''custom''"

section \<open>Retry policy\<close>

datatype backoff_strategy = Fibonacci | Exponential rat | Fixed

record retry_policy =
  maxAttempts :: nat
  initialDelayMs :: rat
  maxDelayMs :: rat
  strategy :: backoff_strategy

definition default_retry_policy :: retry_policy where
  "default_retry_policy = \<lparr>maxAttempts = 10, initialDelayMs = 1000, maxDelayMs = 5 * 60000, strategy = Fibonacci\<rparr>"

definition fibonacci :: "nat \<Rightarrow> nat" where
  "fibonacci n = (if n \<le> 2 then 1 else fib_loop 1 1 (n - 2))"

definition delayFor :: "retry_policy \<Rightarrow> nat \<Rightarrow> rat" where
  "delayFor p attempt =
     (if attempt < 1 then 0
      else let raw = (case strategy p of
               Fibonacci \<Rightarrow> of_nat (fibonacci attempt) * initialDelayMs p
             | Exponential factor \<Rightarrow> initialDelayMs p * factor ^ (attempt - 1)
             | Fixed \<Rightarrow> initialDelayMs p)
        in min raw (maxDelayMs p))"

lemma fibonacci_eq: "0 < n \<Longrightarrow> fibonacci n = fib_nat n"
proof (cases "n \<le> 2")
  case True
  then show "0 < n \<Longrightarrow> fibonacci n = fib_nat n"
    by (cases n; cases "n - 1") (auto simp: fibonacci_def)
next
  case False
  then show ?thesis using fib_loop_from_ones [of n] by (simp add: fibonacci_def)
qed

lemma fibonacci_mono: "m \<le> n \<Longrightarrow> fibonacci m \<le> fibonacci n"
proof (cases "m = 0")
  case True
  then show "m \<le> n \<Longrightarrow> ?thesis"
    by (cases "n = 0") (use fib_nat_pos in \<open>auto simp: fibonacci_eq Suc_le_eq fibonacci_def [of 0]\<close>)
next
  case False
  then show "m \<le> n \<Longrightarrow> ?thesis" by (simp add: fibonacci_eq fib_nat_mono)
qed

text \<open>
  Backoff delays never exceed the policy's maximum, are never negative, do not shrink from
  one attempt to the next, and with the Fibonacci strategy the loop computes exactly the
  Fibonacci multiple of the initial delay, cut off at the maximum.
\<close>

lemma retry_delays_bounded_and_monotone:
  assumes "0 \<le> initialDelayMs p" "0 \<le> maxDelayMs p"
    and "\<And>f. strategy p = Exponential f \<Longrightarrow> 1 \<le> f" and "1 \<le> m" "m \<le> n"
  shows "0 \<le> delayFor p m \<and> delayFor p m \<le> delayFor p n \<and> delayFor p n \<le> maxDelayMs p
    \<and> (strategy p = Fibonacci \<longrightarrow>
         delayFor p n = min (of_nat (fib_nat n) * initialDelayMs p) (maxDelayMs p))"
proof (cases "strategy p")
  case Fibonacci
  have "(of_nat (fibonacci m) :: rat) \<le> of_nat (fibonacci n)" using assms(5) fibonacci_mono by simp
  then have "of_nat (fibonacci m) * initialDelayMs p \<le> of_nat (fibonacci n) * initialDelayMs p"
    using assms(1) by (rule mult_right_mono)
  with assms Fibonacci show ?thesis by (auto simp: delayFor_def fibonacci_eq intro: min.coboundedI1)
next
  case (Exponential f)
  then have f: "1 \<le> f" using assms(3) by blast
  have "f ^ (m - 1) \<le> f ^ (n - 1)" using assms(5) f by (intro power_increasing) auto
  then have "initialDelayMs p * f ^ (m - 1) \<le> initialDelayMs p * f ^ (n - 1)"
    using assms(1) by (rule mult_left_mono)
  moreover have "0 \<le> initialDelayMs p * f ^ (m - 1)" using assms(1) f by simp
  ultimately show ?thesis using assms Exponential by (auto simp: delayFor_def intro: min.coboundedI1)
next
  case Fixed
  with assms show ?thesis by (simp add: delayFor_def)
qed

lemma retry_delays_bounded_and_monotone_example:
  "delayFor default_retry_policy 3 = 2000 \<and> delayFor default_retry_policy 3 \<le> delayFor default_retry_policy 9"
proof -
  have p: "0 \<le> initialDelayMs default_retry_policy" "0 \<le> maxDelayMs default_retry_policy"
    "\<And>f. strategy default_retry_policy = Exponential f \<Longrightarrow> 1 \<le> f"
    by (simp_all add: default_retry_policy_def)
  note r = retry_delays_bounded_and_monotone [OF p]
  have "strategy default_retry_policy = Fibonacci" by (simp add: default_retry_policy_def)
  then have "delayFor default_retry_policy 3 =
      min (of_nat (fib_nat 3) * initialDelayMs default_retry_policy) (maxDelayMs default_retry_policy)"
    using r [of 3 3] by simp
  moreover have "fib_nat 3 = 2" by (simp add: numeral_eq_Suc)
  ultimately have "delayFor default_retry_policy 3 = 2000" by (simp add: default_retry_policy_def)
  then show ?thesis using r [of 3 9] by simp
qed

section \<open>Phases and lifecycle events\<close>

datatype 'resp call_phase =
    Idle
  | Pending string nat rat
  | RetryScheduled string nat rat
  | Succeeded 'resp rat
  | PermanentFailure string
  | Exhausted string nat

fun isTerminal :: "'resp call_phase \<Rightarrow> bool" where
  "isTerminal (Succeeded _ _) = True"
| "isTerminal (PermanentFailure _) = True"
| "isTerminal (Exhausted _ _) = True"
| "isTerminal _ = False"

fun needsRecoveryAction :: "'resp call_phase \<Rightarrow> bool" where
  "needsRecoveryAction (Pending _ _ _) = True"
| "needsRecoveryAction (RetryScheduled _ _ _) = True"
| "needsRecoveryAction _ = False"

datatype ('req, 'resp) lifecycle_event =
    CallInitiated string 'req nat rat
  | CallSucceeded string 'resp nat rat
  | CallFailed string string nat bool "rat option"
  | CallExhausted string string nat

datatype 'resp call_outcome = OSuccess 'resp nat | OFailure call_error nat

lemma phase_cases3: "p = Idle \<or> isTerminal p \<or> needsRecoveryAction p"
  by (cases p) auto

end
