(* ===== verification/Circuit_Breaker.thy ===== *)
theory Circuit_Breaker
  imports Call
begin

text \<open>
  \<open>core/call/circuit-breaker.ts\<close>. The breaker's state is a record; the clock is an argument
  of the operations that read it. An operation under \<open>protect\<close> takes time, and other calls
  use the breaker meanwhile: it is a function from the breaker when it starts to its outcome
  and the breaker when it settles. \<open>cb_run\<close> is every interleaving of such calls.
\<close>

section \<open>State and transitions\<close>

datatype circuit_state = Closed | Opened | HalfOpen

record breaker_config =
  maxFailures :: int
  resetTimeoutMs :: int
  halfOpenMaxCalls :: int

definition defaultCircuitBreakerConfig :: breaker_config where
  "defaultCircuitBreakerConfig = \<lparr>maxFailures = 5, resetTimeoutMs = 30000, halfOpenMaxCalls = 1\<rparr>"

record breaker =
  cb_state :: circuit_state
  consecutiveFailures :: nat
  totalFailures :: nat
  totalSuccesses :: nat
  totalRejections :: nat
  openedAtMs :: int
  halfOpenInflight :: nat

definition new_breaker :: breaker where
  "new_breaker = \<lparr>cb_state = Closed, consecutiveFailures = 0, totalFailures = 0, totalSuccesses = 0,
     totalRejections = 0, openedAtMs = 0, halfOpenInflight = 0\<rparr>"

definition maybeTransitionFromOpen :: "breaker_config \<Rightarrow> int \<Rightarrow> breaker \<Rightarrow> breaker" where
  "maybeTransitionFromOpen cfg now s =
     (if cb_state s \<noteq> Opened then s
      else if openedAtMs s + resetTimeoutMs cfg \<le> now
      then s\<lparr>cb_state := HalfOpen, halfOpenInflight := 0\<rparr> else s)"

definition tryAcquire :: "breaker_config \<Rightarrow> int \<Rightarrow> breaker \<Rightarrow> bool \<times> breaker" where
  "tryAcquire cfg now s0 =
     (let s = maybeTransitionFromOpen cfg now s0
      in case cb_state s of
           Opened \<Rightarrow> (False, s\<lparr>totalRejections := totalRejections s + 1\<rparr>)
         | HalfOpen \<Rightarrow>
             (if halfOpenMaxCalls cfg \<le> int (halfOpenInflight s)
              then (False, s\<lparr>totalRejections := totalRejections s + 1\<rparr>)
              else (True, s\<lparr>halfOpenInflight := halfOpenInflight s + 1\<rparr>))
         | Closed \<Rightarrow> (True, s))"

definition recordSuccess :: "breaker \<Rightarrow> breaker" where
  "recordSuccess s0 =
     (let s = s0\<lparr>consecutiveFailures := 0, totalSuccesses := totalSuccesses s0 + 1\<rparr>
      in if cb_state s = HalfOpen then s\<lparr>cb_state := Closed, halfOpenInflight := halfOpenInflight s - 1\<rparr>
         else s)"

definition recordFailure :: "breaker_config \<Rightarrow> int \<Rightarrow> breaker \<Rightarrow> breaker" where
  "recordFailure cfg now s0 =
     (let s = s0\<lparr>consecutiveFailures := consecutiveFailures s0 + 1, totalFailures := totalFailures s0 + 1\<rparr>
      in if cb_state s = HalfOpen
         then s\<lparr>cb_state := Opened, openedAtMs := now, halfOpenInflight := halfOpenInflight s - 1\<rparr>
         else if cb_state s = Closed \<and> maxFailures cfg \<le> int (consecutiveFailures s)
         then s\<lparr>cb_state := Opened, openedAtMs := now\<rparr>
         else s)"

definition currentState :: "breaker_config \<Rightarrow> int \<Rightarrow> breaker \<Rightarrow> circuit_state \<times> breaker" where
  "currentState cfg now s = (let s' = maybeTransitionFromOpen cfg now s in (cb_state s', s'))"

lemmas breaker_defs = maybeTransitionFromOpen_def tryAcquire_def recordSuccess_def recordFailure_def
  currentState_def Let_def

section \<open>Protected calls\<close>

text \<open>An operation and a fallback: what they return or throw, and the breaker when they settle.\<close>

type_synonym 'a guarded_op = "breaker \<Rightarrow> (js_error + 'a) \<times> breaker"

definition protect ::
  "breaker_config \<Rightarrow> string \<Rightarrow> int \<Rightarrow> 'a guarded_op \<Rightarrow> int \<Rightarrow> 'a guarded_op" where
  "protect cfg name now op settled s =
     (case tryAcquire cfg now s of
        (False, s1) \<Rightarrow> (Inl (CircuitOpenError name), s1)
      | (True, s1) \<Rightarrow>
          (case op s1 of
             (Inr v, s2) \<Rightarrow> (Inr v, recordSuccess s2)
           | (Inl e, s2) \<Rightarrow> (Inl e, recordFailure cfg settled s2)))"

definition protectOrElse ::
  "breaker_config \<Rightarrow> int \<Rightarrow> 'a guarded_op \<Rightarrow> int \<Rightarrow> 'a guarded_op \<Rightarrow> 'a guarded_op" where
  "protectOrElse cfg now op settled fallback s =
     (case tryAcquire cfg now s of
        (False, s1) \<Rightarrow> fallback s1
      | (True, s1) \<Rightarrow>
          (case op s1 of
             (Inr v, s2) \<Rightarrow> (Inr v, recordSuccess s2)
           | (Inl e, s2) \<Rightarrow> fallback (recordFailure cfg settled s2)))"

text \<open>\<open>open_error\<close> is what the rejected caller gets as its error value.\<close>

definition protectEither ::
  "breaker_config \<Rightarrow> 'e \<Rightarrow> int \<Rightarrow> ('e + 'a) guarded_op \<Rightarrow> ('e \<Rightarrow> bool) \<Rightarrow> int \<Rightarrow> ('e + 'a) guarded_op" where
  "protectEither cfg open_error now op isFailure settled s =
     (case tryAcquire cfg now s of
        (False, s1) \<Rightarrow> (Inr (Inl open_error), s1)
      | (True, s1) \<Rightarrow>
          (case op s1 of
             (Inr (Inr v), s2) \<Rightarrow> (Inr (Inr v), recordSuccess s2)
           | (Inr (Inl e), s2) \<Rightarrow>
               (Inr (Inl e), if isFailure e then recordFailure cfg settled s2 else recordSuccess s2)
           | (Inl x, s2) \<Rightarrow> (Inl x, recordFailure cfg settled s2)))"

section \<open>Every interleaving of calls\<close>

text \<open>What callers do to a breaker, in the order of the run, with the clock they read.\<close>

datatype cb_event = Acquire int | Succeed | Fail int | Observe int

fun cb_step :: "breaker_config \<Rightarrow> breaker \<Rightarrow> cb_event \<Rightarrow> breaker" where
  "cb_step cfg s (Acquire t) = snd (tryAcquire cfg t s)"
| "cb_step cfg s Succeed = recordSuccess s"
| "cb_step cfg s (Fail t) = recordFailure cfg t s"
| "cb_step cfg s (Observe t) = snd (currentState cfg t s)"

fun cb_admits :: "breaker_config \<Rightarrow> breaker \<Rightarrow> cb_event \<Rightarrow> bool" where
  "cb_admits cfg s (Acquire t) = fst (tryAcquire cfg t s)"
| "cb_admits cfg s _ = False"

fun cb_rejects :: "breaker_config \<Rightarrow> breaker \<Rightarrow> cb_event \<Rightarrow> bool" where
  "cb_rejects cfg s (Acquire t) = (\<not> fst (tryAcquire cfg t s))"
| "cb_rejects cfg s _ = False"

fun settles :: "cb_event \<Rightarrow> bool" where
  "settles Succeed = True"
| "settles (Fail _) = True"
| "settles _ = False"

text \<open>
  A run counts the calls that are admitted, settled and rejected, and the calls admitted
  since the breaker was last seen to become half-open.
\<close>

record cb_world =
  w_breaker :: breaker
  w_admitted :: nat
  w_settled :: nat
  w_rejected :: nat
  w_probes :: nat

definition cb_world_step :: "breaker_config \<Rightarrow> cb_event \<Rightarrow> cb_world \<Rightarrow> cb_world" where
  "cb_world_step cfg e w =
     (let s = w_breaker w; s' = cb_step cfg s e; a = (if cb_admits cfg s e then 1 else 0)
      in \<lparr>w_breaker = s',
          w_admitted = w_admitted w + a,
          w_settled = w_settled w + (if settles e then 1 else 0),
          w_rejected = w_rejected w + (if cb_rejects cfg s e then 1 else 0),
          w_probes = (if cb_state s' \<noteq> HalfOpen then 0
                      else if cb_state s = HalfOpen then w_probes w + a else a)\<rparr>)"

inductive cb_run :: "breaker_config \<Rightarrow> cb_world \<Rightarrow> bool" for cfg where
  fresh: "cb_run cfg \<lparr>w_breaker = new_breaker, w_admitted = 0, w_settled = 0, w_rejected = 0, w_probes = 0\<rparr>"
| event: "cb_run cfg w \<Longrightarrow> settles e \<longrightarrow> w_settled w < w_admitted w \<Longrightarrow> cb_run cfg (cb_world_step cfg e w)"

definition cb_inv :: "breaker_config \<Rightarrow> cb_world \<Rightarrow> bool" where
  "cb_inv cfg w \<longleftrightarrow> totalSuccesses (w_breaker w) + totalFailures (w_breaker w) = w_settled w
     \<and> w_settled w \<le> w_admitted w \<and> totalRejections (w_breaker w) = w_rejected w
     \<and> (cb_state (w_breaker w) = Closed \<longrightarrow> int (consecutiveFailures (w_breaker w)) < maxFailures cfg)
     \<and> (cb_state (w_breaker w) = HalfOpen \<longrightarrow> halfOpenInflight (w_breaker w) = w_probes w
          \<and> int (w_probes w) \<le> halfOpenMaxCalls cfg)"

lemma cb_inv_step:
  assumes "cb_inv cfg w" "settles e \<longrightarrow> w_settled w < w_admitted w" "0 < maxFailures cfg" "0 \<le> halfOpenMaxCalls cfg"
  shows "cb_inv cfg (cb_world_step cfg e w)"
proof (cases e)
  case (Acquire t)
  with assms show ?thesis
    by (cases "cb_state (w_breaker w)") (auto simp: cb_inv_def cb_world_step_def breaker_defs)
next
  case Succeed
  with assms show ?thesis
    by (cases "cb_state (w_breaker w)") (auto simp: cb_inv_def cb_world_step_def breaker_defs)
next
  case (Fail t)
  with assms show ?thesis
    by (cases "cb_state (w_breaker w)") (auto simp: cb_inv_def cb_world_step_def breaker_defs)
next
  case (Observe t)
  with assms show ?thesis
    by (cases "cb_state (w_breaker w)") (auto simp: cb_inv_def cb_world_step_def breaker_defs)
qed

lemma cb_run_inv: "cb_run cfg w \<Longrightarrow> 0 < maxFailures cfg \<Longrightarrow> 0 \<le> halfOpenMaxCalls cfg \<Longrightarrow> cb_inv cfg w"
proof (induction rule: cb_run.induct)
  case fresh
  then show ?case by (simp add: cb_inv_def new_breaker_def)
next
  case (event w e)
  then show ?case by (simp add: cb_inv_step)
qed

text \<open>
  C25. In every interleaving of protected calls the breaker's counters are exact (successes plus
  failures are the settled calls, rejections the rejected ones), it is closed only while the
  failures in a row are fewer than \<open>maxFailures\<close>, and between two state changes a half-open
  breaker lets at most \<open>halfOpenMaxCalls\<close> calls through.
\<close>

theorem breaker_run_safe:
  assumes "cb_run cfg w" "0 < maxFailures cfg" "0 \<le> halfOpenMaxCalls cfg"
  shows "totalSuccesses (w_breaker w) + totalFailures (w_breaker w) = w_settled w
    \<and> w_settled w \<le> w_admitted w \<and> totalRejections (w_breaker w) = w_rejected w
    \<and> (cb_state (w_breaker w) = Closed \<longrightarrow> int (consecutiveFailures (w_breaker w)) < maxFailures cfg)
    \<and> (cb_state (w_breaker w) = HalfOpen \<longrightarrow> int (w_probes w) \<le> halfOpenMaxCalls cfg)"
  using cb_run_inv [OF assms] by (simp add: cb_inv_def)

text \<open>A breaker of one failure: a call fails, the breaker opens, half-opens and probes once.\<close>

theorem breaker_run_safe_witness:
  "\<exists>w. cb_run \<lparr>maxFailures = 1, resetTimeoutMs = 10, halfOpenMaxCalls = 1\<rparr> w
     \<and> cb_state (w_breaker w) = HalfOpen \<and> w_probes w = 1 \<and> int (w_probes w) \<le> 1 \<and> w_rejected w = 1"
proof -
  let ?cfg = "\<lparr>maxFailures = 1, resetTimeoutMs = 10, halfOpenMaxCalls = 1\<rparr>"
  let ?w0 = "\<lparr>w_breaker = new_breaker, w_admitted = 0, w_settled = 0, w_rejected = 0, w_probes = 0\<rparr>"
  let ?w1 = "cb_world_step ?cfg (Acquire 0) ?w0"
  let ?w2 = "cb_world_step ?cfg (Fail 5) ?w1"
  let ?w3 = "cb_world_step ?cfg (Acquire 7) ?w2"
  let ?w4 = "cb_world_step ?cfg (Acquire 15) ?w3"
  have "cb_run ?cfg ?w1" by (rule cb_run.event [OF cb_run.fresh]) simp
  then have "cb_run ?cfg ?w2"
    by (rule cb_run.event) (simp add: cb_world_step_def breaker_defs new_breaker_def)
  then have "cb_run ?cfg ?w3" by (rule cb_run.event) simp
  then have r: "cb_run ?cfg ?w4" by (rule cb_run.event) simp
  have e: "cb_state (w_breaker ?w4) = HalfOpen" "w_probes ?w4 = 1" "w_rejected ?w4 = 1"
    by (simp_all add: cb_world_step_def breaker_defs new_breaker_def)
  from breaker_run_safe [OF r] e(1) have "int (w_probes ?w4) \<le> 1" by simp
  with r e show ?thesis by (intro exI [of _ ?w4]) simp
qed

section \<open>Open and closed periods\<close>

text \<open>The answers of the acquires of a trace.\<close>

fun cb_answers :: "breaker_config \<Rightarrow> breaker \<Rightarrow> cb_event list \<Rightarrow> bool list" where
  "cb_answers cfg s [] = []"
| "cb_answers cfg s (e # es) =
     (case e of Acquire t \<Rightarrow> fst (tryAcquire cfg t s) # cb_answers cfg (cb_step cfg s e) es
      | _ \<Rightarrow> cb_answers cfg (cb_step cfg s e) es)"

fun event_time :: "cb_event \<Rightarrow> int option" where
  "event_time (Acquire t) = Some t"
| "event_time (Observe t) = Some t"
| "event_time _ = None"

text \<open>The number of failures at the end of a list of outcomes.\<close>

fun outcomes :: "cb_event list \<Rightarrow> bool list" where
  "outcomes [] = []"
| "outcomes (Succeed # es) = True # outcomes es"
| "outcomes (Fail t # es) = False # outcomes es"
| "outcomes (_ # es) = outcomes es"

definition failure_run :: "cb_event list \<Rightarrow> nat" where
  "failure_run es = length (takeWhile Not (rev (outcomes es)))"

lemma outcomes_append [simp]: "outcomes (xs @ ys) = outcomes xs @ outcomes ys"
  by (induction xs rule: outcomes.induct) auto

lemma failure_run_snoc:
  "failure_run (es @ [e]) = (case e of Succeed \<Rightarrow> 0 | Fail _ \<Rightarrow> Suc (failure_run es) | _ \<Rightarrow> failure_run es)"
  by (cases e) (simp_all add: failure_run_def)

lemma open_step:
  assumes "cb_state s = Opened" "case event_time e of Some t \<Rightarrow> t < openedAtMs s + resetTimeoutMs cfg | None \<Rightarrow> True"
  shows "cb_state (cb_step cfg s e) = Opened \<and> openedAtMs (cb_step cfg s e) = openedAtMs s \<and> \<not> cb_admits cfg s e"
  using assms by (cases e) (auto simp: breaker_defs)

text \<open>
  An open breaker stays open and rejects every call until \<open>resetTimeoutMs\<close> has passed since
  it opened, whatever calls of before the opening still settle; the first call after that
  is let through as a probe, and its failure opens the breaker again while its success
  closes it.
\<close>

lemma breaker_open_until_reset:
  assumes "cb_state s = Opened" and "\<forall>e \<in> set es. \<forall>t. event_time e = Some t \<longrightarrow> t < openedAtMs s + resetTimeoutMs cfg"
    and "openedAtMs s + resetTimeoutMs cfg \<le> now" and "0 < halfOpenMaxCalls cfg"
  shows "cb_state (foldl (cb_step cfg) s es) = Opened \<and> set (cb_answers cfg s es) \<subseteq> {False}
    \<and> (let probe = tryAcquire cfg now (foldl (cb_step cfg) s es)
       in fst probe \<and> cb_state (snd probe) = HalfOpen \<and> cb_state (recordSuccess (snd probe)) = Closed
          \<and> cb_state (recordFailure cfg later (snd probe)) = Opened
          \<and> openedAtMs (recordFailure cfg later (snd probe)) = later)"
  using assms(1-3)
proof (induction es arbitrary: s)
  case Nil
  then show ?case using assms(4) by (simp add: breaker_defs)
next
  case (Cons e es)
  have "case event_time e of Some t \<Rightarrow> t < openedAtMs s + resetTimeoutMs cfg | None \<Rightarrow> True"
    using Cons.prems by (auto split: option.splits)
  note st = open_step [OF Cons.prems(1) this]
  have IH: "cb_state (foldl (cb_step cfg) (cb_step cfg s e) es) = Opened
      \<and> set (cb_answers cfg (cb_step cfg s e) es) \<subseteq> {False}
      \<and> (let probe = tryAcquire cfg now (foldl (cb_step cfg) (cb_step cfg s e) es)
         in fst probe \<and> cb_state (snd probe) = HalfOpen \<and> cb_state (recordSuccess (snd probe)) = Closed
            \<and> cb_state (recordFailure cfg later (snd probe)) = Opened
            \<and> openedAtMs (recordFailure cfg later (snd probe)) = later)"
    by (rule Cons.IH) (use st Cons.prems in auto)
  have "set (cb_answers cfg s (e # es)) \<subseteq> {False}"
    using IH st by (cases e) auto
  with IH show ?case by (simp only: foldl_Cons)
qed

lemma breaker_open_until_reset_example:
  "let s = recordFailure \<lparr>maxFailures = 1, resetTimeoutMs = 10, halfOpenMaxCalls = 1\<rparr> 5 new_breaker
   in cb_answers \<lparr>maxFailures = 1, resetTimeoutMs = 10, halfOpenMaxCalls = 1\<rparr> s [Acquire 6, Succeed, Acquire 14] = [False, False]
      \<and> fst (tryAcquire \<lparr>maxFailures = 1, resetTimeoutMs = 10, halfOpenMaxCalls = 1\<rparr> 15
          (foldl (cb_step \<lparr>maxFailures = 1, resetTimeoutMs = 10, halfOpenMaxCalls = 1\<rparr>) s [Acquire 6, Succeed, Acquire 14]))"
proof -
  let ?cfg = "\<lparr>maxFailures = 1, resetTimeoutMs = 10, halfOpenMaxCalls = 1\<rparr>"
  let ?s = "recordFailure ?cfg 5 new_breaker"
  have "fst (tryAcquire ?cfg 15 (foldl (cb_step ?cfg) ?s [Acquire 6, Succeed, Acquire 14]))"
    using breaker_open_until_reset [where s = ?s and cfg = ?cfg and es = "[Acquire 6, Succeed, Acquire 14]" and now = 15]
    by (simp add: Let_def breaker_defs new_breaker_def)
  then show ?thesis by (simp add: breaker_defs new_breaker_def)
qed

text \<open>
  A closed breaker trips exactly when \<open>maxFailures\<close> calls fail in a row: while no prefix of
  the outcomes ends in so many failures it stays closed, admits every call and counts the
  failures in a row; with the failure that completes the run it opens, at that time.
\<close>

lemma breaker_trips_on_consecutive_failures:
  assumes "\<forall>k < length es. int (failure_run (take k es)) < maxFailures cfg" "0 < maxFailures cfg"
  shows "consecutiveFailures (foldl (cb_step cfg) new_breaker es) = failure_run es
    \<and> cb_state (foldl (cb_step cfg) new_breaker es) =
        (if int (failure_run es) < maxFailures cfg then Closed else Opened)
    \<and> set (cb_answers cfg new_breaker es) \<subseteq> {True}"
  using assms(1)
proof (induction es rule: rev_induct)
  case Nil
  then show ?case using assms(2) by (simp add: new_breaker_def failure_run_def)
next
  case (snoc e es)
  have pre: "\<forall>k < length es. int (failure_run (take k es)) < maxFailures cfg"
  proof (intro allI impI)
    fix k assume "k < length es"
    with snoc.prems show "int (failure_run (take k es)) < maxFailures cfg" by (auto dest: spec [of _ k])
  qed
  have run: "int (failure_run es) < maxFailures cfg" using snoc.prems by (auto dest: spec [of _ "length es"])
  note IH = snoc.IH [OF pre]
  have ans: "cb_answers cfg s (xs @ [x]) = cb_answers cfg s xs
      @ (case x of Acquire t \<Rightarrow> [fst (tryAcquire cfg t (foldl (cb_step cfg) s xs))] | _ \<Rightarrow> [])" for s xs x
    by (induction xs arbitrary: s) (auto split: cb_event.splits)
  show ?case using IH run
    by (cases e) (auto simp: failure_run_snoc ans breaker_defs)
qed

lemma breaker_trips_on_consecutive_failures_example:
  "cb_state (foldl (cb_step \<lparr>maxFailures = 2, resetTimeoutMs = 10, halfOpenMaxCalls = 1\<rparr>) new_breaker
     [Acquire 0, Fail 1, Succeed, Fail 2, Fail 3]) = Opened"
proof -
  let ?es = "[Acquire 0, Fail 1, Succeed, Fail 2, Fail 3]"
  have "int (failure_run (take k ?es)) < 2" if "k < length ?es" for k
  proof -
    from that have "k \<in> {0, 1, 2, 3, 4}" by auto
    then show ?thesis by (auto simp: failure_run_def)
  qed
  then show ?thesis
    using breaker_trips_on_consecutive_failures [where es = ?es
        and cfg = "\<lparr>maxFailures = 2, resetTimeoutMs = 10, halfOpenMaxCalls = 1\<rparr>"]
    by (simp add: failure_run_def)
qed

end
