(* ===== verification/Call_Gateway.thy ===== *)
theory Call_Gateway
  imports Circuit_Breaker
begin

text \<open>
  \<open>core/call/gateway.ts\<close>: the semaphore, the race against the timer and \<open>execute\<close>. The
  semaphore's waiters are continuations that run after \<open>release\<close> has returned, so a step
  relation has the states in between: a woken waiter has not yet counted itself. The gateway is the
  semaphore, the breaker and the callers, each of them at one of the awaits of \<open>executeCall\<close>.
\<close>

section \<open>The semaphore\<close>

text \<open>
  Callers are numbered in order of arrival. \<open>woken\<close> are the waiters whose promise is resolved
  and whose continuation has not run; \<open>holders\<close> are the callers inside.
\<close>

record semaphore =
  inflight :: int
  queue :: "nat list"
  woken :: "nat list"
  holders :: "nat list"
  arrivals :: nat

definition new_semaphore :: semaphore where
  "new_semaphore = \<lparr>inflight = 0, queue = [], woken = [], holders = [], arrivals = 0\<rparr>"

definition sem_acquire :: "int \<Rightarrow> semaphore \<Rightarrow> semaphore" where
  "sem_acquire limit s0 =
     (let i = arrivals s0; s = s0\<lparr>arrivals := Suc i\<rparr>
      in if inflight s < limit then s\<lparr>inflight := inflight s + 1, holders := holders s @ [i]\<rparr>
         else s\<lparr>queue := queue s @ [i]\<rparr>)"

text \<open>The continuation of the oldest woken waiter.\<close>

definition sem_resume :: "semaphore \<Rightarrow> semaphore" where
  "sem_resume s =
     (case woken s of
        [] \<Rightarrow> s
      | i # is \<Rightarrow> s\<lparr>inflight := inflight s + 1, woken := is, holders := holders s @ [i]\<rparr>)"

definition sem_release :: "nat \<Rightarrow> semaphore \<Rightarrow> semaphore" where
  "sem_release i s0 =
     (let s = s0\<lparr>inflight := inflight s0 - 1, holders := remove1 i (holders s0)\<rparr>
      in case queue s of [] \<Rightarrow> s | n # q \<Rightarrow> s\<lparr>queue := q, woken := woken s @ [n]\<rparr>)"

text \<open>
  All interleavings. Without \<open>barging\<close> no caller arrives between a release and the
  continuation of the waiter it woke.
\<close>

inductive sem_run :: "int \<Rightarrow> bool \<Rightarrow> semaphore \<Rightarrow> bool" for limit barging where
  sem_new: "sem_run limit barging new_semaphore"
| sem_arrive: "sem_run limit barging s \<Longrightarrow> barging \<or> woken s = [] \<Longrightarrow> sem_run limit barging (sem_acquire limit s)"
| sem_resumed: "sem_run limit barging s \<Longrightarrow> sem_run limit barging (sem_resume s)"
| sem_leave: "sem_run limit barging s \<Longrightarrow> i \<in> set (holders s) \<Longrightarrow> sem_run limit barging (sem_release i s)"

definition sem_inv :: "int \<Rightarrow> semaphore \<Rightarrow> bool" where
  "sem_inv limit s \<longleftrightarrow> inflight s = int (length (holders s))
     \<and> (queue s \<noteq> [] \<longrightarrow> limit \<le> inflight s + int (length (woken s)))
     \<and> sorted_wrt (<) (woken s @ queue s) \<and> (\<forall>i \<in> set (woken s @ queue s). i < arrivals s)"

lemma sem_inv_run: "sem_run limit barging s \<Longrightarrow> sem_inv limit s"
proof (induction rule: sem_run.induct)
  case sem_new
  show ?case by (simp add: sem_inv_def new_semaphore_def)
next
  case (sem_arrive s)
  then show ?case by (auto simp: sem_inv_def sem_acquire_def Let_def sorted_wrt_append intro: less_SucI)
next
  case (sem_resumed s)
  then show ?case by (cases "woken s") (auto simp: sem_inv_def sem_resume_def sorted_wrt_append)
next
  case (sem_leave s i)
  then have "0 < length (holders s)" by (auto dest: length_pos_if_in_set)
  then have "int (length (holders s) - Suc 0) = int (length (holders s)) - 1" by linarith
  with sem_leave show ?case
    by (cases "queue s") (auto simp: sem_inv_def sem_release_def Let_def sorted_wrt_append length_remove1)
qed

lemma sem_bound_run: "sem_run limit barging s \<Longrightarrow> \<not> barging \<Longrightarrow> 0 \<le> limit \<Longrightarrow> inflight s + int (length (woken s)) \<le> limit"
proof (induction rule: sem_run.induct)
  case sem_new
  then show ?case by (simp add: new_semaphore_def)
next
  case (sem_arrive s)
  then show ?case by (auto simp: sem_acquire_def Let_def)
next
  case (sem_resumed s)
  then show ?case by (cases "woken s") (auto simp: sem_resume_def)
next
  case (sem_leave s i)
  then show ?case by (cases "queue s") (auto simp: sem_release_def Let_def)
qed

text \<open>
  The semaphore counts exactly the callers that are inside, no wakeup is lost (while a
  caller waits, the callers inside and the woken ones fill the limit), waiters are woken in
  the order of arrival, and as long as nobody arrives between a release and the
  continuation of the waiter it woke there are never more than \<open>limit\<close> callers inside.
\<close>

lemma semaphore_run_safe:
  assumes "sem_run limit barging s" "0 \<le> limit"
  shows "inflight s = int (length (holders s))
    \<and> (queue s \<noteq> [] \<longrightarrow> limit \<le> inflight s + int (length (woken s)))
    \<and> sorted_wrt (<) (woken s @ queue s)
    \<and> (\<not> barging \<longrightarrow> int (length (holders s)) \<le> limit)"
  using sem_inv_run [OF assms(1)] sem_bound_run [OF assms(1) _ assms(2)] by (auto simp: sem_inv_def)

text \<open>Limit 1: caller 0 is inside, 1 waits, 0 leaves, 1 goes in.\<close>

lemma semaphore_run_safe_example:
  "\<exists>s. sem_run 1 False s \<and> holders s = [1] \<and> int (length (holders s)) \<le> 1"
proof -
  let ?s = "sem_resume (sem_release 0 (sem_acquire 1 (sem_acquire 1 new_semaphore)))"
  have "sem_run 1 False (sem_acquire 1 (sem_acquire 1 new_semaphore))"
    by (rule sem_arrive [OF sem_arrive [OF sem_new]]) (simp_all add: new_semaphore_def sem_acquire_def Let_def)
  then have r: "sem_run 1 False ?s"
    by (intro sem_resumed, rule sem_leave) (simp add: new_semaphore_def sem_acquire_def Let_def)
  have h: "holders ?s = [1]"
    by (simp add: new_semaphore_def sem_acquire_def sem_release_def sem_resume_def Let_def)
  have "int (length (holders ?s)) \<le> 1" using semaphore_run_safe [OF r] by simp
  with r h show ?thesis by blast
qed

text \<open>
  With a caller that arrives in that moment the limit is exceeded: it sees the count of
  before the waiter's continuation.
\<close>

lemma semaphore_overshoot: "\<exists>s. sem_run 1 True s \<and> inflight s = 2 \<and> length (holders s) = 2"
proof -
  let ?s = "sem_resume (sem_acquire 1 (sem_release 0 (sem_acquire 1 (sem_acquire 1 new_semaphore))))"
  have "sem_run 1 True (sem_acquire 1 (sem_acquire 1 new_semaphore))"
    by (rule sem_arrive [OF sem_arrive [OF sem_new]]) simp_all
  then have "sem_run 1 True ?s"
    by (intro sem_resumed sem_arrive, rule sem_leave) (simp_all add: new_semaphore_def sem_acquire_def Let_def)
  moreover have "inflight ?s = 2" "length (holders ?s) = 2"
    by (simp_all add: new_semaphore_def sem_acquire_def sem_release_def sem_resume_def Let_def)
  ultimately show ?thesis by blast
qed

section \<open>A call in the gateway\<close>

record gateway_config =
  maxConcurrent :: int
  callTimeoutMs :: int
  circuitBreaker :: "breaker_config option"

text \<open>
  What happens to an operation that is racing against its timer, in order. Only the first event
  counts; \<open>call.execute\<close> may also throw before there is a promise to race.
\<close>

datatype 'resp race_event = OpResolves "'resp call_result" | OpRejects js_error | TimerFires

text \<open>An exception of the asynchronous code, or its result.\<close>

type_synonym 'resp gw_outcome = "js_error + 'resp call_result"

text \<open>
  Where a caller stands: waiting for a slot, with a slot and about to go on, racing, with the outcome
  of its \<open>op\<close>, with what \<open>executeCall\<close> will return or throw and the slot still held, or out.
\<close>

datatype 'resp gw_call =
    Queued | Inside | Racing | Won "'resp gw_outcome" | Leaving "'resp gw_outcome" | Finished "'resp gw_outcome"

text \<open>
  The rest of the state is history: the callers whose \<open>execute\<close> was called, those the breaker
  refused, those whose outcome the breaker was told, in order; what their \<open>execute\<close> threw, and what
  happened to their operations.
\<close>

record 'resp gateway =
  gw_sem :: semaphore
  gw_breaker :: "breaker option"
  gw_calls :: "nat \<Rightarrow> 'resp gw_call option"
  gw_started :: "nat list"
  gw_refused :: "nat list"
  gw_settled :: "nat list"
  gw_thrown :: "nat \<Rightarrow> js_error option"
  gw_seen :: "nat \<Rightarrow> 'resp race_event list"

definition createGateway :: "gateway_config \<Rightarrow> 'resp gateway" where
  "createGateway cfg = \<lparr>gw_sem = new_semaphore, gw_breaker = map_option (\<lambda>_. new_breaker) (circuitBreaker cfg),
     gw_calls = (\<lambda>_. None), gw_started = [], gw_refused = [], gw_settled = [], gw_thrown = (\<lambda>_. None), gw_seen = (\<lambda>_. [])\<rparr>"

text \<open>A call arrives at the semaphore; a woken waiter goes on.\<close>

definition gw_arrive :: "gateway_config \<Rightarrow> 'resp gateway \<Rightarrow> 'resp gateway" where
  "gw_arrive cfg g =
     (let i = arrivals (gw_sem g); s = sem_acquire (maxConcurrent cfg) (gw_sem g)
      in g\<lparr>gw_sem := s, gw_calls := (gw_calls g)(i \<mapsto> (if inflight (gw_sem g) < maxConcurrent cfg then Inside else Queued))\<rparr>)"

definition gw_resume :: "'resp gateway \<Rightarrow> 'resp gateway" where
  "gw_resume g =
     (case woken (gw_sem g) of
        [] \<Rightarrow> g
      | i # is \<Rightarrow> g\<lparr>gw_sem := sem_resume (gw_sem g), gw_calls := (gw_calls g)(i \<mapsto> Inside)\<rparr>)"

text \<open>The operation begins: \<open>thrown\<close> is what \<open>call.execute\<close> throws at once, if it does.\<close>

definition gw_start :: "js_error option \<Rightarrow> nat \<Rightarrow> 'resp gateway \<Rightarrow> 'resp gateway" where
  "gw_start thrown i g =
     g\<lparr>gw_started := gw_started g @ [i], gw_thrown := (gw_thrown g)(i := thrown),
       gw_calls := (gw_calls g)(i \<mapsto> (case thrown of Some e \<Rightarrow> Won (Inl e) | None \<Rightarrow> Racing))\<rparr>"

definition gw_enter :: "gateway_config \<Rightarrow> string \<Rightarrow> int \<Rightarrow> js_error option \<Rightarrow> nat \<Rightarrow> 'resp gateway \<Rightarrow> 'resp gateway" where
  "gw_enter cfg name now thrown i g =
     (case (circuitBreaker cfg, gw_breaker g) of
        (Some bc, Some br) \<Rightarrow>
          (case tryAcquire bc now br of
             (False, br1) \<Rightarrow> g\<lparr>gw_breaker := Some br1, gw_refused := gw_refused g @ [i],
               gw_calls := (gw_calls g)(i \<mapsto> Leaving (Inr (Inl (CircuitOpen name))))\<rparr>
           | (True, br1) \<Rightarrow> gw_start thrown i (g\<lparr>gw_breaker := Some br1\<rparr>))
      | _ \<Rightarrow> gw_start thrown i g)"

text \<open>The race: what it resolves to, turned into a result by \<open>op\<close>; a settled race ignores the rest.\<close>

fun gateway_op :: "gateway_config \<Rightarrow> 'resp race_event \<Rightarrow> 'resp call_result" where
  "gateway_op cfg TimerFires = Inl (TimeoutErr (callTimeoutMs cfg))"
| "gateway_op cfg (OpResolves v) = v"
| "gateway_op cfg (OpRejects e) = Inl (Custom (''gateway exec threw: '' @ error_string e))"

definition raceWithTimeout :: "gateway_config \<Rightarrow> nat \<Rightarrow> 'resp race_event \<Rightarrow> 'resp gateway \<Rightarrow> 'resp gateway" where
  "raceWithTimeout cfg i ev g =
     g\<lparr>gw_seen := (gw_seen g)(i := gw_seen g i @ [ev]),
       gw_calls := (case gw_calls g i of
                      Some Racing \<Rightarrow> (gw_calls g)(i \<mapsto> Won (Inr (gateway_op cfg ev)))
                    | _ \<Rightarrow> gw_calls g)\<rparr>"

text \<open>
  \<open>op\<close> has settled: \<open>protectEither\<close> tells the breaker, and an exception is thrown again unless
  it is a \<open>CircuitOpenError\<close>.
\<close>

definition counts_as_failure :: "'resp gw_outcome \<Rightarrow> bool" where
  "counts_as_failure r = (case r of Inl _ \<Rightarrow> True | Inr (Inl (CircuitOpen _)) \<Rightarrow> False | Inr (Inl _) \<Rightarrow> True | Inr (Inr _) \<Rightarrow> False)"

definition gw_catch :: "string \<Rightarrow> 'resp gw_outcome \<Rightarrow> 'resp gw_outcome" where
  "gw_catch name r = (case r of Inl (CircuitOpenError _) \<Rightarrow> Inr (Inl (CircuitOpen name)) | _ \<Rightarrow> r)"

definition gw_settle :: "gateway_config \<Rightarrow> string \<Rightarrow> int \<Rightarrow> nat \<Rightarrow> 'resp gateway \<Rightarrow> 'resp gateway" where
  "gw_settle cfg name now i g =
     (case gw_calls g i of
        Some (Won r) \<Rightarrow>
          (case (circuitBreaker cfg, gw_breaker g) of
             (Some bc, Some br) \<Rightarrow>
               g\<lparr>gw_breaker := Some (if counts_as_failure r then recordFailure bc now br else recordSuccess br),
                 gw_settled := gw_settled g @ [i],
                 gw_calls := (gw_calls g)(i \<mapsto> Leaving (gw_catch name r))\<rparr>
           | _ \<Rightarrow> g\<lparr>gw_settled := gw_settled g @ [i], gw_calls := (gw_calls g)(i \<mapsto> Leaving r)\<rparr>)
      | _ \<Rightarrow> g)"

text \<open>The two halves, before and after the operation, are \<open>protectEither\<close>.\<close>

lemma gateway_protects:
  "protectEither bc (CircuitOpen name) now (\<lambda>br. (r, during br)) (\<lambda>e. case e of CircuitOpen _ \<Rightarrow> False | _ \<Rightarrow> True) settled br =
     (case tryAcquire bc now br of
        (False, br1) \<Rightarrow> (Inr (Inl (CircuitOpen name)), br1)
      | (True, br1) \<Rightarrow>
          (r, if counts_as_failure r then recordFailure bc settled (during br1) else recordSuccess (during br1)))"
  by (auto simp: protectEither_def counts_as_failure_def split: prod.splits bool.splits sum.splits call_error.splits)

text \<open>The \<open>finally\<close> block.\<close>

definition gw_leave :: "nat \<Rightarrow> 'resp gateway \<Rightarrow> 'resp gateway" where
  "gw_leave i g =
     (case gw_calls g i of
        Some (Leaving r) \<Rightarrow> g\<lparr>gw_sem := sem_release i (gw_sem g), gw_calls := (gw_calls g)(i \<mapsto> Finished r)\<rparr>
      | _ \<Rightarrow> g)"

text \<open>
  Every interleaving of the callers. Without \<open>barging\<close> no caller arrives between a release and the
  continuation of the waiter it woke.
\<close>

inductive gateway_run :: "gateway_config \<Rightarrow> string \<Rightarrow> bool \<Rightarrow> 'resp gateway \<Rightarrow> bool" for cfg name barging where
  gw_new: "gateway_run cfg name barging (createGateway cfg)"
| gw_arrives: "gateway_run cfg name barging g \<Longrightarrow> barging \<or> woken (gw_sem g) = [] \<Longrightarrow> gateway_run cfg name barging (gw_arrive cfg g)"
| gw_resumes: "gateway_run cfg name barging g \<Longrightarrow> gateway_run cfg name barging (gw_resume g)"
| gw_enters: "gateway_run cfg name barging g \<Longrightarrow> gw_calls g i = Some Inside \<Longrightarrow>
    gateway_run cfg name barging (gw_enter cfg name now thrown i g)"
| gw_races: "gateway_run cfg name barging g \<Longrightarrow> i \<in> set (gw_started g) \<Longrightarrow> gw_thrown g i = None \<Longrightarrow>
    gateway_run cfg name barging (raceWithTimeout cfg i ev g)"
| gw_settles: "gateway_run cfg name barging g \<Longrightarrow> gateway_run cfg name barging (gw_settle cfg name now i g)"
| gw_leaves: "gateway_run cfg name barging g \<Longrightarrow> gateway_run cfg name barging (gw_leave i g)"

section \<open>What a gateway promises\<close>

text \<open>
  What a call that was made comes to, from what \<open>execute\<close> threw and what happened to its operation:
  the first event decides. \<open>guarded\<close> says whether there is a breaker, which turns a thrown
  \<open>CircuitOpenError\<close> into a result. The second function is what the breaker shall count as a failure.
\<close>

definition promised :: "gateway_config \<Rightarrow> string \<Rightarrow> bool \<Rightarrow> js_error option \<Rightarrow> 'resp race_event list \<Rightarrow> 'resp gw_outcome" where
  "promised cfg name guarded thrown seen =
     (case thrown of
        Some e \<Rightarrow> (case e of CircuitOpenError _ \<Rightarrow> if guarded then Inr (Inl (CircuitOpen name)) else Inl e | _ \<Rightarrow> Inl e)
      | None \<Rightarrow>
          (case seen of
             OpResolves v # _ \<Rightarrow> Inr v
           | OpRejects e # _ \<Rightarrow> Inr (Inl (Custom (''gateway exec threw: '' @ error_string e)))
           | _ \<Rightarrow> Inr (Inl (TimeoutErr (callTimeoutMs cfg)))))"

definition failed_call :: "js_error option \<Rightarrow> 'resp race_event list \<Rightarrow> bool" where
  "failed_call thrown seen \<longleftrightarrow> thrown \<noteq> None \<or>
     (case seen of
        OpResolves (Inr _) # _ \<Rightarrow> False
      | OpResolves (Inl (CircuitOpen _)) # _ \<Rightarrow> False
      | _ \<Rightarrow> True)"

definition race_decided :: "js_error option \<Rightarrow> 'resp race_event list \<Rightarrow> bool" where
  "race_decided thrown seen \<longleftrightarrow> thrown \<noteq> None \<or> seen \<noteq> []"

lemma promised_mono [simp]: "race_decided t seen \<Longrightarrow> promised cfg name b t (seen @ evs) = promised cfg name b t seen"
  by (cases t; cases seen) (simp_all add: race_decided_def promised_def)

lemma failed_call_mono [simp]: "race_decided t seen \<Longrightarrow> failed_call t (seen @ evs) = failed_call t seen"
  by (cases t; cases seen) (simp_all add: race_decided_def failed_call_def)

lemma race_decided_mono [simp]: "race_decided t seen \<Longrightarrow> race_decided t (seen @ evs)"
  by (auto simp: race_decided_def)

lemma failed_counts: "race_decided t seen \<Longrightarrow> counts_as_failure (promised cfg name False t seen) = failed_call t seen"
  by (cases t; cases seen)
    (auto simp: race_decided_def failed_call_def promised_def counts_as_failure_def
      split: js_error.splits race_event.splits sum.splits call_error.splits)

lemma promised_guarded:
  "promised cfg name True t seen = gw_catch name (promised cfg name False t seen)"
  by (auto simp: promised_def gw_catch_def split: js_error.splits race_event.splits option.splits list.splits)

section \<open>The invariant\<close>

text \<open>The slots: who holds one, who waits for one, who has not arrived.\<close>

fun holding :: "'resp gw_call option \<Rightarrow> bool" where
  "holding None = False"
| "holding (Some Queued) = False"
| "holding (Some (Finished _)) = False"
| "holding (Some _) = True"

definition slots_ok :: "semaphore \<Rightarrow> (nat \<Rightarrow> 'resp gw_call option) \<Rightarrow> bool" where
  "slots_ok s calls \<longleftrightarrow> distinct (holders s)
     \<and> (\<forall>i. i \<in> set (holders s) \<longleftrightarrow> holding (calls i))
     \<and> (\<forall>i. i \<in> set (woken s @ queue s) \<longleftrightarrow> calls i = Some Queued)
     \<and> (\<forall>i. calls i = None \<longleftrightarrow> arrivals s \<le> i)"

text \<open>A caller and the histories it appears in.\<close>

definition call_ok ::
  "gateway_config \<Rightarrow> string \<Rightarrow> nat set \<Rightarrow> nat set \<Rightarrow> nat set \<Rightarrow> js_error option \<Rightarrow> 'resp race_event list \<Rightarrow>
   nat \<Rightarrow> 'resp gw_call option \<Rightarrow> bool" where
  "call_ok cfg name st rf se thrown seen i c =
     (let over = (\<lambda>r. (i \<in> rf \<and> i \<notin> st \<and> i \<notin> se \<and> circuitBreaker cfg \<noteq> None \<and> r = Inr (Inl (CircuitOpen name)))
            \<or> (i \<in> st \<and> i \<notin> rf \<and> i \<in> se \<and> race_decided thrown seen
                \<and> r = promised cfg name (circuitBreaker cfg \<noteq> None) thrown seen))
      in case c of
           Some Racing \<Rightarrow> i \<in> st \<and> i \<notin> rf \<and> i \<notin> se \<and> thrown = None \<and> seen = []
         | Some (Won r) \<Rightarrow> i \<in> st \<and> i \<notin> rf \<and> i \<notin> se \<and> race_decided thrown seen \<and> r = promised cfg name False thrown seen
         | Some (Leaving r) \<Rightarrow> over r
         | Some (Finished r) \<Rightarrow> over r
         | _ \<Rightarrow> i \<notin> st \<and> i \<notin> rf \<and> i \<notin> se \<and> thrown = None \<and> seen = [])"

text \<open>The breaker's counters against the history of the outcomes.\<close>

definition breaker_counts :: "nat list \<Rightarrow> (nat \<Rightarrow> bool) \<Rightarrow> nat list \<Rightarrow> breaker \<Rightarrow> bool" where
  "breaker_counts settled bad_call refused br \<longleftrightarrow>
     totalFailures br = length (filter bad_call settled) \<and> totalSuccesses br = length (filter (\<lambda>i. \<not> bad_call i) settled)
     \<and> totalRejections br = length refused \<and> consecutiveFailures br = length (takeWhile bad_call (rev settled))"

lemma breaker_counts_acquire:
  "breaker_counts se bad_call rf br \<Longrightarrow> tryAcquire bc now br = (True, br') \<Longrightarrow> breaker_counts se bad_call rf br'"
  "breaker_counts se bad_call rf br \<Longrightarrow> tryAcquire bc now br = (False, br') \<Longrightarrow> breaker_counts se bad_call (rf @ [i]) br'"
  by (auto simp: breaker_counts_def breaker_defs split: circuit_state.splits if_splits)

lemma breaker_counts_settle:
  "breaker_counts se bad_call rf br \<Longrightarrow>
     breaker_counts (se @ [i]) bad_call rf (if bad_call i then recordFailure bc now br else recordSuccess br)"
  by (auto simp: breaker_counts_def breaker_defs)

lemma breaker_counts_cong: "(\<And>i. i \<in> set se \<Longrightarrow> bad_call i = bad_call' i) \<Longrightarrow> breaker_counts se bad_call rf br = breaker_counts se bad_call' rf br"
proof -
  assume same: "\<And>i. i \<in> set se \<Longrightarrow> bad_call i = bad_call' i"
  have "takeWhile bad_call (rev se) = takeWhile bad_call' (rev se)" by (rule takeWhile_cong) (simp_all add: same)
  moreover have "filter bad_call se = filter bad_call' se" "filter (\<lambda>i. \<not> bad_call i) se = filter (\<lambda>i. \<not> bad_call' i) se"
    using same by (auto intro: filter_cong)
  ultimately show ?thesis by (simp add: breaker_counts_def)
qed

lemma slots_step:
  assumes "slots_ok s calls" "calls i = Some c" "holding (Some c)" "holding (Some c')"
  shows "slots_ok s (calls(i \<mapsto> c'))"
proof -
  have "c \<noteq> Queued" "c' \<noteq> Queued" using assms(3,4) by auto
  moreover have "\<not> arrivals s \<le> i" using assms(1,2) unfolding slots_ok_def by (metis option.distinct(1))
  ultimately show ?thesis using assms unfolding slots_ok_def by (auto split: if_splits)
qed

lemma slots_arrive:
  assumes "slots_ok s calls"
  shows "slots_ok (sem_acquire limit s) (calls(arrivals s \<mapsto> (if inflight s < limit then Inside else Queued)))"
proof -
  have none: "calls (arrivals s) = None" using assms unfolding slots_ok_def by blast
  then have "\<not> holding (calls (arrivals s))" "arrivals s \<notin> set (holders s)" "arrivals s \<notin> set (woken s @ queue s)"
    using assms unfolding slots_ok_def by (metis holding.simps(1), metis holding.simps(1), metis option.distinct(1))
  moreover have "Suc (arrivals s) \<le> i \<longleftrightarrow> arrivals s \<le> i \<and> i \<noteq> arrivals s" for i by linarith
  ultimately show ?thesis
    using assms unfolding slots_ok_def sem_acquire_def Let_def by (auto simp: none split: if_splits)
qed

lemma slots_resume:
  assumes "slots_ok s calls" "distinct (woken s @ queue s)" "woken s = i # is"
  shows "slots_ok (sem_resume s) (calls(i \<mapsto> Inside))"
proof -
  have i: "calls i = Some Queued" using assms(1,3) unfolding slots_ok_def by (metis append_is_Nil_conv hd_append2 hd_in_set list.distinct(1) list.sel(1))
  moreover have "\<not> arrivals s \<le> i" "i \<notin> set (holders s)"
    using i assms(1) unfolding slots_ok_def by (metis option.distinct(1), metis holding.simps(2))
  ultimately show ?thesis using assms unfolding slots_ok_def sem_resume_def by auto
qed

lemma slots_leave:
  assumes "slots_ok s calls" "calls i = Some (Leaving r)"
  shows "slots_ok (sem_release i s) (calls(i \<mapsto> Finished r))" and "i \<in> set (holders s)"
proof -
  show "i \<in> set (holders s)" using assms unfolding slots_ok_def by fastforce
  have "set (woken (sem_release i s) @ queue (sem_release i s)) = set (woken s @ queue s)"
    by (auto simp: sem_release_def Let_def split: list.splits)
  moreover have "holders (sem_release i s) = remove1 i (holders s)" "arrivals (sem_release i s) = arrivals s"
    by (simp_all add: sem_release_def Let_def split: list.splits)
  moreover have "\<not> arrivals s \<le> i" using assms unfolding slots_ok_def by (metis option.distinct(1))
  ultimately show "slots_ok (sem_release i s) (calls(i \<mapsto> Finished r))"
    using assms unfolding slots_ok_def by auto
qed

lemma gateway_slots:
  assumes "gateway_run cfg name barging g"
  shows "sem_run (maxConcurrent cfg) barging (gw_sem g) \<and> slots_ok (gw_sem g) (gw_calls g)"
  using assms
proof (induction rule: gateway_run.induct)
  case gw_new
  show ?case using sem_new by (simp add: createGateway_def) (simp add: slots_ok_def new_semaphore_def)
next
  case (gw_arrives g)
  then show ?case using slots_arrive [of "gw_sem g" "gw_calls g" "maxConcurrent cfg"] by (simp add: gw_arrive_def Let_def sem_arrive del: fun_upd_apply cong: if_cong)
next
  case (gw_resumes g)
  then have "distinct (woken (gw_sem g) @ queue (gw_sem g))"
    using sem_inv_run [of _ _ "gw_sem g"] strict_sorted_iff unfolding sem_inv_def by blast
  with gw_resumes slots_resume [of "gw_sem g" "gw_calls g"] show ?case
    by (auto simp: gw_resume_def sem_resumed fun_upd_def split: list.splits)
next
  case (gw_enters g i now thrown)
  then show ?case
    by (auto simp: gw_enter_def gw_start_def slots_step [unfolded fun_upd_def] slots_step split: option.splits prod.splits bool.splits)
next
  case (gw_races g i ev)
  then show ?case by (auto simp: raceWithTimeout_def slots_step [unfolded fun_upd_def] slots_step split: option.splits gw_call.splits)
next
  case (gw_settles g now i)
  then show ?case by (auto simp: gw_settle_def slots_step [unfolded fun_upd_def] slots_step split: option.splits gw_call.splits)
next
  case (gw_leaves g i)
  then show ?case by (auto simp: gw_leave_def slots_leave slots_leave [unfolded fun_upd_def] sem_leave split: option.splits gw_call.splits)
qed

text \<open>Each caller and its history.\<close>

definition calls_ok :: "gateway_config \<Rightarrow> string \<Rightarrow> 'resp gateway \<Rightarrow> bool" where
  "calls_ok cfg name g \<longleftrightarrow>
     (\<forall>i. call_ok cfg name (set (gw_started g)) (set (gw_refused g)) (set (gw_settled g)) (gw_thrown g i) (gw_seen g i) i (gw_calls g i))
     \<and> distinct (gw_started g) \<and> distinct (gw_refused g) \<and> distinct (gw_settled g)
     \<and> (gw_breaker g = None \<longleftrightarrow> circuitBreaker cfg = None)"

lemma calls_okD: "calls_ok cfg name g \<Longrightarrow>
  call_ok cfg name (set (gw_started g)) (set (gw_refused g)) (set (gw_settled g)) (gw_thrown g i) (gw_seen g i) i (gw_calls g i)"
  by (simp add: calls_ok_def)

lemma call_ok_cong:
  "(i \<in> st) = (i \<in> st') \<Longrightarrow> (i \<in> rf) = (i \<in> rf') \<Longrightarrow> (i \<in> se) = (i \<in> se') \<Longrightarrow>
     call_ok cfg name st rf se t sn i c = call_ok cfg name st' rf' se' t sn i c"
  by (simp only: call_ok_def)

lemma calls_ok_change:
  assumes "calls_ok cfg name g"
    and "call_ok cfg name (set (gw_started g')) (set (gw_refused g')) (set (gw_settled g')) (gw_thrown g' i) (gw_seen g' i) i (gw_calls g' i)"
    and "\<And>j. j \<noteq> i \<Longrightarrow> gw_calls g' j = gw_calls g j \<and> gw_thrown g' j = gw_thrown g j \<and> gw_seen g' j = gw_seen g j
      \<and> (j \<in> set (gw_started g') \<longleftrightarrow> j \<in> set (gw_started g)) \<and> (j \<in> set (gw_refused g') \<longleftrightarrow> j \<in> set (gw_refused g))
      \<and> (j \<in> set (gw_settled g') \<longleftrightarrow> j \<in> set (gw_settled g))"
    and "distinct (gw_started g')" "distinct (gw_refused g')" "distinct (gw_settled g')" "gw_breaker g' = None \<longleftrightarrow> gw_breaker g = None"
  shows "calls_ok cfg name g'"
proof -
  have "call_ok cfg name (set (gw_started g')) (set (gw_refused g')) (set (gw_settled g')) (gw_thrown g' j) (gw_seen g' j) j (gw_calls g' j)" for j
  proof (cases "j = i")
    case False
    note same = assms(3) [OF this]
    have "call_ok cfg name (set (gw_started g')) (set (gw_refused g')) (set (gw_settled g')) (gw_thrown g j) (gw_seen g j) j (gw_calls g j)"
      by (rule iffD1 [OF call_ok_cong calls_okD [OF assms(1)]]) (use same in blast)+
    with same show ?thesis by simp
  qed (use assms(2) in simp)
  with assms(1,4-7) show ?thesis by (simp add: calls_ok_def)
qed

lemmas call_ok_cases = call_ok_def Let_def

lemma gateway_calls:
  assumes "gateway_run cfg name barging g"
  shows "calls_ok cfg name g"
  using assms
proof (induction rule: gateway_run.induct)
  case gw_new
  show ?case by (simp add: createGateway_def calls_ok_def call_ok_def)
next
  case (gw_arrives g)
  have none: "gw_calls g (arrivals (gw_sem g)) = None"
    using gateway_slots [OF gw_arrives.hyps(1)] unfolding slots_ok_def by blast
  show ?case
    using calls_okD [OF gw_arrives.IH, of "arrivals (gw_sem g)"] gw_arrives.IH none
    by (intro calls_ok_change [OF gw_arrives.IH, of _ "arrivals (gw_sem g)"])
      (simp_all add: gw_arrive_def Let_def call_ok_cases calls_ok_def)
next
  case (gw_resumes g)
  show ?case
  proof (cases "woken (gw_sem g)")
    case Nil
    then show ?thesis using gw_resumes.IH by (simp add: gw_resume_def)
  next
    case (Cons i rest)
    then have "i \<in> set (woken (gw_sem g) @ queue (gw_sem g))" by simp
    then have "gw_calls g i = Some Queued"
      using gateway_slots [OF gw_resumes.hyps(1)] unfolding slots_ok_def by blast
    then show ?thesis
      using calls_okD [OF gw_resumes.IH, of i] gw_resumes.IH Cons
      by (intro calls_ok_change [OF gw_resumes.IH, of _ i])
        (simp_all add: gw_resume_def call_ok_cases calls_ok_def)
  qed
next
  case (gw_enters g i now thrown)
  have st: "calls_ok cfg name (gw_start thrown i g')"
    if "gw_calls g' = gw_calls g" "gw_started g' = gw_started g" "gw_refused g' = gw_refused g" "gw_settled g' = gw_settled g"
      "gw_thrown g' = gw_thrown g" "gw_seen g' = gw_seen g" "gw_breaker g' = None \<longleftrightarrow> circuitBreaker cfg = None" for g'
    using calls_okD [OF gw_enters.IH, of i] gw_enters that
    by (intro calls_ok_change [OF gw_enters.IH, of _ i])
      (auto simp: gw_start_def call_ok_cases calls_ok_def race_decided_def promised_def split: option.splits js_error.splits)
  show ?case
  proof (cases "circuitBreaker cfg")
    case None
    then show ?thesis using st [of g] gw_enters.IH by (simp add: gw_enter_def calls_ok_def)
  next
    case (Some bc)
    then obtain br where br: "gw_breaker g = Some br" using gw_enters.IH by (auto simp: calls_ok_def)
    obtain ad br1 where acq: "tryAcquire bc now br = (ad, br1)" by fastforce
    show ?thesis
    proof (cases ad)
      case True
      then show ?thesis using st [of "g\<lparr>gw_breaker := Some br1\<rparr>"] Some br acq by (simp add: gw_enter_def)
    next
      case False
      then show ?thesis
        using calls_okD [OF gw_enters.IH, of i] gw_enters Some br acq
        by (intro calls_ok_change [OF gw_enters.IH, of _ i])
          (auto simp: gw_enter_def call_ok_cases calls_ok_def)
    qed
  qed
next
  case (gw_races g i ev)
  have old: "call_ok cfg name (set (gw_started g)) (set (gw_refused g)) (set (gw_settled g)) None (gw_seen g i) i (gw_calls g i)"
    using calls_okD [OF gw_races.IH, of i] gw_races.hyps(3) by simp
  have "call_ok cfg name (set (gw_started g)) (set (gw_refused g)) (set (gw_settled g)) None (gw_seen g i @ [ev]) i
      (gw_calls (raceWithTimeout cfg i ev g) i)"
    using old gw_races.hyps(2)
    by (cases "gw_calls g i"; cases "the (gw_calls g i)"; cases ev)
      (auto simp: raceWithTimeout_def call_ok_cases race_decided_def promised_def split: list.splits)
  then show ?case
    using gw_races.IH gw_races.hyps(3)
    by (intro calls_ok_change [OF gw_races.IH, of _ i])
      (auto simp: raceWithTimeout_def calls_ok_def fun_eq_iff split: option.splits gw_call.splits)
next
  case (gw_settles g now i)
  show ?case
  proof (cases "\<exists>r. gw_calls g i = Some (Won r)")
    case False
    then have "gw_settle cfg name now i g = g" by (auto simp: gw_settle_def split: option.splits gw_call.splits)
    with gw_settles.IH show ?thesis by simp
  next
    case True
    then obtain r where w: "gw_calls g i = Some (Won r)" by blast
    have "call_ok cfg name (set (gw_started g)) (set (gw_refused g)) (set (gw_settled g @ [i])) (gw_thrown g i) (gw_seen g i) i
        (Some (Leaving (promised cfg name (circuitBreaker cfg \<noteq> None) (gw_thrown g i) (gw_seen g i))))"
      using calls_okD [OF gw_settles.IH, of i] w by (auto simp: call_ok_cases)
    moreover have "i \<notin> set (gw_settled g)" "r = promised cfg name False (gw_thrown g i) (gw_seen g i)"
      using calls_okD [OF gw_settles.IH, of i] w by (auto simp: call_ok_cases)
    ultimately show ?thesis
      using gw_settles.IH w
      by (intro calls_ok_change [OF gw_settles.IH, of _ i])
        (auto simp: gw_settle_def calls_ok_def promised_guarded [of _ _ "gw_thrown g i"] split: option.splits)
  qed
next
  case (gw_leaves g i)
  show ?case
  proof (cases "\<exists>r. gw_calls g i = Some (Leaving r)")
    case False
    then have "gw_leave i g = g" by (auto simp: gw_leave_def split: option.splits gw_call.splits)
    with gw_leaves.IH show ?thesis by simp
  next
    case True
    then obtain r where l: "gw_calls g i = Some (Leaving r)" by blast
    show ?thesis
      using calls_okD [OF gw_leaves.IH, of i] gw_leaves.IH l
      by (intro calls_ok_change [OF gw_leaves.IH, of _ i])
        (auto simp: gw_leave_def call_ok_cases calls_ok_def)
  qed
qed

text \<open>The breaker has counted what the calls came to.\<close>

definition bad_call :: "'resp gateway \<Rightarrow> nat \<Rightarrow> bool" where
  "bad_call g i \<longleftrightarrow> failed_call (gw_thrown g i) (gw_seen g i)"

lemma settled_decided: "calls_ok cfg name g \<Longrightarrow> i \<in> set (gw_settled g) \<Longrightarrow> race_decided (gw_thrown g i) (gw_seen g i)"
  using calls_okD [of cfg name g i] by (auto simp: call_ok_cases split: option.splits gw_call.splits)

lemma gateway_counts:
  assumes "gateway_run cfg name barging g"
  shows "\<forall>br. gw_breaker g = Some br \<longrightarrow> breaker_counts (gw_settled g) (bad_call g) (gw_refused g) br"
  using assms
proof (induction rule: gateway_run.induct)
  case gw_new
  show ?case by (simp add: createGateway_def breaker_counts_def new_breaker_def)
next
  case (gw_arrives g)
  then show ?case by (simp add: gw_arrive_def Let_def bad_call_def [abs_def])
next
  case (gw_resumes g)
  then show ?case by (simp add: gw_resume_def bad_call_def [abs_def] split: list.splits)
next
  case (gw_enters g i now thrown)
  have new: "i \<notin> set (gw_settled g)"
    using calls_okD [OF gateway_calls [OF gw_enters.hyps(1)], of i] gw_enters.hyps(2) by (simp add: call_ok_cases)
  have same: "breaker_counts (gw_settled g) (\<lambda>j. failed_call (((gw_thrown g)(i := thrown)) j) (gw_seen g j)) rf br
      = breaker_counts (gw_settled g) (bad_call g) rf br" for rf br
    using new by (intro breaker_counts_cong) (auto simp: bad_call_def)
  show ?case
    using gw_enters.IH same breaker_counts_acquire [of "gw_settled g" "bad_call g" "gw_refused g"]
    by (auto simp: gw_enter_def gw_start_def bad_call_def [abs_def] split: option.splits prod.splits bool.splits)
next
  case (gw_races g i ev)
  have "bad_call (raceWithTimeout cfg i ev g) j = bad_call g j" if "j \<in> set (gw_settled g)" for j
    using settled_decided [OF gateway_calls [OF gw_races.hyps(1)] that] by (cases "j = i") (simp_all add: bad_call_def raceWithTimeout_def)
  then have "breaker_counts (gw_settled g) (bad_call (raceWithTimeout cfg i ev g)) rf br = breaker_counts (gw_settled g) (bad_call g) rf br" for rf br
    by (rule breaker_counts_cong)
  with gw_races.IH show ?case by (simp add: raceWithTimeout_def)
next
  case (gw_settles g now i)
  have "bad_call (gw_settle cfg name now i g) = bad_call g"
    by (simp add: bad_call_def fun_eq_iff gw_settle_def split: option.splits gw_call.splits)
  moreover have "counts_as_failure r = bad_call g i" if "gw_calls g i = Some (Won r)" for r
    using calls_okD [OF gateway_calls [OF gw_settles.hyps(1)], of i] that failed_counts by (auto simp: call_ok_cases bad_call_def)
  ultimately show ?case
    using gw_settles.IH gateway_calls [OF gw_settles.hyps(1)] breaker_counts_settle [of "gw_settled g" "bad_call g" "gw_refused g"]
    by (auto simp: gw_settle_def calls_ok_def split: option.splits gw_call.splits)
next
  case (gw_leaves g i)
  then show ?case by (simp add: gw_leave_def bad_call_def [abs_def] split: option.splits gw_call.splits)
qed

text \<open>
  C39. Every call through a gateway, in every interleaving of the callers and whatever happens to
  their operations: (1) the semaphore counts exactly the callers between their slot and their end,
  so a slot is given back whatever way a call ends, also when \<open>execute\<close> throws; a caller waits only
  while the slots are taken or promised to woken waiters, and as long as nobody arrives between a
  release and the continuation of the waiter it woke, at most \<open>maxConcurrent\<close> callers are inside.
  (2) \<open>execute\<close> is called at most once per caller, and not for one that the breaker refuses. (3) A
  caller that is out got what is promised: one that was refused \<open>circuit_open\<close> with the gateway's
  name; one whose \<open>execute\<close> threw that exception again (a \<open>CircuitOpenError\<close> becomes a result when
  there is a breaker); any other the value or the error its operation resolved to, an error for a
  rejection, or a timeout, whichever came first. (4) The breaker's counters are exact: its failures
  are the exceptions, timeouts, rejections and errors other than \<open>circuit_open\<close>.
\<close>

theorem gateway_run_safe:
  assumes "gateway_run cfg name barging g" "0 \<le> maxConcurrent cfg"
  shows "inflight (gw_sem g) = int (card {i. holding (gw_calls g i)})
    \<and> (gw_calls g i = Some Queued \<longleftrightarrow> i \<in> set (woken (gw_sem g) @ queue (gw_sem g)))
    \<and> (queue (gw_sem g) \<noteq> [] \<longrightarrow> maxConcurrent cfg \<le> inflight (gw_sem g) + int (length (woken (gw_sem g))))
    \<and> (\<not> barging \<longrightarrow> inflight (gw_sem g) \<le> maxConcurrent cfg)
    \<and> distinct (gw_started g) \<and> set (gw_started g) \<inter> set (gw_refused g) = {}
    \<and> (gw_calls g i = Some (Finished r) \<longrightarrow>
        (if i \<in> set (gw_refused g) then circuitBreaker cfg \<noteq> None \<and> r = Inr (Inl (CircuitOpen name))
         else i \<in> set (gw_started g) \<and> race_decided (gw_thrown g i) (gw_seen g i)
           \<and> r = promised cfg name (circuitBreaker cfg \<noteq> None) (gw_thrown g i) (gw_seen g i)))
    \<and> (gw_breaker g = Some br \<longrightarrow> totalRejections br = length (gw_refused g)
        \<and> totalFailures br = length (filter (\<lambda>i. failed_call (gw_thrown g i) (gw_seen g i)) (gw_settled g))
        \<and> totalSuccesses br = length (filter (\<lambda>i. \<not> failed_call (gw_thrown g i) (gw_seen g i)) (gw_settled g))
        \<and> consecutiveFailures br = length (takeWhile (\<lambda>i. failed_call (gw_thrown g i) (gw_seen g i)) (rev (gw_settled g))))"
proof -
  note sem = gateway_slots [OF assms(1), THEN conjunct1] and slots = gateway_slots [OF assms(1), THEN conjunct2]
    and calls = gateway_calls [OF assms(1)]
  have "{i. holding (gw_calls g i)} = set (holders (gw_sem g))" using slots by (auto simp: slots_ok_def)
  then have n: "int (card {i. holding (gw_calls g i)}) = int (length (holders (gw_sem g)))"
    using slots by (simp add: slots_ok_def distinct_card)
  have q: "gw_calls g i = Some Queued \<longleftrightarrow> i \<in> set (woken (gw_sem g) @ queue (gw_sem g))"
    using slots unfolding slots_ok_def by blast
  have once: "j \<notin> set (gw_started g) \<or> j \<notin> set (gw_refused g)" for j
    using calls_okD [OF calls, of j] by (auto simp: call_ok_cases split: option.splits gw_call.splits)
  have out: "if i \<in> set (gw_refused g) then circuitBreaker cfg \<noteq> None \<and> r = Inr (Inl (CircuitOpen name))
     else i \<in> set (gw_started g) \<and> race_decided (gw_thrown g i) (gw_seen g i)
       \<and> r = promised cfg name (circuitBreaker cfg \<noteq> None) (gw_thrown g i) (gw_seen g i)" if "gw_calls g i = Some (Finished r)"
    using calls_okD [OF calls, of i] that by (auto simp: call_ok_cases)
  note counts = gateway_counts [OF assms(1), rule_format, of br, unfolded breaker_counts_def bad_call_def [abs_def]]
  show ?thesis
    using semaphore_run_safe [OF sem assms(2)] n q once out counts calls unfolding calls_ok_def by auto
qed

text \<open>
  One slot and a breaker. The first call throws at once, the second one times out and its answer comes
  too late: both have given their slot back, and the breaker has counted two failures.
\<close>

definition one_slot :: gateway_config where
  "one_slot = \<lparr>maxConcurrent = 1, callTimeoutMs = 9, circuitBreaker = Some defaultCircuitBreakerConfig\<rparr>"

definition two_calls :: "nat gateway" where
  "two_calls =
     (let enter = gw_enter one_slot ''gw'' 0; settle = gw_settle one_slot ''gw'' 0; race = raceWithTimeout one_slot;
          g1 = gw_leave 0 (settle 0 (enter (Some (JsError ''boom'')) 0 (gw_arrive one_slot (gw_arrive one_slot (createGateway one_slot)))));
          g2 = settle 1 (race 1 (OpResolves (Inr 7)) (race 1 TimerFires (enter None 1 (gw_resume g1))))
      in gw_leave 1 g2)"

theorem gateway_run_safe_witness:
  "\<exists>g :: nat gateway. gateway_run one_slot ''gw'' False g \<and> gw_calls g 0 = Some (Finished (Inl (JsError ''boom'')))
     \<and> gw_calls g 1 = Some (Finished (Inr (Inl (TimeoutErr 9)))) \<and> inflight (gw_sem g) \<le> 1
     \<and> promised one_slot ''gw'' True None [TimerFires, OpResolves (Inr (7 :: nat))] = Inr (Inl (TimeoutErr 9))"
proof -
  have a: "gateway_run one_slot ''gw'' False (gw_arrive one_slot (gw_arrive one_slot (createGateway one_slot)))"
    by (intro gw_arrives gw_new) (simp_all add: createGateway_def one_slot_def gw_arrive_def new_semaphore_def sem_acquire_def Let_def)
  have r: "gateway_run one_slot ''gw'' False two_calls"
    unfolding two_calls_def Let_def
    by (intro gw_leaves gw_settles gw_races gw_enters gw_resumes a) (code_simp)+
  have f: "gw_calls two_calls 0 = Some (Finished (Inl (JsError ''boom'')))"
    "gw_calls two_calls 1 = Some (Finished (Inr (Inl (TimeoutErr 9))))" by code_simp+
  have "circuitBreaker one_slot \<noteq> None" "1 \<notin> set (gw_refused two_calls)" "gw_thrown two_calls 1 = None"
    "gw_seen two_calls 1 = [TimerFires, OpResolves (Inr 7)]" "maxConcurrent one_slot = 1" by code_simp+
  with gateway_run_safe [OF r, of 1 "Inr (Inl (TimeoutErr 9))"] r f show ?thesis by auto
qed

end
