(* ===== verification/Call_Slot.thy ===== *)
theory Call_Slot
  imports Entity_Runner Call_Gateway
begin

text \<open>
  \<open>core/call/slot.ts\<close>: one durable call as part of an aggregate. The slot's functions return
  effects; the side effects they carry are the closures \<open>slot_fx\<close>, which execute the gateway
  and tell the entity the outcome, or arm the retry timer. \<open>slot_run\<close> is an entity that
  forwards its callbacks, retry commands and events to the slot, with crashes at any moment.
\<close>

section \<open>The slot\<close>

record ('cmd, 's, 'ev, 'req, 'resp) slot_opts =
  sl_policy :: retry_policy
  sl_isRetryable :: "call_error \<Rightarrow> bool"
  sl_timerId :: string
  getPhase :: "'s \<Rightarrow> 'resp call_phase"
  setPhase :: "'s \<Rightarrow> 'resp call_phase \<Rightarrow> 's"
  getRequest :: "'s \<Rightarrow> 'req"
  wrapEvent :: "('req, 'resp) lifecycle_event \<Rightarrow> 'ev"
  wrapCallback :: "'resp call_outcome \<Rightarrow> 'cmd"
  retryCmd :: 'cmd

text \<open>The closures: an execution of the gateway (which function made it names it), the timer.\<close>

datatype 'req slot_fx = FireCall 'req string nat string | ArmTimer rat

text \<open>What the gateway answers: it throws, or returns a result.\<close>

type_synonym 'resp gateway_answer = "js_error + 'resp call_result"

definition outcome_of :: "string \<Rightarrow> nat \<Rightarrow> 'resp gateway_answer \<Rightarrow> 'resp call_outcome" where
  "outcome_of who attempt answer =
     (case answer of
        Inr (Inr v) \<Rightarrow> OSuccess v attempt
      | Inr (Inl e) \<Rightarrow> OFailure e attempt
      | Inl x \<Rightarrow> OFailure (Custom (''slot '' @ who @ '' threw: '' @ error_string x)) attempt)"

fun slot_sideEffect ::
  "('cmd, 's, 'ev, 'req, 'resp) slot_opts \<Rightarrow> 'resp gateway_answer \<Rightarrow> 'req slot_fx \<Rightarrow> 'cmd ctx_call list" where
  "slot_sideEffect opts answer (FireCall req callId attempt who) =
     [TellSelf (wrapCallback opts (outcome_of who attempt answer))]"
| "slot_sideEffect opts answer (ArmTimer delay) = [ScheduleOnce (sl_timerId opts) (retryCmd opts) delay]"

definition fireOnce :: "('cmd, 's, 'ev, 'req, 'resp) slot_opts \<Rightarrow> 's \<Rightarrow> 'req slot_fx list" where
  "fireOnce opts s =
     (case getPhase opts s of
        Pending callId attempt _ \<Rightarrow> [FireCall (getRequest opts s) callId attempt ''fire'']
      | _ \<Rightarrow> [])"

definition slot_initiate ::
  "('cmd, 's, 'ev, 'req, 'resp) slot_opts \<Rightarrow> rat \<Rightarrow> 's \<Rightarrow> string \<Rightarrow> ('ev, 'r, 'req slot_fx, 'df) effect" where
  "slot_initiate opts now s callId =
     andRun (persist [wrapEvent opts (CallInitiated callId (getRequest opts s) 1 now)])
       (FireCall (getRequest opts s) callId 1 ''fire'')"

definition handleCallback ::
  "('cmd, 's, 'ev, 'req, 'resp) slot_opts \<Rightarrow> rat \<Rightarrow> 's \<Rightarrow> 'resp call_outcome \<Rightarrow> ('ev, 'r, 'req slot_fx, 'df) effect" where
  "handleCallback opts now s result =
     (case getPhase opts s of
        Pending callId attempt _ \<Rightarrow>
          (case result of
             OSuccess response _ \<Rightarrow>
               persist [wrapEvent opts (CallSucceeded callId response attempt now)]
           | OFailure err _ \<Rightarrow>
               (let retryable = sl_isRetryable opts err;
                    moreAttemptsLeft = attempt < maxAttempts (sl_policy opts)
                in if retryable \<and> moreAttemptsLeft
                   then (let delay = delayFor (sl_policy opts) attempt
                         in andRun (persist [wrapEvent opts
                              (CallFailed callId (errorToString err) attempt True (Some (now + delay)))])
                              (ArmTimer delay))
                   else if \<not> retryable
                   then persist [wrapEvent opts (CallFailed callId (errorToString err) attempt False None)]
                   else persist [wrapEvent opts (CallExhausted callId (errorToString err) attempt)]))
      | _ \<Rightarrow> persist [])"

definition handleRetry ::
  "('cmd, 's, 'ev, 'req, 'resp) slot_opts \<Rightarrow> rat \<Rightarrow> 's \<Rightarrow> ('ev, 'r, 'req slot_fx, 'df) effect" where
  "handleRetry opts now s =
     (case getPhase opts s of
        RetryScheduled callId attempt _ \<Rightarrow>
          (let nextAttempt = attempt + 1
           in andRun (persist [wrapEvent opts (CallInitiated callId (getRequest opts s) nextAttempt now)])
                (FireCall (getRequest opts s) callId nextAttempt ''retry''))
      | _ \<Rightarrow> persist [])"

definition slot_applyEvent ::
  "('cmd, 's, 'ev, 'req, 'resp) slot_opts \<Rightarrow> 's \<Rightarrow> ('req, 'resp) lifecycle_event \<Rightarrow> 's" where
  "slot_applyEvent opts s event =
     (case event of
        CallInitiated callId _ attempt epochMs \<Rightarrow> setPhase opts s (Pending callId attempt epochMs)
      | CallSucceeded _ response _ epochMs \<Rightarrow> setPhase opts s (Succeeded response epochMs)
      | CallFailed evCallId err attempt willRetry nextRetryAt \<Rightarrow>
          (case (willRetry, nextRetryAt) of
             (True, Some nextAt) \<Rightarrow>
               (let callId = (case getPhase opts s of
                      Pending c _ _ \<Rightarrow> c | RetryScheduled c _ _ \<Rightarrow> c | _ \<Rightarrow> evCallId)
                in setPhase opts s (RetryScheduled callId attempt nextAt))
           | _ \<Rightarrow> setPhase opts s (PermanentFailure err))
      | CallExhausted _ lastError totalAttempts \<Rightarrow> setPhase opts s (Exhausted lastError totalAttempts))"

definition slot_recover ::
  "('cmd, 's, 'ev, 'req, 'resp) slot_opts \<Rightarrow> rat \<Rightarrow> 's \<Rightarrow> 'req slot_fx list" where
  "slot_recover opts now s =
     (case getPhase opts s of
        Pending callId attempt _ \<Rightarrow> [FireCall (getRequest opts s) callId attempt ''recover'']
      | RetryScheduled _ _ nextAt \<Rightarrow> [ArmTimer (max 0 (nextAt - now))]
      | _ \<Rightarrow> [])"

section \<open>The entity around the slot\<close>

text \<open>
  What the aggregate does with the slot: \<open>hs_apply\<close> hands wrapped events to it and
  \<open>hs_callback\<close> recognises its callback commands.
\<close>

record ('cmd, 's, 'ev, 'resp) slot_host =
  hs_apply :: "'s \<Rightarrow> 'ev \<Rightarrow> 's"
  hs_callback :: "'cmd \<Rightarrow> 'resp call_outcome option"

definition slot_host_ok ::
  "('cmd, 's, 'ev, 'req, 'resp) slot_opts \<Rightarrow> ('cmd, 's, 'ev, 'resp) slot_host \<Rightarrow> bool" where
  "slot_host_ok opts h \<longleftrightarrow> (\<forall>s p. getPhase opts (setPhase opts s p) = p)
     \<and> (\<forall>s e. hs_apply h s (wrapEvent opts e) = slot_applyEvent opts s e)
     \<and> (\<forall>r. hs_callback h (wrapCallback opts r) = Some r)"

record ('cmd, 's) slot_world =
  sw_state :: 's
  sw_inbox :: "'cmd list"
  sw_timer :: bool
  sw_fired :: "(string \<times> nat) list"
  sw_crashes :: nat

fun ctx_world :: "('cmd, 's) slot_world \<Rightarrow> 'cmd ctx_call \<Rightarrow> ('cmd, 's) slot_world" where
  "ctx_world w (TellSelf c) = w\<lparr>sw_inbox := sw_inbox w @ [c]\<rparr>"
| "ctx_world w (ScheduleOnce _ _ _) = w\<lparr>sw_timer := True\<rparr>"
| "ctx_world w _ = w"

definition run_fx ::
  "('cmd, 's, 'ev, 'req, 'resp) slot_opts \<Rightarrow> 'resp gateway_answer \<Rightarrow> ('cmd, 's) slot_world \<Rightarrow> 'req slot_fx \<Rightarrow>
   ('cmd, 's) slot_world" where
  "run_fx opts answer w fx =
     foldl ctx_world
       (case fx of FireCall _ callId attempt _ \<Rightarrow> w\<lparr>sw_fired := sw_fired w @ [(callId, attempt)]\<rparr> | ArmTimer _ \<Rightarrow> w)
       (slot_sideEffect opts answer fx)"

fun slot_exec ::
  "('cmd, 's, 'ev, 'req, 'resp) slot_opts \<Rightarrow> ('cmd, 's, 'ev, 'resp) slot_host \<Rightarrow> 'resp gateway_answer \<Rightarrow>
   ('ev, 'r, 'req slot_fx, 'df) effect \<Rightarrow> ('cmd, 's) slot_world \<Rightarrow> ('cmd, 's) slot_world" where
  "slot_exec opts h answer (Persist es k) w =
     slot_exec opts h answer k (w\<lparr>sw_state := foldl (hs_apply h) (sw_state w) es\<rparr>)"
| "slot_exec opts h answer (Run fx k) w = slot_exec opts h answer k (run_fx opts answer w fx)"
| "slot_exec opts h answer _ w = w"

type_synonym ('ev, 'req) slot_effect = "('ev, unit, 'req slot_fx, unit) effect"

text \<open>The host starts a call, a callback or the timer arrives, the process dies and recovers.\<close>

definition world_initiate where
  "world_initiate opts h now callId answer w =
     slot_exec opts h answer (slot_initiate opts now (sw_state w) callId :: (_, _) slot_effect) w"

definition world_deliver where
  "world_deliver opts h now answer w =
     (case sw_inbox w of
        [] \<Rightarrow> w
      | c # cs \<Rightarrow>
          (case hs_callback h c of
             None \<Rightarrow> w\<lparr>sw_inbox := cs\<rparr>
           | Some r \<Rightarrow> slot_exec opts h answer
               (handleCallback opts now (sw_state w) r :: (_, _) slot_effect) (w\<lparr>sw_inbox := cs\<rparr>)))"

definition world_tick where
  "world_tick opts h now answer w =
     slot_exec opts h answer (handleRetry opts now (sw_state w) :: (_, _) slot_effect) (w\<lparr>sw_timer := False\<rparr>)"

definition world_crash where
  "world_crash opts now answer w =
     foldl (run_fx opts answer) (w\<lparr>sw_inbox := [], sw_timer := False, sw_crashes := Suc (sw_crashes w)\<rparr>)
       (slot_recover opts now (sw_state w))"

inductive slot_run ::
  "('cmd, 's, 'ev, 'req, 'resp) slot_opts \<Rightarrow> ('cmd, 's, 'ev, 'resp) slot_host \<Rightarrow> string \<Rightarrow> ('cmd, 's) slot_world \<Rightarrow> bool"
  for opts h callId where
  slot_new: "getPhase opts s = Idle \<Longrightarrow>
     slot_run opts h callId \<lparr>sw_state = s, sw_inbox = [], sw_timer = False, sw_fired = [], sw_crashes = 0\<rparr>"
| slot_started: "slot_run opts h callId w \<Longrightarrow> getPhase opts (sw_state w) = Idle \<Longrightarrow>
     slot_run opts h callId (world_initiate opts h now callId answer w)"
| slot_delivered: "slot_run opts h callId w \<Longrightarrow> sw_inbox w \<noteq> [] \<Longrightarrow>
     slot_run opts h callId (world_deliver opts h now answer w)"
| slot_ticked: "slot_run opts h callId w \<Longrightarrow> sw_timer w \<Longrightarrow>
     slot_run opts h callId (world_tick opts h now answer w)"
| slot_crashed: "slot_run opts h callId w \<Longrightarrow> slot_run opts h callId (world_crash opts now answer w)"

section \<open>What a run keeps\<close>

text \<open>
  While the call is pending exactly one callback is on its way, while a retry is scheduled
  the timer is armed, and otherwise nothing is outstanding.
\<close>

definition phase_owes ::
  "('cmd, 's, 'ev, 'req, 'resp) slot_opts \<Rightarrow> string \<Rightarrow> ('cmd, 's) slot_world \<Rightarrow> bool" where
  "phase_owes opts callId w =
     (case getPhase opts (sw_state w) of
        Idle \<Rightarrow> sw_inbox w = [] \<and> \<not> sw_timer w \<and> sw_fired w = []
      | Pending c n _ \<Rightarrow> (\<exists>r. sw_inbox w = [wrapCallback opts r]) \<and> \<not> sw_timer w \<and> c = callId
          \<and> 1 \<le> n \<and> n \<le> maxAttempts (sl_policy opts) \<and> length (sw_fired w) \<le> n + sw_crashes w
      | RetryScheduled c n _ \<Rightarrow> sw_inbox w = [] \<and> sw_timer w \<and> c = callId
          \<and> n < maxAttempts (sl_policy opts) \<and> length (sw_fired w) \<le> n + sw_crashes w
      | _ \<Rightarrow> sw_inbox w = [] \<and> \<not> sw_timer w
          \<and> length (sw_fired w) \<le> maxAttempts (sl_policy opts) + sw_crashes w)"

definition slot_inv where
  "slot_inv opts callId w \<longleftrightarrow> phase_owes opts callId w \<and> (\<forall>x \<in> set (sw_fired w). fst x = callId)"

lemmas slot_world_defs = world_initiate_def world_deliver_def world_tick_def world_crash_def
  slot_initiate_def handleCallback_def handleRetry_def slot_recover_def slot_applyEvent_def
  effect_ctor_defs effect_and_defs run_fx_def Let_def

lemma slot_inv_initiate:
  assumes "slot_host_ok opts h" "slot_inv opts callId w" "getPhase opts (sw_state w) = Idle"
    "1 \<le> maxAttempts (sl_policy opts)"
  shows "slot_inv opts callId (world_initiate opts h now callId answer w)"
  using assms by (auto simp: slot_inv_def phase_owes_def slot_host_ok_def slot_world_defs)

lemma slot_inv_deliver:
  assumes "slot_host_ok opts h" "slot_inv opts callId w" "sw_inbox w \<noteq> []"
  shows "slot_inv opts callId (world_deliver opts h now answer w)"
proof -
  from assms obtain n t r where p: "getPhase opts (sw_state w) = Pending callId n t" "sw_inbox w = [wrapCallback opts r]"
    by (auto simp: slot_inv_def phase_owes_def split: call_phase.splits)
  with assms show ?thesis
    by (cases r) (auto simp: slot_inv_def phase_owes_def slot_host_ok_def slot_world_defs)
qed

lemma slot_inv_tick:
  assumes "slot_host_ok opts h" "slot_inv opts callId w" "sw_timer w"
  shows "slot_inv opts callId (world_tick opts h now answer w)"
proof -
  from assms obtain n t where p: "getPhase opts (sw_state w) = RetryScheduled callId n t"
    by (auto simp: slot_inv_def phase_owes_def split: call_phase.splits)
  with assms show ?thesis
    by (auto simp: slot_inv_def phase_owes_def slot_host_ok_def slot_world_defs)
qed

lemma slot_inv_crash:
  assumes "slot_inv opts callId w"
  shows "slot_inv opts callId (world_crash opts now answer w)"
  using assms
  by (cases "getPhase opts (sw_state w)") (auto simp: slot_inv_def phase_owes_def slot_world_defs)

lemma slot_run_inv:
  assumes "slot_run opts h callId w" "slot_host_ok opts h" "1 \<le> maxAttempts (sl_policy opts)"
  shows "slot_inv opts callId w"
  using assms(1)
proof (induction rule: slot_run.induct)
  case (slot_new s)
  then show ?case by (simp add: slot_inv_def phase_owes_def)
qed (use assms(2,3) in \<open>auto intro: slot_inv_initiate slot_inv_deliver slot_inv_tick slot_inv_crash\<close>)

text \<open>
  C21. A durable call is never lost and never tried too often: in every run, with crashes at any
  moment, a pending call has exactly one callback on its way, a scheduled retry has its timer
  armed and nothing else is outstanding; every execution of the gateway uses the one call id;
  and there are at most \<open>maxAttempts\<close> executions and one more for each crash.
\<close>

theorem slot_run_safe:
  assumes "slot_run opts h callId w" "slot_host_ok opts h" "1 \<le> maxAttempts (sl_policy opts)"
  shows "(\<forall>x \<in> set (sw_fired w). fst x = callId)
    \<and> length (sw_fired w) \<le> maxAttempts (sl_policy opts) + sw_crashes w
    \<and> (case getPhase opts (sw_state w) of
         Pending c n _ \<Rightarrow> c = callId \<and> n \<le> maxAttempts (sl_policy opts) \<and> length (sw_inbox w) = 1 \<and> \<not> sw_timer w
       | RetryScheduled c n _ \<Rightarrow> c = callId \<and> n < maxAttempts (sl_policy opts) \<and> sw_inbox w = [] \<and> sw_timer w
       | _ \<Rightarrow> sw_inbox w = [] \<and> \<not> sw_timer w)"
  using slot_run_inv [OF assms] by (auto simp: slot_inv_def phase_owes_def split: call_phase.splits)

text \<open>A host whose whole state is the phase.\<close>

definition demo_slot :: "(unit call_outcome option, unit call_phase, (unit, unit) lifecycle_event, unit, unit) slot_opts" where
  "demo_slot = \<lparr>sl_policy = default_retry_policy, sl_isRetryable = isTransient, sl_timerId = ''t'',
     getPhase = (\<lambda>s. s), setPhase = (\<lambda>s p. p), getRequest = (\<lambda>_. ()), wrapEvent = (\<lambda>e. e),
     wrapCallback = Some, retryCmd = None\<rparr>"

definition demo_host :: "(unit call_outcome option, unit call_phase, (unit, unit) lifecycle_event, unit) slot_host" where
  "demo_host = \<lparr>hs_apply = slot_applyEvent demo_slot, hs_callback = (\<lambda>c. c)\<rparr>"

definition demo_world :: "(unit call_outcome option, unit call_phase) slot_world" where
  "demo_world = world_deliver demo_slot demo_host 7 (Inr (Inr ()))
     (world_initiate demo_slot demo_host 5 ''c1'' (Inr (Inl (TimeoutErr 9)))
       \<lparr>sw_state = Idle, sw_inbox = [], sw_timer = False, sw_fired = [], sw_crashes = 0\<rparr>)"

lemma demo_host_ok: "slot_host_ok demo_slot demo_host"
  by (simp add: slot_host_ok_def demo_slot_def demo_host_def)

lemma demo_initiated:
  "world_initiate demo_slot demo_host 5 ''c1'' (Inr (Inl (TimeoutErr 9)))
     \<lparr>sw_state = Idle, sw_inbox = [], sw_timer = False, sw_fired = [], sw_crashes = 0\<rparr> =
   \<lparr>sw_state = Pending ''c1'' 1 5, sw_inbox = [Some (OFailure (TimeoutErr 9) 1)], sw_timer = False,
    sw_fired = [(''c1'', 1)], sw_crashes = 0\<rparr>"
  by (simp add: slot_world_defs demo_slot_def demo_host_def outcome_of_def)

lemma demo_run_slot: "slot_run demo_slot demo_host ''c1'' demo_world"
proof -
  have "slot_run demo_slot demo_host ''c1'' (world_initiate demo_slot demo_host 5 ''c1'' (Inr (Inl (TimeoutErr 9)))
       \<lparr>sw_state = Idle, sw_inbox = [], sw_timer = False, sw_fired = [], sw_crashes = 0\<rparr>)"
    by (rule slot_started [OF slot_new]) (simp_all add: demo_slot_def)
  then show ?thesis unfolding demo_world_def
    by (rule slot_delivered) (simp add: demo_initiated)
qed

lemma demo_world_eval: "sw_state demo_world = RetryScheduled ''c1'' 1 1007"
  unfolding demo_world_def demo_initiated
  by (simp add: slot_world_defs demo_slot_def demo_host_def default_retry_policy_def delayFor_def fibonacci_def)

theorem slot_run_safe_witness:
  "slot_run demo_slot demo_host ''c1'' demo_world \<and> sw_state demo_world = RetryScheduled ''c1'' 1 1007
    \<and> sw_timer demo_world"
proof -
  have "1 \<le> maxAttempts (sl_policy demo_slot)" by (simp add: demo_slot_def default_retry_policy_def)
  moreover have "getPhase demo_slot (sw_state demo_world) = RetryScheduled ''c1'' 1 1007"
    by (simp add: demo_world_eval) (simp add: demo_slot_def)
  ultimately have "sw_timer demo_world"
    using slot_run_safe [OF demo_run_slot demo_host_ok] by simp
  with demo_run_slot demo_world_eval show ?thesis by blast
qed

section \<open>Every call comes to an end\<close>

text \<open>One step of a process that does not crash: handle the callback, or fire the timer.\<close>

definition slot_next where
  "slot_next opts h now answer w =
     (if sw_inbox w \<noteq> [] then world_deliver opts h now answer w
      else if sw_timer w then world_tick opts h now answer w else w)"

fun slot_drive where
  "slot_drive opts h [] w = w"
| "slot_drive opts h ((now, answer) # xs) w = slot_drive opts h xs (slot_next opts h now answer w)"

fun steps_left :: "nat \<Rightarrow> 'resp call_phase \<Rightarrow> nat" where
  "steps_left m (Pending _ n _) = Suc (2 * (m - n))"
| "steps_left m (RetryScheduled _ n _) = 2 * (m - n)"
| "steps_left m _ = 0"

abbreviation world_left where
  "world_left opts w \<equiv> steps_left (maxAttempts (sl_policy opts)) (getPhase opts (sw_state w))"

lemma slot_next_run: "slot_run opts h callId w \<Longrightarrow> slot_run opts h callId (slot_next opts h now answer w)"
  by (auto simp: slot_next_def intro: slot_delivered slot_ticked)

lemma slot_next_left:
  assumes "slot_host_ok opts h" "slot_inv opts callId w"
  shows "world_left opts (slot_next opts h now answer w) \<le> world_left opts w - 1
    \<and> (getPhase opts (sw_state w) \<noteq> Idle \<longrightarrow> getPhase opts (sw_state (slot_next opts h now answer w)) \<noteq> Idle)"
proof (cases "getPhase opts (sw_state w)")
  case (Pending c n t)
  with assms obtain r where "sw_inbox w = [wrapCallback opts r]" by (auto simp: slot_inv_def phase_owes_def)
  with Pending assms show ?thesis
    by (cases r) (auto simp: slot_next_def slot_host_ok_def slot_world_defs)
next
  case (RetryScheduled c n t)
  with assms have "sw_inbox w = []" "sw_timer w" "n < maxAttempts (sl_policy opts)"
    by (auto simp: slot_inv_def phase_owes_def)
  with RetryScheduled assms show ?thesis
    by (auto simp: slot_next_def slot_host_ok_def slot_world_defs)
qed (use assms in \<open>auto simp: slot_next_def slot_inv_def phase_owes_def\<close>)

lemma slot_drive_left:
  assumes "slot_run opts h callId w" "slot_host_ok opts h" "1 \<le> maxAttempts (sl_policy opts)"
  shows "world_left opts (slot_drive opts h xs w) \<le> world_left opts w - length xs
    \<and> slot_run opts h callId (slot_drive opts h xs w)
    \<and> (getPhase opts (sw_state w) \<noteq> Idle \<longrightarrow> getPhase opts (sw_state (slot_drive opts h xs w)) \<noteq> Idle)"
  using assms(1)
proof (induction xs arbitrary: w)
  case (Cons x xs)
  obtain now answer where x: "x = (now, answer)" by (cases x)
  note r = slot_next_run [OF Cons.prems, of now answer]
  note l = slot_next_left [OF assms(2) slot_run_inv [OF Cons.prems assms(2,3)], of now answer]
  from Cons.IH [OF r] l show ?case by (auto simp: x)
qed simp

text \<open>
  C22. A durable call that was started ends: whatever the gateway answers and whenever, in every
  run, after at most \<open>2 * maxAttempts\<close> callbacks and timer ticks without a crash the phase is
  terminal (succeeded, failed for good, or exhausted) and nothing is outstanding.
\<close>

theorem slot_call_ends:
  assumes "slot_run opts h callId w" "slot_host_ok opts h" "1 \<le> maxAttempts (sl_policy opts)"
    and "getPhase opts (sw_state w) \<noteq> Idle" "2 * maxAttempts (sl_policy opts) \<le> length xs"
  shows "isTerminal (getPhase opts (sw_state (slot_drive opts h xs w)))
    \<and> sw_inbox (slot_drive opts h xs w) = [] \<and> \<not> sw_timer (slot_drive opts h xs w)"
proof -
  let ?w = "slot_drive opts h xs w"
  note d = slot_drive_left [OF assms(1-3), of xs]
  note i = slot_run_inv [OF assms(1-3)] slot_run_inv [OF conjunct1 [OF conjunct2 [OF d]] assms(2,3)]
  have "world_left opts w \<le> 2 * maxAttempts (sl_policy opts)"
    using i(1) by (cases "getPhase opts (sw_state w)") (auto simp: slot_inv_def phase_owes_def)
  with d assms(5) have "world_left opts ?w = 0" by linarith
  with d assms(4) i(2) show ?thesis
    by (cases "getPhase opts (sw_state ?w)") (auto simp: slot_inv_def phase_owes_def)
qed

theorem slot_call_ends_witness:
  "isTerminal (sw_state (slot_drive demo_slot demo_host (replicate 20 (9, Inr (Inl (TimeoutErr 9)))) demo_world))"
proof -
  have "1 \<le> maxAttempts (sl_policy demo_slot)" "getPhase demo_slot (sw_state demo_world) \<noteq> Idle"
    "2 * maxAttempts (sl_policy demo_slot) \<le> length (replicate 20 (9 :: rat, Inr (Inl (TimeoutErr 9)) :: unit gateway_answer))"
    by (simp_all add: demo_world_eval) (simp_all add: demo_slot_def default_retry_policy_def)
  from slot_call_ends [OF demo_run_slot demo_host_ok this] show ?thesis by (simp add: demo_slot_def)
qed

end
