(* ===== verification/Petri_Flow.thy ===== *)
theory Petri_Flow
  imports Prelude "HOL-Library.Multiset"
begin

text \<open>
  \<open>petrinet/types.ts\<close> and \<open>executable-flow.ts\<close>: places that hold tokens, transitions that
  consume and produce them, and the immutable operations on a flow. A token is its tag and
  whatever else it carries. The time provider is read once per operation and is an argument.
  \<open>flow_run\<close> is a flow whose operations are applied in any order with any arguments, with a ledger of its tokens.
\<close>

section \<open>Places, transitions, flows\<close>

record 'd token =
  tk_tag :: string
  tk_data :: 'd

datatype place_type = Inbound | Outbound | Internal

datatype transition_state = NotStarted | Ongoing | Completed | Failed

record place_def =
  pd_id :: string
  pd_accepts :: "string list"
  pd_type :: place_type

record transition_def =
  td_id :: string
  td_from :: string
  td_consumes :: "string list"
  td_to :: "(string, string) jsmap"

record 'd place =
  pl_id :: string
  pl_accepts :: "string list"
  pl_type :: place_type
  pl_tokens :: "'d token list"
  pl_lastSpan :: "string option"

record 'd transition =
  tr_id :: string
  tr_from :: string
  tr_consumes :: "string list"
  tr_consumed :: "'d token list option"
  tr_produces :: "(string, string) jsmap"
  tr_produced :: "'d token list"
  tr_state :: transition_state
  tr_retryAttempts :: nat
  tr_nextRetryAt :: "int option"

definition placeDef :: "string \<Rightarrow> string list \<Rightarrow> place_type \<Rightarrow> place_def" where
  "placeDef i accepts ty = \<lparr>pd_id = i, pd_accepts = js_set_of accepts, pd_type = ty\<rparr>"

definition transitionDef :: "string \<Rightarrow> string \<Rightarrow> string list \<Rightarrow> (string \<times> string) list \<Rightarrow> transition_def" where
  "transitionDef i src consumes routes =
     \<lparr>td_id = i, td_from = src, td_consumes = js_set_of consumes, td_to = js_of_list routes\<rparr>"

definition placeInstanceFromDef :: "place_def \<Rightarrow> 'd place" where
  "placeInstanceFromDef d = \<lparr>pl_id = pd_id d, pl_accepts = pd_accepts d, pl_type = pd_type d, pl_tokens = [],
     pl_lastSpan = None\<rparr>"

definition transitionInstanceFromDef :: "transition_def \<Rightarrow> 'd transition" where
  "transitionInstanceFromDef d = \<lparr>tr_id = td_id d, tr_from = td_from d, tr_consumes = td_consumes d,
     tr_consumed = None, tr_produces = td_to d, tr_produced = [], tr_state = NotStarted,
     tr_retryAttempts = 0, tr_nextRetryAt = None\<rparr>"

record 'd flow =
  fl_id :: string
  fl_places :: "(string, 'd place) jsmap"
  fl_transitions :: "(string, 'd transition) jsmap"
  fl_updated :: int
  fl_seq :: nat
  fl_maxTransitionRetries :: int
  fl_backoffBaseMillis :: int

definition createExecutableFlow ::
  "int \<Rightarrow> string \<Rightarrow> (string, 'd place) jsmap \<Rightarrow> (string, 'd transition) jsmap \<Rightarrow> int option \<Rightarrow> int option \<Rightarrow> 'd flow" where
  "createExecutableFlow now i ps ts maxRetries backoff =
     \<lparr>fl_id = i, fl_places = ps, fl_transitions = ts, fl_updated = now, fl_seq = 0,
      fl_maxTransitionRetries = (case maxRetries of None \<Rightarrow> 10 | Some n \<Rightarrow> n),
      fl_backoffBaseMillis = (case backoff of None \<Rightarrow> 1 | Some n \<Rightarrow> n)\<rparr>"

section \<open>Update helpers\<close>

definition updatePlace :: "'d flow \<Rightarrow> string \<Rightarrow> ('d place \<Rightarrow> 'd place) \<Rightarrow> 'd flow" where
  "updatePlace flow placeId fn =
     (case js_get (fl_places flow) placeId of
        None \<Rightarrow> flow
      | Some p \<Rightarrow> flow\<lparr>fl_places := js_set placeId (fn p) (fl_places flow)\<rparr>)"

definition updateTransition :: "'d flow \<Rightarrow> string \<Rightarrow> ('d transition \<Rightarrow> 'd transition) \<Rightarrow> 'd flow" where
  "updateTransition flow transitionId fn =
     (case js_get (fl_transitions flow) transitionId of
        None \<Rightarrow> flow
      | Some t \<Rightarrow> flow\<lparr>fl_transitions := js_set transitionId (fn t) (fl_transitions flow)\<rparr>)"

definition tick :: "int \<Rightarrow> 'd flow \<Rightarrow> 'd flow" where
  "tick now flow = flow\<lparr>fl_updated := now, fl_seq := fl_seq flow + 1\<rparr>"

section \<open>Tokens\<close>

definition addToken :: "int \<Rightarrow> 'd flow \<Rightarrow> string \<Rightarrow> 'd token \<Rightarrow> string option \<Rightarrow> 'd flow" where
  "addToken now flow placeId tok spanId =
     (case js_get (fl_places flow) placeId of
        None \<Rightarrow> flow
      | Some place \<Rightarrow>
          (if tk_tag tok \<notin> set (pl_accepts place) then flow
           else tick now (updatePlace flow placeId (\<lambda>p. p\<lparr>pl_tokens := pl_tokens p @ [tok],
                  pl_lastSpan := (case spanId of None \<Rightarrow> pl_lastSpan p | Some i \<Rightarrow> Some i)\<rparr>))))"

definition addTokens :: "int \<Rightarrow> 'd flow \<Rightarrow> string \<Rightarrow> 'd token list \<Rightarrow> string option \<Rightarrow> 'd flow" where
  "addTokens now flow placeId tokens spanId = foldl (\<lambda>f tok. addToken now f placeId tok spanId) flow tokens"

definition withInitialTokens :: "int \<Rightarrow> 'd flow \<Rightarrow> (string \<times> 'd token) list \<Rightarrow> 'd flow" where
  "withInitialTokens now flow pairs = foldl (\<lambda>f (placeId, tok). addToken now f placeId tok None) flow pairs"

section \<open>Firing\<close>

definition transition_ready :: "int \<Rightarrow> 'd flow \<Rightarrow> 'd transition \<Rightarrow> 'd token list option" where
  "transition_ready now flow t =
     (if tr_state t = Ongoing then None
      else if (case tr_nextRetryAt t of None \<Rightarrow> False | Some at \<Rightarrow> now < at) then None
      else case js_get (fl_places flow) (tr_from t) of
             None \<Rightarrow> None
           | Some fromPlace \<Rightarrow>
               (if pl_tokens fromPlace = [] then None
                else if list_all (\<lambda>requiredTag. list_ex (\<lambda>x. tk_tag x = requiredTag) (pl_tokens fromPlace)) (tr_consumes t)
                then Some (pl_tokens fromPlace) else None))"

definition transitionsReady :: "int \<Rightarrow> 'd flow \<Rightarrow> ('d transition \<times> 'd token list) list" where
  "transitionsReady now flow =
     List.map_filter (\<lambda>t. map_option (Pair t) (transition_ready now flow t)) (js_values (fl_transitions flow))"

text \<open>\<open>findIndex\<close> and \<open>splice\<close>: the first token of a tag, and the list without it.\<close>

fun take_tag :: "string \<Rightarrow> 'd token list \<Rightarrow> 'd token list \<times> 'd token list" where
  "take_tag tg [] = ([], [])"
| "take_tag tg (x # xs) =
     (if tk_tag x = tg then ([x], xs) else let r = take_tag tg xs in (fst r, x # snd r))"

fun consume_tags :: "string list \<Rightarrow> 'd token list \<Rightarrow> 'd token list \<times> 'd token list" where
  "consume_tags [] remaining = ([], remaining)"
| "consume_tags (tg # tgs) remaining =
     (let r = take_tag tg remaining; r' = consume_tags tgs (snd r) in (fst r @ fst r', snd r'))"

definition recordTransitionStart :: "int \<Rightarrow> 'd flow \<Rightarrow> string \<Rightarrow> string \<Rightarrow> 'd flow" where
  "recordTransitionStart now flow fromPlaceId transitionId =
     (case js_get (fl_transitions flow) transitionId of
        None \<Rightarrow> flow
      | Some transition \<Rightarrow>
          (case js_get (fl_places flow) fromPlaceId of
             None \<Rightarrow> flow
           | Some place \<Rightarrow>
               (let r = consume_tags (tr_consumes transition) (pl_tokens place);
                    f1 = updatePlace flow fromPlaceId (\<lambda>p. p\<lparr>pl_tokens := snd r\<rparr>);
                    f2 = updateTransition f1 transitionId
                           (\<lambda>t. t\<lparr>tr_consumed := Some (fst r), tr_state := Ongoing\<rparr>)
                in tick now f2)))"

definition recordTransitionCompletion ::
  "int \<Rightarrow> 'd flow \<Rightarrow> string \<Rightarrow> (string, 'd token list) jsmap \<Rightarrow> string \<Rightarrow> 'd flow" where
  "recordTransitionCompletion now flow transitionId tokensByPlace spanId =
     (let f1 = foldl (\<lambda>f (placeId, tokens). foldl (\<lambda>g tok. addToken now g placeId tok (Some spanId)) f tokens)
                 flow tokensByPlace;
          allProduced = concat (js_values tokensByPlace);
          f2 = updateTransition f1 transitionId
                 (\<lambda>t. t\<lparr>tr_produced := allProduced, tr_state := Completed, tr_retryAttempts := 0,
                        tr_nextRetryAt := None\<rparr>)
      in tick now f2)"

definition flow_fibonacci :: "nat \<Rightarrow> nat" where
  "flow_fibonacci n = (if n \<le> 1 then 1 else fib_loop 1 1 (n - 2))"

definition recordTransitionFailure :: "int \<Rightarrow> 'd flow \<Rightarrow> string \<Rightarrow> string \<Rightarrow> 'd flow" where
  "recordTransitionFailure now flow transitionId fromPlaceId =
     (case js_get (fl_transitions flow) transitionId of
        None \<Rightarrow> flow
      | Some transition \<Rightarrow>
          (let consumed = (case tr_consumed transition of None \<Rightarrow> [] | Some c \<Rightarrow> c);
               f1 = updatePlace flow fromPlaceId (\<lambda>p. p\<lparr>pl_tokens := pl_tokens p @ consumed\<rparr>);
               nextAttempts = tr_retryAttempts transition + 1;
               f2 = (if int nextAttempts \<le> fl_maxTransitionRetries flow
                     then let delay = int (max 1 (flow_fibonacci nextAttempts)) * fl_backoffBaseMillis flow
                          in updateTransition f1 transitionId
                               (\<lambda>t. t\<lparr>tr_state := NotStarted, tr_retryAttempts := nextAttempts,
                                      tr_nextRetryAt := Some (now + delay)\<rparr>)
                     else updateTransition f1 transitionId
                            (\<lambda>t. t\<lparr>tr_state := Failed, tr_retryAttempts := nextAttempts,
                                   tr_nextRetryAt := None\<rparr>))
           in tick now f2))"

definition placeForResult :: "'d flow \<Rightarrow> string \<Rightarrow> 'd token \<Rightarrow> 'd place option" where
  "placeForResult flow transitionId tok =
     (case js_get (fl_transitions flow) transitionId of
        None \<Rightarrow> None
      | Some transition \<Rightarrow>
          (case js_get (tr_produces transition) (tk_tag tok) of
             None \<Rightarrow> None
           | Some placeId \<Rightarrow> if placeId = [] then None else js_get (fl_places flow) placeId))"

section \<open>The DOT graph\<close>

abbreviation dq :: string where "dq \<equiv> [CHR 0x22]"

definition toDotString :: "'d flow \<Rightarrow> string" where
  "toDotString flow =
     join_str [CHR 0x0A] (
       [''digraph '' @ dq @ fl_id flow @ dq @ '' {'']
       @ map (\<lambda>p. ''  '' @ dq @ pl_id p @ dq @ '' [shape=house, style=filled, penwidth=''
              @ (if pl_type p = Inbound \<or> pl_type p = Outbound then ''3'' else ''1'')
              @ '', fillcolor='' @ (if pl_tokens p \<noteq> [] then ''yellow'' else ''lightgray'')
              @ '', fontsize=10, label='' @ dq @ pl_id p @ dq @ ''];'') (js_values (fl_places flow))
       @ map (\<lambda>t. ''  '' @ dq @ tr_id t @ dq @ '' [shape=cds, style=filled, fillcolor=''
              @ (case tr_state t of NotStarted \<Rightarrow> ''white'' | Ongoing \<Rightarrow> ''lightyellow''
                  | Completed \<Rightarrow> ''lightgreen'' | Failed \<Rightarrow> ''lightred'')
              @ '', label='' @ dq @ tr_id t @ dq @ ''];'') (js_values (fl_transitions flow))
       @ concat (map (\<lambda>t.
              [''  '' @ dq @ tr_from t @ dq @ '' -> '' @ dq @ tr_id t @ dq @ '' [label='' @ dq
                 @ join_str '', '' (tr_consumes t) @ dq @ ''];'']
              @ map (\<lambda>(tokenTag, placeId). ''  '' @ dq @ tr_id t @ dq @ '' -> '' @ dq @ placeId @ dq
                   @ '' [label='' @ dq @ tokenTag @ dq @ ''];'') (tr_produces t))
            (js_values (fl_transitions flow)))
       @ [''}''])"

section \<open>Tokens are conserved\<close>

text \<open>The tokens of a flow: those in its places and those its ongoing transitions hold.\<close>

definition held_tokens :: "'d transition \<Rightarrow> 'd token list" where
  "held_tokens t = (if tr_state t = Ongoing then (case tr_consumed t of None \<Rightarrow> [] | Some c \<Rightarrow> c) else [])"

definition flow_tokens :: "'d flow \<Rightarrow> 'd token multiset" where
  "flow_tokens f = js_total (\<lambda>p. mset (pl_tokens p)) (fl_places f)
     + js_total (\<lambda>t. mset (held_tokens t)) (fl_transitions f)"

definition accepts :: "'d flow \<Rightarrow> string \<Rightarrow> 'd token \<Rightarrow> bool" where
  "accepts f placeId tok =
     (case js_get (fl_places f) placeId of None \<Rightarrow> False | Some p \<Rightarrow> tk_tag tok \<in> set (pl_accepts p))"

lemma flow_tokens_tick [simp]: "flow_tokens (tick now f) = flow_tokens f"
  by (simp add: flow_tokens_def tick_def)

lemma fl_tick [simp]:
  "fl_places (tick now f) = fl_places f" "fl_transitions (tick now f) = fl_transitions f"
  "fl_maxTransitionRetries (tick now f) = fl_maxTransitionRetries f"
  "fl_backoffBaseMillis (tick now f) = fl_backoffBaseMillis f"
  by (simp_all add: tick_def)

lemma fl_updatePlace [simp]:
  "fl_transitions (updatePlace f p fn) = fl_transitions f"
  "fl_maxTransitionRetries (updatePlace f p fn) = fl_maxTransitionRetries f"
  "fl_backoffBaseMillis (updatePlace f p fn) = fl_backoffBaseMillis f"
  "js_get (fl_places (updatePlace f p fn)) q =
     (if q = p then map_option fn (js_get (fl_places f) p) else js_get (fl_places f) q)"
  by (auto simp: updatePlace_def split: option.splits)

lemma fl_updateTransition [simp]:
  "fl_places (updateTransition f k fn) = fl_places f"
  "fl_maxTransitionRetries (updateTransition f k fn) = fl_maxTransitionRetries f"
  "fl_backoffBaseMillis (updateTransition f k fn) = fl_backoffBaseMillis f"
  "js_get (fl_transitions (updateTransition f k fn)) i =
     (if i = k then map_option fn (js_get (fl_transitions f) k) else js_get (fl_transitions f) i)"
  by (auto simp: updateTransition_def split: option.splits)

lemma flow_tokens_updatePlace:
  assumes "js_get (fl_places f) p = Some pl"
  shows "flow_tokens (updatePlace f p fn) + mset (pl_tokens pl) = flow_tokens f + mset (pl_tokens (fn pl))"
  using js_total_set [OF assms, of "\<lambda>p. mset (pl_tokens p)" "fn pl"] assms
  by (simp add: flow_tokens_def updatePlace_def ac_simps)

lemma flow_tokens_updateTransition:
  assumes "js_get (fl_transitions f) k = Some t"
  shows "flow_tokens (updateTransition f k fn) + mset (held_tokens t) = flow_tokens f + mset (held_tokens (fn t))"
  using js_total_set [OF assms, of "\<lambda>t. mset (held_tokens t)" "fn t"] assms
  by (simp add: flow_tokens_def updateTransition_def ac_simps)

lemma flow_tokens_addToken:
  "flow_tokens (addToken now f p tok s) = flow_tokens f + (if accepts f p tok then {#tok#} else {#})"
proof (cases "js_get (fl_places f) p")
  case (Some pl)
  then show ?thesis
    using flow_tokens_updatePlace [OF Some, of "\<lambda>p. p\<lparr>pl_tokens := pl_tokens p @ [tok],
                  pl_lastSpan := (case s of None \<Rightarrow> pl_lastSpan p | Some i \<Rightarrow> Some i)\<rparr>"]
    by (simp add: addToken_def accepts_def)
qed (simp add: addToken_def accepts_def)

lemma addToken_frame [simp]:
  "fl_transitions (addToken now f p tok s) = fl_transitions f"
  "accepts (addToken now f p tok s) = accepts f"
  "fl_maxTransitionRetries (addToken now f p tok s) = fl_maxTransitionRetries f"
  by (auto simp: addToken_def accepts_def fun_eq_iff split: option.splits)

lemma accepts_frame [simp]:
  "accepts (tick now f) = accepts f" "accepts (updateTransition f k fn) = accepts f"
  by (simp_all add: accepts_def fun_eq_iff)

text \<open>The tokens of a completion that their places accept.\<close>

definition accepted_tokens :: "'d flow \<Rightarrow> (string, 'd token list) jsmap \<Rightarrow> 'd token list" where
  "accepted_tokens f tokensByPlace = concat (map (\<lambda>(p, toks). filter (accepts f p) toks) tokensByPlace)"

abbreviation put_tokens where
  "put_tokens now spanId f tokensByPlace \<equiv>
     foldl (\<lambda>f (placeId, tokens). foldl (\<lambda>g tok. addToken now g placeId tok (Some spanId)) f tokens) f tokensByPlace"

lemma add_all_frame:
  "fl_transitions (foldl (\<lambda>g tok. addToken now g p tok s) f toks) = fl_transitions f
   \<and> accepts (foldl (\<lambda>g tok. addToken now g p tok s) f toks) = accepts f
   \<and> flow_tokens (foldl (\<lambda>g tok. addToken now g p tok s) f toks) = flow_tokens f + mset (filter (accepts f p) toks)"
  by (induction toks arbitrary: f) (simp_all add: flow_tokens_addToken ac_simps)

lemma put_tokens_frame:
  "fl_transitions (put_tokens now s f m) = fl_transitions f
   \<and> accepts (put_tokens now s f m) = accepts f
   \<and> flow_tokens (put_tokens now s f m) = flow_tokens f + mset (accepted_tokens f m)"
proof (induction m arbitrary: f)
  case (Cons x m)
  obtain p toks where x: "x = (p, toks)" by (cases x)
  let ?g = "foldl (\<lambda>g tok. addToken now g p tok (Some s)) f toks"
  have g: "fl_transitions ?g = fl_transitions f" "accepts ?g = accepts f"
    "flow_tokens ?g = flow_tokens f + mset (filter (accepts f p) toks)"
    using add_all_frame by blast+
  have "accepted_tokens ?g m = accepted_tokens f m" by (simp add: accepted_tokens_def g)
  with Cons.IH [of ?g] g show ?case by (simp add: x accepted_tokens_def ac_simps)
qed (simp add: accepted_tokens_def)

lemma take_tag_mset: "mset (fst (take_tag tg xs)) + mset (snd (take_tag tg xs)) = mset xs"
  by (induction xs) (auto simp: Let_def)

lemma consume_tags_mset: "mset (fst (consume_tags tgs xs)) + mset (snd (consume_tags tgs xs)) = mset xs"
proof (induction tgs arbitrary: xs)
  case (Cons tg tgs)
  show ?case using Cons [of "snd (take_tag tg xs)"] take_tag_mset [of tg xs]
    by (simp add: Let_def ac_simps)
qed simp

lemma take_tag_set: "set (fst (take_tag tg xs)) \<subseteq> set xs \<and> set (snd (take_tag tg xs)) \<subseteq> set xs"
  by (induction xs) (auto simp: Let_def)

lemma consume_tags_set: "set (fst (consume_tags tgs xs)) \<subseteq> set xs \<and> set (snd (consume_tags tgs xs)) \<subseteq> set xs"
proof (induction tgs arbitrary: xs)
  case (Cons tg tgs)
  show ?case using Cons [of "snd (take_tag tg xs)"] take_tag_set [of tg xs] by (auto simp: Let_def)
qed simp

text \<open>
  The operations as values, with what each of them enters in the ledger of the tokens: those it puts in (only
  what the place accepts), those that a completion uses up, those that get lost, and those that are doubled.
  A token gets lost when a transition that holds tokens is started again, or fails towards a place that is not
  there; it is doubled when a transition fails that does not hold its tokens any more.
\<close>

datatype 'd flow_op =
    AddTok string "'d token" "string option"
  | StartTr string string
  | CompleteTr string "(string, 'd token list) jsmap" string
  | FailTr string string

fun apply_op :: "int \<Rightarrow> 'd flow_op \<Rightarrow> 'd flow \<Rightarrow> 'd flow" where
  "apply_op now (AddTok p tok s) f = addToken now f p tok s"
| "apply_op now (StartTr p k) f = recordTransitionStart now f p k"
| "apply_op now (CompleteTr k m s) f = recordTransitionCompletion now f k m s"
| "apply_op now (FailTr k p) f = recordTransitionFailure now f k p"

definition held_by :: "'d flow \<Rightarrow> string \<Rightarrow> 'd token list" where
  "held_by f k = (case js_get (fl_transitions f) k of None \<Rightarrow> [] | Some t \<Rightarrow> held_tokens t)"

definition has_place :: "'d flow \<Rightarrow> string \<Rightarrow> bool" where
  "has_place f p = (js_get (fl_places f) p \<noteq> None)"

definition stale_tokens :: "'d flow \<Rightarrow> string \<Rightarrow> 'd token list" where
  "stale_tokens f k =
     (case js_get (fl_transitions f) k of
        None \<Rightarrow> []
      | Some t \<Rightarrow> if tr_state t = Ongoing then [] else (case tr_consumed t of None \<Rightarrow> [] | Some c \<Rightarrow> c))"

fun op_put :: "'d flow \<Rightarrow> 'd flow_op \<Rightarrow> 'd token list" where
  "op_put f (AddTok p tok s) = (if accepts f p tok then [tok] else [])"
| "op_put f (CompleteTr k m s) = accepted_tokens f m"
| "op_put f _ = []"

fun op_used :: "'d flow \<Rightarrow> 'd flow_op \<Rightarrow> 'd token list" where
  "op_used f (CompleteTr k m s) = held_by f k"
| "op_used f _ = []"

fun op_lost :: "'d flow \<Rightarrow> 'd flow_op \<Rightarrow> 'd token list" where
  "op_lost f (StartTr p k) = (if has_place f p then held_by f k else [])"
| "op_lost f (FailTr k p) = (if has_place f p then [] else held_by f k)"
| "op_lost f _ = []"

fun op_doubled :: "'d flow \<Rightarrow> 'd flow_op \<Rightarrow> 'd token list" where
  "op_doubled f (FailTr k p) = (if has_place f p then stale_tokens f k else [])"
| "op_doubled f _ = []"

text \<open>A caller is careful when it starts and fails transitions at their own place, once per start.\<close>

fun careful_op :: "'d flow \<Rightarrow> 'd flow_op \<Rightarrow> bool" where
  "careful_op f (StartTr p k) = (case js_get (fl_transitions f) k of None \<Rightarrow> True | Some t \<Rightarrow> tr_state t \<noteq> Ongoing \<and> p = tr_from t)"
| "careful_op f (FailTr k p) = (case js_get (fl_transitions f) k of None \<Rightarrow> True | Some t \<Rightarrow> tr_state t = Ongoing \<and> p = tr_from t)"
| "careful_op f _ = True"

text \<open>A start moves tokens from the place to the transition, a failure moves them back.\<close>

lemma start_tokens: "flow_tokens (recordTransitionStart now f p k) + mset (op_lost f (StartTr p k)) = flow_tokens f"
proof (cases "js_get (fl_transitions f) k")
  case None
  then show ?thesis by (simp add: recordTransitionStart_def held_by_def)
next
  case t: (Some t)
  show ?thesis
  proof (cases "js_get (fl_places f) p")
    case None
    with t show ?thesis by (simp add: recordTransitionStart_def has_place_def)
  next
    case (Some pl)
    let ?r = "consume_tags (tr_consumes t) (pl_tokens pl)"
    let ?f = "updatePlace f p (\<lambda>p. p\<lparr>pl_tokens := snd ?r\<rparr>)"
    let ?g = "updateTransition ?f k (\<lambda>t. t\<lparr>tr_consumed := Some (fst ?r), tr_state := Ongoing\<rparr>)"
    have k: "js_get (fl_transitions ?f) k = Some t" using t by simp
    have m: "mset (pl_tokens pl) = mset (fst ?r) + mset (snd ?r)" by (simp add: consume_tags_mset)
    have "flow_tokens ?f + mset (pl_tokens pl) = flow_tokens f + mset (snd ?r)"
      using flow_tokens_updatePlace [OF Some, of "\<lambda>p. p\<lparr>pl_tokens := snd ?r\<rparr>"] by simp
    then have p: "flow_tokens ?f + mset (fst ?r) = flow_tokens f" unfolding m by (simp add: ac_simps)
    have "flow_tokens ?g + mset (held_tokens t) = flow_tokens ?f + mset (fst ?r)"
      using flow_tokens_updateTransition [OF k, of "\<lambda>t. t\<lparr>tr_consumed := Some (fst ?r), tr_state := Ongoing\<rparr>"]
      by (simp add: held_tokens_def [of "t\<lparr>tr_consumed := Some (fst ?r), tr_state := Ongoing\<rparr>"])
    with p t Some show ?thesis by (simp add: recordTransitionStart_def Let_def has_place_def held_by_def)
  qed
qed

lemma failure_tokens:
  "flow_tokens (recordTransitionFailure now f k p) + mset (op_lost f (FailTr k p)) = flow_tokens f + mset (op_doubled f (FailTr k p))"
proof (cases "js_get (fl_transitions f) k")
  case None
  then show ?thesis by (simp add: recordTransitionFailure_def held_by_def stale_tokens_def)
next
  case (Some t)
  let ?c = "case tr_consumed t of None \<Rightarrow> [] | Some c \<Rightarrow> c"
  let ?f = "updatePlace f p (\<lambda>p. p\<lparr>pl_tokens := pl_tokens p @ ?c\<rparr>)"
  have k: "js_get (fl_transitions ?f) k = Some t" using Some by simp
  have f: "flow_tokens ?f = flow_tokens f + (if has_place f p then mset ?c else {#})"
  proof (cases "js_get (fl_places f) p")
    case (Some pl)
    then show ?thesis
      using flow_tokens_updatePlace [OF Some, of "\<lambda>p. p\<lparr>pl_tokens := pl_tokens p @ ?c\<rparr>"] by (simp add: has_place_def ac_simps)
  qed (simp add: updatePlace_def has_place_def)
  have "flow_tokens (updateTransition ?f k fn) + mset (held_tokens t) = flow_tokens ?f" if "tr_state (fn t) \<noteq> Ongoing" for fn
    using flow_tokens_updateTransition [OF k, of fn] that by (simp add: held_tokens_def [of "fn t"])
  then have "flow_tokens (recordTransitionFailure now f k p) + mset (held_tokens t) = flow_tokens ?f"
    using Some by (simp add: recordTransitionFailure_def Let_def)
  with f Some show ?thesis
    by (auto simp: held_by_def stale_tokens_def held_tokens_def split: if_splits)
qed

lemma completion_tokens:
  "flow_tokens (recordTransitionCompletion now f k m s) + mset (held_by f k) = flow_tokens f + mset (accepted_tokens f m)"
proof -
  let ?f = "put_tokens now s f m" and ?fn = "\<lambda>t. t\<lparr>tr_produced := concat (js_values m), tr_state := Completed,
        tr_retryAttempts := 0, tr_nextRetryAt := None\<rparr>"
  note frame = put_tokens_frame [of now s f m]
  show ?thesis
  proof (cases "js_get (fl_transitions f) k")
    case None
    then have "updateTransition ?f k ?fn = ?f" using frame by (simp add: updateTransition_def)
    with None frame show ?thesis by (simp add: recordTransitionCompletion_def Let_def held_by_def)
  next
    case (Some t)
    then have k: "js_get (fl_transitions ?f) k = Some t" using frame by metis
    show ?thesis
      using flow_tokens_updateTransition [OF k, of ?fn] frame Some
      by (simp add: recordTransitionCompletion_def Let_def held_by_def held_tokens_def [of "?fn t"])
  qed
qed

lemma op_tokens:
  "flow_tokens (apply_op now x f) + mset (op_used f x) + mset (op_lost f x) = flow_tokens f + mset (op_put f x) + mset (op_doubled f x)"
proof (cases x)
  case (AddTok p tok s)
  then show ?thesis by (simp add: flow_tokens_addToken)
next
  case (StartTr p k)
  then show ?thesis using start_tokens [of now f p k] by simp
next
  case (CompleteTr k m s)
  then show ?thesis using completion_tokens [of now f k m s] by simp
next
  case (FailTr k p)
  then show ?thesis using failure_tokens [of now f k p] by simp
qed

section \<open>Runs of a flow\<close>

text \<open>
  Any operation with any arguments at any time, with the ledger so far: put, used, lost, doubled. The flag
  says that the caller has been careful all the time.
\<close>

record 'd ledger =
  lg_put :: "'d token multiset"
  lg_used :: "'d token multiset"
  lg_lost :: "'d token multiset"
  lg_doubled :: "'d token multiset"

definition book :: "'d flow \<Rightarrow> 'd flow_op \<Rightarrow> 'd ledger \<Rightarrow> 'd ledger" where
  "book f x l = \<lparr>lg_put = lg_put l + mset (op_put f x), lg_used = lg_used l + mset (op_used f x),
     lg_lost = lg_lost l + mset (op_lost f x), lg_doubled = lg_doubled l + mset (op_doubled f x)\<rparr>"

inductive flow_run :: "bool \<Rightarrow> 'd ledger \<Rightarrow> 'd flow \<Rightarrow> bool" where
  flow_new: "\<forall>p \<in> set ps. pl_tokens (snd p) = [] \<Longrightarrow> \<forall>t \<in> set ts. tr_state (snd t) = NotStarted \<Longrightarrow>
     flow_run True \<lparr>lg_put = {#}, lg_used = {#}, lg_lost = {#}, lg_doubled = {#}\<rparr> (createExecutableFlow now i ps ts r b)"
| flow_applied: "flow_run c l f \<Longrightarrow> flow_run (c \<and> careful_op f x) (book f x l) (apply_op now x f)"

text \<open>Places hold what they accept, and so does what an ongoing transition took from its place.\<close>

definition flow_inv :: "'d flow \<Rightarrow> bool" where
  "flow_inv f \<longleftrightarrow> (\<forall>p pl x. js_get (fl_places f) p = Some pl \<longrightarrow> x \<in> set (pl_tokens pl) \<longrightarrow> accepts f p x)
     \<and> (\<forall>k t. js_get (fl_transitions f) k = Some t \<longrightarrow> tr_state t = Ongoing \<longrightarrow>
          js_get (fl_places f) (tr_from t) \<noteq> None \<and> (\<forall>x \<in> set (held_tokens t). accepts f (tr_from t) x))"

lemma accepts_updatePlace: "(\<And>p. pl_accepts (fn p) = pl_accepts p) \<Longrightarrow> accepts (updatePlace f q fn) = accepts f"
  by (auto simp: accepts_def fun_eq_iff split: option.splits)

lemma flow_inv_updatePlace:
  assumes "flow_inv f" "\<And>p. pl_accepts (fn p) = pl_accepts p"
    and "\<And>pl x. js_get (fl_places f) p = Some pl \<Longrightarrow> x \<in> set (pl_tokens (fn pl)) \<Longrightarrow> accepts f p x"
  shows "flow_inv (updatePlace f p fn)"
  using assms(1,3) unfolding flow_inv_def accepts_updatePlace [OF assms(2)] by (auto split: if_splits)

lemma flow_inv_updateTransition:
  assumes "flow_inv f"
    and "\<And>t. js_get (fl_transitions f) k = Some t \<Longrightarrow> tr_state (fn t) = Ongoing \<Longrightarrow>
       js_get (fl_places f) (tr_from (fn t)) \<noteq> None \<and> (\<forall>x \<in> set (held_tokens (fn t)). accepts f (tr_from (fn t)) x)"
  shows "flow_inv (updateTransition f k fn)"
  using assms unfolding flow_inv_def accepts_frame by (auto split: if_splits)

lemma flow_inv_tick [simp]: "flow_inv (tick now f) = flow_inv f"
  by (simp add: flow_inv_def)

lemma flow_inv_addToken:
  assumes "flow_inv f"
  shows "flow_inv (addToken now f p tok s)"
proof -
  have "flow_inv (updatePlace f p (\<lambda>p. p\<lparr>pl_tokens := pl_tokens p @ [tok],
      pl_lastSpan := (case s of None \<Rightarrow> pl_lastSpan p | Some i \<Rightarrow> Some i)\<rparr>))" if "accepts f p tok"
    by (rule flow_inv_updatePlace [OF assms]) (use assms that in \<open>auto simp: flow_inv_def\<close>)
  with assms show ?thesis by (auto simp: addToken_def accepts_def split: option.splits)
qed

lemma flow_inv_add_all: "flow_inv f \<Longrightarrow> flow_inv (foldl (\<lambda>g tok. addToken now g p tok s) f toks)"
  by (induction toks arbitrary: f) (simp_all add: flow_inv_addToken)

lemma flow_inv_put: "flow_inv f \<Longrightarrow> flow_inv (put_tokens now s f m)"
  by (induction m arbitrary: f) (auto simp: flow_inv_add_all)

lemma flow_inv_start:
  assumes "flow_inv f" "js_get (fl_transitions f) k = Some t" "js_get (fl_places f) (tr_from t) = Some pl"
  shows "flow_inv (recordTransitionStart now f (tr_from t) k)"
proof -
  let ?r = "consume_tags (tr_consumes t) (pl_tokens pl)"
  let ?f = "updatePlace f (tr_from t) (\<lambda>p. p\<lparr>pl_tokens := snd ?r\<rparr>)"
  have acc: "accepts f (tr_from t) x" if "x \<in> set (fst ?r) \<or> x \<in> set (snd ?r)" for x
    using that assms consume_tags_set [of "tr_consumes t" "pl_tokens pl"] unfolding flow_inv_def by blast
  have "flow_inv ?f" by (rule flow_inv_updatePlace [OF assms(1)]) (use acc assms(3) in auto)
  then have "flow_inv (updateTransition ?f k (\<lambda>t. t\<lparr>tr_consumed := Some (fst ?r), tr_state := Ongoing\<rparr>))"
    by (rule flow_inv_updateTransition) (use acc assms(2,3) in \<open>auto simp: held_tokens_def accepts_updatePlace\<close>)
  then show ?thesis using assms by (simp add: recordTransitionStart_def Let_def)
qed

lemma flow_inv_failure:
  assumes "flow_inv f" "js_get (fl_transitions f) k = Some t" "tr_state t = Ongoing"
  shows "flow_inv (recordTransitionFailure now f k (tr_from t))"
proof -
  let ?c = "case tr_consumed t of None \<Rightarrow> [] | Some c \<Rightarrow> c"
  let ?f = "updatePlace f (tr_from t) (\<lambda>p. p\<lparr>pl_tokens := pl_tokens p @ ?c\<rparr>)"
  have c: "?c = held_tokens t" using assms(3) by (simp add: held_tokens_def)
  have acc: "\<forall>x \<in> set ?c. accepts f (tr_from t) x" using assms unfolding c flow_inv_def by blast
  have "flow_inv ?f"
    by (rule flow_inv_updatePlace [OF assms(1)]) (use assms(1) acc in \<open>auto simp: flow_inv_def\<close>)
  then have "flow_inv (updateTransition ?f k fn)" if "\<And>t. tr_state (fn t) \<noteq> Ongoing" for fn
    by (rule flow_inv_updateTransition) (use that in simp)
  then show ?thesis using assms by (simp add: recordTransitionFailure_def Let_def)
qed

lemma flow_inv_completion:
  assumes "flow_inv f"
  shows "flow_inv (recordTransitionCompletion now f k m s)"
  unfolding recordTransitionCompletion_def Let_def flow_inv_tick
  by (rule flow_inv_updateTransition [OF flow_inv_put [OF assms]]) simp

lemma ready_place:
  "transition_ready now f t = Some toks \<Longrightarrow>
     tr_state t \<noteq> Ongoing \<and> (\<exists>pl. js_get (fl_places f) (tr_from t) = Some pl \<and> toks = pl_tokens pl
       \<and> (\<forall>tg \<in> set (tr_consumes t). \<exists>x \<in> set (pl_tokens pl). tk_tag x = tg))"
  by (auto simp: transition_ready_def list_all_iff list_ex_iff split: if_splits option.splits)

lemma careful_inv:
  assumes "flow_inv f" "careful_op f x"
  shows "flow_inv (apply_op now x f) \<and> op_lost f x = [] \<and> op_doubled f x = []"
proof (cases x)
  case (AddTok p tok s)
  with assms(1) show ?thesis by (simp add: flow_inv_addToken)
next
  case (StartTr p k)
  show ?thesis
  proof (cases "js_get (fl_transitions f) k")
    case None
    with StartTr assms(1) show ?thesis by (simp add: recordTransitionStart_def held_by_def)
  next
    case (Some t)
    with StartTr assms(2) have t: "tr_state t \<noteq> Ongoing" "p = tr_from t" by simp_all
    show ?thesis
    proof (cases "js_get (fl_places f) p")
      case None
      with StartTr Some t assms(1) show ?thesis by (simp add: recordTransitionStart_def held_by_def held_tokens_def)
    next
      case pl: (Some pl)
      with StartTr Some t flow_inv_start [OF assms(1) Some] show ?thesis by (simp add: held_by_def held_tokens_def)
    qed
  qed
next
  case (CompleteTr k m s)
  with assms(1) show ?thesis by (simp add: flow_inv_completion)
next
  case (FailTr k p)
  show ?thesis
  proof (cases "js_get (fl_transitions f) k")
    case None
    with FailTr assms(1) show ?thesis by (simp add: recordTransitionFailure_def held_by_def stale_tokens_def)
  next
    case (Some t)
    with FailTr assms(2) have t: "tr_state t = Ongoing" "p = tr_from t" by simp_all
    then have "has_place f p" using assms(1) Some unfolding flow_inv_def has_place_def by metis
    with FailTr Some t flow_inv_failure [OF assms(1) Some] show ?thesis by (simp add: stale_tokens_def)
  qed
qed

lemma flow_run_ledger:
  "flow_run c l f \<Longrightarrow> flow_tokens f + lg_used l + lg_lost l = lg_put l + lg_doubled l
     \<and> (c \<longrightarrow> flow_inv f \<and> lg_lost l = {#} \<and> lg_doubled l = {#})"
proof (induction rule: flow_run.induct)
  case (flow_new ps ts now i r b)
  have "js_total (\<lambda>p. mset (pl_tokens p)) ps = {#}" "js_total (\<lambda>t. mset (held_tokens t)) ts = {#}"
    using flow_new by (auto intro!: js_total_zero simp: held_tokens_def)
  then show ?case using flow_new map_of_SomeD [of ps] map_of_SomeD [of ts]
    by (fastforce simp: flow_inv_def flow_tokens_def createExecutableFlow_def)
next
  case (flow_applied c l f x now)
  have "flow_tokens (apply_op now x f) + mset (op_used f x) + mset (op_lost f x) + (lg_used l + lg_lost l)
      = flow_tokens f + lg_used l + lg_lost l + mset (op_put f x) + mset (op_doubled f x)"
    using op_tokens [of now x f] by (simp add: ac_simps)
  also have "\<dots> = lg_put l + lg_doubled l + mset (op_put f x) + mset (op_doubled f x)" using flow_applied.IH by simp
  finally have "flow_tokens (apply_op now x f) + lg_used (book f x l) + lg_lost (book f x l) = lg_put (book f x l) + lg_doubled (book f x l)"
    by (simp add: book_def ac_simps)
  then show ?case using flow_applied.IH careful_inv [of f x now] by (auto simp: book_def)
qed

text \<open>
  C26. The ledger of a flow. Whatever operations a caller applies to a flow, with whatever arguments and in whatever
  order, the tokens in the places and with the ongoing transitions, those that completions used up and those that got
  lost are exactly the tokens that the caller put in and the places accepted, and those that were doubled. A token gets
  lost only when a transition that holds it is started again or fails towards a place that is not there, and is doubled
  only when a transition fails that is not ongoing but still has its record of what it consumed. So for a caller that
  starts transitions from their own place while they are not ongoing, and lets them fail to it while they are, nothing is lost or
  doubled, and every place only holds tokens it accepts. What a caller puts in twice is there twice, as
  \<open>Petri_Aggregate.flow_duplicates_results\<close> has it.
\<close>

theorem flow_run_conserves:
  assumes "flow_run careful l f"
  shows "flow_tokens f + lg_used l + lg_lost l = lg_put l + lg_doubled l
    \<and> (careful \<longrightarrow> lg_lost l = {#} \<and> lg_doubled l = {#}
        \<and> (\<forall>p pl. js_get (fl_places f) p = Some pl \<longrightarrow> (\<forall>x \<in> set (pl_tokens pl). tk_tag x \<in> set (pl_accepts pl))))"
proof -
  have "tk_tag x \<in> set (pl_accepts pl)" if "careful" "js_get (fl_places f) p = Some pl" "x \<in> set (pl_tokens pl)" for p pl x
    using flow_run_ledger [OF assms] that unfolding flow_inv_def accepts_def by fastforce
  with flow_run_ledger [OF assms] show ?thesis by blast
qed

definition demo_flow :: "unit flow" where
  "demo_flow = createExecutableFlow 0 ''f''
     [(''in'', placeInstanceFromDef (placeDef ''in'' [''a''] Inbound)),
      (''out'', placeInstanceFromDef (placeDef ''out'' [''b''] Outbound))]
     [(''t'', transitionInstanceFromDef (transitionDef ''t'' ''in'' [''a''] [(''b'', ''out'')]))] (Some 2) (Some 10)"

abbreviation tok_a :: "unit token" where "tok_a \<equiv> \<lparr>tk_tag = ''a'', tk_data = ()\<rparr>"

definition demo_loaded :: "unit flow" where
  "demo_loaded = addToken 1 demo_flow ''in'' tok_a None"

definition demo_transition :: "unit transition" where
  "demo_transition = transitionInstanceFromDef (transitionDef ''t'' ''in'' [''a''] [(''b'', ''out'')])"

lemmas demo_flow_defs = demo_flow_def demo_loaded_def demo_transition_def createExecutableFlow_def
  placeInstanceFromDef_def placeDef_def transitionInstanceFromDef_def transitionDef_def js_set_of_def js_add_def
  js_of_list_def addToken_def updatePlace_def updateTransition_def tick_def

lemma demo_loaded_ready:
  "js_get (fl_transitions demo_loaded) ''t'' = Some demo_transition
   \<and> transition_ready 1 demo_loaded demo_transition = Some [tok_a]"
  by (simp add: demo_flow_defs transition_ready_def)

text \<open>A careful failure gives the token back; a second one doubles it.\<close>

theorem flow_run_conserves_witness:
  "flow_tokens (recordTransitionFailure 3 (recordTransitionStart 1 demo_loaded ''in'' ''t'') ''t'' ''in'') = {#tok_a#}
   \<and> flow_tokens (recordTransitionFailure 4 (recordTransitionFailure 3 (recordTransitionStart 1 demo_loaded ''in'' ''t'') ''t'' ''in'') ''t'' ''in'')
     = {#tok_a, tok_a#}"
proof -
  let ?l0 = "\<lparr>lg_put = {#}, lg_used = {#}, lg_lost = {#}, lg_doubled = {#}\<rparr> :: unit ledger"
  let ?start = "StartTr ''in'' ''t'' :: unit flow_op" and ?fail = "FailTr ''t'' ''in'' :: unit flow_op"
  let ?l1 = "book demo_flow (AddTok ''in'' tok_a None) ?l0" and ?f2 = "apply_op 1 ?start demo_loaded"
  let ?f3 = "apply_op 3 ?fail ?f2"
  have "flow_run True ?l0 demo_flow"
    unfolding demo_flow_def by (rule flow_new) (simp_all add: demo_flow_defs)
  from flow_applied [OF this, of "AddTok ''in'' tok_a None" 1]
  have r1: "flow_run True ?l1 demo_loaded" by (simp add: demo_loaded_def)
  have c: "careful_op demo_loaded ?start" "careful_op ?f2 ?fail"
    by (simp_all add: demo_flow_defs recordTransitionStart_def Let_def)
  have r3: "flow_run True (book ?f2 ?fail (book demo_loaded ?start ?l1)) ?f3"
    using flow_applied [OF flow_applied [OF r1, of ?start 1], of ?fail 3] c by simp
  from flow_applied [OF r3, of ?fail 4]
  have r4: "flow_run (careful_op ?f3 ?fail) (book ?f3 ?fail (book ?f2 ?fail (book demo_loaded ?start ?l1))) (apply_op 4 ?fail ?f3)" by simp
  have "accepts demo_flow ''in'' tok_a" by (simp add: accepts_def demo_flow_defs)
  moreover have "stale_tokens ?f3 ''t'' = [tok_a]" "has_place ?f3 ''in''" "stale_tokens ?f2 ''t'' = []"
    "has_place ?f2 ''in''" "held_by demo_loaded ''t'' = []"
    by (simp_all add: stale_tokens_def has_place_def held_by_def held_tokens_def recordTransitionFailure_def recordTransitionStart_def
        demo_flow_defs Let_def)
  ultimately show ?thesis
    using flow_run_conserves [OF r3] flow_run_conserves [OF r4] by (auto simp: book_def)
qed

end
