(* ===== verification/Petri_Firing.thy ===== *)
theory Petri_Firing
  imports Petri_Flow
begin

text \<open>
  What a transition that is ready consumes, and how often and when a failing one is tried
  again (\<open>transitionsReady\<close>, \<open>recordTransitionStart\<close>, \<open>recordTransitionFailure\<close>).
\<close>

lemma take_tag_found:
  "\<exists>x \<in> set xs. tk_tag x = tg \<Longrightarrow> map tk_tag (fst (take_tag tg xs)) = [tg]"
  by (induction xs) (auto simp: Let_def)

lemma take_tag_others:
  "filter (\<lambda>x. tk_tag x \<noteq> tg) (snd (take_tag tg xs)) = filter (\<lambda>x. tk_tag x \<noteq> tg) xs"
  by (induction xs) (auto simp: Let_def)

lemma take_tag_keeps:
  assumes "x \<in> set xs" "tk_tag x \<noteq> tg"
  shows "x \<in> set (snd (take_tag tg xs))"
proof -
  have "x \<in> set (filter (\<lambda>x. tk_tag x \<noteq> tg) xs)" using assms by simp
  then show ?thesis unfolding take_tag_others [of tg xs, symmetric] by simp
qed

lemma consume_tags_all:
  assumes "distinct tgs" "\<forall>tg \<in> set tgs. \<exists>x \<in> set xs. tk_tag x = tg"
  shows "map tk_tag (fst (consume_tags tgs xs)) = tgs"
  using assms
proof (induction tgs arbitrary: xs)
  case (Cons tg tgs)
  have "\<exists>x \<in> set (snd (take_tag tg xs)). tk_tag x = tg'" if "tg' \<in> set tgs" for tg'
  proof -
    from that Cons.prems obtain x where "x \<in> set xs" "tk_tag x = tg'" by auto
    with that Cons.prems(1) show ?thesis using take_tag_keeps [of x xs tg] by auto
  qed
  with Cons show ?case by (simp add: Let_def take_tag_found)
qed simp

text \<open>
  A transition that \<open>transitionsReady\<close> reports, when started from its place, takes exactly
  one token of each tag it consumes, in that order, leaves the others in the place, touches
  no other place, and is not ready again while it is ongoing.
\<close>

lemma ready_transition_start:
  assumes "transition_ready now flow t = Some tokens" "js_get (fl_transitions flow) k = Some t"
    and "distinct (tr_consumes t)"
  shows "\<exists>t' src consumed. js_get (fl_transitions (recordTransitionStart now flow (tr_from t) k)) k = Some t'
      \<and> js_get (fl_places (recordTransitionStart now flow (tr_from t) k)) (tr_from t) = Some src
      \<and> tr_state t' = Ongoing \<and> tr_consumed t' = Some consumed
      \<and> map tk_tag consumed = tr_consumes t \<and> mset consumed + mset (pl_tokens src) = mset tokens
      \<and> transition_ready later (recordTransitionStart now flow (tr_from t) k) t' = None
      \<and> (\<forall>p. p \<noteq> tr_from t \<longrightarrow> js_get (fl_places (recordTransitionStart now flow (tr_from t) k)) p = js_get (fl_places flow) p)"
proof -
  from ready_place [OF assms(1)] obtain pl where pl: "js_get (fl_places flow) (tr_from t) = Some pl"
    "tokens = pl_tokens pl" "\<forall>tg \<in> set (tr_consumes t). \<exists>x \<in> set (pl_tokens pl). tk_tag x = tg" by blast
  let ?r = "consume_tags (tr_consumes t) (pl_tokens pl)"
  have "map tk_tag (fst ?r) = tr_consumes t" using consume_tags_all [OF assms(3) pl(3)] .
  moreover have "mset (fst ?r) + mset (snd ?r) = mset tokens" by (simp add: consume_tags_mset pl(2))
  ultimately show ?thesis
    using assms(2) pl(1)
    by (intro exI [of _ "t\<lparr>tr_consumed := Some (fst ?r), tr_state := Ongoing\<rparr>"]
        exI [of _ "pl\<lparr>pl_tokens := snd ?r\<rparr>"] exI [of _ "fst ?r"])
      (simp add: recordTransitionStart_def Let_def transition_ready_def)
qed

lemma ready_transition_start_example:
  "\<exists>t'. js_get (fl_transitions (recordTransitionStart 1 demo_loaded ''in'' ''t'')) ''t'' = Some t' \<and> tr_consumed t' = Some [tok_a]"
proof -
  have t: "tr_from demo_transition = ''in''" "tr_consumes demo_transition = [''a'']" by (simp_all add: demo_flow_defs)
  have d: "distinct (tr_consumes demo_transition)" by (simp add: t)
  note r = ready_transition_start [OF conjunct2 [OF demo_loaded_ready] conjunct1 [OF demo_loaded_ready] d,
      unfolded t, of 2]
  from r obtain t' consumed where
    "js_get (fl_transitions (recordTransitionStart 1 demo_loaded ''in'' ''t'')) ''t'' = Some t'"
    "tr_consumed t' = Some consumed" "map tk_tag consumed = [''a'']"
    by (elim exE conjE) (rule that)
  moreover from this(3) have "consumed = [tok_a]" by (cases consumed) auto
  ultimately show ?thesis by blast
qed

lemma flow_fibonacci_eq: "flow_fibonacci (Suc n) = fib_nat (Suc n)"
proof (cases n)
  case (Suc m)
  then show ?thesis using fib_loop_from_ones [of "Suc n"] unfolding flow_fibonacci_def by simp
qed (simp add: flow_fibonacci_def)

lemma max_1_fib: "max (Suc 0) (fib_nat (Suc n)) = fib_nat (Suc n)"
  using fib_nat_pos [of "Suc n"] by (simp add: max_def)

text \<open>A transition that fails every time it is tried: starts and failures at given times.\<close>

definition fail_once :: "string \<Rightarrow> string \<Rightarrow> 'd flow \<Rightarrow> int \<times> int \<Rightarrow> 'd flow" where
  "fail_once src k flow tms =
     recordTransitionFailure (snd tms) (recordTransitionStart (fst tms) flow src k) k src"

lemma fail_once_transition:
  assumes "js_get (fl_transitions flow) k = Some t" "js_get (fl_places flow) src = Some pl"
  shows "\<exists>t'. js_get (fl_transitions (fail_once src k flow tms)) k = Some t'
      \<and> (\<exists>pl'. js_get (fl_places (fail_once src k flow tms)) src = Some pl')
      \<and> tr_retryAttempts t' = Suc (tr_retryAttempts t)
      \<and> (if int (Suc (tr_retryAttempts t)) \<le> fl_maxTransitionRetries flow
         then tr_state t' = NotStarted
            \<and> tr_nextRetryAt t' = Some (snd tms + int (fib_nat (Suc (tr_retryAttempts t))) * fl_backoffBaseMillis flow)
         else tr_state t' = Failed \<and> tr_nextRetryAt t' = None)"
    and "fl_maxTransitionRetries (fail_once src k flow tms) = fl_maxTransitionRetries flow"
    and "fl_backoffBaseMillis (fail_once src k flow tms) = fl_backoffBaseMillis flow"
  using assms
  by (auto simp: fail_once_def recordTransitionStart_def recordTransitionFailure_def Let_def
      flow_fibonacci_eq max_1_fib)

text \<open>
  A transition that keeps failing counts every failure; as long as the failures are at most
  \<open>maxTransitionRetries\<close> it goes back to not started and waits the Fibonacci multiple of the
  base delay after its last failure, not being ready before; the next failure makes it
  \<open>Failed\<close>.
\<close>

lemma failing_transition_backs_off:
  assumes "js_get (fl_transitions flow) k = Some t" "js_get (fl_places flow) src = Some pl" "tr_retryAttempts t = 0"
    and "tms \<noteq> []"
  shows "\<exists>t'. js_get (fl_transitions (foldl (fail_once src k) flow tms)) k = Some t'
      \<and> tr_retryAttempts t' = length tms
      \<and> (if int (length tms) \<le> fl_maxTransitionRetries flow
         then tr_state t' = NotStarted \<and>
            (\<forall>now < snd (last tms) + int (fib_nat (length tms)) * fl_backoffBaseMillis flow.
               transition_ready now (foldl (fail_once src k) flow tms) t' = None)
         else tr_state t' = Failed)"
proof -
  let ?f = "\<lambda>ts. foldl (fail_once src k) flow ts"
  have inv: "\<exists>t' pl'. js_get (fl_transitions (?f ts)) k = Some t' \<and> js_get (fl_places (?f ts)) src = Some pl'
      \<and> tr_retryAttempts t' = length ts \<and> fl_maxTransitionRetries (?f ts) = fl_maxTransitionRetries flow
      \<and> fl_backoffBaseMillis (?f ts) = fl_backoffBaseMillis flow" for ts
  proof (induction ts rule: rev_induct)
    case Nil
    then show ?case using assms by simp
  next
    case (snoc x ts)
    then obtain t' pl' where ih: "js_get (fl_transitions (?f ts)) k = Some t'" "js_get (fl_places (?f ts)) src = Some pl'"
      "tr_retryAttempts t' = length ts" "fl_maxTransitionRetries (?f ts) = fl_maxTransitionRetries flow"
      "fl_backoffBaseMillis (?f ts) = fl_backoffBaseMillis flow" by blast
    from fail_once_transition [OF ih(1,2), of x] ih(3-5) show ?case by auto
  qed
  from assms(4) obtain ts x where tms: "tms = ts @ [x]" by (cases tms rule: rev_cases) auto
  from inv [of ts] obtain t' pl' where ih: "js_get (fl_transitions (?f ts)) k = Some t'" "js_get (fl_places (?f ts)) src = Some pl'"
    "tr_retryAttempts t' = length ts" "fl_maxTransitionRetries (?f ts) = fl_maxTransitionRetries flow"
    "fl_backoffBaseMillis (?f ts) = fl_backoffBaseMillis flow" by blast
  obtain t'' where t'': "js_get (fl_transitions (?f tms)) k = Some t''"
    "tr_retryAttempts t'' = length tms"
    "if int (length tms) \<le> fl_maxTransitionRetries flow
     then tr_state t'' = NotStarted \<and> tr_nextRetryAt t'' = Some (snd x + int (fib_nat (length tms)) * fl_backoffBaseMillis flow)
     else tr_state t'' = Failed \<and> tr_nextRetryAt t'' = None"
    using fail_once_transition(1) [OF ih(1,2), of x] ih(3-5) by (auto simp: tms)
  show ?thesis
  proof (intro exI [of _ t''] conjI)
    show "if int (length tms) \<le> fl_maxTransitionRetries flow
       then tr_state t'' = NotStarted \<and>
          (\<forall>now < snd (last tms) + int (fib_nat (length tms)) * fl_backoffBaseMillis flow.
             transition_ready now (?f tms) t'' = None)
       else tr_state t'' = Failed"
      using t''(3) by (simp add: transition_ready_def tms split: if_split_asm)
  qed (use t'' in auto)
qed

lemma failing_transition_backs_off_example:
  "\<exists>t'. js_get (fl_transitions (foldl (fail_once ''in'' ''t'') demo_loaded [(1, 2), (20, 21), (50, 51)])) ''t'' = Some t'
     \<and> tr_state t' = Failed \<and> tr_retryAttempts t' = 3"
proof -
  obtain pl where "js_get (fl_places demo_loaded) ''in'' = Some pl" by (simp add: demo_flow_defs)
  moreover have "tr_retryAttempts demo_transition = 0" "fl_maxTransitionRetries demo_loaded = 2"
    by (simp_all add: demo_flow_defs)
  ultimately show ?thesis
    using failing_transition_backs_off [OF conjunct1 [OF demo_loaded_ready], of "''in''" pl "[(1, 2), (20, 21), (50, 51)]"]
    by (simp add: numeral_3_eq_3) blast
qed

text \<open>\<open>Failed\<close> is not final: with its tokens back in place the transition is ready again.\<close>

lemma failed_transition_fires_again:
  "\<exists>t'. js_get (fl_transitions (foldl (fail_once ''in'' ''t'') demo_loaded [(1, 2), (20, 21), (50, 51)])) ''t'' = Some t'
     \<and> tr_state t' = Failed
     \<and> transition_ready 51 (foldl (fail_once ''in'' ''t'') demo_loaded [(1, 2), (20, 21), (50, 51)]) t' = Some [tok_a]"
  by (simp add: fail_once_def recordTransitionStart_def recordTransitionFailure_def transition_ready_def
      demo_flow_defs Let_def)

end
