(* ===== verification/Petri_Schema.thy ===== *)
theory Petri_Schema
  imports Petri_Flow
begin

text \<open>
  \<open>petrinet/flow-schema.ts\<close>: validation and compilation of a schema. The checks are in the
  code's order and each gives the messages the code pushes; the three searches are queue
  loops with visited sets. What an accepted schema guarantees is proved against the
  relation \<open>schema_edges\<close>.
\<close>

record flow_schema =
  fs_places :: "place_def list"
  fs_transitions :: "transition_def list"

section \<open>Maps of sets\<close>

definition multi_get :: "'k \<Rightarrow> ('k, 'v list) jsmap \<Rightarrow> 'v list" where
  "multi_get k m = (case js_get m k of None \<Rightarrow> [] | Some xs \<Rightarrow> xs)"

definition multi_key :: "'k \<Rightarrow> ('k, 'v list) jsmap \<Rightarrow> ('k, 'v list) jsmap" where
  "multi_key k m = (if js_get m k = None then js_set k [] m else m)"

definition multi_add :: "'k \<Rightarrow> 'v \<Rightarrow> ('k, 'v list) jsmap \<Rightarrow> ('k, 'v list) jsmap" where
  "multi_add k v m = js_set k (js_add v (multi_get k m)) m"

lemma multi_get_key [simp]: "multi_get k (multi_key k' m) = multi_get k m"
  by (simp add: multi_get_def multi_key_def)

lemma set_multi_get_add [simp]:
  "set (multi_get k (multi_add k' v m)) = (if k = k' then insert v (set (multi_get k m)) else set (multi_get k m))"
  by (auto simp: multi_get_def multi_add_def split: option.splits)

lemma multi_get_Nil [simp]: "multi_get k [] = []"
  by (simp add: multi_get_def)

section \<open>Searches\<close>

text \<open>The undirected search of check 9.\<close>

definition map_nodes :: "('a, 'a list) jsmap \<Rightarrow> 'a set" where
  "map_nodes m = (\<Union>x \<in> set m. set (snd x))"

lemma finite_map_nodes [simp]: "finite (map_nodes m)"
  by (simp add: map_nodes_def)

lemma multi_get_nodes: "set (multi_get k m) \<subseteq> (\<Union>x \<in> set m. set (snd x))"
  by (cases "js_get m k") (force simp: multi_get_def dest: map_of_SomeD)+

text \<open>Every round of a search visits a new node or shortens the queue.\<close>

lemma card_unvisited:
  assumes "finite U" "n \<in> U" "n \<notin> V" "U' \<subseteq> U"
  shows "card (U' - insert n V) < card (U - V)"
  by (rule psubset_card_mono) (use assms in auto)

function bfs :: "('a, 'a list) jsmap \<Rightarrow> 'a list \<Rightarrow> 'a list \<Rightarrow> 'a list" where
  "bfs m [] visited = visited"
| "bfs m (n # q) visited =
     (if n \<in> set visited then bfs m q visited
      else bfs m (q @ filter (\<lambda>x. x \<notin> set (visited @ [n])) (multi_get n m)) (visited @ [n]))"
  by pat_completeness auto
termination
proof (relation "measures [\<lambda>(m, q, v). card ((set q \<union> map_nodes m) - set v), \<lambda>(m, q, v). length q]", goal_cases)
  case 1
  show ?case by simp
next
  case (2 m n q visited)
  have "card ((set q \<union> map_nodes m) - set visited) \<le> card ((set (n # q) \<union> map_nodes m) - set visited)"
    by (rule card_mono) auto
  then show ?case by (auto simp: le_less)
next
  case (3 m n q visited)
  have "set (multi_get n m) \<subseteq> map_nodes m" using multi_get_nodes by (simp add: map_nodes_def)
  then have "card ((set (q @ filter (\<lambda>x. x \<notin> set (visited @ [n])) (multi_get n m)) \<union> map_nodes m) - insert n (set visited))
      < card ((set (n # q) \<union> map_nodes m) - set visited)"
    by (intro card_unvisited) (use 3 in auto)
  then show ?case by simp
qed

text \<open>
  The directed searches of check 9.1: places lead to transitions and those to places; both
  have visited sets. The backward search is the same loop over the reversed maps.
\<close>

definition visit_transition ::
  "('t, 'p list) jsmap \<Rightarrow> 'p list \<Rightarrow> 't list \<times> 'p list \<Rightarrow> 't \<Rightarrow> 't list \<times> 'p list" where
  "visit_transition t2p rp s tid =
     (if tid \<in> set (fst s) then s
      else (fst s @ [tid], snd s @ filter (\<lambda>d. d \<notin> set rp) (multi_get tid t2p)))"

abbreviation visit_transitions where
  "visit_transitions t2p rp s tids \<equiv> foldl (visit_transition t2p rp) s tids"

lemma visit_transitions_queue:
  "set (snd (visit_transitions t2p rp s tids)) \<subseteq> set (snd s) \<union> (\<Union>x \<in> set t2p. set (snd x))"
proof (induction tids arbitrary: s)
  case (Cons tid tids)
  have "set (snd (visit_transition t2p rp s tid)) \<subseteq> set (snd s) \<union> (\<Union>x \<in> set t2p. set (snd x))"
    using multi_get_nodes [of tid t2p] by (auto simp: visit_transition_def)
  with Cons [of "visit_transition t2p rp s tid"] show ?case by (auto simp: subset_iff)
qed simp

function flow_bfs ::
  "('p, 't list) jsmap \<Rightarrow> ('t, 'p list) jsmap \<Rightarrow> 'p list \<Rightarrow> 'p list \<Rightarrow> 't list \<Rightarrow> 'p list \<times> 't list" where
  "flow_bfs p2t t2p [] rp rt = (rp, rt)"
| "flow_bfs p2t t2p (p # q) rp rt =
     (if p \<in> set rp then flow_bfs p2t t2p q rp rt
      else flow_bfs p2t t2p (snd (visit_transitions t2p (rp @ [p]) (rt, q) (multi_get p p2t))) (rp @ [p])
             (fst (visit_transitions t2p (rp @ [p]) (rt, q) (multi_get p p2t))))"
  by pat_completeness auto
termination
proof (relation "measures [\<lambda>(p2t, t2p, q, rp, rt). card ((set q \<union> (\<Union>x \<in> set t2p. set (snd x))) - set rp),
    \<lambda>(p2t, t2p, q, rp, rt). length q]", goal_cases)
  case 1
  show ?case by simp
next
  case (2 p2t t2p p q rp rt)
  let ?D = "\<Union>x \<in> set t2p. set (snd x)"
  have "card ((set q \<union> ?D) - set rp) \<le> card ((set (p # q) \<union> ?D) - set rp)"
    by (rule card_mono) auto
  then show ?case by (auto simp: le_less)
next
  case (3 p2t t2p p q rp rt)
  let ?D = "\<Union>x \<in> set t2p. set (snd x)"
  let ?q = "snd (visit_transitions t2p (rp @ [p]) (rt, q) (multi_get p p2t))"
  have "set ?q \<subseteq> set q \<union> ?D" using visit_transitions_queue [of t2p "rp @ [p]" "(rt, q)"] by simp
  then have "card ((set ?q \<union> ?D) - insert p (set rp)) < card ((set (p # q) \<union> ?D) - set rp)"
    by (intro card_unvisited) (use 3 in auto)
  then show ?case by simp
qed

section \<open>Validation\<close>

definition placeMap :: "flow_schema \<Rightarrow> (string, place_def) jsmap" where
  "placeMap s = js_of_list (map (\<lambda>p. (pd_id p, p)) (fs_places s))"

definition transMap :: "flow_schema \<Rightarrow> (string, transition_def) jsmap" where
  "transMap s = js_of_list (map (\<lambda>t. (td_id t, t)) (fs_transitions s))"

abbreviation has_place where "has_place s i \<equiv> js_get (placeMap s) i \<noteq> None"

definition check_duplicates :: "flow_schema \<Rightarrow> string list" where
  "check_duplicates s =
     (if length (placeMap s) \<noteq> length (fs_places s) then [''Duplicate Place IDs detected''] else [])
     @ (if length (transMap s) \<noteq> length (fs_transitions s) then [''Duplicate Transition IDs detected''] else [])"

definition check_references :: "flow_schema \<Rightarrow> string list" where
  "check_references s =
     concat (map (\<lambda>t. if \<not> has_place s (td_from t)
         then [''Transition '' @ td_id t @ '' references non-existent '' @ [CHR 0x27] @ ''from'' @ [CHR 0x27]
               @ '' Place: '' @ td_from t] else []) (fs_transitions s))
     @ concat (map (\<lambda>t. concat (map (\<lambda>(tokenTag, placeId). if \<not> has_place s placeId
         then [''Transition '' @ td_id t @ '' routes token '' @ tokenTag @ '' to non-existent Place: '' @ placeId]
         else []) (td_to t))) (fs_transitions s))"

definition check_tokens :: "flow_schema \<Rightarrow> string list" where
  "check_tokens s =
     concat (map (\<lambda>t.
       (case js_get (placeMap s) (td_from t) of
          None \<Rightarrow> []
        | Some fromPlace \<Rightarrow> concat (map (\<lambda>tg. if tg \<notin> set (pd_accepts fromPlace)
            then [''Transition '' @ td_id t @ '' consumes token '' @ tg @ '' not accepted by Place '' @ pd_id fromPlace]
            else []) (td_consumes t)))
       @ concat (map (\<lambda>(tokenTag, placeId).
           case js_get (placeMap s) placeId of
             None \<Rightarrow> []
           | Some destPlace \<Rightarrow> if tokenTag \<notin> set (pd_accepts destPlace)
               then [''Transition '' @ td_id t @ '' sends token '' @ tokenTag @ '' to Place '' @ pd_id destPlace
                     @ '' which doesn'' @ [CHR 0x27] @ ''t accept it'']
               else []) (td_to t))) (fs_transitions s))"

definition usedPlaces :: "flow_schema \<Rightarrow> string list" where
  "usedPlaces s = js_set_of (concat (map (\<lambda>t. td_from t # js_values (td_to t)) (fs_transitions s)))"

definition check_used :: "flow_schema \<Rightarrow> string list" where
  "check_used s =
     concat (map (\<lambda>p. if pd_id p \<notin> set (usedPlaces s) then [''Place '' @ pd_id p @ '' is unused in any transition'']
       else []) (fs_places s))"

definition check_complete :: "flow_schema \<Rightarrow> string list" where
  "check_complete s =
     concat (map (\<lambda>t. if td_consumes t = [] \<or> td_to t = []
       then [''Transition '' @ td_id t @ '' is incomplete (must consume and produce)''] else []) (fs_transitions s))"

definition inboundPlaces where "inboundPlaces s = filter (\<lambda>p. pd_type p = Inbound) (fs_places s)"
definition outboundPlaces where "outboundPlaces s = filter (\<lambda>p. pd_type p = Outbound) (fs_places s)"

definition check_boundary :: "flow_schema \<Rightarrow> string list" where
  "check_boundary s =
     (if inboundPlaces s = [] then [''No Inbound place defined in the flow'']
      else if 1 < length (inboundPlaces s) then [''Multiple Inbound places defined in the flow''] else [])
     @ (if outboundPlaces s = [] then [''No Outbound place defined in the flow''] else [])"

definition check_inbound_tokens :: "flow_schema \<Rightarrow> string list" where
  "check_inbound_tokens s =
     concat (map (\<lambda>inb. concat (map (\<lambda>t.
       if td_from t = pd_id inb then []
       else concat (map (\<lambda>producedTag. if producedTag \<in> set (pd_accepts inb)
         then [''Token '' @ producedTag @ '' accepted by Inbound place '' @ pd_id inb
               @ '' is produced by transition '' @ td_id t @ '' that does not consume from Inbound'']
         else []) (map fst (td_to t)))) (fs_transitions s))) (inboundPlaces s))"

definition adjacency :: "flow_schema \<Rightarrow> (string, string list) jsmap" where
  "adjacency s =
     foldl (\<lambda>m t. foldl (\<lambda>m placeId. multi_add placeId (td_from t) (multi_add (td_from t) placeId (multi_key placeId m)))
              (multi_key (td_from t) m) (js_values (td_to t)))
       [] (fs_transitions s)"

definition check_connected :: "flow_schema \<Rightarrow> string list" where
  "check_connected s =
     (let adj = adjacency s
      in case adj of
           [] \<Rightarrow> []
         | (start, _) # _ \<Rightarrow>
             (if length (bfs adj [start] []) \<noteq> length adj then [''Flow graph is not connected''] else []))"

definition placeToTransitions :: "transition_def list \<Rightarrow> (string, string list) jsmap" where
  "placeToTransitions ts = foldl (\<lambda>m t. multi_add (td_from t) (td_id t) m) [] ts"

definition transitionToPlaces :: "transition_def list \<Rightarrow> (string, string list) jsmap" where
  "transitionToPlaces ts =
     foldl (\<lambda>m t. foldl (\<lambda>m placeId. multi_add (td_id t) placeId m) (multi_key (td_id t) m) (js_values (td_to t))) [] ts"

definition transitionFromPlaces :: "transition_def list \<Rightarrow> (string, string list) jsmap" where
  "transitionFromPlaces ts = foldl (\<lambda>m t. multi_add (td_id t) (td_from t) m) [] ts"

definition placeFromTransitions :: "transition_def list \<Rightarrow> (string, string list) jsmap" where
  "placeFromTransitions ts =
     foldl (\<lambda>m t. foldl (\<lambda>m placeId. multi_add placeId (td_id t) m) m (js_values (td_to t))) [] ts"

definition forward_reach :: "flow_schema \<Rightarrow> string list \<times> string list" where
  "forward_reach s =
     flow_bfs (placeToTransitions (fs_transitions s)) (transitionToPlaces (fs_transitions s))
       [pd_id (hd (inboundPlaces s))] [] []"

definition backward_reach :: "flow_schema \<Rightarrow> string list \<times> string list" where
  "backward_reach s =
     flow_bfs (placeFromTransitions (fs_transitions s)) (transitionFromPlaces (fs_transitions s))
       (js_set_of (map pd_id (outboundPlaces s))) [] []"

definition check_paths :: "flow_schema \<Rightarrow> string list" where
  "check_paths s =
     (if inboundPlaces s \<noteq> [] \<and> outboundPlaces s \<noteq> []
      then let fwd = forward_reach s; bwd = backward_reach s
        in concat (map (\<lambda>p. if pd_id p \<notin> set (fst fwd) \<or> pd_id p \<notin> set (fst bwd)
             then [''Place '' @ pd_id p @ '' is not on any path from inbound to outbound (un-sound)'']
             else []) (fs_places s))
           @ concat (map (\<lambda>t. if td_id t \<notin> set (snd fwd) \<or> td_id t \<notin> set (snd bwd)
             then [''Transition '' @ td_id t @ '' is not on any path from inbound to outbound (dead or isolated)'']
             else []) (fs_transitions s))
      else [])"

definition producedTokensByPlace :: "flow_schema \<Rightarrow> (string, string list) jsmap" where
  "producedTokensByPlace s =
     foldl (\<lambda>m t. foldl (\<lambda>m (tokenTag, placeId). multi_add placeId tokenTag m) m (td_to t)) [] (fs_transitions s)"

definition check_gaps :: "flow_schema \<Rightarrow> string list" where
  "check_gaps s =
     (let produced = producedTokensByPlace s
      in concat (map (\<lambda>p. if pd_type p = Inbound then []
           else concat (map (\<lambda>acceptedTag. if acceptedTag \<notin> set (multi_get (pd_id p) produced)
             then [''Gap detected: No transition produces '' @ acceptedTag @ '' token for place '' @ pd_id p
                   @ '' which accepts it''] else []) (pd_accepts p))) (fs_places s)))"

definition validate :: "flow_schema \<Rightarrow> string list" where
  "validate s =
     check_duplicates s @ check_references s @ check_tokens s @ check_used s @ check_complete s
     @ check_boundary s @ check_inbound_tokens s @ check_connected s @ check_paths s @ check_gaps s"

section \<open>Compilation\<close>

definition compileSchema ::
  "int \<Rightarrow> flow_schema \<Rightarrow> string \<Rightarrow> int option \<Rightarrow> int option \<Rightarrow> string list + 'd flow" where
  "compileSchema now s flowId maxRetries backoff =
     (let errors = validate s
      in if errors \<noteq> [] then Inl errors
         else Inr (createExecutableFlow now flowId
           (js_of_list (map (\<lambda>p. (pd_id p, placeInstanceFromDef p)) (fs_places s)))
           (js_of_list (map (\<lambda>t. (td_id t, transitionInstanceFromDef t)) (fs_transitions s)))
           maxRetries backoff))"

definition compileSchemaOrFail ::
  "int \<Rightarrow> flow_schema \<Rightarrow> string \<Rightarrow> int option \<Rightarrow> int option \<Rightarrow> js_error + 'd flow" where
  "compileSchemaOrFail now s flowId maxRetries backoff =
     (case compileSchema now s flowId maxRetries backoff of
        Inl errors \<Rightarrow> Inl (JsError (''FlowSchema validation failed: '' @ join_str ''; '' errors))
      | Inr flow \<Rightarrow> Inr flow)"

section \<open>The searches find what is reachable\<close>

definition hop :: "('p, 't list) jsmap \<Rightarrow> ('t, 'p list) jsmap \<Rightarrow> ('p \<times> 'p) set" where
  "hop p2t t2p = {(a, b). \<exists>t \<in> set (multi_get a p2t). b \<in> set (multi_get t t2p)}"

lemma visit_transitions_spec:
  assumes "\<forall>t \<in> set (fst s). set (multi_get t t2p) \<subseteq> set rp \<union> set (snd s)"
  shows "set (fst (visit_transitions t2p rp s tids)) = set (fst s) \<union> set tids
    \<and> set (snd s) \<subseteq> set (snd (visit_transitions t2p rp s tids))
    \<and> set (snd (visit_transitions t2p rp s tids)) \<subseteq> set (snd s) \<union> (\<Union>t \<in> set tids. set (multi_get t t2p))
    \<and> (\<forall>t \<in> set (fst (visit_transitions t2p rp s tids)).
         set (multi_get t t2p) \<subseteq> set rp \<union> set (snd (visit_transitions t2p rp s tids)))"
  using assms
proof (induction tids arbitrary: s)
  case (Cons tid tids)
  let ?s = "visit_transition t2p rp s tid"
  have s: "set (fst ?s) = insert tid (set (fst s))" "set (snd s) \<subseteq> set (snd ?s)"
    "set (snd ?s) \<subseteq> set (snd s) \<union> set (multi_get tid t2p)"
    by (auto simp: visit_transition_def)
  have "\<forall>t \<in> set (fst ?s). set (multi_get t t2p) \<subseteq> set rp \<union> set (snd ?s)"
    using Cons.prems by (auto simp: visit_transition_def)
  note IH = Cons.IH [OF this]
  show ?case unfolding foldl_Cons
    by (intro conjI) (use IH s in \<open>auto simp: subset_iff\<close>)
qed auto

lemma flow_bfs_spec:
  assumes "set rp \<union> set q \<subseteq> (hop p2t t2p)\<^sup>* `` S" "S \<subseteq> set rp \<union> set q"
    and "set rt = (\<Union>p \<in> set rp. set (multi_get p p2t))"
    and "\<forall>t \<in> set rt. set (multi_get t t2p) \<subseteq> set rp \<union> set q"
  shows "set (fst (flow_bfs p2t t2p q rp rt)) = (hop p2t t2p)\<^sup>* `` S
    \<and> set (snd (flow_bfs p2t t2p q rp rt)) = (\<Union>p \<in> (hop p2t t2p)\<^sup>* `` S. set (multi_get p p2t))"
  using assms
proof (induction p2t t2p q rp rt rule: flow_bfs.induct)
  case (1 p2t t2p rp rt)
  have closed: "b \<in> set rp" if "a \<in> set rp" "(a, b) \<in> hop p2t t2p" for a b
    using that 1 unfolding hop_def by (simp; blast)
  have "b \<in> set rp" if "(a, b) \<in> (hop p2t t2p)\<^sup>*" "a \<in> set rp" for a b
    using that by (induction rule: rtrancl_induct) (auto intro: closed)
  then have "(hop p2t t2p)\<^sup>* `` S \<subseteq> set rp" using 1(2) by auto
  with 1(1) have "set rp = (hop p2t t2p)\<^sup>* `` S" by simp
  with 1(3) show ?case by simp
next
  case (2 p2t t2p p q rp rt)
  show ?case
  proof (cases "p \<in> set rp")
    case True
    then have "insert p (set rp \<union> set q) = set rp \<union> set q" by blast
    with 2 True show ?thesis by (simp add: insert_absorb)
  next
    case False
    let ?v = "visit_transitions t2p (rp @ [p]) (rt, q) (multi_get p p2t)"
    have "\<forall>t \<in> set (fst (rt, q)). set (multi_get t t2p) \<subseteq> set (rp @ [p]) \<union> set (snd (rt, q))"
      using "2.prems"(4) by auto
    note v = visit_transitions_spec [OF this, of "multi_get p p2t"]
    have p: "p \<in> (hop p2t t2p)\<^sup>* `` S" using "2.prems"(1) by simp
    have d: "(\<Union>t \<in> set (multi_get p p2t). set (multi_get t t2p)) \<subseteq> (hop p2t t2p)\<^sup>* `` S"
      using p unfolding hop_def by (auto intro: rtrancl_into_rtrancl)
    have q: "set q \<subseteq> (hop p2t t2p)\<^sup>* `` S" "set rp \<subseteq> (hop p2t t2p)\<^sup>* `` S" using "2.prems"(1) by auto
    have "set (snd ?v) \<subseteq> set q \<union> (\<Union>t \<in> set (multi_get p p2t). set (multi_get t t2p))" using v by simp
    then have "set (snd ?v) \<subseteq> (hop p2t t2p)\<^sup>* `` S" by (rule order_trans) (rule Un_least [OF q(1) d])
    with q p have r1: "set (rp @ [p]) \<union> set (snd ?v) \<subseteq> (hop p2t t2p)\<^sup>* `` S" by simp
    have r2: "S \<subseteq> set (rp @ [p]) \<union> set (snd ?v)" using v "2.prems"(2) by auto
    have r3: "set (fst ?v) = (\<Union>p \<in> set (rp @ [p]). set (multi_get p p2t))" using v "2.prems"(3) by auto
    have r4: "\<forall>t \<in> set (fst ?v). set (multi_get t t2p) \<subseteq> set (rp @ [p]) \<union> set (snd ?v)" using v by blast
    from "2.IH"(2) [OF False r1 r2 r3 r4] False show ?thesis by simp
  qed
qed

lemma flow_bfs_reaches:
  "set (fst (flow_bfs p2t t2p q [] [])) = (hop p2t t2p)\<^sup>* `` set q
   \<and> set (snd (flow_bfs p2t t2p q [] [])) = (\<Union>p \<in> (hop p2t t2p)\<^sup>* `` set q. set (multi_get p p2t))"
  by (rule flow_bfs_spec) auto

section \<open>The maps are the schema's edges\<close>

definition schema_edges :: "flow_schema \<Rightarrow> (string \<times> string) set" where
  "schema_edges s = {(td_from t, q) | t q. t \<in> set (fs_transitions s) \<and> q \<in> snd ` set (td_to t)}"

lemma multi_fold_values:
  "set (multi_get k (foldl (\<lambda>m q. multi_add a q m) m qs)) =
     set (multi_get k m) \<union> (if k = a then set qs else {})"
  by (induction qs arbitrary: m) auto

lemma multi_fold_keys:
  "set (multi_get k (foldl (\<lambda>m q. multi_add q a m) m qs)) =
     set (multi_get k m) \<union> (if k \<in> set qs then {a} else {})"
  by (induction qs arbitrary: m) auto

lemma placeToTransitions_set:
  "set (multi_get p (placeToTransitions ts)) = {td_id t | t. t \<in> set ts \<and> td_from t = p}"
proof -
  have "set (multi_get p (foldl (\<lambda>m t. multi_add (td_from t) (td_id t) m) m ts)) =
      set (multi_get p m) \<union> {td_id t | t. t \<in> set ts \<and> td_from t = p}" for m
    by (induction ts arbitrary: m) auto
  then show ?thesis by (simp add: placeToTransitions_def)
qed

lemma transitionFromPlaces_set:
  "set (multi_get i (transitionFromPlaces ts)) = {td_from t | t. t \<in> set ts \<and> td_id t = i}"
proof -
  have "set (multi_get i (foldl (\<lambda>m t. multi_add (td_id t) (td_from t) m) m ts)) =
      set (multi_get i m) \<union> {td_from t | t. t \<in> set ts \<and> td_id t = i}" for m
    by (induction ts arbitrary: m) auto
  then show ?thesis by (simp add: transitionFromPlaces_def)
qed

lemma transitionToPlaces_set:
  "set (multi_get i (transitionToPlaces ts)) = {q. \<exists>t \<in> set ts. td_id t = i \<and> q \<in> snd ` set (td_to t)}"
proof -
  have "set (multi_get i (foldl (\<lambda>m t. foldl (\<lambda>m placeId. multi_add (td_id t) placeId m) (multi_key (td_id t) m)
        (js_values (td_to t))) m ts)) =
      set (multi_get i m) \<union> {q. \<exists>t \<in> set ts. td_id t = i \<and> q \<in> snd ` set (td_to t)}" for m
    by (induction ts arbitrary: m) (auto simp: multi_fold_values)
  then show ?thesis by (simp add: transitionToPlaces_def)
qed

lemma placeFromTransitions_set:
  "set (multi_get p (placeFromTransitions ts)) = {td_id t | t. t \<in> set ts \<and> p \<in> snd ` set (td_to t)}"
proof -
  have "set (multi_get p (foldl (\<lambda>m t. foldl (\<lambda>m placeId. multi_add placeId (td_id t) m) m (js_values (td_to t))) m ts)) =
      set (multi_get p m) \<union> {td_id t | t. t \<in> set ts \<and> p \<in> snd ` set (td_to t)}" for m
  proof (induction ts arbitrary: m)
    case (Cons t ts)
    show ?case by (auto simp: Cons.IH multi_fold_keys)
  qed simp
  then show ?thesis by (simp add: placeFromTransitions_def)
qed

lemma same_transition:
  "distinct (map td_id ts) \<Longrightarrow> t \<in> set ts \<Longrightarrow> t' \<in> set ts \<Longrightarrow> td_id t = td_id t' \<Longrightarrow> t = t'"
  by (simp add: distinct_map inj_on_def)

lemma hop_forward:
  assumes "distinct (map td_id (fs_transitions s))"
  shows "hop (placeToTransitions (fs_transitions s)) (transitionToPlaces (fs_transitions s)) = schema_edges s"
proof -
  let ?ts = "set (fs_transitions s)"
  have "(\<exists>i \<in> {td_id t | t. t \<in> ?ts \<and> td_from t = a}. \<exists>t \<in> ?ts. td_id t = i \<and> b \<in> snd ` set (td_to t)) \<longleftrightarrow>
      (\<exists>t \<in> ?ts. td_from t = a \<and> b \<in> snd ` set (td_to t))" (is "?L \<longleftrightarrow> ?R") for a b
  proof
    assume ?L
    then obtain t t' where "t \<in> ?ts" "td_from t = a" "t' \<in> ?ts" "td_id t' = td_id t" "b \<in> snd ` set (td_to t')" by auto
    with same_transition [OF assms] show ?R by metis
  qed auto
  then show ?thesis
    unfolding hop_def schema_edges_def placeToTransitions_set transitionToPlaces_set mem_Collect_eq by auto
qed

lemma hop_backward:
  assumes "distinct (map td_id (fs_transitions s))"
  shows "hop (placeFromTransitions (fs_transitions s)) (transitionFromPlaces (fs_transitions s)) = (schema_edges s)\<inverse>"
proof -
  let ?ts = "set (fs_transitions s)"
  have "(\<exists>i \<in> {td_id t | t. t \<in> ?ts \<and> a \<in> snd ` set (td_to t)}. b \<in> {td_from t | t. t \<in> ?ts \<and> td_id t = i}) \<longleftrightarrow>
      (\<exists>t \<in> ?ts. td_from t = b \<and> a \<in> snd ` set (td_to t))" (is "?L \<longleftrightarrow> ?R") for a b
  proof
    assume ?L
    then obtain t t' where "t \<in> ?ts" "a \<in> snd ` set (td_to t)" "t' \<in> ?ts" "td_id t' = td_id t" "b = td_from t'" by auto
    with same_transition [OF assms] show ?R by metis
  qed auto
  then show ?thesis
    unfolding hop_def schema_edges_def placeFromTransitions_set transitionFromPlaces_set by auto
qed

section \<open>What an accepted schema guarantees\<close>

lemma concat_Nil: "concat (map f xs) = [] \<longleftrightarrow> (\<forall>x \<in> set xs. f x = [])"
  by simp

lemma check_duplicates_distinct:
  assumes "check_duplicates s = []"
  shows "distinct (map pd_id (fs_places s))" "distinct (map td_id (fs_transitions s))"
proof -
  from assms have "length (placeMap s) = length (fs_places s)" "length (transMap s) = length (fs_transitions s)"
    by (simp_all add: check_duplicates_def split: if_splits)
  then show "distinct (map pd_id (fs_places s))" "distinct (map td_id (fs_transitions s))"
    unfolding placeMap_def transMap_def length_js_of_list
    by (auto intro!: card_distinct simp: image_image)
qed

lemma placeMap_Some: "js_get (placeMap s) i = Some p \<Longrightarrow> p \<in> set (fs_places s) \<and> pd_id p = i"
  unfolding placeMap_def js_get_of_list by (auto dest!: map_of_SomeD)

lemma transMap_Some: "js_get (transMap s) i = Some t \<Longrightarrow> t \<in> set (fs_transitions s) \<and> td_id t = i"
  unfolding transMap_def js_get_of_list by (auto dest!: map_of_SomeD)

lemma check_complete_Nil: "check_complete s = [] \<Longrightarrow> \<forall>t \<in> set (fs_transitions s). td_consumes t \<noteq> [] \<and> td_to t \<noteq> []"
  unfolding check_complete_def concat_Nil by (simp split: if_split_asm)

lemma check_paths_Nil:
  assumes "check_paths s = []" "inboundPlaces s \<noteq> []" "outboundPlaces s \<noteq> []"
  shows "\<forall>p \<in> set (fs_places s). pd_id p \<in> set (fst (forward_reach s)) \<and> pd_id p \<in> set (fst (backward_reach s))"
    "\<forall>t \<in> set (fs_transitions s). td_id t \<in> set (snd (forward_reach s)) \<and> td_id t \<in> set (snd (backward_reach s))"
  using assms unfolding check_paths_def Let_def
  by (simp_all only: if_P simp_thms append_is_Nil_conv concat_Nil) (simp_all split: if_split_asm)

text \<open>
  C37. A schema that validates is sound: its place and transition ids are distinct, it has exactly
  one inbound place, every place and every transition lies on a directed path from the
  inbound place to some outbound place, every transition consumes and produces.
\<close>

theorem validated_schema_is_sound:
  assumes "validate s = []"
  shows "distinct (map pd_id (fs_places s)) \<and> distinct (map td_id (fs_transitions s))
    \<and> (\<exists>inb. inboundPlaces s = [inb]
        \<and> (\<forall>p \<in> set (fs_places s). (pd_id inb, pd_id p) \<in> (schema_edges s)\<^sup>*
             \<and> (\<exists>out \<in> set (outboundPlaces s). (pd_id p, pd_id out) \<in> (schema_edges s)\<^sup>*))
        \<and> (\<forall>t \<in> set (fs_transitions s). td_consumes t \<noteq> [] \<and> (pd_id inb, td_from t) \<in> (schema_edges s)\<^sup>*
             \<and> (\<exists>q \<in> snd ` set (td_to t). \<exists>out \<in> set (outboundPlaces s). (q, pd_id out) \<in> (schema_edges s)\<^sup>*)))"
proof -
  have checks: "check_duplicates s = []" "check_complete s = []" "check_boundary s = []" "check_paths s = []"
    using assms by (simp_all add: validate_def)
  note dist = check_duplicates_distinct [OF checks(1)]
  from checks(3) obtain inb where inb: "inboundPlaces s = [inb]" and out: "outboundPlaces s \<noteq> []"
    by (cases "inboundPlaces s"; cases "tl (inboundPlaces s)") (auto simp: check_boundary_def split: if_splits)
  have fwd: "set (fst (forward_reach s)) = (schema_edges s)\<^sup>* `` {pd_id inb}"
    "set (snd (forward_reach s)) = (\<Union>p \<in> (schema_edges s)\<^sup>* `` {pd_id inb}. set (multi_get p (placeToTransitions (fs_transitions s))))"
    unfolding forward_reach_def inb
    using flow_bfs_reaches [of "placeToTransitions (fs_transitions s)" "transitionToPlaces (fs_transitions s)" "[pd_id inb]"]
    by (simp_all add: hop_forward [OF dist(2)])
  have bwd: "set (fst (backward_reach s)) = ((schema_edges s)\<inverse>)\<^sup>* `` (pd_id ` set (outboundPlaces s))"
    "set (snd (backward_reach s)) = (\<Union>p \<in> ((schema_edges s)\<inverse>)\<^sup>* `` (pd_id ` set (outboundPlaces s)).
        set (multi_get p (placeFromTransitions (fs_transitions s))))"
    unfolding backward_reach_def
    using flow_bfs_reaches [of "placeFromTransitions (fs_transitions s)" "transitionFromPlaces (fs_transitions s)"
        "js_set_of (map pd_id (outboundPlaces s))"]
    by (simp_all add: hop_backward [OF dist(2)])
  note paths = check_paths_Nil [OF checks(4) _ out, unfolded inb, OF list.simps(3)]
  note places = paths(1) [THEN bspec] and transs = paths(2) [THEN bspec]
  have "td_consumes t \<noteq> [] \<and> (pd_id inb, td_from t) \<in> (schema_edges s)\<^sup>*
      \<and> (\<exists>q \<in> snd ` set (td_to t). \<exists>out \<in> set (outboundPlaces s). (q, pd_id out) \<in> (schema_edges s)\<^sup>*)"
    if t: "t \<in> set (fs_transitions s)" for t
  proof (intro conjI)
    show "td_consumes t \<noteq> []" using check_complete_Nil [OF checks(2)] t by blast
    from transs [OF t] obtain t'' where "t'' \<in> set (fs_transitions s)" "td_id t = td_id t''"
      "(pd_id inb, td_from t'') \<in> (schema_edges s)\<^sup>*"
      unfolding fwd placeToTransitions_set by blast
    then show "(pd_id inb, td_from t) \<in> (schema_edges s)\<^sup>*"
      using same_transition [OF dist(2) t] by blast
    from transs [OF t] obtain q t' out where "(q, pd_id out) \<in> (schema_edges s)\<^sup>*" "out \<in> set (outboundPlaces s)"
      "t' \<in> set (fs_transitions s)" "td_id t = td_id t'" "q \<in> snd ` set (td_to t')"
      unfolding bwd placeFromTransitions_set rtrancl_converse by blast
    then show "\<exists>q \<in> snd ` set (td_to t). \<exists>out \<in> set (outboundPlaces s). (q, pd_id out) \<in> (schema_edges s)\<^sup>*"
      using same_transition [OF dist(2) t] by blast
  qed
  moreover have "(pd_id inb, pd_id p) \<in> (schema_edges s)\<^sup>*
      \<and> (\<exists>out \<in> set (outboundPlaces s). (pd_id p, pd_id out) \<in> (schema_edges s)\<^sup>*)"
    if "p \<in> set (fs_places s)" for p
    using places [OF that] unfolding fwd bwd rtrancl_converse by auto
  ultimately show ?thesis using dist inb by blast
qed

text \<open>An order flow with one transition.\<close>

definition demo_schema :: flow_schema where
  "demo_schema = \<lparr>fs_places = [placeDef ''in'' [''a''] Inbound, placeDef ''out'' [''b''] Outbound],
     fs_transitions = [transitionDef ''t'' ''in'' [''a''] [(''b'', ''out'')]]\<rparr>"

lemmas validate_defs = validate_def check_duplicates_def check_references_def check_tokens_def check_used_def
  check_complete_def check_boundary_def check_inbound_tokens_def check_connected_def check_paths_def check_gaps_def
  placeMap_def transMap_def usedPlaces_def inboundPlaces_def outboundPlaces_def adjacency_def
  placeToTransitions_def transitionToPlaces_def transitionFromPlaces_def placeFromTransitions_def
  forward_reach_def backward_reach_def producedTokensByPlace_def multi_add_def multi_get_def multi_key_def
  visit_transition_def js_of_list_def js_set_of_def js_add_def placeDef_def transitionDef_def Let_def

lemma demo_schema_valid: "validate demo_schema = []"
  by (simp add: demo_schema_def validate_defs)

theorem validated_schema_is_sound_witness:
  "validate demo_schema = [] \<and> (''in'', ''out'') \<in> (schema_edges demo_schema)\<^sup>*"
proof -
  have "inboundPlaces demo_schema = [placeDef ''in'' [''a''] Inbound]"
    by (simp add: demo_schema_def inboundPlaces_def placeDef_def)
  moreover have "placeDef ''out'' [''b''] Outbound \<in> set (fs_places demo_schema)" by (simp add: demo_schema_def)
  ultimately have "(pd_id (placeDef ''in'' [''a''] Inbound), pd_id (placeDef ''out'' [''b''] Outbound))
      \<in> (schema_edges demo_schema)\<^sup>*"
    using validated_schema_is_sound [OF demo_schema_valid] by auto
  then show ?thesis using demo_schema_valid by (simp add: placeDef_def)
qed

lemma js_get_of_defs:
  "js_get (js_of_list (map (\<lambda>x. (g x, f x)) xs)) k = map_option f (js_get (js_of_list (map (\<lambda>x. (g x, x)) xs)) k)"
  by (induction xs rule: rev_induct) auto

text \<open>
  C38. In a compiled flow no produced token is lost: for every transition and every token with a
  tag the transition routes, the result has a destination, that place exists, accepts
  the token and \<open>addToken\<close> stores it; and every tag the transition consumes is accepted by
  the place it consumes from. (A place whose id is the empty string is the exception:
  \<open>placeForResult\<close> takes it for no place.)
\<close>

theorem compiled_flow_routes_tokens:
  assumes "compileSchema now s flowId r b = Inr flow" "js_get (fl_transitions flow) k = Some t"
    and "js_get (tr_produces t) (tk_tag tok) = Some q" "q \<noteq> []"
  shows "(\<exists>pl. placeForResult flow k tok = Some pl \<and> pl_id pl = q)
    \<and> flow_tokens (addToken now' flow q tok span) = flow_tokens flow + {#tok#}
    \<and> (\<exists>src. js_get (fl_places flow) (tr_from t) = Some src \<and> set (tr_consumes t) \<subseteq> set (pl_accepts src))"
proof -
  have v: "validate s = []" and flow: "fl_transitions flow = js_of_list (map (\<lambda>t. (td_id t, transitionInstanceFromDef t)) (fs_transitions s))"
    "fl_places flow = js_of_list (map (\<lambda>p. (pd_id p, placeInstanceFromDef p)) (fs_places s))"
    using assms(1) by (auto simp: compileSchema_def Let_def createExecutableFlow_def split: if_splits)
  have places: "js_get (fl_places flow) i = map_option placeInstanceFromDef (js_get (placeMap s) i)" for i
    unfolding flow placeMap_def by (rule js_get_of_defs)
  have "js_get (fl_transitions flow) k = map_option transitionInstanceFromDef (js_get (transMap s) k)"
    unfolding flow transMap_def by (rule js_get_of_defs)
  with assms(2) obtain d where d: "js_get (transMap s) k = Some d" "t = transitionInstanceFromDef d" by auto
  from transMap_Some [OF d(1)] have d_in: "d \<in> set (fs_transitions s)" by simp
  have t: "tr_produces t = td_to d" "tr_from t = td_from d" "tr_consumes t = td_consumes d"
    by (simp_all add: d(2) transitionInstanceFromDef_def)
  have checks: "check_references s = []" "check_tokens s = []" using v by (simp_all add: validate_def)
  have route: "(tk_tag tok, q) \<in> set (td_to d)" using assms(3) t by (auto dest: map_of_SomeD)
  have "has_place s q" using checks(1) d_in route by (fastforce simp: check_references_def split: if_splits)
  then obtain dest where dest: "js_get (placeMap s) q = Some dest" by auto
  then have acc: "tk_tag tok \<in> set (pd_accepts dest)"
    using checks(2) d_in route by (fastforce simp: check_tokens_def split: if_splits)
  have "\<forall>t \<in> set (fs_transitions s). has_place s (td_from t)"
    using checks(1) unfolding check_references_def append_is_Nil_conv concat_Nil by (auto split: if_splits)
  then have "has_place s (td_from d)" using d_in by blast
  then obtain src where src: "js_get (placeMap s) (td_from d) = Some src" by auto
  then have consumes: "set (td_consumes d) \<subseteq> set (pd_accepts src)"
    using checks(2) d_in by (fastforce simp: check_tokens_def split: if_splits)
  have "placeForResult flow k tok = Some (placeInstanceFromDef dest)"
    using assms(2-4) places dest by (simp add: placeForResult_def)
  moreover have "pl_id (placeInstanceFromDef dest) = q"
    using placeMap_Some [OF dest] by (simp add: placeInstanceFromDef_def)
  moreover have "accepts flow q tok" using places dest acc by (simp add: accepts_def placeInstanceFromDef_def)
  moreover have "js_get (fl_places flow) (tr_from t) = Some (placeInstanceFromDef src)" using places src t by simp
  moreover have "set (tr_consumes t) \<subseteq> set (pl_accepts (placeInstanceFromDef src))"
    using consumes t by (simp add: placeInstanceFromDef_def)
  ultimately show ?thesis by (auto simp: flow_tokens_addToken)
qed

lemma demo_compile:
  "\<exists>flow. compileSchema 0 demo_schema ''f'' None None = Inr (flow :: unit flow)
     \<and> (\<exists>t. js_get (fl_transitions flow) ''t'' = Some t \<and> js_get (tr_produces t) ''b'' = Some ''out'')"
  by (simp add: compileSchema_def demo_schema_valid Let_def)
    (simp add: demo_schema_def createExecutableFlow_def transitionInstanceFromDef_def transitionDef_def js_of_list_def)

theorem compiled_flow_routes_tokens_witness:
  "\<exists>flow pl. compileSchema 0 demo_schema ''f'' None None = Inr (flow :: unit flow)
     \<and> placeForResult flow ''t'' \<lparr>tk_tag = ''b'', tk_data = ()\<rparr> = Some pl \<and> pl_id pl = ''out''"
proof -
  obtain flow :: "unit flow" and t where f: "compileSchema 0 demo_schema ''f'' None None = Inr flow"
    "js_get (fl_transitions flow) ''t'' = Some t" "js_get (tr_produces t) ''b'' = Some ''out''"
    using demo_compile by blast
  have "js_get (tr_produces t) (tk_tag \<lparr>tk_tag = ''b'', tk_data = ()\<rparr>) = Some ''out''" using f(3) by simp
  from compiled_flow_routes_tokens [OF f(1,2) this] f(1) show ?thesis by auto
qed

end
