(* ===== verification/Petri_Aggregate.thy ===== *)
theory Petri_Aggregate
  imports Petri_Schema Effects
begin

text \<open>
  \<open>petrinet/flow-aggregate.ts\<close>: the event-sourced entity around a flow. Commands become
  events (\<open>eventsOnCommand\<close>), events update the flow (\<open>updateFlowState\<close>), and \<open>flow_decide\<close>
  builds the effect the entity runner executes. The pending deferred replies are the
  closure's state \<open>flow_closure\<close>; deferreds are numbered. Transition executors and outbound
  handlers are the user's code: parameters that see the number of the external call.
\<close>

section \<open>Commands, replies, events, state\<close>

datatype 'd flow_command =
    InboundToken "'d token" "string list" string
  | GetFlowInstanceView
  | TransitionResult string "'d token list" string
  | TransitionError string string string

datatype 'd flow_reply =
    TokenRejected "'d token" string
  | OutboundTokens "(string, 'd token list) jsmap" string
  | FlowInstanceView "(string, 'd token list) jsmap" "(string, transition_state) jsmap"

datatype 'd flow_event =
    TokenAdded string "'d token" string
  | TransitionFired string string "'d token list" string
  | TransitionCompleted string "(string, 'd token list) jsmap" string
  | TransitionFailed string string string

record 'd flow_state =
  fs_flow :: "'d flow"
  fs_tokenHistory :: "(string, string) jsmap"

fun updateFlowState :: "int \<Rightarrow> 'd flow_state \<Rightarrow> 'd flow_event \<Rightarrow> 'd flow_state" where
  "updateFlowState now st (TokenAdded placeId tok spanId) =
     \<lparr>fs_flow = addToken now (fs_flow st) placeId tok None,
      fs_tokenHistory = js_set spanId placeId (fs_tokenHistory st)\<rparr>"
| "updateFlowState now st (TransitionFired transitionId src consumed spanId) =
     st\<lparr>fs_flow := recordTransitionStart now (fs_flow st) src transitionId\<rparr>"
| "updateFlowState now st (TransitionCompleted transitionId dest spanId) =
     st\<lparr>fs_flow := recordTransitionCompletion now (fs_flow st) transitionId dest spanId\<rparr>"
| "updateFlowState now st (TransitionFailed transitionId src spanId) =
     st\<lparr>fs_flow := recordTransitionFailure now (fs_flow st) transitionId src\<rparr>"

section \<open>Events of a command\<close>

definition followUpEvents ::
  "int \<Rightarrow> 'd flow_state \<Rightarrow> 'd token \<Rightarrow> 'd place \<Rightarrow> string \<Rightarrow> 'd flow_event list" where
  "followUpEvents now st tok place spanId =
     TokenAdded (pl_id place) tok spanId
     # map (\<lambda>(t, tokens). TransitionFired (tr_id t) (pl_id place) tokens spanId)
         (transitionsReady now (addToken now (fs_flow st) (pl_id place) tok None))"

definition route_results :: "'d flow \<Rightarrow> string \<Rightarrow> 'd token list \<Rightarrow> (string, 'd token list) jsmap" where
  "route_results flow transitionId tokens =
     foldl (\<lambda>m tok. case placeForResult flow transitionId tok of
              None \<Rightarrow> m
            | Some dest \<Rightarrow> js_set (pl_id dest) ((case js_get m (pl_id dest) of None \<Rightarrow> [] | Some ts \<Rightarrow> ts) @ [tok]) m)
       [] tokens"

fun eventsOnCommand :: "int \<Rightarrow> 'd flow_state \<Rightarrow> 'd flow_command \<Rightarrow> 'd flow_event list" where
  "eventsOnCommand now st (InboundToken tok expects spanId) =
     concat (map (\<lambda>place. if pl_type place = Inbound \<and> tk_tag tok \<in> set (pl_accepts place)
         then followUpEvents now st tok place spanId else []) (js_values (fl_places (fs_flow st))))"
| "eventsOnCommand now st (TransitionResult transitionId tokens spanId) =
     (let tokensByPlace = route_results (fs_flow st) transitionId tokens
      in TransitionCompleted transitionId tokensByPlace spanId
         # concat (map (\<lambda>(placeId, toks).
             case js_get (fl_places (fs_flow st)) placeId of
               None \<Rightarrow> []
             | Some place \<Rightarrow> concat (map (\<lambda>tok. followUpEvents now st tok place spanId) toks)) tokensByPlace))"
| "eventsOnCommand now st (TransitionError transitionId message spanId) =
     (case js_get (fl_transitions (fs_flow st)) transitionId of
        None \<Rightarrow> []
      | Some t \<Rightarrow> [TransitionFailed transitionId (tr_from t) spanId])"
| "eventsOnCommand now st GetFlowInstanceView = []"

section \<open>Replies and side effects\<close>

datatype 'd flow_side_effect =
    ExecuteTransition string "'d token list" string
  | OutboundToken string "'d token"
  | LogEffect string string

definition flow_view :: "'d flow \<Rightarrow> 'd flow_reply" where
  "flow_view flow =
     FlowInstanceView (js_of_list (map (\<lambda>(i, p). (i, pl_tokens p)) (fl_places flow)))
       (js_of_list (map (\<lambda>(i, t). (i, tr_state t)) (fl_transitions flow)))"

text \<open>The tokens of an outbound place that the given span touched last.\<close>

definition outbound_ready :: "'d flow \<Rightarrow> string \<Rightarrow> string \<Rightarrow> 'd token list option" where
  "outbound_ready flow spanId placeId =
     (case js_get (fl_places flow) placeId of
        None \<Rightarrow> None
      | Some p \<Rightarrow> if pl_type p = Outbound \<and> pl_tokens p \<noteq> [] \<and> pl_lastSpan p = Some spanId
                  then Some (pl_tokens p) else None)"

fun first_outbound :: "'d flow \<Rightarrow> string \<Rightarrow> string list \<Rightarrow> 'd flow_reply option" where
  "first_outbound flow spanId [] = None"
| "first_outbound flow spanId (p # ps) =
     (case outbound_ready flow spanId p of
        Some tokens \<Rightarrow> Some (OutboundTokens [(p, tokens)] spanId)
      | None \<Rightarrow> first_outbound flow spanId ps)"

fun event_side_effect :: "'d flow \<Rightarrow> 'd flow_event \<Rightarrow> 'd flow_side_effect list" where
  "event_side_effect flow (TransitionFired t src consumed spanId) = [ExecuteTransition t consumed spanId]"
| "event_side_effect flow (TokenAdded placeId tok spanId) =
     (case js_get (fl_places flow) placeId of
        Some p \<Rightarrow> if pl_type p = Outbound then [OutboundToken placeId tok] else []
      | None \<Rightarrow> [])"
| "event_side_effect flow (TransitionCompleted t dest spanId) = [LogEffect t (t @ '' completed'')]"
| "event_side_effect flow (TransitionFailed t src spanId) = []"

definition handleFlowCommand ::
  "int \<Rightarrow> 'd flow_state \<Rightarrow> 'd flow_command \<Rightarrow> 'd flow_event list \<times> 'd flow_reply option \<times> 'd flow_side_effect list" where
  "handleFlowCommand now st command =
     (let events = eventsOnCommand now st command
      in case command of
           GetFlowInstanceView \<Rightarrow> (events, Some (flow_view (fs_flow st)), [])
         | _ \<Rightarrow>
             (let newFlow = fs_flow (foldl (updateFlowState now) st events);
                  sideEffects = concat (map (event_side_effect newFlow) events);
                  reply = (case command of
                      InboundToken tok expects spanId \<Rightarrow> first_outbound newFlow spanId expects
                    | _ \<Rightarrow> None)
              in (events, reply, sideEffects)))"

section \<open>Externals\<close>

text \<open>An executor returns produced tokens or an error, or throws; a handler may throw.\<close>

record 'd externals =
  ex_transitions :: "(string, nat \<Rightarrow> 'd token list \<Rightarrow> js_error + (string + 'd token list)) jsmap"
  ex_outbound :: "(string, nat \<Rightarrow> 'd token \<Rightarrow> js_error option) jsmap"

datatype 'd ext_call = CallExecutor string "'d token list" | CallOutbound string "'d token"

text \<open>The external calls made, whether it throws, the commands for the entity itself.\<close>

type_synonym 'd ext_result = "'d ext_call list \<times> js_error option \<times> 'd flow_command list"

definition call_executor ::
  "(nat \<Rightarrow> 'd token list \<Rightarrow> js_error + (string + 'd token list)) \<Rightarrow> nat \<Rightarrow> string \<Rightarrow> 'd token list \<Rightarrow> string \<Rightarrow> 'd ext_result" where
  "call_executor executor n transitionId consumed spanId =
     ([CallExecutor transitionId consumed],
      (case executor n consumed of
         Inl e \<Rightarrow> (Some e, [])
       | Inr (Inr tokens) \<Rightarrow> (None, [TransitionResult transitionId tokens spanId])
       | Inr (Inl message) \<Rightarrow> (None, [TransitionError transitionId message spanId])))"

text \<open>An empty id or span counts as absent.\<close>

definition execute_side_effect :: "'d externals \<Rightarrow> nat \<Rightarrow> 'd flow_side_effect \<Rightarrow> 'd ext_result" where
  "execute_side_effect ext n eff =
     (case eff of
        ExecuteTransition transitionId consumed spanId \<Rightarrow>
          (if transitionId = [] \<or> spanId = [] then ([], None, [])
           else case js_get (ex_transitions ext) transitionId of
                  None \<Rightarrow> ([], None, [])
                | Some executor \<Rightarrow> call_executor executor n transitionId consumed spanId)
      | OutboundToken placeId tok \<Rightarrow>
          (if placeId = [] then ([], None, [])
           else case js_get (ex_outbound ext) placeId of
                  None \<Rightarrow> ([], None, [])
                | Some handler \<Rightarrow> ([CallOutbound placeId tok], handler n tok, []))
      | LogEffect _ _ \<Rightarrow> ([], None, []))"

text \<open>One after the other, each awaited; the first throw ends it.\<close>

fun run_in_order :: "(nat \<Rightarrow> 'x \<Rightarrow> 'd ext_result) \<Rightarrow> nat \<Rightarrow> 'x list \<Rightarrow> 'd ext_result" where
  "run_in_order f n [] = ([], None, [])"
| "run_in_order f n (x # xs) =
     (case f n x of
        (calls, Some e, cmds) \<Rightarrow> (calls, Some e, cmds)
      | (calls, None, cmds) \<Rightarrow>
          (case run_in_order f (n + length calls) xs of
             (calls', err, cmds') \<Rightarrow> (calls @ calls', err, cmds @ cmds')))"

definition executeSideEffects :: "'d externals \<Rightarrow> nat \<Rightarrow> 'd flow_side_effect list \<Rightarrow> 'd ext_result" where
  "executeSideEffects ext n effs = run_in_order (execute_side_effect ext) n effs"

section \<open>The aggregate\<close>

text \<open>The closures of \<open>buildSideEffectsFromEvents\<close>, and what running one does.\<close>

datatype 'd flow_fx =
    FxFire string "'d token list" string
  | FxLog string
  | FxOutbound string "'d token"

fun event_fx :: "'d flow \<Rightarrow> 'd externals \<Rightarrow> 'd flow_event \<Rightarrow> 'd flow_fx list" where
  "event_fx flow ext (TransitionFired t src consumed spanId) =
     (if js_get (ex_transitions ext) t = None then [] else [FxFire t consumed spanId])"
| "event_fx flow ext (TransitionCompleted t dest spanId) = [FxLog t]"
| "event_fx flow ext (TokenAdded placeId tok spanId) =
     (case js_get (fl_places flow) placeId of
        Some p \<Rightarrow> if pl_type p = Outbound \<and> js_get (ex_outbound ext) placeId \<noteq> None then [FxOutbound placeId tok] else []
      | None \<Rightarrow> [])"
| "event_fx flow ext (TransitionFailed t src spanId) = []"

definition buildSideEffectsFromEvents :: "'d flow_event list \<Rightarrow> 'd flow \<Rightarrow> 'd externals \<Rightarrow> 'd flow_fx list" where
  "buildSideEffectsFromEvents events flow ext = concat (map (event_fx flow ext) events)"

definition run_flow_fx :: "'d externals \<Rightarrow> nat \<Rightarrow> 'd flow_fx \<Rightarrow> 'd ext_result" where
  "run_flow_fx ext n fx =
     (case fx of
        FxFire t consumed spanId \<Rightarrow>
          (case js_get (ex_transitions ext) t of
             None \<Rightarrow> ([], None, []) | Some executor \<Rightarrow> call_executor executor n t consumed spanId)
      | FxLog _ \<Rightarrow> ([], None, [])
      | FxOutbound placeId tok \<Rightarrow>
          (case js_get (ex_outbound ext) placeId of
             None \<Rightarrow> ([], None, []) | Some handler \<Rightarrow> ([CallOutbound placeId tok], handler n tok, [])))"

record pending_deferred =
  pd_deferred :: nat
  pd_expects :: "string list"
  pd_span :: string

record 'd flow_closure =
  pc_pending :: "(string, pending_deferred) jsmap"
  pc_completed :: "(nat \<times> 'd flow_reply) list"
  pc_next :: nat

definition deferredKey :: "string \<Rightarrow> string \<Rightarrow> string" where
  "deferredKey entityId spanId = entityId @ '':'' @ spanId"

fun try_complete ::
  "string \<Rightarrow> 'd flow \<Rightarrow> (string, pending_deferred) jsmap \<Rightarrow> 'd flow_closure \<Rightarrow> 'd flow_closure" where
  "try_complete entityId flow [] pc = pc"
| "try_complete entityId flow ((key, pending) # rest) pc =
     (if take (length (entityId @ '':'')) key \<noteq> entityId @ '':'' then try_complete entityId flow rest pc
      else if pd_deferred pending \<in> fst ` set (pc_completed pc)
      then try_complete entityId flow rest (pc\<lparr>pc_pending := js_delete key (pc_pending pc)\<rparr>)
      else case first_outbound flow (pd_span pending) (pd_expects pending) of
             Some r \<Rightarrow> pc\<lparr>pc_pending := js_delete key (pc_pending pc),
                          pc_completed := pc_completed pc @ [(pd_deferred pending, r)]\<rparr>
           | None \<Rightarrow> try_complete entityId flow rest pc)"

definition tryCompleteDeferreds :: "string \<Rightarrow> 'd flow \<Rightarrow> 'd flow_closure \<Rightarrow> 'd flow_closure" where
  "tryCompleteDeferreds entityId flow pc = try_complete entityId flow (pc_pending pc) pc"

type_synonym 'd flow_effect = "('d flow_event, 'd flow_reply, 'd flow_fx, nat) effect"

definition flow_decide ::
  "'d externals \<Rightarrow> string \<Rightarrow> int \<Rightarrow> 'd flow_state \<Rightarrow> 'd flow_command \<Rightarrow> 'd flow_closure \<Rightarrow>
   'd flow_effect \<times> 'd flow_closure" where
  "flow_decide ext entityId now st command pc =
     (case command of
        GetFlowInstanceView \<Rightarrow> (reply (flow_view (fs_flow st)), pc)
      | _ \<Rightarrow>
          (let events = eventsOnCommand now st command
           in if events = [] then (done_eff, tryCompleteDeferreds entityId (fs_flow st) pc)
              else
                (let newFlow = fs_flow (foldl (updateFlowState now) st events);
                     effect = foldl andRun (persist events) (buildSideEffectsFromEvents events newFlow ext)
                 in case command of
                      InboundToken tok expects spanId \<Rightarrow>
                        (if expects = [] then (effect, pc)
                         else case first_outbound newFlow spanId expects of
                                Some r \<Rightarrow> (andReply effect r, pc)
                              | None \<Rightarrow>
                                  (andReplyDeferred effect (pc_next pc),
                                   pc\<lparr>pc_pending := js_set (deferredKey entityId spanId)
                                         \<lparr>pd_deferred = pc_next pc, pd_expects = expects, pd_span = spanId\<rparr> (pc_pending pc),
                                      pc_next := Suc (pc_next pc)\<rparr>))
                    | _ \<Rightarrow> (effect, tryCompleteDeferreds entityId newFlow pc))))"

section \<open>The effect of a decision\<close>

lemma chain_view_runs:
  "chain_view (foldl andRun (persist events) fxs) = (SPersist events # map SRun fxs, None)"
proof (induction fxs rule: rev_induct)
  case Nil
  show ?case by (simp add: persist_def)
next
  case (snoc fx fxs)
  then show ?case by (simp add: andRun_def chain_view_append view_append_def)
qed

lemma view_terminal:
  "chain_view (andReply (foldl andRun (persist events) fxs) r) = (SPersist events # map SRun fxs, Some (EReply r))"
  "chain_view (andReplyDeferred (foldl andRun (persist events) fxs) d) = (SPersist events # map SRun fxs, Some (EReplyDeferred d))"
  by (simp_all add: andReply_def andReplyDeferred_def chain_view_append chain_view_runs view_append_def)

text \<open>
  What the entity runner executes for a flow command: a view request only replies; a command
  without events does nothing; every other command persists exactly the command's events in
  one batch first, then runs its side effects in the order of the events, and answers only
  an inbound token that expects replies, at once when one of the expected outbound places
  holds tokens of its span and through a fresh deferred otherwise.
\<close>

lemma flow_decide_effect:
  "chain_view (fst (flow_decide ext entityId now st command pc)) =
    (let events = eventsOnCommand now st command;
         newFlow = fs_flow (foldl (updateFlowState now) st events);
         body = (if events = [] then [] else SPersist events # map SRun (buildSideEffectsFromEvents events newFlow ext))
     in case command of
          GetFlowInstanceView \<Rightarrow> ([], Some (EReply (flow_view (fs_flow st))))
        | InboundToken tok expects spanId \<Rightarrow>
            (body, if events = [] \<or> expects = [] then None
                   else case first_outbound newFlow spanId expects of
                          Some r \<Rightarrow> Some (EReply r)
                        | None \<Rightarrow> Some (EReplyDeferred (pc_next pc)))
        | _ \<Rightarrow> (body, None))"
  by (cases command)
    (auto simp: flow_decide_def Let_def reply_def done_eff_def chain_view_runs view_terminal
      simp del: eventsOnCommand.simps(1-3) split: option.splits)

section \<open>Two interpreters, one behaviour\<close>

lemma run_in_order_append:
  "run_in_order f n (xs @ ys) =
     (case run_in_order f n xs of
        (calls, Some e, cmds) \<Rightarrow> (calls, Some e, cmds)
      | (calls, None, cmds) \<Rightarrow>
          (case run_in_order f (n + length calls) ys of (calls', err, cmds') \<Rightarrow> (calls @ calls', err, cmds @ cmds')))"
  by (induction xs arbitrary: n) (auto simp: add.assoc split: prod.splits option.splits)

lemma run_in_order_blocks:
  assumes "\<And>n x. x \<in> set xs \<Longrightarrow> run_in_order f n (a x) = run_in_order g n (b x)"
  shows "run_in_order f n (concat (map a xs)) = run_in_order g n (concat (map b xs))"
  using assms
proof (induction xs arbitrary: n)
  case (Cons x xs)
  have "run_in_order f m (concat (map a xs)) = run_in_order g m (concat (map b xs))" for m
    using Cons.IH Cons.prems by simp
  moreover have "run_in_order f n (a x) = run_in_order g n (b x)" using Cons.prems by simp
  ultimately show ?case by (auto simp: run_in_order_append split: prod.split option.split)
qed simp

fun event_named :: "'d flow_event \<Rightarrow> bool" where
  "event_named (TransitionFired t src consumed spanId) = (t \<noteq> [] \<and> spanId \<noteq> [])"
| "event_named (TokenAdded placeId tok spanId) = (placeId \<noteq> [])"
| "event_named _ = True"

lemma event_fx_equiv:
  "event_named ev \<Longrightarrow> run_in_order (run_flow_fx ext) n (event_fx flow ext ev)
     = run_in_order (execute_side_effect ext) n (event_side_effect flow ev)"
  by (cases ev) (auto simp: run_flow_fx_def execute_side_effect_def split: option.splits prod.splits)

text \<open>
  The aggregate and the standalone pair \<open>handleFlowCommand\<close>, \<open>executeSideEffects\<close> agree: for the
  same state and command they give the same events, and running the aggregate's closures
  makes the same external calls in the same order, throws the same error and sends the
  entity the same commands (for ids and spans that are not empty strings).
\<close>

lemma flow_interpreters_agree:
  assumes "command \<noteq> GetFlowInstanceView" "\<forall>ev \<in> set (eventsOnCommand now st command). event_named ev"
    and "handleFlowCommand now st command = (events, answer, effs)"
    and "fst (chain_view (fst (flow_decide ext entityId now st command pc))) = SPersist events # map SRun fxs"
  shows "events = eventsOnCommand now st command
    \<and> run_in_order (run_flow_fx ext) n fxs = executeSideEffects ext n effs"
proof -
  let ?events = "eventsOnCommand now st command"
  let ?flow = "fs_flow (foldl (updateFlowState now) st ?events)"
  have h: "events = ?events" "effs = concat (map (event_side_effect ?flow) ?events)"
    using assms(1,3) by (cases command; simp add: handleFlowCommand_def Let_def del: eventsOnCommand.simps)+
  have "SPersist events # map SRun fxs = SPersist ?events # map SRun (buildSideEffectsFromEvents ?events ?flow ext)"
    using assms(1,4) unfolding flow_decide_effect h(1)
    by (cases command; cases "?events = []"; simp add: Let_def del: eventsOnCommand.simps)
  then have "fxs = buildSideEffectsFromEvents ?events ?flow ext"
    by (simp add: inj_map_eq_map inj_def)
  then show ?thesis
    unfolding h executeSideEffects_def buildSideEffectsFromEvents_def
    using run_in_order_blocks [of ?events "run_flow_fx ext" "event_fx ?flow ext" "execute_side_effect ext"
        "event_side_effect ?flow"] event_fx_equiv assms(2) by blast
qed

text \<open>The one-transition flow with an executor that turns every token into a \<open>b\<close>.\<close>

abbreviation tok_b :: "unit token" where "tok_b \<equiv> \<lparr>tk_tag = ''b'', tk_data = ()\<rparr>"

definition demo_state :: "unit flow_state" where
  "demo_state = \<lparr>fs_flow = demo_flow, fs_tokenHistory = []\<rparr>"

definition demo_ext :: "unit externals" where
  "demo_ext = \<lparr>ex_transitions = [(''t'', \<lambda>_ _. Inr (Inr [tok_b]))], ex_outbound = []\<rparr>"

definition demo_closure :: "unit flow_closure" where
  "demo_closure = \<lparr>pc_pending = [], pc_completed = [], pc_next = 0\<rparr>"

lemma demo_events:
  "eventsOnCommand 1 demo_state (InboundToken tok_a [''out''] ''s'')
     = [TokenAdded ''in'' tok_a ''s'', TransitionFired ''t'' ''in'' [tok_a] ''s'']"
  by (simp add: demo_state_def followUpEvents_def transitionsReady_def transition_ready_def demo_flow_defs
      List.map_filter_def)

lemma demo_not_ready:
  "first_outbound (fs_flow (foldl (updateFlowState 1) demo_state
      [TokenAdded ''in'' tok_a ''s'', TransitionFired ''t'' ''in'' [tok_a] ''s''])) ''s'' [''out''] = None"
  by (simp add: outbound_ready_def demo_state_def demo_flow_defs recordTransitionStart_def Let_def)

lemma flow_interpreters_agree_example:
  "executeSideEffects demo_ext 0 (snd (snd (handleFlowCommand 1 demo_state (InboundToken tok_a [''out''] ''s''))))
     = ([CallExecutor ''t'' [tok_a]], None, [TransitionResult ''t'' [tok_b] ''s''])"
proof -
  let ?c = "InboundToken tok_a [''out''] ''s''"
  let ?h = "handleFlowCommand 1 demo_state ?c"
  let ?flow = "fs_flow (foldl (updateFlowState 1) demo_state (eventsOnCommand 1 demo_state ?c))"
  let ?fxs = "buildSideEffectsFromEvents (eventsOnCommand 1 demo_state ?c) ?flow demo_ext"
  have ev: "\<forall>ev \<in> set (eventsOnCommand 1 demo_state ?c). event_named ev" unfolding demo_events by simp
  have h: "?h = (eventsOnCommand 1 demo_state ?c, fst (snd ?h), snd (snd ?h))"
    by (simp add: handleFlowCommand_def Let_def del: eventsOnCommand.simps)
  have v: "fst (chain_view (fst (flow_decide demo_ext ''e'' 1 demo_state ?c demo_closure)))
      = SPersist (eventsOnCommand 1 demo_state ?c) # map SRun ?fxs"
    unfolding flow_decide_effect by (simp add: Let_def demo_events del: eventsOnCommand.simps)
  have "?fxs = [FxFire ''t'' [tok_a] ''s'']"
    unfolding demo_events by (simp add: buildSideEffectsFromEvents_def demo_ext_def demo_state_def demo_flow_defs
        recordTransitionStart_def Let_def)
  then have "run_in_order (run_flow_fx demo_ext) 0 ?fxs = ([CallExecutor ''t'' [tok_a]], None, [TransitionResult ''t'' [tok_b] ''s''])"
    by (simp add: run_flow_fx_def call_executor_def demo_ext_def)
  with flow_interpreters_agree [OF _ ev h v] show ?thesis by simp
qed

section \<open>Deferred replies\<close>

text \<open>The closure is shared by all entities of the category: any entity, state and command.\<close>

inductive closure_run :: "'d externals \<Rightarrow> 'd flow_closure \<Rightarrow> bool" for ext where
  closure_new: "closure_run ext \<lparr>pc_pending = [], pc_completed = [], pc_next = 0\<rparr>"
| closure_decided: "closure_run ext pc \<Longrightarrow> closure_run ext (snd (flow_decide ext entityId now st command pc))"

definition outbound_reply :: "'d flow_reply \<Rightarrow> bool" where
  "outbound_reply r \<longleftrightarrow> (\<exists>p tokens spanId. r = OutboundTokens [(p, tokens)] spanId \<and> tokens \<noteq> [])"

definition closure_inv :: "'d flow_closure \<Rightarrow> bool" where
  "closure_inv pc \<longleftrightarrow> distinct (map fst (pc_completed pc)) \<and> js_wf (pc_pending pc)
     \<and> (\<forall>x \<in> set (pc_completed pc). fst x < pc_next pc \<and> outbound_reply (snd x))
     \<and> (\<forall>k p. js_get (pc_pending pc) k = Some p \<longrightarrow> pd_deferred p < pc_next pc \<and> pd_deferred p \<notin> fst ` set (pc_completed pc))
     \<and> (\<forall>k k' p p'. js_get (pc_pending pc) k = Some p \<longrightarrow> js_get (pc_pending pc) k' = Some p' \<longrightarrow>
          pd_deferred p = pd_deferred p' \<longrightarrow> k = k')"

lemma first_outbound_shape: "first_outbound flow spanId ps = Some r \<Longrightarrow> outbound_reply r"
  by (induction ps) (auto simp: outbound_reply_def outbound_ready_def split: option.splits if_splits)

lemma closure_inv_complete:
  assumes "closure_inv pc" "js_get (pc_pending pc) key = Some p" "outbound_reply r"
  shows "closure_inv (pc\<lparr>pc_pending := js_delete key (pc_pending pc),
           pc_completed := pc_completed pc @ [(pd_deferred p, r)]\<rparr>)"
proof -
  have "pd_deferred q \<noteq> pd_deferred p" if "js_get (pc_pending pc) k = Some q" "k \<noteq> key" for k q
    using that assms(1,2) unfolding closure_inv_def by metis
  with assms show ?thesis by (auto simp: closure_inv_def)
qed

lemma try_complete_inv:
  "closure_inv pc \<Longrightarrow> \<forall>x \<in> set rest. js_get (pc_pending pc) (fst x) = Some (snd x) \<Longrightarrow>
     closure_inv (try_complete entityId flow rest pc)"
proof (induction entityId flow rest pc rule: try_complete.induct)
  case (2 entityId flow key pending rest pc)
  then have "js_get (pc_pending pc) key = Some pending" by simp
  with 2 have "pd_deferred pending \<notin> fst ` set (pc_completed pc)" unfolding closure_inv_def by blast
  with 2 closure_inv_complete [of pc key pending] show ?case
    by (auto dest: first_outbound_shape split: option.splits)
qed simp

lemma tryCompleteDeferreds_inv: "closure_inv pc \<Longrightarrow> closure_inv (tryCompleteDeferreds entityId flow pc)"
  unfolding tryCompleteDeferreds_def
  by (rule try_complete_inv) (auto simp: closure_inv_def js_wf_def)

lemma closure_inv_register:
  assumes "closure_inv pc"
  shows "closure_inv (pc\<lparr>pc_pending := js_set k \<lparr>pd_deferred = pc_next pc, pd_expects = expects, pd_span = s\<rparr> (pc_pending pc),
           pc_next := Suc (pc_next pc)\<rparr>)"
proof -
  have old: "pd_deferred p < pc_next pc" if "js_get (pc_pending pc) i = Some p" for i p
    using that assms unfolding closure_inv_def by blast
  have "pc_next pc \<notin> fst ` set (pc_completed pc)" using assms unfolding closure_inv_def by fastforce
  then show ?thesis using assms old unfolding closure_inv_def
    by (auto simp: less_SucI dest: old split: if_splits)
qed

lemma closure_run_inv: "closure_run ext pc \<Longrightarrow> closure_inv pc"
proof (induction rule: closure_run.induct)
  case closure_new
  show ?case by (simp add: closure_inv_def)
next
  case (closure_decided pc entityId now st command)
  then show ?case
    by (cases command)
      (auto simp: flow_decide_def Let_def tryCompleteDeferreds_inv closure_inv_register
        simp del: eventsOnCommand.simps split: option.splits)
qed

text \<open>
  Over all commands of all entities of a flow category a deferred reply is completed at most
  once, always with the non-empty tokens of an outbound place, and a deferred that is still
  registered has not been completed, so no caller is answered twice.
\<close>

lemma flow_deferreds_complete_once:
  assumes "closure_run ext pc"
  shows "distinct (map fst (pc_completed pc))
    \<and> (\<forall>x \<in> set (pc_completed pc). \<exists>p tokens spanId. snd x = OutboundTokens [(p, tokens)] spanId \<and> tokens \<noteq> [])
    \<and> (\<forall>x \<in> set (pc_pending pc). pd_deferred (snd x) \<notin> fst ` set (pc_completed pc))"
proof -
  have inv: "closure_inv pc" using assms by (rule closure_run_inv)
  then have "js_get (pc_pending pc) (fst x) = Some (snd x)" if "x \<in> set (pc_pending pc)" for x
    using that by (simp add: closure_inv_def js_wf_def)
  with inv show ?thesis unfolding closure_inv_def outbound_reply_def by blast
qed

lemma flow_deferreds_complete_once_example:
  "let pc = snd (flow_decide demo_ext ''e'' 1 demo_state (InboundToken tok_a [''out''] ''s'') demo_closure)
   in map fst (pc_pending pc) = [''e:s''] \<and> (\<forall>x \<in> set (pc_pending pc). pd_deferred (snd x) \<notin> fst ` set (pc_completed pc))"
proof -
  let ?pc = "snd (flow_decide demo_ext ''e'' 1 demo_state (InboundToken tok_a [''out''] ''s'') demo_closure)"
  have r: "closure_run demo_ext ?pc"
    unfolding demo_closure_def by (rule closure_decided [OF closure_new])
  have "map fst (pc_pending ?pc) = [''e:s'']"
    by (simp add: flow_decide_def demo_events demo_not_ready Let_def deferredKey_def demo_closure_def
        del: eventsOnCommand.simps foldl_Cons first_outbound.simps)
  then show ?thesis using flow_deferreds_complete_once [OF r] by (simp add: Let_def)
qed

section \<open>Where the aggregate departs from its flow\<close>

text \<open>
  The completion event already stores the produced tokens, and the follow-up events add them
  again: after one \<open>b\<close> was produced the outbound place holds two.
\<close>

lemma flow_duplicates_results:
  "let st = foldl (updateFlowState 1) demo_state (eventsOnCommand 1 demo_state (InboundToken tok_a [] ''s''));
       st' = foldl (updateFlowState 2) st (eventsOnCommand 2 st (TransitionResult ''t'' [tok_b] ''s''))
   in map_option pl_tokens (js_get (fl_places (fs_flow st')) ''out'') = Some [tok_b, tok_b]"
proof -
  have e: "eventsOnCommand 1 demo_state (InboundToken tok_a [] ''s'')
     = [TokenAdded ''in'' tok_a ''s'', TransitionFired ''t'' ''in'' [tok_a] ''s'']"
    using demo_events by simp
  show ?thesis unfolding e
    by (simp add: demo_state_def demo_flow_defs recordTransitionStart_def recordTransitionCompletion_def
        followUpEvents_def transitionsReady_def transition_ready_def route_results_def placeForResult_def
        List.map_filter_def Let_def)
qed

text \<open>
  Follow-up events fire every ready transition of the flow from the place the token landed in.
  Here \<open>u\<close> waits for its retry with a \<open>b\<close> in \<open>mid\<close>; a token in \<open>in\<close> fires it from \<open>in\<close>: its
  executor gets the \<open>b\<close>, but the \<open>b\<close> stays in \<open>mid\<close> and nothing is held as consumed.
\<close>

definition retry_state :: "unit flow_state" where
  "retry_state = \<lparr>fs_flow = addToken 1 (createExecutableFlow 0 ''f''
       [(''in'', placeInstanceFromDef (placeDef ''in'' [''a''] Inbound)),
        (''mid'', placeInstanceFromDef (placeDef ''mid'' [''b''] Internal))]
       [(''u'', transitionInstanceFromDef (transitionDef ''u'' ''mid'' [''b''] []))] None None) ''mid'' tok_b None,
     fs_tokenHistory = []\<rparr>"

lemma retry_fires_from_wrong_place:
  "let events = eventsOnCommand 5 retry_state (InboundToken tok_a [] ''s'');
       flow = fs_flow (foldl (updateFlowState 5) retry_state events)
   in events = [TokenAdded ''in'' tok_a ''s'', TransitionFired ''u'' ''in'' [tok_b] ''s'']
      \<and> map_option tr_consumed (js_get (fl_transitions flow) ''u'') = Some (Some [])
      \<and> map_option pl_tokens (js_get (fl_places flow) ''mid'') = Some [tok_b]"
  by (simp add: retry_state_def demo_flow_defs recordTransitionStart_def followUpEvents_def transitionsReady_def
      transition_ready_def List.map_filter_def Let_def)

text \<open>
  The ledger holds for the flow of any journal: the update of an event is an operation on the flow, and the events of the
  aggregate are such operations whatever follow-up events it produced.
\<close>

fun event_op :: "'d flow_event \<Rightarrow> 'd flow_op" where
  "event_op (TokenAdded placeId tok spanId) = AddTok placeId tok None"
| "event_op (TransitionFired transitionId src consumed spanId) = StartTr src transitionId"
| "event_op (TransitionCompleted transitionId dest spanId) = CompleteTr transitionId dest spanId"
| "event_op (TransitionFailed transitionId src spanId) = FailTr transitionId src"

lemma update_is_operation: "fs_flow (updateFlowState now st ev) = apply_op now (event_op ev) (fs_flow st)"
  by (cases ev) simp_all

lemma journal_has_ledger:
  "flow_run c l (fs_flow st) \<Longrightarrow> \<exists>c' l'. flow_run c' l' (fs_flow (foldl (updateFlowState now) st events))"
proof (induction events arbitrary: c l st)
  case (Cons ev events)
  from flow_applied [OF Cons.prems, of "event_op ev" now]
  have "flow_run (c \<and> careful_op (fs_flow st) (event_op ev)) (book (fs_flow st) (event_op ev) l) (fs_flow (updateFlowState now st ev))"
    by (simp add: update_is_operation)
  from Cons.IH [OF this] show ?case by simp
qed auto

end
