(* ===== verification/Pg_Runtime.thy ===== *)
theory Pg_Runtime
  imports Entity_Runner
begin

text \<open>
  \<open>postgres/runtime.ts\<close>, the module of a category and the runtime over all modules. A runner is seen through its
  mailbox and the promise \<open>running\<close>: pending, resolved by a stop, or rejected by a throw. The module has no hook for a
  runner that ends, so an entity keeps the runner it got first until the module shuts down.
\<close>

section \<open>A module\<close>

datatype running = Pending | Resolved | RejectedWith js_error

record 'cmd pg_actor =
  pa_entity :: string
  pa_mailbox :: "'cmd msg list"
  pa_running :: running

record ('cmd, 'r) pg_module =
  pm_entities :: "(string, nat) jsmap"
  pm_actors :: "'cmd pg_actor list"
  pm_asks :: "(reply_error + 'r answer) option list"
  pm_timers :: "nat list"

definition createPgModule :: "('cmd, 'r) pg_module" where
  "createPgModule = \<lparr>pm_entities = [], pm_actors = [], pm_asks = [], pm_timers = []\<rparr>"

definition pg_getOrCreate :: "string \<Rightarrow> ('cmd, 'r) pg_module \<Rightarrow> nat \<times> ('cmd, 'r) pg_module" where
  "pg_getOrCreate i md =
     (case js_get (pm_entities md) i of
        Some k \<Rightarrow> (k, md)
      | None \<Rightarrow>
          (length (pm_actors md),
           md\<lparr>pm_entities := js_set i (length (pm_actors md)) (pm_entities md),
              pm_actors := pm_actors md @ [\<lparr>pa_entity = i, pa_mailbox = [], pa_running = Pending\<rparr>]\<rparr>))"

definition pm_offer :: "nat \<Rightarrow> 'cmd msg \<Rightarrow> ('cmd, 'r) pg_module \<Rightarrow> ('cmd, 'r) pg_module" where
  "pm_offer k m md = md\<lparr>pm_actors := (pm_actors md)[k := (pm_actors md ! k)\<lparr>pa_mailbox := pa_mailbox (pm_actors md ! k) @ [m]\<rparr>]\<rparr>"

definition pg_module_tell :: "string \<Rightarrow> 'cmd \<Rightarrow> ('cmd, 'r) pg_module \<Rightarrow> ('cmd, 'r) pg_module" where
  "pg_module_tell i c md = (case pg_getOrCreate i md of (k, md') \<Rightarrow> pm_offer k (Tell c) md')"

definition pg_module_ask :: "string \<Rightarrow> 'cmd \<Rightarrow> ('cmd, 'r) pg_module \<Rightarrow> nat \<times> ('cmd, 'r) pg_module" where
  "pg_module_ask i c md =
     (case pg_getOrCreate i md of (k, md') \<Rightarrow>
        (let a = length (pm_asks md')
         in (a, pm_offer k (Ask c a) (md'\<lparr>pm_asks := pm_asks md' @ [None], pm_timers := pm_timers md' @ [a]\<rparr>))))"

text \<open>The promise of an ask keeps its first outcome; the runner's answer clears the timer.\<close>

definition pm_settle :: "nat \<Rightarrow> reply_error + 'r answer \<Rightarrow> ('cmd, 'r) pg_module \<Rightarrow> ('cmd, 'r) pg_module" where
  "pm_settle a r md =
     (if a < length (pm_asks md) \<and> pm_asks md ! a = None then md\<lparr>pm_asks := (pm_asks md)[a := Some r]\<rparr> else md)"

definition pm_answer :: "nat \<Rightarrow> reply_error + 'r answer \<Rightarrow> ('cmd, 'r) pg_module \<Rightarrow> ('cmd, 'r) pg_module" where
  "pm_answer a r md = pm_settle a r (md\<lparr>pm_timers := filter (\<lambda>x. x \<noteq> a) (pm_timers md)\<rparr>)"

definition pm_timeout :: "nat \<Rightarrow> ('cmd, 'r) pg_module \<Rightarrow> ('cmd, 'r) pg_module" where
  "pm_timeout a md =
     (if a \<in> set (pm_timers md) then pm_settle a (Inl Timeout) (md\<lparr>pm_timers := filter (\<lambda>x. x \<noteq> a) (pm_timers md)\<rparr>) else md)"

text \<open>What a runner does to its module: it takes a message, or its \<open>running\<close> settles and it takes none any more.\<close>

definition pm_takes :: "nat \<Rightarrow> ('cmd, 'r) pg_module \<Rightarrow> 'cmd msg option \<times> ('cmd, 'r) pg_module" where
  "pm_takes k md =
     (case (pa_running (pm_actors md ! k), pa_mailbox (pm_actors md ! k)) of
        (Pending, m # ms) \<Rightarrow> (Some m, md\<lparr>pm_actors := (pm_actors md)[k := (pm_actors md ! k)\<lparr>pa_mailbox := ms\<rparr>]\<rparr>)
      | _ \<Rightarrow> (None, md))"

definition pm_ends :: "nat \<Rightarrow> running \<Rightarrow> ('cmd, 'r) pg_module \<Rightarrow> ('cmd, 'r) pg_module" where
  "pm_ends k r md =
     (if pa_running (pm_actors md ! k) = Pending
      then md\<lparr>pm_actors := (pm_actors md)[k := (pm_actors md ! k)\<lparr>pa_running := r\<rparr>]\<rparr> else md)"

text \<open>\<open>shutdown\<close>: a stop for every entity, then it awaits them in order; one rejected runner rejects the shutdown.\<close>

definition pm_stop_all :: "('cmd, 'r) pg_module \<Rightarrow> ('cmd, 'r) pg_module" where
  "pm_stop_all md = foldl (\<lambda>m k. pm_offer k StopMsg m) md (js_values (pm_entities md))"

fun await_all :: "running list \<Rightarrow> js_error option option" where
  "await_all [] = Some None"
| "await_all (Resolved # rs) = await_all rs"
| "await_all (RejectedWith e # rs) = Some (Some e)"
| "await_all (Pending # rs) = None"

text \<open>\<open>None\<close>: still waiting. \<open>Inl\<close>: the shutdown throws, and the table is not cleared.\<close>

definition pm_shutdown_end :: "('cmd, 'r) pg_module \<Rightarrow> (js_error + ('cmd, 'r) pg_module) option" where
  "pm_shutdown_end md =
     (case await_all (map (\<lambda>k. pa_running (pm_actors md ! k)) (js_values (pm_entities md))) of
        None \<Rightarrow> None
      | Some (Some e) \<Rightarrow> Some (Inl e)
      | Some None \<Rightarrow> Some (Inr (md\<lparr>pm_entities := []\<rparr>)))"

section \<open>The runtime\<close>

type_synonym ('cmd, 'r) pg_runtime = "(string, ('cmd, 'r) pg_module) jsmap"

definition createPostgresRuntime :: "string list \<Rightarrow> ('cmd, 'r) pg_runtime" where
  "createPostgresRuntime categories = js_of_list (map (\<lambda>c. (c, createPgModule)) categories)"

definition pg_runtime_tell :: "string \<Rightarrow> string \<Rightarrow> 'cmd \<Rightarrow> ('cmd, 'r) pg_runtime \<Rightarrow> js_error + ('cmd, 'r) pg_runtime" where
  "pg_runtime_tell cat i c rt =
     (case js_get rt cat of
        None \<Rightarrow> Inl (JsError (''Category not found: '' @ cat))
      | Some md \<Rightarrow> Inr (js_set cat (pg_module_tell i c md) rt))"

definition pg_runtime_ask :: "string \<Rightarrow> string \<Rightarrow> 'cmd \<Rightarrow> ('cmd, 'r) pg_runtime \<Rightarrow> reply_error + nat \<times> ('cmd, 'r) pg_runtime" where
  "pg_runtime_ask cat i c rt =
     (case js_get rt cat of
        None \<Rightarrow> Inl (CategoryNotFound cat)
      | Some md \<Rightarrow> (case pg_module_ask i c md of (a, md') \<Rightarrow> Inr (a, js_set cat md' rt)))"

definition pg_runtime_categories :: "('cmd, 'r) pg_runtime \<Rightarrow> string list" where
  "pg_runtime_categories rt = map fst rt"

section \<open>An entity that has ended is never replaced\<close>

datatype ('cmd, 'r) module_op =
    TellOp string 'cmd | AskOp string 'cmd | AnswerOp nat "reply_error + 'r answer" | TimeoutOp nat | TakeOp nat | EndOp nat running

fun apply_op :: "('cmd, 'r) module_op \<Rightarrow> ('cmd, 'r) pg_module \<Rightarrow> ('cmd, 'r) pg_module" where
  "apply_op (TellOp i c) md = pg_module_tell i c md"
| "apply_op (AskOp i c) md = snd (pg_module_ask i c md)"
| "apply_op (AnswerOp a r) md = pm_answer a r md"
| "apply_op (TimeoutOp a) md = pm_timeout a md"
| "apply_op (TakeOp k) md = snd (pm_takes k md)"
| "apply_op (EndOp k r) md = pm_ends k r md"

lemma pm_settle_frame [simp]: "pm_entities (pm_settle a r md) = pm_entities md" "pm_actors (pm_settle a r md) = pm_actors md"
  by (simp_all add: pm_settle_def)

lemma pg_getOrCreate_keeps:
  assumes "pg_getOrCreate j md = (k', md')" "js_get (pm_entities md) i = Some k" "k < length (pm_actors md)"
  shows "js_get (pm_entities md') i = Some k" "length (pm_actors md) \<le> length (pm_actors md')"
    "pa_running (pm_actors md' ! k) = pa_running (pm_actors md ! k)"
  using assms by (auto simp: pg_getOrCreate_def nth_append split: option.splits)

lemma running_after_mailbox [simp]:
  "pa_running (xs[k := (xs ! k)\<lparr>pa_mailbox := ms\<rparr>] ! j) = pa_running (xs ! j)"
  by (cases "k < length xs"; cases "j = k") (simp_all add: not_less list_update_beyond)

lemma pm_offer_keeps [simp]:
  "pm_entities (pm_offer k m md) = pm_entities md" "length (pm_actors (pm_offer k m md)) = length (pm_actors md)"
  "pa_running (pm_actors (pm_offer k m md) ! j) = pa_running (pm_actors md ! j)"
  by (simp_all add: pm_offer_def)

definition routed_to :: "string \<Rightarrow> nat \<Rightarrow> ('cmd, 'r) pg_module \<Rightarrow> bool" where
  "routed_to i k md \<longleftrightarrow> js_get (pm_entities md) i = Some k \<and> k < length (pm_actors md)"

lemma apply_op_keeps:
  assumes "routed_to i k md"
  shows "routed_to i k (apply_op x md)
     \<and> (pa_running (pm_actors md ! k) \<noteq> Pending \<longrightarrow> pa_running (pm_actors (apply_op x md) ! k) = pa_running (pm_actors md ! k))"
proof (cases x)
  case (TellOp j c)
  obtain k' md' where g: "pg_getOrCreate j md = (k', md')" by fastforce
  from pg_getOrCreate_keeps [OF g, of i k] assms show ?thesis
    by (simp add: TellOp pg_module_tell_def g routed_to_def order.strict_trans2 [of k])
next
  case (AskOp j c)
  obtain k' md' where g: "pg_getOrCreate j md = (k', md')" by fastforce
  from pg_getOrCreate_keeps [OF g, of i k] assms show ?thesis
    by (simp add: AskOp pg_module_ask_def g routed_to_def Let_def order.strict_trans2 [of k])
next
  case (TakeOp j)
  with assms show ?thesis
    by (auto simp: pm_takes_def routed_to_def split: running.splits list.splits)
next
  case (EndOp j r)
  with assms show ?thesis by (cases "j = k") (auto simp: pm_ends_def routed_to_def)
qed (use assms in \<open>simp_all add: pm_answer_def pm_timeout_def routed_to_def\<close>)

text \<open>
  Once an entity's runner has stopped or crashed, every later command for the entity goes to its dead mailbox,
  whatever else happens in the module, and the runner never takes one.
\<close>

lemma ended_entity_stays_ended:
  assumes "routed_to i k md" "pa_running (pm_actors md ! k) \<noteq> Pending"
  shows "routed_to i k (fold apply_op xs md) \<and> fst (pg_getOrCreate i (fold apply_op xs md)) = k
     \<and> fst (pm_takes k (fold apply_op xs md)) = None"
proof -
  have "routed_to i k (fold apply_op xs md) \<and> pa_running (pm_actors (fold apply_op xs md) ! k) \<noteq> Pending"
    using assms
  proof (induction xs arbitrary: md)
    case (Cons x xs)
    from apply_op_keeps [OF Cons.prems(1), of x] Cons.prems(2) Cons.IH show ?case by simp
  qed simp
  then show ?thesis
    by (auto simp: routed_to_def pg_getOrCreate_def pm_takes_def split: running.splits)
qed

text \<open>A crashed entity makes the shutdown of its module throw and keeps its table.\<close>

lemma crash_rejects_shutdown:
  assumes "js_values (pm_entities md) = k # ks" "pa_running (pm_actors md ! k) = RejectedWith e"
  shows "pm_shutdown_end md = Some (Inl e)"
  using assms by (simp add: pm_shutdown_end_def)

end
