(* ===== verification/Read_Model.thy ===== *)
theory Read_Model
  imports Complex_Main Prelude
begin

text \<open>
  Read models: \<open>core/aggregation.ts\<close> and \<open>core/read-model.ts\<close>. A subscription folds the events of one id into a state and
  writes each new state to a cache; \<open>get\<close> reads the cache or asks \<open>getState\<close>; a timer evicts entries that nobody reads.
  All of these interleave at their awaits. \<open>rm_run\<close> is every such interleaving, with the logs growing underneath.
\<close>

section \<open>Aggregations\<close>

record 'o consistency =
  co_consistent :: "'o \<Rightarrow> 'o \<Rightarrow> bool"
  co_fromThePast :: "'o \<Rightarrow> 'o \<Rightarrow> bool"
  co_fromTheFuture :: "'o \<Rightarrow> 'o \<Rightarrow> bool"

definition numberConsistency :: "nat consistency" where
  "numberConsistency =
     \<lparr>co_consistent = (\<lambda>current nxt. nxt = current + 1),
      co_fromThePast = (\<lambda>current nxt. nxt \<le> current),
      co_fromTheFuture = (\<lambda>current nxt. nxt > current + 1)\<rparr>"

text \<open>What \<open>createAggregation\<close> is given, apart from \<open>getState\<close> and the interval, whose answers are steps of a run.\<close>

record ('i, 'e, 'o, 's) aggregation =
  ag_apply :: "'s \<Rightarrow> 'e \<Rightarrow> 'o \<Rightarrow> js_error + 's"
  ag_onGap :: "'i \<Rightarrow> 'e \<Rightarrow> 'o \<Rightarrow> 's \<Rightarrow> js_error + 's"
  ag_eventHasId :: "'e \<Rightarrow> 'i"
  ag_stateHasOrdinal :: "'s \<Rightarrow> 'o"
  ag_consistency :: "'o consistency"

text \<open>\<open>show\<close> and \<open>json\<close> stand for the conversions in the template string.\<close>

definition onGapFail ::
  "('i \<Rightarrow> string) \<Rightarrow> ('o \<Rightarrow> string) \<Rightarrow> ('e \<Rightarrow> string) \<Rightarrow> 'i \<Rightarrow> 'e \<Rightarrow> 'o \<Rightarrow> 's \<Rightarrow> js_error + 's" where
  "onGapFail show_id show_ordinal json i event ordinal state =
     Inl (JsError (''Gap detected for '' @ show_id i @ '', ordinal='' @ show_ordinal ordinal @ '', event='' @ json event))"

definition onGapIgnore :: "'i \<Rightarrow> 'e \<Rightarrow> 'o \<Rightarrow> 's \<Rightarrow> js_error + 's" where
  "onGapIgnore i event ordinal state = Inr state"

section \<open>The cache\<close>

record 's cache_entry =
  ce_state :: 's
  ce_consistent :: bool
  ce_createdAt :: int
  ce_accessAt :: int

text \<open>The entries, the gauge of active entities, and the recorded lifetimes in seconds.\<close>

record ('i, 's) cache =
  ca_entries :: "('i, 's cache_entry) jsmap"
  ca_active :: int
  ca_lifetimes :: "rat list"

definition createCache :: "('i, 's) cache" where
  "createCache = \<lparr>ca_entries = [], ca_active = 0, ca_lifetimes = []\<rparr>"

definition expired :: "int \<Rightarrow> int \<Rightarrow> 's cache_entry \<Rightarrow> bool" where
  "expired ttl now en = (ce_accessAt en + ttl < now)"

definition lifetime :: "int \<Rightarrow> 's cache_entry \<Rightarrow> rat" where
  "lifetime now en = of_int (now - ce_createdAt en) / 1000"

definition evict :: "int \<Rightarrow> int \<Rightarrow> ('i, 's) cache \<Rightarrow> ('i, 's) cache" where
  "evict ttl now c =
     (let out = filter (\<lambda>x. expired ttl now (snd x)) (ca_entries c)
      in \<lparr>ca_entries = filter (\<lambda>x. \<not> expired ttl now (snd x)) (ca_entries c),
          ca_active = ca_active c - int (length out),
          ca_lifetimes = ca_lifetimes c @ map (\<lambda>x. lifetime now (snd x)) out\<rparr>)"

definition cache_get :: "int \<Rightarrow> 'i \<Rightarrow> ('i, 's) cache \<Rightarrow> 's option \<times> ('i, 's) cache" where
  "cache_get now i c =
     (case js_get (ca_entries c) i of
        None \<Rightarrow> (None, c)
      | Some en \<Rightarrow> (Some (ce_state en), c\<lparr>ca_entries := js_set i (en\<lparr>ce_accessAt := now\<rparr>) (ca_entries c)\<rparr>))"

definition add_entry :: "int \<Rightarrow> bool \<Rightarrow> 'i \<Rightarrow> 's \<Rightarrow> ('i, 's) cache \<Rightarrow> ('i, 's) cache" where
  "add_entry now con i s c =
     c\<lparr>ca_entries := js_set i \<lparr>ce_state = s, ce_consistent = con, ce_createdAt = now, ce_accessAt = now\<rparr> (ca_entries c),
       ca_active := ca_active c + 1\<rparr>"

definition updateBestEffort :: "int \<Rightarrow> 'i \<Rightarrow> 's \<Rightarrow> ('i, 's) cache \<Rightarrow> 's \<times> ('i, 's) cache" where
  "updateBestEffort now i s c =
     (case js_get (ca_entries c) i of
        Some en \<Rightarrow>
          if ce_consistent en then (ce_state en, c)
          else (s, c\<lparr>ca_entries := js_set i (en\<lparr>ce_state := s\<rparr>) (ca_entries c)\<rparr>)
      | None \<Rightarrow> (s, add_entry now False i s c))"

definition updateConsistent :: "int \<Rightarrow> 'i \<Rightarrow> 's \<Rightarrow> ('i, 's) cache \<Rightarrow> 's \<times> ('i, 's) cache" where
  "updateConsistent now i s c =
     (case js_get (ca_entries c) i of
        Some en \<Rightarrow> (s, c\<lparr>ca_entries := js_set i (en\<lparr>ce_state := s, ce_consistent := True\<rparr>) (ca_entries c)\<rparr>)
      | None \<Rightarrow> (s, add_entry now True i s c))"

definition remove_entry :: "int \<Rightarrow> 'i \<Rightarrow> ('i, 's) cache \<Rightarrow> ('i, 's) cache" where
  "remove_entry now i c =
     (case js_get (ca_entries c) i of
        None \<Rightarrow> c
      | Some en \<Rightarrow> \<lparr>ca_entries = js_delete i (ca_entries c), ca_active = ca_active c - 1,
                    ca_lifetimes = ca_lifetimes c @ [lifetime now en]\<rparr>)"

definition cache_list :: "('i, 's) cache \<Rightarrow> 's list" where
  "cache_list c = map ce_state (js_values (ca_entries c))"

text \<open>
  What the cache promises: keys are distinct, the gauge counts the entries, and every entry satisfies what was
  true of the states put in.
\<close>

definition cache_ok :: "('i \<Rightarrow> 's \<Rightarrow> bool) \<Rightarrow> ('i, 's) cache \<Rightarrow> bool" where
  "cache_ok P c \<longleftrightarrow> js_wf (ca_entries c) \<and> ca_active c = int (length (ca_entries c))
     \<and> (\<forall>i en. js_get (ca_entries c) i = Some en \<longrightarrow> P i (ce_state en))"

lemma cache_okI:
  assumes "js_wf (ca_entries c)" "ca_active c = int (length (ca_entries c))"
    and "\<And>i en. js_get (ca_entries c) i = Some en \<Longrightarrow> P i (ce_state en)"
  shows "cache_ok P c"
  using assms by (simp add: cache_ok_def)

lemma cache_okD:
  assumes "cache_ok P c"
  shows "js_wf (ca_entries c)" "ca_active c = int (length (ca_entries c))"
    and "js_get (ca_entries c) i = Some en \<Longrightarrow> P i (ce_state en)"
  using assms by (simp_all add: cache_ok_def)

lemma cache_ok_mono: "cache_ok P c \<Longrightarrow> (\<And>i s. P i s \<Longrightarrow> Q i s) \<Longrightarrow> cache_ok Q c"
  by (auto simp: cache_ok_def)

lemma length_js_set: "length (js_set k v m) = (if js_get m k = None then Suc (length m) else length m)"
  by (induction m) auto

lemma length_js_delete:
  assumes "js_wf m" "js_get m k \<noteq> None"
  shows "Suc (length (js_delete k m)) = length m"
  using assms
proof (induction m)
  case (Cons x m)
  have same: "AList.delete k ys = ys" if "k \<notin> fst ` set ys" for ys :: "('a \<times> 'b) list"
    using that by (induction ys) auto
  show ?case
  proof (cases "fst x = k")
    case True
    with Cons.prems(1) have "k \<notin> fst ` set m" by (auto simp: js_wf_def)
    with True show ?thesis by (cases x) (simp add: same)
  next
    case False
    with Cons show ?thesis by (cases x) (simp add: js_wf_def)
  qed
qed simp

lemma cache_ok_create: "cache_ok P createCache"
  by (simp add: cache_ok_def createCache_def)

lemma cache_ok_put:
  assumes "cache_ok P c" "P i (ce_state en)"
    and "js_get (ca_entries c) i \<noteq> None"
  shows "cache_ok P (c\<lparr>ca_entries := js_set i en (ca_entries c)\<rparr>)"
  using assms by (auto simp: cache_ok_def length_js_set)

lemma cache_ok_add: "cache_ok P c \<Longrightarrow> P i s \<Longrightarrow> js_get (ca_entries c) i = None \<Longrightarrow> cache_ok P (add_entry now con i s c)"
  by (auto simp: cache_ok_def add_entry_def length_js_set)

lemma cache_ok_get: "cache_ok P c \<Longrightarrow> cache_ok P (snd (cache_get now i c))"
  by (cases "js_get (ca_entries c) i") (auto simp: cache_get_def intro!: cache_ok_put dest: cache_okD(3))

lemma cache_get_hit: "cache_ok P c \<Longrightarrow> fst (cache_get now i c) = Some s \<Longrightarrow> P i s"
  by (cases "js_get (ca_entries c) i") (auto simp: cache_get_def dest: cache_okD(3))

lemma cache_ok_best: "cache_ok P c \<Longrightarrow> P i s \<Longrightarrow> cache_ok P (snd (updateBestEffort now i s c))"
  by (cases "js_get (ca_entries c) i") (auto simp: updateBestEffort_def intro!: cache_ok_put cache_ok_add)

lemma cache_ok_consistent: "cache_ok P c \<Longrightarrow> P i s \<Longrightarrow> cache_ok P (snd (updateConsistent now i s c))"
  by (cases "js_get (ca_entries c) i") (auto simp: updateConsistent_def intro!: cache_ok_put cache_ok_add)

lemma cache_ok_remove:
  assumes "cache_ok P c"
  shows "cache_ok P (remove_entry now i c)"
proof (cases "js_get (ca_entries c) i")
  case (Some en)
  with length_js_delete [OF cache_okD(1) [OF assms], of i]
  have "length (ca_entries c) = Suc (length (js_delete i (ca_entries c)))" by simp
  with assms Some show ?thesis by (simp add: cache_ok_def remove_entry_def)
qed (use assms in \<open>simp add: remove_entry_def\<close>)

lemma map_of_filter_wf:
  assumes "js_wf m"
  shows "map_of (filter (\<lambda>x. Q (snd x)) m) k = (case map_of m k of None \<Rightarrow> None | Some v \<Rightarrow> if Q v then Some v else None)"
  using assms
proof (induction m)
  case (Cons x m)
  then have no: "map_of m (fst x) = None" by (auto simp: js_wf_def map_of_eq_None_iff)
  with Cons show ?case by (cases x) (auto simp: js_wf_def split: option.splits)
qed simp

lemma cache_ok_evict: "cache_ok P c \<Longrightarrow> cache_ok P (evict ttl now c)"
proof (rule cache_okI, goal_cases)
  case 1
  from cache_okD(1) [OF 1] show ?case by (simp add: evict_def Let_def js_wf_def distinct_map_filter)
next
  case 2
  have "length (filter (\<lambda>x. expired ttl now (snd x)) (ca_entries c))
      + length (filter (\<lambda>x. \<not> expired ttl now (snd x)) (ca_entries c)) = length (ca_entries c)"
    by (rule sum_length_filter_compl)
  with cache_okD(2) [OF 2] show ?case by (simp add: evict_def Let_def)
next
  case (3 i en)
  from 3(2) have "js_get (ca_entries c) i = Some en"
    by (simp add: evict_def Let_def map_of_filter_wf [OF cache_okD(1) [OF 3(1)], of "\<lambda>en. \<not> expired ttl now en"]
        split: option.splits if_splits)
  with 3(1) show ?case by (rule cache_okD(3))
qed

text \<open>An entry that was read less than \<open>ttl\<close> ago stays; every other one goes.\<close>

lemma evict_get:
  assumes "cache_ok P c"
  shows "js_get (ca_entries (evict ttl now c)) i =
    (case js_get (ca_entries c) i of None \<Rightarrow> None | Some en \<Rightarrow> if ce_accessAt en + ttl < now then None else Some en)"
  by (simp add: evict_def Let_def expired_def
      map_of_filter_wf [OF cache_okD(1) [OF assms], of "\<lambda>en. \<not> ce_accessAt en + ttl < now", simplified] split: option.splits)

text \<open>A consistent state is never replaced by a best-effort one.\<close>

lemma best_effort_keeps_consistent:
  assumes "js_get (ca_entries c) i = Some en" "ce_consistent en"
  shows "updateBestEffort now i s c = (ce_state en, c)"
  using assms by (simp add: updateBestEffort_def)

section \<open>Subscriptions\<close>

text \<open>
  Where a subscription is between its awaits: waiting for the stream, for \<open>getState\<close>, for \<open>applyEvent\<close>, for \<open>onGap\<close>,
  or ended, with the error if there was one.
\<close>

datatype ('e, 'o) sub_pc =
    AwaitEvent
  | AwaitState 'e 'o
  | AwaitApply 'e 'o
  | AwaitGap 'e 'o
  | SubEnded "js_error option"

record ('e, 'o, 's) sub =
  su_current :: "'s option"
  su_pc :: "('e, 'o) sub_pc"

definition new_sub :: "('e, 'o, 's) sub" where
  "new_sub = \<lparr>su_current = None, su_pc = AwaitEvent\<rparr>"

text \<open>The comparison of the state's ordinal with the event's.\<close>

definition dispatch :: "('i, 'e, 'o, 's) aggregation \<Rightarrow> 's \<Rightarrow> 'e \<Rightarrow> 'o \<Rightarrow> ('e, 'o) sub_pc" where
  "dispatch ag current event ordinal =
     (let stateOrd = ag_stateHasOrdinal ag current
      in if co_consistent (ag_consistency ag) stateOrd ordinal then AwaitApply event ordinal
         else if co_fromThePast (ag_consistency ag) stateOrd ordinal then AwaitEvent
         else if co_fromTheFuture (ag_consistency ag) stateOrd ordinal then AwaitGap event ordinal
         else AwaitEvent)"

definition sub_event :: "('i, 'e, 'o, 's) aggregation \<Rightarrow> 'e \<Rightarrow> 'o \<Rightarrow> ('e, 'o, 's) sub \<Rightarrow> ('e, 'o, 's) sub" where
  "sub_event ag event ordinal u =
     (case su_current u of
        None \<Rightarrow> u\<lparr>su_pc := AwaitState event ordinal\<rparr>
      | Some current \<Rightarrow> u\<lparr>su_pc := dispatch ag current event ordinal\<rparr>)"

definition sub_state :: "('i, 'e, 'o, 's) aggregation \<Rightarrow> 'e \<Rightarrow> 'o \<Rightarrow> js_error + 's \<Rightarrow> ('e, 'o, 's) sub \<Rightarrow> ('e, 'o, 's) sub" where
  "sub_state ag event ordinal answer u =
     (case answer of
        Inl err \<Rightarrow> u\<lparr>su_pc := SubEnded (Some err)\<rparr>
      | Inr current \<Rightarrow> u\<lparr>su_current := Some current, su_pc := dispatch ag current event ordinal\<rparr>)"

text \<open>\<open>applyAndUpdateCache\<close>: the new state is put into the cache before the subscription goes on.\<close>

definition sub_apply ::
  "('i, 'e, 'o, 's) aggregation \<Rightarrow> int \<Rightarrow> 'e \<Rightarrow> 'o \<Rightarrow> ('i, 's) cache \<Rightarrow> ('e, 'o, 's) sub \<Rightarrow> ('i, 's) cache \<times> ('e, 'o, 's) sub" where
  "sub_apply ag now event ordinal c u =
     (case su_current u of
        None \<Rightarrow> (c, u)
      | Some current \<Rightarrow>
          (case ag_apply ag current event ordinal of
             Inl err \<Rightarrow> (c, u\<lparr>su_pc := SubEnded (Some err)\<rparr>)
           | Inr newState \<Rightarrow>
               (snd (updateConsistent now (ag_eventHasId ag event) newState c),
                u\<lparr>su_current := Some newState, su_pc := AwaitEvent\<rparr>)))"

definition sub_gap :: "('i, 'e, 'o, 's) aggregation \<Rightarrow> 'e \<Rightarrow> 'o \<Rightarrow> ('e, 'o, 's) sub \<Rightarrow> ('e, 'o, 's) sub" where
  "sub_gap ag event ordinal u =
     (case su_current u of
        None \<Rightarrow> u
      | Some current \<Rightarrow>
          (case ag_onGap ag (ag_eventHasId ag event) event ordinal current of
             Inl err \<Rightarrow> u\<lparr>su_pc := SubEnded (Some err)\<rparr>
           | Inr newState \<Rightarrow> u\<lparr>su_current := Some newState, su_pc := AwaitEvent\<rparr>))"

text \<open>The next await of a subscription settles.\<close>

definition sub_settle ::
  "('i, 'e, 'o, 's) aggregation \<Rightarrow> ('i \<Rightarrow> js_error + 's) \<Rightarrow> int \<Rightarrow> ('i, 's) cache \<times> ('e, 'o, 's) sub \<Rightarrow>
   ('i, 's) cache \<times> ('e, 'o, 's) sub" where
  "sub_settle ag getState now x =
     (case su_pc (snd x) of
        AwaitState e n \<Rightarrow> (fst x, sub_state ag e n (getState (ag_eventHasId ag e)) (snd x))
      | AwaitApply e n \<Rightarrow> sub_apply ag now e n (fst x) (snd x)
      | AwaitGap e n \<Rightarrow> (fst x, sub_gap ag e n (snd x))
      | _ \<Rightarrow> x)"

text \<open>\<open>subscribe\<close> on a stream that ends, with nothing else in between: each turn of the loop awaits at most twice.\<close>

fun subscribe ::
  "('i, 'e, 'o, 's) aggregation \<Rightarrow> ('i \<Rightarrow> js_error + 's) \<Rightarrow> int \<Rightarrow> ('e \<times> 'o) list \<Rightarrow>
   ('i, 's) cache \<times> ('e, 'o, 's) sub \<Rightarrow> ('i, 's) cache \<times> ('e, 'o, 's) sub" where
  "subscribe ag getState now [] x = x"
| "subscribe ag getState now ((e, n) # events) x =
     (case su_pc (snd x) of
        AwaitEvent \<Rightarrow>
          subscribe ag getState now events
            (sub_settle ag getState now (sub_settle ag getState now (fst x, sub_event ag e n (snd x))))
      | _ \<Rightarrow> x)"

section \<open>Replays\<close>

text \<open>The state after a log, which is numbered from one.\<close>

fun replay_at :: "('s \<Rightarrow> 'e \<Rightarrow> nat \<Rightarrow> js_error + 's) \<Rightarrow> 's \<Rightarrow> nat \<Rightarrow> 'e list \<Rightarrow> js_error + 's" where
  "replay_at app s n [] = Inr s"
| "replay_at app s n (e # es) = (case app s e (Suc n) of Inl err \<Rightarrow> Inl err | Inr s' \<Rightarrow> replay_at app s' (Suc n) es)"

lemma replay_at_append:
  "replay_at app s n (xs @ ys) =
     (case replay_at app s n xs of Inl err \<Rightarrow> Inl err | Inr s' \<Rightarrow> replay_at app s' (n + length xs) ys)"
  by (induction xs arbitrary: s n) (auto split: sum.splits)

lemma replay_at_snoc:
  "replay_at app s 0 xs = Inr s' \<Longrightarrow> replay_at app s 0 (xs @ [e]) = app s' e (Suc (length xs))"
  by (auto simp: replay_at_append split: sum.splits)

text \<open>The state of a prefix of a log, as its ordinal says.\<close>

definition log_state :: "('i, 'e, nat, 's) aggregation \<Rightarrow> 's \<Rightarrow> 'e list \<Rightarrow> 's \<Rightarrow> bool" where
  "log_state ag start lg s \<longleftrightarrow>
     ag_stateHasOrdinal ag s \<le> length lg \<and> replay_at (ag_apply ag) start 0 (take (ag_stateHasOrdinal ag s) lg) = Inr s"

lemma log_state_grows: "log_state ag start lg s \<Longrightarrow> log_state ag start (lg @ [e]) s"
  by (simp add: log_state_def)

text \<open>
  What the read model relies on: ordinals are compared as numbers, applying an event moves the state to the event's
  ordinal, a gap handler does not invent states, and the state before the first event has ordinal zero.
\<close>

definition lawful :: "('i, 'e, nat, 's) aggregation \<Rightarrow> ('i \<Rightarrow> 's) \<Rightarrow> bool" where
  "lawful ag start \<longleftrightarrow> ag_consistency ag = numberConsistency
     \<and> (\<forall>s e n s'. ag_apply ag s e n = Inr s' \<longrightarrow> ag_stateHasOrdinal ag s' = n)
     \<and> (\<forall>i e n s s'. ag_onGap ag i e n s = Inr s' \<longrightarrow> s' = s)
     \<and> (\<forall>i. ag_stateHasOrdinal ag (start i) = 0)"

lemma lawfulD:
  assumes "lawful ag start"
  shows "ag_consistency ag = numberConsistency"
    and "ag_apply ag s e n = Inr s' \<Longrightarrow> ag_stateHasOrdinal ag s' = n"
    and "ag_onGap ag i e n s = Inr s' \<Longrightarrow> s' = s"
    and "ag_stateHasOrdinal ag (start i) = 0"
  using assms by (auto simp: lawful_def)

lemma log_state_start: "lawful ag start \<Longrightarrow> log_state ag (start i) lg (start i)"
  by (simp add: log_state_def lawfulD(4))

lemma dispatch_number:
  assumes "lawful ag start"
  shows "dispatch ag s e n =
    (if n = ag_stateHasOrdinal ag s + 1 then AwaitApply e n
     else if n \<le> ag_stateHasOrdinal ag s then AwaitEvent else AwaitGap e n)"
  by (simp add: dispatch_def Let_def lawfulD(1) [OF assms] numberConsistency_def)

lemma log_state_apply:
  assumes "lawful ag start" "log_state ag (start i) lg s"
    and "n = ag_stateHasOrdinal ag s + 1" "n \<le> length lg" "ag_apply ag s (lg ! (n - 1)) n = Inr s'"
  shows "log_state ag (start i) lg s'"
proof -
  let ?m = "ag_stateHasOrdinal ag s"
  from assms(3,4) have "take n lg = take ?m lg @ [lg ! ?m]" by (simp add: take_Suc_conv_app_nth)
  moreover from assms(2) have "replay_at (ag_apply ag) (start i) 0 (take ?m lg) = Inr s" by (simp add: log_state_def)
  ultimately have "replay_at (ag_apply ag) (start i) 0 (take n lg) = Inr s'"
    using replay_at_snoc [of "ag_apply ag" "start i" "take ?m lg" s "lg ! ?m"] assms(3-5) by (simp add: min_def)
  with assms(4) lawfulD(2) [OF assms(1,5)] show ?thesis by (simp add: log_state_def)
qed

lemma settle_idle: "sub_settle ag g now (c, u\<lparr>su_pc := AwaitEvent\<rparr>) = (c, u\<lparr>su_pc := AwaitEvent\<rparr>)"
  by (simp add: sub_settle_def)

lemma settle_applied:
  "sub_settle ag g now (sub_apply ag now e n c u) =
     (case su_current u of None \<Rightarrow> sub_settle ag g now (c, u) | Some s \<Rightarrow> sub_apply ag now e n c u)"
  by (auto simp: sub_apply_def sub_settle_def split: option.splits sum.splits)

lemma settle_gap:
  "sub_settle ag g now (c, sub_gap ag e n u) =
     (case su_current u of None \<Rightarrow> sub_settle ag g now (c, u) | Some s \<Rightarrow> (c, sub_gap ag e n u))"
  by (auto simp: sub_gap_def sub_settle_def split: option.splits sum.splits)

text \<open>The first event asks for the state; with the state at hand the turn is the same.\<close>

lemma first_event:
  assumes "g (ag_eventHasId ag e) = Inr s"
  shows "subscribe ag g now ((e, n) # events) (c, new_sub) = subscribe ag g now ((e, n) # events) (c, \<lparr>su_current = Some s, su_pc = AwaitEvent\<rparr>)"
proof -
  have "sub_settle ag g now (c, \<lparr>su_current = Some s, su_pc = dispatch ag s e n\<rparr>)
      = sub_settle ag g now (sub_settle ag g now (c, \<lparr>su_current = Some s, su_pc = dispatch ag s e n\<rparr>))"
  proof (cases "dispatch ag s e n")
    case (AwaitState a b)
    then show ?thesis by (simp add: dispatch_def Let_def split: if_splits)
  next
    case (AwaitApply a b)
    then show ?thesis by (simp add: sub_settle_def [of ag g now "(c, _)"] settle_applied)
  next
    case (AwaitGap a b)
    then show ?thesis by (simp add: sub_settle_def [of ag g now "(c, _)"] settle_gap)
  qed (simp_all add: sub_settle_def)
  then show ?thesis using assms
    by (simp add: new_sub_def sub_event_def sub_state_def sub_settle_def [of ag g now "(c, \<lparr>su_current = None, su_pc = AwaitState e n\<rparr>)"])
qed

text \<open>A turn with the state at hand.\<close>

lemma turn:
  assumes "lawful ag start"
  shows "sub_settle ag g now (sub_settle ag g now (c, sub_event ag e n \<lparr>su_current = Some s, su_pc = AwaitEvent\<rparr>)) =
    (if n = ag_stateHasOrdinal ag s + 1 then sub_apply ag now e n c \<lparr>su_current = Some s, su_pc = AwaitApply e n\<rparr>
     else if n \<le> ag_stateHasOrdinal ag s then (c, \<lparr>su_current = Some s, su_pc = AwaitEvent\<rparr>)
     else (c, sub_gap ag e n \<lparr>su_current = Some s, su_pc = AwaitGap e n\<rparr>))"
  by (simp add: sub_event_def dispatch_number [OF assms] sub_settle_def [of ag g now "(c, _)"] settle_applied settle_gap)

lemma updateConsistent_get:
  "\<exists>en. js_get (ca_entries (snd (updateConsistent now i s c))) i = Some en \<and> ce_state en = s \<and> ce_consistent en"
  by (auto simp: updateConsistent_def add_entry_def split: option.splits)

text \<open>The events of a log from a number on, as a stream delivers them.\<close>

definition stream_from :: "'e list \<Rightarrow> nat \<Rightarrow> ('e \<times> nat) list" where
  "stream_from lg k = map (\<lambda>n. (lg ! (n - 1), n)) [max 1 k ..< Suc (length lg)]"

lemma stream_from_end: "length lg < k \<Longrightarrow> stream_from lg k = []"
  by (simp add: stream_from_def)

lemma stream_from_Cons:
  "1 \<le> k \<Longrightarrow> k \<le> length lg \<Longrightarrow> stream_from lg k = (lg ! (k - 1), k) # stream_from lg (Suc k)"
  by (simp add: stream_from_def upt_conv_Cons max_def del: upt_Suc)

lemma subscribe_ended: "su_pc (snd x) = SubEnded r \<Longrightarrow> subscribe ag g now evs x = x"
  by (cases evs) auto

text \<open>
  How a subscription comes out: with the error, or waiting for more with the state, which the cache then holds as consistent
  if the subscription moved at all.
\<close>

definition comes_out :: "js_error + 's \<Rightarrow> bool \<Rightarrow> 'i \<Rightarrow> ('i, 's) cache \<times> ('e, 'o, 's) sub \<Rightarrow> bool" where
  "comes_out r moved i x =
     (case r of
        Inl err \<Rightarrow> su_pc (snd x) = SubEnded (Some err)
      | Inr s \<Rightarrow> snd x = \<lparr>su_current = Some s, su_pc = AwaitEvent\<rparr>
          \<and> (moved \<longrightarrow> (case js_get (ca_entries (fst x)) i of None \<Rightarrow> False | Some en \<Rightarrow> ce_state en = s \<and> ce_consistent en)))"

lemma subscribe_from_state:
  assumes law: "lawful ag start" and ids: "\<forall>e \<in> set lg. ag_eventHasId ag e = i"
    and pre: "log_state ag (start i) lg s" and k: "1 \<le> k" "k \<le> ag_stateHasOrdinal ag s + 1"
  shows "comes_out (replay_at (ag_apply ag) (start i) 0 lg) (ag_stateHasOrdinal ag s < length lg) i
     (subscribe ag g now (stream_from lg k) (c, \<lparr>su_current = Some s, su_pc = AwaitEvent\<rparr>))"
  using pre k
proof (induction "length lg + 1 - k" arbitrary: k s c)
  case 0
  then have "ag_stateHasOrdinal ag s = length lg" by (simp add: log_state_def)
  with 0 have "replay_at (ag_apply ag) (start i) 0 lg = Inr s" by (simp add: log_state_def)
  with 0 \<open>ag_stateHasOrdinal ag s = length lg\<close> show ?case by (simp add: stream_from_end comes_out_def)
next
  case (Suc d)
  let ?m = "ag_stateHasOrdinal ag s" and ?e = "lg ! (k - 1)"
  from Suc.hyps(2) have kl: "k \<le> length lg" by simp
  note cons = stream_from_Cons [OF Suc.prems(2) kl]
  show ?case
  proof (cases "k \<le> ?m")
    case True
    then show ?thesis
      using Suc.hyps(1) [of "Suc k" s c] Suc.hyps(2) Suc.prems by (simp add: cons turn [OF law])
  next
    case False
    with Suc.prems have km: "k = ?m + 1" by simp
    from km kl have split: "lg = take ?m lg @ ?e # drop k lg" by (simp add: id_take_nth_drop)
    from Suc.prems(1) have "replay_at (ag_apply ag) (start i) 0 (take ?m lg) = Inr s" by (simp add: log_state_def)
    with km kl have rep: "replay_at (ag_apply ag) (start i) 0 lg =
        (case ag_apply ag s ?e k of Inl err \<Rightarrow> Inl err | Inr s' \<Rightarrow> replay_at (ag_apply ag) s' k (drop k lg))"
      by (subst split) (simp add: replay_at_append min_def split: sum.splits)
    from ids kl Suc.prems(2) have idk: "ag_eventHasId ag ?e = i" by simp
    have next_turn: "sub_settle ag g now (sub_settle ag g now (c, sub_event ag ?e k \<lparr>su_current = Some s, su_pc = AwaitEvent\<rparr>))
        = sub_apply ag now ?e k c \<lparr>su_current = Some s, su_pc = AwaitApply ?e k\<rparr>"
      using km by (simp add: turn [OF law])
    show ?thesis
    proof (cases "ag_apply ag s ?e k")
      case (Inl err)
      then have "subscribe ag g now (stream_from lg k) (c, \<lparr>su_current = Some s, su_pc = AwaitEvent\<rparr>)
          = (c, \<lparr>su_current = Some s, su_pc = SubEnded (Some err)\<rparr>)"
        by (simp add: cons next_turn sub_apply_def subscribe_ended del: One_nat_def)
      with rep Inl show ?thesis by (simp add: comes_out_def)
    next
      case (Inr s')
      have ord: "ag_stateHasOrdinal ag s' = k" using lawfulD(2) [OF law Inr] .
      let ?c = "snd (updateConsistent now i s' c)"
      have red: "subscribe ag g now (stream_from lg k) (c, \<lparr>su_current = Some s, su_pc = AwaitEvent\<rparr>)
          = subscribe ag g now (stream_from lg (Suc k)) (?c, \<lparr>su_current = Some s', su_pc = AwaitEvent\<rparr>)"
        using Inr by (simp add: cons next_turn sub_apply_def idk del: One_nat_def)
      have pre': "log_state ag (start i) lg s'"
        using log_state_apply [OF law Suc.prems(1) km kl Inr] .
      show ?thesis
      proof (cases "k = length lg")
        case True
        with rep Inr have "replay_at (ag_apply ag) (start i) 0 lg = Inr s'" by simp
        with True red updateConsistent_get [of now i s' c] show ?thesis by (auto simp: stream_from_end comes_out_def)
      next
        case False
        with Suc.hyps(1) [of "Suc k" s' ?c] Suc.hyps(2) pre' ord kl red show ?thesis
          by (auto simp: comes_out_def split: sum.splits)
      qed
    qed
  qed
qed

text \<open>
  C16. A subscription folds every event of its id exactly once, in order. Let \<open>getState\<close> answer a state of some prefix of the
  log, and let the stream deliver the log from any number that is not beyond that state: from the beginning, from the last
  ordinal (which the code asks for, although its event is applied already), or from anywhere between. Then the subscription
  ends up with the replay of the whole log, which the cache holds as consistent, or with the error at which the replay fails.
\<close>

theorem subscribe_equals_replay:
  assumes "lawful ag start" "\<forall>e \<in> set lg. ag_eventHasId ag e = i"
    and "getState i = Inr s" "log_state ag (start i) lg s" "k \<le> ag_stateHasOrdinal ag s + 1" "stream_from lg k \<noteq> []"
  shows "comes_out (replay_at (ag_apply ag) (start i) 0 lg) (ag_stateHasOrdinal ag s < length lg) i
     (subscribe ag getState now (stream_from lg k) (c, new_sub))"
proof -
  have eq: "stream_from lg k = stream_from lg (max 1 k)" by (simp add: stream_from_def)
  with assms(6) have len: "max 1 k \<le> length lg" using stream_from_end [of lg "max 1 k"] by fastforce
  then have cons: "stream_from lg k = (lg ! (max 1 k - 1), max 1 k) # stream_from lg (Suc (max 1 k))"
    unfolding eq by (rule stream_from_Cons [rotated]) simp
  from len have "max 1 k - 1 < length lg" by arith
  with assms(2) have "ag_eventHasId ag (lg ! (max 1 k - 1)) = i" by (simp del: One_nat_def)
  then have "subscribe ag getState now (stream_from lg k) (c, new_sub)
      = subscribe ag getState now (stream_from lg (max 1 k)) (c, \<lparr>su_current = Some s, su_pc = AwaitEvent\<rparr>)"
    unfolding eq [symmetric] unfolding cons by (intro first_event) (simp add: assms(3))
  then show ?thesis
    using subscribe_from_state [OF assms(1,2,4), of "max 1 k"] assms(5) by (simp del: One_nat_def)
qed

text \<open>A read model that adds up numbers: the state is the ordinal and the sum, and a zero cannot be applied.\<close>

definition demo_ag :: "(string, int, nat, nat \<times> int) aggregation" where
  "demo_ag =
     \<lparr>ag_apply = (\<lambda>s e n. if e = 0 then Inl (JsError ''zero'') else Inr (n, snd s + e)),
      ag_onGap = onGapIgnore, ag_eventHasId = (\<lambda>e. ''a''), ag_stateHasOrdinal = fst, ag_consistency = numberConsistency\<rparr>"

lemma demo_ag_lawful: "lawful demo_ag (\<lambda>i. (0, 0))"
  by (simp add: lawful_def demo_ag_def onGapIgnore_def)

theorem subscribe_equals_replay_witness:
  "comes_out (Inr (3, 12)) True ''a'' (subscribe demo_ag (\<lambda>i. Inr (1, 3)) 0 (stream_from [3, 4, 5] 1) (createCache, new_sub))
   \<and> replay_at (ag_apply demo_ag) (0, 0) 0 [3, 4, 5] = Inr (3, 12)"
proof -
  have rep: "replay_at (ag_apply demo_ag) (0, 0) 0 [3, 4, 5] = Inr (3, 12)" by (simp add: demo_ag_def)
  have "log_state demo_ag (0, 0) [3, 4, 5] (1, 3)" by (simp add: log_state_def demo_ag_def)
  moreover have "stream_from [3, 4, 5 :: int] 1 \<noteq> []" by (simp add: stream_from_def)
  moreover have "\<forall>e \<in> set [3, 4, 5]. ag_eventHasId demo_ag e = ''a''" "ag_stateHasOrdinal demo_ag (1, 3) = 1"
    by (simp_all add: demo_ag_def)
  ultimately have "comes_out (Inr (3, 12)) (1 < length [3, 4, 5 :: int]) ''a''
      (subscribe demo_ag (\<lambda>i. Inr (1, 3)) 0 (stream_from [3, 4, 5] 1) (createCache, new_sub))"
    using subscribe_equals_replay [OF demo_ag_lawful, where lg = "[3, 4, 5]" and i = "''a''" and getState = "\<lambda>i. Inr (1, 3)"
        and s = "(1, 3)" and k = 1 and now = 0 and c = createCache] rep
    by (simp del: One_nat_def)
  moreover have "1 < length [3, 4, 5 :: int]" by simp
  ultimately show ?thesis using rep by (simp only: simp_thms)
qed

section \<open>Every interleaving\<close>

text \<open>
  Logs, the cache, the subscriptions (each with the id whose events its stream delivers) and the calls of \<open>get\<close> that wait
  for \<open>getState\<close>, with what they returned when they have.
\<close>

record ('i, 'e, 's) rm_world =
  rm_log :: "'i \<Rightarrow> 'e list"
  rm_cache :: "('i, 's) cache"
  rm_subs :: "('i \<times> ('e, nat, 's) sub) list"
  rm_gets :: "('i \<times> (js_error + 's) option) list"

definition get_call :: "int \<Rightarrow> 'i \<Rightarrow> ('i, 'e, 's) rm_world \<Rightarrow> ('i, 'e, 's) rm_world" where
  "get_call now i w =
     (let r = cache_get now i (rm_cache w)
      in w\<lparr>rm_cache := snd r, rm_gets := rm_gets w @ [(i, map_option Inr (fst r))]\<rparr>)"

text \<open>The state that \<open>getState\<close> gave is returned, whatever \<open>updateBestEffort\<close> says.\<close>

definition get_answered :: "int \<Rightarrow> nat \<Rightarrow> js_error + 's \<Rightarrow> ('i, 'e, 's) rm_world \<Rightarrow> ('i, 'e, 's) rm_world" where
  "get_answered now k answer w =
     (let i = fst (rm_gets w ! k)
      in w\<lparr>rm_cache := (case answer of Inl err \<Rightarrow> rm_cache w | Inr s \<Rightarrow> snd (updateBestEffort now i s (rm_cache w))),
           rm_gets := (rm_gets w)[k := (i, Some answer)]\<rparr>)"

definition put_sub :: "nat \<Rightarrow> ('e, nat, 's) sub \<Rightarrow> ('i, 'e, 's) rm_world \<Rightarrow> ('i, 'e, 's) rm_world" where
  "put_sub j u w = w\<lparr>rm_subs := (rm_subs w)[j := (fst (rm_subs w ! j), u)]\<rparr>"

text \<open>An awaited call settles as the model says, or throws.\<close>

definition sub_turn ::
  "('i, 'e, nat, 's) aggregation \<Rightarrow> js_error option \<Rightarrow> js_error + 's \<Rightarrow> int \<Rightarrow> nat \<Rightarrow> ('i, 'e, 's) rm_world \<Rightarrow> ('i, 'e, 's) rm_world" where
  "sub_turn ag fault answer now j w =
     (let u = snd (rm_subs w ! j)
      in case fault of
           Some err \<Rightarrow> put_sub j (u\<lparr>su_pc := SubEnded (Some err)\<rparr>) w
         | None \<Rightarrow>
             (let r = sub_settle ag (\<lambda>i. answer) now (rm_cache w, u) in put_sub j (snd r) (w\<lparr>rm_cache := fst r\<rparr>)))"

definition awaits_call :: "('e, 'o) sub_pc \<Rightarrow> bool" where
  "awaits_call p = (case p of AwaitState e n \<Rightarrow> True | AwaitApply e n \<Rightarrow> True | AwaitGap e n \<Rightarrow> True | _ \<Rightarrow> False)"

inductive rm_run :: "('i, 'e, nat, 's) aggregation \<Rightarrow> ('i \<Rightarrow> 's) \<Rightarrow> int \<Rightarrow> ('i, 'e, 's) rm_world \<Rightarrow> bool"
  for ag start ttl where
  begun: "rm_run ag start ttl \<lparr>rm_log = (\<lambda>i. []), rm_cache = createCache, rm_subs = [], rm_gets = []\<rparr>"
| written: "rm_run ag start ttl w \<Longrightarrow>
    rm_run ag start ttl (w\<lparr>rm_log := (rm_log w)(ag_eventHasId ag e := rm_log w (ag_eventHasId ag e) @ [e])\<rparr>)"
| opened: "rm_run ag start ttl w \<Longrightarrow> rm_run ag start ttl (w\<lparr>rm_subs := rm_subs w @ [(i, new_sub)]\<rparr>)"
| delivered: "rm_run ag start ttl w \<Longrightarrow> j < length (rm_subs w) \<Longrightarrow> su_pc (snd (rm_subs w ! j)) = AwaitEvent \<Longrightarrow>
    1 \<le> n \<Longrightarrow> n \<le> length (rm_log w (fst (rm_subs w ! j))) \<Longrightarrow>
    rm_run ag start ttl (put_sub j (sub_event ag (rm_log w (fst (rm_subs w ! j)) ! (n - 1)) n (snd (rm_subs w ! j))) w)"
| finished: "rm_run ag start ttl w \<Longrightarrow> j < length (rm_subs w) \<Longrightarrow> su_pc (snd (rm_subs w ! j)) = AwaitEvent \<Longrightarrow>
    rm_run ag start ttl (put_sub j ((snd (rm_subs w ! j))\<lparr>su_pc := SubEnded r\<rparr>) w)"
| turned: "rm_run ag start ttl w \<Longrightarrow> j < length (rm_subs w) \<Longrightarrow> awaits_call (su_pc (snd (rm_subs w ! j))) \<Longrightarrow>
    (case answer of Inl err \<Rightarrow> True | Inr s \<Rightarrow> log_state ag (start (fst (rm_subs w ! j))) (rm_log w (fst (rm_subs w ! j))) s) \<Longrightarrow>
    rm_run ag start ttl (sub_turn ag fault answer now j w)"
| asked: "rm_run ag start ttl w \<Longrightarrow> rm_run ag start ttl (get_call now i w)"
| answered: "rm_run ag start ttl w \<Longrightarrow> k < length (rm_gets w) \<Longrightarrow> snd (rm_gets w ! k) = None \<Longrightarrow>
    (case answer of Inl err \<Rightarrow> True | Inr s \<Rightarrow> log_state ag (start (fst (rm_gets w ! k))) (rm_log w (fst (rm_gets w ! k))) s) \<Longrightarrow>
    rm_run ag start ttl (get_answered now k answer w)"
| evicted: "rm_run ag start ttl w \<Longrightarrow> rm_run ag start ttl (w\<lparr>rm_cache := evict ttl now (rm_cache w)\<rparr>)"

definition at_event :: "'e list \<Rightarrow> 'e \<Rightarrow> nat \<Rightarrow> bool" where
  "at_event lg e n \<longleftrightarrow> 1 \<le> n \<and> n \<le> length lg \<and> e = lg ! (n - 1)"

definition pc_ok :: "('i, 'e, nat, 's) aggregation \<Rightarrow> 'e list \<Rightarrow> 's option \<Rightarrow> ('e, nat) sub_pc \<Rightarrow> bool" where
  "pc_ok ag lg cur p =
     (case p of
        AwaitState e n \<Rightarrow> at_event lg e n
      | AwaitApply e n \<Rightarrow> at_event lg e n \<and> (case cur of None \<Rightarrow> False | Some s \<Rightarrow> n = ag_stateHasOrdinal ag s + 1)
      | _ \<Rightarrow> True)"

definition sub_ok :: "('i, 'e, nat, 's) aggregation \<Rightarrow> 's \<Rightarrow> 'e list \<Rightarrow> ('e, nat, 's) sub \<Rightarrow> bool" where
  "sub_ok ag start lg u \<longleftrightarrow>
     (case su_current u of None \<Rightarrow> True | Some s \<Rightarrow> log_state ag start lg s) \<and> pc_ok ag lg (su_current u) (su_pc u)"

lemma at_event_grows: "at_event lg e n \<Longrightarrow> at_event (lg @ xs) e n"
  by (auto simp: at_event_def nth_append)

lemma sub_ok_grows: "sub_ok ag start lg u \<Longrightarrow> sub_ok ag start (lg @ [e]) u"
  by (auto simp: sub_ok_def pc_ok_def log_state_grows at_event_grows split: option.splits sub_pc.splits)

lemma sub_ok_new: "sub_ok ag start lg new_sub"
  by (simp add: sub_ok_def new_sub_def pc_ok_def)

lemma sub_ok_ended: "sub_ok ag start lg u \<Longrightarrow> sub_ok ag start lg (u\<lparr>su_pc := SubEnded r\<rparr>)"
  by (simp add: sub_ok_def pc_ok_def)

lemma pc_ok_dispatch:
  assumes "lawful ag start" "at_event lg e n"
  shows "pc_ok ag lg (Some s) (dispatch ag s e n)"
  using assms(2) by (auto simp: dispatch_number [OF assms(1)] pc_ok_def)

lemma sub_ok_event:
  assumes "lawful ag start" "sub_ok ag (start i) lg u" "at_event lg e n"
  shows "sub_ok ag (start i) lg (sub_event ag e n u)"
  using assms pc_ok_dispatch [OF assms(1,3)] by (auto simp: sub_ok_def sub_event_def pc_ok_def [of ag lg None] split: option.splits)

lemma sub_settle_ok:
  assumes law: "lawful ag start" and u: "sub_ok ag (start i) (L i) u" and c: "cache_ok (\<lambda>i. log_state ag (start i) (L i)) c"
    and ans: "case answer of Inl err \<Rightarrow> True | Inr s \<Rightarrow> log_state ag (start i) (L i) s"
    and ids: "\<forall>e \<in> set (L i). ag_eventHasId ag e = i"
    and r: "sub_settle ag (\<lambda>i. answer) now (c, u) = (c', u')"
  shows "sub_ok ag (start i) (L i) u' \<and> cache_ok (\<lambda>i. log_state ag (start i) (L i)) c'"
proof (cases "su_pc u")
  case (AwaitState e n)
  with u have "at_event (L i) e n" by (simp add: sub_ok_def pc_ok_def)
  with AwaitState r c ans pc_ok_dispatch [OF law] u show ?thesis
    by (auto simp: sub_settle_def sub_state_def sub_ok_def pc_ok_def [of ag _ _ "SubEnded _"] split: sum.splits)
next
  case (AwaitApply e n)
  with u obtain s where s: "su_current u = Some s" "at_event (L i) e n" "n = ag_stateHasOrdinal ag s + 1" "log_state ag (start i) (L i) s"
    by (auto simp: sub_ok_def pc_ok_def split: option.splits)
  from s(2) ids have id: "ag_eventHasId ag e = i" by (auto simp: at_event_def)
  show ?thesis
  proof (cases "ag_apply ag s e n")
    case (Inl err)
    with AwaitApply s(1) r c sub_ok_ended [OF u] show ?thesis by (auto simp: sub_settle_def sub_apply_def)
  next
    case (Inr s')
    have "log_state ag (start i) (L i) s'"
      using log_state_apply [OF law s(4,3)] s(2) Inr by (simp add: at_event_def)
    with Inr AwaitApply s(1) r cache_ok_consistent [OF c, of i s'] id show ?thesis
      by (auto simp: sub_settle_def sub_apply_def sub_ok_def pc_ok_def)
  qed
next
  case (AwaitGap e n)
  with u c r show ?thesis
    by (auto simp: sub_settle_def sub_gap_def sub_ok_def pc_ok_def split: option.splits sum.splits dest!: lawfulD(3) [OF law])
qed (use u c r in \<open>auto simp: sub_settle_def\<close>)

text \<open>The invariant of a run.\<close>

definition rm_ok :: "('i, 'e, nat, 's) aggregation \<Rightarrow> ('i \<Rightarrow> 's) \<Rightarrow> ('i, 'e, 's) rm_world \<Rightarrow> bool" where
  "rm_ok ag start w \<longleftrightarrow>
     (\<forall>i. \<forall>e \<in> set (rm_log w i). ag_eventHasId ag e = i)
     \<and> cache_ok (\<lambda>i. log_state ag (start i) (rm_log w i)) (rm_cache w)
     \<and> (\<forall>j < length (rm_subs w). sub_ok ag (start (fst (rm_subs w ! j))) (rm_log w (fst (rm_subs w ! j))) (snd (rm_subs w ! j)))
     \<and> (\<forall>i s. (i, Some (Inr s)) \<in> set (rm_gets w) \<longrightarrow> log_state ag (start i) (rm_log w i) s)"

lemma rm_okI:
  assumes "\<And>i e. e \<in> set (rm_log w i) \<Longrightarrow> ag_eventHasId ag e = i"
    and "cache_ok (\<lambda>i. log_state ag (start i) (rm_log w i)) (rm_cache w)"
    and "\<And>j. j < length (rm_subs w) \<Longrightarrow> sub_ok ag (start (fst (rm_subs w ! j))) (rm_log w (fst (rm_subs w ! j))) (snd (rm_subs w ! j))"
    and "\<And>i s. (i, Some (Inr s)) \<in> set (rm_gets w) \<Longrightarrow> log_state ag (start i) (rm_log w i) s"
  shows "rm_ok ag start w"
  using assms by (auto simp: rm_ok_def)

lemma rm_okD:
  assumes "rm_ok ag start w"
  shows "\<forall>e \<in> set (rm_log w i). ag_eventHasId ag e = i"
    and "cache_ok (\<lambda>i. log_state ag (start i) (rm_log w i)) (rm_cache w)"
    and "j < length (rm_subs w) \<Longrightarrow> sub_ok ag (start (fst (rm_subs w ! j))) (rm_log w (fst (rm_subs w ! j))) (snd (rm_subs w ! j))"
    and "(i, Some (Inr s)) \<in> set (rm_gets w) \<Longrightarrow> log_state ag (start i) (rm_log w i) s"
  using assms unfolding rm_ok_def by blast+

lemma rm_ok_put_sub:
  assumes "rm_ok ag start w" "j < length (rm_subs w)"
    and "sub_ok ag (start (fst (rm_subs w ! j))) (rm_log w (fst (rm_subs w ! j))) u"
  shows "rm_ok ag start (put_sub j u w)"
  using rm_okD [OF assms(1)] assms(2,3) by (intro rm_okI) (auto simp: put_sub_def nth_list_update)

lemma rm_ok_cache:
  assumes "rm_ok ag start w" "cache_ok (\<lambda>i. log_state ag (start i) (rm_log w i)) c"
  shows "rm_ok ag start (w\<lparr>rm_cache := c\<rparr>)"
  using rm_okD [OF assms(1)] assms(2) by (intro rm_okI) auto

lemma rm_run_ok: "rm_run ag start ttl w \<Longrightarrow> lawful ag start \<Longrightarrow> rm_ok ag start w"
proof (induction rule: rm_run.induct)
  case begun
  show ?case by (rule rm_okI) (simp_all add: cache_ok_create)
next
  case (written w e)
  note ok = rm_okD [OF written.IH [OF written.prems]]
  have grow: "log_state ag st (((rm_log w)(ag_eventHasId ag e := rm_log w (ag_eventHasId ag e) @ [e])) i) s"
    if "log_state ag st (rm_log w i) s" for st i s
    using that by (auto intro: log_state_grows)
  show ?case
  proof (rule rm_okI, goal_cases)
    case (1 i x)
    with ok(1) show ?case by (auto split: if_splits)
  next
    case 2
    have "cache_ok (\<lambda>i. log_state ag (start i) (((rm_log w)(ag_eventHasId ag e := rm_log w (ag_eventHasId ag e) @ [e])) i)) (rm_cache w)"
      by (rule cache_ok_mono [OF ok(2)]) (rule grow)
    then show ?case by simp
  next
    case (3 j)
    with ok(3) [of j] show ?case by (auto simp: sub_ok_grows)
  next
    case (4 i s)
    then have "(i, Some (Inr s)) \<in> set (rm_gets w)" by simp
    from grow [OF ok(4) [OF this]] show ?case by simp
  qed
next
  case (opened w i)
  note ok = rm_okD [OF opened.IH [OF opened.prems]]
  show ?case
  proof (rule rm_okI, goal_cases)
    case (3 j)
    with ok(3) [of j] show ?case by (auto simp: nth_append sub_ok_new)
  qed (use ok in auto)
next
  case (delivered w j n)
  note ok = delivered.IH [OF delivered.prems]
  from delivered.hyps show ?case
    by (intro rm_ok_put_sub [OF ok] sub_ok_event [OF delivered.prems] rm_okD(3) [OF ok]) (auto simp: at_event_def)
next
  case (finished w j r)
  note ok = finished.IH [OF finished.prems]
  from finished.hyps show ?case by (intro rm_ok_put_sub [OF ok] sub_ok_ended rm_okD(3) [OF ok])
next
  case (turned w j answer fault now)
  note ok = turned.IH [OF turned.prems]
  show ?case
  proof (cases fault)
    case None
    obtain c' u' where r: "sub_settle ag (\<lambda>i. answer) now (rm_cache w, snd (rm_subs w ! j)) = (c', u')" by fastforce
    from sub_settle_ok [OF turned.prems rm_okD(3) [OF ok turned.hyps(2)] rm_okD(2) [OF ok] turned.hyps(4) rm_okD(1) [OF ok] r]
    have "sub_ok ag (start (fst (rm_subs w ! j))) (rm_log w (fst (rm_subs w ! j))) u'"
      "cache_ok (\<lambda>i. log_state ag (start i) (rm_log w i)) c'" by blast+
    with None r turned.hyps(2) show ?thesis by (simp add: sub_turn_def Let_def rm_ok_put_sub rm_ok_cache [OF ok])
  next
    case (Some err)
    with turned.hyps(2) show ?thesis
      by (simp add: sub_turn_def Let_def rm_ok_put_sub [OF ok] sub_ok_ended rm_okD(3) [OF ok])
  qed
next
  case (asked w now i)
  note ok = rm_okD [OF asked.IH [OF asked.prems]]
  show ?case
  proof (rule rm_okI, goal_cases)
    case 2
    from ok(2) show ?case by (simp add: get_call_def Let_def cache_ok_get)
  next
    case (4 i' s)
    then consider "(i', Some (Inr s)) \<in> set (rm_gets w)" | "i' = i" "fst (cache_get now i (rm_cache w)) = Some s"
      by (cases "fst (cache_get now i (rm_cache w))") (auto simp: get_call_def Let_def)
    then show ?case using ok(4) cache_get_hit [OF ok(2)] by cases (auto simp: get_call_def Let_def)
  qed (use ok in \<open>auto simp: get_call_def Let_def\<close>)
next
  case (answered w k answer now)
  note ok = rm_okD [OF answered.IH [OF answered.prems]]
  show ?case
  proof (rule rm_okI, goal_cases)
    case 2
    from ok(2) answered.hyps(4) show ?case by (auto simp: get_answered_def Let_def cache_ok_best split: sum.splits)
  next
    case (4 i s)
    then have "(i, Some (Inr s)) \<in> set (rm_gets w) \<or> (i = fst (rm_gets w ! k) \<and> answer = Inr s)"
      by (auto simp: get_answered_def Let_def dest: subsetD [OF set_update_subset_insert])
    with ok(4) answered.hyps(4) show ?case by (auto simp: get_answered_def Let_def)
  qed (use ok in \<open>auto simp: get_answered_def Let_def\<close>)
next
  case (evicted w now)
  note ok = evicted.IH [OF evicted.prems]
  from rm_ok_cache [OF ok cache_ok_evict [OF rm_okD(2) [OF ok]]] show ?case .
qed

text \<open>
  C17. A read model only ever serves states of the log. In every interleaving of subscriptions (several for one id, restarted,
  failing, fed with repeated or out-of-order events), of calls to \<open>get\<close>, of evictions and of writes to the logs: each cached
  state and each state that \<open>get\<close> returned is the replay of that id's log up to the state's ordinal, one entry exists
  per id, the gauge of active entities counts the entries, and the entry of an id that \<open>updateConsistent\<close> wrote is replaced only
  by applying events, not by an answer of \<open>getState\<close>.
\<close>

theorem read_model_serves_replays:
  assumes "rm_run ag start ttl w" "lawful ag start"
  shows "(case js_get (ca_entries (rm_cache w)) i of None \<Rightarrow> True | Some en \<Rightarrow> log_state ag (start i) (rm_log w i) (ce_state en))
    \<and> ((i, Some (Inr s)) \<in> set (rm_gets w) \<longrightarrow> log_state ag (start i) (rm_log w i) s)
    \<and> js_wf (ca_entries (rm_cache w)) \<and> ca_active (rm_cache w) = int (length (ca_entries (rm_cache w)))
    \<and> (\<forall>k answer now. case js_get (ca_entries (rm_cache w)) i of None \<Rightarrow> True
        | Some en \<Rightarrow> ce_consistent en \<longrightarrow> js_get (ca_entries (rm_cache (get_answered now k answer w))) i = Some en)"
proof -
  have ok: "rm_ok ag start w" using rm_run_ok [OF assms] .
  have keep: "js_get (ca_entries (rm_cache (get_answered now k answer w))) i = Some en"
    if "js_get (ca_entries (rm_cache w)) i = Some en" "ce_consistent en" for en k answer now
    using that best_effort_keeps_consistent [OF that]
    by (cases "fst (rm_gets w ! k) = i")
       (auto simp: get_answered_def Let_def updateBestEffort_def add_entry_def split: sum.splits option.splits)
  show ?thesis
    using rm_okD(2) [OF ok, THEN cache_okD(1)] rm_okD(2) [OF ok, THEN cache_okD(2)] rm_okD(4) [OF ok]
      rm_okD(2) [OF ok, THEN cache_okD(3)] keep by (auto split: option.splits)
qed

text \<open>
  A run: an event is written, a reader asks for the state and \<open>getState\<close> is slow to answer, a subscription applies
  the event meanwhile, and then the answer comes.
\<close>

definition demo_step :: "(string, int, nat \<times> int) rm_world \<Rightarrow> (string, int, nat \<times> int) rm_world" where
  "demo_step w = sub_turn demo_ag None (Inr (0, 0)) 0 0 w"

definition demo_written :: "(string, int, nat \<times> int) rm_world" where
  "demo_written = \<lparr>rm_log = (\<lambda>i. [])(''a'' := [5]), rm_cache = createCache, rm_subs = [(''a'', new_sub)], rm_gets = []\<rparr>"

definition demo_asked :: "(string, int, nat \<times> int) rm_world" where
  "demo_asked = get_call 0 ''a'' demo_written"

definition demo_applied :: "(string, int, nat \<times> int) rm_world" where
  "demo_applied = demo_step (demo_step (put_sub 0 (sub_event demo_ag 5 1 new_sub) demo_asked))"

definition demo_race :: "(string, int, nat \<times> int) rm_world" where
  "demo_race = get_answered 0 0 (Inr (0, 0)) demo_applied"

lemma demo_cache_race_run: "rm_run demo_ag (\<lambda>i. (0, 0)) 1000 demo_race"
proof -
  let ?run = "rm_run demo_ag (\<lambda>i. (0, 0)) 1000"
  have id: "ag_eventHasId demo_ag 5 = ''a''" by (simp add: demo_ag_def)
  have disp: "ag_stateHasOrdinal demo_ag = fst" by (simp add: demo_ag_def)
  have pre: "log_state demo_ag (0, 0) lg (0, 0)" for lg by (simp add: log_state_def demo_ag_def)
  from rm_run.opened [OF rm_run.written [OF rm_run.begun [of demo_ag "\<lambda>i. (0, 0)" 1000], where e = 5], where i = "''a''"] id
  have w1: "?run demo_written" by (simp add: demo_written_def)
  have w2: "?run demo_asked" unfolding demo_asked_def by (rule rm_run.asked [OF w1])
  have s2: "rm_subs demo_asked = [(''a'', new_sub)]" "rm_log demo_asked ''a'' = [5]"
    by (simp_all add: demo_asked_def demo_written_def get_call_def Let_def)
  let ?w3 = "put_sub 0 (sub_event demo_ag 5 1 new_sub) demo_asked"
  from rm_run.delivered [OF w2, of 0 1] s2 have w3: "?run ?w3" by (simp add: new_sub_def)
  have s3: "su_pc (snd (rm_subs ?w3 ! 0)) = AwaitState 5 1" "length (rm_subs ?w3) = 1" "fst (rm_subs ?w3 ! 0) = ''a''"
    by (simp_all add: put_sub_def s2 sub_event_def new_sub_def)
  have w4: "?run (demo_step ?w3)"
    unfolding demo_step_def by (rule rm_run.turned [OF w3]) (simp_all add: s3 awaits_call_def pre del: One_nat_def length_greater_0_conv)
  have s4: "su_pc (snd (rm_subs (demo_step ?w3) ! 0)) = AwaitApply 5 1" "length (rm_subs (demo_step ?w3)) = 1"
    "fst (rm_subs (demo_step ?w3) ! 0) = ''a''"
    by (simp_all add: demo_step_def sub_turn_def sub_settle_def sub_state_def put_sub_def s2 sub_event_def new_sub_def
        dispatch_number [OF demo_ag_lawful] disp)
  have w5: "?run demo_applied"
    unfolding demo_applied_def demo_step_def [of "demo_step ?w3"]
    by (rule rm_run.turned [OF w4]) (simp_all add: s4 awaits_call_def pre del: One_nat_def length_greater_0_conv)
  have g5: "rm_gets demo_applied = [(''a'', None)]"
    by (simp add: demo_applied_def demo_step_def sub_turn_def put_sub_def Let_def demo_asked_def get_call_def demo_written_def
        cache_get_def createCache_def)
  show ?thesis unfolding demo_race_def by (rule rm_run.answered [OF w5]) (simp_all add: g5 pre)
qed

lemma demo_race_cache: "ca_entries (rm_cache demo_race) = [(''a'', \<lparr>ce_state = (1, 5), ce_consistent = True, ce_createdAt = 0, ce_accessAt = 0\<rparr>)]"
  by code_simp

lemma demo_race_gets: "rm_gets demo_race = [(''a'', Some (Inr (0, 0)))]"
  by code_simp

theorem read_model_serves_replays_witness:
  "log_state demo_ag (0, 0) (rm_log demo_race ''a'') (1, 5) \<and> ca_active (rm_cache demo_race) = 1"
  using read_model_serves_replays [OF demo_cache_race_run demo_ag_lawful, of "''a''" "(0, 0)"]
  by (simp add: demo_race_cache)

text \<open>
  The same run shows that a caller of \<open>get\<close> is given an older state than the one the cache holds by then: the result of
  \<open>updateBestEffort\<close>, which is the consistent state, is not what \<open>get\<close> returns.
\<close>

lemma get_returns_stale_state:
  "rm_run demo_ag (\<lambda>i. (0, 0)) 1000 demo_race \<and> rm_gets demo_race = [(''a'', Some (Inr (0, 0)))]
   \<and> fst (updateBestEffort 0 ''a'' (0, 0) (rm_cache demo_applied)) = (1, 5)"
  using demo_cache_race_run demo_race_gets by (simp, code_simp)

text \<open>
  After a gap that is ignored the state stays where it is, so every later event is a gap too: the read model follows its id no more.
\<close>

lemma ignored_gap_stops_following:
  assumes "lawful ag start" "ag_onGap ag = onGapIgnore" "list_all (\<lambda>x. ag_stateHasOrdinal ag s + 1 < snd x) events"
  shows "subscribe ag g now events (c, \<lparr>su_current = Some s, su_pc = AwaitEvent\<rparr>) = (c, \<lparr>su_current = Some s, su_pc = AwaitEvent\<rparr>)"
  using assms(3)
proof (induction events)
  case (Cons x events)
  then show ?case
    by (cases x) (simp add: turn [OF assms(1)] sub_gap_def assms(2) onGapIgnore_def)
qed simp

end
