(* ===== verification/Journal_Client.thy ===== *)
theory Journal_Client
  imports Read_Model
begin

text \<open>
  \<open>core/journal-client.ts\<close>: one subscription per aggregation and persistence id, restarted after transient errors, with a
  limited number of them at a time. A call of \<open>startSubscription\<close> is a task; \<open>jc_run\<close> is every interleaving of the tasks, of the
  loop over the ids and of \<open>stop\<close>.
\<close>

section \<open>Restarts\<close>

record jc_config =
  jc_initialDelayMs :: int
  jc_maxDelayMs :: int
  jc_maxAttempts :: int
  jc_maxConcurrent :: int

definition jc_defaults :: jc_config where
  "jc_defaults = \<lparr>jc_initialDelayMs = 1000, jc_maxDelayMs = 30000, jc_maxAttempts = 10, jc_maxConcurrent = 4\<rparr>"

definition jc_isTransientError :: "js_error \<Rightarrow> bool" where
  "jc_isTransientError e =
     (let msg = map ascii_lower (error_message e @ error_cause e)
      in str_includes msg ''connection'' \<or> str_includes msg ''socket'' \<or> str_includes msg ''timeout''
         \<or> str_includes msg ''closed'' \<or> str_includes msg ''reset'' \<or> str_includes msg ''broken pipe'' \<or> str_includes msg ''pool'')"

text \<open>
  The catch block of \<open>subscribeWithRestart\<close>: return, throw, or sleep and call again with a new delay and number of
  attempts left.
\<close>

datatype verdict =
    GiveUp
  | Throw js_error
  | SleepThen int int int

definition on_failure :: "jc_config \<Rightarrow> bool \<Rightarrow> js_error \<Rightarrow> int \<Rightarrow> int \<Rightarrow> verdict" where
  "on_failure cfg aborted err delayMs attemptsLeft =
     (if aborted then GiveUp
      else if jc_isTransientError err \<and> attemptsLeft > 0
      then SleepThen delayMs (min (delayMs * 2) (jc_maxDelayMs cfg)) (attemptsLeft - 1)
      else if jc_isTransientError err then SleepThen (jc_maxDelayMs cfg) (jc_maxDelayMs cfg) 1
      else Throw err)"

text \<open>The delay and the attempts left after a number of transient failures, and how long the next failure makes it sleep.\<close>

fun after_failures :: "jc_config \<Rightarrow> nat \<Rightarrow> int \<times> int" where
  "after_failures cfg 0 = (jc_initialDelayMs cfg, jc_maxAttempts cfg)"
| "after_failures cfg (Suc k) =
     (case on_failure cfg False (JsError ''timeout'') (fst (after_failures cfg k)) (snd (after_failures cfg k)) of
        SleepThen w d n \<Rightarrow> (d, n)
      | _ \<Rightarrow> after_failures cfg k)"

definition restart_wait :: "jc_config \<Rightarrow> nat \<Rightarrow> js_error \<Rightarrow> int option" where
  "restart_wait cfg k err =
     (case on_failure cfg False err (fst (after_failures cfg k)) (snd (after_failures cfg k)) of
        SleepThen w d n \<Rightarrow> Some w | _ \<Rightarrow> None)"

lemma timeout_is_transient: "jc_isTransientError (JsError ''timeout'')"
  by code_simp

lemma after_failures_closed:
  assumes "0 \<le> jc_initialDelayMs cfg" "0 \<le> jc_maxDelayMs cfg" "int k \<le> jc_maxAttempts cfg" 
  shows "after_failures cfg k =
    (if k = 0 then jc_initialDelayMs cfg else min (jc_initialDelayMs cfg * 2 ^ k) (jc_maxDelayMs cfg), jc_maxAttempts cfg - int k)"
  using assms(3)
proof (induction k)
  case (Suc k)
  then have IH: "after_failures cfg k =
    (if k = 0 then jc_initialDelayMs cfg else min (jc_initialDelayMs cfg * 2 ^ k) (jc_maxDelayMs cfg), jc_maxAttempts cfg - int k)"
    by simp
  from Suc.prems have "0 < jc_maxAttempts cfg - int k" by simp
  moreover have "min (min (jc_initialDelayMs cfg * 2 ^ k) (jc_maxDelayMs cfg) * 2) (jc_maxDelayMs cfg)
      = min (jc_initialDelayMs cfg * 2 ^ Suc k) (jc_maxDelayMs cfg)"
    using assms(2) by (auto simp: min_def)
  ultimately show ?case using timeout_is_transient by (auto simp: IH on_failure_def mult.commute)
qed simp

text \<open>
  Restarts of a subscription. The wait before a restart doubles from the initial delay and is capped by the maximum from the second
  one on; when the configured number of attempts is used up the client does not give up but goes on with the maximum for
  ever; any error that is not transient ends the subscription at once.
\<close>

lemma restart_schedule:
  assumes "0 \<le> jc_initialDelayMs cfg" "0 \<le> jc_maxDelayMs cfg" "0 \<le> jc_maxAttempts cfg"
  shows "restart_wait cfg k err =
    (if \<not> jc_isTransientError err then None
     else if int k \<ge> jc_maxAttempts cfg then Some (jc_maxDelayMs cfg)
     else if k = 0 then Some (jc_initialDelayMs cfg)
     else Some (min (jc_initialDelayMs cfg * 2 ^ k) (jc_maxDelayMs cfg)))"
proof -
  have late: "snd (after_failures cfg k) \<le> 0 \<or> fst (after_failures cfg k) = jc_maxDelayMs cfg" if "int k \<ge> jc_maxAttempts cfg" for k
    using that
  proof (induction k)
    case (Suc k)
    show ?case
    proof (cases "int k \<ge> jc_maxAttempts cfg")
      case True
      with Suc.IH timeout_is_transient assms(2) show ?thesis by (auto simp: on_failure_def min_def)
    next
      case False
      with Suc.prems have "int (Suc k) = jc_maxAttempts cfg" by simp
      with after_failures_closed [OF assms(1,2), of "Suc k"] show ?thesis by simp
    qed
  qed (use assms(3) in simp)
  show ?thesis
  proof (cases "int k \<ge> jc_maxAttempts cfg")
    case True
    with late [OF True] show ?thesis by (auto simp: restart_wait_def on_failure_def)
  next
    case False
    with after_failures_closed [OF assms(1,2), of k] show ?thesis by (auto simp: restart_wait_def on_failure_def)
  qed
qed

lemma restart_schedule_example:
  "map (\<lambda>k. restart_wait jc_defaults k (JsError ''socket hang up'')) [0, 1, 4, 5, 9, 10, 1000]
     = map Some [1000, 2000, 16000, 30000, 30000, 30000, 30000]"
proof -
  have t: "jc_isTransientError (JsError ''socket hang up'')" by code_simp
  note r = restart_schedule [of jc_defaults, where err = "JsError ''socket hang up''"]
  show ?thesis using r [of 0] r [of 1] r [of 4] r [of 5] r [of 9] r [of 10] r [of 1000] t by (simp add: jc_defaults_def)
qed

section \<open>Tasks and slots\<close>

text \<open>
  Where a call of \<open>startSubscription\<close> is: in the queue for a slot; woken from it; with a slot but not yet subscribed; waiting for
  \<open>agg.subscribe\<close>, with the delay and attempts left; sleeping before a restart; its subscription settled; taken out of
  the table; its slot released; or returned at once, as the key was there.
\<close>

datatype task_pc =
    Queued
  | Woken
  | Granted
  | Subscribing int int
  | Sleeping int int int
  | Settled "js_error option"
  | Removed "js_error option"
  | Released "js_error option"
  | Skipped

text \<open>The promise \<open>running\<close>: in one of the two loops over ids, waiting for the subscriptions of that moment, or settled.\<close>

datatype loop_pc =
    Preloading
  | Streaming
  | WaitingFor "nat list"
  | Resolved
  | RejectedWith js_error

record jc_task =
  tk_key :: string
  tk_pc :: task_pc

record client =
  jc_subscribed :: "(string, nat) jsmap"
  jc_aborted :: "js_error option"
  jc_starts :: int
  jc_queue :: "nat list"
  jc_tasks :: "jc_task list"
  jc_loop :: loop_pc

definition startJournalClient :: "bool \<Rightarrow> client" where
  "startJournalClient eagerPreload =
     \<lparr>jc_subscribed = [], jc_aborted = None, jc_starts = 0, jc_queue = [], jc_tasks = [],
      jc_loop = (if eagerPreload then Preloading else Streaming)\<rparr>"

definition subscriptionKey :: "string \<Rightarrow> string \<Rightarrow> string" where
  "subscriptionKey aggId i = aggId @ '':'' @ i"

definition set_pc :: "nat \<Rightarrow> task_pc \<Rightarrow> client \<Rightarrow> client" where
  "set_pc t p c = c\<lparr>jc_tasks := (jc_tasks c)[t := (jc_tasks c ! t)\<lparr>tk_pc := p\<rparr>]\<rparr>"

definition pc_of :: "client \<Rightarrow> nat \<Rightarrow> task_pc" where
  "pc_of c t = tk_pc (jc_tasks c ! t)"

definition new_task :: "string \<Rightarrow> task_pc \<Rightarrow> client \<Rightarrow> client" where
  "new_task key p c = c\<lparr>jc_tasks := jc_tasks c @ [\<lparr>tk_key = key, tk_pc = p\<rparr>]\<rparr>"

text \<open>\<open>startSubscription\<close> up to its first await.\<close>

definition startSubscription :: "jc_config \<Rightarrow> string \<Rightarrow> client \<Rightarrow> client" where
  "startSubscription cfg key c =
     (if js_get (jc_subscribed c) key \<noteq> None then new_task key Skipped c
      else if jc_starts c \<ge> jc_maxConcurrent cfg
      then new_task key Queued (c\<lparr>jc_queue := jc_queue c @ [length (jc_tasks c)]\<rparr>)
      else new_task key Granted (c\<lparr>jc_starts := jc_starts c + 1\<rparr>))"

text \<open>A woken task looks at the counter again.\<close>

definition resume_waiting :: "jc_config \<Rightarrow> nat \<Rightarrow> client \<Rightarrow> client" where
  "resume_waiting cfg t c =
     (if jc_starts c \<ge> jc_maxConcurrent cfg then set_pc t Queued (c\<lparr>jc_queue := jc_queue c @ [t]\<rparr>)
      else set_pc t Granted (c\<lparr>jc_starts := jc_starts c + 1\<rparr>))"

text \<open>\<open>subscribeWithRestart\<close> from its beginning to the await of the subscription.\<close>

definition subscribe_again :: "nat \<Rightarrow> int \<Rightarrow> int \<Rightarrow> client \<Rightarrow> client" where
  "subscribe_again t d n c = set_pc t (if jc_aborted c \<noteq> None then Settled None else Subscribing d n) c"

definition begin_subscription :: "jc_config \<Rightarrow> nat \<Rightarrow> client \<Rightarrow> client" where
  "begin_subscription cfg t c =
     subscribe_again t (jc_initialDelayMs cfg) (jc_maxAttempts cfg)
       (c\<lparr>jc_subscribed := js_set (tk_key (jc_tasks c ! t)) t (jc_subscribed c)\<rparr>)"

definition subscription_ends :: "jc_config \<Rightarrow> js_error option \<Rightarrow> nat \<Rightarrow> int \<Rightarrow> int \<Rightarrow> client \<Rightarrow> client" where
  "subscription_ends cfg r t d n c =
     set_pc t (case r of
         None \<Rightarrow> Settled None
       | Some err \<Rightarrow> (case on_failure cfg (jc_aborted c \<noteq> None) err d n of
            GiveUp \<Rightarrow> Settled None | Throw e \<Rightarrow> Settled (Some e) | SleepThen w d' n' \<Rightarrow> Sleeping w d' n')) c"

definition remove_key :: "nat \<Rightarrow> js_error option \<Rightarrow> client \<Rightarrow> client" where
  "remove_key t r c = set_pc t (Removed r) (c\<lparr>jc_subscribed := js_delete (tk_key (jc_tasks c ! t)) (jc_subscribed c)\<rparr>)"

definition releaseStartSlot :: "nat \<Rightarrow> js_error option \<Rightarrow> client \<Rightarrow> client" where
  "releaseStartSlot t r c =
     (let c' = set_pc t (Released r) (c\<lparr>jc_starts := jc_starts c - 1\<rparr>)
      in case jc_queue c of [] \<Rightarrow> c' | q # qs \<Rightarrow> set_pc q Woken (c'\<lparr>jc_queue := qs\<rparr>))"

text \<open>\<open>abort\<close> keeps the first reason.\<close>

definition jc_abort :: "js_error \<Rightarrow> client \<Rightarrow> client" where
  "jc_abort e c = (if jc_aborted c = None then c\<lparr>jc_aborted := Some e\<rparr> else c)"

definition jc_stop :: "client \<Rightarrow> client" where
  "jc_stop = jc_abort (JsError ''JournalClient stopped'')"

definition processId :: "jc_config \<Rightarrow> string list \<Rightarrow> string \<Rightarrow> client \<Rightarrow> client" where
  "processId cfg aggs i c = foldl (\<lambda>c a. startSubscription cfg (subscriptionKey a i) c) c aggs"

definition loop_id :: "jc_config \<Rightarrow> string list \<Rightarrow> string \<Rightarrow> client \<Rightarrow> client" where
  "loop_id cfg aggs i c = (if jc_aborted c \<noteq> None then c\<lparr>jc_loop := Resolved\<rparr> else processId cfg aggs i c)"

definition loop_end :: "client \<Rightarrow> client" where
  "loop_end c =
     (case jc_loop c of
        Preloading \<Rightarrow> c\<lparr>jc_loop := Streaming\<rparr>
      | Streaming \<Rightarrow> c\<lparr>jc_loop := WaitingFor (js_values (jc_subscribed c))\<rparr>
      | _ \<Rightarrow> c)"

text \<open>The promise in the table of subscriptions is settled once the key has been removed.\<close>

definition promise_of :: "client \<Rightarrow> nat \<Rightarrow> js_error option option" where
  "promise_of c t = (case pc_of c t of Removed r \<Rightarrow> Some r | Released r \<Rightarrow> Some r | _ \<Rightarrow> None)"

definition loop_wait :: "client \<Rightarrow> client" where
  "loop_wait c =
     (case jc_loop c of
        WaitingFor ts \<Rightarrow>
          (case List.map_filter (\<lambda>t. case promise_of c t of Some (Some e) \<Rightarrow> Some e | _ \<Rightarrow> None) ts of
             e # es \<Rightarrow> c\<lparr>jc_loop := RejectedWith e\<rparr>
           | [] \<Rightarrow> if list_all (\<lambda>t. promise_of c t = Some None) ts then c\<lparr>jc_loop := Resolved\<rparr> else c)
      | _ \<Rightarrow> c)"

definition looping :: "client \<Rightarrow> bool" where
  "looping c = (case jc_loop c of Preloading \<Rightarrow> True | Streaming \<Rightarrow> True | _ \<Rightarrow> False)"

inductive jc_run :: "jc_config \<Rightarrow> string list \<Rightarrow> client \<Rightarrow> bool" for cfg aggs where
  started: "jc_run cfg aggs (startJournalClient eagerPreload)"
| id_arrives: "jc_run cfg aggs c \<Longrightarrow> looping c \<Longrightarrow> jc_run cfg aggs (loop_id cfg aggs i c)"
| ids_end: "jc_run cfg aggs c \<Longrightarrow> jc_run cfg aggs (loop_end c)"
| ids_fail: "jc_run cfg aggs c \<Longrightarrow> looping c \<Longrightarrow> jc_run cfg aggs (c\<lparr>jc_loop := RejectedWith e\<rparr>)"
| all_settled: "jc_run cfg aggs c \<Longrightarrow> jc_run cfg aggs (loop_wait c)"
| woken: "jc_run cfg aggs c \<Longrightarrow> t < length (jc_tasks c) \<Longrightarrow> pc_of c t = Woken \<Longrightarrow> jc_run cfg aggs (resume_waiting cfg t c)"
| begun: "jc_run cfg aggs c \<Longrightarrow> t < length (jc_tasks c) \<Longrightarrow> pc_of c t = Granted \<Longrightarrow> jc_run cfg aggs (begin_subscription cfg t c)"
| ended: "jc_run cfg aggs c \<Longrightarrow> t < length (jc_tasks c) \<Longrightarrow> pc_of c t = Subscribing d n \<Longrightarrow>
    jc_run cfg aggs (subscription_ends cfg r t d n c)"
| timer: "jc_run cfg aggs c \<Longrightarrow> t < length (jc_tasks c) \<Longrightarrow> pc_of c t = Sleeping w d n \<Longrightarrow>
    jc_run cfg aggs (subscribe_again t d n c)"
| removed: "jc_run cfg aggs c \<Longrightarrow> t < length (jc_tasks c) \<Longrightarrow> pc_of c t = Settled r \<Longrightarrow> jc_run cfg aggs (remove_key t r c)"
| released: "jc_run cfg aggs c \<Longrightarrow> t < length (jc_tasks c) \<Longrightarrow> pc_of c t = Removed r \<Longrightarrow>
    jc_run cfg aggs (releaseStartSlot t r c)"
| reported: "jc_run cfg aggs c \<Longrightarrow> t < length (jc_tasks c) \<Longrightarrow> pc_of c t = Released (Some e) \<Longrightarrow> jc_run cfg aggs (jc_abort e c)"
| stopped: "jc_run cfg aggs c \<Longrightarrow> jc_run cfg aggs (jc_stop c)"

section \<open>The slots\<close>

definition holds_slot :: "task_pc \<Rightarrow> bool" where
  "holds_slot p =
     (case p of Granted \<Rightarrow> True | Subscribing d n \<Rightarrow> True | Sleeping w d n \<Rightarrow> True | Settled r \<Rightarrow> True | Removed r \<Rightarrow> True | _ \<Rightarrow> False)"

definition held :: "task_pc list \<Rightarrow> int" where
  "held ps = (\<Sum>p \<leftarrow> ps. of_bool (holds_slot p))"

definition awake :: "task_pc list \<Rightarrow> int" where
  "awake ps = (\<Sum>p \<leftarrow> ps. of_bool (p = Woken))"

definition queued :: "task_pc list \<Rightarrow> nat set" where
  "queued ps = {t. t < length ps \<and> ps ! t = Queued}"

lemma sum_list_map_update:
  fixes f :: "'a \<Rightarrow> int"
  shows "j < length xs \<Longrightarrow> (\<Sum>x \<leftarrow> xs[j := y]. f x) = (\<Sum>x \<leftarrow> xs. f x) - f (xs ! j) + f y"
proof (induction xs arbitrary: j)
  case (Cons x xs)
  then show ?case by (cases j) simp_all
qed simp

lemma held_update: "t < length ps \<Longrightarrow> held (ps[t := p]) = held ps - of_bool (holds_slot (ps ! t)) + of_bool (holds_slot p)"
  by (simp add: held_def sum_list_map_update)

lemma awake_update: "t < length ps \<Longrightarrow> awake (ps[t := p]) = awake ps - of_bool (ps ! t = Woken) + of_bool (p = Woken)"
  by (simp add: awake_def sum_list_map_update)

lemma queued_update: "t < length ps \<Longrightarrow> queued (ps[t := p]) = (if p = Queued then insert t (queued ps) else queued ps - {t})"
  by (auto simp: queued_def nth_list_update)

lemma queued_append: "queued (ps @ [p]) = (if p = Queued then insert (length ps) (queued ps) else queued ps)"
  by (auto simp: queued_def nth_append)

lemma held_append: "held (ps @ [p]) = held ps + of_bool (holds_slot p)"
  by (simp add: held_def)

lemma awake_append: "awake (ps @ [p]) = awake ps + of_bool (p = Woken)"
  by (simp add: awake_def)

lemma held_pos: "0 < held ps \<Longrightarrow> \<exists>p \<in> set ps. holds_slot p"
  unfolding held_def by (induction ps) (auto simp: of_bool_def split: if_splits)

lemma awake_pos: "0 < awake ps \<Longrightarrow> Woken \<in> set ps"
  unfolding awake_def by (induction ps) (auto simp: of_bool_def split: if_splits)

lemma awake_nonneg: "0 \<le> awake ps"
  unfolding awake_def by (induction ps) auto

lemmas slot_counts = held_update awake_update queued_update queued_append held_append awake_append holds_slot_def

text \<open>
  The counter counts the tasks that hold a slot; the queue lists the queued tasks, each once; and while somebody is
  queued, every slot is held or a woken task is about to look at the counter: no wakeup is lost.
\<close>

definition slots_ok :: "int \<Rightarrow> int \<Rightarrow> nat list \<Rightarrow> task_pc list \<Rightarrow> bool" where
  "slots_ok limit starts q ps \<longleftrightarrow>
     starts = held ps \<and> starts \<le> limit \<and> distinct q \<and> set q = queued ps
     \<and> (q \<noteq> [] \<longrightarrow> limit \<le> starts + awake ps)"

lemma slots_okI:
  assumes "starts = held ps" "starts \<le> limit" "distinct q" "set q = queued ps" "q = [] \<or> limit \<le> starts + awake ps"
  shows "slots_ok limit starts q ps"
  using assms by (auto simp: slots_ok_def)

lemma slots_okD:
  assumes "slots_ok limit starts q ps"
  shows "starts = held ps" "starts \<le> limit" "distinct q" "set q = queued ps" "q = [] \<or> limit \<le> starts + awake ps"
  using assms by (auto simp: slots_ok_def)

lemma slots_ok_change:
  assumes "slots_ok limit starts q ps" "t < length ps"
    and "holds_slot p = holds_slot (ps ! t)" "p \<noteq> Queued" "ps ! t \<noteq> Queued" "p = Woken \<longleftrightarrow> ps ! t = Woken"
  shows "slots_ok limit starts q (ps[t := p])"
proof -
  have "queued (ps[t := p]) = queued ps" using assms(2,4,5) by (auto simp: queued_update) (simp add: queued_def)
  with slots_okD [OF assms(1)] assms(2,3,6) show ?thesis
    by (intro slots_okI) (simp_all add: held_update awake_update)
qed

lemma slots_ok_new:
  assumes "slots_ok limit starts q ps" "\<not> holds_slot p" "p \<noteq> Queued" "p \<noteq> Woken"
  shows "slots_ok limit starts q (ps @ [p])"
  using slots_okD [OF assms(1)] assms(2-4) by (intro slots_okI) (simp_all add: held_append awake_append queued_append)

lemma slots_ok_new_queued:
  assumes "slots_ok limit starts q ps" "starts \<ge> limit"
  shows "slots_ok limit starts (q @ [length ps]) (ps @ [Queued])"
proof -
  have "length ps \<notin> queued ps" by (simp add: queued_def)
  moreover have "0 \<le> awake ps" by (rule awake_nonneg)
  ultimately show ?thesis using slots_okD [OF assms(1)] assms(2) by (intro slots_okI) (simp_all add: slot_counts)
qed

lemma slots_ok_new_granted:
  assumes "slots_ok limit starts q ps" "\<not> starts \<ge> limit"
  shows "slots_ok limit (starts + 1) q (ps @ [Granted])"
  using slots_okD [OF assms(1)] assms(2) by (intro slots_okI) (auto simp: slot_counts)

lemma slots_ok_requeued:
  assumes "slots_ok limit starts q ps" "t < length ps" "ps ! t = Woken" "starts \<ge> limit"
  shows "slots_ok limit starts (q @ [t]) (ps[t := Queued])"
proof -
  have "t \<notin> queued ps" using assms(3) by (simp add: queued_def)
  moreover have "0 \<le> awake (ps[t := Queued])" by (rule awake_nonneg)
  ultimately show ?thesis using slots_okD [OF assms(1)] assms(2-4)
    by (intro slots_okI) (simp_all add: slot_counts)
qed

lemma slots_ok_granted:
  assumes "slots_ok limit starts q ps" "t < length ps" "ps ! t = Woken" "\<not> starts \<ge> limit"
  shows "slots_ok limit (starts + 1) q (ps[t := Granted])"
proof -
  have "t \<notin> queued ps" using assms(3) by (simp add: queued_def)
  with slots_okD [OF assms(1)] assms(2-4) show ?thesis
    by (intro slots_okI) (auto simp: slot_counts)
qed

lemma slots_ok_released:
  assumes "slots_ok limit starts q ps" "t < length ps" "ps ! t = Removed r"
  shows "slots_ok limit (starts - 1) [] (ps[t := Released r]) \<or> q \<noteq> []"
    and "q = x # xs \<Longrightarrow> slots_ok limit (starts - 1) xs (ps[t := Released r, x := Woken])"
proof -
  note D = slots_okD [OF assms(1)]
  have t: "t \<notin> queued ps" using assms(3) by (simp add: queued_def)
  with D assms(2,3) show "slots_ok limit (starts - 1) [] (ps[t := Released r]) \<or> q \<noteq> []"
    by (cases q) (auto intro!: slots_okI simp: slot_counts)
  show "slots_ok limit (starts - 1) xs (ps[t := Released r, x := Woken])" if q: "q = x # xs"
  proof -
    from D(4) q have x: "x < length ps" "ps ! x = Queued" by (auto simp: queued_def)
    with assms(3) have "x \<noteq> t" by auto
    with x have x': "x < length (ps[t := Released r])" "ps[t := Released r] ! x = Queued" by simp_all
    from D(3,4) q t have "set xs = queued ps - {t} - {x}" by auto
    then show ?thesis using D assms(2,3) x'
      by (intro slots_okI) (simp_all add: q slot_counts)
  qed
qed

definition pcs :: "client \<Rightarrow> task_pc list" where
  "pcs c = map tk_pc (jc_tasks c)"

lemma length_pcs [simp]: "length (pcs c) = length (jc_tasks c)"
  by (simp add: pcs_def)

lemma pcs_nth: "t < length (jc_tasks c) \<Longrightarrow> pcs c ! t = pc_of c t"
  by (simp add: pcs_def pc_of_def)

lemma pcs_set_pc [simp]: "pcs (set_pc t p c) = (pcs c)[t := p]"
  by (simp add: pcs_def set_pc_def map_update)

lemma pcs_new_task [simp]: "pcs (new_task key p c) = pcs c @ [p]"
  by (simp add: pcs_def new_task_def)

lemma pcs_frames [simp, frames]:
  "pcs (c\<lparr>jc_queue := q\<rparr>) = pcs c" "pcs (c\<lparr>jc_starts := n\<rparr>) = pcs c" "pcs (c\<lparr>jc_subscribed := m\<rparr>) = pcs c"
  "pcs (c\<lparr>jc_aborted := a\<rparr>) = pcs c" "pcs (c\<lparr>jc_loop := l\<rparr>) = pcs c"
  by (simp_all add: pcs_def)

lemma set_pc_frames [simp, frames]:
  "jc_queue (set_pc t p c) = jc_queue c" "jc_starts (set_pc t p c) = jc_starts c"
  "jc_queue (new_task key p c) = jc_queue c" "jc_starts (new_task key p c) = jc_starts c"
  by (simp_all add: set_pc_def new_task_def)

definition client_ok :: "jc_config \<Rightarrow> client \<Rightarrow> bool" where
  "client_ok cfg c \<longleftrightarrow> slots_ok (jc_maxConcurrent cfg) (jc_starts c) (jc_queue c) (pcs c)"

lemma client_ok_change:
  assumes "client_ok cfg c" "t < length (jc_tasks c)" "holds_slot p = holds_slot (pc_of c t)" "p \<noteq> Queued" "pc_of c t \<noteq> Queued"
    "p = Woken \<longleftrightarrow> pc_of c t = Woken"
  shows "client_ok cfg (set_pc t p c)"
  using slots_ok_change [of _ _ _ "pcs c" t p] assms by (simp add: client_ok_def pcs_nth)

lemma client_ok_start: "client_ok cfg c \<Longrightarrow> client_ok cfg (startSubscription cfg key c)"
  using slots_ok_new_queued [of "jc_maxConcurrent cfg" "jc_starts c" "jc_queue c" "pcs c"]
    slots_ok_new_granted [of "jc_maxConcurrent cfg" "jc_starts c" "jc_queue c" "pcs c"]
  by (auto simp: client_ok_def startSubscription_def intro!: slots_ok_new simp: holds_slot_def)

lemma client_ok_processId: "client_ok cfg c \<Longrightarrow> client_ok cfg (processId cfg aggs i c)"
  unfolding processId_def by (induction aggs arbitrary: c) (simp_all add: client_ok_start)

lemma client_ok_frames [frames]:
  "client_ok cfg (c\<lparr>jc_loop := l\<rparr>) = client_ok cfg c" "client_ok cfg (c\<lparr>jc_aborted := a\<rparr>) = client_ok cfg c"
  "client_ok cfg (c\<lparr>jc_subscribed := m\<rparr>) = client_ok cfg c"
  by (simp_all add: client_ok_def)

lemma client_ok_release:
  assumes "client_ok cfg c" "t < length (jc_tasks c)" "pc_of c t = Removed r"
  shows "client_ok cfg (releaseStartSlot t r c)"
proof -
  from assms have a: "slots_ok (jc_maxConcurrent cfg) (jc_starts c) (jc_queue c) (pcs c)" "t < length (pcs c)" "pcs c ! t = Removed r"
    by (simp_all add: client_ok_def pcs_nth)
  show ?thesis
  proof (cases "jc_queue c")
    case Nil
    with slots_ok_released(1) [OF a] show ?thesis by (simp add: client_ok_def releaseStartSlot_def Let_def)
  next
    case (Cons q qs)
    from slots_ok_released(2) [OF a Cons] show ?thesis by (simp add: client_ok_def releaseStartSlot_def Let_def Cons)
  qed
qed

lemma subscribe_again_ok:
  assumes "client_ok cfg c" "t < length (jc_tasks c)" "holds_slot (pc_of c t)"
  shows "client_ok cfg (subscribe_again t d n c)"
  unfolding subscribe_again_def using assms by (intro client_ok_change) (auto simp: holds_slot_def)

lemma jc_run_ok: "jc_run cfg aggs c \<Longrightarrow> 0 \<le> jc_maxConcurrent cfg \<Longrightarrow> client_ok cfg c"
proof (induction rule: jc_run.induct)
  case (started eagerPreload)
  then show ?case by (simp add: client_ok_def startJournalClient_def pcs_def slots_ok_def held_def queued_def)
next
  case (id_arrives c i)
  then show ?case by (simp add: loop_id_def client_ok_processId frames)
next
  case (ids_end c)
  then show ?case by (auto simp: loop_end_def frames split: loop_pc.split)
next
  case (all_settled c)
  then show ?case by (auto simp: loop_wait_def frames split: loop_pc.split list.split)
next
  case (woken c t)
  then have "slots_ok (jc_maxConcurrent cfg) (jc_starts c) (jc_queue c) (pcs c)" "t < length (pcs c)" "pcs c ! t = Woken"
    by (simp_all add: client_ok_def pcs_nth)
  from slots_ok_requeued [OF this] slots_ok_granted [OF this] show ?case
    by (simp add: client_ok_def resume_waiting_def)
next
  case (begun c t)
  then show ?case unfolding begin_subscription_def
    by (intro subscribe_again_ok) (simp_all add: frames pc_of_def holds_slot_def)
next
  case (ended c t d n r)
  then show ?case unfolding subscription_ends_def
    by (intro client_ok_change) (auto simp: holds_slot_def split: option.split verdict.split)
next
  case (timer c t w d n)
  then show ?case by (intro subscribe_again_ok) (simp_all add: holds_slot_def)
next
  case (removed c t r)
  then show ?case unfolding remove_key_def
    by (intro client_ok_change) (simp_all add: frames pc_of_def holds_slot_def)
next
  case (released c t r)
  then show ?case by (intro client_ok_release)
qed (simp_all add: frames jc_abort_def jc_stop_def)

text \<open>
  C20. The start slots of a journal client. In every interleaving of ids, subscriptions, failures, restarts and \<open>stop\<close>: the counter
  is the number of subscriptions that hold a slot and never exceeds the configured maximum; the queue holds exactly the
  subscriptions that wait, each once; and no wakeup is lost, so as long as one waits, another is underway or about to
  take a slot.
\<close>

theorem start_slots_safe:
  assumes "jc_run cfg aggs c" "0 < jc_maxConcurrent cfg"
  shows "jc_starts c = int (length (filter (\<lambda>t. holds_slot (tk_pc t)) (jc_tasks c)))
    \<and> jc_starts c \<le> jc_maxConcurrent cfg
    \<and> distinct (jc_queue c) \<and> set (jc_queue c) = {t. t < length (jc_tasks c) \<and> pc_of c t = Queued}
    \<and> (jc_queue c = [] \<or> list_ex (\<lambda>t. holds_slot (tk_pc t) \<or> tk_pc t = Woken) (jc_tasks c))"
proof -
  have "client_ok cfg c" using jc_run_ok [OF assms(1)] assms(2) by simp
  then have ok: "slots_ok (jc_maxConcurrent cfg) (jc_starts c) (jc_queue c) (pcs c)" by (simp add: client_ok_def)
  note D = slots_okD [OF ok]
  have cnt: "(\<Sum>t \<leftarrow> ts. of_bool (holds_slot (tk_pc t))) = int (length (filter (\<lambda>t. holds_slot (tk_pc t)) ts))" for ts
    by (induction ts) simp_all
  have held: "held (pcs c) = int (length (filter (\<lambda>t. holds_slot (tk_pc t)) (jc_tasks c)))"
    by (simp add: held_def pcs_def cnt comp_def)
  have q: "queued (pcs c) = {t. t < length (jc_tasks c) \<and> pc_of c t = Queued}"
    by (auto simp: queued_def pcs_nth)
  have "list_ex (\<lambda>t. holds_slot (tk_pc t) \<or> tk_pc t = Woken) (jc_tasks c)" if "jc_queue c \<noteq> []"
  proof -
    from that D(1,5) assms(2) have "0 < held (pcs c) \<or> 0 < awake (pcs c)" by linarith
    with held_pos [of "pcs c"] awake_pos [of "pcs c"] show ?thesis
      unfolding pcs_def list_ex_iff set_map by (metis (no_types, lifting) imageE)
  qed
  with D held q show ?thesis by auto
qed

section \<open>Runs on concrete inputs\<close>

text \<open>One action: an id arrives, the ids end, the client looks at what it waits for, or a task takes its next step.\<close>

datatype jc_action =
    Id string
  | NoMoreIds
  | LookAround
  | Turn nat "js_error option"

definition jc_act :: "jc_config \<Rightarrow> string list \<Rightarrow> jc_action \<Rightarrow> client \<Rightarrow> client" where
  "jc_act cfg aggs a c =
     (case a of
        Id i \<Rightarrow> if looping c then loop_id cfg aggs i c else c
      | NoMoreIds \<Rightarrow> loop_end c
      | LookAround \<Rightarrow> loop_wait c
      | Turn t r \<Rightarrow>
          (if t < length (jc_tasks c)
           then (case pc_of c t of
                   Woken \<Rightarrow> resume_waiting cfg t c
                 | Granted \<Rightarrow> begin_subscription cfg t c
                 | Subscribing d n \<Rightarrow> subscription_ends cfg r t d n c
                 | Sleeping w d n \<Rightarrow> subscribe_again t d n c
                 | Settled r' \<Rightarrow> remove_key t r' c
                 | Removed r' \<Rightarrow> releaseStartSlot t r' c
                 | Released (Some e) \<Rightarrow> jc_abort e c
                 | _ \<Rightarrow> c)
           else c))"

lemma jc_act_run: "jc_run cfg aggs c \<Longrightarrow> jc_run cfg aggs (jc_act cfg aggs a c)"
  unfolding jc_act_def by (auto split: jc_action.split task_pc.split option.split intro: jc_run.intros)

lemma jc_acts_run: "jc_run cfg aggs c \<Longrightarrow> jc_run cfg aggs (fold (jc_act cfg aggs) as c)"
  by (induction as arbitrary: c) (simp_all add: jc_act_run)

definition one_slot :: jc_config where
  "one_slot = jc_defaults\<lparr>jc_maxConcurrent := 1\<rparr>"

definition demo_client :: client where
  "demo_client = fold (jc_act one_slot [''m'']) [Id ''a'', Id ''b'', Turn 0 None, NoMoreIds] (startJournalClient False)"

lemma demo_client_run: "jc_run one_slot [''m''] demo_client"
  unfolding demo_client_def by (rule jc_acts_run [OF jc_run.started])

lemma demo_client_state: "jc_starts demo_client = 1 \<and> jc_queue demo_client = [1]"
  by code_simp

theorem start_slots_safe_witness:
  "jc_starts demo_client = 1 \<and> pc_of demo_client 1 = Queued
   \<and> list_ex (\<lambda>t. holds_slot (tk_pc t) \<or> tk_pc t = Woken) (jc_tasks demo_client)"
proof -
  have "0 < jc_maxConcurrent one_slot" by (simp add: one_slot_def)
  from start_slots_safe [OF demo_client_run this] demo_client_state
  have "1 \<in> {t. t < length (jc_tasks demo_client) \<and> pc_of demo_client t = Queued}"
    "list_ex (\<lambda>t. holds_slot (tk_pc t) \<or> tk_pc t = Woken) (jc_tasks demo_client)" by auto
  with demo_client_state show ?thesis by simp
qed

text \<open>
  A slot is kept for as long as the subscription lasts, so the limit on starts is a limit on subscriptions. The promise \<open>running\<close>
  only waits for those that have begun: here it resolves while the second id has not been subscribed.
\<close>

lemma running_resolves_early:
  "jc_run one_slot [''m''] (fold (jc_act one_slot [''m'']) [Turn 0 None, Turn 0 None, LookAround] demo_client)
   \<and> jc_loop (fold (jc_act one_slot [''m'']) [Turn 0 None, Turn 0 None, LookAround] demo_client) = Resolved
   \<and> pc_of (fold (jc_act one_slot [''m'']) [Turn 0 None, Turn 0 None, LookAround] demo_client) 1 = Queued"
  by (rule conjI, rule jc_acts_run [OF demo_client_run], code_simp)

text \<open>The table is looked at before the wait for a slot: an id that comes twice is subscribed twice at the same time.\<close>

lemma duplicate_subscription:
  "list_all (\<lambda>t. tk_key t = ''m:a'' \<and> tk_pc t = Subscribing 1000 10)
     (jc_tasks (fold (jc_act jc_defaults [''m'']) [Id ''a'', Id ''a'', Turn 0 None, Turn 1 None] (startJournalClient True)))"
  by code_simp

text \<open>A fatal error of a subscription while the ids are still coming makes \<open>running\<close> resolve at the next id, not reject.\<close>

lemma fatal_error_resolves:
  "jc_loop (fold (jc_act jc_defaults [''m''])
      [Id ''a'', Turn 0 None, Turn 0 (Some (JsError ''bad event'')), Turn 0 None, Turn 0 None, Turn 0 None, Id ''b'']
      (startJournalClient False)) = Resolved"
  by code_simp

text \<open>A gap is meant to be fatal, but its message quotes the event: an event that mentions a connection makes it transient.\<close>

lemma gap_taken_for_transient:
  "case onGapFail id nat_str id ''a'' ''{type:ConnectionOpened}'' 7 (0 :: nat) of
     Inl e \<Rightarrow> on_failure jc_defaults False e 1000 10 = SleepThen 1000 2000 9 | Inr s \<Rightarrow> False"
  by code_simp

text \<open>
  A restarted subscription begins with what \<open>getState\<close> answers, and its first event overwrites the newer state in the cache:
  reads go back in time.
\<close>

lemma restart_rewinds_reads:
  "map_option ce_state (js_get (ca_entries (fst (subscribe demo_ag (\<lambda>i. Inr (0, 0)) 0 (stream_from [3, 4, 5] 1) (createCache, new_sub)))) ''a'')
     = Some (3, 12)
   \<and> map_option ce_state (js_get (ca_entries (fst (subscribe demo_ag (\<lambda>i. Inr (0, 0)) 0 (stream_from [3] 1)
         (fst (subscribe demo_ag (\<lambda>i. Inr (0, 0)) 0 (stream_from [3, 4, 5] 1) (createCache, new_sub)), new_sub)))) ''a'') = Some (1, 3)"
  by code_simp

end
