(* ===== verification/Pg_Journal.thy ===== *)
theory Pg_Journal
  imports Journal
begin

text \<open>
  \<open>postgres/journal.ts\<close>, the writing side. \<open>persistEventsAsync\<close> is a machine that sends one statement at a time
  over a connection of its own, so any number of writers interleave; the database is what PostgreSQL documents
  about the statements used: a primary key aborts the statement and with it the transaction, an insert waits for
  an open transaction that holds the same key, a commit makes all rows of the transaction visible at once, a
  connection may be lost before or after the server did what it was asked.
\<close>

section \<open>Tables\<close>

definition persistenceId :: "string \<Rightarrow> string \<Rightarrow> string" where
  "persistenceId categoryId entityId = categoryId @ ''|'' @ entityId"

record 'd pg_row =
  pg_pid :: string
  pg_seq :: nat
  pg_time :: int
  pg_event :: 'd
  pg_manifest :: string
  pg_writer :: string
  pg_ordering :: nat

record 'd pg_snapshot =
  ps_pid :: string
  ps_seq :: nat
  ps_time :: int
  ps_state :: 'd
  ps_manifest :: string

record 'd pg_db =
  pg_rows :: "'d pg_row list"
  pg_snaps :: "'d pg_snapshot list"
  pg_next :: nat

definition pg_empty :: "'d pg_db" where
  "pg_empty = \<lparr>pg_rows = [], pg_snaps = [], pg_next = 1\<rparr>"

definition row_key :: "'d pg_row \<Rightarrow> string \<times> nat" where
  "row_key r = (pg_pid r, pg_seq r)"

definition has_key :: "string \<times> nat \<Rightarrow> 'd pg_row list \<Rightarrow> bool" where
  "has_key k rows = list_ex (\<lambda>r. row_key r = k) rows"

lemma has_key_iff [simp]: "has_key k rows \<longleftrightarrow> k \<in> row_key ` set rows"
  by (auto simp: has_key_def list_ex_iff)

text \<open>The parameters of an insert statement; the ordering number is drawn from its sequence and not given back.\<close>

definition insert_row :: "string \<Rightarrow> int \<Rightarrow> 'd log_entry \<Rightarrow> nat \<Rightarrow> 'd pg_row" where
  "insert_row pid now x nr =
     (case x of (n, m, d) \<Rightarrow> \<lparr>pg_pid = pid, pg_seq = n, pg_time = now, pg_event = d, pg_manifest = m,
        pg_writer = ''ts-writer-'' @ pid, pg_ordering = nr\<rparr>)"

section \<open>A writer\<close>

datatype pg_error = UniqueViolation | OtherPgError string

datatype writer_pc =
    Connecting
  | InsertOne
  | Begin
  | InsertNth nat
  | CommitBatch
  | RollingBack pg_error
  | FindingDuplicate
  | Settled "js_error + nat"

text \<open>The statement's error on the client: before the server did its work, after it, or none.\<close>

datatype fault = NoFault | FaultBefore string | FaultAfter string

record 'd writer =
  wr_category :: string
  wr_entity :: string
  wr_start :: nat
  wr_payloads :: "(string \<times> 'd) list"
  wr_now :: int
  wr_pending :: "'d pg_row list"
  wr_pc :: writer_pc

definition wr_pid :: "'d writer \<Rightarrow> string" where
  "wr_pid w = persistenceId (wr_category w) (wr_entity w)"

definition wr_entry :: "'d writer \<Rightarrow> nat \<Rightarrow> 'd log_entry" where
  "wr_entry w i = (wr_start w + i + 1, wr_payloads w ! i)"

text \<open>A call of \<open>persistEventsAsync\<close> on encoded events, which the function makes of its events and codec.\<close>

definition new_writer :: "string \<Rightarrow> string \<Rightarrow> nat \<Rightarrow> (string \<times> 'd) list \<Rightarrow> 'd writer" where
  "new_writer c e start payloads =
     \<lparr>wr_category = c, wr_entity = e, wr_start = start, wr_payloads = payloads, wr_now = 0, wr_pending = [],
      wr_pc = (if payloads = [] then Settled (Inr start) else Connecting)\<rparr>"

definition persistEventsAsync :: "('e, 'd) codec \<Rightarrow> string \<Rightarrow> string \<Rightarrow> 'e list \<Rightarrow> nat \<Rightarrow> 'd writer" where
  "persistEventsAsync codec c e events start = new_writer c e start (map (\<lambda>x. (manifest codec x, encode codec x)) events)"

text \<open>The lowest number of the batch that is in the table.\<close>

definition first_collision :: "'d pg_row list \<Rightarrow> 'd writer \<Rightarrow> nat option" where
  "first_collision rows w =
     List.find (\<lambda>n. has_key (wr_pid w, n) rows) [wr_start w + 1 ..< wr_start w + length (wr_payloads w) + 1]"

text \<open>\<open>duplicateError\<close> on an error of the batch: what the writer does next.\<close>

definition after_error :: "pg_error \<Rightarrow> writer_pc" where
  "after_error err = (case err of UniqueViolation \<Rightarrow> FindingDuplicate | OtherPgError m \<Rightarrow> Settled (Inl (JsError m)))"

definition settle :: "js_error + nat \<Rightarrow> 'd writer \<Rightarrow> 'd writer" where
  "settle r w = w\<lparr>wr_pending := [], wr_pc := Settled r\<rparr>"

fun fault_of :: "fault \<Rightarrow> string option" where
  "fault_of NoFault = None"
| "fault_of (FaultBefore m) = Some m"
| "fault_of (FaultAfter m) = Some m"

text \<open>One statement of a writer.\<close>

definition writer_step :: "fault \<Rightarrow> int \<Rightarrow> 'd pg_db \<Rightarrow> 'd writer \<Rightarrow> 'd pg_db \<times> 'd writer" where
  "writer_step fault now db w =
     (case wr_pc w of
        Connecting \<Rightarrow>
          (case fault_of fault of
             Some m \<Rightarrow> (db, settle (Inl (JsError m)) w)
           | None \<Rightarrow> (db, w\<lparr>wr_pc := (if length (wr_payloads w) = 1 then InsertOne else Begin)\<rparr>))
      | InsertOne \<Rightarrow>
          (let row = insert_row (wr_pid w) now (wr_entry w 0) (pg_next db);
               done_db = db\<lparr>pg_rows := pg_rows db @ [row], pg_next := Suc (pg_next db)\<rparr>
           in case fault of
                FaultBefore m \<Rightarrow> (db, settle (Inl (JsError m)) w)
              | _ \<Rightarrow>
                  (if has_key (row_key row) (pg_rows db)
                   then (db\<lparr>pg_next := Suc (pg_next db)\<rparr>,
                         (case fault of FaultAfter m \<Rightarrow> settle (Inl (JsError m)) w | _ \<Rightarrow> w\<lparr>wr_pc := after_error UniqueViolation\<rparr>))
                   else (done_db, settle (case fault of FaultAfter m \<Rightarrow> Inl (JsError m) | _ \<Rightarrow> Inr (wr_start w + 1)) w)))
      | Begin \<Rightarrow>
          (case fault_of fault of
             Some m \<Rightarrow> (db, settle (Inl (JsError m)) w)
           | None \<Rightarrow> (db, w\<lparr>wr_now := now, wr_pc := InsertNth 0\<rparr>))
      | InsertNth i \<Rightarrow>
          (let row = insert_row (wr_pid w) (wr_now w) (wr_entry w i) (pg_next db);
               db' = db\<lparr>pg_next := Suc (pg_next db)\<rparr>
           in case fault_of fault of
                Some m \<Rightarrow> (db', w\<lparr>wr_pending := [], wr_pc := RollingBack (OtherPgError m)\<rparr>)
              | None \<Rightarrow>
                  (if has_key (row_key row) (pg_rows db @ wr_pending w)
                   then (db', w\<lparr>wr_pending := [], wr_pc := RollingBack UniqueViolation\<rparr>)
                   else (db', w\<lparr>wr_pending := wr_pending w @ [row],
                                wr_pc := (if Suc i < length (wr_payloads w) then InsertNth (Suc i) else CommitBatch)\<rparr>)))
      | CommitBatch \<Rightarrow>
          (let db' = db\<lparr>pg_rows := pg_rows db @ wr_pending w\<rparr>
           in case fault of
                NoFault \<Rightarrow> (db', settle (Inr (wr_start w + length (wr_payloads w))) w)
              | FaultBefore m \<Rightarrow> (db, w\<lparr>wr_pending := [], wr_pc := RollingBack (OtherPgError m)\<rparr>)
              | FaultAfter m \<Rightarrow> (db', w\<lparr>wr_pending := [], wr_pc := RollingBack (OtherPgError m)\<rparr>))
      | RollingBack err \<Rightarrow>
          (case fault_of fault of
             Some m \<Rightarrow> (db, settle (Inl (JsError m)) w)
           | None \<Rightarrow> (db, w\<lparr>wr_pc := after_error err\<rparr>))
      | FindingDuplicate \<Rightarrow>
          (case fault_of fault of
             Some m \<Rightarrow> (db, settle (Inl (JsError m)) w)
           | None \<Rightarrow>
               (db, settle (Inl (DuplicateSequenceNrError (wr_category w) (wr_entity w)
                      (case first_collision (pg_rows db) w of Some n \<Rightarrow> n | None \<Rightarrow> wr_start w + 1))) w))
      | Settled r \<Rightarrow> (db, w))"

section \<open>Any number of writers\<close>

record 'd pg_system =
  sy_db :: "'d pg_db"
  sy_writers :: "'d writer list"

definition pg_start :: "'d pg_system" where
  "pg_start = \<lparr>sy_db = pg_empty, sy_writers = []\<rparr>"

text \<open>The key that the next statement inserts.\<close>

definition next_key :: "'d writer \<Rightarrow> (string \<times> nat) option" where
  "next_key w =
     (case wr_pc w of
        InsertOne \<Rightarrow> Some (wr_pid w, fst (wr_entry w 0))
      | InsertNth i \<Rightarrow> Some (wr_pid w, fst (wr_entry w i))
      | _ \<Rightarrow> None)"

text \<open>An insert waits while an open transaction of another connection holds its key.\<close>

definition blocked :: "'d pg_system \<Rightarrow> nat \<Rightarrow> bool" where
  "blocked s i =
     (case next_key (sy_writers s ! i) of
        None \<Rightarrow> False
      | Some k \<Rightarrow> list_ex (\<lambda>j. j \<noteq> i \<and> has_key k (wr_pending (sy_writers s ! j))) [0 ..< length (sy_writers s)])"

definition advance :: "fault \<Rightarrow> int \<Rightarrow> nat \<Rightarrow> 'd pg_system \<Rightarrow> 'd pg_system" where
  "advance fault now i s =
     (let r = writer_step fault now (sy_db s) (sy_writers s ! i)
      in \<lparr>sy_db = fst r, sy_writers = (sy_writers s)[i := snd r]\<rparr>)"

inductive pg_run :: "'d pg_system \<Rightarrow> bool" where
  empty: "pg_run pg_start"
| called: "pg_run s \<Longrightarrow> pg_run (s\<lparr>sy_writers := sy_writers s @ [new_writer c e start payloads]\<rparr>)"
| advanced: "pg_run s \<Longrightarrow> i < length (sy_writers s) \<Longrightarrow> \<not> blocked s i \<Longrightarrow> pg_run (advance fault now i s)"

section \<open>Whole batches\<close>

definition row_view :: "'d pg_row \<Rightarrow> string \<times> 'd log_entry" where
  "row_view r = (pg_pid r, pg_seq r, pg_manifest r, pg_event r)"

definition batch :: "'d writer \<Rightarrow> (string \<times> 'd log_entry) list" where
  "batch w = map (\<lambda>i. (wr_pid w, wr_entry w i)) [0 ..< length (wr_payloads w)]"

definition view_key :: "string \<times> 'd log_entry \<Rightarrow> string \<times> nat" where
  "view_key v = (fst v, fst (snd v))"

lemma row_key_view: "row_key r = view_key (row_view r)"
  by (simp add: row_key_def row_view_def view_key_def)

lemma view_of_insert [simp]: "row_view (insert_row pid now x nr) = (pid, x)"
  by (cases x) (simp add: insert_row_def row_view_def)

lemma key_of_insert [simp]: "row_key (insert_row pid now x nr) = (pid, fst x)"
  by (simp add: row_key_view view_key_def)

lemma wr_entry_number [simp]: "fst (wr_entry w i) = wr_start w + i + 1"
  by (simp add: wr_entry_def)

text \<open>An entry of the batch is what \<open>log_entries\<close> makes of the event.\<close>

lemma batch_of_events:
  "batch (persistEventsAsync codec c e events start) = map (Pair (persistenceId c e)) (log_entries codec start events)"
proof -
  have "log_entries codec start events =
      map (\<lambda>i. (start + i + 1, manifest codec (events ! i), encode codec (events ! i))) [0 ..< length events]"
    by (rule nth_equalityI) (simp_all add: log_entries_def)
  then show ?thesis
    by (simp add: batch_def wr_entry_def wr_pid_def persistEventsAsync_def new_writer_def)
qed

text \<open>The writer's number \<open>n\<close> is taken.\<close>

definition collides :: "'d pg_row list \<Rightarrow> 'd writer \<Rightarrow> nat \<Rightarrow> bool" where
  "collides rows w n \<longleftrightarrow> wr_start w < n \<and> n \<le> wr_start w + length (wr_payloads w) \<and> (wr_pid w, n) \<in> row_key ` set rows"

lemma find_exists: "x \<in> set xs \<Longrightarrow> P x \<Longrightarrow> \<exists>y. List.find P xs = Some y"
  by (induction xs) auto

lemma find_sound: "List.find P xs = Some x \<Longrightarrow> P x \<and> x \<in> set xs"
  by (induction xs) (auto split: if_splits)

lemma first_collision_found:
  assumes "collides rows w n"
  shows "\<exists>m. first_collision rows w = Some m \<and> collides rows w m"
proof -
  let ?ns = "[wr_start w + 1 ..< wr_start w + length (wr_payloads w) + 1]"
  have range: "m \<in> set ?ns \<longleftrightarrow> wr_start w < m \<and> m \<le> wr_start w + length (wr_payloads w)" for m by auto
  from assms have "n \<in> set ?ns" "has_key (wr_pid w, n) rows" unfolding collides_def range by simp_all
  from find_exists [where P = "\<lambda>n. has_key (wr_pid w, n) rows", OF this] obtain m where m: "first_collision rows w = Some m"
    unfolding first_collision_def by blast
  from find_sound [OF this [unfolded first_collision_def]] have "collides rows w m"
    unfolding collides_def range has_key_iff by blast
  with m show ?thesis by blast
qed

definition writer_ok :: "'d pg_row list \<Rightarrow> bool \<Rightarrow> 'd writer \<Rightarrow> bool" where
  "writer_ok rows committed w \<longleftrightarrow>
     (case wr_pc w of
        Connecting \<Rightarrow> \<not> committed \<and> wr_pending w = [] \<and> wr_payloads w \<noteq> []
      | InsertOne \<Rightarrow> \<not> committed \<and> wr_pending w = [] \<and> length (wr_payloads w) = 1
      | Begin \<Rightarrow> \<not> committed \<and> wr_pending w = [] \<and> wr_payloads w \<noteq> []
      | InsertNth i \<Rightarrow> \<not> committed \<and> i < length (wr_payloads w) \<and> map row_view (wr_pending w) = take i (batch w)
      | CommitBatch \<Rightarrow> \<not> committed \<and> map row_view (wr_pending w) = batch w
      | RollingBack err \<Rightarrow> wr_pending w = [] \<and> (err = UniqueViolation \<longrightarrow> \<not> committed \<and> (\<exists>n. collides rows w n))
      | FindingDuplicate \<Rightarrow> wr_pending w = [] \<and> \<not> committed \<and> (\<exists>n. collides rows w n)
      | Settled r \<Rightarrow> wr_pending w = [] \<and>
          (case r of
             Inr n \<Rightarrow> n = wr_start w + length (wr_payloads w) \<and> (wr_payloads w = [] \<or> committed)
           | Inl (DuplicateSequenceNrError c e n) \<Rightarrow> \<not> committed \<and> c = wr_category w \<and> e = wr_entity w \<and> collides rows w n
           | Inl _ \<Rightarrow> True))"

lemma collides_mono: "collides rows w n \<Longrightarrow> collides (rows @ new) w n"
  by (auto simp: collides_def)

lemma collides_ex_mono: "Ex (collides rows w) \<Longrightarrow> Ex (collides (rows @ new) w)"
  using collides_mono by blast

lemma collides_frame [simp]:
  "collides rows (w\<lparr>wr_pc := p\<rparr>) n = collides rows w n" "collides rows (w\<lparr>wr_pending := ps\<rparr>) n = collides rows w n"
  "collides rows (w\<lparr>wr_now := t\<rparr>) n = collides rows w n"
  by (simp_all add: collides_def wr_pid_def)

lemma writer_ok_mono: "writer_ok rows c w \<Longrightarrow> writer_ok (rows @ new) c w"
  unfolding writer_ok_def
  by (simp split: writer_pc.splits sum.splits js_error.splits) (metis collides_mono)+

definition same_call :: "'d writer \<Rightarrow> 'd writer \<Rightarrow> bool" where
  "same_call w w' \<longleftrightarrow> wr_category w' = wr_category w \<and> wr_entity w' = wr_entity w \<and> wr_start w' = wr_start w
     \<and> wr_payloads w' = wr_payloads w"

lemma same_call_batch: "same_call w w' \<Longrightarrow> batch w' = batch w"
  by (simp add: same_call_def batch_def wr_pid_def wr_entry_def)

lemma writer_step_same_call: "writer_step fault now db w = (db', w') \<Longrightarrow> same_call w w'"
  by (auto simp: writer_step_def same_call_def settle_def Let_def split: writer_pc.splits fault.splits option.splits if_splits)


text \<open>
  What a statement can do: nothing to the table; one more row of the open transaction; or, at the insert of a single
  event and at the commit, the whole batch at once.
\<close>

lemma writer_step_kinds:
  assumes ok: "writer_ok (pg_rows db) c w" and step: "writer_step fault now db w = (db', w')"
    and apart: "row_key ` set (wr_pending w) \<inter> row_key ` set (pg_rows db) = {}"
  shows "(pg_rows db' = pg_rows db \<and> wr_pending w' = [] \<and> writer_ok (pg_rows db) c w')
    \<or> (pg_rows db' = pg_rows db \<and> writer_ok (pg_rows db) c w' \<and> (\<exists>r. wr_pending w' = wr_pending w @ [r]
         \<and> next_key w = Some (row_key r) \<and> row_key r \<notin> row_key ` set (pg_rows db)))
    \<or> (\<exists>new. pg_rows db' = pg_rows db @ new \<and> wr_pending w' = [] \<and> map row_view new = batch w \<and> \<not> c
         \<and> writer_ok (pg_rows db @ new) True w'
         \<and> (new = wr_pending w \<or> (\<exists>r. new = [r] \<and> next_key w = Some (row_key r) \<and> row_key r \<notin> row_key ` set (pg_rows db))))"
proof (cases "wr_pc w")
  case InsertOne
  with ok have w: "\<not> c" "wr_pending w = []" "length (wr_payloads w) = 1" by (simp_all add: writer_ok_def)
  then have b: "batch w = [(wr_pid w, wr_entry w 0)]" by (simp add: batch_def)
  show ?thesis
  proof (cases "has_key (wr_pid w, wr_start w + 1) (pg_rows db)")
    case True
    then have "collides (pg_rows db) w (wr_start w + 1)" using w by (simp add: collides_def)
    then have "\<exists>n. collides (pg_rows db) w n" by blast
    with True InsertOne w step show ?thesis
      by (auto simp: writer_step_def settle_def after_error_def writer_ok_def Let_def split: fault.splits)
  next
    case False
    with InsertOne w b step show ?thesis
      by (auto simp: writer_step_def settle_def writer_ok_def next_key_def Let_def split: fault.splits)
  qed
next
  case (InsertNth i)
  with ok have w: "\<not> c" "i < length (wr_payloads w)" "map row_view (wr_pending w) = take i (batch w)"
    by (simp_all add: writer_ok_def)
  show ?thesis
  proof (cases "fault_of fault = None \<and> \<not> has_key (wr_pid w, wr_start w + i + 1) (pg_rows db @ wr_pending w)")
    case True
    let ?r = "insert_row (wr_pid w) (wr_now w) (wr_entry w i) (pg_next db)"
    from True InsertNth step have w': "w' = w\<lparr>wr_pending := wr_pending w @ [?r],
        wr_pc := (if Suc i < length (wr_payloads w) then InsertNth (Suc i) else CommitBatch)\<rparr>"
      and db': "pg_rows db' = pg_rows db"
      by (auto simp: writer_step_def Let_def)
    have "map row_view (wr_pending w @ [?r]) = take (Suc i) (batch w)"
      using w by (simp add: batch_def take_Suc_conv_app_nth)
    moreover have "batch w' = batch w" by (simp add: w' batch_def wr_pid_def wr_entry_def)
    moreover have "take (Suc i) (batch w) = batch w" if "\<not> Suc i < length (wr_payloads w)"
      using that by (simp add: batch_def)
    ultimately have "writer_ok (pg_rows db) c w'" using w by (auto simp: writer_ok_def w')
    with True InsertNth db' show ?thesis by (auto simp: w' next_key_def)
  next
    case False
    have "\<exists>n. collides (pg_rows db) w n" if "has_key (wr_pid w, wr_start w + i + 1) (pg_rows db @ wr_pending w)"
    proof -
      have "(wr_pid w, wr_start w + i + 1) \<notin> row_key ` set (wr_pending w)"
      proof
        assume "(wr_pid w, wr_start w + i + 1) \<in> row_key ` set (wr_pending w)"
        then have "(wr_pid w, wr_start w + i + 1) \<in> view_key ` set (take i (batch w))"
          unfolding w(3) [symmetric] by (force simp: row_key_view)
        then show False using w(2) by (auto simp: batch_def take_map view_key_def)
      qed
      with that w(2) have "collides (pg_rows db) w (wr_start w + i + 1)" by (auto simp: collides_def)
      then show ?thesis by blast
    qed
    with False InsertNth w(1) step show ?thesis
      by (auto simp: writer_step_def writer_ok_def Let_def split: option.splits if_splits)
  qed
next
  case CommitBatch
  with ok have w: "\<not> c" "map row_view (wr_pending w) = batch w" by (simp_all add: writer_ok_def)
  with CommitBatch step show ?thesis
    by (cases fault) (auto simp: writer_step_def settle_def writer_ok_def Let_def)
next
  case FindingDuplicate
  with ok have w: "\<not> c" "\<exists>n. collides (pg_rows db) w n" by (simp_all add: writer_ok_def)
  then obtain n where n: "first_collision (pg_rows db) w = Some n" "collides (pg_rows db) w n"
    using first_collision_found by blast
  with w(1) FindingDuplicate step show ?thesis
    by (cases "fault_of fault") (auto simp: writer_step_def settle_def writer_ok_def)
next
  case (RollingBack err)
  with ok step show ?thesis
    by (cases "fault_of fault"; cases err) (auto simp: writer_step_def settle_def writer_ok_def after_error_def)
next
  case (Settled r)
  with step have "db' = db" "w' = w" by (simp_all add: writer_step_def)
  with ok Settled show ?thesis by (intro disjI1) (simp add: writer_ok_def)
next
  case Connecting
  with ok step show ?thesis
    by (intro disjI1) (cases "fault_of fault"; auto simp: writer_step_def settle_def writer_ok_def)
next
  case Begin
  with ok step show ?thesis
    by (intro disjI1) (cases "fault_of fault"; auto simp: writer_step_def settle_def writer_ok_def)
qed

end
