(* ===== verification/Pg_Writers.thy ===== *)
theory Pg_Writers
  imports Pg_Journal
begin

text \<open>
  What any number of concurrent \<open>persistEventsAsync\<close> calls do to the journal table: the table is always a sequence of
  whole batches, what each caller is told is true of it, and the writers never wait for each other for ever.
\<close>

section \<open>The invariant\<close>

abbreviation pending_keys :: "'d writer \<Rightarrow> (string \<times> nat) set" where
  "pending_keys w \<equiv> row_key ` set (wr_pending w)"

abbreviation table_keys :: "'d pg_system \<Rightarrow> (string \<times> nat) set" where
  "table_keys s \<equiv> row_key ` set (pg_rows (sy_db s))"

definition pg_inv :: "'d pg_system \<Rightarrow> nat list \<Rightarrow> bool" where
  "pg_inv s order \<longleftrightarrow> distinct order \<and> (\<forall>i \<in> set order. i < length (sy_writers s))
     \<and> map row_view (pg_rows (sy_db s)) = concat (map (\<lambda>i. batch (sy_writers s ! i)) order)
     \<and> distinct (map row_key (pg_rows (sy_db s)))
     \<and> (\<forall>i < length (sy_writers s). writer_ok (pg_rows (sy_db s)) (i \<in> set order) (sy_writers s ! i)
           \<and> pending_keys (sy_writers s ! i) \<inter> table_keys s = {})
     \<and> (\<forall>i < length (sy_writers s). \<forall>j < length (sy_writers s). i \<noteq> j \<longrightarrow>
           pending_keys (sy_writers s ! i) \<inter> pending_keys (sy_writers s ! j) = {})"

lemma distinct_batch_keys: "distinct (map view_key (batch w))"
  by (simp add: batch_def view_key_def distinct_map inj_on_def)

lemma take_upt_min: "set (take m [0 ..< n]) = {0 ..< min m n}"
  by (cases "m \<le> n") (simp_all add: take_upt min_def)

lemma not_blockedD:
  assumes "\<not> blocked s i" "next_key (sy_writers s ! i) = Some k" "j < length (sy_writers s)" "j \<noteq> i"
  shows "k \<notin> pending_keys (sy_writers s ! j)"
  using assms by (auto simp: blocked_def list_ex_iff)

lemma blockedD:
  assumes "blocked s i"
  shows "\<exists>k j. next_key (sy_writers s ! i) = Some k \<and> j < length (sy_writers s) \<and> j \<noteq> i \<and> k \<in> pending_keys (sy_writers s ! j)"
proof (cases "next_key (sy_writers s ! i)")
  case (Some k)
  with assms have "\<exists>j < length (sy_writers s). j \<noteq> i \<and> k \<in> pending_keys (sy_writers s ! j)"
    by (simp add: blocked_def list_ex_iff) (metis atLeastLessThan_iff)
  with Some show ?thesis by blast
qed (use assms in \<open>simp add: blocked_def\<close>)

lemma advance_db [simp]:
  "sy_db (advance fault now i s) = fst (writer_step fault now (sy_db s) (sy_writers s ! i))"
  "sy_writers (advance fault now i s) = (sy_writers s)[i := snd (writer_step fault now (sy_db s) (sy_writers s ! i))]"
  by (simp_all add: advance_def Let_def)

lemma pg_invI:
  assumes "distinct order" "\<forall>i \<in> set order. i < length (sy_writers s)"
    and "map row_view (pg_rows (sy_db s)) = concat (map (\<lambda>i. batch (sy_writers s ! i)) order)"
    and "distinct (map row_key (pg_rows (sy_db s)))"
    and "\<And>i. i < length (sy_writers s) \<Longrightarrow> writer_ok (pg_rows (sy_db s)) (i \<in> set order) (sy_writers s ! i)"
    and "\<And>i. i < length (sy_writers s) \<Longrightarrow> pending_keys (sy_writers s ! i) \<inter> table_keys s = {}"
    and "\<And>i j. i < length (sy_writers s) \<Longrightarrow> j < length (sy_writers s) \<Longrightarrow> i \<noteq> j \<Longrightarrow>
           pending_keys (sy_writers s ! i) \<inter> pending_keys (sy_writers s ! j) = {}"
  shows "pg_inv s order"
  using assms unfolding pg_inv_def by blast

lemma pg_invD:
  assumes "pg_inv s order"
  shows "distinct order" "\<forall>i \<in> set order. i < length (sy_writers s)"
    and "map row_view (pg_rows (sy_db s)) = concat (map (\<lambda>i. batch (sy_writers s ! i)) order)"
    and "distinct (map row_key (pg_rows (sy_db s)))"
    and "\<And>i. i < length (sy_writers s) \<Longrightarrow> writer_ok (pg_rows (sy_db s)) (i \<in> set order) (sy_writers s ! i)"
    and "\<And>i. i < length (sy_writers s) \<Longrightarrow> pending_keys (sy_writers s ! i) \<inter> table_keys s = {}"
    and "\<And>i j. i < length (sy_writers s) \<Longrightarrow> j < length (sy_writers s) \<Longrightarrow> i \<noteq> j \<Longrightarrow>
           pending_keys (sy_writers s ! i) \<inter> pending_keys (sy_writers s ! j) = {}"
  using assms unfolding pg_inv_def by blast+

lemma advance_inv:
  assumes inv: "pg_inv s order" and i: "i < length (sy_writers s)" and free: "\<not> blocked s i"
  shows "\<exists>order'. pg_inv (advance fault now i s) order'"
proof -
  note I = pg_invD [OF inv]
  let ?ws = "sy_writers s" and ?w = "sy_writers s ! i" and ?rows = "pg_rows (sy_db s)"
  obtain db' w' where step: "writer_step fault now (sy_db s) ?w = (db', w')" by fastforce
  have same: "batch (?ws[i := w'] ! j) = batch (?ws ! j)" for j
    using same_call_batch [OF writer_step_same_call [OF step]] i by (cases "j = i") simp_all
  have other: "?ws[i := w'] ! j = ?ws ! j" if "j \<noteq> i" for j using that by simp
  have own: "?ws[i := w'] ! i = w'" using i by simp
  note fresh = not_blockedD [OF free]
  from writer_step_kinds [OF I(5) [OF i] step I(6) [OF i]]
  consider (none) "pg_rows db' = ?rows" "wr_pending w' = []" "writer_ok ?rows (i \<in> set order) w'"
    | (row) r where "pg_rows db' = ?rows" "writer_ok ?rows (i \<in> set order) w'" "wr_pending w' = wr_pending ?w @ [r]"
        "next_key ?w = Some (row_key r)" "row_key r \<notin> table_keys s"
    | (commit) new where "pg_rows db' = ?rows @ new" "wr_pending w' = []" "map row_view new = batch ?w" "i \<notin> set order"
        "writer_ok (?rows @ new) True w'"
        "new = wr_pending ?w \<or> (\<exists>r. new = [r] \<and> next_key ?w = Some (row_key r) \<and> row_key r \<notin> table_keys s)"
    by blast
  then show ?thesis
  proof cases
    case none
    have "pg_inv (advance fault now i s) order"
    proof (rule pg_invI, goal_cases)
      case (5 j) then show ?case using I(5) [of j] none own other by (cases "j = i") (simp_all add: step)
    next
      case (6 j) then show ?case using I(6) [of j] none own other by (cases "j = i") (simp_all add: step)
    next
      case (7 j k) then show ?case using I(7) [of j k] none own other by (cases "j = i"; cases "k = i") (simp_all add: step)
    qed (use I(1-4) none in \<open>simp_all add: step same\<close>)
    then show ?thesis ..
  next
    case row
    have apart: "row_key r \<notin> pending_keys (?ws ! j)" if "j < length ?ws" "j \<noteq> i" for j
      using fresh [OF row(4)] that by blast
    have "pg_inv (advance fault now i s) order"
    proof (rule pg_invI, goal_cases)
      case (5 j) then show ?case using I(5) [of j] row own other by (cases "j = i") (simp_all add: step)
    next
      case (6 j) then show ?case using I(6) [of j] row own other by (cases "j = i") (simp_all add: step)
    next
      case (7 j k) then show ?case using I(7) [of j k] row own other apart [of j] apart [of k]
        by (cases "j = i"; cases "k = i") (simp_all add: step)
    qed (use I(1-4) row in \<open>simp_all add: step same\<close>)
    then show ?thesis ..
  next
    case commit
    have keys: "row_key ` set new \<inter> table_keys s = {}"
      using commit(6)
    proof
      assume "\<exists>r. new = [r] \<and> next_key ?w = Some (row_key r) \<and> row_key r \<notin> table_keys s"
      then show ?thesis by (elim exE conjE) simp
    qed (use I(6) [OF i] in simp)
    have apart: "row_key ` set new \<inter> pending_keys (?ws ! j) = {}" if "j < length ?ws" "j \<noteq> i" for j
      using commit(6)
    proof
      assume "new = wr_pending ?w" then show ?thesis using I(7) [OF i that(1)] that(2) by blast
    next
      assume "\<exists>r. new = [r] \<and> next_key ?w = Some (row_key r) \<and> row_key r \<notin> table_keys s"
      then show ?thesis using fresh [OF _ that] by (elim exE conjE) simp
    qed
    have view: "map row_key new = map view_key (batch ?w)"
      unfolding commit(3) [symmetric] by (simp add: row_key_view)
    have dist: "distinct (map row_key new)" unfolding view by (rule distinct_batch_keys)
    have "pg_inv (advance fault now i s) (order @ [i])"
    proof (rule pg_invI, goal_cases)
      case 1 show ?case using I(1) commit(4) by simp
    next
      case 2 show ?case using I(2) i by auto
    next
      case 3 show ?case using I(3) commit(1,3) by (simp add: step same)
    next
      case 4 show ?case using I(4) commit(1) dist keys by (simp add: step Int_commute)
    next
      case (5 j)
      then show ?case using I(5) [of j] commit(1,5) own other
        by (cases "j = i") (simp_all add: step writer_ok_mono)
    next
      case (6 j)
      then show ?case using I(6) [of j] commit(1,2) own other apart [of j]
        by (cases "j = i") (simp_all add: step image_Un Int_Un_distrib Int_commute)
    next
      case (7 j k)
      then show ?case using I(7) [of j k] commit(2) own other by (cases "j = i"; cases "k = i") (simp_all add: step)
    qed
    then show ?thesis ..
  qed
qed

lemma called_inv:
  assumes inv: "pg_inv s order"
  shows "pg_inv (s\<lparr>sy_writers := sy_writers s @ [new_writer c e start payloads]\<rparr>) order"
proof -
  note I = pg_invD [OF inv]
  let ?ws = "sy_writers s" and ?w = "new_writer c e start payloads"
  have old: "(?ws @ [?w]) ! j = (if j < length ?ws then ?ws ! j else ?w)" if "j < Suc (length ?ws)" for j
    using that by (auto simp: nth_append less_Suc_eq)
  have new: "writer_ok rows False ?w" "wr_pending ?w = []" for rows
    by (simp_all add: writer_ok_def new_writer_def)
  have same: "map (\<lambda>i. batch ((?ws @ [?w]) ! i)) order = map (\<lambda>i. batch (?ws ! i)) order"
    using I(2) by (auto simp: nth_append)
  have "length ?ws \<notin> set order" using I(2) by auto
  then show ?thesis
  proof (intro pg_invI, goal_cases)
    case (5 j) then show ?case using I(5) [of j] new by (auto simp: old less_Suc_eq)
  next
    case (6 j) then show ?case using I(6) [of j] new by (auto simp: old less_Suc_eq)
  next
    case (7 j k) then show ?case using I(7) [of j k] new by (auto simp: old less_Suc_eq)
  qed (use I(1-4) same in \<open>auto simp del: map_eq_conv\<close>)
qed

lemma pg_run_inv: "pg_run s \<Longrightarrow> \<exists>order. pg_inv s order"
proof (induction rule: pg_run.induct)
  case empty
  have "pg_inv pg_start []" by (simp add: pg_inv_def pg_start_def pg_empty_def)
  then show ?case ..
next
  case (called s c e start payloads)
  then show ?case using called_inv by blast
next
  case (advanced s i fault now)
  then show ?case using advance_inv by blast
qed


text \<open>
  C4. Concurrent writes to the Postgres journal are atomic. Any number of connections write batches of events at the same
  time, statement by statement in any interleaving, for the same or different entities, and any statement may fail or
  lose its connection before or after the server carried it out. At every moment the table consists of
  whole batches, one after the other in the order of their commits, and no sequence number of an entity occurs
  twice. A call that returned has its batch in the table and returns the number of its last event; a call
  that failed with a duplicate sequence number has written nothing and names a number of its batch that another write
  holds; a call that has not returned shows nothing unless its commit was answered by a lost connection.
\<close>

theorem pg_batches_atomic:
  assumes "pg_run s"
  shows "\<exists>order. distinct order \<and> (\<forall>i \<in> set order. i < length (sy_writers s))
    \<and> map row_view (pg_rows (sy_db s)) = concat (map (\<lambda>i. batch (sy_writers s ! i)) order)
    \<and> distinct (map row_key (pg_rows (sy_db s)))
    \<and> (\<forall>i < length (sy_writers s).
         (case wr_pc (sy_writers s ! i) of
            Settled (Inr n) \<Rightarrow> n = wr_start (sy_writers s ! i) + length (wr_payloads (sy_writers s ! i))
              \<and> (wr_payloads (sy_writers s ! i) = [] \<or> i \<in> set order)
          | Settled (Inl (DuplicateSequenceNrError c e n)) \<Rightarrow> i \<notin> set order \<and> collides (pg_rows (sy_db s)) (sy_writers s ! i) n
          | Settled (Inl err) \<Rightarrow> True
          | RollingBack (OtherPgError m) \<Rightarrow> True
          | pc \<Rightarrow> i \<notin> set order))"
proof -
  from pg_run_inv [OF assms] obtain order where inv: "pg_inv s order" ..
  note I = pg_invD [OF inv]
  have "case wr_pc (sy_writers s ! i) of
            Settled (Inr n) \<Rightarrow> n = wr_start (sy_writers s ! i) + length (wr_payloads (sy_writers s ! i))
              \<and> (wr_payloads (sy_writers s ! i) = [] \<or> i \<in> set order)
          | Settled (Inl (DuplicateSequenceNrError c e n)) \<Rightarrow> i \<notin> set order \<and> collides (pg_rows (sy_db s)) (sy_writers s ! i) n
          | Settled (Inl err) \<Rightarrow> True
          | RollingBack (OtherPgError m) \<Rightarrow> True
          | pc \<Rightarrow> i \<notin> set order" if "i < length (sy_writers s)" for i
    using I(5) [OF that] by (simp add: writer_ok_def split: writer_pc.splits sum.splits js_error.splits pg_error.splits)
  then show ?thesis using I(1-4) by blast
qed

text \<open>Two writers of the same numbers: the second one learns of the duplicate.\<close>

fun runs_through :: "nat list \<Rightarrow> 'd pg_system \<Rightarrow> bool" where
  "runs_through [] s = True"
| "runs_through (i # js) s = (i < length (sy_writers s) \<and> \<not> blocked s i \<and> runs_through js (advance NoFault 0 i s))"

lemma pg_run_steps: "pg_run s \<Longrightarrow> runs_through js s \<Longrightarrow> pg_run (fold (advance NoFault 0) js s)"
  by (induction js arbitrary: s) (simp_all add: pg_run.advanced)

definition demo_calls :: "int pg_system" where
  "demo_calls = pg_start\<lparr>sy_writers := [new_writer ''c'' ''e'' 0 [(''E'', 1), (''E'', 2)], new_writer ''c'' ''e'' 0 [(''F'', 3)]]\<rparr>"

lemma demo_calls_run: "pg_run demo_calls"
  using pg_run.called [OF pg_run.called [OF pg_run.empty, of "''c''" "''e''" 0 "[(''E'', 1 :: int), (''E'', 2)]"],
      of "''c''" "''e''" 0 "[(''F'', 3)]"]
  by (simp add: demo_calls_def pg_start_def)

definition demo_wait :: "int pg_system" where
  "demo_wait = fold (advance NoFault 0) [0, 1, 0, 0] demo_calls"

definition demo_race :: "int pg_system" where
  "demo_race = fold (advance NoFault 0) [0, 0, 1, 1] demo_wait"

lemma demo_wait_run: "pg_run demo_wait"
  unfolding demo_wait_def by (rule pg_run_steps [OF demo_calls_run]) code_simp

lemma demo_race_run: "pg_run demo_race"
  unfolding demo_race_def by (rule pg_run_steps [OF demo_wait_run]) code_simp

theorem pg_batches_atomic_witness:
  "wr_pc (sy_writers demo_race ! 1) = Settled (Inl (DuplicateSequenceNrError ''c'' ''e'' 1))
   \<and> map row_view (pg_rows (sy_db demo_race)) = [(''c|e'', 1, ''E'', 1), (''c|e'', 2, ''E'', 2)]
   \<and> distinct (map row_key (pg_rows (sy_db demo_race)))"
proof -
  have "distinct (map row_key (pg_rows (sy_db demo_race)))" using pg_batches_atomic [OF demo_race_run] by blast
  moreover have "wr_pc (sy_writers demo_race ! 1) = Settled (Inl (DuplicateSequenceNrError ''c'' ''e'' 1))"
    "map row_view (pg_rows (sy_db demo_race)) = [(''c|e'', 1, ''E'', 1), (''c|e'', 2, ''E'', 2)]"
    by code_simp+
  ultimately show ?thesis by blast
qed

section \<open>No deadlock\<close>

text \<open>
  Concurrent writes never wait for each other for ever: as long as some call has not returned, some call that has not
  returned can send its next statement, because every batch takes its numbers in ascending order.
\<close>

lemma pg_writers_no_deadlock:
  assumes run: "pg_run s" and i: "i < length (sy_writers s)" and open_call: "\<forall>r. wr_pc (sy_writers s ! i) \<noteq> Settled r"
  shows "\<exists>j < length (sy_writers s). (\<forall>r. wr_pc (sy_writers s ! j) \<noteq> Settled r) \<and> \<not> blocked s j"
proof (rule ccontr)
  let ?ws = "sy_writers s"
  let ?open = "{j. j < length ?ws \<and> (\<forall>r. wr_pc (?ws ! j) \<noteq> Settled r)}"
  let ?next = "\<lambda>j. snd (the (next_key (?ws ! j)))"
  assume stuck: "\<not> ?thesis"
  have fin: "finite (?next ` ?open)" "?next ` ?open \<noteq> {}" using i open_call by auto
  from Max_in [OF this] obtain j where j: "j \<in> ?open" "Max (?next ` ?open) = ?next j" by (elim imageE) simp
  have most: "?next k \<le> ?next j" if "k \<in> ?open" for k using Max_ge [OF fin(1)] that j(2) by auto
  from run obtain order where inv: "pg_inv s order" using pg_run_inv by blast
  from j(1) stuck have "blocked s j" by blast
  from blockedD [OF this] obtain key k
    where k: "next_key (?ws ! j) = Some key" "k < length ?ws" "k \<noteq> j" "key \<in> pending_keys (?ws ! k)" by blast
  have ok: "writer_ok (pg_rows (sy_db s)) (k \<in> set order) (?ws ! k)" using pg_invD(5) [OF inv k(2)] .
  from ok k(4) consider (inserting) m where "wr_pc (?ws ! k) = InsertNth m" "map row_view (wr_pending (?ws ! k)) = take m (batch (?ws ! k))"
    | (committing) "wr_pc (?ws ! k) = CommitBatch"
    by (cases "wr_pc (?ws ! k)") (auto simp: writer_ok_def)
  then show False
  proof cases
    case inserting
    have "key \<in> view_key ` set (take m (batch (?ws ! k)))"
      using k(4) unfolding inserting(2) [symmetric] by (force simp: row_key_view)
    then have "snd key \<le> wr_start (?ws ! k) + m" by (auto simp: batch_def take_map take_upt_min view_key_def)
    moreover have "k \<in> ?open" using k(2) inserting(1) by simp
    from most [OF this] have "wr_start (?ws ! k) + m + 1 \<le> snd key"
      by (simp add: k(1)) (simp add: next_key_def inserting(1))
    ultimately show False by simp
  next
    case committing
    then have "\<not> blocked s k" by (simp add: blocked_def next_key_def)
    with stuck k(2) committing show False by auto
  qed
qed

lemma pg_writers_no_deadlock_example:
  "blocked demo_wait 1 \<and> (\<exists>j < 2. (\<forall>r. wr_pc (sy_writers demo_wait ! j) \<noteq> Settled r) \<and> \<not> blocked demo_wait j)"
proof -
  have w: "blocked demo_wait 1" "length (sy_writers demo_wait) = 2" "wr_pc (sy_writers demo_wait ! 1) = InsertOne"
    by code_simp+
  from pg_writers_no_deadlock [OF demo_wait_run, of 1] w show ?thesis by simp
qed

end
