(* ===== verification/Pg_Runner.thy ===== *)
theory Pg_Runner
  imports Pg_Journal Entity_Runner
begin

text \<open>
  \<open>postgres/runtime.ts\<close>, the entity runner over the Postgres journal, with the reading side of
  \<open>postgres/journal.ts\<close>. Every query is awaited, so each is a step of its own (\<open>pg_turn\<close>) and other
  incarnations of the same entity, in this or another process, run between any two of them. A write of a batch
  is one step, \<open>commit_batch\<close>; the theory of the writers shows that the statements behind it have that effect.
\<close>

section \<open>Reading the tables\<close>

definition entity_rows :: "'d pg_db \<Rightarrow> string \<Rightarrow> 'd pg_row list" where
  "entity_rows db pid = sort_key pg_seq (filter (\<lambda>r. pg_pid r = pid) (pg_rows db))"

definition row_entry :: "'d pg_row \<Rightarrow> 'd log_entry" where
  "row_entry r = (pg_seq r, pg_manifest r, pg_event r)"

definition entity_log :: "'d pg_db \<Rightarrow> string \<Rightarrow> 'd log_entry list" where
  "entity_log db pid = map row_entry (entity_rows db pid)"

text \<open>\<open>toSequenceNr\<close> is tested for being truthy: zero is no bound.\<close>

definition loadEventsAsync ::
  "'d pg_db \<Rightarrow> string \<Rightarrow> string \<Rightarrow> nat \<Rightarrow> ('e, 'd) codec \<Rightarrow> nat option \<Rightarrow> js_error + (nat \<times> 'e) list" where
  "loadEventsAsync db c e from_seq codec to_seq =
     decode_log codec (filter (\<lambda>x. from_seq < fst x \<and> (case to_seq of None \<Rightarrow> True | Some n \<Rightarrow> n = 0 \<or> fst x \<le> n))
       (entity_log db (persistenceId c e)))"

definition latest_snapshot :: "'d pg_db \<Rightarrow> string \<Rightarrow> 'd pg_snapshot option" where
  "latest_snapshot db pid =
     (case rev (sort_key ps_seq (filter (\<lambda>s. ps_pid s = pid) (pg_snaps db))) of [] \<Rightarrow> None | s # rest \<Rightarrow> Some s)"

definition loadSnapshotAsync ::
  "'d pg_db \<Rightarrow> string \<Rightarrow> string \<Rightarrow> ('s, 'd) codec \<Rightarrow> js_error + (nat \<times> 's) option" where
  "loadSnapshotAsync db c e codec =
     (case latest_snapshot db (persistenceId c e) of
        None \<Rightarrow> Inr None
      | Some r \<Rightarrow> (case decode codec (ps_manifest r) (ps_state r) of
            Inl err \<Rightarrow> Inl (SnapshotDecodeError c e err)
          | Inr s \<Rightarrow> Inr (Some (ps_seq r, s))))"

text \<open>The upsert: a snapshot at the same number is replaced in place.\<close>

definition persistSnapshotAsync :: "int \<Rightarrow> string \<Rightarrow> string \<Rightarrow> 's \<Rightarrow> nat \<Rightarrow> ('s, 'd) codec \<Rightarrow> 'd pg_db \<Rightarrow> 'd pg_db" where
  "persistSnapshotAsync now c e s n codec db =
     (let pid = persistenceId c e;
          row = \<lparr>ps_pid = pid, ps_seq = n, ps_time = now, ps_state = encode codec s, ps_manifest = manifest codec s\<rparr>
      in if list_ex (\<lambda>r. ps_pid r = pid \<and> ps_seq r = n) (pg_snaps db)
         then db\<lparr>pg_snaps := map (\<lambda>r. if ps_pid r = pid \<and> ps_seq r = n then row else r) (pg_snaps db)\<rparr>
         else db\<lparr>pg_snaps := pg_snaps db @ [row]\<rparr>)"

text \<open>The effect of a whole \<open>persistEventsAsync\<close> call that commits.\<close>

definition commit_batch :: "int \<Rightarrow> 'd writer \<Rightarrow> 'd pg_db \<Rightarrow> js_error + nat \<times> 'd pg_db" where
  "commit_batch now w db =
     (case first_collision (pg_rows db) w of
        Some n \<Rightarrow> Inl (DuplicateSequenceNrError (wr_category w) (wr_entity w) n)
      | None \<Rightarrow> Inr (wr_start w + length (wr_payloads w),
          db\<lparr>pg_rows := pg_rows db @ map (\<lambda>i. insert_row (wr_pid w) now (wr_entry w i) (pg_next db + i)) [0 ..< length (wr_payloads w)],
             pg_next := pg_next db + length (wr_payloads w)\<rparr>))"

section \<open>The runner\<close>

record ('cmd, 'r, 'ev, 's, 'fx, 'df, 'd) pg_opts =
  pgo_aggregate :: "('cmd, 'r, 'ev, 's, 'fx, 'df) aggregate"
  pgo_entityId :: string
  pgo_eventCodec :: "('ev, 'd) codec"
  pgo_stateCodec :: "('s, 'd) codec"
  pgo_sideEffect :: "nat \<Rightarrow> 'fx \<Rightarrow> 'cmd ctx_call list \<times> js_error option"

abbreviation pg_category where "pg_category cfg \<equiv> category (pgo_aggregate cfg)"
abbreviation pg_entity where "pg_entity cfg \<equiv> persistenceId (category (pgo_aggregate cfg)) (pgo_entityId cfg)"

record ('s, 'cmd) pg_entity_state =
  pe_state :: 's
  pe_sequenceNr :: nat
  pe_stashed :: "'cmd list"
  pe_since :: nat

text \<open>What the handler awaits next; \<open>AutoSnapshot\<close> is the snapshot after a write.\<close>

datatype ('cmd, 'r, 'ev, 'fx, 'df) pg_work =
    PgEff "('ev, 'r, 'fx, 'df) effect" reply_to
  | AutoSnapshot "('ev, 'r, 'fx, 'df) effect" reply_to
  | PgCmd 'cmd reply_to

datatype ('cmd, 'r, 'ev, 's, 'fx, 'df) pg_phase =
    LoadingSnapshot
  | LoadingEvents "(nat \<times> 's) option"
  | RecoveryHook
  | Handling "('cmd, 'r, 'ev, 'fx, 'df) pg_work option"
  | Returned
  | Rejected js_error

record ('cmd, 'r, 'ev, 's, 'fx, 'df) pg_runner =
  pgr_est :: "('s, 'cmd) pg_entity_state"
  pgr_mailbox :: "'cmd msg list"
  pgr_timers :: "(string, 'cmd timer) jsmap"
  pgr_replies :: "(nat \<times> 'r answer) list"
  pgr_calls :: nat
  pgr_phase :: "('cmd, 'r, 'ev, 's, 'fx, 'df) pg_phase"

definition createPgEntityRunner ::
  "('cmd, 'r, 'ev, 's, 'fx, 'df, 'd) pg_opts \<Rightarrow> nat \<Rightarrow> ('cmd, 'r, 'ev, 's, 'fx, 'df) pg_runner" where
  "createPgEntityRunner cfg n =
     \<lparr>pgr_est = \<lparr>pe_state = initial (pgo_aggregate cfg) (pgo_entityId cfg), pe_sequenceNr = 0, pe_stashed = [], pe_since = 0\<rparr>,
      pgr_mailbox = [], pgr_timers = [], pgr_replies = [], pgr_calls = n, pgr_phase = LoadingSnapshot\<rparr>"

definition pg_offer :: "'cmd msg \<Rightarrow> ('cmd, 'r, 'ev, 's, 'fx, 'df) pg_runner \<Rightarrow> ('cmd, 'r, 'ev, 's, 'fx, 'df) pg_runner" where
  "pg_offer m w = w\<lparr>pgr_mailbox := pgr_mailbox w @ [m]\<rparr>"

text \<open>Setting a timer cancels the one of the same name.\<close>

fun pg_ctx :: "('cmd, 'r, 'ev, 's, 'fx, 'df) pg_runner \<Rightarrow> 'cmd ctx_call \<Rightarrow> ('cmd, 'r, 'ev, 's, 'fx, 'df) pg_runner" where
  "pg_ctx w (TellSelf c) = pg_offer (Tell c) w"
| "pg_ctx w (ScheduleOnce t c delay) = w\<lparr>pgr_timers := js_set t (Once c) (pgr_timers w)\<rparr>"
| "pg_ctx w (SchedulePeriodic t c delay interval) = w\<lparr>pgr_timers := js_set t (Periodic c) (pgr_timers w)\<rparr>"
| "pg_ctx w (CancelTimer t) = w\<lparr>pgr_timers := js_delete t (pgr_timers w)\<rparr>"

definition pg_timer_fires :: "string \<Rightarrow> ('cmd, 'r, 'ev, 's, 'fx, 'df) pg_runner \<Rightarrow> ('cmd, 'r, 'ev, 's, 'fx, 'df) pg_runner" where
  "pg_timer_fires t w =
     (case js_get (pgr_timers w) t of
        None \<Rightarrow> w
      | Some (Once c) \<Rightarrow> pg_offer (TimerFired t c) (w\<lparr>pgr_timers := js_delete t (pgr_timers w)\<rparr>)
      | Some (Periodic c) \<Rightarrow> pg_offer (TimerFired t c) w)"

definition pg_respond :: "reply_to \<Rightarrow> 'r option \<Rightarrow> ('cmd, 'r, 'ev, 's, 'fx, 'df) pg_runner \<Rightarrow> ('cmd, 'r, 'ev, 's, 'fx, 'df) pg_runner" where
  "pg_respond replyTo v w =
     (case replyTo of None \<Rightarrow> w
      | Some (ask, pre) \<Rightarrow> w\<lparr>pgr_replies := pgr_replies w @
          [(ask, \<lparr>an_reply = v, an_sequenceNr = pe_sequenceNr (pgr_est w), an_preSequenceNr = pre\<rparr>)]\<rparr>)"

definition pg_interval :: "('cmd, 'r, 'ev, 's, 'fx, 'df, 'd) pg_opts \<Rightarrow> int" where
  "pg_interval cfg = (case snapshotEvery (pgo_aggregate cfg) of None \<Rightarrow> 100 | Some n \<Rightarrow> n)"

definition reject :: "js_error \<Rightarrow> ('cmd, 'r, 'ev, 's, 'fx, 'df) pg_runner \<Rightarrow> ('cmd, 'r, 'ev, 's, 'fx, 'df) pg_runner" where
  "reject e w = w\<lparr>pgr_phase := Rejected e\<rparr>"

definition await :: "('cmd, 'r, 'ev, 'fx, 'df) pg_work \<Rightarrow> ('cmd, 'r, 'ev, 's, 'fx, 'df) pg_runner \<Rightarrow> ('cmd, 'r, 'ev, 's, 'fx, 'df) pg_runner" where
  "await x w = w\<lparr>pgr_phase := Handling (Some x)\<rparr>"

definition handled :: "('cmd, 'r, 'ev, 's, 'fx, 'df) pg_runner \<Rightarrow> ('cmd, 'r, 'ev, 's, 'fx, 'df) pg_runner" where
  "handled w = w\<lparr>pgr_phase := Handling None\<rparr>"

text \<open>A query that writes: a fault before or after the server did it rejects the call.\<close>

definition db_write :: "fault \<Rightarrow> 'db \<Rightarrow> 'db \<Rightarrow> 'db \<times> js_error option" where
  "db_write fault old new =
     (case fault of NoFault \<Rightarrow> (new, None) | FaultBefore m \<Rightarrow> (old, Some (JsError m)) | FaultAfter m \<Rightarrow> (new, Some (JsError m)))"

definition pg_persist ::
  "('cmd, 'r, 'ev, 's, 'fx, 'df, 'd) pg_opts \<Rightarrow> fault \<Rightarrow> int \<Rightarrow> 'ev list \<Rightarrow> ('ev, 'r, 'fx, 'df) effect \<Rightarrow> reply_to \<Rightarrow>
   'd pg_db \<Rightarrow> ('cmd, 'r, 'ev, 's, 'fx, 'df) pg_runner \<Rightarrow> 'd pg_db \<times> ('cmd, 'r, 'ev, 's, 'fx, 'df) pg_runner" where
  "pg_persist cfg fault now events k replyTo db w =
     (let call = persistEventsAsync (pgo_eventCodec cfg) (pg_category cfg) (pgo_entityId cfg) events (pe_sequenceNr (pgr_est w))
      in case (if events = [] then Inr (pe_sequenceNr (pgr_est w), db) else commit_batch now call db) of
           Inl e \<Rightarrow> (db, reject (case fault_of fault of Some m \<Rightarrow> JsError m | None \<Rightarrow> e) w)
         | Inr (newSeqNr, new) \<Rightarrow>
             (case db_write (if events = [] then NoFault else fault) db new of
                (db', Some e) \<Rightarrow> (db', reject e w)
              | (db', None) \<Rightarrow>
                  (case foldE (apply_event (pgo_aggregate cfg)) (pe_state (pgr_est w)) events of
                     Inl e \<Rightarrow> (db', reject e w)
                   | Inr s \<Rightarrow>
                       (let est = \<lparr>pe_state = s, pe_sequenceNr = newSeqNr, pe_stashed = pe_stashed (pgr_est w),
                              pe_since = pe_since (pgr_est w) + length events\<rparr>
                        in (db', await (if 0 < pg_interval cfg \<and> pg_interval cfg \<le> int (pe_since est)
                                        then AutoSnapshot k replyTo else PgEff k replyTo) (w\<lparr>pgr_est := est\<rparr>))))))"

definition pg_snapshot_now ::
  "('cmd, 'r, 'ev, 's, 'fx, 'df, 'd) pg_opts \<Rightarrow> fault \<Rightarrow> int \<Rightarrow> ('ev, 'r, 'fx, 'df) effect \<Rightarrow> reply_to \<Rightarrow>
   'd pg_db \<Rightarrow> ('cmd, 'r, 'ev, 's, 'fx, 'df) pg_runner \<Rightarrow> 'd pg_db \<times> ('cmd, 'r, 'ev, 's, 'fx, 'df) pg_runner" where
  "pg_snapshot_now cfg fault now k replyTo db w =
     (case db_write fault db (persistSnapshotAsync now (pg_category cfg) (pgo_entityId cfg) (pe_state (pgr_est w))
             (pe_sequenceNr (pgr_est w)) (pgo_stateCodec cfg) db) of
        (db', Some e) \<Rightarrow> (db', reject e w)
      | (db', None) \<Rightarrow> (db', await (PgEff k replyTo) (w\<lparr>pgr_est := (pgr_est w)\<lparr>pe_since := 0\<rparr>\<rparr>)))"

text \<open>\<open>executeEffect\<close>, one node at a time: \<open>ReplyDeferred\<close> has no case in its \<open>switch\<close>.\<close>

fun pg_executeEffect ::
  "('cmd, 'r, 'ev, 's, 'fx, 'df, 'd) pg_opts \<Rightarrow> fault \<Rightarrow> int \<Rightarrow> ('ev, 'r, 'fx, 'df) effect \<Rightarrow> reply_to \<Rightarrow>
   'd pg_db \<Rightarrow> ('cmd, 'r, 'ev, 's, 'fx, 'df) pg_runner \<Rightarrow> 'd pg_db \<times> ('cmd, 'r, 'ev, 's, 'fx, 'df) pg_runner" where
  "pg_executeEffect cfg fault now (Persist events k) replyTo db w = pg_persist cfg fault now events k replyTo db w"
| "pg_executeEffect cfg fault now (Run fx k) replyTo db w =
     (let r = pgo_sideEffect cfg (pgr_calls w) fx;
          w' = foldl pg_ctx (w\<lparr>pgr_calls := Suc (pgr_calls w)\<rparr>) (fst r)
      in (db, case snd r of Some e \<Rightarrow> reject e w' | None \<Rightarrow> await (PgEff k replyTo) w'))"
| "pg_executeEffect cfg fault now (Reply v) replyTo db w = (db, handled (pg_respond replyTo (Some v) w))"
| "pg_executeEffect cfg fault now (Snapshot k) replyTo db w = pg_snapshot_now cfg fault now k replyTo db w"
| "pg_executeEffect cfg fault now Stop replyTo db w = (db, handled (pg_offer StopMsg w))"
| "pg_executeEffect cfg fault now Stash replyTo db w = (db, handled w)"
| "pg_executeEffect cfg fault now (Unstash k) replyTo db w =
     (db, await (PgEff k replyTo)
        (w\<lparr>pgr_est := (pgr_est w)\<lparr>pe_stashed := []\<rparr>, pgr_mailbox := pgr_mailbox w @ map Tell (pe_stashed (pgr_est w))\<rparr>))"
| "pg_executeEffect cfg fault now Done replyTo db w = (db, handled (pg_respond replyTo None w))"
| "pg_executeEffect cfg fault now (ReplyDeferred d) replyTo db w = (db, handled w)"

definition pg_processCommand ::
  "('cmd, 'r, 'ev, 's, 'fx, 'df, 'd) pg_opts \<Rightarrow> 'cmd \<Rightarrow> reply_to \<Rightarrow>
   ('cmd, 'r, 'ev, 's, 'fx, 'df) pg_runner \<Rightarrow> ('cmd, 'r, 'ev, 's, 'fx, 'df) pg_runner" where
  "pg_processCommand cfg c replyTo w =
     (let r = decide (pgo_aggregate cfg) (pgr_calls w) (pe_state (pgr_est w)) c;
          w' = foldl pg_ctx (w\<lparr>pgr_calls := Suc (pgr_calls w)\<rparr>) (fst r)
      in case snd r of
           Inl e \<Rightarrow> reject e w'
         | Inr Stash \<Rightarrow> handled (w'\<lparr>pgr_est := (pgr_est w')\<lparr>pe_stashed := pe_stashed (pgr_est w') @ [c]\<rparr>\<rparr>)
         | Inr effect \<Rightarrow> await (PgEff effect replyTo) w')"

definition pg_handle :: "'cmd msg \<Rightarrow> ('cmd, 'r, 'ev, 's, 'fx, 'df) pg_runner \<Rightarrow> ('cmd, 'r, 'ev, 's, 'fx, 'df) pg_runner" where
  "pg_handle m w =
     (case m of
        Tell c \<Rightarrow> await (PgCmd c None) w
      | Ask c i \<Rightarrow> await (PgCmd c (Some (i, pe_sequenceNr (pgr_est w)))) w
      | TimerFired t c \<Rightarrow> await (PgCmd c None) w
      | StopMsg \<Rightarrow> w\<lparr>pgr_timers := [], pgr_phase := Returned\<rparr>)"

section \<open>One step of a runner\<close>

definition pg_recover_events ::
  "('cmd, 'r, 'ev, 's, 'fx, 'df, 'd) pg_opts \<Rightarrow> (nat \<times> 's) option \<Rightarrow> 'd pg_db \<Rightarrow>
   ('cmd, 'r, 'ev, 's, 'fx, 'df) pg_runner \<Rightarrow> ('cmd, 'r, 'ev, 's, 'fx, 'df) pg_runner" where
  "pg_recover_events cfg snap db w =
     (let start = (case snap of None \<Rightarrow> (initial (pgo_aggregate cfg) (pgo_entityId cfg), 0) | Some (n, s) \<Rightarrow> (s, n))
      in case loadEventsAsync db (pg_category cfg) (pgo_entityId cfg) (snd start) (pgo_eventCodec cfg) None of
           Inl e \<Rightarrow> reject e w
         | Inr events \<Rightarrow>
             (case replay_from (apply_event (pgo_aggregate cfg)) start events of
                Inl e \<Rightarrow> reject e w
              | Inr (s, n) \<Rightarrow> w\<lparr>pgr_est := \<lparr>pe_state = s, pe_sequenceNr = n, pe_stashed = [], pe_since = 0\<rparr>,
                                  pgr_phase := RecoveryHook\<rparr>))"

definition pg_hook :: "('cmd, 'r, 'ev, 's, 'fx, 'df, 'd) pg_opts \<Rightarrow>
   ('cmd, 'r, 'ev, 's, 'fx, 'df) pg_runner \<Rightarrow> ('cmd, 'r, 'ev, 's, 'fx, 'df) pg_runner" where
  "pg_hook cfg w =
     (case onRecoveryComplete (pgo_aggregate cfg) of
        None \<Rightarrow> handled w
      | Some f \<Rightarrow>
          (let r = f (pgr_calls w) (pe_state (pgr_est w));
               w' = foldl pg_ctx (w\<lparr>pgr_calls := Suc (pgr_calls w)\<rparr>) (fst r)
           in case snd r of None \<Rightarrow> handled w' | Some e \<Rightarrow> reject e w'))"

definition pg_turn ::
  "('cmd, 'r, 'ev, 's, 'fx, 'df, 'd) pg_opts \<Rightarrow> fault \<Rightarrow> int \<Rightarrow>
   'd pg_db \<Rightarrow> ('cmd, 'r, 'ev, 's, 'fx, 'df) pg_runner \<Rightarrow> 'd pg_db \<times> ('cmd, 'r, 'ev, 's, 'fx, 'df) pg_runner" where
  "pg_turn cfg fault now db w =
     (case pgr_phase w of
        LoadingSnapshot \<Rightarrow>
          (db, (case fault_of fault of
             Some m \<Rightarrow> reject (JsError m) w
           | None \<Rightarrow> (case loadSnapshotAsync db (pg_category cfg) (pgo_entityId cfg) (pgo_stateCodec cfg) of
                Inl e \<Rightarrow> reject e w
              | Inr snap \<Rightarrow> w\<lparr>pgr_phase := LoadingEvents snap\<rparr>)))
      | LoadingEvents snap \<Rightarrow>
          (db, (case fault_of fault of Some m \<Rightarrow> reject (JsError m) w | None \<Rightarrow> pg_recover_events cfg snap db w))
      | RecoveryHook \<Rightarrow> (db, pg_hook cfg w)
      | Handling None \<Rightarrow>
          (db, (case pgr_mailbox w of [] \<Rightarrow> w | m # ms \<Rightarrow> pg_handle m (w\<lparr>pgr_mailbox := ms\<rparr>)))
      | Handling (Some (PgCmd c replyTo)) \<Rightarrow> (db, pg_processCommand cfg c replyTo w)
      | Handling (Some (PgEff effect replyTo)) \<Rightarrow> pg_executeEffect cfg fault now effect replyTo db w
      | Handling (Some (AutoSnapshot k replyTo)) \<Rightarrow> pg_snapshot_now cfg fault now k replyTo db w
      | Returned \<Rightarrow> (db, w)
      | Rejected e \<Rightarrow> (db, w))"

end
