(* ===== verification/Pg_Recovery.thy ===== *)
theory Pg_Recovery
  imports Pg_Writers Pg_Runner
begin

text \<open>
  Any number of incarnations of one entity over one Postgres journal, as when two processes run it at the same time:
  the primary key lets only a batch through that was decided on the complete history, so the log stays one history
  and every incarnation holds the state after some prefix of it.
\<close>

section \<open>A committed call is one atomic step\<close>

lemma first_collision_None: "first_collision rows w = None \<longleftrightarrow> (\<nexists>n. collides rows w n)"
proof
  assume none: "first_collision rows w = None"
  show "\<nexists>n. collides rows w n" using first_collision_found [of rows w] none by auto
next
  assume none: "\<nexists>n. collides rows w n"
  show "first_collision rows w = None"
  proof (cases "first_collision rows w")
    case (Some n)
    from find_sound [OF this [unfolded first_collision_def]] have "collides rows w n"
      by (auto simp: collides_def)
    with none show ?thesis by blast
  qed
qed

lemma view_of_batch_rows:
  "map row_view (map (\<lambda>i. insert_row (wr_pid w) now (wr_entry w i) (f i)) [0 ..< length (wr_payloads w)]) = batch w"
  by (simp add: batch_def)

text \<open>Every step of the writers leaves the table alone or does what \<open>commit_batch\<close> does.\<close>

lemma writers_refine_commit_batch:
  assumes "pg_run s" "i < length (sy_writers s)" "\<not> blocked s i"
  shows "map row_view (pg_rows (sy_db (advance fault now i s))) = map row_view (pg_rows (sy_db s))
     \<or> (\<exists>n db. commit_batch t (sy_writers s ! i) (sy_db s) = Inr (n, db)
          \<and> map row_view (pg_rows (sy_db (advance fault now i s))) = map row_view (pg_rows db))"
proof -
  from pg_run_inv [OF assms(1)] obtain order where inv: "pg_inv s order" ..
  note I = pg_invD [OF inv]
  let ?w = "sy_writers s ! i" and ?rows = "pg_rows (sy_db s)"
  obtain db' w' where step: "writer_step fault now (sy_db s) ?w = (db', w')" by fastforce
  from writer_step_kinds [OF I(5) [OF assms(2)] step I(6) [OF assms(2)]]
  consider "pg_rows db' = ?rows" | new where "pg_rows db' = ?rows @ new" "map row_view new = batch ?w"
      "row_key ` set new \<inter> row_key ` set ?rows = {}"
    using I(6) [OF assms(2)] by (elim disjE exE conjE) auto
  then show ?thesis
  proof cases
    case 1
    then show ?thesis by (simp add: step)
  next
    case new: (2 new)
    have keys: "row_key ` set new = view_key ` set (batch ?w)"
      unfolding new(2) [symmetric] by (simp add: image_image row_key_view)
    have "\<not> collides ?rows ?w n" for n
    proof
      assume c: "collides ?rows ?w n"
      then have "(wr_pid ?w, n) \<in> view_key ` set (batch ?w)"
        by (auto simp: collides_def batch_def view_key_def image_iff intro!: bexI [of _ "n - wr_start ?w - 1"])
      with c new(3) show False unfolding keys [symmetric] collides_def by blast
    qed
    then have "first_collision ?rows ?w = None" by (simp add: first_collision_None)
    then show ?thesis using new(1,2) view_of_batch_rows [of ?w]
      by (simp add: step commit_batch_def)
  qed
qed

section \<open>The entity's log\<close>

definition raw_log :: "'d pg_db \<Rightarrow> string \<Rightarrow> 'd log_entry list" where
  "raw_log db pid = map row_entry (filter (\<lambda>r. pg_pid r = pid) (pg_rows db))"

lemma fst_row_entry [simp]: "fst (row_entry r) = pg_seq r"
  by (simp add: row_entry_def)

lemma entity_log_raw:
  assumes "numbered 0 (map fst (raw_log db pid))"
  shows "entity_log db pid = raw_log db pid"
proof -
  have "sorted (map fst (raw_log db pid))"
  proof -
    have "sorted xs \<and> (\<forall>x \<in> set xs. n < x)" if "numbered n xs" for n xs
      using that by (induction xs arbitrary: n) (auto simp: less_imp_le intro: Suc_lessD)
    then show ?thesis using assms by blast
  qed
  then have "sort_key pg_seq (filter (\<lambda>r. pg_pid r = pid) (pg_rows db)) = filter (\<lambda>r. pg_pid r = pid) (pg_rows db)"
    by (intro sort_key_id_if_sorted) (simp add: raw_log_def comp_def)
  then show ?thesis by (simp add: entity_log_def entity_rows_def raw_log_def)
qed

lemma wr_pid_call [simp]: "wr_pid (persistEventsAsync codec c e es start) = persistenceId c e"
  by (simp add: wr_pid_def persistEventsAsync_def new_writer_def)

lemma call_fields [simp]:
  "wr_start (persistEventsAsync codec c e es start) = start" "length (wr_payloads (persistEventsAsync codec c e es start)) = length es"
  "wr_category (persistEventsAsync codec c e es start) = c" "wr_entity (persistEventsAsync codec c e es start) = e"
  by (simp_all add: persistEventsAsync_def new_writer_def)

lemma commit_batch_log:
  assumes "commit_batch now (persistEventsAsync codec c e es start) db = Inr (n, db')"
  shows "n = start + length es" "pg_snaps db' = pg_snaps db"
    "raw_log db' (persistenceId c e) = raw_log db (persistenceId c e) @ log_entries codec start es"
    "\<And>m. start < m \<Longrightarrow> m \<le> start + length es \<Longrightarrow> m \<notin> fst ` set (raw_log db (persistenceId c e))"
proof -
  let ?w = "persistEventsAsync codec c e es start"
  define new where "new = map (\<lambda>i. insert_row (wr_pid ?w) now (wr_entry ?w i) (pg_next db + i)) [0 ..< length (wr_payloads ?w)]"
  from assms have none: "first_collision (pg_rows db) ?w = None"
    and db': "n = start + length es" "pg_rows db' = pg_rows db @ new" "pg_snaps db' = pg_snaps db"
    by (auto simp: commit_batch_def new_def split: option.splits)
  show "n = start + length es" "pg_snaps db' = pg_snaps db" by (fact db')+
  have "map row_view new = map (Pair (persistenceId c e)) (log_entries codec start es)"
    using view_of_batch_rows [of ?w] unfolding new_def by (simp only: batch_of_events)
  then have "map snd (map row_view new) = log_entries codec start es" by (simp add: comp_def)
  moreover have "map snd (map row_view new) = map row_entry new" by (simp add: row_entry_def row_view_def)
  moreover have "\<forall>r \<in> set new. pg_pid r = persistenceId c e" by (auto simp: new_def insert_row_def split: prod.splits)
  ultimately have "map row_entry (filter (\<lambda>r. pg_pid r = persistenceId c e) new) = log_entries codec start es"
    by (simp add: filter_True)
  then show "raw_log db' (persistenceId c e) = raw_log db (persistenceId c e) @ log_entries codec start es"
    by (simp add: raw_log_def db'(2))
  fix m assume m: "start < m" "m \<le> start + length es"
  have "\<not> collides (pg_rows db) ?w m" using none by (simp add: first_collision_None)
  with m have "(persistenceId c e, m) \<notin> row_key ` set (pg_rows db)" by (simp add: collides_def)
  then show "m \<notin> fst ` set (raw_log db (persistenceId c e))" by (auto simp: raw_log_def row_key_def image_iff)
qed

section \<open>All incarnations of an entity\<close>

record ('cmd, 'r, 'ev, 's, 'fx, 'df, 'd) pg_world =
  pw_db :: "'d pg_db"
  pw_runners :: "('cmd, 'r, 'ev, 's, 'fx, 'df) pg_runner list"

text \<open>What is done for other entities leaves the rows of this one alone.\<close>

definition pg_other :: "string \<Rightarrow> 'd pg_db \<Rightarrow> 'd pg_db \<Rightarrow> bool" where
  "pg_other pid db db' \<longleftrightarrow> raw_log db' pid = raw_log db pid
     \<and> filter (\<lambda>s. ps_pid s = pid) (pg_snaps db') = filter (\<lambda>s. ps_pid s = pid) (pg_snaps db)"

text \<open>
  Incarnations start at any moment, in any process; messages and timers arrive at any moment; each step of each
  runner may fail or lose its connection; an incarnation whose process dies takes no more steps.
\<close>

inductive pg_world_run ::
  "('cmd, 'r, 'ev, 's, 'fx, 'df, 'd) pg_opts \<Rightarrow> ('cmd, 'r, 'ev, 's, 'fx, 'df, 'd) pg_world \<Rightarrow> bool"
  for cfg :: "('cmd, 'r, 'ev, 's, 'fx, 'df, 'd) pg_opts" where
  begun: "pg_world_run cfg \<lparr>pw_db = pg_empty, pw_runners = []\<rparr>"
| created: "pg_world_run cfg w \<Longrightarrow> pg_world_run cfg (w\<lparr>pw_runners := pw_runners w @ [createPgEntityRunner cfg n]\<rparr>)"
| offered: "pg_world_run cfg w \<Longrightarrow> i < length (pw_runners w) \<Longrightarrow>
     pg_world_run cfg (w\<lparr>pw_runners := (pw_runners w)[i := pg_offer m (pw_runners w ! i)]\<rparr>)"
| ticked: "pg_world_run cfg w \<Longrightarrow> i < length (pw_runners w) \<Longrightarrow>
     pg_world_run cfg (w\<lparr>pw_runners := (pw_runners w)[i := pg_timer_fires t (pw_runners w ! i)]\<rparr>)"
| turned: "pg_world_run cfg w \<Longrightarrow> i < length (pw_runners w) \<Longrightarrow>
     pg_turn cfg fault now (pw_db w) (pw_runners w ! i) = (db, r) \<Longrightarrow>
     pg_world_run cfg \<lparr>pw_db = db, pw_runners = (pw_runners w)[i := r]\<rparr>"
| shared: "pg_world_run cfg w \<Longrightarrow> pg_other (pg_entity cfg) (pw_db w) db \<Longrightarrow> pg_world_run cfg (w\<lparr>pw_db := db\<rparr>)"

section \<open>The invariant\<close>

definition pg_replay :: "('cmd, 'r, 'ev, 's, 'fx, 'df, 'd) pg_opts \<Rightarrow> 'd log_entry list \<Rightarrow> js_error + 's" where
  "pg_replay cfg lg = replay_log (pgo_eventCodec cfg) (apply_event (pgo_aggregate cfg)) (initial (pgo_aggregate cfg) (pgo_entityId cfg)) lg"

abbreviation own_log where "own_log cfg db \<equiv> raw_log db (pg_entity cfg)"

text \<open>A state that is the replay of a prefix of the log.\<close>

definition prefix_state :: "('cmd, 'r, 'ev, 's, 'fx, 'df, 'd) pg_opts \<Rightarrow> 'd log_entry list \<Rightarrow> nat \<Rightarrow> 's \<Rightarrow> bool" where
  "prefix_state cfg lg n s \<longleftrightarrow> n \<le> length lg \<and> pg_replay cfg (take n lg) = Inr s"

definition pg_lawful :: "('cmd, 'r, 'ev, 's, 'fx, 'df, 'd) pg_opts \<Rightarrow> bool" where
  "pg_lawful cfg \<longleftrightarrow> codec_contract (pgo_eventCodec cfg) \<and> codec_contract (pgo_stateCodec cfg)"

definition pg_stored :: "('cmd, 'r, 'ev, 's, 'fx, 'df, 'd) pg_opts \<Rightarrow> 'd pg_db \<Rightarrow> bool" where
  "pg_stored cfg db \<longleftrightarrow> numbered 0 (map fst (own_log cfg db)) \<and> (\<exists>es. decode_log (pgo_eventCodec cfg) (own_log cfg db) = Inr es)
     \<and> (\<forall>sn \<in> set (filter (\<lambda>s. ps_pid s = pg_entity cfg) (pg_snaps db)). \<exists>s. decode (pgo_stateCodec cfg) (ps_manifest sn) (ps_state sn) = Inr s
          \<and> prefix_state cfg (own_log cfg db) (ps_seq sn) s)"

definition runner_knows :: "('cmd, 'r, 'ev, 's, 'fx, 'df, 'd) pg_opts \<Rightarrow> 'd log_entry list \<Rightarrow> ('cmd, 'r, 'ev, 's, 'fx, 'df) pg_runner \<Rightarrow> bool" where
  "runner_knows cfg lg r \<longleftrightarrow>
     (case pgr_phase r of
        LoadingEvents (Some (n, s)) \<Rightarrow> prefix_state cfg lg n s
      | RecoveryHook \<Rightarrow> prefix_state cfg lg (pe_sequenceNr (pgr_est r)) (pe_state (pgr_est r))
      | Handling x \<Rightarrow> prefix_state cfg lg (pe_sequenceNr (pgr_est r)) (pe_state (pgr_est r))
      | _ \<Rightarrow> True)"

lemma prefix_state_extend: "prefix_state cfg lg n s \<Longrightarrow> prefix_state cfg (lg @ new) n s"
  by (simp add: prefix_state_def)

lemma runner_knows_extend: "runner_knows cfg lg r \<Longrightarrow> runner_knows cfg (lg @ new) r"
  by (auto simp: runner_knows_def prefix_state_extend split: pg_phase.splits option.splits)

lemma runner_knows_frame:
  "pgr_phase r' = pgr_phase r \<Longrightarrow> pgr_est r' = pgr_est r \<Longrightarrow> runner_knows cfg lg r' = runner_knows cfg lg r"
  by (auto simp: runner_knows_def split: pg_phase.splits)

lemma pg_offer_frame [frames]: "pgr_est (pg_offer m r) = pgr_est r" "pgr_phase (pg_offer m r) = pgr_phase r"
  by (simp_all add: pg_offer_def)

lemma pg_ctx_frame: "pgr_est (pg_ctx r c) = pgr_est r \<and> pgr_phase (pg_ctx r c) = pgr_phase r"
  by (cases c) (simp_all add: frames)

lemma foldl_pg_ctx_frame [frames]: "pgr_est (foldl pg_ctx r cs) = pgr_est r" "pgr_phase (foldl pg_ctx r cs) = pgr_phase r"
  by (induction cs arbitrary: r) (simp_all add: pg_ctx_frame)

lemma pg_timer_frame [frames]: "pgr_est (pg_timer_fires t r) = pgr_est r" "pgr_phase (pg_timer_fires t r) = pgr_phase r"
  by (auto simp: pg_timer_fires_def frames split: option.splits timer.splits)

lemma pg_respond_frame [frames]: "pgr_est (pg_respond a v r) = pgr_est r" "pgr_phase (pg_respond a v r) = pgr_phase r"
  by (auto simp: pg_respond_def split: option.splits)

lemma pg_phase_set [frames]:
  "pgr_phase (await x r) = Handling (Some x)" "pgr_est (await x r) = pgr_est r"
  "pgr_phase (handled r) = Handling None" "pgr_est (handled r) = pgr_est r"
  "pgr_phase (reject e r) = Rejected e" "pgr_est (reject e r) = pgr_est r"
  by (simp_all add: await_def handled_def reject_def)


section \<open>Every step keeps it\<close>

lemma raw_log_snaps [simp]: "raw_log (db\<lparr>pg_snaps := x\<rparr>) pid = raw_log db pid"
  by (simp add: raw_log_def)

lemma snapshot_stored:
  assumes "pg_lawful cfg" "pg_stored cfg db" "prefix_state cfg (own_log cfg db) n s"
  shows "own_log cfg (persistSnapshotAsync now (pg_category cfg) (pgo_entityId cfg) s n (pgo_stateCodec cfg) db) = own_log cfg db
     \<and> pg_stored cfg (persistSnapshotAsync now (pg_category cfg) (pgo_entityId cfg) s n (pgo_stateCodec cfg) db)"
proof -
  let ?db = "persistSnapshotAsync now (pg_category cfg) (pgo_entityId cfg) s n (pgo_stateCodec cfg) db"
  let ?row = "\<lparr>ps_pid = pg_entity cfg, ps_seq = n, ps_time = now, ps_state = encode (pgo_stateCodec cfg) s, ps_manifest = manifest (pgo_stateCodec cfg) s\<rparr>"
  have lg: "own_log cfg ?db = own_log cfg db" by (simp add: persistSnapshotAsync_def Let_def)
  have sub: "set (pg_snaps ?db) \<subseteq> insert ?row (set (pg_snaps db))" by (auto simp: persistSnapshotAsync_def Let_def)
  have "decode (pgo_stateCodec cfg) (ps_manifest ?row) (ps_state ?row) = Inr s"
    using assms(1) by (simp add: pg_lawful_def codec_contract.roundtrip)
  with assms(3) have row: "\<exists>s. decode (pgo_stateCodec cfg) (ps_manifest ?row) (ps_state ?row) = Inr s
      \<and> prefix_state cfg (own_log cfg db) (ps_seq ?row) s" by auto
  have "\<exists>s. decode (pgo_stateCodec cfg) (ps_manifest sn) (ps_state sn) = Inr s \<and> prefix_state cfg (own_log cfg db) (ps_seq sn) s"
    if "sn \<in> set (pg_snaps ?db)" "ps_pid sn = pg_entity cfg" for sn
  proof (cases "sn = ?row")
    case False
    with that sub assms(2) show ?thesis unfolding pg_stored_def by auto
  qed (use row in blast)
  with assms(2) lg show ?thesis by (simp add: pg_stored_def)
qed

definition turn_ok :: "('cmd, 'r, 'ev, 's, 'fx, 'df, 'd) pg_opts \<Rightarrow> 'd pg_db \<Rightarrow> ('cmd, 'r, 'ev, 's, 'fx, 'df) pg_runner \<Rightarrow>
    'd pg_db \<Rightarrow> ('cmd, 'r, 'ev, 's, 'fx, 'df) pg_runner \<Rightarrow> bool" where
  "turn_ok cfg db r db' r' \<longleftrightarrow> pg_stored cfg db' \<and> runner_knows cfg (own_log cfg db') r'
     \<and> (own_log cfg db' = own_log cfg db
        \<or> (\<exists>events k a. pgr_phase r = Handling (Some (PgEff (Persist events k) a))
             \<and> own_log cfg db' = own_log cfg db @ log_entries (pgo_eventCodec cfg) (length (own_log cfg db)) events
             \<and> pg_replay cfg (own_log cfg db) = Inr (pe_state (pgr_est r))))"

lemma turn_ok_same: "pg_stored cfg db \<Longrightarrow> runner_knows cfg (own_log cfg db) r' \<Longrightarrow> turn_ok cfg db r db r'"
  by (simp add: turn_ok_def)

lemma snapshot_turn_ok:
  assumes "pg_lawful cfg" "pg_stored cfg db" "prefix_state cfg (own_log cfg db) (pe_sequenceNr (pgr_est r)) (pe_state (pgr_est r))"
    and "pg_snapshot_now cfg fault now k a db r = (db', r')"
  shows "turn_ok cfg db r db' r'"
proof -
  note s = snapshot_stored [OF assms(1-3), of now]
  show ?thesis
    using assms s by (cases fault) (auto simp: pg_snapshot_now_def db_write_def turn_ok_def runner_knows_def frames)
qed

lemma numbered_snoc_free:
  assumes "numbered 0 xs" "n \<le> length xs" "\<And>m. n < m \<Longrightarrow> m \<le> n + k \<Longrightarrow> m \<notin> set xs" "0 < k"
  shows "n = length xs"
proof (rule ccontr)
  assume "n \<noteq> length xs"
  with assms(2) have "Suc n \<in> set xs" using numbered_set [OF assms(1)] by auto
  with assms(3) [of "Suc n"] assms(4) show False by simp
qed

text \<open>The primary key: a batch commits only where its writer knew the whole log.\<close>

lemma commit_complete:
  assumes "pg_stored cfg db" "prefix_state cfg (own_log cfg db) n s" "events \<noteq> []"
    and "commit_batch now (persistEventsAsync (pgo_eventCodec cfg) (pg_category cfg) (pgo_entityId cfg) events n) db = Inr (m, db')"
  shows "n = length (own_log cfg db)"
proof -
  note c = commit_batch_log [OF assms(4)]
  have "numbered 0 (map fst (own_log cfg db))" using assms(1) by (simp add: pg_stored_def)
  moreover have "n \<le> length (map fst (own_log cfg db))" using assms(2) by (simp add: prefix_state_def)
  moreover have "k \<notin> set (map fst (own_log cfg db))" if "n < k" "k \<le> n + length events" for k
    using c(4) [OF that] by simp
  ultimately have "n = length (map fst (own_log cfg db))"
    using assms(3) by (intro numbered_snoc_free [where k = "length events"]) auto
  then show ?thesis by simp
qed

lemma commit_stored:
  assumes "pg_lawful cfg" "pg_stored cfg db" "prefix_state cfg (own_log cfg db) n s" "events \<noteq> []"
    and "commit_batch now (persistEventsAsync (pgo_eventCodec cfg) (pg_category cfg) (pgo_entityId cfg) events n) db = Inr (m, db')"
  shows "m = length (own_log cfg db')" "pg_replay cfg (own_log cfg db) = Inr s"
    "own_log cfg db' = own_log cfg db @ log_entries (pgo_eventCodec cfg) (length (own_log cfg db)) events" "pg_stored cfg db'"
    "foldE (apply_event (pgo_aggregate cfg)) s events = pg_replay cfg (own_log cfg db')"
proof -
  note n = commit_complete [OF assms(2-5)] and c = commit_batch_log [OF assms(5)]
  show lg: "own_log cfg db' = own_log cfg db @ log_entries (pgo_eventCodec cfg) (length (own_log cfg db)) events"
    using c(3) n by simp
  show "m = length (own_log cfg db')" using c(1) n lg by simp
  show rep: "pg_replay cfg (own_log cfg db) = Inr s" using assms(3) n by (simp add: prefix_state_def)
  have ec: "codec_contract (pgo_eventCodec cfg)" using assms(1) by (simp add: pg_lawful_def)
  note dec = decode_log_entries [OF ec, of "length (own_log cfg db)" events]
  have "pg_replay cfg (own_log cfg db') = foldE (apply_event (pgo_aggregate cfg)) s (map snd (zip [Suc (length (own_log cfg db)) ..< Suc (length (own_log cfg db)) + length events] events))"
    unfolding lg pg_replay_def by (rule replay_log_append [OF rep [unfolded pg_replay_def] dec])
  then show "foldE (apply_event (pgo_aggregate cfg)) s events = pg_replay cfg (own_log cfg db')" by (simp del: upt_Suc)
  obtain es where es: "decode_log (pgo_eventCodec cfg) (own_log cfg db) = Inr es" using assms(2) by (auto simp: pg_stored_def)
  show "pg_stored cfg db'"
    using assms(2) es dec c(2) unfolding pg_stored_def lg
    by (auto simp: numbered_append decode_log_append prefix_state_extend simp del: upt_Suc)
qed

lemma persist_turn_ok:
  assumes "pg_lawful cfg" "pg_stored cfg db" "prefix_state cfg (own_log cfg db) (pe_sequenceNr (pgr_est r)) (pe_state (pgr_est r))"
    and "pgr_phase r = Handling (Some (PgEff (Persist events k) a))"
    and "pg_persist cfg fault now events k a db r = (db', r')"
  shows "turn_ok cfg db r db' r'"
proof (cases "events = []")
  case True
  with assms show ?thesis
    by (auto simp: pg_persist_def db_write_def Let_def turn_ok_def runner_knows_def frames)
next
  case False
  let ?call = "persistEventsAsync (pgo_eventCodec cfg) (pg_category cfg) (pgo_entityId cfg) events (pe_sequenceNr (pgr_est r))"
  show ?thesis
  proof (cases "commit_batch now ?call db")
    case (Inl e)
    with False assms(2,5) show ?thesis
      by (auto simp: pg_persist_def Let_def turn_ok_def runner_knows_def frames)
  next
    case (Inr x)
    obtain m new where x: "x = (m, new)" by (cases x)
    note c = commit_stored [OF assms(1-3) False Inr [unfolded x]]
    have ok: "turn_ok cfg db r new r'" if "runner_knows cfg (own_log cfg new) r'" for r'
      using that c(2-4) assms(4) unfolding turn_ok_def by blast
    have same: "turn_ok cfg db r db (reject e r)" for e
      using assms(2) by (intro turn_ok_same) (simp_all add: runner_knows_def frames)
    show ?thesis
    proof (cases "foldE (apply_event (pgo_aggregate cfg)) (pe_state (pgr_est r)) events")
      case fold: (Inl e)
      show ?thesis using assms(5) False Inr x fold ok [of "reject e' r" for e'] same
        by (cases fault) (auto simp: pg_persist_def db_write_def Let_def runner_knows_def frames)
    next
      case fold: (Inr s)
      have "prefix_state cfg (own_log cfg new) m s"
        using c(1,5) fold by (simp add: prefix_state_def)
      then show ?thesis using assms(5) False Inr x fold ok same
        by (cases fault) (auto simp: pg_persist_def db_write_def Let_def runner_knows_def frames)
    qed
  qed
qed


lemma load_snapshot_ok:
  assumes "pg_stored cfg db"
  shows "\<exists>snap. loadSnapshotAsync db (pg_category cfg) (pgo_entityId cfg) (pgo_stateCodec cfg) = Inr snap
     \<and> (case snap of None \<Rightarrow> True | Some (n, s) \<Rightarrow> prefix_state cfg (own_log cfg db) n s)"
proof (cases "latest_snapshot db (pg_entity cfg)")
  case (Some sn)
  let ?mine = "filter (\<lambda>s. ps_pid s = pg_entity cfg) (pg_snaps db)"
  obtain rest where "rev (sort_key ps_seq ?mine) = sn # rest"
    using Some unfolding latest_snapshot_def by (cases "rev (sort_key ps_seq ?mine)") simp_all
  then have "sn \<in> set (rev (sort_key ps_seq ?mine))" by (metis list.set_intros(1))
  then have "sn \<in> set ?mine" by simp
  with assms show ?thesis using Some by (fastforce simp: pg_stored_def loadSnapshotAsync_def)
qed (simp add: loadSnapshotAsync_def)

lemma recover_events_ok:
  assumes "pg_stored cfg db" "case snap of None \<Rightarrow> True | Some (n, s) \<Rightarrow> prefix_state cfg (own_log cfg db) n s"
  shows "pg_recover_events cfg snap db r =
     (case pg_replay cfg (own_log cfg db) of
        Inl e \<Rightarrow> reject e r
      | Inr s \<Rightarrow> r\<lparr>pgr_est := \<lparr>pe_state = s, pe_sequenceNr = length (own_log cfg db), pe_stashed = [], pe_since = 0\<rparr>,
                   pgr_phase := RecoveryHook\<rparr>)"
proof -
  let ?lg = "own_log cfg db" and ?init = "initial (pgo_aggregate cfg) (pgo_entityId cfg)"
  define start where "start = (case snap of None \<Rightarrow> (?init, 0) | Some (n, s) \<Rightarrow> (s, n))"
  have st: "prefix_state cfg ?lg (snd start) (fst start)"
    using assms(2) by (auto simp: start_def prefix_state_def pg_replay_def split: option.splits)
  have num: "numbered 0 (map fst ?lg)" using assms(1) by (simp add: pg_stored_def)
  obtain es where es: "decode_log (pgo_eventCodec cfg) (filter (\<lambda>x. snd start < fst x) ?lg) = Inr es"
    using assms(1) decode_log_filter [of "pgo_eventCodec cfg" ?lg _ "\<lambda>k. snd start < k"] unfolding pg_stored_def by blast
  have load: "loadEventsAsync db (pg_category cfg) (pgo_entityId cfg) (snd start) (pgo_eventCodec cfg) None = Inr es"
    using es by (simp add: loadEventsAsync_def entity_log_raw [OF num])
  have "replay_from (apply_event (pgo_aggregate cfg)) start es =
     (case pg_replay cfg ?lg of Inl e \<Rightarrow> Inl e | Inr s' \<Rightarrow> Inr (s', length ?lg))"
    using replay_log_suffix [OF num, of "snd start" "pgo_eventCodec cfg" "apply_event (pgo_aggregate cfg)" ?init "fst start" es]
      st es by (simp add: prefix_state_def pg_replay_def)
  then show ?thesis
    by (simp add: pg_recover_events_def start_def [symmetric] load split: sum.splits)
qed

lemma pg_turn_ok:
  assumes "pg_lawful cfg" "pg_stored cfg db" "runner_knows cfg (own_log cfg db) r" "pg_turn cfg fault now db r = (db', r')"
  shows "turn_ok cfg db r db' r'"
proof (cases "pgr_phase r")
  case LoadingSnapshot
  from load_snapshot_ok [OF assms(2)] obtain snap where
    "loadSnapshotAsync db (pg_category cfg) (pgo_entityId cfg) (pgo_stateCodec cfg) = Inr snap"
    "case snap of None \<Rightarrow> True | Some (n, s) \<Rightarrow> prefix_state cfg (own_log cfg db) n s" by blast
  with LoadingSnapshot assms(2,4) show ?thesis
    by (cases "fault_of fault")
      (auto simp: pg_turn_def intro!: turn_ok_same simp: runner_knows_def frames split: option.splits)
next
  case (LoadingEvents snap)
  with assms(3) have "case snap of None \<Rightarrow> True | Some (n, s) \<Rightarrow> prefix_state cfg (own_log cfg db) n s"
    by (auto simp: runner_knows_def split: option.splits)
  note rec = recover_events_ok [OF assms(2) this, of r]
  have "runner_knows cfg (own_log cfg db) (pg_recover_events cfg snap db r)"
    unfolding rec by (auto simp: runner_knows_def prefix_state_def frames split: sum.splits)
  with LoadingEvents assms(2,4) show ?thesis
    by (cases "fault_of fault") (auto simp: pg_turn_def intro!: turn_ok_same simp: runner_knows_def frames)
next
  case RecoveryHook
  with assms(2-4) show ?thesis
    by (auto simp: pg_turn_def pg_hook_def Let_def intro!: turn_ok_same simp: runner_knows_def frames split: option.splits)
next
  case (Handling x)
  with assms(3) have knows: "prefix_state cfg (own_log cfg db) (pe_sequenceNr (pgr_est r)) (pe_state (pgr_est r))"
    by (simp add: runner_knows_def)
  show ?thesis
  proof (cases x)
    case None
    with Handling assms(2,4) knows show ?thesis
      by (auto simp: pg_turn_def pg_handle_def intro!: turn_ok_same simp: runner_knows_def frames split: list.splits msg.splits)
  next
    case (Some y)
    show ?thesis
    proof (cases y)
      case (PgCmd c a)
      with Some Handling assms(2,4) knows show ?thesis
        by (auto simp: pg_turn_def pg_processCommand_def Let_def intro!: turn_ok_same
            simp: runner_knows_def frames split: sum.splits effect.splits)
    next
      case (AutoSnapshot k a)
      with Some Handling assms(4) have "pg_snapshot_now cfg fault now k a db r = (db', r')" by (simp add: pg_turn_def)
      from snapshot_turn_ok [OF assms(1,2) knows this] show ?thesis .
    next
      case (PgEff eff a)
      with Some Handling assms(4) have e: "pg_executeEffect cfg fault now eff a db r = (db', r')" by (simp add: pg_turn_def)
      show ?thesis
      proof (cases eff)
        case (Persist es k)
        with e persist_turn_ok [OF assms(1,2) knows] Handling Some PgEff show ?thesis by simp
      next
        case (Snapshot k)
        with e snapshot_turn_ok [OF assms(1,2) knows] show ?thesis by simp
      qed (use e knows assms(2) in \<open>auto simp: Let_def intro!: turn_ok_same simp: runner_knows_def frames split: option.splits\<close>)
    qed
  qed
qed (use assms in \<open>simp_all add: pg_turn_def turn_ok_same runner_knows_def\<close>)

section \<open>Every incarnation, at every moment\<close>

definition world_ok :: "('cmd, 'r, 'ev, 's, 'fx, 'df, 'd) pg_opts \<Rightarrow> ('cmd, 'r, 'ev, 's, 'fx, 'df, 'd) pg_world \<Rightarrow> bool" where
  "world_ok cfg w \<longleftrightarrow> pg_stored cfg (pw_db w) \<and> (\<forall>r \<in> set (pw_runners w). runner_knows cfg (own_log cfg (pw_db w)) r)"

lemma world_ok_runner:
  "world_ok cfg w \<Longrightarrow> i < length (pw_runners w) \<Longrightarrow> runner_knows cfg (own_log cfg (pw_db w)) (pw_runners w ! i)"
  by (simp add: world_ok_def)

lemma world_ok_update:
  assumes "world_ok cfg w" "runner_knows cfg (own_log cfg (pw_db w)) r"
  shows "world_ok cfg (w\<lparr>pw_runners := (pw_runners w)[i := r]\<rparr>)"
  using assms set_update_subset_insert [of "pw_runners w" i r] by (auto simp: world_ok_def)

lemma pg_world_run_ok:
  assumes "pg_world_run cfg w" "pg_lawful cfg"
  shows "world_ok cfg w"
  using assms
proof (induction rule: pg_world_run.induct)
  case begun
  show ?case by (simp add: world_ok_def pg_stored_def raw_log_def pg_empty_def)
next
  case (created w n)
  then show ?case by (simp add: world_ok_def runner_knows_def createPgEntityRunner_def)
next
  case (offered w i m)
  then have ok: "world_ok cfg w" by blast
  have "runner_knows cfg (own_log cfg (pw_db w)) (pg_offer m (pw_runners w ! i))"
    using world_ok_runner [OF ok offered.hyps(2)] by (simp add: runner_knows_frame [OF pg_offer_frame(2,1)])
  with ok show ?case by (rule world_ok_update)
next
  case (ticked w i t)
  then have ok: "world_ok cfg w" by blast
  have "runner_knows cfg (own_log cfg (pw_db w)) (pg_timer_fires t (pw_runners w ! i))"
    using world_ok_runner [OF ok ticked.hyps(2)] by (simp add: runner_knows_frame [OF pg_timer_frame(2,1)])
  with ok show ?case by (rule world_ok_update)
next
  case (turned w i fault now db r)
  then have ok: "world_ok cfg w" by blast
  then have "pg_stored cfg (pw_db w)" by (simp add: world_ok_def)
  from pg_turn_ok [OF turned.prems this world_ok_runner [OF ok turned.hyps(2)] turned.hyps(3)]
  have t: "pg_stored cfg db" "runner_knows cfg (own_log cfg db) r" "\<exists>new. own_log cfg db = own_log cfg (pw_db w) @ new"
    by (auto simp: turn_ok_def)
  from t(3) obtain new where new: "own_log cfg db = own_log cfg (pw_db w) @ new" ..
  have "\<forall>q \<in> set (pw_runners w). runner_knows cfg (own_log cfg db) q"
    using ok unfolding new world_ok_def by (auto intro: runner_knows_extend)
  then show ?case using t(1,2) set_update_subset_insert [of "pw_runners w" i r] by (auto simp: world_ok_def)
next
  case (shared w db)
  then show ?case by (simp add: world_ok_def pg_other_def pg_stored_def)
qed

text \<open>
  C2. One history per entity. Let any number of incarnations of an entity run over one Postgres journal at the same time, in
  one or several processes, with commands, timers, faults of the connection and the work of other entities in any
  interleaving. The entity's events are always numbered 1, 2, 3 and so on without a gap; every incarnation
  that handles commands holds exactly the state after the first \<open>sequenceNr\<close> events; and a step that writes
  events extends the log by exactly that batch, and only when the incarnation's state was the state after the whole log:
  a decision taken on a stale state is never persisted.
\<close>

theorem pg_one_history:
  assumes "pg_world_run cfg w" "codec_contract (pgo_eventCodec cfg)" "codec_contract (pgo_stateCodec cfg)"
    and "i < length (pw_runners w)" "pg_turn cfg fault now (pw_db w) (pw_runners w ! i) = (db, r)"
  shows "numbered 0 (map fst (entity_log (pw_db w) (pg_entity cfg)))
    \<and> (\<forall>x. pgr_phase (pw_runners w ! i) = Handling x \<longrightarrow>
         pe_sequenceNr (pgr_est (pw_runners w ! i)) \<le> length (entity_log (pw_db w) (pg_entity cfg))
         \<and> pg_replay cfg (take (pe_sequenceNr (pgr_est (pw_runners w ! i))) (entity_log (pw_db w) (pg_entity cfg)))
             = Inr (pe_state (pgr_est (pw_runners w ! i))))
    \<and> (entity_log db (pg_entity cfg) = entity_log (pw_db w) (pg_entity cfg)
       \<or> (\<exists>events k a. pgr_phase (pw_runners w ! i) = Handling (Some (PgEff (Persist events k) a))
            \<and> entity_log db (pg_entity cfg) = entity_log (pw_db w) (pg_entity cfg)
                @ log_entries (pgo_eventCodec cfg) (length (entity_log (pw_db w) (pg_entity cfg))) events
            \<and> pg_replay cfg (entity_log (pw_db w) (pg_entity cfg)) = Inr (pe_state (pgr_est (pw_runners w ! i)))))"
proof -
  have lawful: "pg_lawful cfg" using assms(2,3) by (simp add: pg_lawful_def)
  note ok = pg_world_run_ok [OF assms(1) lawful]
  then have st: "pg_stored cfg (pw_db w)" by (simp add: world_ok_def)
  note knows = world_ok_runner [OF ok assms(4)]
  note t = pg_turn_ok [OF lawful st knows assms(5)]
  have num: "numbered 0 (map fst (own_log cfg (pw_db w)))" "numbered 0 (map fst (own_log cfg db))"
    using st t by (simp_all add: pg_stored_def turn_ok_def)
  have "pe_sequenceNr (pgr_est (pw_runners w ! i)) \<le> length (own_log cfg (pw_db w))
         \<and> pg_replay cfg (take (pe_sequenceNr (pgr_est (pw_runners w ! i))) (own_log cfg (pw_db w)))
             = Inr (pe_state (pgr_est (pw_runners w ! i)))"
    if "pgr_phase (pw_runners w ! i) = Handling x" for x
    using knows that by (simp add: runner_knows_def prefix_state_def)
  with t num(1) show ?thesis
    unfolding entity_log_raw [OF num(1)] entity_log_raw [OF num(2)] turn_ok_def by blast
qed

text \<open>A counter entity run by two processes: both recover, both decide, one of them writes.\<close>

definition pg_demo :: "(int, unit, int, int, unit, unit, int) pg_opts" where
  "pg_demo = \<lparr>pgo_aggregate = \<lparr>category = ''c'', initial = (\<lambda>_. 0), decide = (\<lambda>_ _ c. ([], Inr (Persist [c] Done))),
        apply_event = (\<lambda>s e. Inr (s + e)), onRecoveryComplete = None, snapshotEvery = Some 1\<rparr>,
      pgo_entityId = ''e'', pgo_eventCodec = objectCodec ''E'', pgo_stateCodec = objectCodec ''S'',
      pgo_sideEffect = (\<lambda>_ _. ([], None))\<rparr>"

datatype 'cmd world_act = Start | Send nat 'cmd | Turn nat

fun act_once :: "('cmd, 'r, 'ev, 's, 'fx, 'df, 'd) pg_opts \<Rightarrow> 'cmd world_act \<Rightarrow>
    ('cmd, 'r, 'ev, 's, 'fx, 'df, 'd) pg_world \<Rightarrow> ('cmd, 'r, 'ev, 's, 'fx, 'df, 'd) pg_world" where
  "act_once cfg Start w = w\<lparr>pw_runners := pw_runners w @ [createPgEntityRunner cfg 0]\<rparr>"
| "act_once cfg (Send i c) w = w\<lparr>pw_runners := (pw_runners w)[i := pg_offer (Tell c) (pw_runners w ! i)]\<rparr>"
| "act_once cfg (Turn i) w =
     (let x = pg_turn cfg NoFault 0 (pw_db w) (pw_runners w ! i) in \<lparr>pw_db = fst x, pw_runners = (pw_runners w)[i := snd x]\<rparr>)"

fun acts_on :: "nat \<Rightarrow> 'cmd world_act list \<Rightarrow> bool" where
  "acts_on n [] = True"
| "acts_on n (Start # xs) = acts_on (Suc n) xs"
| "acts_on n (Send i c # xs) = (i < n \<and> acts_on n xs)"
| "acts_on n (Turn i # xs) = (i < n \<and> acts_on n xs)"

lemma world_acts_run:
  "pg_world_run cfg w \<Longrightarrow> acts_on (length (pw_runners w)) xs \<Longrightarrow> pg_world_run cfg (fold (act_once cfg) xs w)"
proof (induction xs arbitrary: w)
  case (Cons x xs)
  have "pg_world_run cfg (act_once cfg x w) \<and> acts_on (length (pw_runners (act_once cfg x w))) xs"
    using Cons.prems by (cases x) (auto simp: Let_def intro: pg_world_run.intros)
  with Cons.IH show ?case by simp
qed simp

definition demo_split :: "(int, unit, int, int, unit, unit, int) pg_world" where
  "demo_split = fold (act_once pg_demo) ([Start, Start] @ replicate 3 (Turn 0) @ replicate 3 (Turn 1)
     @ [Send 0 5, Send 1 7, Turn 0, Turn 0, Turn 1, Turn 1, Turn 0]) \<lparr>pw_db = pg_empty, pw_runners = []\<rparr>"

lemma demo_split_run: "pg_world_run pg_demo demo_split"
  unfolding demo_split_def by (rule world_acts_run [OF pg_world_run.begun]) code_simp

lemma pg_demo_codecs: "codec_contract (pgo_eventCodec pg_demo)" "codec_contract (pgo_stateCodec pg_demo)"
  by (simp_all add: pg_demo_def object_codec.codec_contract_axioms)

theorem pg_one_history_witness:
  "entity_log (pw_db demo_split) ''c|e'' = [(1, ''E'', 5)] \<and> numbered 0 (map fst (entity_log (pw_db demo_split) ''c|e''))
   \<and> pgr_phase (snd (pg_turn pg_demo NoFault 0 (pw_db demo_split) (pw_runners demo_split ! 1)))
       = Rejected (DuplicateSequenceNrError ''c'' ''e'' 1)"
proof -
  have e: "pg_entity pg_demo = ''c|e''" by code_simp
  have "length (pw_runners demo_split) = 2" by code_simp
  then have i: "1 < length (pw_runners demo_split)" by simp
  obtain db r where "pg_turn pg_demo NoFault 0 (pw_db demo_split) (pw_runners demo_split ! 1) = (db, r)" by fastforce
  from pg_one_history [OF demo_split_run pg_demo_codecs i this]
  have "numbered 0 (map fst (entity_log (pw_db demo_split) ''c|e''))" unfolding e by blast
  moreover have "entity_log (pw_db demo_split) ''c|e'' = [(1, ''E'', 5)]" by code_simp
  moreover have "pgr_phase (snd (pg_turn pg_demo NoFault 0 (pw_db demo_split) (pw_runners demo_split ! 1)))
       = Rejected (DuplicateSequenceNrError ''c'' ''e'' 1)" by code_simp
  ultimately show ?thesis by blast
qed

text \<open>
  C3. Crash consistency over Postgres: at any moment of such a run, an incarnation that starts and reads the tables, with or
  without snapshots in them, holds the state after all events of the log, or fails as the replay fails.
\<close>

theorem pg_recovery_is_replay:
  assumes "pg_world_run cfg w" "codec_contract (pgo_eventCodec cfg)" "codec_contract (pgo_stateCodec cfg)"
  shows "\<exists>r. pg_turn cfg NoFault t1 (pw_db w) (createPgEntityRunner cfg n) = (pw_db w, r)
    \<and> (\<exists>r'. pg_turn cfg NoFault t2 (pw_db w) r = (pw_db w, r')
         \<and> (case pg_replay cfg (entity_log (pw_db w) (pg_entity cfg)) of
              Inl e \<Rightarrow> pgr_phase r' = Rejected e
            | Inr s \<Rightarrow> pgr_phase r' = RecoveryHook \<and> pe_state (pgr_est r') = s
                \<and> pe_sequenceNr (pgr_est r') = length (entity_log (pw_db w) (pg_entity cfg))))"
proof -
  have "pg_lawful cfg" using assms(2,3) by (simp add: pg_lawful_def)
  from pg_world_run_ok [OF assms(1) this] have st: "pg_stored cfg (pw_db w)" by (simp add: world_ok_def)
  then have num: "numbered 0 (map fst (own_log cfg (pw_db w)))" by (simp add: pg_stored_def)
  from load_snapshot_ok [OF st] obtain snap where
    snap: "loadSnapshotAsync (pw_db w) (pg_category cfg) (pgo_entityId cfg) (pgo_stateCodec cfg) = Inr snap"
    "case snap of None \<Rightarrow> True | Some (n, s) \<Rightarrow> prefix_state cfg (own_log cfg (pw_db w)) n s" by blast
  let ?r = "(createPgEntityRunner cfg n)\<lparr>pgr_phase := LoadingEvents snap\<rparr>"
  have "pg_turn cfg NoFault t1 (pw_db w) (createPgEntityRunner cfg n) = (pw_db w, ?r)"
    using snap(1) by (simp add: pg_turn_def createPgEntityRunner_def)
  moreover have "pg_turn cfg NoFault t2 (pw_db w) ?r = (pw_db w, pg_recover_events cfg snap (pw_db w) ?r)"
    by (simp add: pg_turn_def)
  ultimately show ?thesis
    unfolding recover_events_ok [OF st snap(2)] entity_log_raw [OF num] by (auto simp: frames split: sum.splits)
qed


theorem pg_recovery_is_replay_witness:
  "\<exists>r r'. pg_turn pg_demo NoFault 0 (pw_db demo_split) (createPgEntityRunner pg_demo 0) = (pw_db demo_split, r)
     \<and> pg_turn pg_demo NoFault 0 (pw_db demo_split) r = (pw_db demo_split, r')
     \<and> pgr_phase r' = RecoveryHook \<and> pe_state (pgr_est r') = 5 \<and> pe_sequenceNr (pgr_est r') = 1"
proof -
  have e: "pg_entity pg_demo = ''c|e''" and lg: "entity_log (pw_db demo_split) ''c|e'' = [(1, ''E'', 5)]"
    and rep: "pg_replay pg_demo [(1, ''E'', 5)] = Inr 5" by code_simp+
  from pg_recovery_is_replay [OF demo_split_run pg_demo_codecs, of 0 0 0] show ?thesis unfolding e lg rep by auto
qed

section \<open>What the runner does not do\<close>

text \<open>
  A deferred reply is dropped: the asker gets no answer, whatever completes the deferred later. A stash keeps the
  command without its asker. A snapshot that the state codec no longer decodes ends every start, where the in-memory
  runner falls back to the events. A runner that has ended takes no message any more.
\<close>

lemma deferred_reply_dropped:
  "snd (pg_executeEffect cfg fault now (ReplyDeferred d) (Some a) db r) = handled r"
  by simp

lemma stash_forgets_asker:
  assumes "decide (pgo_aggregate cfg) (pgr_calls r) (pe_state (pgr_est r)) c = ([], Inr Stash)"
  shows "pg_processCommand cfg c (Some a) r = pg_processCommand cfg c None r"
  using assms by (simp add: pg_processCommand_def)

lemma undecodable_snapshot_ends_start:
  assumes "latest_snapshot db (pg_entity cfg) = Some sn" "decode (pgo_stateCodec cfg) (ps_manifest sn) (ps_state sn) = Inl e"
  shows "\<exists>err. pgr_phase (snd (pg_turn cfg NoFault now db (createPgEntityRunner cfg n))) = Rejected err"
  using assms by (simp add: pg_turn_def createPgEntityRunner_def loadSnapshotAsync_def frames)

lemma ended_runner_is_deaf:
  assumes "pgr_phase r = Returned \<or> pgr_phase r = Rejected e"
  shows "pg_turn cfg fault now db (pg_offer m r) = (db, pg_offer m r)"
  using assms by (auto simp: pg_turn_def frames)

end
