(* ===== verification/Pg_Read.thy ===== *)
theory Pg_Read
  imports Pg_Recovery "HOL-Library.List_Lexorder" "HOL-Library.Char_ord"
begin

text \<open>
  The other queries over the Postgres tables: \<open>postgres/read-journal.ts\<close>, \<open>clean-journal.ts\<close>, the listing and retention
  functions of \<open>journal.ts\<close>, and \<open>retry.ts\<close>. Texts are ordered by their characters (the C collation).
\<close>

section \<open>Identifiers\<close>

definition text_min :: "string list \<Rightarrow> string" where
  "text_min ps = fold min (tl ps) (hd ps)"

lemma text_min_Min: "ps \<noteq> [] \<Longrightarrow> text_min ps = Min (set ps)"
  by (cases ps) (simp_all add: text_min_def Min.set_eq_fold del: list.set)

lemma text_min_in: "ps \<noteq> [] \<Longrightarrow> text_min ps \<in> set ps"
  by (simp add: text_min_Min)

lemma text_min_le: "q \<in> set ps \<Longrightarrow> text_min ps \<le> q"
  by (cases "ps = []") (simp_all add: text_min_Min)

lemma none_above: "filter (\<lambda>q. p < q) ps = [] \<longleftrightarrow> {q \<in> set ps. p < q} = {}" for p :: string
  by (auto simp: filter_empty_conv)

text \<open>The recursive query: from one identifier to the least one above it.\<close>

function skip_from :: "string list \<Rightarrow> string \<Rightarrow> string list" where
  "skip_from ps p = (let above = filter (\<lambda>q. p < q) ps in if above = [] then [p] else p # skip_from ps (text_min above))"
  by pat_completeness auto
termination
proof (relation "measure (\<lambda>(ps, p). length (filter (\<lambda>q. p < q) ps))", goal_cases)
  case (2 ps p above)
  let ?above = "filter (\<lambda>q. p < q) ps"
  from 2 have ne: "?above \<noteq> []" by blast
  let ?m = "text_min ?above"
  have m: "?m \<in> set ?above" using ne by (rule text_min_in)
  then have "p < ?m" by simp
  then have "filter (\<lambda>q. ?m < q) ps = filter (\<lambda>q. ?m < q) ?above" by (auto intro: filter_cong simp: filter_filter)
  moreover have "length (filter (\<lambda>q. ?m < q) ?above) < length ?above" using m by (intro length_filter_less [of ?m]) simp_all
  ultimately show ?case using 2 by simp
qed simp

declare skip_from.simps [simp del]

definition skip_scan :: "string list \<Rightarrow> string list" where
  "skip_scan ps = (if ps = [] then [] else skip_from ps (text_min ps))"

definition pids :: "'d pg_db \<Rightarrow> string list" where
  "pids db = map pg_pid (pg_rows db)"

definition fetchIds :: "int option \<Rightarrow> 'd pg_db \<Rightarrow> string list" where
  "fetchIds since db =
     (case since of
        Some t \<Rightarrow> sort (remdups (map pg_pid (filter (\<lambda>r. t < pg_time r) (pg_rows db))))
      | None \<Rightarrow> sort (skip_scan (pids db)))"

definition streamIds :: "'d pg_db \<Rightarrow> string list" where
  "streamIds db = sort (skip_scan (pids db))"

definition fetchPersistenceIds :: "'d pg_db \<Rightarrow> string list" where
  "fetchPersistenceIds db = sort (remdups (pids db))"

lemma skip_from_above: "set (skip_from ps p) = insert p {q \<in> set ps. p < q} \<and> sorted (skip_from ps p) \<and> distinct (skip_from ps p)"
proof (induction ps p rule: skip_from.induct)
  case (1 ps p)
  let ?above = "filter (\<lambda>q. p < q) ps"
  show ?case
  proof (cases "?above = []")
    case True
    then have "{q \<in> set ps. p < q} = {}" unfolding none_above .
    with True show ?thesis by (simp only: skip_from.simps [of ps p] Let_def) simp
  next
    case False
    let ?m = "text_min ?above"
    from 1 [OF refl False] have IH: "set (skip_from ps ?m) = insert ?m {q \<in> set ps. ?m < q}" "sorted (skip_from ps ?m)"
      "distinct (skip_from ps ?m)" by blast+
    have m: "?m \<in> set ?above" "\<forall>q \<in> set ?above. ?m \<le> q"
      using text_min_in [OF False] text_min_le by blast+
    then have "insert ?m {q \<in> set ps. ?m < q} = {q \<in> set ps. p < q}"
      by (auto simp: order_le_less intro: less_trans)
    with IH False show ?thesis
      by (subst (1 2 3) skip_from.simps) (auto simp: Let_def intro: less_imp_le)
  qed
qed

text \<open>
  The skip scan is correct: jumping from one persistence id to the least id above it ends, and lists exactly what the plain
  \<open>SELECT DISTINCT \<dots> ORDER BY\<close> of \<open>fetchPersistenceIds\<close> does: every id of the table once, in order.
\<close>

lemma skip_scan_is_distinct:
  "fetchIds None db = fetchPersistenceIds db \<and> streamIds db = fetchPersistenceIds db
   \<and> skip_scan (pids db) = sorted_list_of_set (pg_pid ` set (pg_rows db))"
proof -
  have "set (skip_scan ps) = set ps \<and> sorted (skip_scan ps) \<and> distinct (skip_scan ps)" for ps
  proof (cases "ps = []")
    case False
    have "text_min ps \<in> set ps" "\<forall>q \<in> set ps. text_min ps \<le> q"
      using text_min_in [OF False] text_min_le by blast+
    then show ?thesis using skip_from_above [of ps "text_min ps"] False by (auto simp: skip_scan_def order_le_less)
  qed (simp add: skip_scan_def)
  then have "skip_scan (pids db) = sorted_list_of_set (set (pids db))" "sort (skip_scan (pids db)) = skip_scan (pids db)"
    by (auto intro: sorted_distinct_set_unique simp: sorted_sort_id)
  moreover have "sort (remdups (pids db)) = sorted_list_of_set (set (pids db))"
    by (simp add: sorted_list_of_set_sort_remdups)
  moreover have "set (pids db) = pg_pid ` set (pg_rows db)" by (simp add: pids_def)
  ultimately show ?thesis by (simp add: fetchIds_def streamIds_def fetchPersistenceIds_def)
qed

section \<open>The read journal\<close>

definition lastOrdinal :: "string \<Rightarrow> 'd pg_db \<Rightarrow> nat" where
  "lastOrdinal pid db = fold max (map pg_seq (filter (\<lambda>r. pg_pid r = pid) (pg_rows db))) 0"

definition highestSequenceNr :: "string \<Rightarrow> string \<Rightarrow> 'd pg_db \<Rightarrow> nat" where
  "highestSequenceNr c e db = lastOrdinal (persistenceId c e) db"

text \<open>The lower bound is inclusive and the upper one is not, unlike in \<open>loadEventsAsync\<close>.\<close>

definition rj_events :: "('e, 'd) codec \<Rightarrow> string \<Rightarrow> nat \<Rightarrow> nat option \<Rightarrow> 'd pg_db \<Rightarrow> js_error + (nat \<times> 'e) list" where
  "rj_events codec pid from_seq to_seq db =
     decode_log codec (filter (\<lambda>x. from_seq \<le> fst x \<and> (case to_seq of None \<Rightarrow> True | Some n \<Rightarrow> fst x < n)) (entity_log db pid))"

definition rj_loadSnapshot :: "('s, 'd) codec \<Rightarrow> string \<Rightarrow> 'd pg_db \<Rightarrow> js_error + ('s \<times> nat \<times> int) option" where
  "rj_loadSnapshot codec pid db =
     (case latest_snapshot db pid of
        None \<Rightarrow> Inr None
      | Some r \<Rightarrow> (case decode codec (ps_manifest r) (ps_state r) of Inl e \<Rightarrow> Inl e | Inr s \<Rightarrow> Inr (Some (s, ps_seq r, ps_time r))))"

definition eventsWithSnapshot ::
  "('e, 'd) codec \<Rightarrow> ('s, 'd) codec \<Rightarrow> string \<Rightarrow> 'd pg_db \<Rightarrow> js_error + ('s \<times> nat \<times> int) option \<times> (nat \<times> 'e) list" where
  "eventsWithSnapshot evCodec stateCodec pid db =
     (case rj_loadSnapshot stateCodec pid db of
        Inl e \<Rightarrow> Inl e
      | Inr snap \<Rightarrow>
          (case rj_events evCodec pid (case snap of None \<Rightarrow> 1 | Some (s, n, t) \<Rightarrow> n + 1) None db of
             Inl e \<Rightarrow> Inl e | Inr es \<Rightarrow> Inr (snap, es)))"

section \<open>Retention\<close>

definition keep_rows :: "('d pg_row \<Rightarrow> bool) \<Rightarrow> 'd pg_db \<Rightarrow> nat \<times> 'd pg_db" where
  "keep_rows P db = (length (filter (\<lambda>r. \<not> P r) (pg_rows db)), db\<lparr>pg_rows := filter P (pg_rows db)\<rparr>)"

definition keep_snaps :: "('d pg_snapshot \<Rightarrow> bool) \<Rightarrow> 'd pg_db \<Rightarrow> nat \<times> 'd pg_db" where
  "keep_snaps P db = (length (filter (\<lambda>r. \<not> P r) (pg_snaps db)), db\<lparr>pg_snaps := filter P (pg_snaps db)\<rparr>)"

definition deleteEvents :: "string \<Rightarrow> string \<Rightarrow> nat \<Rightarrow> 'd pg_db \<Rightarrow> 'd pg_db" where
  "deleteEvents c e n db = snd (keep_rows (\<lambda>r. \<not> (pg_pid r = persistenceId c e \<and> pg_seq r \<le> n)) db)"

definition deleteSnapshots :: "string \<Rightarrow> string \<Rightarrow> nat \<Rightarrow> 'd pg_db \<Rightarrow> 'd pg_db" where
  "deleteSnapshots c e n db = snd (keep_snaps (\<lambda>r. \<not> (ps_pid r = persistenceId c e \<and> ps_seq r < n)) db)"

definition clean_events :: "string \<Rightarrow> 'd pg_db \<Rightarrow> nat \<times> 'd pg_db" where
  "clean_events pid db = keep_rows (\<lambda>r. pg_pid r \<noteq> pid) db"

definition clean_events_to :: "string \<Rightarrow> nat \<Rightarrow> 'd pg_db \<Rightarrow> nat \<times> 'd pg_db" where
  "clean_events_to pid n db = keep_rows (\<lambda>r. \<not> (pg_pid r = pid \<and> pg_seq r \<le> n)) db"

definition clean_events_before :: "string \<Rightarrow> int \<Rightarrow> 'd pg_db \<Rightarrow> nat \<times> 'd pg_db" where
  "clean_events_before pid t db = keep_rows (\<lambda>r. \<not> (pg_pid r = pid \<and> pg_time r < t)) db"

definition clean_snapshots :: "string \<Rightarrow> 'd pg_db \<Rightarrow> nat \<times> 'd pg_db" where
  "clean_snapshots pid db = keep_snaps (\<lambda>r. ps_pid r \<noteq> pid) db"

definition clean_snapshots_to :: "string \<Rightarrow> nat \<Rightarrow> 'd pg_db \<Rightarrow> nat \<times> 'd pg_db" where
  "clean_snapshots_to pid n db = keep_snaps (\<lambda>r. \<not> (ps_pid r = pid \<and> ps_seq r \<le> n)) db"

definition clean_all :: "string \<Rightarrow> 'd pg_db \<Rightarrow> (nat \<times> nat) \<times> 'd pg_db" where
  "clean_all pid db = (case clean_events pid db of (a, db1) \<Rightarrow> case clean_snapshots pid db1 of (b, db2) \<Rightarrow> ((a, b), db2))"

lemma keep_rows_snaps [simp]: "pg_snaps (snd (keep_rows P db)) = pg_snaps db" "pg_rows (snd (keep_snaps Q db)) = pg_rows db"
  by (simp_all add: keep_rows_def keep_snaps_def)

lemma entity_log_trimmed:
  "entity_log (deleteEvents c e n db) (persistenceId c e) = filter (\<lambda>x. n < fst x) (entity_log db (persistenceId c e))"
proof -
  have "filter (\<lambda>x. n < fst x) (entity_log db (persistenceId c e)) = map row_entry (filter (\<lambda>r. n < pg_seq r) (entity_rows db (persistenceId c e)))"
    by (simp add: entity_log_def filter_map comp_def)
  also have "filter (\<lambda>r. n < pg_seq r) (entity_rows db (persistenceId c e)) = entity_rows (deleteEvents c e n db) (persistenceId c e)"
    unfolding entity_rows_def filter_sort
    by (rule arg_cong [where f = "sort_key pg_seq"]) (auto simp: deleteEvents_def keep_rows_def intro: filter_cong)
  finally show ?thesis by (simp add: entity_log_def)
qed

lemma load_trimmed:
  fixes db :: "'b pg_db"
  assumes "m \<le> from_seq"
  shows "loadEventsAsync (deleteEvents c e m db) c e from_seq codec b = loadEventsAsync db c e from_seq codec b"
proof -
  have "filter (\<lambda>x. m < fst x \<and> from_seq < fst x \<and> Q x) lg = filter (\<lambda>x. from_seq < fst x \<and> Q x) lg"
    for Q and lg :: "'b log_entry list"
    by (rule filter_cong) (use assms in auto)
  then show ?thesis by (simp add: loadEventsAsync_def entity_log_trimmed)
qed

lemma latest_snapshot_kept:
  assumes "latest_snapshot db (persistenceId c e) = Some sn" "k \<le> ps_seq sn"
  shows "latest_snapshot (deleteSnapshots c e k db) (persistenceId c e) = Some sn"
proof -
  let ?pid = "persistenceId c e" and ?P = "\<lambda>r. k \<le> ps_seq r"
  let ?all = "sort_key ps_seq (filter (\<lambda>s. ps_pid s = ?pid) (pg_snaps db))"
  have "filter (\<lambda>s. ps_pid s = ?pid) (pg_snaps (deleteSnapshots c e k db)) = filter ?P (filter (\<lambda>s. ps_pid s = ?pid) (pg_snaps db))"
    by (auto simp: deleteSnapshots_def keep_snaps_def intro: filter_cong)
  then have "sort_key ps_seq (filter (\<lambda>s. ps_pid s = ?pid) (pg_snaps (deleteSnapshots c e k db))) = filter ?P ?all"
    by (simp only: filter_sort)
  moreover obtain rest where "rev ?all = sn # rest"
    using assms(1) unfolding latest_snapshot_def by (cases "rev ?all") simp_all
  then have "rev (filter ?P ?all) = sn # filter ?P rest" using assms(2) by (simp only: rev_filter) simp
  ultimately show ?thesis by (simp add: latest_snapshot_def)
qed

text \<open>
  C13. Retention never costs the state: deleting the events up to a number and the snapshots below a number, where neither exceeds
  the latest snapshot's number, leaves every recovery exactly as it was, step by step.
\<close>

theorem pg_retention_keeps_recovery:
  assumes "latest_snapshot db (pg_entity cfg) = Some sn" "m \<le> ps_seq sn" "k \<le> ps_seq sn"
    and "db' = deleteSnapshots (pg_category cfg) (pgo_entityId cfg) k (deleteEvents (pg_category cfg) (pgo_entityId cfg) m db)"
    and "r = snd (pg_turn cfg NoFault t1 db (createPgEntityRunner cfg n))"
  shows "snd (pg_turn cfg NoFault t1 db' (createPgEntityRunner cfg n)) = r
    \<and> snd (pg_turn cfg NoFault t2 db' r) = snd (pg_turn cfg NoFault t2 db r)"
proof -
  let ?c = "pg_category cfg" and ?e = "pgo_entityId cfg"
  have "latest_snapshot (deleteEvents ?c ?e m db) (pg_entity cfg) = Some sn"
    using assms(1) by (simp add: latest_snapshot_def deleteEvents_def)
  from latest_snapshot_kept [OF this assms(3)] have sn: "latest_snapshot db' (pg_entity cfg) = Some sn"
    by (simp add: assms(4))
  have same: "loadSnapshotAsync db' ?c ?e (pgo_stateCodec cfg) = loadSnapshotAsync db ?c ?e (pgo_stateCodec cfg)"
    by (simp add: loadSnapshotAsync_def sn assms(1))
  have lg: "entity_log db' pid = entity_log (deleteEvents ?c ?e m db) pid" for pid
    by (simp add: assms(4) entity_log_def entity_rows_def deleteSnapshots_def)
  have load: "loadEventsAsync db' ?c ?e (ps_seq sn) (pgo_eventCodec cfg) None = loadEventsAsync db ?c ?e (ps_seq sn) (pgo_eventCodec cfg) None"
    using load_trimmed [OF assms(2), of ?c ?e db "pgo_eventCodec cfg" None] by (simp add: loadEventsAsync_def lg)
  have first: "snd (pg_turn cfg NoFault t1 db' (createPgEntityRunner cfg n)) = r"
    by (simp add: assms(5) pg_turn_def createPgEntityRunner_def same)
  have "pg_turn cfg NoFault t2 db' r = (db', snd (pg_turn cfg NoFault t2 db r))"
  proof (cases "decode (pgo_stateCodec cfg) (ps_manifest sn) (ps_state sn)")
    case (Inl err)
    then show ?thesis
      by (simp add: assms(5) pg_turn_def createPgEntityRunner_def loadSnapshotAsync_def assms(1) frames)
  next
    case (Inr s)
    then have "pgr_phase r = LoadingEvents (Some (ps_seq sn, s))"
      by (simp add: assms(5) pg_turn_def createPgEntityRunner_def loadSnapshotAsync_def assms(1))
    then show ?thesis by (simp add: pg_turn_def pg_recover_events_def load)
  qed
  with first show ?thesis by simp
qed

theorem pg_retention_keeps_recovery_witness:
  "\<exists>r. snd (pg_turn pg_demo NoFault 0 (deleteSnapshots ''c'' ''e'' 1 (deleteEvents ''c'' ''e'' 1 (pw_db (act_once pg_demo (Turn 0) demo_split)))) r)
     = snd (pg_turn pg_demo NoFault 0 (pw_db (act_once pg_demo (Turn 0) demo_split)) r)
     \<and> pe_state (pgr_est (snd (pg_turn pg_demo NoFault 0 (pw_db (act_once pg_demo (Turn 0) demo_split)) r))) = 5"
proof -
  let ?db = "pw_db (act_once pg_demo (Turn 0) demo_split)"
  have "case latest_snapshot ?db (pg_entity pg_demo) of None \<Rightarrow> False | Some sn \<Rightarrow> ps_seq sn = 1" by code_simp
  then obtain sn where sn: "latest_snapshot ?db (pg_entity pg_demo) = Some sn" "ps_seq sn = 1"
    by (auto split: option.splits)
  have c: "pg_category pg_demo = ''c''" "pgo_entityId pg_demo = ''e''" by (simp_all add: pg_demo_def)
  let ?r = "snd (pg_turn pg_demo NoFault 0 ?db (createPgEntityRunner pg_demo 0))"
  have "pe_state (pgr_est (snd (pg_turn pg_demo NoFault 0 ?db ?r))) = 5" by code_simp
  with pg_retention_keeps_recovery [OF sn(1), of 1 1, OF _ _ refl refl, of 0 0 0] sn(2) show ?thesis unfolding c by auto
qed

text \<open>The highest number is forgotten with the events: it is zero when all of them have been trimmed.\<close>

lemma highest_forgotten:
  assumes "\<forall>r \<in> set (pg_rows db). pg_pid r = persistenceId c e \<longrightarrow> pg_seq r \<le> n"
  shows "highestSequenceNr c e (deleteEvents c e n db) = 0"
proof -
  have "filter (\<lambda>r. pg_pid r = persistenceId c e) (pg_rows (deleteEvents c e n db)) = []"
    using assms by (auto simp: deleteEvents_def keep_rows_def filter_empty_conv)
  then show ?thesis by (simp add: highestSequenceNr_def lastOrdinal_def)
qed

section \<open>Retries\<close>

record pg_retry =
  maxRetries :: nat
  initialDelayMs :: rat
  maxDelayMs :: rat
  backoffMultiplier :: rat

definition defaultRetryConfig :: pg_retry where
  "defaultRetryConfig = \<lparr>maxRetries = 3, initialDelayMs = 100, maxDelayMs = 5000, backoffMultiplier = 2\<rparr>"

definition isTransientError :: "js_error \<Rightarrow> bool" where
  "isTransientError e =
     list_ex (str_includes (map ascii_lower (error_message e @ error_cause e)))
       [''connection'', ''socket'', ''timeout'', ''closed'', ''reset'', ''broken pipe'', ''pool'', ''econnrefused'']"

text \<open>The loop from an attempt on; \<open>f k\<close> is what the call of attempt \<open>k\<close> gives. The result comes with the delays slept.\<close>

function retry_loop :: "pg_retry \<Rightarrow> (nat \<Rightarrow> js_error + 'a) \<Rightarrow> nat \<Rightarrow> rat \<Rightarrow> (js_error + 'a) \<times> rat list" where
  "retry_loop cfg f k delay =
     (case f k of
        Inr v \<Rightarrow> (Inr v, [])
      | Inl e \<Rightarrow>
          (if maxRetries cfg \<le> k \<or> \<not> isTransientError e then (Inl e, [])
           else (case retry_loop cfg f (Suc k) (min (delay * backoffMultiplier cfg) (maxDelayMs cfg)) of
                   (r, ds) \<Rightarrow> (r, delay # ds))))"
  by pat_completeness auto
termination
  by (relation "measure (\<lambda>(cfg, f, k, d). maxRetries cfg - k)") auto

declare retry_loop.simps [simp del]

definition withRetry :: "pg_retry \<Rightarrow> (nat \<Rightarrow> js_error + 'a) \<Rightarrow> (js_error + 'a) \<times> rat list" where
  "withRetry cfg f = retry_loop cfg f 0 (initialDelayMs cfg)"

text \<open>
  The result is that of the last call; every call before it failed with a transient error and was followed by a delay
  of at most the maximum, the first of at most the initial delay; there are at most \<open>maxRetries\<close> delays, and a
  transient failure is returned only when they are used up.
\<close>

lemma retry_loop_spec:
  assumes "retry_loop cfg f k d = (r, ds)" "k \<le> maxRetries cfg" "d \<le> c" "maxDelayMs cfg \<le> c"
  shows "r = f (k + length ds) \<and> k + length ds \<le> maxRetries cfg \<and> (\<forall>x \<in> set ds. x \<le> c)
    \<and> (\<forall>i < length ds. \<exists>e. f (k + i) = Inl e \<and> isTransientError e)
    \<and> (\<forall>e. r = Inl e \<longrightarrow> isTransientError e \<longrightarrow> k + length ds = maxRetries cfg)"
  using assms
proof (induction cfg f k d arbitrary: r ds rule: retry_loop.induct)
  case (1 cfg f k d)
  show ?case
  proof (cases "f k")
    case (Inr v)
    with "1.prems" show ?thesis by (auto simp: retry_loop.simps [of cfg f k d])
  next
    case (Inl e)
    show ?thesis
    proof (cases "maxRetries cfg \<le> k \<or> \<not> isTransientError e")
      case True
      with Inl "1.prems" show ?thesis by (auto simp: retry_loop.simps [of cfg f k d])
    next
      case False
      let ?d = "min (d * backoffMultiplier cfg) (maxDelayMs cfg)"
      obtain ds' where ds: "retry_loop cfg f (Suc k) ?d = (r, ds')" "ds = d # ds'"
        using "1.prems"(1) Inl False by (auto simp: retry_loop.simps [of cfg f k d] split: prod.splits)
      have "Suc k \<le> maxRetries cfg" "?d \<le> c" using False "1.prems"(4) by (auto intro: min.coboundedI2)
      from "1.IH" [OF Inl False ds(1) this "1.prems"(4)] show ?thesis
        using Inl False "1.prems"(3) by (auto simp: ds(2) less_Suc_eq_0_disj)
    qed
  qed
qed

lemma withRetry_bounds:
  "withRetry cfg f = (r, ds) \<Longrightarrow> length ds \<le> maxRetries cfg \<and> (\<forall>x \<in> set ds. x \<le> max (initialDelayMs cfg) (maxDelayMs cfg))
     \<and> r = f (length ds)"
  using retry_loop_spec [of cfg f 0 "initialDelayMs cfg" r ds "max (initialDelayMs cfg) (maxDelayMs cfg)"]
  by (auto simp: withRetry_def)

end
