(* ===== verification/Replay_Verifier.thy ===== *)
theory Replay_Verifier
  imports Prelude
begin

text \<open>
  Verification of invariants by replay: \<open>core/invariant.ts\<close> and \<open>core/journal-replay-verifier.ts\<close>. \<open>JSON.stringify\<close> is the
  argument \<open>json\<close>, the stream of a read journal is the list of what it delivers and the error it ends with, if any.
\<close>

section \<open>Invariants\<close>

record 's named_invariant =
  iv_name :: string
  iv_check :: "'s \<Rightarrow> js_error + bool"

record violation =
  vi_name :: string
  vi_aggregateId :: string
  vi_sequenceNr :: int
  vi_stateSnippet :: string

definition SNIPPET_MAX :: nat where
  "SNIPPET_MAX = 200"

definition snippetOf :: "('s \<Rightarrow> string) \<Rightarrow> 's \<Rightarrow> string" where
  "snippetOf json state =
     (let s = json state in if length s \<le> SNIPPET_MAX then s else take (SNIPPET_MAX - 3) s @ ''...'')"

text \<open>A check that throws counts as failed.\<close>

definition holds_in :: "'s named_invariant \<Rightarrow> 's \<Rightarrow> bool" where
  "holds_in iv state = (case iv_check iv state of Inl e \<Rightarrow> False | Inr ok \<Rightarrow> ok)"

fun checkInvariants :: "('s \<Rightarrow> string) \<Rightarrow> 's named_invariant list \<Rightarrow> 's \<Rightarrow> string \<Rightarrow> int \<Rightarrow> violation list" where
  "checkInvariants json [] state i n = []"
| "checkInvariants json (iv # invs) state i n =
     (if holds_in iv state then []
      else [\<lparr>vi_name = iv_name iv, vi_aggregateId = i, vi_sequenceNr = n, vi_stateSnippet = snippetOf json state\<rparr>])
     @ checkInvariants json invs state i n"

lemma checkInvariants_eq:
  "checkInvariants json invs state i n =
     map (\<lambda>iv. \<lparr>vi_name = iv_name iv, vi_aggregateId = i, vi_sequenceNr = n, vi_stateSnippet = snippetOf json state\<rparr>)
       (filter (\<lambda>iv. \<not> holds_in iv state) invs)"
  by (induction invs) simp_all

lemma checkInvariants_none: "checkInvariants json invs state i n = [] \<longleftrightarrow> list_all (\<lambda>iv. holds_in iv state) invs"
  by (auto simp: checkInvariants_eq filter_empty_conv list_all_iff)

lemma snippet_bounded: "length (snippetOf json s) \<le> SNIPPET_MAX"
  by (simp add: snippetOf_def Let_def SNIPPET_MAX_def)

section \<open>One entity\<close>

record ('e, 's) subject =
  sj_initial :: "string \<Rightarrow> 's"
  sj_apply :: "'s \<Rightarrow> 'e \<Rightarrow> js_error + 's"
  sj_invariants :: "'s named_invariant list option"

record 's verification =
  ve_aggregateId :: string
  ve_eventsProcessed :: nat
  ve_violations :: "violation list"
  ve_finalState :: 's
  ve_isValid :: bool

type_synonym ('e, 'o) stream_read = "('e \<times> 'o) list \<times> js_error option"

text \<open>The loop over the events, with the state, the number of events and the violations so far.\<close>

fun verify_loop ::
  "('s \<Rightarrow> string) \<Rightarrow> ('s \<Rightarrow> 'e \<Rightarrow> js_error + 's) \<Rightarrow> 's named_invariant list \<Rightarrow> string \<Rightarrow> ('e \<times> int) list \<Rightarrow>
   's \<times> nat \<times> violation list \<Rightarrow> js_error + 's \<times> nat \<times> violation list" where
  "verify_loop json app invs i [] acc = Inr acc"
| "verify_loop json app invs i ((e, seq) # es) (s, n, vs) =
     (case app s e of
        Inl err \<Rightarrow> Inl err
      | Inr s' \<Rightarrow> verify_loop json app invs i es (s', n + 1, vs @ checkInvariants json invs s' i seq))"

definition verification_of :: "string \<Rightarrow> 's \<times> nat \<times> violation list \<Rightarrow> 's verification" where
  "verification_of i acc =
     \<lparr>ve_aggregateId = i, ve_eventsProcessed = fst (snd acc), ve_violations = snd (snd acc), ve_finalState = fst acc,
      ve_isValid = (snd (snd acc) = [])\<rparr>"

text \<open>
  What both entry points are given; \<open>formatId\<close> and \<open>ordinalToSeq\<close> are total, as their defaults are. \<open>vo_asString\<close> is the test
  \<open>typeof id === "string"\<close> on the persistence ids of the journal.
\<close>

record ('p, 'e, 'o, 's) verify_opts =
  vo_events :: "'p \<Rightarrow> 'o \<Rightarrow> 'o option \<Rightarrow> ('e, 'o) stream_read"
  vo_subject :: "('e, 's) subject"
  vo_fromOrdinal :: 'o
  vo_toOrdinal :: "'o option"
  vo_invariants :: "'s named_invariant list option"
  vo_formatId :: "'p \<Rightarrow> string"
  vo_asString :: "'p \<Rightarrow> string option"
  vo_ordinalToSeq :: "'o \<Rightarrow> int"

definition chosen_invariants :: "'s named_invariant list option \<Rightarrow> ('e, 's) subject \<Rightarrow> 's named_invariant list" where
  "chosen_invariants own sj =
     (case own of Some invs \<Rightarrow> invs | None \<Rightarrow> (case sj_invariants sj of Some invs \<Rightarrow> invs | None \<Rightarrow> []))"

text \<open>The id that the initial state is made from: a persistence id that is a string as it is, any other one formatted.\<close>

definition initialIdParam :: "('p, 'e, 'o, 's) verify_opts \<Rightarrow> 'p \<Rightarrow> string" where
  "initialIdParam opts pid = (case vo_asString opts pid of Some s \<Rightarrow> s | None \<Rightarrow> vo_formatId opts pid)"

definition verifyEntity :: "('s \<Rightarrow> string) \<Rightarrow> ('p, 'e, 'o, 's) verify_opts \<Rightarrow> 'p \<Rightarrow> js_error + 's verification" where
  "verifyEntity json opts pid =
     (let i = vo_formatId opts pid;
          read = vo_events opts pid (vo_fromOrdinal opts) (vo_toOrdinal opts)
      in case verify_loop json (sj_apply (vo_subject opts)) (chosen_invariants (vo_invariants opts) (vo_subject opts)) i
                (map (\<lambda>(e, ord). (e, vo_ordinalToSeq opts ord)) (fst read)) (sj_initial (vo_subject opts) (initialIdParam opts pid), 0, []) of
           Inl err \<Rightarrow> Inl err
         | Inr acc \<Rightarrow> (case snd read of Some err \<Rightarrow> Inl err | None \<Rightarrow> Inr (verification_of i acc)))"

definition verifyEventStream ::
  "('s \<Rightarrow> string) \<Rightarrow> ('e, 's) subject \<Rightarrow> string \<Rightarrow> 'e list \<Rightarrow> 's named_invariant list option \<Rightarrow> js_error + 's verification" where
  "verifyEventStream json sj i events invs =
     (case verify_loop json (sj_apply sj) (chosen_invariants invs sj) i (zip events (map int [1 ..< Suc (length events)]))
             (sj_initial sj i, 0, []) of
        Inl err \<Rightarrow> Inl err | Inr acc \<Rightarrow> Inr (verification_of i acc))"

section \<open>The whole journal\<close>

record 's report =
  rp_entities :: "'s verification list"
  rp_totalEvents :: nat
  rp_totalViolations :: nat
  rp_isValid :: bool

definition add_entity :: "('s \<Rightarrow> string) \<Rightarrow> ('p, 'e, 'o, 's) verify_opts \<Rightarrow> 's verification list \<times> nat \<times> nat \<Rightarrow> 'p \<Rightarrow>
    js_error + 's verification list \<times> nat \<times> nat" where
  "add_entity json opts acc pid =
     (case verifyEntity json (opts\<lparr>vo_toOrdinal := None\<rparr>) pid of
        Inl err \<Rightarrow> Inl err
      | Inr v \<Rightarrow> Inr (fst acc @ [v], fst (snd acc) + ve_eventsProcessed v, snd (snd acc) + length (ve_violations v)))"

definition verifyAll :: "('s \<Rightarrow> string) \<Rightarrow> ('p, 'e, 'o, 's) verify_opts \<Rightarrow> 'p list \<times> js_error option \<Rightarrow> js_error + 's report" where
  "verifyAll json opts ids =
     (case foldE (add_entity json opts) ([], 0, 0) (fst ids) of
        Inl err \<Rightarrow> Inl err
      | Inr (entities, totalEvents, totalViolations) \<Rightarrow>
          (case snd ids of
             Some err \<Rightarrow> Inl err
           | None \<Rightarrow> Inr \<lparr>rp_entities = entities, rp_totalEvents = totalEvents, rp_totalViolations = totalViolations,
                         rp_isValid = (totalViolations = 0)\<rparr>))"

text \<open>The report as text; the cross, the dash and the check mark are written in UTF-8.\<close>

definition cross_mark :: string where "cross_mark = [CHR 0xE2, CHR 0x9C, CHR 0x97]"
definition em_dash :: string where "em_dash = [CHR 0xE2, CHR 0x80, CHR 0x94]"
definition check_mark :: string where "check_mark = [CHR 0xE2, CHR 0x9C, CHR 0x93]"

definition entity_lines :: "'s verification \<Rightarrow> string list" where
  "entity_lines e =
     (if ve_isValid e then []
      else (''  '' @ ve_aggregateId e @ '' ('' @ nat_str (ve_eventsProcessed e) @ '' events): '' @ cross_mark)
        # map (\<lambda>v. ''    seq '' @ int_str (vi_sequenceNr v) @ '': '' @ vi_name v @ '' '' @ em_dash @ '' state: '' @ vi_stateSnippet v)
            (ve_violations e))"

definition formatReport :: "'s verification list \<Rightarrow> nat \<Rightarrow> nat \<Rightarrow> string" where
  "formatReport entities totalEvents totalViolations =
     (let cleanCount = length (filter ve_isValid entities)
      in join_str [CHR 0x0A]
          ([''Verification report: '' @ nat_str (length entities) @ '' entities, '' @ nat_str totalEvents @ '' events, ''
              @ nat_str totalViolations @ '' violations'', '''']
           @ concat (map entity_lines entities)
           @ (if cleanCount > 0 then [''  '' @ nat_str cleanCount @ '' other entities: '' @ check_mark] else [])))"

section \<open>The synchronous verifier\<close>

record old_violation =
  ov_invariantName :: string
  ov_afterEvent :: nat
  ov_eventDescription :: string

record replay_result =
  rr_entityId :: string
  rr_eventsReplayed :: nat
  rr_violations :: "old_violation list"

fun old_checks :: "('e \<Rightarrow> string) \<Rightarrow> 's named_invariant list \<Rightarrow> 's \<Rightarrow> 'e \<Rightarrow> nat \<Rightarrow> old_violation list \<Rightarrow> js_error + old_violation list" where
  "old_checks json [] s e k vs = Inr vs"
| "old_checks json (iv # invs) s e k vs =
     (case iv_check iv s of
        Inl err \<Rightarrow> Inl err
      | Inr ok \<Rightarrow> old_checks json invs s e k
          (if ok then vs else vs @ [\<lparr>ov_invariantName = iv_name iv, ov_afterEvent = k, ov_eventDescription = json e\<rparr>]))"

fun old_loop :: "('e \<Rightarrow> string) \<Rightarrow> ('e, 's) subject \<Rightarrow> 's named_invariant list \<Rightarrow> 's \<Rightarrow> nat \<Rightarrow> 'e list \<Rightarrow> old_violation list \<Rightarrow>
    js_error + old_violation list" where
  "old_loop json sj invs s k [] vs = Inr vs"
| "old_loop json sj invs s k (e # es) vs =
     (case sj_apply sj s e of
        Inl err \<Rightarrow> Inl err
      | Inr s' \<Rightarrow>
          (case old_checks json invs s' e (Suc k) vs of Inl err \<Rightarrow> Inl err | Inr vs' \<Rightarrow> old_loop json sj invs s' (Suc k) es vs'))"

definition replayAndVerify :: "('e \<Rightarrow> string) \<Rightarrow> ('e, 's) subject \<Rightarrow> string \<Rightarrow> 'e list \<Rightarrow> js_error + replay_result" where
  "replayAndVerify json sj i events =
     (case old_loop json sj (chosen_invariants None sj) (sj_initial sj i) 0 events [] of
        Inl err \<Rightarrow> Inl err
      | Inr vs \<Rightarrow> Inr \<lparr>rr_entityId = i, rr_eventsReplayed = length events, rr_violations = vs\<rparr>)"

section \<open>What the verifiers report\<close>

text \<open>The state after the first \<open>k\<close> events.\<close>

definition state_after :: "('s \<Rightarrow> 'e \<Rightarrow> js_error + 's) \<Rightarrow> 's \<Rightarrow> 'e list \<Rightarrow> nat \<Rightarrow> 's" where
  "state_after app s es k = projr (foldE app s (take k es))"

lemma verify_loop_eq:
  "verify_loop json app invs i xs (s, n, vs) =
     (case foldE app s (map fst xs) of
        Inl err \<Rightarrow> Inl err
      | Inr s' \<Rightarrow> Inr (s', n + length xs,
          vs @ concat (map (\<lambda>k. checkInvariants json invs (state_after app s (map fst xs) (Suc k)) i (snd (xs ! k))) [0 ..< length xs])))"
proof (induction xs arbitrary: s n vs)
  case (Cons x xs)
  obtain e seq where x: "x = (e, seq)" by (cases x)
  have upt: "[0 ..< length (x # xs)] = 0 # map Suc [0 ..< length xs]" by (simp add: upt_conv_Cons map_Suc_upt del: upt_Suc)
  show ?case
  proof (cases "app s e")
    case (Inr s')
    have st: "state_after app s (map fst (x # xs)) (Suc (Suc k)) = state_after app s' (map fst xs) (Suc k)" for k
      using Inr x by (simp add: state_after_def)
    have "state_after app s (map fst (x # xs)) (Suc 0) = s'" using Inr x by (simp add: state_after_def)
    then show ?thesis
      unfolding upt using Inr x Cons.IH [of s' "n + 1" "vs @ checkInvariants json invs s' i seq"] st
      by (simp add: comp_def del: upt_Suc split: sum.splits)
  qed (simp add: x)
qed simp

text \<open>
  What \<open>verifyEntity\<close> reports. It throws exactly when an event cannot be applied or the stream breaks, with that error.
  Otherwise it has counted every event, its final state is the fold of all of them, its violations are, event by event and
  in the order of the invariants, exactly the invariants that do not hold in the state after that event (a check that
  throws does not hold), and the entity is valid exactly when every invariant holds after every event.
\<close>

lemma verify_entity_reports_exactly:
  fixes opts :: "('p, 'e, 'o, 's) verify_opts"
  shows "verifyEntity json opts pid =
     (let i = vo_formatId opts pid;
          read = vo_events opts pid (vo_fromOrdinal opts) (vo_toOrdinal opts);
          events = map fst (fst read);
          app = sj_apply (vo_subject opts);
          start = sj_initial (vo_subject opts) (initialIdParam opts pid);
          invs = chosen_invariants (vo_invariants opts) (vo_subject opts)
      in case foldE app start events of
           Inl err \<Rightarrow> Inl err
         | Inr s \<Rightarrow>
             (case snd read of
                Some err \<Rightarrow> Inl err
              | None \<Rightarrow> Inr
                  \<lparr>ve_aggregateId = i, ve_eventsProcessed = length events,
                   ve_violations = concat (map (\<lambda>k. map (\<lambda>iv. \<lparr>vi_name = iv_name iv, vi_aggregateId = i,
                       vi_sequenceNr = vo_ordinalToSeq opts (snd (fst read ! k)),
                       vi_stateSnippet = snippetOf json (state_after app start events (Suc k))\<rparr>)
                     (filter (\<lambda>iv. \<not> holds_in iv (state_after app start events (Suc k))) invs)) [0 ..< length events]),
                   ve_finalState = s,
                   ve_isValid = list_all (\<lambda>k. list_all (\<lambda>iv. holds_in iv (state_after app start events (Suc k))) invs) [0 ..< length events]\<rparr>))"
proof -
  have cat: "concat (map f [0 ..< n]) = [] \<longleftrightarrow> list_all (\<lambda>k. f k = []) [0 ..< n]" for f :: "nat \<Rightarrow> violation list" and n
    by (auto simp: list_all_iff)
  have nums: "map (\<lambda>k. checkInvariants json invs (g k) i (snd (map (\<lambda>(e, ord). (e, h ord)) xs ! k))) [0 ..< length xs]
      = map (\<lambda>k. checkInvariants json invs (g k) i (h (snd (xs ! k)))) [0 ..< length xs]" for g i h and invs :: "'s named_invariant list" and xs :: "('e \<times> 'o) list"
    by (intro map_cong) (auto split: prod.split)
  have fsts: "map fst (map (\<lambda>(e, ord). (e, h ord)) xs) = map fst xs" for xs :: "('e \<times> 'o) list" and h :: "'o \<Rightarrow> int"
    by (induction xs) auto
  have none: "filter (\<lambda>iv. \<not> holds_in iv s) invs = [] \<longleftrightarrow> list_all (\<lambda>iv. holds_in iv s) invs" for s :: 's and invs
    by (auto simp: filter_empty_conv list_all_iff)
  show ?thesis
    unfolding verifyEntity_def Let_def verify_loop_eq fsts length_map nums
    by (simp add: verification_of_def cat checkInvariants_eq none del: concat_eq_Nil_conv filter_empty_conv split: sum.splits option.splits)
qed

text \<open>
  The report on a whole journal. It is the error of an entity that cannot be verified, or it has one verification per id,
  in order; its totals are the sums over the entities, and it is valid exactly when every entity is.
\<close>

lemma add_entities:
  "case foldE (add_entity json opts) acc ids of
     Inl err \<Rightarrow> list_ex (\<lambda>pid. verifyEntity json (opts\<lparr>vo_toOrdinal := None\<rparr>) pid = Inl err) ids
   | Inr r \<Rightarrow> \<exists>vs. r = (fst acc @ vs, fst (snd acc) + sum_list (map ve_eventsProcessed vs),
                     snd (snd acc) + sum_list (map (\<lambda>v. length (ve_violations v)) vs))
       \<and> map (verifyEntity json (opts\<lparr>vo_toOrdinal := None\<rparr>)) ids = map Inr vs"
proof (induction ids arbitrary: acc)
  case (Cons pid ids)
  show ?case
  proof (cases "verifyEntity json (opts\<lparr>vo_toOrdinal := None\<rparr>) pid")
    case (Inr v)
    let ?acc = "(fst acc @ [v], fst (snd acc) + ve_eventsProcessed v, snd (snd acc) + length (ve_violations v))"
    have step: "add_entity json opts acc pid = Inr ?acc" using Inr by (simp add: add_entity_def)
    show ?thesis
    proof (cases "foldE (add_entity json opts) ?acc ids")
      case r: (Inr r)
      with Cons.IH [of ?acc] obtain vs where
        "r = (fst ?acc @ vs, fst (snd ?acc) + sum_list (map ve_eventsProcessed vs), snd (snd ?acc) + sum_list (map (\<lambda>v. length (ve_violations v)) vs))"
        "map (verifyEntity json (opts\<lparr>vo_toOrdinal := None\<rparr>)) ids = map Inr vs" by auto
      then show ?thesis
        using Inr r step by (auto intro!: exI [of _ "v # vs"])
    qed (use Cons.IH [of ?acc] Inr step in simp)
  qed (simp add: add_entity_def)
qed simp

lemma verify_entity_valid: "verifyEntity json opts pid = Inr v \<Longrightarrow> ve_isValid v \<longleftrightarrow> ve_violations v = []"
  by (auto simp: verifyEntity_def Let_def verification_of_def split: sum.splits option.splits)

lemma verify_all_sums_up:
  "case verifyAll json opts (ids, None) of
     Inl err \<Rightarrow> list_ex (\<lambda>pid. verifyEntity json (opts\<lparr>vo_toOrdinal := None\<rparr>) pid = Inl err) ids
   | Inr r \<Rightarrow> map (verifyEntity json (opts\<lparr>vo_toOrdinal := None\<rparr>)) ids = map Inr (rp_entities r)
       \<and> rp_totalEvents r = sum_list (map ve_eventsProcessed (rp_entities r))
       \<and> rp_totalViolations r = sum_list (map (\<lambda>v. length (ve_violations v)) (rp_entities r))
       \<and> rp_isValid r = list_all ve_isValid (rp_entities r)"
proof (cases "foldE (add_entity json opts) ([], 0, 0) ids")
  case (Inl err)
  with add_entities [where json = json and opts = opts and ids = ids and acc = "([], 0, 0)"] show ?thesis by (simp add: verifyAll_def)
next
  case (Inr r)
  with add_entities [where json = json and opts = opts and ids = ids and acc = "([], 0, 0)"] obtain vs where
    r: "r = (vs, sum_list (map ve_eventsProcessed vs), sum_list (map (\<lambda>v. length (ve_violations v)) vs))"
    and m: "map (verifyEntity json (opts\<lparr>vo_toOrdinal := None\<rparr>)) ids = map Inr vs" by auto
  have "ve_isValid v \<longleftrightarrow> ve_violations v = []" if "v \<in> set vs" for v
  proof -
    from that have "Inr v \<in> set (map Inr vs :: (js_error + _) list)" by simp
    then have "Inr v \<in> set (map (verifyEntity json (opts\<lparr>vo_toOrdinal := None\<rparr>)) ids)" unfolding m .
    then obtain pid where "verifyEntity json (opts\<lparr>vo_toOrdinal := None\<rparr>) pid = Inr v" by auto
    then show ?thesis by (rule verify_entity_valid)
  qed
  then have "list_all ve_isValid vs \<longleftrightarrow> sum_list (map (\<lambda>v. length (ve_violations v)) vs) = 0"
    by (auto simp: list_all_iff)
  with Inr r m show ?thesis by (simp add: verifyAll_def)
qed

text \<open>The synchronous verifier finds the same violations at the same places, as long as no check throws.\<close>

lemma old_checks_eq:
  "list_all (\<lambda>iv. iv_check iv s = Inr (holds_in iv s)) invs \<Longrightarrow>
   old_checks json invs s e k vs = Inr (vs @ map (\<lambda>iv. \<lparr>ov_invariantName = iv_name iv, ov_afterEvent = k, ov_eventDescription = json e\<rparr>)
     (filter (\<lambda>iv. \<not> holds_in iv s) invs))"
  by (induction invs arbitrary: vs) simp_all

lemma old_loop_agrees:
  assumes "\<And>s. list_all (\<lambda>iv. iv_check iv s = Inr (holds_in iv s)) invs"
    and "map (\<lambda>v. (ov_invariantName v, int (ov_afterEvent v))) vs = map (\<lambda>v. (vi_name v, vi_sequenceNr v)) ws"
  shows "map_sum id (map (\<lambda>v. (ov_invariantName v, int (ov_afterEvent v)))) (old_loop json sj invs s k es vs)
    = map_sum id (\<lambda>acc. map (\<lambda>v. (vi_name v, vi_sequenceNr v)) (snd (snd acc)))
        (verify_loop json' (sj_apply sj) invs i (zip es (map int [Suc k ..< Suc k + length es])) (s, n, ws))"
  using assms(2)
proof (induction es arbitrary: s k vs n ws)
  case (Cons e es)
  have upt: "map int [Suc k ..< Suc k + length (e # es)] = int (Suc k) # map int [Suc (Suc k) ..< Suc (Suc k) + length es]"
    by (simp add: upt_conv_Cons del: upt_Suc)
  show ?case
  proof (cases "sj_apply sj s e")
    case (Inr s')
    let ?vs = "vs @ map (\<lambda>iv. \<lparr>ov_invariantName = iv_name iv, ov_afterEvent = Suc k, ov_eventDescription = json e\<rparr>)
      (filter (\<lambda>iv. \<not> holds_in iv s') invs)"
    let ?ws = "ws @ checkInvariants json' invs s' i (int (Suc k))"
    have "map (\<lambda>v. (ov_invariantName v, int (ov_afterEvent v))) ?vs = map (\<lambda>v. (vi_name v, vi_sequenceNr v)) ?ws"
      using Cons.prems by (simp add: checkInvariants_eq comp_def)
    from Cons.IH [OF this, of s' "Suc k" "n + 1"] Inr show ?thesis
      unfolding upt by (simp add: old_checks_eq [OF assms(1)] del: upt_Suc of_nat_Suc)
  next
    case (Inl err)
    then show ?thesis unfolding upt by simp
  qed
qed simp

lemma verifiers_agree:
  assumes "\<And>s. list_all (\<lambda>iv. iv_check iv s = Inr (holds_in iv s)) (chosen_invariants None sj)"
  shows "map_sum id (\<lambda>r. map (\<lambda>v. (ov_invariantName v, int (ov_afterEvent v))) (rr_violations r)) (replayAndVerify json sj i events)
    = map_sum id (\<lambda>r. map (\<lambda>v. (vi_name v, vi_sequenceNr v)) (ve_violations r)) (verifyEventStream json' sj i events None)"
  using old_loop_agrees [OF assms, of "[]" "[]" json sj "sj_initial sj i" 0 events json' i 0]
  by (auto simp: replayAndVerify_def verifyEventStream_def verification_of_def simp del: upt_Suc split: sum.splits)

text \<open>A check that throws is a violation for the one and an exception of the other.\<close>

lemma throwing_check_differs:
  "let sj = \<lparr>sj_initial = (\<lambda>i. 0), sj_apply = (\<lambda>s e. Inr (s + e)),
             sj_invariants = Some [\<lparr>iv_name = ''small'', iv_check = (\<lambda>s. if s < 10 then Inr True else Inl (JsError ''large''))\<rparr>]\<rparr>
   in replayAndVerify (\<lambda>e. '''') sj ''a'' [4, 9 :: int] = Inl (JsError ''large'')
     \<and> map_sum id ve_isValid (verifyEventStream (\<lambda>s. '''') sj ''a'' [4, 9] None) = Inr False"
  by code_simp

end
