(* ===== verification/Pg_Verify.thy ===== *)
theory Pg_Verify
  imports Pg_Recovery Pg_Read Replay_Verifier
begin

text \<open>
  Verification of a Postgres journal: \<open>verifyEntity\<close> over the read journal of \<open>postgres/read-journal.ts\<close>, next to incarnations
  of the entity that run on the same tables.
\<close>

text \<open>The stream \<open>events\<close> of the read journal.\<close>

definition pg_stream :: "('e, 'd) codec \<Rightarrow> 'd pg_db \<Rightarrow> string \<Rightarrow> nat \<Rightarrow> nat option \<Rightarrow> ('e, nat) stream_read" where
  "pg_stream codec db pid from_seq to_seq =
     (case rj_events codec pid from_seq to_seq db of Inl err \<Rightarrow> ([], Some err) | Inr es \<Rightarrow> (map (\<lambda>(n, e). (e, n)) es, None))"

definition pg_subject :: "('cmd, 'r, 'ev, 's, 'fx, 'df) aggregate \<Rightarrow> 's named_invariant list \<Rightarrow> ('ev, 's) subject" where
  "pg_subject agg invs = \<lparr>sj_initial = initial agg, sj_apply = apply_event agg, sj_invariants = Some invs\<rparr>"

definition pg_verify_opts ::
  "('cmd, 'r, 'ev, 's, 'fx, 'df, 'd) pg_opts \<Rightarrow> 's named_invariant list \<Rightarrow> 'd pg_db \<Rightarrow> (string, 'ev, nat, 's) verify_opts" where
  "pg_verify_opts cfg invs db =
     \<lparr>vo_events = pg_stream (pgo_eventCodec cfg) db, vo_subject = pg_subject (pgo_aggregate cfg) invs, vo_fromOrdinal = 1,
      vo_toOrdinal = None, vo_invariants = None, vo_formatId = id, vo_asString = Some, vo_ordinalToSeq = int\<rparr>"

lemma decode_log_take: "decode_log codec lg = Inr es \<Longrightarrow> decode_log codec (take k lg) = Inr (take k es)"
proof (induction codec lg arbitrary: es k rule: decode_log.induct)
  case (2 codec n m d xs)
  then show ?case by (cases k) (auto split: sum.splits)
qed simp

lemma stored_stream:
  assumes "pg_stored cfg db" "decode_log (pgo_eventCodec cfg) (own_log cfg db) = Inr es"
  shows "pg_stream (pgo_eventCodec cfg) db (pg_entity cfg) 1 None = (map (\<lambda>(n, e). (e, n)) es, None)"
proof -
  have num: "numbered 0 (map fst (own_log cfg db))" using assms(1) by (simp add: pg_stored_def)
  then have "1 \<le> n" if "n \<in> fst ` set (own_log cfg db)" for n
    using numbered_set [OF num] that by auto
  then have "filter (\<lambda>x. 1 \<le> fst x) (own_log cfg db) = own_log cfg db" by (auto simp: filter_id_conv)
  with assms(2) show ?thesis by (simp add: pg_stream_def rj_events_def entity_log_raw [OF num] del: One_nat_def)
qed

lemma replay_take:
  assumes "decode_log (pgo_eventCodec cfg) lg = Inr es"
  shows "pg_replay cfg (take k lg)
    = foldE (apply_event (pgo_aggregate cfg)) (initial (pgo_aggregate cfg) (pgo_entityId cfg)) (take k (map snd es))"
  by (simp add: pg_replay_def replay_log_def decode_log_take [OF assms] take_map)

text \<open>
  C5. A journal that verifies vouches for the running entities. Let any number of incarnations of an entity run over one
  Postgres journal, and let \<open>verifyEntity\<close>, over the read journal at some moment, find no violation. Then every invariant holds in
  the live state of every incarnation that handles commands and has seen an event, stale ones included; and the verifier has
  counted the whole log and ended in the state that a recovery at that moment would reach. Three conditions: the aggregate's initial
  state is the same for the persistence id, which the verifier passes, and for the entity id, which the runner passes (see
  \<open>verifier_initial_state_differs\<close>); the incarnation handles commands; and it has seen an event, as the verifier checks nothing
  in the initial state. The codecs read back what they write.
\<close>

theorem verified_invariants_hold_live:
  assumes "pg_world_run cfg w" "codec_contract (pgo_eventCodec cfg)" "codec_contract (pgo_stateCodec cfg)"
    and "initial (pgo_aggregate cfg) (pg_entity cfg) = initial (pgo_aggregate cfg) (pgo_entityId cfg)"
    and "verifyEntity json (pg_verify_opts cfg invs (pw_db w)) (pg_entity cfg) = Inr v" "ve_isValid v"
    and "i < length (pw_runners w)" "pgr_phase (pw_runners w ! i) = Handling x" "0 < pe_sequenceNr (pgr_est (pw_runners w ! i))"
  shows "list_all (\<lambda>iv. holds_in iv (pe_state (pgr_est (pw_runners w ! i)))) invs
    \<and> ve_eventsProcessed v = length (entity_log (pw_db w) (pg_entity cfg))
    \<and> pg_replay cfg (entity_log (pw_db w) (pg_entity cfg)) = Inr (ve_finalState v)"
proof -
  let ?app = "apply_event (pgo_aggregate cfg)" and ?start = "initial (pgo_aggregate cfg) (pgo_entityId cfg)"
  let ?r = "pgr_est (pw_runners w ! i)" and ?lg = "own_log cfg (pw_db w)"
  have lawful: "pg_lawful cfg" using assms(2,3) by (simp add: pg_lawful_def)
  note ok = pg_world_run_ok [OF assms(1) lawful]
  then have st: "pg_stored cfg (pw_db w)" by (simp add: world_ok_def)
  then have num: "numbered 0 (map fst ?lg)" by (simp add: pg_stored_def)
  from st obtain es where es: "decode_log (pgo_eventCodec cfg) ?lg = Inr es" by (auto simp: pg_stored_def)
  have len: "length es = length ?lg" using decode_log_fst [OF es] by (metis length_map)
  have stream: "fst (pg_stream (pgo_eventCodec cfg) (pw_db w) (pg_entity cfg) 1 None) = map (\<lambda>(n, e). (e, n)) es"
    "snd (pg_stream (pgo_eventCodec cfg) (pw_db w) (pg_entity cfg) 1 None) = None"
    using stored_stream [OF st es] by simp_all
  have events: "map (fst \<circ> (\<lambda>(n, e). (e, n))) es = map snd es" by (induction es) auto
  have "verifyEntity json (pg_verify_opts cfg invs (pw_db w)) (pg_entity cfg) = Inr v" by (rule assms(5))
  then obtain s where fin: "foldE ?app ?start (map snd es) = Inr s"
    and v: "ve_eventsProcessed v = length es" "ve_finalState v = s"
      "ve_isValid v = list_all (\<lambda>k. list_all (\<lambda>iv. holds_in iv (state_after ?app ?start (map snd es) (Suc k))) invs) [0 ..< length es]"
    unfolding verify_entity_reports_exactly Let_def
    by (auto simp: pg_verify_opts_def pg_subject_def chosen_invariants_def initialIdParam_def stream events assms(4) split: sum.splits simp del: upt_Suc One_nat_def)
  have knows: "pe_sequenceNr ?r \<le> length ?lg" "pg_replay cfg (take (pe_sequenceNr ?r) ?lg) = Inr (pe_state ?r)"
    using world_ok_runner [OF ok assms(7)] assms(8) by (simp_all add: runner_knows_def prefix_state_def)
  obtain k where k: "pe_sequenceNr ?r = Suc k" using assms(9) by (cases "pe_sequenceNr ?r") auto
  with knows len have "k \<in> set [0 ..< length es]" by simp
  with assms(6) v(3) have "list_all (\<lambda>iv. holds_in iv (state_after ?app ?start (map snd es) (Suc k))) invs"
    unfolding list_all_iff by blast
  moreover have "state_after ?app ?start (map snd es) (Suc k) = pe_state ?r"
    using knows(2) unfolding k replay_take [OF es] by (simp add: state_after_def)
  moreover have "pg_replay cfg ?lg = Inr s"
    using replay_take [OF es, of "length es"] fin len by simp
  ultimately show ?thesis using v len unfolding entity_log_raw [OF num] by simp
qed

theorem verified_invariants_hold_live_witness:
  "holds_in \<lparr>iv_name = ''positive'', iv_check = (\<lambda>s. Inr (0 < s))\<rparr> (pe_state (pgr_est (pw_runners demo_split ! 0)))
   \<and> pg_replay pg_demo (entity_log (pw_db demo_split) (pg_entity pg_demo)) = Inr 5"
proof -
  let ?invs = "[\<lparr>iv_name = ''positive'', iv_check = (\<lambda>s. Inr (0 < s))\<rparr>]"
  let ?r = "pw_runners demo_split ! 0"
  obtain v where v: "verifyEntity (\<lambda>s. '''') (pg_verify_opts pg_demo ?invs (pw_db demo_split)) (pg_entity pg_demo) = Inr v"
    "ve_isValid v" "ve_finalState v = 5"
  proof -
    have "case verifyEntity (\<lambda>s. '''') (pg_verify_opts pg_demo ?invs (pw_db demo_split)) (pg_entity pg_demo) of
      Inl e \<Rightarrow> False | Inr v \<Rightarrow> ve_isValid v \<and> ve_finalState v = 5" by code_simp
    then show ?thesis by (auto split: sum.splits intro: that)
  qed
  have len: "0 < length (pw_runners demo_split)" by code_simp
  obtain x where x: "pgr_phase ?r = Handling x"
  proof -
    have "case pgr_phase ?r of Handling x \<Rightarrow> True | _ \<Rightarrow> False" by code_simp
    then show ?thesis by (auto split: pg_phase.splits intro: that)
  qed
  have pos: "0 < pe_sequenceNr (pgr_est ?r)" by code_simp
  have same: "initial (pgo_aggregate pg_demo) (pg_entity pg_demo) = initial (pgo_aggregate pg_demo) (pgo_entityId pg_demo)"
    by (simp add: pg_demo_def)
  from verified_invariants_hold_live [OF demo_split_run pg_demo_codecs same v(1,2) len x pos] v(3) show ?thesis by simp
qed

text \<open>
  The id matters: the persistence ids of the Postgres read journal are strings, so \<open>verifyEntity\<close> hands \<open>category|entity\<close> to the aggregate where the runtime hands it the entity id, so an
  aggregate that keeps its id in its state is verified against another state than the one that runs.
\<close>

lemma verifier_initial_state_differs:
  "map_sum id ve_finalState (verifyEntity (\<lambda>s. '''')
      (pg_verify_opts (pg_demo\<lparr>pgo_aggregate := (pgo_aggregate pg_demo)\<lparr>initial := (\<lambda>i. int (length i))\<rparr>\<rparr>) [] pg_empty) ''c|e'') = Inr 3
   \<and> pg_replay (pg_demo\<lparr>pgo_aggregate := (pgo_aggregate pg_demo)\<lparr>initial := (\<lambda>i. int (length i))\<rparr>\<rparr>) [] = Inr 1"
  by code_simp

end
