(* ===== verification/Js_Number.thy ===== *)
theory Js_Number
  imports Complex_Main Prelude
begin

text \<open>
  JavaScript's conversion of text to numbers, \<open>Number(s)\<close>, which \<open>ha/normalize.ts\<close> and the paths of \<open>ai/node-flow/guard.ts\<close> rest on.
  Numbers are exact.
\<close>

text \<open>
  JavaScript's \<open>Number(s)\<close>: white space around is cut off, an empty text is zero, \<open>0x\<close>, \<open>0o\<close> and \<open>0b\<close> introduce other bases, and
  a decimal literal has an optional sign, fraction and exponent. Anything else, and \<open>Infinity\<close>, is not a finite number.
\<close>

definition is_space :: "char \<Rightarrow> bool" where
  "is_space c = (let n = of_char c :: nat in n = 32 \<or> (9 \<le> n \<and> n \<le> 13) \<or> n = 160)"

definition trim_text :: "string \<Rightarrow> string" where
  "trim_text s = rev (dropWhile is_space (rev (dropWhile is_space s)))"

text \<open>The value of a digit, ten and more for letters.\<close>

definition digit_of :: "char \<Rightarrow> nat option" where
  "digit_of c =
     (let n = of_char (ascii_lower c) :: nat
      in if 48 \<le> n \<and> n \<le> 57 then Some (n - 48) else if 97 \<le> n \<and> n \<le> 122 then Some (n - 87) else None)"

definition is_digit_in :: "nat \<Rightarrow> char \<Rightarrow> bool" where
  "is_digit_in base c = (case digit_of c of None \<Rightarrow> False | Some d \<Rightarrow> d < base)"

definition digits_value :: "nat \<Rightarrow> string \<Rightarrow> nat" where
  "digits_value base s = foldl (\<lambda>n c. base * n + (case digit_of c of None \<Rightarrow> 0 | Some d \<Rightarrow> d)) 0 s"

definition based_number :: "nat \<Rightarrow> string \<Rightarrow> real option" where
  "based_number base s = (if s \<noteq> [] \<and> list_all (is_digit_in base) s then Some (real (digits_value base s)) else None)"

definition split_sign :: "string \<Rightarrow> bool \<times> string" where
  "split_sign s = (case s of [] \<Rightarrow> (False, []) | c # cs \<Rightarrow>
     if c = CHR ''-'' then (True, cs) else if c = CHR ''+'' then (False, cs) else (False, s))"

text \<open>The exponent after an \<open>e\<close>: its absence is zero.\<close>

definition exponent_value :: "string \<Rightarrow> int option" where
  "exponent_value s =
     (case s of
        [] \<Rightarrow> Some 0
      | c # cs \<Rightarrow>
          if ascii_lower c = CHR ''e''
          then (case split_sign cs of (neg, ds) \<Rightarrow>
                  if ds \<noteq> [] \<and> list_all (is_digit_in 10) ds
                  then Some (if neg then - int (digits_value 10 ds) else int (digits_value 10 ds)) else None)
          else None)"

definition ten_to :: "int \<Rightarrow> real" where
  "ten_to k = (if 0 \<le> k then 10 ^ nat k else 1 / 10 ^ nat (- k))"

definition decimal_number :: "string \<Rightarrow> real option" where
  "decimal_number s =
     (case split_sign s of (neg, t) \<Rightarrow>
        let whole = takeWhile (is_digit_in 10) t;
            rest = dropWhile (is_digit_in 10) t;
            frac = (case rest of c # cs \<Rightarrow> if c = CHR ''.'' then takeWhile (is_digit_in 10) cs else [] | [] \<Rightarrow> []);
            tail = (case rest of c # cs \<Rightarrow> if c = CHR ''.'' then dropWhile (is_digit_in 10) cs else rest | [] \<Rightarrow> [])
        in if whole = [] \<and> frac = [] then None
           else case exponent_value tail of
                  None \<Rightarrow> None
                | Some k \<Rightarrow>
                    (let v = real (digits_value 10 (whole @ frac)) * ten_to (k - int (length frac))
                     in Some (if neg then - v else v)))"

definition js_number :: "string \<Rightarrow> real option" where
  "js_number s =
     (let t = trim_text s
      in case t of
           [] \<Rightarrow> Some 0
         | c # cs \<Rightarrow>
             (if c = CHR ''0'' \<and> cs \<noteq> [] \<and> ascii_lower (hd cs) = CHR ''x'' then based_number 16 (tl cs)
              else if c = CHR ''0'' \<and> cs \<noteq> [] \<and> ascii_lower (hd cs) = CHR ''o'' then based_number 8 (tl cs)
              else if c = CHR ''0'' \<and> cs \<noteq> [] \<and> ascii_lower (hd cs) = CHR ''b'' then based_number 2 (tl cs)
              else decimal_number t))"

lemma trim_first: "\<not> is_space c \<Longrightarrow> \<exists>ds. trim_text (c # cs) = c # ds"
proof -
  assume c: "\<not> is_space c"
  have "\<exists>ds. rev (dropWhile is_space (rev cs @ [c])) = c # ds"
    using c by (cases "\<forall>x \<in> set cs. is_space x") (auto simp: dropWhile_append intro: exI [of _ "rev (dropWhile is_space (rev cs))"])
  with c show ?thesis by (simp add: trim_text_def)
qed

lemma letter_first_not_number:
  assumes "\<not> is_space c" "\<not> is_digit_in 10 c" "c \<notin> {CHR ''-'', CHR ''+'', CHR ''.'', CHR ''0''}"
  shows "js_number (c # cs) = None"
proof -
  obtain ds where "trim_text (c # cs) = c # ds" using trim_first [OF assms(1)] by blast
  with assms(2,3) show ?thesis by (simp add: js_number_def Let_def decimal_number_def split_sign_def)
qed

text \<open>Printed naturals are read back.\<close>

lemma digit_char_facts:
  assumes "d < 10"
  shows "digit_of (digit_char d) = Some d" "\<not> is_space (digit_char d)" "is_digit_in 10 (digit_char d)"
    "ascii_lower (digit_char d) \<notin> {CHR ''x'', CHR ''o'', CHR ''b'', CHR ''e''}" "digit_char d \<notin> {CHR ''-'', CHR ''+'', CHR ''.''}"
proof -
  have n: "of_char (digit_char d) = d + 48" using assms by (simp add: digit_char_def)
  then have low: "ascii_lower (digit_char d) = digit_char d" using assms by (simp add: ascii_lower_def Let_def)
  show one: "digit_of (digit_char d) = Some d" using assms n low by (simp add: digit_of_def Let_def)
  show "\<not> is_space (digit_char d)" using assms n by (auto simp: is_space_def Let_def)
  show "is_digit_in 10 (digit_char d)" using one assms by (simp add: is_digit_in_def)
  have ne: "digit_char d \<noteq> c" if "of_char c < (48::nat) \<or> 58 \<le> (of_char c :: nat)" for c
    using that n assms by auto
  show "ascii_lower (digit_char d) \<notin> {CHR ''x'', CHR ''o'', CHR ''b'', CHR ''e''}"
    unfolding low using ne [of "CHR ''x''"] ne [of "CHR ''o''"] ne [of "CHR ''b''"] ne [of "CHR ''e''"] by simp
  show "digit_char d \<notin> {CHR ''-'', CHR ''+'', CHR ''.''}"
    using ne [of "CHR ''-''"] ne [of "CHR ''+''"] ne [of "CHR ''.''"] by simp
qed

lemma nat_str_digits: "\<exists>ds. nat_str n = map digit_char ds \<and> list_all (\<lambda>d. d < 10) ds \<and> ds \<noteq> []"
proof (induction n rule: nat_str.induct)
  case (1 n)
  show ?case
  proof (cases "n < 10")
    case True
    then show ?thesis by (intro exI [of _ "[n]"]) (simp add: nat_str.simps [of n])
  next
    case False
    with 1 obtain ds where "nat_str (n div 10) = map digit_char ds" "list_all (\<lambda>d. d < 10) ds" by blast
    with False show ?thesis by (intro exI [of _ "ds @ [n mod 10]"]) (simp add: nat_str.simps [of n])
  qed
qed

lemma digits_value_nat_str: "digits_value 10 (nat_str n) = n"
proof (induction n rule: nat_str.induct)
  case (1 n)
  show ?case
  proof (cases "n < 10")
    case True
    then show ?thesis by (simp add: nat_str.simps [of n] digits_value_def digit_char_facts)
  next
    case False
    with 1 have "digits_value 10 (nat_str (n div 10)) = n div 10" by simp
    with False show ?thesis by (simp add: nat_str.simps [of n] digits_value_def digit_char_facts)
  qed
qed

lemma trim_text_same: "list_all (\<lambda>c. \<not> is_space c) s \<Longrightarrow> trim_text s = s"
proof -
  assume s: "list_all (\<lambda>c. \<not> is_space c) s"
  have d: "dropWhile is_space t = t" if "list_all (\<lambda>c. \<not> is_space c) t" for t using that by (cases t) simp_all
  have "dropWhile is_space (rev s) = rev s" by (rule d) (use s in \<open>simp add: list_all_iff\<close>)
  with d [OF s] show ?thesis by (simp add: trim_text_def)
qed

lemma js_number_nat_str: "js_number (nat_str n) = Some (real n)"
proof -
  obtain ds where ds: "nat_str n = map digit_char ds" "list_all (\<lambda>d. d < 10) ds" "ds \<noteq> []" using nat_str_digits by blast
  then obtain d es where e: "ds = d # es" "d < 10" "list_all (\<lambda>d. d < 10) es" by (cases ds) auto
  have all: "list_all (is_digit_in 10) (map digit_char ds)" "list_all (\<lambda>c. \<not> is_space c) (map digit_char ds)"
    using ds(2) by (auto simp: list_all_iff digit_char_facts)
  have take: "takeWhile (is_digit_in 10) (map digit_char ds) = map digit_char ds" "dropWhile (is_digit_in 10) (map digit_char ds) = []"
    using all(1) by (auto simp: list_all_iff takeWhile_eq_all_conv)
  have dec: "decimal_number (map digit_char ds) = Some (real n)"
    using digit_char_facts(5) [OF e(2)] take digits_value_nat_str [of n] ds(1) e(1)
    by (simp add: decimal_number_def split_sign_def exponent_value_def ten_to_def Let_def)
  have base: "es \<noteq> [] \<Longrightarrow> ascii_lower (hd (map digit_char es)) \<notin> {CHR ''x'', CHR ''o'', CHR ''b'', CHR ''e''}"
    using e(3) digit_char_facts(4) by (cases es) auto
  show ?thesis
    unfolding ds(1) js_number_def trim_text_same [OF all(2)] using dec base by (simp add: e(1) Let_def) blast
qed

end
