(* ===== verification/Ha_Signals.thy ===== *)
theory Ha_Signals
  imports Js_Number "HOL-Library.List_Lexorder" "HOL-Library.Char_ord" "HOL-Library.Product_Lexorder"
begin

text \<open>
  Signals of Home Assistant: \<open>ha/normalize.ts\<close> and the table of
  \<open>ha/signal-store.ts\<close>. Numbers are exact. The JSON of a row's raw state is opaque.
\<close>

section \<open>Normal form of a state\<close>

datatype nvalue =
    NNull
  | NNum real
  | NStr string
  | NBool bool

record normalized =
  nz_value :: nvalue
  nz_unit :: "string option"

text \<open>An entity's state: the unit attribute when it is a text, the time of the last update when it can be read, and the rest.\<close>

record 'a entity_state =
  es_entity_id :: string
  es_state :: string
  es_unit :: "string option"
  es_last_updated :: "int option"
  es_raw :: 'a

definition NULL_STATES :: "string list" where
  "NULL_STATES = [''unavailable'', ''unknown'', ''none'', []]"

definition TRUE_STATES :: "string list" where
  "TRUE_STATES = [''on'', ''open'', ''detected'', ''home'', ''wet'', ''locked'', ''true'']"

definition FALSE_STATES :: "string list" where
  "FALSE_STATES = [''off'', ''closed'', ''clear'', ''not_home'', ''away'', ''dry'', ''unlocked'', ''false'']"

definition normalizeState :: "'a entity_state \<Rightarrow> normalized" where
  "normalizeState st =
     (let s = es_state st
      in if s \<in> set NULL_STATES then \<lparr>nz_value = NNull, nz_unit = es_unit st\<rparr>
         else case js_number s of
                Some n \<Rightarrow> \<lparr>nz_value = NNum n, nz_unit = es_unit st\<rparr>
              | None \<Rightarrow>
                  (if s \<in> set TRUE_STATES then \<lparr>nz_value = NBool True, nz_unit = es_unit st\<rparr>
                   else if s \<in> set FALSE_STATES then \<lparr>nz_value = NBool False, nz_unit = es_unit st\<rparr>
                   else \<lparr>nz_value = NStr s, nz_unit = es_unit st\<rparr>))"

text \<open>The words for null, true and false are told apart before and after the attempt to read a number.\<close>

lemma words_are_not_numbers: "list_all (\<lambda>s. js_number s = None) (TRUE_STATES @ FALSE_STATES)"
  unfolding TRUE_STATES_def FALSE_STATES_def
  by (simp add: letter_first_not_number is_space_def is_digit_in_def digit_of_def ascii_lower_def Let_def)

lemma state_words_disjoint: "distinct (NULL_STATES @ TRUE_STATES @ FALSE_STATES)"
  by (simp add: NULL_STATES_def TRUE_STATES_def FALSE_STATES_def)

text \<open>A text of blanks is the number zero, and a text that looks like a number in another base is one.\<close>

lemma blank_state_is_zero: "js_number ''  '' = Some 0 \<and> js_number ''0x1F'' = Some 31"
  by (simp add: js_number_def trim_text_def is_space_def based_number_def is_digit_in_def digits_value_def digit_of_def
      ascii_lower_def Let_def)

section \<open>The signal table\<close>

datatype signal_origin = FromHa | FromResync | FromBackfill

record 'a signal_row =
  sg_obsId :: string
  sg_entityId :: string
  sg_at :: int
  sg_haTimeFired :: int
  sg_raw :: "'a option"
  sg_normalized :: normalized
  sg_origin :: signal_origin
  sg_haVersion :: "string option"
  sg_policyVersion :: int

type_synonym 'a signal_table = "'a signal_row list"

text \<open>The insert fails when the observation id is taken.\<close>

definition store_append :: "'a signal_row \<Rightarrow> 'a signal_table \<Rightarrow> js_error + 'a signal_table" where
  "store_append row tbl =
     (if sg_obsId row \<in> set (map sg_obsId tbl) then Inl (JsError ''UNIQUE constraint failed: signals.obs_id'') else Inr (tbl @ [row]))"

record signal_query =
  sq_entityId :: string
  sq_sinceMs :: "int option"
  sq_untilMs :: "int option"
  sq_limit :: "int option"
  sq_desc :: bool

definition row_order :: "'a signal_row \<Rightarrow> int \<times> string" where
  "row_order r = (sg_at r, sg_obsId r)"

definition query_limit :: "signal_query \<Rightarrow> int" where
  "query_limit q = max 1 (min (case sq_limit q of None \<Rightarrow> 500 | Some n \<Rightarrow> n) 5000)"

definition signal_matches :: "signal_query \<Rightarrow> 'a signal_row \<Rightarrow> bool" where
  "signal_matches q r =
     (sg_entityId r = sq_entityId q
      \<and> (case sq_sinceMs q of None \<Rightarrow> True | Some t \<Rightarrow> t \<le> sg_at r)
      \<and> (case sq_untilMs q of None \<Rightarrow> True | Some t \<Rightarrow> sg_at r < t))"

definition store_query :: "signal_query \<Rightarrow> 'a signal_table \<Rightarrow> 'a signal_row list" where
  "store_query q tbl =
     (let sorted_rows = sort_key row_order (filter (signal_matches q) tbl)
      in take (nat (query_limit q)) (if sq_desc q then rev sorted_rows else sorted_rows))"

definition store_latest :: "string \<Rightarrow> 'a signal_table \<Rightarrow> 'a signal_row option" where
  "store_latest i tbl =
     (case rev (sort_key row_order (filter (\<lambda>r. sg_entityId r = i) tbl)) of [] \<Rightarrow> None | r # rs \<Rightarrow> Some r)"

definition store_prune :: "int \<Rightarrow> int \<Rightarrow> 'a signal_table \<Rightarrow> nat \<times> 'a signal_table" where
  "store_prune now retentionDays tbl =
     (let cutoff = now - retentionDays * 86400000
      in (length (filter (\<lambda>r. sg_at r < cutoff) tbl), filter (\<lambda>r. \<not> sg_at r < cutoff) tbl))"

definition store_stats :: "'a signal_table \<Rightarrow> nat \<times> int option \<times> int option" where
  "store_stats tbl =
     (length tbl, if tbl = [] then None else Some (Min (set (map sg_at tbl))), if tbl = [] then None else Some (Max (set (map sg_at tbl))))"

lemma query_limit_bounds: "1 \<le> query_limit q \<and> query_limit q \<le> 5000"
  by (auto simp: query_limit_def)

lemma query_bounded: "length (store_query q tbl) \<le> 5000"
proof -
  have "nat (query_limit q) \<le> 5000" using query_limit_bounds [of q] by linarith
  then show ?thesis by (auto simp: store_query_def Let_def min_def)
qed

text \<open>The latest row is what a descending query of one row gives.\<close>

lemma latest_is_query:
  "store_latest i tbl = (case store_query \<lparr>sq_entityId = i, sq_sinceMs = None, sq_untilMs = None, sq_limit = Some 1, sq_desc = True\<rparr> tbl of
     [] \<Rightarrow> None | r # rs \<Rightarrow> Some r)"
proof -
  have m: "signal_matches \<lparr>sq_entityId = i, sq_sinceMs = None, sq_untilMs = None, sq_limit = Some 1, sq_desc = True\<rparr> = (\<lambda>r. sg_entityId r = i)"
    by (rule ext) (simp add: signal_matches_def)
  have t: "(case take (Suc 0) xs of [] \<Rightarrow> None | r # rs \<Rightarrow> Some r) = (case xs of [] \<Rightarrow> None | r # rs \<Rightarrow> Some r)" for xs :: "'a signal_row list"
    by (cases xs) simp_all
  show ?thesis by (simp add: store_latest_def store_query_def query_limit_def m t)
qed

text \<open>A query gives its matches in order, as many as the limit allows.\<close>

lemma query_sorted:
  "set (store_query q tbl) \<subseteq> {r \<in> set tbl. signal_matches q r}
   \<and> sorted (map row_order (if sq_desc q then rev (store_query q tbl) else store_query q tbl))"
proof -
  let ?all = "sort_key row_order (filter (signal_matches q) tbl)"
  have s: "sorted (map row_order ?all)" by simp
  have "set (store_query q tbl) \<subseteq> set ?all"
    by (auto simp: store_query_def Let_def dest: in_set_takeD split: if_splits)
  moreover have "sorted (map row_order (if sq_desc q then rev (store_query q tbl) else store_query q tbl))"
    using sorted_wrt_take [OF s, of "nat (query_limit q)"] sorted_wrt_drop [OF s, of "length ?all - nat (query_limit q)"]
    by (simp add: store_query_def Let_def take_map drop_map take_rev)
  ultimately show ?thesis by auto
qed

text \<open>Pruning counts what it deletes.\<close>

lemma prune_counts: "fst (store_prune now days tbl) + length (snd (store_prune now days tbl)) = length tbl"
  by (simp add: store_prune_def Let_def sum_length_filter_compl)

end
