(* ===== verification/Ha_Detectors.thy ===== *)
theory Ha_Detectors
  imports Complex_Main
begin

text \<open>
  The detectors of \<open>ha/detectors.ts\<close>: state machines over a sequence of samples. Times are integers in milliseconds, values are reals, and
  \<open>Math.exp\<close> is the exponential function.
\<close>

record sample =
  sa_at :: int
  sa_value :: real
  sa_obsId :: string

record 't det_event =
  de_tag :: 't
  de_at :: int
  de_obsId :: string
  de_value :: real

record ('s, 't) detector =
  dt_init :: 's
  dt_step :: "'s \<Rightarrow> sample \<Rightarrow> 's \<times> 't det_event list"

definition emit :: "'t \<Rightarrow> sample \<Rightarrow> real \<Rightarrow> 't det_event" where
  "emit tag x v = \<lparr>de_tag = tag, de_at = sa_at x, de_obsId = sa_obsId x, de_value = v\<rparr>"

text \<open>A detector over a sequence of samples.\<close>

fun run_from :: "('s, 't) detector \<Rightarrow> 's \<Rightarrow> sample list \<Rightarrow> 's \<times> 't det_event list" where
  "run_from d s [] = (s, [])"
| "run_from d s (x # xs) =
     (case dt_step d s x of (s', out) \<Rightarrow> (case run_from d s' xs of (s'', out') \<Rightarrow> (s'', out @ out')))"

definition run_detector :: "('s, 't) detector \<Rightarrow> sample list \<Rightarrow> 's \<times> 't det_event list" where
  "run_detector d = run_from d (dt_init d)"

lemma run_from_snoc:
  "run_from d s (xs @ [x]) =
     (case run_from d s xs of (s', out) \<Rightarrow> (case dt_step d s' x of (s'', out') \<Rightarrow> (s'', out @ out')))"
  by (induction xs arbitrary: s) (auto split: prod.splits)

lemma run_detector_Nil [simp]: "run_detector d [] = (dt_init d, [])"
  by (simp add: run_detector_def)

lemma run_detector_snoc:
  "run_detector d (xs @ [x]) =
     (case run_detector d xs of (s', out) \<Rightarrow> (case dt_step d s' x of (s'', out') \<Rightarrow> (s'', out @ out')))"
  by (simp add: run_detector_def run_from_snoc)

text \<open>Events that switch something on and off in turn.\<close>

fun alternates :: "'t \<Rightarrow> 't \<Rightarrow> 't list \<Rightarrow> bool" where
  "alternates a b [] = True"
| "alternates a b (t # ts) = (t = a \<and> alternates b a ts)"

lemma alternates_snoc:
  "alternates a b (ts @ [t]) \<longleftrightarrow> alternates a b ts \<and> t = (if even (length ts) then a else b)"
  by (induction ts arbitrary: a b) auto

section \<open>Rise against a baseline\<close>

datatype rise_phase = Idle | Risen

datatype rise_tag = RiseDetected | RiseCleared

record rise_state =
  rs_ema :: "real option"
  rs_lastAt :: "int option"
  rs_firstAt :: "int option"
  rs_phase :: rise_phase

record rise_params =
  rp_baselineHalflifeMs :: real
  rp_risePct :: real
  rp_clearPct :: real
  rp_warmupMs :: "int option"

text \<open>One step of the moving average: how much of the distance to the new value it takes.\<close>

definition ema_step :: "real \<Rightarrow> int \<Rightarrow> int \<Rightarrow> real \<Rightarrow> real \<Rightarrow> real" where
  "ema_step halflifeMs lastAt at_ms ema value =
     (let alpha = 1 - exp (- real_of_int (max 0 (at_ms - lastAt)) / (halflifeMs / ln 2)) in ema + alpha * (value - ema))"

definition rise_step :: "rise_params \<Rightarrow> rise_state \<Rightarrow> sample \<Rightarrow> rise_state \<times> rise_tag det_event list" where
  "rise_step p s x =
     (case (rs_ema s, rs_lastAt s, rs_firstAt s) of
        (Some ema, Some lastAt, Some firstAt) \<Rightarrow>
          (let warm = sa_at x - firstAt \<ge> (case rp_warmupMs p of None \<Rightarrow> 600000 | Some w \<Rightarrow> w)
           in case rs_phase s of
                Risen \<Rightarrow>
                  (if sa_value x \<le> ema * (1 + rp_clearPct p / 100)
                   then (s\<lparr>rs_ema := Some (ema_step (rp_baselineHalflifeMs p) lastAt (sa_at x) ema (sa_value x)),
                           rs_lastAt := Some (sa_at x), rs_phase := Idle\<rparr>, [emit RiseCleared x (sa_value x)])
                   else (s, []))
              | Idle \<Rightarrow>
                  (if warm \<and> sa_value x \<ge> ema * (1 + rp_risePct p / 100)
                   then (s\<lparr>rs_phase := Risen\<rparr>, [emit RiseDetected x (sa_value x)])
                   else (s\<lparr>rs_ema := Some (ema_step (rp_baselineHalflifeMs p) lastAt (sa_at x) ema (sa_value x)),
                           rs_lastAt := Some (sa_at x)\<rparr>, [])))
      | _ \<Rightarrow> (\<lparr>rs_ema = Some (sa_value x), rs_lastAt = Some (sa_at x), rs_firstAt = Some (sa_at x), rs_phase = Idle\<rparr>, []))"

definition relativeRise :: "rise_params \<Rightarrow> (rise_state, rise_tag) detector" where
  "relativeRise p = \<lparr>dt_init = \<lparr>rs_ema = None, rs_lastAt = None, rs_firstAt = None, rs_phase = Idle\<rparr>, dt_step = rise_step p\<rparr>"

text \<open>With a positive half-life the average moves towards the value and not past it.\<close>

lemma mean_between:
  fixes a :: real
  assumes "0 \<le> a" "a \<le> 1"
  shows "min m v \<le> m + a * (v - m)" "m + a * (v - m) \<le> max m v"
proof -
  have eq: "m + a * (v - m) = (1 - a) * m + a * v" by (simp add: algebra_simps)
  have "(1 - a) * min m v + a * min m v \<le> (1 - a) * m + a * v"
    using assms by (intro add_mono mult_left_mono) simp_all
  moreover have "(1 - a) * min m v + a * min m v = min m v" by (simp add: algebra_simps)
  ultimately show "min m v \<le> m + a * (v - m)" unfolding eq by linarith
  have "(1 - a) * m + a * v \<le> (1 - a) * max m v + a * max m v"
    using assms by (intro add_mono mult_left_mono) simp_all
  moreover have "(1 - a) * max m v + a * max m v = max m v" by (simp add: algebra_simps)
  ultimately show "m + a * (v - m) \<le> max m v" unfolding eq by linarith
qed

lemma ema_step_between:
  assumes "0 < h"
  shows "min ema v \<le> ema_step h t0 t1 ema v" "ema_step h t0 t1 ema v \<le> max ema v"
proof -
  define a where "a = 1 - exp (- real_of_int (max 0 (t1 - t0)) / (h / ln 2))"
  have "0 \<le> real_of_int (max 0 (t1 - t0)) / (h / ln 2)" using assms by (intro divide_nonneg_nonneg) simp_all
  then have "0 \<le> a" "a \<le> 1" by (simp_all add: a_def minus_divide_left [symmetric])
  moreover have "ema_step h t0 t1 ema v = ema + a * (v - ema)" by (simp only: ema_step_def a_def Let_def)
  ultimately show "min ema v \<le> ema_step h t0 t1 ema v" "ema_step h t0 t1 ema v \<le> max ema v"
    using mean_between by simp_all
qed

definition warmup :: "rise_params \<Rightarrow> int" where
  "warmup p = (case rp_warmupMs p of None \<Rightarrow> 600000 | Some w \<Rightarrow> w)"

text \<open>What holds after a non-empty sequence of samples.\<close>

definition rise_ok :: "rise_params \<Rightarrow> sample list \<Rightarrow> rise_state \<Rightarrow> rise_tag det_event list \<Rightarrow> bool" where
  "rise_ok p xs s out \<longleftrightarrow>
     rs_firstAt s = Some (sa_at (hd xs)) \<and> rs_lastAt s \<noteq> None
     \<and> (case rs_ema s of None \<Rightarrow> False | Some m \<Rightarrow> Min (sa_value ` set xs) \<le> m \<and> m \<le> Max (sa_value ` set xs))
     \<and> alternates RiseDetected RiseCleared (map de_tag out)
     \<and> (rs_phase s = Risen \<longleftrightarrow> odd (length out))
     \<and> list_all (\<lambda>e. de_tag e = RiseCleared \<or> sa_at (hd xs) + warmup p \<le> de_at e) out"

lemma rise_okD:
  assumes "rise_ok p xs s out"
  obtains m t where "rs_ema s = Some m" "rs_lastAt s = Some t" "rs_firstAt s = Some (sa_at (hd xs))"
    "Min (sa_value ` set xs) \<le> m" "m \<le> Max (sa_value ` set xs)"
    "alternates RiseDetected RiseCleared (map de_tag out)" "rs_phase s = Risen \<longleftrightarrow> odd (length out)"
    "list_all (\<lambda>e. de_tag e = RiseCleared \<or> sa_at (hd xs) + warmup p \<le> de_at e) out"
  using assms by (auto simp: rise_ok_def split: option.splits)

lemma Min_Max_snoc:
  assumes "xs \<noteq> []"
  shows "Min (sa_value ` set (xs @ [x])) = min (Min (sa_value ` set xs)) (sa_value x)"
    and "Max (sa_value ` set (xs @ [x])) = max (Max (sa_value ` set xs)) (sa_value x)"
  using assms by (simp_all add: min.commute max.commute)

lemma rise_step_ok:
  assumes h: "0 < rp_baselineHalflifeMs p" and ne: "xs \<noteq> []" and ok: "rise_ok p xs s out"
    and st: "rise_step p s x = (s', out')"
  shows "rise_ok p (xs @ [x]) s' (out @ out')"
proof -
  from ok obtain m t where s: "rs_ema s = Some m" "rs_lastAt s = Some t" "rs_firstAt s = Some (sa_at (hd xs))"
    and m: "Min (sa_value ` set xs) \<le> m" "m \<le> Max (sa_value ` set xs)"
    and alt: "alternates RiseDetected RiseCleared (map de_tag out)" "rs_phase s = Risen \<longleftrightarrow> odd (length out)"
    and warm: "list_all (\<lambda>e. de_tag e = RiseCleared \<or> sa_at (hd xs) + warmup p \<le> de_at e) out"
    by (rule rise_okD)
  let ?m = "ema_step (rp_baselineHalflifeMs p) t (sa_at x) m (sa_value x)"
  have hull: "min (Min (sa_value ` set xs)) (sa_value x) \<le> ?m" "?m \<le> max (Max (sa_value ` set xs)) (sa_value x)"
    "min (Min (sa_value ` set xs)) (sa_value x) \<le> m" "m \<le> max (Max (sa_value ` set xs)) (sa_value x)"
    using ema_step_between [OF h, where ema = m and v = "sa_value x" and ?t0.0 = t and ?t1.0 = "sa_at x"] m by linarith+
  show ?thesis
  proof (cases "rs_phase s")
    case Idle
    with st s hull alt warm ne show ?thesis
      by (auto simp: rise_step_def rise_ok_def Let_def Min_Max_snoc [OF ne] alternates_snoc emit_def warmup_def simp del: set_append split: if_splits)
  next
    case Risen
    with st s hull alt warm ne show ?thesis
      by (auto simp: rise_step_def rise_ok_def Let_def Min_Max_snoc [OF ne] alternates_snoc emit_def simp del: set_append split: if_splits)
  qed
qed

lemma rise_run_ok:
  assumes "0 < rp_baselineHalflifeMs p" "xs \<noteq> []" "run_detector (relativeRise p) xs = (s, out)"
  shows "rise_ok p xs s out"
  using assms(2,3)
proof (induction xs arbitrary: s out rule: rev_induct)
  case (snoc x xs)
  show ?case
  proof (cases "xs = []")
    case True
    with snoc.prems(2) show ?thesis
      by (auto simp: run_detector_def relativeRise_def rise_step_def rise_ok_def)
  next
    case False
    obtain s1 out1 where r: "run_detector (relativeRise p) xs = (s1, out1)" by fastforce
    obtain s2 out2 where st: "rise_step p s1 x = (s2, out2)" by fastforce
    from snoc.prems(2) r st have "s = s2" "out = out1 @ out2"
      by (simp_all add: run_detector_snoc relativeRise_def)
    with rise_step_ok [OF assms(1) False snoc.IH [OF False r] st] show ?thesis by simp
  qed
qed simp

section \<open>Increments of a counter\<close>

record increment_state =
  is_anchorAt :: "int option"
  is_anchorValue :: "real option"

datatype increment_tag = IncrementDetected

definition increment_step :: "real \<Rightarrow> int \<Rightarrow> increment_state \<Rightarrow> sample \<Rightarrow> increment_state \<times> increment_tag det_event list" where
  "increment_step minIncrement windowMs s x =
     (let anchored = \<lparr>is_anchorAt = Some (sa_at x), is_anchorValue = Some (sa_value x)\<rparr>
      in case (is_anchorAt s, is_anchorValue s) of
           (Some anchorAt, Some anchorValue) \<Rightarrow>
             (if sa_value x < anchorValue then (anchored, [])
              else if sa_at x - anchorAt > windowMs then (anchored, [])
              else if sa_value x - anchorValue \<ge> minIncrement
              then (anchored, [emit IncrementDetected x (sa_value x - anchorValue)])
              else (s, []))
         | _ \<Rightarrow> (anchored, []))"

definition incrementWatcher :: "real \<Rightarrow> int \<Rightarrow> (increment_state, increment_tag) detector" where
  "incrementWatcher minIncrement windowMs =
     \<lparr>dt_init = \<lparr>is_anchorAt = None, is_anchorValue = None\<rparr>, dt_step = increment_step minIncrement windowMs\<rparr>"

text \<open>How far a sequence of values has risen in all, its falls left out.\<close>

fun total_rise :: "real list \<Rightarrow> real" where
  "total_rise (v # w # vs) = max 0 (w - v) + total_rise (w # vs)"
| "total_rise _ = 0"

lemma total_rise_snoc: "vs \<noteq> [] \<Longrightarrow> total_rise (vs @ [v]) = total_rise vs + max 0 (v - last vs)"
proof (induction vs rule: total_rise.induct)
  case (1 u w vs)
  then show ?case by simp
qed simp_all

definition increment_ok :: "real \<Rightarrow> real list \<Rightarrow> increment_state \<Rightarrow> increment_tag det_event list \<Rightarrow> bool" where
  "increment_ok minIncrement vs s out \<longleftrightarrow>
     is_anchorAt s \<noteq> None \<and> list_all (\<lambda>e. minIncrement \<le> de_value e \<and> 0 \<le> de_value e) out
     \<and> (case is_anchorValue s of None \<Rightarrow> False
        | Some a \<Rightarrow> a \<le> last vs \<and> sum_list (map de_value out) + (last vs - a) \<le> total_rise vs)"

lemma increment_run_ok:
  assumes "xs \<noteq> []" "run_detector (incrementWatcher minIncrement windowMs) xs = (s, out)"
  shows "increment_ok minIncrement (map sa_value xs) s out"
  using assms
proof (induction xs arbitrary: s out rule: rev_induct)
  case (snoc x xs)
  show ?case
  proof (cases "xs = []")
    case True
    with snoc.prems(2) show ?thesis
      by (auto simp: run_detector_def incrementWatcher_def increment_step_def increment_ok_def Let_def)
  next
    case False
    obtain s1 out1 where r: "run_detector (incrementWatcher minIncrement windowMs) xs = (s1, out1)" by fastforce
    obtain s2 out2 where st: "increment_step minIncrement windowMs s1 x = (s2, out2)" by fastforce
    from snoc.prems(2) r st have eq: "s = s2" "out = out1 @ out2"
      by (simp_all add: run_detector_snoc incrementWatcher_def)
    from snoc.IH [OF False r] obtain a t where a: "is_anchorAt s1 = Some t" "is_anchorValue s1 = Some a"
      "a \<le> last (map sa_value xs)" "sum_list (map de_value out1) + (last (map sa_value xs) - a) \<le> total_rise (map sa_value xs)"
      "list_all (\<lambda>e. minIncrement \<le> de_value e \<and> 0 \<le> de_value e) out1"
      by (auto simp: increment_ok_def split: option.splits)
    have rise: "total_rise (map sa_value (xs @ [x])) = total_rise (map sa_value xs) + max 0 (sa_value x - last (map sa_value xs))"
      using False by (simp add: total_rise_snoc)
    have last: "last (map sa_value (xs @ [x])) = sa_value x" by simp
    show ?thesis
      unfolding increment_ok_def rise last eq using st a
      by (auto simp: increment_step_def Let_def emit_def split: if_splits)
  qed
qed simp

section \<open>A threshold that is kept\<close>

datatype sustain_phase = Quiet | Pending | Active

record sustain_state =
  ss_phase :: sustain_phase
  ss_pendingSince :: "int option"

datatype sustain_tag = ThresholdSustained | ThresholdCleared

record sustain_params =
  sp_threshold :: real
  sp_sustainMs :: int
  sp_clearBelow :: "real option"

definition sustain_step :: "sustain_params \<Rightarrow> sustain_state \<Rightarrow> sample \<Rightarrow> sustain_state \<times> sustain_tag det_event list" where
  "sustain_step p s x =
     (case ss_phase s of
        Quiet \<Rightarrow>
          (if sa_value x \<ge> sp_threshold p then (\<lparr>ss_phase = Pending, ss_pendingSince = Some (sa_at x)\<rparr>, []) else (s, []))
      | Pending \<Rightarrow>
          (if sa_value x < sp_threshold p then (\<lparr>ss_phase = Quiet, ss_pendingSince = None\<rparr>, [])
           else case ss_pendingSince s of
                  Some since \<Rightarrow>
                    (if sa_at x - since \<ge> sp_sustainMs p
                     then (\<lparr>ss_phase = Active, ss_pendingSince = None\<rparr>, [emit ThresholdSustained x (sa_value x)])
                     else (s, []))
                | None \<Rightarrow> (s, []))
      | Active \<Rightarrow>
          (if sa_value x < (case sp_clearBelow p of None \<Rightarrow> sp_threshold p | Some c \<Rightarrow> c)
           then (\<lparr>ss_phase = Quiet, ss_pendingSince = None\<rparr>, [emit ThresholdCleared x (sa_value x)])
           else (s, [])))"

definition sustainedAbove :: "sustain_params \<Rightarrow> (sustain_state, sustain_tag) detector" where
  "sustainedAbove p = \<lparr>dt_init = \<lparr>ss_phase = Quiet, ss_pendingSince = None\<rparr>, dt_step = sustain_step p\<rparr>"

text \<open>The samples end with a run of at least two that are all above the threshold and span at least \<open>d\<close> milliseconds.\<close>

definition kept_for :: "sustain_params \<Rightarrow> int \<Rightarrow> sample list \<Rightarrow> bool" where
  "kept_for p d xs \<longleftrightarrow> (\<exists>ys zs. xs = ys @ zs \<and> 2 \<le> length zs \<and> list_all (\<lambda>z. sp_threshold p \<le> sa_value z) zs
     \<and> d \<le> sa_at (last zs) - sa_at (hd zs))"

definition sustain_ok :: "sustain_params \<Rightarrow> sample list \<Rightarrow> sustain_state \<Rightarrow> sustain_tag det_event list \<Rightarrow> bool" where
  "sustain_ok p xs s out \<longleftrightarrow>
     alternates ThresholdSustained ThresholdCleared (map de_tag out)
     \<and> (ss_phase s = Active \<longleftrightarrow> odd (length out))
     \<and> (ss_phase s = Pending \<longrightarrow> (\<exists>ys zs. xs = ys @ zs \<and> zs \<noteq> [] \<and> list_all (\<lambda>z. sp_threshold p \<le> sa_value z) zs
          \<and> ss_pendingSince s = Some (sa_at (hd zs))))
     \<and> (\<forall>e \<in> set out. de_tag e = ThresholdSustained \<longrightarrow>
          (\<exists>n x. n < length xs \<and> x = xs ! n \<and> e = emit ThresholdSustained x (sa_value x) \<and> kept_for p (sp_sustainMs p) (take (Suc n) xs)))"

lemma sustain_eventI:
  assumes "\<forall>e \<in> set out. de_tag e = ThresholdSustained \<longrightarrow>
      (\<exists>n x. n < length xs \<and> x = xs ! n \<and> e = emit ThresholdSustained x (sa_value x) \<and> kept_for p d (take (Suc n) xs))"
  shows "\<forall>e \<in> set out. de_tag e = ThresholdSustained \<longrightarrow>
      (\<exists>n x'. n < length (xs @ [x]) \<and> x' = (xs @ [x]) ! n \<and> e = emit ThresholdSustained x' (sa_value x') \<and> kept_for p d (take (Suc n) (xs @ [x])))"
proof (intro ballI impI)
  fix e assume "e \<in> set out" "de_tag e = ThresholdSustained"
  with assms obtain n where n: "n < length xs" "e = emit ThresholdSustained (xs ! n) (sa_value (xs ! n))" "kept_for p d (take (Suc n) xs)"
    by blast
  then have "n < length (xs @ [x]) \<and> xs ! n = (xs @ [x]) ! n \<and> take (Suc n) (xs @ [x]) = take (Suc n) xs"
    by (simp add: nth_append)
  with n show "\<exists>n x'. n < length (xs @ [x]) \<and> x' = (xs @ [x]) ! n \<and> e = emit ThresholdSustained x' (sa_value x') \<and> kept_for p d (take (Suc n) (xs @ [x]))"
    by metis
qed

lemma sustain_step_ok:
  assumes ok: "sustain_ok p xs s out" and st: "sustain_step p s x = (s', out')"
  shows "sustain_ok p (xs @ [x]) s' (out @ out')"
proof -
  from ok have alt: "alternates ThresholdSustained ThresholdCleared (map de_tag out)" "ss_phase s = Active \<longleftrightarrow> odd (length out)"
    and pend: "ss_phase s = Pending \<Longrightarrow> \<exists>ys zs. xs = ys @ zs \<and> zs \<noteq> [] \<and> list_all (\<lambda>z. sp_threshold p \<le> sa_value z) zs
          \<and> ss_pendingSince s = Some (sa_at (hd zs))"
    and old: "\<forall>e \<in> set out. de_tag e = ThresholdSustained \<longrightarrow>
      (\<exists>n x. n < length xs \<and> x = xs ! n \<and> e = emit ThresholdSustained x (sa_value x) \<and> kept_for p (sp_sustainMs p) (take (Suc n) xs))"
    by (simp_all add: sustain_ok_def)
  note old = sustain_eventI [OF old, of x]
  show ?thesis
  proof (cases "ss_phase s")
    case Quiet
    show ?thesis
    proof (cases "sa_value x \<ge> sp_threshold p")
      case True
      with Quiet st have r: "s' = \<lparr>ss_phase = Pending, ss_pendingSince = Some (sa_at x)\<rparr>" "out' = []"
        by (simp_all add: sustain_step_def)
      have "\<exists>ys zs. xs @ [x] = ys @ zs \<and> zs \<noteq> [] \<and> list_all (\<lambda>z. sp_threshold p \<le> sa_value z) zs \<and> Some (sa_at x) = Some (sa_at (hd zs))"
        using True by (intro exI [of _ xs] exI [of _ "[x]"]) simp
      with r Quiet alt old show ?thesis by (simp add: sustain_ok_def)
    next
      case False
      with Quiet st alt old show ?thesis by (simp add: sustain_step_def sustain_ok_def)
    qed
  next
    case Pending
    from pend [OF Pending] obtain ys zs where z: "xs = ys @ zs" "zs \<noteq> []" "list_all (\<lambda>z. sp_threshold p \<le> sa_value z) zs"
      "ss_pendingSince s = Some (sa_at (hd zs))" by blast
    show ?thesis
    proof (cases "sa_value x < sp_threshold p")
      case True
      with Pending st have "s' = \<lparr>ss_phase = Quiet, ss_pendingSince = None\<rparr>" "out' = []" by (simp_all add: sustain_step_def)
      with Pending alt old show ?thesis by (simp add: sustain_ok_def)
    next
      case False
      then have all: "list_all (\<lambda>z. sp_threshold p \<le> sa_value z) (zs @ [x])" using z(3) by simp
      show ?thesis
      proof (cases "sa_at x - sa_at (hd zs) \<ge> sp_sustainMs p")
        case True
        with False Pending st z(4) have r: "s' = \<lparr>ss_phase = Active, ss_pendingSince = None\<rparr>"
          "out' = [emit ThresholdSustained x (sa_value x)]" by (simp_all add: sustain_step_def)
        have "kept_for p (sp_sustainMs p) (xs @ [x])"
          unfolding kept_for_def using z(1,2) all True
          by (intro exI [of _ ys] exI [of _ "zs @ [x]"]) (cases zs, auto)
        then have "\<exists>n x'. n < length (xs @ [x]) \<and> x' = (xs @ [x]) ! n
            \<and> emit ThresholdSustained x (sa_value x) = emit ThresholdSustained x' (sa_value x') \<and> kept_for p (sp_sustainMs p) (take (Suc n) (xs @ [x]))"
          by (intro exI [of _ "length xs"] exI [of _ x]) simp
        with r Pending alt old show ?thesis by (auto simp: sustain_ok_def alternates_snoc emit_def)
      next
        case small: False
        with False Pending st z(4) have r: "s' = s" "out' = []" by (simp_all add: sustain_step_def)
        have "\<exists>ys' zs'. xs @ [x] = ys' @ zs' \<and> zs' \<noteq> [] \<and> list_all (\<lambda>z. sp_threshold p \<le> sa_value z) zs' \<and> ss_pendingSince s = Some (sa_at (hd zs'))"
          using z all by (intro exI [of _ ys] exI [of _ "zs @ [x]"]) simp
        with r Pending alt old show ?thesis by (simp add: sustain_ok_def)
      qed
    qed
  next
    case Active
    with st alt old show ?thesis
      by (auto simp: sustain_step_def sustain_ok_def alternates_snoc emit_def split: if_splits)
  qed
qed

lemma sustain_run_ok: "run_detector (sustainedAbove p) xs = (s, out) \<Longrightarrow> sustain_ok p xs s out"
proof (induction xs arbitrary: s out rule: rev_induct)
  case Nil
  then show ?case by (auto simp: sustain_ok_def sustainedAbove_def)
next
  case (snoc x xs)
  obtain s1 out1 where r: "run_detector (sustainedAbove p) xs = (s1, out1)" by fastforce
  obtain s2 out2 where st: "sustain_step p s1 x = (s2, out2)" by fastforce
  from snoc.prems r st have "s = s2" "out = out1 @ out2" by (simp_all add: run_detector_snoc sustainedAbove_def)
  with sustain_step_ok [OF snoc.IH [OF r] st] show ?case by simp
qed

text \<open>With no time to sustain a single sample is still not enough: the first one only starts the wait.\<close>

lemma zero_sustain_needs_two_samples:
  "snd (run_detector (sustainedAbove \<lparr>sp_threshold = 1, sp_sustainMs = 0, sp_clearBelow = None\<rparr>) [x]) = []"
  by (simp add: run_detector_def sustainedAbove_def sustain_step_def)

section \<open>What the detectors promise\<close>

text \<open>
  The detectors over any sequence of samples. The rise detector reports rises and clearings in turn, beginning with a rise, no
  rise before the warm-up is over, and its baseline always lies between the smallest and the greatest value seen. The
  threshold detector reports in turn as well, and only after the value has been at or above the threshold in every sample of a stretch of at
  least two that is as long as required. The increment watcher never counts an increment twice: what it reports sums up
  to no more than the counter has risen, each report being at least the minimum.
\<close>

lemma detectors_report_truly:
  assumes "run_detector (relativeRise p) xs = (s, rises)" "run_detector (sustainedAbove q) xs = (t, sustained)"
    and "run_detector (incrementWatcher minIncrement windowMs) xs = (u, increments)"
    and "xs \<noteq> []" "0 < rp_baselineHalflifeMs p"
  shows "alternates RiseDetected RiseCleared (map de_tag rises)
    \<and> (rs_phase s = Risen \<longleftrightarrow> odd (length rises))
    \<and> list_all (\<lambda>e. de_tag e = RiseCleared \<or> sa_at (hd xs) + warmup p \<le> de_at e) rises
    \<and> (case rs_ema s of None \<Rightarrow> False | Some m \<Rightarrow> Min (sa_value ` set xs) \<le> m \<and> m \<le> Max (sa_value ` set xs))
    \<and> alternates ThresholdSustained ThresholdCleared (map de_tag sustained)
    \<and> (\<forall>e \<in> set sustained. de_tag e = ThresholdSustained \<longrightarrow>
        (\<exists>n x. n < length xs \<and> x = xs ! n \<and> e = emit ThresholdSustained x (sa_value x) \<and> kept_for q (sp_sustainMs q) (take (Suc n) xs)))
    \<and> sum_list (map de_value increments) \<le> total_rise (map sa_value xs)
    \<and> list_all (\<lambda>e. minIncrement \<le> de_value e) increments"
proof -
  have r: "rise_ok p xs s rises" using rise_run_ok [OF assms(5,4,1)] .
  have q: "sustain_ok q xs t sustained" using sustain_run_ok [OF assms(2)] .
  have i: "increment_ok minIncrement (map sa_value xs) u increments" using increment_run_ok [OF assms(4,3)] .
  then have "sum_list (map de_value increments) \<le> total_rise (map sa_value xs)" "list_all (\<lambda>e. minIncrement \<le> de_value e) increments"
    by (auto simp: increment_ok_def list_all_iff split: option.splits)
  with r q show ?thesis by (simp add: rise_ok_def sustain_ok_def)
qed

definition demo_samples :: "sample list" where
  "demo_samples = map (\<lambda>(t, v). \<lparr>sa_at = t, sa_value = v, sa_obsId = ''o''\<rparr>) [(0, 10), (5, 30), (7, 30), (9, 10)]"

definition demo_rise :: rise_params where
  "demo_rise = \<lparr>rp_baselineHalflifeMs = 100, rp_risePct = 50, rp_clearPct = 10, rp_warmupMs = Some 5\<rparr>"

definition demo_sustain :: sustain_params where
  "demo_sustain = \<lparr>sp_threshold = 20, sp_sustainMs = 2, sp_clearBelow = None\<rparr>"

lemmas demo_run = run_detector_def relativeRise_def sustainedAbove_def incrementWatcher_def rise_step_def sustain_step_def
  increment_step_def demo_samples_def demo_rise_def demo_sustain_def emit_def Let_def

lemma detectors_report_truly_example:
  "map de_tag (snd (run_detector (relativeRise demo_rise) demo_samples)) = [RiseDetected, RiseCleared]
   \<and> alternates RiseDetected RiseCleared (map de_tag (snd (run_detector (relativeRise demo_rise) demo_samples)))
   \<and> map de_at (snd (run_detector (sustainedAbove demo_sustain) demo_samples)) = [7, 9]
   \<and> map de_value (snd (run_detector (incrementWatcher 5 10) demo_samples)) = [20]
   \<and> sum_list (map de_value (snd (run_detector (incrementWatcher 5 10) demo_samples))) \<le> total_rise (map sa_value demo_samples)"
proof -
  have ne: "demo_samples \<noteq> []" "0 < rp_baselineHalflifeMs demo_rise" by (simp_all add: demo_samples_def demo_rise_def)
  note d = detectors_report_truly [OF surjective_pairing surjective_pairing surjective_pairing ne, where q = demo_sustain and minIncrement = 5 and windowMs = 10]
  have "map de_tag (snd (run_detector (relativeRise demo_rise) demo_samples)) = [RiseDetected, RiseCleared]"
    "map de_at (snd (run_detector (sustainedAbove demo_sustain) demo_samples)) = [7, 9]"
    "map de_value (snd (run_detector (incrementWatcher 5 10) demo_samples)) = [20]"
    by (simp_all add: demo_run)
  with d show ?thesis by simp
qed

end
