(* ===== verification/Ha_Bridge.thy ===== *)
theory Ha_Bridge
  imports Ha_Signals Ha_Detectors
begin

text \<open>
  \<open>ha/bridge.ts\<close>: routes the states of Home Assistant into the signal table, with a debounce per entity, and keeps a cache of the live
  states. The clock, the identifiers and the failures of the table are arguments.
\<close>

section \<open>Routes\<close>

datatype debounce_class = OnChange | Deadband | ThrottleEma | SlowContext

record route_state =
  rt_debounce :: debounce_class
  rt_deadband :: "real option"
  rt_emaHalflifeMs :: "real option"
  rt_emitIntervalMs :: "int option"
  rt_hasEmitted :: bool
  rt_lastEmitted :: nvalue
  rt_baselineChecked :: bool
  rt_ema :: "real option"
  rt_lastSampleAt :: "int option"
  rt_lastEmitAt :: "int option"

record route_spec =
  rp_entityId :: string
  rp_debounce :: debounce_class
  rp_deadband :: "real option"
  rp_emaHalflifeMs :: "real option"
  rp_emitIntervalMs :: "int option"

definition route_of :: "route_spec \<Rightarrow> route_state" where
  "route_of spec =
     \<lparr>rt_debounce = rp_debounce spec, rt_deadband = rp_deadband spec, rt_emaHalflifeMs = rp_emaHalflifeMs spec,
      rt_emitIntervalMs = rp_emitIntervalMs spec, rt_hasEmitted = False, rt_lastEmitted = NNull, rt_baselineChecked = False,
      rt_ema = None, rt_lastSampleAt = None, rt_lastEmitAt = None\<rparr>"

definition round3 :: "real \<Rightarrow> real" where
  "round3 x = of_int \<lfloor>x * 1000 + 1 / 2\<rfloor> / 1000"

fun type_name :: "nvalue \<Rightarrow> string" where
  "type_name NNull = ''object''"
| "type_name (NNum x) = ''number''"
| "type_name (NStr x) = ''string''"
| "type_name (NBool x) = ''boolean''"

definition typeChanged :: "nvalue \<Rightarrow> nvalue \<Rightarrow> bool" where
  "typeChanged a b =
     (if a = NNull \<or> b = NNull then (a = NNull) \<noteq> (b = NNull) else type_name a \<noteq> type_name b)"

definition seedEma :: "nvalue \<Rightarrow> int \<Rightarrow> route_state \<Rightarrow> route_state" where
  "seedEma v at_ms rs =
     (if rt_debounce rs \<noteq> ThrottleEma then rs
      else rs\<lparr>rt_ema := (case v of NNum x \<Rightarrow> Some x | _ \<Rightarrow> None),
             rt_lastSampleAt := (case v of NNum x \<Rightarrow> Some at_ms | _ \<Rightarrow> None),
             rt_lastEmitAt := Some at_ms\<rparr>)"

text \<open>
  What \<open>handleStateChanged\<close> does with a value of a routed entity: the route's state afterwards, and the value to append, or none when it is
  suppressed.
\<close>

definition on_change :: "nvalue \<Rightarrow> route_state \<Rightarrow> nvalue option" where
  "on_change v rs = (if v \<noteq> rt_lastEmitted rs then Some v else None)"

definition throttle :: "real \<Rightarrow> int \<Rightarrow> route_state \<Rightarrow> route_state \<times> nvalue option" where
  "throttle v at_ms rs =
     (let halflifeMs = (case rt_emaHalflifeMs rs of None \<Rightarrow> 10000 | Some h \<Rightarrow> h);
          emitIntervalMs = (case rt_emitIntervalMs rs of None \<Rightarrow> 10000 | Some n \<Rightarrow> n);
          ema = (case (rt_ema rs, rt_lastSampleAt rs) of
                   (Some m, Some t) \<Rightarrow> ema_step halflifeMs t at_ms m v
                 | _ \<Rightarrow> v);
          rs' = rs\<lparr>rt_ema := Some ema, rt_lastSampleAt := Some at_ms\<rparr>
      in if (case rt_lastEmitAt rs of None \<Rightarrow> True | Some t \<Rightarrow> at_ms - t \<ge> emitIntervalMs)
         then (rs'\<lparr>rt_lastEmitAt := Some at_ms\<rparr>, Some (NNum (round3 ema)))
         else (rs', None))"

definition debounce :: "nvalue \<Rightarrow> int \<Rightarrow> route_state \<Rightarrow> route_state \<times> nvalue option" where
  "debounce v at_ms rs =
     (if \<not> rt_hasEmitted rs \<or> typeChanged v (rt_lastEmitted rs)
      then if rt_debounce rs = ThrottleEma
           then (seedEma v at_ms rs, Some (case v of NNum x \<Rightarrow> NNum (round3 x) | _ \<Rightarrow> v))
           else (rs, Some v)
      else case rt_debounce rs of
             OnChange \<Rightarrow> (rs, on_change v rs)
           | SlowContext \<Rightarrow> (rs, on_change v rs)
           | Deadband \<Rightarrow>
               (case (v, rt_lastEmitted rs, rt_deadband rs) of
                  (NNum x, NNum y, Some d) \<Rightarrow> (rs, if \<bar>x - y\<bar> \<ge> d then Some v else None)
                | _ \<Rightarrow> (rs, on_change v rs))
           | ThrottleEma \<Rightarrow>
               (case v of NNum x \<Rightarrow> throttle x at_ms rs | _ \<Rightarrow> (rs, on_change v rs)))"

section \<open>The bridge\<close>

record bridge_stats =
  bs_routedEntities :: nat
  bs_received :: nat
  bs_appended :: nat
  bs_suppressed :: nat
  bs_resyncSynthesized :: nat
  bs_lastSignalAt :: "int option"
  bs_prunedTotal :: nat

record 'a bridge =
  br_started :: bool
  br_routes :: "(string, route_state) jsmap"
  br_cache :: "(string, 'a entity_state) jsmap"
  br_stats :: bridge_stats
  br_store :: "'a entity_state signal_table"
  br_signals :: "'a entity_state signal_row list"
  br_calls :: nat

text \<open>The options, the identifiers that \<open>ulid()\<close> gives, the version the client has seen, and which writes to the table fail.\<close>

record bridge_opts =
  bo_policyVersion :: int
  bo_retentionDays :: int
  bo_ulid :: "nat \<Rightarrow> string"
  bo_haVersion :: "nat \<Rightarrow> string option"
  bo_fails :: "nat \<Rightarrow> bool"

definition add_route :: "(string, route_state) jsmap \<Rightarrow> route_spec \<Rightarrow> js_error + (string, route_state) jsmap" where
  "add_route m spec =
     (if js_get m (rp_entityId spec) \<noteq> None
      then Inl (JsError (''Duplicate route for entity \"'' @ rp_entityId spec @ ''\"''))
      else Inr (js_set (rp_entityId spec) (route_of spec) m))"

definition createHaBridge :: "route_spec list \<Rightarrow> 'a entity_state signal_table \<Rightarrow> js_error + 'a bridge" where
  "createHaBridge routes store =
     (case foldE add_route [] routes of
        Inl e \<Rightarrow> Inl e
      | Inr m \<Rightarrow> Inr
          \<lparr>br_started = False, br_routes = m, br_cache = [],
           br_stats = \<lparr>bs_routedEntities = length m, bs_received = 0, bs_appended = 0, bs_suppressed = 0, bs_resyncSynthesized = 0,
             bs_lastSignalAt = None, bs_prunedTotal = 0\<rparr>,
           br_store = store, br_signals = [], br_calls = 0\<rparr>)"

definition put_route :: "string \<Rightarrow> route_state \<Rightarrow> 'a bridge \<Rightarrow> 'a bridge" where
  "put_route i rs b = b\<lparr>br_routes := js_set i rs (br_routes b)\<rparr>"

text \<open>
  \<open>append\<close>: the row goes into the table, the counters and the route change, and the tap sees it. When the table throws,
  nothing of that happens and the handler throws.
\<close>

definition br_append ::
  "bridge_opts \<Rightarrow> string \<Rightarrow> route_state \<Rightarrow> normalized \<Rightarrow> 'a entity_state option \<Rightarrow> int \<Rightarrow> int \<Rightarrow> signal_origin \<Rightarrow> 'a bridge \<Rightarrow>
   'a bridge \<times> js_error option" where
  "br_append opts i rs nz raw at_ms haTimeFired origin b =
     (let row = \<lparr>sg_obsId = bo_ulid opts (br_calls b), sg_entityId = i, sg_at = at_ms, sg_haTimeFired = haTimeFired, sg_raw = raw,
                sg_normalized = nz, sg_origin = origin, sg_haVersion = bo_haVersion opts (br_calls b),
                sg_policyVersion = bo_policyVersion opts\<rparr>;
          b1 = b\<lparr>br_calls := Suc (br_calls b)\<rparr>
      in case (if bo_fails opts (br_calls b) then Inl (JsError ''disk I/O error'') else store_append row (br_store b)) of
           Inl e \<Rightarrow> (b1, Some e)
         | Inr tbl \<Rightarrow>
             (put_route i (rs\<lparr>rt_hasEmitted := True, rt_lastEmitted := nz_value nz\<rparr>)
                (b1\<lparr>br_store := tbl, br_signals := br_signals b @ [row],
                   br_stats := (br_stats b)\<lparr>bs_appended := Suc (bs_appended (br_stats b)), bs_lastSignalAt := Some at_ms\<rparr>\<rparr>), None))"

record 'a state_changed =
  sc_entityId :: string
  sc_newState :: "'a entity_state option"
  sc_timeFired :: int

definition handleStateChanged :: "bridge_opts \<Rightarrow> int \<Rightarrow> 'a state_changed \<Rightarrow> 'a bridge \<Rightarrow> 'a bridge \<times> js_error option" where
  "handleStateChanged opts now e b =
     (let i = sc_entityId e;
          b1 = b\<lparr>br_cache := (case sc_newState e of None \<Rightarrow> js_delete i (br_cache b) | Some st \<Rightarrow> js_set i st (br_cache b))\<rparr>
      in case js_get (br_routes b) i of
           None \<Rightarrow> (b1, None)
         | Some rs \<Rightarrow>
             (let b2 = b1\<lparr>br_stats := (br_stats b)\<lparr>bs_received := Suc (bs_received (br_stats b))\<rparr>\<rparr>;
                  nv = (case sc_newState e of None \<Rightarrow> \<lparr>nz_value = NNull, nz_unit = None\<rparr> | Some st \<Rightarrow> normalizeState st);
                  d = debounce (nz_value nv) now rs;
                  b3 = put_route i (fst d) b2
              in case snd d of
                   None \<Rightarrow> (b3\<lparr>br_stats := (br_stats b3)\<lparr>bs_suppressed := Suc (bs_suppressed (br_stats b3))\<rparr>\<rparr>, None)
                 | Some v \<Rightarrow> br_append opts i (fst d) \<lparr>nz_value = v, nz_unit = nz_unit nv\<rparr> (sc_newState e) now (sc_timeFired e) FromHa b3))"

text \<open>One entity of a snapshot.\<close>

definition check_baseline :: "string \<Rightarrow> 'a entity_state signal_table \<Rightarrow> route_state \<Rightarrow> route_state" where
  "check_baseline i store rs =
     (if \<not> rt_hasEmitted rs \<and> \<not> rt_baselineChecked rs
      then (case store_latest i store of
              None \<Rightarrow> rs\<lparr>rt_baselineChecked := True\<rparr>
            | Some row \<Rightarrow> seedEma (nz_value (sg_normalized row)) (sg_at row)
                (rs\<lparr>rt_baselineChecked := True, rt_hasEmitted := True, rt_lastEmitted := nz_value (sg_normalized row)\<rparr>))
      else rs)"

definition snapshot_entity :: "bridge_opts \<Rightarrow> bool \<Rightarrow> (string \<Rightarrow> int) \<Rightarrow> 'a bridge \<Rightarrow> 'a entity_state \<Rightarrow> 'a bridge \<times> js_error option" where
  "snapshot_entity opts resync clock b st =
     (let i = es_entity_id st
      in case js_get (br_routes b) i of
           None \<Rightarrow> (b, None)
         | Some rs0 \<Rightarrow>
             (let nv = normalizeState st;
                  at_ms = clock i;
                  haTimeFired = (case es_last_updated st of Some t \<Rightarrow> t | None \<Rightarrow> at_ms);
                  rs = check_baseline i (br_store b) rs0
              in if rt_hasEmitted rs \<and> nz_value nv = rt_lastEmitted rs then (put_route i rs b, None)
                 else (let rs' = seedEma (nz_value nv) at_ms rs;
                           r = br_append opts i rs' nv (Some st) at_ms haTimeFired (if resync then FromResync else FromHa) (put_route i rs' b)
                       in case snd r of
                            Some e \<Rightarrow> r
                          | None \<Rightarrow>
                              ((if resync then (fst r)\<lparr>br_stats := (br_stats (fst r))\<lparr>bs_resyncSynthesized := Suc (bs_resyncSynthesized (br_stats (fst r)))\<rparr>\<rparr>
                                else fst r), None))))"

fun snapshot_loop :: "bridge_opts \<Rightarrow> bool \<Rightarrow> (string \<Rightarrow> int) \<Rightarrow> 'a bridge \<Rightarrow> 'a entity_state list \<Rightarrow> 'a bridge \<times> js_error option" where
  "snapshot_loop opts resync clock b [] = (b, None)"
| "snapshot_loop opts resync clock b (st # sts) =
     (case snapshot_entity opts resync clock b st of
        (b', Some e) \<Rightarrow> (b', Some e)
      | (b', None) \<Rightarrow> snapshot_loop opts resync clock b' sts)"

definition handleSnapshot :: "bridge_opts \<Rightarrow> bool \<Rightarrow> (string \<Rightarrow> int) \<Rightarrow> 'a entity_state list \<Rightarrow> 'a bridge \<Rightarrow> 'a bridge \<times> js_error option" where
  "handleSnapshot opts resync clock states b =
     snapshot_loop opts resync clock (b\<lparr>br_cache := js_of_list (map (\<lambda>st. (es_entity_id st, st)) states)\<rparr>) states"

definition sweep :: "bridge_opts \<Rightarrow> bool \<Rightarrow> int \<Rightarrow> 'a bridge \<Rightarrow> 'a bridge" where
  "sweep opts throws now b =
     (if throws then b
      else (let r = store_prune now (bo_retentionDays opts) (br_store b)
            in b\<lparr>br_store := snd r, br_stats := (br_stats b)\<lparr>bs_prunedTotal := bs_prunedTotal (br_stats b) + fst r\<rparr>\<rparr>))"

definition bridge_start :: "bridge_opts \<Rightarrow> bool \<Rightarrow> int \<Rightarrow> 'a bridge \<Rightarrow> 'a bridge" where
  "bridge_start opts throws now b = (if br_started b then b else sweep opts throws now (b\<lparr>br_started := True\<rparr>))"

definition bridge_stop :: "'a bridge \<Rightarrow> 'a bridge" where
  "bridge_stop b = b\<lparr>br_started := False\<rparr>"

definition liveState :: "string \<Rightarrow> 'a bridge \<Rightarrow> 'a entity_state option" where
  "liveState i b = js_get (br_cache b) i"

definition routedEntities :: "'a bridge \<Rightarrow> string list" where
  "routedEntities b = map fst (br_routes b)"

definition stats_cacheSize :: "'a bridge \<Rightarrow> nat" where
  "stats_cacheSize b = length (br_cache b)"

text \<open>A run without failures of the table, and how many rows snapshots have appended.\<close>

inductive bridge_run :: "bridge_opts \<Rightarrow> nat \<Rightarrow> 'a bridge \<Rightarrow> bool" for opts where
  created: "createHaBridge routes store = Inr b \<Longrightarrow> bridge_run opts 0 b"
| changed: "bridge_run opts n b \<Longrightarrow> br_started b \<Longrightarrow> handleStateChanged opts now e b = (b', None) \<Longrightarrow> bridge_run opts n b'"
| snapped: "bridge_run opts n b \<Longrightarrow> br_started b \<Longrightarrow> handleSnapshot opts resync clock states b = (b', None) \<Longrightarrow>
    bridge_run opts (n + (length (br_signals b') - length (br_signals b))) b'"
| swept: "bridge_run opts n b \<Longrightarrow> br_started b \<Longrightarrow> bridge_run opts n (sweep opts throws now b)"
| started: "bridge_run opts n b \<Longrightarrow> bridge_run opts n (bridge_start opts throws now b)"
| stopped: "bridge_run opts n b \<Longrightarrow> bridge_run opts n (bridge_stop b)"

section \<open>The table follows the live states\<close>

text \<open>What a route's last appended value says about the live value.\<close>

definition tracks :: "route_state \<Rightarrow> nvalue \<Rightarrow> bool" where
  "tracks rs v \<longleftrightarrow> rt_hasEmitted rs \<and> \<not> typeChanged v (rt_lastEmitted rs)
     \<and> (case rt_debounce rs of
          Deadband \<Rightarrow>
            (case (v, rt_lastEmitted rs, rt_deadband rs) of
               (NNum x, NNum y, Some d) \<Rightarrow> x = y \<or> \<bar>x - y\<bar> < d
             | _ \<Rightarrow> v = rt_lastEmitted rs)
        | ThrottleEma \<Rightarrow> (case v of NNum x \<Rightarrow> True | _ \<Rightarrow> v = rt_lastEmitted rs)
        | _ \<Rightarrow> v = rt_lastEmitted rs)"

lemma typeChanged_same [simp]: "\<not> typeChanged v v"
  by (simp add: typeChanged_def)

lemma typeChanged_num [simp]: "\<not> typeChanged (NNum x) (NNum y)"
  by (simp add: typeChanged_def)

lemma tracks_same: "rt_hasEmitted rs \<Longrightarrow> v = rt_lastEmitted rs \<Longrightarrow> tracks rs v"
  by (auto simp: tracks_def split: debounce_class.split nvalue.split option.split)

lemma seedEma_frames [simp, frames]:
  "rt_debounce (seedEma v t rs) = rt_debounce rs" "rt_deadband (seedEma v t rs) = rt_deadband rs"
  "rt_hasEmitted (seedEma v t rs) = rt_hasEmitted rs" "rt_lastEmitted (seedEma v t rs) = rt_lastEmitted rs"
  by (simp_all add: seedEma_def)

lemma throttle_tracks:
  assumes "throttle x t rs = (rs', d)" "rt_debounce rs = ThrottleEma" "rt_hasEmitted rs" "\<not> typeChanged (NNum x) (rt_lastEmitted rs)"
  shows "case d of
     Some w \<Rightarrow> tracks (rs'\<lparr>rt_hasEmitted := True, rt_lastEmitted := w\<rparr>) (NNum x)
   | None \<Rightarrow> tracks rs' (NNum x) \<and> rt_hasEmitted rs' = rt_hasEmitted rs \<and> rt_lastEmitted rs' = rt_lastEmitted rs"
  using assms by (auto simp: throttle_def Let_def tracks_def split: if_splits)

lemma debounce_tracks:
  assumes "debounce v t rs = (rs', d)"
  shows "case d of
     Some w \<Rightarrow> tracks (rs'\<lparr>rt_hasEmitted := True, rt_lastEmitted := w\<rparr>) v
   | None \<Rightarrow> tracks rs' v \<and> rt_hasEmitted rs' = rt_hasEmitted rs \<and> rt_lastEmitted rs' = rt_lastEmitted rs"
proof (cases "\<not> rt_hasEmitted rs \<or> typeChanged v (rt_lastEmitted rs)")
  case True
  show ?thesis
  proof (cases "rt_debounce rs = ThrottleEma")
    case t: True
    with True assms have "rs' = seedEma v t rs" "d = Some (case v of NNum x \<Rightarrow> NNum (round3 x) | _ \<Rightarrow> v)"
      by (auto simp: debounce_def)
    with t show ?thesis by (cases v) (simp_all add: tracks_def)
  next
    case False
    with True assms have "rs' = rs" "d = Some v" by (auto simp: debounce_def)
    then show ?thesis by (simp add: tracks_same)
  qed
next
  case False
  then have e: "rt_hasEmitted rs" "\<not> typeChanged v (rt_lastEmitted rs)" by simp_all
  have same: "case on_change v rs of
     Some w \<Rightarrow> tracks (rs\<lparr>rt_hasEmitted := True, rt_lastEmitted := w\<rparr>) v | None \<Rightarrow> tracks rs v"
    using e by (auto simp: on_change_def tracks_same)
  show ?thesis
  proof (cases "rt_debounce rs")
    case OnChange
    with False assms same show ?thesis by (auto simp: debounce_def split: option.splits)
  next
    case SlowContext
    with False assms same show ?thesis by (auto simp: debounce_def split: option.splits)
  next
    case ThrottleEma
    show ?thesis
    proof (cases v)
      case (NNum x)
      with False ThrottleEma assms have "throttle x t rs = (rs', d)" by (simp add: debounce_def)
      from throttle_tracks [OF this ThrottleEma e(1)] e(2) NNum show ?thesis by (cases d) simp_all
    qed (use False assms same ThrottleEma in \<open>auto simp: debounce_def split: option.splits\<close>)
  next
    case Deadband
    show ?thesis
    proof (cases "\<exists>x y d'. v = NNum x \<and> rt_lastEmitted rs = NNum y \<and> rt_deadband rs = Some d'")
      case True
      then obtain x y d' where n: "v = NNum x" "rt_lastEmitted rs = NNum y" "rt_deadband rs = Some d'" by blast
      with False Deadband assms have "rs' = rs" "d = (if \<bar>x - y\<bar> \<ge> d' then Some v else None)" by (auto simp: debounce_def)
      with n e Deadband show ?thesis by (auto simp: tracks_def)
    next
      case other: False
      with False Deadband assms have "rs' = rs" "d = on_change v rs"
        by (auto simp: debounce_def split: nvalue.splits option.splits)
      with same show ?thesis by (auto split: option.splits)
    qed
  qed
qed

definition rows_of :: "string \<Rightarrow> 'a bridge \<Rightarrow> 'a entity_state signal_row list" where
  "rows_of i b = filter (\<lambda>r. sg_entityId r = i) (br_signals b)"

text \<open>The last row of a route holds the value that the route remembers.\<close>

definition remembers :: "'a entity_state signal_row list \<Rightarrow> route_state \<Rightarrow> bool" where
  "remembers rows rs \<longleftrightarrow> rows = [] \<or> (rt_hasEmitted rs \<and> rt_lastEmitted rs = nz_value (sg_normalized (last rows)))"

definition routes_ok :: "(string \<Rightarrow> 'a entity_state option) \<Rightarrow> 'a bridge \<Rightarrow> bool" where
  "routes_ok live b \<longleftrightarrow>
     (\<forall>i rs. js_get (br_routes b) i = Some rs \<longrightarrow>
        (case live i of None \<Rightarrow> True | Some st \<Rightarrow> tracks rs (nz_value (normalizeState st))) \<and> remembers (rows_of i b) rs)"

lemma routes_okD:
  assumes "routes_ok live b" "js_get (br_routes b) i = Some rs"
  shows "live i = Some st \<Longrightarrow> tracks rs (nz_value (normalizeState st))" "remembers (rows_of i b) rs"
proof -
  from assms have "(case live i of None \<Rightarrow> True | Some st \<Rightarrow> tracks rs (nz_value (normalizeState st))) \<and> remembers (rows_of i b) rs"
    unfolding routes_ok_def by blast
  then show "live i = Some st \<Longrightarrow> tracks rs (nz_value (normalizeState st))" "remembers (rows_of i b) rs" by simp_all
qed

text \<open>The counters.\<close>

definition counts_ok :: "nat \<Rightarrow> 'a bridge \<Rightarrow> bool" where
  "counts_ok n b \<longleftrightarrow> bs_appended (br_stats b) = length (br_signals b)
     \<and> bs_received (br_stats b) + n = bs_appended (br_stats b) + bs_suppressed (br_stats b)
     \<and> bs_resyncSynthesized (br_stats b) \<le> n"

lemma br_append_ok:
  assumes "br_append opts i rs nz raw t fired origin b = (b', None)"
  obtains row where "sg_entityId row = i" "sg_normalized row = nz" "sg_at row = t"
    "br_signals b' = br_signals b @ [row]"
    "br_routes b' = js_set i (rs\<lparr>rt_hasEmitted := True, rt_lastEmitted := nz_value nz\<rparr>) (br_routes b)"
    "br_cache b' = br_cache b" "br_started b' = br_started b"
    "br_stats b' = (br_stats b)\<lparr>bs_appended := Suc (bs_appended (br_stats b)), bs_lastSignalAt := Some t\<rparr>"
proof -
  let ?row = "\<lparr>sg_obsId = bo_ulid opts (br_calls b), sg_entityId = i, sg_at = t, sg_haTimeFired = fired, sg_raw = raw,
    sg_normalized = nz, sg_origin = origin, sg_haVersion = bo_haVersion opts (br_calls b), sg_policyVersion = bo_policyVersion opts\<rparr>"
  from assms obtain tbl where "b' = put_route i (rs\<lparr>rt_hasEmitted := True, rt_lastEmitted := nz_value nz\<rparr>)
      (b\<lparr>br_calls := Suc (br_calls b), br_store := tbl, br_signals := br_signals b @ [?row],
         br_stats := (br_stats b)\<lparr>bs_appended := Suc (bs_appended (br_stats b)), bs_lastSignalAt := Some t\<rparr>\<rparr>)"
    by (auto simp: br_append_def Let_def split: if_splits sum.splits)
  then show thesis by (intro that [of ?row]) (simp_all add: put_route_def)
qed

text \<open>A new row for a route, and a route that only remembers what it did.\<close>

lemma routes_ok_append:
  assumes "routes_ok live b" "br_routes b' = js_set i rs' m" "js_get m = (js_get (br_routes b))(i := x)"
    and "br_signals b' = br_signals b @ [row]" "sg_entityId row = i"
    and "rt_hasEmitted rs'" "rt_lastEmitted rs' = nz_value (sg_normalized row)"
    and "\<And>st. live' i = Some st \<Longrightarrow> tracks rs' (nz_value (normalizeState st))" "\<And>k. k \<noteq> i \<Longrightarrow> live' k = live k"
  shows "routes_ok live' b'"
  unfolding routes_ok_def
proof (intro allI impI)
  fix k rs assume k: "js_get (br_routes b') k = Some rs"
  show "(case live' k of None \<Rightarrow> True | Some st \<Rightarrow> tracks rs (nz_value (normalizeState st))) \<and> remembers (rows_of k b') rs"
  proof (cases "k = i")
    case True
    with k assms(2) have "rs = rs'" by simp
    with True assms(4-8) show ?thesis by (auto simp: remembers_def rows_of_def split: option.split)
  next
    case False
    with k assms(2,3) have "js_get (br_routes b) k = Some rs" by simp
    with routes_okD [OF assms(1) this] False assms(4,5,9) show ?thesis by (auto simp: rows_of_def split: option.split)
  qed
qed

lemma routes_ok_keep:
  assumes "routes_ok live b" "br_routes b' = js_set i rs' (br_routes b)" "js_get (br_routes b) i = Some rs"
    and "br_signals b' = br_signals b" "remembers (rows_of i b) rs \<Longrightarrow> remembers (rows_of i b) rs'"
    and "\<And>st. live' i = Some st \<Longrightarrow> tracks rs' (nz_value (normalizeState st))" "\<And>k. k \<noteq> i \<Longrightarrow> live' k = live k"
  shows "routes_ok live' b'"
  unfolding routes_ok_def
proof (intro allI impI)
  fix k r assume k: "js_get (br_routes b') k = Some r"
  show "(case live' k of None \<Rightarrow> True | Some st \<Rightarrow> tracks r (nz_value (normalizeState st))) \<and> remembers (rows_of k b') r"
  proof (cases "k = i")
    case True
    with k assms(2) have "r = rs'" by simp
    with True assms(4,5,6) routes_okD(2) [OF assms(1,3)] show ?thesis by (auto simp: rows_of_def split: option.split)
  next
    case False
    with k assms(2) have "js_get (br_routes b) k = Some r" by simp
    with routes_okD [OF assms(1) this] False assms(4,7) show ?thesis by (auto simp: rows_of_def split: option.split)
  qed
qed

lemma routes_ok_live: "routes_ok live b \<Longrightarrow> br_routes b' = br_routes b \<Longrightarrow> br_signals b' = br_signals b \<Longrightarrow>
    (\<And>k st rs. live' k = Some st \<Longrightarrow> js_get (br_routes b) k = Some rs \<Longrightarrow> live k = Some st) \<Longrightarrow> routes_ok live' b'"
  by (fastforce simp: routes_ok_def rows_of_def split: option.splits)

lemma changed_ok:
  assumes ok: "routes_ok (js_get (br_cache b)) b" and cnt: "counts_ok n b"
    and h: "handleStateChanged opts now e b = (b', None)"
  shows "routes_ok (js_get (br_cache b')) b' \<and> counts_ok n b'"
proof -
  let ?i = "sc_entityId e"
  let ?cache = "case sc_newState e of None \<Rightarrow> js_delete ?i (br_cache b) | Some st \<Rightarrow> js_set ?i st (br_cache b)"
  have other: "js_get ?cache k = js_get (br_cache b) k" if "k \<noteq> ?i" for k using that by (cases "sc_newState e") simp_all
  show ?thesis
  proof (cases "js_get (br_routes b) ?i")
    case None
    with h have b': "b' = b\<lparr>br_cache := ?cache\<rparr>" by (simp add: handleStateChanged_def Let_def)
    have "routes_ok (js_get ?cache) (b\<lparr>br_cache := ?cache\<rparr>)"
    proof (rule routes_ok_live [OF ok])
      fix k st rs assume "js_get ?cache k = Some st" "js_get (br_routes b) k = Some rs"
      with None other [of k] show "js_get (br_cache b) k = Some st" by (cases "k = ?i") simp_all
    qed simp_all
    with cnt b' show ?thesis by (simp add: counts_ok_def)
  next
    case (Some rs)
    define v where "v = nz_value (case sc_newState e of None \<Rightarrow> \<lparr>nz_value = NNull, nz_unit = None\<rparr> | Some st \<Rightarrow> normalizeState st)"
    obtain rs' d where d: "debounce v now rs = (rs', d)" by fastforce
    have live: "v = nz_value (normalizeState st)" if "js_get ?cache ?i = Some st" for st
      using that by (cases "sc_newState e") (simp_all add: v_def)
    show ?thesis
    proof (cases d)
      case None
      let ?b = "(put_route ?i rs' (b\<lparr>br_cache := ?cache\<rparr>))\<lparr>br_stats := (br_stats b)\<lparr>bs_received := Suc (bs_received (br_stats b)), bs_suppressed := Suc (bs_suppressed (br_stats b))\<rparr>\<rparr>"
      from None Some h d have b': "b' = ?b"
        by (simp add: handleStateChanged_def Let_def v_def put_route_def)
      from debounce_tracks [OF d] None have t: "tracks rs' v" "rt_hasEmitted rs' = rt_hasEmitted rs" "rt_lastEmitted rs' = rt_lastEmitted rs"
        by simp_all
      have "routes_ok (js_get ?cache) ?b"
        using t live other by (intro routes_ok_keep [OF ok _ Some]) (auto simp: put_route_def remembers_def)
      with cnt b' show ?thesis by (simp add: counts_ok_def put_route_def)
    next
      case w: (Some w)
      let ?b = "put_route ?i rs' (b\<lparr>br_cache := ?cache, br_stats := (br_stats b)\<lparr>bs_received := Suc (bs_received (br_stats b))\<rparr>\<rparr>)"
      from w Some h d obtain u where
        "br_append opts ?i rs' \<lparr>nz_value = w, nz_unit = u\<rparr> (sc_newState e) now (sc_timeFired e) FromHa ?b = (b', None)"
        by (auto simp: handleStateChanged_def Let_def v_def)
      then obtain row where r: "sg_entityId row = ?i" "sg_normalized row = \<lparr>nz_value = w, nz_unit = u\<rparr>"
        "br_signals b' = br_signals ?b @ [row]"
        "br_routes b' = js_set ?i (rs'\<lparr>rt_hasEmitted := True, rt_lastEmitted := w\<rparr>) (br_routes ?b)"
        "br_cache b' = br_cache ?b"
        "br_stats b' = (br_stats ?b)\<lparr>bs_appended := Suc (bs_appended (br_stats ?b)), bs_lastSignalAt := Some now\<rparr>"
        by (rule br_append_ok) simp
      have cache: "br_cache b' = ?cache" using r(5) by (simp add: put_route_def)
      from debounce_tracks [OF d] w have t: "tracks (rs'\<lparr>rt_hasEmitted := True, rt_lastEmitted := w\<rparr>) v" by simp
      have "routes_ok (js_get ?cache) b'"
        by (rule routes_ok_append [OF ok r(4), where row = row and x = "Some rs'"])
           (use r t live other in \<open>auto simp: put_route_def fun_eq_iff\<close>)
      moreover have "counts_ok n b'" using cnt r(3,6) by (simp add: counts_ok_def put_route_def)
      ultimately show ?thesis unfolding cache by simp
    qed
  qed
qed

lemma check_baseline_ok:
  assumes "remembers rows rs"
  shows "remembers rows (check_baseline i store rs)"
  using assms by (auto simp: check_baseline_def remembers_def split: option.split)

lemma counts_ok_step:
  assumes "counts_ok n b" "br_signals b' = br_signals b @ rows"
    and "bs_appended (br_stats b') = bs_appended (br_stats b) + length rows" "bs_received (br_stats b') = bs_received (br_stats b)"
    and "bs_suppressed (br_stats b') = bs_suppressed (br_stats b)"
    and "bs_resyncSynthesized (br_stats b') \<le> bs_resyncSynthesized (br_stats b) + length rows"
  shows "counts_ok (n + length rows) b'"
  using assms by (simp add: counts_ok_def)

lemma snapshot_entity_ok:
  assumes ok: "routes_ok live b" and cnt: "counts_ok n b"
    and h: "snapshot_entity opts resync clock b st = (b', None)"
  shows "routes_ok (live(es_entity_id st := Some st)) b' \<and> counts_ok (n + (length (br_signals b') - length (br_signals b))) b'
    \<and> length (br_signals b) \<le> length (br_signals b') \<and> br_cache b' = br_cache b"
proof -
  let ?i = "es_entity_id st" and ?v = "nz_value (normalizeState st)"
  show ?thesis
  proof (cases "js_get (br_routes b) ?i")
    case None
    with h have "b' = b" by (simp add: snapshot_entity_def Let_def)
    moreover have "routes_ok (live(?i := Some st)) b"
      using None by (intro routes_ok_live [OF ok]) (auto split: if_splits)
    ultimately show ?thesis using cnt by simp
  next
    case (Some rs0)
    define rs where "rs = check_baseline ?i (br_store b) rs0"
    have rem: "remembers (rows_of ?i b) rs"
      unfolding rs_def by (rule check_baseline_ok [OF routes_okD(2) [OF ok Some]])
    show ?thesis
    proof (cases "rt_hasEmitted rs \<and> ?v = rt_lastEmitted rs")
      case True
      with h Some have b': "b' = put_route ?i rs b" by (simp add: snapshot_entity_def Let_def rs_def [symmetric])
      have "routes_ok (live(?i := Some st)) b'"
        unfolding b' using True rem by (intro routes_ok_keep [OF ok _ Some]) (auto simp: put_route_def intro: tracks_same)
      with cnt b' show ?thesis by (simp add: counts_ok_def put_route_def)
    next
      case False
      let ?rs = "seedEma ?v (clock ?i) rs"
      let ?b = "put_route ?i ?rs b"
      let ?fired = "case es_last_updated st of Some t \<Rightarrow> t | None \<Rightarrow> clock ?i" and ?origin = "if resync then FromResync else FromHa"
      let ?a = "br_append opts ?i ?rs (normalizeState st) (Some st) (clock ?i) ?fired ?origin ?b"
      have unfolded: "(case snd ?a of Some e \<Rightarrow> ?a
          | None \<Rightarrow> ((if resync then (fst ?a)\<lparr>br_stats := (br_stats (fst ?a))\<lparr>bs_resyncSynthesized := Suc (bs_resyncSynthesized (br_stats (fst ?a)))\<rparr>\<rparr>
              else fst ?a), None)) = (b', None)"
        using h unfolding snapshot_entity_def Let_def Some option.case rs_def [symmetric] if_not_P [OF False] .
      obtain r x where ra: "?a = (r, x)" by fastforce
      have x: "x = None" using unfolded unfolding ra prod.sel by (cases x) simp_all
      with ra have a: "?a = (r, None)" by simp
      have b': "b' = (if resync then r\<lparr>br_stats := (br_stats r)\<lparr>bs_resyncSynthesized := Suc (bs_resyncSynthesized (br_stats r))\<rparr>\<rparr> else r)"
        using unfolded unfolding a prod.sel option.case by simp
      from a obtain row where row: "sg_entityId row = ?i" "sg_normalized row = normalizeState st"
        "br_signals r = br_signals ?b @ [row]"
        "br_routes r = js_set ?i (?rs\<lparr>rt_hasEmitted := True, rt_lastEmitted := ?v\<rparr>) (br_routes ?b)"
        "br_cache r = br_cache ?b"
        "br_stats r = (br_stats ?b)\<lparr>bs_appended := Suc (bs_appended (br_stats ?b)), bs_lastSignalAt := Some (clock ?i)\<rparr>"
        by (rule br_append_ok)
      have sig: "br_signals b' = br_signals b @ [row]" "br_cache b' = br_cache b"
        "br_routes b' = js_set ?i (?rs\<lparr>rt_hasEmitted := True, rt_lastEmitted := ?v\<rparr>) (br_routes ?b)"
        using row b' by (simp_all add: put_route_def)
      have "routes_ok (live(?i := Some st)) b'"
        by (rule routes_ok_append [OF ok sig(3), where row = row and x = "Some ?rs"])
           (use row sig in \<open>auto simp: put_route_def fun_eq_iff intro: tracks_same\<close>)
      moreover have "counts_ok (n + length [row]) b'"
        using row(6) b' sig(1) by (intro counts_ok_step [OF cnt]) (simp_all add: put_route_def)
      ultimately show ?thesis using sig by simp
    qed
  qed
qed

lemma snapshot_loop_ok:
  assumes "routes_ok live b" "counts_ok n b" "snapshot_loop opts resync clock b sts = (b', None)"
  shows "routes_ok (fold (\<lambda>st l. l(es_entity_id st := Some st)) sts live) b'
    \<and> counts_ok (n + (length (br_signals b') - length (br_signals b))) b'
    \<and> length (br_signals b) \<le> length (br_signals b') \<and> br_cache b' = br_cache b"
  using assms
proof (induction sts arbitrary: live b n)
  case (Cons st sts)
  from Cons.prems(3) obtain b1 where st: "snapshot_entity opts resync clock b st = (b1, None)"
    and rest: "snapshot_loop opts resync clock b1 sts = (b', None)"
    by (auto split: prod.splits option.splits)
  from snapshot_entity_ok [OF Cons.prems(1,2) st] have s1: "routes_ok (live(es_entity_id st := Some st)) b1"
    "counts_ok (n + (length (br_signals b1) - length (br_signals b))) b1" "length (br_signals b) \<le> length (br_signals b1)"
    "br_cache b1 = br_cache b" by blast+
  have n: "n + (length (br_signals b1) - length (br_signals b)) + (length (br_signals b') - length (br_signals b1))
      = n + (length (br_signals b') - length (br_signals b))" if "length (br_signals b1) \<le> length (br_signals b')"
    using that s1(3) by simp
  from Cons.IH [OF s1(1,2) rest] n s1(3,4) show ?case by (simp only: fold_Cons comp_apply) auto
qed simp

lemma js_get_of_states:
  "js_get (js_of_list (map (\<lambda>st. (es_entity_id st, st)) sts)) = fold (\<lambda>st l. l(es_entity_id st := Some st)) sts (\<lambda>i. None)"
  by (induction sts rule: rev_induct) (auto simp: fun_eq_iff)

lemma snapshot_ok:
  assumes "routes_ok (js_get (br_cache b)) b" "counts_ok n b" "handleSnapshot opts resync clock states b = (b', None)"
  shows "routes_ok (js_get (br_cache b')) b' \<and> counts_ok (n + (length (br_signals b') - length (br_signals b))) b'"
proof -
  let ?b = "b\<lparr>br_cache := js_of_list (map (\<lambda>st. (es_entity_id st, st)) states)\<rparr>"
  have "routes_ok (\<lambda>i. None) ?b" using assms(1) by (auto simp: routes_ok_def rows_of_def)
  moreover have "counts_ok n ?b" using assms(2) by (simp add: counts_ok_def)
  moreover have loop: "snapshot_loop opts resync clock ?b states = (b', None)" using assms(3) by (simp add: handleSnapshot_def)
  ultimately have "routes_ok (fold (\<lambda>st l. l(es_entity_id st := Some st)) states (\<lambda>i. None)) b'"
    "counts_ok (n + (length (br_signals b') - length (br_signals ?b))) b'" "br_cache b' = br_cache ?b"
    using snapshot_loop_ok by blast+
  moreover have "br_cache ?b = js_of_list (map (\<lambda>st. (es_entity_id st, st)) states)" "br_signals ?b = br_signals b" by simp_all
  ultimately show ?thesis unfolding js_get_of_states [symmetric] by (simp only: simp_thms)
qed

lemma sweep_frames [simp, frames]:
  "br_routes (sweep opts throws now b) = br_routes b" "br_cache (sweep opts throws now b) = br_cache b"
  "br_signals (sweep opts throws now b) = br_signals b"
  "bs_appended (br_stats (sweep opts throws now b)) = bs_appended (br_stats b)"
  "bs_received (br_stats (sweep opts throws now b)) = bs_received (br_stats b)"
  "bs_suppressed (br_stats (sweep opts throws now b)) = bs_suppressed (br_stats b)"
  "bs_resyncSynthesized (br_stats (sweep opts throws now b)) = bs_resyncSynthesized (br_stats b)"
  by (simp_all add: sweep_def Let_def)

lemma routes_ok_frame: "br_routes b' = br_routes b \<Longrightarrow> br_signals b' = br_signals b \<Longrightarrow> routes_ok live b' = routes_ok live b"
  by (simp add: routes_ok_def rows_of_def)

lemma bridge_run_ok: "bridge_run opts n b \<Longrightarrow> routes_ok (js_get (br_cache b)) b \<and> counts_ok n b"
proof (induction rule: bridge_run.induct)
  case (created routes store b)
  then show ?case by (auto simp: createHaBridge_def routes_ok_def counts_ok_def remembers_def rows_of_def split: sum.splits)
next
  case (changed n b e now b')
  then show ?case using changed_ok by blast
next
  case (snapped n b resync clock states b')
  then show ?case using snapshot_ok by blast
next
  case (swept n b throws now)
  then show ?case by (simp add: routes_ok_frame [of "sweep opts throws now b" b] counts_ok_def)
next
  case (started n b throws now)
  then show ?case
    by (auto simp: bridge_start_def routes_ok_frame [of "sweep opts throws now (b\<lparr>br_started := True\<rparr>)" b] counts_ok_def)
next
  case (stopped n b)
  then show ?case by (simp add: bridge_stop_def routes_ok_frame [of "b\<lparr>br_started := False\<rparr>" b] counts_ok_def)
qed

text \<open>
  C24. The signal table follows Home Assistant. In every run of the bridge (state changes and removals, snapshots at start and
  after reconnects, sweeps, stops and starts) in which no write to the table fails: for each routed entity in the live cache, the
  last appended value is the live one (on change, slow context), differs from it by less than the deadband, or is of its type
  (throttled numbers); the last row of the entity holds that value; and the counters add up: what was received, plus the rows that snapshots
  appended, is what was appended plus what was suppressed.
\<close>

theorem bridge_follows_home:
  assumes "bridge_run opts n b"
  shows "(case (js_get (br_cache b) i, js_get (br_routes b) i) of
            (Some st, Some rs) \<Rightarrow>
              tracks rs (nz_value (normalizeState st))
              \<and> (filter (\<lambda>r. sg_entityId r = i) (br_signals b) = []
                 \<or> rt_lastEmitted rs = nz_value (sg_normalized (last (filter (\<lambda>r. sg_entityId r = i) (br_signals b)))))
          | _ \<Rightarrow> True)
    \<and> bs_appended (br_stats b) = length (br_signals b)
    \<and> bs_received (br_stats b) + n = bs_appended (br_stats b) + bs_suppressed (br_stats b)
    \<and> bs_resyncSynthesized (br_stats b) \<le> n"
proof -
  from bridge_run_ok [OF assms] have ok: "routes_ok (js_get (br_cache b)) b" and cnt: "counts_ok n b" by simp_all
  have "case (js_get (br_cache b) i, js_get (br_routes b) i) of
      (Some st, Some rs) \<Rightarrow> tracks rs (nz_value (normalizeState st)) \<and> remembers (rows_of i b) rs | _ \<Rightarrow> True"
    using routes_okD [OF ok] by (simp split: option.split)
  then have "case (js_get (br_cache b) i, js_get (br_routes b) i) of
      (Some st, Some rs) \<Rightarrow> tracks rs (nz_value (normalizeState st))
        \<and> (rows_of i b = [] \<or> rt_lastEmitted rs = nz_value (sg_normalized (last (rows_of i b)))) | _ \<Rightarrow> True"
    by (auto simp: remembers_def split: option.splits)
  with cnt show ?thesis unfolding rows_of_def counts_ok_def by blast
qed

text \<open>A run with one deadband route: a state, a small change, a large one, and a snapshot after a reconnect.\<close>

definition demo_bridge_opts :: bridge_opts where
  "demo_bridge_opts = \<lparr>bo_policyVersion = 1, bo_retentionDays = 30, bo_ulid = nat_str, bo_haVersion = (\<lambda>k. None), bo_fails = (\<lambda>k. False)\<rparr>"

definition demo_route :: route_spec where
  "demo_route = \<lparr>rp_entityId = ''t'', rp_debounce = Deadband, rp_deadband = Some 2, rp_emaHalflifeMs = None, rp_emitIntervalMs = None\<rparr>"

definition temperature :: "string \<Rightarrow> unit entity_state" where
  "temperature s = \<lparr>es_entity_id = ''t'', es_state = s, es_unit = None, es_last_updated = None, es_raw = ()\<rparr>"

definition reading :: "string \<Rightarrow> unit state_changed" where
  "reading s = \<lparr>sc_entityId = ''t'', sc_newState = Some (temperature s), sc_timeFired = 0\<rparr>"

lemmas demo_bridge = demo_bridge_opts_def demo_route_def temperature_def reading_def createHaBridge_def add_route_def route_of_def
  bridge_start_def sweep_def store_prune_def handleStateChanged_def debounce_def on_change_def br_append_def store_append_def put_route_def
  typeChanged_def normalizeState_def NULL_STATES_def

lemma small_numbers: "js_number ''20'' = Some 20" "js_number ''21'' = Some 21" "js_number ''25'' = Some 25"
  by (simp_all add: js_number_def trim_text_def is_space_def decimal_number_def split_sign_def is_digit_in_def digits_value_def digit_of_def
      ascii_lower_def exponent_value_def ten_to_def Let_def)

definition demo_b0 :: "unit bridge" where
  "demo_b0 = bridge_start demo_bridge_opts False 0 (projr (createHaBridge [demo_route] []))"

definition demo_b1 :: "unit bridge" where
  "demo_b1 = fst (handleStateChanged demo_bridge_opts 1 (reading ''20'') demo_b0)"

definition demo_b2 :: "unit bridge" where
  "demo_b2 = fst (handleStateChanged demo_bridge_opts 2 (reading ''21'') demo_b1)"

lemma demo_b0_run: "bridge_run demo_bridge_opts 0 demo_b0"
proof -
  have "createHaBridge [demo_route] [] = Inr (projr (createHaBridge [demo_route] []))" by (simp add: demo_bridge)
  from bridge_run.started [OF bridge_run.created [OF this]] show ?thesis unfolding demo_b0_def .
qed

lemma demo_b2_run: "bridge_run demo_bridge_opts 0 demo_b2"
proof -
  have s: "br_started demo_b0" "br_started demo_b1" by (simp_all add: demo_b0_def demo_b1_def demo_bridge small_numbers Let_def)
  have "handleStateChanged demo_bridge_opts 1 (reading ''20'') demo_b0 = (demo_b1, None)"
    by (simp add: demo_b1_def demo_b0_def demo_bridge small_numbers Let_def)
  note b1 = bridge_run.changed [OF demo_b0_run s(1) this]
  have "handleStateChanged demo_bridge_opts 2 (reading ''21'') demo_b1 = (demo_b2, None)"
    by (simp add: demo_b2_def demo_b1_def demo_b0_def demo_bridge small_numbers Let_def)
  from bridge_run.changed [OF b1 s(2) this] show ?thesis .
qed

theorem bridge_follows_home_witness:
  "bs_received (br_stats demo_b2) = 2 \<and> bs_suppressed (br_stats demo_b2) = 1 \<and> length (br_signals demo_b2) = 1
   \<and> (case js_get (br_routes demo_b2) ''t'' of None \<Rightarrow> False | Some rs \<Rightarrow> rt_lastEmitted rs = NNum 20 \<and> tracks rs (NNum 21))"
proof -
  have st: "js_get (br_cache demo_b2) ''t'' = Some (temperature ''21'')" "bs_received (br_stats demo_b2) = 2" "bs_suppressed (br_stats demo_b2) = 1"
    by (simp_all add: demo_b2_def demo_b1_def demo_b0_def demo_bridge small_numbers Let_def)
  have "case js_get (br_routes demo_b2) ''t'' of None \<Rightarrow> False | Some rs \<Rightarrow> rt_lastEmitted rs = NNum 20"
    by (simp add: demo_b2_def demo_b1_def demo_b0_def demo_bridge small_numbers Let_def)
  then obtain rs where rs: "js_get (br_routes demo_b2) ''t'' = Some rs" "rt_lastEmitted rs = NNum 20" by (auto split: option.splits)
  have n: "nz_value (normalizeState (temperature ''21'')) = NNum 21" by (simp add: temperature_def normalizeState_def NULL_STATES_def small_numbers)
  from bridge_follows_home [OF demo_b2_run, of "''t''"] st rs show ?thesis by (simp add: n)
qed

text \<open>
  A snapshot says nothing about routed entities that are not in it: when one was removed while the connection was down, no row tells so,
  although a removal that is seen as a state change appends a null row.
\<close>

lemma snapshot_forgets_removed:
  "handleSnapshot opts resync clock [] b = (b\<lparr>br_cache := []\<rparr>, None)"
  by (simp add: handleSnapshot_def)

text \<open>A write that fails ends the whole snapshot: the entities behind it are not looked at.\<close>

lemma failed_append_ends_snapshot:
  assumes "bo_fails opts (br_calls b)" "js_get (br_routes b) (es_entity_id st) = Some rs" "rt_hasEmitted rs"
    and "nz_value (normalizeState st) \<noteq> rt_lastEmitted rs"
  shows "snd (snapshot_loop opts resync clock b (st # sts)) = Some (JsError ''disk I/O error'')
    \<and> br_signals (fst (snapshot_loop opts resync clock b (st # sts))) = br_signals b"
  using assms by (simp add: snapshot_entity_def check_baseline_def br_append_def put_route_def Let_def)

text \<open>A failed write of a throttled value still starts a new interval: nothing is written until it is over.\<close>

lemma failed_append_starts_interval:
  assumes "debounce v now rs = (rs', Some w)" "bo_fails opts (br_calls b)" "js_get (br_routes b) i = Some rs"
    and "sc_entityId e = i" "sc_newState e = Some st" "nz_value (normalizeState st) = v"
  shows "js_get (br_routes (fst (handleStateChanged opts now e b))) i = Some rs' \<and> br_signals (fst (handleStateChanged opts now e b)) = br_signals b"
  using assms by (simp add: handleStateChanged_def br_append_def put_route_def Let_def)

end
