(* ===== verification/Ha_Client.thy ===== *)
theory Ha_Client
  imports Prelude "HOL-Library.Multiset"
begin

text \<open>
  The WebSocket client of \<open>ha/client.ts\<close>. One step is one task of the event loop (a socket event, a timer, a call of the API), or one
  continuation of a settled promise; continuations run before the next task. The socket follows the WebSocket standard: frames arrive
  only while it is open, and \<open>close()\<close> is followed by a close event. Handlers are told what happened; what they do in turn is a later step. The hops
  of one chain of promises are one continuation.
\<close>

section \<open>Values on the wire\<close>

datatype json =
    JNull
  | JBool bool
  | JNum int
  | JStr string
  | JArr "json list"
  | JObj "(string \<times> json) list"

definition json_field :: "string \<Rightarrow> json \<Rightarrow> json option" where
  "json_field k j = (case j of JObj fs \<Rightarrow> js_get fs k | _ \<Rightarrow> None)"

text \<open>The strings in a value, the nested ones of arrays included, in order.\<close>

fun json_strings :: "json \<Rightarrow> string list" where
  "json_strings (JStr s) = [s]"
| "json_strings (JArr xs) = concat (map json_strings xs)"
| "json_strings _ = []"

definition push_all :: "string list \<Rightarrow> json option \<Rightarrow> string list" where
  "push_all out v = (case v of None \<Rightarrow> out | Some j \<Rightarrow> foldl (\<lambda>out s. js_add s out) out (json_strings j))"

definition normalizeEntityIds :: "json \<Rightarrow> string list" where
  "normalizeEntityIds serviceData =
     push_all (push_all [] (json_field ''entity_id'' serviceData))
       (case json_field ''target'' serviceData of None \<Rightarrow> None | Some t \<Rightarrow> json_field ''entity_id'' t)"

lemma normalizeEntityIds_union:
  "distinct (normalizeEntityIds d)
   \<and> set (normalizeEntityIds d) =
       (case json_field ''entity_id'' d of None \<Rightarrow> {} | Some j \<Rightarrow> set (json_strings j))
       \<union> (case json_field ''target'' d of None \<Rightarrow> {} | Some t \<Rightarrow>
            (case json_field ''entity_id'' t of None \<Rightarrow> {} | Some j \<Rightarrow> set (json_strings j)))"
proof -
  have "set (push_all out v) = set out \<union> (case v of None \<Rightarrow> {} | Some j \<Rightarrow> set (json_strings j))
      \<and> (distinct out \<longrightarrow> distinct (push_all out v))" for out v
    using foldl_js_add by (auto simp: push_all_def split: option.split)
  then show ?thesis by (auto simp: normalizeEntityIds_def split: option.split)
qed

text \<open>Events as handlers get them. \<open>Date.parse\<close> and the clock are arguments; a missing text is empty, a missing value null.\<close>

definition parseTimeFired :: "(string \<Rightarrow> int option) \<Rightarrow> int \<Rightarrow> json \<Rightarrow> int" where
  "parseTimeFired parse_date now event =
     (case json_field ''time_fired'' event of
        Some (JStr s) \<Rightarrow> (case parse_date s of Some t \<Rightarrow> t | None \<Rightarrow> now)
      | _ \<Rightarrow> now)"

definition text_field :: "string \<Rightarrow> json \<Rightarrow> string" where
  "text_field k j = (case json_field k j of Some (JStr s) \<Rightarrow> s | _ \<Rightarrow> [])"

definition field_or_null :: "string \<Rightarrow> json \<Rightarrow> json" where
  "field_or_null k j = (case json_field k j of Some v \<Rightarrow> v | None \<Rightarrow> JNull)"

definition event_data :: "json \<Rightarrow> json" where
  "event_data event = (case json_field ''data'' event of None \<Rightarrow> JObj [] | Some JNull \<Rightarrow> JObj [] | Some d \<Rightarrow> d)"

record home_state_changed =
  hs_entityId :: string
  hs_newState :: json
  hs_oldState :: json
  hs_timeFired :: int
  hs_context :: json

definition mapStateChanged :: "(string \<Rightarrow> int option) \<Rightarrow> int \<Rightarrow> json \<Rightarrow> home_state_changed" where
  "mapStateChanged parse_date now event =
     (let data = event_data event
      in \<lparr>hs_entityId = text_field ''entity_id'' data, hs_newState = field_or_null ''new_state'' data,
          hs_oldState = field_or_null ''old_state'' data, hs_timeFired = parseTimeFired parse_date now event,
          hs_context = field_or_null ''context'' event\<rparr>)"

record home_call_service =
  hv_domain :: string
  hv_service :: string
  hv_serviceData :: json
  hv_entityIds :: "string list"
  hv_timeFired :: int
  hv_context :: json

definition mapCallService :: "(string \<Rightarrow> int option) \<Rightarrow> int \<Rightarrow> json \<Rightarrow> home_call_service" where
  "mapCallService parse_date now event =
     (let data = event_data event;
          serviceData = (case json_field ''service_data'' data of
                           Some (JObj fs) \<Rightarrow> JObj fs | Some (JArr xs) \<Rightarrow> JArr xs | _ \<Rightarrow> JObj [])
      in \<lparr>hv_domain = text_field ''domain'' data, hv_service = text_field ''service'' data, hv_serviceData = serviceData,
          hv_entityIds = normalizeEntityIds serviceData, hv_timeFired = parseTimeFired parse_date now event,
          hv_context = field_or_null ''context'' event\<rparr>)"

text \<open>The kind of mean of a statistic, from an older field when the newer one is absent.\<close>

definition truthy :: "json option \<Rightarrow> bool" where
  "truthy v = (case v of None \<Rightarrow> False | Some j \<Rightarrow>
     (case j of JNull \<Rightarrow> False | JBool b \<Rightarrow> b | JNum n \<Rightarrow> n \<noteq> 0 | JStr s \<Rightarrow> s \<noteq> [] | _ \<Rightarrow> True))"

definition mean_type :: "json \<Rightarrow> json" where
  "mean_type item =
     (case json_field ''mean_type'' item of
        Some v \<Rightarrow> v
      | None \<Rightarrow> if truthy (json_field ''has_mean'' item) then JNum 1 else JNum 0)"

text \<open>Messages from the server; a frame is one message or an array of them, and one that does not parse has none.\<close>

datatype 'r wire_in =
    AuthRequired
  | AuthOk "string option"
  | AuthInvalid
  | ResultOk int 'r
  | ResultError int string string
  | PongIn
  | EventIn int json
  | OtherIn

datatype kind =
    SubscribeEvents string
  | SubscribeTrigger nat
  | UnsubscribeEvents int
  | GetStates
  | UserKind string

datatype wire_out =
    AuthOut
  | CommandOut int kind
  | PingOut int

section \<open>The client\<close>

record hc_config =
  hc_initialMs :: int
  hc_maxMs :: int
  hc_jitterMs :: int
  hc_pingIntervalMs :: int
  hc_handshakeTimeoutMs :: int
  hc_commandTimeoutMs :: int

definition hc_defaults :: hc_config where
  "hc_defaults = \<lparr>hc_initialMs = 1000, hc_maxMs = 60000, hc_jitterMs = 500, hc_pingIntervalMs = 30000,
    hc_handshakeTimeoutMs = 15000, hc_commandTimeoutMs = 10000\<rparr>"

text \<open>
  Who awaits a command: the subscription of an event type; the first arming of a trigger; the arming of a trigger, or the request for
  the states, by the task that a certain \<open>auth_ok\<close> started; a caller of the API; nobody.
\<close>

datatype owner =
    ForEvents string
  | ForTrigger nat
  | ForRearm nat nat
  | ForStates nat
  | ForCaller nat
  | ForNobody

datatype 'r outcome =
    Resolved 'r
  | CommandError string string
  | TimedOut
  | Disconnected

datatype ws_state = Connecting | Open | Closing

record event_reg =
  er_handlers :: "nat list"
  er_subId :: "int option"

text \<open>The task of one \<open>auth_ok\<close>: its connection, the reason of its snapshot, and the triggers it has visited.\<close>

record auth_task =
  at_gen :: nat
  at_resync :: bool
  at_visited :: "nat list"

text \<open>
  \<open>hc_plat\<close> is the socket whose listeners are not stale, \<open>hc_socket\<close> whether the variable \<open>socket\<close> holds it. \<open>hc_trig_subs\<close> has the
  subscription of every trigger ever registered, \<open>hc_triggers\<close> those in the set. \<open>hc_ready\<close> are the settled promises whose
  continuation has not run. The last fields record what was sent on this connection, which commands were issued on it, what
  callers and handlers were told, and how many rejections nobody handled.
\<close>

record 'r hc =
  hc_started :: bool
  hc_stopped :: bool
  hc_connected :: bool
  hc_everConnected :: bool
  hc_haVersion :: "string option"
  hc_reconnects :: nat
  hc_eventsSeen :: nat
  hc_backoffMs :: int
  hc_nextId :: int
  hc_gen :: nat
  hc_socket :: bool
  hc_plat :: "ws_state option"
  hc_reconnectTimer :: "int option"
  hc_pingTimer :: bool
  hc_handshakeTimer :: bool
  hc_awaitingPong :: bool
  hc_pending :: "(int, owner \<times> bool) jsmap"
  hc_events :: "(string, event_reg) jsmap"
  hc_trig_subs :: "int option list"
  hc_triggers :: "nat list"
  hc_tasks :: "auth_task list"
  hc_ready :: "(owner \<times> int \<times> 'r outcome) list"
  hc_sent :: "wire_out list"
  hc_issued :: "(int \<times> kind) list"
  hc_calls :: nat
  hc_settled :: "(nat \<times> 'r outcome) list"
  hc_heard :: "((string \<times> nat) + nat) list"
  hc_snapshots :: "(bool \<times> 'r) list"
  hc_changes :: "bool list"
  hc_unhandled :: nat

definition createHaClient :: "'r hc" where
  "createHaClient =
     \<lparr>hc_started = False, hc_stopped = False, hc_connected = False, hc_everConnected = False, hc_haVersion = None, hc_reconnects = 0,
      hc_eventsSeen = 0, hc_backoffMs = 0, hc_nextId = 1, hc_gen = 0, hc_socket = False, hc_plat = None, hc_reconnectTimer = None,
      hc_pingTimer = False, hc_handshakeTimer = False, hc_awaitingPong = False, hc_pending = [], hc_events = [], hc_trig_subs = [],
      hc_triggers = [], hc_tasks = [], hc_ready = [], hc_sent = [], hc_issued = [], hc_calls = 0, hc_settled = [], hc_heard = [],
      hc_snapshots = [], hc_changes = [], hc_unhandled = 0\<rparr>"

text \<open>A send that fails is logged: the message is lost.\<close>

definition sendRaw :: "bool \<Rightarrow> wire_out \<Rightarrow> 'r hc \<Rightarrow> 'r hc" where
  "sendRaw throws m c =
     (if \<not> hc_socket c \<or> hc_plat c \<noteq> Some Open \<or> throws then c else c\<lparr>hc_sent := hc_sent c @ [m]\<rparr>)"

text \<open>Without a connection the promise is rejected at once and has no id.\<close>

definition can_send :: "'r hc \<Rightarrow> bool" where
  "can_send c = (hc_connected c \<and> hc_socket c \<and> hc_plat c = Some Open)"

definition commandWithId :: "bool \<Rightarrow> owner \<Rightarrow> kind \<Rightarrow> bool \<Rightarrow> 'r hc \<Rightarrow> int \<times> 'r hc" where
  "commandWithId throws own k timed c =
     (if \<not> can_send c then (-1, c\<lparr>hc_ready := hc_ready c @ [(own, -1, Disconnected)]\<rparr>)
      else (let i = hc_nextId c
            in (i, sendRaw throws (CommandOut i k)
                     (c\<lparr>hc_nextId := i + 1, hc_pending := js_set i (own, timed) (hc_pending c), hc_issued := hc_issued c @ [(i, k)]\<rparr>))))"

definition timed_by_default :: "hc_config \<Rightarrow> bool" where
  "timed_by_default cfg = (hc_commandTimeoutMs cfg > 0)"

definition rejectAllPending :: "'r hc \<Rightarrow> 'r hc" where
  "rejectAllPending c =
     c\<lparr>hc_ready := hc_ready c @ map (\<lambda>(i, own, timed). (own, i, Disconnected)) (hc_pending c), hc_pending := []\<rparr>"

definition subscribeEventType :: "hc_config \<Rightarrow> bool \<Rightarrow> string \<Rightarrow> 'r hc \<Rightarrow> 'r hc" where
  "subscribeEventType cfg throws ty c =
     (case js_get (hc_events c) ty of
        None \<Rightarrow> c
      | Some reg \<Rightarrow>
          (let r = commandWithId throws (ForEvents ty) (SubscribeEvents ty) (timed_by_default cfg) c
           in if fst r = -1 then snd r
              else (snd r)\<lparr>hc_events := js_set ty (reg\<lparr>er_subId := Some (fst r)\<rparr>) (hc_events c)\<rparr>))"

definition addEventHandler :: "hc_config \<Rightarrow> bool \<Rightarrow> string \<Rightarrow> nat \<Rightarrow> 'r hc \<Rightarrow> 'r hc" where
  "addEventHandler cfg throws ty h c =
     (let reg = (case js_get (hc_events c) ty of None \<Rightarrow> \<lparr>er_handlers = [], er_subId = None\<rparr> | Some reg \<Rightarrow> reg);
          c1 = c\<lparr>hc_events := js_set ty (reg\<lparr>er_handlers := js_add h (er_handlers reg)\<rparr>) (hc_events c)\<rparr>
      in if hc_connected c \<and> er_subId reg = None then subscribeEventType cfg throws ty c1 else c1)"

definition removeEventHandler :: "hc_config \<Rightarrow> bool \<Rightarrow> string \<Rightarrow> nat \<Rightarrow> 'r hc \<Rightarrow> 'r hc" where
  "removeEventHandler cfg throws ty h c =
     (case js_get (hc_events c) ty of
        None \<Rightarrow> c
      | Some reg \<Rightarrow>
          if h \<notin> set (er_handlers reg) then c
          else (let hs = remove1 h (er_handlers reg)
                in case er_subId reg of
                     Some subId \<Rightarrow>
                       (if hs = []
                        then (let c1 = c\<lparr>hc_events := js_set ty \<lparr>er_handlers = [], er_subId = None\<rparr> (hc_events c)\<rparr>
                              in if hc_connected c
                                 then snd (commandWithId throws ForNobody (UnsubscribeEvents subId) (timed_by_default cfg) c1) else c1)
                        else c\<lparr>hc_events := js_set ty (reg\<lparr>er_handlers := hs\<rparr>) (hc_events c)\<rparr>)
                   | None \<Rightarrow> c\<lparr>hc_events := js_set ty (reg\<lparr>er_handlers := hs\<rparr>) (hc_events c)\<rparr>))"

definition armTrigger :: "hc_config \<Rightarrow> bool \<Rightarrow> owner \<Rightarrow> nat \<Rightarrow> 'r hc \<Rightarrow> 'r hc" where
  "armTrigger cfg throws own t c = snd (commandWithId throws own (SubscribeTrigger t) (timed_by_default cfg) c)"

text \<open>\<open>subscribeTrigger\<close> up to its await; the trigger joins the set when it is armed.\<close>

definition subscribeTrigger :: "hc_config \<Rightarrow> bool \<Rightarrow> 'r hc \<Rightarrow> 'r hc" where
  "subscribeTrigger cfg throws c =
     (let t = length (hc_trig_subs c)
      in armTrigger cfg throws (ForTrigger t) t (c\<lparr>hc_trig_subs := hc_trig_subs c @ [None]\<rparr>))"

definition unsubscribeTrigger :: "hc_config \<Rightarrow> bool \<Rightarrow> nat \<Rightarrow> 'r hc \<Rightarrow> 'r hc" where
  "unsubscribeTrigger cfg throws t c =
     (if t \<notin> set (hc_triggers c) then c
      else (let c1 = c\<lparr>hc_triggers := remove1 t (hc_triggers c)\<rparr>
            in case hc_trig_subs c ! t of
                 None \<Rightarrow> c1
               | Some subId \<Rightarrow>
                   (let c2 = c1\<lparr>hc_trig_subs := (hc_trig_subs c1)[t := None]\<rparr>
                    in if hc_connected c2
                       then snd (commandWithId throws ForNobody (UnsubscribeEvents subId) (timed_by_default cfg) c2) else c2)))"

text \<open>Any other command: a number per call.\<close>

definition sendCommand :: "bool \<Rightarrow> string \<Rightarrow> bool \<Rightarrow> 'r hc \<Rightarrow> 'r hc" where
  "sendCommand throws what timed c =
     snd (commandWithId throws (ForCaller (hc_calls c)) (UserKind what) timed (c\<lparr>hc_calls := Suc (hc_calls c)\<rparr>))"

section \<open>The connection\<close>

definition scheduleReconnect :: "hc_config \<Rightarrow> int \<Rightarrow> 'r hc \<Rightarrow> 'r hc" where
  "scheduleReconnect cfg jitter c =
     (if hc_stopped c \<or> hc_reconnectTimer c \<noteq> None then c
      else (let b = (if hc_backoffMs c = 0 then hc_initialMs cfg else min (hc_backoffMs c * 2) (hc_maxMs cfg))
            in c\<lparr>hc_backoffMs := b, hc_reconnects := Suc (hc_reconnects c), hc_reconnectTimer := Some (b + jitter)\<rparr>))"

text \<open>The constructor of the socket may throw.\<close>

definition hc_connect :: "hc_config \<Rightarrow> bool \<Rightarrow> int \<Rightarrow> 'r hc \<Rightarrow> 'r hc" where
  "hc_connect cfg throws jitter c =
     (if hc_stopped c then c
      else (let c1 = c\<lparr>hc_gen := Suc (hc_gen c), hc_nextId := 1, hc_awaitingPong := False, hc_sent := [], hc_issued := [], hc_plat := None\<rparr>
            in if throws then scheduleReconnect cfg jitter c1
               else c1\<lparr>hc_socket := True, hc_plat := Some Connecting,
                       hc_handshakeTimer := (hc_handshakeTimeoutMs cfg > 0 \<or> hc_handshakeTimer c)\<rparr>))"

definition stopPing :: "'r hc \<Rightarrow> 'r hc" where
  "stopPing c = c\<lparr>hc_pingTimer := False, hc_awaitingPong := False\<rparr>"

definition startPing :: "hc_config \<Rightarrow> 'r hc \<Rightarrow> 'r hc" where
  "startPing cfg c = (if hc_pingIntervalMs cfg \<le> 0 then stopPing c else (stopPing c)\<lparr>hc_pingTimer := True\<rparr>)"

definition clear_subs :: "'r hc \<Rightarrow> 'r hc" where
  "clear_subs c =
     c\<lparr>hc_events := map (\<lambda>(ty, reg). (ty, reg\<lparr>er_subId := None\<rparr>)) (hc_events c),
       hc_trig_subs := map (\<lambda>t. if t \<in> set (hc_triggers c) then None else hc_trig_subs c ! t) [0 ..< length (hc_trig_subs c)]\<rparr>"

definition handleClose :: "hc_config \<Rightarrow> int \<Rightarrow> 'r hc \<Rightarrow> 'r hc" where
  "handleClose cfg jitter c =
     (let c1 = (stopPing c)\<lparr>hc_connected := False, hc_handshakeTimer := False, hc_socket := False, hc_plat := None, hc_gen := Suc (hc_gen c)\<rparr>;
          c2 = clear_subs (rejectAllPending c1);
          c3 = (if hc_connected c then c2\<lparr>hc_changes := hc_changes c2 @ [False]\<rparr> else c2)
      in if hc_stopped c then c3 else scheduleReconnect cfg jitter c3)"

text \<open>\<open>close()\<close> on the socket.\<close>

definition closeSocket :: "'r hc \<Rightarrow> 'r hc" where
  "closeSocket c = (if hc_plat c = None then c else c\<lparr>hc_plat := Some Closing\<rparr>)"

definition hc_start :: "hc_config \<Rightarrow> bool \<Rightarrow> int \<Rightarrow> 'r hc \<Rightarrow> 'r hc" where
  "hc_start cfg throws jitter c =
     (if hc_started c \<or> hc_stopped c then c else hc_connect cfg throws jitter (c\<lparr>hc_started := True\<rparr>))"

definition hc_stop :: "'r hc \<Rightarrow> 'r hc" where
  "hc_stop c =
     (if hc_stopped c then c
      else (let c1 = rejectAllPending ((stopPing c)\<lparr>hc_stopped := True, hc_reconnectTimer := None, hc_handshakeTimer := False\<rparr>);
                c2 = c1\<lparr>hc_connected := False\<rparr>
            in if hc_socket c2 then closeSocket c2 else c2))"

definition reconnect_fires :: "hc_config \<Rightarrow> bool \<Rightarrow> int \<Rightarrow> 'r hc \<Rightarrow> 'r hc" where
  "reconnect_fires cfg throws jitter c = hc_connect cfg throws jitter (c\<lparr>hc_reconnectTimer := None\<rparr>)"

definition handshake_fires :: "'r hc \<Rightarrow> 'r hc" where
  "handshake_fires c = (let c1 = c\<lparr>hc_handshakeTimer := False\<rparr> in if hc_connected c then c1 else closeSocket c1)"

definition ping_fires :: "bool \<Rightarrow> 'r hc \<Rightarrow> 'r hc" where
  "ping_fires throws c =
     (if \<not> hc_connected c \<or> \<not> hc_socket c then c
      else if hc_awaitingPong c then closeSocket c
      else sendRaw throws (PingOut (hc_nextId c)) (c\<lparr>hc_awaitingPong := True, hc_nextId := hc_nextId c + 1\<rparr>))"

definition command_times_out :: "int \<Rightarrow> 'r hc \<Rightarrow> 'r hc" where
  "command_times_out i c =
     (case js_get (hc_pending c) i of
        None \<Rightarrow> c
      | Some (own, timed) \<Rightarrow> c\<lparr>hc_pending := js_delete i (hc_pending c), hc_ready := hc_ready c @ [(own, i, TimedOut)]\<rparr>)"

section \<open>After \<open>auth_ok\<close>\<close>

text \<open>
  The task of an \<open>auth_ok\<close> from the loop over the triggers on: a \<open>Set\<close> is iterated live, so it goes to the first trigger it has not
  visited; when there is none it asks for the states.
\<close>

definition task_advance :: "hc_config \<Rightarrow> bool \<Rightarrow> nat \<Rightarrow> 'r hc \<Rightarrow> 'r hc" where
  "task_advance cfg throws p c =
     (let a = hc_tasks c ! p
      in case filter (\<lambda>t. t \<notin> set (at_visited a)) (hc_triggers c) of
           t # ts \<Rightarrow>
             (if at_gen a \<noteq> hc_gen c then c
              else armTrigger cfg throws (ForRearm p t) t
                     (c\<lparr>hc_tasks := (hc_tasks c)[p := a\<lparr>at_visited := at_visited a @ [t]\<rparr>]\<rparr>))
         | [] \<Rightarrow> snd (commandWithId throws (ForStates p) GetStates (timed_by_default cfg) c))"

definition resubscribe :: "hc_config \<Rightarrow> bool \<Rightarrow> string \<Rightarrow> 'r hc \<Rightarrow> 'r hc" where
  "resubscribe cfg throws ty c =
     (case js_get (hc_events c) ty of
        None \<Rightarrow> c
      | Some reg \<Rightarrow> if er_handlers reg \<noteq> [] \<and> er_subId reg = None then subscribeEventType cfg throws ty c else c)"

definition onAuthOk :: "hc_config \<Rightarrow> bool \<Rightarrow> string option \<Rightarrow> 'r hc \<Rightarrow> 'r hc" where
  "onAuthOk cfg throws ver c =
     (let c1 = startPing cfg (c\<lparr>hc_handshakeTimer := False, hc_haVersion := ver, hc_backoffMs := 0, hc_connected := True,
                               hc_everConnected := True\<rparr>);
          c2 = c1\<lparr>hc_tasks := hc_tasks c1 @ [\<lparr>at_gen = hc_gen c, at_resync = hc_everConnected c, at_visited = []\<rparr>]\<rparr>;
          c3 = foldl (\<lambda>c ty. resubscribe cfg throws ty c) c2 (map fst (hc_events c2))
      in task_advance cfg throws (length (hc_tasks c)) c3)"

section \<open>Messages\<close>

definition handleResult :: "int \<Rightarrow> 'r outcome \<Rightarrow> 'r hc \<Rightarrow> 'r hc" where
  "handleResult i out c =
     (case js_get (hc_pending c) i of
        None \<Rightarrow> c
      | Some (own, timed) \<Rightarrow> c\<lparr>hc_pending := js_delete i (hc_pending c), hc_ready := hc_ready c @ [(own, i, out)]\<rparr>)"

definition event_targets :: "int \<Rightarrow> 'r hc \<Rightarrow> ((string \<times> nat) + nat) list" where
  "event_targets i c =
     (case filter (\<lambda>x. er_subId (snd x) = Some i) (hc_events c) of
        (ty, reg) # xs \<Rightarrow> map (\<lambda>h. Inl (ty, h)) (er_handlers reg)
      | [] \<Rightarrow> (case filter (\<lambda>t. hc_trig_subs c ! t = Some i) (hc_triggers c) of t # ts \<Rightarrow> [Inr t] | [] \<Rightarrow> []))"

definition handleEvent :: "int \<Rightarrow> 'r hc \<Rightarrow> 'r hc" where
  "handleEvent i c = c\<lparr>hc_eventsSeen := Suc (hc_eventsSeen c), hc_heard := hc_heard c @ event_targets i c\<rparr>"

definition handleMessage :: "hc_config \<Rightarrow> bool \<Rightarrow> 'r wire_in \<Rightarrow> 'r hc \<Rightarrow> 'r hc" where
  "handleMessage cfg throws m c =
     (case m of
        AuthRequired \<Rightarrow> sendRaw throws AuthOut c
      | AuthOk ver \<Rightarrow> onAuthOk cfg throws ver c
      | AuthInvalid \<Rightarrow>
          (let c1 = c\<lparr>hc_backoffMs := hc_maxMs cfg\<rparr> in if hc_socket c1 then closeSocket c1 else c1)
      | ResultOk i r \<Rightarrow> handleResult i (Resolved r) c
      | ResultError i code text \<Rightarrow> handleResult i (CommandError code text) c
      | PongIn \<Rightarrow> c\<lparr>hc_awaitingPong := False\<rparr>
      | EventIn i e \<Rightarrow> handleEvent i c
      | OtherIn \<Rightarrow> c)"

text \<open>Continuations of settled promises.\<close>

definition trigger_armed :: "nat \<Rightarrow> int \<Rightarrow> 'r hc \<Rightarrow> 'r hc" where
  "trigger_armed t i c = c\<lparr>hc_trig_subs := (hc_trig_subs c)[t := Some i]\<rparr>"

definition continue_with :: "hc_config \<Rightarrow> bool \<Rightarrow> owner \<Rightarrow> int \<Rightarrow> 'r outcome \<Rightarrow> 'r hc \<Rightarrow> 'r hc" where
  "continue_with cfg throws own i out c =
     (case own of
        ForEvents ty \<Rightarrow>
          (case out of
             Resolved r \<Rightarrow> c
           | _ \<Rightarrow>
               if i = -1 then c\<lparr>hc_unhandled := Suc (hc_unhandled c)\<rparr>
               else (case js_get (hc_events c) ty of
                       None \<Rightarrow> c
                     | Some reg \<Rightarrow>
                         if er_subId reg = Some i then c\<lparr>hc_events := js_set ty (reg\<lparr>er_subId := None\<rparr>) (hc_events c)\<rparr> else c))
      | ForTrigger t \<Rightarrow>
          (case out of
             Resolved r \<Rightarrow> (trigger_armed t i c)\<lparr>hc_triggers := js_add t (hc_triggers c)\<rparr>
           | _ \<Rightarrow> c)
      | ForRearm p t \<Rightarrow> task_advance cfg throws p (case out of Resolved r \<Rightarrow> trigger_armed t i c | _ \<Rightarrow> c)
      | ForStates p \<Rightarrow>
          (case out of
             Resolved r \<Rightarrow>
               (if at_gen (hc_tasks c ! p) \<noteq> hc_gen c then c
                else c\<lparr>hc_snapshots := hc_snapshots c @ [(at_resync (hc_tasks c ! p), r)], hc_changes := hc_changes c @ [True]\<rparr>)
           | _ \<Rightarrow> c)
      | ForCaller n \<Rightarrow> c\<lparr>hc_settled := hc_settled c @ [(n, out)]\<rparr>
      | ForNobody \<Rightarrow> c)"

definition hc_micro :: "hc_config \<Rightarrow> bool \<Rightarrow> 'r hc \<Rightarrow> 'r hc" where
  "hc_micro cfg throws c =
     (case hc_ready c of [] \<Rightarrow> c | (own, i, out) # rest \<Rightarrow> continue_with cfg throws own i out (c\<lparr>hc_ready := rest\<rparr>))"

text \<open>What \<open>stats\<close> counts.\<close>

definition stats_subscriptions :: "'r hc \<Rightarrow> nat" where
  "stats_subscriptions c =
     length (filter (\<lambda>x. er_subId (snd x) \<noteq> None) (hc_events c)) + length (filter (\<lambda>t. hc_trig_subs c ! t \<noteq> None) (hc_triggers c))"

definition stats_pendingCommands :: "'r hc \<Rightarrow> nat" where
  "stats_pendingCommands c = length (hc_pending c)"

text \<open>The tasks of the event loop.\<close>

datatype 'r hc_event =
    Start bool int
  | Stop
  | StopDone
  | SocketOpens
  | Frame bool "'r wire_in list"
  | SocketCloses int
  | ReconnectFires bool int
  | HandshakeFires
  | PingFires bool
  | CommandTimer int
  | AddHandler bool string nat
  | RemoveHandler bool string nat
  | NewTrigger bool
  | DropTrigger bool nat
  | Call bool string bool

fun enabled :: "'r hc_event \<Rightarrow> 'r hc \<Rightarrow> bool" where
  "enabled SocketOpens c = (hc_plat c = Some Connecting)"
| "enabled (Frame throws ms) c = (hc_plat c = Some Open)"
| "enabled (SocketCloses jitter) c = (hc_plat c \<noteq> None)"
| "enabled (ReconnectFires throws jitter) c = (hc_reconnectTimer c \<noteq> None)"
| "enabled HandshakeFires c = hc_handshakeTimer c"
| "enabled (PingFires throws) c = hc_pingTimer c"
| "enabled (CommandTimer i) c = (case js_get (hc_pending c) i of None \<Rightarrow> False | Some (own, timed) \<Rightarrow> timed)"
| "enabled StopDone c = hc_stopped c"
| "enabled _ c = True"

fun hc_do :: "hc_config \<Rightarrow> 'r hc_event \<Rightarrow> 'r hc \<Rightarrow> 'r hc" where
  "hc_do cfg (Start throws jitter) c = hc_start cfg throws jitter c"
| "hc_do cfg Stop c = hc_stop c"
| "hc_do cfg StopDone c = c\<lparr>hc_socket := False\<rparr>"
| "hc_do cfg SocketOpens c = c\<lparr>hc_plat := Some Open\<rparr>"
| "hc_do cfg (Frame throws ms) c = foldl (\<lambda>c m. handleMessage cfg throws m c) c ms"
| "hc_do cfg (SocketCloses jitter) c = handleClose cfg jitter c"
| "hc_do cfg (ReconnectFires throws jitter) c = reconnect_fires cfg throws jitter c"
| "hc_do cfg HandshakeFires c = handshake_fires c"
| "hc_do cfg (PingFires throws) c = ping_fires throws c"
| "hc_do cfg (CommandTimer i) c = command_times_out i c"
| "hc_do cfg (AddHandler throws ty h) c = addEventHandler cfg throws ty h c"
| "hc_do cfg (RemoveHandler throws ty h) c = removeEventHandler cfg throws ty h c"
| "hc_do cfg (NewTrigger throws) c = subscribeTrigger cfg throws c"
| "hc_do cfg (DropTrigger throws t) c = unsubscribeTrigger cfg throws t c"
| "hc_do cfg (Call throws what timed) c = sendCommand throws what timed c"

inductive hc_run :: "hc_config \<Rightarrow> 'r hc \<Rightarrow> bool" for cfg where
  made: "hc_run cfg createHaClient"
| happened: "hc_run cfg c \<Longrightarrow> hc_ready c = [] \<Longrightarrow> enabled e c \<Longrightarrow> hc_run cfg (hc_do cfg e c)"
| continued: "hc_run cfg c \<Longrightarrow> hc_ready c \<noteq> [] \<Longrightarrow> hc_run cfg (hc_micro cfg throws c)"

section \<open>The invariant\<close>

subsection \<open>The link\<close>

definition link_ok :: "hc_config \<Rightarrow> 'r hc \<Rightarrow> bool" where
  "link_ok cfg c \<longleftrightarrow>
     (hc_pending c \<noteq> [] \<longrightarrow> hc_connected c)
     \<and> (hc_connected c \<longrightarrow> hc_plat c \<noteq> None \<and> \<not> hc_stopped c)
     \<and> (hc_reconnectTimer c \<noteq> None \<longrightarrow> hc_plat c = None \<and> \<not> hc_stopped c \<and> hc_started c)
     \<and> (hc_plat c \<noteq> None \<longrightarrow> hc_started c)
     \<and> (hc_plat c \<noteq> None \<and> \<not> hc_stopped c \<longrightarrow> hc_socket c)
     \<and> (hc_stopped c \<longrightarrow> hc_plat c = None \<or> hc_plat c = Some Closing)
     \<and> (hc_started c \<and> \<not> hc_stopped c \<longrightarrow> hc_plat c \<noteq> None \<or> hc_reconnectTimer c \<noteq> None)
     \<and> (hc_plat c \<noteq> None \<and> hc_plat c \<noteq> Some Closing \<and> \<not> hc_connected c \<and> 0 < hc_handshakeTimeoutMs cfg \<longrightarrow> hc_handshakeTimer c)
     \<and> (hc_connected c \<and> 0 < hc_pingIntervalMs cfg \<longrightarrow> hc_pingTimer c)"

text \<open>It only looks at some of the fields.\<close>

lemma link_ok_frame:
  assumes "link_ok cfg c" "hc_pending c' = [] \<or> hc_connected c"
    and "hc_connected c' = hc_connected c" "hc_plat c' = hc_plat c" "hc_stopped c' = hc_stopped c" "hc_started c' = hc_started c"
    and "hc_reconnectTimer c' = hc_reconnectTimer c" "hc_socket c' = hc_socket c" "hc_handshakeTimer c' = hc_handshakeTimer c"
    and "hc_pingTimer c' = hc_pingTimer c"
  shows "link_ok cfg c'"
  using assms by (auto simp: link_ok_def)

definition same_link :: "'r hc \<Rightarrow> 'r hc \<Rightarrow> bool" where
  "same_link c c' \<longleftrightarrow> hc_connected c' = hc_connected c \<and> hc_plat c' = hc_plat c \<and> hc_stopped c' = hc_stopped c \<and> hc_started c' = hc_started c
     \<and> hc_reconnectTimer c' = hc_reconnectTimer c \<and> hc_socket c' = hc_socket c \<and> hc_handshakeTimer c' = hc_handshakeTimer c
     \<and> hc_pingTimer c' = hc_pingTimer c \<and> hc_gen c' = hc_gen c"

lemma same_link_refl [simp, intro]: "same_link c c"
  by (simp add: same_link_def)

lemma same_link_trans: "same_link a b \<Longrightarrow> same_link b c \<Longrightarrow> same_link a c"
  by (simp add: same_link_def)

lemma link_ok_same: "link_ok cfg c \<Longrightarrow> same_link c c' \<Longrightarrow> hc_pending c' = [] \<or> hc_connected c \<Longrightarrow> link_ok cfg c'"
  by (rule link_ok_frame) (auto simp: same_link_def)

lemma sendRaw_frames [simp, frames]:
  "same_link c (sendRaw th m c)" "hc_pending (sendRaw th m c) = hc_pending c" "hc_ready (sendRaw th m c) = hc_ready c"
  "hc_events (sendRaw th m c) = hc_events c" "hc_trig_subs (sendRaw th m c) = hc_trig_subs c" "hc_triggers (sendRaw th m c) = hc_triggers c"
  "hc_tasks (sendRaw th m c) = hc_tasks c" "hc_issued (sendRaw th m c) = hc_issued c" "hc_nextId (sendRaw th m c) = hc_nextId c"
  "hc_calls (sendRaw th m c) = hc_calls c" "hc_settled (sendRaw th m c) = hc_settled c" "hc_connected (sendRaw th m c) = hc_connected c"
  "hc_stopped (sendRaw th m c) = hc_stopped c" "hc_gen (sendRaw th m c) = hc_gen c"
  by (simp_all add: sendRaw_def same_link_def)

lemma commandWithId_frames [simp, frames]:
  "same_link c (snd (commandWithId th own k timed c))"
  "hc_events (snd (commandWithId th own k timed c)) = hc_events c"
  "hc_trig_subs (snd (commandWithId th own k timed c)) = hc_trig_subs c"
  "hc_triggers (snd (commandWithId th own k timed c)) = hc_triggers c"
  "hc_tasks (snd (commandWithId th own k timed c)) = hc_tasks c"
  "hc_calls (snd (commandWithId th own k timed c)) = hc_calls c"
  "hc_settled (snd (commandWithId th own k timed c)) = hc_settled c"
  "hc_connected (snd (commandWithId th own k timed c)) = hc_connected c"
  "hc_stopped (snd (commandWithId th own k timed c)) = hc_stopped c"
  "hc_gen (snd (commandWithId th own k timed c)) = hc_gen c"
  by (simp_all add: commandWithId_def Let_def sendRaw_def same_link_def)

subsection \<open>Ids\<close>

definition ids_ok :: "'r hc \<Rightarrow> bool" where
  "ids_ok c \<longleftrightarrow> js_wf (hc_pending c) \<and> fst ` set (hc_pending c) \<subseteq> fst ` set (hc_issued c) \<and> distinct (map fst (hc_issued c))
     \<and> (\<forall>x \<in> set (hc_issued c). 1 \<le> fst x \<and> fst x < hc_nextId c) \<and> 1 \<le> hc_nextId c"

lemma ids_okD:
  assumes "ids_ok c"
  shows "js_wf (hc_pending c)" "fst ` set (hc_pending c) \<subseteq> fst ` set (hc_issued c)" "distinct (map fst (hc_issued c))"
    "x \<in> set (hc_issued c) \<Longrightarrow> 1 \<le> fst x \<and> fst x < hc_nextId c" "1 \<le> hc_nextId c"
  using assms by (simp_all add: ids_ok_def)

lemma ids_okI:
  "js_wf (hc_pending c) \<Longrightarrow> fst ` set (hc_pending c) \<subseteq> fst ` set (hc_issued c) \<Longrightarrow> distinct (map fst (hc_issued c)) \<Longrightarrow>
   (\<And>x. x \<in> set (hc_issued c) \<Longrightarrow> 1 \<le> fst x \<and> fst x < hc_nextId c) \<Longrightarrow> 1 \<le> hc_nextId c \<Longrightarrow> ids_ok c"
  by (simp add: ids_ok_def)

lemma ids_ok_frame:
  assumes "ids_ok c" "js_wf (hc_pending c')" "fst ` set (hc_pending c') \<subseteq> fst ` set (hc_pending c)" "hc_issued c' = hc_issued c"
    and "hc_nextId c \<le> hc_nextId c'"
  shows "ids_ok c'"
proof (rule ids_okI)
  show "fst ` set (hc_pending c') \<subseteq> fst ` set (hc_issued c')" using ids_okD(2) [OF assms(1)] assms(3,4) by auto
  show "1 \<le> fst x \<and> fst x < hc_nextId c'" if "x \<in> set (hc_issued c')" for x
    using ids_okD(4) [OF assms(1), of x] that assms(4,5) by auto
qed (use assms ids_okD [OF assms(1)] in auto)

lemma next_id_fresh:
  assumes "ids_ok c"
  shows "hc_nextId c \<notin> fst ` set (hc_issued c)" "hc_nextId c \<notin> fst ` set (hc_pending c)"
proof -
  show "hc_nextId c \<notin> fst ` set (hc_issued c)" using ids_okD(4) [OF assms] by force
  then show "hc_nextId c \<notin> fst ` set (hc_pending c)" using ids_okD(2) [OF assms] by blast
qed

text \<open>What a command does, when it can be sent and when not.\<close>

lemma js_set_fresh: "k \<notin> fst ` set m \<Longrightarrow> js_set k v m = m @ [(k, v)]"
  by (induction m) auto

lemma command_cases:
  assumes "ids_ok c"
  obtains (refused) "\<not> can_send c" "fst (commandWithId th own k timed c) = -1"
      "snd (commandWithId th own k timed c) = c\<lparr>hc_ready := hc_ready c @ [(own, -1, Disconnected)]\<rparr>"
  | (issued) "can_send c" "fst (commandWithId th own k timed c) = hc_nextId c"
      "hc_nextId (snd (commandWithId th own k timed c)) = hc_nextId c + 1"
      "hc_pending (snd (commandWithId th own k timed c)) = hc_pending c @ [(hc_nextId c, own, timed)]"
      "hc_issued (snd (commandWithId th own k timed c)) = hc_issued c @ [(hc_nextId c, k)]"
      "hc_ready (snd (commandWithId th own k timed c)) = hc_ready c"
proof (cases "can_send c")
  case True
  with js_set_fresh [OF next_id_fresh(2) [OF assms]] show thesis
    by (intro issued) (simp_all add: commandWithId_def Let_def)
next
  case False
  then show thesis by (intro refused) (simp_all add: commandWithId_def)
qed

lemma ids_ok_command:
  assumes "ids_ok c"
  shows "ids_ok (snd (commandWithId th own k timed c))"
  using assms
proof (cases rule: command_cases [where th = th and own = own and k = k and timed = timed])
  case refused
  show ?thesis unfolding refused(3) by (rule ids_ok_frame [OF assms]) (use ids_okD(1) [OF assms] in simp_all)
next
  case issued
  show ?thesis
  proof (rule ids_okI)
    show "js_wf (hc_pending (snd (commandWithId th own k timed c)))"
      using ids_okD(1) [OF assms] next_id_fresh [OF assms] by (simp add: issued js_wf_def)
    show "fst ` set (hc_pending (snd (commandWithId th own k timed c))) \<subseteq> fst ` set (hc_issued (snd (commandWithId th own k timed c)))"
      using ids_okD(2) [OF assms] by (simp add: issued subset_insertI2)
    show "distinct (map fst (hc_issued (snd (commandWithId th own k timed c))))"
      using ids_okD(3) [OF assms] next_id_fresh [OF assms] by (simp add: issued)
    show "1 \<le> fst x \<and> fst x < hc_nextId (snd (commandWithId th own k timed c))"
      if "x \<in> set (hc_issued (snd (commandWithId th own k timed c)))" for x
      using that ids_okD(4) [OF assms, of x] ids_okD(5) [OF assms] by (auto simp: issued)
    show "1 \<le> hc_nextId (snd (commandWithId th own k timed c))" using ids_okD(5) [OF assms] by (simp add: issued)
  qed
qed

subsection \<open>Calls\<close>

definition owners :: "'r hc \<Rightarrow> owner multiset" where
  "owners c = mset (map (\<lambda>x. fst (snd x)) (hc_pending c)) + mset (map fst (hc_ready c))"

definition is_caller :: "owner \<Rightarrow> bool" where
  "is_caller own = (case own of ForCaller n \<Rightarrow> True | _ \<Rightarrow> False)"

text \<open>Every call of the API is awaited or settled, once.\<close>

definition calls_of :: "'r hc \<Rightarrow> owner multiset" where
  "calls_of c = filter_mset is_caller (owners c) + mset (map (\<lambda>x. ForCaller (fst x)) (hc_settled c))"

definition calls_ok :: "'r hc \<Rightarrow> bool" where
  "calls_ok c \<longleftrightarrow> calls_of c = mset (map ForCaller [0 ..< hc_calls c])"

lemma owners_command:
  assumes "ids_ok c"
  shows "owners (snd (commandWithId th own k timed c)) = add_mset own (owners c)"
  using assms
proof (cases rule: command_cases [where th = th and own = own and k = k and timed = timed])
  case refused
  show ?thesis unfolding refused(3) by (simp add: owners_def)
next
  case issued
  show ?thesis unfolding owners_def issued by simp
qed

lemma mset_js_delete:
  assumes "js_wf m" "js_get m k = Some v"
  shows "add_mset (k, v) (mset (js_delete k m)) = mset m"
  using assms
proof (induction m)
  case (Cons x m)
  have same: "AList.delete k ys = ys" if "k \<notin> fst ` set ys" for ys :: "('a \<times> 'b) list"
    using that by (induction ys) auto
  show ?case
  proof (cases "fst x = k")
    case True
    with Cons.prems(1) have "k \<notin> fst ` set m" by (auto simp: js_wf_def)
    with True Cons.prems(2) show ?thesis by (cases x) (simp add: same)
  next
    case False
    with Cons.prems have "js_wf m" "js_get m k = Some v" by (cases x, auto simp: js_wf_def)+
    from Cons.IH [OF this] False show ?thesis by (cases x) (simp add: add_mset_commute)
  qed
qed simp

lemma owners_settle:
  assumes "ids_ok c" "js_get (hc_pending c) i = Some (own, timed)"
    and "hc_pending c' = js_delete i (hc_pending c)" "hc_ready c' = hc_ready c @ [(own, j, out)]"
  shows "owners c' = owners c"
proof -
  from arg_cong [OF mset_js_delete [OF ids_okD(1) [OF assms(1)] assms(2)], of "image_mset (\<lambda>x. fst (snd x))"]
  have "mset (map (\<lambda>x. fst (snd x)) (hc_pending c)) = add_mset own (mset (map (\<lambda>x. fst (snd x)) (js_delete i (hc_pending c))))"
    by simp
  with assms(3,4) show ?thesis by (simp add: owners_def)
qed

lemma map_rejected: "map fst (map (\<lambda>(i, own, timed). (own, i, Disconnected)) ps) = map (\<lambda>x. fst (snd x)) ps"
  by (induction ps) auto

lemma owners_reject: "owners (rejectAllPending c) = owners c"
  unfolding owners_def rejectAllPending_def by (simp del: map_map mset_map add: map_rejected)

lemma calls_ok_same: "calls_ok c \<Longrightarrow> owners c' = owners c \<Longrightarrow> hc_settled c' = hc_settled c \<Longrightarrow> hc_calls c' = hc_calls c \<Longrightarrow> calls_ok c'"
  by (simp add: calls_ok_def calls_of_def)

lemma calls_command:
  assumes "ids_ok c"
  shows "calls_of (snd (commandWithId th own k timed c)) = (if is_caller own then add_mset own (calls_of c) else calls_of c)"
  by (simp add: calls_of_def owners_command [OF assms])

subsection \<open>Subscriptions\<close>

text \<open>The commands issued on the connection there is.\<close>

definition live_cmds :: "'r hc \<Rightarrow> (int \<times> kind) set" where
  "live_cmds c = (if hc_plat c = None then {} else set (hc_issued c))"

definition arms :: "owner \<Rightarrow> nat option" where
  "arms own = (case own of ForTrigger t \<Rightarrow> Some t | ForRearm p t \<Rightarrow> Some t | _ \<Rightarrow> None)"

definition task_of :: "owner \<Rightarrow> nat option" where
  "task_of own = (case own of ForRearm p t \<Rightarrow> Some p | ForStates p \<Rightarrow> Some p | _ \<Rightarrow> None)"

definition in_range :: "'r hc \<Rightarrow> owner \<Rightarrow> bool" where
  "in_range c own \<longleftrightarrow> (case arms own of None \<Rightarrow> True | Some t \<Rightarrow> t < length (hc_trig_subs c))
     \<and> (case task_of own of None \<Rightarrow> True | Some p \<Rightarrow> p < length (hc_tasks c))"

definition armed :: "'r hc \<Rightarrow> owner \<Rightarrow> int \<Rightarrow> bool" where
  "armed c own i \<longleftrightarrow> (case arms own of None \<Rightarrow> True | Some t \<Rightarrow> (i, SubscribeTrigger t) \<in> live_cmds c)"

definition events_ok :: "'r hc \<Rightarrow> bool" where
  "events_ok c \<longleftrightarrow> (\<forall>ty reg i. js_get (hc_events c) ty = Some reg \<longrightarrow> er_subId reg = Some i \<longrightarrow> (i, SubscribeEvents ty) \<in> live_cmds c)"

definition triggers_ok :: "'r hc \<Rightarrow> bool" where
  "triggers_ok c \<longleftrightarrow> (\<forall>t \<in> set (hc_triggers c). t < length (hc_trig_subs c)
     \<and> (\<forall>i. hc_trig_subs c ! t = Some i \<longrightarrow> (i, SubscribeTrigger t) \<in> live_cmds c))"

definition waits_ok :: "'r hc \<Rightarrow> bool" where
  "waits_ok c \<longleftrightarrow> (\<forall>i own b. (i, own, b) \<in> set (hc_pending c) \<longrightarrow> in_range c own \<and> armed c own i)
     \<and> (\<forall>own i out. (own, i, out) \<in> set (hc_ready c) \<longrightarrow> in_range c own \<and> ((\<exists>r. out = Resolved r) \<longrightarrow> armed c own i))"

lemma events_okI: "(\<And>ty reg i. js_get (hc_events c) ty = Some reg \<Longrightarrow> er_subId reg = Some i \<Longrightarrow> (i, SubscribeEvents ty) \<in> live_cmds c) \<Longrightarrow> events_ok c"
  by (simp add: events_ok_def)

lemma events_okD: "events_ok c \<Longrightarrow> js_get (hc_events c) ty = Some reg \<Longrightarrow> er_subId reg = Some i \<Longrightarrow> (i, SubscribeEvents ty) \<in> live_cmds c"
  by (simp add: events_ok_def)

lemma triggers_okI:
  "(\<And>t. t \<in> set (hc_triggers c) \<Longrightarrow> t < length (hc_trig_subs c)) \<Longrightarrow>
   (\<And>t i. t \<in> set (hc_triggers c) \<Longrightarrow> hc_trig_subs c ! t = Some i \<Longrightarrow> (i, SubscribeTrigger t) \<in> live_cmds c) \<Longrightarrow> triggers_ok c"
  by (simp add: triggers_ok_def)

lemma triggers_okD:
  assumes "triggers_ok c" "t \<in> set (hc_triggers c)"
  shows "t < length (hc_trig_subs c)" "hc_trig_subs c ! t = Some i \<Longrightarrow> (i, SubscribeTrigger t) \<in> live_cmds c"
  using assms by (simp_all add: triggers_ok_def)

lemma waits_okI:
  "(\<And>i own b. (i, own, b) \<in> set (hc_pending c) \<Longrightarrow> in_range c own \<and> armed c own i) \<Longrightarrow>
   (\<And>own i out. (own, i, out) \<in> set (hc_ready c) \<Longrightarrow> in_range c own) \<Longrightarrow>
   (\<And>own i r. (own, i, Resolved r) \<in> set (hc_ready c) \<Longrightarrow> armed c own i) \<Longrightarrow> waits_ok c"
  unfolding waits_ok_def by blast

lemma waits_okD:
  assumes "waits_ok c"
  shows "(i, own, b) \<in> set (hc_pending c) \<Longrightarrow> in_range c own" "(i, own, b) \<in> set (hc_pending c) \<Longrightarrow> armed c own i"
    "(own, i, out) \<in> set (hc_ready c) \<Longrightarrow> in_range c own" "(own, i, Resolved r) \<in> set (hc_ready c) \<Longrightarrow> armed c own i"
  using assms unfolding waits_ok_def by blast+

text \<open>Nothing of this is lost when commands, triggers and tasks are added.\<close>

definition grown :: "'r hc \<Rightarrow> 'r hc \<Rightarrow> bool" where
  "grown c c' \<longleftrightarrow> live_cmds c \<subseteq> live_cmds c' \<and> length (hc_trig_subs c) \<le> length (hc_trig_subs c')
     \<and> length (hc_tasks c) \<le> length (hc_tasks c')"

lemma grown_live: "grown c c' \<Longrightarrow> x \<in> live_cmds c \<Longrightarrow> x \<in> live_cmds c'"
  by (auto simp: grown_def)

lemma in_range_grown: "in_range c own \<Longrightarrow> grown c c' \<Longrightarrow> in_range c' own"
  unfolding in_range_def grown_def by (auto split: option.splits)

lemma armed_grown: "armed c own i \<Longrightarrow> grown c c' \<Longrightarrow> armed c' own i"
  unfolding armed_def using grown_live [of c c'] by (auto split: option.splits)

lemma events_ok_same: "events_ok c \<Longrightarrow> grown c c' \<Longrightarrow> hc_events c' = hc_events c \<Longrightarrow> events_ok c'"
  using events_okD [of c] grown_live [of c c'] by (intro events_okI) metis

lemma events_ok_set:
  assumes "events_ok c" "grown c c'" "hc_events c' = js_set ty reg (hc_events c)"
    and "\<And>i. er_subId reg = Some i \<Longrightarrow> (i, SubscribeEvents ty) \<in> live_cmds c'"
  shows "events_ok c'"
proof (rule events_okI)
  fix ty' reg' i assume a: "js_get (hc_events c') ty' = Some reg'" "er_subId reg' = Some i"
  show "(i, SubscribeEvents ty') \<in> live_cmds c'"
  proof (cases "ty' = ty")
    case True
    with a assms(3,4) show ?thesis by simp
  next
    case False
    with a assms(3) have "js_get (hc_events c) ty' = Some reg'" by simp
    from events_okD [OF assms(1) this a(2)] grown_live [OF assms(2)] show ?thesis by blast
  qed
qed

lemma triggers_ok_same:
  assumes "triggers_ok c" "grown c c'" "set (hc_triggers c') \<subseteq> set (hc_triggers c)"
    and "\<And>t. t \<in> set (hc_triggers c') \<Longrightarrow> t < length (hc_trig_subs c) \<Longrightarrow> hc_trig_subs c' ! t = hc_trig_subs c ! t"
  shows "triggers_ok c'"
proof (rule triggers_okI)
  fix t assume t: "t \<in> set (hc_triggers c')"
  with assms(3) have o: "t \<in> set (hc_triggers c)" by blast
  from triggers_okD(1) [OF assms(1) o] assms(2) show "t < length (hc_trig_subs c')" by (simp add: grown_def)
  show "(i, SubscribeTrigger t) \<in> live_cmds c'" if "hc_trig_subs c' ! t = Some i" for i
    using triggers_okD [OF assms(1) o] that assms(4) [OF t] grown_live [OF assms(2)] by simp
qed

lemma waits_ok_same:
  assumes "waits_ok c" "grown c c'" "set (hc_pending c') \<subseteq> set (hc_pending c)" "set (hc_ready c') \<subseteq> set (hc_ready c)"
  shows "waits_ok c'"
  using waits_okD [OF assms(1)] in_range_grown [OF _ assms(2)] armed_grown [OF _ assms(2)] assms(3,4)
  by (intro waits_okI) blast+

lemma waits_ok_settled:
  assumes "waits_ok c" "grown c c'" "set (hc_pending c') \<subseteq> set (hc_pending c)" "hc_ready c' = hc_ready c @ [(own, i, out)]"
    and "(i, own, b) \<in> set (hc_pending c)"
  shows "waits_ok c'"
  using waits_okD [OF assms(1)] in_range_grown [OF _ assms(2)] armed_grown [OF _ assms(2)] assms(3-5)
  by (intro waits_okI) auto

subsection \<open>All of it\<close>

definition rest_ok :: "hc_config \<Rightarrow> 'r hc \<Rightarrow> bool" where
  "rest_ok cfg c \<longleftrightarrow> link_ok cfg c \<and> ids_ok c \<and> events_ok c \<and> triggers_ok c \<and> waits_ok c"

definition hc_ok :: "hc_config \<Rightarrow> 'r hc \<Rightarrow> bool" where
  "hc_ok cfg c \<longleftrightarrow> rest_ok cfg c \<and> calls_ok c"

lemma rest_okI: "link_ok cfg c \<Longrightarrow> ids_ok c \<Longrightarrow> events_ok c \<Longrightarrow> triggers_ok c \<Longrightarrow> waits_ok c \<Longrightarrow> rest_ok cfg c"
  by (simp add: rest_ok_def)

lemma rest_okD:
  assumes "rest_ok cfg c"
  shows "link_ok cfg c" "ids_ok c" "events_ok c" "triggers_ok c" "waits_ok c"
  using assms by (simp_all add: rest_ok_def)

lemma hc_okD:
  assumes "hc_ok cfg c"
  shows "rest_ok cfg c" "calls_ok c"
  using assms by (simp_all add: hc_ok_def)

lemma pending_connected: "link_ok cfg c \<Longrightarrow> hc_pending c = [] \<or> hc_connected c"
  by (auto simp: link_ok_def)

text \<open>A step that keeps the link, what is awaited and what was issued.\<close>

lemma grown_same_link:
  "same_link c c' \<Longrightarrow> hc_issued c' = hc_issued c \<Longrightarrow> length (hc_trig_subs c) \<le> length (hc_trig_subs c') \<Longrightarrow>
   length (hc_tasks c) \<le> length (hc_tasks c') \<Longrightarrow> grown c c'"
  by (simp add: grown_def live_cmds_def same_link_def)

lemma rest_ok_keep:
  assumes "rest_ok cfg c" "link_ok cfg c'" "(hc_plat c' = None) = (hc_plat c = None)"
    and "hc_pending c' = hc_pending c" "hc_ready c' = hc_ready c" "hc_issued c' = hc_issued c" "hc_nextId c \<le> hc_nextId c'"
    and "length (hc_trig_subs c) \<le> length (hc_trig_subs c')" "length (hc_tasks c) \<le> length (hc_tasks c')"
    and "events_ok c'" "triggers_ok c'"
  shows "rest_ok cfg c'"
proof (rule rest_okI)
  have g: "grown c c'" using assms(3,6,8,9) by (simp add: grown_def live_cmds_def)
  show "ids_ok c'" by (rule ids_ok_frame [OF rest_okD(2) [OF assms(1)]]) (use assms ids_okD(1) [OF rest_okD(2) [OF assms(1)]] in simp_all)
  show "waits_ok c'" by (rule waits_ok_same [OF rest_okD(5) [OF assms(1)] g]) (use assms in simp_all)
qed (use assms in simp_all)

text \<open>The frequent case: only the link changes, and whether there is a socket does not.\<close>

lemma rest_ok_link:
  assumes "rest_ok cfg c" "link_ok cfg c'" "(hc_plat c' = None) = (hc_plat c = None)"
    and "hc_pending c' = hc_pending c" "hc_ready c' = hc_ready c" "hc_issued c' = hc_issued c" "hc_nextId c \<le> hc_nextId c'"
    and "hc_trig_subs c' = hc_trig_subs c" "hc_triggers c' = hc_triggers c" "hc_events c' = hc_events c"
    and "length (hc_tasks c) \<le> length (hc_tasks c')"
  shows "rest_ok cfg c'"
proof (rule rest_ok_keep [OF assms(1-7) _ assms(11)])
  have g: "grown c c'" using assms by (simp add: grown_def live_cmds_def)
  show "events_ok c'" by (rule events_ok_same [OF rest_okD(3) [OF assms(1)] g assms(10)])
  show "triggers_ok c'" by (rule triggers_ok_same [OF rest_okD(4) [OF assms(1)] g]) (use assms in simp_all)
qed (use assms in simp)

lemma calls_ok_keep:
  "calls_ok c \<Longrightarrow> hc_pending c' = hc_pending c \<Longrightarrow> hc_ready c' = hc_ready c \<Longrightarrow> hc_settled c' = hc_settled c \<Longrightarrow> hc_calls c' = hc_calls c \<Longrightarrow>
   calls_ok c'"
  by (rule calls_ok_same) (simp_all add: owners_def)

lemma sendRaw_ok: "hc_ok cfg c \<Longrightarrow> hc_ok cfg (sendRaw th m c)"
  unfolding hc_ok_def
proof (elim conjE, intro conjI)
  assume r: "rest_ok cfg c"
  have "link_ok cfg (sendRaw th m c)"
    by (rule link_ok_same [OF rest_okD(1) [OF r]]) (use pending_connected [OF rest_okD(1) [OF r]] in simp_all)
  then show "rest_ok cfg (sendRaw th m c)" by (rule rest_ok_link [OF r]) (simp_all add: sendRaw_def)
qed (auto intro: calls_ok_keep)

subsection \<open>Commands\<close>

lemma command_grown:
  assumes "ids_ok c"
  shows "grown c (snd (commandWithId th own k timed c))"
  using assms
proof (cases rule: command_cases [where th = th and own = own and k = k and timed = timed])
  case issued
  have "hc_plat (snd (commandWithId th own k timed c)) = hc_plat c"
    using commandWithId_frames(1) [of c th own k timed] by (simp add: same_link_def)
  with issued show ?thesis by (auto simp: grown_def live_cmds_def)
qed (simp add: grown_def live_cmds_def)

lemma command_issued:
  assumes "ids_ok c" "fst (commandWithId th own k timed c) \<noteq> -1"
  shows "(fst (commandWithId th own k timed c), k) \<in> live_cmds (snd (commandWithId th own k timed c))"
  using assms(1)
proof (cases rule: command_cases [where th = th and own = own and k = k and timed = timed])
  case issued
  have "hc_plat (snd (commandWithId th own k timed c)) = hc_plat c"
    using commandWithId_frames(1) [of c th own k timed] by (simp add: same_link_def)
  with issued show ?thesis by (simp add: live_cmds_def can_send_def)
qed (use assms(2) in simp)

lemma command_rest:
  assumes "rest_ok cfg c" "in_range c own" "\<And>t. arms own = Some t \<Longrightarrow> k = SubscribeTrigger t"
  shows "rest_ok cfg (snd (commandWithId th own k timed c))"
proof (rule rest_okI)
  let ?c = "snd (commandWithId th own k timed c)"
  note r = rest_okD [OF assms(1)]
  note g = command_grown [OF r(2), of th own k timed]
  note cs = command_cases [OF r(2), where th = th and own = own and k = k and timed = timed]
  show "link_ok cfg ?c"
  proof (rule link_ok_same [OF r(1)])
    show "hc_pending ?c = [] \<or> hc_connected c"
      by (rule cs) (use pending_connected [OF r(1)] in \<open>auto simp: can_send_def\<close>)
  qed simp
  show "ids_ok ?c" by (rule ids_ok_command [OF r(2)])
  show "events_ok ?c" by (rule events_ok_same [OF r(3) g]) simp
  show "triggers_ok ?c" by (rule triggers_ok_same [OF r(4) g]) simp_all
  have own: "in_range ?c own" by (rule in_range_grown [OF assms(2) g])
  note mono = in_range_grown [OF _ g] armed_grown [OF _ g]
  show "waits_ok ?c"
  proof (rule cs)
    assume n: "?c = c\<lparr>hc_ready := hc_ready c @ [(own, - 1, Disconnected)]\<rparr>"
    show ?thesis
    proof (rule waits_okI)
      show "in_range ?c own' \<and> armed ?c own' i" if "(i, own', b) \<in> set (hc_pending ?c)" for i own' b
        using that waits_okD(1,2) [OF r(5)] mono unfolding n by auto
      show "in_range ?c own'" if "(own', i, out) \<in> set (hc_ready ?c)" for own' i out
        using that own waits_okD(3) [OF r(5)] mono(1) unfolding n by auto
      show "armed ?c own' i" if "(own', i, Resolved x) \<in> set (hc_ready ?c)" for own' i x
        using that waits_okD(4) [OF r(5)] mono(2) unfolding n by auto
    qed
  next
    assume n: "can_send c" "hc_pending ?c = hc_pending c @ [(hc_nextId c, own, timed)]" "hc_issued ?c = hc_issued c @ [(hc_nextId c, k)]"
      "hc_ready ?c = hc_ready c"
    have "hc_plat ?c = hc_plat c" using commandWithId_frames(1) [of c th own k timed] by (simp add: same_link_def)
    with n(1,3) assms(3) have a: "armed ?c own (hc_nextId c)"
      by (cases "arms own") (simp_all add: armed_def live_cmds_def can_send_def)
    show ?thesis
    proof (rule waits_okI)
      show "in_range ?c own' \<and> armed ?c own' i" if "(i, own', b) \<in> set (hc_pending ?c)" for i own' b
        using that own a waits_okD(1,2) [OF r(5)] mono unfolding n(2) by auto
      show "in_range ?c own'" if "(own', i, out) \<in> set (hc_ready ?c)" for own' i out
        using that waits_okD(3) [OF r(5)] mono(1) unfolding n(4) by blast
      show "armed ?c own' i" if "(own', i, Resolved x) \<in> set (hc_ready ?c)" for own' i x
        using that waits_okD(4) [OF r(5)] mono(2) unfolding n(4) by blast
    qed
  qed
qed

lemma command_ok:
  assumes "hc_ok cfg c" "in_range c own" "\<And>t. arms own = Some t \<Longrightarrow> k = SubscribeTrigger t" "\<not> is_caller own"
  shows "hc_ok cfg (snd (commandWithId th own k timed c))"
  using command_rest [OF hc_okD(1) [OF assms(1)] assms(2,3)] hc_okD [OF assms(1)] assms(4)
  by (simp add: hc_ok_def calls_ok_def calls_command rest_okD(2))

lemma sendCommand_ok:
  assumes "hc_ok cfg c"
  shows "hc_ok cfg (sendCommand th what timed c)"
proof -
  let ?c = "c\<lparr>hc_calls := Suc (hc_calls c)\<rparr>"
  note r = hc_okD [OF assms]
  have l: "link_ok cfg ?c" by (rule link_ok_same [OF rest_okD(1) [OF r(1)]]) (use pending_connected [OF rest_okD(1) [OF r(1)]] in \<open>simp_all add: same_link_def\<close>)
  have "rest_ok cfg ?c" by (rule rest_ok_link [OF r(1) l]) simp_all
  then have "rest_ok cfg (sendCommand th what timed c)" unfolding sendCommand_def
    by (rule command_rest) (simp_all add: in_range_def arms_def task_of_def)
  moreover have "calls_ok (sendCommand th what timed c)"
    using r(2) rest_okD(2) [OF \<open>rest_ok cfg ?c\<close>]
    by (simp add: sendCommand_def calls_ok_def calls_command is_caller_def) (simp add: calls_of_def owners_def)
  ultimately show ?thesis by (simp add: hc_ok_def)
qed

subsection \<open>What the operations keep\<close>

lemma same_link_fields [simp]:
  "same_link c (c'\<lparr>hc_events := a\<rparr>) = same_link c c'" "same_link c (c'\<lparr>hc_tasks := b\<rparr>) = same_link c c'"
  "same_link c (c'\<lparr>hc_trig_subs := d\<rparr>) = same_link c c'" "same_link c (c'\<lparr>hc_triggers := e\<rparr>) = same_link c c'"
  "same_link c (c'\<lparr>hc_ready := f\<rparr>) = same_link c c'" "same_link c (c'\<lparr>hc_pending := g\<rparr>) = same_link c c'"
  "same_link c (c'\<lparr>hc_unhandled := h\<rparr>) = same_link c c'" "same_link c (c'\<lparr>hc_snapshots := i\<rparr>) = same_link c c'"
  "same_link c (c'\<lparr>hc_changes := j\<rparr>) = same_link c c'" "same_link c (c'\<lparr>hc_settled := k\<rparr>) = same_link c c'"
  "same_link c (c'\<lparr>hc_heard := l\<rparr>) = same_link c c'" "same_link c (c'\<lparr>hc_eventsSeen := m\<rparr>) = same_link c c'"
  "same_link c (c'\<lparr>hc_awaitingPong := n\<rparr>) = same_link c c'" "same_link c (c'\<lparr>hc_nextId := q\<rparr>) = same_link c c'"
  "same_link c (c'\<lparr>hc_calls := p\<rparr>) = same_link c c'" "same_link c (c'\<lparr>hc_backoffMs := s\<rparr>) = same_link c c'"
  by (simp_all add: same_link_def)

lemma link_ok_keep: "link_ok cfg c \<Longrightarrow> same_link c c' \<Longrightarrow> hc_pending c' = hc_pending c \<Longrightarrow> link_ok cfg c'"
  using pending_connected [of cfg c] by (auto intro: link_ok_same)

lemma hc_ok_same:
  assumes "hc_ok cfg c" "same_link c c'" "hc_pending c' = hc_pending c" "hc_ready c' = hc_ready c" "hc_issued c' = hc_issued c"
    and "hc_nextId c \<le> hc_nextId c'" "hc_trig_subs c' = hc_trig_subs c" "hc_triggers c' = hc_triggers c" "hc_events c' = hc_events c"
    and "length (hc_tasks c) \<le> length (hc_tasks c')" "hc_settled c' = hc_settled c" "hc_calls c' = hc_calls c"
  shows "hc_ok cfg c'"
proof -
  note r = hc_okD [OF assms(1)]
  have "rest_ok cfg c'"
    by (rule rest_ok_link [OF r(1) link_ok_keep [OF rest_okD(1) [OF r(1)] assms(2,3)]]) (use assms in \<open>simp_all add: same_link_def\<close>)
  moreover have "calls_ok c'" by (rule calls_ok_keep [OF r(2)]) (use assms in simp_all)
  ultimately show ?thesis by (simp add: hc_ok_def)
qed

lemma put_event_ok:
  assumes "hc_ok cfg c" "\<And>i. er_subId reg = Some i \<Longrightarrow> (i, SubscribeEvents ty) \<in> live_cmds c"
  shows "hc_ok cfg (c\<lparr>hc_events := js_set ty reg (hc_events c)\<rparr>)"
proof -
  let ?c = "c\<lparr>hc_events := js_set ty reg (hc_events c)\<rparr>"
  note r = hc_okD [OF assms(1)] and q = rest_okD [OF hc_okD(1) [OF assms(1)]]
  have g: "grown c ?c" by (rule grown_same_link) simp_all
  have "rest_ok cfg ?c"
  proof (rule rest_ok_keep [OF r(1)])
    show "link_ok cfg ?c" by (rule link_ok_keep [OF q(1)]) simp_all
    show "events_ok ?c" by (rule events_ok_set [OF q(3) g]) (use assms(2) grown_live [OF g] in \<open>simp, blast\<close>)
    show "triggers_ok ?c" by (rule triggers_ok_same [OF q(4) g]) simp_all
  qed simp_all
  moreover have "calls_ok ?c" by (rule calls_ok_keep [OF r(2)]) simp_all
  ultimately show ?thesis by (simp add: hc_ok_def)
qed

lemma put_trigs_ok:
  assumes "hc_ok cfg c" "length (hc_trig_subs c) \<le> length S" "\<And>t. t \<in> set T \<Longrightarrow> t < length S"
    and "\<And>t i. t \<in> set T \<Longrightarrow> S ! t = Some i \<Longrightarrow> (i, SubscribeTrigger t) \<in> live_cmds c"
  shows "hc_ok cfg (c\<lparr>hc_trig_subs := S, hc_triggers := T\<rparr>)"
proof -
  let ?c = "c\<lparr>hc_trig_subs := S, hc_triggers := T\<rparr>"
  note r = hc_okD [OF assms(1)] and q = rest_okD [OF hc_okD(1) [OF assms(1)]]
  have g: "grown c ?c" by (rule grown_same_link) (use assms(2) in simp_all)
  have "rest_ok cfg ?c"
  proof (rule rest_ok_keep [OF r(1)])
    show "link_ok cfg ?c" by (rule link_ok_keep [OF q(1)]) simp_all
    show "events_ok ?c" by (rule events_ok_same [OF q(3) g]) simp
    show "triggers_ok ?c" by (rule triggers_okI) (use assms(3,4) grown_live [OF g] in \<open>simp, fastforce\<close>)
  qed (use assms(2) in simp_all)
  moreover have "calls_ok ?c" by (rule calls_ok_keep [OF r(2)]) simp_all
  ultimately show ?thesis by (simp add: hc_ok_def)
qed

lemma settle_ok:
  assumes "hc_ok cfg c" "js_get (hc_pending c) i = Some (own, timed)"
  shows "hc_ok cfg (c\<lparr>hc_pending := js_delete i (hc_pending c), hc_ready := hc_ready c @ [(own, i, out)]\<rparr>)"
proof -
  let ?c = "c\<lparr>hc_pending := js_delete i (hc_pending c), hc_ready := hc_ready c @ [(own, i, out)]\<rparr>"
  note r = hc_okD [OF assms(1)] and q = rest_okD [OF hc_okD(1) [OF assms(1)]]
  have sub: "set (js_delete i (hc_pending c)) \<subseteq> set (hc_pending c)" by (auto simp: AList.delete_eq)
  have g: "grown c ?c" by (rule grown_same_link) simp_all
  have mem: "(i, own, timed) \<in> set (hc_pending c)" using assms(2) by (rule map_of_SomeD)
  have "rest_ok cfg ?c"
  proof (rule rest_okI)
    have "hc_connected c" using pending_connected [OF q(1)] assms(2) by auto
    then show "link_ok cfg ?c" by (intro link_ok_same [OF q(1)]) simp_all
    show "ids_ok ?c" by (rule ids_ok_frame [OF q(2)]) (use ids_okD(1) [OF q(2)] sub in auto)
    show "events_ok ?c" by (rule events_ok_same [OF q(3) g]) simp
    show "triggers_ok ?c" by (rule triggers_ok_same [OF q(4) g]) simp_all
    show "waits_ok ?c" by (rule waits_ok_settled [OF q(5) g _ _ mem]) (use sub in simp_all)
  qed
  moreover have "calls_ok ?c" by (rule calls_ok_same [OF r(2) owners_settle [OF q(2) assms(2)]]) simp_all
  ultimately show ?thesis by (simp add: hc_ok_def)
qed

lemma handleResult_ok: "hc_ok cfg c \<Longrightarrow> hc_ok cfg (handleResult i out c)"
  using settle_ok [of cfg c i] by (auto simp: handleResult_def split: option.split)

lemma command_times_out_ok: "hc_ok cfg c \<Longrightarrow> hc_ok cfg (command_times_out i c)"
  using settle_ok [of cfg c i] by (auto simp: command_times_out_def split: option.split)

lemma plain_owners [simp]:
  "in_range c (ForEvents ty)" "in_range c ForNobody" "in_range c (ForCaller n)" "arms (ForEvents ty) = None" "arms ForNobody = None"
  "arms (ForStates p) = None" "arms (ForTrigger t) = Some t" "arms (ForRearm p t) = Some t"
  "\<not> is_caller (ForEvents ty)" "\<not> is_caller ForNobody" "\<not> is_caller (ForTrigger t)" "\<not> is_caller (ForRearm p t)" "\<not> is_caller (ForStates p)"
  "in_range c (ForTrigger t) \<longleftrightarrow> t < length (hc_trig_subs c)"
  "in_range c (ForRearm p t) \<longleftrightarrow> t < length (hc_trig_subs c) \<and> p < length (hc_tasks c)"
  "in_range c (ForStates p) \<longleftrightarrow> p < length (hc_tasks c)"
  by (simp_all add: in_range_def arms_def task_of_def is_caller_def)

lemma subscribeEventType_ok:
  assumes "hc_ok cfg c"
  shows "hc_ok cfg (subscribeEventType cfg th ty c)"
proof (cases "js_get (hc_events c) ty")
  case (Some reg)
  let ?r = "commandWithId th (ForEvents ty) (SubscribeEvents ty) (timed_by_default cfg) c"
  have ok: "hc_ok cfg (snd ?r)" by (rule command_ok [OF assms]) simp_all
  show ?thesis
  proof (cases "fst ?r = -1")
    case False
    note i = command_issued [OF rest_okD(2) [OF hc_okD(1) [OF assms]] False]
    have "hc_ok cfg ((snd ?r)\<lparr>hc_events := js_set ty (reg\<lparr>er_subId := Some (fst ?r)\<rparr>) (hc_events (snd ?r))\<rparr>)"
      by (rule put_event_ok [OF ok]) (use i in simp)
    with False Some show ?thesis by (simp add: subscribeEventType_def Let_def)
  qed (use ok Some in \<open>simp add: subscribeEventType_def Let_def\<close>)
qed (use assms in \<open>simp add: subscribeEventType_def\<close>)

lemma reg_issued:
  assumes "hc_ok cfg c" "js_get (hc_events c) ty = Some reg" "er_subId reg = Some i"
  shows "(i, SubscribeEvents ty) \<in> live_cmds c"
  by (rule events_okD [OF rest_okD(3) [OF hc_okD(1) [OF assms(1)]] assms(2,3)])

lemma addEventHandler_ok:
  assumes "hc_ok cfg c"
  shows "hc_ok cfg (addEventHandler cfg th ty h c)"
proof -
  let ?reg = "case js_get (hc_events c) ty of None \<Rightarrow> \<lparr>er_handlers = [], er_subId = None\<rparr> | Some reg \<Rightarrow> reg"
  have "hc_ok cfg (c\<lparr>hc_events := js_set ty (?reg\<lparr>er_handlers := js_add h (er_handlers ?reg)\<rparr>) (hc_events c)\<rparr>)"
  proof (rule put_event_ok [OF assms])
    fix i assume "er_subId (?reg\<lparr>er_handlers := js_add h (er_handlers ?reg)\<rparr>) = Some i"
    then show "(i, SubscribeEvents ty) \<in> live_cmds c" using reg_issued [OF assms, of ty] by (cases "js_get (hc_events c) ty") simp_all
  qed
  from this subscribeEventType_ok [OF this] show ?thesis unfolding addEventHandler_def Let_def by simp
qed

lemma removeEventHandler_ok:
  assumes "hc_ok cfg c"
  shows "hc_ok cfg (removeEventHandler cfg th ty h c)"
proof (cases "js_get (hc_events c) ty")
  case (Some reg)
  let ?hs = "remove1 h (er_handlers reg)"
  have keep: "hc_ok cfg (c\<lparr>hc_events := js_set ty (reg\<lparr>er_handlers := ?hs\<rparr>) (hc_events c)\<rparr>)"
    by (rule put_event_ok [OF assms]) (use reg_issued [OF assms Some] in simp)
  have none: "hc_ok cfg (c\<lparr>hc_events := js_set ty \<lparr>er_handlers = [], er_subId = None\<rparr> (hc_events c)\<rparr>)"
    by (rule put_event_ok [OF assms]) simp
  have "hc_ok cfg (snd (commandWithId th ForNobody k (timed_by_default cfg)
      (c\<lparr>hc_events := js_set ty \<lparr>er_handlers = [], er_subId = None\<rparr> (hc_events c)\<rparr>)))" for k
    by (rule command_ok [OF none]) simp_all
  with keep none assms Some show ?thesis by (simp add: removeEventHandler_def Let_def split: option.split)
qed (use assms in \<open>simp add: removeEventHandler_def\<close>)

lemma trig_issued:
  assumes "hc_ok cfg c" "t \<in> set (hc_triggers c)"
  shows "t < length (hc_trig_subs c)" "hc_trig_subs c ! t = Some i \<Longrightarrow> (i, SubscribeTrigger t) \<in> live_cmds c"
  using triggers_okD [OF rest_okD(4) [OF hc_okD(1) [OF assms(1)]] assms(2)] by simp_all

lemma subscribeTrigger_ok:
  assumes "hc_ok cfg c"
  shows "hc_ok cfg (subscribeTrigger cfg th c)"
proof -
  let ?c = "c\<lparr>hc_trig_subs := hc_trig_subs c @ [None], hc_triggers := hc_triggers c\<rparr>"
  have "hc_ok cfg ?c"
    by (rule put_trigs_ok [OF assms]) (use trig_issued [OF assms] in \<open>auto simp: nth_append less_SucI\<close>)
  then have "hc_ok cfg (snd (commandWithId th (ForTrigger (length (hc_trig_subs c))) (SubscribeTrigger (length (hc_trig_subs c))) (timed_by_default cfg) ?c))"
    by (rule command_ok) simp_all
  then show ?thesis by (simp add: subscribeTrigger_def armTrigger_def Let_def)
qed

lemma unsubscribeTrigger_ok:
  assumes "hc_ok cfg c"
  shows "hc_ok cfg (unsubscribeTrigger cfg th t c)"
proof -
  let ?T = "remove1 t (hc_triggers c)" and ?S = "(hc_trig_subs c)[t := None]"
  have T: "set ?T \<subseteq> set (hc_triggers c)" by (rule set_remove1_subset)
  have "hc_ok cfg (c\<lparr>hc_trig_subs := hc_trig_subs c, hc_triggers := ?T\<rparr>)"
    by (rule put_trigs_ok [OF assms]) (use trig_issued [OF assms] T in auto)
  then have one: "hc_ok cfg (c\<lparr>hc_triggers := ?T\<rparr>)" by simp
  have "(i, SubscribeTrigger t') \<in> live_cmds c" if "t' \<in> set ?T" "?S ! t' = Some i" for t' i
  proof -
    have "t' \<in> set (hc_triggers c)" using that(1) T by blast
    from trig_issued [OF assms this] that(2) show ?thesis by (cases "t' = t") auto
  qed
  then have "hc_ok cfg (c\<lparr>hc_trig_subs := ?S, hc_triggers := ?T\<rparr>)"
    by (intro put_trigs_ok [OF assms]) (use trig_issued(1) [OF assms] T in auto)
  moreover have "c\<lparr>hc_trig_subs := ?S, hc_triggers := ?T\<rparr> = c\<lparr>hc_triggers := ?T, hc_trig_subs := ?S\<rparr>" by simp
  ultimately have two: "hc_ok cfg (c\<lparr>hc_triggers := ?T, hc_trig_subs := ?S\<rparr>)" by (simp only:)
  have "hc_ok cfg (snd (commandWithId th ForNobody k (timed_by_default cfg) (c\<lparr>hc_triggers := ?T, hc_trig_subs := ?S\<rparr>)))" for k
    by (rule command_ok [OF two]) simp_all
  with one two assms show ?thesis by (simp add: unsubscribeTrigger_def Let_def split: option.split)
qed

lemma task_advance_ok:
  assumes "hc_ok cfg c" "p < length (hc_tasks c)"
  shows "hc_ok cfg (task_advance cfg th p c)"
proof (cases "filter (\<lambda>t. t \<notin> set (at_visited (hc_tasks c ! p))) (hc_triggers c)")
  case Nil
  have "hc_ok cfg (snd (commandWithId th (ForStates p) GetStates (timed_by_default cfg) c))"
    by (rule command_ok [OF assms(1)]) (use assms(2) in simp_all)
  with Nil show ?thesis by (simp add: task_advance_def Let_def)
next
  case (Cons t ts)
  have "t \<in> set (filter (\<lambda>t. t \<notin> set (at_visited (hc_tasks c ! p))) (hc_triggers c))" unfolding Cons by simp
  then have "t \<in> set (hc_triggers c)" by simp
  note t = trig_issued(1) [OF assms(1) this]
  have ok: "hc_ok cfg (c\<lparr>hc_tasks := (hc_tasks c)[p := a]\<rparr>)" for a by (rule hc_ok_same [OF assms(1)]) simp_all
  have next_ok: "hc_ok cfg (armTrigger cfg th (ForRearm p t) t (c\<lparr>hc_tasks := (hc_tasks c)[p := a]\<rparr>))" for a
    unfolding armTrigger_def by (rule command_ok [OF ok]) (use assms(2) t in simp_all)
  show ?thesis unfolding task_advance_def Let_def Cons list.case using assms(1) next_ok by (simp only: split: if_split) simp
qed

lemma resubscribe_ok: "hc_ok cfg c \<Longrightarrow> hc_ok cfg (resubscribe cfg th ty c)"
  by (simp add: resubscribe_def subscribeEventType_ok split: option.split)

lemma subscribeEventType_frames [simp]:
  "same_link c (subscribeEventType cfg th ty c)" "hc_tasks (subscribeEventType cfg th ty c) = hc_tasks c"
  by (simp_all add: subscribeEventType_def Let_def split: option.split)

lemma resubscribe_frames [simp]: "same_link c (resubscribe cfg th ty c)" "hc_tasks (resubscribe cfg th ty c) = hc_tasks c"
  by (simp_all add: resubscribe_def split: option.split)

lemma resubscribe_all:
  assumes "hc_ok cfg c"
  shows "hc_ok cfg (foldl (\<lambda>c ty. resubscribe cfg th ty c) c tys) \<and> same_link c (foldl (\<lambda>c ty. resubscribe cfg th ty c) c tys)
    \<and> hc_tasks (foldl (\<lambda>c ty. resubscribe cfg th ty c) c tys) = hc_tasks c"
  using assms
proof (induction tys arbitrary: c)
  case (Cons ty tys)
  from Cons.IH [OF resubscribe_ok [OF Cons.prems, of th ty]] same_link_trans [OF resubscribe_frames(1) [of c cfg th ty]] show ?case by simp
qed simp

lemma task_advance_link [simp]: "same_link c (task_advance cfg th p c)"
  using same_link_trans [OF _ commandWithId_frames(1)]
  by (simp add: task_advance_def Let_def armTrigger_def same_link_trans [OF _ commandWithId_frames(1)] split: list.split)

text \<open>A frame is handled while the socket is there and the client is not stopped.\<close>

definition listening :: "'r hc \<Rightarrow> bool" where
  "listening c \<longleftrightarrow> hc_plat c \<noteq> None \<and> \<not> hc_stopped c"

lemma listening_same: "same_link c c' \<Longrightarrow> listening c \<Longrightarrow> listening c'"
  by (simp add: listening_def same_link_def)

lemma onAuthOk_ok:
  assumes "hc_ok cfg c" "listening c"
  shows "hc_ok cfg (onAuthOk cfg th ver c) \<and> listening (onAuthOk cfg th ver c)"
proof -
  let ?c1 = "startPing cfg (c\<lparr>hc_handshakeTimer := False, hc_haVersion := ver, hc_backoffMs := 0, hc_connected := True, hc_everConnected := True\<rparr>)"
  let ?c2 = "?c1\<lparr>hc_tasks := hc_tasks ?c1 @ [\<lparr>at_gen = hc_gen c, at_resync = hc_everConnected c, at_visited = []\<rparr>]\<rparr>"
  let ?c3 = "foldl (\<lambda>c ty. resubscribe cfg th ty c) ?c2 (map fst (hc_events ?c2))"
  note r = hc_okD [OF assms(1)]
  have fields: "hc_plat ?c1 = hc_plat c" "hc_pending ?c1 = hc_pending c" "hc_ready ?c1 = hc_ready c" "hc_issued ?c1 = hc_issued c"
    "hc_nextId ?c1 = hc_nextId c" "hc_trig_subs ?c1 = hc_trig_subs c" "hc_triggers ?c1 = hc_triggers c" "hc_events ?c1 = hc_events c"
    "hc_tasks ?c1 = hc_tasks c" "hc_settled ?c1 = hc_settled c" "hc_calls ?c1 = hc_calls c" "hc_stopped ?c1 = hc_stopped c"
    by (simp_all add: startPing_def stopPing_def)
  have "link_ok cfg ?c1" using rest_okD(1) [OF r(1)] assms(2) by (simp add: link_ok_def startPing_def stopPing_def listening_def)
  then have "rest_ok cfg ?c1" by (rule rest_ok_link [OF r(1)]) (simp_all add: fields)
  moreover have "calls_ok ?c1" by (rule calls_ok_keep [OF r(2)]) (simp_all add: fields)
  ultimately have "hc_ok cfg ?c1" by (simp add: hc_ok_def)
  then have c2: "hc_ok cfg ?c2" by (rule hc_ok_same) simp_all
  note c3 = resubscribe_all [OF c2, of th "map fst (hc_events ?c2)"]
  have "length (hc_tasks c) < length (hc_tasks ?c3)" using c3 by (simp add: fields)
  with c3 have "hc_ok cfg (task_advance cfg th (length (hc_tasks c)) ?c3)" by (intro task_advance_ok) simp_all
  moreover have "listening ?c2" using assms(2) by (simp add: listening_def fields)
  then have "listening (task_advance cfg th (length (hc_tasks c)) ?c3)"
    using c3 by (blast intro: listening_same task_advance_link)
  ultimately show ?thesis by (simp add: onAuthOk_def Let_def)
qed

lemma closeSocket_fields [simp]:
  "hc_pending (closeSocket c) = hc_pending c" "hc_ready (closeSocket c) = hc_ready c" "hc_issued (closeSocket c) = hc_issued c"
  "hc_nextId (closeSocket c) = hc_nextId c" "hc_trig_subs (closeSocket c) = hc_trig_subs c" "hc_triggers (closeSocket c) = hc_triggers c"
  "hc_events (closeSocket c) = hc_events c" "hc_tasks (closeSocket c) = hc_tasks c" "hc_settled (closeSocket c) = hc_settled c"
  "hc_calls (closeSocket c) = hc_calls c" "hc_stopped (closeSocket c) = hc_stopped c" "(hc_plat (closeSocket c) = None) = (hc_plat c = None)"
  by (simp_all add: closeSocket_def)

lemma hc_ok_link:
  assumes "hc_ok cfg c" "link_ok cfg c'" "(hc_plat c' = None) = (hc_plat c = None)"
    and "hc_pending c' = hc_pending c" "hc_ready c' = hc_ready c" "hc_issued c' = hc_issued c" "hc_nextId c \<le> hc_nextId c'"
    and "hc_trig_subs c' = hc_trig_subs c" "hc_triggers c' = hc_triggers c" "hc_events c' = hc_events c"
    and "length (hc_tasks c) \<le> length (hc_tasks c')" "hc_settled c' = hc_settled c" "hc_calls c' = hc_calls c"
  shows "hc_ok cfg c'"
  using rest_ok_link [OF hc_okD(1) [OF assms(1)] assms(2-11)] calls_ok_keep [OF hc_okD(2) [OF assms(1)] assms(4,5,12,13)]
  by (simp add: hc_ok_def)

lemma link_okD: "hc_ok cfg c \<Longrightarrow> link_ok cfg c"
  by (rule rest_okD(1) [OF hc_okD(1)])

lemma closeSocket_ok: "hc_ok cfg c \<Longrightarrow> hc_ok cfg (closeSocket c)"
proof -
  assume ok: "hc_ok cfg c"
  have "link_ok cfg (closeSocket c)"
  proof (cases "hc_plat c")
    case None
    with link_okD [OF ok] show ?thesis by (simp add: closeSocket_def)
  next
    case (Some s)
    then have "closeSocket c = c\<lparr>hc_plat := Some Closing\<rparr>" by (simp add: closeSocket_def)
    with Some link_okD [OF ok] show ?thesis by (simp add: link_ok_def)
  qed
  then show "hc_ok cfg (closeSocket c)" by (rule hc_ok_link [OF ok]) simp_all
qed

lemma handleMessage_ok:
  assumes "hc_ok cfg c" "listening c"
  shows "hc_ok cfg (handleMessage cfg th m c) \<and> listening (handleMessage cfg th m c)"
proof (cases m)
  case AuthRequired
  with sendRaw_ok [OF assms(1)] listening_same [OF sendRaw_frames(1) assms(2)] show ?thesis by (simp add: handleMessage_def)
next
  case (AuthOk ver)
  with onAuthOk_ok [OF assms] show ?thesis by (simp add: handleMessage_def)
next
  case AuthInvalid
  have "hc_ok cfg (c\<lparr>hc_backoffMs := hc_maxMs cfg\<rparr>)" by (rule hc_ok_same [OF assms(1)]) simp_all
  moreover have "listening (closeSocket (c\<lparr>hc_backoffMs := b\<rparr>))" "listening (c\<lparr>hc_backoffMs := b\<rparr>)" for b
    using assms(2) by (simp_all add: listening_def closeSocket_def)
  ultimately show ?thesis using AuthInvalid by (simp add: handleMessage_def Let_def closeSocket_ok)
next
  case (ResultOk i r)
  have "same_link c (handleResult i (Resolved r) c)" by (simp add: handleResult_def split: option.split)
  with ResultOk handleResult_ok [OF assms(1)] listening_same assms(2) show ?thesis by (simp add: handleMessage_def) blast
next
  case (ResultError i k msg)
  have "same_link c (handleResult i (CommandError k msg) c)" by (simp add: handleResult_def split: option.split)
  with ResultError handleResult_ok [OF assms(1)] listening_same assms(2) show ?thesis by (simp add: handleMessage_def) blast
next
  case PongIn
  have "hc_ok cfg (c\<lparr>hc_awaitingPong := False\<rparr>)" by (rule hc_ok_same [OF assms(1)]) simp_all
  with PongIn assms(2) show ?thesis by (simp add: handleMessage_def listening_def)
next
  case (EventIn i e)
  have "hc_ok cfg (handleEvent i c)" by (rule hc_ok_same [OF assms(1)]) (simp_all add: handleEvent_def)
  with EventIn assms(2) show ?thesis by (simp add: handleMessage_def listening_def handleEvent_def)
next
  case OtherIn
  with assms show ?thesis by (simp add: handleMessage_def)
qed

lemma frame_ok:
  assumes "hc_ok cfg c" "listening c"
  shows "hc_ok cfg (foldl (\<lambda>c m. handleMessage cfg th m c) c ms)"
  using assms
proof (induction ms arbitrary: c)
  case (Cons m ms)
  from Cons.IH handleMessage_ok [OF Cons.prems, of th m] show ?case by simp
qed simp

subsection \<open>Continuations\<close>

lemma popped:
  assumes "hc_ok cfg c" "hc_ready c = (own, i, out) # rest"
  shows "rest_ok cfg (c\<lparr>hc_ready := rest\<rparr>)" "in_range c own" "out = Resolved r \<Longrightarrow> armed c own i"
    "is_caller own \<Longrightarrow> add_mset own (calls_of (c\<lparr>hc_ready := rest\<rparr>)) = mset (map ForCaller [0 ..< hc_calls c])"
    "\<not> is_caller own \<Longrightarrow> hc_ok cfg (c\<lparr>hc_ready := rest\<rparr>)"
proof -
  let ?c = "c\<lparr>hc_ready := rest\<rparr>"
  note q = rest_okD [OF hc_okD(1) [OF assms(1)]]
  have g: "grown c ?c" by (rule grown_same_link) simp_all
  show rest: "rest_ok cfg ?c"
  proof (rule rest_okI)
    show "link_ok cfg ?c" by (rule link_ok_keep [OF q(1)]) simp_all
    show "ids_ok ?c" by (rule ids_ok_frame [OF q(2)]) (use ids_okD(1) [OF q(2)] in simp_all)
    show "events_ok ?c" by (rule events_ok_same [OF q(3) g]) simp
    show "triggers_ok ?c" by (rule triggers_ok_same [OF q(4) g]) simp_all
    show "waits_ok ?c" by (rule waits_ok_same [OF q(5) g]) (use assms(2) in auto)
  qed
  show "in_range c own" using waits_okD(3) [OF q(5), of own i out] assms(2) by simp
  show "armed c own i" if "out = Resolved r" using waits_okD(4) [OF q(5), of own i r] assms(2) that by simp
  have calls: "calls_of c = (if is_caller own then add_mset own (calls_of ?c) else calls_of ?c)"
    using assms(2) by (simp add: calls_of_def owners_def)
  show "add_mset own (calls_of ?c) = mset (map ForCaller [0 ..< hc_calls c])" if "is_caller own"
    using hc_okD(2) [OF assms(1)] calls that by (simp add: calls_ok_def)
  show "hc_ok cfg ?c" if "\<not> is_caller own"
    using hc_okD(2) [OF assms(1)] calls that rest by (simp add: hc_ok_def calls_ok_def)
qed

lemma armed_trigger_ok:
  assumes "hc_ok cfg c" "(i, SubscribeTrigger t) \<in> live_cmds c" "t < length (hc_trig_subs c)" "set T \<subseteq> insert t (set (hc_triggers c))"
  shows "hc_ok cfg ((trigger_armed t i c)\<lparr>hc_triggers := T\<rparr>)"
proof -
  have "hc_ok cfg (c\<lparr>hc_trig_subs := (hc_trig_subs c)[t := Some i], hc_triggers := T\<rparr>)"
  proof (rule put_trigs_ok [OF assms(1)])
    show "t' < length ((hc_trig_subs c)[t := Some i])" if "t' \<in> set T" for t'
      using that assms(3,4) trig_issued(1) [OF assms(1)] by auto
    show "(j, SubscribeTrigger t') \<in> live_cmds c" if "t' \<in> set T" "(hc_trig_subs c)[t := Some i] ! t' = Some j" for t' j
      using that assms(2-4) trig_issued(2) [OF assms(1), of t' j] by (cases "t' = t") auto
  qed simp
  then show ?thesis by (simp add: trigger_armed_def)
qed

lemma micro_ok:
  assumes "hc_ok cfg c" "hc_ready c \<noteq> []"
  shows "hc_ok cfg (hc_micro cfg th c)"
proof -
  obtain own i out rest where h: "hc_ready c = (own, i, out) # rest" using assms(2) by (cases "hc_ready c") auto
  let ?c = "c\<lparr>hc_ready := rest\<rparr>"
  note p = popped [OF assms(1) h]
  have live: "live_cmds ?c = live_cmds c" by (simp add: live_cmds_def)
  have "hc_ok cfg (continue_with cfg th own i out ?c)"
  proof (cases own)
    case (ForEvents ty)
    then have ok: "hc_ok cfg ?c" using p(5) by simp
    have u: "hc_ok cfg (?c\<lparr>hc_unhandled := n\<rparr>)" for n by (rule hc_ok_same [OF ok]) simp_all
    have "hc_ok cfg (?c\<lparr>hc_events := js_set ty (reg\<lparr>er_subId := None\<rparr>) (hc_events ?c)\<rparr>)" for reg
      by (rule put_event_ok [OF ok]) simp
    with ok u ForEvents show ?thesis by (simp add: continue_with_def split: outcome.split option.split)
  next
    case (ForTrigger t)
    then have ok: "hc_ok cfg ?c" using p(5) by simp
    have "hc_ok cfg ((trigger_armed t i ?c)\<lparr>hc_triggers := js_add t (hc_triggers ?c)\<rparr>)" if "out = Resolved r" for r
      by (rule armed_trigger_ok [OF ok]) (use p(2,3) that ForTrigger live in \<open>simp_all add: armed_def\<close>)
    with ok ForTrigger show ?thesis by (simp add: continue_with_def split: outcome.split)
  next
    case (ForRearm q t)
    then have ok: "hc_ok cfg ?c" using p(5) by simp
    have q: "q < length (hc_tasks c)" using p(2) ForRearm by simp
    have "hc_ok cfg ((trigger_armed t i ?c)\<lparr>hc_triggers := hc_triggers ?c\<rparr>)" if "out = Resolved r" for r
      by (rule armed_trigger_ok [OF ok]) (use p(2,3) that ForRearm live in \<open>auto simp: armed_def\<close>)
    then have arm: "hc_ok cfg (trigger_armed t i ?c)" if "out = Resolved r" for r
      using that by (simp add: trigger_armed_def)
    have "hc_ok cfg (case out of Resolved r \<Rightarrow> trigger_armed t i ?c | _ \<Rightarrow> ?c)"
      using ok arm by (cases out) simp_all
    moreover have "q < length (hc_tasks (case out of Resolved r \<Rightarrow> trigger_armed t i ?c | _ \<Rightarrow> ?c))"
      using q by (cases out) (simp_all add: trigger_armed_def)
    ultimately show ?thesis using ForRearm by (simp add: continue_with_def task_advance_ok)
  next
    case (ForStates q)
    then have ok: "hc_ok cfg ?c" using p(5) by simp
    have "hc_ok cfg (?c\<lparr>hc_snapshots := s, hc_changes := d\<rparr>)" for s d by (rule hc_ok_same [OF ok]) simp_all
    with ok ForStates show ?thesis by (simp add: continue_with_def split: outcome.split)
  next
    case (ForCaller n)
    let ?d = "?c\<lparr>hc_settled := hc_settled ?c @ [(n, out)]\<rparr>"
    have "link_ok cfg ?d" by (rule link_ok_keep [OF rest_okD(1) [OF p(1)]]) simp_all
    then have "rest_ok cfg ?d" by (rule rest_ok_link [OF p(1)]) simp_all
    moreover have "calls_ok ?d" using p(4) ForCaller by (simp add: calls_ok_def calls_of_def owners_def is_caller_def)
    ultimately show ?thesis using ForCaller by (simp add: continue_with_def hc_ok_def)
  next
    case ForNobody
    with p(5) show ?thesis by (simp add: continue_with_def)
  qed
  with h show ?thesis by (simp add: hc_micro_def)
qed

subsection \<open>The connection comes and goes\<close>

lemma live_none: "hc_plat c = None \<Longrightarrow> live_cmds c = {}"
  by (simp add: live_cmds_def)

lemma linkD:
  assumes "link_ok cfg c"
  shows "hc_pending c \<noteq> [] \<Longrightarrow> hc_connected c" "hc_connected c \<Longrightarrow> hc_plat c \<noteq> None" "hc_connected c \<Longrightarrow> \<not> hc_stopped c"
    "hc_reconnectTimer c \<noteq> None \<Longrightarrow> hc_plat c = None" "hc_reconnectTimer c \<noteq> None \<Longrightarrow> \<not> hc_stopped c"
    "hc_reconnectTimer c \<noteq> None \<Longrightarrow> hc_started c" "hc_plat c \<noteq> None \<Longrightarrow> hc_started c"
    "hc_plat c \<noteq> None \<Longrightarrow> \<not> hc_stopped c \<Longrightarrow> hc_socket c" "hc_stopped c \<Longrightarrow> hc_plat c = None \<or> hc_plat c = Some Closing"
    "hc_started c \<Longrightarrow> \<not> hc_stopped c \<Longrightarrow> hc_plat c \<noteq> None \<or> hc_reconnectTimer c \<noteq> None"
    "hc_plat c \<noteq> None \<Longrightarrow> hc_plat c \<noteq> Some Closing \<Longrightarrow> \<not> hc_connected c \<Longrightarrow> 0 < hc_handshakeTimeoutMs cfg \<Longrightarrow> hc_handshakeTimer c"
    "hc_connected c \<Longrightarrow> 0 < hc_pingIntervalMs cfg \<Longrightarrow> hc_pingTimer c"
  using assms unfolding link_ok_def by blast+

text \<open>A new connection starts when there is none: nothing is awaited and nothing subscribed.\<close>

lemma connect_ok:
  assumes "hc_ok cfg c0" "hc_plat c0 = None" "\<not> hc_stopped c0" "hc_ready c0 = []"
    and c: "c = c0\<lparr>hc_started := True, hc_reconnectTimer := None\<rparr>"
  shows "hc_ok cfg (hc_connect cfg th jitter c)"
proof -
  note q = rest_okD [OF hc_okD(1) [OF assms(1)]]
  let ?d = "hc_connect cfg th jitter c"
  have l: "hc_pending c0 = []" "\<not> hc_connected c0" using linkD(1,2) [OF q(1)] assms(2) by blast+
  have d: "hc_pending ?d = []" "hc_ready ?d = []" "hc_issued ?d = []" "hc_nextId ?d = 1" "hc_events ?d = hc_events c0"
    "hc_trig_subs ?d = hc_trig_subs c0" "hc_triggers ?d = hc_triggers c0" "hc_tasks ?d = hc_tasks c0"
    "hc_settled ?d = hc_settled c0" "hc_calls ?d = hc_calls c0"
    using l assms(3,4) by (simp_all add: c hc_connect_def scheduleReconnect_def Let_def)
  have g: "grown c0 ?d" using d by (simp add: grown_def live_none [OF assms(2)])
  have "rest_ok cfg ?d"
  proof (rule rest_okI)
    show "link_ok cfg ?d" using l assms(2,3) by (simp add: link_ok_def c hc_connect_def scheduleReconnect_def Let_def)
    show "ids_ok ?d" by (simp add: ids_ok_def d)
    show "events_ok ?d" by (rule events_ok_same [OF q(3) g d(5)])
    show "triggers_ok ?d" by (rule triggers_ok_same [OF q(4) g]) (simp_all add: d)
    show "waits_ok ?d" by (simp add: waits_ok_def d)
  qed
  moreover have "calls_ok ?d" by (rule calls_ok_keep [OF hc_okD(2) [OF assms(1)]]) (simp_all add: d l assms(4))
  ultimately show ?thesis by (simp add: hc_ok_def)
qed

lemma start_ok:
  assumes "hc_ok cfg c" "hc_ready c = []"
  shows "hc_ok cfg (hc_start cfg th jitter c)"
proof (cases "hc_started c \<or> hc_stopped c")
  case False
  then have n: "hc_plat c = None" "hc_reconnectTimer c = None" using linkD(6,7) [OF link_okD [OF assms(1)]] by blast+
  have "hc_ok cfg (hc_connect cfg th jitter (c\<lparr>hc_started := True, hc_reconnectTimer := None\<rparr>))"
    by (rule connect_ok [OF assms(1) n(1) _ assms(2)]) (use False in simp_all)
  moreover have "c\<lparr>hc_started := True, hc_reconnectTimer := None\<rparr> = c\<lparr>hc_started := True\<rparr>" using n by simp
  ultimately show ?thesis using False by (simp add: hc_start_def)
qed (use assms in \<open>auto simp: hc_start_def\<close>)

lemma reconnect_ok:
  assumes "hc_ok cfg c" "hc_ready c = []" "hc_reconnectTimer c \<noteq> None"
  shows "hc_ok cfg (reconnect_fires cfg th jitter c)"
proof -
  have n: "hc_plat c = None" "\<not> hc_stopped c" "hc_started c" using linkD(4-6) [OF link_okD [OF assms(1)]] assms(3) by blast+
  have "hc_ok cfg (hc_connect cfg th jitter (c\<lparr>hc_started := True, hc_reconnectTimer := None\<rparr>))"
    by (rule connect_ok [OF assms(1) n(1,2) assms(2)]) simp
  moreover have "c\<lparr>hc_started := True, hc_reconnectTimer := None\<rparr> = c\<lparr>hc_reconnectTimer := None\<rparr>" using n by simp
  ultimately show ?thesis by (simp add: reconnect_fires_def)
qed

lemma rejected_ready: "(own, i, out) \<in> set (map (\<lambda>(i, own, timed). (own, i, Disconnected)) ps) \<longleftrightarrow> out = Disconnected \<and> (\<exists>b. (i, own, b) \<in> set ps)"
  by force

lemma rejected_waits:
  assumes "waits_ok c" "hc_ready c = []" "hc_pending c' = []" "hc_ready c' = map (\<lambda>(i, own, timed). (own, i, Disconnected)) (hc_pending c)"
    and "length (hc_trig_subs c') = length (hc_trig_subs c)" "length (hc_tasks c') = length (hc_tasks c)"
  shows "waits_ok c'"
proof (rule waits_okI)
  show "in_range c' own" if "(own, i, out) \<in> set (hc_ready c')" for own i out
  proof -
    from that obtain b where "(i, own, b) \<in> set (hc_pending c)" unfolding assms(4) rejected_ready by blast
    from waits_okD(1) [OF assms(1) this] show ?thesis unfolding in_range_def assms(5,6) .
  qed
  show "armed c' own i" if "(own, i, Resolved r) \<in> set (hc_ready c')" for own i r
    using that unfolding assms(4) rejected_ready by simp
qed (simp add: assms(3))

lemma js_get_map_values: "js_get (map (\<lambda>(k, v). (k, f v)) m) k = map_option f (js_get m k)"
  by (induction m) auto

lemma close_ok:
  assumes "hc_ok cfg c" "hc_ready c = []" "hc_plat c \<noteq> None"
  shows "hc_ok cfg (handleClose cfg jitter c)"
proof -
  note q = rest_okD [OF hc_okD(1) [OF assms(1)]]
  let ?d = "handleClose cfg jitter c"
  have d: "hc_pending ?d = []" "hc_ready ?d = map (\<lambda>(i, own, timed). (own, i, Disconnected)) (hc_pending c)" "hc_issued ?d = hc_issued c"
    "hc_nextId ?d = hc_nextId c" "hc_events ?d = map (\<lambda>(ty, reg). (ty, reg\<lparr>er_subId := None\<rparr>)) (hc_events c)"
    "hc_trig_subs ?d = map (\<lambda>t. if t \<in> set (hc_triggers c) then None else hc_trig_subs c ! t) [0 ..< length (hc_trig_subs c)]"
    "hc_triggers ?d = hc_triggers c" "hc_tasks ?d = hc_tasks c" "hc_settled ?d = hc_settled c" "hc_calls ?d = hc_calls c"
    by (simp_all add: handleClose_def Let_def clear_subs_def rejectAllPending_def stopPing_def scheduleReconnect_def assms(2))
  have "rest_ok cfg ?d"
  proof (rule rest_okI)
    show "link_ok cfg ?d" using q(1) assms(3)
      by (simp add: link_ok_def handleClose_def Let_def clear_subs_def rejectAllPending_def stopPing_def scheduleReconnect_def)
    show "ids_ok ?d" by (rule ids_ok_frame [OF q(2)]) (simp_all add: d)
    show "events_ok ?d" by (rule events_okI) (auto simp: d js_get_map_values)
    show "triggers_ok ?d" by (rule triggers_okI) (use triggers_okD(1) [OF q(4)] in \<open>auto simp: d\<close>)
    show "waits_ok ?d" by (rule rejected_waits [OF q(5) assms(2) d(1,2)]) (simp_all add: d)
  qed
  moreover have "calls_ok ?d"
  proof (rule calls_ok_same [OF hc_okD(2) [OF assms(1)]])
    have "owners ?d = owners (rejectAllPending c)" unfolding owners_def rejectAllPending_def by (simp add: d assms(2))
    then show "owners ?d = owners c" by (simp only: owners_reject)
  qed (simp_all add: d)
  ultimately show ?thesis by (simp add: hc_ok_def)
qed

lemma stop_ok:
  assumes "hc_ok cfg c" "hc_ready c = []"
  shows "hc_ok cfg (hc_stop c)"
proof (cases "hc_stopped c")
  case False
  note q = rest_okD [OF hc_okD(1) [OF assms(1)]]
  let ?d = "hc_stop c"
  have d: "hc_pending ?d = []" "hc_ready ?d = map (\<lambda>(i, own, timed). (own, i, Disconnected)) (hc_pending c)" "hc_issued ?d = hc_issued c"
    "hc_nextId ?d = hc_nextId c" "hc_events ?d = hc_events c" "hc_trig_subs ?d = hc_trig_subs c"
    "hc_triggers ?d = hc_triggers c" "hc_tasks ?d = hc_tasks c" "hc_settled ?d = hc_settled c" "hc_calls ?d = hc_calls c"
    using False by (simp_all add: hc_stop_def Let_def rejectAllPending_def stopPing_def assms(2))
  have plat: "hc_plat ?d = (if hc_plat c = None then None else Some Closing)"
    using False linkD(8) [OF q(1)] by (simp add: hc_stop_def Let_def rejectAllPending_def stopPing_def closeSocket_def)
  have g: "grown c ?d" by (simp add: grown_def live_cmds_def d plat)
  have "rest_ok cfg ?d"
  proof (rule rest_okI)
    have "hc_stopped ?d" "\<not> hc_connected ?d" "hc_reconnectTimer ?d = None" "hc_started ?d = hc_started c"
      using False by (simp_all add: hc_stop_def Let_def rejectAllPending_def stopPing_def closeSocket_def)
    with linkD(7) [OF q(1)] show "link_ok cfg ?d" by (simp add: link_ok_def d plat)
    show "ids_ok ?d" by (rule ids_ok_frame [OF q(2)]) (simp_all add: d)
    show "events_ok ?d" by (rule events_ok_same [OF q(3) g d(5)])
    show "triggers_ok ?d" by (rule triggers_ok_same [OF q(4) g]) (simp_all add: d)
    show "waits_ok ?d" by (rule rejected_waits [OF q(5) assms(2) d(1,2)]) (simp_all add: d)
  qed
  moreover have "calls_ok ?d"
  proof (rule calls_ok_same [OF hc_okD(2) [OF assms(1)]])
    have "owners ?d = owners (rejectAllPending c)" unfolding owners_def rejectAllPending_def by (simp add: d assms(2))
    then show "owners ?d = owners c" by (simp only: owners_reject)
  qed (simp_all add: d)
  ultimately show ?thesis by (simp add: hc_ok_def)
qed (use assms in \<open>simp add: hc_stop_def\<close>)

lemma handshake_ok:
  assumes "hc_ok cfg c"
  shows "hc_ok cfg (handshake_fires c)"
proof -
  have l: "link_ok cfg (handshake_fires c)"
  proof (cases "hc_connected c \<or> hc_plat c = None")
    case True
    then have "handshake_fires c = c\<lparr>hc_handshakeTimer := False\<rparr>" by (auto simp: handshake_fires_def Let_def closeSocket_def)
    moreover have "link_ok cfg (c\<lparr>hc_handshakeTimer := False\<rparr>)"
    proof -
      have f: "hc_pending (c\<lparr>hc_handshakeTimer := False\<rparr>) = hc_pending c" "hc_connected (c\<lparr>hc_handshakeTimer := False\<rparr>) = hc_connected c"
        "hc_plat (c\<lparr>hc_handshakeTimer := False\<rparr>) = hc_plat c" "hc_stopped (c\<lparr>hc_handshakeTimer := False\<rparr>) = hc_stopped c"
        "hc_started (c\<lparr>hc_handshakeTimer := False\<rparr>) = hc_started c" "hc_socket (c\<lparr>hc_handshakeTimer := False\<rparr>) = hc_socket c"
        "hc_reconnectTimer (c\<lparr>hc_handshakeTimer := False\<rparr>) = hc_reconnectTimer c"
        "hc_pingTimer (c\<lparr>hc_handshakeTimer := False\<rparr>) = hc_pingTimer c"
        by simp_all
      show ?thesis using link_okD [OF assms] True unfolding link_ok_def f by argo
    qed
    ultimately show ?thesis by simp
  next
    case False
    then have "handshake_fires c = c\<lparr>hc_handshakeTimer := False, hc_plat := Some Closing\<rparr>"
      by (simp add: handshake_fires_def Let_def closeSocket_def)
    moreover have "hc_reconnectTimer c = None" using False link_okD [OF assms] unfolding link_ok_def by argo
    ultimately show ?thesis using False link_okD [OF assms] by (simp add: link_ok_def)
  qed
  show ?thesis by (rule hc_ok_link [OF assms l]) (simp_all add: handshake_fires_def Let_def)
qed

lemma ping_ok: "hc_ok cfg c \<Longrightarrow> hc_ok cfg (ping_fires th c)"
proof -
  assume ok: "hc_ok cfg c"
  have "hc_ok cfg (c\<lparr>hc_awaitingPong := True, hc_nextId := hc_nextId c + 1\<rparr>)" by (rule hc_ok_same [OF ok]) simp_all
  with ok show ?thesis by (simp add: ping_fires_def closeSocket_ok sendRaw_ok)
qed

lemma opens_ok:
  assumes "hc_ok cfg c" "hc_plat c = Some Connecting"
  shows "hc_ok cfg (c\<lparr>hc_plat := Some Open\<rparr>)"
proof (rule hc_ok_link [OF assms(1)])
  have "hc_plat c \<noteq> None" "hc_plat c \<noteq> Some Closing" using assms(2) by simp_all
  with link_okD [OF assms(1)] have "\<not> hc_stopped c" "hc_reconnectTimer c = None" unfolding link_ok_def by argo+
  with link_okD [OF assms(1)] assms(2) show "link_ok cfg (c\<lparr>hc_plat := Some Open\<rparr>)" by (simp add: link_ok_def)
qed (simp_all add: assms(2))

lemma stop_done_ok:
  assumes "hc_ok cfg c" "hc_stopped c"
  shows "hc_ok cfg (c\<lparr>hc_socket := False\<rparr>)"
proof (rule hc_ok_link [OF assms(1)])
  have "hc_pending c = []" using link_okD [OF assms(1)] assms(2) unfolding link_ok_def by argo
  with link_okD [OF assms(1)] assms(2) show "link_ok cfg (c\<lparr>hc_socket := False\<rparr>)" by (simp add: link_ok_def)
qed simp_all

lemma event_ok:
  assumes "hc_ok cfg c" "hc_ready c = []" "enabled e c"
  shows "hc_ok cfg (hc_do cfg e c)"
proof (cases e)
  case (Frame th ms)
  have "listening c" using linkD(9) [OF link_okD [OF assms(1)]] assms(3) Frame by (auto simp: listening_def)
  with Frame frame_ok [OF assms(1)] show ?thesis by simp
qed (use assms in \<open>simp_all add: start_ok stop_ok stop_done_ok opens_ok close_ok reconnect_ok handshake_ok ping_ok command_times_out_ok
      addEventHandler_ok removeEventHandler_ok subscribeTrigger_ok unsubscribeTrigger_ok sendCommand_ok\<close>)

lemma created_ok: "hc_ok cfg createHaClient"
  by (simp add: createHaClient_def hc_ok_def rest_ok_def link_ok_def ids_ok_def events_ok_def triggers_ok_def waits_ok_def calls_ok_def
      calls_of_def owners_def)

lemma hc_run_ok: "hc_run cfg c \<Longrightarrow> hc_ok cfg c"
proof (induction rule: hc_run.induct)
  case made
  show ?case by (rule created_ok)
next
  case (happened c e)
  then show ?case by (simp add: event_ok)
next
  case (continued c throws)
  then show ?case by (simp add: micro_ok)
qed

lemma settled_distinct:
  assumes "A + mset (map (\<lambda>x. ForCaller (fst x)) ss) = mset (map ForCaller [0 ..< n])"
  shows "distinct (map fst ss)"
proof -
  obtain bs where "A = mset bs" using ex_mset [of A] by metis
  with assms have "mset (bs @ map (\<lambda>x. ForCaller (fst x)) ss) = mset (map ForCaller [0 ..< n])" by simp
  moreover have "distinct (map ForCaller [0 ..< n])" by (simp add: distinct_map inj_on_def)
  ultimately have "distinct (map (\<lambda>x. ForCaller (fst x)) ss)" by (metis distinct_append mset_eq_imp_distinct_iff)
  then have "distinct (map ForCaller (map fst ss))" by (simp add: comp_def)
  then show ?thesis using distinct_map [of ForCaller "map fst ss"] by blast
qed

text \<open>
  C23. The Home Assistant client is never stuck and settles every call once. In every interleaving of API calls, socket events, frames, timers,
  failing sends and failing constructions of the socket: a client that was started and not stopped has a socket or a reconnect timer; a stopped
  one has neither a connection nor a timer nor pending commands; until \<open>auth_ok\<close> the handshake deadline is armed, afterwards
  the ping is; commands are pending only while connected, with distinct ids; every call of the API is pending, about to be
  settled, or settled, and never twice; and every subscription id that the client holds is that of a command for
  just this event type or trigger, issued on the connection there is.
\<close>

theorem ha_client_run_safe:
  assumes "hc_run cfg c"
  shows "(hc_started c \<and> \<not> hc_stopped c \<longrightarrow> hc_plat c \<noteq> None \<or> hc_reconnectTimer c \<noteq> None)
    \<and> (hc_stopped c \<longrightarrow> \<not> hc_connected c \<and> hc_pending c = [] \<and> hc_reconnectTimer c = None)
    \<and> (hc_plat c \<in> {Some Connecting, Some Open} \<and> \<not> hc_connected c \<and> 0 < hc_handshakeTimeoutMs cfg \<longrightarrow> hc_handshakeTimer c)
    \<and> (hc_connected c \<and> 0 < hc_pingIntervalMs cfg \<longrightarrow> hc_pingTimer c)
    \<and> (hc_pending c \<noteq> [] \<longrightarrow> hc_connected c) \<and> distinct (map fst (hc_pending c))
    \<and> filter_mset is_caller (mset (map (\<lambda>x. fst (snd x)) (hc_pending c)) + mset (map fst (hc_ready c)))
        + mset (map (\<lambda>x. ForCaller (fst x)) (hc_settled c)) = mset (map ForCaller [0 ..< hc_calls c])
    \<and> distinct (map fst (hc_settled c))
    \<and> (\<forall>ty reg i. js_get (hc_events c) ty = Some reg \<and> er_subId reg = Some i \<longrightarrow> hc_plat c \<noteq> None \<and> (i, SubscribeEvents ty) \<in> set (hc_issued c))
    \<and> (\<forall>t i. t \<in> set (hc_triggers c) \<and> hc_trig_subs c ! t = Some i \<longrightarrow> hc_plat c \<noteq> None \<and> (i, SubscribeTrigger t) \<in> set (hc_issued c))
    \<and> distinct (map fst (hc_issued c))"
proof -
  have ok: "hc_ok cfg c" by (rule hc_run_ok [OF assms])
  note q = rest_okD [OF hc_okD(1) [OF ok]] and l = linkD [OF link_okD [OF ok]]
  have calls: "filter_mset is_caller (mset (map (\<lambda>x. fst (snd x)) (hc_pending c)) + mset (map fst (hc_ready c)))
      + mset (map (\<lambda>x. ForCaller (fst x)) (hc_settled c)) = mset (map ForCaller [0 ..< hc_calls c])"
    using hc_okD(2) [OF ok] unfolding calls_ok_def calls_of_def owners_def .
  have live: "x \<in> live_cmds c \<longleftrightarrow> hc_plat c \<noteq> None \<and> x \<in> set (hc_issued c)" for x by (simp add: live_cmds_def)
  have link: "hc_started c \<and> \<not> hc_stopped c \<longrightarrow> hc_plat c \<noteq> None \<or> hc_reconnectTimer c \<noteq> None"
    "hc_stopped c \<longrightarrow> \<not> hc_connected c \<and> hc_pending c = [] \<and> hc_reconnectTimer c = None"
    using link_okD [OF ok] unfolding link_ok_def by argo+
  moreover have "hc_plat c \<in> {Some Connecting, Some Open} \<and> \<not> hc_connected c \<and> 0 < hc_handshakeTimeoutMs cfg \<longrightarrow> hc_handshakeTimer c"
    using l(11) by auto
  moreover have "\<forall>ty reg i. js_get (hc_events c) ty = Some reg \<and> er_subId reg = Some i \<longrightarrow> hc_plat c \<noteq> None \<and> (i, SubscribeEvents ty) \<in> set (hc_issued c)"
    using events_okD [OF q(3)] unfolding live by blast
  moreover have "\<forall>t i. t \<in> set (hc_triggers c) \<and> hc_trig_subs c ! t = Some i \<longrightarrow> hc_plat c \<noteq> None \<and> (i, SubscribeTrigger t) \<in> set (hc_issued c)"
    using triggers_okD(2) [OF q(4)] unfolding live by blast
  moreover have "distinct (map fst (hc_pending c))" using ids_okD(1) [OF q(2)] by (simp add: js_wf_def)
  ultimately show ?thesis using link l(1,12) calls settled_distinct [OF calls] ids_okD(3) [OF q(2)] by blast
qed

section \<open>Runs\<close>

text \<open>Tasks one after the other, each followed by the continuations of what it settled.\<close>

fun hc_drain :: "hc_config \<Rightarrow> nat \<Rightarrow> 'r hc \<Rightarrow> 'r hc" where
  "hc_drain cfg 0 c = c"
| "hc_drain cfg (Suc n) c = (if hc_ready c = [] then c else hc_drain cfg n (hc_micro cfg False c))"

definition hc_act :: "hc_config \<Rightarrow> 'r hc \<Rightarrow> 'r hc_event \<Rightarrow> 'r hc" where
  "hc_act cfg c e = (if hc_ready c = [] \<and> enabled e c then hc_drain cfg 9 (hc_do cfg e c) else c)"

definition hc_acts :: "hc_config \<Rightarrow> 'r hc_event list \<Rightarrow> 'r hc" where
  "hc_acts cfg es = foldl (hc_act cfg) createHaClient es"

lemma hc_drain_run: "hc_run cfg c \<Longrightarrow> hc_run cfg (hc_drain cfg n c)"
  by (induction n arbitrary: c) (auto intro: hc_run.continued)

lemma hc_acts_run: "hc_run cfg (hc_acts cfg es)"
proof -
  have "hc_run cfg c \<Longrightarrow> hc_run cfg (foldl (hc_act cfg) c es)" for c
  proof (induction es arbitrary: c)
    case (Cons e es)
    have "hc_run cfg (hc_act cfg c e)"
      using Cons.prems by (simp add: hc_act_def hc_drain_run hc_run.happened)
    then show ?case using Cons.IH by simp
  qed simp
  from this [OF hc_run.made] show ?thesis by (simp add: hc_acts_def)
qed

definition connected_first :: "unit hc_event list" where
  "connected_first = [Start False 0, SocketOpens, Frame False [AuthRequired], Frame False [AuthOk (Some ''2025.1'')]]"

text \<open>A handler, a connection, a call that is answered and one that is not when the socket closes.\<close>

definition demo_home :: "unit hc" where
  "demo_home = hc_acts hc_defaults (AddHandler False ''state_changed'' 7 # connected_first
     @ [Frame False [ResultOk 1 (), ResultOk 2 ()], Call False ''ping'' True, Call False ''pong'' True,
        Frame False [ResultOk 3 (), EventIn 1 JNull], SocketCloses 0])"

theorem ha_client_run_safe_witness:
  "hc_settled demo_home = [(0, Resolved ()), (1, Disconnected)] \<and> hc_heard demo_home = [Inl (''state_changed'', 7)]
   \<and> hc_snapshots demo_home = [(False, ())] \<and> hc_changes demo_home = [True, False] \<and> hc_reconnectTimer demo_home = Some 1000
   \<and> distinct (map fst (hc_settled demo_home)) \<and> distinct (map fst (hc_issued demo_home))"
proof -
  have run: "hc_run hc_defaults demo_home" unfolding demo_home_def by (rule hc_acts_run)
  have "hc_settled demo_home = [(0, Resolved ()), (1, Disconnected)] \<and> hc_heard demo_home = [Inl (''state_changed'', 7)]
    \<and> hc_snapshots demo_home = [(False, ())] \<and> hc_changes demo_home = [True, False] \<and> hc_reconnectTimer demo_home = Some 1000"
    by code_simp
  with ha_client_run_safe [OF run] show ?thesis by blast
qed

text \<open>
  A trigger that is unsubscribed while it is armed again after a reconnect: its id is not there yet, so nothing is sent, and the subscription
  that then arrives stays on the server.
\<close>

definition armed_before :: "unit hc_event list" where
  "armed_before = connected_first @ [NewTrigger False, Frame False [ResultOk 2 ()], SocketCloses 0, ReconnectFires False 0, SocketOpens,
     Frame False [AuthOk None]]"

lemma dropped_trigger_stays_subscribed:
  "let c = hc_acts hc_defaults (armed_before @ [DropTrigger False 0, Frame False [ResultOk 1 ()]])
   in hc_connected c \<and> hc_triggers c = [] \<and> hc_trig_subs c = [Some 1] \<and> map snd (hc_issued c) = [SubscribeTrigger 0, GetStates]
      \<and> event_targets 1 c = []"
  by code_simp

text \<open>A trigger that is registered while the others are armed again is armed twice: its first subscription is forgotten.\<close>

lemma new_trigger_armed_twice:
  "let c = hc_acts hc_defaults (armed_before @ [NewTrigger False, Frame False [ResultOk 2 ()], Frame False [ResultOk 1 ()], Frame False [ResultOk 3 ()]])
   in hc_trig_subs c = [Some 1, Some 3] \<and> (2, SubscribeTrigger 1) \<in> set (hc_issued c) \<and> (3, SubscribeTrigger 1) \<in> set (hc_issued c)
      \<and> event_targets 2 c = []"
  by code_simp

text \<open>A handler that is added after the client has closed its socket and before the close event: the rejected promise has no handler.\<close>

lemma late_handler_rejects_unhandled:
  "let c = hc_acts hc_defaults (connected_first @ [PingFires False, PingFires False, AddHandler False ''state_changed'' 7])
   in hc_connected c \<and> hc_plat c = Some Closing \<and> hc_unhandled c = 1"
  by code_simp

text \<open>When the states do not come in time there is no snapshot and nobody is told of the connection, which stays.\<close>

lemma slow_states_give_no_snapshot:
  "let c = hc_acts hc_defaults (connected_first @ [CommandTimer 1])
   in hc_connected c \<and> hc_snapshots c = [] \<and> hc_changes c = [] \<and> hc_pending c = [] \<and> hc_ready c = []"
  by code_simp

text \<open>A subscription that the server refuses is not tried again on this connection.\<close>

lemma refused_subscription_not_retried:
  "let c = hc_acts hc_defaults (AddHandler False ''state_changed'' 7 # connected_first @ [Frame False [ResultError 1 ''unauthorized'' ''no'', ResultOk 2 ()]])
   in hc_connected c \<and> js_get (hc_events c) ''state_changed'' = Some \<lparr>er_handlers = [7], er_subId = None\<rparr> \<and> hc_pending c = []"
  by code_simp

end
