(* ===== verification/Node_Guard.thy ===== *)
theory Node_Guard
  imports Node_Flow_Def Js_Number
begin

text \<open>
  Paths into JavaScript values and guards over them (\<open>ai/node-flow/guard.ts\<close>), templates and mappings (\<open>context.ts\<close>). A path is read
  with \<open>cur[t]\<close>, so it reaches the own properties of a value and then the members of its prototypes, those of ES2023 (the target
  of the build). The text of a number in \<open>JSON.stringify\<close> is an argument. Not modelled: values with a \<open>toJSON\<close> of their own, and a
  mapping to the key \<open>__proto__\<close>, which would set the prototype of the result.
\<close>

section \<open>Paths\<close>

datatype path_token = Key string | Index real

definition flush :: "string \<Rightarrow> path_token list" where
  "flush buf = (if buf = [] then [] else [Key buf])"

definition is_quote :: "char \<Rightarrow> bool" where
  "is_quote c = (c = CHR 0x27 \<or> c = CHR 0x22)"

definition unquote :: "string \<Rightarrow> string" where
  "unquote s =
     (let t = (case s of c # cs \<Rightarrow> if is_quote c then cs else s | [] \<Rightarrow> [])
      in if t \<noteq> [] \<and> is_quote (last t) then butlast t else t)"

definition bracket :: "string \<Rightarrow> path_token" where
  "bracket inner = (case js_number inner of Some r \<Rightarrow> Index r | None \<Rightarrow> Key (unquote inner))"

text \<open>The loop over the characters with its buffer; a bracket that is not closed ends the reading.\<close>

function path_tokens :: "string \<Rightarrow> string \<Rightarrow> path_token list option" where
  "path_tokens buf [] = Some (flush buf)"
| "path_tokens buf (c # cs) =
     (if c = CHR ''.'' then map_option (append (flush buf)) (path_tokens [] cs)
      else if c = CHR ''['' then
        (case dropWhile (\<lambda>x. x \<noteq> CHR '']'') cs of
           [] \<Rightarrow> None
         | _ # rest \<Rightarrow> map_option (\<lambda>ts. flush buf @ bracket (takeWhile (\<lambda>x. x \<noteq> CHR '']'') cs) # ts) (path_tokens [] rest))
      else path_tokens (buf @ [c]) cs)"
  by pat_completeness auto
termination
proof (relation "measure (\<lambda>(buf, s). length s)")
  fix cs :: string and x rest
  assume "dropWhile (\<lambda>x. x \<noteq> CHR '']'') cs = x # rest"
  then have "length (x # rest) \<le> length cs" by (metis length_dropWhile_le)
  then show "(([], rest), (buf, c # cs)) \<in> measure (\<lambda>(buf, s). length s)" for buf :: string and c by simp
qed simp_all

definition trimmed_path :: "string \<Rightarrow> string" where
  "trimmed_path p =
     (if starts_with p ''$.'' then drop 2 p else if starts_with p ''$'' then drop 1 p else p)"

definition array_at :: "js_val list \<Rightarrow> real \<Rightarrow> js_val" where
  "array_at xs r = (let n = nat \<lfloor>r\<rfloor> in if real n = r \<and> n < length xs then xs ! n else JUndefined)"

text \<open>
  The members of the prototypes. \<open>__proto__\<close> is an accessor of \<open>Object.prototype\<close>, which has no prototype itself.
\<close>

definition object_methods :: "string list" where
  "object_methods = [''__defineGetter__'', ''__defineSetter__'', ''hasOwnProperty'', ''__lookupGetter__'', ''__lookupSetter__'',
     ''isPrototypeOf'', ''propertyIsEnumerable'', ''toString'', ''valueOf'', ''toLocaleString'']"

definition array_methods :: "string list" where
  "array_methods = [''at'', ''concat'', ''copyWithin'', ''fill'', ''find'', ''findIndex'', ''findLast'', ''findLastIndex'', ''lastIndexOf'',
     ''pop'', ''push'', ''reverse'', ''shift'', ''unshift'', ''slice'', ''sort'', ''splice'', ''includes'', ''indexOf'', ''join'', ''keys'',
     ''entries'', ''values'', ''forEach'', ''filter'', ''flat'', ''flatMap'', ''map'', ''every'', ''some'', ''reduce'', ''reduceRight'',
     ''toReversed'', ''toSorted'', ''toSpliced'', ''with'', ''toLocaleString'', ''toString'']"

definition object_member :: "js_val \<Rightarrow> string \<Rightarrow> js_val" where
  "object_member proto k =
     (if k = ''__proto__'' then proto
      else if k = ''constructor'' then JBuiltin (Function ''Object'' ''Object'')
      else if k \<in> set object_methods then JBuiltin (Function ''Object.prototype'' k)
      else JUndefined)"

definition array_member :: "js_val \<Rightarrow> string \<Rightarrow> js_val" where
  "array_member proto k =
     (if k = ''constructor'' then JBuiltin (Function ''Array'' ''Array'')
      else if k \<in> set array_methods then JBuiltin (Function ''Array.prototype'' k)
      else object_member proto k)"

text \<open>
  A property of an array: its length, an element by the decimal text of its index, or an inherited member. A property of
  an object: its own one, or an inherited member.
\<close>

definition array_prop :: "js_val list \<Rightarrow> string \<Rightarrow> js_val" where
  "array_prop xs k =
     (if k = ''length'' then JNum (real (length xs))
      else if k \<noteq> [] \<and> list_all (is_digit_in 10) k \<and> nat_str (str_nat k) = k \<and> str_nat k < length xs then xs ! str_nat k
      else array_member (JBuiltin ArrayPrototype) k)"

definition object_prop :: "js_object \<Rightarrow> string \<Rightarrow> js_val" where
  "object_prop ps k = (case js_get ps k of None \<Rightarrow> object_member (JBuiltin ObjectPrototype) k | Some v \<Rightarrow> v)"

text \<open>\<open>Array.prototype\<close> is an empty array. A function is not of type \<open>object\<close>, so a path ends there.\<close>

definition builtin_prop :: "js_builtin \<Rightarrow> string \<Rightarrow> js_val" where
  "builtin_prop b k =
     (case b of
        Function _ _ \<Rightarrow> JUndefined
      | ObjectPrototype \<Rightarrow> object_member JNull k
      | ArrayPrototype \<Rightarrow> if k = ''length'' then JNum 0 else array_member (JBuiltin ObjectPrototype) k)"

definition step_into :: "path_token \<Rightarrow> js_val \<Rightarrow> js_val" where
  "step_into t v =
     (case t of
        Index r \<Rightarrow> (case v of JArr xs \<Rightarrow> array_at xs r | _ \<Rightarrow> JUndefined)
      | Key k \<Rightarrow> (case v of JObj ps \<Rightarrow> object_prop ps k | JArr xs \<Rightarrow> array_prop xs k | JBuiltin b \<Rightarrow> builtin_prop b k | _ \<Rightarrow> JUndefined))"

definition walk_path :: "path_token list \<Rightarrow> js_val \<Rightarrow> js_val" where
  "walk_path ts v = foldl (\<lambda>v t. step_into t v) v ts"

definition readPath :: "string \<Rightarrow> js_val \<Rightarrow> js_val" where
  "readPath path ctx =
     (if path = [] \<or> trimmed_path path = [] then ctx
      else case path_tokens [] (trimmed_path path) of None \<Rightarrow> JUndefined | Some ts \<Rightarrow> walk_path ts ctx)"

section \<open>Guards\<close>

datatype guard =
    Always
  | GEq string js_val
  | GNeq string js_val
  | GGt string real
  | GGte string real
  | GLt string real
  | GLte string real
  | GContains string string
  | GAnd guard guard
  | GOr guard guard
  | GNot guard

text \<open>\<open>===\<close>: an array or an object is equal only to itself, and the value of a guard is never the one in the context.\<close>

definition strict_eq :: "js_val \<Rightarrow> js_val \<Rightarrow> bool" where
  "strict_eq a b = (case a of JArr xs \<Rightarrow> False | JObj ps \<Rightarrow> False | _ \<Rightarrow> a = b)"

definition number_test :: "(real \<Rightarrow> bool) \<Rightarrow> js_val \<Rightarrow> bool" where
  "number_test p v = (case v of JNum x \<Rightarrow> p x | _ \<Rightarrow> False)"

fun evaluate :: "guard \<Rightarrow> js_val \<Rightarrow> bool" where
  "evaluate Always ctx = True"
| "evaluate (GEq p v) ctx = strict_eq (readPath p ctx) v"
| "evaluate (GNeq p v) ctx = (\<not> strict_eq (readPath p ctx) v)"
| "evaluate (GGt p x) ctx = number_test (\<lambda>v. v > x) (readPath p ctx)"
| "evaluate (GGte p x) ctx = number_test (\<lambda>v. v \<ge> x) (readPath p ctx)"
| "evaluate (GLt p x) ctx = number_test (\<lambda>v. v < x) (readPath p ctx)"
| "evaluate (GLte p x) ctx = number_test (\<lambda>v. v \<le> x) (readPath p ctx)"
| "evaluate (GContains p s) ctx =
     (case readPath p ctx of
        JStr t \<Rightarrow> str_includes t s
      | JArr xs \<Rightarrow> list_ex (\<lambda>v. v = JStr s) xs
      | _ \<Rightarrow> False)"
| "evaluate (GAnd a b) ctx = (evaluate a ctx \<and> evaluate b ctx)"
| "evaluate (GOr a b) ctx = (evaluate a ctx \<or> evaluate b ctx)"
| "evaluate (GNot a) ctx = (\<not> evaluate a ctx)"

section \<open>Templates\<close>

text \<open>\<open>JSON.stringify\<close> of a value inside another one: a function is \<open>null\<close> in an array and left out of an object, as \<open>undefined\<close> is.\<close>

definition hex_digit :: "nat \<Rightarrow> char" where
  "hex_digit d = (if d < 10 then char_of (48 + d) else char_of (87 + d))"

definition escape_char :: "char \<Rightarrow> string" where
  "escape_char c =
     (let n = of_char c :: nat; b = CHR 0x5C
      in if c = CHR 0x22 then [b, c] else if c = b then [b, b]
         else if n = 8 then [b, CHR ''b''] else if n = 9 then [b, CHR ''t''] else if n = 10 then [b, CHR ''n'']
         else if n = 12 then [b, CHR ''f''] else if n = 13 then [b, CHR ''r'']
         else if n < 32 then [b, CHR ''u'', CHR ''0'', CHR ''0'', hex_digit (n div 16), hex_digit (n mod 16)]
         else [c])"

definition quote_text :: "string \<Rightarrow> string" where
  "quote_text s = CHR 0x22 # concat (map escape_char s) @ [CHR 0x22]"

definition json_omits :: "js_val \<Rightarrow> bool" where
  "json_omits v = (case v of JUndefined \<Rightarrow> True | JBuiltin (Function _ _) \<Rightarrow> True | _ \<Rightarrow> False)"

fun stringify :: "(real \<Rightarrow> string) \<Rightarrow> js_val \<Rightarrow> string" where
  "stringify num JUndefined = ''null''"
| "stringify num JNull = ''null''"
| "stringify num (JBool b) = (if b then ''true'' else ''false'')"
| "stringify num (JNum x) = num x"
| "stringify num (JStr s) = quote_text s"
| "stringify num (JArr xs) = ''['' @ join_str '','' (map (stringify num) xs) @ '']''"
| "stringify num (JObj ps) =
     ''{'' @ join_str '','' (concat (map (\<lambda>(k, v). if json_omits v then [] else [quote_text k @ '':'' @ stringify num v]) ps)) @ ''}''"
| "stringify num (JBuiltin b) = (case b of Function _ _ \<Rightarrow> ''null'' | ObjectPrototype \<Rightarrow> ''{}'' | ArrayPrototype \<Rightarrow> ''[]'')"

text \<open>\<open>String(v)\<close>.\<close>

fun js_text :: "(real \<Rightarrow> string) \<Rightarrow> js_val \<Rightarrow> string" where
  "js_text num JUndefined = ''undefined''"
| "js_text num JNull = ''null''"
| "js_text num (JBool b) = (if b then ''true'' else ''false'')"
| "js_text num (JNum x) = num x"
| "js_text num (JStr s) = s"
| "js_text num (JArr xs) = join_str '','' (map (\<lambda>v. if v = JUndefined \<or> v = JNull then [] else js_text num v) xs)"
| "js_text num (JObj ps) = ''[object Object]''"
| "js_text num (JBuiltin b) =
     (case b of Function _ name \<Rightarrow> ''function '' @ name @ ''() { [native code] }'' | ObjectPrototype \<Rightarrow> ''[object Object]'' | ArrayPrototype \<Rightarrow> [])"

text \<open>
  What replaces a placeholder. \<open>JSON.stringify\<close> of a function returns \<open>undefined\<close>, which \<open>replace\<close> inserts as that word.
\<close>

definition value_text :: "(real \<Rightarrow> string) \<Rightarrow> js_val \<Rightarrow> string" where
  "value_text num v =
     (case v of
        JUndefined \<Rightarrow> []
      | JNull \<Rightarrow> []
      | JStr s \<Rightarrow> s
      | JBuiltin (Function _ _) \<Rightarrow> ''undefined''
      | _ \<Rightarrow> stringify num v)"

text \<open>
  The pattern \<open>{{ expr }}\<close> at the start of a text: between the double braces at least one character, none of them a brace.
\<close>

definition no_brace :: "char \<Rightarrow> bool" where
  "no_brace c = (c \<noteq> CHR ''{'' \<and> c \<noteq> CHR ''}'')"

definition placeholder :: "string \<Rightarrow> (string \<times> string) option" where
  "placeholder s =
     (if starts_with s ''{{''
      then (let expr = takeWhile no_brace (drop 2 s); rest = dropWhile no_brace (drop 2 s)
            in if expr \<noteq> [] \<and> starts_with rest ''}}'' then Some (expr, drop 2 rest) else None)
      else None)"

lemma placeholder_shorter: "placeholder s = Some (e, rest) \<Longrightarrow> length rest < length s"
proof -
  assume p: "placeholder s = Some (e, rest)"
  then have "starts_with s ''{{''" "rest = drop 2 (dropWhile no_brace (drop 2 s))"
    by (auto simp: placeholder_def Let_def split: if_splits)
  moreover from this(1) have "s \<noteq> []" by auto
  ultimately show ?thesis using length_dropWhile_le [of no_brace "drop 2 s"] by (cases s) auto
qed

function renderTemplate :: "(real \<Rightarrow> string) \<Rightarrow> string \<Rightarrow> js_val \<Rightarrow> string" where
  "renderTemplate num template ctx =
     (case template of
        [] \<Rightarrow> []
      | c # cs \<Rightarrow>
          (case placeholder template of
             Some (expr, rest) \<Rightarrow> value_text num (readPath (trim_text expr) ctx) @ renderTemplate num rest ctx
           | None \<Rightarrow> c # renderTemplate num cs ctx))"
  by pat_completeness auto
termination
  by (relation "measure (\<lambda>(num, s, ctx). length s)") (auto dest: placeholder_shorter)

declare renderTemplate.simps [simp del]

section \<open>Mappings\<close>

definition applyMapping :: "mapping \<Rightarrow> js_val \<Rightarrow> js_object" where
  "applyMapping m payload =
     foldl (\<lambda>out (key, path). let v = readPath path payload in if v = JUndefined then out else js_set key v out) [] m"

definition applyInputMapping :: "mapping \<Rightarrow> js_val \<Rightarrow> js_object" where
  "applyInputMapping m ctx =
     foldl (\<lambda>out (param, path). let v = readPath path ctx in if v = JUndefined then out else js_set param v out) [] m"

lemma mappings_agree: "applyInputMapping = applyMapping"
  by (intro ext) (simp add: applyInputMapping_def applyMapping_def)

text \<open>A key of the result holds what its path leads to.\<close>

lemma applyMapping_get:
  assumes "distinct (map fst m)"
  shows "js_get (applyMapping m payload) k =
    (case js_get m k of None \<Rightarrow> None | Some path \<Rightarrow> (let v = readPath path payload in if v = JUndefined then None else Some v))"
  using assms
proof (induction m rule: rev_induct)
  case (snoc x m)
  obtain key path where x: "x = (key, path)" by (cases x)
  have fresh: "js_get m key = None" using snoc.prems x by (simp add: map_of_eq_None_iff)
  show ?case
  proof (cases "k = key")
    case True
    with snoc x fresh show ?thesis by (auto simp: applyMapping_def Let_def map_add_def)
  next
    case False
    with snoc x have "js_get (applyMapping (m @ [x]) payload) k = js_get (applyMapping m payload) k"
      by (auto simp: applyMapping_def Let_def)
    with snoc False x show ?thesis by (simp add: map_add_def split: option.split)
  qed
qed (simp add: applyMapping_def)

section \<open>Printed paths and templates\<close>

text \<open>How a sequence of tokens is written as a path, and the keys that can be written.\<close>

definition simple_key :: "string \<Rightarrow> bool" where
  "simple_key k \<longleftrightarrow> k \<noteq> [] \<and> list_all (\<lambda>c. c \<noteq> CHR ''.'' \<and> c \<noteq> CHR ''['') k"

definition show_token :: "path_token \<Rightarrow> string" where
  "show_token t =
     (case t of
        Key k \<Rightarrow> if simple_key k then CHR ''.'' # k else CHR ''['' # CHR 0x27 # k @ [CHR 0x27, CHR '']'']
      | Index r \<Rightarrow> CHR ''['' # nat_str (nat \<lfloor>r\<rfloor>) @ [CHR '']''])"

definition show_path :: "path_token list \<Rightarrow> string" where
  "show_path ts = CHR ''$'' # concat (map show_token ts)"

definition writable :: "path_token \<Rightarrow> bool" where
  "writable t \<longleftrightarrow> (case t of
       Key k \<Rightarrow> list_all (\<lambda>c. c \<noteq> CHR '']'' \<and> no_brace c \<and> \<not> is_space c) k
     | Index r \<Rightarrow> real (nat \<lfloor>r\<rfloor>) = r)"

lemma path_tokens_plain:
  "list_all (\<lambda>c. c \<noteq> CHR ''.'' \<and> c \<noteq> CHR ''['') k \<Longrightarrow> path_tokens buf (k @ rest) = path_tokens (buf @ k) rest"
  by (induction k arbitrary: buf) auto

lemma bracket_tokens:
  assumes "list_all (\<lambda>c. c \<noteq> CHR '']'') s"
  shows "path_tokens buf (CHR ''['' # s @ CHR '']'' # rest) = map_option (\<lambda>ts. flush buf @ bracket s # ts) (path_tokens [] rest)"
proof -
  have "dropWhile (\<lambda>x. x \<noteq> CHR '']'') (s @ CHR '']'' # rest) = CHR '']'' # rest" "takeWhile (\<lambda>x. x \<noteq> CHR '']'') (s @ CHR '']'' # rest) = s"
    using assms by (simp_all add: list_all_iff dropWhile_append takeWhile_append)
  then show ?thesis by simp
qed

lemma unquote_quoted: "unquote (CHR 0x27 # k @ [CHR 0x27]) = k"
  by (simp add: unquote_def is_quote_def)

lemma quoted_not_number: "js_number (CHR 0x27 # s) = None"
  by (rule letter_first_not_number) (simp_all add: is_space_def is_digit_in_def digit_of_def ascii_lower_def Let_def)

lemma nat_str_plain: "list_all (\<lambda>c. c \<noteq> CHR '']'' \<and> no_brace c \<and> \<not> is_space c) (nat_str n)"
proof -
  have "c \<noteq> CHR '']'' \<and> no_brace c \<and> \<not> is_space c" if "is_digit_in 10 c" for c
    using that by (auto simp: is_digit_in_def digit_of_def is_space_def no_brace_def ascii_lower_def Let_def split: if_splits)
  then show ?thesis using nat_str_digits [of n] digit_char_facts(3) by (fastforce simp: list_all_iff)
qed

lemma token_read:
  assumes "writable t"
  shows "path_tokens buf (show_token t @ rest) =
    (case t of Key k \<Rightarrow> if simple_key k then map_option (append (flush buf)) (path_tokens k rest)
                      else map_option (\<lambda>ts. flush buf @ t # ts) (path_tokens [] rest)
             | Index r \<Rightarrow> map_option (\<lambda>ts. flush buf @ t # ts) (path_tokens [] rest))"
proof (cases t)
  case (Key k)
  show ?thesis
  proof (cases "simple_key k")
    case True
    with Key show ?thesis using path_tokens_plain [of k "[]" rest] by (simp add: show_token_def simple_key_def)
  next
    case False
    have "list_all (\<lambda>c. c \<noteq> CHR '']'') (CHR 0x27 # k @ [CHR 0x27])" using assms Key by (auto simp: writable_def list_all_iff)
    from bracket_tokens [OF this, of buf rest] False Key show ?thesis
      by (simp add: show_token_def bracket_def quoted_not_number unquote_quoted del: path_tokens.simps)
  qed
next
  case (Index r)
  have "list_all (\<lambda>c. c \<noteq> CHR '']'') (nat_str (nat \<lfloor>r\<rfloor>))" using nat_str_plain by (auto simp: list_all_iff)
  from bracket_tokens [OF this, of buf rest] Index assms show ?thesis
    by (simp add: show_token_def bracket_def js_number_nat_str writable_def del: path_tokens.simps)
qed

lemma tokens_read: "list_all writable ts \<Longrightarrow> path_tokens buf (concat (map show_token ts)) = Some (flush buf @ ts)"
proof (induction ts arbitrary: buf)
  case (Cons t ts)
  then have w: "writable t" and ih: "\<And>buf. path_tokens buf (concat (map show_token ts)) = Some (flush buf @ ts)" by simp_all
  show ?case using token_read [OF w, of buf "concat (map show_token ts)"]
    by (cases t) (simp_all add: ih flush_def simple_key_def del: path_tokens.simps)
qed simp

lemma path_roundtrip:
  assumes "list_all writable ts"
  shows "readPath (show_path ts) v = walk_path ts v"
proof (cases ts)
  case Nil
  then show ?thesis by (simp add: readPath_def show_path_def trimmed_path_def walk_path_def)
next
  case (Cons t us)
  have us: "list_all writable us" and w: "writable t" using assms Cons by simp_all
  have tok: "path_tokens [] (concat (map show_token ts)) = Some ts" using tokens_read [OF assms, of "[]"] by (simp add: flush_def)
  show ?thesis
  proof (cases "\<exists>k. t = Key k \<and> simple_key k")
    case True
    then obtain k where k: "t = Key k" "simple_key k" by blast
    have trim: "trimmed_path (show_path ts) = k @ concat (map show_token us)"
      by (simp add: trimmed_path_def show_path_def Cons show_token_def k)
    have "path_tokens [] (k @ concat (map show_token us)) = Some (Key k # us)"
      using path_tokens_plain [of k "[]" "concat (map show_token us)"] tokens_read [OF us, of k] k(2) by (simp add: simple_key_def flush_def)
    moreover have "k @ concat (map show_token us) \<noteq> []" "show_path ts \<noteq> []" using k(2) by (simp_all add: simple_key_def show_path_def)
    then have "readPath (show_path ts) v = (case path_tokens [] (k @ concat (map show_token us)) of None \<Rightarrow> JUndefined | Some ts \<Rightarrow> walk_path ts v)"
      unfolding readPath_def trim by (simp only: simp_thms if_False)
    ultimately show ?thesis using k(1) Cons by simp
  next
    case False
    then obtain s where s: "show_token t = CHR ''['' # s" by (cases t) (simp_all add: show_token_def)
    then have "trimmed_path (show_path ts) = concat (map show_token ts)" "concat (map show_token ts) \<noteq> []" "show_path ts \<noteq> []"
      by (simp_all add: trimmed_path_def show_path_def Cons)
    then have "readPath (show_path ts) v = (case path_tokens [] (concat (map show_token ts)) of None \<Rightarrow> JUndefined | Some ts \<Rightarrow> walk_path ts v)"
      unfolding readPath_def by (simp only: simp_thms if_False)
    then show ?thesis by (simp add: tok)
  qed
qed

text \<open>A template as a sequence of literal texts and paths.\<close>

datatype segment = Lit string | Hole "path_token list"

definition show_segment :: "segment \<Rightarrow> string" where
  "show_segment g = (case g of Lit s \<Rightarrow> s | Hole ts \<Rightarrow> ''{{'' @ show_path ts @ ''}}'')"

definition fill_segment :: "(real \<Rightarrow> string) \<Rightarrow> js_val \<Rightarrow> segment \<Rightarrow> string" where
  "fill_segment num ctx g = (case g of Lit s \<Rightarrow> s | Hole ts \<Rightarrow> value_text num (walk_path ts ctx))"

definition segment_ok :: "segment \<Rightarrow> bool" where
  "segment_ok g \<longleftrightarrow> (case g of Lit s \<Rightarrow> list_all (\<lambda>c. c \<noteq> CHR ''{'') s | Hole ts \<Rightarrow> list_all writable ts)"

lemma show_token_plain: "writable t \<Longrightarrow> list_all (\<lambda>c. no_brace c \<and> \<not> is_space c) (show_token t)"
  using nat_str_plain by (cases t) (auto simp: show_token_def writable_def list_all_iff no_brace_def is_space_def)

lemma show_path_plain: "list_all writable ts \<Longrightarrow> list_all (\<lambda>c. no_brace c \<and> \<not> is_space c) (show_path ts)"
  using show_token_plain by (fastforce simp: show_path_def list_all_iff no_brace_def is_space_def)

lemma render_literal: "list_all (\<lambda>c. c \<noteq> CHR ''{'') s \<Longrightarrow> renderTemplate num (s @ rest) ctx = s @ renderTemplate num rest ctx"
proof (induction s)
  case (Cons c s)
  then have "placeholder (c # s @ rest) = None" by (simp add: placeholder_def)
  with Cons show ?case by (simp add: renderTemplate.simps [of num "c # s @ rest"])
qed simp

lemma render_hole:
  assumes "e \<noteq> []" "list_all no_brace e"
  shows "renderTemplate num (''{{'' @ e @ ''}}'' @ rest) ctx = value_text num (readPath (trim_text e) ctx) @ renderTemplate num rest ctx"
proof -
  have "takeWhile no_brace (e @ ''}}'' @ rest) = e" "dropWhile no_brace (e @ ''}}'' @ rest) = ''}}'' @ rest"
    using assms(2) by (simp_all add: list_all_iff takeWhile_append dropWhile_append no_brace_def)
  with assms(1) have "placeholder (''{{'' @ e @ ''}}'' @ rest) = Some (e, rest)" by (simp add: placeholder_def Let_def)
  then show ?thesis by (simp add: renderTemplate.simps [of num "CHR ''{'' # CHR ''{'' # e @ CHR ''}'' # CHR ''}'' # rest"])
qed

lemma render_segment:
  assumes "segment_ok g"
  shows "renderTemplate num (show_segment g @ rest) ctx = fill_segment num ctx g @ renderTemplate num rest ctx"
proof (cases g)
  case (Lit s)
  with assms show ?thesis by (simp add: show_segment_def fill_segment_def segment_ok_def render_literal)
next
  case (Hole ts)
  then have ts: "list_all writable ts" using assms by (simp add: segment_ok_def)
  note plain = show_path_plain [OF ts]
  have "trim_text (show_path ts) = show_path ts" "list_all no_brace (show_path ts)" "show_path ts \<noteq> []"
    using plain by (auto simp: list_all_iff show_path_def intro!: trim_text_same)
  with render_hole [of "show_path ts" num rest ctx] path_roundtrip [OF ts] Hole show ?thesis
    by (simp add: show_segment_def fill_segment_def)
qed

text \<open>
  C34. Templates and paths. A template that is written from literal texts without an opening brace and from printed paths, whose keys
  have no closing bracket, brace or blank, each path printed with dots, bracketed indices and quoted keys, renders to the literals
  and the texts of the values that the paths lead to, in order: a path is read back as the tokens it was printed from, and a value
  is inserted once and never looked into for further placeholders. The value is what the members of the context lead to, the
  inherited ones included: where there is none, or null, the text is empty; an inherited function is the word undefined.
\<close>

theorem template_renders_paths:
  assumes "list_all segment_ok gs"
  shows "renderTemplate num (concat (map show_segment gs)) ctx = concat (map (fill_segment num ctx) gs)"
  using assms
proof (induction gs)
  case Nil
  show ?case by (simp add: renderTemplate.simps)
next
  case (Cons g gs)
  then show ?case by (simp add: render_segment)
qed

definition demo_ctx :: js_val where
  "demo_ctx = JObj [(''user'', JObj [(''first.name'', JStr ''{{secret}}'')]), (''xs'', JArr [JNull, JBool True]), (''secret'', JStr ''no'')]"

definition demo_segments :: "segment list" where
  "demo_segments = [Lit ''a '', Hole [Key ''user'', Key ''first.name''], Lit '' '', Hole [Key ''xs'', Index 1], Hole [Key ''none'']]"

theorem template_renders_paths_witness:
  "concat (map show_segment demo_segments) = ''a {{$.user['' @ [CHR 0x27] @ ''first.name'' @ [CHR 0x27] @ '']}} {{$.xs[1]}}{{$.none}}''
   \<and> renderTemplate (\<lambda>x. ''0'') (concat (map show_segment demo_segments)) demo_ctx = ''a {{secret}} true''"
proof -
  have ok: "list_all segment_ok demo_segments"
    by (simp add: demo_segments_def segment_ok_def writable_def no_brace_def is_space_def Let_def)
  have one: "nat_str 1 = ''1''" by code_simp
  have "concat (map (fill_segment (\<lambda>x. ''0'') demo_ctx) demo_segments) = ''a {{secret}} true''"
    by (simp add: demo_segments_def fill_segment_def demo_ctx_def walk_path_def step_into_def object_prop_def object_member_def
      object_methods_def array_at_def value_text_def Let_def)
  moreover have "concat (map show_segment demo_segments) = ''a {{$.user['' @ [CHR 0x27] @ ''first.name'' @ [CHR 0x27] @ '']}} {{$.xs[1]}}{{$.none}}''"
    using one by (simp add: demo_segments_def show_segment_def show_path_def show_token_def simple_key_def)
  ultimately show ?thesis using template_renders_paths [OF ok, of "\<lambda>x. ''0''" demo_ctx] by simp
qed

text \<open>
  A variable that is not in the context is not always the empty text that the comment promises: a name that every
  object inherits is found.
\<close>

lemma inherited_members_are_found:
  "renderTemplate num ''{{constructor}}'' (JObj []) = ''undefined''"
  "renderTemplate num ''{{__proto__}}'' (JObj []) = ''{}''"
  "readPath ''__proto__.__proto__'' (JObj []) = JNull"
  "readPath ''constructor.name'' (JObj []) = JUndefined"
proof -
  have r: "readPath ''constructor'' (JObj []) = JBuiltin (Function ''Object'' ''Object'')" "readPath ''__proto__'' (JObj []) = JBuiltin ObjectPrototype"
    by (code_simp, code_simp)
  have "trim_text ''constructor'' = ''constructor''" "trim_text ''__proto__'' = ''__proto__''" by (code_simp, code_simp)
  with r render_hole [of "''constructor''" num "[]" "JObj []"] render_hole [of "''__proto__''" num "[]" "JObj []"]
  show "renderTemplate num ''{{constructor}}'' (JObj []) = ''undefined''" "renderTemplate num ''{{__proto__}}'' (JObj []) = ''{}''"
    by (simp_all add: no_brace_def value_text_def renderTemplate.simps [of num "[]"])
qed code_simp+

text \<open>A placeholder of blanks is the empty path, which is the whole context.\<close>

lemma blank_placeholder_dumps_context: "renderTemplate num ''{{ }}'' (JObj [(''secret'', JStr ''s'')]) = ''{\"secret\":\"s\"}''"
proof -
  have "trim_text '' '' = []" by (simp add: trim_text_def is_space_def)
  with render_hole [of "'' ''" num "[]" "JObj [(''secret'', JStr ''s'')]"] show ?thesis
    by (simp add: no_brace_def readPath_def value_text_def json_omits_def quote_text_def escape_char_def Let_def renderTemplate.simps [of num "[]"])
qed

text \<open>A guard and its complement are both false on what is not a number.\<close>

lemma comparisons_miss_non_numbers:
  "readPath p ctx = JStr s \<Longrightarrow> \<not> evaluate (GGt p x) ctx \<and> \<not> evaluate (GLte p x) ctx"
  by (simp add: number_test_def)

end
