(* ===== verification/Node_Executor.thy ===== *)
theory Node_Executor
  imports Node_Flow Node_Guard
begin

text \<open>
  The executor of nodes, \<open>ai/node-flow/executor.ts\<close>. The services it calls are arguments and may reject: a language model, tools, \<open>fetch\<close>,
  message adapters, a knowledge base. \<open>JSON.parse\<close> and the text of numbers are arguments too.
\<close>

section \<open>Services\<close>

record tool_result =
  tr_success :: bool
  tr_output :: js_val
  tr_error :: "string option"

record fetch_request =
  fq_url :: string
  fq_method :: http_method
  fq_headers :: "mapping option"
  fq_body :: "string option"

text \<open>Reading the text of a response may fail as well.\<close>

record fetch_response =
  fp_ok :: bool
  fp_status :: int
  fp_text :: "string + string"

record exec_env =
  ex_llm :: "((string \<times> string) list \<Rightarrow> bool \<Rightarrow> string + string) option"
  ex_tools :: "(string \<Rightarrow> js_object \<Rightarrow> string + tool_result) option"
  ex_fetch :: "fetch_request \<Rightarrow> string + fetch_response"
  ex_adapters :: "(string, string \<Rightarrow> string option \<Rightarrow> string + js_val) jsmap"
  ex_knowledge :: "(string \<Rightarrow> string list \<Rightarrow> real \<Rightarrow> string + js_val list) option"
  ex_parse :: "string \<Rightarrow> js_val option"
  ex_num :: "real \<Rightarrow> string"

section \<open>Nodes\<close>

definition completed :: "js_object \<Rightarrow> string + exec_signal" where
  "completed ps = Inr (Completed (JObj ps))"

definition render :: "exec_env \<Rightarrow> js_val \<Rightarrow> string \<Rightarrow> string" where
  "render env ctx template = renderTemplate (ex_num env) template ctx"

definition parsed_or_raw :: "exec_env \<Rightarrow> string \<Rightarrow> js_val" where
  "parsed_or_raw env s = (case ex_parse env s of Some v \<Rightarrow> v | None \<Rightarrow> JStr s)"

definition truthy_val :: "js_val \<Rightarrow> bool" where
  "truthy_val v = (case v of JUndefined \<Rightarrow> False | JNull \<Rightarrow> False | JBool b \<Rightarrow> b | JNum x \<Rightarrow> x \<noteq> 0 | JStr s \<Rightarrow> s \<noteq> [] | _ \<Rightarrow> True)"

definition no_llm :: string where
  "no_llm = ''no LLMService available''"

definition executeAttributeOp :: "js_val \<Rightarrow> mapping \<Rightarrow> string + exec_signal" where
  "executeAttributeOp ctx ws = completed (applyInputMapping ws ctx)"

text \<open>The first branch is the fallback; a definition without branches gives null.\<close>

definition executeBranch :: "js_val \<Rightarrow> string \<Rightarrow> (js_val, string) jsmap \<Rightarrow> string + exec_signal" where
  "executeBranch ctx attr bs =
     (case filter (\<lambda>(k, target). strict_eq k (readPath attr ctx)) bs of
        (k, target) # _ \<Rightarrow> completed [(''branch'', JStr target)]
      | [] \<Rightarrow> completed [(''branch'', case bs of (k, target) # _ \<Rightarrow> JStr target | [] \<Rightarrow> JNull)])"

definition executeDelay :: "real \<Rightarrow> string + exec_signal" where
  "executeDelay ms = completed [(''delayedMs'', JNum ms)]"

definition executeMcpTool :: "exec_env \<Rightarrow> js_val \<Rightarrow> string \<Rightarrow> mapping \<Rightarrow> mapping \<Rightarrow> string + exec_signal" where
  "executeMcpTool env ctx name inm outm =
     (case ex_tools env of
        None \<Rightarrow> completed [(''error'', JStr ''no MCPToolRegistry available'')]
      | Some execute \<Rightarrow>
          (case execute name (applyInputMapping inm ctx) of
             Inl e \<Rightarrow> Inl e
           | Inr r \<Rightarrow>
               (if \<not> tr_success r then completed [(''error'', JStr (case tr_error r of Some e \<Rightarrow> e | None \<Rightarrow> ''tool failed''))]
                else completed (applyMapping outm (tr_output r)))))"

definition executeKnowledge :: "exec_env \<Rightarrow> js_val \<Rightarrow> string \<Rightarrow> string list \<Rightarrow> real \<Rightarrow> string \<Rightarrow> string + exec_signal" where
  "executeKnowledge env ctx template srcs k attr =
     (case ex_knowledge env of
        None \<Rightarrow> completed [(attr, JArr [])]
      | Some search \<Rightarrow>
          (case search (render env ctx template) srcs k of
             Inl e \<Rightarrow> Inl e
           | Inr rs \<Rightarrow> completed [(attr, JArr rs)]))"

definition executeSendMessage :: "exec_env \<Rightarrow> js_val \<Rightarrow> string \<Rightarrow> string option \<Rightarrow> string \<Rightarrow> string + exec_signal" where
  "executeSendMessage env ctx adapter_id template_id template =
     (case js_get (ex_adapters env) adapter_id of
        None \<Rightarrow> completed [(''sent'', JBool False), (''reason'', JStr ''adapter_not_found'')]
      | Some send \<Rightarrow>
          (case send (render env ctx template) template_id of
             Inl e \<Rightarrow> Inl e
           | Inr r \<Rightarrow> completed [(''sent'', JBool True), (''adapter'', JStr adapter_id), (''response'', r)]))"

text \<open>A rejected \<open>fetch\<close> and a status that is not ok are outputs.\<close>

definition executeHttp ::
  "exec_env \<Rightarrow> js_val \<Rightarrow> http_method \<Rightarrow> string \<Rightarrow> mapping option \<Rightarrow> string option \<Rightarrow> mapping \<Rightarrow> string + exec_signal" where
  "executeHttp env ctx meth url headers body rmap =
     (case ex_fetch env \<lparr>fq_url = render env ctx url, fq_method = meth, fq_headers = headers,
             fq_body = (case body of Some (c # cs) \<Rightarrow> Some (render env ctx (c # cs)) | _ \<Rightarrow> None)\<rparr> of
        Inl e \<Rightarrow> completed [(''error'', JStr (''network_error: '' @ e))]
      | Inr res \<Rightarrow>
          (case fp_text res of
             Inl e \<Rightarrow> Inl e
           | Inr txt \<Rightarrow>
               (let body = parsed_or_raw env txt
                in if \<not> fp_ok res
                   then completed [(''error'', JStr (''http_'' @ int_str (fp_status res))), (''body'', body), (''status'', JNum (real_of_int (fp_status res)))]
                   else completed (applyMapping rmap body))))"

definition executeLlmCall ::
  "exec_env \<Rightarrow> js_val \<Rightarrow> string option \<Rightarrow> string \<Rightarrow> js_val \<Rightarrow> mapping \<Rightarrow> string + exec_signal" where
  "executeLlmCall env ctx system_template user_template response_schema rmap =
     (case ex_llm env of
        None \<Rightarrow> completed [(''error'', JStr no_llm)]
      | Some chat \<Rightarrow>
          (let messages = (case system_template of Some (c # cs) \<Rightarrow> [(''system'', render env ctx (c # cs))] | _ \<Rightarrow> [])
                 @ [(''user'', render env ctx user_template)]
           in case chat messages (truthy_val response_schema) of
                Inl e \<Rightarrow> Inl e
              | Inr txt \<Rightarrow>
                  (let body = (if truthy_val response_schema then parsed_or_raw env txt else JStr txt)
                   in completed (js_set ''rawText'' (JStr txt) (applyMapping rmap body)))))"

definition executeLlmExtract :: "exec_env \<Rightarrow> js_val \<Rightarrow> string \<Rightarrow> mapping \<Rightarrow> string + exec_signal" where
  "executeLlmExtract env ctx template rmap =
     (case ex_llm env of
        None \<Rightarrow> completed [(''error'', JStr no_llm)]
      | Some chat \<Rightarrow>
          (case chat [(''user'', render env ctx template)] True of
             Inl e \<Rightarrow> Inl e
           | Inr txt \<Rightarrow> completed (applyMapping rmap (parsed_or_raw env txt))))"

definition merged_text :: "exec_env \<Rightarrow> js_object \<Rightarrow> string" where
  "merged_text env inputs =
     join_str [CHR 0x0A, CHR 0x0A] (map (\<lambda>v. case v of JStr s \<Rightarrow> s | _ \<Rightarrow> stringify (ex_num env) v) (js_values inputs))"

definition executeMerge ::
  "exec_env \<Rightarrow> js_val \<Rightarrow> merge_strategy \<Rightarrow> string option \<Rightarrow> mapping \<Rightarrow> string + exec_signal" where
  "executeMerge env ctx strat template rmap =
     (case strat of
        Concatenate \<Rightarrow> completed [(''merged'', JStr (merged_text env (applyInputMapping rmap ctx)))]
      | SelectBest \<Rightarrow> completed (applyInputMapping rmap ctx)
      | LlmSynthesize \<Rightarrow>
          (case (ex_llm env, template) of
             (Some chat, Some (c # cs)) \<Rightarrow>
               (case chat [(''user'', render env ctx (c # cs))] False of
                  Inl e \<Rightarrow> Inl e
                | Inr r \<Rightarrow> completed [(''merged'', JStr r)])
           | _ \<Rightarrow> completed [(''error'', JStr ''llm_synthesize requires LLMService and promptTemplate'')]))"

definition executeWaitUntil :: "real option \<Rightarrow> string + exec_signal" where
  "executeWaitUntil ms =
     (case ms of Some d \<Rightarrow> if d > 0 then completed [(''waitedMs'', JNum d)] else Inr Blocking | None \<Rightarrow> Inr Blocking)"

definition executeVerify :: "exec_env \<Rightarrow> js_val \<Rightarrow> string \<Rightarrow> mapping \<Rightarrow> string + exec_signal" where
  "executeVerify env ctx template rmap =
     (case ex_llm env of
        None \<Rightarrow> completed [(''error'', JStr no_llm), (''verified'', JBool False)]
      | Some chat \<Rightarrow>
          (case chat [(''user'', render env ctx template)] True of
             Inl e \<Rightarrow> Inl e
           | Inr r \<Rightarrow> completed (js_set ''raw'' (JStr r) (applyMapping rmap (parsed_or_raw env r)))))"

definition executePlan ::
  "exec_env \<Rightarrow> js_val \<Rightarrow> string \<Rightarrow> string \<Rightarrow> string list \<Rightarrow> real \<Rightarrow> mapping \<Rightarrow> string + exec_signal" where
  "executePlan env ctx planner goal kinds steps rmap =
     (case ex_llm env of
        None \<Rightarrow> completed [(''error'', JStr no_llm)]
      | Some chat \<Rightarrow>
          (case chat [(''system'', render env ctx planner),
                      (''user'', ''Goal: '' @ render env ctx goal @ [CHR 0x0A] @ ''Available node types: '' @ join_str '', '' kinds
                         @ [CHR 0x0A] @ ''MaxSteps: '' @ ex_num env steps)] True of
             Inl e \<Rightarrow> Inl e
           | Inr r \<Rightarrow> completed (js_set ''plan'' (parsed_or_raw env r) (applyMapping rmap (parsed_or_raw env r)))))"

definition executeNode :: "exec_env \<Rightarrow> js_val \<Rightarrow> node_def \<Rightarrow> string + exec_signal" where
  "executeNode env ctx def =
     (case def of
        AttributeOp rs ws \<Rightarrow> executeAttributeOp ctx ws
      | Branch attr bs \<Rightarrow> executeBranch ctx attr bs
      | Delay ms \<Rightarrow> executeDelay ms
      | McpToolExec name inm outm pol \<Rightarrow> executeMcpTool env ctx name inm outm
      | KnowledgeLookup template srcs k attr pol \<Rightarrow> executeKnowledge env ctx template srcs k attr
      | SendMessage adapter template_id template \<Rightarrow> executeSendMessage env ctx adapter template_id template
      | HttpCall meth url headers body rm pol \<Rightarrow> executeHttp env ctx meth url headers body rm
      | LlmCall sys user schema ts iters mc rm win think backend extra \<Rightarrow> executeLlmCall env ctx sys user schema rm
      | LlmExtract template schema mc rm pol \<Rightarrow> executeLlmExtract env ctx template rm
      | Merge strat template mc rm pol \<Rightarrow> executeMerge env ctx strat template rm
      | WaitUntil cron ms \<Rightarrow> executeWaitUntil ms
      | Verify template action retries mc rm pol \<Rightarrow> executeVerify env ctx template rm
      | Plan planner goal kinds steps mc rm pol \<Rightarrow> executePlan env ctx planner goal kinds steps rm
      | _ \<Rightarrow> Inr Blocking)"

text \<open>
  The executor with which the aggregate runs a node when it is given no other: the context is that of the flow. The same
  request need not get the same answer twice: what the services answer depends on when in the run they are asked, that is on
  the state of the flow.
\<close>

definition node_executor :: "(node_flow_state \<Rightarrow> exec_env) \<Rightarrow> executor" where
  "node_executor env def st = executeNode (env st) (JObj (flowContext st)) def"

section \<open>Outcomes\<close>

text \<open>The nodes that wait for the outside.\<close>

definition blocks :: "node_def \<Rightarrow> bool" where
  "blocks def = (case def of
      ReceiveMessage ids ms \<Rightarrow> True | HumanApproval p roles ms esc \<Rightarrow> True | UserChoice p opts ms attr \<Rightarrow> True
    | SubFlowStart i m each conc \<Rightarrow> True | SubFlowJoin ids ms \<Rightarrow> True | PollUntil sub path poll cond res iv n ms pol \<Rightarrow> True
    | WaitUntil cron ms \<Rightarrow> (case ms of Some d \<Rightarrow> \<not> d > 0 | None \<Rightarrow> True)
    | _ \<Rightarrow> False)"

text \<open>Services that answer; a \<open>fetch\<close> may be rejected all the same.\<close>

definition answers :: "exec_env \<Rightarrow> bool" where
  "answers env \<longleftrightarrow>
     (\<forall>chat ms js. ex_llm env = Some chat \<longrightarrow> \<not> isl (chat ms js))
     \<and> (\<forall>execute n args. ex_tools env = Some execute \<longrightarrow> \<not> isl (execute n args))
     \<and> (\<forall>q res. ex_fetch env q = Inr res \<longrightarrow> \<not> isl (fp_text res))
     \<and> (\<forall>i send s t. js_get (ex_adapters env) i = Some send \<longrightarrow> \<not> isl (send s t))
     \<and> (\<forall>search q srcs k. ex_knowledge env = Some search \<longrightarrow> \<not> isl (search q srcs k))"

lemma isl_cases: "\<not> isl x \<Longrightarrow> \<exists>r. x = Inr r"
  by (cases x) auto

lemma answersD:
  assumes "answers env"
  shows "ex_llm env = Some chat \<Longrightarrow> \<exists>r. chat ms js = Inr r" "ex_tools env = Some execute \<Longrightarrow> \<exists>r. execute n args = Inr r"
    "ex_fetch env q = Inr res \<Longrightarrow> \<exists>r. fp_text res = Inr r" "js_get (ex_adapters env) i = Some send \<Longrightarrow> \<exists>r. send s t = Inr r"
    "ex_knowledge env = Some search \<Longrightarrow> \<exists>r. search s srcs k = Inr r"
  using assms unfolding answers_def by (meson isl_cases)+


lemmas executions = executeAttributeOp_def executeBranch_def executeDelay_def executeMcpTool_def executeKnowledge_def executeSendMessage_def
  executeHttp_def executeLlmCall_def executeLlmExtract_def executeMerge_def executeWaitUntil_def executeVerify_def executePlan_def

definition completes_with_object :: "string + exec_signal \<Rightarrow> bool" where
  "completes_with_object r \<longleftrightarrow> (\<exists>ps. r = completed ps)"

lemma completes_with_objectI [simp]: "completes_with_object (completed ps)"
  by (auto simp: completes_with_object_def)

lemma mcp_outcome: "answers env \<Longrightarrow> completes_with_object (executeMcpTool env ctx n inm outm)"
  using answersD(2) [of env _ n "applyInputMapping inm ctx"] by (fastforce simp: executeMcpTool_def split: option.splits)

lemma knowledge_outcome: "answers env \<Longrightarrow> completes_with_object (executeKnowledge env ctx t srcs k a)"
  using answersD(5) [of env _ "render env ctx t" srcs k] by (fastforce simp: executeKnowledge_def split: option.splits)

lemma send_outcome: "answers env \<Longrightarrow> completes_with_object (executeSendMessage env ctx a ti t)"
  using answersD(4) [of env a _ "render env ctx t" ti] by (fastforce simp: executeSendMessage_def split: option.splits)

lemma http_outcome:
  assumes "answers env"
  shows "completes_with_object (executeHttp env ctx meth url headers body rm)"
proof -
  let ?q = "\<lparr>fq_url = render env ctx url, fq_method = meth, fq_headers = headers,
             fq_body = (case body of Some (c # cs) \<Rightarrow> Some (render env ctx (c # cs)) | _ \<Rightarrow> None)\<rparr>"
  show ?thesis
  proof (cases "ex_fetch env ?q")
    case (Inr res)
    from answersD(3) [OF assms this] obtain s where "fp_text res = Inr s" ..
    with Inr show ?thesis by (simp add: executeHttp_def Let_def)
  qed (simp add: executeHttp_def)
qed

lemma chat_outcome:
  assumes "answers env" "ex_llm env = Some chat" "\<And>r. completes_with_object (f r)"
  shows "completes_with_object (case chat ms js of Inl e \<Rightarrow> Inl e | Inr r \<Rightarrow> f r)"
  using answersD(1) [OF assms(1,2), of ms js] assms(3) by auto

lemma llm_outcomes:
  assumes "answers env"
  shows "completes_with_object (executeLlmCall env ctx sys user schema rm)" "completes_with_object (executeLlmExtract env ctx t rm)"
    "completes_with_object (executeVerify env ctx t rm)" "completes_with_object (executePlan env ctx t g kinds steps rm)"
  by (auto simp: executeLlmCall_def executeLlmExtract_def executeVerify_def executePlan_def Let_def split: option.split
      intro!: chat_outcome [OF assms])

lemma merge_outcome: "answers env \<Longrightarrow> completes_with_object (executeMerge env ctx strat t rm)"
  by (auto simp: executeMerge_def split: merge_strategy.split option.split list.split intro!: chat_outcome)

lemma branch_outcome: "completes_with_object (executeBranch ctx attr bs)"
  by (auto simp: executeBranch_def split: list.split)

text \<open>A node waits when its kind does, and otherwise completes with an object.\<close>

lemma executeNode_completes:
  assumes "answers env" "\<not> blocks def"
  shows "completes_with_object (executeNode env ctx def)"
  using assms by (cases def) (auto simp: executeNode_def blocks_def executeAttributeOp_def executeDelay_def executeWaitUntil_def mcp_outcome
      knowledge_outcome send_outcome http_outcome llm_outcomes merge_outcome branch_outcome split: option.splits if_splits)

lemma executeNode_blocks: "blocks def \<Longrightarrow> executeNode env ctx def = Inr Blocking"
  by (cases def) (auto simp: executeNode_def blocks_def executeWaitUntil_def split: option.splits)

text \<open>So a flow of nodes that do not wait is run to its end by its own executor, over any services that answer.\<close>

lemma node_executor_completes:
  assumes "\<And>st. answers (env st)" "\<And>n d. js_get (df_nodes def) n = Some d \<Longrightarrow> \<not> blocks d"
  shows "completes def (node_executor env)"
  unfolding completes_def node_executor_def
proof (intro allI impI)
  fix n d st assume "js_get (df_nodes def) n = Some d"
  from executeNode_completes [OF assms(1) assms(2) [OF this], where ctx = "JObj (flowContext st)"]
  obtain ps where r: "executeNode (env st) (JObj (flowContext st)) d = Inr (Completed (JObj ps))"
    by (auto simp: completes_with_object_def completed_def)
  show "executeNode (env st) (JObj (flowContext st)) d \<noteq> Inr Blocking \<and> \<not> isl (executeNode (env st) (JObj (flowContext st)) d)"
    unfolding r by simp
qed

section \<open>What the executor does not do\<close>

text \<open>A request that fails, or is answered with an error, completes its node: the error policy of the node is never read, whatever it is.\<close>

lemma http_errors_complete_the_node:
  "executeNode env ctx (HttpCall meth url headers body rm pol) = executeNode env ctx (HttpCall meth url headers body rm pol')"
  "ex_fetch env \<lparr>fq_url = render env ctx url, fq_method = meth, fq_headers = headers, fq_body = None\<rparr> = Inl e
   \<Longrightarrow> executeNode env ctx (HttpCall meth url headers None rm FailFlow) = completed [(''error'', JStr (''network_error: '' @ e))]"
  by (simp_all add: executeNode_def executeHttp_def)

text \<open>Nor is the action that \<open>verify\<close> names for a failed check, nor the number of retries.\<close>

lemma verify_ignores_its_action:
  "executeNode env ctx (Verify t action retries mc rm pol) = executeNode env ctx (Verify t action' retries' mc rm pol')"
  by (simp add: executeNode_def)

text \<open>A branch starts every node that follows it: the choice is only an output.\<close>

definition branching_flow :: node_flow_def where
  "branching_flow = (demo_flow [(''a'', ''b''), (''a'', ''c'')])\<lparr>df_nodes :=
     [(''a'', Branch ''ok'' [(JBool True, ''b''), (JBool False, ''c'')]), (''b'', demo_node), (''c'', demo_node)]\<rparr>"

definition no_services :: exec_env where
  "no_services = \<lparr>ex_llm = None, ex_tools = None, ex_fetch = \<lambda>q. Inl ''offline'', ex_adapters = [], ex_knowledge = None,
     ex_parse = \<lambda>s. None, ex_num = \<lambda>x. ''0''\<rparr>"

lemma branch_starts_both_sides:
  "let w = drive (node_executor (\<lambda>_. no_services)) (process (node_executor (\<lambda>_. no_services)) (new_instance []) (StartFlow branching_flow [(''ok'', JBool False)])) [0, 0, 0]
   in js_get (nodeOutputs (fi_state w)) ''a'' = Some (JObj [(''branch'', JStr ''c'')])
      \<and> started (fi_journal w) = [''a'', ''b'', ''c''] \<and> flowStatus (fi_state w) = FlowCompleted"
  by code_simp

text \<open>
  C32. A new instance that is given a compiled flow with at least one node, none of which waits for the outside, is run to its
  end by the executor of the source, over any services that answer, alike or not when asked again: refused requests, error statuses, missing services and unknown adapters are outputs of their nodes. With as many
  deliveries as nodes, in any order, nothing is left outstanding, every node has run once, and the journal ends with the completion of the flow.
\<close>

theorem executed_flow_completes:
  assumes "distinct (map fst (df_nodes def))" "compile_now def = Inr c" "df_nodes def \<noteq> []"
    and "\<And>n d. js_get (df_nodes def) n = Some d \<Longrightarrow> \<not> blocks d" "\<And>st. answers (env st)" "length (df_nodes def) \<le> length ks"
    and "w = drive (node_executor env) (process (node_executor env) (new_instance registry) (StartFlow def overrides)) ks"
  shows "fi_told w = [] \<and> flowStatus (fi_state w) = FlowCompleted
    \<and> mset (started (fi_journal w)) = mset (map fst (df_nodes def))
    \<and> mset (succeeded (fi_journal w)) = mset (map fst (df_nodes def))
    \<and> (\<exists>js ctx0. fi_journal w = js @ [FlowCompletedEv ctx0] \<and> completions js = [])"
  by (rule flow_runs_to_end [OF assms(1-3) node_executor_completes [OF assms(5,4)] assms(6,7)])

theorem executed_flow_completes_witness:
  "flowStatus (fi_state (drive (node_executor (\<lambda>_. no_services))
      (process (node_executor (\<lambda>_. no_services)) (new_instance []) (StartFlow branching_flow [(''ok'', JBool True)])) [1, 0, 0])) = FlowCompleted"
proof -
  have d: "distinct (map fst (df_nodes branching_flow))" "df_nodes branching_flow \<noteq> []" "length (df_nodes branching_flow) \<le> length [1, 0, 0::nat]"
    by (simp_all add: branching_flow_def demo_flow_def)
  have "accepts (compile_flow branching_flow)" by code_simp
  then obtain c where c: "compile_now branching_flow = Inr c" by (auto simp: accepts_def compile_now_def split: option.splits sum.splits)
  have b: "\<not> blocks d" if "js_get (df_nodes branching_flow) n = Some d" for n d
    using that by (auto simp: branching_flow_def demo_flow_def demo_node_def blocks_def split: if_splits)
  have "answers no_services" by (simp add: answers_def no_services_def)
  from executed_flow_completes [OF d(1) c d(2) b this d(3) refl, where registry = "[]" and overrides = "[(''ok'', JBool True)]"] show ?thesis by simp
qed

end
