(* ===== verification/Tool_Registry.thy ===== *)
theory Tool_Registry
  imports Node_Flow_Def Js_Number
begin

text \<open>
  Tools of agents: results, permissions and definitions (\<open>ai/tool/types.ts\<close>) and the registry in memory with its approvals
  (\<open>ai/tool/mcp-tool-registry.ts\<close>). A tool and the approval callback answer or reject.
\<close>

section \<open>Types\<close>

record mcp_result =
  mr_success :: bool
  mr_output :: js_val
  mr_error :: "string option"

definition tool_success :: "js_val \<Rightarrow> mcp_result" where
  "tool_success v = \<lparr>mr_success = True, mr_output = v, mr_error = None\<rparr>"

definition tool_failure :: "string \<Rightarrow> mcp_result" where
  "tool_failure e = \<lparr>mr_success = False, mr_output = JNull, mr_error = Some e\<rparr>"

record tool_call =
  tl_name :: string
  tl_arguments :: js_val

datatype tool_permission = AutoPermission | ConfirmPermission | ConfirmIf string

record mcp_tool =
  mt_name :: string
  mt_description :: string
  mt_inputSchema :: js_val
  mt_title :: "string option"
  mt_outputSchema :: "js_val option"
  mt_permission :: "tool_permission option"
  mt_execute :: "js_val \<Rightarrow> string + mcp_result"

record tool_definition =
  td_name :: string
  td_description :: string
  td_inputSchema :: js_val

definition toolDefinitionFromTool :: "mcp_tool \<Rightarrow> tool_definition" where
  "toolDefinitionFromTool tool = \<lparr>td_name = mt_name tool, td_description = mt_description tool, td_inputSchema = mt_inputSchema tool\<rparr>"

section \<open>Conditions\<close>

text \<open>\<open>split(/\s+/)\<close> of a trimmed text.\<close>

function split_spaces :: "string \<Rightarrow> string list" where
  "split_spaces s =
     (let word = takeWhile (\<lambda>c. \<not> is_space c) s; rest = dropWhile (\<lambda>c. \<not> is_space c) s
      in if rest = [] then [word] else word # split_spaces (dropWhile is_space rest))"
  by pat_completeness auto
termination
proof (relation "measure length", simp)
  fix s :: string and word rest
  assume r: "rest = dropWhile (\<lambda>c. \<not> is_space c) s" "rest \<noteq> []"
  then have "is_space (hd rest)" using hd_dropWhile [of "\<lambda>c. \<not> is_space c" s] by simp
  with r(2) have "length (dropWhile is_space rest) < length rest"
    by (cases rest) (auto simp: le_imp_less_Suc length_dropWhile_le)
  also have "\<dots> \<le> length s" by (simp add: r(1) length_dropWhile_le)
  finally show "(dropWhile is_space rest, s) \<in> measure length" by simp
qed

declare split_spaces.simps [simp del]

text \<open>A property of the arguments: an array has no property that is a word.\<close>

definition arg_of :: "js_val \<Rightarrow> string \<Rightarrow> js_val option" where
  "arg_of args field = (case args of JObj ps \<Rightarrow> js_get ps field | _ \<Rightarrow> None)"

definition evaluateCondition :: "string \<Rightarrow> js_val \<Rightarrow> bool" where
  "evaluateCondition condition args =
     (if \<not> (case args of JArr xs \<Rightarrow> True | JObj ps \<Rightarrow> True | _ \<Rightarrow> False) then False
      else case split_spaces (trim_text condition) of
             [field, operator, thresholdStr] \<Rightarrow>
               (case (arg_of args field, js_number thresholdStr) of
                  (Some (JNum value), Some threshold) \<Rightarrow>
                    if operator = ''>'' then value > threshold else if operator = ''<'' then value < threshold else False
                | _ \<Rightarrow> False)
           | [field] \<Rightarrow> (case arg_of args field of Some v \<Rightarrow> v \<noteq> JNull \<and> v \<noteq> JUndefined | None \<Rightarrow> False)
           | _ \<Rightarrow> False)"

section \<open>The registry\<close>

type_synonym approval = "(string \<Rightarrow> js_val \<Rightarrow> string + bool) option"

definition checkPermission :: "approval \<Rightarrow> mcp_tool \<Rightarrow> js_val \<Rightarrow> string + bool" where
  "checkPermission approve tool args =
     (let ask = (case approve of None \<Rightarrow> Inr False | Some cb \<Rightarrow> cb (mt_name tool) args)
      in case (case mt_permission tool of Some p \<Rightarrow> p | None \<Rightarrow> AutoPermission) of
           AutoPermission \<Rightarrow> Inr True
         | ConfirmPermission \<Rightarrow> ask
         | ConfirmIf condition \<Rightarrow> if evaluateCondition condition args then ask else Inr True)"

type_synonym tool_map = "(string, mcp_tool) jsmap"

definition tools_register :: "mcp_tool \<Rightarrow> tool_map \<Rightarrow> tool_map" where
  "tools_register tool reg = js_set (mt_name tool) tool reg"

definition tools_get :: "tool_map \<Rightarrow> string \<Rightarrow> mcp_tool option" where
  "tools_get reg name = js_get reg name"

definition tools_list :: "tool_map \<Rightarrow> mcp_tool list" where
  "tools_list reg = js_values reg"

definition tools_getDefinitions :: "tool_map \<Rightarrow> tool_definition list" where
  "tools_getDefinitions reg = map toolDefinitionFromTool (js_values reg)"

text \<open>\<open>execute\<close>: whether the tool ran, and its result.\<close>

definition tools_execute :: "approval \<Rightarrow> tool_map \<Rightarrow> tool_call \<Rightarrow> bool \<times> (string + mcp_result)" where
  "tools_execute approve reg call =
     (case js_get reg (tl_name call) of
        None \<Rightarrow> (False, Inr (tool_failure (''Tool not found: '' @ tl_name call)))
      | Some tool \<Rightarrow>
          (case checkPermission approve tool (tl_arguments call) of
             Inl e \<Rightarrow> (False, Inl e)
           | Inr approved \<Rightarrow>
               (if \<not> approved then (False, Inr (tool_failure ''Tool execution denied: approval required''))
                else (True, mt_execute tool (tl_arguments call)))))"

fun tools_executeAll :: "approval \<Rightarrow> tool_map \<Rightarrow> tool_call list \<Rightarrow> string + (tool_call \<times> mcp_result) list" where
  "tools_executeAll approve reg [] = Inr []"
| "tools_executeAll approve reg (c # cs) =
     (case snd (tools_execute approve reg c) of
        Inl e \<Rightarrow> Inl e
      | Inr r \<Rightarrow> (case tools_executeAll approve reg cs of Inl e \<Rightarrow> Inl e | Inr rs \<Rightarrow> Inr ((c, r) # rs)))"

text \<open>A tool that needs confirmation runs only when the callback says yes; without a callback it never runs.\<close>

lemma confirmed_tool_needs_approval:
  assumes "js_get reg (tl_name call) = Some tool" "mt_permission tool = Some ConfirmPermission"
  shows "fst (tools_execute approve reg call) \<longleftrightarrow> (\<exists>cb. approve = Some cb \<and> cb (mt_name tool) (tl_arguments call) = Inr True)"
  using assms by (auto simp: tools_execute_def checkPermission_def Let_def split: option.split sum.split)

text \<open>A condition that is not understood asks for nothing: the tool runs without approval.\<close>

lemma unknown_condition_runs_the_tool:
  "mt_permission tool = Some (ConfirmIf ''amount >= 100'') \<Longrightarrow> checkPermission None tool args = Inr True"
  "mt_permission tool = Some (ConfirmIf ''amount > 100'') \<Longrightarrow> checkPermission None tool (JObj [(''amount'', JStr ''500'')]) = Inr True"
proof -
  have words: "split_spaces (trim_text ''amount >= 100'') = [''amount'', ''>='', ''100'']" "split_spaces (trim_text ''amount > 100'') = [''amount'', ''>'', ''100'']"
    by code_simp+
  show "mt_permission tool = Some (ConfirmIf ''amount >= 100'') \<Longrightarrow> checkPermission None tool args = Inr True"
    by (auto simp: checkPermission_def evaluateCondition_def words split: option.split js_val.split)
  show "mt_permission tool = Some (ConfirmIf ''amount > 100'') \<Longrightarrow> checkPermission None tool (JObj [(''amount'', JStr ''500'')]) = Inr True"
    by (simp add: checkPermission_def evaluateCondition_def words arg_of_def)
qed

end
