(* ===== verification/Node_Support.thy ===== *)
theory Node_Support
  imports Node_Flow Node_Guard Capability Tool_Registry
begin

text \<open>
  What surrounds a node flow in \<open>ai/node-flow\<close>: the JSON form of definitions (\<open>codec.ts\<close>), the projection of model usage
  (\<open>projection.ts\<close>), the route that starts a flow for a signed delivery (\<open>webhook-trigger.ts\<close>) and the tool with which an agent
  inspects itself (\<open>self-inspect-tool.ts\<close>). Bytes are characters; HMAC, \<open>JSON.parse\<close> and the decoding of UTF-8 are arguments.
\<close>

section \<open>Definitions as JSON\<close>

text \<open>Only a branch has another form: its map is an array of pairs.\<close>

datatype node_json = SameNode node_def | BranchJson string "(js_val \<times> string) list"

record flow_json =
  fj_id :: string
  fj_description :: string
  fj_nodes :: "(string \<times> node_json) list"
  fj_edges :: "(string \<times> string) list"
  fj_tags :: "string list"
  fj_initialContext :: js_object
  fj_maxConcurrentNodes :: "real option"
  fj_trigger :: trigger_config

definition encodeNode :: "node_def \<Rightarrow> node_json" where
  "encodeNode node = (case node of Branch attr bs \<Rightarrow> BranchJson attr bs | _ \<Rightarrow> SameNode node)"

definition decodeNode :: "node_json \<Rightarrow> node_def" where
  "decodeNode node = (case node of BranchJson attr bs \<Rightarrow> Branch attr (js_of_list bs) | SameNode n \<Rightarrow> n)"

definition encodeFlowDef :: "node_flow_def \<Rightarrow> flow_json" where
  "encodeFlowDef def = \<lparr>fj_id = df_id def, fj_description = df_description def,
     fj_nodes = map (\<lambda>(i, node). (i, encodeNode node)) (df_nodes def), fj_edges = df_edges def, fj_tags = df_tags def,
     fj_initialContext = df_initialContext def, fj_maxConcurrentNodes = df_maxConcurrentNodes def, fj_trigger = df_trigger def\<rparr>"

definition decodeFlowDef :: "flow_json \<Rightarrow> node_flow_def" where
  "decodeFlowDef json = \<lparr>df_id = fj_id json, df_description = fj_description json,
     df_nodes = js_of_list (map (\<lambda>(i, node). (i, decodeNode node)) (fj_nodes json)), df_edges = fj_edges json,
     df_tags = js_set_of (fj_tags json), df_initialContext = fj_initialContext json,
     df_maxConcurrentNodes = fj_maxConcurrentNodes json, df_trigger = fj_trigger json\<rparr>"

text \<open>A definition whose maps and sets are maps and sets.\<close>

definition node_maps_ok :: "node_def \<Rightarrow> bool" where
  "node_maps_ok node = (case node of Branch attr bs \<Rightarrow> js_wf bs | _ \<Rightarrow> True)"

definition flow_maps_ok :: "node_flow_def \<Rightarrow> bool" where
  "flow_maps_ok def \<longleftrightarrow> js_wf (df_nodes def) \<and> distinct (df_tags def) \<and> list_all (\<lambda>(i, node). node_maps_ok node) (df_nodes def)"

lemma js_of_list_wf: "js_wf m \<Longrightarrow> js_of_list m = m"
  by (simp add: js_wf_def js_of_list_distinct)

lemma decode_encode_node: "node_maps_ok node \<Longrightarrow> decodeNode (encodeNode node) = node"
  by (cases node) (simp_all add: encodeNode_def decodeNode_def node_maps_ok_def js_of_list_wf)

lemma js_set_of_distinct: "distinct xs \<Longrightarrow> js_set_of xs = xs"
  by (induction xs rule: rev_induct) (auto simp: js_set_of_def js_add_def)

lemma decode_encode_flow:
  assumes "flow_maps_ok def"
  shows "decodeFlowDef (encodeFlowDef def) = def"
proof -
  have nodes: "map ((\<lambda>(i, node). (i, decodeNode node)) \<circ> (\<lambda>(i, node). (i, encodeNode node))) (df_nodes def) = df_nodes def"
    using assms by (intro map_idI) (auto simp: flow_maps_ok_def list_all_iff decode_encode_node)
  from assms show ?thesis
    by (simp add: decodeFlowDef_def encodeFlowDef_def nodes flow_maps_ok_def js_of_list_wf js_set_of_distinct)
qed

lemma decoded_flow_ok:
  assumes "js_wf (fj_nodes json)" "\<And>i n. (i, SameNode n) \<in> set (fj_nodes json) \<Longrightarrow> node_maps_ok n"
  shows "flow_maps_ok (decodeFlowDef json)"
proof -
  have "distinct (map fst (map (\<lambda>(i, node). (i, decodeNode node)) (fj_nodes json)))"
    using assms(1) by (simp add: js_wf_def comp_def case_prod_beta)
  note d = this
  then have nodes: "js_of_list (map (\<lambda>(i, node). (i, decodeNode node)) (fj_nodes json)) = map (\<lambda>(i, node). (i, decodeNode node)) (fj_nodes json)"
    by (rule js_of_list_distinct)
  have "node_maps_ok (decodeNode n)" if "(i, n) \<in> set (fj_nodes json)" for i n
    using that assms(2) by (cases n) (auto simp: decodeNode_def node_maps_ok_def)
  with nodes d show ?thesis by (auto simp: flow_maps_ok_def decodeFlowDef_def list_all_iff js_wf_def)
qed

section \<open>Usage of models\<close>

record llm_usage_view =
  totalCalls :: nat
  totalPromptTokens :: real
  totalCompletionTokens :: real
  totalTokens :: real
  totalLatencyMs :: real
  totalToolCalls :: real
  totalGuardrailBlocks :: nat
  totalGuardrailWarns :: nat
  totalFeedback :: nat
  feedbackSum :: real
  tokensByModel :: "(js_val, real) jsmap"
  callsByModel :: "(js_val, nat) jsmap"

definition LLMUsageEmpty :: llm_usage_view where
  "LLMUsageEmpty = \<lparr>totalCalls = 0, totalPromptTokens = 0, totalCompletionTokens = 0, totalTokens = 0, totalLatencyMs = 0,
     totalToolCalls = 0, totalGuardrailBlocks = 0, totalGuardrailWarns = 0, totalFeedback = 0, feedbackSum = 0,
     tokensByModel = [], callsByModel = []\<rparr>"

record node_usage =
  nu_model :: js_val
  nu_prompt :: "real option"
  nu_completion :: "real option"
  nu_total :: "real option"
  nu_latency :: "real option"
  nu_tools :: "real option"

text \<open>A property of a value; an array, a number or a text has none of those read here.\<close>

definition prop_of :: "js_val \<Rightarrow> string \<Rightarrow> js_val" where
  "prop_of v k = (case v of JObj ps \<Rightarrow> (case js_get ps k of Some x \<Rightarrow> x | None \<Rightarrow> JUndefined) | _ \<Rightarrow> JUndefined)"

definition or_else :: "js_val \<Rightarrow> js_val \<Rightarrow> js_val" where
  "or_else a b = (if a = JUndefined \<or> a = JNull then b else a)"

definition numOrUndef :: "js_val \<Rightarrow> real option" where
  "numOrUndef v = (case v of JNum x \<Rightarrow> Some x | _ \<Rightarrow> None)"

definition extractUsage :: "js_val \<Rightarrow> node_usage option" where
  "extractUsage output =
     (if \<not> (case output of JArr xs \<Rightarrow> True | JObj ps \<Rightarrow> True | _ \<Rightarrow> False) then None
      else let usage = or_else (prop_of output ''usage'') output;
               u = \<lparr>nu_model = or_else (prop_of usage ''model'') (prop_of output ''model''),
                    nu_prompt = numOrUndef (prop_of usage ''promptTokens''), nu_completion = numOrUndef (prop_of usage ''completionTokens''),
                    nu_total = numOrUndef (prop_of usage ''totalTokens''), nu_latency = numOrUndef (prop_of usage ''latencyMs''),
                    nu_tools = numOrUndef (prop_of usage ''toolCalls'')\<rparr>
           in if nu_model u = JUndefined \<and> nu_prompt u = None \<and> nu_completion u = None \<and> nu_total u = None \<and> nu_latency u = None
                 \<and> nu_tools u = None
              then None else Some u)"

definition truthy_key :: "js_val \<Rightarrow> bool" where
  "truthy_key v = (case v of JUndefined \<Rightarrow> False | JNull \<Rightarrow> False | JBool b \<Rightarrow> b | JNum x \<Rightarrow> x \<noteq> 0 | JStr s \<Rightarrow> s \<noteq> [] | _ \<Rightarrow> True)"

definition num_or_zero :: "real option \<Rightarrow> real" where
  "num_or_zero x = (case x of Some r \<Rightarrow> r | None \<Rightarrow> 0)"

definition count_usage :: "llm_usage_view \<Rightarrow> node_usage \<Rightarrow> llm_usage_view" where
  "count_usage v0 u =
     (let v1 = v0\<lparr>totalCalls := totalCalls v0 + 1\<rparr>;
          m = nu_model u;
          v2 = (if truthy_key m then v1\<lparr>callsByModel := js_set m ((case js_get (callsByModel v1) m of Some n \<Rightarrow> n | None \<Rightarrow> 0) + 1) (callsByModel v1)\<rparr> else v1);
          v3 = (case nu_total u of
                  Some t \<Rightarrow> if truthy_key m then v2\<lparr>tokensByModel := js_set m (num_or_zero (js_get (tokensByModel v2) m) + t) (tokensByModel v2)\<rparr> else v2
                | None \<Rightarrow> v2)
      in v3\<lparr>totalPromptTokens := totalPromptTokens v3 + num_or_zero (nu_prompt u),
            totalCompletionTokens := totalCompletionTokens v3 + num_or_zero (nu_completion u),
            totalTokens := totalTokens v3 + num_or_zero (nu_total u),
            totalLatencyMs := totalLatencyMs v3 + num_or_zero (nu_latency u),
            totalToolCalls := totalToolCalls v3 + num_or_zero (nu_tools u)\<rparr>)"

fun projectLLMUsage :: "node_flow_event list \<Rightarrow> llm_usage_view \<Rightarrow> llm_usage_view" where
  "projectLLMUsage [] v = v"
| "projectLLMUsage (NodeSucceeded n out # es) v =
     projectLLMUsage es (case extractUsage out of None \<Rightarrow> v | Some u \<Rightarrow> count_usage v u)"
| "projectLLMUsage (e # es) v = projectLLMUsage es v"

text \<open>The usages in a journal.\<close>

definition usages :: "node_flow_event list \<Rightarrow> node_usage list" where
  "usages es = List.map_filter (\<lambda>e. case e of NodeSucceeded n out \<Rightarrow> extractUsage out | _ \<Rightarrow> None) es"

lemma project_folds: "projectLLMUsage es v = foldl count_usage v (usages es)"
  by (induction es v rule: projectLLMUsage.induct) (simp_all add: usages_def List.map_filter_def split: option.split)

lemma project_append: "projectLLMUsage (xs @ ys) v = projectLLMUsage ys (projectLLMUsage xs v)"
  by (simp add: project_folds usages_def List.map_filter_def)

text \<open>The view holds the numbers of the journal: one call per usage, and the tokens of each model are those of its calls.\<close>

lemma usage_counts_step:
  "totalCalls (count_usage v u) = totalCalls v + 1"
  "totalTokens (count_usage v u) = totalTokens v + num_or_zero (nu_total u)"
  "js_get (callsByModel (count_usage v u)) m =
     (if m = nu_model u \<and> truthy_key m then Some ((case js_get (callsByModel v) m of Some n \<Rightarrow> n | None \<Rightarrow> 0) + 1) else js_get (callsByModel v) m)"
  "num_or_zero (js_get (tokensByModel (count_usage v u)) m) =
     num_or_zero (js_get (tokensByModel v) m) + (if m = nu_model u \<and> truthy_key m then num_or_zero (nu_total u) else 0)"
  by (auto simp: count_usage_def Let_def num_or_zero_def split: option.splits)

lemma usage_view_counts:
  fixes es
  defines "v \<equiv> projectLLMUsage es LLMUsageEmpty"
  shows "totalCalls v = length (usages es)"
    and "totalTokens v = (\<Sum>u \<leftarrow> usages es. num_or_zero (nu_total u))"
    and "truthy_key m \<Longrightarrow> (case js_get (callsByModel v) m of Some n \<Rightarrow> n | None \<Rightarrow> 0) = length (filter (\<lambda>u. nu_model u = m) (usages es))"
    and "truthy_key m \<Longrightarrow> num_or_zero (js_get (tokensByModel v) m) = (\<Sum>u \<leftarrow> filter (\<lambda>u. nu_model u = m) (usages es). num_or_zero (nu_total u))"
proof -
  have folds: "totalCalls (foldl count_usage LLMUsageEmpty us) = length us
    \<and> totalTokens (foldl count_usage LLMUsageEmpty us) = (\<Sum>u \<leftarrow> us. num_or_zero (nu_total u))
    \<and> (truthy_key m \<longrightarrow> (case js_get (callsByModel (foldl count_usage LLMUsageEmpty us)) m of Some n \<Rightarrow> n | None \<Rightarrow> 0)
          = length (filter (\<lambda>u. nu_model u = m) us)
        \<and> num_or_zero (js_get (tokensByModel (foldl count_usage LLMUsageEmpty us)) m)
          = (\<Sum>u \<leftarrow> filter (\<lambda>u. nu_model u = m) us. num_or_zero (nu_total u)))" for us
  proof (induction us rule: rev_induct)
    case Nil
    show ?case by (simp add: LLMUsageEmpty_def num_or_zero_def)
  next
    case (snoc u us)
    then show ?case by (auto simp: usage_counts_step)
  qed
  from folds [of "usages es"] show "totalCalls v = length (usages es)"
    "totalTokens v = (\<Sum>u \<leftarrow> usages es. num_or_zero (nu_total u))"
    "truthy_key m \<Longrightarrow> (case js_get (callsByModel v) m of Some n \<Rightarrow> n | None \<Rightarrow> 0) = length (filter (\<lambda>u. nu_model u = m) (usages es))"
    "truthy_key m \<Longrightarrow> num_or_zero (js_get (tokensByModel v) m) = (\<Sum>u \<leftarrow> filter (\<lambda>u. nu_model u = m) (usages es). num_or_zero (nu_total u))"
    by (simp_all add: v_def project_folds)
qed

text \<open>Guardrail and feedback totals have no source: no event changes them.\<close>

lemma guardrail_totals_stay_zero:
  "totalGuardrailBlocks (projectLLMUsage es v) = totalGuardrailBlocks v" "totalFeedback (projectLLMUsage es v) = totalFeedback v"
proof -
  have "totalGuardrailBlocks (foldl count_usage v us) = totalGuardrailBlocks v \<and> totalFeedback (foldl count_usage v us) = totalFeedback v" for us
    by (induction us arbitrary: v) (auto simp: count_usage_def Let_def split: option.split)
  then show "totalGuardrailBlocks (projectLLMUsage es v) = totalGuardrailBlocks v" "totalFeedback (projectLLMUsage es v) = totalFeedback v"
    by (simp_all add: project_folds)
qed

section \<open>The webhook route\<close>

definition hex_val :: "char \<Rightarrow> nat option" where
  "hex_val c =
     (let n = of_char c :: nat
      in if 48 \<le> n \<and> n \<le> 57 then Some (n - 48) else if 97 \<le> n \<and> n \<le> 102 then Some (n - 87)
         else if 65 \<le> n \<and> n \<le> 70 then Some (n - 55) else None)"

text \<open>\<open>Buffer.from(s, "hex")\<close> of a text of pairs of digits.\<close>

fun hex_pairs :: "string \<Rightarrow> string" where
  "hex_pairs (a # b # s) = char_of (16 * the (hex_val a) + the (hex_val b)) # hex_pairs s"
| "hex_pairs s = []"

definition decodeHex :: "string \<Rightarrow> string option" where
  "decodeHex s = (if s = [] \<or> odd (length s) \<or> \<not> list_all (\<lambda>c. hex_val c \<noteq> None) s then None else Some (hex_pairs s))"

text \<open>A digest as lowercase hexadecimal digits.\<close>

definition to_hex :: "string \<Rightarrow> string" where
  "to_hex bs = concat (map (\<lambda>b. [hex_digit (of_char b div 16), hex_digit (of_char b mod 16)]) bs)"

lemma of_hex_digit: "d < 16 \<Longrightarrow> of_char (hex_digit d) = (if d < 10 then 48 + d else 87 + d)"
  by (simp add: hex_digit_def)

lemma of_ascii_lower: "of_char (ascii_lower c) = (let n = of_char c :: nat in if 65 \<le> n \<and> n \<le> 90 then n + 32 else n)"
  by (simp add: ascii_lower_def Let_def)

lemma hex_val_iff:
  assumes "d < 16"
  shows "hex_val c = Some d \<longleftrightarrow> ascii_lower c = hex_digit d"
proof -
  have "ascii_lower c = hex_digit d \<longleftrightarrow> of_char (ascii_lower c) = (of_char (hex_digit d) :: nat)"
    by (metis char_of_char)
  also have "\<dots> \<longleftrightarrow> hex_val c = Some d"
    using assms by (auto simp: of_ascii_lower of_hex_digit hex_val_def Let_def)
  finally show ?thesis ..
qed

lemma hex_val_bound: "hex_val c = Some d \<Longrightarrow> d < 16"
  by (auto simp: hex_val_def Let_def split: if_splits)

lemma byte_of_digits: "h < 16 \<Longrightarrow> l < 16 \<Longrightarrow> b = (char_of (16 * h + l) :: char) \<longleftrightarrow> of_char b div 16 = h \<and> of_char b mod 16 = (l :: nat)"
proof -
  assume "h < 16" "l < 16"
  have "b = (char_of (16 * h + l) :: char) \<longleftrightarrow> of_char b = 16 * h + l"
  proof
    assume "b = char_of (16 * h + l)"
    with \<open>h < 16\<close> \<open>l < 16\<close> show "of_char b = 16 * h + l" by simp
  next
    assume "of_char b = 16 * h + l"
    then show "b = char_of (16 * h + l)" by (metis char_of_char)
  qed
  also have "\<dots> \<longleftrightarrow> of_char b div 16 = h \<and> of_char b mod 16 = l"
    using \<open>l < 16\<close> by auto
  finally show ?thesis .
qed

text \<open>The header that decodes to a digest is its lowercase form up to case.\<close>

lemma hex_pairs_iff:
  "even (length s) \<and> list_all (\<lambda>c. hex_val c \<noteq> None) s \<and> hex_pairs s = bs \<longleftrightarrow> map ascii_lower s = to_hex bs"
proof (induction s arbitrary: bs rule: hex_pairs.induct)
  case (1 a b s)
  have digits: "(\<exists>h l. hex_val a = Some h \<and> hex_val b = Some l \<and> x = (char_of (16 * h + l) :: char))
      \<longleftrightarrow> ascii_lower a = hex_digit (of_char x div 16) \<and> ascii_lower b = hex_digit (of_char x mod 16)" for x
  proof -
    have lt: "of_char x div 16 < (16 :: nat)" "of_char x mod 16 < (16 :: nat)"
      using nat_of_char_less_256 [of x] by (simp_all add: less_mult_imp_div_less)
    have "(\<exists>h l. hex_val a = Some h \<and> hex_val b = Some l \<and> x = (char_of (16 * h + l) :: char))
      \<longleftrightarrow> hex_val a = Some (of_char x div 16) \<and> hex_val b = Some (of_char x mod 16)"
      using byte_of_digits [of _ _ x] hex_val_bound by metis
    with lt show ?thesis by (simp add: hex_val_iff)
  qed
  show ?case
  proof (cases bs)
    case Nil
    then show ?thesis by (simp add: to_hex_def)
  next
    case (Cons x xs)
    have "even (length (a # b # s)) \<and> list_all (\<lambda>c. hex_val c \<noteq> None) (a # b # s) \<and> hex_pairs (a # b # s) = x # xs
        \<longleftrightarrow> (\<exists>h l. hex_val a = Some h \<and> hex_val b = Some l \<and> x = (char_of (16 * h + l) :: char))
            \<and> even (length s) \<and> list_all (\<lambda>c. hex_val c \<noteq> None) s \<and> hex_pairs s = xs"
      by auto
    also have "\<dots> \<longleftrightarrow> map ascii_lower (a # b # s) = to_hex (x # xs)"
      unfolding digits "1.IH" by (auto simp: to_hex_def)
    finally show ?thesis unfolding Cons .
  qed
next
  case "2_1"
  show ?case by (auto simp: to_hex_def)
next
  case "2_2"
  show ?case by (cases bs) (auto simp: to_hex_def)
qed

lemma decodeHex_iff: "decodeHex s = Some bs \<longleftrightarrow> bs \<noteq> [] \<and> map ascii_lower s = to_hex bs"
proof -
  have "decodeHex s = Some bs \<longleftrightarrow> s \<noteq> [] \<and> even (length s) \<and> list_all (\<lambda>c. hex_val c \<noteq> None) s \<and> hex_pairs s = bs"
    by (auto simp: decodeHex_def)
  also have "\<dots> \<longleftrightarrow> s \<noteq> [] \<and> map ascii_lower s = to_hex bs" unfolding hex_pairs_iff [symmetric] by blast
  also have "\<dots> \<longleftrightarrow> bs \<noteq> [] \<and> map ascii_lower s = to_hex bs" by (cases bs; cases s) (auto simp: to_hex_def)
  finally show ?thesis .
qed

record webhook_config =
  wc_resourceId :: string
  wc_flowDef :: node_flow_def
  wc_metadata :: "js_object option"
  wc_secret :: "string option"

text \<open>What \<open>runtime.ask\<close> resolves to: an error, or the reply of the entity if there is one.\<close>

datatype ask_result = AskError | AskReply "node_flow_reply option"

record webhook_env =
  wh_resolve :: "string \<Rightarrow> string + webhook_config option"
  wh_hmac :: "string \<Rightarrow> string \<Rightarrow> string"
  wh_utf8 :: "string \<Rightarrow> string"
  wh_parse :: "string \<Rightarrow> js_val option"
  wh_uuid :: string
  wh_ask :: "string \<Rightarrow> node_flow_command \<Rightarrow> string + ask_result"
  wh_flowIdPrefix :: "string option"

definition signatureValid :: "(string \<Rightarrow> string \<Rightarrow> string) \<Rightarrow> string \<Rightarrow> string \<Rightarrow> string option \<Rightarrow> bool" where
  "signatureValid hmac secret body header =
     (case header of None \<Rightarrow> False
      | Some h \<Rightarrow>
          (case decodeHex h of None \<Rightarrow> False
           | Some provided \<Rightarrow> (let expected = hmac secret body in length provided = length expected \<and> provided = expected)))"

definition error_body :: "string \<Rightarrow> js_val" where
  "error_body msg = JObj [(''error'', JStr msg)]"

text \<open>The question put to the runtime.\<close>

definition webhook_start :: "webhook_env \<Rightarrow> webhook_config \<Rightarrow> js_val \<Rightarrow> string \<times> node_flow_command" where
  "webhook_start env config payload =
     ((case wh_flowIdPrefix env of Some p \<Rightarrow> p | None \<Rightarrow> ''wh'') @ ''-'' @ wc_resourceId config @ ''-'' @ take 8 (wh_uuid env),
      StartFlow (wc_flowDef config)
        (spread [(''webhook'', JObj [(''resourceId'', JStr (wc_resourceId config)), (''payload'', payload)])]
           (case wc_metadata config of Some m \<Rightarrow> m | None \<Rightarrow> [])))"

definition webhook_response :: "string \<Rightarrow> ask_result \<Rightarrow> nat \<times> js_val" where
  "webhook_response flowId r =
     (case r of
        AskReply (Some (Acknowledged i)) \<Rightarrow> (200, JObj [(''flowId'', JStr flowId), (''status'', JStr ''triggered'')])
      | AskReply (Some (FlowError msg)) \<Rightarrow> (400, error_body msg)
      | _ \<Rightarrow> (500, error_body ''Unexpected reply''))"

text \<open>\<open>POST /:resourceId\<close>: the questions asked, and a rejection or the status and body of the response.\<close>

definition webhook_post ::
  "webhook_env \<Rightarrow> string \<Rightarrow> string \<Rightarrow> string option \<Rightarrow> (string \<times> node_flow_command) list \<times> (string + nat \<times> js_val)" where
  "webhook_post env resourceId body header =
     (case wh_resolve env resourceId of
        Inl e \<Rightarrow> ([], Inl e)
      | Inr None \<Rightarrow> ([], Inr (404, error_body (''Webhook not found: '' @ resourceId)))
      | Inr (Some config) \<Rightarrow>
          (if (case wc_secret config of Some secret \<Rightarrow> \<not> signatureValid (wh_hmac env) secret body header | None \<Rightarrow> False)
           then ([], Inr (401, error_body ''Missing or invalid webhook signature''))
           else case wh_parse env (wh_utf8 env body) of
                  None \<Rightarrow> ([], Inr (400, error_body ''Invalid JSON''))
                | Some payload \<Rightarrow>
                    (let (flowId, cmd) = webhook_start env config payload
                     in ([(flowId, cmd)],
                         case wh_ask env flowId cmd of Inl e \<Rightarrow> Inl e | Inr r \<Rightarrow> Inr (webhook_response flowId r)))))"

lemma response_not_401: "webhook_response i r \<noteq> (401, b)"
  by (simp add: webhook_response_def split: ask_result.split option.split node_flow_reply.split)

text \<open>The header is the digest in hexadecimal, up to case.\<close>

definition signed_by :: "string \<Rightarrow> string option \<Rightarrow> bool" where
  "signed_by digest header = (case header of Some h \<Rightarrow> map ascii_lower h = to_hex digest | None \<Rightarrow> False)"

lemma signatureValid_iff:
  assumes "hmac secret body \<noteq> []"
  shows "signatureValid hmac secret body header \<longleftrightarrow> signed_by (hmac secret body) header"
proof (cases header)
  case (Some h)
  then show ?thesis
    using assms decodeHex_iff [of h "hmac secret body"] by (cases "decodeHex h") (auto simp: signatureValid_def signed_by_def Let_def)
qed (simp add: signatureValid_def signed_by_def)

text \<open>
  C33. A webhook with a secret starts a flow for exactly the deliveries that its secret signs: the runtime is asked if and only if
  the header is, up to case, the hexadecimal HMAC of the raw body and the body is JSON. It is asked once, with the flow of the resource and the
  payload in its context under \<open>webhook\<close> unless the configured metadata has that key; any other signature is answered with 401 before the body is read.
\<close>

theorem webhook_starts_signed_deliveries:
  assumes "wh_resolve env rid = Inr (Some config)" "wc_secret config = Some secret" "wh_hmac env secret body \<noteq> []"
    and "signed \<longleftrightarrow> signed_by (wh_hmac env secret body) header"
  shows "fst (webhook_post env rid body header) =
       (case wh_parse env (wh_utf8 env body) of Some payload \<Rightarrow> if signed then [webhook_start env config payload] else [] | None \<Rightarrow> [])
    \<and> (snd (webhook_post env rid body header) = Inr (401, error_body ''Missing or invalid webhook signature'') \<longleftrightarrow> \<not> signed)"
proof (cases signed)
  case True
  then have "signatureValid (wh_hmac env) secret body header" using assms(3,4) by (simp add: signatureValid_iff)
  with True assms(1,2) show ?thesis
    by (auto simp: webhook_post_def case_prod_beta response_not_401 error_body_def split: option.split sum.splits)
next
  case False
  then have "\<not> signatureValid (wh_hmac env) secret body header" using assms(3,4) by (simp add: signatureValid_iff)
  with False assms(1,2) show ?thesis by (simp add: webhook_post_def split: option.split)
qed

text \<open>A delivery to a hook whose digest is one byte and whose flow is acknowledged.\<close>

definition demo_hook :: webhook_env where
  "demo_hook = \<lparr>wh_resolve = \<lambda>r. Inr (Some \<lparr>wc_resourceId = r, wc_flowDef = demo_flow [], wc_metadata = None, wc_secret = Some ''k''\<rparr>),
     wh_hmac = \<lambda>k b. take 1 (k @ b), wh_utf8 = id, wh_parse = \<lambda>s. Some (JStr s), wh_uuid = ''0123456789'',
     wh_ask = \<lambda>i c. Inr (AskReply (Some (Acknowledged ''f''))), wh_flowIdPrefix = None\<rparr>"

theorem webhook_starts_signed_deliveries_witness:
  "map fst (fst (webhook_post demo_hook ''r'' ''x'' (Some ''6B''))) = [''wh-r-01234567''] \<and> fst (webhook_post demo_hook ''r'' ''x'' None) = []"
proof -
  let ?c = "\<lparr>wc_resourceId = ''r'', wc_flowDef = demo_flow [], wc_metadata = None, wc_secret = Some ''k''\<rparr>"
  have h: "wh_resolve demo_hook ''r'' = Inr (Some ?c)" "wc_secret ?c = Some ''k''" "wh_hmac demo_hook ''k'' ''x'' \<noteq> []"
    by (simp_all add: demo_hook_def)
  have "signed_by (wh_hmac demo_hook ''k'' ''x'') (Some ''6B'')" by code_simp
  then have s: "True \<longleftrightarrow> signed_by (wh_hmac demo_hook ''k'' ''x'') (Some ''6B'')" by blast
  have n: "False \<longleftrightarrow> signed_by (wh_hmac demo_hook ''k'' ''x'') None" by (simp add: signed_by_def)
  have p: "wh_parse demo_hook (wh_utf8 demo_hook ''x'') = Some (JStr ''x'')" by (simp add: demo_hook_def)
  have "fst (webhook_start demo_hook ?c (JStr ''x'')) = ''wh-r-01234567''" by code_simp
  with webhook_starts_signed_deliveries [OF h s] webhook_starts_signed_deliveries [OF h n] show ?thesis by (simp add: p)
qed

text \<open>The configured metadata is not merged beside the payload when it has the key \<open>webhook\<close>: it replaces it.\<close>

lemma metadata_replaces_the_payload:
  "wc_metadata config = Some [(''webhook'', x)] \<Longrightarrow> \<exists>i d. webhook_start env config payload = (i, StartFlow d [(''webhook'', x)])"
  by (auto simp: webhook_start_def spread_def)

section \<open>Self inspection\<close>

record 'm inspect_opts =
  io_agentId :: string
  io_flows :: "string + node_flow_def list"
  io_tools :: "string + (string \<times> string) list"
  io_state :: "string + node_flow_state"
  io_capabilities :: "(string + 'm capability list) option"

definition trigger_kind :: "trigger_config \<Rightarrow> string" where
  "trigger_kind t = (case t of Manual \<Rightarrow> ''manual'' | Schedule c \<Rightarrow> ''schedule'' | Webhook p \<Rightarrow> ''webhook''
     | Message a \<Rightarrow> ''message'' | EventTrigger e \<Rightarrow> ''event'')"

definition node_status_text :: "node_status \<Rightarrow> string" where
  "node_status_text s = (case s of NodePending \<Rightarrow> ''pending'' | NodeRunning \<Rightarrow> ''running'' | NodeCompleted \<Rightarrow> ''completed'' | NodeFailed \<Rightarrow> ''failed'')"

definition flow_status_text :: "node_flow_status \<Rightarrow> string" where
  "flow_status_text s = (case s of NotStarted \<Rightarrow> ''not_started'' | FlowRunning \<Rightarrow> ''running'' | FlowCompleted \<Rightarrow> ''completed''
     | FlowFailed \<Rightarrow> ''failed'' | WaitingForInput \<Rightarrow> ''waiting_for_input'')"

definition layer_text :: "capability_layer \<Rightarrow> string" where
  "layer_text l = (case l of Experience \<Rightarrow> ''experience'' | Pattern \<Rightarrow> ''pattern'' | Principle \<Rightarrow> ''principle''
     | Heuristic \<Rightarrow> ''heuristic'' | Procedure \<Rightarrow> ''procedure'')"

definition maturity_text :: "maturity \<Rightarrow> string" where
  "maturity_text m = (case m of Observed \<Rightarrow> ''observed'' | Recurring \<Rightarrow> ''recurring'' | Reliable \<Rightarrow> ''reliable'' | Foundational \<Rightarrow> ''foundational'')"

definition self_inspect :: "(real \<Rightarrow> string) \<Rightarrow> 'm inspect_opts \<Rightarrow> js_val \<Rightarrow> string + mcp_result" where
  "self_inspect num opts input =
     (let query = prop_of input ''query''; agent = (''agentId'', JStr (io_agentId opts))
      in if query = JStr ''tools'' then
           (case io_tools opts of Inl e \<Rightarrow> Inl e
            | Inr ts \<Rightarrow> Inr (tool_success (JObj [agent, (''tools'', JArr (map (\<lambda>(n, d). JObj [(''name'', JStr n), (''description'', JStr d)]) ts))])))
         else if query = JStr ''flows'' then
           (case io_flows opts of Inl e \<Rightarrow> Inl e
            | Inr fs \<Rightarrow> Inr (tool_success (JObj [agent, (''flows'', JArr (map (\<lambda>f. JObj [(''id'', JStr (df_id f)), (''description'', JStr (df_description f)),
                (''tags'', JArr (map JStr (df_tags f))), (''triggerKind'', JStr (trigger_kind (df_trigger f))),
                (''nodeCount'', JNum (real (length (df_nodes f))))]) fs))])))
         else if query = JStr ''state'' then
           (case io_state opts of Inl e \<Rightarrow> Inl e
            | Inr st \<Rightarrow> Inr (tool_success (JObj [agent, (''status'', JStr (flow_status_text (flowStatus st))),
                (''flowDefId'', case flowDefId st of Some i \<Rightarrow> JStr i | None \<Rightarrow> JUndefined), (''activeNodes'', JNum (real (activeNodeCount st))),
                (''waitingNodes'', JArr (map JStr (waitingNodes st))),
                (''nodeStatuses'', JObj (map (\<lambda>(n, s). (n, JStr (node_status_text s))) (nodeStatuses st)))])))
         else if query = JStr ''attributes'' then
           (case io_state opts of Inl e \<Rightarrow> Inl e | Inr st \<Rightarrow> Inr (tool_success (JObj [agent, (''attributes'', JObj (flowContext st))])))
         else if query = JStr ''capabilities'' then
           (case io_capabilities opts of
              None \<Rightarrow> Inr (tool_success (JObj [agent, (''capabilities'', JArr [])]))
            | Some (Inl e) \<Rightarrow> Inl e
            | Some (Inr cs) \<Rightarrow> Inr (tool_success (JObj [agent, (''capabilities'', JArr (map (\<lambda>c. JObj [(''id'', JStr (cap_id c)), (''name'', JStr (cap_name c)),
                (''layer'', JStr (layer_text (layer c))), (''maturity'', JStr (maturity_text (maturity c))), (''content'', JStr (content c))]) cs))])))
         else Inr (tool_failure (''unknown query '' @ [CHR 0x22] @ js_text num query @ [CHR 0x22]
                    @ ''. Supported: tools, flows, state, attributes, capabilities.'')))"

text \<open>It fails exactly on a query it does not know, and reports the attributes of the state it is given.\<close>

lemma self_inspect_fails_iff_unknown:
  assumes "self_inspect num opts input = Inr r"
  shows "mr_success r \<longleftrightarrow> prop_of input ''query'' \<in> JStr ` {''tools'', ''flows'', ''state'', ''attributes'', ''capabilities''}"
  using assms by (auto simp: self_inspect_def Let_def tool_success_def tool_failure_def split: if_splits sum.splits option.splits)

end
