(* ===== verification/Llm_Service.thy ===== *)
theory Llm_Service
  imports Node_Flow_Def
begin

text \<open>
  Language model services: the types of \<open>ai/llm/types.ts\<close>, the interface and its defaults (\<open>llm-service.ts\<close>), the collector of streams
  (\<open>stream-accumulator.ts\<close>) and the service with a budget (\<open>spend-guarded-llm-service.ts\<close>). A service is a record of operations on a
  state of its own; an operation answers or rejects. A stream is the list of chunks that it yields and the error it ends with, if any.
\<close>

section \<open>Types\<close>

datatype chat_role = SystemRole | UserRole | AssistantRole

record chat_message =
  cm_role :: chat_role
  cm_content :: string

record model_options =
  mo_temperature :: real
  mo_maxTokens :: real

record response_schema =
  rs_name :: string
  rs_schema :: js_val
  rs_strict :: "bool option"

record llm_tool =
  lt_name :: string
  lt_description :: string
  lt_parameters :: js_val

record llm_tool_call =
  tc_id :: string
  tc_name :: string
  tc_arguments :: string

datatype llm_response = ContentResponse string | ToolCallsResponse "llm_tool_call list" js_val

record llm_usage =
  us_promptTokens :: real
  us_completionTokens :: real
  us_totalTokens :: real

record llm_cost =
  co_inputCostUsd :: real
  co_outputCostUsd :: real
  co_totalCostUsd :: real

record llm_meta =
  lm_responseId :: string
  lm_model :: string
  lm_usage :: llm_usage
  lm_cost :: "llm_cost option"
  lm_finishReason :: "string option"
  lm_latencyMs :: real

definition LLMUsage_empty :: llm_usage where
  "LLMUsage_empty = \<lparr>us_promptTokens = 0, us_completionTokens = 0, us_totalTokens = 0\<rparr>"

definition LLMResponseMeta_empty :: llm_meta where
  "LLMResponseMeta_empty = \<lparr>lm_responseId = [], lm_model = [], lm_usage = LLMUsage_empty, lm_cost = None, lm_finishReason = None, lm_latencyMs = 0\<rparr>"

datatype llm_chunk = ContentDelta string | ToolCallDelta nat "string option" "string option" string | DoneChunk llm_meta

record spend_budget =
  maxTotalCostUsd :: "real option"
  maxTotalTokens :: "real option"

record spend_state =
  sp_totalCostUsd :: real
  sp_totalTokens :: real
  sp_callCount :: nat

text \<open>The errors a call is rejected with.\<close>

datatype llm_error =
    ProviderError string
  | SpendLimitExceeded spend_budget spend_state
  | GuardrailBlocked string string "string option"
  | RecordingExhausted nat nat string
  | ParseError string

section \<open>Costs\<close>

type_synonym cost_model = "string \<Rightarrow> llm_usage \<Rightarrow> llm_cost option"

definition CostModel_noop :: cost_model where
  "CostModel_noop model usage = None"

definition fromPricing :: "(string, real \<times> real) jsmap \<Rightarrow> cost_model" where
  "fromPricing prices model usage =
     (case (case js_get prices model of Some p \<Rightarrow> Some p | None \<Rightarrow> map_option snd (List.find (\<lambda>(prefix, p). starts_with model prefix) prices)) of
        None \<Rightarrow> None
      | Some (inputPrice, outputPrice) \<Rightarrow>
          (let inputCost = us_promptTokens usage / 1000000 * inputPrice;
               outputCost = us_completionTokens usage / 1000000 * outputPrice
           in Some \<lparr>co_inputCostUsd = inputCost, co_outputCostUsd = outputCost, co_totalCostUsd = inputCost + outputCost\<rparr>))"

fun CostModel_compose :: "cost_model list \<Rightarrow> cost_model" where
  "CostModel_compose [] model usage = None"
| "CostModel_compose (cm # cms) model usage = (case cm model usage of Some r \<Rightarrow> Some r | None \<Rightarrow> CostModel_compose cms model usage)"

lemma compose_first_answer:
  "\<forall>x \<in> set xs. x model usage = None \<Longrightarrow> cm model usage = Some r \<Longrightarrow> CostModel_compose (xs @ cm # ys) model usage = Some r"
  by (induction xs) simp_all

section \<open>The interface\<close>

type_synonym 'a answer = "llm_error + 'a"
type_synonym stream = "llm_chunk list \<times> llm_error option"
type_synonym json_parser = "(js_val \<Rightarrow> js_val answer) option"

record 's llm_service =
  ls_chat :: "chat_message list \<Rightarrow> bool option \<Rightarrow> 's \<Rightarrow> string answer \<times> 's"
  ls_chatJson :: "chat_message list \<Rightarrow> json_parser \<Rightarrow> 's \<Rightarrow> js_val answer \<times> 's"
  ls_chatWithTools :: "js_val list \<Rightarrow> llm_tool list \<Rightarrow> response_schema option \<Rightarrow> model_options option \<Rightarrow> 's \<Rightarrow> llm_response answer \<times> 's"
  ls_chatTracked :: "chat_message list \<Rightarrow> bool option \<Rightarrow> 's \<Rightarrow> (string \<times> llm_meta) answer \<times> 's"
  ls_chatWithToolsTracked ::
    "js_val list \<Rightarrow> llm_tool list \<Rightarrow> response_schema option \<Rightarrow> model_options option \<Rightarrow> 's \<Rightarrow> (llm_response \<times> llm_meta) answer \<times> 's"
  ls_chatStream :: "js_val list \<Rightarrow> llm_tool list \<Rightarrow> response_schema option \<Rightarrow> model_options option \<Rightarrow> 's \<Rightarrow> stream \<times> 's"

text \<open>An answer goes on to a function; a rejection is passed on.\<close>

definition on_answer :: "('a \<Rightarrow> 'b) \<Rightarrow> 'a answer \<times> 's \<Rightarrow> 'b answer \<times> 's" where
  "on_answer f r = (map_sum id f (fst r), snd r)"

lemma on_answer_simps [simp]: "on_answer f (Inl e, s) = (Inl e, s)" "on_answer f (Inr x, s) = (Inr (f x), s)"
  by (simp_all add: on_answer_def)

text \<open>The stream that \<open>withDefaults\<close> makes of a response: the text, or the first tool call.\<close>

definition default_chunk :: "llm_response \<Rightarrow> llm_chunk" where
  "default_chunk r =
     (case r of
        ContentResponse s \<Rightarrow> ContentDelta s
      | ToolCallsResponse calls raw \<Rightarrow>
          (case calls of
             [] \<Rightarrow> ToolCallDelta 0 None None []
           | c # cs \<Rightarrow> ToolCallDelta 0 (Some (tc_id c)) (Some (tc_name c)) (tc_arguments c)))"

definition withDefaults :: "'s llm_service \<Rightarrow> 's llm_service" where
  "withDefaults base =
     (let tracked = (\<lambda>ms json. on_answer (\<lambda>v. (v, LLMResponseMeta_empty)) \<circ> ls_chat base ms json);
          tools_tracked = (\<lambda>ms ts schema cfg. on_answer (\<lambda>v. (v, LLMResponseMeta_empty)) \<circ> ls_chatWithTools base ms ts schema cfg)
      in base\<lparr>ls_chatTracked := tracked, ls_chatWithToolsTracked := tools_tracked,
           ls_chatStream := \<lambda>ms ts schema cfg s.
             (case tools_tracked ms ts schema cfg s of
                (Inl e, s') \<Rightarrow> (([], Some e), s')
              | (Inr (v, m), s') \<Rightarrow> (([default_chunk v, DoneChunk m], None), s'))\<rparr>)"

section \<open>Collecting a stream\<close>

record acc_state =
  ac_content :: string
  ac_toolCalls :: "(nat, string \<times> string \<times> string) jsmap"
  ac_meta :: "llm_meta option"

definition orElse :: "string option \<Rightarrow> string \<Rightarrow> string" where
  "orElse x d = (case x of Some s \<Rightarrow> s | None \<Rightarrow> d)"

definition accumulate :: "acc_state \<Rightarrow> llm_chunk \<Rightarrow> acc_state" where
  "accumulate st chunk =
     (case chunk of
        ContentDelta s \<Rightarrow> st\<lparr>ac_content := ac_content st @ s\<rparr>
      | ToolCallDelta i call_id name delta \<Rightarrow>
          (let (id0, name0, args0) = (case js_get (ac_toolCalls st) i of Some a \<Rightarrow> a | None \<Rightarrow> ([], [], []))
           in st\<lparr>ac_toolCalls := js_set i (orElse call_id id0, orElse name name0, args0 @ delta) (ac_toolCalls st)\<rparr>)
      | DoneChunk m \<Rightarrow> st\<lparr>ac_meta := Some m\<rparr>)"

definition acc_start :: acc_state where
  "acc_start = \<lparr>ac_content = [], ac_toolCalls = [], ac_meta = None\<rparr>"

definition call_json :: "llm_tool_call \<Rightarrow> js_val" where
  "call_json c = JObj [(''id'', JStr (tc_id c)), (''type'', JStr ''function''),
     (''function'', JObj [(''name'', JStr (tc_name c)), (''arguments'', JStr (tc_arguments c))])]"

text \<open>The message that carries calls.\<close>

definition raw_message :: "llm_tool_call list \<Rightarrow> js_val" where
  "raw_message calls = JObj [(''role'', JStr ''assistant''), (''tool_calls'', JArr (map call_json calls))]"

definition collectStream :: "stream \<Rightarrow> (llm_response \<times> llm_meta) answer" where
  "collectStream st =
     (case snd st of
        Some e \<Rightarrow> Inl e
      | None \<Rightarrow>
          (let acc = foldl accumulate acc_start (fst st);
               meta = (case ac_meta acc of Some m \<Rightarrow> m | None \<Rightarrow> LLMResponseMeta_empty)
           in if ac_toolCalls acc \<noteq> []
              then let calls = map (\<lambda>(i, call_id, name, args). \<lparr>tc_id = call_id, tc_name = name, tc_arguments = args\<rparr>) (sort_key fst (ac_toolCalls acc))
                   in Inr (ToolCallsResponse calls (raw_message calls), meta)
              else Inr (ContentResponse (ac_content acc), meta)))"

text \<open>A response as the chunks of one delta per call.\<close>

definition response_chunks :: "llm_response \<Rightarrow> llm_chunk list" where
  "response_chunks r =
     (case r of
        ContentResponse s \<Rightarrow> [ContentDelta s]
      | ToolCallsResponse calls raw \<Rightarrow>
          map (\<lambda>(i, c). ToolCallDelta i (Some (tc_id c)) (Some (tc_name c)) (tc_arguments c)) (zip [0 ..< length calls] calls))"

lemma update_new: "k \<notin> fst ` set m \<Longrightarrow> js_set k v m = m @ [(k, v)]"
  by (induction m) auto

lemma accumulate_calls:
  "n \<le> length calls \<Longrightarrow> foldl accumulate acc_start (map (\<lambda>(i, c). ToolCallDelta i (Some (tc_id c)) (Some (tc_name c)) (tc_arguments c)) (zip [0 ..< n] calls))
   = acc_start\<lparr>ac_toolCalls := map (\<lambda>i. (i, tc_id (calls ! i), tc_name (calls ! i), tc_arguments (calls ! i))) [0 ..< n]\<rparr>"
proof (induction n)
  case 0
  show ?case by (simp add: acc_start_def)
next
  case (Suc n)
  have zip: "zip [0 ..< Suc n] calls = zip [0 ..< n] calls @ [(n, calls ! n)]"
    using Suc.prems by (intro nth_equalityI) (auto simp: nth_append less_Suc_eq)
  have new: "js_get (map (\<lambda>i. (i, tc_id (calls ! i), tc_name (calls ! i), tc_arguments (calls ! i))) [0 ..< n]) n = None"
    by (auto simp: map_of_eq_None_iff)
  let ?d = "\<lambda>(i, c). ToolCallDelta i (Some (tc_id c)) (Some (tc_name c)) (tc_arguments c)"
  let ?m = "\<lambda>n. map (\<lambda>i. (i, tc_id (calls ! i), tc_name (calls ! i), tc_arguments (calls ! i))) [0 ..< n]"
  have set: "js_set n v (?m n) = ?m n @ [(n, v)]" for v by (intro update_new) auto
  have "foldl accumulate acc_start (map ?d (zip [0 ..< Suc n] calls)) = accumulate (acc_start\<lparr>ac_toolCalls := ?m n\<rparr>) (?d (n, calls ! n))"
    unfolding zip using Suc by (simp only: map_append foldl_append list.map foldl.simps Suc_leD)
  also have "\<dots> = acc_start\<lparr>ac_toolCalls := ?m (Suc n)\<rparr>"
    using new set by (simp add: accumulate_def orElse_def)
  finally show ?case .
qed

text \<open>Collecting the chunks of a response gives the response and its metadata, tool calls in order.\<close>

lemma collect_response_chunks:
  assumes "\<And>calls raw. r = ToolCallsResponse calls raw \<Longrightarrow> calls \<noteq> [] \<and> raw = raw_message calls"
  shows "collectStream (response_chunks r @ [DoneChunk m], None) = Inr (r, m)"
proof (cases r)
  case (ContentResponse s)
  then show ?thesis by (simp add: collectStream_def response_chunks_def accumulate_def acc_start_def Let_def)
next
  case (ToolCallsResponse calls raw)
  let ?m = "map (\<lambda>i. (i, tc_id (calls ! i), tc_name (calls ! i), tc_arguments (calls ! i))) [0 ..< length calls]"
  have acc: "foldl accumulate acc_start (response_chunks r @ [DoneChunk m]) = acc_start\<lparr>ac_toolCalls := ?m, ac_meta := Some m\<rparr>"
    using accumulate_calls [of "length calls" calls] by (simp add: ToolCallsResponse response_chunks_def accumulate_def)
  have "sort_key fst ?m = ?m" by (intro sort_key_id_if_sorted) (simp add: comp_def)
  moreover have "map (\<lambda>(i, call_id, name, args). \<lparr>tc_id = call_id, tc_name = name, tc_arguments = args\<rparr>) ?m = calls"
    by (intro nth_equalityI) simp_all
  ultimately show ?thesis using assms [OF ToolCallsResponse]
    by (simp add: collectStream_def acc [unfolded foldl_append foldl.simps] Let_def) (simp add: ToolCallsResponse)
qed

text \<open>The default stream carries the first call only: the others are lost.\<close>

lemma default_stream_drops_calls:
  assumes "fst (ls_chatWithTools base ms ts schema cfg s) = Inr (ToolCallsResponse (c # cs) raw)"
  shows "collectStream (fst (ls_chatStream (withDefaults base) ms ts schema cfg s)) = Inr (ToolCallsResponse [c] (raw_message [c]), LLMResponseMeta_empty)"
  using assms by (cases "ls_chatWithTools base ms ts schema cfg s"; cases c)
    (simp add: withDefaults_def Let_def default_chunk_def collectStream_def accumulate_def acc_start_def orElse_def)

end
