(* ===== verification/Sandbox_Record.thy ===== *)
theory Sandbox_Record
  imports Llm_Service Tool_Registry Node_Guard
begin

text \<open>
  Recording and replaying an agent: \<open>ai/sandbox/{types,errors,recording-llm-service,recording-tool-registry,replay-llm-service,
  replay-tool-registry,simulated-tool-registry}.ts\<close>. The wall clock and the counters of identifiers are a world that the recorders share.
\<close>

section \<open>Recordings\<close>

datatype response_type = ContentType | ToolCallsType

record recorded_llm =
  rl_requestId :: string
  rl_messages :: "js_val list"
  rl_tools :: "string list"
  rl_responseType :: response_type
  rl_content :: "string option"
  rl_toolCalls :: "llm_tool_call list option"
  rl_meta :: llm_meta
  rl_completedAt :: "string option"

record recorded_exec =
  rx_toolCallId :: string
  rx_toolName :: string
  rx_arguments :: js_val
  rx_result :: mcp_result
  rx_latencyMs :: real
  rx_completedAt :: "string option"

text \<open>The clock and the counters: how often each has been read.\<close>

record world =
  wd_time :: nat
  wd_requests :: nat
  wd_execs :: nat

record clocks =
  ck_iso :: "nat \<Rightarrow> string"
  ck_ms :: "nat \<Rightarrow> real"
  ck_num :: "real \<Rightarrow> string"
  ck_parse :: "string \<Rightarrow> js_val option"

definition base36_digit :: "nat \<Rightarrow> char" where
  "base36_digit d = (if d < 10 then char_of (48 + d) else char_of (87 + d))"

fun base36 :: "nat \<Rightarrow> string" where
  "base36 n = (if n < 36 then [base36_digit n] else base36 (n div 36) @ [base36_digit (n mod 36)])"

declare base36.simps [simp del]

section \<open>The recording services\<close>

record 's recorder =
  re_inner :: 's
  re_buffer :: "recorded_llm list"

definition describeResponse :: "llm_response \<Rightarrow> response_type \<times> string option \<times> llm_tool_call list option" where
  "describeResponse v =
     (case v of ContentResponse s \<Rightarrow> (ContentType, Some s, None) | ToolCallsResponse calls raw \<Rightarrow> (ToolCallsType, None, Some calls))"

text \<open>The entry of a call, with the next request id and the next reading of the clock.\<close>

definition push_call :: "clocks \<Rightarrow> (string \<Rightarrow> string \<Rightarrow> recorded_llm) \<Rightarrow> 's recorder \<times> world \<Rightarrow> 's recorder \<times> world" where
  "push_call ck mk rw =
     (let (r, w) = rw
      in (r\<lparr>re_buffer := re_buffer r @ [mk (''req-'' @ base36 (wd_requests w)) (ck_iso ck (wd_time w))]\<rparr>,
          w\<lparr>wd_requests := wd_requests w + 1, wd_time := wd_time w + 1\<rparr>))"

definition role_text :: "chat_role \<Rightarrow> string" where
  "role_text r = (case r of SystemRole \<Rightarrow> ''system'' | UserRole \<Rightarrow> ''user'' | AssistantRole \<Rightarrow> ''assistant'')"

definition message_json :: "chat_message \<Rightarrow> js_val" where
  "message_json m = JObj [(''role'', JStr (role_text (cm_role m))), (''content'', JStr (cm_content m))]"

definition text_call :: "chat_message list \<Rightarrow> string option \<Rightarrow> llm_meta \<Rightarrow> string \<Rightarrow> string \<Rightarrow> recorded_llm" where
  "text_call ms content m rid now = \<lparr>rl_requestId = rid, rl_messages = map message_json ms, rl_tools = [], rl_responseType = ContentType,
     rl_content = content, rl_toolCalls = None, rl_meta = m, rl_completedAt = Some now\<rparr>"

definition tools_call :: "js_val list \<Rightarrow> llm_tool list \<Rightarrow> llm_response \<Rightarrow> llm_meta \<Rightarrow> string \<Rightarrow> string \<Rightarrow> recorded_llm" where
  "tools_call ms ts v m rid now =
     (let (ty, content, calls) = describeResponse v
      in \<lparr>rl_requestId = rid, rl_messages = ms, rl_tools = map lt_name ts, rl_responseType = ty, rl_content = content, rl_toolCalls = calls,
          rl_meta = m, rl_completedAt = Some now\<rparr>)"

text \<open>An answered call of the service inside is recorded, a rejected one is not.\<close>

definition recording ::
  "clocks \<Rightarrow> ('a \<Rightarrow> string \<Rightarrow> string \<Rightarrow> recorded_llm) \<Rightarrow> ('s \<Rightarrow> 'a answer \<times> 's) \<Rightarrow> 's recorder \<times> world \<Rightarrow> 'a answer \<times> 's recorder \<times> world" where
  "recording ck mk op rw =
     (case op (re_inner (fst rw)) of
        (Inl e, s) \<Rightarrow> (Inl e, ((fst rw)\<lparr>re_inner := s\<rparr>, snd rw))
      | (Inr v, s) \<Rightarrow> (Inr v, push_call ck (mk v) ((fst rw)\<lparr>re_inner := s\<rparr>, snd rw)))"

definition stream_text :: "llm_chunk list \<Rightarrow> string" where
  "stream_text cs = concat (map (\<lambda>c. case c of ContentDelta s \<Rightarrow> s | _ \<Rightarrow> []) cs)"

definition last_meta :: "llm_chunk list \<Rightarrow> llm_meta option" where
  "last_meta cs = foldl (\<lambda>m c. case c of DoneChunk x \<Rightarrow> Some x | _ \<Rightarrow> m) None cs"

text \<open>The entry of a stream: the deltas of tool calls are never added to the aggregate.\<close>

definition stream_call :: "js_val list \<Rightarrow> llm_tool list \<Rightarrow> llm_chunk list \<Rightarrow> llm_meta \<Rightarrow> string \<Rightarrow> string \<Rightarrow> recorded_llm" where
  "stream_call ms ts cs m rid now =
     (let content = stream_text cs
      in \<lparr>rl_requestId = rid, rl_messages = ms, rl_tools = map lt_name ts, rl_responseType = (if content \<noteq> [] then ContentType else ToolCallsType),
          rl_content = (if content \<noteq> [] then Some content else None), rl_toolCalls = None, rl_meta = m, rl_completedAt = Some now\<rparr>)"

definition json_content :: "clocks \<Rightarrow> js_val \<Rightarrow> string option" where
  "json_content ck raw = (case raw of JStr s \<Rightarrow> Some s | JUndefined \<Rightarrow> None | _ \<Rightarrow> Some (stringify (ck_num ck) raw))"

definition parsed :: "json_parser \<Rightarrow> js_val \<Rightarrow> js_val answer" where
  "parsed p raw = (case p of Some f \<Rightarrow> f raw | None \<Rightarrow> Inr raw)"

definition RecordingLLMService :: "clocks \<Rightarrow> 's llm_service \<Rightarrow> ('s recorder \<times> world) llm_service" where
  "RecordingLLMService ck inner = \<lparr>
     ls_chat = \<lambda>ms json rw. on_answer fst (recording ck (\<lambda>(v, m). text_call ms (Some v) m) (ls_chatTracked inner ms json) rw),
     ls_chatJson = \<lambda>ms p rw.
       (case recording ck (\<lambda>raw. text_call ms (json_content ck raw) LLMResponseMeta_empty) (ls_chatJson inner ms (Some Inr)) rw of
          (Inl e, rw') \<Rightarrow> (Inl e, rw')
        | (Inr raw, rw') \<Rightarrow> (parsed p raw, rw')),
     ls_chatWithTools = \<lambda>ms ts schema cfg rw.
       on_answer fst (recording ck (\<lambda>(v, m). tools_call ms ts v m) (ls_chatWithToolsTracked inner ms ts schema cfg) rw),
     ls_chatTracked = \<lambda>ms json. recording ck (\<lambda>(v, m). text_call ms (Some v) m) (ls_chatTracked inner ms json),
     ls_chatWithToolsTracked = \<lambda>ms ts schema cfg. recording ck (\<lambda>(v, m). tools_call ms ts v m) (ls_chatWithToolsTracked inner ms ts schema cfg),
     ls_chatStream = \<lambda>ms ts schema cfg rw.
       (let ((cs, e), s) = ls_chatStream inner ms ts schema cfg (re_inner (fst rw)); rw' = ((fst rw)\<lparr>re_inner := s\<rparr>, snd rw)
        in ((cs, e), case (e, last_meta cs) of (None, Some m) \<Rightarrow> push_call ck (stream_call ms ts cs m) rw' | _ \<Rightarrow> rw'))\<rparr>"

section \<open>The replaying service\<close>

record replay =
  rp_calls :: "recorded_llm list"
  rp_cursor :: nat

definition next_call :: "replay \<Rightarrow> recorded_llm answer \<times> replay" where
  "next_call st =
     (if rp_cursor st \<ge> length (rp_calls st) then (Inl (RecordingExhausted (rp_cursor st + 1) (length (rp_calls st)) ''llm''), st)
      else (Inr (rp_calls st ! rp_cursor st), st\<lparr>rp_cursor := rp_cursor st + 1\<rparr>))"

definition content_text :: "recorded_llm \<Rightarrow> string" where
  "content_text c = (case rl_content c of Some s \<Rightarrow> s | None \<Rightarrow> [])"

text \<open>The replayed message holds the calls themselves.\<close>

definition materializeResponse :: "recorded_llm \<Rightarrow> llm_response" where
  "materializeResponse c =
     (if rl_responseType c = ToolCallsType
      then let calls = (case rl_toolCalls c of Some cs \<Rightarrow> cs | None \<Rightarrow> []) in ToolCallsResponse calls (raw_message calls)
      else ContentResponse (content_text c))"

definition replay_chunks :: "recorded_llm \<Rightarrow> llm_chunk list" where
  "replay_chunks c =
     (if rl_responseType c = ContentType then [ContentDelta (content_text c)]
      else case rl_toolCalls c of
             Some calls \<Rightarrow> map (\<lambda>(i, t). ToolCallDelta i (Some (tc_id t)) (Some (tc_name t)) (tc_arguments t)) (zip [0 ..< length calls] calls)
           | None \<Rightarrow> [])
     @ [DoneChunk (rl_meta c)]"

definition replayed_json :: "clocks \<Rightarrow> recorded_llm \<Rightarrow> js_val" where
  "replayed_json ck c = (case ck_parse ck (content_text c) of Some v \<Rightarrow> v | None \<Rightarrow> JStr (content_text c))"

definition ReplayLLMService :: "clocks \<Rightarrow> replay llm_service" where
  "ReplayLLMService ck = \<lparr>
     ls_chat = \<lambda>ms json st. on_answer content_text (next_call st),
     ls_chatJson = \<lambda>ms p st. (case next_call st of (Inl e, st') \<Rightarrow> (Inl e, st') | (Inr c, st') \<Rightarrow> (parsed p (replayed_json ck c), st')),
     ls_chatWithTools = \<lambda>ms ts schema cfg st. on_answer materializeResponse (next_call st),
     ls_chatTracked = \<lambda>ms json st. on_answer (\<lambda>c. (content_text c, rl_meta c)) (next_call st),
     ls_chatWithToolsTracked = \<lambda>ms ts schema cfg st. on_answer (\<lambda>c. (materializeResponse c, rl_meta c)) (next_call st),
     ls_chatStream = \<lambda>ms ts schema cfg st.
       (case next_call st of (Inl e, st') \<Rightarrow> (([], Some e), st') | (Inr c, st') \<Rightarrow> ((replay_chunks c, None), st'))\<rparr>"

section \<open>Tool registries\<close>

text \<open>What an agent uses of a registry. Registering is passed on by the recorder and ignored by the others; looking tools up gives objects, which is not modelled.\<close>

record 't tool_registry =
  tg_definitions :: "'t \<Rightarrow> tool_definition list"
  tg_execute :: "tool_call \<Rightarrow> 't \<Rightarrow> (string + mcp_result) \<times> 't"

fun registry_executeAll :: "'t tool_registry \<Rightarrow> tool_call list \<Rightarrow> 't \<Rightarrow> (string + (tool_call \<times> mcp_result) list) \<times> 't" where
  "registry_executeAll reg [] t = (Inr [], t)"
| "registry_executeAll reg (c # cs) t =
     (case tg_execute reg c t of
        (Inl e, t') \<Rightarrow> (Inl e, t')
      | (Inr r, t') \<Rightarrow> (case registry_executeAll reg cs t' of (Inl e, t'') \<Rightarrow> (Inl e, t'') | (Inr rs, t'') \<Rightarrow> (Inr ((c, r) # rs), t'')))"

record 't tool_recorder =
  tr_inner :: 't
  tr_buffer :: "recorded_exec list"

text \<open>The clock is read before and after the call, and once more for the time of completion.\<close>

definition RecordingToolRegistry :: "clocks \<Rightarrow> 't tool_registry \<Rightarrow> ('t tool_recorder \<times> world) tool_registry" where
  "RecordingToolRegistry ck inner = \<lparr>
     tg_definitions = \<lambda>(r, w). tg_definitions inner (tr_inner r),
     tg_execute = \<lambda>call (r, w).
       (case tg_execute inner call (tr_inner r) of
          (Inl e, t) \<Rightarrow> (Inl e, (r\<lparr>tr_inner := t\<rparr>, w\<lparr>wd_time := wd_time w + 1\<rparr>))
        | (Inr res, t) \<Rightarrow>
            (Inr res, (r\<lparr>tr_inner := t, tr_buffer := tr_buffer r @
                [\<lparr>rx_toolCallId = ''tc-'' @ base36 (wd_execs w), rx_toolName = tl_name call, rx_arguments = tl_arguments call, rx_result = res,
                  rx_latencyMs = ck_ms ck (wd_time w + 1) - ck_ms ck (wd_time w), rx_completedAt = Some (ck_iso ck (wd_time w + 2))\<rparr>]\<rparr>,
              w\<lparr>wd_execs := wd_execs w + 1, wd_time := wd_time w + 3\<rparr>)))\<rparr>"

record replay_tools =
  rt_execs :: "recorded_exec list"
  rt_cursor :: nat

definition replayed_tool :: "string \<Rightarrow> tool_definition" where
  "replayed_tool n = \<lparr>td_name = n, td_description = ''Replayed tool '' @ n, td_inputSchema = JObj [(''type'', JStr ''object'')]\<rparr>"

definition exhausted_text :: "nat \<Rightarrow> nat \<Rightarrow> string" where
  "exhausted_text requested available = ''Recording exhausted: requested tool call #'' @ nat_str requested @ '', only '' @ nat_str available @ '' available.''"

definition ReplayToolRegistry :: "replay_tools tool_registry" where
  "ReplayToolRegistry = \<lparr>
     tg_definitions = \<lambda>st. map replayed_tool (js_set_of (map rx_toolName (rt_execs st))),
     tg_execute = \<lambda>call st.
       (if rt_cursor st \<ge> length (rt_execs st) then (Inl (exhausted_text (rt_cursor st + 1) (length (rt_execs st))), st)
        else (Inr (rx_result (rt_execs st ! rt_cursor st)), st\<lparr>rt_cursor := rt_cursor st + 1\<rparr>))\<rparr>"

type_synonym simulations = "(string, js_val \<Rightarrow> string + mcp_result) jsmap"

definition SimulatedToolRegistry :: "simulations tool_registry" where
  "SimulatedToolRegistry = \<lparr>
     tg_definitions = \<lambda>sims. map (\<lambda>(n, f). \<lparr>td_name = n, td_description = ''Simulated tool '' @ n, td_inputSchema = JObj [(''type'', JStr ''object'')]\<rparr>) sims,
     tg_execute = \<lambda>call sims.
       (case js_get sims (tl_name call) of
          None \<Rightarrow> (Inr (tool_failure (''Tool not simulated: '' @ tl_name call)), sims)
        | Some sim \<Rightarrow> (case sim (tl_arguments call) of Inl e \<Rightarrow> (Inr (tool_failure (''Simulation error: '' @ e)), sims) | Inr r \<Rightarrow> (Inr r, sims)))\<rparr>"

text \<open>A simulation never rejects.\<close>

lemma simulation_answers: "\<not> isl (fst (tg_execute SimulatedToolRegistry call sims))"
  by (simp add: SimulatedToolRegistry_def split: option.split sum.split)

end
