(* ===== verification/Sandbox_Run.thy ===== *)
theory Sandbox_Run
  imports Sandbox_Record "HOL-Library.List_Lexorder" "HOL-Library.Char_ord" "HOL-Library.Product_Lexorder"
begin

text \<open>
  Runs in the sandbox: agents as trees of interactions, the runner (\<open>ai/sandbox/runner.ts\<close>), the recording it builds
  (\<open>recording-builder.ts\<close>), the comparison of runs (\<open>comparison.ts\<close>) and the evaluators (\<open>evaluators/\<close>).
\<close>

section \<open>Agents\<close>

datatype agent_outcome = OutcomeOk | DeniedSecurity | NeedsClarification | Unsupported | InternalError | OutcomeFailed string

datatype llm_question =
    QChat "chat_message list" "bool option"
  | QJson "chat_message list" json_parser
  | QTools "js_val list" "llm_tool list" "response_schema option" "model_options option"
  | QTracked "chat_message list" "bool option"
  | QToolsTracked "js_val list" "llm_tool list" "response_schema option" "model_options option"
  | QStream "js_val list" "llm_tool list" "response_schema option" "model_options option"

datatype llm_reply =
    AText "string answer" | AJson "js_val answer" | AResponse "llm_response answer" | ATracked "(string \<times> llm_meta) answer"
  | AToolsTracked "(llm_response \<times> llm_meta) answer" | AStream stream

definition ask_llm :: "'s llm_service \<Rightarrow> llm_question \<Rightarrow> 's \<Rightarrow> llm_reply \<times> 's" where
  "ask_llm svc q s =
     (case q of
        QChat ms json \<Rightarrow> apfst AText (ls_chat svc ms json s)
      | QJson ms p \<Rightarrow> apfst AJson (ls_chatJson svc ms p s)
      | QTools ms ts schema cfg \<Rightarrow> apfst AResponse (ls_chatWithTools svc ms ts schema cfg s)
      | QTracked ms json \<Rightarrow> apfst ATracked (ls_chatTracked svc ms json s)
      | QToolsTracked ms ts schema cfg \<Rightarrow> apfst AToolsTracked (ls_chatWithToolsTracked svc ms ts schema cfg s)
      | QStream ms ts schema cfg \<Rightarrow> apfst AStream (ls_chatStream svc ms ts schema cfg s))"

text \<open>An agent that calls one service after the other: it ends with a state and an outcome, throws, or asks and goes on with the answer.\<close>

datatype agent =
    Finish js_val "agent_outcome option"
  | Throw string
  | AskLlm llm_question "llm_reply \<Rightarrow> agent"
  | UseTool tool_call "string + mcp_result \<Rightarrow> agent"

primrec run_agent :: "('s \<times> 'w) llm_service \<Rightarrow> ('t \<times> 'w) tool_registry \<Rightarrow> agent \<Rightarrow> 's \<Rightarrow> 't \<Rightarrow> 'w
    \<Rightarrow> (string + js_val \<times> agent_outcome option) \<times> 's \<times> 't \<times> 'w" where
  "run_agent llm reg (Finish v outcome) = (\<lambda>s t w. (Inr (v, outcome), s, t, w))"
| "run_agent llm reg (Throw e) = (\<lambda>s t w. (Inl e, s, t, w))"
| "run_agent llm reg (AskLlm q k) = (\<lambda>s t w. let (a, s', w') = ask_llm llm q (s, w) in run_agent llm reg (k a) s' t w')"
| "run_agent llm reg (UseTool c k) = (\<lambda>s t w. let (r, t', w') = tg_execute reg c (t, w) in run_agent llm reg (k r) s t' w')"

section \<open>Recordings of runs\<close>

datatype interaction = LlmStep recorded_llm | ToolStep recorded_exec

record recording_config =
  rc_model :: string
  rc_provider :: string
  rc_temperature :: real
  rc_maxTokens :: real

record run_metrics =
  rm_totalLLMCalls :: nat
  rm_totalToolCalls :: nat
  rm_totalTokens :: real
  rm_totalLatencyMs :: real
  rm_totalCostUsd :: "real option"

record agent_recording =
  ar_runId :: string
  ar_scenario :: "string option"
  ar_config :: recording_config
  ar_steps :: "interaction list"
  ar_metrics :: run_metrics
  ar_finalState :: js_val
  ar_startedAt :: string
  ar_completedAt :: "string option"

definition completed_at :: "interaction \<Rightarrow> string option" where
  "completed_at s = (case s of LlmStep c \<Rightarrow> rl_completedAt c | ToolStep x \<Rightarrow> rx_completedAt x)"

text \<open>The comparison of the sort, and the key that it orders by.\<close>

definition has_time :: "interaction \<Rightarrow> bool" where
  "has_time s = (case completed_at s of Some t \<Rightarrow> t \<noteq> [] | None \<Rightarrow> False)"

definition time_text :: "interaction \<Rightarrow> string" where
  "time_text s = (case completed_at s of Some t \<Rightarrow> t | None \<Rightarrow> [])"

definition step_compare :: "interaction \<times> nat \<Rightarrow> interaction \<times> nat \<Rightarrow> int" where
  "step_compare a b =
     (if \<not> has_time (fst a) \<and> \<not> has_time (fst b) then int (snd a) - int (snd b)
      else if \<not> has_time (fst a) then 1
      else if \<not> has_time (fst b) then -1
      else if time_text (fst a) < time_text (fst b) then -1
      else if time_text (fst a) > time_text (fst b) then 1
      else int (snd a) - int (snd b))"

definition step_key :: "interaction \<times> nat \<Rightarrow> bool \<times> string \<times> nat" where
  "step_key a = (\<not> has_time (fst a), time_text (fst a), snd a)"

lemma step_compare_key: "step_compare a b < 0 \<longleftrightarrow> step_key a < step_key b" "step_compare a b = 0 \<longleftrightarrow> step_key a = step_key b"
  by (auto simp: step_compare_def step_key_def has_time_def time_text_def less_prod_def split: option.splits if_splits)

definition sortChronologically :: "interaction list \<Rightarrow> interaction list" where
  "sortChronologically steps = map fst (sort_key step_key (zip steps [0 ..< length steps]))"

definition cost_of :: "recorded_llm \<Rightarrow> real option" where
  "cost_of c = map_option co_totalCostUsd (lm_cost (rl_meta c))"

definition metrics_step :: "run_metrics \<Rightarrow> interaction \<Rightarrow> run_metrics" where
  "metrics_step m s =
     (case s of
        LlmStep c \<Rightarrow> m\<lparr>rm_totalLLMCalls := rm_totalLLMCalls m + 1, rm_totalTokens := rm_totalTokens m + us_totalTokens (lm_usage (rl_meta c)),
          rm_totalLatencyMs := rm_totalLatencyMs m + lm_latencyMs (rl_meta c),
          rm_totalCostUsd := (case cost_of c of None \<Rightarrow> rm_totalCostUsd m
             | Some x \<Rightarrow> Some ((case rm_totalCostUsd m of Some y \<Rightarrow> y | None \<Rightarrow> 0) + x))\<rparr>
      | ToolStep x \<Rightarrow> m\<lparr>rm_totalToolCalls := rm_totalToolCalls m + 1, rm_totalLatencyMs := rm_totalLatencyMs m + rx_latencyMs x\<rparr>)"

definition no_metrics :: run_metrics where
  "no_metrics = \<lparr>rm_totalLLMCalls = 0, rm_totalToolCalls = 0, rm_totalTokens = 0, rm_totalLatencyMs = 0, rm_totalCostUsd = None\<rparr>"

definition deriveMetrics :: "interaction list \<Rightarrow> run_metrics" where
  "deriveMetrics steps = foldl metrics_step no_metrics steps"

record recording_builder =
  rb_runId :: string
  rb_config :: recording_config
  rb_startedAt :: string
  rb_scenario :: "string option"
  rb_steps :: "interaction list"
  rb_finalState :: js_val
  rb_completedAt :: "string option"
  rb_metricsOverride :: "run_metrics option"

definition builder_create :: "string \<Rightarrow> recording_config \<Rightarrow> string \<Rightarrow> string option \<Rightarrow> recording_builder" where
  "builder_create i cfg started scenario = \<lparr>rb_runId = i, rb_config = cfg, rb_startedAt = started, rb_scenario = scenario, rb_steps = [],
     rb_finalState = JUndefined, rb_completedAt = None, rb_metricsOverride = None\<rparr>"

definition addStep :: "interaction \<Rightarrow> recording_builder \<Rightarrow> recording_builder" where
  "addStep s b = b\<lparr>rb_steps := rb_steps b @ [s]\<rparr>"

definition withFinalState :: "js_val \<Rightarrow> recording_builder \<Rightarrow> recording_builder" where
  "withFinalState v b = b\<lparr>rb_finalState := v\<rparr>"

definition withCompletedAt :: "string \<Rightarrow> recording_builder \<Rightarrow> recording_builder" where
  "withCompletedAt t b = b\<lparr>rb_completedAt := Some t\<rparr>"

definition withMetrics :: "run_metrics \<Rightarrow> recording_builder \<Rightarrow> recording_builder" where
  "withMetrics m b = b\<lparr>rb_metricsOverride := Some m\<rparr>"

definition builder_build :: "recording_builder \<Rightarrow> agent_recording" where
  "builder_build b =
     (let sorted = sortChronologically (rb_steps b)
      in \<lparr>ar_runId = rb_runId b, ar_scenario = rb_scenario b, ar_config = rb_config b, ar_steps = sorted,
          ar_metrics = (case rb_metricsOverride b of Some m \<Rightarrow> m | None \<Rightarrow> deriveMetrics sorted),
          ar_finalState = rb_finalState b, ar_startedAt = rb_startedAt b, ar_completedAt = rb_completedAt b\<rparr>)"

definition llm_steps :: "interaction list \<Rightarrow> recorded_llm list" where
  "llm_steps steps = List.map_filter (\<lambda>s. case s of LlmStep c \<Rightarrow> Some c | _ \<Rightarrow> None) steps"

definition tool_steps :: "interaction list \<Rightarrow> recorded_exec list" where
  "tool_steps steps = List.map_filter (\<lambda>s. case s of ToolStep x \<Rightarrow> Some x | _ \<Rightarrow> None) steps"

section \<open>The runner\<close>

record expected_outcome =
  eo_finalStatePredicate :: "(js_val \<Rightarrow> string + bool) option"
  eo_mustUseTools :: "string list option"
  eo_mustNotUseTools :: "string list option"
  eo_maxLLMCalls :: "real option"
  eo_maxTokens :: "real option"
  eo_customChecks :: "(string \<times> (js_val \<Rightarrow> string + bool)) list option"

record scenario =
  sc_id :: string
  sc_instruction :: string
  sc_toolSimulations :: "simulations option"
  sc_expectedOutcome :: "expected_outcome option"

record eval_score =
  es_evaluatorName :: string
  es_score :: real
  es_reasoning :: string

type_synonym evaluator = "agent_recording \<Rightarrow> expected_outcome option \<Rightarrow> string + eval_score"

record sandbox_result =
  sr_runId :: string
  sr_scenarioId :: string
  sr_recording :: agent_recording
  sr_scores :: "eval_score list"
  sr_outcome :: "agent_outcome option"
  sr_timestamp :: string

datatype sandbox_mode = Live | Replay agent_recording | Simulated

text \<open>What \<open>SandboxBuilder\<close> has collected, with the state of the services and the clock in base 36.\<close>

record ('s, 't) sandbox =
  sx_loop :: "string \<Rightarrow> agent"
  sx_llm :: "('s llm_service \<times> 's) option"
  sx_tools :: "('t tool_registry \<times> 't) option"
  sx_evaluators :: "evaluator list"
  sx_config :: recording_config
  sx_clocks :: clocks
  sx_now36 :: "nat \<Rightarrow> string"
  sx_runIdCounter :: nat

text \<open>The agent over recorders of two services: its end, the recorded calls and executions, and what became of the services.\<close>

definition run_recorded :: "clocks \<Rightarrow> 's llm_service \<Rightarrow> 't tool_registry \<Rightarrow> agent \<Rightarrow> 's \<Rightarrow> 't \<Rightarrow> world
    \<Rightarrow> (string + js_val \<times> agent_outcome option) \<times> ('s recorder) \<times> ('t tool_recorder) \<times> world" where
  "run_recorded ck llm reg ag s t w =
     run_agent (RecordingLLMService ck llm) (RecordingToolRegistry ck reg) ag \<lparr>re_inner = s, re_buffer = []\<rparr> \<lparr>tr_inner = t, tr_buffer = []\<rparr> w"

fun all_scores :: "evaluator list \<Rightarrow> agent_recording \<Rightarrow> expected_outcome option \<Rightarrow> string + eval_score list" where
  "all_scores [] r e = Inr []"
| "all_scores (ev # evs) r e = (case ev r e of Inl x \<Rightarrow> Inl x | Inr s \<Rightarrow> (case all_scores evs r e of Inl x \<Rightarrow> Inl x | Inr ss \<Rightarrow> Inr (s # ss)))"

text \<open>The end of \<open>runScenario\<close>: the recording is built and evaluated.\<close>

definition finish_run :: "('s, 't) sandbox \<Rightarrow> scenario \<Rightarrow> string \<Rightarrow> string \<Rightarrow> string \<Rightarrow> js_val \<Rightarrow> agent_outcome option
    \<Rightarrow> recorded_llm list \<Rightarrow> recorded_exec list \<Rightarrow> string + sandbox_result" where
  "finish_run sx sc runId startedAt completedAt final outcome calls execs =
     (let b0 = withCompletedAt completedAt (withFinalState final (builder_create runId (sx_config sx) startedAt (Some (sc_id sc))));
          b1 = foldl (\<lambda>b c. addStep (LlmStep c) b) b0 calls;
          b2 = foldl (\<lambda>b x. addStep (ToolStep x) b) b1 execs;
          recording = builder_build b2
      in case all_scores (sx_evaluators sx) recording (sc_expectedOutcome sc) of
           Inl e \<Rightarrow> Inl e
         | Inr scores \<Rightarrow> Inr \<lparr>sr_runId = runId, sr_scenarioId = sc_id sc, sr_recording = recording, sr_scores = scores, sr_outcome = outcome,
             sr_timestamp = completedAt\<rparr>)"

definition genRunId :: "('s, 't) sandbox \<Rightarrow> string \<Rightarrow> world \<Rightarrow> string" where
  "genRunId sx prefix w = prefix @ ''-'' @ sx_now36 sx (wd_time w) @ ''-'' @ base36 (sx_runIdCounter sx + 1)"

definition runScenario :: "('s, 't) sandbox \<Rightarrow> scenario \<Rightarrow> sandbox_mode \<Rightarrow> world \<Rightarrow> (string + sandbox_result) \<times> ('s, 't) sandbox \<times> world" where
  "runScenario sx sc mode w =
     (let runId = genRunId sx (sc_id sc) w; sx' = sx\<lparr>sx_runIdCounter := sx_runIdCounter sx + 1\<rparr>; ck = sx_clocks sx;
          startedAt = ck_iso ck (wd_time w + 1); w1 = w\<lparr>wd_time := wd_time w + 2\<rparr>;
          ag = sx_loop sx (sc_instruction sc);
          ended = (\<lambda>out calls execs w2 sx2.
             (case out of
                Inl e \<Rightarrow> (Inl e, sx2, w2)
              | Inr (final, outcome) \<Rightarrow>
                  (finish_run sx sc runId startedAt (ck_iso ck (wd_time w2)) final outcome calls execs, sx2, w2\<lparr>wd_time := wd_time w2 + 1\<rparr>)))
      in case mode of
           Live \<Rightarrow>
             (case (sx_llm sx, sx_tools sx) of
                (None, _) \<Rightarrow> (Inl ''Live mode requires withLLM(...)'', sx', w1)
              | (Some _, None) \<Rightarrow> (Inl ''Live mode requires withTools(...)'', sx', w1)
              | (Some (llm, s), Some (reg, t)) \<Rightarrow>
                  (let (out, l, x, w2) = run_recorded ck llm reg ag s t w1
                   in ended out (re_buffer l) (tr_buffer x) w2 (sx'\<lparr>sx_llm := Some (llm, re_inner l), sx_tools := Some (reg, tr_inner x)\<rparr>)))
         | Replay rec \<Rightarrow>
             (let (out, l, x, w2) = run_recorded ck (ReplayLLMService ck) ReplayToolRegistry ag
                    \<lparr>rp_calls = llm_steps (ar_steps rec), rp_cursor = 0\<rparr> \<lparr>rt_execs = tool_steps (ar_steps rec), rt_cursor = 0\<rparr> w1
              in ended out (re_buffer l) (tr_buffer x) w2 sx')
         | Simulated \<Rightarrow>
             (case sx_llm sx of
                None \<Rightarrow> (Inl ''Simulated mode requires withLLM(...)'', sx', w1)
              | Some (llm, s) \<Rightarrow>
                  (let (out, l, x, w2) = run_recorded ck llm SimulatedToolRegistry ag s (case sc_toolSimulations sc of Some m \<Rightarrow> m | None \<Rightarrow> []) w1
                   in ended out (re_buffer l) (tr_buffer x) w2 (sx'\<lparr>sx_llm := Some (llm, re_inner l)\<rparr>))))"

section \<open>Comparing runs\<close>

record drift_report =
  dr_stateMatch :: bool
  dr_toolCallOrderMatch :: bool
  dr_totalStepsA :: nat
  dr_totalStepsB :: nat
  dr_divergenceStep :: "nat option"
  dr_details :: "string list"

definition json_text :: "(real \<Rightarrow> string) \<Rightarrow> js_val \<Rightarrow> string option" where
  "json_text num v = (if v = JUndefined then None else Some (stringify num v))"

definition jsonEq :: "(real \<Rightarrow> string) \<Rightarrow> js_val \<Rightarrow> js_val \<Rightarrow> bool" where
  "jsonEq num a b \<longleftrightarrow> json_text num a = json_text num b"

definition response_type_text :: "response_type \<Rightarrow> string" where
  "response_type_text t = (case t of ContentType \<Rightarrow> ''content'' | ToolCallsType \<Rightarrow> ''tool_calls'')"

text \<open>What two steps at the same index differ in.\<close>

definition step_difference :: "(real \<Rightarrow> string) \<Rightarrow> interaction \<Rightarrow> interaction \<Rightarrow> string option" where
  "step_difference num sa sb =
     (case (sa, sb) of
        (ToolStep a, ToolStep b) \<Rightarrow>
          if rx_toolName a \<noteq> rx_toolName b then Some (''toolName '' @ rx_toolName a @ '' vs '' @ rx_toolName b)
          else if \<not> jsonEq num (rx_arguments a) (rx_arguments b) then Some (''tool '' @ rx_toolName a @ '' arguments differ'')
          else None
      | (LlmStep a, LlmStep b) \<Rightarrow>
          if rl_responseType a \<noteq> rl_responseType b
          then Some (''responseType '' @ response_type_text (rl_responseType a) @ '' vs '' @ response_type_text (rl_responseType b)) else None
      | (LlmStep a, ToolStep b) \<Rightarrow> Some ''type mismatch (llmcall vs toolexec)''
      | (ToolStep a, LlmStep b) \<Rightarrow> Some ''type mismatch (toolexec vs llmcall)'')"

fun first_divergence :: "(real \<Rightarrow> string) \<Rightarrow> nat \<Rightarrow> interaction list \<Rightarrow> interaction list \<Rightarrow> (nat \<times> string) option" where
  "first_divergence num i (a # as) (b # bs) =
     (case step_difference num a b of Some d \<Rightarrow> Some (i, ''step '' @ nat_str i @ '': '' @ d) | None \<Rightarrow> first_divergence num (i + 1) as bs)"
| "first_divergence num i _ _ = None"

definition toolCallSequence :: "agent_recording \<Rightarrow> recorded_exec list" where
  "toolCallSequence r = tool_steps (ar_steps r)"

definition compare_runs :: "(real \<Rightarrow> string) \<Rightarrow> agent_recording \<Rightarrow> agent_recording \<Rightarrow> drift_report" where
  "compare_runs num a b =
     (let stateMatch = jsonEq num (ar_finalState a) (ar_finalState b);
          d1 = (if stateMatch then [] else [''finalState differs'']);
          la = length (ar_steps a); lb = length (ar_steps b);
          (div1, d2) = (case first_divergence num 0 (ar_steps a) (ar_steps b) of
             Some (i, d) \<Rightarrow> (Some i, d1 @ [d])
           | None \<Rightarrow> if la \<noteq> lb then (Some (min la lb), d1 @ [''length mismatch: '' @ nat_str la @ '' vs '' @ nat_str lb]) else (None, d1));
          aSeq = map rx_toolName (toolCallSequence a); bSeq = map rx_toolName (toolCallSequence b);
          orderMatch = (length aSeq = length bSeq \<and> list_all (\<lambda>(x, y). x = y) (zip aSeq bSeq));
          d3 = (if orderMatch then d2 else d2 @ [''tool-call order differs: ['' @ join_str '','' aSeq @ ''] vs ['' @ join_str '','' bSeq @ '']''])
      in \<lparr>dr_stateMatch = stateMatch, dr_toolCallOrderMatch = orderMatch, dr_totalStepsA = la, dr_totalStepsB = lb,
          dr_divergenceStep = div1, dr_details = d3\<rparr>)"

record run_summary =
  su_runId :: string
  su_scenarioId :: string
  su_metrics :: run_metrics
  su_scores :: "(string, real) jsmap"

definition summary_of :: "sandbox_result \<Rightarrow> run_summary" where
  "summary_of r = \<lparr>su_runId = sr_runId r, su_scenarioId = sr_scenarioId r, su_metrics = ar_metrics (sr_recording r),
     su_scores = js_of_list (map (\<lambda>s. (es_evaluatorName s, es_score s)) (sr_scores r))\<rparr>"

text \<open>The least and the greatest of the values; no values give zeros.\<close>

definition range_of :: "real list \<Rightarrow> real \<times> real" where
  "range_of xs = (case xs of [] \<Rightarrow> (0, 0) | x # rest \<Rightarrow> (foldl min x rest, foldl max x rest))"

definition compareSummaries :: "sandbox_result list \<Rightarrow> run_summary list \<times> (real \<times> real) \<times> (real \<times> real) \<times> (real \<times> real) \<times> (real \<times> real)" where
  "compareSummaries results =
     (let ss = map summary_of results
      in (ss, range_of (map (rm_totalTokens \<circ> su_metrics) ss), range_of (map (rm_totalLatencyMs \<circ> su_metrics) ss),
          range_of (map (real \<circ> rm_totalToolCalls \<circ> su_metrics) ss), range_of (map (real \<circ> rm_totalLLMCalls \<circ> su_metrics) ss)))"

section \<open>Evaluators\<close>

text \<open>The metadata of a score repeats the numbers of its reasoning and is left out.\<close>

definition score_of :: "string \<Rightarrow> real \<Rightarrow> string \<Rightarrow> string + eval_score" where
  "score_of name s why = Inr \<lparr>es_evaluatorName = name, es_score = s, es_reasoning = why\<rparr>"

definition EfficiencyEvaluator :: "(real \<Rightarrow> string) \<Rightarrow> real \<Rightarrow> evaluator" where
  "EfficiencyEvaluator num defaultBudget r e =
     (let budget = (case Option.bind e eo_maxTokens of Some b \<Rightarrow> b | None \<Rightarrow> defaultBudget); tokens = rm_totalTokens (ar_metrics r)
      in if budget \<le> 0 then score_of ''efficiency'' 0 ''budget non-positive''
         else score_of ''efficiency'' (max 0 (1 - tokens / budget)) (''tokens '' @ num tokens @ ''/'' @ num budget))"

definition LLMCallBudgetEvaluator :: "(real \<Rightarrow> string) \<Rightarrow> real \<Rightarrow> evaluator" where
  "LLMCallBudgetEvaluator num defaultMax r e =
     (let mx = (case Option.bind e eo_maxLLMCalls of Some b \<Rightarrow> b | None \<Rightarrow> defaultMax); calls = real (rm_totalLLMCalls (ar_metrics r))
      in if mx \<le> 0 then score_of ''llm_call_budget'' 0 ''max non-positive''
         else score_of ''llm_call_budget'' (if calls \<le> mx then 1 else max 0 (1 - (calls - mx) / mx)) (''calls '' @ num calls @ ''/'' @ num mx))"

definition OutcomeEvaluator :: evaluator where
  "OutcomeEvaluator r e =
     (case Option.bind e eo_finalStatePredicate of
        None \<Rightarrow> score_of ''outcome'' 1 ''no predicate declared''
      | Some p \<Rightarrow> (case p (ar_finalState r) of
            Inl x \<Rightarrow> Inl x
          | Inr ok \<Rightarrow> score_of ''outcome'' (if ok then 1 else 0) (if ok then ''predicate satisfied'' else ''predicate failed'')))"

definition CustomChecksEvaluator :: evaluator where
  "CustomChecksEvaluator r e =
     (let checks = (case Option.bind e eo_customChecks of Some cs \<Rightarrow> cs | None \<Rightarrow> [])
      in if checks = [] then score_of ''custom_checks'' 1 ''no checks declared''
         else let failed = map fst (filter (\<lambda>(n, check). check (ar_finalState r) \<noteq> Inr True) checks)
              in score_of ''custom_checks'' ((real (length checks) - real (length failed)) / real (length checks))
                   (if failed \<noteq> [] then ''failed: '' @ join_str '', '' failed else ''all passed''))"

definition ToolUsageEvaluator :: evaluator where
  "ToolUsageEvaluator r e =
     (case e of
        None \<Rightarrow> score_of ''tool_usage'' 1 ''no expectations declared''
      | Some ex \<Rightarrow>
          (let used = map rx_toolName (tool_steps (ar_steps r));
               required = (case eo_mustUseTools ex of Some ts \<Rightarrow> ts | None \<Rightarrow> []);
               forbidden = (case eo_mustNotUseTools ex of Some ts \<Rightarrow> ts | None \<Rightarrow> []);
               missing = filter (\<lambda>t. t \<notin> set used) required;
               usedForbidden = filter (\<lambda>t. t \<in> set used) forbidden;
               n = length required; k = length forbidden;
               hits = nat_str (n - length missing) @ ''/'' @ nat_str n;
               requiredScore = real (n - length missing) / real n; forbiddenScore = real (k - length usedForbidden) / real k
           in if n > 0 then
                (if k > 0 then score_of ''tool_usage'' ((requiredScore + forbiddenScore) / 2)
                     (''required '' @ hits @ ''; forbidden '' @ nat_str (length usedForbidden) @ '' used'')
                 else score_of ''tool_usage'' requiredScore (''required '' @ hits))
              else if k > 0 then score_of ''tool_usage'' forbiddenScore (''forbidden '' @ nat_str (length usedForbidden) @ ''/'' @ nat_str k @ '' used'')
              else score_of ''tool_usage'' 1 ''no constraints''))"

section \<open>Benchmarks\<close>

record aggregate_score =
  ag_evaluatorName :: string
  ag_mean :: real
  ag_min :: real
  ag_max :: real
  ag_count :: nat

definition add_score :: "(string, real list) jsmap \<Rightarrow> eval_score \<Rightarrow> (string, real list) jsmap" where
  "add_score m s = js_set (es_evaluatorName s) ((case js_get m (es_evaluatorName s) of Some xs \<Rightarrow> xs | None \<Rightarrow> []) @ [es_score s]) m"

definition aggregateScoresOf :: "sandbox_result list \<Rightarrow> (string, aggregate_score) jsmap" where
  "aggregateScoresOf results =
     map (\<lambda>(n, xs). (n, \<lparr>ag_evaluatorName = n, ag_mean = sum_list xs / real (length xs), ag_min = fst (range_of xs), ag_max = snd (range_of xs),
         ag_count = length xs\<rparr>))
       (foldl add_score [] (concat (map sr_scores results)))"

definition computeFinalScore :: "sandbox_result list \<Rightarrow> real" where
  "computeFinalScore results =
     (let vals = map es_score (concat (map sr_scores results)) in if vals = [] then 0 else sum_list vals / real (length vals))"

record benchmark_report =
  br_results :: "sandbox_result list"
  br_aggregateScores :: "(string, aggregate_score) jsmap"
  br_finalScore :: real
  br_timestamp :: string

fun run_all :: "('s, 't) sandbox \<Rightarrow> scenario list \<Rightarrow> sandbox_mode \<Rightarrow> world \<Rightarrow> (string + sandbox_result list) \<times> ('s, 't) sandbox \<times> world" where
  "run_all sx [] mode w = (Inr [], sx, w)"
| "run_all sx (sc # scs) mode w =
     (case runScenario sx sc mode w of
        (Inl e, sx', w') \<Rightarrow> (Inl e, sx', w')
      | (Inr r, sx', w') \<Rightarrow> (case run_all sx' scs mode w' of (Inl e, sx'', w'') \<Rightarrow> (Inl e, sx'', w'') | (Inr rs, sx'', w'') \<Rightarrow> (Inr (r # rs), sx'', w'')))"

definition runBenchmark :: "('s, 't) sandbox \<Rightarrow> scenario list \<Rightarrow> sandbox_mode \<Rightarrow> world \<Rightarrow> (string + benchmark_report) \<times> ('s, 't) sandbox \<times> world" where
  "runBenchmark sx scs mode w =
     (case run_all sx scs mode w of
        (Inl e, sx', w') \<Rightarrow> (Inl e, sx', w')
      | (Inr rs, sx', w') \<Rightarrow>
          (Inr \<lparr>br_results = rs, br_aggregateScores = aggregateScoresOf rs, br_finalScore = computeFinalScore rs,
                br_timestamp = ck_iso (sx_clocks sx) (wd_time w')\<rparr>, sx', w'\<lparr>wd_time := wd_time w' + 1\<rparr>))"

end
