(* ===== verification/Sandbox_Replay.thy ===== *)
theory Sandbox_Replay
  imports Sandbox_Run "HOL-Library.Multiset"
begin

text \<open>
  A replay in the sandbox gives the run that was recorded: the agent gets the same answers, ends with the same state and outcome, and the
  counts, tokens and costs, provided that the recording holds the answers and the clock does not go back; the comparison of the two
  recordings finds no drift when in neither of them two steps show the same time.
\<close>

section \<open>Faithful answers\<close>

text \<open>What the replay of a recorded call answers to a question.\<close>

definition replay_answer :: "clocks \<Rightarrow> llm_question \<Rightarrow> recorded_llm \<Rightarrow> llm_reply" where
  "replay_answer ck q c =
     (case q of
        QChat ms json \<Rightarrow> AText (Inr (content_text c))
      | QJson ms p \<Rightarrow> AJson (parsed p (replayed_json ck c))
      | QTools ms ts schema cfg \<Rightarrow> AResponse (Inr (materializeResponse c))
      | QTracked ms json \<Rightarrow> ATracked (Inr (content_text c, rl_meta c))
      | QToolsTracked ms ts schema cfg \<Rightarrow> AToolsTracked (Inr (materializeResponse c, rl_meta c))
      | QStream ms ts schema cfg \<Rightarrow> AStream (replay_chunks c, None))"

text \<open>What a recorder writes for a question.\<close>

definition shaped :: "llm_question \<Rightarrow> recorded_llm \<Rightarrow> bool" where
  "shaped q c =
     (case q of
        QChat ms json \<Rightarrow> rl_responseType c = ContentType
      | QTracked ms json \<Rightarrow> rl_responseType c = ContentType
      | QJson ms p \<Rightarrow> rl_responseType c = ContentType \<and> rl_meta c = LLMResponseMeta_empty
      | QStream ms ts schema cfg \<Rightarrow> rl_toolCalls c = None \<and> (rl_responseType c = ContentType \<longleftrightarrow> content_text c \<noteq> [])
      | _ \<Rightarrow> True)"

text \<open>A run over recorders in which every call is recorded as something that replays to its answer, and no tool call is rejected.\<close>

primrec faithful_run :: "clocks \<Rightarrow> 's llm_service \<Rightarrow> 't tool_registry \<Rightarrow> agent \<Rightarrow> 's recorder \<Rightarrow> 't tool_recorder \<Rightarrow> world \<Rightarrow> bool" where
  "faithful_run ck llm reg (Finish v outcome) = (\<lambda>r x w. True)"
| "faithful_run ck llm reg (Throw e) = (\<lambda>r x w. True)"
| "faithful_run ck llm reg (AskLlm q k) = (\<lambda>r x w.
     let (a, r', w') = ask_llm (RecordingLLMService ck llm) q (r, w)
     in re_buffer r' \<noteq> re_buffer r \<and> replay_answer ck q (last (re_buffer r')) = a \<and> faithful_run ck llm reg (k a) r' x w')"
| "faithful_run ck llm reg (UseTool c k) = (\<lambda>r x w.
     let (res, x', w') = tg_execute (RecordingToolRegistry ck reg) c (x, w)
     in \<not> isl res \<and> faithful_run ck llm reg (k res) r x' w')"

lemma recording_pushes:
  assumes "snd (recording ck mk op (r, w)) = (r', w')" "re_buffer r' \<noteq> re_buffer r"
  shows "\<exists>v rid. re_buffer r' = re_buffer r @ [mk v rid (ck_iso ck (wd_time w))] \<and> wd_time w' = wd_time w + 1"
  using assms by (cases "op (re_inner r)"; cases "fst (op (re_inner r))") (auto simp: recording_def push_call_def, blast)

lemma snd_on_answer [simp]: "snd (on_answer f y) = snd y"
  by (simp add: on_answer_def)

text \<open>One question to a recorder: nothing, or one call of the shape of the question, completed at the time of the clock.\<close>

definition recorded_at :: "clocks \<Rightarrow> llm_question \<Rightarrow> 's recorder \<Rightarrow> world \<Rightarrow> 's recorder \<Rightarrow> world \<Rightarrow> bool" where
  "recorded_at ck q r w r' w' \<longleftrightarrow> (\<exists>c. re_buffer r' = re_buffer r @ [c] \<and> shaped q c \<and> rl_completedAt c = Some (ck_iso ck (wd_time w))
     \<and> wd_time w' = wd_time w + 1)"

lemma recorded_atI:
  assumes "snd (recording ck mk op (r, w)) = (r', w')" "re_buffer r' \<noteq> re_buffer r"
    and "\<And>v rid. shaped q (mk v rid (ck_iso ck (wd_time w))) \<and> rl_completedAt (mk v rid (ck_iso ck (wd_time w))) = Some (ck_iso ck (wd_time w))"
  shows "recorded_at ck q r w r' w'"
  using recording_pushes [OF assms(1,2)] assms(3) unfolding recorded_at_def by blast

lemma json_state: "snd (case y of (Inl e, rw) \<Rightarrow> (Inl e, rw) | (Inr raw, rw) \<Rightarrow> (parsed p raw, rw)) = snd y"
  by (simp split: prod.split sum.split)

lemma recorder_step:
  assumes "ask_llm (RecordingLLMService ck llm) q (r, w) = (a, r', w')" "re_buffer r' \<noteq> re_buffer r"
  shows "recorded_at ck q r w r' w'"
proof -
  have st: "snd (ask_llm (RecordingLLMService ck llm) q (r, w)) = (r', w')" by (simp add: assms(1))
  show ?thesis
  proof (cases q)
    case (QStream ms ts schema cfg)
    obtain cs e s where i: "ls_chatStream llm ms ts schema cfg (re_inner r) = ((cs, e), s)" by (metis prod.exhaust)
    from st assms(2) show ?thesis
      by (auto simp: i QStream ask_llm_def RecordingLLMService_def recorded_at_def shaped_def stream_call_def push_call_def content_text_def Let_def
          split: option.splits if_splits)
  qed (use st in \<open>auto simp: ask_llm_def RecordingLLMService_def json_state shaped_def text_call_def tools_call_def
        split: prod.splits intro!: recorded_atI [OF _ assms(2)]\<close>)
qed

text \<open>The same question to a recorder over the replay: the recorded answer, and a call that differs in its time and number only.\<close>

definition same_call :: "recorded_llm \<Rightarrow> recorded_llm \<Rightarrow> bool" where
  "same_call a b \<longleftrightarrow> rl_responseType a = rl_responseType b \<and> rl_meta a = rl_meta b"

definition replays_to :: "clocks \<Rightarrow> llm_question \<Rightarrow> recorded_llm \<Rightarrow> recorded_llm list \<Rightarrow> recorded_llm list \<Rightarrow> recorded_llm list \<Rightarrow> world
    \<Rightarrow> llm_reply \<times> replay recorder \<times> world \<Rightarrow> bool" where
  "replays_to ck q c pre post b w res \<longleftrightarrow>
     (\<exists>c' w'. res = (replay_answer ck q c, \<lparr>re_inner = \<lparr>rp_calls = pre @ c # post, rp_cursor = length pre + 1\<rparr>, re_buffer = b @ [c']\<rparr>, w')
        \<and> same_call c c' \<and> rl_completedAt c' = Some (ck_iso ck (wd_time w)) \<and> wd_time w' = wd_time w + 1)"

lemma replay_step:
  assumes "shaped q c"
  shows "replays_to ck q c pre post b w (ask_llm (RecordingLLMService ck (ReplayLLMService ck)) q
      (\<lparr>re_inner = \<lparr>rp_calls = pre @ c # post, rp_cursor = length pre\<rparr>, re_buffer = b\<rparr>, w))"
proof -
  have nx: "next_call \<lparr>rp_calls = pre @ c # post, rp_cursor = length pre\<rparr> = (Inr c, \<lparr>rp_calls = pre @ c # post, rp_cursor = length pre + 1\<rparr>)"
    by (simp add: next_call_def)
  have ty: "rl_responseType c = ToolCallsType \<longleftrightarrow> rl_responseType c \<noteq> ContentType" by (cases "rl_responseType c") simp_all
  show ?thesis
  proof (cases q)
    case (QStream ms ts schema cfg)
    have "stream_text (replay_chunks c) = (if rl_responseType c = ContentType then content_text c else [])"
      "last_meta (replay_chunks c) = Some (rl_meta c)"
      using assms by (auto simp: QStream shaped_def replay_chunks_def stream_text_def last_meta_def split: option.splits)
    with assms ty show ?thesis
      by (auto simp: QStream nx ask_llm_def RecordingLLMService_def ReplayLLMService_def replay_answer_def push_call_def shaped_def same_call_def
          stream_call_def replays_to_def Let_def)
  next
    case (QJson ms p)
    have "ls_chatJson (ReplayLLMService ck) ms (Some Inr) \<lparr>rp_calls = pre @ c # post, rp_cursor = length pre\<rparr>
      = (Inr (replayed_json ck c), \<lparr>rp_calls = pre @ c # post, rp_cursor = length pre + 1\<rparr>)"
      by (simp add: ReplayLLMService_def nx parsed_def)
    with assms show ?thesis
      by (auto simp: QJson ask_llm_def RecordingLLMService_def replay_answer_def recording_def push_call_def shaped_def same_call_def text_call_def
          replays_to_def)
  qed (use assms ty in \<open>auto simp: nx ask_llm_def RecordingLLMService_def ReplayLLMService_def replay_answer_def recording_def push_call_def shaped_def
          same_call_def text_call_def tools_call_def materializeResponse_def describeResponse_def replays_to_def Let_def\<close>)
qed

section \<open>The run and its replay\<close>

lemma llm_steps_simps [simp]:
  "llm_steps [] = []" "llm_steps (LlmStep c # G) = c # llm_steps G" "llm_steps (ToolStep x # G) = llm_steps G" "llm_steps (G @ H) = llm_steps G @ llm_steps H"
  by (simp_all add: llm_steps_def List.map_filter_def)

lemma tool_steps_simps [simp]:
  "tool_steps [] = []" "tool_steps (LlmStep c # G) = tool_steps G" "tool_steps (ToolStep x # G) = x # tool_steps G" "tool_steps (G @ H) = tool_steps G @ tool_steps H"
  by (simp_all add: tool_steps_def List.map_filter_def)

text \<open>Steps that were completed one after the other, between two readings of the clock.\<close>

fun timed :: "clocks \<Rightarrow> nat \<Rightarrow> nat \<Rightarrow> interaction list \<Rightarrow> bool" where
  "timed ck lo hi [] = (lo \<le> hi)"
| "timed ck lo hi (s # ss) = (\<exists>t. lo \<le> t \<and> completed_at s = Some (ck_iso ck t) \<and> timed ck (t + 1) hi ss)"

lemma timed_earlier: "timed ck lo hi G \<Longrightarrow> lo' \<le> lo \<Longrightarrow> timed ck lo' hi G"
  by (cases G) (auto intro: le_trans)

definition same_exec :: "recorded_exec \<Rightarrow> recorded_exec \<Rightarrow> bool" where
  "same_exec a b \<longleftrightarrow> rx_toolName a = rx_toolName b \<and> rx_arguments a = rx_arguments b \<and> rx_result a = rx_result b"

fun same_interaction :: "interaction \<Rightarrow> interaction \<Rightarrow> bool" where
  "same_interaction (LlmStep a) (LlmStep b) = same_call a b"
| "same_interaction (ToolStep a) (ToolStep b) = same_exec a b"
| "same_interaction _ _ = False"

lemma tool_recorder_step:
  assumes "tg_execute (RecordingToolRegistry ck reg) c (x, w) = (Inr res, x', w')"
  obtains e where "tr_buffer x' = tr_buffer x @ [e]" "rx_toolName e = tl_name c" "rx_arguments e = tl_arguments c" "rx_result e = res"
    "rx_completedAt e = Some (ck_iso ck (wd_time w + 2))" "wd_time w' = wd_time w + 3"
  using assms by (auto simp: RecordingToolRegistry_def split: prod.splits sum.splits)

definition replayed_exec :: "clocks \<Rightarrow> recorded_exec \<Rightarrow> recorded_exec list \<Rightarrow> recorded_exec list \<Rightarrow> recorded_exec list \<Rightarrow> world
    \<Rightarrow> (string + mcp_result) \<times> replay_tools tool_recorder \<times> world \<Rightarrow> bool" where
  "replayed_exec ck e pre post y w res \<longleftrightarrow>
     (\<exists>e' w'. res = (Inr (rx_result e), \<lparr>tr_inner = \<lparr>rt_execs = pre @ e # post, rt_cursor = length pre + 1\<rparr>, tr_buffer = y @ [e']\<rparr>, w')
        \<and> same_exec e e' \<and> rx_completedAt e' = Some (ck_iso ck (wd_time w + 2)) \<and> wd_time w' = wd_time w + 3)"

lemma replay_exec_step:
  assumes "rx_toolName e = tl_name c" "rx_arguments e = tl_arguments c"
  shows "replayed_exec ck e pre post y w (tg_execute (RecordingToolRegistry ck ReplayToolRegistry) c
      (\<lparr>tr_inner = \<lparr>rt_execs = pre @ e # post, rt_cursor = length pre\<rparr>, tr_buffer = y\<rparr>, w))"
  using assms by (auto simp: RecordingToolRegistry_def ReplayToolRegistry_def replayed_exec_def same_exec_def)

definition replayed :: "clocks \<Rightarrow> agent \<Rightarrow> string + js_val \<times> agent_outcome option \<Rightarrow> interaction list \<Rightarrow> recorded_llm list \<Rightarrow> recorded_llm list
    \<Rightarrow> recorded_exec list \<Rightarrow> recorded_exec list \<Rightarrow> recorded_llm list \<Rightarrow> recorded_exec list \<Rightarrow> world \<Rightarrow> bool" where
  "replayed ck ag out G pre post pre' post' b y v \<longleftrightarrow>
     (\<exists>G' v'. run_agent (RecordingLLMService ck (ReplayLLMService ck)) (RecordingToolRegistry ck ReplayToolRegistry) ag
          \<lparr>re_inner = \<lparr>rp_calls = pre @ llm_steps G @ post, rp_cursor = length pre\<rparr>, re_buffer = b\<rparr>
          \<lparr>tr_inner = \<lparr>rt_execs = pre' @ tool_steps G @ post', rt_cursor = length pre'\<rparr>, tr_buffer = y\<rparr> v
        = (out, \<lparr>re_inner = \<lparr>rp_calls = pre @ llm_steps G @ post, rp_cursor = length pre + length (llm_steps G)\<rparr>, re_buffer = b @ llm_steps G'\<rparr>,
           \<lparr>tr_inner = \<lparr>rt_execs = pre' @ tool_steps G @ post', rt_cursor = length pre' + length (tool_steps G)\<rparr>, tr_buffer = y @ tool_steps G'\<rparr>, v')
        \<and> timed ck (wd_time v) (wd_time v') G' \<and> list_all2 same_interaction G G')"

lemma replayed_ask:
  assumes "shaped q c" "replay_answer ck q c = a" "\<And>pre post pre' post' b y v. replayed ck (k a) out G pre post pre' post' b y v"
  shows "replayed ck (AskLlm q k) out (LlmStep c # G) pre post pre' post' b y v"
proof -
  from replay_step [OF assms(1), of ck pre "llm_steps G @ post" b v]
  obtain c' v1 where s: "ask_llm (RecordingLLMService ck (ReplayLLMService ck)) q
      (\<lparr>re_inner = \<lparr>rp_calls = pre @ c # llm_steps G @ post, rp_cursor = length pre\<rparr>, re_buffer = b\<rparr>, v)
      = (a, \<lparr>re_inner = \<lparr>rp_calls = pre @ c # llm_steps G @ post, rp_cursor = length pre + 1\<rparr>, re_buffer = b @ [c']\<rparr>, v1)"
    and c': "same_call c c'" "rl_completedAt c' = Some (ck_iso ck (wd_time v))" "wd_time v1 = wd_time v + 1"
    unfolding replays_to_def assms(2) by blast
  from assms(3) [of "pre @ [c]" post pre' post' "b @ [c']" y v1] obtain G' v' where
    r: "run_agent (RecordingLLMService ck (ReplayLLMService ck)) (RecordingToolRegistry ck ReplayToolRegistry) (k a)
          \<lparr>re_inner = \<lparr>rp_calls = pre @ c # llm_steps G @ post, rp_cursor = length pre + 1\<rparr>, re_buffer = b @ [c']\<rparr>
          \<lparr>tr_inner = \<lparr>rt_execs = pre' @ tool_steps G @ post', rt_cursor = length pre'\<rparr>, tr_buffer = y\<rparr> v1
        = (out, \<lparr>re_inner = \<lparr>rp_calls = pre @ c # llm_steps G @ post, rp_cursor = length pre + 1 + length (llm_steps G)\<rparr>, re_buffer = b @ c' # llm_steps G'\<rparr>,
           \<lparr>tr_inner = \<lparr>rt_execs = pre' @ tool_steps G @ post', rt_cursor = length pre' + length (tool_steps G)\<rparr>, tr_buffer = y @ tool_steps G'\<rparr>, v')"
    and g: "timed ck (wd_time v1) (wd_time v') G'" "list_all2 same_interaction G G'"
    unfolding replayed_def by auto
  have "timed ck (wd_time v) (wd_time v') (LlmStep c' # G')" using g(1) c' by (auto simp: completed_at_def)
  moreover have "list_all2 same_interaction (LlmStep c # G) (LlmStep c' # G')" using g(2) c' by simp
  ultimately show ?thesis unfolding replayed_def
    by (intro exI [of _ "LlmStep c' # G'"] exI [of _ v']) (simp add: s r [simplified])
qed

lemma replayed_tool:
  assumes "rx_toolName e = tl_name c" "rx_arguments e = tl_arguments c"
    and "\<And>pre post pre' post' b y v. replayed ck (k (Inr (rx_result e))) out G pre post pre' post' b y v"
  shows "replayed ck (UseTool c k) out (ToolStep e # G) pre post pre' post' b y v"
proof -
  from replay_exec_step [OF assms(1,2), of ck pre' "tool_steps G @ post'" y v]
  obtain e' v1 where s: "tg_execute (RecordingToolRegistry ck ReplayToolRegistry) c
      (\<lparr>tr_inner = \<lparr>rt_execs = pre' @ e # tool_steps G @ post', rt_cursor = length pre'\<rparr>, tr_buffer = y\<rparr>, v)
      = (Inr (rx_result e), \<lparr>tr_inner = \<lparr>rt_execs = pre' @ e # tool_steps G @ post', rt_cursor = length pre' + 1\<rparr>, tr_buffer = y @ [e']\<rparr>, v1)"
    and e': "same_exec e e'" "rx_completedAt e' = Some (ck_iso ck (wd_time v + 2))" "wd_time v1 = wd_time v + 3"
    unfolding replayed_exec_def by blast
  from assms(3) [of pre post "pre' @ [e]" post' b "y @ [e']" v1] obtain G' v' where
    r: "run_agent (RecordingLLMService ck (ReplayLLMService ck)) (RecordingToolRegistry ck ReplayToolRegistry) (k (Inr (rx_result e)))
          \<lparr>re_inner = \<lparr>rp_calls = pre @ llm_steps G @ post, rp_cursor = length pre\<rparr>, re_buffer = b\<rparr>
          \<lparr>tr_inner = \<lparr>rt_execs = pre' @ e # tool_steps G @ post', rt_cursor = length pre' + 1\<rparr>, tr_buffer = y @ [e']\<rparr> v1
        = (out, \<lparr>re_inner = \<lparr>rp_calls = pre @ llm_steps G @ post, rp_cursor = length pre + length (llm_steps G)\<rparr>, re_buffer = b @ llm_steps G'\<rparr>,
           \<lparr>tr_inner = \<lparr>rt_execs = pre' @ e # tool_steps G @ post', rt_cursor = length pre' + 1 + length (tool_steps G)\<rparr>, tr_buffer = y @ e' # tool_steps G'\<rparr>, v')"
    and g: "timed ck (wd_time v1) (wd_time v') G'" "list_all2 same_interaction G G'"
    unfolding replayed_def by auto
  have "timed ck (wd_time v) (wd_time v') (ToolStep e' # G')" using g(1) e' by (auto simp: completed_at_def eval_nat_numeral intro!: exI [of _ "wd_time v + 2"])
  moreover have "list_all2 same_interaction (ToolStep e # G) (ToolStep e' # G')" using g(2) e' by simp
  ultimately show ?thesis unfolding replayed_def
    by (intro exI [of _ "ToolStep e' # G'"] exI [of _ v']) (simp add: s r [simplified])
qed

text \<open>A faithful run leaves the trace of its steps, and every replay over recordings that hold them runs alike.\<close>

lemma faithful_run_replays:
  assumes "run_agent (RecordingLLMService ck llm) (RecordingToolRegistry ck reg) ag r x w = (out, r1, x1, w1)" "faithful_run ck llm reg ag r x w"
  shows "\<exists>G. re_buffer r1 = re_buffer r @ llm_steps G \<and> tr_buffer x1 = tr_buffer x @ tool_steps G \<and> timed ck (wd_time w) (wd_time w1) G
    \<and> (\<forall>pre post pre' post' b y v. replayed ck ag out G pre post pre' post' b y v)"
  using assms
proof (induction ag arbitrary: r x w)
  case (Finish v outcome)
  then show ?case by (intro exI [of _ "[]"]) (auto simp: replayed_def intro!: exI [of _ "[]"])
next
  case (Throw e)
  then show ?case by (intro exI [of _ "[]"]) (auto simp: replayed_def intro!: exI [of _ "[]"])
next
  case (AskLlm q k)
  obtain a r' w' where s: "ask_llm (RecordingLLMService ck llm) q (r, w) = (a, r', w')" by (metis prod.exhaust)
  from AskLlm.prems(2) have f: "re_buffer r' \<noteq> re_buffer r" "replay_answer ck q (last (re_buffer r')) = a" "faithful_run ck llm reg (k a) r' x w'"
    by (simp_all add: s)
  from recorder_step [OF s f(1)] obtain c where c: "re_buffer r' = re_buffer r @ [c]" "shaped q c" "rl_completedAt c = Some (ck_iso ck (wd_time w))"
    "wd_time w' = wd_time w + 1" unfolding recorded_at_def by blast
  from AskLlm.prems(1) have "run_agent (RecordingLLMService ck llm) (RecordingToolRegistry ck reg) (k a) r' x w' = (out, r1, x1, w1)" by (simp add: s)
  from AskLlm.IH [OF rangeI this f(3)] obtain G where G: "re_buffer r1 = re_buffer r' @ llm_steps G" "tr_buffer x1 = tr_buffer x @ tool_steps G"
    "timed ck (wd_time w') (wd_time w1) G" "\<And>pre post pre' post' b y v. replayed ck (k a) out G pre post pre' post' b y v" by blast
  from c f(2) have "replay_answer ck q c = a" by simp
  from replayed_ask [where k = k and a = a, OF c(2) this G(4)]
  have "\<forall>pre post pre' post' b y v. replayed ck (AskLlm q k) out (LlmStep c # G) pre post pre' post' b y v" by blast
  then show ?case using G(1-3) c by (intro exI [of _ "LlmStep c # G"]) (auto simp: completed_at_def)
next
  case (UseTool c k)
  obtain res x' w' where s: "tg_execute (RecordingToolRegistry ck reg) c (x, w) = (res, x', w')" by (metis prod.exhaust)
  from UseTool.prems(2) have "\<not> isl res" and f: "faithful_run ck llm reg (k res) r x' w'" by (simp_all add: s)
  then obtain v where v: "res = Inr v" by (cases res) auto
  from tool_recorder_step [OF s [unfolded v]] obtain e where e: "tr_buffer x' = tr_buffer x @ [e]" "rx_toolName e = tl_name c"
    "rx_arguments e = tl_arguments c" "rx_result e = v" "rx_completedAt e = Some (ck_iso ck (wd_time w + 2))" "wd_time w' = wd_time w + 3" by blast
  from UseTool.prems(1) have "run_agent (RecordingLLMService ck llm) (RecordingToolRegistry ck reg) (k res) r x' w' = (out, r1, x1, w1)" by (simp add: s)
  from UseTool.IH [OF rangeI this f] obtain G where G: "re_buffer r1 = re_buffer r @ llm_steps G" "tr_buffer x1 = tr_buffer x' @ tool_steps G"
    "timed ck (wd_time w') (wd_time w1) G" "\<And>pre post pre' post' b y v. replayed ck (k res) out G pre post pre' post' b y v" by blast
  from replayed_tool [where k = k, OF e(2,3) G(4) [unfolded v, folded e(4)]]
  have "\<forall>pre post pre' post' b y v. replayed ck (UseTool c k) out (ToolStep e # G) pre post pre' post' b y v" by blast
  moreover have "timed ck (wd_time w) (wd_time w1) (ToolStep e # G)"
    using G(3) e by (auto simp: completed_at_def eval_nat_numeral intro!: exI [of _ "wd_time w + 2"])
  ultimately show ?case using G(1,2) e by (intro exI [of _ "ToolStep e # G"]) simp
qed

section \<open>The order of the recorded steps\<close>

text \<open>A clock that does not go back; its text is never empty. It may show one time for many readings.\<close>

definition steady :: "clocks \<Rightarrow> bool" where
  "steady ck \<longleftrightarrow> (\<forall>i. ck_iso ck i \<noteq> []) \<and> (\<forall>i j. i \<le> j \<longrightarrow> ck_iso ck i \<le> ck_iso ck j)"

text \<open>What the builder is given: the calls, then the executions.\<close>

definition collected :: "interaction list \<Rightarrow> interaction list" where
  "collected G = map LlmStep (llm_steps G) @ map ToolStep (tool_steps G)"

lemma mset_collected: "mset (collected G) = mset G"
proof (induction G)
  case (Cons s G)
  then show ?case by (cases s) (simp_all add: collected_def)
qed (simp add: collected_def)

lemma timed_texts: "timed ck lo hi G \<Longrightarrow> steady ck \<Longrightarrow> list_all has_time G \<and> sorted (map time_text G) \<and> (\<forall>s \<in> set G. ck_iso ck lo \<le> time_text s)"
proof (induction G arbitrary: lo)
  case (Cons s G)
  from Cons.prems(1) obtain t where t: "lo \<le> t" "completed_at s = Some (ck_iso ck t)" "timed ck (t + 1) hi G" by auto
  from Cons.IH [OF t(3) Cons.prems(2)] have ih: "list_all has_time G" "sorted (map time_text G)" "\<forall>s \<in> set G. ck_iso ck (t + 1) \<le> time_text s" by simp_all
  have le: "ck_iso ck lo \<le> ck_iso ck t" "ck_iso ck t \<le> ck_iso ck (t + 1)" "ck_iso ck t \<noteq> []" using Cons.prems(2) t(1) by (simp_all add: steady_def)
  have s: "time_text s = ck_iso ck t" "has_time s" using t(2) le(3) by (simp_all add: time_text_def has_time_def)
  have "ck_iso ck t \<le> time_text x" "ck_iso ck lo \<le> time_text x" if "x \<in> set G" for x using ih(3) le that by (blast intro: order_trans)+
  with s ih le show ?case by simp
qed simp

lemma mset_sortChronologically: "mset (sortChronologically S) = mset S"
proof -
  have "mset (sortChronologically S) = mset (map fst (zip S [0 ..< length S]))"
    by (simp only: sortChronologically_def mset_map mset_sort)
  then show ?thesis by simp
qed

lemma fst_in_zip: "z \<in> set (zip xs ys) \<Longrightarrow> fst z \<in> set xs \<and> snd z \<in> set ys"
  by (cases z) (auto dest: set_zip_leftD set_zip_rightD)

lemma sorted_time:
  assumes "list_all has_time S"
  shows "sorted (map time_text (sortChronologically S))"
proof -
  let ?Z = "sort_key step_key (zip S [0 ..< length S])"
  have h: "has_time (fst z)" if "z \<in> set ?Z" for z
  proof -
    from that have "fst z \<in> set S" by (auto dest: fst_in_zip)
    with assms show ?thesis by (simp add: list_all_iff)
  qed
  have "sorted (map step_key ?Z)" by simp
  then have "sorted_wrt (\<lambda>a b. step_key a \<le> step_key b) ?Z" by (simp add: sorted_map)
  then have "sorted_wrt (\<lambda>a b. time_text (fst a) \<le> time_text (fst b)) ?Z"
    by (rule sorted_wrt_mono_rel [rotated]) (auto simp: step_key_def h less_eq_prod_def)
  then show ?thesis by (simp add: sortChronologically_def sorted_map sorted_wrt_map)
qed

text \<open>Steps that show different times are sorted into the order in which they happened.\<close>

lemma sorted_by_happening:
  assumes "timed ck lo hi G" "steady ck" "distinct (map time_text (sortChronologically (collected G)))"
  shows "sortChronologically (collected G) = G"
proof -
  let ?S = "sortChronologically (collected G)"
  have m: "mset ?S = mset G" by (simp add: mset_sortChronologically mset_collected)
  have tt: "list_all has_time G" "sorted (map time_text G)" using timed_texts [OF assms(1,2)] by simp_all
  have "mset (map time_text ?S) = mset (map time_text G)" using m by simp
  then have dt: "distinct (map time_text G)" using assms(3) by (metis mset_eq_imp_distinct_iff)
  have s: "set ?S = set G" using m by (metis set_mset_mset)
  have "set (collected G) = set G" using mset_collected [of G] by (metis set_mset_mset)
  then have "list_all has_time (collected G)" using tt(1) by (simp add: list_all_iff)
  from sorted_time [OF this] have so: "sorted (map time_text ?S)" .
  from dt have "inj_on time_text (set G)" by (simp add: distinct_map)
  with so tt(2) dt assms(3) s show ?thesis by (intro map_sorted_distinct_set_unique) simp_all
qed

text \<open>In any case the steps of each kind keep their order.\<close>

lemma zip_keys_sorted:
  "list_all has_time S \<Longrightarrow> sorted (map time_text (filter P S)) \<Longrightarrow> sorted (map step_key (filter (P \<circ> fst) (zip S [n ..< n + length S])))"
proof (induction S arbitrary: n)
  case (Cons s S)
  let ?z = "zip S [Suc n ..< Suc n + length S]"
  have z: "zip (s # S) [n ..< n + length (s # S)] = (s, n) # ?z" by (simp add: upt_conv_Cons del: upt_Suc)
  have ih: "sorted (map step_key (filter (P \<circ> fst) ?z))" using Cons.prems by (intro Cons.IH) (auto split: if_splits)
  show ?case
  proof (cases "P s")
    case True
    have "step_key (s, n) \<le> step_key y" if "y \<in> set (filter (P \<circ> fst) ?z)" for y
    proof -
      from that have "y \<in> set ?z" "P (fst y)" by (simp_all only: set_filter mem_Collect_eq o_apply)
      then have y: "fst y \<in> set S" "P (fst y)" "snd y \<in> set [Suc n ..< Suc n + length S]" by (blast dest: fst_in_zip)+
      then have "time_text s \<le> time_text (fst y)" "has_time s" "has_time (fst y)" "n < snd y"
        using Cons.prems True by (auto simp: list_all_iff)
      then show ?thesis by (simp add: step_key_def less_eq_prod_def)
    qed
    with ih True show ?thesis unfolding z by (simp add: comp_def del: upt_Suc)
  next
    case False
    with ih show ?thesis unfolding z by (simp add: comp_def del: upt_Suc)
  qed
qed simp

lemma kind_order:
  assumes "list_all has_time S" "sorted (map time_text (filter P S))"
  shows "filter P (sortChronologically S) = filter P S"
proof -
  let ?z = "zip S [0 ..< length S]"
  have "filter P (sortChronologically S) = map fst (sort_key step_key (filter (P \<circ> fst) ?z))"
    by (simp add: sortChronologically_def filter_map filter_sort)
  moreover have "sorted (map step_key (filter (P \<circ> fst) ?z))" using zip_keys_sorted [OF assms, of 0] by simp
  ultimately have "filter P (sortChronologically S) = map fst (filter (P \<circ> fst) ?z)" by (simp add: sort_key_id_if_sorted)
  also have "\<dots> = filter P (map fst ?z)" by (simp only: filter_map)
  finally show ?thesis by simp
qed

definition is_llm :: "interaction \<Rightarrow> bool" where
  "is_llm s = (case s of LlmStep c \<Rightarrow> True | _ \<Rightarrow> False)"

lemma filter_kinds:
  "filter is_llm G = map LlmStep (llm_steps G)" "filter (\<lambda>s. \<not> is_llm s) G = map ToolStep (tool_steps G)"
proof (induction G)
  case (Cons s G)
  { case 1 show ?case using Cons by (cases s) (simp_all add: is_llm_def) }
  { case 2 show ?case using Cons by (cases s) (simp_all add: is_llm_def) }
qed simp_all

lemma steps_of_kind:
  "llm_steps (map LlmStep cs) = cs" "llm_steps (map ToolStep xs) = []" "tool_steps (map ToolStep xs) = xs" "tool_steps (map LlmStep cs) = []"
  by (induction cs, simp_all) (induction xs, simp_all)+

lemma kinds_inject: "map LlmStep xs = map LlmStep ys \<longleftrightarrow> xs = ys" "map ToolStep us = map ToolStep vs \<longleftrightarrow> us = vs"
  by (auto simp: inj_on_def intro!: inj_map_eq_map [THEN iffD1])

lemma sorted_kinds:
  assumes "timed ck lo hi G" "steady ck"
  shows "llm_steps (sortChronologically (collected G)) = llm_steps G" "tool_steps (sortChronologically (collected G)) = tool_steps G"
proof -
  have tt: "list_all has_time G" "sorted (map time_text G)" using timed_texts [OF assms] by simp_all
  have "set (collected G) = set G" using mset_collected [of G] by (metis set_mset_mset)
  then have h: "list_all has_time (collected G)" using tt(1) by (simp add: list_all_iff)
  have f: "filter is_llm (collected G) = filter is_llm G" "filter (\<lambda>s. \<not> is_llm s) (collected G) = filter (\<lambda>s. \<not> is_llm s) G"
    unfolding filter_kinds by (simp_all add: collected_def steps_of_kind)
  have so: "sorted (map time_text (filter P G))" for P using tt(2) by (rule sorted_filter)
  have "filter is_llm (sortChronologically (collected G)) = filter is_llm G"
    using kind_order [OF h, of is_llm] so [of is_llm] by (simp add: f)
  then show "llm_steps (sortChronologically (collected G)) = llm_steps G" by (simp add: filter_kinds kinds_inject)
  have "filter (\<lambda>s. \<not> is_llm s) (sortChronologically (collected G)) = filter (\<lambda>s. \<not> is_llm s) G"
    using kind_order [OF h, of "\<lambda>s. \<not> is_llm s"] so [of "\<lambda>s. \<not> is_llm s"] by (simp add: f)
  then show "tool_steps (sortChronologically (collected G)) = tool_steps G" by (simp add: filter_kinds kinds_inject)
qed

section \<open>Replaying a scenario\<close>

lemma foldl_addStep: "foldl (\<lambda>b x. addStep (f x) b) b xs = b\<lparr>rb_steps := rb_steps b @ map f xs\<rparr>"
  by (induction xs arbitrary: b) (simp_all add: addStep_def)

text \<open>The recording that a finished run leaves.\<close>

lemma finished_recording:
  assumes "finish_run sx sc runId started ended final outcome (llm_steps G) (tool_steps G) = Inr res"
  shows "sr_outcome res = outcome" "ar_finalState (sr_recording res) = final" "ar_steps (sr_recording res) = sortChronologically (collected G)"
    "ar_metrics (sr_recording res) = deriveMetrics (sortChronologically (collected G))"
  using assms by (auto simp: finish_run_def Let_def foldl_addStep builder_build_def builder_create_def withFinalState_def withCompletedAt_def collected_def
      split: sum.splits)

lemma finish_run_total:
  assumes "\<And>r. \<not> isl (all_scores (sx_evaluators sx) r (sc_expectedOutcome sc))"
  obtains res where "finish_run sx sc runId started ended final outcome calls execs = Inr res"
proof -
  let ?r = "builder_build (foldl (\<lambda>b x. addStep (ToolStep x) b) (foldl (\<lambda>b c. addStep (LlmStep c) b)
      (withCompletedAt ended (withFinalState final (builder_create runId (sx_config sx) started (Some (sc_id sc))))) calls) execs)"
  from assms [of ?r] obtain scores where "all_scores (sx_evaluators sx) ?r (sc_expectedOutcome sc) = Inr scores"
    by (cases "all_scores (sx_evaluators sx) ?r (sc_expectedOutcome sc)") auto
  with that show thesis by (simp add: finish_run_def Let_def)
qed

lemma same_steps_compare:
  assumes "list_all2 same_interaction as bs"
  shows "first_divergence num i as bs = None" "map rx_toolName (tool_steps as) = map rx_toolName (tool_steps bs)" "length as = length bs"
proof -
  have "first_divergence num i as bs = None \<and> map rx_toolName (tool_steps as) = map rx_toolName (tool_steps bs)"
    using assms
  proof (induction as bs arbitrary: i rule: list_all2_induct)
    case (Cons a as b bs)
    from Cons.hyps(1) show ?case
      by (cases a; cases b) (simp_all add: Cons.IH step_difference_def same_call_def same_exec_def jsonEq_def)
  qed simp
  then show "first_divergence num i as bs = None" "map rx_toolName (tool_steps as) = map rx_toolName (tool_steps bs)" by simp_all
qed (rule list_all2_lengthD [OF assms])

text \<open>Steps that agree give the same counts, tokens and costs; only the latency of tools is measured again.\<close>

definition same_metrics :: "run_metrics \<Rightarrow> run_metrics \<Rightarrow> bool" where
  "same_metrics a b \<longleftrightarrow> rm_totalLLMCalls a = rm_totalLLMCalls b \<and> rm_totalToolCalls a = rm_totalToolCalls b \<and> rm_totalTokens a = rm_totalTokens b
     \<and> rm_totalCostUsd a = rm_totalCostUsd b"

lemma same_steps_metrics:
  assumes "list_all2 same_interaction as bs"
  shows "same_metrics (deriveMetrics as) (deriveMetrics bs)"
proof -
  have "same_metrics (foldl metrics_step m as) (foldl metrics_step m' bs)" if "same_metrics m m'" for m m'
    using assms that
  proof (induction as bs arbitrary: m m' rule: list_all2_induct)
    case (Cons a as b bs)
    from Cons.hyps(1) Cons.prems have "same_metrics (metrics_step m a) (metrics_step m' b)"
      by (cases a; cases b) (auto simp: metrics_step_def same_metrics_def same_call_def same_exec_def cost_of_def split: option.split)
    from Cons.IH [OF this] show ?case by simp
  qed simp
  then show ?thesis by (simp add: deriveMetrics_def same_metrics_def)
qed

text \<open>The counts, tokens and costs depend only on the calls in their order and on the number of executions.\<close>

definition add_cost :: "real option \<Rightarrow> recorded_llm \<Rightarrow> real option" where
  "add_cost t c = rm_totalCostUsd (metrics_step (no_metrics\<lparr>rm_totalCostUsd := t\<rparr>) (LlmStep c))"

lemma metrics_fields:
  "rm_totalLLMCalls (metrics_step m (LlmStep c)) = rm_totalLLMCalls m + 1" "rm_totalLLMCalls (metrics_step m (ToolStep x)) = rm_totalLLMCalls m"
  "rm_totalToolCalls (metrics_step m (LlmStep c)) = rm_totalToolCalls m" "rm_totalToolCalls (metrics_step m (ToolStep x)) = rm_totalToolCalls m + 1"
  "rm_totalTokens (metrics_step m (LlmStep c)) = rm_totalTokens m + us_totalTokens (lm_usage (rl_meta c))"
  "rm_totalTokens (metrics_step m (ToolStep x)) = rm_totalTokens m"
  "rm_totalCostUsd (metrics_step m (LlmStep c)) = add_cost (rm_totalCostUsd m) c" "rm_totalCostUsd (metrics_step m (ToolStep x)) = rm_totalCostUsd m"
  by (simp_all add: metrics_step_def add_cost_def split: option.split)

lemma metrics_of_kinds:
  "rm_totalLLMCalls (foldl metrics_step m S) = rm_totalLLMCalls m + length (llm_steps S)"
  "rm_totalToolCalls (foldl metrics_step m S) = rm_totalToolCalls m + length (tool_steps S)"
  "rm_totalTokens (foldl metrics_step m S) = foldl (\<lambda>t c. t + us_totalTokens (lm_usage (rl_meta c))) (rm_totalTokens m) (llm_steps S)"
  "rm_totalCostUsd (foldl metrics_step m S) = foldl add_cost (rm_totalCostUsd m) (llm_steps S)"
proof (induction S arbitrary: m)
  case (Cons s S)
  { case 1 show ?case by (cases s) (simp_all add: Cons metrics_fields) }
  { case 2 show ?case by (cases s) (simp_all add: Cons metrics_fields) }
  { case 3 show ?case by (cases s) (simp_all add: Cons metrics_fields) }
  { case 4 show ?case by (cases s) (simp_all add: Cons metrics_fields) }
qed simp_all

lemma metrics_by_kind:
  assumes "llm_steps S = llm_steps T" "length (tool_steps S) = length (tool_steps T)"
  shows "same_metrics (deriveMetrics S) (deriveMetrics T)"
  using assms by (simp add: same_metrics_def deriveMetrics_def metrics_of_kinds)

lemma live_run_cases:
  assumes "runScenario sx sc Live w = (Inr res, sx', w')"
  obtains llm s reg t out l x w2 started ended where "sx_llm sx = Some (llm, s)" "sx_tools sx = Some (reg, t)"
    "run_agent (RecordingLLMService (sx_clocks sx) llm) (RecordingToolRegistry (sx_clocks sx) reg) (sx_loop sx (sc_instruction sc))
       \<lparr>re_inner = s, re_buffer = []\<rparr> \<lparr>tr_inner = t, tr_buffer = []\<rparr> (w\<lparr>wd_time := wd_time w + 2\<rparr>) = (Inr out, l, x, w2)"
    "finish_run sx sc (genRunId sx (sc_id sc) w) started ended (fst out) (snd out) (re_buffer l) (tr_buffer x) = Inr res"
proof -
  from assms obtain llm s reg t where svc: "sx_llm sx = Some (llm, s)" "sx_tools sx = Some (reg, t)"
    by (auto simp: runScenario_def Let_def split: option.splits)
  obtain o1 l x w2 where r: "run_agent (RecordingLLMService (sx_clocks sx) llm) (RecordingToolRegistry (sx_clocks sx) reg) (sx_loop sx (sc_instruction sc))
       \<lparr>re_inner = s, re_buffer = []\<rparr> \<lparr>tr_inner = t, tr_buffer = []\<rparr> (w\<lparr>wd_time := wd_time w + 2\<rparr>) = (o1, l, x, w2)" by (metis prod.exhaust)
  note run = assms [unfolded runScenario_def Let_def svc option.case prod.case sandbox_mode.case run_recorded_def r]
  from run obtain out where out: "o1 = Inr out" by (cases o1) simp_all
  with run show thesis using that [OF svc r [unfolded out]] by (auto split: prod.splits)
qed

text \<open>The live run is faithful: each answer is recorded as what replays to it, and no tool call is rejected.\<close>

definition faithful_live :: "('s, 't) sandbox \<Rightarrow> scenario \<Rightarrow> world \<Rightarrow> bool" where
  "faithful_live sx sc w =
     (case (sx_llm sx, sx_tools sx) of
        (Some (llm, s), Some (reg, t)) \<Rightarrow>
          faithful_run (sx_clocks sx) llm reg (sx_loop sx (sc_instruction sc)) \<lparr>re_inner = s, re_buffer = []\<rparr> \<lparr>tr_inner = t, tr_buffer = []\<rparr>
            (w\<lparr>wd_time := wd_time w + 2\<rparr>)
      | _ \<Rightarrow> False)"

definition replays_always :: "clocks \<Rightarrow> agent \<Rightarrow> string + js_val \<times> agent_outcome option \<Rightarrow> interaction list \<Rightarrow> bool" where
  "replays_always ck ag out G \<longleftrightarrow> (\<forall>pre post pre' post' b y v. replayed ck ag out G pre post pre' post' b y v)"

lemma live_run_traced:
  assumes "runScenario sx sc Live w = (Inr res, sx', w')" "faithful_live sx sc w"
  obtains lo hi G out where "timed (sx_clocks sx) lo hi G" "sr_outcome res = snd out" "ar_finalState (sr_recording res) = fst out"
    "ar_steps (sr_recording res) = sortChronologically (collected G)" "ar_metrics (sr_recording res) = deriveMetrics (sortChronologically (collected G))"
    "replays_always (sx_clocks sx) (sx_loop sx (sc_instruction sc)) (Inr out) G"
proof -
  from live_run_cases [OF assms(1)] obtain llm s reg t out l x w2 started ended where
    svc: "sx_llm sx = Some (llm, s)" "sx_tools sx = Some (reg, t)"
    and run: "run_agent (RecordingLLMService (sx_clocks sx) llm) (RecordingToolRegistry (sx_clocks sx) reg) (sx_loop sx (sc_instruction sc))
       \<lparr>re_inner = s, re_buffer = []\<rparr> \<lparr>tr_inner = t, tr_buffer = []\<rparr> (w\<lparr>wd_time := wd_time w + 2\<rparr>) = (Inr out, l, x, w2)"
    and fin: "finish_run sx sc (genRunId sx (sc_id sc) w) started ended (fst out) (snd out) (re_buffer l) (tr_buffer x) = Inr res" .
  from assms(2) have "faithful_run (sx_clocks sx) llm reg (sx_loop sx (sc_instruction sc)) \<lparr>re_inner = s, re_buffer = []\<rparr> \<lparr>tr_inner = t, tr_buffer = []\<rparr>
      (w\<lparr>wd_time := wd_time w + 2\<rparr>)" by (simp add: faithful_live_def svc)
  from faithful_run_replays [OF run this] obtain G where G: "re_buffer l = llm_steps G" "tr_buffer x = tool_steps G"
    "timed (sx_clocks sx) (wd_time (w\<lparr>wd_time := wd_time w + 2\<rparr>)) (wd_time w2) G"
    "replays_always (sx_clocks sx) (sx_loop sx (sc_instruction sc)) (Inr out) G" unfolding replays_always_def by auto
  from that [OF G(3) finished_recording [OF fin [unfolded G(1,2)]] G(4)] show thesis .
qed

lemma replay_run_traced:
  assumes "replays_always (sx_clocks sy) (sx_loop sy (sc_instruction sc)) (Inr out) G"
    and "llm_steps (ar_steps r) = llm_steps G" "tool_steps (ar_steps r) = tool_steps G"
    and "\<And>r. \<not> isl (all_scores (sx_evaluators sy) r (sc_expectedOutcome sc))"
  obtains res2 sy' v' lo hi G' where "runScenario sy sc (Replay r) v = (Inr res2, sy', v')" "timed (sx_clocks sy) lo hi G'" "list_all2 same_interaction G G'"
    "sr_outcome res2 = snd out" "ar_finalState (sr_recording res2) = fst out"
    "ar_steps (sr_recording res2) = sortChronologically (collected G')" "ar_metrics (sr_recording res2) = deriveMetrics (sortChronologically (collected G'))"
proof -
  let ?v = "v\<lparr>wd_time := wd_time v + 2\<rparr>"
  from assms(1) [unfolded replays_always_def, rule_format, of "[]" "[]" "[]" "[]" "[]" "[]" ?v] obtain G' v2 where
    run: "run_agent (RecordingLLMService (sx_clocks sy) (ReplayLLMService (sx_clocks sy))) (RecordingToolRegistry (sx_clocks sy) ReplayToolRegistry)
          (sx_loop sy (sc_instruction sc))
          \<lparr>re_inner = \<lparr>rp_calls = llm_steps G, rp_cursor = 0\<rparr>, re_buffer = []\<rparr> \<lparr>tr_inner = \<lparr>rt_execs = tool_steps G, rt_cursor = 0\<rparr>, tr_buffer = []\<rparr> ?v
        = (Inr out, \<lparr>re_inner = \<lparr>rp_calls = llm_steps G, rp_cursor = length (llm_steps G)\<rparr>, re_buffer = llm_steps G'\<rparr>,
           \<lparr>tr_inner = \<lparr>rt_execs = tool_steps G, rt_cursor = length (tool_steps G)\<rparr>, tr_buffer = tool_steps G'\<rparr>, v2)"
    and g: "timed (sx_clocks sy) (wd_time ?v) (wd_time v2) G'" "list_all2 same_interaction G G'"
    unfolding replayed_def by (auto simp del: world.simps)
  obtain final outcome where o: "out = (final, outcome)" by (metis prod.exhaust)
  obtain res2 where f: "finish_run sy sc (genRunId sy (sc_id sc) v) (ck_iso (sx_clocks sy) (wd_time v + 1)) (ck_iso (sx_clocks sy) (wd_time v2)) final outcome
      (llm_steps G') (tool_steps G') = Inr res2" using finish_run_total [where sx = sy and sc = sc, OF assms(4)] .
  have "runScenario sy sc (Replay r) v = (Inr res2, sy\<lparr>sx_runIdCounter := sx_runIdCounter sy + 1\<rparr>, v2\<lparr>wd_time := wd_time v2 + 1\<rparr>)"
    by (simp only: runScenario_def Let_def sandbox_mode.case run_recorded_def assms(2,3) run [unfolded o] prod.case sum.case recorder.simps tool_recorder.simps f)
  from that [OF this g(1,2)] finished_recording [OF f] show thesis by (simp add: o)
qed

definition no_drift :: "nat \<Rightarrow> drift_report" where
  "no_drift n = \<lparr>dr_stateMatch = True, dr_toolCallOrderMatch = True, dr_totalStepsA = n, dr_totalStepsB = n, dr_divergenceStep = None, dr_details = []\<rparr>"

lemma same_steps_no_drift:
  assumes "list_all2 same_interaction (ar_steps a) (ar_steps b)" "ar_finalState a = ar_finalState b"
  shows "compare_runs num a b = no_drift (length (ar_steps a))"
  using same_steps_compare(1,2) [OF assms(1)] same_steps_compare(3) [OF assms(1)] assms(2)
  by (simp add: compare_runs_def Let_def jsonEq_def toolCallSequence_def no_drift_def list_all_iff zip_same_conv_map case_prod_beta)

text \<open>Whatever the times are, the order of the tool calls and the number of steps agree.\<close>

lemma same_kinds_compare:
  assumes "ar_finalState b = ar_finalState a" "mset (ar_steps a) = mset G" "mset (ar_steps b) = mset G'"
    and "llm_steps (ar_steps a) = llm_steps G" "tool_steps (ar_steps a) = tool_steps G"
    and "llm_steps (ar_steps b) = llm_steps G'" "tool_steps (ar_steps b) = tool_steps G'" "list_all2 same_interaction G G'"
  shows "dr_toolCallOrderMatch (compare_runs num a b) \<and> dr_stateMatch (compare_runs num a b)
    \<and> dr_totalStepsA (compare_runs num a b) = dr_totalStepsB (compare_runs num a b)"
proof -
  have names: "map rx_toolName (tool_steps G) = map rx_toolName (tool_steps G')" "length G = length G'"
    using same_steps_compare(2,3) [OF assms(8)] .
  then have "length (tool_steps G) = length (tool_steps G')" by (metis length_map)
  moreover have "length (ar_steps a) = length (ar_steps b)" using names(2) assms(2,3) by (metis size_mset)
  ultimately show ?thesis using names(1)
    by (simp add: compare_runs_def Let_def case_prod_beta toolCallSequence_def jsonEq_def assms(1,5,7) list_all_iff zip_same_conv_map)
qed

text \<open>
  C27. Replaying the recording of a live run gives the run again. If the agent is the same, every answer it got is one that its
  recording replays to (\<open>faithful_live\<close>; text, tool calls and metadata are, rejections and streamed tool calls are not), the
  clock does not go back and the evaluators do not throw, then the replay ends without an error, with the same outcome and final state; the
  comparison of both recordings reports the same state, the same order of tool calls and the same number of steps, and calls, tokens and
  costs agree. When moreover in neither recording two steps show the same time, it finds no drift in any step. (Steps of one
  millisecond may be sorted differently: see \<open>same_millisecond_drifts\<close>.)
\<close>

theorem replay_reproduces_run:
  assumes "runScenario sx sc Live w = (Inr res, sx', w')" "faithful_live sx sc w" "steady (sx_clocks sx)"
    and "sx_loop sy = sx_loop sx" "sx_clocks sy = sx_clocks sx" "\<And>r. \<not> isl (all_scores (sx_evaluators sy) r (sc_expectedOutcome sc))"
  shows "\<exists>res2 sy' v'. runScenario sy sc (Replay (sr_recording res)) v = (Inr res2, sy', v') \<and> sr_outcome res2 = sr_outcome res
    \<and> ar_finalState (sr_recording res2) = ar_finalState (sr_recording res)
    \<and> same_metrics (ar_metrics (sr_recording res)) (ar_metrics (sr_recording res2))
    \<and> (let d = compare_runs num (sr_recording res) (sr_recording res2)
       in dr_stateMatch d \<and> dr_toolCallOrderMatch d \<and> dr_totalStepsA d = dr_totalStepsB d
          \<and> (distinct (map time_text (ar_steps (sr_recording res))) \<and> distinct (map time_text (ar_steps (sr_recording res2)))
             \<longrightarrow> d = no_drift (length (ar_steps (sr_recording res)))))"
proof -
  from live_run_traced [OF assms(1,2)] obtain lo hi G out where G: "timed (sx_clocks sx) lo hi G" "sr_outcome res = snd out"
    "ar_finalState (sr_recording res) = fst out" "ar_steps (sr_recording res) = sortChronologically (collected G)"
    "ar_metrics (sr_recording res) = deriveMetrics (sortChronologically (collected G))"
    "replays_always (sx_clocks sx) (sx_loop sx (sc_instruction sc)) (Inr out) G" .
  note k = sorted_kinds [OF G(1) assms(3), folded G(4)]
  from replay_run_traced [OF G(6) [folded assms(4,5)] k assms(6)] obtain res2 sy' v' lo' hi' G' where
    r: "runScenario sy sc (Replay (sr_recording res)) v = (Inr res2, sy', v')" "timed (sx_clocks sy) lo' hi' G'" "list_all2 same_interaction G G'"
      "sr_outcome res2 = snd out" "ar_finalState (sr_recording res2) = fst out" "ar_steps (sr_recording res2) = sortChronologically (collected G')"
      "ar_metrics (sr_recording res2) = deriveMetrics (sortChronologically (collected G'))"
    .
  note k' = sorted_kinds [OF r(2) [unfolded assms(5)] assms(3), folded r(6)]
  let ?d = "compare_runs num (sr_recording res) (sr_recording res2)"
  have fin: "ar_finalState (sr_recording res2) = ar_finalState (sr_recording res)" using G(3) r(5) by simp
  have "same_metrics (ar_metrics (sr_recording res)) (deriveMetrics G)" "same_metrics (ar_metrics (sr_recording res2)) (deriveMetrics G')"
    unfolding G(5) r(7) by (rule metrics_by_kind; simp add: k [unfolded G(4)] k' [unfolded r(6)])+
  then have metrics: "same_metrics (ar_metrics (sr_recording res)) (ar_metrics (sr_recording res2))"
    using same_steps_metrics [OF r(3)] by (simp add: same_metrics_def)
  have "dr_toolCallOrderMatch ?d \<and> dr_stateMatch ?d \<and> dr_totalStepsA ?d = dr_totalStepsB ?d"
    by (rule same_kinds_compare [OF fin _ _ k k' r(3)]) (simp_all add: G(4) r(6) mset_sortChronologically mset_collected)
  moreover have "?d = no_drift (length (ar_steps (sr_recording res)))"
    if "distinct (map time_text (ar_steps (sr_recording res)))" "distinct (map time_text (ar_steps (sr_recording res2)))"
  proof (rule same_steps_no_drift)
    show "list_all2 same_interaction (ar_steps (sr_recording res)) (ar_steps (sr_recording res2))"
      using that sorted_by_happening [OF G(1) assms(3)] sorted_by_happening [OF r(2) [unfolded assms(5)] assms(3)]
      by (simp add: G(4) r(3,6))
  qed (simp add: fin)
  ultimately show ?thesis using r(1,4) G(2) fin metrics by (auto simp: Let_def)
qed

section \<open>Examples\<close>

definition demo_llm :: "unit llm_service" where
  "demo_llm = \<lparr>ls_chat = \<lambda>ms json s. (Inr ''hi'', s), ls_chatJson = \<lambda>ms p s. (parsed p (JStr ''hi''), s),
     ls_chatWithTools = \<lambda>ms ts schema cfg s. (Inr (ContentResponse ''hi''), s),
     ls_chatTracked = \<lambda>ms json s. (Inr (''hi'', LLMResponseMeta_empty), s),
     ls_chatWithToolsTracked = \<lambda>ms ts schema cfg s. (Inr (ContentResponse ''hi'', LLMResponseMeta_empty), s),
     ls_chatStream = \<lambda>ms ts schema cfg s. (([ToolCallDelta 0 (Some ''c'') (Some ''look'') [], DoneChunk LLMResponseMeta_empty], None), s)\<rparr>"

definition demo_tools :: "unit tool_registry" where
  "demo_tools = \<lparr>tg_definitions = \<lambda>t. [], tg_execute = \<lambda>call t. (Inr (tool_success JNull), t)\<rparr>"

text \<open>An agent that uses a tool, asks the model and ends with its answer.\<close>

definition demo_agent :: "string \<Rightarrow> agent" where
  "demo_agent instruction = UseTool \<lparr>tl_name = ''look'', tl_arguments = JNull\<rparr>
     (\<lambda>r. AskLlm (QChat [\<lparr>cm_role = UserRole, cm_content = instruction\<rparr>] None)
        (\<lambda>a. case a of AText (Inr s) \<Rightarrow> Finish (JStr s) (Some OutcomeOk) | _ \<Rightarrow> Throw ''no answer''))"

definition demo_box :: "(nat \<Rightarrow> string) \<Rightarrow> (unit, unit) sandbox" where
  "demo_box clk = \<lparr>sx_loop = demo_agent, sx_llm = Some (demo_llm, ()), sx_tools = Some (demo_tools, ()), sx_evaluators = [],
     sx_config = \<lparr>rc_model = ''m'', rc_provider = ''p'', rc_temperature = 0, rc_maxTokens = 1\<rparr>,
     sx_clocks = \<lparr>ck_iso = clk, ck_ms = \<lambda>n. 0, ck_num = \<lambda>x. ''0'', ck_parse = \<lambda>s. None\<rparr>, sx_now36 = \<lambda>n. ''0'', sx_runIdCounter = 0\<rparr>"

definition demo_scenario :: scenario where
  "demo_scenario = \<lparr>sc_id = ''s'', sc_instruction = ''go'', sc_toolSimulations = None, sc_expectedOutcome = None\<rparr>"

definition world_at :: "nat \<Rightarrow> world" where
  "world_at n = \<lparr>wd_time = n, wd_requests = 1, wd_execs = 1\<rparr>"

definition demo_recording :: "(nat \<Rightarrow> string) \<Rightarrow> agent_recording" where
  "demo_recording clk = (case fst (runScenario (demo_box clk) demo_scenario Live (world_at 0)) of Inr r \<Rightarrow> sr_recording r | Inl e \<Rightarrow> undefined)"

text \<open>A clock in unary, which always ticks.\<close>

definition unary :: "nat \<Rightarrow> string" where
  "unary n = replicate (Suc n) CHR ''x''"

lemma unary_ticks: "i < j \<Longrightarrow> unary i < unary j"
proof -
  assume "i < j"
  then obtain k where "j = i + Suc k" by (metis less_iff_Suc_add add_Suc_right)
  then have "unary j = unary i @ CHR ''x'' # replicate k CHR ''x''" by (simp add: unary_def replicate_add [symmetric] flip: replicate_Suc)
  then show ?thesis by (simp add: list_less_def lexord_append_rightI)
qed

theorem replay_reproduces_run_witness:
  "\<exists>res2 sy' v'. runScenario (demo_box unary) demo_scenario (Replay (demo_recording unary)) (world_at 7) = (Inr res2, sy', v')
    \<and> compare_runs (\<lambda>x. ''0'') (demo_recording unary) (sr_recording res2) = no_drift (length (ar_steps (demo_recording unary)))
    \<and> ar_finalState (sr_recording res2) = JStr ''hi''"
proof -
  let ?b = "demo_box unary"
  obtain res sx' w' where live: "runScenario ?b demo_scenario Live (world_at 0) = (Inr res, sx', w')" and fin: "ar_finalState (sr_recording res) = JStr ''hi''"
    by (simp add: runScenario_def Let_def demo_box_def demo_agent_def demo_scenario_def world_at_def run_recorded_def RecordingToolRegistry_def demo_tools_def
        RecordingLLMService_def demo_llm_def ask_llm_def recording_def push_call_def finish_run_def builder_build_def foldl_addStep builder_create_def
        withFinalState_def withCompletedAt_def text_call_def addStep_def)
  have rec: "sr_recording res = demo_recording unary" by (simp add: demo_recording_def live)
  have f: "faithful_live ?b demo_scenario (world_at 0)"
    by (simp add: faithful_live_def demo_box_def demo_agent_def demo_scenario_def world_at_def RecordingToolRegistry_def demo_tools_def
        RecordingLLMService_def demo_llm_def ask_llm_def recording_def push_call_def replay_answer_def text_call_def content_text_def)
  have t: "steady (sx_clocks ?b)"
    using unary_ticks by (auto simp: steady_def demo_box_def order.order_iff_strict) (simp add: unary_def)
  have e: "\<not> isl (all_scores (sx_evaluators ?b) r (sc_expectedOutcome demo_scenario))" for r by (simp add: demo_box_def)
  from replay_reproduces_run [OF live f t refl refl e, of "world_at 7" "\<lambda>x. ''0''"] obtain res2 sy' v' where
    r: "runScenario ?b demo_scenario (Replay (demo_recording unary)) (world_at 7) = (Inr res2, sy', v')" "ar_finalState (sr_recording res2) = JStr ''hi''"
    and d: "distinct (map time_text (ar_steps (demo_recording unary))) \<and> distinct (map time_text (ar_steps (sr_recording res2)))
      \<longrightarrow> compare_runs (\<lambda>x. ''0'') (demo_recording unary) (sr_recording res2) = no_drift (length (ar_steps (demo_recording unary)))"
    unfolding fin [unfolded rec] rec Let_def by blast
  have "distinct (map time_text (ar_steps (demo_recording unary)))
      \<and> (case fst (runScenario ?b demo_scenario (Replay (demo_recording unary)) (world_at 7)) of
           Inr r2 \<Rightarrow> distinct (map time_text (ar_steps (sr_recording r2))) | Inl e \<Rightarrow> False)" by code_simp
  with d have "compare_runs (\<lambda>x. ''0'') (demo_recording unary) (sr_recording res2) = no_drift (length (ar_steps (demo_recording unary)))"
    by (simp add: r(1))
  with r show ?thesis by blast
qed

text \<open>When both steps of the replay fall into the same millisecond they are recorded in another order, and a drift is reported that is none.\<close>

definition coarse :: "nat \<Rightarrow> string" where
  "coarse n = (if n < 10 then [char_of (48 + n)] else ''z'')"

lemma same_millisecond_drifts:
  "case fst (runScenario (demo_box coarse) demo_scenario (Replay (demo_recording coarse)) (world_at 10)) of
     Inr res2 \<Rightarrow> dr_stateMatch (compare_runs (\<lambda>x. ''0'') (demo_recording coarse) (sr_recording res2))
       \<and> dr_divergenceStep (compare_runs (\<lambda>x. ''0'') (demo_recording coarse) (sr_recording res2)) = Some 0
   | Inl e \<Rightarrow> False"
  by code_simp

section \<open>Answers that are not recorded\<close>

text \<open>A rejected call leaves no trace: the replay answers it with the answer of the next one.\<close>

lemma rejections_are_not_recorded:
  "op (re_inner r) = (Inl e, s) \<Longrightarrow> recording ck mk op (r, w) = (Inl e, r\<lparr>re_inner := s\<rparr>, w)"
  by (simp add: recording_def)

text \<open>A streamed tool call is recorded without its call, and replays as a stream that has none.\<close>

lemma streamed_tool_calls_are_lost:
  assumes "stream_text cs = []"
  shows "replay_chunks (stream_call ms ts cs m rid now) = [DoneChunk m]"
  using assms by (simp add: stream_call_def replay_chunks_def Let_def)

text \<open>A JSON answer that is a text is recorded without quotes: the replay parses it again.\<close>

lemma json_text_is_parsed_again:
  "replayed_json ck (text_call ms (json_content ck (JStr s)) m rid now) = (case ck_parse ck s of Some v \<Rightarrow> v | None \<Rightarrow> JStr s)"
  by (simp add: replayed_json_def text_call_def content_text_def json_content_def split: option.split)

text \<open>\<open>chat\<close> of the recorder is the tracked call of the service it wraps, not its \<open>chat\<close>.\<close>

lemma recorder_tracks_plain_calls:
  "ls_chat (RecordingLLMService ck inner) = ls_chat (RecordingLLMService ck (inner\<lparr>ls_chat := f\<rparr>))"
  by (simp add: RecordingLLMService_def)

text \<open>Text and tool calls of a tracked response are faithful: they replay to themselves.\<close>

lemma content_replays: "materializeResponse (tools_call ms ts (ContentResponse s) m rid now) = ContentResponse s"
  "materializeResponse (tools_call ms ts (ToolCallsResponse calls (raw_message calls)) m rid now) = ToolCallsResponse calls (raw_message calls)"
  "content_text (text_call ms' (Some s) m rid now) = s" "rl_meta (tools_call ms ts v m rid now) = m"
  by (simp_all add: materializeResponse_def tools_call_def describeResponse_def content_text_def text_call_def split: prod.split)

end
