(* ===== verification/Mcp_Server.thy ===== *)
theory Mcp_Server
  imports Tool_Registry Node_Guard
begin

text \<open>
  The MCP server: codes and metadata (\<open>mcp/{protocol,errors,meta,schema}.ts\<close>), tools on the wire (\<open>mcp-server/tools.ts\<close>), the handshake of old
  clients (\<open>legacy.ts\<close>), the dispatcher (\<open>dispatch.ts\<close>) and its HTTP endpoint (\<open>http.ts\<close>). Beside its answer each step gives
  the tools it has run. \<open>localeCompare\<close>, \<open>JSON.parse\<close>, base 64 and number printing are arguments.
\<close>

section \<open>Messages\<close>

definition PARSE_ERROR :: int where "PARSE_ERROR = -32700"
definition INVALID_REQUEST :: int where "INVALID_REQUEST = -32600"
definition METHOD_NOT_FOUND :: int where "METHOD_NOT_FOUND = -32601"
definition INVALID_PARAMS :: int where "INVALID_PARAMS = -32602"
definition INTERNAL_ERROR :: int where "INTERNAL_ERROR = -32603"
definition HEADER_MISMATCH :: int where "HEADER_MISMATCH = -32020"
definition UNSUPPORTED_PROTOCOL_VERSION :: int where "UNSUPPORTED_PROTOCOL_VERSION = -32022"

text \<open>A response carries the id of its request, or null, and a result or an error with a code, a message and data.\<close>

datatype rpc_response = RpcResult (rpc_id: js_val) js_val | RpcError (rpc_id: js_val) int string js_val

definition errorResponse :: "js_val \<Rightarrow> int \<Rightarrow> string \<Rightarrow> rpc_response" where
  "errorResponse i code msg = RpcError i code msg JUndefined"

definition unsupportedVersionResponse :: "js_val \<Rightarrow> string option \<Rightarrow> string list \<Rightarrow> rpc_response" where
  "unsupportedVersionResponse i requested supported = RpcError i UNSUPPORTED_PROTOCOL_VERSION ''Unsupported protocol version''
     (JObj [(''supported'', JArr (map JStr supported)), (''requested'', case requested of Some v \<Rightarrow> JStr v | None \<Rightarrow> JNull)])"

definition isModernErrorCode :: "int \<Rightarrow> bool" where
  "isModernErrorCode code \<longleftrightarrow> code = UNSUPPORTED_PROTOCOL_VERSION \<or> code = HEADER_MISMATCH"

definition META_PROTOCOL_VERSION :: string where "META_PROTOCOL_VERSION = ''io.modelcontextprotocol/protocolVersion''"
definition META_SERVER_INFO :: string where "META_SERVER_INFO = ''io.modelcontextprotocol/serverInfo''"
definition MODERN_PROTOCOL_VERSION :: string where "MODERN_PROTOCOL_VERSION = ''2026-07-28''"

definition LEGACY_PROTOCOL_VERSIONS :: "string list" where
  "LEGACY_PROTOCOL_VERSIONS = [''2025-11-25'', ''2025-06-18'', ''2025-03-26'', ''2024-11-05'']"

text \<open>A member of an object; an array has none with such a name.\<close>

definition member_of :: "js_val \<Rightarrow> string \<Rightarrow> js_val" where
  "member_of v k = (case v of JObj ps \<Rightarrow> (case js_get ps k of Some x \<Rightarrow> x | None \<Rightarrow> JUndefined) | _ \<Rightarrow> JUndefined)"

definition is_object :: "js_val \<Rightarrow> bool" where
  "is_object v = (case v of JObj ps \<Rightarrow> True | JArr xs \<Rightarrow> True | _ \<Rightarrow> False)"

definition paramsOf :: "js_val \<Rightarrow> js_val option" where
  "paramsOf message = (let p = member_of message ''params'' in if is_object message \<and> is_object p then Some p else None)"

definition metaOf :: "js_val \<Rightarrow> js_val option" where
  "metaOf message = (case paramsOf message of None \<Rightarrow> None | Some p \<Rightarrow> (let m = member_of p ''_meta'' in if is_object m then Some m else None))"

definition requestedProtocolVersion :: "js_val \<Rightarrow> string option" where
  "requestedProtocolVersion message =
     (case metaOf message of None \<Rightarrow> None | Some m \<Rightarrow> (case member_of m META_PROTOCOL_VERSION of JStr v \<Rightarrow> Some v | _ \<Rightarrow> None))"

definition isValidInputSchema :: "js_val \<Rightarrow> bool" where
  "isValidInputSchema schema = (case schema of JObj ps \<Rightarrow> True | _ \<Rightarrow> False)"

section \<open>Tools on the wire\<close>

fun insert_by :: "('a \<Rightarrow> 'a \<Rightarrow> bool) \<Rightarrow> 'a \<Rightarrow> 'a list \<Rightarrow> 'a list" where
  "insert_by le x [] = [x]"
| "insert_by le x (y # ys) = (if le x y then x # y # ys else y # insert_by le x ys)"

definition stable_sort :: "('a \<Rightarrow> 'a \<Rightarrow> bool) \<Rightarrow> 'a list \<Rightarrow> 'a list" where
  "stable_sort le xs = foldr (insert_by le) xs []"

lemma set_stable_sort [simp]: "set (stable_sort le xs) = set xs"
proof -
  have "set (insert_by le x ys) = insert x (set ys)" for x ys by (induction ys) auto
  then show ?thesis by (induction xs) (auto simp: stable_sort_def)
qed

definition auto_tool :: "mcp_tool \<Rightarrow> bool" where
  "auto_tool tool \<longleftrightarrow> (case mt_permission tool of Some p \<Rightarrow> p | None \<Rightarrow> AutoPermission) = AutoPermission"

definition visibleTools :: "(string \<Rightarrow> string \<Rightarrow> bool) \<Rightarrow> tool_map \<Rightarrow> mcp_tool list" where
  "visibleTools le reg = stable_sort (\<lambda>a b. le (mt_name a) (mt_name b)) (filter auto_tool (tools_list reg))"

definition wireToolDefs :: "(string \<Rightarrow> string \<Rightarrow> bool) \<Rightarrow> tool_map \<Rightarrow> js_val" where
  "wireToolDefs le reg = JArr (map (\<lambda>tool. JObj
     ([(''name'', JStr (mt_name tool))] @ (case mt_title tool of Some t \<Rightarrow> [(''title'', JStr t)] | None \<Rightarrow> [])
      @ [(''description'', JStr (mt_description tool)), (''inputSchema'', mt_inputSchema tool)]
      @ (case mt_outputSchema tool of Some v \<Rightarrow> [(''outputSchema'', v)] | None \<Rightarrow> []))) (visibleTools le reg))"

definition asText :: "(real \<Rightarrow> string) \<Rightarrow> js_val \<Rightarrow> string" where
  "asText num output = (case output of JStr s \<Rightarrow> s | JUndefined \<Rightarrow> [] | _ \<Rightarrow> stringify num output)"

text \<open>The outcome of a call: a protocol error, or the members of a result.\<close>

datatype tool_outcome = ProtocolError int string | ToolOutcome "(string \<times> js_val) list"

definition text_result :: "string \<Rightarrow> js_val option \<Rightarrow> bool \<Rightarrow> tool_outcome" where
  "text_result t structured err = ToolOutcome
     ([(''content'', JArr [JObj [(''type'', JStr ''text''), (''text'', JStr t)]])]
      @ (case structured of Some v \<Rightarrow> [(''structuredContent'', v)] | None \<Rightarrow> []) @ [(''isError'', JBool err)])"

definition executeToolCall :: "(real \<Rightarrow> string) \<Rightarrow> tool_map \<Rightarrow> js_val \<Rightarrow> (string \<times> js_val) list \<times> tool_outcome" where
  "executeToolCall num reg params =
     (case member_of params ''name'' of
        JStr (c # cs) \<Rightarrow>
          (let name = c # cs; args0 = member_of params ''arguments''; args = (if args0 = JUndefined \<or> args0 = JNull then JObj [] else args0)
           in case args of
                JObj ps \<Rightarrow>
                  (case tools_get reg name of
                     None \<Rightarrow> ([], ProtocolError INVALID_PARAMS (''Unknown tool: '' @ name))
                   | Some tool \<Rightarrow>
                       (if \<not> auto_tool tool then ([], ProtocolError INVALID_PARAMS (''Unknown tool: '' @ name))
                        else ([(name, args)],
                          case mt_execute tool args of
                            Inl e \<Rightarrow> text_result e None True
                          | Inr outcome \<Rightarrow>
                              (if mr_success outcome
                               then text_result (asText num (mr_output outcome)) (if is_object (mr_output outcome) then Some (mr_output outcome) else None) False
                               else text_result (case mr_error outcome of Some e \<Rightarrow> e | None \<Rightarrow> ''tool failed'') None True))))
              | _ \<Rightarrow> ([], ProtocolError INVALID_PARAMS ([CHR 0x27] @ ''arguments'' @ [CHR 0x27] @ '' must be an object'')))
      | _ \<Rightarrow> ([], ProtocolError INVALID_PARAMS (''tools/call requires a string '' @ [CHR 0x27] @ ''name'' @ [CHR 0x27])))"

section \<open>The dispatcher\<close>

record mcp_server =
  ms_registry :: tool_map
  ms_serverInfo :: js_val
  ms_instructions :: "string option"
  ms_supportedVersions :: "string list"
  ms_legacyCompat :: bool
  ms_cacheHints :: js_object

record mcp_server_options =
  so_registry :: tool_map
  so_serverInfo :: js_val
  so_instructions :: "string option"
  so_supportedVersions :: "string list option"
  so_legacyCompat :: "bool option"
  so_cacheHints :: "(real \<times> string) option"

definition createMCPServer :: "(string \<Rightarrow> string \<Rightarrow> bool) \<Rightarrow> (real \<Rightarrow> string) \<Rightarrow> mcp_server_options \<Rightarrow> string + mcp_server" where
  "createMCPServer le num opts =
     (let (ttl, cacheScope) = (case so_cacheHints opts of Some h \<Rightarrow> h | None \<Rightarrow> (0, ''public''))
      in if ttl < 0 then Inl (''MCP cacheHints.ttlMs must be a finite number >= 0, got '' @ num ttl)
         else case filter (\<lambda>tool. \<not> isValidInputSchema (mt_inputSchema tool)) (visibleTools le (so_registry opts)) of
                tool # rest \<Rightarrow> Inl (''MCP tool '' @ [CHR 0x22] @ mt_name tool @ [CHR 0x22] @ '' has an invalid inputSchema: must be a JSON Schema object'')
              | [] \<Rightarrow> Inr \<lparr>ms_registry = so_registry opts, ms_serverInfo = so_serverInfo opts, ms_instructions = so_instructions opts,
                  ms_supportedVersions = (case so_supportedVersions opts of Some vs \<Rightarrow> vs | None \<Rightarrow> [MODERN_PROTOCOL_VERSION]),
                  ms_legacyCompat = (case so_legacyCompat opts of Some b \<Rightarrow> b | None \<Rightarrow> True),
                  ms_cacheHints = [(''ttlMs'', JNum ttl), (''cacheScope'', JStr cacheScope)]\<rparr>)"

definition capabilities :: js_val where
  "capabilities = JObj [(''tools'', JObj [])]"

definition instructions_member :: "mcp_server \<Rightarrow> js_object" where
  "instructions_member sv = (case ms_instructions sv of Some s \<Rightarrow> [(''instructions'', JStr s)] | None \<Rightarrow> [])"

definition discoverResult :: "mcp_server \<Rightarrow> js_val" where
  "discoverResult sv = JObj ([(''resultType'', JStr ''complete''), (''supportedVersions'', JArr (map JStr (ms_supportedVersions sv))),
     (''capabilities'', capabilities), (''_meta'', JObj [(META_SERVER_INFO, ms_serverInfo sv)])] @ instructions_member sv @ ms_cacheHints sv)"

definition negotiateLegacyVersion :: "js_val \<Rightarrow> string" where
  "negotiateLegacyVersion params =
     (case member_of params ''protocolVersion'' of
        JStr v \<Rightarrow> if v \<in> set LEGACY_PROTOCOL_VERSIONS then v else hd LEGACY_PROTOCOL_VERSIONS
      | _ \<Rightarrow> hd LEGACY_PROTOCOL_VERSIONS)"

definition initializeResult :: "mcp_server \<Rightarrow> js_val \<Rightarrow> js_val" where
  "initializeResult sv params = JObj ([(''protocolVersion'', JStr (negotiateLegacyVersion params)), (''capabilities'', capabilities),
     (''serverInfo'', ms_serverInfo sv)] @ instructions_member sv)"

record mcp_env =
  me_le :: "string \<Rightarrow> string \<Rightarrow> bool"
  me_num :: "real \<Rightarrow> string"
  me_parse :: "string \<Rightarrow> js_val option"
  me_base64 :: "string \<Rightarrow> string"

type_synonym handled = "(string \<times> js_val) list \<times> rpc_response option"

definition answer_call :: "js_val \<Rightarrow> js_object \<Rightarrow> (string \<times> js_val) list \<times> tool_outcome \<Rightarrow> handled" where
  "answer_call i envelope r =
     (fst r, Some (case snd r of ProtocolError code msg \<Rightarrow> errorResponse i code msg | ToolOutcome ms \<Rightarrow> RpcResult i (JObj (envelope @ ms))))"

definition modern_request :: "mcp_env \<Rightarrow> mcp_server \<Rightarrow> js_val \<Rightarrow> string \<Rightarrow> js_val \<Rightarrow> handled" where
  "modern_request env sv i method params =
     (if method = ''server/discover'' then ([], Some (RpcResult i (discoverResult sv)))
      else if method = ''ping'' then ([], Some (RpcResult i (JObj [])))
      else if method = ''tools/list'' then
        ([], Some (RpcResult i (JObj ([(''resultType'', JStr ''complete''), (''tools'', wireToolDefs (me_le env) (ms_registry sv))] @ ms_cacheHints sv))))
      else if method = ''tools/call'' then answer_call i [(''resultType'', JStr ''complete'')] (executeToolCall (me_num env) (ms_registry sv) params)
      else ([], Some (errorResponse i METHOD_NOT_FOUND (''Method not found: '' @ method))))"

definition legacy_request :: "mcp_env \<Rightarrow> mcp_server \<Rightarrow> js_val \<Rightarrow> string \<Rightarrow> js_val \<Rightarrow> handled" where
  "legacy_request env sv i method params =
     (if method = ''initialize'' then
        (if \<not> ms_legacyCompat sv then ([], Some (unsupportedVersionResponse i None (ms_supportedVersions sv)))
         else ([], Some (RpcResult i (initializeResult sv params))))
      else if method = ''ping'' then ([], Some (RpcResult i (JObj [])))
      else if \<not> ms_legacyCompat sv then ([], Some (unsupportedVersionResponse i None (ms_supportedVersions sv)))
      else if method = ''tools/list'' then ([], Some (RpcResult i (JObj [(''tools'', wireToolDefs (me_le env) (ms_registry sv))])))
      else if method = ''tools/call'' then answer_call i [] (executeToolCall (me_num env) (ms_registry sv) params)
      else ([], Some (errorResponse i METHOD_NOT_FOUND (''Method not found: '' @ method))))"

definition request_id :: "js_val \<Rightarrow> js_val option" where
  "request_id message = (case member_of message ''id'' of JStr s \<Rightarrow> Some (JStr s) | JNum x \<Rightarrow> Some (JNum x) | _ \<Rightarrow> None)"

definition dispatch :: "mcp_env \<Rightarrow> mcp_server \<Rightarrow> js_val \<Rightarrow> handled" where
  "dispatch env sv message =
     (if \<not> (case message of JObj ps \<Rightarrow> True | _ \<Rightarrow> False) then ([], Some (errorResponse JNull INVALID_REQUEST ''not a JSON-RPC message''))
      else case (if member_of message ''jsonrpc'' = JStr ''2.0'' then member_of message ''method'' else JUndefined) of
             JStr method \<Rightarrow>
               (case request_id message of
                  None \<Rightarrow> ([], None)
                | Some i \<Rightarrow>
                    (if starts_with method ''notifications/'' then ([], Some (RpcResult i (JObj [])))
                     else case requestedProtocolVersion message of
                            Some version \<Rightarrow>
                              (if version \<notin> set (ms_supportedVersions sv) then ([], Some (unsupportedVersionResponse i (Some version) (ms_supportedVersions sv)))
                               else modern_request env sv i method (member_of message ''params''))
                          | None \<Rightarrow> legacy_request env sv i method (member_of message ''params'')))
           | _ \<Rightarrow> ([], map_option (\<lambda>i. errorResponse i INVALID_REQUEST ''invalid JSON-RPC request'') (request_id message)))"

section \<open>The endpoint\<close>

datatype origin_policy = NoOrigins | OriginList "string list" | OriginTest "string \<Rightarrow> bool"

type_synonym headers = "string \<Rightarrow> string option"

definition originAllowed :: "string \<Rightarrow> origin_policy \<Rightarrow> bool" where
  "originAllowed origin policy = (case policy of NoOrigins \<Rightarrow> False | OriginTest f \<Rightarrow> f origin | OriginList os \<Rightarrow> origin \<in> set os)"

definition ends_with :: "string \<Rightarrow> string \<Rightarrow> bool" where
  "ends_with s w = starts_with (rev s) (rev w)"

definition decodeSentinel :: "(string \<Rightarrow> string) \<Rightarrow> string \<Rightarrow> string" where
  "decodeSentinel base64 value =
     (if starts_with value ''=?base64?'' \<and> ends_with value ''?='' then base64 (take (length value - 2 - 9) (drop 9 value)) else value)"

definition mismatch_text :: "string \<Rightarrow> string \<Rightarrow> string \<Rightarrow> string" where
  "mismatch_text name h b = name @ '' header '' @ [CHR 0x27] @ h @ [CHR 0x27] @ '' does not match body value '' @ [CHR 0x27] @ b @ [CHR 0x27]"

definition named_methods :: "string list" where
  "named_methods = [''tools/call'', ''resources/read'', ''prompts/get'']"

definition validateHeaders :: "mcp_env \<Rightarrow> headers \<Rightarrow> js_val \<Rightarrow> string \<Rightarrow> string option" where
  "validateHeaders env header msg bodyVersion =
     (case header ''mcp-protocol-version'' of
        None \<Rightarrow> Some ''missing MCP-Protocol-Version header''
      | Some hv \<Rightarrow>
          if hv \<noteq> bodyVersion then Some (mismatch_text ''MCP-Protocol-Version'' hv bodyVersion)
          else (let method = member_of msg ''method''
                in case header ''mcp-method'' of
                     None \<Rightarrow> Some ''missing Mcp-Method header''
                   | Some hm \<Rightarrow>
                       if JStr hm \<noteq> method then Some (mismatch_text ''Mcp-Method'' hm (js_text (me_num env) method))
                       else if hm \<notin> set named_methods then None
                       else (let bodyName = (case paramsOf msg of None \<Rightarrow> JUndefined | Some p \<Rightarrow> member_of p (if hm = ''resources/read'' then ''uri'' else ''name''))
                             in case header ''mcp-name'' of
                                  None \<Rightarrow> Some ''missing Mcp-Name header''
                                | Some hn \<Rightarrow>
                                    if JStr (decodeSentinel (me_base64 env) hn) \<noteq> bodyName
                                    then Some (mismatch_text ''Mcp-Name'' hn (js_text (me_num env) bodyName)) else None)))"

definition httpStatusFor :: "rpc_response \<Rightarrow> nat" where
  "httpStatusFor response =
     (case response of
        RpcResult i v \<Rightarrow> 200
      | RpcError i code msg d \<Rightarrow>
          if code = METHOD_NOT_FOUND then 404
          else if code = UNSUPPORTED_PROTOCOL_VERSION \<or> code = HEADER_MISMATCH \<or> code = PARSE_ERROR \<or> code = INVALID_REQUEST then 400
          else 200)"

text \<open>\<open>POST /\<close>: the tools run, the status, and the body if there is one.\<close>

definition mcp_post :: "mcp_env \<Rightarrow> mcp_server \<Rightarrow> origin_policy \<Rightarrow> headers \<Rightarrow> string \<Rightarrow> (string \<times> js_val) list \<times> nat \<times> rpc_response option" where
  "mcp_post env sv policy header body =
     (if (case header ''origin'' of Some o1 \<Rightarrow> \<not> originAllowed o1 policy | None \<Rightarrow> False)
      then ([], 403, Some (errorResponse JNull INVALID_REQUEST ''Origin not allowed''))
      else case me_parse env body of
             None \<Rightarrow> ([], 400, Some (errorResponse JNull PARSE_ERROR ''Parse error''))
           | Some message \<Rightarrow>
               (case (case (requestedProtocolVersion message, request_id message) of
                        (Some version, Some i) \<Rightarrow> map_option (\<lambda>t. (i, t)) (validateHeaders env header message version)
                      | _ \<Rightarrow> None) of
                  Some (i, mismatch) \<Rightarrow> ([], 400, Some (errorResponse i HEADER_MISMATCH mismatch))
                | None \<Rightarrow>
                    (let (used, response) = dispatch env sv message
                     in case response of None \<Rightarrow> (used, 202, None) | Some r \<Rightarrow> (used, httpStatusFor r, Some r))))"

section \<open>What is answered\<close>

lemma executed_tool:
  assumes "fst (executeToolCall num reg params) = used" "used \<noteq> []"
  obtains name args tool where "used = [(name, args)]" "member_of params ''name'' = JStr name" "js_get reg name = Some tool" "auto_tool tool"
  using assms unfolding executeToolCall_def Let_def tools_get_def by (auto split: js_val.splits list.splits option.splits if_splits)

lemma dispatch_runs:
  assumes "fst (dispatch env sv message) = used" "used \<noteq> []"
  shows "fst (executeToolCall (me_num env) (ms_registry sv) (member_of message ''params'')) = used \<and> member_of message ''method'' = JStr ''tools/call''
    \<and> request_id message \<noteq> None \<and> (case requestedProtocolVersion message of Some v \<Rightarrow> v \<in> set (ms_supportedVersions sv) | None \<Rightarrow> ms_legacyCompat sv)"
  using assms unfolding dispatch_def modern_request_def legacy_request_def answer_call_def
  by (auto split: js_val.splits option.splits if_splits)

text \<open>
  C28. Every request is answered with its own id, and nothing else is: an object with a text or number as id gets exactly one response,
  which carries that id; an object without one gets none; anything that is not an object gets an error with the id null. A request runs at most one tool, and only
  a tool that needs no confirmation.
\<close>

theorem mcp_answers_requests:
  "(case message of
      JObj ps \<Rightarrow> map_option rpc_id (snd (dispatch env sv message)) = request_id message
    | _ \<Rightarrow> snd (dispatch env sv message) = Some (errorResponse JNull INVALID_REQUEST ''not a JSON-RPC message''))
   \<and> (fst (dispatch env sv message) = [] \<or> (\<exists>name args tool. fst (dispatch env sv message) = [(name, args)]
        \<and> js_get (ms_registry sv) name = Some tool \<and> auto_tool tool))"
proof
  have i: "rpc_id (errorResponse i c t) = i" "rpc_id (unsupportedVersionResponse i r s) = i" for i c t r s
    by (simp_all add: errorResponse_def unsupportedVersionResponse_def)
  have m: "\<exists>z. snd (modern_request env sv i mt ps) = Some z \<and> rpc_id z = i" for i mt ps
    by (simp add: modern_request_def answer_call_def i split: tool_outcome.split)
  have l: "\<exists>z. snd (legacy_request env sv i mt ps) = Some z \<and> rpc_id z = i" for i mt ps
    by (simp add: legacy_request_def answer_call_def i split: tool_outcome.split)
  show "case message of
      JObj ps \<Rightarrow> map_option rpc_id (snd (dispatch env sv message)) = request_id message
    | _ \<Rightarrow> snd (dispatch env sv message) = Some (errorResponse JNull INVALID_REQUEST ''not a JSON-RPC message'')"
    by (cases message) (auto simp: dispatch_def i m l option.map_comp option.map_ident comp_def split: js_val.split option.split)
  show "fst (dispatch env sv message) = [] \<or> (\<exists>name args tool. fst (dispatch env sv message) = [(name, args)]
        \<and> js_get (ms_registry sv) name = Some tool \<and> auto_tool tool)"
    using dispatch_runs [OF refl, of env sv message] by (metis executed_tool)
qed

text \<open>
  C29. What a modern request runs is what its headers say: when a POST whose body declares a protocol version runs a tool, its
  origin was allowed, the version header is the declared and supported version, the method header says \<open>tools/call\<close>, the name header decodes to the
  tool that ran, and that tool needs no confirmation. So an intermediary that decides by the headers decides about the tool.
\<close>

theorem mcp_headers_name_the_tool:
  assumes "me_parse env body = Some message" "requestedProtocolVersion message = Some version"
    and "mcp_post env sv policy header body = (used, status, response)" "used \<noteq> []"
  shows "\<exists>name args tool hn. used = [(name, args)] \<and> js_get (ms_registry sv) name = Some tool \<and> auto_tool tool
    \<and> header ''mcp-protocol-version'' = Some version \<and> version \<in> set (ms_supportedVersions sv) \<and> header ''mcp-method'' = Some ''tools/call''
    \<and> header ''mcp-name'' = Some hn \<and> decodeSentinel (me_base64 env) hn = name
    \<and> (header ''origin'' = None \<or> originAllowed (the (header ''origin'')) policy)"
proof -
  have origin: "header ''origin'' = None \<or> originAllowed (the (header ''origin'')) policy"
  proof (cases "header ''origin''")
    case (Some o1)
    with assms(3,4) show ?thesis by (cases "originAllowed o1 policy") (auto simp: mcp_post_def)
  qed simp
  from assms(3,4) have "fst (dispatch env sv message) = used \<and> (request_id message = None \<or> validateHeaders env header message version = None)"
    by (auto simp: mcp_post_def assms(1,2) split: option.splits prod.splits if_splits)
  with dispatch_runs [of env sv message used] assms(2,4) have d: "fst (executeToolCall (me_num env) (ms_registry sv) (member_of message ''params'')) = used"
    "member_of message ''method'' = JStr ''tools/call''" "version \<in> set (ms_supportedVersions sv)" "validateHeaders env header message version = None" by auto
  from executed_tool [OF d(1) assms(4)] obtain name args tool where e: "used = [(name, args)]" "member_of (member_of message ''params'') ''name'' = JStr name"
    "js_get (ms_registry sv) name = Some tool" "auto_tool tool" .
  from e(2) have p: "paramsOf message = Some (member_of message ''params'')"
    using d(2) by (auto simp: paramsOf_def Let_def is_object_def member_of_def split: js_val.splits option.splits)
  from d(4) have "header ''mcp-protocol-version'' = Some version \<and> header ''mcp-method'' = Some ''tools/call''
      \<and> (\<exists>hn. header ''mcp-name'' = Some hn \<and> JStr (decodeSentinel (me_base64 env) hn) = JStr name)"
    unfolding validateHeaders_def d(2) p Let_def option.case e(2) by (auto simp: named_methods_def e(2) split: option.splits if_splits)
  then obtain hn where "header ''mcp-protocol-version'' = Some version" "header ''mcp-method'' = Some ''tools/call''"
    "header ''mcp-name'' = Some hn" "decodeSentinel (me_base64 env) hn = name" by auto
  with e origin d(3) show ?thesis by blast
qed

definition echo_tool :: mcp_tool where
  "echo_tool = \<lparr>mt_name = ''echo'', mt_description = ''Echo'', mt_inputSchema = JObj [], mt_title = None, mt_outputSchema = None,
     mt_permission = None, mt_execute = \<lambda>v. Inr (tool_success v)\<rparr>"

definition echo_server :: mcp_server where
  "echo_server = \<lparr>ms_registry = [(''echo'', echo_tool)], ms_serverInfo = JObj [], ms_instructions = None,
     ms_supportedVersions = [MODERN_PROTOCOL_VERSION], ms_legacyCompat = True, ms_cacheHints = []\<rparr>"

definition call_body :: "js_object \<Rightarrow> js_val" where
  "call_body meta = JObj [(''jsonrpc'', JStr ''2.0''), (''id'', JStr ''1''), (''method'', JStr ''tools/call''),
     (''params'', JObj ([(''name'', JStr ''echo'')] @ meta))]"

definition demo_env :: "js_object \<Rightarrow> mcp_env" where
  "demo_env meta = \<lparr>me_le = \<lambda>a b. True, me_num = \<lambda>x. ''0'', me_parse = \<lambda>s. Some (call_body meta), me_base64 = id\<rparr>"

definition demo_headers :: "string \<Rightarrow> headers" where
  "demo_headers n h = (if h = ''mcp-protocol-version'' then Some MODERN_PROTOCOL_VERSION else if h = ''mcp-method'' then Some ''tools/call''
     else if h = ''mcp-name'' then Some n else None)"

definition modern_meta :: js_object where
  "modern_meta = [(''_meta'', JObj [(META_PROTOCOL_VERSION, JStr MODERN_PROTOCOL_VERSION)])]"

theorem mcp_headers_name_the_tool_witness:
  "fst (mcp_post (demo_env modern_meta) echo_server NoOrigins (demo_headers ''echo'') ''body'') = [(''echo'', JObj [])]
   \<and> (\<exists>hn. demo_headers ''echo'' ''mcp-name'' = Some hn \<and> decodeSentinel id hn = ''echo'')"
proof -
  let ?e = "demo_env modern_meta" and ?m = "call_body modern_meta"
  have p: "me_parse ?e ''body'' = Some ?m" "me_base64 ?e = id" by (simp_all add: demo_env_def)
  have v: "requestedProtocolVersion ?m = Some MODERN_PROTOCOL_VERSION"
    by (simp add: requestedProtocolVersion_def metaOf_def paramsOf_def call_body_def modern_meta_def member_of_def is_object_def Let_def)
  obtain used status response where post: "mcp_post ?e echo_server NoOrigins (demo_headers ''echo'') ''body'' = (used, status, response)" by (metis prod.exhaust)
  have "fst (mcp_post ?e echo_server NoOrigins (demo_headers ''echo'') ''body'') = [(''echo'', JObj [])]" by code_simp
  then have u: "used = [(''echo'', JObj [])]" "used \<noteq> []" by (simp_all add: post)
  from mcp_headers_name_the_tool [OF p(1) v post u(2)] show ?thesis by (auto simp: u post p(2))
qed

text \<open>
  A body that declares no version is taken for one of an old client, and its headers are not compared: the tool \<open>echo\<close> runs although the name header
  says otherwise.
\<close>

lemma legacy_bodies_skip_the_headers:
  "fst (mcp_post (demo_env []) echo_server NoOrigins (demo_headers ''other'') ''body'') = [(''echo'', JObj [])]"
  "fst (mcp_post (demo_env modern_meta) echo_server NoOrigins (demo_headers ''other'') ''body'') = []"
  by code_simp+

end
