(* ===== verification/Mcp_Client.thy ===== *)
theory Mcp_Client
  imports Mcp_Server
begin

text \<open>
  The MCP client (\<open>ai/tool/mcp/mcp-client.ts\<close>) over a transport that answers or rejects, its transports over HTTP and over a child process
  (\<open>http-sse-transport.ts\<close>, \<open>stdio-transport.ts\<close>), and the loop that serves a server on standard streams (\<open>mcp-server/stdio.ts\<close>).
\<close>

section \<open>The client\<close>

definition rpc_request :: "nat \<Rightarrow> string \<Rightarrow> js_object \<Rightarrow> js_val" where
  "rpc_request i method params = JObj ([(''jsonrpc'', JStr ''2.0''), (''id'', JNum (real i)), (''method'', JStr method)] @ params)"

text \<open>One request with the next id; an error response is thrown.\<close>

definition rpc :: "(js_val \<Rightarrow> string + rpc_response) \<Rightarrow> nat \<Rightarrow> string \<Rightarrow> js_object \<Rightarrow> (string + js_val) \<times> nat" where
  "rpc send requestId method params =
     (case send (rpc_request (requestId + 1) method params) of
        Inl e \<Rightarrow> (Inl e, requestId + 1)
      | Inr (RpcError i code msg d) \<Rightarrow> (Inl (''MCP error ['' @ int_str code @ '']: '' @ msg), requestId + 1)
      | Inr (RpcResult i v) \<Rightarrow> (Inr v, requestId + 1))"

definition client_initialize :: "(js_val \<Rightarrow> string + rpc_response) \<Rightarrow> nat \<Rightarrow> (string + js_val) \<times> nat" where
  "client_initialize send requestId =
     (case rpc send requestId ''initialize'' [(''params'', JObj [(''protocolVersion'', JStr ''2024-11-05''), (''capabilities'', JObj []),
         (''clientInfo'', JObj [(''name'', JStr ''teob-ts''), (''version'', JStr ''1.0.0'')])])] of
        (Inl e, n) \<Rightarrow> (Inl e, n)
      | (Inr v, n) \<Rightarrow>
          (case send (rpc_request (n + 1) ''notifications/initialized'' []) of Inl e \<Rightarrow> (Inl e, n + 1) | Inr r \<Rightarrow> (Inr v, n + 1)))"

definition client_listTools :: "(js_val \<Rightarrow> string + rpc_response) \<Rightarrow> nat \<Rightarrow> (string + js_val) \<times> nat" where
  "client_listTools send requestId =
     (case rpc send requestId ''tools/list'' [] of (Inl e, n) \<Rightarrow> (Inl e, n) | (Inr v, n) \<Rightarrow> (Inr (member_of v ''tools''), n))"

definition tryParseJson :: "(string \<Rightarrow> js_val option) \<Rightarrow> string \<Rightarrow> js_val" where
  "tryParseJson parse asx' = (case parse asx' of Some v \<Rightarrow> v | None \<Rightarrow> JStr asx')"

text \<open>The texts of the content blocks that have one.\<close>

definition block_text :: "js_val \<Rightarrow> string option" where
  "block_text c = (if member_of c ''type'' = JStr ''text'' then (case member_of c ''text'' of JStr (x # xs) \<Rightarrow> Some (x # xs) | _ \<Rightarrow> None) else None)"

text \<open>A result without content makes the filter throw; the text of that error is an argument.\<close>

definition client_callTool :: "(js_val \<Rightarrow> string + rpc_response) \<Rightarrow> (string \<Rightarrow> js_val option) \<Rightarrow> string \<Rightarrow> nat \<Rightarrow> string \<Rightarrow> js_val \<Rightarrow> mcp_result \<times> nat" where
  "client_callTool send parse typeError requestId name args =
     (case rpc send requestId ''tools/call'' [(''params'', JObj [(''name'', JStr name), (''arguments'', args)])] of
        (Inl e, n) \<Rightarrow> (tool_failure e, n)
      | (Inr v, n) \<Rightarrow>
          (case member_of v ''content'' of
             JArr cs \<Rightarrow>
               (let t = join_str [CHR 0x0A] (List.map_filter block_text cs)
                in (if member_of v ''isError'' = JBool True then tool_failure (if t \<noteq> [] then t else ''Tool execution failed'')
                    else tool_success (if t \<noteq> [] then tryParseJson parse t else JNull), n))
           | _ \<Rightarrow> (tool_failure typeError, n)))"

definition remote_tool :: "(nat \<Rightarrow> string \<Rightarrow> js_val \<Rightarrow> mcp_result) \<Rightarrow> nat \<Rightarrow> js_val \<Rightarrow> mcp_tool" where
  "remote_tool callTool n def =
     (let name = (case member_of def ''name'' of JStr s \<Rightarrow> s | _ \<Rightarrow> [])
      in \<lparr>mt_name = name, mt_description = (case member_of def ''description'' of JStr s \<Rightarrow> s | _ \<Rightarrow> []), mt_inputSchema = member_of def ''inputSchema'',
          mt_title = None, mt_outputSchema = None, mt_permission = None, mt_execute = \<lambda>input. Inr (callTool n name input)\<rparr>)"

text \<open>The remote tools as tools of a registry; they call with the ids from \<open>n\<close> on.\<close>

definition client_registerAll ::
  "(js_val \<Rightarrow> string + rpc_response) \<Rightarrow> (string \<Rightarrow> js_val option) \<Rightarrow> string \<Rightarrow> nat \<Rightarrow> tool_map \<Rightarrow> (string + tool_map) \<times> nat" where
  "client_registerAll send parse typeError requestId reg =
     (case client_listTools send requestId of
        (Inl e, n) \<Rightarrow> (Inl e, n)
      | (Inr v, n) \<Rightarrow>
          (case v of
             JArr defs \<Rightarrow> (Inr (foldl (\<lambda>r def. tools_register (remote_tool (\<lambda>i name args. fst (client_callTool send parse typeError i name args)) n def) r) reg defs), n)
           | _ \<Rightarrow> (Inl typeError, n)))"

section \<open>Serving on streams\<close>

definition handleLine :: "mcp_env \<Rightarrow> mcp_server \<Rightarrow> string \<Rightarrow> (string \<times> js_val) list \<times> rpc_response list" where
  "handleLine env sv line =
     (let trimmed = trim_text line
      in if trimmed = [] then ([], [])
         else case me_parse env trimmed of
                None \<Rightarrow> ([], [errorResponse JNull PARSE_ERROR ''Parse error''])
              | Some message \<Rightarrow> (let (used, response) = dispatch env sv message in (used, case response of None \<Rightarrow> [] | Some r \<Rightarrow> [r])))"

text \<open>The lines are handled one after the other: their frames are written in order.\<close>

fun serveStdio :: "mcp_env \<Rightarrow> mcp_server \<Rightarrow> string list \<Rightarrow> (string \<times> js_val) list \<times> rpc_response list" where
  "serveStdio env sv [] = ([], [])"
| "serveStdio env sv (l # ls) =
     (let (u1, f1) = handleLine env sv l; (u2, f2) = serveStdio env sv ls in (u1 @ u2, f1 @ f2))"

lemma frames_in_order: "serveStdio env sv (xs @ ys) = (fst (serveStdio env sv xs) @ fst (serveStdio env sv ys), snd (serveStdio env sv xs) @ snd (serveStdio env sv ys))"
  by (induction xs) (auto simp: case_prod_beta Let_def)

section \<open>The transport over a child process\<close>

datatype settled = Resolved rpc_response | Rejected string

text \<open>The processes are numbered in the order of their start; the one in use may be none.\<close>

record stdio =
  st_process :: "nat option"
  st_spawned :: nat
  st_pending :: "nat list"
  st_settled :: "(nat \<times> settled) list"

definition stdio_start :: stdio where
  "stdio_start = \<lparr>st_process = None, st_spawned = 0, st_pending = [], st_settled = []\<rparr>"

definition ensureProcess :: "stdio \<Rightarrow> stdio" where
  "ensureProcess s = (case st_process s of Some p \<Rightarrow> s | None \<Rightarrow> s\<lparr>st_process := Some (st_spawned s), st_spawned := st_spawned s + 1\<rparr>)"

definition settle :: "nat \<Rightarrow> settled \<Rightarrow> stdio \<Rightarrow> stdio" where
  "settle i r s = (if i \<in> set (st_pending s) then s\<lparr>st_pending := filter (\<lambda>x. x \<noteq> i) (st_pending s), st_settled := st_settled s @ [(i, r)]\<rparr> else s)"

definition reject_all :: "string \<Rightarrow> stdio \<Rightarrow> stdio" where
  "reject_all why s = s\<lparr>st_pending := [], st_settled := st_settled s @ map (\<lambda>i. (i, Rejected why)) (st_pending s)\<rparr>"

definition stdio_send :: "nat \<Rightarrow> stdio \<Rightarrow> stdio" where
  "stdio_send i s = (let s1 = ensureProcess s in s1\<lparr>st_pending := js_add i (st_pending s1)\<rparr>)"

definition stdio_line :: "nat \<Rightarrow> rpc_response \<Rightarrow> stdio \<Rightarrow> stdio" where
  "stdio_line i r s = settle i (Resolved r) s"

definition write_failed :: "nat \<Rightarrow> string \<Rightarrow> stdio \<Rightarrow> stdio" where
  "write_failed i e s = settle i (Rejected e) s"

text \<open>The exit of any process, also of one that was killed before.\<close>

definition stdio_exit :: "stdio \<Rightarrow> stdio" where
  "stdio_exit s = (reject_all ''MCP process exited'' s)\<lparr>st_process := None\<rparr>"

definition stdio_close :: "stdio \<Rightarrow> stdio" where
  "stdio_close s = reject_all ''Transport closed'' (s\<lparr>st_process := None\<rparr>)"

datatype stdio_event = Send nat | Line nat rpc_response | WriteFailed nat string | Exit nat | Close

definition stdio_step :: "stdio_event \<Rightarrow> stdio \<Rightarrow> stdio" where
  "stdio_step ev s =
     (case ev of Send i \<Rightarrow> stdio_send i s | Line i r \<Rightarrow> stdio_line i r s | WriteFailed i e \<Rightarrow> write_failed i e s
      | Exit p \<Rightarrow> if p < st_spawned s then stdio_exit s else s | Close \<Rightarrow> stdio_close s)"

definition sent :: "stdio_event list \<Rightarrow> nat list" where
  "sent evs = List.map_filter (\<lambda>ev. case ev of Send i \<Rightarrow> Some i | _ \<Rightarrow> None) evs"

text \<open>Requests with numbers of their own: each is either waiting or settled once.\<close>

definition settled_once :: "nat list \<Rightarrow> stdio \<Rightarrow> bool" where
  "settled_once ids s \<longleftrightarrow> distinct (st_pending s @ map fst (st_settled s)) \<and> set (st_pending s @ map fst (st_settled s)) = set ids"

lemma settle_once: "settled_once ids s \<Longrightarrow> settled_once ids (settle i r s)"
  by (auto simp: settled_once_def settle_def)

lemma reject_all_once: "settled_once ids s \<Longrightarrow> settled_once ids (reject_all why s)"
  by (auto simp: settled_once_def reject_all_def comp_def)

lemma settled_once_process [simp]: "settled_once ids (s\<lparr>st_process := p\<rparr>) = settled_once ids s"
  by (simp add: settled_once_def)

lemma send_once: "settled_once ids s \<Longrightarrow> i \<notin> set ids \<Longrightarrow> settled_once (ids @ [i]) (stdio_send i s)"
  by (auto simp: settled_once_def stdio_send_def ensureProcess_def Let_def split: option.split)

lemma step_once:
  assumes "settled_once ids s" "\<And>i. ev = Send i \<Longrightarrow> i \<notin> set ids"
  shows "settled_once (ids @ (case ev of Send i \<Rightarrow> [i] | _ \<Rightarrow> [])) (stdio_step ev s)"
  using assms by (cases ev)
    (simp_all add: stdio_step_def stdio_line_def write_failed_def stdio_exit_def stdio_close_def settle_once reject_all_once send_once)

lemma stdio_settles_once: "distinct (sent evs) \<Longrightarrow> settled_once (sent evs) (foldl (\<lambda>s ev. stdio_step ev s) stdio_start evs)"
proof (induction evs rule: rev_induct)
  case Nil
  show ?case by (simp add: stdio_start_def sent_def List.map_filter_def settled_once_def)
next
  case (snoc ev evs)
  have app: "sent (evs @ [ev]) = sent evs @ (case ev of Send i \<Rightarrow> [i] | _ \<Rightarrow> [])"
    by (simp add: sent_def List.map_filter_def split: stdio_event.split)
  with snoc have "settled_once (sent evs) (foldl (\<lambda>s ev. stdio_step ev s) stdio_start evs)" by simp
  moreover have "i \<notin> set (sent evs)" if "ev = Send i" for i using snoc.prems unfolding app by (simp add: that)
  ultimately show ?case unfolding app foldl_append foldl.simps by (rule step_once)
qed

text \<open>A process that was closed exits later: by then the requests of the process started after it are rejected, and the new process is forgotten.\<close>

lemma late_exit_rejects_new_requests:
  "st_settled (foldl (\<lambda>s ev. stdio_step ev s) stdio_start [Send 1, Close, Send 2, Exit 0]) = [(1, Rejected ''Transport closed''), (2, Rejected ''MCP process exited'')]
   \<and> st_process (foldl (\<lambda>s ev. stdio_step ev s) stdio_start [Send 1, Close, Send 2, Exit 0]) = None
   \<and> st_spawned (foldl (\<lambda>s ev. stdio_step ev s) stdio_start [Send 1, Close, Send 2, Exit 0]) = 2"
  by code_simp

section \<open>A client and a server\<close>

text \<open>A transport that hands each request to a server.\<close>

definition server_transport :: "mcp_env \<Rightarrow> mcp_server \<Rightarrow> js_val \<Rightarrow> string + rpc_response" where
  "server_transport env sv message = (case snd (dispatch env sv message) of Some r \<Rightarrow> Inr r | None \<Rightarrow> Inl ''no response'')"

lemma call_dispatched:
  assumes "ms_legacyCompat sv"
  shows "dispatch env sv (rpc_request i ''tools/call'' [(''params'', JObj [(''name'', JStr name), (''arguments'', JObj ps)])])
    = answer_call (JNum (real i)) [] (executeToolCall (me_num env) (ms_registry sv) (JObj [(''name'', JStr name), (''arguments'', JObj ps)]))"
  using assms by (simp add: dispatch_def rpc_request_def member_of_def request_id_def requestedProtocolVersion_def metaOf_def paramsOf_def is_object_def
      legacy_request_def Let_def)

lemma call_executed:
  assumes "js_get (ms_registry sv) name = Some tool" "auto_tool tool" "name \<noteq> []"
  shows "executeToolCall num (ms_registry sv) (JObj [(''name'', JStr name), (''arguments'', JObj ps)]) = ([(name, JObj ps)],
    case mt_execute tool (JObj ps) of
      Inl e \<Rightarrow> text_result e None True
    | Inr outcome \<Rightarrow>
        (if mr_success outcome
         then text_result (asText num (mr_output outcome)) (if is_object (mr_output outcome) then Some (mr_output outcome) else None) False
         else text_result (case mr_error outcome of Some e \<Rightarrow> e | None \<Rightarrow> ''tool failed'') None True))"
  using assms by (cases name) (simp_all add: executeToolCall_def member_of_def tools_get_def Let_def)

text \<open>The text of a result as the client reads it back.\<close>

definition read_back :: "(string \<Rightarrow> js_val option) \<Rightarrow> string \<Rightarrow> bool \<Rightarrow> mcp_result" where
  "read_back parse t err =
     (if err then tool_failure (if t \<noteq> [] then t else ''Tool execution failed'') else tool_success (if t \<noteq> [] then tryParseJson parse t else JNull))"

lemma result_read_back:
  assumes "send (rpc_request (n + 1) ''tools/call'' [(''params'', JObj [(''name'', JStr name), (''arguments'', args)])])
      = Inr (RpcResult i (JObj (case text_result t structured err of ToolOutcome ms \<Rightarrow> ms | _ \<Rightarrow> [])))"
  shows "client_callTool send parse te n name args = (read_back parse t err, n + 1)"
  using assms by (cases structured; cases t)
    (simp_all add: client_callTool_def rpc_def text_result_def member_of_def block_text_def List.map_filter_def read_back_def Let_def)

text \<open>
  A tool called over MCP runs once and gives what it gives when it is called at home: for every tool of the server that needs no
  confirmation, the client's answer is a failure with the error of the tool, or its output read back from its text. An output that is an object
  comes back unchanged when the JSON parser inverts the printer on it.
\<close>

lemma remote_call_equals_local:
  assumes "js_get (ms_registry sv) name = Some tool" "auto_tool tool" "name \<noteq> []" "ms_legacyCompat sv" "mt_execute tool (JObj ps) = Inr r"
    and "is_object (mr_output r)" "parse (stringify (me_num env) (mr_output r)) = Some (mr_output r)" "stringify (me_num env) (mr_output r) \<noteq> []"
  shows "fst (client_callTool (server_transport env sv) parse te n name (JObj ps)) =
      (if mr_success r then tool_success (mr_output r)
       else tool_failure (case mr_error r of Some [] \<Rightarrow> ''Tool execution failed'' | Some e \<Rightarrow> e | None \<Rightarrow> ''tool failed''))
    \<and> fst (dispatch env sv (rpc_request (n + 1) ''tools/call'' [(''params'', JObj [(''name'', JStr name), (''arguments'', JObj ps)])])) = [(name, JObj ps)]"
proof -
  let ?req = "rpc_request (n + 1) ''tools/call'' [(''params'', JObj [(''name'', JStr name), (''arguments'', JObj ps)])]"
  let ?t = "if mr_success r then stringify (me_num env) (mr_output r) else (case mr_error r of Some e \<Rightarrow> e | None \<Rightarrow> ''tool failed'')"
  let ?st = "if mr_success r then Some (mr_output r) else None"
  have asx: "asText (me_num env) (mr_output r) = stringify (me_num env) (mr_output r)"
    using assms(6) by (cases "mr_output r") (simp_all add: asText_def is_object_def)
  note call = call_executed [OF assms(1-3), of "me_num env" ps, unfolded assms(5) sum.case]
  have d: "dispatch env sv ?req = ([(name, JObj ps)], Some (RpcResult (JNum (real (n + 1)))
      (JObj (case text_result ?t ?st (\<not> mr_success r) of ToolOutcome ms \<Rightarrow> ms | _ \<Rightarrow> []))))"
    unfolding call_dispatched [OF assms(4)] call using assms(6) by (simp add: answer_call_def text_result_def asx)
  then have "server_transport env sv ?req = Inr (RpcResult (JNum (real (n + 1))) (JObj (case text_result ?t ?st (\<not> mr_success r) of ToolOutcome ms \<Rightarrow> ms | _ \<Rightarrow> [])))"
    by (simp only: server_transport_def snd_conv option.case)
  from result_read_back [where send = "server_transport env sv" and n = n and parse = parse and te = te, OF this] have "fst (client_callTool (server_transport env sv) parse te n name (JObj ps)) = read_back parse ?t (\<not> mr_success r)" by simp
  also have "\<dots> = (if mr_success r then tool_success (mr_output r)
       else tool_failure (case mr_error r of Some [] \<Rightarrow> ''Tool execution failed'' | Some e \<Rightarrow> e | None \<Rightarrow> ''tool failed''))"
    using assms(7,8) by (simp add: read_back_def tryParseJson_def split: option.split list.split)
  finally show ?thesis using d by (intro conjI) (simp_all only: fst_conv)
qed

lemma remote_call_equals_local_example:
  "fst (client_callTool (server_transport (demo_env []) echo_server) (\<lambda>s. Some (JObj [])) [] 0 ''echo'' (JObj [])) = tool_success (JObj [])"
proof -
  have "js_get (ms_registry echo_server) ''echo'' = Some echo_tool" "auto_tool echo_tool" "ms_legacyCompat echo_server"
    "mt_execute echo_tool (JObj []) = Inr (tool_success (JObj []))" by (simp_all add: echo_server_def echo_tool_def auto_tool_def)
  note e = this
  from remote_call_equals_local [OF e(1,2) _ e(3,4), where parse = "\<lambda>s. Some (JObj [])" and env = "demo_env []" and te = "[]" and n = 0]
  show ?thesis by (simp add: tool_success_def is_object_def)
qed

end
