(* ===== verification/Llm_Guard.thy ===== *)
theory Llm_Guard
  imports Llm_Service Node_Guard
begin

text \<open>
  Services that watch over another one: the budget of \<open>ai/llm/spend-guarded-llm-service.ts\<close> and the guardrails of \<open>ai/guardrail\<close>
  (\<open>types.ts\<close>, \<open>guardrails.ts\<close>, \<open>guardrail-chain.ts\<close>, \<open>guarded-llm-service.ts\<close>).
\<close>

section \<open>Budgets\<close>

definition no_spend :: spend_state where
  "no_spend = \<lparr>sp_totalCostUsd = 0, sp_totalTokens = 0, sp_callCount = 0\<rparr>"

definition over_budget :: "spend_budget \<Rightarrow> spend_state \<Rightarrow> bool" where
  "over_budget budget st \<longleftrightarrow>
     (case maxTotalCostUsd budget of Some x \<Rightarrow> sp_totalCostUsd st \<ge> x | None \<Rightarrow> False)
     \<or> (case maxTotalTokens budget of Some x \<Rightarrow> sp_totalTokens st \<ge> x | None \<Rightarrow> False)"

definition trackResult :: "llm_meta \<Rightarrow> spend_state \<Rightarrow> spend_state" where
  "trackResult m st = \<lparr>sp_totalCostUsd = sp_totalCostUsd st + (case lm_cost m of Some c \<Rightarrow> co_totalCostUsd c | None \<Rightarrow> 0),
     sp_totalTokens = sp_totalTokens st + us_totalTokens (lm_usage m), sp_callCount = sp_callCount st + 1\<rparr>"

text \<open>A tracked call, alone: checked, made, counted.\<close>

definition guarded_call :: "spend_budget \<Rightarrow> ('s \<Rightarrow> ('a \<times> llm_meta) answer \<times> 's) \<Rightarrow> 's \<times> spend_state \<Rightarrow> ('a \<times> llm_meta) answer \<times> 's \<times> spend_state" where
  "guarded_call budget op st =
     (if over_budget budget (snd st) then (Inl (SpendLimitExceeded budget (snd st)), st)
      else case op (fst st) of
             (Inl e, s) \<Rightarrow> (Inl e, (s, snd st))
           | (Inr (v, m), s) \<Rightarrow> (Inr (v, m), (s, trackResult m (snd st))))"

definition passed :: "('s \<Rightarrow> 'a \<times> 's) \<Rightarrow> 's \<times> spend_state \<Rightarrow> 'a \<times> 's \<times> spend_state" where
  "passed op st = (let (a, s) = op (fst st) in (a, (s, snd st)))"

definition createSpendGuardedLLMService :: "spend_budget \<Rightarrow> 's llm_service \<Rightarrow> ('s \<times> spend_state) llm_service" where
  "createSpendGuardedLLMService budget inner = \<lparr>
     ls_chat = \<lambda>ms json. passed (ls_chat inner ms json),
     ls_chatJson = \<lambda>ms p. passed (ls_chatJson inner ms p),
     ls_chatWithTools = \<lambda>ms ts schema cfg. passed (ls_chatWithTools inner ms ts schema cfg),
     ls_chatTracked = \<lambda>ms json. guarded_call budget (ls_chatTracked inner ms json),
     ls_chatWithToolsTracked = \<lambda>ms ts schema cfg. guarded_call budget (ls_chatWithToolsTracked inner ms ts schema cfg),
     ls_chatStream = \<lambda>ms ts schema cfg. passed (ls_chatStream inner ms ts schema cfg)\<rparr>"

text \<open>
  Concurrent callers: a tracked call checks when it starts and counts when it is answered, and between the two others may start.
  The state is the spend and the number of calls under way.
\<close>

datatype spend_event = StartCall | AnswerCall llm_meta | FailCall | ResetSpend

definition spend_step :: "spend_budget \<Rightarrow> spend_event \<Rightarrow> spend_state \<times> nat \<Rightarrow> spend_state \<times> nat" where
  "spend_step budget ev s =
     (case ev of
        StartCall \<Rightarrow> if over_budget budget (fst s) then s else (fst s, snd s + 1)
      | AnswerCall m \<Rightarrow> if snd s = 0 then s else (trackResult m (fst s), snd s - 1)
      | FailCall \<Rightarrow> (fst s, snd s - 1)
      | ResetSpend \<Rightarrow> (no_spend, snd s))"

text \<open>At most \<open>k\<close> calls are under way, and each answer reports at most \<open>m\<close> tokens.\<close>

fun spend_run_ok :: "spend_budget \<Rightarrow> nat \<Rightarrow> real \<Rightarrow> spend_state \<times> nat \<Rightarrow> spend_event list \<Rightarrow> bool" where
  "spend_run_ok budget k m s [] = (snd s \<le> k)"
| "spend_run_ok budget k m s (ev # evs) =
     (snd s \<le> k \<and> (case ev of AnswerCall x \<Rightarrow> 0 \<le> us_totalTokens (lm_usage x) \<and> us_totalTokens (lm_usage x) \<le> m | _ \<Rightarrow> True)
      \<and> spend_run_ok budget k m (spend_step budget ev s) evs)"

definition spend_run :: "spend_budget \<Rightarrow> spend_event list \<Rightarrow> spend_state \<times> nat" where
  "spend_run budget evs = foldl (\<lambda>s ev. spend_step budget ev s) (no_spend, 0) evs"

text \<open>The tokens that the calls under way may still report are part of the bound.\<close>

definition spend_inv :: "real \<Rightarrow> nat \<Rightarrow> real \<Rightarrow> spend_state \<times> nat \<Rightarrow> bool" where
  "spend_inv mx k m s \<longleftrightarrow> sp_totalTokens (fst s) + m * real (snd s) < mx + m * real k"

lemma spend_step_inv:
  assumes inv: "spend_inv mx k m s" and b: "maxTotalTokens budget = Some mx" and mx: "0 < mx" "0 \<le> m"
    and ok: "case ev of AnswerCall x \<Rightarrow> 0 \<le> us_totalTokens (lm_usage x) \<and> us_totalTokens (lm_usage x) \<le> m | _ \<Rightarrow> True"
    and k: "snd (spend_step budget ev s) \<le> k"
  shows "spend_inv mx k m (spend_step budget ev s)"
proof (cases ev)
  case StartCall
  show ?thesis
  proof (cases "over_budget budget (fst s)")
    case False
    then have "sp_totalTokens (fst s) < mx" using b by (simp add: over_budget_def)
    moreover have "m * real (snd s + 1) \<le> m * real k" using k False mx(2) by (intro mult_left_mono) (simp_all add: spend_step_def StartCall)
    ultimately show ?thesis using False by (simp add: spend_step_def StartCall spend_inv_def)
  qed (use inv in \<open>simp add: spend_step_def StartCall\<close>)
next
  case (AnswerCall x)
  then have "us_totalTokens (lm_usage x) \<le> m" using ok by simp
  with inv show ?thesis by (cases "snd s") (simp_all add: spend_step_def AnswerCall spend_inv_def trackResult_def distrib_left)
next
  case FailCall
  have "m * real (snd s - 1) \<le> m * real (snd s)" using mx(2) by (intro mult_left_mono) simp_all
  with inv show ?thesis by (simp add: spend_step_def FailCall spend_inv_def)
next
  case ResetSpend
  have "m * real (snd s) \<le> m * real k" using k mx(2) by (intro mult_left_mono) (simp_all add: spend_step_def ResetSpend)
  with mx show ?thesis by (simp add: spend_step_def ResetSpend spend_inv_def no_spend_def)
qed

lemma spend_run_inv:
  assumes "maxTotalTokens budget = Some mx" "0 < mx" "0 \<le> m"
  shows "spend_run_ok budget k m s evs \<Longrightarrow> spend_inv mx k m s \<Longrightarrow>
    spend_inv mx k m (foldl (\<lambda>s ev. spend_step budget ev s) s evs) \<and> snd (foldl (\<lambda>s ev. spend_step budget ev s) s evs) \<le> k"
proof (induction evs arbitrary: s)
  case (Cons ev evs)
  have "snd (spend_step budget ev s) \<le> k" using Cons.prems(1) by (cases evs) simp_all
  with Cons.prems assms have "spend_inv mx k m (spend_step budget ev s)" by (intro spend_step_inv) simp_all
  with Cons show ?case by simp
qed simp

text \<open>
  C30. A token budget is overrun by no more than the calls under way: in every interleaving of starts, answers, failures and resets with at most
  \<open>k\<close> calls at a time, each reporting at most \<open>m\<close> tokens, the counted tokens stay below the budget plus \<open>k * m\<close>. One caller alone
  stays below the budget plus one call.
\<close>

theorem spend_overrun_bounded:
  assumes "maxTotalTokens budget = Some mx" "0 < mx" "0 \<le> m" "spend_run_ok budget k m (no_spend, 0) evs"
  shows "sp_totalTokens (fst (spend_run budget evs)) < mx + m * real k"
proof -
  have "spend_inv mx k m (no_spend, 0)" using assms(2,3) by (simp add: spend_inv_def no_spend_def add_pos_nonneg)
  from spend_run_inv [OF assms(1-4) this] have "spend_inv mx k m (spend_run budget evs)" by (simp add: spend_run_def)
  moreover have "0 \<le> m * real (snd (spend_run budget evs))" using assms(3) by simp
  ultimately show ?thesis by (simp add: spend_inv_def)
qed

definition tokens_meta :: "real \<Rightarrow> llm_meta" where
  "tokens_meta n = LLMResponseMeta_empty\<lparr>lm_usage := LLMUsage_empty\<lparr>us_totalTokens := n\<rparr>\<rparr>"

text \<open>Two calls that start below the budget of 10 report 8 tokens each; the third is refused.\<close>

theorem spend_overrun_bounded_witness:
  "sp_totalTokens (fst (spend_run \<lparr>maxTotalCostUsd = None, maxTotalTokens = Some 10\<rparr>
      [StartCall, StartCall, AnswerCall (tokens_meta 8), AnswerCall (tokens_meta 8), StartCall])) = 16 \<and> (16::real) < 10 + 8 * real 2"
proof -
  let ?b = "\<lparr>maxTotalCostUsd = None, maxTotalTokens = Some 10\<rparr> :: spend_budget"
  let ?evs = "[StartCall, StartCall, AnswerCall (tokens_meta 8), AnswerCall (tokens_meta 8), StartCall]"
  have ok: "spend_run_ok ?b 2 8 (no_spend, 0) ?evs"
    by (simp add: spend_step_def over_budget_def no_spend_def trackResult_def tokens_meta_def LLMResponseMeta_empty_def LLMUsage_empty_def)
  have "sp_totalTokens (fst (spend_run ?b ?evs)) = 16"
    by (simp add: spend_run_def spend_step_def over_budget_def no_spend_def trackResult_def tokens_meta_def LLMResponseMeta_empty_def LLMUsage_empty_def)
  with spend_overrun_bounded [where budget = ?b and mx = 10 and m = 8 and k = 2 and evs = ?evs] ok show ?thesis by simp
qed

section \<open>Guardrails\<close>

datatype direction = InputDirection | OutputDirection

record guardrail_context =
  gx_direction :: direction
  gx_agentId :: "string option"
  gx_conversationId :: "string option"
  gx_metadata :: "js_object option"

datatype guardrail_result = GrPass | GrWarn string string | GrBlock string string "string option"

record guardrail =
  gd_name :: string
  gd_check :: "string \<Rightarrow> guardrail_context \<Rightarrow> guardrail_result answer"

definition lower :: "string \<Rightarrow> string" where
  "lower s = map ascii_lower s"

text \<open>An empty word that is found is taken for none.\<close>

definition keywordBlocklist :: "string list \<Rightarrow> guardrail" where
  "keywordBlocklist blockedWords = \<lparr>gd_name = ''KeywordBlocklist'', gd_check = \<lambda>content ctx.
     (case List.find (\<lambda>w. str_includes (lower content) w) (map lower blockedWords) of
        Some (c # cs) \<Rightarrow> Inr (GrBlock ''KeywordBlocklist'' (''Blocked keyword found: '' @ [CHR 0x22] @ (c # cs) @ [CHR 0x22]) None)
      | _ \<Rightarrow> Inr GrPass)\<rparr>"

definition regexPolicy :: "(string \<Rightarrow> bool) \<Rightarrow> string \<Rightarrow> string option \<Rightarrow> guardrail" where
  "regexPolicy test pattern policyName =
     (let name = (case policyName of Some n \<Rightarrow> n | None \<Rightarrow> ''RegexPolicy'')
      in \<lparr>gd_name = name, gd_check = \<lambda>content ctx.
            Inr (if test content then GrBlock name (''Content matches blocked pattern: '' @ pattern) None else GrPass)\<rparr>)"

definition lengthLimit :: "(real \<Rightarrow> string) \<Rightarrow> real \<Rightarrow> bool \<Rightarrow> guardrail" where
  "lengthLimit num maxLength blocking = \<lparr>gd_name = ''LengthLimit'', gd_check = \<lambda>content ctx.
     (if real (length content) \<le> maxLength then Inr GrPass
      else let reason = ''Content length '' @ nat_str (length content) @ '' exceeds limit of '' @ num maxLength
           in Inr (if blocking then GrBlock ''LengthLimit'' reason None else GrWarn ''LengthLimit'' reason))\<rparr>"

text \<open>The model judges; its answer has the fields that it is asked for.\<close>

definition llmPolicy :: "(chat_message list \<Rightarrow> (bool \<times> string) answer) \<Rightarrow> string \<Rightarrow> string option \<Rightarrow> guardrail" where
  "llmPolicy judge policy policyName =
     (let name = (case policyName of Some n \<Rightarrow> n | None \<Rightarrow> ''LLMPolicy''); nl = [CHR 0x0A]; q = [CHR 0x22]
      in \<lparr>gd_name = name, gd_check = \<lambda>content ctx.
            (case judge [\<lparr>cm_role = SystemRole, cm_content =
                 ''You are a content safety evaluator. Evaluate whether the following content violates this policy:'' @ nl @ nl
                 @ ''Policy: '' @ policy @ nl @ nl @ ''Respond with JSON: {'' @ q @ ''violates'' @ q @ '': true/false, '' @ q @ ''reason'' @ q @ '': '' @ q @ ''...'' @ q @ ''}''\<rparr>,
                 \<lparr>cm_role = UserRole, cm_content = content\<rparr>] of
               Inl e \<Rightarrow> Inl e
             | Inr (violates, reason) \<Rightarrow> Inr (if violates then GrBlock name reason None else GrPass))\<rparr>)"

definition worse :: "guardrail_result \<Rightarrow> guardrail_result \<Rightarrow> guardrail_result" where
  "worse worst r = (case r of GrWarn n why \<Rightarrow> (if worst = GrPass then r else worst) | _ \<Rightarrow> worst)"

fun chain_check :: "guardrail list \<Rightarrow> string \<Rightarrow> guardrail_context \<Rightarrow> guardrail_result \<Rightarrow> guardrail_result answer" where
  "chain_check [] content ctx worst = Inr worst"
| "chain_check (g # gs) content ctx worst =
     (case gd_check g content ctx of
        Inl e \<Rightarrow> Inl e
      | Inr (GrBlock n why sug) \<Rightarrow> Inr (GrBlock n why sug)
      | Inr r \<Rightarrow> chain_check gs content ctx (worse worst r))"

definition guardrailChain :: "guardrail list \<Rightarrow> guardrail" where
  "guardrailChain gs = \<lparr>gd_name = ''GuardrailChain'', gd_check = \<lambda>content ctx. chain_check gs content ctx GrPass\<rparr>"

fun collect_check :: "guardrail list \<Rightarrow> string \<Rightarrow> guardrail_context \<Rightarrow> guardrail_result \<Rightarrow> guardrail_result answer" where
  "collect_check [] content ctx worst = Inr worst"
| "collect_check (g # gs) content ctx worst =
     (case gd_check g content ctx of
        Inl e \<Rightarrow> Inl e
      | Inr (GrBlock n why sug) \<Rightarrow> collect_check gs content ctx (GrBlock n why sug)
      | Inr r \<Rightarrow> collect_check gs content ctx (worse worst r))"

definition guardrailChainCollectAll :: "guardrail list \<Rightarrow> guardrail" where
  "guardrailChainCollectAll gs = \<lparr>gd_name = ''GuardrailChain'', gd_check = \<lambda>content ctx. collect_check gs content ctx GrPass\<rparr>"

text \<open>Both chains answer with the greatest severity of their guardrails.\<close>

definition severity :: "guardrail_result \<Rightarrow> nat" where
  "severity r = (case r of GrPass \<Rightarrow> 0 | GrWarn n why \<Rightarrow> 1 | GrBlock n why sug \<Rightarrow> 2)"

lemma severity_worse: "r = GrPass \<or> (\<exists>n why. r = GrWarn n why) \<Longrightarrow> severity (worse w r) = max (severity w) (severity r)"
  by (cases w) (auto simp: worse_def severity_def)

lemma severity_le: "severity r \<le> 2"
  by (cases r) (simp_all add: severity_def)

definition verdict :: "guardrail \<Rightarrow> string \<Rightarrow> guardrail_context \<Rightarrow> nat" where
  "verdict g content ctx = (case gd_check g content ctx of Inr r \<Rightarrow> severity r | Inl e \<Rightarrow> 0)"

lemma chain_most_severe:
  assumes "\<And>g. g \<in> set gs \<Longrightarrow> \<exists>r. gd_check g content ctx = Inr r"
  shows "\<exists>r. chain_check gs content ctx w = Inr r \<and> (severity w < 2 \<longrightarrow> severity r = foldr (\<lambda>g. max (verdict g content ctx)) gs (severity w))"
  using assms
proof (induction gs arbitrary: w)
  case (Cons g gs)
  then obtain r where r: "gd_check g content ctx = Inr r" by auto
  have vg: "verdict g content ctx = severity r" by (simp add: verdict_def r)
  have mono: "foldr (\<lambda>g. max (verdict g content ctx)) gs x \<le> 2" if "x \<le> 2" for x
    using that by (induction gs) (auto simp: verdict_def severity_le split: sum.split)
  have shift: "foldr (\<lambda>g. max (verdict g content ctx)) gs (max a b) = max a (foldr (\<lambda>g. max (verdict g content ctx)) gs b)" for a b
    by (induction gs) auto
  show ?case
  proof (cases "\<exists>n why sug. r = GrBlock n why sug")
    case True
    then have "severity r = 2" by (auto simp: severity_def)
    with vg mono [OF severity_le [of w]] have "foldr (\<lambda>g. max (verdict g content ctx)) (g # gs) (severity w) = severity r" by (simp add: max_absorb1)
    with True show ?thesis by (auto simp: r)
  next
    case False
    then have low: "r = GrPass \<or> (\<exists>n why. r = GrWarn n why)" by (cases r) auto
    from Cons.IH [of "worse w r"] Cons.prems obtain r' where r': "chain_check gs content ctx (worse w r) = Inr r'"
      "severity (worse w r) < 2 \<longrightarrow> severity r' = foldr (\<lambda>g. max (verdict g content ctx)) gs (severity (worse w r))" by auto
    have "severity r < 2" using low by (auto simp: severity_def)
    with r'(2) low have "severity w < 2 \<longrightarrow> severity r' = max (severity r) (foldr (\<lambda>g. max (verdict g content ctx)) gs (severity w))"
      by (simp add: severity_worse shift max.commute [of "severity w"])
    with r'(1) low show ?thesis by (auto simp: r vg)
  qed
qed simp

lemma collect_most_severe:
  assumes "\<And>g. g \<in> set gs \<Longrightarrow> \<exists>r. gd_check g content ctx = Inr r"
  shows "\<exists>r. collect_check gs content ctx w = Inr r \<and> severity r = foldr (\<lambda>g. max (verdict g content ctx)) gs (severity w)"
  using assms
proof (induction gs arbitrary: w)
  case (Cons g gs)
  then obtain r where r: "gd_check g content ctx = Inr r" by auto
  have shift: "foldr (\<lambda>g. max (verdict g content ctx)) gs (max a b) = max a (foldr (\<lambda>g. max (verdict g content ctx)) gs b)" for a b
    by (induction gs) auto
  have vg: "verdict g content ctx = severity r" by (simp add: verdict_def r)
  define w' where "w' = (case r of GrBlock n why sug \<Rightarrow> r | _ \<Rightarrow> worse w r)"
  have c: "collect_check (g # gs) content ctx w = collect_check gs content ctx w'" by (simp add: r w'_def split: guardrail_result.split)
  have s: "severity w' = max (severity r) (severity w)"
    using severity_le [of w] by (cases r) (simp_all add: w'_def severity_worse max.commute, simp add: severity_def)
  from Cons.IH [of w'] Cons.prems show ?case unfolding c by (simp add: s shift vg)
qed simp

text \<open>An empty word hides the words behind it: nothing is blocked any more.\<close>

lemma empty_keyword_disarms_the_list:
  "gd_check (keywordBlocklist [[], ''bomb'']) ''a bomb'' ctx = Inr GrPass"
  "gd_check (keywordBlocklist [''bomb'']) ''a bomb'' ctx \<noteq> Inr GrPass"
  by (simp_all add: keywordBlocklist_def lower_def ascii_lower_def)

section \<open>The guarded service\<close>

text \<open>The error of the first guardrail that rejects or blocks.\<close>

fun check_all :: "guardrail list \<Rightarrow> string \<Rightarrow> guardrail_context \<Rightarrow> llm_error option" where
  "check_all [] content ctx = None"
| "check_all (g # gs) content ctx =
     (case gd_check g content ctx of
        Inl e \<Rightarrow> Some e
      | Inr (GrBlock n why sug) \<Rightarrow> Some (GuardrailBlocked n why sug)
      | Inr r \<Rightarrow> check_all gs content ctx)"

definition ctx_of :: "direction \<Rightarrow> guardrail_context" where
  "ctx_of d = \<lparr>gx_direction = d, gx_agentId = None, gx_conversationId = None, gx_metadata = None\<rparr>"

definition lastUserContent :: "chat_message list \<Rightarrow> string" where
  "lastUserContent ms = (case filter (\<lambda>m. cm_role m = UserRole) (rev ms) of m # rest \<Rightarrow> cm_content m | [] \<Rightarrow> [])"

definition user_text :: "js_val \<Rightarrow> string option" where
  "user_text msg =
     (case msg of
        JObj ps \<Rightarrow> (case (js_get ps ''role'', js_get ps ''content'') of (Some (JStr r), Some (JStr s)) \<Rightarrow> if r = ''user'' then Some s else None | _ \<Rightarrow> None)
      | _ \<Rightarrow> None)"

definition lastUserContentFromRaw :: "js_val list \<Rightarrow> string" where
  "lastUserContentFromRaw ms = (case List.map_filter user_text (rev ms) of s # rest \<Rightarrow> s | [] \<Rightarrow> [])"

definition input_checked :: "guardrail list \<Rightarrow> string \<Rightarrow> ('s \<Rightarrow> 'a answer \<times> 's) \<Rightarrow> 's \<Rightarrow> 'a answer \<times> 's" where
  "input_checked gs content op s = (case check_all gs content (ctx_of InputDirection) of Some e \<Rightarrow> (Inl e, s) | None \<Rightarrow> op s)"

definition output_checked :: "guardrail list \<Rightarrow> ('a \<Rightarrow> string option) \<Rightarrow> 'a answer \<times> 's \<Rightarrow> 'a answer \<times> 's" where
  "output_checked gs text_of r =
     (case r of
        (Inl e, s) \<Rightarrow> (Inl e, s)
      | (Inr v, s) \<Rightarrow>
          (case text_of v of
             None \<Rightarrow> (Inr v, s)
           | Some t \<Rightarrow> (case check_all gs t (ctx_of OutputDirection) of Some e \<Rightarrow> (Inl e, s) | None \<Rightarrow> (Inr v, s))))"

definition content_of :: "llm_response \<Rightarrow> string option" where
  "content_of r = (case r of ContentResponse s \<Rightarrow> Some s | _ \<Rightarrow> None)"

definition createGuardedLLMService :: "'s llm_service \<Rightarrow> guardrail list \<Rightarrow> guardrail list \<Rightarrow> 's llm_service" where
  "createGuardedLLMService inner ins outs = \<lparr>
     ls_chat = \<lambda>ms json s. output_checked outs Some (input_checked ins (lastUserContent ms) (ls_chat inner ms json) s),
     ls_chatJson = \<lambda>ms p s. input_checked ins (lastUserContent ms) (ls_chatJson inner ms p) s,
     ls_chatWithTools = \<lambda>ms ts schema cfg s.
       output_checked outs content_of (input_checked ins (lastUserContentFromRaw ms) (ls_chatWithTools inner ms ts schema cfg) s),
     ls_chatTracked = \<lambda>ms json s. output_checked outs (Some \<circ> fst) (input_checked ins (lastUserContent ms) (ls_chatTracked inner ms json) s),
     ls_chatWithToolsTracked = \<lambda>ms ts schema cfg s.
       output_checked outs (content_of \<circ> fst) (input_checked ins (lastUserContentFromRaw ms) (ls_chatWithToolsTracked inner ms ts schema cfg) s),
     ls_chatStream = \<lambda>ms ts schema cfg s.
       (case check_all ins (lastUserContentFromRaw ms) (ctx_of InputDirection) of
          Some e \<Rightarrow> (([], Some e), s)
        | None \<Rightarrow> ls_chatStream inner ms ts schema cfg s)\<rparr>"

lemma check_all_passes:
  "check_all gs content ctx = None \<longleftrightarrow> (\<forall>g \<in> set gs. \<exists>r. gd_check g content ctx = Inr r \<and> severity r < 2)"
proof (induction gs)
  case (Cons g gs)
  then show ?case by (cases "gd_check g content ctx") (auto simp: severity_def split: guardrail_result.splits)
qed simp

text \<open>A blocked question never reaches the service, and a text that is returned has passed every output guardrail.\<close>

lemma guarded_chat:
  assumes "ls_chatWithToolsTracked (createGuardedLLMService inner ins outs) ms ts schema cfg s = (r, s')"
  shows "check_all ins (lastUserContentFromRaw ms) (ctx_of InputDirection) = Some e \<Longrightarrow> r = Inl e \<and> s' = s"
    and "r = Inr (ContentResponse txt', m) \<Longrightarrow> \<forall>g \<in> set outs. \<exists>v. gd_check g txt' (ctx_of OutputDirection) = Inr v \<and> severity v < 2"
  using assms by (auto simp: createGuardedLLMService_def output_checked_def input_checked_def content_of_def check_all_passes [symmetric]
      split: option.splits sum.splits prod.splits)

text \<open>JSON answers, streams and tool calls are returned unchecked.\<close>

lemma json_answers_pass_unchecked:
  "ls_chatJson (createGuardedLLMService inner ins outs) = ls_chatJson (createGuardedLLMService inner ins outs')"
  "ls_chatStream (createGuardedLLMService inner ins outs) = ls_chatStream (createGuardedLLMService inner ins outs')"
  "output_checked outs content_of (Inr (ToolCallsResponse calls raw), s) = (Inr (ToolCallsResponse calls raw), s)"
  by (simp_all add: createGuardedLLMService_def output_checked_def content_of_def)

text \<open>A user message in parts is skipped: the guardrails see an older message, or nothing.\<close>

lemma parts_are_not_checked:
  "lastUserContentFromRaw [JObj [(''role'', JStr ''user''), (''content'', JArr parts)]] = []"
  by (simp add: lastUserContentFromRaw_def user_text_def List.map_filter_def)

end
