(* ===== verification/Pg_Listen.thy ===== *)
theory Pg_Listen
  imports Js_Number
begin

text \<open>
  \<open>postgres/listen.ts\<close>: the listener for notifications of a journal, which reconnects when nothing was heard for a while.
  An async function that awaits is a task in a list; the driver settles tasks, sends notifications and reports errors in any
  order, and the timers may be late. Every step has the time at which it happens. \<open>li_attempts\<close> and \<open>li_failed\<close> record when
  \<open>client.connect()\<close> was called and whether a connection attempt has failed; no step reads them.
\<close>

section \<open>State\<close>

record listen_config =
  lc_silenceThresholdMs :: "real option"
  lc_reconnectCooldownMs :: "real option"
  lc_reconnectDelayMs :: "real option"

definition silenceThresholdMs :: "listen_config \<Rightarrow> real" where
  "silenceThresholdMs opts = (case lc_silenceThresholdMs opts of None \<Rightarrow> 5000 | Some x \<Rightarrow> x)"

definition reconnectCooldownMs :: "listen_config \<Rightarrow> real" where
  "reconnectCooldownMs opts = (case lc_reconnectCooldownMs opts of None \<Rightarrow> 10000 | Some x \<Rightarrow> x)"

definition reconnectDelayMs :: "listen_config \<Rightarrow> real" where
  "reconnectDelayMs opts = (case lc_reconnectDelayMs opts of None \<Rightarrow> 5000 | Some x \<Rightarrow> x)"

text \<open>
  What is awaited: \<open>client.connect()\<close> and the \<open>LISTEN\<close> query, by \<open>reconnect\<close> or by \<open>start\<close>; \<open>client.end()\<close> in \<open>reconnect\<close> with
  the time to wait afterwards; its two timers with the time they are due; \<open>client.end()\<close> in \<open>stop\<close>.
\<close>

datatype listen_task =
    Connecting bool nat
  | Subscribing bool nat
  | EndingClient nat real
  | Cooling real
  | Delaying real
  | Stopping nat

record listener =
  li_ended :: "bool list"
  li_client :: "nat option"
  li_disposed :: bool
  li_silenceTimer :: "real option"
  li_lastActivity :: real
  li_reconnecting :: bool
  li_tasks :: "listen_task list"
  li_heard :: "real list"
  li_attempts :: "real list"
  li_failed :: bool

section \<open>Operations\<close>

definition add_task :: "listen_task \<Rightarrow> listener \<Rightarrow> listener" where
  "add_task k st = st\<lparr>li_tasks := li_tasks st @ [k]\<rparr>"

definition resetSilenceTimer :: "listen_config \<Rightarrow> real \<Rightarrow> listener \<Rightarrow> listener" where
  "resetSilenceTimer opts now st =
     (if li_disposed st then st\<lparr>li_silenceTimer := None\<rparr>
      else st\<lparr>li_lastActivity := now, li_silenceTimer := Some (now + silenceThresholdMs opts)\<rparr>)"

text \<open>\<open>connect\<close> up to its first await: the new client has not been told to end.\<close>

definition connect_client :: "bool \<Rightarrow> real \<Rightarrow> listener \<Rightarrow> listener" where
  "connect_client inReconnect now st =
     add_task (Connecting inReconnect (length (li_ended st)))
       (st\<lparr>li_client := Some (length (li_ended st)), li_ended := li_ended st @ [False], li_attempts := li_attempts st @ [now]\<rparr>)"

definition end_client :: "nat \<Rightarrow> listener \<Rightarrow> listener" where
  "end_client c st = st\<lparr>li_ended := (li_ended st)[c := True]\<rparr>"

definition after_cooldown :: "listen_config \<Rightarrow> real \<Rightarrow> listener \<Rightarrow> listener" where
  "after_cooldown opts now st =
     (if li_disposed st then st\<lparr>li_reconnecting := False\<rparr> else add_task (Delaying (now + reconnectDelayMs opts)) st)"

definition after_end :: "listen_config \<Rightarrow> real \<Rightarrow> real \<Rightarrow> listener \<Rightarrow> listener" where
  "after_end opts now waitMs st =
     (if waitMs > 0 then add_task (Cooling (now + waitMs)) st else after_cooldown opts now st)"

definition reconnect :: "listen_config \<Rightarrow> real \<Rightarrow> listener \<Rightarrow> listener" where
  "reconnect opts now st =
     (if li_disposed st \<or> li_reconnecting st then st
      else let elapsed = now - li_lastActivity st;
               waitMs = max 0 (reconnectCooldownMs opts - elapsed);
               st' = st\<lparr>li_reconnecting := True\<rparr>
           in case li_client st' of
                Some c \<Rightarrow> add_task (EndingClient c waitMs) (end_client c st')
              | None \<Rightarrow> after_end opts now waitMs st')"

text \<open>A connection attempt ends: \<open>reconnect\<close> catches its error, \<open>start\<close> rejects.\<close>

definition attempt_over :: "bool \<Rightarrow> bool \<Rightarrow> listener \<Rightarrow> listener" where
  "attempt_over inReconnect ok st =
     (let st' = (if inReconnect then st\<lparr>li_reconnecting := False\<rparr> else st)
      in if ok then st' else st'\<lparr>li_failed := True\<rparr>)"

text \<open>What follows an await that was settled, well or not. The query goes to the client that is current by then.\<close>

fun resume :: "listen_config \<Rightarrow> real \<Rightarrow> listen_task \<Rightarrow> bool \<Rightarrow> listener \<Rightarrow> listener" where
  "resume opts now (Connecting inReconnect c) ok st =
     (if ok then (case li_client st of Some c' \<Rightarrow> add_task (Subscribing inReconnect c') st | None \<Rightarrow> attempt_over inReconnect False st)
      else attempt_over inReconnect False st)"
| "resume opts now (Subscribing inReconnect c) ok st =
     (if ok then attempt_over inReconnect True (resetSilenceTimer opts now st) else attempt_over inReconnect False st)"
| "resume opts now (EndingClient c waitMs) ok st = after_end opts now waitMs (st\<lparr>li_client := None\<rparr>)"
| "resume opts now (Cooling due) ok st = after_cooldown opts now st"
| "resume opts now (Delaying due) ok st =
     (if li_disposed st then st\<lparr>li_reconnecting := False\<rparr> else connect_client True now st)"
| "resume opts now (Stopping c) ok st = st\<lparr>li_client := None\<rparr>"

definition on_notification :: "listen_config \<Rightarrow> real \<Rightarrow> string \<Rightarrow> string option \<Rightarrow> listener \<Rightarrow> listener" where
  "on_notification opts now channel payload st =
     (let st' = resetSilenceTimer opts now st
      in case payload of
           Some p \<Rightarrow>
             if channel = ''journal_events'' \<and> p \<noteq> []
             then (case js_number p of Some n \<Rightarrow> st'\<lparr>li_heard := li_heard st' @ [n]\<rparr> | None \<Rightarrow> st') else st'
         | None \<Rightarrow> st')"

definition on_error :: "listen_config \<Rightarrow> real \<Rightarrow> listener \<Rightarrow> listener" where
  "on_error opts now st = (if li_disposed st then st else reconnect opts now st)"

definition on_end :: "listen_config \<Rightarrow> real \<Rightarrow> listener \<Rightarrow> listener" where
  "on_end opts now st = (if \<not> li_disposed st \<and> \<not> li_reconnecting st then reconnect opts now st else st)"

definition on_silence :: "listen_config \<Rightarrow> real \<Rightarrow> listener \<Rightarrow> listener" where
  "on_silence opts now st =
     (let st' = st\<lparr>li_silenceTimer := None\<rparr>
      in if \<not> li_disposed st' \<and> \<not> li_reconnecting st' then reconnect opts now st' else st')"

definition listen_stop :: "listener \<Rightarrow> listener" where
  "listen_stop st =
     (let st' = st\<lparr>li_disposed := True, li_silenceTimer := None\<rparr>
      in case li_client st' of Some c \<Rightarrow> add_task (Stopping c) (end_client c st') | None \<Rightarrow> st')"

section \<open>Runs\<close>

definition createListenConsumer :: "real \<Rightarrow> listener" where
  "createListenConsumer now =
     \<lparr>li_ended = [], li_client = None, li_disposed = False, li_silenceTimer = None, li_lastActivity = now,
      li_reconnecting = False, li_tasks = [], li_heard = [], li_attempts = [], li_failed = False\<rparr>"

definition listen_start :: "real \<Rightarrow> listener" where
  "listen_start now = connect_client False now (createListenConsumer now)"

datatype listen_event =
    Settles listen_task bool
  | SilenceOver
  | Notified string "string option"
  | Errored
  | ConnectionEnded
  | StopCalled

fun is_due :: "real \<Rightarrow> listen_task \<Rightarrow> bool" where
  "is_due now (Cooling due) = (due \<le> now)"
| "is_due now (Delaying due) = (due \<le> now)"
| "is_due now _ = True"

text \<open>An event that cannot happen in a state does nothing.\<close>

fun listen_step :: "listen_config \<Rightarrow> real \<Rightarrow> listen_event \<Rightarrow> listener \<Rightarrow> listener" where
  "listen_step opts now (Settles k ok) st =
     (if k \<in> set (li_tasks st) \<and> is_due now k then resume opts now k ok (st\<lparr>li_tasks := remove1 k (li_tasks st)\<rparr>) else st)"
| "listen_step opts now SilenceOver st =
     (case li_silenceTimer st of Some due \<Rightarrow> if due \<le> now then on_silence opts now st else st | None \<Rightarrow> st)"
| "listen_step opts now (Notified channel payload) st = on_notification opts now channel payload st"
| "listen_step opts now Errored st = on_error opts now st"
| "listen_step opts now ConnectionEnded st = on_end opts now st"
| "listen_step opts now StopCalled st = listen_stop st"

definition listen_run :: "listen_config \<Rightarrow> (real \<times> listen_event) list \<Rightarrow> listener \<Rightarrow> listener" where
  "listen_run opts evs st = fold (\<lambda>(now, ev). listen_step opts now ev) evs st"

section \<open>The invariant\<close>

fun in_reconnect :: "listen_task \<Rightarrow> bool" where
  "in_reconnect (Connecting b c) = b"
| "in_reconnect (Subscribing b c) = b"
| "in_reconnect (Stopping c) = False"
| "in_reconnect _ = True"

fun is_attempt :: "listen_task \<Rightarrow> bool" where
  "is_attempt (Stopping c) = False"
| "is_attempt _ = True"

text \<open>What a task relies on: the current client, who has been told to end, and the earlier attempts.\<close>

fun task_ok :: "real \<Rightarrow> nat option \<Rightarrow> bool list \<Rightarrow> real list \<Rightarrow> listen_task \<Rightarrow> bool" where
  "task_ok delay cl ended attempts (Delaying due) = (cl = None \<and> list_all (\<lambda>a. a + delay \<le> due) attempts)"
| "task_ok delay cl ended attempts (Cooling due) = (cl = None)"
| "task_ok delay cl ended attempts (EndingClient c w) = (c < length ended \<and> ended ! c \<and> (cl = None \<or> cl = Some c))"
| "task_ok delay cl ended attempts _ = True"

text \<open>Every client but the current one has been told to end.\<close>

definition one_client :: "nat option \<Rightarrow> bool list \<Rightarrow> bool" where
  "one_client cl ended \<longleftrightarrow> (\<forall>c < length ended. \<not> ended ! c \<longrightarrow> cl = Some c) \<and> (case cl of Some c \<Rightarrow> c < length ended | None \<Rightarrow> True)"

definition all_ended :: "bool list \<Rightarrow> bool" where
  "all_ended ended \<longleftrightarrow> list_all (\<lambda>b. b) ended"

definition spaced :: "real \<Rightarrow> real list \<Rightarrow> bool" where
  "spaced d ts \<longleftrightarrow> sorted_wrt (\<lambda>a b. a + d \<le> b) ts"

definition before :: "real \<Rightarrow> real list \<Rightarrow> bool" where
  "before t ts \<longleftrightarrow> list_all (\<lambda>a. a \<le> t) ts"

text \<open>
  The invariant at time \<open>t\<close>, with the tasks that are under way: at most one belongs to \<open>reconnect\<close>; a disposed listener has
  ended its clients and has no timer; one that is not disposed has a timer or an attempt under way, unless one has failed.
\<close>

definition listen_inv :: "real \<Rightarrow> real \<Rightarrow> listen_task list \<Rightarrow> listener \<Rightarrow> bool" where
  "listen_inv delay t ks st \<longleftrightarrow>
     one_client (li_client st) (li_ended st)
     \<and> length (filter in_reconnect ks) = (if li_reconnecting st then 1 else 0)
     \<and> list_all (task_ok delay (li_client st) (li_ended st) (li_attempts st)) ks
     \<and> (list_all is_attempt ks \<or> li_disposed st)
     \<and> (li_disposed st \<longrightarrow> all_ended (li_ended st) \<and> li_silenceTimer st = None)
     \<and> (li_disposed st \<or> li_failed st \<or> li_silenceTimer st \<noteq> None \<or> list_ex is_attempt ks)
     \<and> before t (li_attempts st) \<and> spaced delay (li_attempts st)"

lemma task_ok_other: "\<not> in_reconnect k \<Longrightarrow> task_ok delay cl ended attempts k"
  by (cases k) auto

lemma tasks_ok_other: "filter in_reconnect ks = [] \<Longrightarrow> list_all (task_ok delay cl ended attempts) ks"
  by (simp add: filter_empty_conv list_all_iff task_ok_other)

lemma task_ok_None: "list_all (task_ok d cl e a) ks \<Longrightarrow> list_all (task_ok d None e a) ks"
proof -
  have "task_ok d cl e a k \<Longrightarrow> task_ok d None e a k" for k by (cases k) auto
  then show "list_all (task_ok d cl e a) ks \<Longrightarrow> list_all (task_ok d None e a) ks" by (auto simp: list_all_iff)
qed

lemma one_client_new: "one_client None ended \<Longrightarrow> one_client (Some (length ended)) (ended @ [False])"
  by (auto simp: one_client_def nth_append less_Suc_eq)

lemma one_client_end: "one_client (Some c) ended \<Longrightarrow> all_ended (ended[c := True])"
  by (auto simp: one_client_def all_ended_def list_all_length nth_list_update)

lemma all_ended_one_client: "all_ended ended \<Longrightarrow> case cl of Some c \<Rightarrow> c < length ended | None \<Rightarrow> True \<Longrightarrow> one_client cl ended"
  by (simp add: one_client_def all_ended_def list_all_length)

lemma one_client_all: "one_client None ended = all_ended ended"
  by (auto simp: one_client_def all_ended_def list_all_length)

lemma one_client_less: "one_client (Some c) ended \<Longrightarrow> c < length ended"
  by (simp add: one_client_def)

lemma spaced_snoc: "spaced d ts \<Longrightarrow> list_all (\<lambda>a. a + d \<le> due) ts \<Longrightarrow> due \<le> now \<Longrightarrow> spaced d (ts @ [now])"
  by (fastforce simp: spaced_def sorted_wrt_append list_all_iff)

lemma before_later: "before t ts \<Longrightarrow> t \<le> t' \<Longrightarrow> before t' ts"
  by (fastforce simp: before_def list_all_iff)

lemma before_delay: "before t ts \<Longrightarrow> list_all (\<lambda>a. a + d \<le> t + d) ts"
  by (simp add: before_def)

lemma inv_later: "listen_inv d t ks st \<Longrightarrow> t \<le> t' \<Longrightarrow> listen_inv d t' ks st"
  by (auto simp: listen_inv_def intro: before_later)

lemma inv_perm: "listen_inv d t (ks @ [k]) st \<longleftrightarrow> listen_inv d t (k # ks) st"
  by (auto simp: listen_inv_def)

lemma inv_remove1: "k \<in> set ks \<Longrightarrow> listen_inv d t ks st \<Longrightarrow> listen_inv d t (k # remove1 k ks) st"
proof -
  assume "k \<in> set ks" "listen_inv d t ks st"
  then obtain a b where ab: "ks = a @ k # b" "k \<notin> set a" by (meson split_list_first)
  then have "remove1 k ks = a @ b" by (simp add: remove1_append)
  with ab \<open>listen_inv d t ks st\<close> show ?thesis by (cases "li_reconnecting st"; auto simp: listen_inv_def)
qed

text \<open>The steps inside \<open>reconnect\<close>: its task is replaced by the next one, or it ends.\<close>

lemma inv_reset: "listen_inv d t ks st \<Longrightarrow> listen_inv d t ks (resetSilenceTimer opts now st)"
  by (auto simp: listen_inv_def resetSilenceTimer_def)

lemma inv_next_task:
  assumes "listen_inv d t (k # ks) st" "in_reconnect k" "in_reconnect k'" "is_attempt k'"
    and "task_ok d (li_client st) (li_ended st) (li_attempts st) k'"
  shows "listen_inv d t (k' # ks) st"
  using assms by (auto simp: listen_inv_def)

lemma inv_reconnect_over:
  assumes "listen_inv d t (k # ks) st" "in_reconnect k" "li_disposed st \<or> li_failed st \<or> li_silenceTimer st \<noteq> None"
  shows "listen_inv d t ks (st\<lparr>li_reconnecting := False\<rparr>)"
  using assms by (auto simp: listen_inv_def split: if_splits)


lemma inv_tasks_field [simp]: "listen_inv d t ks (st\<lparr>li_tasks := x\<rparr>) = listen_inv d t ks st"
  by (simp add: listen_inv_def)

lemma inv_heard_field [simp]: "listen_inv d t ks (st\<lparr>li_heard := x\<rparr>) = listen_inv d t ks st"
  by (simp add: listen_inv_def)

abbreviation holds_at :: "listen_config \<Rightarrow> real \<Rightarrow> listener \<Rightarrow> bool" where
  "holds_at opts t st \<equiv> listen_inv (reconnectDelayMs opts) t (li_tasks st) st"

lemma holds_add_task: "listen_inv (reconnectDelayMs opts) t (k # li_tasks st) st \<Longrightarrow> holds_at opts t (add_task k st)"
  by (simp add: add_task_def inv_perm)

lemma before_of_inv: "listen_inv d t ks st \<Longrightarrow> before t (li_attempts st)"
  by (simp add: listen_inv_def)

lemma holds_after_cooldown:
  assumes "listen_inv (reconnectDelayMs opts) t (k # li_tasks st) st" "in_reconnect k" "li_client st = None"
  shows "holds_at opts t (after_cooldown opts t st)"
proof (cases "li_disposed st")
  case True
  then show ?thesis using inv_reconnect_over [OF assms(1,2)] by (simp add: after_cooldown_def)
next
  case False
  have "listen_inv (reconnectDelayMs opts) t (Delaying (t + reconnectDelayMs opts) # li_tasks st) st"
    using assms before_delay [OF before_of_inv [OF assms(1)]] by (intro inv_next_task [OF assms(1)]) auto
  then show ?thesis using False by (simp add: after_cooldown_def holds_add_task)
qed

lemma holds_after_end:
  assumes "listen_inv (reconnectDelayMs opts) t (k # li_tasks st) st" "in_reconnect k" "li_client st = None"
  shows "holds_at opts t (after_end opts t w st)"
proof (cases "w > 0")
  case True
  have "listen_inv (reconnectDelayMs opts) t (Cooling (t + w) # li_tasks st) st"
    using assms by (intro inv_next_task [OF assms(1)]) auto
  then show ?thesis using True by (simp add: after_end_def holds_add_task)
next
  case False
  then show ?thesis using holds_after_cooldown [OF assms] by (simp add: after_end_def)
qed

text \<open>A reconnection that starts has no task yet; it gets one before it returns, unless it ends at once.\<close>

lemma inv_start_reconnect:
  assumes "one_client (li_client st) (li_ended st)" "filter in_reconnect ks = []" "\<not> li_disposed st"
    and "before t (li_attempts st)" "spaced d (li_attempts st)" "in_reconnect k" "is_attempt k" "list_all is_attempt ks"
    and "task_ok d (li_client st) (li_ended st) (li_attempts st) k"
  shows "listen_inv d t (k # ks) (st\<lparr>li_reconnecting := True\<rparr>)"
  using assms tasks_ok_other [OF assms(2)] by (simp add: listen_inv_def)

lemma holds_reconnect:
  assumes "one_client (li_client st) (li_ended st)" "filter in_reconnect (li_tasks st) = []" "\<not> li_disposed st" "\<not> li_reconnecting st"
    and "before t (li_attempts st)" "spaced (reconnectDelayMs opts) (li_attempts st)" "list_all is_attempt (li_tasks st)"
  shows "holds_at opts t (reconnect opts t st)"
proof (cases "li_client st")
  case None
  let ?s = "st\<lparr>li_reconnecting := True\<rparr>"
  have "listen_inv (reconnectDelayMs opts) t (Cooling 0 # li_tasks st) ?s"
    using assms None by (intro inv_start_reconnect) auto
  then have "holds_at opts t (after_end opts t w ?s)" for w
    using None by (intro holds_after_end [of opts t "Cooling 0" ?s]) auto
  then show ?thesis using assms(3,4) None by (simp add: reconnect_def Let_def)
next
  case (Some c)
  let ?s = "end_client c st"
  have c: "c < length (li_ended st)" using one_client_less assms(1) Some by simp
  have "all_ended (li_ended ?s)" using one_client_end assms(1) Some by (simp add: end_client_def)
  then have o: "one_client (li_client ?s) (li_ended ?s)"
    using all_ended_one_client [of "li_ended ?s" "li_client ?s"] Some c by (simp add: end_client_def)
  have "listen_inv (reconnectDelayMs opts) t (EndingClient c w # li_tasks ?s) (?s\<lparr>li_reconnecting := True\<rparr>)" for w
    using o assms c Some by (intro inv_start_reconnect) (auto simp: end_client_def)
  then have "holds_at opts t (add_task (EndingClient c w) (?s\<lparr>li_reconnecting := True\<rparr>))" for w
    by (intro holds_add_task) simp
  moreover have "?s\<lparr>li_reconnecting := True\<rparr> = end_client c (st\<lparr>li_reconnecting := True\<rparr>)" by (simp add: end_client_def)
  ultimately show ?thesis using assms(3,4) Some by (simp add: reconnect_def Let_def)
qed

lemma holds_reconnect_inv:
  assumes "holds_at opts t st"
  shows "holds_at opts t (reconnect opts t st)"
proof (cases "li_disposed st \<or> li_reconnecting st")
  case True
  then show ?thesis using assms by (auto simp: reconnect_def)
next
  case False
  then show ?thesis using assms holds_reconnect [of st t opts] by (simp add: listen_inv_def)
qed


lemma holds_attempt_failed:
  assumes "listen_inv (reconnectDelayMs opts) t (k # li_tasks st) st" "k = Connecting b c \<or> k = Subscribing b c"
  shows "holds_at opts t (attempt_over b False st)"
  using assms by (cases b; auto simp: attempt_over_def Let_def listen_inv_def split: if_splits)

lemma holds_attempt_ok:
  assumes "listen_inv (reconnectDelayMs opts) t (Subscribing b c # li_tasks st) st"
  shows "holds_at opts t (attempt_over b True (resetSilenceTimer opts t st))"
  using assms by (cases b; auto simp: attempt_over_def resetSilenceTimer_def Let_def listen_inv_def split: if_splits)

lemma holds_connect:
  assumes "listen_inv (reconnectDelayMs opts) t (Delaying due # li_tasks st) st" "due \<le> t" "\<not> li_disposed st"
  shows "holds_at opts t (connect_client True t st)"
proof -
  let ?s = "st\<lparr>li_client := Some (length (li_ended st)), li_ended := li_ended st @ [False], li_attempts := li_attempts st @ [t]\<rparr>"
  have i: "li_client st = None" "one_client None (li_ended st)" "filter in_reconnect (li_tasks st) = []" "li_reconnecting st"
    "list_all (\<lambda>a. a + reconnectDelayMs opts \<le> due) (li_attempts st)" "before t (li_attempts st)"
    "spaced (reconnectDelayMs opts) (li_attempts st)" "list_all is_attempt (li_tasks st)"
    using assms(1,3) by (auto simp: listen_inv_def split: if_splits)
  have "listen_inv (reconnectDelayMs opts) t (Connecting True (length (li_ended st)) # li_tasks ?s) ?s"
    using i assms(3) one_client_new spaced_snoc [OF i(7,5) assms(2)] tasks_ok_other [OF i(3)]
    by (simp add: listen_inv_def before_def)
  then show ?thesis unfolding connect_client_def by (rule holds_add_task)
qed

lemma holds_resume:
  assumes "listen_inv (reconnectDelayMs opts) t (k # li_tasks st) st" "is_due t k"
  shows "holds_at opts t (resume opts t k ok st)"
proof (cases k)
  case (Connecting b c)
  have "listen_inv (reconnectDelayMs opts) t (Subscribing b c' # li_tasks st) st" for c'
    using assms Connecting by (cases b; auto simp: listen_inv_def split: if_splits)
  then show ?thesis using assms Connecting holds_attempt_failed [of opts t k st b c]
    by (auto split: option.split intro: holds_add_task)
next
  case (Subscribing b c)
  then show ?thesis using assms holds_attempt_failed [of opts t k st b c] holds_attempt_ok by auto
next
  case (EndingClient c w)
  have "listen_inv (reconnectDelayMs opts) t (Cooling 0 # li_tasks st) (st\<lparr>li_client := None\<rparr>)"
    using assms(1) EndingClient tasks_ok_other [of "li_tasks st"]
    by (auto simp: listen_inv_def one_client_def split: if_splits)
  then have "holds_at opts t (after_end opts t w (st\<lparr>li_client := None\<rparr>))"
    by (intro holds_after_end [of opts t "Cooling 0"]) auto
  then show ?thesis using EndingClient by simp
next
  case (Cooling due)
  then show ?thesis using assms holds_after_cooldown [of opts t k st] by (auto simp: listen_inv_def)
next
  case (Delaying due)
  then show ?thesis
    using assms holds_connect inv_reconnect_over [OF assms(1)] by auto
next
  case (Stopping c)
  then show ?thesis using assms
    by (auto simp: listen_inv_def all_ended_one_client dest: task_ok_None)
qed


lemma holds_stop: "holds_at opts t st \<Longrightarrow> holds_at opts t (listen_stop st)"
proof (cases "li_client st")
  case None
  then show "holds_at opts t st \<Longrightarrow> ?thesis"
    by (auto simp: listen_inv_def listen_stop_def one_client_all)
next
  case (Some c)
  assume h: "holds_at opts t st"
  let ?s = "end_client c (st\<lparr>li_disposed := True, li_silenceTimer := None\<rparr>)"
  have e: "all_ended ((li_ended st)[c := True])" "c < length (li_ended st)"
    using h Some one_client_end one_client_less by (auto simp: listen_inv_def)
  have "task_ok d cl (li_ended st) a k \<Longrightarrow> task_ok d cl ((li_ended st)[c := True]) a k" for d cl a k
    using e(2) by (cases k) (auto simp: nth_list_update)
  then have "list_all (task_ok d cl (li_ended st) a) ks \<Longrightarrow> list_all (task_ok d cl ((li_ended st)[c := True]) a) ks" for d cl a ks
    by (auto simp: list_all_iff)
  then have "listen_inv (reconnectDelayMs opts) t (Stopping c # li_tasks ?s) ?s"
    using h e Some all_ended_one_client [OF e(1), of "Some c"] by (simp add: listen_inv_def end_client_def)
  from holds_add_task [OF this] show ?thesis using Some by (simp add: listen_stop_def Let_def)
qed

lemma holds_step:
  assumes "holds_at opts t st" "t \<le> now"
  shows "holds_at opts now (listen_step opts now ev st)"
proof -
  have h: "holds_at opts now st" using assms inv_later by blast
  show ?thesis
  proof (cases ev)
    case (Settles k ok)
    have "k \<in> set (li_tasks st) \<Longrightarrow> listen_inv (reconnectDelayMs opts) now (k # remove1 k (li_tasks st)) (st\<lparr>li_tasks := remove1 k (li_tasks st)\<rparr>)"
      using inv_remove1 h by simp
    then show ?thesis using h Settles holds_resume [of opts now k "st\<lparr>li_tasks := remove1 k (li_tasks st)\<rparr>" ok] by simp
  next
    case SilenceOver
    have "\<not> li_disposed st \<Longrightarrow> \<not> li_reconnecting st \<Longrightarrow> holds_at opts now (reconnect opts now (st\<lparr>li_silenceTimer := None\<rparr>))"
      using h by (intro holds_reconnect) (auto simp: listen_inv_def)
    moreover have "li_reconnecting st \<Longrightarrow> list_ex is_attempt (li_tasks st) \<or> li_disposed st"
      using h by (cases "li_tasks st") (auto simp: listen_inv_def)
    then have "li_disposed st \<or> li_reconnecting st \<Longrightarrow> holds_at opts now (st\<lparr>li_silenceTimer := None\<rparr>)"
      using h by (auto simp: listen_inv_def split: if_splits)
    ultimately show ?thesis using h SilenceOver by (auto simp: on_silence_def Let_def split: option.split)
  next
    case (Notified ch p)
    have "li_tasks (resetSilenceTimer opts now st) = li_tasks st" by (simp add: resetSilenceTimer_def)
    then have "holds_at opts now (resetSilenceTimer opts now st)" using inv_reset h by simp
    then show ?thesis using Notified by (auto simp: on_notification_def Let_def split: option.split)
  next
    case StopCalled
    then show ?thesis using holds_stop h by simp
  qed (use h holds_reconnect_inv [OF h] in \<open>auto simp: on_error_def on_end_def\<close>)
qed

lemma holds_start: "holds_at opts t (listen_start t)"
  by (simp add: listen_start_def connect_client_def createListenConsumer_def add_task_def listen_inv_def one_client_def before_def spaced_def)

lemma holds_run: "holds_at opts t st \<Longrightarrow> sorted (t # map fst evs) \<Longrightarrow> \<exists>t'. holds_at opts t' (listen_run opts evs st)"
proof (induction evs arbitrary: t st)
  case (Cons e evs)
  then show ?case using holds_step [of opts t st "fst e" "snd e"]
    by (simp add: listen_run_def case_prod_beta)
qed (auto simp: listen_run_def)

text \<open>After \<open>stop\<close> no connection is opened any more.\<close>

lemma disposed_step:
  assumes "li_disposed st"
  shows "li_disposed (listen_step opts now ev st) \<and> li_attempts (listen_step opts now ev st) = li_attempts st"
proof (cases ev)
  case (Settles k ok)
  then show ?thesis using assms
    by (cases k) (auto simp: attempt_over_def resetSilenceTimer_def add_task_def after_end_def after_cooldown_def split: option.split)
qed (use assms in \<open>auto simp: on_silence_def on_notification_def on_error_def on_end_def listen_stop_def resetSilenceTimer_def
  add_task_def end_client_def Let_def split: option.split\<close>)

lemma disposed_run: "li_disposed st \<Longrightarrow> li_attempts (listen_run opts evs st) = li_attempts st"
  using disposed_step by (induction evs arbitrary: st) (auto simp: listen_run_def)

section \<open>The properties\<close>

definition reconnections :: "listener \<Rightarrow> listen_task list" where
  "reconnections st = filter in_reconnect (li_tasks st)"

fun is_timer :: "listen_task \<Rightarrow> bool" where
  "is_timer (Cooling due) = True"
| "is_timer (Delaying due) = True"
| "is_timer _ = False"

lemma stopped_timer_ends:
  assumes "length (reconnections st) \<le> 1" "li_disposed st" "k \<in> set (li_tasks st)" "is_timer k" "is_due now k"
  shows "reconnections (listen_step opts now (Settles k ok) st) = []"
proof -
  have "in_reconnect k" using assms(4) by (cases k) simp_all
  obtain a b where ab: "li_tasks st = a @ k # b" "k \<notin> set a" using assms(3) by (meson split_list_first)
  then have "filter in_reconnect (remove1 k (li_tasks st)) = []"
    using assms(1) \<open>in_reconnect k\<close> by (simp add: reconnections_def remove1_append)
  with assms(2-5) show ?thesis by (cases k) (simp_all add: reconnections_def after_cooldown_def)
qed

text \<open>
  C12. In every run of a started listener, whatever the driver does, no two connections are held: every client but the current
  one has been told to end, at most one reconnection is under way, and two attempts to connect are at least the reconnect delay
  apart. While no attempt has failed and it is not stopped, the silence timer is armed or an attempt is under way. Once stopped, every client
  has been told to end, the silence timer is not armed and no later event opens a connection. What may be left, or even be started,
  after \<open>stop\<close> is the cooldown or delay timer of the one reconnection that was under way (\<open>stop_leaves_a_cooldown\<close>): when it fires,
  that reconnection is over.
\<close>

theorem listener_run_safe:
  assumes "sorted (t # map fst evs)" "listen_run opts evs (listen_start t) = st"
  shows "one_client (li_client st) (li_ended st) \<and> length (reconnections st) \<le> 1
    \<and> spaced (reconnectDelayMs opts) (li_attempts st)
    \<and> (li_disposed st \<or> li_failed st \<or> li_silenceTimer st \<noteq> None \<or> list_ex is_attempt (li_tasks st))
    \<and> (if li_disposed st then all_ended (li_ended st) \<and> li_silenceTimer st = None
         \<and> (\<forall>more. li_attempts (listen_run opts more st) = li_attempts st)
         \<and> (\<forall>now k ok. k \<in> set (li_tasks st) \<and> is_timer k \<and> is_due now k
              \<longrightarrow> reconnections (listen_step opts now (Settles k ok) st) = []) else True)"
proof -
  obtain t' where "holds_at opts t' st" using holds_run [OF holds_start assms(1)] assms(2) by blast
  then have "one_client (li_client st) (li_ended st) \<and> length (reconnections st) \<le> 1 \<and> spaced (reconnectDelayMs opts) (li_attempts st)
    \<and> (li_disposed st \<or> li_failed st \<or> li_silenceTimer st \<noteq> None \<or> list_ex is_attempt (li_tasks st))
    \<and> (li_disposed st \<longrightarrow> all_ended (li_ended st) \<and> li_silenceTimer st = None)"
    by (simp add: listen_inv_def reconnections_def)
  then show ?thesis using disposed_run stopped_timer_ends by (simp del: listen_step.simps)
qed

definition default_listen :: listen_config where
  "default_listen = \<lparr>lc_silenceThresholdMs = None, lc_reconnectCooldownMs = None, lc_reconnectDelayMs = None\<rparr>"

text \<open>Connected, silent, reconnected, and stopped.\<close>

definition quiet_evening :: "(real \<times> listen_event) list" where
  "quiet_evening = [(1, Settles (Connecting False 0) True), (2, Settles (Subscribing False 0) True),
     (3, Notified ''other'' (Some ''7'')), (5003, SilenceOver), (5004, Settles (EndingClient 0 5000) True),
     (10004, Settles (Cooling 10004) True), (15004, Settles (Delaying 15004) True), (15005, Settles (Connecting True 1) True),
     (15006, Settles (Subscribing True 1) True), (16000, StopCalled)]"

lemma listener_run_safe_witness:
  "spaced (reconnectDelayMs default_listen) (li_attempts (listen_run default_listen quiet_evening (listen_start 0)))
   \<and> li_attempts (listen_run default_listen quiet_evening (listen_start 0)) = [0, 15004]
   \<and> li_ended (listen_run default_listen quiet_evening (listen_start 0)) = [True, True]"
proof -
  have "sorted ((0::real) # map fst quiet_evening)" by (simp add: quiet_evening_def)
  from listener_run_safe [OF this refl, of default_listen]
  have "spaced (reconnectDelayMs default_listen) (li_attempts (listen_run default_listen quiet_evening (listen_start 0)))" by blast
  moreover have "li_attempts (listen_run default_listen quiet_evening (listen_start 0)) = [0, 15004]"
    "li_ended (listen_run default_listen quiet_evening (listen_start 0)) = [True, True]" by code_simp+
  ultimately show ?thesis by blast
qed

section \<open>What the listener does not do\<close>

text \<open>
  \<open>stop\<close> clears the silence timer only. When it comes while a reconnection is ending its client, the cooldown timer is armed
  after it, and keeps the process alive, as it is not told \<open>unref\<close>.
\<close>

lemma stop_leaves_a_cooldown:
  "li_tasks (listen_run default_listen [(1, Settles (Connecting False 0) True), (2, Settles (Subscribing False 0) True), (5002, SilenceOver),
     (5003, StopCalled), (5004, Settles (Stopping 0) True), (5005, Settles (EndingClient 0 5000) True)] (listen_start 0)) = [Cooling 10005]"
  by code_simp

text \<open>
  A reconnection that fails is final: "Will retry on next silence timeout", but no timer is armed. Nothing is pending in the
  listener then, and it is silent until the driver reports something.
\<close>

definition lost_evening :: "(real \<times> listen_event) list" where
  "lost_evening = [(1, Settles (Connecting False 0) True), (2, Settles (Subscribing False 0) True), (5002, SilenceOver),
     (5003, Settles (EndingClient 0 5000) True), (10003, Settles (Cooling 10003) True), (15003, Settles (Delaying 15003) True),
     (15004, Settles (Connecting True 1) False)]"

lemma failed_reconnect_is_final:
  "li_disposed (listen_run default_listen lost_evening (listen_start 0)) = False
   \<and> li_silenceTimer (listen_run default_listen lost_evening (listen_start 0)) = None
   \<and> li_tasks (listen_run default_listen lost_evening (listen_start 0)) = []"
  by code_simp

text \<open>
  "Minimum time (ms) between reconnection attempts. Default 10000": it is counted from the last activity. When the client of the
  failed attempt reports its error, the next attempt comes five seconds after it.
\<close>

lemma cooldown_is_not_kept:
  "li_attempts (listen_run default_listen (lost_evening @ [(15004, Errored), (15004, Settles (EndingClient 1 0) True),
     (20004, Settles (Delaying 20004) True)]) (listen_start 0)) = [0, 15003, 20004]"
  by code_simp

end
