(* ===== verification/Test_Kit.thy ===== *)
theory Test_Kit
  imports Runner_Recovery Replay_Verifier
begin

text \<open>
  The test kits of \<open>testing/aggregate-testkit.ts\<close> and \<open>testing/invariant-testkit.ts\<close>: an aggregate is run without a runtime,
  its effects are taken apart and its invariants checked after each command. The last section relates a run of the kit to the
  entity that the runner of \<open>Entity_Runner\<close> would have made of the same commands. Messages to other entities and log lines
  are not recorded here; the generator of random commands is a library.
\<close>

section \<open>Effects taken apart\<close>

record ('ev, 'r, 'fx, 'df) command_result =
  ks_events :: "'ev list"
  ks_reply :: "'r option"
  ks_deferredReply :: "'df option"
  ks_sideEffects :: "'fx list"
  ks_shouldStop :: bool
  ks_shouldStash :: bool
  ks_shouldSnapshot :: bool
  ks_shouldUnstash :: bool

definition no_result :: "('ev, 'r, 'fx, 'df) command_result" where
  "no_result = \<lparr>ks_events = [], ks_reply = None, ks_deferredReply = None, ks_sideEffects = [],
     ks_shouldStop = False, ks_shouldStash = False, ks_shouldSnapshot = False, ks_shouldUnstash = False\<rparr>"

fun walk :: "('ev, 'r, 'fx, 'df) effect \<Rightarrow> ('ev, 'r, 'fx, 'df) command_result \<Rightarrow> ('ev, 'r, 'fx, 'df) command_result" where
  "walk (Persist es k) acc = walk k (acc\<lparr>ks_events := ks_events acc @ es\<rparr>)"
| "walk (Run fx k) acc = walk k (acc\<lparr>ks_sideEffects := ks_sideEffects acc @ [fx]\<rparr>)"
| "walk (Reply v) acc = acc\<lparr>ks_reply := Some v\<rparr>"
| "walk (ReplyDeferred d) acc = acc\<lparr>ks_deferredReply := Some d\<rparr>"
| "walk (Snapshot k) acc = walk k (acc\<lparr>ks_shouldSnapshot := True\<rparr>)"
| "walk Stop acc = acc\<lparr>ks_shouldStop := True\<rparr>"
| "walk Stash acc = acc\<lparr>ks_shouldStash := True\<rparr>"
| "walk (Unstash k) acc = walk k (acc\<lparr>ks_shouldUnstash := True\<rparr>)"
| "walk Done acc = acc"

definition commandResultFromEffect :: "('ev, 'r, 'fx, 'df) effect \<Rightarrow> ('ev, 'r, 'fx, 'df) command_result" where
  "commandResultFromEffect e = walk e no_result"

lemma walk_events: "ks_events (walk e acc) = ks_events acc @ extractEvents e"
  by (induction e arbitrary: acc) simp_all

lemma result_events: "ks_events (commandResultFromEffect e) = extractEvents e"
  by (simp add: commandResultFromEffect_def walk_events no_result_def)

lemma walk_replies: "(ks_reply (walk e acc) = ks_reply acc \<and> ks_deferredReply (walk e acc) = ks_deferredReply acc) \<or> hasReply e"
  by (induction e arbitrary: acc) force+

section \<open>The mock control\<close>

record 'cmd control_record =
  cr_scheduledTimers :: "(string \<times> 'cmd \<times> rat) list"
  cr_cancelledTimers :: "string list"
  cr_selfCommands :: "'cmd list"

fun mock_call :: "'cmd control_record \<Rightarrow> 'cmd ctx_call \<Rightarrow> 'cmd control_record" where
  "mock_call r (TellSelf c) = r\<lparr>cr_selfCommands := cr_selfCommands r @ [c]\<rparr>"
| "mock_call r (ScheduleOnce i c delay) = r\<lparr>cr_scheduledTimers := cr_scheduledTimers r @ [(i, c, delay)]\<rparr>"
| "mock_call r (SchedulePeriodic i c delay interval) = r"
| "mock_call r (CancelTimer i) = r\<lparr>cr_cancelledTimers := cr_cancelledTimers r @ [i]\<rparr>"

definition createMockControl :: "'cmd control_record" where
  "createMockControl = \<lparr>cr_scheduledTimers = [], cr_cancelledTimers = [], cr_selfCommands = []\<rparr>"

section \<open>The kit of an aggregate\<close>

definition kit_initialState :: "('cmd, 'r, 'ev, 's, 'fx, 'df) aggregate \<Rightarrow> string \<Rightarrow> 's" where
  "kit_initialState agg entityId = initial agg entityId"

text \<open>\<open>n\<close> is the number of the call of \<open>decide\<close>, which may answer differently each time.\<close>

definition kit_run :: "('cmd, 'r, 'ev, 's, 'fx, 'df) aggregate \<Rightarrow> nat \<Rightarrow> 's \<Rightarrow> 'cmd \<Rightarrow>
    js_error + ('ev, 'r, 'fx, 'df) command_result \<times> 'cmd control_record" where
  "kit_run agg n st command =
     (case decide agg n st command of
        (calls, Inl e) \<Rightarrow> Inl e
      | (calls, Inr effect) \<Rightarrow> Inr (commandResultFromEffect effect, foldl mock_call createMockControl calls))"

definition kit_runAndApply :: "('cmd, 'r, 'ev, 's, 'fx, 'df) aggregate \<Rightarrow> nat \<Rightarrow> 's \<Rightarrow> 'cmd \<Rightarrow>
    js_error + 's \<times> ('ev, 'r, 'fx, 'df) command_result \<times> 'cmd control_record" where
  "kit_runAndApply agg n st command =
     (case kit_run agg n st command of
        Inl e \<Rightarrow> Inl e
      | Inr (result, recorded) \<Rightarrow>
          (case foldE (apply_event agg) st (ks_events result) of Inl e \<Rightarrow> Inl e | Inr s \<Rightarrow> Inr (s, result, recorded)))"

section \<open>Sequences of commands\<close>

record ('s, 'ev, 'cmd) trace_step =
  sp_command :: 'cmd
  sp_stateBefore :: 's
  sp_events :: "'ev list"
  sp_stateAfter :: 's
  sp_violations :: "violation list"

record ('s, 'ev, 'cmd) run_trace =
  rt_aggregateId :: string
  rt_steps :: "('s, 'ev, 'cmd) trace_step list"
  rt_initialViolations :: "violation list"
  rt_totalViolations :: nat

record ('cmd, 'r, 'ev, 's, 'fx, 'df) sequence_opts =
  so_aggregate :: "('cmd, 'r, 'ev, 's, 'fx, 'df) aggregate"
  so_aggregateInvariants :: "'s named_invariant list option"
  so_aggregateId :: string
  so_commands :: "'cmd list"
  so_invariants :: "'s named_invariant list option"

definition kit_invariants :: "('cmd, 'r, 'ev, 's, 'fx, 'df) sequence_opts \<Rightarrow> 's named_invariant list" where
  "kit_invariants opts =
     (case so_invariants opts of Some invs \<Rightarrow> invs
      | None \<Rightarrow> (case so_aggregateInvariants opts of Some invs \<Rightarrow> invs | None \<Rightarrow> []))"

text \<open>The loop over the commands; \<open>n\<close> counts the decisions, \<open>seq\<close> the events.\<close>

fun sequence_loop :: "('s \<Rightarrow> string) \<Rightarrow> ('cmd, 'r, 'ev, 's, 'fx, 'df) aggregate \<Rightarrow> 's named_invariant list \<Rightarrow> string \<Rightarrow> nat \<Rightarrow>
    'cmd list \<Rightarrow> 's \<Rightarrow> nat \<Rightarrow> js_error + ('s, 'ev, 'cmd) trace_step list" where
  "sequence_loop json agg invs i n [] st seq = Inr []"
| "sequence_loop json agg invs i n (command # cs) st seq =
     (case decide agg n st command of
        (calls, Inl e) \<Rightarrow> Inl e
      | (calls, Inr effect) \<Rightarrow>
          (let result = commandResultFromEffect effect
           in case foldE (apply_event agg) st (ks_events result) of
                Inl e \<Rightarrow> Inl e
              | Inr s \<Rightarrow>
                  (let seq' = seq + length (ks_events result);
                       step = \<lparr>sp_command = command, sp_stateBefore = st, sp_events = ks_events result, sp_stateAfter = s,
                               sp_violations = checkInvariants json invs s i (int seq')\<rparr>
                   in case sequence_loop json agg invs i (n + 1) cs s seq' of
                        Inl e \<Rightarrow> Inl e | Inr steps \<Rightarrow> Inr (step # steps))))"

definition runCommandSequence :: "('s \<Rightarrow> string) \<Rightarrow> nat \<Rightarrow> ('cmd, 'r, 'ev, 's, 'fx, 'df) sequence_opts \<Rightarrow>
    js_error + ('s, 'ev, 'cmd) run_trace" where
  "runCommandSequence json n opts =
     (let invs = kit_invariants opts;
          st = initial (so_aggregate opts) (so_aggregateId opts);
          initialViolations = checkInvariants json invs st (so_aggregateId opts) 0
      in case sequence_loop json (so_aggregate opts) invs (so_aggregateId opts) n (so_commands opts) st 0 of
           Inl e \<Rightarrow> Inl e
         | Inr steps \<Rightarrow>
             Inr \<lparr>rt_aggregateId = so_aggregateId opts, rt_steps = steps, rt_initialViolations = initialViolations,
                  rt_totalViolations = length initialViolations + sum_list (map (\<lambda>s. length (sp_violations s)) steps)\<rparr>)"

text \<open>The property that the generator tries on random identifiers and commands; \<open>render\<close> writes the message.\<close>

definition invariantProperty :: "('s \<Rightarrow> string) \<Rightarrow> (('s, 'ev, 'cmd) run_trace \<Rightarrow> string) \<Rightarrow> nat \<Rightarrow>
    ('cmd, 'r, 'ev, 's, 'fx, 'df) aggregate \<Rightarrow> 's named_invariant list \<Rightarrow> string \<Rightarrow> 'cmd list \<Rightarrow> js_error + unit" where
  "invariantProperty json render n agg invs aggregateId commands =
     (case runCommandSequence json n \<lparr>so_aggregate = agg, so_aggregateInvariants = None, so_aggregateId = aggregateId,
             so_commands = commands, so_invariants = Some invs\<rparr> of
        Inl e \<Rightarrow> Inl e
      | Inr trace \<Rightarrow> if rt_totalViolations trace > 0 then Inl (JsError (render trace)) else Inr ())"

text \<open>The state a trace ends in, and all its events.\<close>

definition trace_state :: "'s \<Rightarrow> ('s, 'ev, 'cmd) trace_step list \<Rightarrow> 's" where
  "trace_state start steps = (if steps = [] then start else sp_stateAfter (last steps))"

definition trace_events :: "('s, 'ev, 'cmd) trace_step list \<Rightarrow> 'ev list" where
  "trace_events steps = concat (map sp_events steps)"


section \<open>What a live entity makes of the same commands\<close>

text \<open>Commands told to a runner one after the other, as long as none crashes it.\<close>

fun process_commands :: "('cmd, 'r, 'ev, 's, 'fx, 'df, 'd, 'j) runner_opts \<Rightarrow> 'cmd list \<Rightarrow> ('cmd, 'r, 's, 'df, 'd, 'j) runner \<Rightarrow>
    ('cmd, 'r, 's, 'df, 'd, 'j) runner \<times> js_error option" where
  "process_commands cfg [] w = (w, None)"
| "process_commands cfg (c # cs) w =
     (case processCommand cfg c None w of (w', Some e) \<Rightarrow> (w', Some e) | (w', None) \<Rightarrow> process_commands cfg cs w')"

text \<open>Decisions that do not depend on when they are made, and do not postpone the command.\<close>

definition settled_decisions :: "('cmd, 'r, 'ev, 's, 'fx, 'df) aggregate \<Rightarrow> bool" where
  "settled_decisions agg \<longleftrightarrow> (\<forall>n s c. snd (decide agg n s c) = snd (decide agg 0 s c) \<and> snd (decide agg n s c) \<noteq> Inr Stash)"

context journal_contract
begin

text \<open>What the journal and the live state gain when a runner takes a piece of work to its end.\<close>

definition gains :: "('cmd, 'r, 'e, 's, 'fx, 'df, 'd, 'j) runner_opts \<Rightarrow> 'e list \<Rightarrow> ('cmd, 'r, 's, 'df, 'd, 'j) runner \<Rightarrow>
    ('cmd, 'r, 's, 'df, 'd, 'j) runner \<Rightarrow> bool" where
  "gains cfg es w w' \<longleftrightarrow> stored cfg (rn_journal w') \<and> live cfg w' \<and> stashed (rn_est w') = stashed (rn_est w)
     \<and> jlog (rn_journal w') (entity_key cfg) = jlog (rn_journal w) (entity_key cfg)
         @ log_entries (o_eventCodec cfg) (length (jlog (rn_journal w) (entity_key cfg))) es
     \<and> foldE (apply_event (o_aggregate cfg)) (state (rn_est w)) es = Inr (state (rn_est w'))"

lemma log_entries_append: "log_entries codec n (xs @ ys) = log_entries codec n xs @ log_entries codec (n + length xs) ys"
  by (induction xs arbitrary: n) simp_all

lemma gains_trans: "gains cfg xs w w' \<Longrightarrow> gains cfg ys w' w'' \<Longrightarrow> gains cfg (xs @ ys) w w''"
  by (simp add: gains_def log_entries_append foldE_append)

lemma gains_same:
  "stored cfg (rn_journal w) \<Longrightarrow> live cfg w \<Longrightarrow> rn_journal w' = rn_journal w \<Longrightarrow> rn_est w' = rn_est w \<Longrightarrow> gains cfg [] w w'"
  by (simp add: gains_def live_def)

lemma take_snapshot_gains:
  assumes "lawful cfg" "stored cfg (rn_journal w)" "live cfg w" "take_snapshot cfg w = Inr w'"
  shows "gains cfg [] w w'"
proof -
  obtain j where j: "persistSnapshot J (rn_journal w) (agg_category cfg) (o_entityId cfg) (state (rn_est w))
      (sequenceNr (rn_est w)) (o_stateCodec cfg) = Inr j" "rn_journal w' = j"
    using assms(1,4) by (auto simp: take_snapshot_def lawful_def split: sum.splits)
  have "inv (rn_journal w)" using assms(2) by (simp add: stored_def)
  from snapshot_Inr [OF this j(1)] show ?thesis
    using take_snapshot_keeps [OF assms] take_snapshot_frame [OF assms(4)] j(2) by (simp add: gains_def)
qed

lemma gainsD: "gains cfg es w w' \<Longrightarrow> stored cfg (rn_journal w') \<and> live cfg w' \<and> stashed (rn_est w') = stashed (rn_est w)"
  by (simp add: gains_def)

lemma after_persist_gains:
  assumes "lawful cfg" "stored cfg (rn_journal w)" "live cfg w" "after_persist cfg n es envs w = (w', None)"
  shows "gains cfg [] w w'"
proof -
  obtain w1 where w1: "(if 0 < snapshot_interval cfg \<and> snapshot_interval cfg \<le> int (eventsSinceSnapshot (rn_est w))
      then take_snapshot cfg w else Inr w) = Inr w1" "rn_journal w' = rn_journal w1" "rn_est w' = rn_est w1"
    using assms(4) by (auto simp: after_persist_def split: sum.splits)
  have g: "gains cfg [] w w1"
    using w1(1) take_snapshot_gains [OF assms(1-3)] gains_same [OF assms(2,3)] by (auto split: if_splits)
  have "gains cfg [] w1 w'" using gainsD [OF g] w1(2,3) by (intro gains_same) auto
  from gains_trans [OF g this] show ?thesis by simp
qed

lemma exec_persist_gains:
  assumes "lawful cfg" "stored cfg (rn_journal w)" "live cfg w" "exec_persist cfg es w = (w', None)"
  shows "gains cfg es w w'"
proof -
  let ?envs = "make_envelopes (o_stampOf cfg) (o_ulid cfg) (rn_ulids w) es"
  have J: "o_journal cfg = J" using assms(1) by (simp add: lawful_def)
  have seq: "sequenceNr (rn_est w) = length (jlog (rn_journal w) (entity_key cfg))" using assms(3) by (simp add: live_def)
  obtain n j s where p: "persistEvents J (rn_journal w) (agg_category cfg) (o_entityId cfg) es (sequenceNr (rn_est w))
      (o_eventCodec cfg) (Some (fst ?envs)) = Inr (n, j)"
    and f: "foldE (apply_event (o_aggregate cfg)) (state (rn_est w)) es = Inr s"
    and a: "after_persist cfg (sequenceNr (rn_est w)) es (fst ?envs)
        (w\<lparr>rn_ulids := snd ?envs, rn_journal := j, rn_est := \<lparr>state = s, sequenceNr = n, stashed = stashed (rn_est w),
           eventsSinceSnapshot = eventsSinceSnapshot (rn_est w) + length es\<rparr>\<rparr>) = (w', None)" (is "after_persist _ _ _ _ ?w = _")
    using assms(4) by (auto simp: exec_persist_def J Let_def split: sum.splits)
  note sp = stored_persist [OF assms(1,2) p [unfolded seq]]
  have ec: "codec_contract (o_eventCodec cfg)" using assms(1) by (simp add: lawful_def)
  have "replay cfg (jlog j (entity_key cfg)) = Inr s"
    using sp replay_append [OF _ decode_log_entries [OF ec]] f assms(3) by (simp add: live_def del: upt_Suc)
  then have w: "gains cfg es w ?w" using sp f by (simp add: gains_def live_def)
  have "gains cfg [] ?w w'" using gainsD [OF w] by (intro after_persist_gains [OF assms(1) _ _ a]) auto
  from gains_trans [OF w this] show ?thesis by simp
qed

lemma effect_gains:
  assumes "lawful cfg" "stored cfg (rn_journal w)" "live cfg w" "stashed (rn_est w) = []"
    and "exec_work cfg [Eff e r] w = (w', None)"
  shows "gains cfg (extractEvents e) w w'"
  using assms
proof (induction e arbitrary: w)
  case (Persist es k)
  obtain w1 where w1: "exec_persist cfg es w = (w1, None)" "exec_work cfg [Eff k r] w1 = (w', None)"
    using Persist.prems(5) by (auto split: prod.splits option.splits)
  have g: "gains cfg es w w1" by (rule exec_persist_gains [OF Persist.prems(1-3) w1(1)])
  have "gains cfg (extractEvents k) w1 w'"
    using gainsD [OF g] Persist.prems(4) by (intro Persist.IH [OF Persist.prems(1) _ _ _ w1(2)]) auto
  from gains_trans [OF g this] show ?case by simp
next
  case (Run fx k)
  define w1 where "w1 = foldl ctx_step (w\<lparr>rn_calls := Suc (rn_calls w)\<rparr>) (fst (o_sideEffect cfg (rn_calls w) fx))"
  have "exec_work cfg [Eff k r] w1 = (w', None)"
    using Run.prems(5) by (auto simp: w1_def Let_def split: prod.splits option.splits)
  note x = this
  have g: "gains cfg [] w w1" using Run.prems(2,3) by (intro gains_same) (simp_all add: w1_def)
  have "gains cfg (extractEvents k) w1 w'"
    using gainsD [OF g] Run.prems(4) by (intro Run.IH [OF Run.prems(1) _ _ _ x]) auto
  from gains_trans [OF g this] show ?case by simp
next
  case (Snapshot k)
  obtain w1 where w1: "take_snapshot cfg w = Inr w1" "exec_work cfg [Eff k r] w1 = (w', None)"
    using Snapshot.prems(5) by (auto split: sum.splits)
  have g: "gains cfg [] w w1" by (rule take_snapshot_gains [OF Snapshot.prems(1-3) w1(1)])
  have "gains cfg (extractEvents k) w1 w'"
    using gainsD [OF g] Snapshot.prems(4) by (intro Snapshot.IH [OF Snapshot.prems(1) _ _ _ w1(2)]) auto
  from gains_trans [OF g this] show ?case by simp
next
  case (Unstash k)
  let ?w = "w\<lparr>rn_est := (rn_est w)\<lparr>stashed := []\<rparr>\<rparr>"
  have x: "exec_work cfg [Eff k r] ?w = (w', None)" using Unstash.prems(4,5) by simp
  moreover have "?w = w" using Unstash.prems(4) by simp
  ultimately have "exec_work cfg [Eff k r] w = (w', None)" by metis
  from Unstash.IH [OF Unstash.prems(1-4) this] show ?case by simp
qed (use gains_same in \<open>auto simp: gains_def live_def\<close>)

lemma command_gains:
  assumes "lawful cfg" "stored cfg (rn_journal w)" "live cfg w" "stashed (rn_est w) = []" "settled_decisions (o_aggregate cfg)"
    and "processCommand cfg c r w = (w', None)"
  shows "\<exists>e. snd (decide (o_aggregate cfg) n (state (rn_est w)) c) = Inr e \<and> gains cfg (extractEvents e) w w'"
proof -
  let ?d = "decide (o_aggregate cfg) (rn_calls w) (state (rn_est w)) c"
  define w1 where "w1 = foldl ctx_step (w\<lparr>rn_calls := Suc (rn_calls w)\<rparr>) (fst ?d)"
  have ns: "snd ?d \<noteq> Inr Stash" and same: "snd (decide (o_aggregate cfg) n (state (rn_est w)) c) = snd ?d"
    using assms(5) by (auto simp: settled_decisions_def) metis
  obtain e where e: "snd ?d = Inr e" "exec_work cfg [Eff e r] w1 = (w', None)"
    using assms(6) ns by (auto simp: processCommand_def w1_def Let_def split: sum.splits effect.splits prod.splits)
  have g: "gains cfg [] w w1" using assms by (intro gains_same) (simp_all add: w1_def)
  have "gains cfg (extractEvents e) w1 w'"
    using gainsD [OF g] assms(4) by (intro effect_gains [OF assms(1) _ _ _ e(2)]) auto
  from gains_trans [OF g this] show ?thesis using e(1) same by auto
qed

text \<open>The kit's loop and the runner make the same events and states, command by command.\<close>

lemma commands_gain:
  assumes "lawful cfg" "settled_decisions (o_aggregate cfg)" "stored cfg (rn_journal w)" "live cfg w" "stashed (rn_est w) = []"
    and "process_commands cfg cs w = (w', None)"
  shows "\<exists>steps. sequence_loop json (o_aggregate cfg) invs i n cs (state (rn_est w)) seq = Inr steps
    \<and> gains cfg (trace_events steps) w w' \<and> trace_state (state (rn_est w)) steps = state (rn_est w')"
  using assms(3-6)
proof (induction cs arbitrary: w n seq)
  case Nil
  then show ?case using gains_same [of cfg w w] by (simp add: trace_events_def trace_state_def)
next
  case (Cons c cs)
  obtain w1 where w1: "processCommand cfg c None w = (w1, None)" "process_commands cfg cs w1 = (w', None)"
    using Cons.prems(4) by (auto split: prod.splits option.splits)
  obtain e where e: "snd (decide (o_aggregate cfg) n (state (rn_est w)) c) = Inr e" "gains cfg (extractEvents e) w w1"
    using command_gains [OF assms(1) Cons.prems(1-3) assms(2) w1(1)] by blast
  have "foldE (apply_event (o_aggregate cfg)) (state (rn_est w)) (extractEvents e) = Inr (state (rn_est w1))"
    using e(2) by (simp add: gains_def)
  moreover obtain steps where s: "sequence_loop json (o_aggregate cfg) invs i (n + 1) cs (state (rn_est w1))
      (seq + length (extractEvents e)) = Inr steps" "gains cfg (trace_events steps) w1 w'"
      "trace_state (state (rn_est w1)) steps = state (rn_est w')"
    using Cons.IH [OF _ _ _ w1(2)] gainsD [OF e(2)] Cons.prems(3) by metis
  moreover obtain calls where "decide (o_aggregate cfg) n (state (rn_est w)) c = (calls, Inr e)"
    using e(1) by (metis prod.collapse)
  ultimately show ?case using gains_trans [OF e(2) s(2)]
    by (auto simp: result_events Let_def trace_events_def trace_state_def)
qed

end

section \<open>The property\<close>

lemma sequence_violations:
  assumes "sequence_loop json agg invs i n cs st seq = Inr steps" "list_all (\<lambda>iv. holds_in iv st) invs"
    and "\<forall>s \<in> set steps. sp_violations s = []"
  shows "list_all (\<lambda>iv. holds_in iv (trace_state st steps)) invs"
  using assms
proof (induction cs arbitrary: n st seq steps)
  case (Cons c cs)
  obtain calls e where d: "decide agg n st c = (calls, Inr e)"
    using Cons.prems(1) by (auto simp: Let_def split: prod.splits sum.splits)
  obtain s where s: "foldE (apply_event agg) st (extractEvents e) = Inr s"
    using Cons.prems(1) d by (auto simp: Let_def result_events split: sum.splits)
  let ?seq = "seq + length (extractEvents e)"
  obtain rest where r: "sequence_loop json agg invs i (n + 1) cs s ?seq = Inr rest"
    using Cons.prems(1) d s by (auto simp: Let_def result_events split: sum.splits)
  have x: "steps = \<lparr>sp_command = c, sp_stateBefore = st, sp_events = extractEvents e, sp_stateAfter = s,
      sp_violations = checkInvariants json invs s i (int ?seq)\<rparr> # rest"
    using Cons.prems(1) d s r by (simp add: Let_def result_events)
  have "list_all (\<lambda>iv. holds_in iv (trace_state s rest)) invs"
    using Cons.prems(3) x by (intro Cons.IH [OF r]) (auto simp: checkInvariants_none)
  then show ?case by (simp add: x trace_state_def split: if_splits)
qed (simp add: trace_state_def)

text \<open>
  C6. A run of the invariant kit predicts the live entity. When an entity over an empty journal takes the same commands without
  crashing, and its decisions neither depend on when they are made nor postpone commands, then the kit's run succeeds, its events are
  exactly the entity's journal, its last state is the live state, and if it counts no violation every invariant holds there.
\<close>

theorem testkit_predicts_entity:
  assumes "process_commands cfg cs (new_runner cfg createInMemoryJournal u k) = (w, None)"
    and "o_journal cfg = inmem_journal" "codec_contract (o_eventCodec cfg)" "codec_contract (o_stateCodec cfg)"
    and "settled_decisions (o_aggregate cfg)"
  shows "\<exists>trace. runCommandSequence json n \<lparr>so_aggregate = o_aggregate cfg, so_aggregateInvariants = ai,
        so_aggregateId = o_entityId cfg, so_commands = cs, so_invariants = Some invs\<rparr> = Inr trace
    \<and> im_log (rn_journal w) (entity_key cfg) = log_entries (o_eventCodec cfg) 0 (trace_events (rt_steps trace))
    \<and> sequenceNr (rn_est w) = length (trace_events (rt_steps trace))
    \<and> trace_state (initial (o_aggregate cfg) (o_entityId cfg)) (rt_steps trace) = state (rn_est w)
    \<and> (rt_totalViolations trace = 0 \<longrightarrow> list_all (\<lambda>iv. holds_in iv (state (rn_est w))) invs)"
proof -
  let ?w = "new_runner cfg createInMemoryJournal u k" and ?s = "initial (o_aggregate cfg) (o_entityId cfg)"
  have law: "inmem.lawful cfg" using assms(2-4) by (simp add: inmem.lawful_def)
  have st: "inmem.stored cfg (rn_journal ?w)" "inmem.live cfg ?w" "stashed (rn_est ?w) = []" "state (rn_est ?w) = ?s"
    "im_log (rn_journal ?w) (entity_key cfg) = []"
    using im_inv_create by (simp_all add: new_runner_def inmem.stored_def inmem.live_def)
  obtain steps where s: "sequence_loop json (o_aggregate cfg) invs (o_entityId cfg) n cs ?s 0 = Inr steps"
      "inmem.gains cfg (trace_events steps) ?w w" "trace_state ?s steps = state (rn_est w)"
    using inmem.commands_gain [OF law assms(5) st(1-3) assms(1)] st(4) by metis
  have lg: "im_log (rn_journal w) (entity_key cfg) = log_entries (o_eventCodec cfg) 0 (trace_events steps)"
    "sequenceNr (rn_est w) = length (trace_events steps)"
    using s(2) st(5) by (simp_all add: inmem.gains_def inmem.live_def)
  show ?thesis
    using s(1,3) lg sequence_violations [OF s(1)]
    by (auto simp: runCommandSequence_def kit_invariants_def Let_def checkInvariants_none)
qed


text \<open>The counter of \<open>Runner_Recovery\<close> is given the numbers 2 and 3, and must stay below 10.\<close>

definition below_ten :: "int named_invariant" where
  "below_ten = \<lparr>iv_name = ''below ten'', iv_check = (\<lambda>s. Inr (s < 10))\<rparr>"

lemma testkit_predicts_entity_witness:
  "\<exists>w trace. process_commands (demo_opts inmem_journal) [2, 3] (new_runner (demo_opts inmem_journal) createInMemoryJournal 0 0) = (w, None)
    \<and> runCommandSequence (\<lambda>_. []) 0 \<lparr>so_aggregate = o_aggregate (demo_opts inmem_journal), so_aggregateInvariants = None,
        so_aggregateId = o_entityId (demo_opts inmem_journal), so_commands = [2, 3], so_invariants = Some [below_ten]\<rparr> = Inr trace
    \<and> state (rn_est w) = 5 \<and> im_log (rn_journal w) (entity_key (demo_opts inmem_journal)) =
        log_entries (o_eventCodec (demo_opts inmem_journal)) 0 (trace_events (rt_steps trace))"
proof -
  obtain w where w: "process_commands (demo_opts inmem_journal) [2, 3] (new_runner (demo_opts inmem_journal) createInMemoryJournal 0 0) = (w, None)"
    "state (rn_est w) = 5"
    by (simp add: processCommand_def exec_persist_def after_persist_def take_snapshot_def snapshot_interval_def new_runner_def respond_def
      demo_defs inmem_journal_def im_persistEvents_def im_persistSnapshot_def createInMemoryJournal_def to_stored_def
      events_at_def Let_def)
  have "settled_decisions (o_aggregate (demo_opts inmem_journal))" by (simp add: settled_decisions_def demo_opts_def)
  from testkit_predicts_entity [OF w(1) _ _ _ this, of "\<lambda>_. []" 0 None "[below_ten]"] w show ?thesis
    by (auto simp: demo_opts_def object_codec.codec_contract_axioms)
qed

section \<open>What the kits do not do\<close>

text \<open>"Mock EffectControl that records all interactions": a periodic timer leaves no trace.\<close>

lemma periodic_timers_are_not_recorded: "mock_call r (SchedulePeriodic i c delay interval) = r"
  by simp

text \<open>
  The kit checks after a command, the replay verifier after each event. A violation that a later event of the same command repairs is
  missed, and one that stays is reported at the number of the command's last event, not "where in the event stream the violation appeared".
\<close>

definition two_steps :: "(int, unit, int, int, unit, unit) aggregate" where
  "two_steps = \<lparr>category = ''c'', initial = (\<lambda>_. 0), decide = (\<lambda>_ _ c. ([], Inr (Persist [20, c] Done))),
     apply_event = (\<lambda>s e. Inr (s + e)), onRecoveryComplete = None, snapshotEvery = None\<rparr>"

definition two_steps_run :: "int \<Rightarrow> js_error + (int, int, int) run_trace" where
  "two_steps_run c = runCommandSequence (\<lambda>_. []) 0 \<lparr>so_aggregate = two_steps, so_aggregateInvariants = Some [below_ten],
     so_aggregateId = ''e'', so_commands = [c], so_invariants = None\<rparr>"

definition two_steps_verified :: "int \<Rightarrow> js_error + int verification" where
  "two_steps_verified c = verifyEventStream (\<lambda>_. []) \<lparr>sj_initial = initial two_steps, sj_apply = apply_event two_steps,
     sj_invariants = Some [below_ten]\<rparr> ''e'' [20, c] None"

lemma kit_checks_after_commands:
  "map_sum id rt_totalViolations (two_steps_run (-20)) = Inr 0
   \<and> map_sum id (\<lambda>v. map vi_sequenceNr (ve_violations v)) (two_steps_verified (-20)) = Inr [1]
   \<and> map_sum id (\<lambda>t. map vi_sequenceNr (concat (map sp_violations (rt_steps t)))) (two_steps_run 1) = Inr [2]
   \<and> map_sum id (\<lambda>v. map vi_sequenceNr (ve_violations v)) (two_steps_verified 1) = Inr [1, 2]"
  by (simp add: two_steps_run_def two_steps_verified_def two_steps_def runCommandSequence_def kit_invariants_def below_ten_def
    verifyEventStream_def commandResultFromEffect_def no_result_def holds_in_def verification_of_def chosen_invariants_def)

end
