(* ===== verification/Http_Stream.thy ===== *)
theory Http_Stream
  imports Node_Guard Entity_Runner "HOL-Library.Sublist"
begin

text \<open>
  \<open>http/sse.ts\<close>: the bus that fans frames out and the stream of server-sent events of one client. A stream is what the code
  uses of a \<open>ReadableStream\<close>: its queue of unread chunks, measured in bytes, and whether it takes more. Texts are lists of bytes.
\<close>

section \<open>Frames\<close>

datatype stream_frame =
    HelloFrame real real
  | JournalFrame string string "(nat \<times> string \<times> js_val \<times> js_val) list" real
  | SignalFrame js_val

fun frame_type :: "stream_frame \<Rightarrow> string" where
  "frame_type (HelloFrame s n) = ''hello''"
| "frame_type (JournalFrame c e rs t) = ''journal''"
| "frame_type (SignalFrame row) = ''signal''"

definition record_json :: "nat \<times> string \<times> js_val \<times> js_val \<Rightarrow> js_val" where
  "record_json r = (case r of (n, m, d, env) \<Rightarrow>
     JObj [(''sequenceNr'', JNum (real n)), (''manifest'', JStr m), (''encoded'', d), (''envelope'', env)])"

fun frame_json :: "stream_frame \<Rightarrow> js_val" where
  "frame_json (HelloFrame s n) = JObj [(''type'', JStr ''hello''), (''startedAt'', JNum s), (''now'', JNum n)]"
| "frame_json (JournalFrame c e rs t) = JObj [(''type'', JStr ''journal''), (''category'', JStr c), (''entityId'', JStr e),
     (''records'', JArr (map record_json rs)), (''at'', JNum t)]"
| "frame_json (SignalFrame row) = JObj [(''type'', JStr ''signal''), (''row'', row)]"

definition text_member :: "string \<Rightarrow> string option \<Rightarrow> (string \<times> js_val) list" where
  "text_member k x = (case x of Some s \<Rightarrow> [(k, JStr s)] | None \<Rightarrow> [])"

definition envelope_json :: "envelope \<Rightarrow> js_val" where
  "envelope_json env = JObj ([(''eventId'', JStr (eventId env))] @ text_member ''causationId'' (causationId env)
     @ text_member ''correlationId'' (correlationId env) @ text_member ''origin'' (origin env) @ [(''v'', JNum (real (env_v env)))])"

definition journalFrame :: "js_val persisted_batch \<Rightarrow> stream_frame" where
  "journalFrame batch = JournalFrame (pb_category batch) (pb_entityId batch)
     (map (\<lambda>r. (pr_sequenceNr r, pr_manifest r, pr_encoded r, envelope_json (pr_envelope r))) (pb_records batch))
     (of_int (pb_at batch))"

section \<open>One client\<close>

text \<open>\<open>sc_from\<close> is how many frames had been published when the client subscribed; no operation reads it.\<close>

record sse_client =
  sc_open :: bool
  sc_subscribed :: bool
  sc_keepalive :: bool
  sc_queue :: "string list"
  sc_read :: "string list"
  sc_hello :: stream_frame
  sc_from :: nat

definition MAX_BUFFERED_BYTES :: int where
  "MAX_BUFFERED_BYTES = 1048576"

definition highWaterMark :: int where
  "highWaterMark = 65536"

definition queued_bytes :: "sse_client \<Rightarrow> int" where
  "queued_bytes c = int (sum_list (map length (sc_queue c)))"

definition desiredSize :: "sse_client \<Rightarrow> int" where
  "desiredSize c = (if sc_open c then highWaterMark - queued_bytes c else 0)"

definition cleanup :: "sse_client \<Rightarrow> sse_client" where
  "cleanup c = c\<lparr>sc_subscribed := False, sc_keepalive := False\<rparr>"

definition sse_write :: "string \<Rightarrow> sse_client \<Rightarrow> sse_client" where
  "sse_write s c =
     (if desiredSize c < - MAX_BUFFERED_BYTES then (cleanup c)\<lparr>sc_open := False\<rparr>
      else if sc_open c then c\<lparr>sc_queue := sc_queue c @ [s]\<rparr>
      else cleanup c)"

definition newline :: string where
  "newline = [CHR 0x0A]"

definition frame_text :: "(real \<Rightarrow> string) \<Rightarrow> stream_frame \<Rightarrow> string" where
  "frame_text num frame =
     ''event: '' @ frame_type frame @ newline @ ''data: '' @ stringify num (frame_json frame) @ newline @ newline"

definition retry_text :: string where
  "retry_text = ''retry: 3000'' @ newline @ newline"

definition keepalive_text :: string where
  "keepalive_text = '': keepalive'' @ newline @ newline"

definition sendFrame :: "(real \<Rightarrow> string) \<Rightarrow> stream_frame \<Rightarrow> sse_client \<Rightarrow> sse_client" where
  "sendFrame num frame c = sse_write (frame_text num frame) c"

text \<open>\<open>start\<close> of the stream, which ends with the subscription and the keepalive timer.\<close>

definition sse_start :: "(real \<Rightarrow> string) \<Rightarrow> real \<Rightarrow> real \<Rightarrow> nat \<Rightarrow> sse_client" where
  "sse_start num startedAt now published =
     (let c = \<lparr>sc_open = True, sc_subscribed = False, sc_keepalive = False, sc_queue = [], sc_read = [],
               sc_hello = HelloFrame startedAt now, sc_from = published\<rparr>
      in (sendFrame num (HelloFrame startedAt now) (sse_write retry_text c))\<lparr>sc_subscribed := True, sc_keepalive := True\<rparr>)"

section \<open>The bus\<close>

text \<open>
  The bus holds its subscribers in the order in which they came; here a subscriber is a client and is known by its place in the
  list. \<open>sb_published\<close> lists the frames published so far; no operation reads it but the start of a client.
\<close>

record stream_bus =
  sb_subscribers :: "nat list"
  sb_clients :: "sse_client list"
  sb_published :: "stream_frame list"

definition createStreamBus :: stream_bus where
  "createStreamBus = \<lparr>sb_subscribers = [], sb_clients = [], sb_published = []\<rparr>"

definition bus_subscribe :: "nat \<Rightarrow> stream_bus \<Rightarrow> stream_bus" where
  "bus_subscribe i b = b\<lparr>sb_subscribers := js_add i (sb_subscribers b)\<rparr>"

definition bus_unsubscribe :: "nat \<Rightarrow> stream_bus \<Rightarrow> stream_bus" where
  "bus_unsubscribe i b = b\<lparr>sb_subscribers := removeAll i (sb_subscribers b)\<rparr>"

definition subscriberCount :: "stream_bus \<Rightarrow> nat" where
  "subscriberCount b = length (sb_subscribers b)"

text \<open>A step of a client; when it cleans up it leaves the bus.\<close>

definition client_step :: "nat \<Rightarrow> (sse_client \<Rightarrow> sse_client) \<Rightarrow> stream_bus \<Rightarrow> stream_bus" where
  "client_step i f b =
     (let c = f (sb_clients b ! i); b' = b\<lparr>sb_clients := (sb_clients b)[i := c]\<rparr>
      in if sc_subscribed c then b' else bus_unsubscribe i b')"

definition publish :: "(real \<Rightarrow> string) \<Rightarrow> stream_frame \<Rightarrow> stream_bus \<Rightarrow> stream_bus" where
  "publish num frame b =
     fold (\<lambda>i. client_step i (sendFrame num frame)) (sb_subscribers b) (b\<lparr>sb_published := sb_published b @ [frame]\<rparr>)"

definition sseResponse :: "(real \<Rightarrow> string) \<Rightarrow> real \<Rightarrow> real \<Rightarrow> stream_bus \<Rightarrow> stream_bus" where
  "sseResponse num startedAt now b =
     bus_subscribe (length (sb_clients b)) (b\<lparr>sb_clients := sb_clients b @ [sse_start num startedAt now (length (sb_published b))]\<rparr>)"

text \<open>The consumer reads a chunk, cancels the stream, or is gone without a word; the timer ticks while it is set.\<close>

definition sse_pull :: "sse_client \<Rightarrow> sse_client" where
  "sse_pull c = (case sc_queue c of [] \<Rightarrow> c | x # xs \<Rightarrow> c\<lparr>sc_queue := xs, sc_read := sc_read c @ [x]\<rparr>)"

definition sse_cancel :: "sse_client \<Rightarrow> sse_client" where
  "sse_cancel c = (cleanup c)\<lparr>sc_open := False, sc_queue := []\<rparr>"

definition sse_gone :: "sse_client \<Rightarrow> sse_client" where
  "sse_gone c = c\<lparr>sc_open := False\<rparr>"

definition sse_tick :: "sse_client \<Rightarrow> sse_client" where
  "sse_tick c = (if sc_keepalive c then sse_write keepalive_text c else c)"

datatype bus_event =
    Publish stream_frame
  | Connect real real
  | Pull nat
  | Cancel nat
  | Gone nat
  | Tick nat

fun bus_step :: "(real \<Rightarrow> string) \<Rightarrow> bus_event \<Rightarrow> stream_bus \<Rightarrow> stream_bus" where
  "bus_step num (Publish frame) b = publish num frame b"
| "bus_step num (Connect startedAt now) b = sseResponse num startedAt now b"
| "bus_step num (Pull i) b = (if i < length (sb_clients b) then client_step i sse_pull b else b)"
| "bus_step num (Cancel i) b = (if i < length (sb_clients b) then client_step i sse_cancel b else b)"
| "bus_step num (Gone i) b = (if i < length (sb_clients b) then client_step i sse_gone b else b)"
| "bus_step num (Tick i) b = (if i < length (sb_clients b) then client_step i sse_tick b else b)"

definition bus_run :: "(real \<Rightarrow> string) \<Rightarrow> bus_event list \<Rightarrow> stream_bus" where
  "bus_run num evs = fold (bus_step num) evs createStreamBus"


section \<open>The wire format\<close>

text \<open>A JSON text has no line break, so a frame is one event: an \<open>event\<close> line, a \<open>data\<close> line and an empty line.\<close>

definition one_line :: "string \<Rightarrow> bool" where
  "one_line s \<longleftrightarrow> CHR 0x0A \<notin> set s"

lemma hex_digit_not_newline: "d < 16 \<Longrightarrow> hex_digit d \<noteq> CHR 0x0A"
proof -
  assume "d < 16"
  then have "of_char (hex_digit d) \<ge> (48::nat)" by (simp add: hex_digit_def)
  then show ?thesis by auto
qed

lemma escape_one_line: "one_line (escape_char c)"
proof (cases "of_char c < (32::nat)")
  case True
  then have "hex_digit (of_char c div 16) \<noteq> CHR 0x0A" "hex_digit (of_char c mod 16) \<noteq> CHR 0x0A"
    by (simp_all add: hex_digit_not_newline)
  then show ?thesis using True by (auto simp: one_line_def escape_char_def Let_def)
next
  case False
  then have "c \<noteq> CHR 0x0A" by auto
  then show ?thesis using False by (auto simp: one_line_def escape_char_def Let_def)
qed

lemma quote_one_line: "one_line (quote_text s)"
  using escape_one_line by (auto simp: quote_text_def one_line_def)

lemma join_one_line: "one_line sep \<Longrightarrow> \<forall>x \<in> set xs. one_line x \<Longrightarrow> one_line (join_str sep xs)"
  by (induction sep xs rule: join_str.induct) (auto simp: one_line_def)

lemma stringify_one_line: "(\<And>x. one_line (num x)) \<Longrightarrow> one_line (stringify num v)"
proof (induction num v rule: stringify.induct)
  case (6 num xs)
  have "one_line (join_str '','' (map (stringify num) xs))" using 6 by (intro join_one_line) (auto simp: one_line_def)
  then show ?case by (simp add: one_line_def)
next
  case (7 num ps)
  have "one_line (join_str '','' (concat (map (\<lambda>(k, v). if json_omits v then [] else [quote_text k @ '':'' @ stringify num v]) ps)))"
    using 7 quote_one_line by (intro join_one_line) (fastforce simp: one_line_def split: if_splits)+
  then show ?case by (simp add: one_line_def)
next
  case (8 num b)
  show ?case by (cases b) (simp_all add: one_line_def)
qed (simp_all add: one_line_def quote_one_line [unfolded one_line_def])

lemma frame_is_one_event:
  assumes "\<And>x. one_line (num x)"
  shows "\<exists>a d. frame_text num frame = a @ newline @ d @ newline @ newline \<and> one_line a \<and> one_line d"
proof (intro exI conjI)
  show "frame_text num frame = (''event: '' @ frame_type frame) @ newline @ (''data: '' @ stringify num (frame_json frame)) @ newline @ newline"
    by (simp add: frame_text_def)
  show "one_line (''event: '' @ frame_type frame)" by (cases frame) (simp_all add: one_line_def)
  show "one_line (''data: '' @ stringify num (frame_json frame))"
    using stringify_one_line [OF assms] by (simp add: one_line_def)
qed

section \<open>What a client is sent\<close>

definition delivered :: "sse_client \<Rightarrow> string list" where
  "delivered c = filter (\<lambda>s. s \<noteq> keepalive_text) (sc_read c @ sc_queue c)"

definition due_texts :: "(real \<Rightarrow> string) \<Rightarrow> stream_frame list \<Rightarrow> sse_client \<Rightarrow> string list" where
  "due_texts num published c = [retry_text, frame_text num (sc_hello c)] @ map (frame_text num) (drop (sc_from c) published)"

text \<open>\<open>m\<close> bounds the length of the chunks.\<close>

definition client_ok :: "(real \<Rightarrow> string) \<Rightarrow> nat \<Rightarrow> stream_frame list \<Rightarrow> sse_client \<Rightarrow> bool" where
  "client_ok num m published c \<longleftrightarrow> prefix (delivered c) (due_texts num published c)
     \<and> (sc_open c \<and> sc_subscribed c \<longrightarrow> delivered c = due_texts num published c)
     \<and> sc_from c \<le> length published
     \<and> queued_bytes c \<le> highWaterMark + MAX_BUFFERED_BYTES + int m"

definition bus_ok :: "(real \<Rightarrow> string) \<Rightarrow> nat \<Rightarrow> stream_bus \<Rightarrow> bool" where
  "bus_ok num m b \<longleftrightarrow> distinct (sb_subscribers b)
     \<and> (\<forall>i. i \<in> set (sb_subscribers b) \<longleftrightarrow> i < length (sb_clients b) \<and> sc_subscribed (sb_clients b ! i))
     \<and> (\<forall>c \<in> set (sb_clients b). client_ok num m (sb_published b) c)"

lemma frame_not_keepalive: "frame_text num f \<noteq> keepalive_text" "retry_text \<noteq> keepalive_text"
  by (simp_all add: frame_text_def keepalive_text_def retry_text_def newline_def)

lemma queued_bytes_append: "queued_bytes (c\<lparr>sc_queue := sc_queue c @ [s]\<rparr>) = queued_bytes c + int (length s)"
  by (simp add: queued_bytes_def)

lemma write_fields:
  "sc_read (sse_write s c) = sc_read c" "sc_from (sse_write s c) = sc_from c" "sc_hello (sse_write s c) = sc_hello c"
  by (simp_all add: sse_write_def cleanup_def)

text \<open>A write appends to the queue, or the client is dropped.\<close>

lemma write_cases:
  "(sse_write s c = c\<lparr>sc_queue := sc_queue c @ [s]\<rparr> \<and> sc_open c \<and> queued_bytes c \<le> highWaterMark + MAX_BUFFERED_BYTES)
   \<or> (\<not> sc_subscribed (sse_write s c) \<and> sc_queue (sse_write s c) = sc_queue c)"
  by (auto simp: sse_write_def cleanup_def desiredSize_def)

lemma publish_client_ok:
  assumes "client_ok num m pub c" "sc_subscribed c" "length (frame_text num f) \<le> m"
  shows "client_ok num m (pub @ [f]) (sendFrame num f c)"
proof -
  let ?c = "sendFrame num f c"
  have d: "due_texts num (pub @ [f]) ?c = due_texts num pub c @ [frame_text num f]"
    using assms(1) by (simp add: due_texts_def sendFrame_def write_fields client_ok_def)
  from write_cases [of "frame_text num f" c] show ?thesis
  proof
    assume w: "sse_write (frame_text num f) c = c\<lparr>sc_queue := sc_queue c @ [frame_text num f]\<rparr> \<and> sc_open c
        \<and> queued_bytes c \<le> highWaterMark + MAX_BUFFERED_BYTES"
    then have "delivered ?c = due_texts num (pub @ [f]) ?c"
      using assms(1,2) d frame_not_keepalive(1) [of num f] by (simp add: client_ok_def delivered_def sendFrame_def)
    then show ?thesis using w assms(1,3) queued_bytes_append [of c "frame_text num f"] by (simp add: client_ok_def sendFrame_def)
  next
    assume w: "\<not> sc_subscribed (sse_write (frame_text num f) c) \<and> sc_queue (sse_write (frame_text num f) c) = sc_queue c"
    then have "delivered ?c = delivered c" by (simp add: delivered_def sendFrame_def write_fields)
    then show ?thesis using w assms(1) d
      by (auto simp: client_ok_def sendFrame_def write_fields queued_bytes_def intro: prefix_prefix)
  qed
qed

lemma unsubscribed_ok: "client_ok num m pub c \<Longrightarrow> \<not> sc_subscribed c \<Longrightarrow> client_ok num m (pub @ [f]) c"
proof -
  assume a: "client_ok num m pub c" "\<not> sc_subscribed c"
  then have "due_texts num (pub @ [f]) c = due_texts num pub c @ [frame_text num f]" by (simp add: due_texts_def client_ok_def)
  then show ?thesis using a by (auto simp: client_ok_def intro: prefix_prefix)
qed

lemma sse_start_ok:
  assumes "length (frame_text num (HelloFrame s n)) \<le> m" "length retry_text \<le> m"
  shows "client_ok num m pub (sse_start num s n (length pub)) \<and> sc_subscribed (sse_start num s n (length pub))"
proof -
  let ?c = "\<lparr>sc_open = True, sc_subscribed = False, sc_keepalive = False, sc_queue = [], sc_read = [],
               sc_hello = HelloFrame s n, sc_from = length pub\<rparr>"
  have "length retry_text = 13" by (simp add: retry_text_def newline_def)
  then have "sendFrame num (HelloFrame s n) (sse_write retry_text ?c) = ?c\<lparr>sc_queue := [retry_text, frame_text num (HelloFrame s n)]\<rparr>"
    by (simp add: sendFrame_def sse_write_def desiredSize_def queued_bytes_def highWaterMark_def MAX_BUFFERED_BYTES_def)
  then show ?thesis using assms frame_not_keepalive \<open>length retry_text = 13\<close>
    by (simp add: sse_start_def Let_def client_ok_def delivered_def due_texts_def queued_bytes_def highWaterMark_def MAX_BUFFERED_BYTES_def)
qed

lemma tick_ok:
  assumes "client_ok num m pub c" "length keepalive_text \<le> m"
  shows "client_ok num m pub (sse_tick c)"
proof (cases "sc_keepalive c")
  case True
  from write_cases [of keepalive_text c] show ?thesis
  proof
    assume w: "sse_write keepalive_text c = c\<lparr>sc_queue := sc_queue c @ [keepalive_text]\<rparr> \<and> sc_open c
        \<and> queued_bytes c \<le> highWaterMark + MAX_BUFFERED_BYTES"
    then show ?thesis using assms True queued_bytes_append [of c keepalive_text]
      by (simp add: client_ok_def delivered_def due_texts_def sse_tick_def)
  next
    assume "\<not> sc_subscribed (sse_write keepalive_text c) \<and> sc_queue (sse_write keepalive_text c) = sc_queue c"
    then show ?thesis using assms(1) True
      by (simp add: client_ok_def delivered_def due_texts_def write_fields queued_bytes_def sse_tick_def)
  qed
qed (use assms in \<open>simp add: sse_tick_def\<close>)

lemma pull_ok: "client_ok num m pub c \<Longrightarrow> client_ok num m pub (sse_pull c)"
  by (cases "sc_queue c") (auto simp: sse_pull_def client_ok_def delivered_def due_texts_def queued_bytes_def)

lemma cancel_ok: "client_ok num m pub c \<Longrightarrow> client_ok num m pub (sse_cancel c)"
  by (auto simp: sse_cancel_def cleanup_def client_ok_def delivered_def due_texts_def queued_bytes_def highWaterMark_def
    MAX_BUFFERED_BYTES_def dest: append_prefixD)

lemma gone_ok: "client_ok num m pub c \<Longrightarrow> client_ok num m pub (sse_gone c)"
  by (simp add: sse_gone_def client_ok_def delivered_def due_texts_def queued_bytes_def)


section \<open>The bus\<close>

text \<open>One pass over distinct subscribers: each is written to once, and those that clean up leave.\<close>

lemma fold_client_step:
  assumes "distinct is" "\<forall>i \<in> set is. i < length (sb_clients b)"
  shows "sb_clients (fold (\<lambda>i. client_step i f) is b) =
       map (\<lambda>j. if j \<in> set is then f (sb_clients b ! j) else sb_clients b ! j) [0 ..< length (sb_clients b)]
     \<and> sb_subscribers (fold (\<lambda>i. client_step i f) is b) =
       filter (\<lambda>j. j \<notin> set is \<or> sc_subscribed (f (sb_clients b ! j))) (sb_subscribers b)
     \<and> sb_published (fold (\<lambda>i. client_step i f) is b) = sb_published b"
  using assms
proof (induction "is" arbitrary: b)
  case Nil
  then show ?case by (simp add: map_nth)
next
  case (Cons i "is")
  let ?b = "client_step i f b"
  have len: "length (sb_clients ?b) = length (sb_clients b)" by (simp add: client_step_def bus_unsubscribe_def Let_def)
  have nth: "sb_clients ?b ! j = (if j = i then f (sb_clients b ! i) else sb_clients b ! j)" if "j < length (sb_clients b)" for j
    using Cons.prems that by (auto simp: client_step_def bus_unsubscribe_def Let_def)
  have subs: "sb_subscribers ?b = filter (\<lambda>j. j \<noteq> i \<or> sc_subscribed (f (sb_clients b ! i))) (sb_subscribers b)"
    by (auto simp: client_step_def bus_unsubscribe_def Let_def removeAll_filter_not_eq intro!: filter_cong)
  have pub: "sb_published ?b = sb_published b" by (simp add: client_step_def bus_unsubscribe_def Let_def)
  have IH: "sb_clients (fold (\<lambda>i. client_step i f) is ?b) =
       map (\<lambda>j. if j \<in> set is then f (sb_clients ?b ! j) else sb_clients ?b ! j) [0 ..< length (sb_clients ?b)]"
    "sb_subscribers (fold (\<lambda>i. client_step i f) is ?b) = filter (\<lambda>j. j \<notin> set is \<or> sc_subscribed (f (sb_clients ?b ! j))) (sb_subscribers ?b)"
    "sb_published (fold (\<lambda>i. client_step i f) is ?b) = sb_published ?b"
    using Cons.IH [of ?b] Cons.prems len by auto
  have "i \<notin> set is" "\<forall>j \<in> set is. j < length (sb_clients b)" using Cons.prems by auto
  then have s: "sb_subscribers (fold (\<lambda>i. client_step i f) is ?b) =
      filter (\<lambda>j. j \<notin> set (i # is) \<or> sc_subscribed (f (sb_clients b ! j))) (sb_subscribers b)"
    using nth by (auto simp: IH(2) subs intro!: filter_cong)
  have "sb_clients (fold (\<lambda>i. client_step i f) is ?b) =
       map (\<lambda>j. if j \<in> set (i # is) then f (sb_clients b ! j) else sb_clients b ! j) [0 ..< length (sb_clients b)]"
    using \<open>i \<notin> set is\<close> nth by (auto simp: IH(1) len)
  then show ?case using s IH(3) pub by simp
qed

lemma publish_ok:
  assumes "bus_ok num m b" "length (frame_text num f) \<le> m"
  shows "bus_ok num m (publish num f b)"
proof -
  let ?b = "b\<lparr>sb_published := sb_published b @ [f]\<rparr>" and ?is = "sb_subscribers b"
  have d: "distinct ?is" and r: "\<forall>i \<in> set ?is. i < length (sb_clients ?b)" using assms(1) by (auto simp: bus_ok_def)
  note F = fold_client_step [OF d r, of "sendFrame num f"]
  have m: "i \<in> set ?is \<longleftrightarrow> i < length (sb_clients b) \<and> sc_subscribed (sb_clients b ! i)" for i
    using assms(1) by (simp add: bus_ok_def)
  have ok: "client_ok num m (sb_published b) (sb_clients b ! j)" if "j < length (sb_clients b)" for j
    using assms(1) that by (simp add: bus_ok_def)
  have clients: "sb_clients (publish num f b) =
      map (\<lambda>j. if j \<in> set ?is then sendFrame num f (sb_clients b ! j) else sb_clients b ! j) [0 ..< length (sb_clients b)]"
    "sb_subscribers (publish num f b) = filter (\<lambda>j. j \<notin> set ?is \<or> sc_subscribed (sendFrame num f (sb_clients b ! j))) ?is"
    "sb_published (publish num f b) = sb_published b @ [f]"
    using F by (simp_all add: publish_def)
  have "client_ok num m (sb_published b @ [f]) (if j \<in> set ?is then sendFrame num f (sb_clients b ! j) else sb_clients b ! j)"
    if "j < length (sb_clients b)" for j
    using publish_client_ok [OF ok [OF that] _ assms(2)] unsubscribed_ok [OF ok [OF that]] m [of j] that by simp
  then have "\<forall>c \<in> set (sb_clients (publish num f b)). client_ok num m (sb_published b @ [f]) c"
    unfolding clients(1) set_map by (simp add: image_iff del: if_image_distrib split del: if_split)
  moreover have "i \<in> set (sb_subscribers (publish num f b)) \<longleftrightarrow>
      i < length (sb_clients (publish num f b)) \<and> sc_subscribed (sb_clients (publish num f b) ! i)" for i
    using m [of i] by (auto simp: clients(1,2))
  ultimately show ?thesis using d unfolding bus_ok_def clients(2,3) by (simp add: clients(2))
qed

lemma client_step_ok:
  assumes "bus_ok num m b" "i < length (sb_clients b)" "client_ok num m (sb_published b) (f (sb_clients b ! i))"
    and "sc_subscribed (f (sb_clients b ! i)) \<longrightarrow> sc_subscribed (sb_clients b ! i)"
  shows "bus_ok num m (client_step i f b)"
proof -
  have "\<forall>c \<in> set ((sb_clients b)[i := f (sb_clients b ! i)]). client_ok num m (sb_published b) c"
    using assms(1,3) set_update_subset_insert [of "sb_clients b" i] by (auto simp: bus_ok_def)
  then show ?thesis using assms(1,2,4)
    by (auto simp: bus_ok_def client_step_def bus_unsubscribe_def Let_def nth_list_update distinct_removeAll)
qed

text \<open>The longest chunk of a run.\<close>

fun event_fits :: "(real \<Rightarrow> string) \<Rightarrow> nat \<Rightarrow> bus_event \<Rightarrow> bool" where
  "event_fits num m (Publish f) = (length (frame_text num f) \<le> m)"
| "event_fits num m (Connect s n) = (length (frame_text num (HelloFrame s n)) \<le> m)"
| "event_fits num m _ = True"

lemma bus_step_ok:
  assumes "bus_ok num m b" "event_fits num m ev" "14 \<le> m"
  shows "bus_ok num m (bus_step num ev b)"
proof (cases ev)
  case (Connect s n)
  have "length retry_text \<le> m" using assms(3) by (simp add: retry_text_def newline_def)
  then have s: "client_ok num m (sb_published b) (sse_start num s n (length (sb_published b)))"
    "sc_subscribed (sse_start num s n (length (sb_published b)))"
    using sse_start_ok assms(2) Connect by simp_all
  have "length (sb_clients b) \<notin> set (sb_subscribers b)" using assms(1) by (simp add: bus_ok_def)
  then show ?thesis using assms(1) s Connect
    by (auto simp: bus_ok_def sseResponse_def bus_subscribe_def js_add_def nth_append less_Suc_eq)
next
  case (Pull i)
  then show ?thesis using assms(1) pull_ok client_step_ok [OF assms(1), of i sse_pull]
    by (simp add: bus_ok_def sse_pull_def split: list.split)
next
  case (Cancel i)
  then show ?thesis using assms(1) cancel_ok client_step_ok [OF assms(1), of i sse_cancel]
    by (simp add: bus_ok_def sse_cancel_def cleanup_def)
next
  case (Gone i)
  then show ?thesis using assms(1) gone_ok client_step_ok [OF assms(1), of i sse_gone]
    by (simp add: bus_ok_def sse_gone_def)
next
  case (Tick i)
  have "length keepalive_text \<le> m" using assms(3) by (simp add: keepalive_text_def newline_def)
  then show ?thesis using assms(1) Tick tick_ok client_step_ok [OF assms(1), of i sse_tick]
    by (simp add: bus_ok_def sse_tick_def sse_write_def cleanup_def)
qed (use assms publish_ok in auto)

lemma bus_run_ok: "14 \<le> m \<Longrightarrow> list_all (event_fits num m) evs \<Longrightarrow> bus_ok num m (bus_run num evs)"
proof (induction evs rule: rev_induct)
  case Nil
  then show ?case by (simp add: bus_run_def bus_ok_def createStreamBus_def)
next
  case (snoc ev evs)
  then show ?case using bus_step_ok [of num m "bus_run num evs" ev] by (simp add: bus_run_def)
qed

section \<open>The property\<close>

text \<open>
  C15. In every run of the bus with any number of clients that read, stall, cancel or vanish, what a client has been sent, keepalives
  aside, is a prefix of: the retry line, its hello frame, and the frames published since it connected, each once and in order. It is all of
  them while the client is connected, and it never has more unread bytes than the limit and one chunk.
\<close>

theorem stream_sends_each_frame_once:
  assumes "list_all (event_fits num m) evs" "14 \<le> m" "c \<in> set (sb_clients (bus_run num evs))"
  shows "prefix (delivered c) (due_texts num (sb_published (bus_run num evs)) c)
    \<and> (if sc_open c \<and> sc_subscribed c then delivered c = due_texts num (sb_published (bus_run num evs)) c else True)
    \<and> queued_bytes c \<le> highWaterMark + MAX_BUFFERED_BYTES + int m"
  using bus_run_ok [OF assms(2,1)] assms(3) by (auto simp: bus_ok_def client_ok_def)

definition demo_stream :: "bus_event list" where
  "demo_stream = [Publish (SignalFrame JNull), Connect 1 2, Publish (SignalFrame (JBool True)), Tick 0, Pull 0, Pull 0,
     Publish (SignalFrame JNull)]"

lemma stream_sends_each_frame_once_witness:
  "prefix (delivered (hd (sb_clients (bus_run (\<lambda>_. ''0'') demo_stream))))
     (due_texts (\<lambda>_. ''0'') (sb_published (bus_run (\<lambda>_. ''0'') demo_stream)) (hd (sb_clients (bus_run (\<lambda>_. ''0'') demo_stream))))
   \<and> length (delivered (hd (sb_clients (bus_run (\<lambda>_. ''0'') demo_stream)))) = 4"
proof -
  have f: "list_all (event_fits (\<lambda>_. ''0'') 100) demo_stream" by code_simp
  have n: "sb_clients (bus_run (\<lambda>_. ''0'') demo_stream) \<noteq> []" by code_simp
  have "length (delivered (hd (sb_clients (bus_run (\<lambda>_. ''0'') demo_stream)))) = 4" by code_simp
  then show ?thesis using stream_sends_each_frame_once [OF f _ hd_in_set [OF n]] by simp
qed

end
