(* ===== verification/Http_Views.thy ===== *)
theory Http_Views
  imports Js_Number Sqlite_Queries Ha_Signals
begin

text \<open>
  \<open>http/views.ts\<close>: the read side over HTTP. A request is its method, path and query parameters; the body of a response is the value
  that is printed as JSON. What the handlers read from (projections, journal, signals, recorder, tiles) is a record of functions; the last
  sections put the SQLite journal and the signal store behind them.
\<close>

section \<open>Requests and responses\<close>

record api_request =
  rq_method :: string
  rq_pathname :: string
  rq_params :: "(string \<times> string) list"

datatype ('v, 'd) api_body =
    ErrorBody string "(string \<times> string) list"
  | ViewsBody string "'v list"
  | ViewBody 'v
  | JournalBody "'d query_row list" "nat option"
  | ChainBody "'d query_row list"
  | SignalsBody string "(int \<times> normalized) list"
  | ValueBody string
  | StreamBody real

type_synonym ('v, 'd) api_response = "('v, 'd) api_body \<times> nat"

text \<open>A bad request is answered; any other error is thrown on.\<close>

datatype api_error = BadRequest string | Thrown js_error

type_synonym 'a attempt = "api_error + 'a"

definition try_then :: "'a attempt \<Rightarrow> ('a \<Rightarrow> 'b attempt) \<Rightarrow> 'b attempt" where
  "try_then m f = (case m of Inl e \<Rightarrow> Inl e | Inr a \<Rightarrow> f a)"

lemma try_then_Inr [simp]: "try_then (Inr a) f = f a" "try_then (Inl e) f = Inl e"
  by (simp_all add: try_then_def)

lemma try_then_eq: "try_then m f = Inr b \<longleftrightarrow> (\<exists>a. m = Inr a \<and> f a = Inr b)"
  by (cases m) auto

definition thrown :: "js_error + 'a \<Rightarrow> 'a attempt" where
  "thrown m = (case m of Inl e \<Rightarrow> Inl (Thrown e) | Inr a \<Rightarrow> Inr a)"

definition quoted :: "string \<Rightarrow> string" where
  "quoted s = CHR 0x22 # s @ [CHR 0x22]"

definition param :: "(string \<times> string) list \<Rightarrow> string \<Rightarrow> string option" where
  "param params name = map_of params name"

definition numParam :: "(string \<times> string) list \<Rightarrow> string \<Rightarrow> real option attempt" where
  "numParam params name =
     (case param params name of
        None \<Rightarrow> Inr None
      | Some raw \<Rightarrow>
          (let bad = Inl (BadRequest (''query param '' @ quoted name @ '' must be a number, got '' @ quoted raw))
           in case js_number raw of
                None \<Rightarrow> bad
              | Some n \<Rightarrow> if trim_text raw = [] then bad else Inr (Some n)))"

text \<open>\<open>True\<close> stands for descending.\<close>

definition orderParam :: "(string \<times> string) list \<Rightarrow> bool \<Rightarrow> bool attempt" where
  "orderParam params fallback =
     (case param params ''order'' of
        None \<Rightarrow> Inr fallback
      | Some raw \<Rightarrow>
          if raw = ''asc'' then Inr False else if raw = ''desc'' then Inr True
          else Inl (BadRequest (''query param '' @ quoted ''order'' @ '' must be '' @ quoted ''asc'' @ '' or '' @ quoted ''desc''
                 @ '', got '' @ quoted raw)))"

section \<open>What is read\<close>

record view_query =
  vq_category :: "string option"
  vq_entityId :: "string option"
  vq_cursor :: "real option"
  vq_sinceMs :: "real option"
  vq_causationId :: "string option"
  vq_correlationId :: "string option"
  vq_limit :: real
  vq_desc :: bool

record signal_request =
  sr_entityId :: string
  sr_sinceMs :: real
  sr_untilMs :: "real option"
  sr_limit :: real
  sr_desc :: bool

record recorder_request =
  rr_statisticIds :: "string list"
  rr_startTime :: string
  rr_endTime :: "string option"
  rr_period :: string
  rr_types :: "string list"

record ('v, 'd, 'a) read_deps =
  rd_list :: "string \<Rightarrow> 'v list"
  rd_view :: "string \<Rightarrow> string \<Rightarrow> 'v option"
  rd_queryEvents :: "view_query \<Rightarrow> js_error + 'd query_row list"
  rd_eventByEventId :: "string \<Rightarrow> 'd query_row option"
  rd_causationChain :: "string \<Rightarrow> 'd query_row list"
  rd_signals :: "(signal_request \<Rightarrow> js_error + 'a signal_row list) option"
  rd_recorder :: "(recorder_request \<Rightarrow> js_error + string) option"
  rd_tiles :: "string option"
  rd_bus :: bool
  rd_startedAt :: real

section \<open>Handlers\<close>

definition clamp :: "real option \<Rightarrow> real \<Rightarrow> real \<Rightarrow> real" where
  "clamp given fallback most = max 1 (min (case given of None \<Rightarrow> fallback | Some n \<Rightarrow> n) most)"

definition journal_request :: "(string \<times> string) list \<Rightarrow> view_query attempt" where
  "journal_request params =
     (let category = param params ''category''; entity = param params ''entity''
      in if entity \<noteq> None \<and> category = None
         then Inl (BadRequest (''query param '' @ quoted ''entity'' @ '' requires '' @ quoted ''category''))
         else try_then (numParam params ''limit'') (\<lambda>limit.
              try_then (numParam params ''cursor'') (\<lambda>cursor.
              try_then (numParam params ''since'') (\<lambda>sinceMs.
              try_then (orderParam params True) (\<lambda>desc.
              Inr \<lparr>vq_category = category, vq_entityId = entity, vq_cursor = cursor, vq_sinceMs = sinceMs,
                   vq_causationId = param params ''causationOf'', vq_correlationId = param params ''correlationId'',
                   vq_limit = clamp limit 100 1000, vq_desc = desc\<rparr>)))))"

definition handleJournal :: "('v, 'd, 'a) read_deps \<Rightarrow> (string \<times> string) list \<Rightarrow> ('d query_row list \<times> nat option) attempt" where
  "handleJournal deps params =
     try_then (journal_request params) (\<lambda>query.
     try_then (thrown (rd_queryEvents deps query)) (\<lambda>rows.
     Inr (rows, if real (length rows) = vq_limit query then Some (q_globalSeq (last rows)) else None)))"

definition handleChain :: "('v, 'd, 'a) read_deps \<Rightarrow> string \<Rightarrow> ('v, 'd) api_response" where
  "handleChain deps i =
     (if rd_eventByEventId deps i = None then (ErrorBody ''EventNotFound'' [(''eventId'', i)], 404)
      else (ChainBody (rd_causationChain deps i), 200))"

definition notImplemented :: "string \<Rightarrow> ('v, 'd) api_response" where
  "notImplemented detail = (ErrorBody ''NotImplemented'' [(''detail'', detail)], 501)"

definition THREE_HOURS_MS :: real where
  "THREE_HOURS_MS = 10800000"

text \<open>The rows are always asked for newest first.\<close>

definition handleSignals :: "('v, 'd, 'a) read_deps \<Rightarrow> real \<Rightarrow> string \<Rightarrow> (string \<times> string) list \<Rightarrow> ('v, 'd) api_response attempt" where
  "handleSignals deps now entityId params =
     (case rd_signals deps of
        None \<Rightarrow> Inr (notImplemented ''no signal store configured'')
      | Some query \<Rightarrow>
          try_then (numParam params ''since'') (\<lambda>since.
          try_then (numParam params ''until'') (\<lambda>untilMs.
          try_then (numParam params ''limit'') (\<lambda>limit.
          try_then (orderParam params False) (\<lambda>desc.
          try_then (thrown (query \<lparr>sr_entityId = entityId, sr_sinceMs = (case since of None \<Rightarrow> now - THREE_HOURS_MS | Some t \<Rightarrow> t),
                      sr_untilMs = untilMs, sr_limit = clamp limit 500 5000, sr_desc = True\<rparr>)) (\<lambda>rows.
          Inr (SignalsBody entityId (map (\<lambda>r. (sg_at r, sg_normalized r)) (if desc then rows else rev rows)), 200)))))))"

text \<open>\<open>split(",")\<close>, trimmed, without the empty parts.\<close>

fun split_on :: "char \<Rightarrow> string \<Rightarrow> string \<Rightarrow> string list" where
  "split_on sep part [] = [part]"
| "split_on sep part (c # cs) = (if c = sep then part # split_on sep [] cs else split_on sep (part @ [c]) cs)"

definition comma_list :: "string option \<Rightarrow> string list" where
  "comma_list raw =
     filter (\<lambda>s. s \<noteq> []) (map trim_text (split_on (CHR '','') [] (case raw of None \<Rightarrow> [] | Some s \<Rightarrow> s)))"

definition missing_param :: "string \<Rightarrow> string \<Rightarrow> api_error" where
  "missing_param name hint = BadRequest (''query param '' @ quoted name @ '' is required'' @ hint)"

definition handleRecorder :: "('v, 'd, 'a) read_deps \<Rightarrow> (string \<times> string) list \<Rightarrow> ('v, 'd) api_response attempt" where
  "handleRecorder deps params =
     (case rd_recorder deps of
        None \<Rightarrow> Inr (notImplemented ''no recorder reader configured'')
      | Some statistics \<Rightarrow>
          (let ids = comma_list (param params ''ids''); types = comma_list (param params ''types'')
           in if ids = [] then Inl (missing_param ''ids'' '' (comma-separated)'')
              else case param params ''start'' of
                None \<Rightarrow> Inl (missing_param ''start'' '' (ISO timestamp)'')
              | Some start \<Rightarrow>
                  (case param params ''period'' of
                     None \<Rightarrow> Inl (missing_param ''period'' [])
                   | Some period \<Rightarrow>
                       if types = [] then Inl (missing_param ''types'' '' (comma-separated)'')
                       else try_then (thrown (statistics \<lparr>rr_statisticIds = ids, rr_startTime = start, rr_endTime = param params ''end'',
                              rr_period = period, rr_types = types\<rparr>)) (\<lambda>r. Inr (ValueBody r, 200)))))"

section \<open>Routes\<close>

text \<open>\<open>decodeURIComponent\<close>: escapes are bytes, which must form whole UTF-8 sequences.\<close>

definition hex_value :: "char \<Rightarrow> nat option" where
  "hex_value c = (case digit_of c of Some d \<Rightarrow> if d < 16 then Some d else None | None \<Rightarrow> None)"

definition percent_byte :: "string \<Rightarrow> (nat \<times> string) option" where
  "percent_byte s =
     (case s of
        p # a # b # cs \<Rightarrow>
          if p = CHR ''%'' then (case (hex_value a, hex_value b) of (Some x, Some y) \<Rightarrow> Some (16 * x + y, cs) | _ \<Rightarrow> None) else None
      | _ \<Rightarrow> None)"

text \<open>The continuation bytes of a sequence: how many, and the range of the next one.\<close>

fun continuation :: "nat \<Rightarrow> nat \<Rightarrow> nat \<Rightarrow> string \<Rightarrow> (string \<times> string) option" where
  "continuation 0 lo hi s = Some ([], s)"
| "continuation (Suc n) lo hi s =
     (case percent_byte s of
        None \<Rightarrow> None
      | Some (x, cs) \<Rightarrow>
          if lo \<le> x \<and> x \<le> hi then map_option (\<lambda>(xs, r). (char_of x # xs, r)) (continuation n 128 191 cs) else None)"

definition sequence_of :: "nat \<Rightarrow> (nat \<times> nat \<times> nat) option" where
  "sequence_of x =
     (if x < 128 then Some (0, 0, 0)
      else if 194 \<le> x \<and> x \<le> 223 then Some (1, 128, 191)
      else if x = 224 then Some (2, 160, 191)
      else if x = 237 then Some (2, 128, 159)
      else if 225 \<le> x \<and> x \<le> 239 then Some (2, 128, 191)
      else if x = 240 then Some (3, 144, 191)
      else if 241 \<le> x \<and> x \<le> 243 then Some (3, 128, 191)
      else if x = 244 then Some (3, 128, 143) else None)"

definition percent_sequence :: "string \<Rightarrow> (string \<times> string) option" where
  "percent_sequence s =
     (case percent_byte s of
        None \<Rightarrow> None
      | Some (x, cs) \<Rightarrow>
          (case sequence_of x of None \<Rightarrow> None
           | Some (n, lo, hi) \<Rightarrow> map_option (\<lambda>(xs, r). (char_of x # xs, r)) (continuation n lo hi cs)))"

lemma percent_byte_shorter: "percent_byte s = Some (x, cs) \<Longrightarrow> length cs < length s"
  by (auto simp: percent_byte_def split: list.splits if_splits option.splits)

lemma continuation_shorter: "continuation n lo hi s = Some (xs, r) \<Longrightarrow> length r \<le> length s"
proof (induction n lo hi s arbitrary: xs r rule: continuation.induct)
  case (2 n lo hi s)
  then obtain x cs ys where "percent_byte s = Some (x, cs)" "continuation n 128 191 cs = Some (ys, r)" "lo \<le> x" "x \<le> hi"
    by (auto split: option.splits if_splits)
  then show ?case using "2.IH" percent_byte_shorter by fastforce
qed simp

lemma percent_sequence_shorter: "percent_sequence s = Some (xs, r) \<Longrightarrow> length r < length s"
  using percent_byte_shorter continuation_shorter by (fastforce simp: percent_sequence_def split: option.splits)

function decodeURIComponent :: "string \<Rightarrow> string option" where
  "decodeURIComponent [] = Some []"
| "decodeURIComponent (c # cs) =
     (if c = CHR ''%''
      then (case percent_sequence (c # cs) of
              None \<Rightarrow> None
            | Some (xs, r) \<Rightarrow> map_option ((@) xs) (decodeURIComponent r))
      else map_option ((#) c) (decodeURIComponent cs))"
  by pat_completeness auto
termination
  by (relation "measure length") (use percent_sequence_shorter in fastforce)+

fun decode_segments :: "string list \<Rightarrow> string list attempt" where
  "decode_segments [] = Inr []"
| "decode_segments (s # ss) =
     (case decodeURIComponent s of
        None \<Rightarrow> Inl (Thrown (JsError ''URI malformed''))
      | Some d \<Rightarrow> try_then (decode_segments ss) (\<lambda>ds. Inr (d # ds)))"

definition below_base :: "string \<Rightarrow> string \<Rightarrow> bool" where
  "below_base basePath pathname \<longleftrightarrow> pathname = basePath \<or> starts_with pathname (basePath @ ''/'')"

text \<open>\<open>None\<close> is a request that is not below the base path.\<close>

definition api_route :: "('v, 'd, 'a) read_deps \<Rightarrow> string \<Rightarrow> real \<Rightarrow> api_request \<Rightarrow> ('v, 'd) api_response option attempt" where
  "api_route deps basePath now req =
     (if \<not> below_base basePath (rq_pathname req) then Inr None
      else if rq_method req \<noteq> ''GET'' then Inr (Some (ErrorBody ''MethodNotAllowed'' [], 405))
      else try_then (decode_segments (filter (\<lambda>s. s \<noteq> []) (split_on (CHR ''/'') [] (drop (length basePath) (rq_pathname req))))) (\<lambda>segments.
        try_then
          (case segments of
             [a] \<Rightarrow>
               if a = ''journal'' then try_then (handleJournal deps (rq_params req)) (\<lambda>(rows, next). Inr (JournalBody rows next, 200))
               else if a = ''tiles''
               then Inr (case rd_tiles deps of None \<Rightarrow> notImplemented ''no tiles source configured'' | Some t \<Rightarrow> (ValueBody t, 200))
               else if a = ''stream''
               then Inr (if rd_bus deps then (StreamBody (rd_startedAt deps), 200) else notImplemented ''no stream bus configured'')
               else Inr (ErrorBody ''NotFound'' [], 404)
           | [a, b] \<Rightarrow>
               if a = ''views'' then Inr (ViewsBody b (rd_list deps b), 200)
               else if a = ''signals'' then handleSignals deps now b (rq_params req)
               else if a = ''recorder'' \<and> b = ''statistics'' then handleRecorder deps (rq_params req)
               else Inr (ErrorBody ''NotFound'' [], 404)
           | [a, b, c] \<Rightarrow>
               if a = ''views''
               then Inr (case rd_view deps b c of None \<Rightarrow> (ErrorBody ''ViewNotFound'' [], 404) | Some v \<Rightarrow> (ViewBody v, 200))
               else if a = ''journal'' \<and> b = ''chain'' then Inr (handleChain deps c)
               else Inr (ErrorBody ''NotFound'' [], 404)
           | _ \<Rightarrow> Inr (ErrorBody ''NotFound'' [], 404))
          (\<lambda>r. Inr (Some r))))"

definition api_handle :: "('v, 'd, 'a) read_deps \<Rightarrow> string \<Rightarrow> real \<Rightarrow> api_request \<Rightarrow> js_error + ('v, 'd) api_response option" where
  "api_handle deps basePath now req =
     (case api_route deps basePath now req of
        Inr r \<Rightarrow> Inr r
      | Inl (BadRequest message) \<Rightarrow> Inr (Some (ErrorBody ''BadRequest'' [(''detail'', message)], 400))
      | Inl (Thrown e) \<Rightarrow> Inl e)"

section \<open>Over the SQLite journal\<close>

text \<open>A \<open>LIMIT\<close> that is not a whole number is refused by SQLite; a cursor or a time may be any number.\<close>

definition sqlite_query :: "view_query \<Rightarrow> js_error + journal_query" where
  "sqlite_query q =
     (if vq_limit q \<noteq> of_int \<lfloor>vq_limit q\<rfloor> then Inl (JsError ''datatype mismatch'')
      else Inr \<lparr>jq_category = vq_category q, jq_entityId = vq_entityId q,
             jq_cursor = map_option (\<lambda>x. nat (if vq_desc q then \<lceil>x\<rceil> else \<lfloor>x\<rfloor>)) (vq_cursor q),
             jq_sinceMs = map_option floor (vq_sinceMs q), jq_causationId = vq_causationId q, jq_correlationId = vq_correlationId q,
             jq_limit = Some \<lfloor>vq_limit q\<rfloor>, jq_desc = Some (vq_desc q)\<rparr>)"

definition sqlite_events :: "'d sqlite_db \<Rightarrow> view_query \<Rightarrow> js_error + 'd query_row list" where
  "sqlite_events db q = (case sqlite_query q of Inl e \<Rightarrow> Inl e | Inr jq \<Rightarrow> queryEvents db jq)"

definition reads_journal :: "'d sqlite_db \<Rightarrow> ('v, 'd, 'a) read_deps \<Rightarrow> bool" where
  "reads_journal db deps \<longleftrightarrow> rd_queryEvents deps = sqlite_events db"

text \<open>A client that follows \<open>nextCursor\<close> until there is none; \<open>n\<close> bounds the number of requests.\<close>

definition set_cursor :: "nat \<Rightarrow> (string \<times> string) list \<Rightarrow> (string \<times> string) list" where
  "set_cursor c params = (''cursor'', nat_str c) # filter (\<lambda>p. fst p \<noteq> ''cursor'') params"

fun follow_pages :: "('v, 'd, 'a) read_deps \<Rightarrow> nat \<Rightarrow> (string \<times> string) list \<Rightarrow> 'd query_row list attempt option" where
  "follow_pages deps 0 params = None"
| "follow_pages deps (Suc n) params =
     (case handleJournal deps params of
        Inl e \<Rightarrow> Some (Inl e)
      | Inr (rows, None) \<Rightarrow> Some (Inr rows)
      | Inr (rows, Some c) \<Rightarrow> map_option (map_sum id ((@) rows)) (follow_pages deps n (set_cursor c params)))"

lemma param_set_cursor: "param (set_cursor c params) name = (if name = ''cursor'' then Some (nat_str c) else param params name)"
proof -
  have "map_of (filter (\<lambda>p. fst p \<noteq> k) params) name = (if name = k then None else map_of params name)" for k
    by (induction params) auto
  then show ?thesis by (simp add: param_def set_cursor_def)
qed

lemma trim_nat_str: "trim_text (nat_str c) \<noteq> []"
proof -
  obtain ds where ds: "nat_str c = map digit_char ds" "list_all (\<lambda>d. d < 10) ds" using nat_str_digits by blast
  then have "list_all (\<lambda>c. \<not> is_space c) (nat_str c)" using digit_char_facts(2) by (auto simp: list_all_iff)
  then show ?thesis using trim_text_same nat_str_nonempty by metis
qed

lemma num_set_cursor:
  "numParam (set_cursor c params) name = (if name = ''cursor'' then Inr (Some (real c)) else numParam params name)"
  by (simp add: numParam_def param_set_cursor js_number_nat_str trim_nat_str Let_def)

lemma request_set_cursor:
  "journal_request params = Inr q \<Longrightarrow> journal_request (set_cursor c params) = Inr (q\<lparr>vq_cursor := Some (real c)\<rparr>)"
  by (auto simp: journal_request_def Let_def param_set_cursor num_set_cursor orderParam_def try_then_eq split: if_splits)

lemma query_set_cursor: "sqlite_query q = Inr jq \<Longrightarrow> sqlite_query (q\<lparr>vq_cursor := Some (real c)\<rparr>) = Inr (jq\<lparr>jq_cursor := Some c\<rparr>)"
  by (auto simp: sqlite_query_def split: if_splits)

lemma request_bounds:
  assumes "journal_request params = Inr q"
  shows "1 \<le> vq_limit q \<and> vq_limit q \<le> 1000" "vq_entityId q \<noteq> None \<longrightarrow> vq_category q \<noteq> None"
proof -
  obtain l where "vq_limit q = clamp l 100 1000"
    using assms by (auto simp: journal_request_def Let_def try_then_eq split: if_splits)
  then show "1 \<le> vq_limit q \<and> vq_limit q \<le> 1000" by (simp add: clamp_def)
  show "vq_entityId q \<noteq> None \<longrightarrow> vq_category q \<noteq> None"
    using assms by (auto simp: journal_request_def Let_def try_then_eq split: if_splits)
qed

lemma limit_of_query:
  assumes "journal_request params = Inr q" "sqlite_query q = Inr jq"
  shows "real (Sqlite_Queries.query_limit jq) = vq_limit q" "1 \<le> Sqlite_Queries.query_limit jq"
proof -
  have l: "vq_limit q = of_int \<lfloor>vq_limit q\<rfloor>" "jq_limit jq = Some \<lfloor>vq_limit q\<rfloor>"
    using assms(2) by (auto simp: sqlite_query_def split: if_splits)
  moreover have "1 \<le> \<lfloor>vq_limit q\<rfloor>" "\<lfloor>vq_limit q\<rfloor> \<le> 1000" using request_bounds(1) [OF assms(1)] l(1) by linarith+
  ultimately show "real (Sqlite_Queries.query_limit jq) = vq_limit q" "1 \<le> Sqlite_Queries.query_limit jq"
    by (simp_all add: Sqlite_Queries.query_limit_def)
qed

lemma page_of_request:
  assumes "reads_journal db deps" "journal_request params = Inr q" "sqlite_query q = Inr jq"
  shows "handleJournal deps params = Inr (map mapRow (take (Sqlite_Queries.query_limit jq) (query_all db jq)),
    if Sqlite_Queries.query_limit jq \<le> length (query_all db jq)
    then Some (q_globalSeq (last (map mapRow (take (Sqlite_Queries.query_limit jq) (query_all db jq))))) else None)"
proof -
  have "jq_entityId jq = None \<or> jq_category jq \<noteq> None"
    using request_bounds(2) [OF assms(2)] assms(3) by (auto simp: sqlite_query_def split: if_splits)
  then have "rd_queryEvents deps q = Inr (map mapRow (take (Sqlite_Queries.query_limit jq) (query_all db jq)))"
    using assms(1,3) by (auto simp: reads_journal_def sqlite_events_def queryEvents_def)
  moreover have "real (min (length (query_all db jq)) (Sqlite_Queries.query_limit jq)) = vq_limit q \<longleftrightarrow>
      Sqlite_Queries.query_limit jq \<le> length (query_all db jq)"
    unfolding limit_of_query(1) [OF assms(2,3), symmetric] by auto
  ultimately show ?thesis using assms(2) by (simp add: handleJournal_def thrown_def)
qed

lemma pages_collect:
  assumes "sq_inv db" "reads_journal db deps"
  shows "journal_request params = Inr q \<Longrightarrow> sqlite_query q = Inr jq \<Longrightarrow> length (query_all db jq) < n \<Longrightarrow>
    follow_pages deps n params = Some (Inr (map mapRow (query_all db jq)))"
proof (induction n arbitrary: params q jq)
  case (Suc n)
  let ?k = "Sqlite_Queries.query_limit jq" and ?all = "query_all db jq"
  let ?page = "map mapRow (take ?k ?all)"
  note h = page_of_request [OF assms(2) Suc.prems(1,2)]
  note k = limit_of_query(2) [OF Suc.prems(1,2)]
  show ?case
  proof (cases "?k \<le> length ?all")
    case False
    then show ?thesis using h by simp
  next
    case True
    let ?c = "q_globalSeq (last ?page)"
    have ne: "?page \<noteq> []" using True k by auto
    have "jq_entityId jq = None \<or> jq_category jq \<noteq> None"
      using request_bounds(2) [OF Suc.prems(1)] Suc.prems(2) by (auto simp: sqlite_query_def split: if_splits)
    then have "queryEvents db jq = Inr ?page" by (auto simp: queryEvents_def)
    from query_pages_resume [OF assms(1) this ne]
    have rest: "query_all db (jq\<lparr>jq_cursor := Some ?c\<rparr>) = drop ?k ?all" using True by (simp add: min_absorb2)
    have "length (drop ?k ?all) < n" using Suc.prems(3) k True by simp
    then have "follow_pages deps n (set_cursor ?c params) = Some (Inr (map mapRow (drop ?k ?all)))"
      using Suc.IH [OF request_set_cursor [OF Suc.prems(1)] query_set_cursor [OF Suc.prems(2)]] rest by metis
    then show ?thesis using h True by (simp add: map_append [symmetric] del: map_append)
  qed
qed simp

text \<open>
  C14. Following the cursors of the journal endpoint over SQLite gives every matching event exactly once and in order: when the first
  request of a client is answered, at any page size, the requests that follow its \<open>nextCursor\<close> are answered too, come to an end after at most as many
  pages as there are events, and the pages together are the whole result of the query.
\<close>

theorem journal_pages_are_complete:
  assumes "sq_inv db" "reads_journal db deps" "handleJournal deps params = Inr page" "length (db_journal db) < n"
  shows "\<exists>q jq. journal_request params = Inr q \<and> sqlite_query q = Inr jq
    \<and> follow_pages deps n params = Some (Inr (map mapRow (query_all db jq)))"
proof -
  obtain q where q: "journal_request params = Inr q" using assms(3) by (auto simp: handleJournal_def try_then_eq)
  moreover obtain jq where jq: "sqlite_query q = Inr jq"
    using assms(2,3) q by (auto simp: handleJournal_def reads_journal_def sqlite_events_def thrown_def try_then_eq split: sum.splits)
  moreover have "length (query_all db jq) < n"
    using assms(4) le_less_trans [OF length_filter_le] by (simp add: query_all_def Let_def)
  ultimately show ?thesis using pages_collect [OF assms(1,2) q jq] by blast
qed


text \<open>The two rows of \<open>Sqlite_Queries\<close>, one by one.\<close>

definition demo_deps :: "(unit, unit, unit) read_deps" where
  "demo_deps = \<lparr>rd_list = (\<lambda>_. []), rd_view = (\<lambda>_ _. None), rd_queryEvents = sqlite_events demo_db, rd_eventByEventId = (\<lambda>_. None),
     rd_causationChain = (\<lambda>_. []), rd_signals = None, rd_recorder = None, rd_tiles = None, rd_bus = False, rd_startedAt = 0\<rparr>"

lemma journal_pages_are_complete_witness:
  "\<exists>q jq. journal_request [(''limit'', ''1'')] = Inr q \<and> sqlite_query q = Inr jq
    \<and> follow_pages demo_deps 3 [(''limit'', ''1'')] = Some (Inr (map mapRow (query_all demo_db jq)))"
proof -
  have r: "reads_journal demo_db demo_deps" by (simp add: reads_journal_def demo_deps_def)
  have "nat_str 1 = ''1''" by code_simp
  then have n: "js_number ''1'' = Some 1" using js_number_nat_str [of 1] by simp
  have "trim_text ''1'' \<noteq> []" using trim_nat_str [of 1] \<open>nat_str 1 = ''1''\<close> by simp
  then have q: "journal_request [(''limit'', ''1'')] = Inr \<lparr>vq_category = None, vq_entityId = None, vq_cursor = None, vq_sinceMs = None,
      vq_causationId = None, vq_correlationId = None, vq_limit = 1, vq_desc = True\<rparr>" (is "_ = Inr ?q")
    using n by (simp add: journal_request_def param_def numParam_def orderParam_def clamp_def Let_def)
  obtain jq where jq: "sqlite_query ?q = Inr jq" by (simp add: sqlite_query_def)
  obtain page where p: "handleJournal demo_deps [(''limit'', ''1'')] = Inr page" using page_of_request [OF r q jq] by blast
  have "length (db_journal demo_db) < 3" by (simp add: demo_db_def)
  from journal_pages_are_complete [OF demo_db_inv r p this] show ?thesis .
qed

section \<open>Over the signal store\<close>

definition store_signals :: "'a signal_table \<Rightarrow> signal_request \<Rightarrow> js_error + 'a signal_row list" where
  "store_signals tbl q =
     (if sr_limit q \<noteq> of_int \<lfloor>sr_limit q\<rfloor> then Inl (JsError ''datatype mismatch'')
      else Inr (store_query \<lparr>sq_entityId = sr_entityId q, sq_sinceMs = Some \<lceil>sr_sinceMs q\<rceil>, sq_untilMs = map_option ceiling (sr_untilMs q),
             sq_limit = Some \<lfloor>sr_limit q\<rfloor>, sq_desc = sr_desc q\<rparr> tbl))"

text \<open>The rows of an answer in ascending order are the newest ones: the end of all that match.\<close>

lemma signals_keep_the_newest:
  fixes tbl :: "'a signal_table"
  shows "rev (store_query (q\<lparr>sq_desc := True\<rparr>) tbl) =
     (let rows = sort_key row_order (filter (signal_matches q) tbl) in drop (length rows - nat (Ha_Signals.query_limit q)) rows)"
proof -
  have "(signal_matches (q\<lparr>sq_desc := True\<rparr>) :: 'a signal_row \<Rightarrow> bool) = signal_matches q" by (simp add: signal_matches_def fun_eq_iff)
  moreover have "Ha_Signals.query_limit (q\<lparr>sq_desc := True\<rparr>) = Ha_Signals.query_limit q" by (simp add: Ha_Signals.query_limit_def)
  ultimately show ?thesis by (simp add: store_query_def Let_def rev_take)
qed

section \<open>Requests that are not answered\<close>

text \<open>Only a bad request is caught: an escape that is not one, or a page size that is not whole, is thrown to the caller.\<close>

lemma malformed_escape_is_thrown:
  "api_handle deps ''/api'' now \<lparr>rq_method = ''GET'', rq_pathname = ''/api/views/%zz'', rq_params = []\<rparr> = Inl (JsError ''URI malformed'')"
proof -
  have "decodeURIComponent ''views'' = Some ''views''" by simp
  moreover have "decodeURIComponent ''%zz'' = None"
    by (simp add: percent_sequence_def percent_byte_def hex_value_def digit_of_def ascii_lower_def)
  ultimately show ?thesis
    by (simp add: api_handle_def api_route_def below_base_def del: decodeURIComponent.simps)
qed

lemma fractional_limit_is_thrown:
  assumes "reads_journal db deps" "journal_request params = Inr q" "vq_limit q \<noteq> of_int \<lfloor>vq_limit q\<rfloor>"
  shows "handleJournal deps params = Inl (Thrown (JsError ''datatype mismatch''))"
  using assms by (simp add: handleJournal_def reads_journal_def sqlite_events_def sqlite_query_def thrown_def)

end
