(* ===== verification/Http_Routes.thy ===== *)
theory Http_Routes
  imports Js_Number Entity_Runner Node_Flow_Def
begin

text \<open>
  \<open>http/aggregate-routes.ts\<close>: commands to aggregates over HTTP. The runtime is a function \<open>ask\<close> on its state, the body of a request is
  given parsed, or as \<open>None\<close> when it is not JSON, and a header that is absent is \<open>None\<close>.
\<close>

section \<open>Replies and headers\<close>

record ask_meta =
  am_sequenceNr :: nat
  am_preSequenceNr :: nat

record ask_result =
  ar_reply :: "js_val option"
  ar_meta :: "ask_meta option"

record http_response =
  hr_status :: nat
  hr_body :: js_val
  hr_etag :: "string option"

definition json_response :: "js_val \<Rightarrow> nat \<Rightarrow> http_response" where
  "json_response body status = \<lparr>hr_status = status, hr_body = body, hr_etag = None\<rparr>"

definition error_json :: "string \<Rightarrow> js_val" where
  "error_json e = JObj [(''error'', JStr e)]"

fun mapReplyError :: "reply_error \<Rightarrow> nat \<times> js_val" where
  "mapReplyError Timeout = (504, error_json ''Timeout'')"
| "mapReplyError (CategoryNotFound c) = (404, JObj [(''error'', JStr ''CategoryNotFound''), (''categoryId'', JStr c)])"
| "mapReplyError (General m) = (500, error_json m)"

text \<open>\<open>parseInt(raw, 10)\<close>: white space, a sign, and as many digits as there are; \<open>None\<close> is NaN.\<close>

definition parseInt :: "string \<Rightarrow> int option" where
  "parseInt raw =
     (case split_sign (dropWhile is_space raw) of (neg, t) \<Rightarrow>
        (let ds = takeWhile (is_digit_in 10) t
         in if ds = [] then None else Some (if neg then - int (digits_value 10 ds) else int (digits_value 10 ds))))"

definition strip_quotes :: "string \<Rightarrow> string" where
  "strip_quotes h =
     (if 2 \<le> length h \<and> hd h = CHR 0x22 \<and> last h = CHR 0x22 \<and> CHR 0x0A \<notin> set h then butlast (tl h) else h)"

text \<open>\<open>Some None\<close> is a header that cannot be read.\<close>

definition parseIfMatch :: "string option \<Rightarrow> int option option" where
  "parseIfMatch header =
     (case header of None \<Rightarrow> None | Some h \<Rightarrow> if h = [] then None else Some (parseInt (strip_quotes h)))"

definition etag_of :: "nat \<Rightarrow> string" where
  "etag_of n = CHR 0x22 # nat_str n @ [CHR 0x22]"

section \<open>Handling a command\<close>

definition has_tag :: "js_val \<Rightarrow> bool" where
  "has_tag v = (case v of JObj ps \<Rightarrow> ''tag'' \<in> fst ` set ps | _ \<Rightarrow> False)"

definition is_rejected :: "string option \<Rightarrow> js_val \<Rightarrow> bool" where
  "is_rejected rejectTag v =
     (case rejectTag of None \<Rightarrow> False | Some t \<Rightarrow> (case v of JObj ps \<Rightarrow> js_get ps ''tag'' = Some (JStr t) | _ \<Rightarrow> False))"

definition reply_response :: "string option \<Rightarrow> js_val option \<Rightarrow> http_response" where
  "reply_response rejectTag rep =
     (case rep of None \<Rightarrow> json_response (JObj [(''status'', JStr ''ok'')]) 200
      | Some v \<Rightarrow> json_response v (if is_rejected rejectTag v then 400 else 200))"

record route_request =
  qr_body :: "js_val option"
  qr_ifMatch :: "string option"

type_synonym 'w asks = "string \<Rightarrow> js_val \<Rightarrow> 'w \<Rightarrow> (reply_error + ask_result) \<times> 'w"

text \<open>What is answered once the command has been processed.\<close>

definition settled_response :: "string option \<Rightarrow> bool \<Rightarrow> string option \<Rightarrow> ask_result \<Rightarrow> http_response" where
  "settled_response rejectTag useEtag header r =
     (case ar_meta r of
        Some meta \<Rightarrow>
          if useEtag
          then (case parseIfMatch header of
                  Some None \<Rightarrow> json_response (error_json ''Invalid If-Match header'') 400
                | Some (Some n) \<Rightarrow>
                    if n \<noteq> int (am_preSequenceNr meta)
                    then json_response (JObj [(''error'', JStr ''Conflict''), (''expected'', JNum (of_int n)),
                           (''actual'', JNum (real (am_preSequenceNr meta)))]) 409
                    else (reply_response rejectTag (ar_reply r))\<lparr>hr_etag := Some (etag_of (am_sequenceNr meta))\<rparr>
                | None \<Rightarrow> (reply_response rejectTag (ar_reply r))\<lparr>hr_etag := Some (etag_of (am_sequenceNr meta))\<rparr>)
          else reply_response rejectTag (ar_reply r)
      | None \<Rightarrow> reply_response rejectTag (ar_reply r))"

definition handleCommand :: "'w asks \<Rightarrow> string option \<Rightarrow> bool \<Rightarrow> string \<Rightarrow> route_request \<Rightarrow> 'w \<Rightarrow> http_response \<times> 'w" where
  "handleCommand ask rejectTag useEtag eid req w =
     (case qr_body req of
        None \<Rightarrow> (json_response (error_json ''Invalid JSON body'') 400, w)
      | Some command \<Rightarrow>
          if \<not> has_tag command
          then (json_response (error_json (''Command must have a '' @ [CHR 0x22] @ ''tag'' @ [CHR 0x22] @ '' field'')) 400, w)
          else (case ask eid command w of
                  (Inl e, w') \<Rightarrow> (json_response (snd (mapReplyError e)) (fst (mapReplyError e)), w')
                | (Inr r, w') \<Rightarrow> (settled_response rejectTag useEtag (qr_ifMatch req) r, w')))"

section \<open>Routes\<close>

text \<open>The outer \<open>None\<close> is an option that is not given, the inner one \<open>false\<close>.\<close>

record route_options =
  ro_rejectTag :: "string option option"
  ro_etag :: "bool option"

definition reject_tag :: "route_options \<Rightarrow> string option" where
  "reject_tag opts = (case ro_rejectTag opts of None \<Rightarrow> Some ''Rejected'' | Some t \<Rightarrow> t)"

definition use_etag :: "route_options \<Rightarrow> bool" where
  "use_etag opts = (case ro_etag opts of None \<Rightarrow> True | Some b \<Rightarrow> b)"

definition aggregateRoutes :: "'w asks \<Rightarrow> route_options \<Rightarrow> string \<Rightarrow> route_request \<Rightarrow> 'w \<Rightarrow> http_response \<times> 'w" where
  "aggregateRoutes ask opts entityId req w = handleCommand ask (reject_tag opts) (use_etag opts) entityId req w"

text \<open>The runtime is asked with the category; the last of two categories with one name is kept.\<close>

definition category_map :: "('c \<Rightarrow> string) \<Rightarrow> 'c list \<Rightarrow> (string, 'c) jsmap" where
  "category_map name cats = js_of_list (map (\<lambda>c. (name c, c)) cats)"

definition allAggregateRoutes :: "('c \<Rightarrow> 'w asks) \<Rightarrow> ('c \<Rightarrow> string) \<Rightarrow> 'c list \<Rightarrow> route_options \<Rightarrow> string \<Rightarrow> string \<Rightarrow> route_request \<Rightarrow> 'w \<Rightarrow>
    http_response \<times> 'w" where
  "allAggregateRoutes ask name cats opts categoryId entityId req w =
     (case js_get (category_map name cats) categoryId of
        None \<Rightarrow> (json_response (snd (mapReplyError (CategoryNotFound categoryId))) 404, w)
      | Some cat \<Rightarrow> handleCommand (ask cat) (reject_tag opts) (use_etag opts) entityId req w)"

section \<open>What a response tells\<close>

lemma quote_in_etag: "strip_quotes (etag_of n) = nat_str n"
proof -
  obtain ds where "nat_str n = map digit_char ds" "list_all (\<lambda>d. d < 10) ds" using nat_str_digits by blast
  moreover have "digit_char d \<noteq> CHR 0x0A" if "d < 10" for d
  proof -
    have "of_char (digit_char d) = d + 48" using that by (simp add: digit_char_def)
    then show ?thesis by auto
  qed
  ultimately have "\<forall>c \<in> set (nat_str n). c \<noteq> CHR 0x0A" by (simp add: list_all_iff)
  then have "CHR 0x0A \<notin> set (nat_str n)" by blast
  then show ?thesis by (simp add: strip_quotes_def etag_of_def)
qed

lemma parseInt_nat_str: "parseInt (nat_str n) = Some (int n)"
proof -
  obtain ds where ds: "nat_str n = map digit_char ds" "list_all (\<lambda>d. d < 10) ds" "ds \<noteq> []" using nat_str_digits by blast
  then obtain d es where e: "ds = d # es" "d < 10" by (cases ds) auto
  have "list_all (is_digit_in 10) (map digit_char ds)" using ds(2) by (auto simp: list_all_iff digit_char_facts)
  then have "takeWhile (is_digit_in 10) (map digit_char ds) = map digit_char ds" by (auto simp: list_all_iff takeWhile_eq_all_conv)
  moreover have "dropWhile is_space (map digit_char ds) = map digit_char ds" using e digit_char_facts(2) by simp
  ultimately show ?thesis
    using ds(1,3) e digit_char_facts(5) [OF e(2)] digits_value_nat_str [of n] by (simp add: parseInt_def split_sign_def Let_def)
qed

text \<open>The tag of a response is accepted as the \<open>If-Match\<close> of the next request.\<close>

lemma etag_roundtrip: "parseIfMatch (Some (etag_of n)) = Some (Some (int n))"
  using quote_in_etag [of n] parseInt_nat_str [of n] by (simp add: parseIfMatch_def) (simp add: etag_of_def)

text \<open>
  The runtime is asked at most once, exactly when the body is an object with a tag; the status is one of six, and 409 is answered exactly when the runtime has
  processed the command and the version before it was not the one in the header.
\<close>

lemma command_outcome:
  assumes "handleCommand ask rejectTag useEtag eid req w = (resp, w')"
  shows "hr_status resp \<in> {200, 400, 404, 409, 500, 504}
    \<and> w' = (if \<exists>c. qr_body req = Some c \<and> has_tag c then snd (ask eid (the (qr_body req)) w) else w)"
    and "hr_status resp = 409 \<longleftrightarrow> (\<exists>c r meta n. qr_body req = Some c \<and> has_tag c \<and> fst (ask eid c w) = Inr r \<and> ar_meta r = Some meta
      \<and> useEtag \<and> parseIfMatch (qr_ifMatch req) = Some (Some n) \<and> n \<noteq> int (am_preSequenceNr meta))"
proof -
  define S where "S = {200, 400, 404, 409, 500, 504 :: nat}"
  have S: "200 \<in> S" "400 \<in> S" "404 \<in> S" "409 \<in> S" by (simp_all add: S_def)
  have m: "fst (mapReplyError e) \<in> S" for e by (cases e) (simp_all add: S_def)
  have m9: "fst (mapReplyError e) \<noteq> 409" for e by (cases e) auto
  show "hr_status resp \<in> {200, 400, 404, 409, 500, 504}
    \<and> w' = (if \<exists>c. qr_body req = Some c \<and> has_tag c then snd (ask eid (the (qr_body req)) w) else w)"
    unfolding S_def [symmetric]
    using assms m S by (auto simp: handleCommand_def settled_response_def reply_response_def json_response_def
        split: option.splits if_splits prod.splits sum.splits)
  show "hr_status resp = 409 \<longleftrightarrow> (\<exists>c r meta n. qr_body req = Some c \<and> has_tag c \<and> fst (ask eid c w) = Inr r \<and> ar_meta r = Some meta
      \<and> useEtag \<and> parseIfMatch (qr_ifMatch req) = Some (Some n) \<and> n \<noteq> int (am_preSequenceNr meta))"
    using assms m9 by (auto simp: handleCommand_def settled_response_def reply_response_def json_response_def
        split: option.splits if_splits prod.splits sum.splits)
qed

section \<open>What the version check does not do\<close>

text \<open>
  "Requests with If-Match are validated against the current version": the check comes after the runtime has processed the command, so a stale request is answered
  with a conflict and its events are there all the same. A header that cannot be read is answered with a bad request, after the command too.
\<close>

definition count_ask :: "nat asks" where
  "count_ask eid c w = (Inr \<lparr>ar_reply = None, ar_meta = Some \<lparr>am_sequenceNr = Suc w, am_preSequenceNr = w\<rparr>\<rparr>, Suc w)"

lemma conflict_after_the_command:
  "map_prod hr_status id (handleCommand count_ask None True ''e'' \<lparr>qr_body = Some (JObj [(''tag'', JStr ''Add'')]), qr_ifMatch = Some ''3''\<rparr> 7) = (409, 8)
   \<and> map_prod hr_status id (handleCommand count_ask None True ''e'' \<lparr>qr_body = Some (JObj [(''tag'', JStr ''Add'')]), qr_ifMatch = Some ''W''\<rparr> 7) = (400, 8)"
  by code_simp

end
