(* ===== verification/Spec2Isabelle.thy ===== *)
theory Spec2Isabelle
  imports Ulid Capability Node_Flow Window Runtime Effects InMem_Tail Sqlite_Tail Runner_Recovery Projection_Runner Saga_Steps Call_Slot Petri_Firing Petri_Aggregate Pg_Runtime Journal_Client Pg_Verify Ha_Bridge Ha_Client Node_Executor Node_Support Sandbox_Replay Mcp_Client Llm_Guard Pg_Listen Test_Kit Http_Stream Http_Views Http_Routes
begin

text \<open>
  A verification development for TEOB-TS, an event-sourcing framework in TypeScript: entities decide on commands and
  persist events; journals store them; projections, sagas and read models follow them; calls to the outside go through a
  gateway with retries and a circuit breaker; Petri nets, node flows and a capability memory are built on top.

  How the parts interact. An entity runner (\<open>inmem/entity-runner.ts\<close>) recovers its state from a journal, takes commands
  from its mailbox, asks the aggregate to decide and executes the returned effect, which writes events and snapshots to
  the journal; the runtime keeps one runner per entity and routes commands to it. Tails and projections read the journal
  by its cursors, fold each event once behind an offset and keep views; sagas do the same with steps that act on other
  entities. A slot is the part of an aggregate that carries one durable call: its commands start and settle the call that
  the gateway makes. Flows are aggregates whose side effects run transitions or nodes and tell the result back.

  Which theory models what (all paths under \<open>src/src\<close>).
  \<^item> \<open>Prelude\<close>: errors as values, insertion-ordered \<open>Map\<close> and \<open>Set\<close>, folds that stop at a throw, consecutive numbers,
    decimal printing. \<open>Effects\<close>: \<open>core/effect.ts\<close>. \<open>Codec\<close>: \<open>core/codec.ts\<close>. \<open>Ulid\<close>: \<open>core/ulid.ts\<close>.
  \<^item> \<open>Journal\<close>: the interface of \<open>core/journal-store.ts\<close> as a record of operations, and the locale \<open>journal_contract\<close> of what
    a backend promises. \<open>InMem_Journal\<close>, \<open>InMem_Tail\<close>: \<open>inmem/journal.ts\<close>. \<open>Sqlite_Journal\<close>, \<open>Sqlite_Queries\<close>,
    \<open>Sqlite_Tail\<close>: \<open>sqlite/journal.ts\<close>, \<open>read-journal.ts\<close>, \<open>clean-journal.ts\<close>; each SQL statement is a function on the tables.
    Both backends interpret the contract.
  \<^item> \<open>Entity_Runner\<close>: \<open>inmem/entity-runner.ts\<close> as a machine over pending work; \<open>runner_run\<close> is every interleaving of
    messages, timers, deferred replies, other writers and kills. \<open>Runner_Recovery\<close> proves recovery once inside the
    contract and reads it off for both journals. \<open>Runtime\<close>: \<open>inmem/runtime.ts\<close> and the mailbox.
  \<^item> \<open>Pg_Journal\<close>: the writers of \<open>postgres/journal.ts\<close>, one statement at a time over any number of connections; \<open>Pg_Writers\<close> shows
    that the table consists of whole batches. \<open>Pg_Runner\<close>: the reads and the entity runner of \<open>postgres/runtime.ts\<close>, one query at
    a time; \<open>Pg_Recovery\<close>: any number of incarnations of an entity over one database. \<open>Pg_Runtime\<close>: its modules.
    \<open>Pg_Read\<close>: \<open>read-journal.ts\<close>, \<open>clean-journal.ts\<close>, \<open>retry.ts\<close>. \<open>Pg_Listen\<close>: \<open>listen.ts\<close>.
  \<^item> \<open>Call\<close>, \<open>Circuit_Breaker\<close>, \<open>Call_Gateway\<close>, \<open>Call_Slot\<close>: \<open>core/call\<close>. \<open>Window\<close>: \<open>core/window.ts\<close>.
  \<^item> \<open>Read_Model\<close>: the subscriptions of \<open>core/aggregation.ts\<close> and the cache of \<open>core/read-model.ts\<close>. \<open>Journal_Client\<close>: the restarts and
    start slots of \<open>core/journal-client.ts\<close>. \<open>Replay_Verifier\<close>: \<open>core/journal-replay-verifier.ts\<close>, \<open>core/invariant.ts\<close>;
    \<open>Pg_Verify\<close> ties its verdict to the live entities of the Postgres runtime.
  \<^item> \<open>Projection_Store\<close>, \<open>Projection\<close>, \<open>Projection_Runner\<close>: \<open>projection\<close>. \<open>Saga\<close>, \<open>Saga_Steps\<close>: \<open>saga\<close>.
  \<^item> \<open>Petri_Flow\<close>, \<open>Petri_Firing\<close>, \<open>Petri_Schema\<close>, \<open>Petri_Aggregate\<close>: \<open>petrinet\<close>.
  \<^item> \<open>Node_Flow_Def\<close>, \<open>Node_Flow\<close>: \<open>ai/node-flow/{nodes,def,aggregate}.ts\<close>. \<open>Capability\<close>: \<open>ai/capability\<close>.
  \<^item> \<open>Ha_Signals\<close>: \<open>ha/normalize.ts\<close>, \<open>ha/signal-store.ts\<close>. \<open>Ha_Detectors\<close>: \<open>ha/detectors.ts\<close>. \<open>Ha_Bridge\<close>: \<open>ha/bridge.ts\<close>. \<open>Ha_Client\<close>:
    \<open>ha/client.ts\<close>, an event loop of tasks and continuations.
  \<^item> \<open>Js_Number\<close>: \<open>Number(text)\<close>. \<open>Node_Guard\<close>: paths, guards and templates of \<open>ai/node-flow/{guard,context}.ts\<close>.
    \<open>Node_Executor\<close>: \<open>executor.ts\<close>. \<open>Node_Support\<close>: \<open>codec.ts\<close>, \<open>projection.ts\<close>, \<open>webhook-trigger.ts\<close>, \<open>self-inspect-tool.ts\<close>.
  \<^item> \<open>Tool_Registry\<close>: \<open>ai/tool\<close>. \<open>Llm_Service\<close>: the interface of \<open>ai/llm\<close>, its costs and the collector of streams; \<open>Llm_Guard\<close>:
    the spend limit and \<open>ai/guardrail\<close>. \<open>Sandbox_Record\<close>, \<open>Sandbox_Run\<close>: the services, runner, comparison and evaluators
    of \<open>ai/sandbox\<close>; \<open>Sandbox_Replay\<close> shows what a replay reproduces. \<open>Mcp_Server\<close>: \<open>mcp\<close>, \<open>mcp-server\<close>. \<open>Mcp_Client\<close>:
    \<open>mcp-server/stdio.ts\<close> and \<open>ai/tool/mcp\<close>.
  \<^item> \<open>Http_Stream\<close>: the bus and the event streams of \<open>http/sse.ts\<close>. \<open>Http_Views\<close>: \<open>http/views.ts\<close>, also over the SQLite journal.
    \<open>Http_Routes\<close>: \<open>http/aggregate-routes.ts\<close>.
  \<^item> \<open>Test_Kit\<close>: \<open>testing/{aggregate-testkit,invariant-testkit}.ts\<close>, compared with the entity runner.

  How the state corresponds. A record has the fields of the class, interface or closure it stands for; a module-level
  \<open>Map\<close> is an association list in insertion order; a promise that is not settled is an entry of a list of waiters; a
  function of the user (an aggregate, a codec, a saga handler, an LLM) is an argument of the model and may answer
  differently at each call where the code awaits it; the clock and random numbers are arguments. Everything that
  throws returns a sum. Interleaving is explicit: a handler that awaits is split into the steps between its awaits.

  What the lemmas show. Each component theory has its invariant and that every operation keeps it; the properties are
  those with a claim number in their text, which also states their conditions. They show crash consistency of entities over every
  backend, exactly-once delivery of the tails, that projections equal a rebuild from the journal unless a tail went past an event it
  had failed to fold, that saga steps run in order, and once while no two runners work at one entity, that a durable call ends and is
  attempted at most as often as configured, what a call of the gateway does with its breaker and its semaphore under every
  interleaving, that the ledger of a Petri flow balances for any caller, that a validated schema is sound, that a node flow starts
  nodes in dependency order and completes, that compilation accepts exactly the acyclic flows, that paged reads, windows and round
  trips agree with their references, that a recorded agent run is reproduced by its replay, that tools are run over the network only
  as declared and named, that a spend limit is overrun by the calls under way only, that the test kit predicts the live entity of an
  aggregate without stashing, that a listener holds one connection and when stopped ends after at most one timer, and that streams and
  pages of the read side lose and repeat nothing. Lemmas that are named in the findings show inputs on which the code does not do
  what its comments say, and the inputs that the conditions of the properties exclude.

  Bounds and fuel. Recursion is structural or has a measure, except: the depth-first search of \<open>Node_Flow_Def\<close> has a fuel of
  the number of nodes plus one, and \<open>compile_accepts_exactly_dags\<close> shows that it never runs out; breadth-first
  searches of \<open>Petri_Schema\<close> terminate because they add a node of the finite graph in each turn; tails and loops that may run
  for ever are step relations.

  Not modelled, and why. Numbers of JavaScript are integers, rationals or reals: rounding and NaN are
  not modelled, and sequence numbers have no upper bound. Text is ASCII where its characters matter. Logging and metrics have
  no effect on the modelled state and are left out. \<open>ctx.tell\<close>, \<open>ctx.ask\<close> and \<open>ctx.sync\<close> only put messages into
  mailboxes, which \<open>runner_run\<close> allows at any moment. Not modelled at all are the OpenAPI document,
  telemetry, the command line, service templates and the adapters for language models, files and embeddings, which are input and
  output around services outside the repository; the manifest lists them with the reason.
\<close>

end
